(* ===== verification/Prelude.thy ===== *)
theory Prelude
  imports Complex_Main "HOL-Library.Word"
begin

text \<open>
  Shared vocabulary of the development: Python's \<open>bytes\<close> as lists of 8-bit words, its slices,
  \<open>int.from_bytes\<close> / \<open>int.to_bytes\<close>, hexadecimal text, the string helpers the source calls
  (\<open>strip\<close>, \<open>lower\<close>, \<open>split\<close>, \<open>find\<close>, \<open>int(s, base)\<close>), strict and lenient UTF-8, and the bit
  arithmetic of Python integers. Two locales hold the contracts several components share: a codec
  whose decoder inverts its encoder, and a state machine whose steps keep an invariant.

  Conventions. A non-negative Python integer is a \<^typ>\<open>nat\<close>, one that may be negative an
  \<^typ>\<open>int\<close>. A \<open>str\<close> whose characters are ASCII by construction (hexadecimal, base 36, basE91,
  configuration text) is a \<^typ>\<open>string\<close>; a \<open>str\<close> that came out of UTF-8 is a list of code points.
  An exception is the left summand of a result. Log output and the text of an error message are
  not modelled.
\<close>

unbundle bit_operations_syntax

section \<open>Types\<close>

type_synonym byte = "8 word"
type_synonym bytes = "byte list"
type_synonym ustr = "nat list"

datatype py_error =
    ValueError
  | IndexError
  | OverflowError
  | ZeroDivisionError
  | RuntimeError
  | StopIteration
  | RansFormatError
  | EntropyTableFormatError
  | ChannelDataFormatError
  | AeicTextFormatError
  | MeshCompressorError
  | CronParseError
  | MCOtxtError
  | KeyError
  | IntegrityError

type_synonym 'a res = "py_error + 'a"

named_theorems pybits
named_theorems bytes_simps

section \<open>Results\<close>

fun bind_res :: "'a res \<Rightarrow> ('a \<Rightarrow> 'b res) \<Rightarrow> 'b res" where
  "bind_res (Inl e) f = Inl e"
| "bind_res (Inr x) f = f x"

fun map_res :: "('a \<Rightarrow> 'b res) \<Rightarrow> 'a list \<Rightarrow> 'b list res" where
  "map_res f [] = Inr []"
| "map_res f (x # xs) =
     (case f x of Inl e \<Rightarrow> Inl e
      | Inr y \<Rightarrow> (case map_res f xs of Inl e \<Rightarrow> Inl e | Inr ys \<Rightarrow> Inr (y # ys)))"

text \<open>\<open>xs[i]\<close>: a negative index counts from the end.\<close>

definition py_get :: "'a list \<Rightarrow> int \<Rightarrow> 'a res" where
  "py_get xs i =
     (let j = (if i < 0 then i + int (length xs) else i)
      in if 0 \<le> j \<and> j < int (length xs) then Inr (xs ! nat j) else Inl IndexError)"

section \<open>Byte strings\<close>

text \<open>The Python slice \<open>xs[i:j]\<close> with non-negative bounds; bounds past the end are clamped.\<close>

definition slice :: "nat \<Rightarrow> nat \<Rightarrow> 'a list \<Rightarrow> 'a list" where
  "slice i j xs = take (j - i) (drop i xs)"

text \<open>\<open>[xs[i : i + n] for i in range(0, len(xs), n)]\<close>; Python raises for \<open>n = 0\<close>, every caller passes \<open>n > 0\<close>.\<close>

function chunks :: "nat \<Rightarrow> 'a list \<Rightarrow> 'a list list" where
  "chunks n xs = (if xs = [] \<or> n = 0 then [] else take n xs # chunks n (drop n xs))"
  by pat_completeness auto
termination
  by (relation "measure (\<lambda>(n, xs). length xs)") auto

declare chunks.simps [simp del]

definition byte_of :: "nat \<Rightarrow> byte" where
  "byte_of n = word_of_nat n"

fun from_le :: "bytes \<Rightarrow> nat" where
  "from_le [] = 0"
| "from_le (b # bs) = unat b + 256 * from_le bs"

fun to_le :: "nat \<Rightarrow> nat \<Rightarrow> bytes" where
  "to_le 0 x = []"
| "to_le (Suc n) x = byte_of (x mod 256) # to_le n (x div 256)"

text \<open>\<open>int.from_bytes(bs, "little", signed=True)\<close>.\<close>

definition from_le_signed :: "bytes \<Rightarrow> int" where
  "from_le_signed bs =
     (let n = length bs; v = int (from_le bs)
      in if n = 0 then 0 else if v < 2 ^ (8 * n - 1) then v else v - 2 ^ (8 * n))"

text \<open>\<open>x.to_bytes(n, "little")\<close> and \<open>x.to_bytes(n, "little", signed=True)\<close>.\<close>

definition to_bytes_le :: "nat \<Rightarrow> int \<Rightarrow> bytes res" where
  "to_bytes_le n x = (if 0 \<le> x \<and> x < 256 ^ n then Inr (to_le n (nat x)) else Inl OverflowError)"

definition to_bytes_le_signed :: "nat \<Rightarrow> int \<Rightarrow> bytes res" where
  "to_bytes_le_signed n x =
     (if - (2 ^ (8 * n - 1)) \<le> x \<and> x < 2 ^ (8 * n - 1) then Inr (to_le n (nat (x mod 256 ^ n)))
      else Inl OverflowError)"

text \<open>\<open>data[:n].ljust(n, b"\<backslash>x00")\<close>.\<close>

definition fixed :: "bytes \<Rightarrow> nat \<Rightarrow> bytes" where
  "fixed data n = take n data @ replicate (n - length (take n data)) 0"

section \<open>Text\<close>

definition hex_digit :: "nat \<Rightarrow> char" where
  "hex_digit n = ''0123456789abcdef'' ! (n mod 16)"

definition hex_byte :: "byte \<Rightarrow> string" where
  "hex_byte b = [hex_digit (unat b div 16), hex_digit (unat b mod 16)]"

text \<open>An ASCII bytes literal.\<close>

definition ascii :: "string \<Rightarrow> bytes" where
  "ascii s = map (\<lambda>c. byte_of (of_char c)) s"

text \<open>\<open>data.hex()\<close>.\<close>

definition hex_of :: "bytes \<Rightarrow> string" where
  "hex_of bs = concat (map hex_byte bs)"

definition hex_val :: "char \<Rightarrow> nat option" where
  "hex_val c =
     (let n = of_char c :: nat in
      if 48 \<le> n \<and> n \<le> 57 then Some (n - 48)
      else if 97 \<le> n \<and> n \<le> 102 then Some (n - 87)
      else if 65 \<le> n \<and> n \<le> 70 then Some (n - 55)
      else None)"

definition is_hex :: "char \<Rightarrow> bool" where
  "is_hex c \<longleftrightarrow> hex_val c \<noteq> None"

text \<open>ASCII white space, which \<open>bytes.fromhex\<close> skips between the byte pairs.\<close>

definition ascii_space :: "char \<Rightarrow> bool" where
  "ascii_space c \<longleftrightarrow> (let n = of_char c :: nat in n = 32 \<or> (9 \<le> n \<and> n \<le> 13))"

fun fromhex :: "string \<Rightarrow> bytes option" where
  "fromhex [] = Some []"
| "fromhex [c] = (if ascii_space c then Some [] else None)"
| "fromhex (c # d # cs) =
     (if ascii_space c then fromhex (d # cs)
      else case (hex_val c, hex_val d) of
             (Some h, Some l) \<Rightarrow> map_option ((#) (byte_of (16 * h + l))) (fromhex cs)
           | _ \<Rightarrow> None)"

text \<open>White space of \<open>str.strip\<close> among the characters below U+0100.\<close>

definition py_space :: "char \<Rightarrow> bool" where
  "py_space c \<longleftrightarrow>
     (let n = of_char c :: nat in (9 \<le> n \<and> n \<le> 13) \<or> (28 \<le> n \<and> n \<le> 32) \<or> n = 133 \<or> n = 160)"

definition strip :: "string \<Rightarrow> string" where
  "strip s = rev (dropWhile py_space (rev (dropWhile py_space s)))"

definition lower_char :: "char \<Rightarrow> char" where
  "lower_char c =
     (let n = of_char c :: nat in
      if (65 \<le> n \<and> n \<le> 90) \<or> (192 \<le> n \<and> n \<le> 222 \<and> n \<noteq> 215) then char_of (n + 32) else c)"

definition lower :: "string \<Rightarrow> string" where
  "lower s = map lower_char s"

text \<open>\<open>s.split(c)\<close> for a one-character separator: always at least one part.\<close>

fun split_on :: "'a \<Rightarrow> 'a list \<Rightarrow> 'a list list" where
  "split_on c [] = [[]]"
| "split_on c (x # xs) =
     (if x = c then [] # split_on c xs
      else case split_on c xs of [] \<Rightarrow> [[x]] | p # ps \<Rightarrow> (x # p) # ps)"

text \<open>\<open>s.find(t)\<close>, with \<^const>\<open>None\<close> for the source's \<open>-1\<close>.\<close>

fun find_sub :: "'a list \<Rightarrow> 'a list \<Rightarrow> nat option" where
  "find_sub t [] = (if t = [] then Some 0 else None)"
| "find_sub t (x # xs) =
     (if take (length t) (x # xs) = t then Some 0 else map_option Suc (find_sub t xs))"

definition starts_with :: "'a list \<Rightarrow> 'a list \<Rightarrow> bool" where
  "starts_with p s \<longleftrightarrow> take (length p) s = p"

text \<open>
  The numeral text of \<open>int(s, base)\<close> for \<open>base\<close> up to 36: surrounding white space, one sign, and
  single underscores between digits are accepted, as Python does.
\<close>

definition digit_val :: "nat \<Rightarrow> char \<Rightarrow> nat option" where
  "digit_val base c =
     (let n = of_char c :: nat;
          v = (if 48 \<le> n \<and> n \<le> 57 then n - 48
               else if 97 \<le> n \<and> n \<le> 122 then n - 87
               else if 65 \<le> n \<and> n \<le> 90 then n - 55
               else 36)
      in if v < base then Some v else None)"

fun digits_val :: "nat \<Rightarrow> nat \<Rightarrow> string \<Rightarrow> nat option" where
  "digits_val base acc [] = Some acc"
| "digits_val base acc (c # cs) =
     (if c = CHR ''_'' then
        (case cs of [] \<Rightarrow> None
         | d # ds \<Rightarrow> (case digit_val base d of None \<Rightarrow> None | Some v \<Rightarrow> digits_val base (acc * base + v) ds))
      else (case digit_val base c of None \<Rightarrow> None | Some v \<Rightarrow> digits_val base (acc * base + v) cs))"

definition nat_text :: "nat \<Rightarrow> string \<Rightarrow> nat option" where
  "nat_text base s =
     (case s of [] \<Rightarrow> None
      | c # cs \<Rightarrow> (case digit_val base c of None \<Rightarrow> None | Some v \<Rightarrow> digits_val base v cs))"

definition py_int :: "nat \<Rightarrow> string \<Rightarrow> int option" where
  "py_int base s =
     (case strip s of [] \<Rightarrow> None
      | c # cs \<Rightarrow>
          if c = CHR ''-'' then map_option (\<lambda>n. - int n) (nat_text base cs)
          else if c = CHR ''+'' then map_option int (nat_text base cs)
          else map_option int (nat_text base (c # cs)))"

section \<open>UTF-8\<close>

definition cont_byte :: "byte \<Rightarrow> bool" where
  "cont_byte b \<longleftrightarrow> 128 \<le> unat b \<and> unat b < 192"

definition scalar_value :: "nat \<Rightarrow> bool" where
  "scalar_value cp \<longleftrightarrow> cp < 55296 \<or> (57344 \<le> cp \<and> cp < 1114112)"

definition utf8_char :: "nat \<Rightarrow> bytes" where
  "utf8_char cp =
     (if cp < 128 then [byte_of cp]
      else if cp < 2048 then [byte_of (192 + cp div 64), byte_of (128 + cp mod 64)]
      else if cp < 65536 then
        [byte_of (224 + cp div 4096), byte_of (128 + cp div 64 mod 64),
         byte_of (128 + cp mod 64)]
      else
        [byte_of (240 + cp div 262144), byte_of (128 + cp div 4096 mod 64),
         byte_of (128 + cp div 64 mod 64), byte_of (128 + cp mod 64)])"

definition utf8_encode :: "ustr \<Rightarrow> bytes" where
  "utf8_encode s = concat (map utf8_char s)"

text \<open>
  One step of CPython's decoder: a code point and the rest, or the number of bytes of the ill-formed
  (or truncated) sequence at the front. The bounds on the second byte exclude overlong forms,
  surrogates and values above U+10FFFF.
\<close>

fun utf8_step :: "bytes \<Rightarrow> (nat + nat) \<times> bytes" where
  "utf8_step [] = (Inl 0, [])"
| "utf8_step (b # bs) =
     (let n = unat b in
      if n < 128 then (Inr n, bs)
      else if 194 \<le> n \<and> n < 224 then
        (case bs of
           c1 # r1 \<Rightarrow> if cont_byte c1 then (Inr ((n - 192) * 64 + (unat c1 - 128)), r1) else (Inl 1, bs)
         | [] \<Rightarrow> (Inl 1, bs))
      else if 224 \<le> n \<and> n < 240 then
        (case bs of
           c1 # r1 \<Rightarrow>
             if cont_byte c1 \<and> (n = 224 \<longrightarrow> 160 \<le> unat c1) \<and> (n = 237 \<longrightarrow> unat c1 < 160) then
               (case r1 of
                  c2 # r2 \<Rightarrow>
                    if cont_byte c2
                    then (Inr ((n - 224) * 4096 + (unat c1 - 128) * 64 + (unat c2 - 128)), r2)
                    else (Inl 2, r1)
                | [] \<Rightarrow> (Inl 2, r1))
             else (Inl 1, bs)
         | [] \<Rightarrow> (Inl 1, bs))
      else if 240 \<le> n \<and> n < 245 then
        (case bs of
           c1 # r1 \<Rightarrow>
             if cont_byte c1 \<and> (n = 240 \<longrightarrow> 144 \<le> unat c1) \<and> (n = 244 \<longrightarrow> unat c1 < 144) then
               (case r1 of
                  c2 # r2 \<Rightarrow>
                    if cont_byte c2 then
                      (case r2 of
                         c3 # r3 \<Rightarrow>
                           if cont_byte c3
                           then (Inr ((n - 240) * 262144 + (unat c1 - 128) * 4096
                                      + (unat c2 - 128) * 64 + (unat c3 - 128)), r3)
                           else (Inl 3, r2)
                       | [] \<Rightarrow> (Inl 3, r2))
                    else (Inl 2, r1)
                | [] \<Rightarrow> (Inl 2, r1))
             else (Inl 1, bs)
         | [] \<Rightarrow> (Inl 1, bs))
      else (Inl 1, bs))"

lemma utf8_step_rest: "(r, rest) = utf8_step bs \<Longrightarrow> bs \<noteq> [] \<Longrightarrow> length rest < length bs"
  by (cases bs) (auto simp: Let_def split: list.splits if_splits)

declare utf8_step.simps [simp del]

text \<open>\<open>data.decode("utf-8")\<close>, \<^const>\<open>None\<close> for \<open>UnicodeDecodeError\<close>, and \<open>decode("utf-8", "ignore")\<close>.\<close>

function utf8_decode :: "bytes \<Rightarrow> ustr option" where
  "utf8_decode bs =
     (if bs = [] then Some []
      else case utf8_step bs of
             (Inl _, _) \<Rightarrow> None
           | (Inr cp, rest) \<Rightarrow> map_option ((#) cp) (utf8_decode rest))"
  by pat_completeness auto
termination
  by (relation "measure length") (auto dest: utf8_step_rest)

function utf8_decode_ignore :: "bytes \<Rightarrow> ustr" where
  "utf8_decode_ignore bs =
     (if bs = [] then []
      else case utf8_step bs of
             (Inl _, rest) \<Rightarrow> utf8_decode_ignore rest
           | (Inr cp, rest) \<Rightarrow> cp # utf8_decode_ignore rest)"
  by pat_completeness auto
termination
  by (relation "measure length") (auto dest: utf8_step_rest)

declare utf8_decode.simps [simp del] utf8_decode_ignore.simps [simp del]

section \<open>Guards\<close>

lemma if_Inl_eq_Inr [simp]: "(if a then Inl e else r) = Inr y \<longleftrightarrow> \<not> a \<and> r = Inr y"
  by simp

lemma if_None_eq_Some [simp]: "(if a then None else r) = Some y \<longleftrightarrow> \<not> a \<and> r = Some y"
  by simp

lemma bind_res_Inr: "bind_res r f = Inr y \<longleftrightarrow> (\<exists>x. r = Inr x \<and> f x = Inr y)"
  by (cases r) auto

lemma py_get_nth [simp]: "0 \<le> i \<Longrightarrow> i < int (length xs) \<Longrightarrow> py_get xs i = Inr (xs ! nat i)"
  by (simp add: py_get_def)

section \<open>Bit arithmetic on non-negative integers\<close>

lemma and_mask_nat [pybits]: "(x::nat) AND mask n = x mod 2 ^ n"
  by (simp add: take_bit_eq_mask [symmetric] take_bit_eq_mod)

lemma and_1 [pybits]: "(x::nat) AND 1 = x mod 2"
  using and_mask_nat [of x 1] by (simp add: mask_eq_exp_minus_1)

lemma and_3 [pybits]: "(x::nat) AND 3 = x mod 4"
  using and_mask_nat [of x 2] by (simp add: mask_eq_exp_minus_1)

lemma and_15 [pybits]: "(x::nat) AND 15 = x mod 16"
  using and_mask_nat [of x 4] by (simp add: mask_eq_exp_minus_1)

lemma and_63 [pybits]: "(x::nat) AND 63 = x mod 64"
  using and_mask_nat [of x 6] by (simp add: mask_eq_exp_minus_1)

lemma and_127 [pybits]: "(x::nat) AND 127 = x mod 128"
  using and_mask_nat [of x 7] by (simp add: mask_eq_exp_minus_1)

lemma and_255 [pybits]: "(x::nat) AND 255 = x mod 256"
  using and_mask_nat [of x 8] by (simp add: mask_eq_exp_minus_1)

lemma and_8191 [pybits]: "(x::nat) AND 8191 = x mod 8192"
  using and_mask_nat [of x 13] by (simp add: mask_eq_exp_minus_1)

lemma and_16383 [pybits]: "(x::nat) AND 16383 = x mod 16384"
  using and_mask_nat [of x 14] by (simp add: mask_eq_exp_minus_1)

lemma and_65535 [pybits]: "(x::nat) AND 65535 = x mod 65536"
  using and_mask_nat [of x 16] by (simp add: mask_eq_exp_minus_1)

lemma and_4294967295 [pybits]: "(x::nat) AND 4294967295 = x mod 4294967296"
  using and_mask_nat [of x 32] by (simp add: mask_eq_exp_minus_1)

lemma bit_less_exp: "bit (y::nat) n \<Longrightarrow> y < 2 ^ k \<Longrightarrow> n < k"
  by (metis bit_take_bit_iff take_bit_nat_eq_self)

lemma or_push_bit [pybits]: "y < 2 ^ k \<Longrightarrow> push_bit k (x::nat) OR y = x * 2 ^ k + y"
proof -
  assume y: "y < 2 ^ k"
  have "push_bit k x + y = push_bit k x OR y"
    by (rule disjunctive_add) (use y bit_less_exp in \<open>auto simp: bit_push_bit_iff not_le\<close>)
  then show ?thesis by (simp add: push_bit_eq_mult)
qed

lemma or_push_bit' [pybits]: "y < 2 ^ k \<Longrightarrow> y OR push_bit k (x::nat) = x * 2 ^ k + y"
  by (subst or.commute) (rule or_push_bit)

lemmas shifts [pybits] = drop_bit_eq_div push_bit_eq_mult

section \<open>Byte strings\<close>

lemma unat_byte_less [simp]: "unat (b::byte) < 256"
  using unsigned_less [of b] by simp

lemma unat_byte_of [simp]: "unat (byte_of x) = x mod 256"
  by (simp add: byte_of_def unat_of_nat)

lemma byte_of_unat [simp]: "byte_of (unat b) = b"
  by (simp add: byte_of_def)

lemma byte_of_mod [simp]: "byte_of (x mod 256) = byte_of x"
  by (metis byte_of_unat unat_byte_of)

lemma byte_of_eq_iff: "byte_of x = byte_of y \<longleftrightarrow> x mod 256 = y mod 256"
  by (metis byte_of_mod unat_byte_of)

lemma length_slice [bytes_simps]: "length (slice i j xs) = min (j - i) (length xs - i)"
  by (simp add: slice_def)

lemma slice_0 [simp]: "slice 0 j xs = take j xs"
  by (simp add: slice_def)

lemma length_to_le [simp]: "length (to_le n x) = n"
  by (induction n arbitrary: x) auto

lemma from_le_less: "from_le bs < 256 ^ length bs"
proof (induction bs)
  case Nil
  then show ?case by simp
next
  case (Cons b bs)
  have "unat b < 256" by simp
  then have "unat b + 256 * from_le bs < 256 * (from_le bs + 1)" by simp
  also have "\<dots> \<le> 256 * 256 ^ length bs"
    using Cons by (intro mult_left_mono) auto
  finally show ?case by simp
qed

lemma from_le_to_le [bytes_simps]: "from_le (to_le n x) = x mod 256 ^ n"
  by (induction n arbitrary: x) (simp_all add: mod_mult2_eq)

lemma to_le_from_le: "to_le (length bs) (from_le bs) = bs"
  by (induction bs) (simp_all add: div_add1_eq)

lemma from_le_append: "from_le (xs @ ys) = from_le xs + 256 ^ length xs * from_le ys"
  by (induction xs) (simp_all add: algebra_simps)

lemma to_bytes_le_roundtrip: "to_bytes_le n x = Inr bs \<Longrightarrow> int (from_le bs) = x \<and> length bs = n"
  by (auto simp: to_bytes_le_def from_le_to_le nat_less_iff split: if_splits)

lemma from_le_signed_roundtrip:
  assumes "0 < n" and "to_bytes_le_signed n x = Inr bs"
  shows "from_le_signed bs = x \<and> length bs = n"
proof -
  from assms(2) have b: "- (2 ^ (8 * n - 1)) \<le> x" "x < 2 ^ (8 * n - 1)"
    and bs: "bs = to_le n (nat (x mod 256 ^ n))"
    by (auto simp: to_bytes_le_signed_def split: if_splits)
  have p: "(256::int) ^ n = 2 ^ (8 * n)" by (simp add: power_mult)
  have h: "(2::int) ^ (8 * n) = 2 * 2 ^ (8 * n - 1)"
    using assms(1) by (simp add: power_Suc [symmetric] del: power_Suc)
  have v: "int (from_le bs) = x mod 2 ^ (8 * n)"
    by (simp add: bs from_le_to_le p zmod_int nat_mod_distrib)
  show ?thesis
  proof (cases "0 \<le> x")
    case True
    then have "x mod 2 ^ (8 * n) = x" using b h by (intro mod_pos_pos_trivial) auto
    then show ?thesis using v b bs assms(1) by (simp add: from_le_signed_def Let_def)
  next
    case False
    have "x mod 2 ^ (8 * n) = (x + 2 ^ (8 * n)) mod 2 ^ (8 * n)" by simp
    also have "\<dots> = x + 2 ^ (8 * n)" using False b h by (intro mod_pos_pos_trivial) auto
    finally have "x mod 2 ^ (8 * n) = x + 2 ^ (8 * n)" .
    then show ?thesis using v b h bs assms(1) False by (simp add: from_le_signed_def Let_def)
  qed
qed

lemma length_fixed [simp]: "length (fixed data n) = n"
  by (simp add: fixed_def)

lemma fixed_exact [simp]: "length data = n \<Longrightarrow> fixed data n = data"
  by (simp add: fixed_def)

lemma chunks_Nil [simp]: "chunks n [] = []"
  by (simp add: chunks.simps)

lemma concat_chunks [simp]: "0 < n \<Longrightarrow> concat (chunks n xs) = xs"
  by (induction n xs rule: chunks.induct) (simp add: chunks.simps [of _ xs] chunks.simps)

lemma length_chunks: "0 < n \<Longrightarrow> length (chunks n xs) = (length xs + n - 1) div n"
proof (induction n xs rule: chunks.induct)
  case (1 n xs)
  show ?case
  proof (cases "xs = []")
    case True
    then show ?thesis using 1 by simp
  next
    case False
    then have "length (chunks n xs) = Suc ((length (drop n xs) + n - 1) div n)"
      using 1 by (simp add: chunks.simps [of n xs])
    also have "\<dots> = (length xs + n - 1) div n"
    proof (cases "length xs \<le> n")
      case True
      then have "(length xs + n - 1) div n = 1"
        using False 1(2) by (intro div_nat_eqI) (cases xs; auto)+
      then show ?thesis using True 1(2) by simp
    next
      case nle: False
      then have "length xs + n - 1 = (length xs - n + n - 1) + n" using 1(2) by simp
      then show ?thesis using 1(2) nle
        by (metis div_add_self2 length_drop less_numeral_extra(3) Suc_eq_plus1)
    qed
    finally show ?thesis .
  qed
qed

lemma chunks_length_le: "ys \<in> set (chunks n xs) \<Longrightarrow> length ys \<le> n \<and> ys \<noteq> []"
  by (induction n xs rule: chunks.induct) (subst (asm) (2) chunks.simps, auto split: if_splits)

lemma chunks_exact:
  "0 < m \<Longrightarrow> length xs = n * m \<Longrightarrow>
     length (chunks m xs) = n \<and> (\<forall>c \<in> set (chunks m xs). length c = m)"
proof (induction n arbitrary: xs)
  case (Suc n)
  then have eq: "chunks m xs = take m xs # chunks m (drop m xs)"
    by (auto simp: chunks.simps [of m xs])
  have l: "length (drop m xs) = n * m" "length (take m xs) = m" using Suc.prems by auto
  from Suc.IH [OF Suc.prems(1) l(1)] show ?case unfolding eq using l(2) by simp
qed simp

lemma chunks_concat: "0 < m \<Longrightarrow> \<forall>c \<in> set cs. length c = m \<Longrightarrow> chunks m (concat cs) = cs"
proof (induction cs)
  case (Cons c cs)
  then have "c \<noteq> []" by auto
  then show ?case using Cons by (simp add: chunks.simps [of m "c @ concat cs"])
qed simp

lemma length_concat_const: "\<forall>c \<in> set cs. length c = m \<Longrightarrow> length (concat cs) = length cs * m"
  by (induction cs) auto

section \<open>Hexadecimal text\<close>

lemma hex_val_digit [simp]: "hex_val (hex_digit n) = Some (n mod 16)"
proof -
  have "\<forall>k < 16. hex_val (''0123456789abcdef'' ! k) = Some k"
    by (simp add: hex_val_def All_less_Suc eval_nat_numeral)
  then show ?thesis by (simp add: hex_digit_def)
qed

lemma hex_digit_not_space [simp]: "\<not> ascii_space (hex_digit n)"
proof -
  have "\<forall>k < 16. \<not> ascii_space (''0123456789abcdef'' ! k)"
    by (simp add: ascii_space_def All_less_Suc eval_nat_numeral)
  then show ?thesis by (simp add: hex_digit_def)
qed

lemma is_hex_digit [simp]: "is_hex (hex_digit n)"
  by (simp add: is_hex_def)

lemma hex_of_Nil [simp]: "hex_of [] = []"
  by (simp add: hex_of_def)

lemma hex_of_Cons [simp]: "hex_of (b # bs) = hex_byte b @ hex_of bs"
  by (simp add: hex_of_def)

lemma hex_of_append [simp]: "hex_of (xs @ ys) = hex_of xs @ hex_of ys"
  by (simp add: hex_of_def)

lemma length_hex_of [simp]: "length (hex_of bs) = 2 * length bs"
  by (induction bs) (auto simp: hex_byte_def)

lemma fromhex_hex_of [simp]: "fromhex (hex_of bs) = Some bs"
proof (induction bs)
  case (Cons b bs)
  have "unat b div 16 mod 16 = unat b div 16"
    using unat_byte_less [of b] by (simp del: unat_byte_less)
  then show ?case using Cons by (simp add: hex_byte_def del: mod_mod_trivial)
qed simp

lemma hex_of_inject [simp]: "hex_of xs = hex_of ys \<longleftrightarrow> xs = ys"
  by (metis fromhex_hex_of option.inject)

lemma all_hex_of: "c \<in> set (hex_of bs) \<Longrightarrow> is_hex c"
  by (induction bs) (auto simp: hex_byte_def)

section \<open>Splitting\<close>

lemma split_on_not_Nil [simp]: "split_on c xs \<noteq> []"
  by (induction xs) (auto split: list.splits)

lemma split_on_no_sep: "c \<notin> set xs \<Longrightarrow> split_on c xs = [xs]"
  by (induction xs) auto

lemma split_on_append: "c \<notin> set xs \<Longrightarrow> split_on c (xs @ c # ys) = xs # split_on c ys"
  by (induction xs) (auto split: list.splits)

lemma hd_split_on: "hd (split_on c xs) = takeWhile (\<lambda>x. x \<noteq> c) xs"
  by (induction xs) (auto split: list.splits)

lemma find_sub_Some:
  "find_sub t xs = Some i \<Longrightarrow> i \<le> length xs \<and> take (length t) (drop i xs) = t"
  by (induction t xs arbitrary: i rule: find_sub.induct) (auto split: if_splits)

lemma starts_with_append [simp]: "starts_with p (p @ s)"
  by (simp add: starts_with_def)

section \<open>UTF-8\<close>

lemma cont_byte_of [simp]: "x < 64 \<Longrightarrow> cont_byte (byte_of (128 + x))"
  by (simp add: cont_byte_def unat_byte_of)

lemma base64_digits3: "(x::nat) div 4096 * 4096 + x div 64 mod 64 * 64 + x mod 64 = x"
proof -
  have "x div 64 div 64 = x div 4096" by (simp add: div_mult2_eq [symmetric])
  then show ?thesis
    using div_mult_mod_eq [of x 64] div_mult_mod_eq [of "x div 64" 64] by linarith
qed

lemma base64_digits4:
  "(x::nat) div 262144 * 262144 + x div 4096 mod 64 * 4096 + x div 64 mod 64 * 64 + x mod 64 = x"
proof -
  have "x div 4096 div 64 = x div 262144" by (simp add: div_mult2_eq [symmetric])
  then show ?thesis
    using base64_digits3 [of x] div_mult_mod_eq [of "x div 4096" 64] by linarith
qed

lemma utf8_step_char:
  assumes "scalar_value cp"
  shows "utf8_step (utf8_char cp @ rest) = (Inr cp, rest)"
proof -
  consider (one) "cp < 128" | (two) "128 \<le> cp" "cp < 2048"
    | (three) "2048 \<le> cp" "cp < 65536" | (four) "65536 \<le> cp" "cp < 1114112"
    using assms unfolding scalar_value_def by linarith
  then show ?thesis
  proof cases
    case one
    then show ?thesis by (simp add: utf8_char_def utf8_step.simps unat_byte_of)
  next
    case two
    then have "cp div 64 < 32" "2 \<le> cp div 64" by (auto simp: less_eq_div_iff_mult_less_eq)
    then show ?thesis using two
      by (simp add: utf8_char_def utf8_step.simps unat_byte_of Let_def)
  next
    case three
    then have a: "cp div 4096 < 16" by auto
    note d = base64_digits3 [of cp]
    have o: "cp div 4096 = 0 \<Longrightarrow> 32 \<le> cp div 64 mod 64" using three d by linarith
    have s: "cp div 4096 = 13 \<Longrightarrow> cp div 64 mod 64 < 32"
      using assms three d by (auto simp: scalar_value_def) (linarith+)?
    show ?thesis using three a o s d
      by (simp add: utf8_char_def utf8_step.simps unat_byte_of Let_def)
  next
    case four
    then have a: "cp div 262144 < 5" by auto
    note d = base64_digits4 [of cp]
    have o: "cp div 262144 = 0 \<Longrightarrow> 16 \<le> cp div 4096 mod 64"
      using four d by linarith
    have s: "cp div 262144 = 4 \<Longrightarrow> cp div 4096 mod 64 < 16"
      using four d by linarith
    show ?thesis using four a o s d
      by (simp add: utf8_char_def utf8_step.simps unat_byte_of Let_def)
  qed
qed
lemma utf8_char_not_Nil [simp]: "utf8_char cp \<noteq> []"
  by (simp add: utf8_char_def)

lemma utf8_decode_Nil [simp]: "utf8_decode [] = Some []"
  by (simp add: utf8_decode.simps)

lemma utf8_decode_ignore_Nil [simp]: "utf8_decode_ignore [] = []"
  by (simp add: utf8_decode_ignore.simps)

lemma utf8_decode_char [simp]:
  "scalar_value cp \<Longrightarrow> utf8_decode (utf8_char cp @ rest) = map_option ((#) cp) (utf8_decode rest)"
  by (subst utf8_decode.simps) (simp add: utf8_step_char)

lemma utf8_decode_encode: "list_all scalar_value s \<Longrightarrow> utf8_decode (utf8_encode s) = Some s"
  by (induction s) (auto simp: utf8_encode_def)

text \<open>The lenient decoder agrees with the strict one wherever the strict one succeeds.\<close>

lemma utf8_decode_ignore_strict: "utf8_decode bs = Some s \<Longrightarrow> utf8_decode_ignore bs = s"
proof (induction bs arbitrary: s rule: utf8_decode.induct)
  case (1 bs)
  show ?case
  proof (cases "bs = []")
    case True
    then show ?thesis using 1 by simp
  next
    case False
    with 1(2) obtain cp rest s' where st: "utf8_step bs = (Inr cp, rest)"
      and r: "utf8_decode rest = Some s'" and s: "s = cp # s'"
      by (subst (asm) utf8_decode.simps) (auto split: prod.splits sum.splits)
    from 1(1) [OF False st [symmetric]] r have "utf8_decode_ignore rest = s'" by simp
    then show ?thesis using False st s by (subst utf8_decode_ignore.simps) simp
  qed
qed

lemma utf8_decode_ascii: "list_all (\<lambda>b. unat b < 128) bs \<Longrightarrow> utf8_decode bs = Some (map unat bs)"
proof (induction bs)
  case (Cons b bs)
  then have "utf8_step (b # bs) = (Inr (unat b), bs)" by (simp add: utf8_step.simps Let_def)
  then show ?case using Cons by (subst utf8_decode.simps) simp
qed simp

lemma to_le_append: "to_le (a + b) x = to_le a x @ to_le b (x div 256 ^ a)"
  by (induction a arbitrary: x) (simp_all add: div_mult2_eq)

lemma to_le_mod: "to_le a (x mod 256 ^ a) = to_le a x"
proof (induction a arbitrary: x)
  case (Suc a)
  have "x mod (256 * 256 ^ a) mod 256 = x mod 256" by (simp add: mod_mod_cancel)
  moreover have "x mod (256 * 256 ^ a) div 256 = x div 256 mod 256 ^ a" by (simp add: mod_mult2_eq)
  ultimately show ?case using Suc [of "x div 256"] by simp
qed simp

lemma to_le_add_mult: "to_le a (x + 256 ^ a * y) = to_le a x"
  by (metis mod_mult_self2 to_le_mod)

lemma map_res_nth: "map_res f xs = Inr ys \<longleftrightarrow> length ys = length xs \<and> (\<forall>i < length xs. f (xs ! i) = Inr (ys ! i))"
proof (induction xs arbitrary: ys)
  case (Cons x xs)
  show ?case
  proof (cases ys)
    case Nil
    then show ?thesis by (auto split: sum.splits)
  next
    case (Cons y ys')
    then show ?thesis using Cons.IH [of ys']
      by (auto simp: nth_Cons' All_less_Suc2 split: sum.splits)
  qed
qed auto

section \<open>Shared contracts\<close>

text \<open>
  A codec: \<open>enc\<close> may refuse a value, \<open>dec\<close> may refuse a byte string, and what \<open>enc\<close> produced
  from a value of the domain \<open>ok\<close> decodes to a canonical form of the value.
\<close>

locale wire_codec =
  fixes enc :: "'a \<Rightarrow> 'b list res"
    and dec :: "'b list \<Rightarrow> 'a option"
    and canon :: "'a \<Rightarrow> 'a"
    and ok :: "'a \<Rightarrow> bool"
  assumes dec_enc: "ok x \<Longrightarrow> enc x = Inr bs \<Longrightarrow> dec bs = Some (canon x)"
begin

lemma enc_inject: "ok x \<Longrightarrow> ok y \<Longrightarrow> enc x = Inr bs \<Longrightarrow> enc y = Inr bs \<Longrightarrow> canon x = canon y"
  using dec_enc [of x bs] dec_enc [of y bs] by simp

lemma map_dec_enc:
  "list_all ok xs \<Longrightarrow> map_res enc xs = Inr bss \<Longrightarrow> map dec bss = map (Some \<circ> canon) xs"
  by (induction xs arbitrary: bss) (auto simp: dec_enc split: sum.splits)

end

text \<open>A state machine whose events all keep an invariant keeps it along every run.\<close>

locale invariant_machine =
  fixes step :: "'e \<Rightarrow> 's \<Rightarrow> 's"
    and inv :: "'s \<Rightarrow> bool"
  assumes step_inv: "inv s \<Longrightarrow> inv (step e s)"
begin

lemma run_inv: "inv s \<Longrightarrow> inv (fold step es s)"
  by (induction es arbitrary: s) (auto simp: step_inv)

end

end
