(* ===== verification/Rans.thy ===== *)
theory Rans
  imports Prelude
begin

text \<open>
  The AEIC entropy coder: the table types of \<open>src/app/imaging/aeic/tables.py\<close> and the rANS coder
  of \<open>src/app/imaging/aeic/rans.py\<close> (container, encoder, decoder). Integers are unbounded as in
  Python, with the source's 32-bit masks written out. The encoder's renormalisation loop does not
  return for a CDF row that decreases, so it is a partial function: \<^const>\<open>None\<close> is a call that
  never returns. The bypass precision is positive in every table set the parser returns; for 0 the
  loops of the source would not end and the model stops at once.
\<close>

section \<open>Tables\<close>

record CdfGroup =
  num_cdfs :: nat
  cdf_width :: nat
  cdf_length :: "int list"
  cdf_offset :: "int list"
  quantized_cdf :: "int list"

text \<open>The floating-point fields of the index quantizer are kept as their wire bytes.\<close>

record IndexQuantizerParams =
  log_scale_min :: bytes
  log_scale_step :: bytes
  scales_levels :: nat
  scale_threshold :: bytes
  scale_floor :: bytes
  scale_table :: "bytes list"

record EntropyTables =
  tab_version :: nat
  tab_precision :: nat
  tab_bypass_precision :: nat
  tab_stream_parts :: nat
  tab_groups :: "CdfGroup list"
  tab_index_quantizer :: IndexQuantizerParams

section \<open>Container\<close>

definition RANS_LOWER_BOUND :: int where
  "RANS_LOWER_BOUND = 2 ^ 23"

definition MAX_SUB_STREAMS :: nat where
  "MAX_SUB_STREAMS = 16"

fun read_sizes :: "nat \<Rightarrow> nat \<Rightarrow> bytes \<Rightarrow> nat \<Rightarrow> (nat list \<times> nat) res" where
  "read_sizes 0 hdr stream off = Inr ([], off)"
| "read_sizes (Suc n) hdr stream off =
     (if off + hdr > length stream then Inl RansFormatError
      else case read_sizes n hdr stream (off + hdr) of
             Inl e \<Rightarrow> Inl e
           | Inr (sizes, off') \<Rightarrow> Inr (from_le (slice off (off + hdr) stream) # sizes, off'))"

fun cut_parts :: "nat list \<Rightarrow> bytes \<Rightarrow> nat \<Rightarrow> bytes list res" where
  "cut_parts [] stream pos = Inr []"
| "cut_parts (sz # sizes) stream pos =
     (if pos + sz > length stream then Inl RansFormatError
      else case cut_parts sizes stream (pos + sz) of
             Inl e \<Rightarrow> Inl e
           | Inr parts \<Rightarrow> Inr (slice pos (pos + sz) stream # parts))"

definition parse_rans_container :: "bytes \<Rightarrow> bytes list res" where
  "parse_rans_container stream =
     (case stream of
        [] \<Rightarrow> Inl RansFormatError
      | b # _ \<Rightarrow>
          let flag = unat b;
              n_streams = drop_bit 4 flag + 1;
              hdr = (if flag AND 15 = 1 then 2 else 4)
          in (case read_sizes (n_streams - 1) hdr stream 1 of
                Inl e \<Rightarrow> Inl e
              | Inr (sizes, off) \<Rightarrow>
                  if length stream < off + sum_list sizes then Inl RansFormatError
                  else cut_parts (sizes @ [length stream - off - sum_list sizes]) stream off))"

definition build_rans_container :: "bytes list \<Rightarrow> bytes res" where
  "build_rans_container parts =
     (if parts = [] then Inl RansFormatError
      else if length parts > MAX_SUB_STREAMS then Inl RansFormatError
      else
        let maximum = fold max (map length (butlast parts)) 0;
            hdr = (if maximum > 65535 then 4 else 2);
            flag = push_bit 4 (length parts - 1) OR (if hdr = 2 then 1 else 0)
        in (case map_res (\<lambda>part. to_bytes_le hdr (int (length part))) (butlast parts) of
              Inl e \<Rightarrow> Inl e
            | Inr heads \<Rightarrow> Inr (byte_of flag # concat heads @ concat parts)))"

section \<open>Encoder\<close>

record RansEncoder =
  enc_tables :: EntropyTables
  enc_stream_parts :: nat
  enc_entries :: "(int \<times> int) list list"
  enc_finished :: bool

definition new_encoder :: "EntropyTables \<Rightarrow> nat option \<Rightarrow> RansEncoder" where
  "new_encoder tables stream_parts =
     (let n = (case stream_parts of None \<Rightarrow> tab_stream_parts tables | Some n \<Rightarrow> n)
      in \<lparr>enc_tables = tables, enc_stream_parts = n, enc_entries = replicate n [],
          enc_finished = False\<rparr>)"

text \<open>The two loops of the bypass mode: how many digits, and the digit count in unary chunks.\<close>

function count_bypass :: "nat \<Rightarrow> nat \<Rightarrow> nat \<Rightarrow> nat" where
  "count_bypass bp raw_val n_bypass =
     (if bp \<noteq> 0 \<and> drop_bit (n_bypass * bp) raw_val \<noteq> 0
      then count_bypass bp raw_val (n_bypass + 1) else n_bypass)"
  by pat_completeness auto
termination
proof (relation "measure (\<lambda>(bp, raw, n). raw - n)", goal_cases)
  case (2 bp raw n)
  then have "2 ^ (n * bp) \<le> raw"
    by (simp add: drop_bit_eq_div div_eq_0_iff not_less)
  moreover have "n < 2 ^ (n * bp)"
    using 2 by (metis less_exp mult.right_neutral nat_le_linear power_increasing less_le_trans
        le_square mult_le_mono2 One_nat_def Suc_leI neq0_conv one_le_numeral)
  ultimately show ?case by simp
qed simp

declare count_bypass.simps [simp del]

function unary_entries :: "nat \<Rightarrow> nat \<Rightarrow> (int \<times> int) list" where
  "unary_entries max_bypass_val val =
     (if max_bypass_val \<noteq> 0 \<and> val \<ge> max_bypass_val
      then (int max_bypass_val, 0) # unary_entries max_bypass_val (val - max_bypass_val)
      else [(int val, 0)])"
  by pat_completeness auto
termination
  by (relation "measure (\<lambda>(m, v). v)") auto

declare unary_entries.simps [simp del]

definition bypass_entries :: "nat \<Rightarrow> nat \<Rightarrow> (int \<times> int) list" where
  "bypass_entries bp raw_val =
     (let max_bypass_val = 2 ^ bp - 1; n_bypass = count_bypass bp raw_val 0
      in unary_entries max_bypass_val n_bypass
         @ map (\<lambda>j. (int (drop_bit (j * bp) raw_val AND max_bypass_val), 0)) [0..<n_bypass])"

text \<open>One round of the loop of \<open>_push\<close>: the entries it appends.\<close>

definition push_symbol :: "nat \<Rightarrow> CdfGroup \<Rightarrow> int \<Rightarrow> int \<Rightarrow> (int \<times> int) list res" where
  "push_symbol bp grp smb cdf_idx =
     (if cdf_idx < 0 then Inr []
      else if cdf_idx \<ge> int (num_cdfs grp) then Inl RansFormatError
      else
        bind_res (py_get (cdf_length grp) cdf_idx) (\<lambda>len.
        bind_res (py_get (cdf_offset grp) cdf_idx) (\<lambda>off.
          let max_value = len - 2;
              value0 = smb - off;
              raw_val = (if value0 < 0 then -2 * value0 - 1
                         else if value0 \<ge> max_value then 2 * (value0 - max_value) else 0);
              val = (if value0 < 0 \<or> value0 \<ge> max_value then max_value else value0);
              base = cdf_idx * int (cdf_width grp)
          in
            bind_res (py_get (quantized_cdf grp) (base + val)) (\<lambda>start.
            bind_res (py_get (quantized_cdf grp) (base + val + 1)) (\<lambda>next.
              Inr ((start, next - start)
                   # (if val = max_value then bypass_entries bp (nat raw_val) else [])))))))"

fun push_range :: "nat \<Rightarrow> CdfGroup \<Rightarrow> (int \<times> int) list \<Rightarrow> (int \<times> int) list res" where
  "push_range bp grp [] = Inr []"
| "push_range bp grp ((smb, idx) # rest) =
     (case push_symbol bp grp smb idx of
        Inl e \<Rightarrow> Inl e
      | Inr es \<Rightarrow> (case push_range bp grp rest of Inl e \<Rightarrow> Inl e | Inr es' \<Rightarrow> Inr (es @ es')))"

text \<open>The slice \<open>[lo, hi)\<close> that part \<open>p\<close> of \<open>parts\<close> covers.\<close>

definition part_slice :: "nat \<Rightarrow> nat \<Rightarrow> 'a list \<Rightarrow> 'a list" where
  "part_slice parts p xs =
     (let each = length xs div parts; lo = p * each;
          hi = (if p = parts - 1 then length xs else lo + each)
      in slice lo hi xs)"

fun push_parts ::
  "nat \<Rightarrow> CdfGroup \<Rightarrow> (int \<times> int) list \<Rightarrow> nat \<Rightarrow> nat list \<Rightarrow> (int \<times> int) list list
    \<Rightarrow> (int \<times> int) list list res" where
  "push_parts bp grp pairs parts [] entries = Inr entries"
| "push_parts bp grp pairs parts (p # ps) entries =
     (case push_range bp grp (part_slice parts p pairs) of
        Inl e \<Rightarrow> Inl e
      | Inr es \<Rightarrow> push_parts bp grp pairs parts ps (entries[p := entries ! p @ es]))"

text \<open>A failed call leaves the encoder unusable for the caller; its entries are not modelled.\<close>

definition encode_with_indexes ::
  "RansEncoder \<Rightarrow> int list \<Rightarrow> int list \<Rightarrow> int \<Rightarrow> RansEncoder res" where
  "encode_with_indexes enc symbols indexes cdf_group_index =
     (if enc_finished enc then Inl RuntimeError
      else if length symbols \<noteq> length indexes then Inl ValueError
      else if \<not> (0 \<le> cdf_group_index \<and> cdf_group_index < int (length (tab_groups (enc_tables enc))))
      then Inl ValueError
      else if enc_stream_parts enc = 0 then Inl ZeroDivisionError
      else
        let grp = tab_groups (enc_tables enc) ! nat cdf_group_index
        in (case push_parts (tab_bypass_precision (enc_tables enc)) grp (zip symbols indexes)
                   (enc_stream_parts enc) [0..<enc_stream_parts enc] (enc_entries enc) of
              Inl e \<Rightarrow> Inl e
            | Inr es \<Rightarrow> Inr (enc\<lparr>enc_entries := es\<rparr>)))"

partial_function (option) renorm_out :: "int \<Rightarrow> int \<Rightarrow> bytes \<Rightarrow> (bytes \<times> int) option" where
  "renorm_out x_max x sink =
     (if x \<ge> x_max then renorm_out x_max (drop_bit 8 x) (sink @ [byte_of (nat (x AND 255))])
      else Some (sink, x))"

definition flush_entry :: "nat \<Rightarrow> nat \<Rightarrow> int \<times> int \<Rightarrow> bytes \<times> int \<Rightarrow> (bytes \<times> int) option" where
  "flush_entry prec bp e st =
     (case e of (start, rng) \<Rightarrow> (case st of (sink, x) \<Rightarrow>
        if rng \<noteq> 0 then
          (case renorm_out (push_bit 15 rng) x sink of
             None \<Rightarrow> None
           | Some (sink', x') \<Rightarrow> Some (sink', push_bit prec (x' div rng) + x' mod rng + start))
        else
          (case renorm_out (push_bit 15 (push_bit (prec - bp) 1)) x sink of
             None \<Rightarrow> None
           | Some (sink', x') \<Rightarrow> Some (sink', (push_bit bp x' OR start) AND 4294967295))))"

fun flush_entries :: "nat \<Rightarrow> nat \<Rightarrow> (int \<times> int) list \<Rightarrow> bytes \<times> int \<Rightarrow> (bytes \<times> int) option" where
  "flush_entries prec bp [] st = Some st"
| "flush_entries prec bp (e # es) st =
     (case flush_entry prec bp e st of None \<Rightarrow> None | Some st' \<Rightarrow> flush_entries prec bp es st')"

definition flush_part :: "nat \<Rightarrow> nat \<Rightarrow> (int \<times> int) list \<Rightarrow> bytes option" where
  "flush_part prec bp entries =
     (case flush_entries prec bp (rev entries) ([], RANS_LOWER_BOUND) of
        None \<Rightarrow> None
      | Some (sink, x) \<Rightarrow>
          Some (rev (sink @ [byte_of (nat (drop_bit 24 x AND 255)), byte_of (nat (drop_bit 16 x AND 255)),
                             byte_of (nat (drop_bit 8 x AND 255)), byte_of (nat (x AND 255))])))"

fun flush_all :: "nat \<Rightarrow> nat \<Rightarrow> (int \<times> int) list list \<Rightarrow> bytes list option" where
  "flush_all prec bp [] = Some []"
| "flush_all prec bp (es # ess) =
     (case flush_part prec bp es of None \<Rightarrow> None
      | Some b \<Rightarrow> (case flush_all prec bp ess of None \<Rightarrow> None | Some bs \<Rightarrow> Some (b # bs)))"

text \<open>\<^const>\<open>None\<close>: the call does not return.\<close>

definition finish :: "RansEncoder \<Rightarrow> (bytes res \<times> RansEncoder) option" where
  "finish enc =
     (if enc_finished enc then Some (Inl RuntimeError, enc)
      else case flush_all (tab_precision (enc_tables enc)) (tab_bypass_precision (enc_tables enc))
                  (enc_entries enc) of
             None \<Rightarrow> None
           | Some parts \<Rightarrow> Some (build_rans_container parts, enc\<lparr>enc_finished := True\<rparr>))"

definition reset :: "RansEncoder \<Rightarrow> RansEncoder" where
  "reset enc = enc\<lparr>enc_entries := map (\<lambda>_. []) (enc_entries enc), enc_finished := False\<rparr>"

section \<open>Decoder\<close>

record RansDecoder =
  dec_tables :: EntropyTables
  dec_parts :: "bytes list"
  dec_states :: "int list"
  dec_ptrs :: "nat list"

definition new_decoder :: "EntropyTables \<Rightarrow> bytes \<Rightarrow> nat option \<Rightarrow> RansDecoder res" where
  "new_decoder tables stream stream_parts =
     (let expected = (case stream_parts of None \<Rightarrow> tab_stream_parts tables | Some n \<Rightarrow> n)
      in (case parse_rans_container stream of
            Inl e \<Rightarrow> Inl e
          | Inr parts \<Rightarrow>
              if length parts \<noteq> expected then Inl RansFormatError
              else if \<exists>part \<in> set parts. length part < 4 then Inl RansFormatError
              else Inr \<lparr>dec_tables = tables, dec_parts = parts,
                        dec_states = map (\<lambda>part. int (from_le (take 4 part))) parts,
                        dec_ptrs = map (\<lambda>_. 4) parts\<rparr>))"

text \<open>\<open>bisect_right(a, x, lo, hi)\<close>, the library's binary search.\<close>

function bisect_right :: "int list \<Rightarrow> int \<Rightarrow> nat \<Rightarrow> nat \<Rightarrow> nat res" where
  "bisect_right a x lo hi =
     (if lo < hi then
        let mid = (lo + hi) div 2
        in if mid \<ge> length a then Inl IndexError
           else if x < a ! mid then bisect_right a x lo mid
           else bisect_right a x (mid + 1) hi
      else Inr lo)"
  by pat_completeness auto
termination
  by (relation "measure (\<lambda>(a, x, lo, hi). hi - lo)") auto

declare bisect_right.simps [simp del]

definition next_byte :: "bytes \<Rightarrow> int \<times> nat \<Rightarrow> (int \<times> nat) res" where
  "next_byte buf st =
     (case st of (x, ptr) \<Rightarrow>
        if ptr \<ge> length buf then Inl RansFormatError
        else Inr ((push_bit 8 x OR int (unat (buf ! ptr))) AND 4294967295, ptr + 1))"

function renorm_in :: "bytes \<Rightarrow> int \<Rightarrow> nat \<Rightarrow> (int \<times> nat) res" where
  "renorm_in buf x ptr =
     (if x < RANS_LOWER_BOUND then
        if ptr \<ge> length buf then Inl RansFormatError
        else renorm_in buf ((push_bit 8 x OR int (unat (buf ! ptr))) AND 4294967295) (ptr + 1)
      else Inr (x, ptr))"
  by pat_completeness auto
termination
  by (relation "measure (\<lambda>(buf, x, ptr). length buf - ptr)") auto

declare renorm_in.simps [simp del]

text \<open>One bypass read: the low bits, then at most one byte of renormalisation.\<close>

definition read_bypass :: "nat \<Rightarrow> bytes \<Rightarrow> int \<times> nat \<Rightarrow> (nat \<times> int \<times> nat) res" where
  "read_bypass bp buf st =
     (case st of (x, ptr) \<Rightarrow>
        let val = nat (x AND (2 ^ bp - 1)); x' = drop_bit bp x
        in if x' < RANS_LOWER_BOUND
           then (case next_byte buf (x', ptr) of Inl e \<Rightarrow> Inl e | Inr st' \<Rightarrow> Inr (val, st'))
           else Inr (val, x', ptr))"

lemma read_bypass_progress:
  assumes "read_bypass bp buf (x, ptr) = Inr (v, x', ptr')" and "bp \<noteq> 0"
  shows "length buf - ptr' < length buf - ptr \<or> ptr' = ptr \<and> nat x' < nat x"
proof (cases "drop_bit bp x < RANS_LOWER_BOUND")
  case True
  then show ?thesis using assms
    by (auto simp: read_bypass_def next_byte_def Let_def split: if_splits)
next
  case False
  then have p: "ptr' = ptr" and x': "x' = x div 2 ^ bp" and pos: "0 < x div 2 ^ bp"
    using assms by (auto simp: read_bypass_def Let_def RANS_LOWER_BOUND_def drop_bit_eq_div)
  have "0 < x" using pos by (metis div_neg_pos_less0 div_0 less_irrefl linorder_neqE_linordered_idom order_less_asym zero_less_numeral zero_less_power)
  moreover have "(1::int) < 2 ^ bp" using assms(2) by simp
  ultimately have "x div 2 ^ bp < x" by (rule int_div_less_self)
  then show ?thesis using p x' \<open>0 < x\<close> by simp
qed

function read_count :: "nat \<Rightarrow> bytes \<Rightarrow> int \<times> nat \<Rightarrow> nat \<Rightarrow> (nat \<times> int \<times> nat) res" where
  "read_count bp buf st n_bypass =
     (if bp = 0 then Inl ValueError
      else case read_bypass bp buf st of
             Inl e \<Rightarrow> Inl e
           | Inr (val, st') \<Rightarrow>
               if val \<noteq> 2 ^ bp - 1 then Inr (n_bypass + val, st')
               else read_count bp buf st' (n_bypass + val))"
  by pat_completeness auto
termination
  by (relation "(\<lambda>(bp, buf, (x, ptr), n). length buf - ptr) <*mlex*>
      measure (\<lambda>(bp, buf, (x, ptr), n). nat x)")
    (auto simp: wf_mlex mlex_iff dest: read_bypass_progress)

declare read_count.simps [simp del]

fun read_digits :: "nat \<Rightarrow> bytes \<Rightarrow> int \<times> nat \<Rightarrow> nat list \<Rightarrow> nat \<Rightarrow> (nat \<times> int \<times> nat) res" where
  "read_digits bp buf st [] raw_val = Inr (raw_val, st)"
| "read_digits bp buf st (j # js) raw_val =
     (case read_bypass bp buf st of
        Inl e \<Rightarrow> Inl e
      | Inr (val, st') \<Rightarrow> read_digits bp buf st' js (raw_val OR push_bit (j * bp) val))"

definition decode_symbol ::
  "nat \<Rightarrow> nat \<Rightarrow> CdfGroup \<Rightarrow> bytes \<Rightarrow> int \<Rightarrow> int \<times> nat \<Rightarrow> (int \<times> int \<times> nat) res" where
  "decode_symbol prec bp grp buf cdf_idx st =
     (case st of (x, ptr) \<Rightarrow>
      if cdf_idx < 0 then Inr (0, st)
      else if cdf_idx \<ge> int (num_cdfs grp) then Inl RansFormatError
      else
        bind_res (py_get (cdf_length grp) cdf_idx) (\<lambda>n.
          let max_value = n - 2; base = cdf_idx * int (cdf_width grp); cum = x AND mask prec
          in
            bind_res (bisect_right (quantized_cdf grp) cum (nat base) (nat (base + n))) (\<lambda>k.
              let s = int k - base - 1
              in if s < 0 \<or> s \<ge> n - 1 then Inl RansFormatError
              else
                bind_res (py_get (quantized_cdf grp) (base + s)) (\<lambda>start.
                bind_res (py_get (quantized_cdf grp) (base + s + 1)) (\<lambda>next.
                bind_res (renorm_in buf (((next - start) * drop_bit prec x + cum - start) AND 4294967295) ptr)
                  (\<lambda>st1.
                bind_res
                  (if s \<noteq> max_value then Inr (s, st1)
                   else
                     bind_res (read_count bp buf st1 0) (\<lambda>(n_bypass, st2).
                     bind_res (read_digits bp buf st2 [0..<n_bypass] 0) (\<lambda>(raw_val, st3).
                       Inr (if odd raw_val then - int (raw_val div 2) - 1
                            else int (raw_val div 2) + max_value, st3))))
                  (\<lambda>(value, st').
                bind_res (py_get (cdf_offset grp) cdf_idx) (\<lambda>off. Inr (value + off, st')))))))))"

fun decode_range ::
  "nat \<Rightarrow> nat \<Rightarrow> CdfGroup \<Rightarrow> bytes \<Rightarrow> int list \<Rightarrow> int \<times> nat \<Rightarrow> (int list \<times> int \<times> nat) res" where
  "decode_range prec bp grp buf [] st = Inr ([], st)"
| "decode_range prec bp grp buf (i # is) st =
     (case decode_symbol prec bp grp buf i st of
        Inl e \<Rightarrow> Inl e
      | Inr (v, st') \<Rightarrow>
          (case decode_range prec bp grp buf is st' of
             Inl e \<Rightarrow> Inl e | Inr (vs, st'') \<Rightarrow> Inr (v # vs, st'')))"

fun decode_parts ::
  "nat \<Rightarrow> nat \<Rightarrow> CdfGroup \<Rightarrow> int list \<Rightarrow> nat list \<Rightarrow> RansDecoder \<Rightarrow> (int list \<times> RansDecoder) res" where
  "decode_parts prec bp grp indexes [] dec = Inr ([], dec)"
| "decode_parts prec bp grp indexes (p # ps) dec =
     (case decode_range prec bp grp (dec_parts dec ! p)
             (part_slice (length (dec_parts dec)) p indexes) (dec_states dec ! p, dec_ptrs dec ! p) of
        Inl e \<Rightarrow> Inl e
      | Inr (vs, x, ptr) \<Rightarrow>
          (case decode_parts prec bp grp indexes ps
                  (dec\<lparr>dec_states := (dec_states dec)[p := x], dec_ptrs := (dec_ptrs dec)[p := ptr]\<rparr>) of
             Inl e \<Rightarrow> Inl e
           | Inr (rest, dec') \<Rightarrow> Inr (vs @ rest, dec')))"

definition decode_stream :: "RansDecoder \<Rightarrow> int list \<Rightarrow> int \<Rightarrow> (int list \<times> RansDecoder) res" where
  "decode_stream dec indexes cdf_group_index =
     (if \<not> (0 \<le> cdf_group_index \<and> cdf_group_index < int (length (tab_groups (dec_tables dec))))
      then Inl ValueError
      else
        let grp = tab_groups (dec_tables dec) ! nat cdf_group_index
        in decode_parts (tab_precision (dec_tables dec)) (tab_bypass_precision (dec_tables dec)) grp
             indexes [0..<length (dec_parts dec)] dec)"

end
