(* ===== verification/RansRoundtrip.thy ===== *)
theory RansRoundtrip
  imports Rans
begin

text \<open>
  Correctness of the rANS coder of \<open>src/app/imaging/aeic/rans.py\<close>. A locale states the contract of a
  stack coder (what was pushed last is popped first, and a push always succeeds); it is interpreted
  on the bypass digits and on the whole symbols of the model, and the round trip of a stream of
  encoder calls rests on the two interpretations. The container has its own round trip. The last
  section shows what happens with a table row that is not increasing.
\<close>

section \<open>Stack coders\<close>

text \<open>
  The contract rANS rests on: pushing an event always succeeds, keeps the coder's invariant, and a
  decoder looking at the result pops that event and is left looking at the state before.
\<close>

fun push_all :: "('e \<Rightarrow> 's \<Rightarrow> 's option) \<Rightarrow> 'e list \<Rightarrow> 's \<Rightarrow> 's option" where
  "push_all push [] s = Some s"
| "push_all push (e # es) s =
     (case push_all push es s of None \<Rightarrow> None | Some s' \<Rightarrow> push e s')"

fun pop_all :: "('k \<Rightarrow> 'd \<Rightarrow> ('v \<times> 'd) res) \<Rightarrow> 'k list \<Rightarrow> 'd \<Rightarrow> ('v list \<times> 'd) res" where
  "pop_all pop [] d = Inr ([], d)"
| "pop_all pop (k # ks) d =
     (case pop k d of Inl e \<Rightarrow> Inl e
      | Inr (v, d') \<Rightarrow> (case pop_all pop ks d' of Inl e \<Rightarrow> Inl e | Inr (vs, d'') \<Rightarrow> Inr (v # vs, d'')))"

lemma push_all_append:
  "push_all push (xs @ ys) s = (case push_all push ys s of None \<Rightarrow> None | Some s' \<Rightarrow> push_all push xs s')"
  by (induction xs) (auto split: option.splits)

locale stack_coder =
  fixes push :: "'e \<Rightarrow> 's \<Rightarrow> 's option"
    and pop :: "'k \<Rightarrow> 'd \<Rightarrow> ('v \<times> 'd) res"
    and inv :: "'s \<Rightarrow> bool"
    and sees :: "'s \<Rightarrow> 'd \<Rightarrow> bool"
    and ok :: "'e \<Rightarrow> bool"
    and kind :: "'e \<Rightarrow> 'k"
    and val :: "'e \<Rightarrow> 'v"
  assumes push_pop: "ok e \<Longrightarrow> inv s \<Longrightarrow>
    \<exists>s'. push e s = Some s' \<and> inv s'
      \<and> (\<forall>d. sees s' d \<longrightarrow> (\<exists>d'. pop (kind e) d = Inr (val e, d') \<and> sees s d'))"
begin

lemma push_all_pop_all:
  "list_all ok es \<Longrightarrow> inv s \<Longrightarrow>
     \<exists>s'. push_all push es s = Some s' \<and> inv s'
       \<and> (\<forall>d. sees s' d \<longrightarrow> (\<exists>d'. pop_all pop (map kind es) d = Inr (map val es, d') \<and> sees s d'))"
proof (induction es)
  case (Cons e es)
  then obtain s1 where s1: "push_all push es s = Some s1" "inv s1"
    and d1: "\<And>d. sees s1 d \<Longrightarrow> \<exists>d'. pop_all pop (map kind es) d = Inr (map val es, d') \<and> sees s d'"
    by auto
  from push_pop [OF _ s1(2), of e] Cons.prems(1) obtain s2 where s2: "push e s1 = Some s2" "inv s2"
    and d2: "\<And>d. sees s2 d \<Longrightarrow> \<exists>d'. pop (kind e) d = Inr (val e, d') \<and> sees s1 d'"
    by auto
  have "\<exists>d''. pop_all pop (map kind (e # es)) d = Inr (map val (e # es), d'') \<and> sees s d''"
    if "sees s2 d" for d
    using d2 [OF that] d1 by fastforce
  then show ?case using s1 s2 by simp
qed simp

end

section \<open>Renormalisation\<close>

definition rans_inv :: "bytes \<times> int \<Rightarrow> bool" where
  "rans_inv s \<longleftrightarrow> RANS_LOWER_BOUND \<le> snd s \<and> snd s < 2 ^ 31"

definition rans_sees :: "bytes \<Rightarrow> bytes \<times> int \<Rightarrow> int \<times> nat \<Rightarrow> bool" where
  "rans_sees buf s d \<longleftrightarrow> fst d = snd s \<and> drop (snd d) buf = rev (fst s)"

lemma or_push_bit_int: "0 \<le> y \<Longrightarrow> y < 2 ^ k \<Longrightarrow> push_bit k (x::int) OR y = x * 2 ^ k + y"
proof -
  assume y: "0 \<le> y" "y < 2 ^ k"
  have t: "take_bit k y = y" using y by (simp add: take_bit_int_eq_self)
  have "push_bit k x + y = push_bit k x OR y"
  proof (rule disjunctive_add)
    fix n
    have "bit y n \<Longrightarrow> n < k" using t by (metis bit_take_bit_iff)
    then show "\<not> bit (push_bit k x) n \<or> \<not> bit y n" by (auto simp: bit_push_bit_iff)
  qed
  then show ?thesis by (simp add: push_bit_eq_mult)
qed

lemma and_255_int: "(x::int) AND 255 = x mod 256"
  using take_bit_eq_mask [of 8 x] by (simp add: take_bit_eq_mod mask_eq_exp_minus_1)

lemma and_32_int: "(x::int) AND 4294967295 = x mod 4294967296"
  using take_bit_eq_mask [of 32 x] by (simp add: take_bit_eq_mod mask_eq_exp_minus_1)

lemma and_pow_int: "(x::int) AND (2 ^ n - 1) = x mod 2 ^ n"
  by (simp add: mask_eq_exp_minus_1 [symmetric] take_bit_eq_mask [symmetric] take_bit_eq_mod)

lemma refill_byte:
  assumes "0 \<le> y" "y < 2 ^ 31"
  shows "(push_bit 8 (y div 256) OR int (unat (byte_of (nat (y AND 255))))) AND 4294967295 = y"
proof -
  have b: "int (unat (byte_of (nat (y AND 255)))) = y mod 256"
    using assms by (simp add: and_255_int nat_mod_distrib zmod_int)
  have "push_bit 8 (y div 256) OR y mod 256 = y"
    by (subst or_push_bit_int) auto
  then show ?thesis using assms b by (simp add: and_32_int)
qed

lemma nth_drop_Cons: "drop p xs = y # ys \<Longrightarrow> p < length xs \<and> xs ! p = y"
  by (metis drop_all hd_drop_conv_nth list.distinct(1) list.sel(1) not_le)

text \<open>What the encoder's loop emits, the decoder's loop reads back.\<close>

lemma renorm_out_in:
  assumes "0 < m" "0 \<le> y" "y < 2 ^ 31"
  shows "\<exists>bs x. renorm_out m y sink = Some (sink @ bs, x) \<and> 0 \<le> x \<and> x < m
    \<and> (bs = [] \<and> x = y \<or> bs \<noteq> [] \<and> m \<le> 256 * x + 255 \<and> x < RANS_LOWER_BOUND \<and> m \<le> y)
    \<and> (\<forall>buf ptr rest. drop ptr buf = rev bs @ rest \<longrightarrow>
         renorm_in buf x ptr = renorm_in buf y (ptr + length bs) \<and> drop (ptr + length bs) buf = rest)"
  using assms(2,3)
proof (induction "nat y" arbitrary: y sink rule: less_induct)
  case less
  show ?case
  proof (cases "m \<le> y")
    case False
    then show ?thesis using less.prems
      by (intro exI [of _ "[]"] exI [of _ y]) (simp add: renorm_out.simps)
  next
    case True
    define b where "b = byte_of (nat (y AND 255))"
    let ?z = "y div 256"
    have z: "0 \<le> ?z" "?z < 2 ^ 23" "nat ?z < nat y" "drop_bit 8 y = ?z"
      using True assms(1) less.prems by (auto simp: drop_bit_eq_div)
    obtain bs x where ih: "renorm_out m ?z (sink @ [b]) = Some (sink @ [b] @ bs, x)" "0 \<le> x" "x < m"
      "bs = [] \<and> x = ?z \<or> bs \<noteq> [] \<and> m \<le> 256 * x + 255 \<and> x < RANS_LOWER_BOUND \<and> m \<le> ?z"
      and rd: "\<And>buf ptr rest. drop ptr buf = rev bs @ rest \<Longrightarrow>
         renorm_in buf x ptr = renorm_in buf ?z (ptr + length bs) \<and> drop (ptr + length bs) buf = rest"
    proof -
      have "?z < 2 ^ 31" using z(2) by simp
      from less.hyps [OF z(3) z(1) this, of "sink @ [b]"] that show thesis
        unfolding append_assoc by blast
    qed
    have out: "renorm_out m y sink = Some (sink @ b # bs, x)"
      using ih(1) True z(4) unfolding renorm_out.simps [of m y sink] b_def by simp
    have bound: "m \<le> 256 * x + 255 \<and> x < RANS_LOWER_BOUND"
    proof -
      have "y \<le> 256 * (y div 256) + 255" by simp
      then show ?thesis using ih(4) True z(2) unfolding RANS_LOWER_BOUND_def by (elim disjE) simp_all
    qed
    have "renorm_in buf x ptr = renorm_in buf y (ptr + length (b # bs))
        \<and> drop (ptr + length (b # bs)) buf = rest"
      if "drop ptr buf = rev (b # bs) @ rest" for buf ptr rest
    proof -
      from that have d: "drop ptr buf = rev bs @ (b # rest)" by simp
      note r = rd [OF d]
      have p: "ptr + length bs < length buf" "buf ! (ptr + length bs) = b"
        using nth_drop_Cons [OF conjunct2 [OF r]] by simp_all
      have "renorm_in buf ?z (ptr + length bs) = renorm_in buf y (ptr + length bs + 1)"
        using p z(2) refill_byte [OF less.prems]
        by (subst renorm_in.simps) (simp add: RANS_LOWER_BOUND_def b_def)
      moreover have "drop (ptr + length bs + 1) buf = rest"
        using conjunct2 [OF r] by (metis drop_Suc list.sel(3) tl_drop Suc_eq_plus1)
      ultimately show ?thesis using r by (simp add: add.assoc)
    qed
    then have "\<forall>buf ptr rest. drop ptr buf = rev (b # bs) @ rest \<longrightarrow>
         renorm_in buf x ptr = renorm_in buf y (ptr + length (b # bs))
           \<and> drop (ptr + length (b # bs)) buf = rest" by blast
    then show ?thesis using out ih(2,3) bound True by blast
  qed
qed

section \<open>One entry\<close>

lemma renorm_in_stop [simp]: "RANS_LOWER_BOUND \<le> x \<Longrightarrow> renorm_in buf x ptr = Inr (x, ptr)"
  by (simp add: renorm_in.simps)

text \<open>The arithmetic of one coding step: the state splits back into quotient and slot.\<close>

lemma coding_step_split:
  assumes "0 < (r::int)" "0 \<le> b" "b + r \<le> 65536" "0 \<le> x"
  defines "X \<equiv> x div r * 65536 + x mod r + b"
  shows "X mod 65536 = x mod r + b" "X div 65536 = x div r"
    and "r * (X div 65536) + X mod 65536 - b = x"
proof -
  have mr: "0 \<le> x mod r" "x mod r < r" using assms(1) by simp_all
  have s: "0 \<le> x mod r + b" "x mod r + b < 65536" using mr assms(2,3) by linarith+
  have X: "X = (x mod r + b) + 65536 * (x div r)" by (simp add: X_def)
  have e: "(x mod r + b) mod 65536 = x mod r + b" "(x mod r + b) div 65536 = 0"
    using s by simp_all
  show m: "X mod 65536 = x mod r + b" unfolding X using e(1) by (simp only: mod_mult_self2)
  show d: "X div 65536 = x div r" unfolding X using e(2) by simp
  show "r * (X div 65536) + X mod 65536 - b = x" unfolding m d by simp
qed

lemma coding_step_bounds:
  assumes "0 < (r::int)" "0 \<le> b" "b + r \<le> 65536" "0 \<le> x" "x < r * 32768"
    and "RANS_LOWER_BOUND \<le> x \<or> r * 32768 \<le> 256 * x + 255"
  shows "RANS_LOWER_BOUND \<le> x div r * 65536 + x mod r + b"
    and "x div r * 65536 + x mod r + b < 2 ^ 31"
proof -
  have m: "0 \<le> x mod r" "x mod r < r" using assms(1) by simp_all
  have q: "0 \<le> x div r" using assms(1,4) by (simp add: pos_imp_zdiv_nonneg_iff)
  have "x div r < 32768" 
  proof (rule ccontr)
    assume "\<not> x div r < 32768"
    then have "32768 * r \<le> x div r * r" by (intro mult_right_mono) (use assms(1) in simp_all)
    also have "\<dots> \<le> x" using m(1) div_mult_mod_eq [of x r] by linarith
    finally show False using assms(5) by simp
  qed
  then show "x div r * 65536 + x mod r + b < 2 ^ 31" using m(2) assms(3) by simp
  from assms(6) show "RANS_LOWER_BOUND \<le> x div r * 65536 + x mod r + b"
  proof
    assume l: "RANS_LOWER_BOUND \<le> x"
    have "x = x div r * r + x mod r" by simp
    also have "x div r * r \<le> x div r * 65536"
      by (rule mult_left_mono) (use q assms in simp_all)
    finally show ?thesis using l assms(2) by simp
  next
    assume "r * 32768 \<le> 256 * x + 255"
    then have "128 * r \<le> x" by simp
    then have "128 * r div r \<le> x div r" using assms(1) by (rule zdiv_mono1)
    then have "128 \<le> x div r" using assms(1) by simp
    then show ?thesis using m(1) assms(2) by (simp add: RANS_LOWER_BOUND_def)
  qed
qed

lemma mask_16 [simp]: "mask 16 = (65535::int)"
  by (simp add: mask_eq_exp_minus_1)

lemma and_16_int: "(x::int) AND 65535 = x mod 65536"
  using and_pow_int [of x 16] by simp

text \<open>An interval entry at 16-bit precision: the decoder finds a slot of the interval and undoes the step.\<close>

lemma flush_interval:
  assumes "0 \<le> start" "0 < rng" "start + rng \<le> 65536" "rans_inv s"
  shows "\<exists>s'. flush_entry 16 bp (start, rng) s = Some s' \<and> rans_inv s'
    \<and> (\<forall>buf x ptr. rans_sees buf s' (x, ptr) \<longrightarrow>
         start \<le> x mod 65536 \<and> x mod 65536 < start + rng
         \<and> (\<exists>d'. renorm_in buf ((rng * (x div 65536) + x mod 65536 - start) mod 4294967296) ptr = Inr d'
              \<and> rans_sees buf s d'))"
proof -
  obtain sink y where s: "s = (sink, y)" by (cases s)
  have y: "RANS_LOWER_BOUND \<le> y" "y < 2 ^ 31" using assms(4) by (simp_all add: s rans_inv_def)
  have y0: "0 \<le> y" using y(1) by (simp add: RANS_LOWER_BOUND_def)
  obtain bs x where out: "renorm_out (rng * 32768) y sink = Some (sink @ bs, x)" "0 \<le> x" "x < rng * 32768"
    and c: "bs = [] \<and> x = y \<or> bs \<noteq> [] \<and> rng * 32768 \<le> 256 * x + 255 \<and> x < RANS_LOWER_BOUND \<and> rng * 32768 \<le> y"
    and rd: "\<And>buf ptr rest. drop ptr buf = rev bs @ rest \<Longrightarrow>
         renorm_in buf x ptr = renorm_in buf y (ptr + length bs) \<and> drop (ptr + length bs) buf = rest"
    using renorm_out_in [OF _ y0 y(2), of "rng * 32768" sink] assms(2) by auto
  define X where "X = x div rng * 65536 + x mod rng + start"
  have lb: "RANS_LOWER_BOUND \<le> x \<or> rng * 32768 \<le> 256 * x + 255" using c y(1) by blast
  have X: "RANS_LOWER_BOUND \<le> X" "X < 2 ^ 31" unfolding X_def
    using coding_step_bounds [OF assms(2,1,3) out(2,3) lb] by simp_all
  note split = coding_step_split [OF assms(2,1,3) out(2), folded X_def]
  have x32: "x mod 4294967296 = x" using out(2,3) assms(1,3) by simp
  have f: "flush_entry 16 bp (start, rng) s = Some (sink @ bs, X)"
    using out(1) assms(2) by (simp add: s flush_entry_def push_bit_eq_mult X_def)
  have r: "start \<le> z mod 65536 \<and> z mod 65536 < start + rng
         \<and> (\<exists>d'. renorm_in buf ((rng * (z div 65536) + z mod 65536 - start) mod 4294967296) ptr = Inr d'
              \<and> rans_sees buf s d')" if "rans_sees buf (sink @ bs, X) (z, ptr)" for buf z ptr
  proof -
    from that have z: "z = X" and d: "drop ptr buf = rev bs @ rev sink" by (simp_all add: rans_sees_def)
    have sl: "0 \<le> x mod rng" "x mod rng < rng" using assms(2) by simp_all
    show ?thesis using rd [OF d] y(1) sl
      unfolding z split(3) x32 by (simp add: split(1) rans_sees_def s)
  qed
  show ?thesis using f X r by (intro exI [of _ "(sink @ bs, X)"]) (simp add: rans_inv_def)
qed

text \<open>A bypass digit of one to eight bits, read back with at most one byte.\<close>

lemma renorm_out_once:
  assumes "RANS_LOWER_BOUND \<le> m" "0 \<le> y" "y < 2 ^ 31"
  shows "renorm_out m y sink =
    Some (if y < m then (sink, y) else (sink @ [byte_of (nat (y AND 255))], y div 256))"
proof -
  have "y div 256 < m" using assms by (simp add: RANS_LOWER_BOUND_def)
  then show ?thesis
    by (subst renorm_out.simps, subst renorm_out.simps) (simp add: drop_bit_eq_div)
qed

definition digit_ok :: "nat \<times> nat \<Rightarrow> bool" where
  "digit_ok e \<longleftrightarrow> 1 \<le> fst e \<and> fst e \<le> 8 \<and> snd e < 2 ^ fst e"

lemma push_digit:
  assumes "1 \<le> bp" "bp \<le> 8" "d < 2 ^ bp" "0 \<le> x" "x < 2 ^ (31 - bp)"
  shows "(push_bit bp x OR int d) AND 4294967295 = x * 2 ^ bp + int d"
    and "x * 2 ^ bp + int d < 2 ^ 31"
    and "nat ((x * 2 ^ bp + int d) mod 2 ^ bp) = d" and "drop_bit bp (x * 2 ^ bp + int d) = x"
proof -
  have d: "int d < 2 ^ bp" using assms(3) by (metis of_nat_less_iff of_nat_numeral of_nat_power)
  have p: "(2::int) ^ 31 = 2 ^ (31 - bp) * 2 ^ bp" using assms(2) by (simp flip: power_add)
  have "(x + 1) * 2 ^ bp \<le> 2 ^ (31 - bp) * 2 ^ bp" by (rule mult_right_mono) (use assms(5) in simp_all)
  then show b: "x * 2 ^ bp + int d < 2 ^ 31" using d unfolding p distrib_right by linarith
  show "(push_bit bp x OR int d) AND 4294967295 = x * 2 ^ bp + int d"
    using b d assms(4) by (simp add: or_push_bit_int and_32_int)
  show "nat ((x * 2 ^ bp + int d) mod 2 ^ bp) = d" "drop_bit bp (x * 2 ^ bp + int d) = x"
    using d by (simp_all add: drop_bit_eq_div)
qed

lemma flush_digit:
  assumes "digit_ok (bp, d)" "rans_inv s"
  shows "\<exists>s'. flush_entry 16 bp (int d, 0) s = Some s' \<and> rans_inv s'
    \<and> (\<forall>st. rans_sees buf s' st \<longrightarrow> (\<exists>st'. read_bypass bp buf st = Inr (d, st') \<and> rans_sees buf s st'))"
proof -
  have bp: "1 \<le> bp" "bp \<le> 8" "d < 2 ^ bp" using assms(1) by (simp_all add: digit_ok_def)
  obtain sink y where s: "s = (sink, y)" by (cases s)
  have y: "RANS_LOWER_BOUND \<le> y" "y < 2 ^ 31" using assms(2) by (simp_all add: s rans_inv_def)
  have y0: "0 \<le> y" using y(1) by (simp add: RANS_LOWER_BOUND_def)
  have m: "push_bit 15 (push_bit (16 - bp) (1::int)) = 2 ^ (31 - bp)"
  proof -
    have "(31::nat) - bp = (16 - bp) + 15" using bp by simp
    then show ?thesis by (simp only: push_bit_eq_mult power_add mult_1)
  qed
  have lm: "RANS_LOWER_BOUND \<le> 2 ^ (31 - bp)" unfolding RANS_LOWER_BOUND_def
    by (rule power_increasing) (use bp in simp_all)
  note out = renorm_out_once [OF lm y0 y(2), of sink]
  have up: "RANS_LOWER_BOUND \<le> x * 2 ^ bp + int d" if "RANS_LOWER_BOUND \<le> x \<or> 2 ^ (31 - bp) \<le> 256 * x + 255" "0 \<le> x" for x
  proof (cases "RANS_LOWER_BOUND \<le> x")
    case True
    have "x * 1 \<le> x * 2 ^ bp" by (rule mult_left_mono) (use that in simp_all)
    then show ?thesis using True by simp
  next
    case False
    have p: "(2::int) ^ (31 - bp) = 256 * 2 ^ (23 - bp)" 
    proof -
      have "(31::nat) - bp = 8 + (23 - bp)" using bp by simp
      then show ?thesis by (simp only: power_add) simp
    qed
    have "2 ^ (23 - bp) \<le> x" using False that p by simp
    then have "2 ^ (23 - bp) * 2 ^ bp \<le> x * 2 ^ bp" by simp
    then show ?thesis using bp by (simp add: RANS_LOWER_BOUND_def flip: power_add)
  qed
  show ?thesis
  proof (cases "y < 2 ^ (31 - bp)")
    case True
    note P = push_digit [OF bp y0 True]
    have f: "flush_entry 16 bp (int d, 0) s = Some (sink, y * 2 ^ bp + int d)"
      using out True P(1) unfolding flush_entry_def s prod.case m by simp
    have "read_bypass bp buf st = Inr (d, y, snd st) \<and> rans_sees buf s (y, snd st)"
      if "rans_sees buf (sink, y * 2 ^ bp + int d) st" for st
      using that y(1) P by (cases st) (simp add: rans_sees_def read_bypass_def Let_def and_pow_int s)
    then show ?thesis using f P(2) up [of y] y y0 by (auto simp: rans_inv_def)
  next
    case False
    let ?x = "y div 256" and ?b = "byte_of (nat (y AND 255))"
    have x: "0 \<le> ?x" "?x < RANS_LOWER_BOUND" using y0 y(2) by (simp_all add: RANS_LOWER_BOUND_def)
    then have xm: "?x < 2 ^ (31 - bp)" using lm by simp
    note P = push_digit [OF bp x(1) xm]
    have f: "flush_entry 16 bp (int d, 0) s = Some (sink @ [?b], ?x * 2 ^ bp + int d)"
      using out False P(1) unfolding flush_entry_def s prod.case m by simp
    have "2 ^ (31 - bp) \<le> 256 * ?x + 255" using False by simp
    then have lb: "RANS_LOWER_BOUND \<le> ?x * 2 ^ bp + int d" using up x(1) by blast
    have "read_bypass bp buf st = Inr (d, y, snd st + 1) \<and> rans_sees buf s (y, snd st + 1)"
      if sees: "rans_sees buf (sink @ [?b], ?x * 2 ^ bp + int d) st" for st
    proof -
      obtain ptr where st: "st = (?x * 2 ^ bp + int d, ptr)" and dr: "drop ptr buf = ?b # rev sink"
        using sees by (cases st) (simp add: rans_sees_def)
      have p: "ptr < length buf" "buf ! ptr = ?b" using nth_drop_Cons [OF dr] by simp_all
      have "drop (Suc ptr) buf = rev sink" using dr by (metis drop_Suc list.sel(3) tl_drop)
      then show ?thesis using p x P(3,4) refill_byte [OF y0 y(2)]
        by (simp add: st rans_sees_def read_bypass_def next_byte_def Let_def and_pow_int s not_le)
    qed
    then show ?thesis using f P(2) lb by (auto simp: rans_inv_def)
  qed
qed

interpretation digit: stack_coder
  "\<lambda>(bp, d). flush_entry 16 bp (int d, 0)" "\<lambda>bp. read_bypass bp buf" rans_inv "rans_sees buf"
  digit_ok fst snd for buf
proof (unfold_locales, goal_cases)
  case (1 e s)
  then show ?case using flush_digit [of "fst e" "snd e" s buf] by (cases e) simp
qed

section \<open>Bypass values\<close>

lemma flush_entries_push_all: "flush_entries prec bp (rev es) s = push_all (flush_entry prec bp) es s"
proof -
  have app: "flush_entries prec bp (xs @ ys) s =
      (case flush_entries prec bp xs s of None \<Rightarrow> None | Some s' \<Rightarrow> flush_entries prec bp ys s')" for xs ys s
    by (induction xs arbitrary: s) (auto split: option.splits)
  show ?thesis by (induction es) (auto simp: app split: option.splits)
qed

text \<open>The digit count in unary chunks is read back as the count.\<close>

lemma unary_pop:
  assumes "1 \<le> bp" "bp \<le> 8" "rans_inv s"
  shows "\<exists>s'. push_all (flush_entry 16 bp) (unary_entries (2 ^ bp - 1) v) s = Some s' \<and> rans_inv s'
    \<and> (\<forall>st n. rans_sees buf s' st \<longrightarrow> (\<exists>st'. read_count bp buf st n = Inr (n + v, st') \<and> rans_sees buf s st'))"
  using assms(3)
proof (induction "2 ^ bp - 1 :: nat" v arbitrary: s rule: unary_entries.induct)
  case (1 v s)
  have m: "(2::nat) \<le> 2 ^ bp" using assms(1) by (cases bp) simp_all
  show ?case
  proof (cases "v \<ge> 2 ^ bp - 1")
    case False
    then have v: "v < 2 ^ bp - 1" "v < 2 ^ bp" by simp_all
    have "unary_entries (2 ^ bp - 1) v = [(int v, 0)]" using v by (subst unary_entries.simps) simp
    moreover obtain s' where s': "flush_entry 16 bp (int v, 0) s = Some s'" "rans_inv s'"
      and p: "\<And>st. rans_sees buf s' st \<Longrightarrow> \<exists>st'. read_bypass bp buf st = Inr (v, st') \<and> rans_sees buf s st'"
      using flush_digit [of bp v s buf] assms(1,2) v(2) 1(2) by (auto simp: digit_ok_def)
    moreover have "\<exists>st'. read_count bp buf st n = Inr (n + v, st') \<and> rans_sees buf s st'"
      if "rans_sees buf s' st" for st n
      using p [OF that] assms(1) v(1) by (subst read_count.simps) auto
    ultimately show ?thesis by simp
  next
    case True
    let ?m = "2 ^ bp - 1 :: nat"
    obtain s1 where s1: "push_all (flush_entry 16 bp) (unary_entries ?m (v - ?m)) s = Some s1" "rans_inv s1"
      and p1: "\<And>st n. rans_sees buf s1 st \<Longrightarrow>
        \<exists>st'. read_count bp buf st n = Inr (n + (v - ?m), st') \<and> rans_sees buf s st'"
      using 1(1) [OF _ 1(2)] True m by auto
    obtain s' where s': "flush_entry 16 bp (int ?m, 0) s1 = Some s'" "rans_inv s'"
      and p: "\<And>st. rans_sees buf s' st \<Longrightarrow> \<exists>st'. read_bypass bp buf st = Inr (?m, st') \<and> rans_sees buf s1 st'"
      using flush_digit [of bp ?m s1 buf] assms(1,2) m s1(2) by (auto simp: digit_ok_def)
    have u: "unary_entries ?m v = (int ?m, 0) # unary_entries ?m (v - ?m)"
      using True m by (subst unary_entries.simps) simp
    have "\<exists>st'. read_count bp buf st n = Inr (n + v, st') \<and> rans_sees buf s st'"
      if "rans_sees buf s' st" for st n
    proof -
      from p [OF that] obtain st1 where b: "read_bypass bp buf st = Inr (?m, st1)" "rans_sees buf s1 st1" by blast
      from p1 [OF b(2), of "n + ?m"] obtain st' where
        "read_count bp buf st1 (n + ?m) = Inr (n + ?m + (v - ?m), st')" "rans_sees buf s st'" by blast
      moreover have "n + ?m + (v - ?m) = n + v" using True by linarith
      ultimately show ?thesis using b(1) assms(1) by (subst read_count.simps) simp
    qed
    then show ?thesis using s1(1) s' unfolding u by simp
  qed
qed

lemma read_digits_pop_all:
  "pop_all (\<lambda>bp. read_bypass bp buf) (map (\<lambda>_. bp) js) st = Inr (vs, st') \<Longrightarrow>
     read_digits bp buf st js r = Inr (fold (\<lambda>(j, v) r. r OR push_bit (j * bp) v) (zip js vs) r, st')"
  by (induction js arbitrary: st vs r) (auto split: sum.splits)

text \<open>The digits of a value put the value back together.\<close>

lemma count_bypass_enough: "bp \<noteq> 0 \<Longrightarrow> drop_bit (count_bypass bp raw n * bp) raw = 0"
  by (induction bp raw n rule: count_bypass.induct) (subst count_bypass.simps, auto)

lemma and_exp_nat: "(x::nat) AND (2 ^ n - 1) = take_bit n x"
  by (simp only: take_bit_eq_mask mask_eq_exp_minus_1)

lemma digits_recombine:
  "fold (\<lambda>(j, v) r. r OR push_bit (j * bp) v)
     (zip [0..<n] (map (\<lambda>j. drop_bit (j * bp) raw AND (2 ^ bp - 1)) [0..<n])) 0 = take_bit (n * bp) (raw::nat)"
proof (induction n)
  case (Suc n)
  have "take_bit (n * bp) raw OR push_bit (n * bp) (take_bit bp (drop_bit (n * bp) raw))
      = take_bit (Suc n * bp) raw"
    by (rule bit_eqI) (auto simp: bit_simps)
  then show ?case using Suc unfolding and_exp_nat by simp
qed simp

lemma flush_bypass:
  assumes "1 \<le> bp" "bp \<le> 8" "rans_inv s"
  shows "\<exists>s'. push_all (flush_entry 16 bp) (bypass_entries bp raw) s = Some s' \<and> rans_inv s'
    \<and> (\<forall>st. rans_sees buf s' st \<longrightarrow> (\<exists>n st1 st2. read_count bp buf st 0 = Inr (n, st1)
         \<and> read_digits bp buf st1 [0..<n] 0 = Inr (raw, st2) \<and> rans_sees buf s st2))"
proof -
  define n where "n = count_bypass bp raw 0"
  define ds where "ds = map (\<lambda>j. (bp, drop_bit (j * bp) raw AND (2 ^ bp - 1))) [0..<n]"
  have ok: "list_all digit_ok ds" using assms
    unfolding ds_def and_exp_nat by (simp add: digit_ok_def list_all_iff)
  have es: "push_all (flush_entry 16 bp) (map (\<lambda>j. (int (drop_bit (j * bp) raw AND (2 ^ bp - 1)), 0)) js) s
      = push_all (\<lambda>(bp, d). flush_entry 16 bp (int d, 0)) (map (\<lambda>j. (bp, drop_bit (j * bp) raw AND (2 ^ bp - 1))) js) s" for js s
    by (induction js) (auto split: option.splits)
  from digit.push_all_pop_all [OF ok assms(3), of buf] obtain s1
    where s1: "push_all (\<lambda>(bp, d). flush_entry 16 bp (int d, 0)) ds s = Some s1" "rans_inv s1"
      and p1: "\<And>st. rans_sees buf s1 st \<Longrightarrow>
        \<exists>st'. pop_all (\<lambda>bp. read_bypass bp buf) (map fst ds) st = Inr (map snd ds, st') \<and> rans_sees buf s st'"
    by blast
  from unary_pop [OF assms(1,2) s1(2), of n buf] obtain s'
    where s': "push_all (flush_entry 16 bp) (unary_entries (2 ^ bp - 1) n) s1 = Some s'" "rans_inv s'"
      and p: "\<And>st k. rans_sees buf s' st \<Longrightarrow> \<exists>st'. read_count bp buf st k = Inr (k + n, st') \<and> rans_sees buf s1 st'"
    by blast
  have push: "push_all (flush_entry 16 bp) (bypass_entries bp raw) s = Some s'"
    using s1(1) s'(1) unfolding bypass_entries_def Let_def push_all_append n_def [symmetric] es
    by (simp add: ds_def)
  have whole: "take_bit (n * bp) raw = raw"
  proof -
    have "drop_bit (n * bp) raw = 0" using count_bypass_enough [of bp raw 0] assms(1) by (simp add: n_def)
    then show ?thesis using bits_ident [of "n * bp" raw] by simp
  qed
  have "\<exists>k st1 st2. read_count bp buf st 0 = Inr (k, st1)
      \<and> read_digits bp buf st1 [0..<k] 0 = Inr (raw, st2) \<and> rans_sees buf s st2" if sees: "rans_sees buf s' st" for st
  proof -
    from p [OF sees, of 0] obtain st1 where c: "read_count bp buf st 0 = Inr (n, st1)" "rans_sees buf s1 st1" by auto
    from p1 [OF c(2)] obtain st2
      where d: "pop_all (\<lambda>bp. read_bypass bp buf) (map (\<lambda>_. bp) [0..<n]) st1 = Inr (map snd ds, st2)" "rans_sees buf s st2"
      by (auto simp: ds_def comp_def)
    have "read_digits bp buf st1 [0..<n] 0 = Inr (raw, st2)"
      unfolding read_digits_pop_all [OF d(1)] using digits_recombine [of bp n raw] whole
      by (simp add: ds_def comp_def)
    then show ?thesis using c d by blast
  qed
  then show ?thesis using push s' by blast
qed

section \<open>Whole symbols\<close>

text \<open>
  What the coder needs of a table group at 16-bit precision: every row starts at 0, ends at 65536,
  increases strictly, and lies within the flat table.
\<close>

definition wf_row :: "int list \<Rightarrow> bool" where
  "wf_row row \<longleftrightarrow> 2 \<le> length row \<and> row ! 0 = 0 \<and> last row = 65536 \<and> sorted_wrt (<) row"

definition wf_group :: "CdfGroup \<Rightarrow> bool" where
  "wf_group grp \<longleftrightarrow>
     length (cdf_length grp) = num_cdfs grp \<and> length (cdf_offset grp) = num_cdfs grp
     \<and> length (quantized_cdf grp) = num_cdfs grp * cdf_width grp
     \<and> list_all (\<lambda>i. 2 \<le> cdf_length grp ! i \<and> cdf_length grp ! i \<le> int (cdf_width grp)
          \<and> wf_row (slice (i * cdf_width grp) (i * cdf_width grp + nat (cdf_length grp ! i)) (quantized_cdf grp)))
          [0..<num_cdfs grp]"

text \<open>What the wire tables give for row \<open>i\<close>, in the form the proofs use.\<close>

lemma wf_group_row:
  assumes "wf_group grp" "i < num_cdfs grp"
  obtains n where "cdf_length grp ! i = int n" "2 \<le> n"
    "i < length (cdf_length grp)" "i < length (cdf_offset grp)"
    "i * cdf_width grp + n \<le> length (quantized_cdf grp)"
    "quantized_cdf grp ! (i * cdf_width grp) = 0"
    "quantized_cdf grp ! (i * cdf_width grp + n - 1) = 65536"
    "\<And>a b. a < b \<Longrightarrow> b < n \<Longrightarrow>
       quantized_cdf grp ! (i * cdf_width grp + a) < quantized_cdf grp ! (i * cdf_width grp + b)"
proof -
  define n where "n = nat (cdf_length grp ! i)"
  define base where "base = i * cdf_width grp"
  have r: "2 \<le> cdf_length grp ! i" "cdf_length grp ! i \<le> int (cdf_width grp)"
    "wf_row (slice base (base + n) (quantized_cdf grp))"
    and len: "length (cdf_length grp) = num_cdfs grp" "length (cdf_offset grp) = num_cdfs grp"
      "length (quantized_cdf grp) = num_cdfs grp * cdf_width grp"
    using assms unfolding wf_group_def by (simp_all add: list_all_iff n_def base_def)
  have "(i + 1) * cdf_width grp \<le> num_cdfs grp * cdf_width grp" by (rule mult_right_mono) (use assms(2) in simp_all)
  then have fit: "base + n \<le> length (quantized_cdf grp)" using r(2) by (simp add: base_def n_def len(3))
  define row where "row = slice base (base + n) (quantized_cdf grp)"
  have lr: "length row = n" using fit by (simp add: row_def length_slice)
  have nth: "quantized_cdf grp ! (base + a) = row ! a" if "a < n" for a
    using that fit by (simp add: row_def slice_def)
  have n2: "2 \<le> n" using r(1) by (simp add: n_def)
  have w: "row ! 0 = 0" "last row = 65536" "sorted_wrt (<) row" using r(3) by (simp_all add: wf_row_def row_def)
  have "row ! (n - 1) = 65536" using w(2) lr n2 by (simp add: last_conv_nth flip: length_greater_0_conv)
  then show thesis
    using that [of n, folded base_def] nth [of 0] nth [of "n - 1"] n2 r(1) w len assms(2) fit nth lr
    by (simp add: n_def sorted_wrt_iff_nth_less)
qed

lemma bisect_right_slot:
  assumes "hi \<le> length a" "lo \<le> k" "k < hi" "a ! k \<le> x" "\<And>i. k < i \<Longrightarrow> i < hi \<Longrightarrow> x < a ! i"
    "\<And>i. lo \<le> i \<Longrightarrow> i < k \<Longrightarrow> a ! i \<le> x"
  shows "bisect_right a x lo hi = Inr (k + 1)"
proof -
  have "bisect_right a x l h = Inr (k + 1)" if "l \<le> k + 1" "k + 1 \<le> h" "lo \<le> l" "h \<le> hi" for l h
    using that
  proof (induction "h - l" arbitrary: l h rule: less_induct)
    case less
    define mid where "mid = (l + h) div 2"
    show ?case
    proof (cases "l < h")
      case True
      then have m: "l \<le> mid" "mid < h" "mid < length a" using less.prems assms(1) by (auto simp: mid_def)
      show ?thesis
      proof (cases "x < a ! mid")
        case lt: True
        then have "k < mid" using assms(4) assms(6) [of mid] m(1) less.prems(3)
          by (metis leI le_trans nless_le order.strict_iff_not)
        then show ?thesis using less.hyps [of mid l] True lt m less.prems
          by (subst bisect_right.simps) (simp add: Let_def flip: mid_def)
      next
        case ge: False
        then have "mid \<le> k" using assms(5) [of mid] m(2) less.prems(4) by (metis leI less_le_trans)
        then show ?thesis using less.hyps [of h "mid + 1"] True ge m less.prems
          by (subst bisect_right.simps) (simp add: Let_def flip: mid_def)
      qed
    next
      case False
      then show ?thesis using less.prems by (subst bisect_right.simps) simp
    qed
  qed
  then show ?thesis using assms by simp
qed

lemma py_get_int: "k < length xs \<Longrightarrow> py_get xs (int k) = Inr (xs ! k)"
  by simp

lemma py_get_int_Suc: "k + 1 < length xs \<Longrightarrow> py_get xs (int k + 1) = Inr (xs ! (k + 1))"
  by (simp add: nat_add_distrib)

text \<open>The value and escape payload the encoder derives from a symbol.\<close>

definition sym_val :: "int \<Rightarrow> int \<Rightarrow> int" where
  "sym_val m v = (if v < 0 \<or> v \<ge> m then m else v)"

definition sym_raw :: "int \<Rightarrow> int \<Rightarrow> int" where
  "sym_raw m v = (if v < 0 then -2 * v - 1 else if v \<ge> m then 2 * (v - m) else 0)"

lemma sym_raw_inverse:
  assumes "0 \<le> m" "sym_val m v = m"
  shows "(if odd (nat (sym_raw m v)) then - int (nat (sym_raw m v) div 2) - 1
          else int (nat (sym_raw m v) div 2) + m) = v"
proof -
  consider "v < 0" | "v \<ge> m" "0 \<le> v" using assms by (auto simp: sym_val_def split: if_splits)
  then show ?thesis
  proof cases
    case 1
    have "nat (- 2 * v - 1) = 2 * nat (- v - 1) + 1" using 1 by linarith
    then show ?thesis using 1 by (simp add: sym_raw_def)
  next
    case 2
    have "nat (2 * (v - m)) = 2 * nat (v - m)" using 2 by (simp add: nat_mult_distrib)
    then show ?thesis using 2 by (simp add: sym_raw_def)
  qed
qed

definition symbol_ok :: "nat \<Rightarrow> CdfGroup \<Rightarrow> int \<times> int \<Rightarrow> bool" where
  "symbol_ok bp grp e \<longleftrightarrow> 1 \<le> bp \<and> bp \<le> 8 \<and> wf_group grp \<and> snd e < int (num_cdfs grp)"

definition symbol_val :: "int \<times> int \<Rightarrow> int" where
  "symbol_val e = (if snd e < 0 then 0 else fst e)"

definition flush_symbol :: "nat \<Rightarrow> CdfGroup \<Rightarrow> int \<times> int \<Rightarrow> bytes \<times> int \<Rightarrow> (bytes \<times> int) option" where
  "flush_symbol bp grp e s =
     (case push_symbol bp grp (fst e) (snd e) of
        Inl _ \<Rightarrow> None | Inr es \<Rightarrow> push_all (flush_entry 16 bp) es s)"

lemma push_symbol_entries:
  fixes smb :: int
  assumes "cdf_length grp ! i = int n" "2 \<le> n" "i < num_cdfs grp"
    "i < length (cdf_length grp)" "i < length (cdf_offset grp)"
    "i * cdf_width grp + n \<le> length (quantized_cdf grp)"
  defines "v \<equiv> nat (sym_val (int n - 2) (smb - cdf_offset grp ! i))"
  shows "v \<le> n - 2" "int v = sym_val (int n - 2) (smb - cdf_offset grp ! i)"
    "push_symbol bp grp smb (int i) =
      Inr ((quantized_cdf grp ! (i * cdf_width grp + v),
            quantized_cdf grp ! (i * cdf_width grp + v + 1) - quantized_cdf grp ! (i * cdf_width grp + v))
           # (if v = n - 2 then bypass_entries bp (nat (sym_raw (int n - 2) (smb - cdf_offset grp ! i))) else []))"
proof -
  show iv: "int v = sym_val (int n - 2) (smb - cdf_offset grp ! i)" and vn: "v \<le> n - 2"
    using assms(2) by (auto simp: v_def sym_val_def)
  let ?b = "i * cdf_width grp"
  have g: "py_get (quantized_cdf grp) (int ?b + int v) = Inr (quantized_cdf grp ! (?b + v))"
    "py_get (quantized_cdf grp) (int ?b + int v + 1) = Inr (quantized_cdf grp ! (?b + v + 1))"
    using vn assms(2,6) py_get_int [of "?b + v" "quantized_cdf grp"]
      py_get_int_Suc [of "?b + v" "quantized_cdf grp"] by simp_all
  have ve: "int v = int n - 2 \<longleftrightarrow> v = n - 2" using assms(2) by linarith
  show "push_symbol bp grp smb (int i) =
      Inr ((quantized_cdf grp ! (?b + v), quantized_cdf grp ! (?b + v + 1) - quantized_cdf grp ! (?b + v))
           # (if v = n - 2 then bypass_entries bp (nat (sym_raw (int n - 2) (smb - cdf_offset grp ! i))) else []))"
    using assms(1-5) g ve
    by (simp add: push_symbol_def Let_def flip: iv sym_val_def sym_raw_def of_nat_mult)
qed

text \<open>The interval part of a decoded symbol, then its escape payload.\<close>

lemma decode_symbol_steps:
  assumes "cdf_length grp ! i = int n" "2 \<le> n" "i < num_cdfs grp"
    "i < length (cdf_length grp)" "i < length (cdf_offset grp)"
    "i * cdf_width grp + n \<le> length (quantized_cdf grp)"
    and incs: "\<forall>a b. a < b \<longrightarrow> b < n \<longrightarrow>
       quantized_cdf grp ! (i * cdf_width grp + a) < quantized_cdf grp ! (i * cdf_width grp + b)"
    and v: "v \<le> n - 2" "quantized_cdf grp ! (i * cdf_width grp + v) \<le> x mod 65536"
      "x mod 65536 < quantized_cdf grp ! (i * cdf_width grp + v + 1)"
    and ren: "renorm_in buf (((quantized_cdf grp ! (i * cdf_width grp + v + 1)
        - quantized_cdf grp ! (i * cdf_width grp + v)) * (x div 65536) + x mod 65536
        - quantized_cdf grp ! (i * cdf_width grp + v)) mod 4294967296) ptr = Inr st1"
  shows "decode_symbol 16 bp grp buf (int i) (x, ptr) =
    bind_res (if v \<noteq> n - 2 then Inr (int v, st1)
       else bind_res (read_count bp buf st1 0) (\<lambda>(n_bypass, st2).
            bind_res (read_digits bp buf st2 [0..<n_bypass] 0) (\<lambda>(raw_val, st3).
              Inr (if odd raw_val then - int (raw_val div 2) - 1 else int (raw_val div 2) + (int n - 2), st3))))
      (\<lambda>(value, st'). Inr (value + cdf_offset grp ! i, st'))"
proof -
  let ?b = "i * cdf_width grp" and ?q = "quantized_cdf grp"
  note inc = incs [rule_format]
  have "bisect_right ?q (x mod 65536) ?b (?b + n) = Inr (?b + v + 1)"
  proof (rule bisect_right_slot)
    show "?q ! j \<le> x mod 65536" if "?b \<le> j" "j < ?b + v" for j
    proof -
      have "j - ?b < v" "v < n" "?b + (j - ?b) = j" using that v(1) assms(2) by linarith+
      then show ?thesis using inc [of "j - ?b" v] v(2) by simp
    qed
    show "x mod 65536 < ?q ! j" if "?b + v < j" "j < ?b + n" for j
    proof (cases "j = ?b + v + 1")
      case False
      then have "v + 1 < j - ?b" "j - ?b < n" "?b + (j - ?b) = j" using that by linarith+
      then show ?thesis using inc [of "v + 1" "j - ?b"] v(3) by (simp add: add.assoc)
    qed (use v in simp)
  qed (use assms v in simp_all)
  then have bis: "bisect_right ?q (x mod 65536) ?b (nat (int ?b + int n)) = Inr (?b + v + 1)"
    by (simp only: nat_int of_nat_add [symmetric])
  have g: "py_get ?q (int ?b + int v) = Inr (?q ! (?b + v))"
    "py_get ?q (int ?b + int v + 1) = Inr (?q ! (?b + v + 1))"
    using v(1) assms(2,6) py_get_int [of "?b + v" ?q] py_get_int_Suc [of "?b + v" ?q] by simp_all
  have r: "0 \<le> int v" "int v < int n - 1" "int v = int n - 2 \<longleftrightarrow> v = n - 2" using v(1) assms(2) by linarith+
  have k: "int (?b + v + 1) - int ?b - 1 = int v" by simp
  show ?thesis
    using assms(1,3-5) bis g r ren
    by (simp only: decode_symbol_def prod.case Let_def of_nat_mult [symmetric] mask_16 bind_res.simps
        py_get_nth of_nat_0_le_iff of_nat_less_iff nat_int not_le not_less k drop_bit_eq_div
        and_16_int and_32_int if_False simp_thms if_True) simp
qed

lemma flush_symbol_pop:
  assumes "symbol_ok bp grp e" "rans_inv s"
  shows "\<exists>s'. flush_symbol bp grp e s = Some s' \<and> rans_inv s'
    \<and> (\<forall>st. rans_sees buf s' st \<longrightarrow>
         (\<exists>st'. decode_symbol 16 bp grp buf (snd e) st = Inr (symbol_val e, st') \<and> rans_sees buf s st'))"
proof (cases "snd e < 0")
  case True
  then show ?thesis using assms(2)
    by (auto simp: flush_symbol_def push_symbol_def decode_symbol_def symbol_val_def)
next
  case False
  define i where "i = nat (snd e)"
  have e: "e = (fst e, int i)" and i: "i < num_cdfs grp" using False assms(1)
    by (auto simp: prod_eq_iff i_def symbol_ok_def)
  have bp: "1 \<le> bp" "bp \<le> 8" "wf_group grp" using assms(1) by (simp_all add: symbol_ok_def)
  let ?b = "i * cdf_width grp" and ?q = "quantized_cdf grp"
  obtain n where n: "cdf_length grp ! i = int n" "2 \<le> n"
    "i < length (cdf_length grp)" "i < length (cdf_offset grp)" "?b + n \<le> length ?q"
    and z: "?q ! ?b = 0" "?q ! (?b + n - 1) = 65536"
    and inc: "\<And>a b. a < b \<Longrightarrow> b < n \<Longrightarrow> ?q ! (?b + a) < ?q ! (?b + b)"
    using wf_group_row [OF bp(3) i] by metis
  have incs: "\<forall>a b. a < b \<longrightarrow> b < n \<longrightarrow> ?q ! (?b + a) < ?q ! (?b + b)" using inc by blast
  define m where "m = int n - 2"
  define w where "w = fst e - cdf_offset grp ! i"
  define v where "v = nat (sym_val m w)"
  note P = push_symbol_entries [OF n(1,2) i n(3-5), where smb = "fst e", folded m_def w_def, folded v_def]
  let ?tail = "if v = n - 2 then bypass_entries bp (nat (sym_raw m w)) else []"
  obtain s1 where s1: "push_all (flush_entry 16 bp) ?tail s = Some s1" "rans_inv s1"
    and p1: "\<And>st. rans_sees buf s1 st \<Longrightarrow> \<exists>st2. rans_sees buf s st2 \<and>
       (if v \<noteq> n - 2 then Inr (int v, st)
       else bind_res (read_count bp buf st 0) (\<lambda>(n_bypass, st2).
            bind_res (read_digits bp buf st2 [0..<n_bypass] 0) (\<lambda>(raw_val, st3).
              Inr (if odd raw_val then - int (raw_val div 2) - 1 else int (raw_val div 2) + m, st3)))) = Inr (w, st2)"
  proof (cases "v = n - 2")
    case True
    have "sym_val m w = m" using P(2) True n(2) by (simp add: m_def)
    note inv = sym_raw_inverse [OF _ this]
    show ?thesis using that flush_bypass [OF bp(1,2) assms(2), of "nat (sym_raw m w)" buf] True inv n(2)
      by (fastforce simp: m_def)
  next
    case False
    have "int v = w" using P(2) False n(2) by (auto simp: sym_val_def m_def split: if_splits)
    then show ?thesis using False assms(2) by (intro that [of s]) auto
  qed
  let ?st = "?q ! (?b + v)" and ?nx = "?q ! (?b + v + 1)"
  have vn: "v < n" using P(1) n(2) by linarith
  then have "0 \<le> ?st" using inc [of 0 v] z(1) by (cases "v = 0") auto
  moreover have "?st < ?nx" using inc [of v "v + 1"] P(1) n(2) by simp
  moreover have "?nx \<le> 65536"
  proof (cases "v + 1 < n - 1")
    case True
    have "?b + (n - 1) = ?b + n - 1" using n(2) by simp
    then show ?thesis using inc [of "v + 1" "n - 1"] True z(2) n(2) by (simp add: add.assoc)
  next
    case False
    then have "?b + v + 1 = ?b + n - 1" using P(1) n(2) by linarith
    then show ?thesis using z(2) by simp
  qed
  ultimately obtain s' where s': "flush_entry 16 bp (?st, ?nx - ?st) s1 = Some s'" "rans_inv s'"
    and p: "\<And>x ptr. rans_sees buf s' (x, ptr) \<Longrightarrow> ?st \<le> x mod 65536 \<and> x mod 65536 < ?nx
      \<and> (\<exists>d'. renorm_in buf (((?nx - ?st) * (x div 65536) + x mod 65536 - ?st) mod 4294967296) ptr = Inr d'
              \<and> rans_sees buf s1 d')"
    using flush_interval [of ?st "?nx - ?st" s1 bp] s1(2) by auto
  have push: "flush_symbol bp grp e s = Some s'"
    using P(3) s1(1) s'(1) by (subst e) (simp add: flush_symbol_def)
  have "\<exists>st'. decode_symbol 16 bp grp buf (snd e) st = Inr (symbol_val e, st') \<and> rans_sees buf s st'"
    if sees: "rans_sees buf s' st" for st
  proof -
    obtain x ptr where st: "st = (x, ptr)" by (cases st)
    from p [OF sees [unfolded st]] obtain d1 where sl: "?st \<le> x mod 65536" "x mod 65536 < ?nx"
      and r: "renorm_in buf (((?nx - ?st) * (x div 65536) + x mod 65536 - ?st) mod 4294967296) ptr = Inr d1"
      and see1: "rans_sees buf s1 d1" by blast
    from p1 [OF see1] obtain st2 where fin: "rans_sees buf s st2" and val:
      "(if v \<noteq> n - 2 then Inr (int v, d1)
       else bind_res (read_count bp buf d1 0) (\<lambda>(n_bypass, st2).
            bind_res (read_digits bp buf st2 [0..<n_bypass] 0) (\<lambda>(raw_val, st3).
              Inr (if odd raw_val then - int (raw_val div 2) - 1 else int (raw_val div 2) + m, st3)))) = Inr (w, st2)"
      by blast
    have "decode_symbol 16 bp grp buf (int i) (x, ptr) = Inr (w + cdf_offset grp ! i, st2)"
      unfolding decode_symbol_steps [OF n(1,2) i n(3-5) incs P(1) sl r] m_def [symmetric] val by simp
    then show ?thesis using fin False by (subst e) (auto simp: st symbol_val_def w_def i_def)
  qed
  then show ?thesis using push s'(2) by blast
qed

interpretation symbol: stack_coder
  "\<lambda>(grp, e). flush_symbol bp grp e" "\<lambda>(grp, i). decode_symbol 16 bp grp buf i" rans_inv "rans_sees buf"
  "\<lambda>(grp, e). symbol_ok bp grp e" "\<lambda>(grp, e). (grp, snd e)" "\<lambda>(grp, e). symbol_val e" for bp buf
  using flush_symbol_pop by unfold_locales fastforce

section \<open>Container round trip\<close>

lemma slice_append_mid: "length pre = i \<Longrightarrow> length m = j - i \<Longrightarrow> i \<le> j \<Longrightarrow> slice i j (pre @ m @ rest) = m"
  by (simp add: slice_def)

lemma read_sizes_heads:
  assumes "\<forall>sz \<in> set szs. sz < 256 ^ hdr"
  shows "read_sizes (length szs) hdr (pre @ concat (map (to_le hdr) szs) @ rest) (length pre)
    = Inr (szs, length pre + length szs * hdr)"
  using assms
proof (induction szs arbitrary: pre)
  case (Cons sz szs)
  have sl: "slice (length pre) (length pre + hdr) (pre @ to_le hdr sz @ concat (map (to_le hdr) szs) @ rest)
      = to_le hdr sz" by (rule slice_append_mid) simp_all
  have "from_le (to_le hdr sz) = sz" using Cons.prems by (simp add: from_le_to_le)
  then show ?case using Cons.IH [of "pre @ to_le hdr sz"] Cons.prems sl by (simp add: algebra_simps)
qed simp

lemma cut_parts_concat: "cut_parts (map length parts) (pre @ concat parts) (length pre) = Inr parts"
proof (induction parts arbitrary: pre)
  case (Cons p parts)
  then show ?case using Cons.IH [of "pre @ p"] slice_append_mid [of pre "length pre" p "length pre + length p" "concat parts"]
    by simp
qed simp

lemma fold_max_ge: "x \<in> set xs \<union> {m} \<Longrightarrow> x \<le> fold max xs (m::nat)"
proof (induction xs arbitrary: m x)
  case (Cons y ys)
  have "max y m \<le> fold max ys (max y m)" by (rule Cons.IH) simp
  then have "y \<le> fold max ys (max y m)" "m \<le> fold max ys (max y m)" by simp_all
  then show ?case using Cons by auto
qed simp

lemma map_res_Inr: "\<forall>x \<in> set xs. f x = Inr (g x) \<Longrightarrow> map_res f xs = Inr (map g xs)"
  by (induction xs) auto

lemma container_flag:
  assumes "n \<le> (15::nat)" "l \<le> 1"
  shows "(push_bit 4 n OR l) mod 256 = 16 * n + l" "drop_bit 4 (16 * n + l) = n" "(16 * n + l) AND 15 = l"
  using assms or_push_bit [of l 4 n] by (simp_all add: pybits)

lemma parse_build_container:
  assumes "parts \<noteq> []" "length parts \<le> MAX_SUB_STREAMS" "\<forall>p \<in> set (butlast parts). length p < 2 ^ 32"
  shows "\<exists>bs. build_rans_container parts = Inr bs \<and> parse_rans_container bs = Inr parts"
proof -
  define big where "big = (fold max (map length (butlast parts)) 0 > 65535)"
  define hdr where "hdr = (if big then 4 else 2 :: nat)"
  define low where "low = (if big then 0 else 1 :: nat)"
  define szs where "szs = map length (butlast parts)"
  have sz: "\<forall>sz \<in> set szs. sz < 256 ^ hdr"
  proof
    fix sz assume "sz \<in> set szs"
    then have "sz \<le> fold max (map length (butlast parts)) 0" "sz < 2 ^ 32"
      using fold_max_ge [of sz] assms(3) by (auto simp: szs_def)
    then show "sz < 256 ^ hdr" by (auto simp: hdr_def big_def)
  qed
  have heads: "map_res (\<lambda>p. to_bytes_le hdr (int (length p))) (butlast parts) = Inr (map (to_le hdr) szs)"
  proof -
    have "to_bytes_le hdr (int (length p)) = Inr ((to_le hdr \<circ> length) p)" if "p \<in> set (butlast parts)" for p
      using sz that by (simp add: to_bytes_le_def szs_def flip: of_nat_less_iff)
    then show ?thesis by (simp add: map_res_Inr szs_def)
  qed
  have n: "length parts - 1 \<le> 15" "length szs = length parts - 1" "low \<le> 1"
    using assms(2) by (simp_all add: MAX_SUB_STREAMS_def szs_def low_def)
  define flag where "flag = 16 * (length parts - 1) + low"
  define pre where "pre = byte_of flag # concat (map (to_le hdr) szs)"
  have build: "build_rans_container parts = Inr (pre @ concat parts)"
  proof -
    have "byte_of (push_bit 4 (length parts - 1) OR low) = byte_of flag"
      using container_flag(1) [OF n(1,3)] by (metis byte_of_mod flag_def)
    then show ?thesis using assms heads unfolding build_rans_container_def Let_def
      by (simp add: pre_def big_def [symmetric] hdr_def low_def split: if_splits)
  qed
  have lp: "length pre = 1 + length szs * hdr"
    by (simp add: pre_def length_concat comp_def sum_list_triv)
  have all: "map length parts = szs @ [length (last parts)]"
    using assms(1) by (metis append_butlast_last_id list.simps(8,9) map_append szs_def)
  then have tot: "length (concat parts) = sum_list szs + length (last parts)" by (simp add: length_concat)
  have f: "flag mod 256 = flag" using n by (simp add: flag_def)
  have "parse_rans_container (pre @ concat parts) = cut_parts (map length parts) (pre @ concat parts) (length pre)"
    using read_sizes_heads [OF sz, of "[byte_of flag]" "concat parts"] container_flag(2,3) [OF n(1,3), folded flag_def]
      lp tot n(2) all
    by (cases big) (simp_all add: parse_rans_container_def pre_def Let_def f hdr_def low_def)
  then show ?thesis using build cut_parts_concat [of parts pre] by simp
qed

section \<open>Whole streams\<close>

text \<open>A client of the coder: calls \<open>(symbols, indexes, cdf_group_index)\<close> in order.\<close>

type_synonym rans_call = "int list \<times> int list \<times> int"

fun encode_calls :: "RansEncoder \<Rightarrow> rans_call list \<Rightarrow> RansEncoder res" where
  "encode_calls enc [] = Inr enc"
| "encode_calls enc ((symbols, indexes, g) # cs) =
     bind_res (encode_with_indexes enc symbols indexes g) (\<lambda>enc'. encode_calls enc' cs)"

fun decode_calls :: "RansDecoder \<Rightarrow> rans_call list \<Rightarrow> (int list list \<times> RansDecoder) res" where
  "decode_calls dec [] = Inr ([], dec)"
| "decode_calls dec ((_, indexes, g) # cs) =
     bind_res (decode_stream dec indexes g) (\<lambda>(vs, dec').
     bind_res (decode_calls dec' cs) (\<lambda>(vss, dec''). Inr (vs # vss, dec'')))"

text \<open>A symbol under a negative index is not coded and reads back as 0.\<close>

definition call_values :: "rans_call \<Rightarrow> int list" where
  "call_values c = (case c of (symbols, indexes, g) \<Rightarrow> map symbol_val (zip symbols indexes))"

definition wf_tables :: "EntropyTables \<Rightarrow> bool" where
  "wf_tables t \<longleftrightarrow> tab_precision t = 16 \<and> 1 \<le> tab_bypass_precision t \<and> tab_bypass_precision t \<le> 8
     \<and> list_all wf_group (tab_groups t)"

definition call_ok :: "EntropyTables \<Rightarrow> rans_call \<Rightarrow> bool" where
  "call_ok t c \<longleftrightarrow>
     (case c of (symbols, indexes, g) \<Rightarrow>
        length symbols = length indexes \<and> 0 \<le> g \<and> g < int (length (tab_groups t))
        \<and> list_all (\<lambda>i. i < int (num_cdfs (tab_groups t ! nat g))) indexes)"

abbreviation flush_sym :: "nat \<Rightarrow> CdfGroup \<times> int \<times> int \<Rightarrow> bytes \<times> int \<Rightarrow> (bytes \<times> int) option" where
  "flush_sym bp \<equiv> \<lambda>(grp, e). flush_symbol bp grp e"

definition part_events :: "EntropyTables \<Rightarrow> nat \<Rightarrow> nat \<Rightarrow> rans_call \<Rightarrow> (CdfGroup \<times> int \<times> int) list" where
  "part_events t n p c =
     (case c of (symbols, indexes, g) \<Rightarrow>
        map (Pair (tab_groups t ! nat g)) (part_slice n p (zip symbols indexes)))"

lemma set_part_slice: "set (part_slice n p xs) \<subseteq> set xs"
  unfolding part_slice_def slice_def Let_def by (meson order_trans set_drop_subset set_take_subset)

lemma map_part_slice: "map f (part_slice n p xs) = part_slice n p (map f xs)"
  by (simp add: part_slice_def slice_def Let_def take_map drop_map)

lemma concat_part_slices: "0 < n \<Longrightarrow> concat (map (\<lambda>p. part_slice n p xs) [0..<n]) = xs"
proof -
  assume n: "0 < n"
  define k where "k = length xs div n"
  have pre: "concat (map (\<lambda>p. slice (p * k) (p * k + k) xs) [0..<m]) = take (m * k) xs" for m
  proof (induction m)
    case (Suc m)
    have "take (m * k) xs @ take k (drop (m * k) xs) = take (m * k + k) xs" by (simp add: take_add)
    then show ?case using Suc by (simp add: slice_def add.commute)
  qed simp
  have eq: "map (\<lambda>p. part_slice n p xs) [0..<n - 1] = map (\<lambda>p. slice (p * k) (p * k + k) xs) [0..<n - 1]"
    by (auto simp: part_slice_def Let_def k_def)
  have "[0..<n] = [0..<n - 1] @ [n - 1]" using n by (metis Suc_diff_1 upt_Suc_append zero_le)
  then have "concat (map (\<lambda>p. part_slice n p xs) [0..<n])
      = take ((n - 1) * k) xs @ part_slice n (n - 1) xs"
    using pre [of "n - 1"] by (simp only: map_append concat_append eq) simp
  then show ?thesis by (simp add: part_slice_def slice_def Let_def k_def)
qed

lemma part_events_ok:
  assumes "wf_tables t" "call_ok t c"
  shows "list_all (\<lambda>(grp, e). symbol_ok (tab_bypass_precision t) grp e) (part_events t n p c)"
proof -
  obtain ss ixs g where c: "c = (ss, ixs, g)" by (cases c)
  have "wf_group (tab_groups t ! nat g)" using assms by (auto simp: wf_tables_def call_ok_def c list_all_iff)
  moreover have "i < int (num_cdfs (tab_groups t ! nat g))" if "(s, i) \<in> set (zip ss ixs)" for s i
    using assms that by (auto simp: call_ok_def c list_all_iff dest: set_zip_rightD)
  ultimately show ?thesis using assms(1) set_part_slice [of n p "zip ss ixs"]
    by (fastforce simp: part_events_def c list_all_iff symbol_ok_def wf_tables_def)
qed

lemma rans_inv_init [simp]: "rans_inv ([], RANS_LOWER_BOUND)"
  by (simp add: rans_inv_def RANS_LOWER_BOUND_def)

subsection \<open>Encoding\<close>

lemma push_range_events:
  assumes "list_all (symbol_ok bp grp) pairs"
  shows "\<exists>es. push_range bp grp pairs = Inr es
    \<and> (\<forall>s. push_all (flush_entry 16 bp) es s = push_all (flush_sym bp) (map (Pair grp) pairs) s)"
  using assms
proof (induction pairs)
  case (Cons e pairs)
  then obtain es where es: "push_range bp grp pairs = Inr es"
    "\<And>s. push_all (flush_entry 16 bp) es s = push_all (flush_sym bp) (map (Pair grp) pairs) s" by auto
  obtain e1 where e1: "push_symbol bp grp (fst e) (snd e) = Inr e1"
  proof (cases "push_symbol bp grp (fst e) (snd e)")
    case (Inl x)
    then have "flush_symbol bp grp e ([], RANS_LOWER_BOUND) = None" by (simp add: flush_symbol_def)
    then show ?thesis using flush_symbol_pop [of bp grp e "([], RANS_LOWER_BOUND)"] Cons.prems by simp
  qed (rule that)
  have "push_all (flush_entry 16 bp) (e1 @ es) s = push_all (flush_sym bp) (map (Pair grp) (e # pairs)) s" for s
    by (simp add: push_all_append es(2) flush_symbol_def e1 split: option.splits)
  moreover have "push_range bp grp (e # pairs) = Inr (e1 @ es)" using e1 es(1) by (cases e) simp
  ultimately show ?case by blast
qed simp

lemma push_parts_entries:
  assumes "distinct ps" "\<forall>p \<in> set ps. p < length entries \<and> push_range bp grp (part_slice n p pairs) = Inr (f p)"
  shows "\<exists>entries'. push_parts bp grp pairs n ps entries = Inr entries' \<and> length entries' = length entries
    \<and> (\<forall>p < length entries. entries' ! p = entries ! p @ (if p \<in> set ps then f p else []))"
  using assms
proof (induction ps arbitrary: entries)
  case (Cons p ps)
  from Cons.IH [of "entries[p := entries ! p @ f p]"] Cons.prems
  show ?case by (auto simp: nth_list_update)
qed simp

lemma encode_call_entries:
  assumes "wf_tables (enc_tables enc)" "call_ok (enc_tables enc) (ss, ixs, g)" "\<not> enc_finished enc"
    "enc_stream_parts enc = n" "0 < n" "length (enc_entries enc) = n"
  shows "\<exists>entries'. encode_with_indexes enc ss ixs g = Inr (enc\<lparr>enc_entries := entries'\<rparr>) \<and> length entries' = n
    \<and> (\<forall>p < n. \<exists>es. entries' ! p = enc_entries enc ! p @ es
         \<and> (\<forall>s. push_all (flush_entry 16 (tab_bypass_precision (enc_tables enc))) es s
              = push_all (flush_sym (tab_bypass_precision (enc_tables enc)))
                  (part_events (enc_tables enc) n p (ss, ixs, g)) s))"
proof -
  let ?t = "enc_tables enc"
  let ?bp = "tab_bypass_precision ?t" and ?grp = "tab_groups ?t ! nat g"
  have "\<exists>es. push_range ?bp ?grp (part_slice n p (zip ss ixs)) = Inr es
      \<and> (\<forall>s. push_all (flush_entry 16 ?bp) es s
          = push_all (flush_sym ?bp) (part_events ?t n p (ss, ixs, g)) s)" for p
    using part_events_ok [OF assms(1,2), of n p] push_range_events [of ?bp ?grp]
    by (simp add: part_events_def list_all_length)
  then obtain f where f: "\<And>p. push_range ?bp ?grp (part_slice n p (zip ss ixs)) = Inr (f p)"
    "\<And>p s. push_all (flush_entry 16 ?bp) (f p) s = push_all (flush_sym ?bp) (part_events ?t n p (ss, ixs, g)) s"
    by metis
  from push_parts_entries [of "[0..<n]" "enc_entries enc" ?bp ?grp n "zip ss ixs" f] f(1) assms(6)
  obtain entries' where e: "push_parts ?bp ?grp (zip ss ixs) n [0..<n] (enc_entries enc) = Inr entries'"
    "length entries' = n" "\<And>p. p < n \<Longrightarrow> entries' ! p = enc_entries enc ! p @ f p" by auto
  then show ?thesis using assms f(2) by (auto simp: encode_with_indexes_def Let_def call_ok_def)
qed

lemma encode_calls_entries:
  assumes "wf_tables (enc_tables enc)" "list_all (call_ok (enc_tables enc)) cs" "\<not> enc_finished enc"
    "enc_stream_parts enc = n" "0 < n" "length (enc_entries enc) = n"
  shows "\<exists>entries'. encode_calls enc cs = Inr (enc\<lparr>enc_entries := entries'\<rparr>) \<and> length entries' = n
    \<and> (\<forall>p < n. \<exists>es. entries' ! p = enc_entries enc ! p @ es
         \<and> (\<forall>s. push_all (flush_entry 16 (tab_bypass_precision (enc_tables enc))) es s
              = push_all (flush_sym (tab_bypass_precision (enc_tables enc)))
                  (concat (map (part_events (enc_tables enc) n p) cs)) s))"
  using assms
proof (induction cs arbitrary: enc)
  case Nil
  then show ?case by (auto intro!: exI [of _ "enc_entries enc"])
next
  case (Cons c cs)
  obtain ss ixs g where c: "c = (ss, ixs, g)" by (cases c)
  let ?t = "enc_tables enc"
  let ?bp = "tab_bypass_precision ?t"
  obtain e1 where e1: "encode_with_indexes enc ss ixs g = Inr (enc\<lparr>enc_entries := e1\<rparr>)" "length e1 = n"
    and p1: "\<And>p. p < n \<Longrightarrow> \<exists>es. e1 ! p = enc_entries enc ! p @ es
         \<and> (\<forall>s. push_all (flush_entry 16 ?bp) es s = push_all (flush_sym ?bp) (part_events ?t n p c) s)"
    using encode_call_entries [of enc ss "ixs" g n] Cons.prems c by auto
  obtain e2 where e2: "encode_calls (enc\<lparr>enc_entries := e1\<rparr>) cs = Inr (enc\<lparr>enc_entries := e2\<rparr>)" "length e2 = n"
    and p2: "\<And>p. p < n \<Longrightarrow> \<exists>es. e2 ! p = e1 ! p @ es
         \<and> (\<forall>s. push_all (flush_entry 16 ?bp) es s
              = push_all (flush_sym ?bp) (concat (map (part_events ?t n p) cs)) s)"
    using Cons.IH [of "enc\<lparr>enc_entries := e1\<rparr>"] Cons.prems e1(2) by auto
  have "\<exists>es. e2 ! p = enc_entries enc ! p @ es
      \<and> (\<forall>s. push_all (flush_entry 16 ?bp) es s
              = push_all (flush_sym ?bp) (concat (map (part_events ?t n p) (c # cs))) s)" if pn: "p < n" for p
  proof -
    obtain es1 where a1: "e1 ! p = enc_entries enc ! p @ es1"
      "\<And>s. push_all (flush_entry 16 ?bp) es1 s = push_all (flush_sym ?bp) (part_events ?t n p c) s"
      using p1 [OF pn] by blast
    obtain es2 where a2: "e2 ! p = e1 ! p @ es2"
      "\<And>s. push_all (flush_entry 16 ?bp) es2 s = push_all (flush_sym ?bp) (concat (map (part_events ?t n p) cs)) s"
      using p2 [OF pn] by blast
    show ?thesis using a1 a2 by (intro exI [of _ "es1 @ es2"]) (simp add: push_all_append split: option.split)
  qed
  then show ?case using e1(1) e2 c by auto
qed

subsection \<open>Decoding\<close>

lemma decode_range_pop_all:
  "decode_range 16 bp grp buf ixs st
     = pop_all (\<lambda>(grp, i). decode_symbol 16 bp grp buf i) (map (Pair grp) ixs) st"
  by (induction ixs arbitrary: st) (auto split: sum.splits)

lemma decode_parts_values:
  assumes "distinct ps" "\<forall>p \<in> set ps. p < length (dec_states dec) \<and> p < length (dec_ptrs dec)
      \<and> decode_range prec bp grp (dec_parts dec ! p) (part_slice (length (dec_parts dec)) p ixs)
          (dec_states dec ! p, dec_ptrs dec ! p) = Inr (vs p, xs p, qs p)"
  shows "\<exists>states' ptrs'. decode_parts prec bp grp ixs ps dec
      = Inr (concat (map vs ps), dec\<lparr>dec_states := states', dec_ptrs := ptrs'\<rparr>)
    \<and> length states' = length (dec_states dec) \<and> length ptrs' = length (dec_ptrs dec)
    \<and> (\<forall>p. states' ! p = (if p \<in> set ps then xs p else dec_states dec ! p)
         \<and> ptrs' ! p = (if p \<in> set ps then qs p else dec_ptrs dec ! p))"
  using assms
proof (induction ps arbitrary: dec)
  case Nil
  then show ?case by (auto intro!: exI [of _ "dec_states dec"] exI [of _ "dec_ptrs dec"])
next
  case (Cons p ps)
  let ?dec = "dec\<lparr>dec_states := (dec_states dec)[p := xs p], dec_ptrs := (dec_ptrs dec)[p := qs p]\<rparr>"
  have "\<exists>states' ptrs'. decode_parts prec bp grp ixs ps ?dec
      = Inr (concat (map vs ps), ?dec\<lparr>dec_states := states', dec_ptrs := ptrs'\<rparr>)
    \<and> length states' = length (dec_states ?dec) \<and> length ptrs' = length (dec_ptrs ?dec)
    \<and> (\<forall>q. states' ! q = (if q \<in> set ps then xs q else dec_states ?dec ! q)
         \<and> ptrs' ! q = (if q \<in> set ps then qs q else dec_ptrs ?dec ! q))"
    by (rule Cons.IH) (use Cons.prems in \<open>auto simp: nth_list_update\<close>)
  then show ?case using Cons.prems by (force simp: nth_list_update)
qed

text \<open>The decoder still has the calls \<open>cs\<close> in front of it.\<close>

definition dec_sees :: "nat \<Rightarrow> RansDecoder \<Rightarrow> rans_call list \<Rightarrow> bool" where
  "dec_sees n dec cs \<longleftrightarrow> length (dec_parts dec) = n \<and> length (dec_states dec) = n \<and> length (dec_ptrs dec) = n
     \<and> (\<forall>p < n. \<exists>s. push_all (flush_sym (tab_bypass_precision (dec_tables dec)))
            (concat (map (part_events (dec_tables dec) n p) cs)) ([], RANS_LOWER_BOUND) = Some s
          \<and> rans_sees (dec_parts dec ! p) s (dec_states dec ! p, dec_ptrs dec ! p))"

lemma part_events_concat_ok:
  "wf_tables t \<Longrightarrow> list_all (call_ok t) cs \<Longrightarrow>
     list_all (\<lambda>(grp, e). symbol_ok (tab_bypass_precision t) grp e) (concat (map (part_events t n p) cs))"
  using part_events_ok [of t _ n p] by (induction cs) auto

lemma map_zip_snd: "length xs = length ys \<Longrightarrow> map (\<lambda>x. f (snd x)) (zip xs ys) = map f ys"
  by (induction rule: list_induct2) auto

lemma decode_part_call:
  assumes "wf_tables t" "list_all (call_ok t) (c # cs)" "c = (ss, ixs, g)"
    "push_all (flush_sym (tab_bypass_precision t)) (concat (map (part_events t n p) (c # cs)))
       ([], RANS_LOWER_BOUND) = Some s" "rans_sees buf s d"
  shows "\<exists>d' s'. decode_range 16 (tab_bypass_precision t) (tab_groups t ! nat g) buf (part_slice n p ixs) d
      = Inr (part_slice n p (call_values c), d')
    \<and> push_all (flush_sym (tab_bypass_precision t)) (concat (map (part_events t n p) cs)) ([], RANS_LOWER_BOUND) = Some s'
    \<and> rans_sees buf s' d'"
proof -
  let ?bp = "tab_bypass_precision t"
  obtain s' where s': "push_all (flush_sym ?bp) (concat (map (part_events t n p) cs)) ([], RANS_LOWER_BOUND) = Some s'"
    "rans_inv s'"
    using symbol.push_all_pop_all [OF part_events_concat_ok [OF assms(1), of cs n p] rans_inv_init, of buf] assms(2) by auto
  have push: "push_all (flush_sym ?bp) (part_events t n p c) s' = Some s"
    using assms(4) s'(1) by (simp add: push_all_append)
  have kinds: "map (\<lambda>(grp, e). (grp, snd e)) (part_events t n p c) = map (Pair (tab_groups t ! nat g)) (part_slice n p ixs)"
    and vals: "map (\<lambda>(grp, e). symbol_val e) (part_events t n p c) = part_slice n p (call_values c)"
    using assms(2,3) by (simp_all add: part_events_def call_values_def call_ok_def comp_def map_part_slice map_zip_snd)
  have "\<exists>d'. pop_all (\<lambda>(grp, i). decode_symbol 16 ?bp grp buf i) (map (\<lambda>(grp, e). (grp, snd e)) (part_events t n p c)) d
      = Inr (map (\<lambda>(grp, e). symbol_val e) (part_events t n p c), d') \<and> rans_sees buf s' d'"
    using symbol.push_all_pop_all [OF part_events_ok [OF assms(1), of c n p] s'(2), of buf] push assms(2,5)
    by (cases d) auto
  then show ?thesis using s'(1) unfolding kinds vals decode_range_pop_all by blast
qed

lemma decode_call_values:
  assumes "wf_tables (dec_tables dec)" "list_all (call_ok (dec_tables dec)) (c # cs)" "c = (ss, ixs, g)"
    "0 < n" "dec_sees n dec (c # cs)"
  shows "\<exists>states' ptrs'. decode_stream dec ixs g
      = Inr (call_values c, dec\<lparr>dec_states := states', dec_ptrs := ptrs'\<rparr>)
    \<and> dec_sees n (dec\<lparr>dec_states := states', dec_ptrs := ptrs'\<rparr>) cs"
proof -
  let ?t = "dec_tables dec"
  let ?bp = "tab_bypass_precision ?t" and ?grp = "tab_groups ?t ! nat g"
  have len: "length (dec_parts dec) = n" "length (dec_states dec) = n" "length (dec_ptrs dec) = n"
    using assms(5) by (simp_all add: dec_sees_def)
  let ?out = "\<lambda>p d'. decode_range 16 ?bp ?grp (dec_parts dec ! p) (part_slice n p ixs) (dec_states dec ! p, dec_ptrs dec ! p)
      = Inr (part_slice n p (call_values c), d')
    \<and> (\<exists>s'. push_all (flush_sym ?bp) (concat (map (part_events ?t n p) cs)) ([], RANS_LOWER_BOUND) = Some s'
    \<and> rans_sees (dec_parts dec ! p) s' d')"
  have "\<exists>d'. ?out p d'" if "p < n" for p
    using decode_part_call [OF assms(1-3)] assms(5) that unfolding dec_sees_def by metis
  then obtain f where f: "\<And>p. p < n \<Longrightarrow> ?out p (f p)" by metis
  from decode_parts_values [of "[0..<n]" dec 16 ?bp ?grp ixs "\<lambda>p. part_slice n p (call_values c)" "fst \<circ> f" "snd \<circ> f"]
  obtain st pt where d: "decode_parts 16 ?bp ?grp ixs [0..<n] dec
      = Inr (concat (map (\<lambda>p. part_slice n p (call_values c)) [0..<n]), dec\<lparr>dec_states := st, dec_ptrs := pt\<rparr>)"
    "length st = n" "length pt = n" "\<And>p. p < n \<Longrightarrow> st ! p = fst (f p) \<and> pt ! p = snd (f p)"
    using f len by auto
  have "decode_stream dec ixs g = Inr (call_values c, dec\<lparr>dec_states := st, dec_ptrs := pt\<rparr>)"
    using assms(1-3) d(1) len(1) concat_part_slices [OF assms(4)]
    by (simp add: decode_stream_def call_ok_def Let_def wf_tables_def)
  moreover have "dec_sees n (dec\<lparr>dec_states := st, dec_ptrs := pt\<rparr>) cs"
    using d(2-4) f len by (auto simp: dec_sees_def)
  ultimately show ?thesis by blast
qed

lemma decode_calls_values:
  assumes "wf_tables (dec_tables dec)" "list_all (call_ok (dec_tables dec)) cs" "0 < n" "dec_sees n dec cs"
  shows "\<exists>dec'. decode_calls dec cs = Inr (map call_values cs, dec')"
  using assms
proof (induction cs arbitrary: dec)
  case (Cons c cs)
  obtain ss ixs g where c: "c = (ss, ixs, g)" by (cases c)
  from decode_call_values [OF Cons.prems(1,2) c Cons.prems(3,4)] obtain st pt
    where d: "decode_stream dec ixs g = Inr (call_values c, dec\<lparr>dec_states := st, dec_ptrs := pt\<rparr>)"
      "dec_sees n (dec\<lparr>dec_states := st, dec_ptrs := pt\<rparr>) cs" by blast
  then show ?case using Cons.IH [OF _ _ Cons.prems(3) d(2)] Cons.prems(1,2) c by auto
qed simp

subsection \<open>The round trip\<close>

lemma drop_bit_bytes:
  assumes "0 \<le> x" "x < 2 ^ 32"
  shows "int (from_le [byte_of (nat (x AND 255)), byte_of (nat (drop_bit 8 x AND 255)),
      byte_of (nat (drop_bit 16 x AND 255)), byte_of (nat (drop_bit 24 x AND 255))]) = x"
proof -
  obtain n where n: "x = int n" using assms(1) nonneg_int_cases by blast
  have d: "nat (drop_bit k (int n) AND 255) = n div 2 ^ k mod 256" for k
  proof -
    have "drop_bit k (int n) AND 255 = int (n div 2 ^ k mod 256)"
      by (simp add: and_255_int drop_bit_eq_div zdiv_int zmod_int)
    then show ?thesis by simp
  qed
  have "to_le 4 n = [byte_of (nat (x AND 255)), byte_of (nat (drop_bit 8 x AND 255)),
      byte_of (nat (drop_bit 16 x AND 255)), byte_of (nat (drop_bit 24 x AND 255))]"
  proof -
    have "n div 65536 = n div 256 div 256" "n div 16777216 = n div 256 div 256 div 256"
      by (simp_all add: div_mult2_eq [symmetric])
    moreover have "to_le 4 n = to_le (Suc (Suc (Suc (Suc 0)))) n" by (simp only: Suc_numeral One_nat_def [symmetric] arith_simps numeral_One [symmetric])
    ultimately show ?thesis using d [of 0] d [of 8] d [of 16] d [of 24] by (simp add: n)
  qed
  moreover have "from_le (to_le 4 n) = n" using assms(2) by (simp add: from_le_to_le n)
  ultimately show ?thesis using n by simp
qed

lemma flush_part_sees:
  assumes "push_all (flush_entry 16 bp) es ([], RANS_LOWER_BOUND) = Some s" "rans_inv s"
  shows "\<exists>buf. flush_part 16 bp es = Some buf \<and> 4 \<le> length buf
    \<and> rans_sees buf s (int (from_le (take 4 buf)), 4)"
proof -
  obtain sink x where s: "s = (sink, x)" by (cases s)
  have x: "0 \<le> x" "x < 2 ^ 32" using assms(2) by (simp_all add: s rans_inv_def RANS_LOWER_BOUND_def)
  define h where "h = [byte_of (nat (x AND 255)), byte_of (nat (drop_bit 8 x AND 255)),
      byte_of (nat (drop_bit 16 x AND 255)), byte_of (nat (drop_bit 24 x AND 255))]"
  have lh: "length h = 4" by (simp add: h_def)
  have "flush_part 16 bp es = Some (h @ rev sink)"
    using assms(1) by (simp add: flush_part_def flush_entries_push_all s h_def)
  moreover have "int (from_le h) = x" unfolding h_def by (rule drop_bit_bytes [OF x])
  ultimately show ?thesis using lh by (simp add: rans_sees_def s)
qed

lemma flush_all_map: "\<forall>p < length ess. flush_part prec bp (ess ! p) = Some (f p) \<Longrightarrow>
    flush_all prec bp ess = Some (map f [0..<length ess])"
proof (induction ess arbitrary: f)
  case (Cons es ess)
  have "flush_part prec bp es = Some (f 0)" using Cons.prems by force
  moreover have "flush_all prec bp ess = Some (map (f \<circ> Suc) [0..<length ess])"
    by (rule Cons.IH) (use Cons.prems in force)
  moreover have "map f [0..<Suc (length ess)] = f 0 # map (f \<circ> Suc) [0..<length ess]"
    by (simp only: upt_conv_Cons zero_less_Suc map_Suc_upt [symmetric] list.map map_map)
  ultimately show ?case by simp
qed simp

lemma rans_stream_roundtrip:
  assumes t: "wf_tables t" and cs: "list_all (call_ok t) cs" and n: "0 < n" "n \<le> MAX_SUB_STREAMS"
  shows "\<exists>enc parts. encode_calls (new_encoder t (Some n)) cs = Inr enc \<and> \<not> enc_finished enc
    \<and> flush_all 16 (tab_bypass_precision t) (enc_entries enc) = Some parts \<and> enc_tables enc = t
    \<and> ((\<forall>p \<in> set parts. length p < 2 ^ 32) \<longrightarrow>
        (\<exists>bs dec dec'. build_rans_container parts = Inr bs
          \<and> new_decoder t bs (Some n) = Inr dec \<and> decode_calls dec cs = Inr (map call_values cs, dec')))"
proof -
  let ?enc = "new_encoder t (Some n)" and ?bp = "tab_bypass_precision t"
  from encode_calls_entries [of ?enc cs n] t cs n obtain ess
    where e: "encode_calls ?enc cs = Inr (?enc\<lparr>enc_entries := ess\<rparr>)" "length ess = n"
      and es: "\<And>p s. p < n \<Longrightarrow> push_all (flush_entry 16 ?bp) (ess ! p) s
          = push_all (flush_sym ?bp) (concat (map (part_events t n p) cs)) s"
    by (auto simp: new_encoder_def)
  have "\<exists>s buf. push_all (flush_sym ?bp) (concat (map (part_events t n p) cs)) ([], RANS_LOWER_BOUND) = Some s
      \<and> flush_part 16 ?bp (ess ! p) = Some buf \<and> 4 \<le> length buf
      \<and> rans_sees buf s (int (from_le (take 4 buf)), 4)" if "p < n" for p
    using symbol.push_all_pop_all [OF part_events_concat_ok [OF t cs, of n p] rans_inv_init, of "[]"]
      es [OF that] flush_part_sees [of ?bp "ess ! p"] by fastforce
  then obtain s buf where f: "\<And>p. p < n \<Longrightarrow>
      push_all (flush_sym ?bp) (concat (map (part_events t n p) cs)) ([], RANS_LOWER_BOUND) = Some (s p)
      \<and> flush_part 16 ?bp (ess ! p) = Some (buf p) \<and> 4 \<le> length (buf p)
      \<and> rans_sees (buf p) (s p) (int (from_le (take 4 (buf p))), 4)"
    by metis
  define parts where "parts = map buf [0..<n]"
  have fl: "flush_all 16 ?bp ess = Some parts"
    using flush_all_map [of ess 16 ?bp buf] f e(2) by (simp add: parts_def)
  have "\<exists>bs dec dec'. build_rans_container parts = Inr bs
      \<and> new_decoder t bs (Some n) = Inr dec \<and> decode_calls dec cs = Inr (map call_values cs, dec')"
    if sm: "\<forall>p \<in> set parts. length p < 2 ^ 32"
  proof -
    have "\<forall>p \<in> set (butlast parts). length p < 2 ^ 32" using sm by (meson in_set_butlastD)
    then obtain bs where bs: "build_rans_container parts = Inr bs" "parse_rans_container bs = Inr parts"
      using parse_build_container [of parts] n by (auto simp: parts_def)
    define dec where "dec = \<lparr>dec_tables = t, dec_parts = parts,
        dec_states = map (\<lambda>part. int (from_le (take 4 part))) parts, dec_ptrs = map (\<lambda>_. 4) parts\<rparr>"
    have "new_decoder t bs (Some n) = Inr dec"
      using bs(2) f by (fastforce simp: new_decoder_def dec_def parts_def not_less [symmetric])
    moreover have "dec_sees n dec cs" using f by (auto simp: dec_sees_def dec_def parts_def)
    then have "\<exists>dec'. decode_calls dec cs = Inr (map call_values cs, dec')"
      using decode_calls_values [of dec cs n] t cs n(1) by (simp add: dec_def)
    ultimately show ?thesis using bs(1) by blast
  qed
  then show ?thesis using e(1) fl by (auto simp: new_encoder_def)
qed

text \<open>C1: Whatever sequence of calls a client makes on a fresh encoder with well-formed 16-bit tables, every
  sub-stream is flushed (the renormalisation loops return), and unless a sub-stream reaches 4 GiB,
  \<open>finish\<close> returns a container from which a fresh decoder, asked for the same indexes in the same order,
  returns exactly the encoded symbols (0 where the index was negative).\<close>

theorem rans_roundtrip:
  assumes "wf_tables t" and "list_all (call_ok t) cs" and "0 < n" and "n \<le> MAX_SUB_STREAMS"
  shows "\<exists>enc parts r enc'. encode_calls (new_encoder t (Some n)) cs = Inr enc
    \<and> flush_all 16 (tab_bypass_precision t) (enc_entries enc) = Some parts \<and> finish enc = Some (r, enc')
    \<and> ((\<forall>p \<in> set parts. length p < 2 ^ 32) \<longrightarrow>
        (\<exists>bs dec dec'. r = Inr bs \<and> new_decoder t bs (Some n) = Inr dec
          \<and> decode_calls dec cs = Inr (map call_values cs, dec')))"
proof -
  have p: "tab_precision t = 16" using assms(1) by (simp add: wf_tables_def)
  from rans_stream_roundtrip [OF assms] obtain enc parts where
    e: "encode_calls (new_encoder t (Some n)) cs = Inr enc" "\<not> enc_finished enc"
      "flush_all 16 (tab_bypass_precision t) (enc_entries enc) = Some parts" "enc_tables enc = t"
    and d: "(\<forall>p \<in> set parts. length p < 2 ^ 32) \<longrightarrow>
        (\<exists>bs dec dec'. build_rans_container parts = Inr bs
          \<and> new_decoder t bs (Some n) = Inr dec \<and> decode_calls dec cs = Inr (map call_values cs, dec'))"
    by blast
  have "finish enc = Some (build_rans_container parts, enc\<lparr>enc_finished := True\<rparr>)"
    using e p by (simp add: finish_def)
  then show ?thesis using e(1,3) d by blast
qed

definition demo_tables :: EntropyTables where
  "demo_tables = \<lparr>tab_version = 1, tab_precision = 16, tab_bypass_precision = 4, tab_stream_parts = 2,
     tab_groups = [\<lparr>num_cdfs = 2, cdf_width = 5, cdf_length = [5, 3], cdf_offset = [-1, 0],
       quantized_cdf = [0, 20000, 45000, 65000, 65536, 0, 60000, 65536, 0, 0]\<rparr>],
     tab_index_quantizer = \<lparr>log_scale_min = replicate 8 0, log_scale_step = replicate 8 0, scales_levels = 1,
       scale_threshold = replicate 4 0, scale_floor = replicate 4 0, scale_table = [replicate 4 0]\<rparr>\<rparr>"

theorem rans_roundtrip_witness:
  "\<exists>enc parts r enc'. encode_calls (new_encoder demo_tables (Some 2)) [([0, -1, 300, 5], [0, 0, 1, -1], 0)] = Inr enc
    \<and> flush_all 16 (tab_bypass_precision demo_tables) (enc_entries enc) = Some parts \<and> finish enc = Some (r, enc')
    \<and> ((\<forall>p \<in> set parts. length p < 2 ^ 32) \<longrightarrow>
        (\<exists>bs dec dec'. r = Inr bs \<and> new_decoder demo_tables bs (Some 2) = Inr dec
          \<and> decode_calls dec [([0, -1, 300, 5], [0, 0, 1, -1], 0)]
             = Inr (map call_values [([0, -1, 300, 5], [0, 0, 1, -1], 0)], dec')))"
proof (rule rans_roundtrip)
  show "wf_tables demo_tables" by code_simp
  show "list_all (call_ok demo_tables) [([0, -1, 300, 5], [0, 0, 1, -1], 0)]" by code_simp
  show "0 < (2::nat)" "(2::nat) \<le> MAX_SUB_STREAMS" by (simp_all add: MAX_SUB_STREAMS_def)
qed

section \<open>Tables the coder cannot use\<close>

text \<open>A row that decreases gives a negative bound, and the renormalisation loop never ends.\<close>

lemma renorm_out_negative:
  assumes "m < 0" "0 \<le> x"
  shows "renorm_out m x sink = None"
proof (rule ccontr)
  assume "renorm_out m x sink \<noteq> None"
  then obtain r where r: "renorm_out m x sink = Some r" by blast
  have "0 \<le> x \<longrightarrow> \<not> m < 0"
    using renorm_out.raw_induct [where P = "\<lambda>m x sink r. 0 \<le> x \<longrightarrow> \<not> m < 0" and xa = "((m, x), sink)" and y = r] r
    by (force split: if_splits)
  then show False using assms by blast
qed

text \<open>Such a table set, and a client whose \<open>finish\<close> does not return.\<close>

definition descending_tables :: EntropyTables where
  "descending_tables = \<lparr>tab_version = 1, tab_precision = 16, tab_bypass_precision = 4, tab_stream_parts = 1,
     tab_groups = [\<lparr>num_cdfs = 1, cdf_width = 4, cdf_length = [4], cdf_offset = [0],
       quantized_cdf = [0, 60000, 50000, 65536]\<rparr>],
     tab_index_quantizer = \<lparr>log_scale_min = replicate 8 0, log_scale_step = replicate 8 0, scales_levels = 1,
       scale_threshold = replicate 4 0, scale_floor = replicate 4 0, scale_table = [replicate 4 0]\<rparr>\<rparr>"

lemma finish_never_returns:
  "bind_res (encode_with_indexes (new_encoder descending_tables None) [1] [0] 0) (\<lambda>enc. Inr (finish enc)) = Inr None"
proof -
  have "encode_with_indexes (new_encoder descending_tables None) [1] [0] 0
      = Inr ((new_encoder descending_tables None)\<lparr>enc_entries := [[(60000, -10000)]]\<rparr>)"
    by (simp add: encode_with_indexes_def new_encoder_def descending_tables_def Let_def part_slice_def slice_def
        push_symbol_def py_get_def)
  moreover have "flush_entry 16 4 (60000, -10000) ([], RANS_LOWER_BOUND) = None"
    by (simp add: flush_entry_def renorm_out_negative RANS_LOWER_BOUND_def push_bit_eq_mult)
  ultimately show ?thesis
    by (simp add: finish_def new_encoder_def descending_tables_def flush_part_def)
qed

end
