(* ===== verification/Tables.thy ===== *)
theory Tables
  imports RansRoundtrip
begin

text \<open>
  The parser of the AEIC CDF table file (\<open>src/app/imaging/aeic/tables.py\<close>). The cursor is the byte
  string with an explicit offset; every read checks the remaining length as \<open>_Cursor.need\<close> does.
  IEEE floats are carried as their bytes. The host is little-endian, as every host the source supports
  without its byte-swap branch.
\<close>

section \<open>Cursor\<close>

definition need :: "bytes \<Rightarrow> nat \<Rightarrow> nat \<Rightarrow> bool" where
  "need data off count \<longleftrightarrow> off + count \<le> length data"

definition u32 :: "bytes \<Rightarrow> nat \<Rightarrow> (nat \<times> nat) res" where
  "u32 data off =
     (if \<not> need data off 4 then Inl EntropyTableFormatError
      else Inr (from_le (slice off (off + 4) data), off + 4))"

definition i32_array :: "bytes \<Rightarrow> nat \<Rightarrow> nat \<Rightarrow> (int list \<times> nat) res" where
  "i32_array data off count =
     (if \<not> need data off (count * 4) then Inl EntropyTableFormatError
      else Inr (map from_le_signed (chunks 4 (slice off (off + count * 4) data)), off + count * 4))"

definition f32_array :: "bytes \<Rightarrow> nat \<Rightarrow> nat \<Rightarrow> (bytes list \<times> nat) res" where
  "f32_array data off count =
     (if \<not> need data off (count * 4) then Inl EntropyTableFormatError
      else Inr (chunks 4 (slice off (off + count * 4) data), off + count * 4))"

definition literal :: "bytes \<Rightarrow> nat \<Rightarrow> bytes \<Rightarrow> nat res" where
  "literal data off expected =
     (if \<not> need data off (length expected) then Inl EntropyTableFormatError
      else if slice off (off + length expected) data \<noteq> expected then Inl EntropyTableFormatError
      else Inr (off + length expected))"

section \<open>Parser\<close>

definition MAGIC :: bytes where
  "MAGIC = ascii ''AEICCDF'' @ [1]"

definition IDXP :: bytes where
  "IDXP = ascii ''IDXP''"

definition END_MARK :: bytes where
  "END_MARK = ascii ''END'' @ [0]"

definition HEADER_BYTES :: nat where
  "HEADER_BYTES = 32"

definition parse_group :: "bytes \<Rightarrow> nat \<Rightarrow> (CdfGroup \<times> nat) res" where
  "parse_group data off =
     bind_res (u32 data off) (\<lambda>(rows, off).
     bind_res (u32 data off) (\<lambda>(width, off).
       if \<not> (0 < rows \<and> rows \<le> 2 ^ 20) \<or> \<not> (0 < width \<and> width \<le> 2 ^ 24)
       then Inl EntropyTableFormatError
       else
         bind_res (i32_array data off rows) (\<lambda>(lens, off).
         bind_res (i32_array data off rows) (\<lambda>(offs, off).
         bind_res (i32_array data off (rows * width)) (\<lambda>(cdf, off).
           if \<not> list_all (\<lambda>n. 2 \<le> n \<and> n \<le> int width) lens then Inl EntropyTableFormatError
           else Inr (\<lparr>num_cdfs = rows, cdf_width = width, cdf_length = lens, cdf_offset = offs,
                      quantized_cdf = cdf\<rparr>, off))))))"

fun parse_groups :: "nat \<Rightarrow> bytes \<Rightarrow> nat \<Rightarrow> (CdfGroup list \<times> nat) res" where
  "parse_groups 0 data off = Inr ([], off)"
| "parse_groups (Suc n) data off =
     bind_res (parse_group data off) (\<lambda>(grp, off).
     bind_res (parse_groups n data off) (\<lambda>(grps, off). Inr (grp # grps, off)))"

definition parse_quantizer :: "bytes \<Rightarrow> nat \<Rightarrow> (IndexQuantizerParams \<times> nat) res" where
  "parse_quantizer data off =
     bind_res (literal data off IDXP) (\<lambda>off.
       if \<not> need data off 28 then Inl EntropyTableFormatError
       else
         let levels = from_le (slice (off + 16) (off + 20) data)
         in if \<not> (0 < levels \<and> levels \<le> 2 ^ 20) then Inl EntropyTableFormatError
            else
              bind_res (f32_array data (off + 28) levels) (\<lambda>(tab, off').
                Inr (\<lparr>log_scale_min = slice off (off + 8) data,
                      log_scale_step = slice (off + 8) (off + 16) data,
                      scales_levels = levels,
                      scale_threshold = slice (off + 20) (off + 24) data,
                      scale_floor = slice (off + 24) (off + 28) data,
                      scale_table = tab\<rparr>, off')))"

definition parse_entropy_tables :: "bytes \<Rightarrow> EntropyTables res" where
  "parse_entropy_tables data =
     (if length data < HEADER_BYTES then Inl EntropyTableFormatError
      else if \<not> starts_with MAGIC data then Inl EntropyTableFormatError
      else
        bind_res (u32 data (length MAGIC)) (\<lambda>(version, off).
        if version \<noteq> 1 then Inl EntropyTableFormatError
        else
          bind_res (u32 data off) (\<lambda>(precision, off).
          bind_res (u32 data off) (\<lambda>(bypass_precision, off).
          bind_res (u32 data off) (\<lambda>(stream_parts, off).
          bind_res (u32 data off) (\<lambda>(num_groups, off).
            if \<not> (0 < precision \<and> precision \<le> 16) then Inl EntropyTableFormatError
            else if \<not> (0 < bypass_precision \<and> bypass_precision < precision) then Inl EntropyTableFormatError
            else if \<not> (1 \<le> stream_parts \<and> stream_parts \<le> 16) then Inl EntropyTableFormatError
            else if \<not> (1 \<le> num_groups \<and> num_groups \<le> 64) then Inl EntropyTableFormatError
            else
              bind_res (parse_groups num_groups data off) (\<lambda>(groups, off).
              bind_res (parse_quantizer data off) (\<lambda>(quant, off).
              bind_res (literal data off END_MARK) (\<lambda>off.
                if off \<noteq> length data then Inl EntropyTableFormatError
                else Inr \<lparr>tab_version = version, tab_precision = precision,
                          tab_bypass_precision = bypass_precision, tab_stream_parts = stream_parts,
                          tab_groups = groups, tab_index_quantizer = quant\<rparr>)))))))))"

section \<open>The file format\<close>

text \<open>The layout of the module's documentation, as a function of the tables.\<close>

definition i32_bytes :: "int \<Rightarrow> bytes" where
  "i32_bytes x = to_le 4 (nat (x mod 4294967296))"

definition group_bytes :: "CdfGroup \<Rightarrow> bytes" where
  "group_bytes g = to_le 4 (num_cdfs g) @ to_le 4 (cdf_width g)
     @ concat (map i32_bytes (cdf_length g)) @ concat (map i32_bytes (cdf_offset g))
     @ concat (map i32_bytes (quantized_cdf g))"

definition quantizer_bytes :: "IndexQuantizerParams \<Rightarrow> bytes" where
  "quantizer_bytes q = IDXP @ log_scale_min q @ log_scale_step q @ to_le 4 (scales_levels q)
     @ scale_threshold q @ scale_floor q @ concat (scale_table q)"

definition table_file :: "EntropyTables \<Rightarrow> bytes" where
  "table_file t = MAGIC @ to_le 4 (tab_version t) @ to_le 4 (tab_precision t)
     @ to_le 4 (tab_bypass_precision t) @ to_le 4 (tab_stream_parts t)
     @ to_le 4 (length (tab_groups t)) @ concat (map group_bytes (tab_groups t))
     @ quantizer_bytes (tab_index_quantizer t) @ END_MARK"

text \<open>The shapes the parser accepts.\<close>

definition i32 :: "int \<Rightarrow> bool" where
  "i32 x \<longleftrightarrow> - 2147483648 \<le> x \<and> x < 2147483648"

definition shape_group :: "CdfGroup \<Rightarrow> bool" where
  "shape_group g \<longleftrightarrow> 0 < num_cdfs g \<and> num_cdfs g \<le> 2 ^ 20 \<and> 0 < cdf_width g \<and> cdf_width g \<le> 2 ^ 24
     \<and> length (cdf_length g) = num_cdfs g \<and> length (cdf_offset g) = num_cdfs g
     \<and> length (quantized_cdf g) = num_cdfs g * cdf_width g
     \<and> list_all (\<lambda>n. 2 \<le> n \<and> n \<le> int (cdf_width g)) (cdf_length g)
     \<and> list_all i32 (cdf_length g) \<and> list_all i32 (cdf_offset g) \<and> list_all i32 (quantized_cdf g)"

definition shape_quantizer :: "IndexQuantizerParams \<Rightarrow> bool" where
  "shape_quantizer q \<longleftrightarrow> length (log_scale_min q) = 8 \<and> length (log_scale_step q) = 8
     \<and> 0 < scales_levels q \<and> scales_levels q \<le> 2 ^ 20 \<and> length (scale_threshold q) = 4
     \<and> length (scale_floor q) = 4 \<and> length (scale_table q) = scales_levels q
     \<and> list_all (\<lambda>b. length b = 4) (scale_table q)"

definition shape_tables :: "EntropyTables \<Rightarrow> bool" where
  "shape_tables t \<longleftrightarrow> tab_version t = 1 \<and> 0 < tab_precision t \<and> tab_precision t \<le> 16
     \<and> 0 < tab_bypass_precision t \<and> tab_bypass_precision t < tab_precision t
     \<and> 1 \<le> tab_stream_parts t \<and> tab_stream_parts t \<le> 16
     \<and> 1 \<le> length (tab_groups t) \<and> length (tab_groups t) \<le> 64
     \<and> list_all shape_group (tab_groups t) \<and> shape_quantizer (tab_index_quantizer t)"

section \<open>Readers\<close>

text \<open>What a successful read took from the data.\<close>

definition took :: "bytes \<Rightarrow> nat \<Rightarrow> bytes \<Rightarrow> nat \<Rightarrow> bool" where
  "took data off bs off' \<longleftrightarrow> off' = off + length bs \<and> off' \<le> length data \<and> slice off off' data = bs"

lemma tookI: "off \<le> off' \<Longrightarrow> off' \<le> length data \<Longrightarrow> took data off (slice off off' data) off'"
  by (simp add: took_def length_slice)

lemma took_append:
  "took data off (xs @ ys) off' \<longleftrightarrow> (\<exists>m. took data off xs m \<and> took data m ys off')"
proof
  assume t: "took data off (xs @ ys) off'"
  then have "take (length xs) (drop off data) @ take (length ys) (drop (off + length xs) data) = xs @ ys"
    and l: "length (take (length xs) (drop off data)) = length xs"
    by (auto simp: took_def slice_def take_add add.commute)
  then have "take (length xs) (drop off data) = xs \<and> take (length ys) (drop (off + length xs) data) = ys"
    by (simp only: append_eq_append_conv [OF disjI1 [OF l]])
  then have "took data off xs (off + length xs) \<and> took data (off + length xs) ys off'"
    using t by (simp add: took_def slice_def)
  then show "\<exists>m. took data off xs m \<and> took data m ys off'" by blast
next
  assume "\<exists>m. took data off xs m \<and> took data m ys off'"
  then show "took data off (xs @ ys) off'" by (auto simp: took_def slice_def take_add add.commute)
qed

lemma took_whole: "took data 0 bs (length data) \<longleftrightarrow> data = bs"
  by (auto simp: took_def)

lemma took_at: "took (pre @ bs @ rest) (length pre) bs (length pre + length bs)"
  by (simp add: took_def slice_def)

lemma to_le_4_slice: "off + 4 \<le> length data \<Longrightarrow> to_le 4 (from_le (slice off (off + 4) data)) = slice off (off + 4) data"
  using to_le_from_le [of "slice off (off + 4) data"] by (simp add: length_slice)

lemma u32_took: "u32 data off = Inr (v, off') \<longleftrightarrow> took data off (to_le 4 v) off' \<and> v < 2 ^ 32"
proof
  assume "u32 data off = Inr (v, off')"
  then show "took data off (to_le 4 v) off' \<and> v < 2 ^ 32"
    using from_le_less [of "slice off (off + 4) data"]
    by (auto simp: u32_def need_def to_le_4_slice tookI length_slice split: if_splits)
next
  assume "took data off (to_le 4 v) off' \<and> v < 2 ^ 32"
  then show "u32 data off = Inr (v, off')"
    by (auto simp: u32_def need_def took_def from_le_to_le)
qed

lemma i32_bytes_roundtrip: "i32 x \<Longrightarrow> from_le_signed (i32_bytes x) = x"
  using from_le_signed_roundtrip [of 4 x "i32_bytes x"]
  by (simp add: to_bytes_le_signed_def i32_bytes_def i32_def)

lemma i32_from_bytes:
  assumes "length b = 4"
  shows "i32 (from_le_signed b) \<and> i32_bytes (from_le_signed b) = b"
proof -
  have l: "from_le b < 4294967296" using from_le_less [of b] assms by simp
  have b: "to_le 4 (from_le b) = b" using to_le_from_le [of b] assms by simp
  show ?thesis
  proof (cases "from_le b < 2147483648")
    case True
    then show ?thesis using assms b by (simp add: from_le_signed_def Let_def i32_def i32_bytes_def)
  next
    case False
    have "(int (from_le b) - 4294967296) mod 4294967296 = int (from_le b)"
      using l by (simp add: mod_diff_right_eq [symmetric] flip: mod_add_self2 [of "_ - 4294967296"])
    then show ?thesis using False l assms b by (simp add: from_le_signed_def Let_def i32_def i32_bytes_def)
  qed
qed

lemma length_i32_bytes [simp]: "length (i32_bytes x) = 4"
  by (simp add: i32_bytes_def)

lemma f32_array_took:
  "f32_array data off count = Inr (bs, off') \<longleftrightarrow>
     took data off (concat bs) off' \<and> length bs = count \<and> (\<forall>b \<in> set bs. length b = 4)"
proof
  assume "f32_array data off count = Inr (bs, off')"
  then have c: "off + count * 4 \<le> length data" "bs = chunks 4 (slice off (off + count * 4) data)" "off' = off + count * 4"
    by (auto simp: f32_array_def need_def split: if_splits)
  then have "length (slice off (off + count * 4) data) = count * 4" by (simp add: length_slice)
  from chunks_exact [OF _ this] c show "took data off (concat bs) off' \<and> length bs = count \<and> (\<forall>b \<in> set bs. length b = 4)"
    by (simp add: tookI)
next
  assume a: "took data off (concat bs) off' \<and> length bs = count \<and> (\<forall>b \<in> set bs. length b = 4)"
  then have "length (concat bs) = count * 4" using length_concat_const [of bs 4] by simp
  then show "f32_array data off count = Inr (bs, off')"
    using a by (auto simp: f32_array_def need_def took_def chunks_concat)
qed

lemma i32_array_took:
  "i32_array data off count = Inr (xs, off') \<longleftrightarrow>
     took data off (concat (map i32_bytes xs)) off' \<and> length xs = count \<and> list_all i32 xs"
proof -
  have eq: "i32_array data off count = map_sum id (\<lambda>(bs, off'). (map from_le_signed bs, off')) (f32_array data off count)"
    by (simp add: i32_array_def f32_array_def)
  show ?thesis
  proof
    assume "i32_array data off count = Inr (xs, off')"
    then obtain bs where bs: "f32_array data off count = Inr (bs, off')" "xs = map from_le_signed bs"
      unfolding eq by (cases "f32_array data off count") auto
    then have f: "took data off (concat bs) off'" "length bs = count" "\<forall>b \<in> set bs. length b = 4"
      by (simp_all add: f32_array_took)
    have "map i32_bytes xs = bs" unfolding bs(2) map_map by (rule map_idI) (use f(3) i32_from_bytes in simp)
    then show "took data off (concat (map i32_bytes xs)) off' \<and> length xs = count \<and> list_all i32 xs"
      using f bs(2) i32_from_bytes by (simp add: list_all_iff)
  next
    assume a: "took data off (concat (map i32_bytes xs)) off' \<and> length xs = count \<and> list_all i32 xs"
    then have "f32_array data off count = Inr (map i32_bytes xs, off')" by (simp add: f32_array_took)
    moreover have "map from_le_signed (map i32_bytes xs) = xs" unfolding map_map
      by (rule map_idI) (use a i32_bytes_roundtrip in \<open>simp add: list_all_iff\<close>)
    ultimately show "i32_array data off count = Inr (xs, off')" unfolding eq by simp
  qed
qed

lemma literal_took: "literal data off e = Inr off' \<longleftrightarrow> took data off e off'"
  by (auto simp: literal_def need_def took_def)


section \<open>Exactness\<close>

lemma parse_group_took:
  "parse_group data off = Inr (g, off') \<longleftrightarrow> took data off (group_bytes g) off' \<and> shape_group g"
proof
  assume "parse_group data off = Inr (g, off')"
  then show "took data off (group_bytes g) off' \<and> shape_group g"
    unfolding parse_group_def
    by (auto simp: bind_res_Inr u32_took i32_array_took group_bytes_def took_append shape_group_def
        split: if_splits) blast
next
  assume a: "took data off (group_bytes g) off' \<and> shape_group g"
  then obtain m1 m2 m3 m4 where t: "took data off (to_le 4 (num_cdfs g)) m1" "took data m1 (to_le 4 (cdf_width g)) m2"
    "took data m2 (concat (map i32_bytes (cdf_length g))) m3" "took data m3 (concat (map i32_bytes (cdf_offset g))) m4"
    "took data m4 (concat (map i32_bytes (quantized_cdf g))) off'"
    unfolding group_bytes_def took_append by blast
  have s: "shape_group g" using a by blast
  have "u32 data off = Inr (num_cdfs g, m1)" "u32 data m1 = Inr (cdf_width g, m2)"
    "i32_array data m2 (num_cdfs g) = Inr (cdf_length g, m3)"
    "i32_array data m3 (num_cdfs g) = Inr (cdf_offset g, m4)"
    "i32_array data m4 (num_cdfs g * cdf_width g) = Inr (quantized_cdf g, off')"
    using t s by (simp_all add: u32_took i32_array_took shape_group_def)
  then show "parse_group data off = Inr (g, off')"
    using s by (simp add: parse_group_def shape_group_def)
qed

lemma took_Nil: "took data off [] off' \<longleftrightarrow> off' = off \<and> off \<le> length data"
  by (auto simp: took_def slice_def)

lemma took_le: "took data off bs off' \<Longrightarrow> off \<le> length data \<and> off' \<le> length data"
  by (auto simp: took_def)

lemma took_mono: "took data off bs off' \<Longrightarrow> off \<le> off'"
  by (simp add: took_def)

lemma parse_groups_took:
  "off \<le> length data \<Longrightarrow> parse_groups n data off = Inr (gs, off') \<longleftrightarrow>
     took data off (concat (map group_bytes gs)) off' \<and> length gs = n \<and> list_all shape_group gs"
proof (induction n arbitrary: off gs)
  case 0
  then show ?case by (auto simp: took_Nil)
next
  case (Suc n)
  have "parse_groups (Suc n) data off = Inr (gs, off') \<longleftrightarrow>
      (\<exists>g m gs'. gs = g # gs' \<and> took data off (group_bytes g) m \<and> shape_group g
        \<and> parse_groups n data m = Inr (gs', off'))"
    by (auto simp: bind_res_Inr parse_group_took)
  also have "\<dots> \<longleftrightarrow> (\<exists>g m gs'. gs = g # gs' \<and> took data off (group_bytes g) m \<and> shape_group g
        \<and> took data m (concat (map group_bytes gs')) off' \<and> length gs' = n \<and> list_all shape_group gs')"
    using Suc.IH took_le by blast
  also have "\<dots> \<longleftrightarrow> took data off (concat (map group_bytes gs)) off' \<and> length gs = Suc n \<and> list_all shape_group gs"
    by (cases gs) (auto simp: took_append)
  finally show ?case .
qed

text \<open>The fixed part of the quantizer block, field by field.\<close>

lemma took_slice:
  "off \<le> off' \<Longrightarrow> off' \<le> length data \<Longrightarrow> took data off bs off' \<longleftrightarrow> bs = slice off off' data"
  by (auto simp: took_def length_slice)

lemma quantizer_fields:
  assumes "off + 28 \<le> length data" "length a = 8" "length b = 8" "length c = 4" "length d = 4" "v < 2 ^ 32"
  shows "took data off (a @ b @ to_le 4 v @ c @ d) (off + 28) \<longleftrightarrow>
    a = slice off (off + 8) data \<and> b = slice (off + 8) (off + 16) data
    \<and> v = from_le (slice (off + 16) (off + 20) data)
    \<and> c = slice (off + 20) (off + 24) data \<and> d = slice (off + 24) (off + 28) data"
proof -
  have m: "took data off (xs @ ys) off' \<longleftrightarrow> took data off xs (off + length xs) \<and> took data (off + length xs) ys off'"
    for off xs ys off' unfolding took_append by (auto simp: took_def)
  have v: "to_le 4 v = slice (off + 16) (off + 20) data \<longleftrightarrow> v = from_le (slice (off + 16) (off + 20) data)"
  proof -
    have "off + 16 + 4 = off + 20" by simp
    then show ?thesis
      using assms(1,6) from_le_to_le [of 4 v] to_le_4_slice [of "off + 16" data, unfolded \<open>off + 16 + 4 = off + 20\<close>] by auto
  qed
  have e: "off + 8 + 8 = off + 16" "off + 16 + 4 = off + 20" "off + 20 + 4 = off + 24" by simp_all
  show ?thesis unfolding m length_to_le assms(2-5) e using assms(1) by (simp add: took_slice v)
qed

lemma length_tab_marks [simp]: "length MAGIC = 8" "length IDXP = 4" "length END_MARK = 4"
  by (simp_all add: MAGIC_def IDXP_def END_MARK_def ascii_def)

lemma parse_quantizer_took:
  "parse_quantizer data off = Inr (q, off') \<longleftrightarrow> took data off (quantizer_bytes q) off' \<and> shape_quantizer q"
proof -
  let ?head = "log_scale_min q @ log_scale_step q @ to_le 4 (scales_levels q) @ scale_threshold q @ scale_floor q"
  let ?o = "off + 4"
  have "took data off (quantizer_bytes q) off' \<and> shape_quantizer q \<longleftrightarrow>
      took data off IDXP ?o \<and> ?o + 28 \<le> length data \<and> shape_quantizer q
      \<and> took data ?o ?head (?o + 28) \<and> took data (?o + 28) (concat (scale_table q)) off'"
  proof -
    have "quantizer_bytes q = IDXP @ ?head @ concat (scale_table q)" by (simp add: quantizer_bytes_def)
    moreover have "took data off IDXP m \<Longrightarrow> m = ?o" for m by (simp add: took_def)
    moreover have "shape_quantizer q \<Longrightarrow> took data ?o ?head m \<Longrightarrow> m = ?o + 28 \<and> ?o + 28 \<le> length data" for m
      by (simp add: took_def shape_quantizer_def)
    ultimately show ?thesis by (simp only: took_append [of data off IDXP] took_append [of data _ ?head]) blast
  qed
  also have "\<dots> \<longleftrightarrow> parse_quantizer data off = Inr (q, off')"
  proof (cases "took data off IDXP ?o \<and> ?o + 28 \<le> length data")
    case True
    let ?levels = "from_le (slice (?o + 16) (?o + 20) data)"
    have lit: "literal data off IDXP = Inr ?o" using True by (simp add: literal_took)
    have "parse_quantizer data off = Inr (q, off') \<longleftrightarrow> 0 < ?levels \<and> ?levels \<le> 2 ^ 20
        \<and> q = \<lparr>log_scale_min = slice ?o (?o + 8) data, log_scale_step = slice (?o + 8) (?o + 16) data,
                scales_levels = ?levels, scale_threshold = slice (?o + 20) (?o + 24) data,
                scale_floor = slice (?o + 24) (?o + 28) data, scale_table = scale_table q\<rparr>
        \<and> f32_array data (?o + 28) ?levels = Inr (scale_table q, off')"
      using True unfolding parse_quantizer_def lit Let_def bind_res.simps(2) need_def
      by (auto simp: bind_res_Inr)
    also have "\<dots> \<longleftrightarrow> shape_quantizer q \<and> took data ?o ?head (?o + 28)
        \<and> took data (?o + 28) (concat (scale_table q)) off'"
    proof
      assume a: "shape_quantizer q \<and> took data ?o ?head (?o + 28)
        \<and> took data (?o + 28) (concat (scale_table q)) off'"
      then show "0 < ?levels \<and> ?levels \<le> 2 ^ 20
        \<and> q = \<lparr>log_scale_min = slice ?o (?o + 8) data, log_scale_step = slice (?o + 8) (?o + 16) data,
                scales_levels = ?levels, scale_threshold = slice (?o + 20) (?o + 24) data,
                scale_floor = slice (?o + 24) (?o + 28) data, scale_table = scale_table q\<rparr>
        \<and> f32_array data (?o + 28) ?levels = Inr (scale_table q, off')"
        using quantizer_fields [of ?o data "log_scale_min q" "log_scale_step q" "scale_threshold q" "scale_floor q" "scales_levels q"] True
        by (simp add: shape_quantizer_def f32_array_took list_all_iff)
    next
      assume a: "0 < ?levels \<and> ?levels \<le> 2 ^ 20
        \<and> q = \<lparr>log_scale_min = slice ?o (?o + 8) data, log_scale_step = slice (?o + 8) (?o + 16) data,
                scales_levels = ?levels, scale_threshold = slice (?o + 20) (?o + 24) data,
                scale_floor = slice (?o + 24) (?o + 28) data, scale_table = scale_table q\<rparr>
        \<and> f32_array data (?o + 28) ?levels = Inr (scale_table q, off')"
      then have f: "log_scale_min q = slice ?o (?o + 8) data" "log_scale_step q = slice (?o + 8) (?o + 16) data"
        "scales_levels q = ?levels" "scale_threshold q = slice (?o + 20) (?o + 24) data"
        "scale_floor q = slice (?o + 24) (?o + 28) data" by (metis IndexQuantizerParams.select_convs)+
      have l: "length (log_scale_min q) = 8" "length (log_scale_step q) = 8" "length (scale_threshold q) = 4"
        "length (scale_floor q) = 4" using True by (auto simp: f length_slice min_def)
      then show "shape_quantizer q \<and> took data ?o ?head (?o + 28)
        \<and> took data (?o + 28) (concat (scale_table q)) off'"
        using quantizer_fields [of ?o data "log_scale_min q" "log_scale_step q" "scale_threshold q" "scale_floor q" "scales_levels q"]
          a f True by (simp add: shape_quantizer_def f32_array_took list_all_iff)
    qed
    finally show ?thesis using True by blast
  next
    case False
    then show ?thesis by (auto simp: parse_quantizer_def bind_res_Inr literal_took need_def took_def)
  qed
  finally show ?thesis by simp
qed

lemma parse_header_took:
  assumes "took data 0 MAGIC 8"
  shows "parse_entropy_tables data = Inr t \<longleftrightarrow>
    (\<exists>o1 o2 o3 o4 o5 o6 o7. u32 data 8 = Inr (tab_version t, o1) \<and> u32 data o1 = Inr (tab_precision t, o2)
      \<and> u32 data o2 = Inr (tab_bypass_precision t, o3) \<and> u32 data o3 = Inr (tab_stream_parts t, o4)
      \<and> u32 data o4 = Inr (length (tab_groups t), o5)
      \<and> parse_groups (length (tab_groups t)) data o5 = Inr (tab_groups t, o6)
      \<and> parse_quantizer data o6 = Inr (tab_index_quantizer t, o7)
      \<and> literal data o7 END_MARK = Inr (length data)) \<and> shape_tables t"
    (is "?parse \<longleftrightarrow> ?reads \<and> ?shape")
proof
  assume p: ?parse
  obtain o1 pr o2 bp o3 sp o4 ng o5 gs o6 q o7 where r: "u32 data 8 = Inr (1, o1)" "u32 data o1 = Inr (pr, o2)"
    "u32 data o2 = Inr (bp, o3)" "u32 data o3 = Inr (sp, o4)" "u32 data o4 = Inr (ng, o5)"
    "parse_groups ng data o5 = Inr (gs, o6)" "parse_quantizer data o6 = Inr (q, o7)"
    "literal data o7 END_MARK = Inr (length data)"
    and t: "t = \<lparr>tab_version = 1, tab_precision = pr, tab_bypass_precision = bp, tab_stream_parts = sp,
      tab_groups = gs, tab_index_quantizer = q\<rparr>"
    and b: "0 < pr" "pr \<le> 16" "0 < bp" "bp < pr" "1 \<le> sp" "sp \<le> 16" "1 \<le> ng" "ng \<le> 64"
    using p unfolding parse_entropy_tables_def
    by (auto simp: bind_res_Inr split: if_splits)
  have "o5 \<le> length data" using r(5) by (auto simp: u32_took took_def)
  then have "length gs = ng" "list_all shape_group gs" "shape_quantizer q"
    using r(6,7) by (simp_all add: parse_groups_took parse_quantizer_took)
  then show "?reads \<and> ?shape" using r b by (auto simp: t shape_tables_def)
next
  assume a: "?reads \<and> ?shape"
  then obtain o1 o2 o3 o4 o5 o6 o7 where r: "u32 data 8 = Inr (tab_version t, o1)"
    "u32 data o1 = Inr (tab_precision t, o2)" "u32 data o2 = Inr (tab_bypass_precision t, o3)"
    "u32 data o3 = Inr (tab_stream_parts t, o4)" "u32 data o4 = Inr (length (tab_groups t), o5)"
    "parse_groups (length (tab_groups t)) data o5 = Inr (tab_groups t, o6)"
    "parse_quantizer data o6 = Inr (tab_index_quantizer t, o7)" "literal data o7 END_MARK = Inr (length data)"
    by blast
  have u: "u32 data x = Inr (v, y) \<Longrightarrow> y = x + 4 \<and> y \<le> length data" for x v y
    by (auto simp: u32_took took_def)
  have o5: "o5 = 28" "o5 \<le> length data" using u [OF r(1)] u [OF r(2)] u [OF r(3)] u [OF r(4)] u [OF r(5)] by simp_all
  have "o5 \<le> o6" using r(6) o5(2) took_mono by (simp only: parse_groups_took) blast
  moreover have "o6 \<le> o7" using r(7) took_mono unfolding parse_quantizer_took by blast
  moreover have "o7 + 4 = length data" using r(8) unfolding literal_took by (simp add: took_def)
  ultimately have "32 \<le> length data" using o5(1) by linarith
  moreover have "starts_with MAGIC data" using assms by (simp add: took_def starts_with_def)
  ultimately show ?parse using r a unfolding parse_entropy_tables_def
    by (simp add: HEADER_BYTES_def shape_tables_def)
qed

lemma table_file_took:
  assumes "shape_tables t"
  shows "took data 0 (table_file t) (length data) \<longleftrightarrow> took data 0 MAGIC 8 \<and>
    (\<exists>o1 o2 o3 o4 o5 o6 o7. u32 data 8 = Inr (tab_version t, o1) \<and> u32 data o1 = Inr (tab_precision t, o2)
      \<and> u32 data o2 = Inr (tab_bypass_precision t, o3) \<and> u32 data o3 = Inr (tab_stream_parts t, o4)
      \<and> u32 data o4 = Inr (length (tab_groups t), o5)
      \<and> parse_groups (length (tab_groups t)) data o5 = Inr (tab_groups t, o6)
      \<and> parse_quantizer data o6 = Inr (tab_index_quantizer t, o7)
      \<and> literal data o7 END_MARK = Inr (length data))"
proof -
  have b: "tab_version t < 2 ^ 32" "tab_precision t < 2 ^ 32" "tab_bypass_precision t < 2 ^ 32"
    "tab_stream_parts t < 2 ^ 32" "length (tab_groups t) < 2 ^ 32"
    using assms by (auto simp: shape_tables_def)
  have g: "took data o5 (concat (map group_bytes (tab_groups t))) o6
      \<longleftrightarrow> o5 \<le> length data \<and> parse_groups (length (tab_groups t)) data o5 = Inr (tab_groups t, o6)" for o5 o6
    using assms parse_groups_took [of o5 data "length (tab_groups t)" "tab_groups t" o6] took_le
    by (auto simp: shape_tables_def)
  have q: "took data o6 (quantizer_bytes (tab_index_quantizer t)) o7
      \<longleftrightarrow> parse_quantizer data o6 = Inr (tab_index_quantizer t, o7)" for o6 o7
    using assms by (simp add: parse_quantizer_took shape_tables_def)
  have u: "took data a (to_le 4 v) a' \<longleftrightarrow> u32 data a = Inr (v, a')" if "v < 2 ^ 32" for a v a'
    using that by (simp add: u32_took)
  have m: "took data 0 MAGIC a \<Longrightarrow> a = 8" for a by (auto simp: took_def)
  have o5: "u32 data a = Inr (v, a') \<Longrightarrow> a' \<le> length data" for a v a' by (auto simp: u32_took took_def)
  show ?thesis
    unfolding table_file_def took_append u [OF b(1)] u [OF b(2)] u [OF b(3)] u [OF b(4)] u [OF b(5)]
      g q literal_took [of data _ END_MARK, symmetric]
    using o5 m by blast
qed

lemma parse_magic: "parse_entropy_tables data = Inr t \<Longrightarrow> took data 0 MAGIC 8"
  by (auto simp: parse_entropy_tables_def took_def starts_with_def HEADER_BYTES_def)

lemma parse_shape: "parse_entropy_tables data = Inr t \<Longrightarrow> shape_tables t"
  using parse_header_took [OF parse_magic] by blast

lemma parse_table_file: "shape_tables t \<Longrightarrow> parse_entropy_tables (table_file t) = Inr t"
  using parse_header_took [of "table_file t" t] table_file_took [of t "table_file t"] by (simp add: took_whole)

text \<open>C31: The parser accepts exactly the files of the documented layout whose shapes are in range, and
  returns the tables the file was written from: no accepted file has slack, truncation or trailing
  bytes, and no such file is refused.\<close>

theorem parse_entropy_tables_exact:
  "parse_entropy_tables data = Inr t \<longleftrightarrow> shape_tables t \<and> data = table_file t"
proof
  assume p: "parse_entropy_tables data = Inr t"
  show "shape_tables t \<and> data = table_file t"
    using parse_shape [OF p] parse_header_took [OF parse_magic [OF p], of t] table_file_took [of t data]
      parse_magic [OF p] p by (simp add: took_whole)
next
  assume "shape_tables t \<and> data = table_file t"
  then show "parse_entropy_tables data = Inr t" using parse_table_file by blast
qed

text \<open>The documented strictness does not extend to the CDF rows: a file whose row decreases is accepted,
  and an encoder that meets that row never returns from \<open>finish\<close>.\<close>

theorem descending_row_accepted:
  "parse_entropy_tables (table_file descending_tables) = Inr descending_tables
   \<and> bind_res (encode_with_indexes (new_encoder descending_tables None) [1] [0] 0) (\<lambda>enc. Inr (finish enc)) = Inr None"
proof
  have "shape_tables descending_tables"
    by (simp add: shape_tables_def shape_group_def shape_quantizer_def descending_tables_def i32_def)
  then show "parse_entropy_tables (table_file descending_tables) = Inr descending_tables"
    by (rule parse_table_file)
  show "bind_res (encode_with_indexes (new_encoder descending_tables None) [1] [0] 0) (\<lambda>enc. Inr (finish enc)) = Inr None"
    by (rule finish_never_returns)
qed

text \<open>For a file the parser accepts at 16-bit precision with digits of at most eight bits, strictly
  increasing rows from 0 to 65536 are all that is left to check for the coder's round trip.\<close>

theorem parsed_tables_wf:
  assumes "parse_entropy_tables data = Inr t" and "tab_precision t = 16" and "tab_bypass_precision t \<le> 8"
  shows "wf_tables t \<longleftrightarrow> list_all (\<lambda>g. list_all (\<lambda>i. wf_row
      (slice (i * cdf_width g) (i * cdf_width g + nat (cdf_length g ! i)) (quantized_cdf g)))
      [0..<num_cdfs g]) (tab_groups t)"
proof -
  note s = parse_shape [OF assms(1)]
  have "wf_group g \<longleftrightarrow> list_all (\<lambda>i. wf_row
      (slice (i * cdf_width g) (i * cdf_width g + nat (cdf_length g ! i)) (quantized_cdf g)))
      [0..<num_cdfs g]" if "g \<in> set (tab_groups t)" for g
    using s that by (auto simp: shape_tables_def wf_group_def shape_group_def list_all_iff)
  then show ?thesis using s assms(2,3) by (auto simp: wf_tables_def shape_tables_def list_all_iff)
qed

theorem parsed_tables_wf_witness:
  "wf_tables demo_tables \<longleftrightarrow> list_all (\<lambda>g. list_all (\<lambda>i. wf_row
      (slice (i * cdf_width g) (i * cdf_width g + nat (cdf_length g ! i)) (quantized_cdf g)))
      [0..<num_cdfs g]) (tab_groups demo_tables)"
proof (rule parsed_tables_wf [of "table_file demo_tables"])
  have "shape_tables demo_tables"
    by (simp add: shape_tables_def shape_group_def shape_quantizer_def demo_tables_def i32_def)
  then show "parse_entropy_tables (table_file demo_tables) = Inr demo_tables" by (rule parse_table_file)
  show "tab_precision demo_tables = 16" "tab_bypass_precision demo_tables \<le> 8" by (simp_all add: demo_tables_def)
qed

end
