(* ===== verification/Base91.thy ===== *)
theory Base91
  imports Prelude
begin

text \<open>
  basE91 as \<open>src/app/compression/mcmp.py\<close> has it: one encoder and the two decoders (the one of the
  v2 text transport, also used for image chunks, and the one of the v3 container), which treat the end
  of the text differently. Both are shown to invert the encoder on every byte string.
\<close>

section \<open>Model\<close>

definition BASE91_ALPHABET :: string where
  "BASE91_ALPHABET =
     ''ABCDEFGHIJKLMNOPQRSTUVWXYZabcdefghijklmnopqrstuvwxyz0123456789!#$%&()*+,./:;<=>?@[]^_`{|}~'' @ [CHR 0x22]"

fun index_of :: "'a \<Rightarrow> 'a list \<Rightarrow> nat option" where
  "index_of x [] = None"
| "index_of x (y # ys) = (if x = y then Some 0 else map_option Suc (index_of x ys))"

definition b91_value :: "char \<Rightarrow> nat option" where
  "b91_value c = index_of c BASE91_ALPHABET"

definition b91_char :: "nat \<Rightarrow> char" where
  "b91_char v = BASE91_ALPHABET ! v"

text \<open>The loop of \<open>_b91_encode\<close> over the bytes, then its tail; \<open>n\<close> holds \<open>n_bits\<close> pending bits.\<close>

fun b91_loop :: "bytes \<Rightarrow> nat \<Rightarrow> nat \<Rightarrow> string" where
  "b91_loop [] n n_bits =
     (if n_bits > 0
      then b91_char (n mod 91) # (if n \<ge> 91 \<or> n_bits > 7 then [b91_char (n div 91)] else [])
      else [])"
| "b91_loop (b # bs) n n_bits =
     (let n' = n OR push_bit n_bits (unat b); n_bits' = n_bits + 8
      in if n_bits' > 13 then
           let value = n' AND 8191
           in if value > 88
              then b91_char (value mod 91) # b91_char (value div 91) # b91_loop bs (drop_bit 13 n') (n_bits' - 13)
              else let value = n' AND 16383
                   in b91_char (value mod 91) # b91_char (value div 91) # b91_loop bs (drop_bit 14 n') (n_bits' - 14)
         else b91_loop bs n' n_bits')"

definition b91_encode :: "bytes \<Rightarrow> string" where
  "b91_encode data = b91_loop data 0 0"

text \<open>\<open>while n_bits >= 8\<close>: the bytes put out, and what is left.\<close>

function drain :: "nat \<Rightarrow> nat \<Rightarrow> bytes \<times> nat \<times> nat" where
  "drain n n_bits =
     (if n_bits \<ge> 8 then
        (case drain (drop_bit 8 n) (n_bits - 8) of (out, st) \<Rightarrow> (byte_of (n AND 255) # out, st))
      else ([], n, n_bits))"
  by pat_completeness auto
termination
  by (relation "measure (\<lambda>(n, k). k)") auto

declare drain.simps [simp del]

fun b91_decode_loop_v2 :: "string \<Rightarrow> nat \<Rightarrow> nat \<Rightarrow> nat option \<Rightarrow> bytes res" where
  "b91_decode_loop_v2 [] n n_bits value =
     (case value of
        None \<Rightarrow> Inr []
      | Some v \<Rightarrow> Inr (fst (drain (n OR push_bit n_bits v) (n_bits + 7))))"
| "b91_decode_loop_v2 (ch # text) n n_bits value =
     (case b91_value ch of
        None \<Rightarrow> Inl MeshCompressorError
      | Some decoded \<Rightarrow>
          (case value of
             None \<Rightarrow> b91_decode_loop_v2 text n n_bits (Some decoded)
           | Some v \<Rightarrow>
               let v' = v + decoded * 91; bit_count = (if v' AND 8191 > 88 then 13 else 14)
               in (case drain (n OR push_bit n_bits v') (n_bits + bit_count) of
                     (out, n', n_bits') \<Rightarrow>
                       map_sum id ((@) out) (b91_decode_loop_v2 text n' n_bits' None))))"

definition b91_decode_v2 :: "string \<Rightarrow> bytes res" where
  "b91_decode_v2 text = b91_decode_loop_v2 text 0 0 None"

text \<open>The v3 decoder's inner loop puts out a byte before it tests.\<close>

function drain_v3 :: "nat \<Rightarrow> int \<Rightarrow> bytes \<times> nat \<times> int" where
  "drain_v3 b n =
     (let b' = drop_bit 8 b; n' = n - 8
      in if n' \<le> 7 then ([byte_of (b AND 255)], b', n')
         else (case drain_v3 b' n' of (out, st) \<Rightarrow> (byte_of (b AND 255) # out, st)))"
  by pat_completeness auto
termination
  by (relation "measure (\<lambda>(b, n). nat n)") auto

declare drain_v3.simps [simp del]

fun b91_decode_loop_v3 :: "string \<Rightarrow> nat \<Rightarrow> int \<Rightarrow> nat option \<Rightarrow> bytes res" where
  "b91_decode_loop_v3 [] b n v =
     (case v of None \<Rightarrow> Inr [] | Some v \<Rightarrow> Inr [byte_of ((b OR push_bit (nat n) v) AND 255)])"
| "b91_decode_loop_v3 (ch # text) b n v =
     (case b91_value ch of
        None \<Rightarrow> Inl MeshCompressorError
      | Some decoded \<Rightarrow>
          (case v of
             None \<Rightarrow> b91_decode_loop_v3 text b n (Some decoded)
           | Some v \<Rightarrow>
               let v' = v + decoded * 91
               in (case drain_v3 (b OR push_bit (nat n) v') (n + (if v' AND 8191 > 88 then 13 else 14)) of
                     (out, b', n') \<Rightarrow> map_sum id ((@) out) (b91_decode_loop_v3 text b' n' None))))"

definition b91_decode_v3 :: "string \<Rightarrow> bytes res" where
  "b91_decode_v3 text = b91_decode_loop_v3 text 0 0 None"

definition encode_base91 :: "bytes \<Rightarrow> string" where
  "encode_base91 data = b91_encode data"

definition decode_base91 :: "string \<Rightarrow> bytes res" where
  "decode_base91 text = b91_decode_v2 text"

section \<open>Digits\<close>

lemma index_of_nth: "distinct xs \<Longrightarrow> i < length xs \<Longrightarrow> index_of (xs ! i) xs = Some i"
proof (induction xs arbitrary: i)
  case (Cons x xs)
  then show ?case by (cases i) auto
qed simp

lemma b91_value_char: "v < 91 \<Longrightarrow> b91_value (b91_char v) = Some v"
proof -
  have "distinct BASE91_ALPHABET" "length BASE91_ALPHABET = 91" by code_simp+
  then show "v < 91 \<Longrightarrow> b91_value (b91_char v) = Some v" by (simp add: b91_value_def b91_char_def index_of_nth)
qed

lemma or_low: "x < 2 ^ k \<Longrightarrow> x OR push_bit k y = x + 2 ^ k * (y::nat)"
  by (simp add: or_push_bit' mult.commute)

lemma drain_to_le: "drain n k = (to_le (k div 8) n, n div 256 ^ (k div 8), k mod 8)"
proof (induction n k rule: drain.induct)
  case (1 n k)
  show ?case
  proof (cases "8 \<le> k")
    case True
    then have "k div 8 = Suc ((k - 8) div 8)" "(k - 8) mod 8 = k mod 8" by (simp_all add: le_div_geq le_mod_geq)
    then show ?thesis using 1 [OF True] True
      by (subst drain.simps) (simp add: drop_bit_eq_div and_255 div_mult2_eq)
  next
    case False
    then show ?thesis by (subst drain.simps) simp
  qed
qed

lemma drain_v3_drain: "8 \<le> k \<Longrightarrow> drain_v3 b (int k) = (case drain b k of (out, b', k') \<Rightarrow> (out, b', int k'))"
proof (induction b k rule: drain.induct)
  case (1 b k)
  show ?case
  proof (cases "8 \<le> k - 8")
    case True
    have e: "int k - 8 = int (k - 8)" using 1(2) by simp
    have "\<not> int (k - 8) \<le> 7" using True by simp
    then have "drain_v3 b (int k) = (case drain_v3 (drop_bit 8 b) (int (k - 8)) of
        (out, st) \<Rightarrow> (byte_of (b AND 255) # out, st))"
      unfolding drain_v3.simps [of b "int k"] Let_def e by (rule if_not_P)
    moreover have "drain b k = (case drain (drop_bit 8 b) (k - 8) of (out, st) \<Rightarrow> (byte_of (b AND 255) # out, st))"
      using 1(2) by (subst drain.simps) simp
    ultimately show ?thesis using 1(1) [OF 1(2) True] by (simp split: prod.splits)
  next
    case False
    then have k: "k - 8 < 8" "k \<le> 15" by simp_all
    then have "drain (drop_bit 8 b) (k - 8) = ([], drop_bit 8 b, k - 8)" by (subst drain.simps) simp
    then show ?thesis using 1(2) k
      by (subst drain_v3.simps, subst drain.simps) (simp add: Let_def)
  qed
qed

section \<open>Round trip\<close>

text \<open>
  What the round trip needs of a decoder, with \<open>mb\<close> pending bits \<open>m\<close>: a pair of characters carries a
  value of 13 or 14 bits, one last character completes a byte, and the end adds nothing.
\<close>

locale b91_decoder =
  fixes dec :: "string \<Rightarrow> nat \<Rightarrow> nat \<Rightarrow> bytes res"
  assumes stop: "dec [] m mb = Inr []"
    and one: "v < 91 \<Longrightarrow> m < 2 ^ mb \<Longrightarrow> 0 < mb \<Longrightarrow> mb < 8 \<Longrightarrow> dec [b91_char v] m mb = Inr (to_le 1 (m + 2 ^ mb * v))"
    and pair: "v < 8281 \<Longrightarrow> dec (b91_char (v mod 91) # b91_char (v div 91) # text) m mb =
      (case drain (m OR push_bit mb v) (mb + (if v AND 8191 > 88 then 13 else 14)) of
         (out, m', mb') \<Rightarrow> map_sum id ((@) out) (dec text m' mb'))"
begin

lemma pair_to_le:
  assumes "v < 8281" "v < 2 ^ w" "w = (if v AND 8191 > 88 then 13 else 14)" "m < 2 ^ mb"
    and rest: "dec text ((m + 2 ^ mb * v) div 256 ^ ((mb + w) div 8)) ((mb + w) mod 8)
      = Inr (to_le k ((m + 2 ^ mb * v) div 256 ^ ((mb + w) div 8) + 2 ^ ((mb + w) mod 8) * N))"
  shows "dec (b91_char (v mod 91) # b91_char (v div 91) # text) m mb
    = Inr (to_le ((mb + w) div 8 + k) (m + 2 ^ mb * (v + 2 ^ w * N)))"
proof -
  let ?x = "m + 2 ^ mb * v" and ?a = "(mb + w) div 8" and ?r = "(mb + w) mod 8"
  have p: "(2::nat) ^ (mb + w) = 256 ^ ?a * 2 ^ ?r"
  proof -
    have "(2::nat) ^ (mb + w) = (2 ^ 8) ^ ?a * 2 ^ ?r" by (metis mult_div_mod_eq power_add power_mult)
    then show ?thesis by simp
  qed
  have e: "m + 2 ^ mb * (v + 2 ^ w * N) = ?x + 256 ^ ?a * (2 ^ ?r * N)"
    unfolding mult.assoc [symmetric] p [symmetric] by (simp add: power_add algebra_simps)
  show ?thesis
    unfolding e to_le_append to_le_add_mult pair [OF assms(1)] or_low [OF assms(4)] drain_to_le assms(3) [symmetric]
    using rest by (simp add: add.commute)
qed

text \<open>The tail of at most 13 bits, in one character or two.\<close>

lemma dec_tail:
  assumes "n < 2 ^ nb" "nb \<le> 13" "m < 2 ^ mb" "mb < 8" "(mb + nb) mod 8 = 0"
  shows "dec (b91_loop [] n nb) m mb = Inr (to_le ((mb + nb) div 8) (m + 2 ^ mb * n))"
proof -
  consider "nb = 0" | "0 < nb" "nb \<le> 7" "n < 91" | "0 < nb" "n \<ge> 91 \<or> nb > 7" by linarith
  then show ?thesis
  proof cases
    case 1
    then show ?thesis using assms by (simp add: stop)
  next
    case 2
    then have "mb + nb = 8" using assms(4,5) by presburger
    then have "(mb + 7) div 8 = 1" "(mb + nb) div 8 = 1" using 2 by auto
    then show ?thesis using 2 assms(3) using one [of n m mb] 2 assms(3,4)
      by simp
  next
    case 3
    have n: "n < 8192" using assms(1,2) power_increasing [of nb 13 "2::nat"] by simp
    then have l: "b91_loop [] n nb = [b91_char (n mod 91), b91_char (n div 91)]" using 3 by simp
    let ?w = "if n AND 8191 > 88 then 13 else 14 :: nat"
    have "7 \<le> nb" using 3 assms(1) power_increasing [of nb 6 "2::nat"] by (cases "7 \<le> nb") auto
    then have "(mb + nb) div 8 = (mb + ?w) div 8"
      using assms(2,4,5) 3 n by (auto simp: and_8191)
    then show ?thesis
      unfolding l pair [OF n [THEN less_trans, of 8281, simplified]] or_low [OF assms(3)] drain_to_le by (simp add: stop)
  qed
qed

lemma dec_loop:
  assumes "n < 2 ^ nb" "nb \<le> 13" "m < 2 ^ mb" "mb < 8" "(mb + nb) mod 8 = 0"
  shows "dec (b91_loop data n nb) m mb
    = Inr (to_le ((mb + nb) div 8 + length data) (m + 2 ^ mb * (n + 2 ^ nb * from_le data)))"
  using assms
proof (induction data arbitrary: n nb m mb)
  case Nil
  then show ?case using dec_tail [OF Nil] by simp
next
  case (Cons b data)
  define N where "N = n + 2 ^ nb * unat b"
  have nN: "n OR push_bit nb (unat b) = N" unfolding N_def by (rule or_low [OF Cons.prems(1)])
  have Nb: "N < 2 ^ (nb + 8)"
  proof -
    have "2 ^ nb * unat b \<le> 2 ^ nb * 255" using unat_byte_less [of b] by (intro mult_left_mono) (simp_all del: unat_byte_less)
    moreover have "(2::nat) ^ (nb + 8) = 2 ^ nb * 256" by (simp add: power_add)
    ultimately show ?thesis using Cons.prems(1) unfolding N_def by linarith
  qed
  have val: "n + 2 ^ nb * from_le (b # data) = N + 2 ^ (nb + 8) * from_le data"
    by (simp add: N_def power_add algebra_simps)
  show ?case
  proof (cases "nb + 8 > 13")
    case False
    then show ?thesis using Cons.IH [of N "nb + 8" m mb] Cons.prems Nb unfolding val
      by (simp add: nN Let_def add.assoc [symmetric])
  next
    case True
    define w where "w = (if N AND 8191 > 88 then 13 else 14 :: nat)"
    define v where "v = N mod 2 ^ w"
    have v: "v < 8281" "v < 2 ^ w" "w = (if v AND 8191 > 88 then 13 else 14)"
    proof -
      have "N mod 16384 mod 8192 = N mod 8192" by (simp add: mod_mod_cancel)
      moreover have "N mod 8192 < 8192" "N mod 16384 div 8192 < 2" by (simp_all add: div_less_iff_less_mult)
      moreover have "N mod 16384 = N mod 16384 div 8192 * 8192 + N mod 16384 mod 8192" by simp
      ultimately show "v < 8281" "v < 2 ^ w" "w = (if v AND 8191 > 88 then 13 else 14)"
        by (cases "88 < N mod 8192"; simp add: v_def w_def and_8191; linarith)+
    qed
    have loop: "b91_loop (b # data) n nb
        = b91_char (v mod 91) # b91_char (v div 91) # b91_loop data (N div 2 ^ w) (nb + 8 - w)"
      using True by (simp add: nN Let_def v_def w_def and_8191 and_16383 drop_bit_eq_div)
    define a where "a = (mb + w) div 8"
    define r where "r = (mb + w) mod 8"
    have ar: "mb + w = 8 * a + r" "r < 8" by (simp_all add: a_def r_def)
    have w: "w \<le> nb + 8" "nb + 8 - w \<le> 13" "13 \<le> w" "w \<le> 14" using True Cons.prems(2) by (auto simp: w_def)
    have n': "N div 2 ^ w < 2 ^ (nb + 8 - w)"
    proof -
      have "(2::nat) ^ (nb + 8) = 2 ^ (nb + 8 - w) * 2 ^ w" using w(1) by (simp flip: power_add)
      then show ?thesis using Nb by (simp add: div_less_iff_less_mult)
    qed
    have m': "(m + 2 ^ mb * v) div 256 ^ a < 2 ^ r"
    proof -
      have "m + 2 ^ mb * v < 2 ^ mb * 2 ^ w"
      proof -
        have "2 ^ mb * (v + 1) \<le> 2 ^ mb * 2 ^ w" using v(2) by (intro mult_left_mono) simp_all
        then show ?thesis using Cons.prems(3) by simp
      qed
      also have "\<dots> = 2 ^ r * (2 ^ 8) ^ a" 
        by (metis ar(1) mult.commute power_add power_mult)
      finally show ?thesis by (simp add: div_less_iff_less_mult)
    qed
    have k: "(r + (nb + 8 - w)) mod 8 = 0" "a + ((r + (nb + 8 - w)) div 8 + length data) = (mb + nb) div 8 + length (b # data)"
    proof -
      have "r + (nb + 8 - w) + 8 * a = mb + nb + 8" using ar(1) w(1) by linarith
      moreover obtain q where "mb + nb = 8 * q" using Cons.prems(5) by (metis mod_0_imp_dvd dvdE)
      ultimately have e: "r + (nb + 8 - w) = 8 * (q + 1 - a)" and "a \<le> q + 1" and "(mb + nb) div 8 = q" by simp_all
      then show "(r + (nb + 8 - w)) mod 8 = 0" "a + ((r + (nb + 8 - w)) div 8 + length data) = (mb + nb) div 8 + length (b # data)"
        by (simp_all add: e)
    qed
    have sum: "v + 2 ^ w * (N div 2 ^ w + 2 ^ (nb + 8 - w) * from_le data) = N + 2 ^ (nb + 8) * from_le data"
    proof -
      have "(2::nat) ^ (nb + 8) = 2 ^ w * 2 ^ (nb + 8 - w)" using w(1) by (simp flip: power_add)
      then show ?thesis using mult_div_mod_eq [of "2 ^ w" N] by (simp add: v_def algebra_simps)
    qed
    note IH = Cons.IH [OF n' w(2) m' ar(2) k(1)]
    show ?thesis
      using pair_to_le [OF v(1,2,3) Cons.prems(3), folded a_def r_def, OF IH] unfolding loop val sum k(2) .
  qed
qed

lemma dec_encode: "dec (b91_encode data) 0 0 = Inr data"
  using dec_loop [of 0 0 0 0 data] by (simp add: b91_encode_def to_le_from_le)

end

lemma pair_digits: "(v::nat) < 8281 \<Longrightarrow> v mod 91 + v div 91 * 91 = v \<and> v div 91 < 91"
  by (simp add: div_less_iff_less_mult)

interpretation v2: b91_decoder "\<lambda>text n n_bits. b91_decode_loop_v2 text n n_bits None"
proof (unfold_locales, goal_cases)
  case (2 v m mb)
  then have "(mb + 7) div 8 = 1" by auto
  then show ?case using 2 by (simp add: b91_value_char or_low drain_to_le)
next
  case (3 v rest m mb)
  then show ?case using pair_digits [OF 3] by (simp add: b91_value_char Let_def)
qed simp

interpretation v3: b91_decoder "\<lambda>text b n. b91_decode_loop_v3 text b (int n) None"
proof (unfold_locales, goal_cases)
  case (2 v m mb)
  then show ?case by (simp add: b91_value_char or_low and_255)
next
  case (3 v rest m mb)
  let ?w = "if v AND 8191 > 88 then 13 else 14 :: nat"
  have "int mb + (if v AND 8191 > 88 then 13 else 14) = int (mb + ?w)" by simp
  then have "drain_v3 (m OR push_bit mb v) (int mb + (if v AND 8191 > 88 then 13 else 14))
      = (case drain (m OR push_bit mb v) (mb + ?w) of (out, b', k') \<Rightarrow> (out, b', int k'))"
    using drain_v3_drain [of "mb + ?w" "m OR push_bit mb v"] by simp
  then show ?case using 3 pair_digits [OF 3] by (simp add: b91_value_char Let_def split: prod.splits)
qed simp

text \<open>C39: Whatever bytes are carried, the decoder of the text transports (and of image chunks) and the decoder of
  the v3 container both return exactly the bytes the encoder was given, at every length.\<close>

theorem base91_roundtrip:
  "decode_base91 (encode_base91 data) = Inr data \<and> b91_decode_v3 (b91_encode data) = Inr data"
  using v2.dec_encode [of data] v3.dec_encode [of data]
  by (simp add: decode_base91_def encode_base91_def b91_decode_v2_def b91_decode_v3_def)

text \<open>The two decoders differ on other texts: a single character ends a v3 text with a byte.\<close>

lemma decoders_differ: "b91_decode_v2 ''B'' = Inr [] \<and> b91_decode_v3 ''B'' = Inr [1]"
  by code_simp

end
