(* ===== verification/TextTransport.thy ===== *)
theory TextTransport
  imports Base91
begin

text \<open>
  The \<open>aei1\<close> text framing of image bitstreams (\<open>src/app/imaging/aeic/text_transport.py\<close>): base-36
  fields, the metadata byte, cutting a basE91 stream into messages, parsing a message, and
  reassembly. Message text is a string of characters below U+0100.
  The choice of an aspect code compares logarithms of ratios; it is modelled over the reals.
\<close>

section \<open>Fields\<close>

definition PREFIX :: string where "PREFIX = ''aei1''"
definition SESSION_ID_CHARS :: nat where "SESSION_ID_CHARS = 2"
definition INDEX_CHARS :: nat where "INDEX_CHARS = 1"
definition TOTAL_CHARS :: nat where "TOTAL_CHARS = 1"
definition META_CHARS :: nat where "META_CHARS = 2"
definition HEADER_CHARS :: nat where
  "HEADER_CHARS = length PREFIX + SESSION_ID_CHARS + INDEX_CHARS + TOTAL_CHARS"
definition FIRST_HEADER_CHARS :: nat where "FIRST_HEADER_CHARS = HEADER_CHARS + META_CHARS"
definition MAX_SESSION_ID :: nat where "MAX_SESSION_ID = 36 ^ SESSION_ID_CHARS - 1"
definition MAX_CHUNKS :: nat where "MAX_CHUNKS = 36 ^ TOTAL_CHARS"
definition RESOLUTION_CODES :: "nat list" where "RESOLUTION_CODES = [512, 256, 768, 1024]"
definition RATE_WIRE_STANDARD :: nat where "RATE_WIRE_STANDARD = 0"
definition RATE_WIRE_HIGH :: nat where "RATE_WIRE_HIGH = 1"
definition ASPECT_UNKNOWN :: nat where "ASPECT_UNKNOWN = 15"

definition ASPECT_CODES :: "(nat \<times> nat) list" where
  "ASPECT_CODES = [(1, 1), (5, 4), (4, 3), (3, 2), (16, 10), (16, 9), (2, 1), (21, 9),
     (4, 5), (3, 4), (2, 3), (10, 16), (9, 16), (1, 2), (9, 21), (1, 1)]"

definition BASE36 :: string where
  "BASE36 = ''0123456789abcdefghijklmnopqrstuvwxyz''"

fun base36_digits :: "nat \<Rightarrow> nat \<Rightarrow> string" where
  "base36_digits value 0 = []"
| "base36_digits value (Suc w) = base36_digits (value div 36) w @ [BASE36 ! (value mod 36)]"

definition base36 :: "int \<Rightarrow> nat \<Rightarrow> string res" where
  "base36 value width =
     (if value < 0 \<or> value \<ge> 36 ^ width then Inl AeicTextFormatError
      else Inr (base36_digits (nat value) width))"

text \<open>The best code so far and its error; \<^const>\<open>None\<close> is the initial infinity.\<close>

fun aspect_search :: "real \<Rightarrow> (nat \<times> nat \<times> nat) list \<Rightarrow> nat \<times> real option \<Rightarrow> nat \<times> real option" where
  "aspect_search target [] best = best"
| "aspect_search target ((code, w, h) # rest) (best, best_error) =
     (if code = ASPECT_UNKNOWN then aspect_search target rest (best, best_error)
      else
        let error = \<bar>ln (real w / real h) - target\<bar>
        in if best_error = None \<or> error < the best_error
           then aspect_search target rest (code, Some error)
           else aspect_search target rest (best, best_error))"

definition aspect_code_for :: "int \<Rightarrow> int \<Rightarrow> nat" where
  "aspect_code_for width height =
     (if width \<le> 0 \<or> height \<le> 0 then ASPECT_UNKNOWN
      else
        case aspect_search (ln (real_of_int width / real_of_int height)) (enumerate 0 ASPECT_CODES)
               (ASPECT_UNKNOWN, None) of
          (best, None) \<Rightarrow> ASPECT_UNKNOWN
        | (best, Some best_error) \<Rightarrow> if best_error \<le> 18 / 100 then best else ASPECT_UNKNOWN)"

section \<open>Metadata byte\<close>

record AeicStreamMetadata =
  square_size :: nat
  rate_code :: nat
  aspect_code :: nat

definition encode_metadata :: "AeicStreamMetadata \<Rightarrow> nat res" where
  "encode_metadata m =
     (case index_of (square_size m) RESOLUTION_CODES of
        None \<Rightarrow> Inl AeicTextFormatError
      | Some code \<Rightarrow>
          Inr ((push_bit 4 (aspect_code m AND 15) OR push_bit 2 (code AND 3)) OR (rate_code m AND 3)))"

definition decode_metadata :: "int \<Rightarrow> AeicStreamMetadata option" where
  "decode_metadata byte =
     (let rate = nat (byte AND 3); code = nat (drop_bit 2 byte AND 3)
      in if rate \<noteq> RATE_WIRE_STANDARD \<and> rate \<noteq> RATE_WIRE_HIGH then None
         else if code \<ge> length RESOLUTION_CODES then None
         else Some \<lparr>square_size = RESOLUTION_CODES ! code, rate_code = rate,
                    aspect_code = nat (drop_bit 4 byte AND 15)\<rparr>)"

section \<open>Chunks\<close>

record AeicChunk =
  ac_session_id :: nat
  ac_index :: nat
  ac_total :: nat
  ac_payload :: string
  ac_metadata :: "AeicStreamMetadata option"

definition chunk_capacities :: "int \<Rightarrow> (nat \<times> nat) res" where
  "chunk_capacities message_budget =
     (let first = message_budget - int FIRST_HEADER_CHARS; rest = message_budget - int HEADER_CHARS
      in if first < 1 \<or> rest < 1 then Inl AeicTextFormatError else Inr (nat first, nat rest))"

definition encode_one :: "string \<Rightarrow> AeicStreamMetadata \<Rightarrow> nat \<Rightarrow> nat \<times> string \<Rightarrow> string res" where
  "encode_one head metadata tot ip =
     (case ip of (i, payload) \<Rightarrow>
        bind_res (base36 (int i) INDEX_CHARS) (\<lambda>idx.
        bind_res (base36 (int tot) TOTAL_CHARS) (\<lambda>total.
          if i = 0 then
            bind_res (encode_metadata metadata) (\<lambda>byte.
            bind_res (base36 (int byte) META_CHARS) (\<lambda>meta.
              Inr (head @ idx @ total @ meta @ payload)))
          else Inr (head @ idx @ total @ payload))))"

definition encode_chunks ::
  "bytes \<Rightarrow> AeicStreamMetadata \<Rightarrow> int \<Rightarrow> int \<Rightarrow> string list res" where
  "encode_chunks bitstream metadata sid message_budget =
     (if bitstream = [] then Inl AeicTextFormatError
      else if \<not> (0 \<le> sid \<and> sid \<le> int MAX_SESSION_ID) then Inl AeicTextFormatError
      else
        let text = encode_base91 bitstream
        in bind_res (chunk_capacities message_budget) (\<lambda>(first_capacity, rest_capacity).
           let slices = take first_capacity text # chunks rest_capacity (drop first_capacity text)
           in if length slices > MAX_CHUNKS then Inl AeicTextFormatError
              else
                bind_res (base36 sid SESSION_ID_CHARS) (\<lambda>s.
                  map_res (encode_one (PREFIX @ s) metadata (length slices)) (enumerate 0 slices))))"

definition is_aeic_chunk :: "string \<Rightarrow> bool" where
  "is_aeic_chunk text = starts_with PREFIX text"

definition re_digit :: "char \<Rightarrow> bool" where
  "re_digit c \<longleftrightarrow> c \<in> set BASE36"

definition parse_chunk :: "string \<Rightarrow> AeicChunk option" where
  "parse_chunk text =
     (case text of
        a # e # i1 # one # s1 # s2 # ic # tc # rest \<Rightarrow>
          if [a, e, i1, one] \<noteq> PREFIX \<or> \<not> re_digit s1 \<or> \<not> re_digit s2 \<or> \<not> re_digit ic \<or> \<not> re_digit tc then None
          else (case (py_int 36 [s1, s2], py_int 36 [ic], py_int 36 [tc]) of
                  (Some sid, Some i, Some t) \<Rightarrow>
                    if t < 1 \<or> i \<ge> t then None
                    else if i = 0 then
                      if length rest < META_CHARS then None
                      else (case py_int 36 (take META_CHARS rest) of
                              None \<Rightarrow> None
                            | Some byte \<Rightarrow>
                                (case decode_metadata byte of
                                   None \<Rightarrow> None
                                 | Some m \<Rightarrow>
                                     if drop META_CHARS rest = [] then None
                                     else Some \<lparr>ac_session_id = nat sid, ac_index = nat i, ac_total = nat t,
                                                ac_payload = drop META_CHARS rest, ac_metadata = Some m\<rparr>))
                    else if rest = [] then None
                    else Some \<lparr>ac_session_id = nat sid, ac_index = nat i, ac_total = nat t,
                               ac_payload = rest, ac_metadata = None\<rparr>
                | _ \<Rightarrow> None)
      | _ \<Rightarrow> None)"

text \<open>\<open>chunks\<close> is a dict: an association list with distinct keys.\<close>

definition reassemble :: "(nat \<times> string) list \<Rightarrow> nat \<Rightarrow> bytes res option" where
  "reassemble parts tot =
     (if length parts \<noteq> tot \<or> \<not> list_all (\<lambda>i. map_of parts i \<noteq> None) [0..<tot] then None
      else Some (decode_base91 (concat (map (\<lambda>i. the (map_of parts i)) [0..<tot]))))"

section \<open>Base 36\<close>

lemma base36_table:
  "list_all (\<lambda>d. digit_val 36 (BASE36 ! d) = Some d \<and> \<not> py_space (BASE36 ! d) \<and> BASE36 ! d \<noteq> CHR ''-''
     \<and> BASE36 ! d \<noteq> CHR ''+'' \<and> BASE36 ! d \<noteq> CHR ''_'' \<and> re_digit (BASE36 ! d)) [0..<36]"
  by (simp add: BASE36_def digit_val_def py_space_def re_digit_def upt_conv_Cons Let_def)

lemma base36_char:
  assumes "d < 36"
  shows "digit_val 36 (BASE36 ! d) = Some d" "\<not> py_space (BASE36 ! d)" "BASE36 ! d \<noteq> CHR ''-''"
    "BASE36 ! d \<noteq> CHR ''+''" "BASE36 ! d \<noteq> CHR ''_''" "re_digit (BASE36 ! d)"
  using base36_table assms unfolding list_all_iff by auto

lemma py_int_base36_1: "d < 36 \<Longrightarrow> py_int 36 [BASE36 ! d] = Some (int d)"
  by (simp add: py_int_def strip_def nat_text_def base36_char)

lemma py_int_base36_2: "d < 36 \<Longrightarrow> e < 36 \<Longrightarrow> py_int 36 [BASE36 ! d, BASE36 ! e] = Some (int (d * 36 + e))"
  by (simp add: py_int_def strip_def nat_text_def base36_char)

lemma base36_1: "base36 (int v) (Suc 0) = Inr s \<longleftrightarrow> v < 36 \<and> s = [BASE36 ! v]"
  by (auto simp: base36_def)

lemma base36_2: "base36 (int v) 2 = Inr s \<longleftrightarrow> v < 1296 \<and> s = [BASE36 ! (v div 36), BASE36 ! (v mod 36)]"
  by (auto simp: base36_def numeral_2_eq_2)

section \<open>Metadata\<close>

definition metadata_ok :: "AeicStreamMetadata \<Rightarrow> bool" where
  "metadata_ok m \<longleftrightarrow> square_size m \<in> set RESOLUTION_CODES \<and> rate_code m \<le> 1 \<and> aspect_code m < 16"

lemma index_of_Some: "index_of x xs = Some i \<Longrightarrow> i < length xs \<and> xs ! i = x"
  by (induction xs arbitrary: i) (auto split: if_splits)

lemma metadata_roundtrip:
  assumes "rate_code m \<le> 1" "aspect_code m < 16" "encode_metadata m = Inr byte"
  shows "byte < 256" "decode_metadata (int byte) = Some m"
proof -
  obtain code where c: "index_of (square_size m) RESOLUTION_CODES = Some code"
    using assms(3) by (auto simp: encode_metadata_def split: option.splits)
  then have code: "code < 4" "RESOLUTION_CODES ! code = square_size m"
    using index_of_Some [OF c] by (simp_all add: RESOLUTION_CODES_def)
  have "push_bit 4 (aspect_code m) OR push_bit 2 code = 16 * aspect_code m + 4 * code"
    using or_push_bit [of "code * 4" 4 "aspect_code m"] code(1) by (simp add: push_bit_eq_mult)
  moreover have "push_bit 2 (4 * aspect_code m + code) OR rate_code m = 16 * aspect_code m + 4 * code + rate_code m"
    using or_push_bit [of "rate_code m" 2 "4 * aspect_code m + code"] assms(1) by (simp add: algebra_simps)
  ultimately have b: "byte = 16 * aspect_code m + 4 * code + rate_code m"
    using assms c code(1) by (simp add: encode_metadata_def and_15 and_3 push_bit_eq_mult algebra_simps)
  show "byte < 256" using b assms code(1) by simp
  have i: "int byte AND 3 = int (byte mod 4)" "drop_bit 2 (int byte) AND 3 = int (byte div 4 mod 4)"
    "drop_bit 4 (int byte) AND 15 = int (byte div 16 mod 16)"
    using of_nat_and_eq [of byte 3, where 'a = int] of_nat_and_eq [of "byte div 4" 3, where 'a = int]
      of_nat_and_eq [of "byte div 16" 15, where 'a = int]
    by (simp_all add: and_3 and_15 drop_bit_eq_div zdiv_int)
  have v: "byte mod 4 = rate_code m" "byte div 4 mod 4 = code" "byte div 16 mod 16 = aspect_code m"
  proof -
    have b': "byte = rate_code m + 4 * (code + 4 * aspect_code m)" using b by simp
    have r: "rate_code m mod 4 = rate_code m" "rate_code m div 4 = 0" using assms(1) by simp_all
    show "byte mod 4 = rate_code m" unfolding b' mod_mult_self2 by (rule r(1))
    have "byte div 4 = code + 4 * aspect_code m" unfolding b' using r(2) by (simp only: div_mult_self2 zero_neq_numeral simp_thms add_0_right)
    then show "byte div 4 mod 4 = code" using code(1) by simp
    show "byte div 16 mod 16 = aspect_code m" using b assms(1,2) code(1) by simp
  qed
  show "decode_metadata (int byte) = Some m"
    using assms(1) code by (auto simp: decode_metadata_def i v Let_def RATE_WIRE_STANDARD_def RATE_WIRE_HIGH_def RESOLUTION_CODES_def)
qed

section \<open>One message\<close>

text \<open>The chunk a message stands for.\<close>

definition text_chunk :: "nat \<Rightarrow> AeicStreamMetadata \<Rightarrow> nat \<Rightarrow> nat \<times> string \<Rightarrow> AeicChunk" where
  "text_chunk sid m tot ip =
     \<lparr>ac_session_id = sid, ac_index = fst ip, ac_total = tot, ac_payload = snd ip,
      ac_metadata = (if fst ip = 0 then Some m else None)\<rparr>"

lemma parse_encode_one:
  assumes "rate_code m \<le> 1" "aspect_code m < 16" "sid < 1296" "base36 (int sid) SESSION_ID_CHARS = Inr s"
    and "encode_one (PREFIX @ s) m tot (i, payload) = Inr msg" "i < tot" "payload \<noteq> []"
  shows "parse_chunk msg = Some (text_chunk sid m tot (i, payload))"
    and "length msg = length payload + (if i = 0 then FIRST_HEADER_CHARS else HEADER_CHARS)" and "tot < 36"
proof -
  have s: "s = [BASE36 ! (sid div 36), BASE36 ! (sid mod 36)]" "sid div 36 < 36"
    using assms(3,4) by (simp_all add: SESSION_ID_CHARS_def base36_2 div_less_iff_less_mult)
  have it: "i < 36" "tot < 36" and e: "if i = 0 then \<exists>byte meta. encode_metadata m = Inr byte
      \<and> base36 (int byte) META_CHARS = Inr meta \<and> msg = PREFIX @ s @ [BASE36 ! i, BASE36 ! tot] @ meta @ payload
    else msg = PREFIX @ s @ [BASE36 ! i, BASE36 ! tot] @ payload"
    using assms(5) unfolding encode_one_def prod.case bind_res_Inr INDEX_CHARS_def TOTAL_CHARS_def One_nat_def base36_1
    by (cases "i = 0"; auto simp: bind_res_Inr)+
  show "tot < 36" by (rule it)
  have sid: "sid div 36 * 36 + sid mod 36 = sid" by simp
  show "parse_chunk msg = Some (text_chunk sid m tot (i, payload))"
  proof (cases "i = 0")
    case False
    then show ?thesis using e s it assms(6,7) sid
      by (simp add: parse_chunk_def PREFIX_def base36_char py_int_base36_1 py_int_base36_2 text_chunk_def del: div_mult_mod_eq)
  next
    case True
    then obtain byte where b: "encode_metadata m = Inr byte"
      and msg: "msg = PREFIX @ s @ [BASE36 ! i, BASE36 ! tot] @ [BASE36 ! (byte div 36), BASE36 ! (byte mod 36)] @ payload"
      using e by (auto simp: META_CHARS_def base36_2)
    note md = metadata_roundtrip [OF assms(1,2) b]
    have "byte div 36 < 36" "byte div 36 * 36 + byte mod 36 = byte" using md(1) by (simp_all add: div_less_iff_less_mult)
    then show ?thesis using True msg s it assms(6,7) sid md(2)
      by (simp add: parse_chunk_def PREFIX_def base36_char py_int_base36_1 py_int_base36_2 text_chunk_def META_CHARS_def
          del: div_mult_mod_eq)
  qed
  show "length msg = length payload + (if i = 0 then FIRST_HEADER_CHARS else HEADER_CHARS)"
    using e s by (auto simp: FIRST_HEADER_CHARS_def HEADER_CHARS_def PREFIX_def SESSION_ID_CHARS_def INDEX_CHARS_def
        TOTAL_CHARS_def META_CHARS_def base36_2 split: if_splits)
qed

section \<open>Whole images\<close>

lemma encode_chunks_slices:
  assumes "encode_chunks bitstream m sid budget = Inr msgs"
  obtains first rest s where "chunk_capacities budget = Inr (first, rest)" "0 < first" "0 < rest"
    "base36 sid SESSION_ID_CHARS = Inr s" "0 \<le> sid" "sid < 1296"
    "map_res (encode_one (PREFIX @ s) m (length (take first (encode_base91 bitstream) # chunks rest (drop first (encode_base91 bitstream)))))
       (enumerate 0 (take first (encode_base91 bitstream) # chunks rest (drop first (encode_base91 bitstream)))) = Inr msgs"
    "bitstream \<noteq> []" "int first = budget - 10" "int rest = budget - 8"
proof -
  have h: "HEADER_CHARS = 8" "FIRST_HEADER_CHARS = 10" "MAX_SESSION_ID = 1295"
    by (simp_all add: FIRST_HEADER_CHARS_def HEADER_CHARS_def PREFIX_def SESSION_ID_CHARS_def INDEX_CHARS_def
        TOTAL_CHARS_def META_CHARS_def MAX_SESSION_ID_def)
  show thesis using assms that
    by (auto simp: encode_chunks_def Let_def bind_res_Inr chunk_capacities_def h split: if_splits)
qed

lemma base91_nonempty: "bs \<noteq> [] \<Longrightarrow> encode_base91 bs \<noteq> []"
  using v2.dec_encode [of bs] by (auto simp: encode_base91_def)

definition text_slices :: "nat \<Rightarrow> nat \<Rightarrow> bytes \<Rightarrow> string list" where
  "text_slices first rest bitstream =
     take first (encode_base91 bitstream) # chunks rest (drop first (encode_base91 bitstream))"

lemma text_slices_shape:
  assumes "0 < first" "0 < rest" "bitstream \<noteq> []"
  shows "concat (text_slices first rest bitstream) = encode_base91 bitstream"
    and "\<And>i. i < length (text_slices first rest bitstream) \<Longrightarrow> text_slices first rest bitstream ! i \<noteq> []
      \<and> length (text_slices first rest bitstream ! i) \<le> (if i = 0 then first else rest)"
proof -
  show "concat (text_slices first rest bitstream) = encode_base91 bitstream"
    using assms by (simp add: text_slices_def)
  fix i assume i: "i < length (text_slices first rest bitstream)"
  show "text_slices first rest bitstream ! i \<noteq> []
      \<and> length (text_slices first rest bitstream ! i) \<le> (if i = 0 then first else rest)"
  proof (cases i)
    case 0
    then show ?thesis using assms base91_nonempty [OF assms(3)] by (simp add: text_slices_def)
  next
    case (Suc j)
    then have "text_slices first rest bitstream ! i \<in> set (chunks rest (drop first (encode_base91 bitstream)))"
      using i by (simp add: text_slices_def)
    then show ?thesis using chunks_length_le Suc by fastforce
  qed
qed

lemma encode_chunks_parsed:
  assumes "encode_chunks bitstream m sid budget = Inr msgs" "rate_code m \<le> 1" "aspect_code m < 16"
  obtains slices where "concat slices = encode_base91 bitstream" "length msgs = length slices" "length slices < 36" "slices \<noteq> []"
    "\<And>i. i < length msgs \<Longrightarrow> parse_chunk (msgs ! i) = Some (text_chunk (nat sid) m (length slices) (i, slices ! i))
       \<and> int (length (msgs ! i)) \<le> budget"
proof -
  obtain first rest s where c: "0 < first" "0 < rest" "base36 sid SESSION_ID_CHARS = Inr s" "0 \<le> sid" "sid < 1296"
    and mr: "map_res (encode_one (PREFIX @ s) m (length (text_slices first rest bitstream)))
       (enumerate 0 (text_slices first rest bitstream)) = Inr msgs"
    and b: "bitstream \<noteq> []" "int first = budget - 10" "int rest = budget - 8"
    using encode_chunks_slices [OF assms(1)] unfolding text_slices_def by metis
  define sl where "sl = text_slices first rest bitstream"
  note sh = text_slices_shape [OF c(1,2) b(1), folded sl_def]
  have l: "length msgs = length sl" and e: "\<And>i. i < length sl \<Longrightarrow> encode_one (PREFIX @ s) m (length sl) (i, sl ! i) = Inr (msgs ! i)"
    using mr by (simp_all add: map_res_nth nth_enumerate_eq flip: sl_def)
  have ne: "sl \<noteq> []" by (simp add: sl_def text_slices_def)
  have s': "base36 (int (nat sid)) SESSION_ID_CHARS = Inr s" "nat sid < 1296" using c by simp_all
  have one: "parse_chunk (msgs ! i) = Some (text_chunk (nat sid) m (length sl) (i, sl ! i))
       \<and> int (length (msgs ! i)) \<le> budget \<and> length sl < 36" if i: "i < length sl" for i
  proof -
    note p = parse_encode_one [OF assms(2,3) s'(2,1) e [OF i] i conjunct1 [OF sh(2) [OF i]]]
    have "int (length (msgs ! i)) \<le> budget"
      using p(2) conjunct2 [OF sh(2) [OF i]] b
      by (auto simp: FIRST_HEADER_CHARS_def HEADER_CHARS_def PREFIX_def SESSION_ID_CHARS_def INDEX_CHARS_def
        TOTAL_CHARS_def META_CHARS_def split: if_splits)
    then show ?thesis using p by simp
  qed
  have "length sl < 36" using one [of 0] ne by simp
  then show thesis using that [OF sh(1) l _ ne] one l by simp
qed

text \<open>C9: Every message of a framed image fits the budget and parses back to its place in the session (index, total,
  session id, and the metadata on chunk 0 only), and any collection holding each chunk's payload under
  its index reassembles to the bitstream that was sent. At most 35 messages are ever used.\<close>

theorem text_image_roundtrip:
  assumes "encode_chunks bitstream m sid budget = Inr msgs" and "rate_code m \<le> 1" and "aspect_code m < 16"
    and "distinct (map fst parts)"
    and "set parts = {(ac_index c, ac_payload c) | c. \<exists>msg \<in> set msgs. parse_chunk msg = Some c}"
  shows "list_all (\<lambda>msg. int (length msg) \<le> budget \<and> parse_chunk msg \<noteq> None) msgs \<and> length msgs \<le> 35
    \<and> map (\<lambda>msg. map_option (\<lambda>c. (ac_session_id c, ac_index c, ac_total c, ac_metadata c)) (parse_chunk msg)) msgs
        = map (\<lambda>i. Some (nat sid, i, length msgs, if i = 0 then Some m else None)) [0..<length msgs]
    \<and> reassemble parts (length msgs) = Some (Inr bitstream)"
proof -
  obtain sl where sl: "concat sl = encode_base91 bitstream" "length msgs = length sl" "length sl < 36" "sl \<noteq> []"
    and p: "\<And>i. i < length msgs \<Longrightarrow> parse_chunk (msgs ! i) = Some (text_chunk (nat sid) m (length sl) (i, sl ! i))
       \<and> int (length (msgs ! i)) \<le> budget"
    using encode_chunks_parsed [OF assms(1-3)] by metis
  have "\<exists>i < length msgs. c = text_chunk (nat sid) m (length sl) (i, sl ! i)"
    if "msg \<in> set msgs" "parse_chunk msg = Some c" for msg c
    using that p by (metis in_set_conv_nth option.inject)
  then have sp: "set parts = (\<lambda>i. (i, sl ! i)) ` {..<length msgs}"
    unfolding assms(5) using p by (fastforce simp: text_chunk_def intro: nth_mem)
  have mo: "map_of parts i = Some (sl ! i)" if "i < length msgs" for i
    using sp that assms(4) by (auto simp: map_of_eq_Some_iff)
  have "length parts = length msgs"
  proof -
    have "length parts = card (fst ` set parts)" using assms(4) distinct_card [of "map fst parts"] by simp
    also have "fst ` set parts = {..<length msgs}" using sp by (force simp: image_image)
    finally show ?thesis by simp
  qed
  moreover have "map (\<lambda>i. the (map_of parts i)) [0..<length msgs] = sl"
    using mo sl(2) by (intro nth_equalityI) simp_all
  ultimately have "reassemble parts (length msgs) = Some (Inr bitstream)"
    using sl(1) mo v2.dec_encode [of bitstream]
    by (simp add: reassemble_def list_all_iff decode_base91_def b91_decode_v2_def encode_base91_def)
  moreover have "map (\<lambda>msg. map_option (\<lambda>c. (ac_session_id c, ac_index c, ac_total c, ac_metadata c)) (parse_chunk msg)) msgs
        = map (\<lambda>i. Some (nat sid, i, length msgs, if i = 0 then Some m else None)) [0..<length msgs]"
    using p sl(2) by (intro nth_equalityI) (simp_all add: text_chunk_def)
  moreover have "list_all (\<lambda>msg. int (length msg) \<le> budget \<and> parse_chunk msg \<noteq> None) msgs"
    using p by (auto simp: list_all_length)
  ultimately show ?thesis using sl(2,3) by simp
qed

definition demo_meta :: AeicStreamMetadata where
  "demo_meta = \<lparr>square_size = 512, rate_code = 0, aspect_code = 5\<rparr>"

lemma base36_digits_2: "base36_digits v 2 = [BASE36 ! (v div 36 mod 36), BASE36 ! (v mod 36)]"
  by (simp add: numeral_2_eq_2)

lemma demo_text_pair: "encode_chunks [1] demo_meta 5 11 = Inr [''aei1050228B'', ''aei10512A'']"
  by (simp add: encode_chunks_def chunk_capacities_def encode_one_def FIRST_HEADER_CHARS_def HEADER_CHARS_def PREFIX_def
      SESSION_ID_CHARS_def INDEX_CHARS_def TOTAL_CHARS_def META_CHARS_def MAX_SESSION_ID_def MAX_CHUNKS_def
      encode_base91_def b91_encode_def b91_char_def BASE91_ALPHABET_def base36_def BASE36_def base36_digits_2
      encode_metadata_def demo_meta_def RESOLUTION_CODES_def chunks.simps)

text \<open>Two messages, collected in the other order.\<close>

theorem text_image_roundtrip_witness:
  "reassemble [(1, ''A''), (0, ''B'')] (length [''aei1050228B'', ''aei10512A'']) = Some (Inr [1])"
proof -
  obtain c d where "parse_chunk ''aei1050228B'' = Some c" "ac_index c = 0" "ac_payload c = ''B''"
    and "parse_chunk ''aei10512A'' = Some d" "ac_index d = 1" "ac_payload d = ''A''"
    by (simp add: parse_chunk_def PREFIX_def re_digit_def BASE36_def py_int_def strip_def py_space_def nat_text_def
        digit_val_def META_CHARS_def decode_metadata_def RATE_WIRE_STANDARD_def RESOLUTION_CODES_def)
  then have "set [(1, ''A''), (0, ''B'')] = {(ac_index c, ac_payload c) | c. \<exists>msg \<in> set [''aei1050228B'', ''aei10512A'']. parse_chunk msg = Some c}"
    by (auto intro: exI [of _ d])
  then show ?thesis
    using text_image_roundtrip [OF demo_text_pair, of "[(1, ''A''), (0, ''B'')]"] by (simp add: demo_meta_def)
qed

text \<open>Although the format's documented total is 1 to 36 and the guard admits 36 chunks, an image that needs
  36 is refused: the one-character total cannot express 36.\<close>

theorem thirty_six_chunks_refused:
  assumes "chunk_capacities budget = Inr (first, rest)" and "length (encode_base91 bitstream) \<le> first + 35 * rest"
    and "first + 34 * rest < length (encode_base91 bitstream)"
  shows "encode_chunks bitstream m sid budget = Inl AeicTextFormatError
    \<and> length (text_slices first rest bitstream) = MAX_CHUNKS"
proof -
  have r: "0 < rest" using assms(1) by (auto simp: chunk_capacities_def Let_def split: if_splits)
  define L where "L = length (encode_base91 bitstream)"
  have len: "length (text_slices first rest bitstream) = 36"
  proof -
    have "(L - first + rest - 1) div rest = 35"
      by (rule div_nat_eqI) (use assms(2,3) r in \<open>simp_all add: L_def\<close>)
    then show ?thesis using r by (simp add: text_slices_def length_chunks L_def)
  qed
  have "base36 36 TOTAL_CHARS = Inl AeicTextFormatError" by (simp add: base36_def TOTAL_CHARS_def)
  then have bad: "encode_one h m 36 (0, p) = Inl AeicTextFormatError" for h p
    by (simp add: encode_one_def INDEX_CHARS_def base36_def)
  obtain p ps where ts: "text_slices first rest bitstream = p # ps" by (simp add: text_slices_def)
  have "map_res (encode_one h m 36) (enumerate 0 (text_slices first rest bitstream)) = Inl AeicTextFormatError" for h
    by (simp add: ts bad)
  then have "encode_chunks bitstream m sid budget = Inl AeicTextFormatError"
    using len assms(1) unfolding encode_chunks_def Let_def
    by (auto simp: text_slices_def [symmetric] base36_def MAX_SESSION_ID_def SESSION_ID_CHARS_def)
  then show ?thesis using len by (simp add: MAX_CHUNKS_def TOTAL_CHARS_def)
qed

lemma zero_blocks: "length (b91_loop (concat (replicate k (replicate 7 0))) 0 0) = 8 * k"
proof (induction k)
  case (Suc k)
  have "replicate 7 0 = [0, 0, 0, 0, 0, 0, 0 :: byte]" by (simp add: numeral_eq_Suc)
  moreover have "length (b91_loop ([0, 0, 0, 0, 0, 0, 0] @ bs) 0 0) = 8 + length (b91_loop bs 0 0)" for bs by simp
  ultimately have "length (b91_loop (replicate 7 0 @ bs) 0 0) = 8 + length (b91_loop bs 0 0)" for bs by simp
  then show ?case using Suc by simp
qed simp

lemma demo_zeros: "length (encode_base91 (replicate 91 0)) = 104"
proof -
  have "concat (replicate 13 (replicate 7 (0::byte))) = replicate 91 0"
    by (simp add: numeral_eq_Suc)
  then show ?thesis using zero_blocks [of 13] by (simp add: encode_base91_def b91_encode_def)
qed

theorem thirty_six_chunks_refused_witness:
  "encode_chunks (replicate 91 0) demo_meta 0 11 = Inl AeicTextFormatError"
  using thirty_six_chunks_refused [of 11 1 3 "replicate 91 0" demo_meta 0]
  by (simp add: demo_zeros chunk_capacities_def FIRST_HEADER_CHARS_def HEADER_CHARS_def PREFIX_def
      SESSION_ID_CHARS_def INDEX_CHARS_def TOTAL_CHARS_def META_CHARS_def)

end
