(* ===== verification/Media.thy ===== *)
theory Media
  imports TextTransport
begin

text \<open>
  The SAR-compatible voice (VE3, \<open>src/app/voice_protocol.py\<close>) and image (IE4,
  \<open>src/app/image_protocol.py\<close>) protocols: text envelopes, binary fragments, fetch requests and
  acknowledgements, fragmentation and reassembly. Every encoder with its parser is an instance of
  the shared codec locale.
\<close>

section \<open>Shared text fields\<close>

function base36_loop :: "nat \<Rightarrow> string" where
  "base36_loop value = (if value = 0 then [] else base36_loop (value div 36) @ [BASE36 ! (value mod 36)])"
  by pat_completeness auto
termination
  by (relation "measure id") auto

declare base36_loop.simps [simp del]

definition base36_var :: "nat \<Rightarrow> string" where
  "base36_var value = (if value = 0 then ''0'' else base36_loop value)"

text \<open>\<open>int(s, 16)\<close> for a checked hexadecimal string, and \<open>f"{n:08x}"\<close> for \<open>n\<close> below \<open>2 ^ 32\<close>.\<close>

definition hex_int :: "string \<Rightarrow> nat" where
  "hex_int s = foldl (\<lambda>a c. 16 * a + the (hex_val c)) 0 s"

definition hex8 :: "nat \<Rightarrow> string" where
  "hex8 n = hex_of (rev (to_le 4 n))"

definition hex_string :: "nat \<Rightarrow> string \<Rightarrow> bool" where
  "hex_string n s \<longleftrightarrow> length s = n \<and> list_all is_hex s"

definition validate_session_id :: "string \<Rightarrow> string res" where
  "validate_session_id session_id = (if \<not> hex_string 8 session_id then Inl ValueError else Inr (lower session_id))"

definition session_field :: "string \<Rightarrow> bool" where
  "session_field s \<longleftrightarrow> 1 \<le> length s \<and> length s \<le> 7 \<and> list_all re_digit s"

text \<open>\<open>bytes.fromhex\<close> of a string already checked to be hexadecimal.\<close>

definition hex_bytes :: "string \<Rightarrow> bytes" where
  "hex_bytes s = (case fromhex s of Some b \<Rightarrow> b | None \<Rightarrow> [])"

section \<open>Voice\<close>

definition MAX_VOICE_PACKETS :: nat where "MAX_VOICE_PACKETS = 255"
definition MAX_VOICE_PACKET_BYTES :: nat where "MAX_VOICE_PACKET_BYTES = 180"
definition VOICE_PACKET_MAGIC :: nat where "VOICE_PACKET_MAGIC = 0x56"
definition VOICE_FETCH_MAGIC :: nat where "VOICE_FETCH_MAGIC = 0x72"
definition VOICE_ACK_MAGIC :: nat where "VOICE_ACK_MAGIC = 0x76"

datatype VoiceMode = MODE_700C | MODE_1200 | MODE_2400 | MODE_1300 | MODE_1400 | MODE_1600 | MODE_3200

primrec mode_value :: "VoiceMode \<Rightarrow> nat" where
  "mode_value MODE_700C = 0"
| "mode_value MODE_1200 = 1"
| "mode_value MODE_2400 = 2"
| "mode_value MODE_1300 = 3"
| "mode_value MODE_1400 = 4"
| "mode_value MODE_1600 = 5"
| "mode_value MODE_3200 = 6"

definition voice_mode :: "int \<Rightarrow> VoiceMode option" where
  "voice_mode v =
     (if v < 0 \<or> v > 6 then None
      else Some ([MODE_700C, MODE_1200, MODE_2400, MODE_1300, MODE_1400, MODE_1600, MODE_3200] ! nat v))"

primrec MODE_BYTES_PER_SECOND :: "VoiceMode \<Rightarrow> nat" where
  "MODE_BYTES_PER_SECOND MODE_700C = 100"
| "MODE_BYTES_PER_SECOND MODE_1200 = 150"
| "MODE_BYTES_PER_SECOND MODE_2400 = 300"
| "MODE_BYTES_PER_SECOND MODE_1300 = 175"
| "MODE_BYTES_PER_SECOND MODE_1400 = 175"
| "MODE_BYTES_PER_SECOND MODE_1600 = 200"
| "MODE_BYTES_PER_SECOND MODE_3200 = 400"

primrec MODE_PACKET_DURATION_MS :: "VoiceMode \<Rightarrow> nat" where
  "MODE_PACKET_DURATION_MS MODE_700C = 1600"
| "MODE_PACKET_DURATION_MS MODE_1200 = 1040"
| "MODE_PACKET_DURATION_MS MODE_2400 = 520"
| "MODE_PACKET_DURATION_MS MODE_1300 = 880"
| "MODE_PACKET_DURATION_MS MODE_1400 = 880"
| "MODE_PACKET_DURATION_MS MODE_1600 = 800"
| "MODE_PACKET_DURATION_MS MODE_3200 = 400"

definition envelope_duration_seconds :: "int \<Rightarrow> int" where
  "envelope_duration_seconds duration_ms = min 600 (max 0 ((duration_ms + 999) div 1000))"

record VoiceEnvelope =
  ve_session_id :: string
  ve_mode :: VoiceMode
  ve_total :: int
  ve_duration_ms :: int

definition encode_voice_envelope :: "VoiceEnvelope \<Rightarrow> string res" where
  "encode_voice_envelope e =
     bind_res (validate_session_id (ve_session_id e)) (\<lambda>sid.
       if \<not> (1 \<le> ve_total e \<and> ve_total e \<le> int MAX_VOICE_PACKETS) then Inl ValueError
       else
         let duration_s = envelope_duration_seconds (ve_duration_ms e)
         in Inr (''VE3:'' @ base36_var (hex_int sid) @ '':'' @ base36_var (mode_value (ve_mode e)) @ '':''
                 @ base36_var (nat (ve_total e)) @ '':'' @ base36_var (nat duration_s)))"

definition parse_voice_envelope :: "string \<Rightarrow> VoiceEnvelope option" where
  "parse_voice_envelope text =
     (if \<not> starts_with ''VE3:'' text then None
      else
        case split_on (CHR '':'') (drop 4 text) of
          [a, b, c, d] \<Rightarrow>
            if \<not> session_field a then None
            else (case (py_int 36 a, py_int 36 b, py_int 36 c, py_int 36 d) of
                    (Some sid_value, Some mode_val, Some tot, Some duration_s) \<Rightarrow>
                      (case voice_mode mode_val of
                         None \<Rightarrow> None
                       | Some mode \<Rightarrow>
                           if sid_value > 0xFFFFFFFF \<or> \<not> (1 \<le> tot \<and> tot \<le> int MAX_VOICE_PACKETS) then None
                           else if \<not> (0 \<le> duration_s \<and> duration_s \<le> 600) then None
                           else Some \<lparr>ve_session_id = hex8 (nat sid_value), ve_mode = mode, ve_total = tot,
                                      ve_duration_ms = duration_s * 1000\<rparr>)
                  | _ \<Rightarrow> None)
        | _ \<Rightarrow> None)"

record VoicePacket =
  vp_session_id :: string
  vp_index :: int
  vp_codec2_data :: bytes

definition encode_voice_packet :: "VoicePacket \<Rightarrow> bytes res" where
  "encode_voice_packet p =
     bind_res (validate_session_id (vp_session_id p)) (\<lambda>sid.
       if \<not> (0 \<le> vp_index p \<and> vp_index p < int MAX_VOICE_PACKETS) then Inl ValueError
       else if vp_codec2_data p = [] \<or> length (vp_codec2_data p) > MAX_VOICE_PACKET_BYTES - 6 then Inl ValueError
       else Inr (byte_of VOICE_PACKET_MAGIC # hex_bytes sid @ [byte_of (nat (vp_index p))] @ vp_codec2_data p))"

definition parse_voice_packet :: "bytes \<Rightarrow> VoicePacket option" where
  "parse_voice_packet payload =
     (if \<not> (7 \<le> length payload \<and> length payload \<le> MAX_VOICE_PACKET_BYTES)
          \<or> unat (payload ! 0) \<noteq> VOICE_PACKET_MAGIC then None
      else Some \<lparr>vp_session_id = hex_of (slice 1 5 payload), vp_index = int (unat (payload ! 5)),
                 vp_codec2_data = drop 6 payload\<rparr>)"

record FetchRequest =
  fr_session_id :: string
  fr_requester_key6 :: string
  fr_missing_indices :: "int list"

text \<open>The body both fetch requests share; \<open>magic\<close> and the index bound are the protocol's.\<close>

definition encode_fetch_body :: "nat \<Rightarrow> nat \<Rightarrow> FetchRequest \<Rightarrow> bytes res" where
  "encode_fetch_body magic bound r =
     bind_res (validate_session_id (fr_session_id r)) (\<lambda>sid.
       if \<not> hex_string 12 (fr_requester_key6 r) then Inl ValueError
       else
         let missing = sorted_list_of_set (set (fr_missing_indices r))
         in if length missing > bound \<or> \<not> list_all (\<lambda>i. 0 \<le> i \<and> i < int bound) missing then Inl ValueError
            else Inr (byte_of magic # hex_bytes sid @ [if missing \<noteq> [] then 1 else 0]
                      @ hex_bytes (fr_requester_key6 r) @ [byte_of (length missing)]
                      @ map (\<lambda>i. byte_of (nat i)) missing))"

definition encode_voice_fetch :: "FetchRequest \<Rightarrow> bytes res" where
  "encode_voice_fetch r = encode_fetch_body VOICE_FETCH_MAGIC MAX_VOICE_PACKETS r"

definition parse_voice_fetch :: "bytes \<Rightarrow> FetchRequest option" where
  "parse_voice_fetch payload =
     (if length payload < 13 \<or> unat (payload ! 0) \<noteq> VOICE_FETCH_MAGIC then None
      else
        let count = unat (payload ! 12); flags = unat (payload ! 5)
        in if length payload \<noteq> 13 + count then None
           else if flags \<noteq> 0 \<and> flags \<noteq> 1 then None
           else
             let missing = (if flags AND 1 \<noteq> 0 then map (\<lambda>b. int (unat b)) (drop 13 payload) else [])
             in if \<not> distinct missing then None
                else Some \<lparr>fr_session_id = hex_of (slice 1 5 payload),
                           fr_requester_key6 = hex_of (slice 6 12 payload), fr_missing_indices = missing\<rparr>)"

definition encode_fragment_ack :: "string \<times> int \<Rightarrow> bytes res" where
  "encode_fragment_ack a =
     (case a of (session_id, index) \<Rightarrow>
        if \<not> (0 \<le> index \<and> index < int MAX_VOICE_PACKETS) then Inl ValueError
        else bind_res (validate_session_id session_id) (\<lambda>sid.
               Inr (byte_of VOICE_ACK_MAGIC # hex_bytes sid @ [byte_of (nat index)])))"

definition parse_fragment_ack :: "bytes \<Rightarrow> (string \<times> int) option" where
  "parse_fragment_ack payload =
     (if length payload \<noteq> 6 \<or> unat (payload ! 0) \<noteq> VOICE_ACK_MAGIC then None
      else Some (hex_of (slice 1 5 payload), int (unat (payload ! 5))))"

definition fragment_codec2 :: "string \<Rightarrow> bytes \<Rightarrow> VoiceMode \<Rightarrow> VoicePacket list res" where
  "fragment_codec2 session_id encoded mode =
     (let bytes_per_packet = MODE_BYTES_PER_SECOND mode * MODE_PACKET_DURATION_MS mode div 1000;
          packets = map (\<lambda>(i, d). \<lparr>vp_session_id = session_id, vp_index = int i, vp_codec2_data = d\<rparr>)
                      (enumerate 0 (chunks bytes_per_packet encoded))
      in if packets = [] \<or> length packets > MAX_VOICE_PACKETS then Inl ValueError else Inr packets)"

section \<open>Images\<close>

definition MAX_IMAGE_FRAGMENTS :: nat where "MAX_IMAGE_FRAGMENTS = 255"
definition MAX_IMAGE_FRAGMENT_BYTES :: nat where "MAX_IMAGE_FRAGMENT_BYTES = 152"
definition MAX_ENCODED_IMAGE_BYTES :: nat where
  "MAX_ENCODED_IMAGE_BYTES = MAX_IMAGE_FRAGMENTS * MAX_IMAGE_FRAGMENT_BYTES"
definition IMAGE_PACKET_MAGIC :: nat where "IMAGE_PACKET_MAGIC = 0x49"
definition IMAGE_FETCH_MAGIC :: nat where "IMAGE_FETCH_MAGIC = 0x69"

datatype ImageFormat = AVIF | JPEG

primrec format_value :: "ImageFormat \<Rightarrow> nat" where
  "format_value AVIF = 0"
| "format_value JPEG = 1"

definition image_format :: "int \<Rightarrow> ImageFormat option" where
  "image_format v = (if v = 0 then Some AVIF else if v = 1 then Some JPEG else None)"

record ImageEnvelope =
  ie_session_id :: string
  ie_format :: ImageFormat
  ie_total :: int
  ie_width :: int
  ie_height :: int
  ie_size_bytes :: int

definition image_envelope_valid :: "ImageEnvelope \<Rightarrow> bool" where
  "image_envelope_valid e \<longleftrightarrow>
     hex_string 8 (ie_session_id e) \<and> 1 \<le> ie_total e \<and> ie_total e \<le> int MAX_IMAGE_FRAGMENTS
     \<and> 1 \<le> ie_width e \<and> ie_width e \<le> 256 \<and> 1 \<le> ie_height e \<and> ie_height e \<le> 256
     \<and> 1 \<le> ie_size_bytes e \<and> ie_size_bytes e \<le> int MAX_ENCODED_IMAGE_BYTES
     \<and> ie_total e = (ie_size_bytes e + int MAX_IMAGE_FRAGMENT_BYTES - 1) div int MAX_IMAGE_FRAGMENT_BYTES"

definition encode_image_envelope :: "ImageEnvelope \<Rightarrow> string res" where
  "encode_image_envelope e =
     (if \<not> image_envelope_valid e then Inl ValueError
      else Inr (''IE4:'' @ base36_var (hex_int (ie_session_id e)) @ '':'' @ base36_var (format_value (ie_format e)) @ '':''
                @ base36_var (nat (ie_total e)) @ '':'' @ base36_var (nat (ie_width e)) @ '':''
                @ base36_var (nat (ie_height e)) @ '':'' @ base36_var (nat (ie_size_bytes e))))"

definition parse_image_envelope :: "string \<Rightarrow> ImageEnvelope option" where
  "parse_image_envelope text =
     (if \<not> starts_with ''IE4:'' text then None
      else
        case split_on (CHR '':'') (drop 4 text) of
          [a, b, c, d, e, f] \<Rightarrow>
            if \<not> session_field a then None
            else (case (py_int 36 a, py_int 36 b, py_int 36 c, py_int 36 d, py_int 36 e, py_int 36 f) of
                    (Some sid, Some format_id, Some tot, Some width, Some height, Some size_bytes) \<Rightarrow>
                      (case image_format format_id of
                         None \<Rightarrow> None
                       | Some fmt \<Rightarrow>
                           if sid > 0xFFFFFFFF then None
                           else
                             let env = \<lparr>ie_session_id = hex8 (nat sid), ie_format = fmt, ie_total = tot,
                                        ie_width = width, ie_height = height, ie_size_bytes = size_bytes\<rparr>
                             in if \<not> image_envelope_valid env then None else Some env)
                  | _ \<Rightarrow> None)
        | _ \<Rightarrow> None)"

record ImagePacket =
  ip_session_id :: string
  ip_index :: int
  ip_data :: bytes

definition encode_image_packet :: "ImagePacket \<Rightarrow> bytes res" where
  "encode_image_packet p =
     bind_res (validate_session_id (ip_session_id p)) (\<lambda>sid.
       if \<not> (0 \<le> ip_index p \<and> ip_index p < int MAX_IMAGE_FRAGMENTS) then Inl ValueError
       else if \<not> (1 \<le> length (ip_data p) \<and> length (ip_data p) \<le> MAX_IMAGE_FRAGMENT_BYTES) then Inl ValueError
       else Inr (byte_of IMAGE_PACKET_MAGIC # hex_bytes sid @ [byte_of (nat (ip_index p))] @ ip_data p))"

definition parse_image_packet :: "bytes \<Rightarrow> ImagePacket option" where
  "parse_image_packet payload =
     (if \<not> (7 \<le> length payload \<and> length payload \<le> 6 + MAX_IMAGE_FRAGMENT_BYTES) then None
      else if unat (payload ! 0) \<noteq> IMAGE_PACKET_MAGIC then None
      else Some \<lparr>ip_session_id = hex_of (slice 1 5 payload), ip_index = int (unat (payload ! 5)),
                 ip_data = drop 6 payload\<rparr>)"

definition encode_image_fetch :: "FetchRequest \<Rightarrow> bytes res" where
  "encode_image_fetch r = encode_fetch_body IMAGE_FETCH_MAGIC MAX_IMAGE_FRAGMENTS r"

definition parse_image_fetch :: "bytes \<Rightarrow> FetchRequest option" where
  "parse_image_fetch payload =
     (if length payload < 13 \<or> unat (payload ! 0) \<noteq> IMAGE_FETCH_MAGIC then None
      else
        let count = unat (payload ! 12); flags = unat (payload ! 5)
        in if length payload \<noteq> 13 + count \<or> (flags \<noteq> 0 \<and> flags \<noteq> 1) then None
           else if flags = 0 \<and> count \<noteq> 0 then None
           else
             let missing = (if flags AND 1 \<noteq> 0 then map (\<lambda>b. int (unat b)) (drop 13 payload) else [])
             in if \<not> distinct missing then None
                else Some \<lparr>fr_session_id = hex_of (slice 1 5 payload),
                           fr_requester_key6 = hex_of (slice 6 12 payload), fr_missing_indices = missing\<rparr>)"

definition fragment_image :: "string \<Rightarrow> bytes \<Rightarrow> ImagePacket list res" where
  "fragment_image session_id encoded =
     (if \<not> (1 \<le> length encoded \<and> length encoded \<le> MAX_ENCODED_IMAGE_BYTES) then Inl ValueError
      else
        let packets = map (\<lambda>(i, d). \<lparr>ip_session_id = session_id, ip_index = int i, ip_data = d\<rparr>)
                        (enumerate 0 (chunks MAX_IMAGE_FRAGMENT_BYTES encoded))
        in if length packets > MAX_IMAGE_FRAGMENTS then Inl ValueError else Inr packets)"

text \<open>The dict comprehension keeps the last packet of an index.\<close>

definition reassemble_image :: "ImagePacket list \<Rightarrow> nat \<Rightarrow> bytes option" where
  "reassemble_image packets tot =
     (let by_index = map_of (map (\<lambda>p. (ip_index p, ip_data p)) (rev packets));
          n = card (set (map ip_index packets))
      in if n \<noteq> tot \<or> \<not> list_all (\<lambda>i. by_index (int i) \<noteq> None) [0..<tot] then None
         else Some (concat (map (\<lambda>i. the (by_index (int i))) [0..<tot])))"

section \<open>Text fields\<close>

definition digits36 :: "string \<Rightarrow> bool" where
  "digits36 s \<longleftrightarrow> list_all (\<lambda>c. \<exists>d < 36. c = BASE36 ! d) s"

lemma digits36_char:
  assumes "digits36 s" "c \<in> set s"
  shows "\<not> py_space c" "c \<noteq> CHR ''-''" "c \<noteq> CHR ''+''" "c \<noteq> CHR ''_''" "re_digit c" "digit_val 36 c \<noteq> None"
proof -
  obtain d where "d < 36" "c = BASE36 ! d" using assms by (auto simp: digits36_def list_all_iff)
  then show "\<not> py_space c" "c \<noteq> CHR ''-''" "c \<noteq> CHR ''+''" "c \<noteq> CHR ''_''" "re_digit c" "digit_val 36 c \<noteq> None"
    using base36_char [of d] by simp_all
qed

lemma base36_no_colon: "d < 36 \<Longrightarrow> BASE36 ! d \<noteq> CHR '':''"
  using base36_char(1) [of d] by (auto simp: digit_val_def)

lemma digits_val_digits36:
  "digits36 s \<Longrightarrow> digits_val 36 acc s = Some (foldl (\<lambda>a c. a * 36 + the (digit_val 36 c)) acc s)"
proof (induction s arbitrary: acc)
  case (Cons c s)
  then show ?case using digits36_char [OF Cons.prems, of c] by (auto simp: digits36_def)
qed simp

lemma strip_no_space: "(\<And>c. c \<in> set s \<Longrightarrow> \<not> py_space c) \<Longrightarrow> strip s = s"
  unfolding strip_def
  by (metis dropWhile_eq_self_iff hd_in_set rev_rev_ident set_rev)

lemma py_int_digits36:
  assumes "digits36 s" "s \<noteq> []"
  shows "py_int 36 s = Some (int (foldl (\<lambda>a c. a * 36 + the (digit_val 36 c)) 0 s))"
proof -
  obtain c cs where s: "s = c # cs" using assms(2) by (cases s) auto
  have "strip s = s" using digits36_char(1) [OF assms(1)] by (rule strip_no_space)
  moreover have "digits36 cs" using assms(1) by (simp add: s digits36_def)
  ultimately show ?thesis using digits36_char [OF assms(1), of c] digits_val_digits36 [of cs]
    by (auto simp: py_int_def nat_text_def s)
qed

lemma base36_loop_digits: "digits36 (base36_loop n)"
proof (induction n rule: base36_loop.induct)
  case (1 n)
  have "\<exists>d < 36. BASE36 ! (n mod 36) = BASE36 ! d" by (rule exI [of _ "n mod 36"]) simp
  then show ?case using 1 by (subst base36_loop.simps) (simp add: digits36_def)
qed

lemma base36_loop_value: "foldl (\<lambda>a c. a * 36 + the (digit_val 36 c)) 0 (base36_loop n) = n"
proof (induction n rule: base36_loop.induct)
  case (1 n)
  then show ?case by (cases "n = 0"; subst base36_loop.simps) (simp_all add: base36_char)
qed

lemma base36_loop_length: "n < 36 ^ k \<Longrightarrow> length (base36_loop n) \<le> k"
proof (induction k arbitrary: n)
  case 0
  then show ?case by (subst base36_loop.simps) simp
next
  case (Suc k)
  then have "n div 36 < 36 ^ k" by (simp add: div_less_iff_less_mult mult.commute)
  then show ?case using Suc.IH by (subst base36_loop.simps) simp
qed

lemma base36_var_facts:
  shows "digits36 (base36_var n)" "base36_var n \<noteq> []" "py_int 36 (base36_var n) = Some (int n)"
    and "CHR '':'' \<notin> set (base36_var n)"
proof -
  have z: "digits36 ''0''" using base36_char by (auto simp: digits36_def BASE36_def intro!: exI [of _ 0])
  show d: "digits36 (base36_var n)" using z base36_loop_digits by (simp add: base36_var_def)
  show ne: "base36_var n \<noteq> []" by (cases "n = 0") (simp_all add: base36_var_def base36_loop.simps [of n])
  have "digit_val 36 (CHR ''0'') = Some 0" by (simp add: digit_val_def)
  then show "py_int 36 (base36_var n) = Some (int n)"
    unfolding py_int_digits36 [OF d ne] using base36_loop_value [of n] by (simp add: base36_var_def)
  show "CHR '':'' \<notin> set (base36_var n)" using d base36_no_colon by (fastforce simp: digits36_def list_all_iff)
qed

lemma session_field_base36: "n < 2 ^ 32 \<Longrightarrow> session_field (base36_var n)"
proof -
  assume n: "n < 2 ^ 32"
  have "length (base36_var n) \<le> 7" using base36_loop_length [of n 7] n by (simp add: base36_var_def)
  moreover have "1 \<le> length (base36_var n)" using base36_var_facts(2) [of n] by (cases "base36_var n") auto
  moreover have "list_all re_digit (base36_var n)"
    using digits36_char(5) [OF base36_var_facts(1)] by (auto simp: list_all_iff)
  ultimately show ?thesis by (simp add: session_field_def)
qed

section \<open>Hexadecimal fields\<close>

lemma hex_val_lower: "is_hex c \<Longrightarrow> hex_val (lower_char c) = hex_val c \<and> is_hex (lower_char c) \<and> \<not> ascii_space c"
  by (auto simp: is_hex_def hex_val_def lower_char_def ascii_space_def Let_def split: if_splits)

lemma hex_digit_char: "v < 16 \<Longrightarrow> hex_digit v = char_of (if v < 10 then 48 + v else 87 + v)"
proof -
  have "list_all (\<lambda>v. ''0123456789abcdef'' ! v = char_of (if v < 10 then 48 + v else 87 + v)) [0..<16]"
    by (simp add: upt_conv_Cons char_of_def bit_0)
  then show "v < 16 \<Longrightarrow> hex_digit v = char_of (if v < 10 then 48 + v else 87 + v)"
    by (simp add: hex_digit_def list_all_iff)
qed

lemma is_hex_lower_digit: "is_hex c \<Longrightarrow> lower_char c = hex_digit (the (hex_val c)) \<and> the (hex_val c) < 16"
proof -
  assume h: "is_hex c"
  define n where "n = (of_char c :: nat)"
  have c: "c = char_of n" by (simp add: n_def)
  have "48 \<le> n \<and> n \<le> 57 \<or> 97 \<le> n \<and> n \<le> 102 \<or> 65 \<le> n \<and> n \<le> 70"
    using h by (auto simp: is_hex_def hex_val_def Let_def n_def split: if_splits)
  then show ?thesis
    by (elim disjE) (auto simp: hex_val_def lower_char_def hex_digit_char Let_def c [symmetric] simp flip: n_def)
qed

lemma hex_string_pairs:
  assumes "hex_string (2 * n) s"
  shows "\<exists>bs. length bs = n \<and> fromhex s = Some bs \<and> hex_of bs = lower s
    \<and> (\<forall>acc. foldl (\<lambda>a c. 16 * a + the (hex_val c)) acc s = foldl (\<lambda>a b. 256 * a + unat b) acc bs)
    \<and> (\<forall>acc. foldl (\<lambda>a c. 16 * a + the (hex_val c)) acc (lower s) = foldl (\<lambda>a b. 256 * a + unat b) acc bs)"
  using assms
proof (induction n arbitrary: s)
  case 0
  then show ?case by (simp add: hex_string_def lower_def)
next
  case (Suc n)
  then obtain c d t where s: "s = c # d # t" and h: "is_hex c" "is_hex d" "hex_string (2 * n) t"
    by (auto simp: hex_string_def length_Suc_conv)
  from Suc.IH [OF h(3)] obtain bs where bs: "length bs = n" "fromhex t = Some bs" "hex_of bs = lower t"
    "\<And>acc. foldl (\<lambda>a c. 16 * a + the (hex_val c)) acc t = foldl (\<lambda>a b. 256 * a + unat b) acc bs"
    "\<And>acc. foldl (\<lambda>a c. 16 * a + the (hex_val c)) acc (lower t) = foldl (\<lambda>a b. 256 * a + unat b) acc bs" by blast
  obtain x y where xy: "hex_val c = Some x" "hex_val d = Some y" using h by (auto simp: is_hex_def)
  have lc: "lower_char c = hex_digit x" "lower_char d = hex_digit y" "x < 16" "y < 16"
    using is_hex_lower_digit [OF h(1)] is_hex_lower_digit [OF h(2)] xy by simp_all
  have "fromhex s = Some (byte_of (16 * x + y) # bs)"
    using bs xy hex_val_lower [OF h(1)] by (simp add: s)
  moreover have hx: "hex_of (byte_of (16 * x + y) # bs) = lower s"
    using bs(3) lc by (simp add: s lower_def hex_byte_def)
  moreover have "foldl (\<lambda>a c. 16 * a + the (hex_val c)) acc s = foldl (\<lambda>a b. 256 * a + unat b) acc (byte_of (16 * x + y) # bs)"
    "foldl (\<lambda>a c. 16 * a + the (hex_val c)) acc (lower s) = foldl (\<lambda>a b. 256 * a + unat b) acc (byte_of (16 * x + y) # bs)" for acc
    using bs(4,5) xy lc hex_val_lower [OF h(1)] hex_val_lower [OF h(2)] by (simp_all add: s lower_def algebra_simps)
  ultimately show ?case using bs(1) by (intro exI [of _ "byte_of (16 * x + y) # bs"]) simp
qed

lemma foldl_be: "foldl (\<lambda>a b. 256 * a + unat b) 0 bs = from_le (rev bs)"
  by (induction bs rule: rev_induct) simp_all

lemma hex_bytes_of: "hex_bytes (hex_of bs) = bs"
  by (simp add: hex_bytes_def)

lemma validate_session:
  assumes "validate_session_id sid = Inr s"
  obtains bs where "length bs = 4" "s = hex_of bs" "lower sid = hex_of bs" "hex_bytes s = bs"
    "hex_int sid = from_le (rev bs)" "hex_int s = from_le (rev bs)"
proof -
  have h: "hex_string (2 * 4) sid" "s = lower sid" using assms by (auto simp: validate_session_id_def split: if_splits)
  from hex_string_pairs [OF h(1)] obtain bs where "length bs = 4" "hex_of bs = lower sid"
    "\<And>acc. foldl (\<lambda>a c. 16 * a + the (hex_val c)) acc sid = foldl (\<lambda>a b. 256 * a + unat b) acc bs"
    "\<And>acc. foldl (\<lambda>a c. 16 * a + the (hex_val c)) acc (lower sid) = foldl (\<lambda>a b. 256 * a + unat b) acc bs" by blast
  then show thesis using that [of bs] h(2) foldl_be [of bs] by (simp add: hex_int_def hex_bytes_of flip: \<open>hex_of bs = lower sid\<close>)
qed

lemma hex8_from: "length bs = 4 \<Longrightarrow> hex8 (from_le (rev bs)) = hex_of bs \<and> from_le (rev bs) < 2 ^ 32"
  using to_le_from_le [of "rev bs"] from_le_less [of "rev bs"] by (simp add: hex8_def)

lemma hex_bytes_12:
  assumes "hex_string 12 k"
  shows "length (hex_bytes k) = 6" "hex_of (hex_bytes k) = lower k"
  using hex_string_pairs [of 6 k] assms by (auto simp: hex_bytes_def)

section \<open>Codecs\<close>

lemma fields_split:
  "CHR '':'' \<notin> set a \<Longrightarrow> split_on (CHR '':'') (a @ '':'' @ rest) = a # split_on (CHR '':'') rest"
  using split_on_append [of "CHR '':''" a rest] by simp

lemmas media_magic = VOICE_PACKET_MAGIC_def VOICE_FETCH_MAGIC_def VOICE_ACK_MAGIC_def
  IMAGE_PACKET_MAGIC_def IMAGE_FETCH_MAGIC_def
lemmas media_bounds = MAX_VOICE_PACKETS_def MAX_VOICE_PACKET_BYTES_def MAX_IMAGE_FRAGMENTS_def MAX_IMAGE_FRAGMENT_BYTES_def

lemma voice_mode_value: "voice_mode (int (mode_value m)) = Some m"
  by (cases m) (simp_all add: voice_mode_def)

lemma image_format_value: "image_format (int (format_value f)) = Some f"
  by (cases f) (simp_all add: image_format_def)

definition canon_voice_envelope :: "VoiceEnvelope \<Rightarrow> VoiceEnvelope" where
  "canon_voice_envelope e = e\<lparr>ve_session_id := lower (ve_session_id e),
     ve_duration_ms := envelope_duration_seconds (ve_duration_ms e) * 1000\<rparr>"

interpretation voice_envelope: wire_codec encode_voice_envelope parse_voice_envelope canon_voice_envelope "\<lambda>_. True"
proof (unfold_locales, goal_cases)
  case (1 e t)
  then obtain s where s: "validate_session_id (ve_session_id e) = Inr s"
    and g: "1 \<le> ve_total e" "ve_total e \<le> 255"
    and t: "t = ''VE3:'' @ base36_var (hex_int s) @ '':'' @ base36_var (mode_value (ve_mode e)) @ '':''
                 @ base36_var (nat (ve_total e)) @ '':'' @ base36_var (nat (envelope_duration_seconds (ve_duration_ms e)))"
    by (auto simp: encode_voice_envelope_def bind_res_Inr Let_def MAX_VOICE_PACKETS_def)
  from validate_session [OF s] obtain bs where b: "length bs = 4" "lower (ve_session_id e) = hex_of bs"
    "hex_int s = from_le (rev bs)" by metis
  note h = hex8_from [OF b(1)]
  have d: "0 \<le> envelope_duration_seconds (ve_duration_ms e)" "envelope_duration_seconds (ve_duration_ms e) \<le> 600"
    by (simp_all add: envelope_duration_seconds_def)
  have "drop 4 t = base36_var (hex_int s) @ '':'' @ base36_var (mode_value (ve_mode e)) @ '':''
      @ base36_var (nat (ve_total e)) @ '':'' @ base36_var (nat (envelope_duration_seconds (ve_duration_ms e)))"
    by (simp add: t)
  then have sp: "split_on (CHR '':'') (drop 4 t) = [base36_var (hex_int s), base36_var (mode_value (ve_mode e)),
      base36_var (nat (ve_total e)), base36_var (nat (envelope_duration_seconds (ve_duration_ms e)))]"
    by (simp only: fields_split [OF base36_var_facts(4)] split_on_no_sep [OF base36_var_facts(4)])
  have "starts_with ''VE3:'' t" by (simp add: t starts_with_def)
  moreover have "session_field (base36_var (hex_int s))" using h b(3) session_field_base36 by simp
  moreover have "int (hex_int s) \<le> 0xFFFFFFFF" using h b(3) by simp
  ultimately show ?case using g d h b
    unfolding parse_voice_envelope_def sp
    by (simp add: base36_var_facts(3) voice_mode_value MAX_VOICE_PACKETS_def canon_voice_envelope_def)
qed

definition canon_voice_packet :: "VoicePacket \<Rightarrow> VoicePacket" where
  "canon_voice_packet p = p\<lparr>vp_session_id := lower (vp_session_id p)\<rparr>"

definition canon_image_packet :: "ImagePacket \<Rightarrow> ImagePacket" where
  "canon_image_packet p = p\<lparr>ip_session_id := lower (ip_session_id p)\<rparr>"

text \<open>The layout magic, four session bytes, one index byte, body.\<close>

lemma header5: "length bs = 4 \<Longrightarrow> slice 1 5 (m # bs @ i # body) = bs \<and> (m # bs @ i # body) ! 5 = i
    \<and> drop 6 (m # bs @ i # body) = body"
  by (simp add: slice_def nth_append)

interpretation voice_packet: wire_codec encode_voice_packet parse_voice_packet canon_voice_packet "\<lambda>_. True"
proof (unfold_locales, goal_cases)
  case (1 p t)
  then obtain s where s: "validate_session_id (vp_session_id p) = Inr s"
    and g: "0 \<le> vp_index p" "vp_index p < 255" "vp_codec2_data p \<noteq> []" "length (vp_codec2_data p) \<le> 174"
    and t: "t = byte_of VOICE_PACKET_MAGIC # hex_bytes s @ byte_of (nat (vp_index p)) # vp_codec2_data p"
    by (auto simp: encode_voice_packet_def bind_res_Inr media_bounds)
  from validate_session [OF s] obtain bs where b: "length bs = 4" "lower (vp_session_id p) = hex_of bs" "hex_bytes s = bs" by metis
  have "1 \<le> length (vp_codec2_data p)" using g(3) by (cases "vp_codec2_data p") auto
  then show ?case using g header5 [OF b(1)] b
    by (simp add: parse_voice_packet_def t media_magic media_bounds canon_voice_packet_def)
qed

interpretation image_packet: wire_codec encode_image_packet parse_image_packet canon_image_packet "\<lambda>_. True"
proof (unfold_locales, goal_cases)
  case (1 p t)
  then obtain s where s: "validate_session_id (ip_session_id p) = Inr s"
    and g: "0 \<le> ip_index p" "ip_index p < 255" "1 \<le> length (ip_data p)" "length (ip_data p) \<le> 152"
    and t: "t = byte_of IMAGE_PACKET_MAGIC # hex_bytes s @ byte_of (nat (ip_index p)) # ip_data p"
    by (auto simp: encode_image_packet_def bind_res_Inr media_bounds)
  from validate_session [OF s] obtain bs where b: "length bs = 4" "lower (ip_session_id p) = hex_of bs" "hex_bytes s = bs" by metis
  then show ?case using g header5 [OF b(1)]
    by (simp add: parse_image_packet_def t media_magic media_bounds canon_image_packet_def)
qed

definition canon_ack :: "string \<times> int \<Rightarrow> string \<times> int" where
  "canon_ack a = (lower (fst a), snd a)"

interpretation fragment_ack: wire_codec encode_fragment_ack parse_fragment_ack canon_ack "\<lambda>_. True"
proof (unfold_locales, goal_cases)
  case (1 a t)
  obtain sid i where a: "a = (sid, i)" by (cases a)
  with 1 obtain s where s: "validate_session_id sid = Inr s" and g: "0 \<le> i" "i < 255"
    and t: "t = byte_of VOICE_ACK_MAGIC # hex_bytes s @ [byte_of (nat i)]"
    by (auto simp: encode_fragment_ack_def bind_res_Inr media_bounds split: if_splits)
  from validate_session [OF s] obtain bs where b: "length bs = 4" "lower sid = hex_of bs" "hex_bytes s = bs" by metis
  then show ?case using g header5 [OF b(1), of "byte_of VOICE_ACK_MAGIC" "byte_of (nat i)" "[]"]
    by (simp add: parse_fragment_ack_def t media_magic canon_ack_def a)
qed

definition canon_fetch :: "FetchRequest \<Rightarrow> FetchRequest" where
  "canon_fetch r = \<lparr>fr_session_id = lower (fr_session_id r), fr_requester_key6 = lower (fr_requester_key6 r),
     fr_missing_indices = sorted_list_of_set (set (fr_missing_indices r))\<rparr>"

lemma fetch_layout:
  assumes "encode_fetch_body magic 255 r = Inr t"
  obtains bs ks where "length bs = 4" "length ks = 6" "lower (fr_session_id r) = hex_of bs" "lower (fr_requester_key6 r) = hex_of ks"
    "t = byte_of magic # bs @ [if sorted_list_of_set (set (fr_missing_indices r)) \<noteq> [] then 1 else 0] @ ks
       @ [byte_of (length (sorted_list_of_set (set (fr_missing_indices r))))]
       @ map (\<lambda>i. byte_of (nat i)) (sorted_list_of_set (set (fr_missing_indices r)))"
    "length (sorted_list_of_set (set (fr_missing_indices r))) \<le> 255"
    "list_all (\<lambda>i. 0 \<le> i \<and> i < 255) (sorted_list_of_set (set (fr_missing_indices r)))"
proof -
  obtain s where s: "validate_session_id (fr_session_id r) = Inr s" and k: "hex_string 12 (fr_requester_key6 r)"
    and t: "t = byte_of magic # hex_bytes s @ [if sorted_list_of_set (set (fr_missing_indices r)) \<noteq> [] then 1 else 0]
       @ hex_bytes (fr_requester_key6 r)
       @ [byte_of (length (sorted_list_of_set (set (fr_missing_indices r))))]
       @ map (\<lambda>i. byte_of (nat i)) (sorted_list_of_set (set (fr_missing_indices r)))"
    and m: "length (sorted_list_of_set (set (fr_missing_indices r))) \<le> 255"
    "list_all (\<lambda>i. 0 \<le> i \<and> i < 255) (sorted_list_of_set (set (fr_missing_indices r)))"
    using assms unfolding encode_fetch_body_def bind_res_Inr Let_def by (auto simp del: sorted_list_of_set_eq_Nil_iff)
  from validate_session [OF s] obtain bs where b: "length bs = 4" "lower (fr_session_id r) = hex_of bs" "hex_bytes s = bs" by metis
  show thesis using that [OF b(1) hex_bytes_12(1) [OF k] b(2) _ _ m] hex_bytes_12(2) [OF k] t b(3) by simp
qed

text \<open>The parsers read that layout back.\<close>

lemma fetch_fields:
  fixes m f :: byte
  assumes "length bs = 4" "length ks = 6" "n = length ms" "n \<le> 255" "list_all (\<lambda>i. 0 \<le> i \<and> i < 255) ms" "distinct ms"
  defines "t \<equiv> m # bs @ [f] @ ks @ [byte_of n] @ map (\<lambda>i. byte_of (nat i)) ms"
  shows "slice 1 5 t = bs" "t ! 5 = f" "slice 6 12 t = ks" "unat (t ! 12) = n" "length t = 13 + n" "t ! 0 = m"
    "map (\<lambda>b. int (unat b)) (drop 13 t) = ms"
proof -
  show "slice 1 5 t = bs" "t ! 5 = f" using header5 [OF assms(1)] by (simp_all add: t_def)
  have t2: "t = (m # bs @ [f]) @ ks @ [byte_of n] @ map (\<lambda>i. byte_of (nat i)) ms" by (simp add: t_def)
  have l: "length (m # bs @ [f]) = 6" using assms(1) by simp
  show "slice 6 12 t = ks" unfolding t2 using l assms(2) by (simp add: slice_def)
  have t3: "t = (m # bs @ [f] @ ks) @ [byte_of n] @ map (\<lambda>i. byte_of (nat i)) ms" by (simp add: t_def)
  have l3: "length (m # bs @ [f] @ ks) = 12" using assms(1,2) by simp
  have "t ! 12 = byte_of n" unfolding t3 using l3 by (metis append_Cons nth_append_length)
  then show "unat (t ! 12) = n" using assms(4) by simp
  show "length t = 13 + n" "t ! 0 = m" using assms(1-3) by (simp_all add: t_def)
  have "drop 13 t = map (\<lambda>i. byte_of (nat i)) ms"
  proof -
    have "drop (length pre) (pre @ post) = post" for pre post :: bytes by simp
    from this [of "m # bs @ [f] @ ks @ [byte_of n]" "map (\<lambda>i. byte_of (nat i)) ms"] show ?thesis
      using assms(1,2) by (simp add: t_def)
  qed
  moreover have "map (\<lambda>i. int (unat (byte_of (nat i)))) ms = ms" unfolding unat_byte_of
    by (rule map_idI) (use assms(5) in \<open>auto simp: list_all_iff\<close>)
  ultimately show "map (\<lambda>b. int (unat b)) (drop 13 t) = ms" by (simp only: map_map comp_def)
qed

interpretation voice_fetch: wire_codec encode_voice_fetch parse_voice_fetch canon_fetch "\<lambda>_. True"
proof (unfold_locales, goal_cases)
  case (1 r t)
  define ms where "ms = sorted_list_of_set (set (fr_missing_indices r))"
  obtain bs ks where b: "length bs = 4" "length ks = 6" "lower (fr_session_id r) = hex_of bs"
    "lower (fr_requester_key6 r) = hex_of ks"
    and t: "t = byte_of VOICE_FETCH_MAGIC # bs @ [if ms \<noteq> [] then 1 else 0] @ ks @ [byte_of (length ms)]
       @ map (\<lambda>i. byte_of (nat i)) ms"
    and m: "length ms \<le> 255" "list_all (\<lambda>i. 0 \<le> i \<and> i < 255) ms"
    by (rule fetch_layout [OF 1(2) [unfolded encode_voice_fetch_def MAX_VOICE_PACKETS_def], folded ms_def])
  have "distinct ms" by (simp add: ms_def)
  note F = fetch_fields [OF b(1,2) refl m this, of "byte_of VOICE_FETCH_MAGIC" "if ms \<noteq> [] then 1 else 0", folded t]
  show ?case
    using F b(3,4) \<open>distinct ms\<close> by (cases "ms = []") (simp_all add: parse_voice_fetch_def Let_def media_magic canon_fetch_def flip: ms_def)
qed

interpretation image_fetch: wire_codec encode_image_fetch parse_image_fetch canon_fetch "\<lambda>_. True"
proof (unfold_locales, goal_cases)
  case (1 r t)
  define ms where "ms = sorted_list_of_set (set (fr_missing_indices r))"
  obtain bs ks where b: "length bs = 4" "length ks = 6" "lower (fr_session_id r) = hex_of bs"
    "lower (fr_requester_key6 r) = hex_of ks"
    and t: "t = byte_of IMAGE_FETCH_MAGIC # bs @ [if ms \<noteq> [] then 1 else 0] @ ks @ [byte_of (length ms)]
       @ map (\<lambda>i. byte_of (nat i)) ms"
    and m: "length ms \<le> 255" "list_all (\<lambda>i. 0 \<le> i \<and> i < 255) ms"
    by (rule fetch_layout [OF 1(2) [unfolded encode_image_fetch_def MAX_IMAGE_FRAGMENTS_def], folded ms_def])
  have "distinct ms" by (simp add: ms_def)
  note F = fetch_fields [OF b(1,2) refl m this, of "byte_of IMAGE_FETCH_MAGIC" "if ms \<noteq> [] then 1 else 0", folded t]
  show ?case
    using F b(3,4) \<open>distinct ms\<close> by (cases "ms = []") (simp_all add: parse_image_fetch_def Let_def media_magic canon_fetch_def flip: ms_def)
qed

definition canon_image_envelope :: "ImageEnvelope \<Rightarrow> ImageEnvelope" where
  "canon_image_envelope e = e\<lparr>ie_session_id := lower (ie_session_id e)\<rparr>"

interpretation image_envelope: wire_codec encode_image_envelope parse_image_envelope canon_image_envelope "\<lambda>_. True"
proof (unfold_locales, goal_cases)
  case (1 e t)
  then have v: "image_envelope_valid e"
    and t: "t = ''IE4:'' @ base36_var (hex_int (ie_session_id e)) @ '':'' @ base36_var (format_value (ie_format e)) @ '':''
                @ base36_var (nat (ie_total e)) @ '':'' @ base36_var (nat (ie_width e)) @ '':''
                @ base36_var (nat (ie_height e)) @ '':'' @ base36_var (nat (ie_size_bytes e))"
    by (auto simp: encode_image_envelope_def split: if_splits)
  have "hex_string 8 (ie_session_id e)" using v by (simp add: image_envelope_valid_def)
  then have "validate_session_id (ie_session_id e) = Inr (lower (ie_session_id e))" by (simp add: validate_session_id_def)
  from validate_session [OF this] obtain bs where b: "length bs = 4" "lower (ie_session_id e) = hex_of bs"
    "hex_int (ie_session_id e) = from_le (rev bs)" by metis
  note h = hex8_from [OF b(1)]
  have "drop 4 t = base36_var (hex_int (ie_session_id e)) @ '':'' @ base36_var (format_value (ie_format e)) @ '':''
                @ base36_var (nat (ie_total e)) @ '':'' @ base36_var (nat (ie_width e)) @ '':''
                @ base36_var (nat (ie_height e)) @ '':'' @ base36_var (nat (ie_size_bytes e))"
    by (simp add: t)
  then have sp: "split_on (CHR '':'') (drop 4 t) = [base36_var (hex_int (ie_session_id e)), base36_var (format_value (ie_format e)),
      base36_var (nat (ie_total e)), base36_var (nat (ie_width e)), base36_var (nat (ie_height e)), base36_var (nat (ie_size_bytes e))]"
    by (simp only: fields_split [OF base36_var_facts(4)] split_on_no_sep [OF base36_var_facts(4)])
  have hs: "hex_string 8 (hex_of bs)" using b(1) all_hex_of by (auto simp: hex_string_def list_all_iff)
  have "starts_with ''IE4:'' t" by (simp add: t starts_with_def)
  moreover have "session_field (base36_var (hex_int (ie_session_id e)))" using h b(3) session_field_base36 by simp
  moreover have "int (hex_int (ie_session_id e)) \<le> 0xFFFFFFFF" using h b(3) by simp
  moreover have "image_envelope_valid \<lparr>ie_session_id = hex_of bs, ie_format = ie_format e, ie_total = ie_total e,
      ie_width = ie_width e, ie_height = ie_height e, ie_size_bytes = ie_size_bytes e\<rparr>"
    using v hs by (simp add: image_envelope_valid_def)
  moreover have "0 \<le> ie_total e" "0 \<le> ie_width e" "0 \<le> ie_height e" "0 \<le> ie_size_bytes e"
    using v by (simp_all add: image_envelope_valid_def)
  ultimately show ?case using h b
    unfolding parse_image_envelope_def sp
    by (simp add: base36_var_facts(3) image_format_value canon_image_envelope_def Let_def)
qed

text \<open>What the voice protocol puts on the wire reads back: an envelope with its session id in lower case and
  its duration rounded up to whole seconds (capped at 600), a fragment, a fetch request with its missing
  indexes sorted and without repeats, and an acknowledgement.\<close>

theorem voice_wire_roundtrip:
  "(encode_voice_envelope e = Inr t \<longrightarrow> parse_voice_envelope t
      = Some (e\<lparr>ve_session_id := lower (ve_session_id e), ve_duration_ms := envelope_duration_seconds (ve_duration_ms e) * 1000\<rparr>))
   \<and> (encode_voice_packet p = Inr b \<longrightarrow> parse_voice_packet b = Some (p\<lparr>vp_session_id := lower (vp_session_id p)\<rparr>))
   \<and> (encode_voice_fetch r = Inr b \<longrightarrow> parse_voice_fetch b = Some \<lparr>fr_session_id = lower (fr_session_id r),
        fr_requester_key6 = lower (fr_requester_key6 r), fr_missing_indices = sorted_list_of_set (set (fr_missing_indices r))\<rparr>)
   \<and> (encode_fragment_ack a = Inr b \<longrightarrow> parse_fragment_ack b = Some (lower (fst a), snd a))"
  using voice_envelope.dec_enc [of e t] voice_packet.dec_enc [of p b] voice_fetch.dec_enc [of r b]
    fragment_ack.dec_enc [of a b]
  by (simp add: canon_voice_envelope_def canon_voice_packet_def canon_fetch_def canon_ack_def)

lemma demo_voice: "encode_voice_packet \<lparr>vp_session_id = ''0A0b0c0d'', vp_index = 3, vp_codec2_data = [9]\<rparr>
    = Inr [0x56, 10, 11, 12, 13, 3, 9]"
  by (simp add: encode_voice_packet_def validate_session_id_def hex_string_def is_hex_def hex_val_def hex_bytes_def lower_def
      lower_char_def ascii_space_def media_bounds media_magic byte_of_def)

theorem voice_wire_roundtrip_witness:
  "parse_voice_packet [0x56, 10, 11, 12, 13, 3, 9] = Some \<lparr>vp_session_id = lower ''0A0b0c0d'', vp_index = 3, vp_codec2_data = [9]\<rparr>"
  using voice_wire_roundtrip [of _ _ "\<lparr>vp_session_id = ''0A0b0c0d'', vp_index = 3, vp_codec2_data = [9]\<rparr>" "[0x56, 10, 11, 12, 13, 3, 9]"]
    demo_voice by simp

text \<open>What the image protocol puts on the wire reads back, and the envelope's size and fragment count agree.\<close>

theorem image_wire_roundtrip:
  "(encode_image_envelope e = Inr t \<longrightarrow> parse_image_envelope t = Some (e\<lparr>ie_session_id := lower (ie_session_id e)\<rparr>)
      \<and> ie_total e = (ie_size_bytes e + 151) div 152)
   \<and> (encode_image_packet p = Inr b \<longrightarrow> parse_image_packet b = Some (p\<lparr>ip_session_id := lower (ip_session_id p)\<rparr>))
   \<and> (encode_image_fetch r = Inr b \<longrightarrow> parse_image_fetch b = Some \<lparr>fr_session_id = lower (fr_session_id r),
        fr_requester_key6 = lower (fr_requester_key6 r), fr_missing_indices = sorted_list_of_set (set (fr_missing_indices r))\<rparr>)"
proof -
  have "encode_image_envelope e = Inr t \<Longrightarrow> ie_total e = (ie_size_bytes e + 151) div 152"
    by (auto simp: encode_image_envelope_def image_envelope_valid_def media_bounds split: if_splits)
  then show ?thesis
    using image_envelope.dec_enc [of e t] image_packet.dec_enc [of p b] image_fetch.dec_enc [of r b]
    by (simp add: canon_image_envelope_def canon_image_packet_def canon_fetch_def)
qed

lemma demo_image: "encode_image_packet \<lparr>ip_session_id = ''0A0b0c0d'', ip_index = 3, ip_data = [9]\<rparr>
    = Inr [0x49, 10, 11, 12, 13, 3, 9]"
  by (simp add: encode_image_packet_def validate_session_id_def hex_string_def is_hex_def hex_val_def hex_bytes_def lower_def
      lower_char_def ascii_space_def media_bounds media_magic byte_of_def)

theorem image_wire_roundtrip_witness:
  "parse_image_packet [0x49, 10, 11, 12, 13, 3, 9] = Some \<lparr>ip_session_id = lower ''0A0b0c0d'', ip_index = 3, ip_data = [9]\<rparr>"
  using image_wire_roundtrip [of _ _ "\<lparr>ip_session_id = ''0A0b0c0d'', ip_index = 3, ip_data = [9]\<rparr>" "[0x49, 10, 11, 12, 13, 3, 9]"]
    demo_image by simp

section \<open>Fragments\<close>

lemma validate_ok: "hex_string 8 sid \<Longrightarrow> \<exists>s. validate_session_id sid = Inr s"
  by (simp add: validate_session_id_def)

lemma bytes_per_packet: "0 < MODE_BYTES_PER_SECOND mode * MODE_PACKET_DURATION_MS mode div 1000
    \<and> MODE_BYTES_PER_SECOND mode * MODE_PACKET_DURATION_MS mode div 1000 \<le> 160"
  by (cases mode) simp_all

lemma fragments_view:
  "map (\<lambda>(i, d). f i d) (enumerate 0 ds) = map (\<lambda>i. f i (ds ! i)) [0..<length ds]"
  by (rule nth_equalityI) (simp_all add: nth_enumerate_eq)

lemma set_upt_view: "q \<in> set (map f [0..<n]) \<longleftrightarrow> (\<exists>i < n. q = f i)"
  by auto

lemma last_index_lookup:
  assumes "\<And>q. q \<in> set qs \<Longrightarrow> k q = k p \<Longrightarrow> q = p"
  shows "map_of (map (\<lambda>q. (k q, v q)) qs) (k p) = (if p \<in> set qs then Some (v p) else None)"
  using assms by (induction qs) (auto, metis+)

text \<open>A recording is cut without loss, into packets numbered from 0 that all fit the radio: each encodes (for a
  valid session id), and their data in order is the recording.\<close>

theorem voice_fragments:
  assumes "fragment_codec2 sid encoded mode = Inr packets" and "hex_string 8 sid"
  shows "concat (map vp_codec2_data packets) = encoded \<and> length packets \<le> 255
    \<and> map vp_index packets = map int [0..<length packets]
    \<and> list_all (\<lambda>p. \<exists>b. encode_voice_packet p = Inr b \<and> length b \<le> MAX_VOICE_PACKET_BYTES) packets"
proof -
  define n where "n = MODE_BYTES_PER_SECOND mode * MODE_PACKET_DURATION_MS mode div 1000"
  have n: "0 < n" "n \<le> 160" using bytes_per_packet [of mode] by (simp_all add: n_def)
  let ?ds = "chunks n encoded"
  have p: "packets = map (\<lambda>i. \<lparr>vp_session_id = sid, vp_index = int i, vp_codec2_data = ?ds ! i\<rparr>) [0..<length ?ds]"
    and l: "length packets \<le> 255"
    using assms(1) by (auto simp: fragment_codec2_def fragments_view Let_def n_def MAX_VOICE_PACKETS_def split: if_splits)
  obtain s where s: "validate_session_id sid = Inr s" using validate_ok [OF assms(2)] by blast
  obtain bs where bs: "length bs = 4" "hex_bytes s = bs" using validate_session [OF s] by metis
  have "\<exists>b. encode_voice_packet q = Inr b \<and> length b \<le> MAX_VOICE_PACKET_BYTES" if q: "q \<in> set packets" for q
  proof -
    obtain i where i: "i < length ?ds" "q = \<lparr>vp_session_id = sid, vp_index = int i, vp_codec2_data = ?ds ! i\<rparr>"
      using q unfolding p set_upt_view by blast
    have "?ds ! i \<noteq> [] \<and> length (?ds ! i) \<le> n" using chunks_length_le nth_mem [OF i(1)] by blast
    then show ?thesis using i s bs n l by (auto simp: encode_voice_packet_def media_bounds p)
  qed
  moreover have "map vp_codec2_data packets = ?ds" "map vp_index packets = map int [0..<length packets]"
    by (simp_all add: p comp_def map_nth)
  ultimately show ?thesis using l n by (simp add: list_all_iff)
qed

lemma demo_recording: "fragment_codec2 ''0a0b0c0d'' [1, 2, 3] MODE_700C
    = Inr [\<lparr>vp_session_id = ''0a0b0c0d'', vp_index = 0, vp_codec2_data = [1, 2, 3]\<rparr>]"
  by (simp add: fragment_codec2_def MAX_VOICE_PACKETS_def chunks.simps)

theorem voice_fragments_witness:
  "\<exists>b. encode_voice_packet \<lparr>vp_session_id = ''0a0b0c0d'', vp_index = 0, vp_codec2_data = [1, 2, 3]\<rparr> = Inr b
     \<and> length b \<le> MAX_VOICE_PACKET_BYTES"
  using voice_fragments [OF demo_recording] by (simp add: hex_string_def is_hex_def hex_val_def)

text \<open>An image cut into fragments reassembles from whatever order and multiplicity its fragments arrive in, and
  from no proper subset of them.\<close>

theorem image_reassembly:
  assumes "fragment_image sid encoded = Inr packets" and "set received \<subseteq> set packets"
  shows "reassemble_image received (length packets) = (if set received = set packets then Some encoded else None)"
proof -
  let ?ds = "chunks MAX_IMAGE_FRAGMENT_BYTES encoded"
  let ?f = "\<lambda>i. \<lparr>ip_session_id = sid, ip_index = int i, ip_data = ?ds ! i\<rparr>"
  let ?m = "map_of (map (\<lambda>p. (ip_index p, ip_data p)) (rev received))"
  have p: "packets = map ?f [0..<length ?ds]"
    using assms(1) by (auto simp: fragment_image_def fragments_view Let_def split: if_splits)
  have r: "\<exists>i < length ?ds. q = ?f i" if "q \<in> set received" for q
    using that assms(2) unfolding p set_upt_view by auto
  have inj: "inj_on ip_index (set packets)" by (auto simp: p inj_on_def)
  have m: "?m (int i) = (if ?f i \<in> set received then Some (?ds ! i) else None)" if "i < length ?ds" for i
    using last_index_lookup [of "rev received" ip_index "?f i" ip_data] r by fastforce
  have "card (set (map ip_index received)) = length packets \<longleftrightarrow> set received = set packets"
  proof -
    have "card (set (map ip_index received)) = card (set received)"
      using card_image [OF inj_on_subset [OF inj assms(2)]] by simp
    moreover have "distinct packets" by (auto simp: p distinct_map inj_on_def)
    ultimately show ?thesis using assms(2) card_subset_eq [of "set packets" "set received"] distinct_card by fastforce
  qed
  moreover have "list_all (\<lambda>i. ?m (int i) \<noteq> None) [0..<length packets]
      \<and> concat (map (\<lambda>i. the (?m (int i))) [0..<length packets]) = encoded" if "set received = set packets"
  proof -
    have "?m (int i) = Some (?ds ! i)" if "i < length ?ds" for i
      using m [OF that] \<open>set received = set packets\<close> that by (auto simp: p)
    then have "map (\<lambda>i. the (?m (int i))) [0..<length packets] = map (\<lambda>i. ?ds ! i) [0..<length ?ds]"
      and "list_all (\<lambda>i. ?m (int i) \<noteq> None) [0..<length packets]"
      by (simp_all add: p list_all_iff)
    then show ?thesis by (simp add: map_nth MAX_IMAGE_FRAGMENT_BYTES_def)
  qed
  ultimately show ?thesis by (simp add: reassemble_image_def Let_def)
qed

lemma demo_picture: "fragment_image ''0a0b0c0d'' [1, 2, 3] = Inr [\<lparr>ip_session_id = ''0a0b0c0d'', ip_index = 0, ip_data = [1, 2, 3]\<rparr>]"
  by (simp add: fragment_image_def MAX_ENCODED_IMAGE_BYTES_def media_bounds chunks.simps)

theorem image_reassembly_witness:
  "reassemble_image [\<lparr>ip_session_id = ''0a0b0c0d'', ip_index = 0, ip_data = [1, 2, 3]\<rparr>,
                     \<lparr>ip_session_id = ''0a0b0c0d'', ip_index = 0, ip_data = [1, 2, 3]\<rparr>] 1 = Some [1, 2, 3]"
  using image_reassembly [OF demo_picture] by simp

end
