(* ===== verification/Path.thy ===== *)
theory Path
  imports Prelude
begin

text \<open>
  Packet framing and stored routes: \<open>src/app/path_utils.py\<close>. The packed path byte, the envelope
  parser every raw packet goes through, the hop splitting and route normalisation of stored
  contacts, the explicit-route parser, the two statistics buckets and the packet hash used for
  duplicate detection (with SHA-256 as a parameter).
\<close>

section \<open>Definitions\<close>

definition MAX_PATH_SIZE :: nat where
  "MAX_PATH_SIZE = 64"

record ParsedPacketEnvelope =
  env_header :: nat
  env_route_type :: nat
  env_payload_type :: nat
  env_payload_version :: nat
  env_path_byte :: nat
  env_hop_count :: nat
  env_hash_size :: nat
  env_path_byte_len :: nat
  env_path :: bytes
  env_payload :: bytes
  env_payload_offset :: nat
  env_transport_codes :: "(nat \<times> nat) option"

definition decode_path_byte :: "nat \<Rightarrow> (nat \<times> nat) res" where
  "decode_path_byte path_byte =
     (let hash_mode = drop_bit 6 path_byte AND 3 in
      if hash_mode = 3 then Inl ValueError
      else Inr (path_byte AND 63, hash_mode + 1))"

definition path_wire_len :: "nat \<Rightarrow> nat \<Rightarrow> nat" where
  "path_wire_len hop_count hash_size = hop_count * hash_size"

definition validate_path_byte :: "nat \<Rightarrow> (nat \<times> nat \<times> nat) res" where
  "validate_path_byte path_byte =
     (case decode_path_byte path_byte of
        Inl e \<Rightarrow> Inl e
      | Inr (hop_count, hash_size) \<Rightarrow>
          (let byte_len = path_wire_len hop_count hash_size in
           if byte_len > MAX_PATH_SIZE then Inl ValueError
           else Inr (hop_count, hash_size, byte_len)))"

text \<open>
  Every index of the source is guarded by the length checks before it, so its \<open>IndexError\<close> handler
  is never entered; the \<open>ValueError\<close> of a bad path byte is the \<^const>\<open>Inl\<close> branch.
\<close>

definition parse_packet_envelope :: "bytes \<Rightarrow> ParsedPacketEnvelope option" where
  "parse_packet_envelope raw_packet =
     (if length raw_packet < 2 then None
      else
        let header = unat (raw_packet ! 0);
            route_type = header AND 3;
            payload_type = drop_bit 2 header AND 15;
            payload_version = drop_bit 6 header AND 3;
            transport = (route_type = 0 \<or> route_type = 3)
        in if transport \<and> length raw_packet < 1 + 4 then None
      else
        let transport_codes =
              (if transport then Some (from_le (slice 1 3 raw_packet), from_le (slice 3 5 raw_packet))
               else None);
            offset = (if transport then 1 + 4 else 1)
        in if length raw_packet < offset + 1 then None
      else
        let path_byte = unat (raw_packet ! offset); offset1 = offset + 1
        in (case validate_path_byte path_byte of
              Inl _ \<Rightarrow> None
            | Inr (hop_count, hash_size, path_byte_len) \<Rightarrow>
                if length raw_packet < offset1 + path_byte_len then None
                else
                  let offset2 = offset1 + path_byte_len
                  in if offset2 \<ge> length raw_packet then None
                else Some \<lparr>env_header = header, env_route_type = route_type,
                  env_payload_type = payload_type, env_payload_version = payload_version,
                  env_path_byte = path_byte, env_hop_count = hop_count, env_hash_size = hash_size,
                  env_path_byte_len = path_byte_len, env_path = slice offset1 offset2 raw_packet,
                  env_payload = drop offset2 raw_packet, env_payload_offset = offset2,
                  env_transport_codes = transport_codes\<rparr>))"

definition split_path_hex :: "string \<Rightarrow> int \<Rightarrow> string list" where
  "split_path_hex path_hex hop_count =
     (if path_hex = [] \<or> hop_count \<le> 0 then []
      else
        let chars_per_hop = length path_hex div nat hop_count
        in if chars_per_hop < 2 \<or> chars_per_hop mod 2 \<noteq> 0
              \<or> chars_per_hop * nat hop_count \<noteq> length path_hex
           then chunks 2 path_hex
           else chunks chars_per_hop path_hex)"

definition first_hop_hex :: "string \<Rightarrow> int \<Rightarrow> string option" where
  "first_hop_hex path_hex hop_count =
     (case split_path_hex path_hex hop_count of [] \<Rightarrow> None | h # _ \<Rightarrow> Some h)"

text \<open>
  The source's arguments are typed \<open>int | None\<close>, so its \<open>int(...)\<close> conversions are the identity.
  The low byte of a negative Python integer is its value modulo 256.
\<close>

definition normalize_contact_route ::
  "string option \<Rightarrow> int option \<Rightarrow> int option \<Rightarrow> string \<times> int \<times> int" where
  "normalize_contact_route path_hex path_len path_hash_mode =
     (let path0 = (case path_hex of None \<Rightarrow> [] | Some p \<Rightarrow> p);
          len0 = (case path_len of None \<Rightarrow> -1 | Some n \<Rightarrow> n);
          packed = nat (len0 mod 256);
          decoded_mode = drop_bit 6 packed AND 3;
          out_of_range = (len0 < -1 \<or> len0 > 63)
      in if out_of_range \<and> packed = 255 then ([], -1, -1)
      else
        let unpack = (out_of_range \<and> decoded_mode \<noteq> 3);
            len1 = (if unpack then int (packed AND 63) else len0);
            mode1 = (if unpack then Some (int decoded_mode) else path_hash_mode)
        in if len1 = -1 then ([], -1, -1)
      else
        let mode2 = (case mode1 of None \<Rightarrow> 0 | Some m \<Rightarrow> if m \<in> {0, 1, 2} then m else 0)
        in if path0 = [] then (path0, len1, mode2)
      else
        let bytes_per_hop = mode2 + 1;
            actual_bytes = int (length path0 div 2);
            expected_bytes = len1 * bytes_per_hop
        in if actual_bytes > expected_bytes \<and> expected_bytes \<ge> 0
           then (take (nat (expected_bytes * 2)) path0, len1, mode2)
           else if actual_bytes < expected_bytes \<and> bytes_per_hop > 0
                   \<and> actual_bytes mod bytes_per_hop = 0
           then (path0, actual_bytes div bytes_per_hop, mode2)
           else (path0, len1, mode2))"

definition normalize_route_override ::
  "string option \<Rightarrow> int option \<Rightarrow> int option \<Rightarrow> (string option \<times> int option \<times> int option)" where
  "normalize_route_override path_hex path_len path_hash_mode =
     (case path_len of
        None \<Rightarrow> (None, None, None)
      | Some _ \<Rightarrow>
          (case normalize_contact_route path_hex path_len path_hash_mode of
             (p, l, m) \<Rightarrow> (Some p, Some l, Some m)))"

definition parse_explicit_hop_route :: "string \<Rightarrow> (string \<times> nat \<times> nat) res" where
  "parse_explicit_hop_route route_text =
     (let hops = map (\<lambda>hop. lower (strip hop))
                   (filter (\<lambda>hop. strip hop \<noteq> []) (split_on (CHR '','') route_text))
      in if hops = [] then Inl ValueError
      else
        let hop_chars = length (hd hops)
        in if hop_chars \<noteq> 2 \<and> hop_chars \<noteq> 4 \<and> hop_chars \<noteq> 6 then Inl ValueError
      else if \<exists>hop \<in> set hops. length hop \<noteq> hop_chars \<or> fromhex hop = None then Inl ValueError
      else
        let hash_size = hop_chars div 2
        in if path_wire_len (length hops) hash_size > MAX_PATH_SIZE then Inl ValueError
      else Inr (concat hops, length hops, hash_size - 1))"

text \<open>Percentages are exact reals; the source's are the nearest doubles.\<close>

record path_hash_width_buckets =
  total_packets :: nat
  single_byte :: nat
  double_byte :: nat
  triple_byte :: nat
  single_byte_pct :: real
  double_byte_pct :: real
  triple_byte_pct :: real

fun count_hash_widths :: "bytes list \<Rightarrow> nat \<times> nat \<times> nat \<Rightarrow> nat \<times> nat \<times> nat" where
  "count_hash_widths [] (s, d, t) = (s, d, t)"
| "count_hash_widths (row # rows) (s, d, t) =
     (case parse_packet_envelope row of
        None \<Rightarrow> count_hash_widths rows (s, d, t)
      | Some e \<Rightarrow>
          if env_hash_size e = 1 then count_hash_widths rows (s + 1, d, t)
          else if env_hash_size e = 2 then count_hash_widths rows (s, d + 1, t)
          else if env_hash_size e = 3 then count_hash_widths rows (s, d, t + 1)
          else count_hash_widths rows (s, d, t))"

definition bucket_path_hash_widths :: "bytes list \<Rightarrow> path_hash_width_buckets" where
  "bucket_path_hash_widths rows =
     (case count_hash_widths rows (0, 0, 0) of (s, d, t) \<Rightarrow>
        let total = s + d + t
        in if total = 0
           then \<lparr>total_packets = 0, single_byte = 0, double_byte = 0, triple_byte = 0,
                 single_byte_pct = 0, double_byte_pct = 0, triple_byte_pct = 0\<rparr>
           else \<lparr>total_packets = total, single_byte = s, double_byte = d, triple_byte = t,
                 single_byte_pct = real s / real total * 100,
                 double_byte_pct = real d / real total * 100,
                 triple_byte_pct = real t / real total * 100\<rparr>)"

record region_scope_buckets =
  total_messages :: nat
  scoped_messages :: nat
  scoped_pct :: real
  false_positive_floor :: real

fun count_region_scope :: "bytes list \<Rightarrow> nat \<times> nat \<times> nat \<Rightarrow> nat \<times> nat \<times> nat" where
  "count_region_scope [] acc = acc"
| "count_region_scope (row # rows) (tot, scoped, undefined_scoped) =
     (case parse_packet_envelope row of
        None \<Rightarrow> count_region_scope rows (tot, scoped, undefined_scoped)
      | Some e \<Rightarrow>
          if env_route_type e = 0 \<and> env_payload_type e \<in> {12, 13, 14} \<and> env_transport_codes e \<noteq> None
          then count_region_scope rows (tot, scoped, undefined_scoped + 1)
          else if env_payload_type e \<noteq> 5 then count_region_scope rows (tot, scoped, undefined_scoped)
          else if env_route_type e \<notin> {0, 1} then count_region_scope rows (tot, scoped, undefined_scoped)
          else if env_transport_codes e \<noteq> None
          then count_region_scope rows (tot + 1, scoped + 1, undefined_scoped)
          else count_region_scope rows (tot + 1, scoped, undefined_scoped))"

definition bucket_region_scope :: "bytes list \<Rightarrow> region_scope_buckets" where
  "bucket_region_scope rows =
     (case count_region_scope rows (0, 0, 0) of (tot, scoped, undefined_scoped) \<Rightarrow>
        \<lparr>total_messages = tot, scoped_messages = scoped,
         scoped_pct = (if tot \<noteq> 0 then real scoped / real tot * 100 else 0),
         false_positive_floor = real undefined_scoped / 3\<rparr>)"

definition upper_hex :: "char \<Rightarrow> char" where
  "upper_hex c = (let n = of_char c :: nat in if 97 \<le> n \<and> n \<le> 122 then char_of (n - 32) else c)"

definition calculate_packet_hash :: "(bytes \<Rightarrow> bytes) \<Rightarrow> bytes \<Rightarrow> string" where
  "calculate_packet_hash sha256 raw_bytes =
     (if raw_bytes = [] then replicate 16 (CHR ''0'')
      else case parse_packet_envelope raw_bytes of
             None \<Rightarrow> replicate 16 (CHR ''0'')
           | Some e \<Rightarrow>
               let hashed = [byte_of (env_payload_type e)]
                     @ (if env_payload_type e = 9 then to_le 2 (env_path_byte e) else [])
                     @ env_payload e
               in map upper_hex (take 16 (hex_of (sha256 hashed))))"

text \<open>
  The frame format as a specification: which envelopes are well formed, and the bytes of one.
\<close>

definition wf_envelope :: "ParsedPacketEnvelope \<Rightarrow> bool" where
  "wf_envelope e \<longleftrightarrow>
     env_header e < 256 \<and> env_path_byte e < 256
   \<and> env_route_type e = env_header e mod 4
   \<and> env_payload_type e = env_header e div 4 mod 16
   \<and> env_payload_version e = env_header e div 64
   \<and> env_hop_count e = env_path_byte e mod 64
   \<and> env_hash_size e = env_path_byte e div 64 + 1 \<and> env_hash_size e \<le> 3
   \<and> env_path_byte_len e = env_hop_count e * env_hash_size e \<and> env_path_byte_len e \<le> 64
   \<and> length (env_path e) = env_path_byte_len e
   \<and> env_payload e \<noteq> []
   \<and> (case env_transport_codes e of
        None \<Rightarrow> env_route_type e = 1 \<or> env_route_type e = 2
      | Some (c1, c2) \<Rightarrow> (env_route_type e = 0 \<or> env_route_type e = 3) \<and> c1 < 65536 \<and> c2 < 65536)
   \<and> env_payload_offset e =
       (if env_transport_codes e = None then 2 else 6) + env_path_byte_len e"

definition envelope_bytes :: "ParsedPacketEnvelope \<Rightarrow> bytes" where
  "envelope_bytes e =
     byte_of (env_header e)
     # (case env_transport_codes e of None \<Rightarrow> [] | Some (c1, c2) \<Rightarrow> to_le 2 c1 @ to_le 2 c2)
     @ byte_of (env_path_byte e) # env_path e @ env_payload e"

section \<open>Framing\<close>

lemma decode_path_byte_eq:
  "pb < 256 \<Longrightarrow> decode_path_byte pb =
     (if pb div 64 = 3 then Inl ValueError else Inr (pb mod 64, pb div 64 + 1))"
  by (auto simp: decode_path_byte_def Let_def pybits)

lemma validate_path_byte_iff:
  "pb < 256 \<Longrightarrow> validate_path_byte pb = Inr (h, s, l) \<longleftrightarrow>
     h = pb mod 64 \<and> s = pb div 64 + 1 \<and> s \<le> 3 \<and> l = h * s \<and> l \<le> 64"
proof -
  assume "pb < 256"
  then have "pb div 64 \<noteq> 3 \<longleftrightarrow> pb div 64 + 1 \<le> 3" by auto
  then show ?thesis using \<open>pb < 256\<close>
    by (auto simp: validate_path_byte_def decode_path_byte_eq path_wire_len_def MAX_PATH_SIZE_def
        Let_def)
qed

lemma from_le_two: "from_le [a, b] < 65536" "to_le 2 (from_le [a, b]) = [a, b]"
  using from_le_less [of "[a, b]"] to_le_from_le [of "[a, b]"] by (simp_all add: numeral_2_eq_2)

lemma byte_header: "unat (b::byte) div 64 mod 4 = unat b div 64"
  using unat_byte_less [of b] by (simp del: unat_byte_less)

text \<open>The packet body after the header and the transport codes.\<close>

definition parse_body :: "nat \<Rightarrow> bytes \<Rightarrow> (nat \<times> nat \<times> nat \<times> nat \<times> bytes \<times> bytes \<times> nat) option" where
  "parse_body off xs =
     (case xs of [] \<Rightarrow> None
      | pb # ys \<Rightarrow>
          (case validate_path_byte (unat pb) of
             Inl _ \<Rightarrow> None
           | Inr (h, s, l) \<Rightarrow>
               if length ys \<le> l then None
               else Some (unat pb, h, s, l, take l ys, drop l ys, off + 1 + l)))"

lemma parse_body_iff:
  "parse_body off xs = Some (pb, h, s, l, path, payload, off') \<longleftrightarrow>
     xs = byte_of pb # path @ payload \<and> pb < 256 \<and> h = pb mod 64 \<and> s = pb div 64 + 1 \<and> s \<le> 3
     \<and> l = h * s \<and> l \<le> 64 \<and> length path = l \<and> payload \<noteq> [] \<and> off' = off + 1 + l"
  (is "?L \<longleftrightarrow> ?R")
proof
  assume ?L
  then obtain b ys where xs: "xs = b # ys" and v: "validate_path_byte (unat b) = Inr (h, s, l)"
    and len: "l < length ys" and eqs: "pb = unat b" "path = take l ys" "payload = drop l ys" "off' = off + 1 + l"
    by (auto simp: parse_body_def split: list.splits sum.splits if_splits)
  then show ?R using validate_path_byte_iff [of "unat b" h s l] by auto
next
  assume R: ?R
  then have "validate_path_byte pb = Inr (h, s, l)" and "unat (byte_of pb) = pb"
    using validate_path_byte_iff [of pb h s l] by (blast, simp)
  then show ?L using R by (auto simp: parse_body_def)
qed

lemma parse_packet_envelope_cases:
  "parse_packet_envelope raw =
     (case raw of [] \<Rightarrow> None
      | hb # xs \<Rightarrow>
          let h = unat hb; tr = (h mod 4 = 0 \<or> h mod 4 = 3) in
          if tr \<and> length xs < 4 then None
          else case parse_body (if tr then 5 else 1) (if tr then drop 4 xs else xs) of
                 None \<Rightarrow> None
               | Some (pb, hc, hs, l, path, payload, off) \<Rightarrow>
                   Some \<lparr>env_header = h, env_route_type = h mod 4, env_payload_type = h div 4 mod 16,
                     env_payload_version = h div 64, env_path_byte = pb, env_hop_count = hc,
                     env_hash_size = hs, env_path_byte_len = l, env_path = path,
                     env_payload = payload, env_payload_offset = off,
                     env_transport_codes =
                       (if tr then Some (from_le (take 2 xs), from_le (slice 2 4 xs)) else None)\<rparr>)"
proof (cases raw)
  case Nil
  then show ?thesis by (simp add: parse_packet_envelope_def)
next
  case (Cons hb xs)
  define tr where "tr \<longleftrightarrow> unat hb mod 4 = 0 \<or> unat hb mod 4 = 3"
  define rest where "rest = (if tr then drop 4 xs else xs)"
  show ?thesis
  proof (cases "length raw < 2 \<or> tr \<and> length xs < 4 \<or> rest = []")
    case True
    then show ?thesis
      by (auto simp: Cons parse_packet_envelope_def parse_body_def Let_def pybits tr_def rest_def
          split: if_splits list.splits)
  next
    case False
    then obtain p ys where rest: "rest = p # ys" by (cases rest) auto
    show ?thesis
    proof (cases tr)
      case True
      with False rest obtain a b c d where xs: "xs = a # b # c # d # p # ys"
        by (auto simp: rest_def Cons not_less numeral_eq_Suc Suc_le_length_iff)
      have m: "unat hb mod 4 = 0 \<or> unat hb mod 4 = 3" using True by (simp add: tr_def)
      have "drop (6 + l) (hb # a # b # c # d # p # ys) = drop l ys" for l
        by (simp add: eval_nat_numeral)
      then show ?thesis
        unfolding parse_packet_envelope_def Cons xs using m
        by (auto simp: parse_body_def Let_def pybits byte_header slice_def split: sum.splits)
    next
      case nt: False
      with False rest have xs: "xs = p # ys" by (simp add: rest_def)
      have m: "unat hb mod 4 \<noteq> 0" "unat hb mod 4 \<noteq> 3" using nt by (auto simp: tr_def)
      show ?thesis
        unfolding parse_packet_envelope_def Cons xs using m
        by (auto simp: parse_body_def Let_def pybits byte_header slice_def split: sum.splits)
    qed
  qed
qed

lemma wf_envelope_codes:
  "wf_envelope e \<Longrightarrow>
     (case env_transport_codes e of
        None \<Rightarrow> env_route_type e = 1 \<or> env_route_type e = 2
      | Some (c1, c2) \<Rightarrow> (env_route_type e = 0 \<or> env_route_type e = 3) \<and> c1 < 65536 \<and> c2 < 65536)"
  unfolding wf_envelope_def by (elim conjE) assumption

lemma parse_packet_envelope_wf:
  assumes "parse_packet_envelope raw = Some e"
  shows "wf_envelope e \<and> raw = envelope_bytes e"
proof -
  from assms obtain hb xs where raw: "raw = hb # xs"
    by (cases raw) (auto simp: parse_packet_envelope_cases)
  define tr where "tr \<longleftrightarrow> unat hb mod 4 = 0 \<or> unat hb mod 4 = 3"
  from assms obtain pb h s l path payload off where
    b: "parse_body (if tr then 5 else 1) (if tr then drop 4 xs else xs)
          = Some (pb, h, s, l, path, payload, off)"
    and len: "tr \<Longrightarrow> 4 \<le> length xs"
    and e: "e = \<lparr>env_header = unat hb, env_route_type = unat hb mod 4,
          env_payload_type = unat hb div 4 mod 16, env_payload_version = unat hb div 64,
          env_path_byte = pb, env_hop_count = h, env_hash_size = s, env_path_byte_len = l,
          env_path = path, env_payload = payload, env_payload_offset = off,
          env_transport_codes =
            (if tr then Some (from_le (take 2 xs), from_le (slice 2 4 xs)) else None)\<rparr>"
    by (auto simp: parse_packet_envelope_cases raw Let_def tr_def
        split: option.splits if_splits)
  note body = b [unfolded parse_body_iff]
  have rt: "\<not> tr \<Longrightarrow> unat hb mod 4 = 1 \<or> unat hb mod 4 = 2" by (auto simp: tr_def)
  show ?thesis
  proof (cases tr)
    case True
    then obtain a b c d ys where xs: "xs = a # b # c # d # ys"
      using len by (auto simp: numeral_eq_Suc Suc_le_length_iff)
    show ?thesis using body True from_le_two [of a b] from_le_two [of c d]
      by (auto simp: e raw xs wf_envelope_def envelope_bytes_def tr_def slice_def)
  next
    case False
    then show ?thesis using body rt by (auto simp: e raw wf_envelope_def envelope_bytes_def)
  qed
qed

lemma parse_envelope_bytes:
  assumes "wf_envelope e"
  shows "parse_packet_envelope (envelope_bytes e) = Some e"
proof -
  let ?tail = "byte_of (env_path_byte e) # env_path e @ env_payload e"
  have body: "parse_body off ?tail = Some (env_path_byte e, env_hop_count e, env_hash_size e,
      env_path_byte_len e, env_path e, env_payload e, off + 1 + env_path_byte_len e)" for off
    unfolding parse_body_iff using assms by (auto simp: wf_envelope_def)
  have fields: "env_header e < 256" "env_route_type e = env_header e mod 4"
    "env_payload_type e = env_header e div 4 mod 16" "env_payload_version e = env_header e div 64"
    "env_payload_offset e = (if env_transport_codes e = None then 2 else 6) + env_path_byte_len e"
    using assms by (simp_all add: wf_envelope_def)
  show ?thesis
  proof (cases "env_transport_codes e")
    case None
    then have "env_header e mod 4 \<noteq> 0" "env_header e mod 4 \<noteq> 3"
      using assms by (auto simp: wf_envelope_def)
    then show ?thesis using None body [of 1] fields
      by (simp add: parse_packet_envelope_cases envelope_bytes_def Let_def
          del: mod_mod_trivial mod_0_imp_dvd)
  next
    case (Some c)
    obtain c1 c2 where c: "c = (c1, c2)" by (cases c)
    have le: "from_le (to_le 2 c1) = c1" "from_le (to_le 2 c2) = c2"
      using assms Some by (simp_all add: c wf_envelope_def from_le_to_le)
    have "env_route_type e = 0 \<or> env_route_type e = 3"
      using wf_envelope_codes [OF assms] Some by (simp add: c)
    then have "env_header e mod 4 = 0 \<or> env_header e mod 4 = 3"
      using fields(2) by simp
    then show ?thesis using Some body [of 5] fields le
      by (simp add: c parse_packet_envelope_cases envelope_bytes_def Let_def slice_def)
  qed
qed

text \<open>C12: the envelope parser accepts exactly the byte strings that are the encoding of a well-formed
  envelope (reserved hash mode and over-long paths refused, at least one payload byte, transport
  codes present on the two transport routes and only there), and returns that envelope.\<close>

theorem parse_packet_envelope_exact:
  "parse_packet_envelope raw = Some e \<longleftrightarrow> wf_envelope e \<and> raw = envelope_bytes e"
  using parse_packet_envelope_wf parse_envelope_bytes by blast

section \<open>Hops and routes\<close>

lemma split_path_hex_exact:
  assumes "0 < k" "0 < n" "length p = n * (2 * k)"
  shows "split_path_hex p (int n) = chunks (2 * k) p"
proof -
  have "p \<noteq> []" using assms by auto
  then show ?thesis using assms by (simp add: split_path_hex_def Let_def)
qed

lemma split_path_hex_hops:
  assumes "0 < k" and "0 < n" and "length p = n * (2 * k)"
  shows "concat (split_path_hex p (int n)) = p \<and> length (split_path_hex p (int n)) = n
    \<and> list_all (\<lambda>h. length h = 2 * k) (split_path_hex p (int n))"
  using assms chunks_exact [of "2 * k" p n] by (simp add: split_path_hex_exact list_all_iff)


text \<open>The last stage of the normalisation: fit the stored path to the hop count.\<close>

definition fit_route :: "string \<Rightarrow> int \<Rightarrow> int \<Rightarrow> string \<times> int" where
  "fit_route q l b =
     (let a = int (length q div 2)
      in if q = [] then (q, l)
         else if a > l * b then (take (nat (l * b * 2)) q, l)
         else if a < l * b \<and> a mod b = 0 then (q, a div b)
         else (q, l))"

lemma fit_route_fixpoint:
  assumes "0 \<le> l" "1 \<le> b" "fit_route q l b = (p, l')"
  shows "0 \<le> l' \<and> l' \<le> l \<and> fit_route p l' b = (p, l')"
proof -
  define a where "a = int (length q div 2)"
  have lb: "0 \<le> l * b" using assms by simp
  consider "q = []" | "q \<noteq> []" "a > l * b" | "q \<noteq> []" "a < l * b" "a mod b = 0"
    | "q \<noteq> []" "a = l * b \<or> a < l * b \<and> a mod b \<noteq> 0" by fastforce
  then show ?thesis
  proof cases
    case 1
    then show ?thesis using assms by (auto simp: fit_route_def)
  next
    case 2
    then have e: "p = take (nat (l * b * 2)) q" "l' = l"
      using assms by (auto simp: fit_route_def a_def)
    have "nat (l * b * 2) \<le> length q" "nat (l * b * 2) div 2 = nat (l * b)"
      using 2 lb by (auto simp: a_def)
    then have "int (length p div 2) = l * b" using e lb by simp
    then have "fit_route p l b = (p, l)" by (simp add: fit_route_def Let_def)
    then show ?thesis using e(2) assms(1) by simp
  next
    case 3
    then have e: "p = q" "l' = a div b" using assms by (auto simp: fit_route_def a_def)
    have ab: "a div b * b = a" using 3 by (metis add.right_neutral div_mult_mod_eq)
    have "a div b * b \<le> l * b" using 3 ab by simp
    then have "a div b \<le> l" using assms by (simp add: mult_le_cancel_right)
    moreover have "0 \<le> a div b" using assms by (simp add: a_def pos_imp_zdiv_nonneg_iff)
    ultimately show ?thesis using e ab by (simp add: fit_route_def Let_def a_def)
  next
    case 4
    then show ?thesis using assms by (auto simp: fit_route_def a_def)
  qed
qed

definition route_tail :: "string \<Rightarrow> int \<Rightarrow> int option \<Rightarrow> string \<times> int \<times> int" where
  "route_tail q l mo =
     (if l = -1 then ([], -1, -1)
      else let m = (case mo of None \<Rightarrow> 0 | Some m \<Rightarrow> if m \<in> {0, 1, 2} then m else 0)
           in (fst (fit_route q l (m + 1)), snd (fit_route q l (m + 1)), m))"

lemma route_tail_eq:
  assumes "0 \<le> l \<or> l = -1"
  shows "(if l = -1 then ([], -1, -1)
      else
        let mode2 = (case mo of None \<Rightarrow> 0 | Some m \<Rightarrow> if m \<in> {0, 1, 2} then m else 0)
        in if q = [] then (q, l, mode2)
      else
        let bytes_per_hop = mode2 + 1;
            actual_bytes = int (length q div 2);
            expected_bytes = l * bytes_per_hop
        in if actual_bytes > expected_bytes \<and> expected_bytes \<ge> 0
           then (take (nat (expected_bytes * 2)) q, l, mode2)
           else if actual_bytes < expected_bytes \<and> bytes_per_hop > 0
                   \<and> actual_bytes mod bytes_per_hop = 0
           then (q, actual_bytes div bytes_per_hop, mode2)
           else (q, l, mode2)) = route_tail q l mo"
proof (cases "l = -1")
  case False
  define m where "m = (case mo of None \<Rightarrow> 0 | Some m \<Rightarrow> if m \<in> {0, 1, 2::int} then m else 0)"
  have m: "0 < m + 1" by (auto simp: m_def split: option.splits)
  have "0 \<le> l * (m + 1)" using assms False m by simp
  then show ?thesis using False m
    unfolding route_tail_def fit_route_def Let_def m_def [symmetric] by simp
qed (simp add: route_tail_def)

lemma normalize_in_range:
  assumes "-1 \<le> l" "l \<le> 63"
  shows "normalize_contact_route ph (Some l) mo = route_tail (case ph of None \<Rightarrow> [] | Some p \<Rightarrow> p) l mo"
proof -
  have "\<not> (l < -1 \<or> l > 63)" "0 \<le> l \<or> l = -1" using assms by auto
  then show ?thesis
    unfolding normalize_contact_route_def Let_def option.case
    using route_tail_eq [of l mo, unfolded Let_def] by (simp only: simp_thms if_False)
qed

lemma normalize_unpack:
  assumes "\<not> (-1 \<le> n \<and> n \<le> 63)" "k = nat (n mod 256)" "k \<noteq> 255" "k div 64 \<noteq> 3"
  shows "normalize_contact_route ph (Some n) mo =
    route_tail (case ph of None \<Rightarrow> [] | Some p \<Rightarrow> p) (int (k mod 64)) (Some (int (k div 64)))"
proof -
  have k: "k < 256" using assms(2) by simp
  have d: "k div 64 mod 4 = k div 64" using k by (simp add: div_less_iff_less_mult)
  have o: "n < -1 \<or> 63 < n" using assms(1) by auto
  have 64: "(2::nat) ^ 6 = 64" by simp
  show ?thesis
    unfolding normalize_contact_route_def Let_def and_3 and_63 drop_bit_eq_div option.case
      assms(2) [symmetric] 64 d
    using route_tail_eq [OF disjI1 [OF of_nat_0_le_iff], of "k mod 64" "Some (int (k div 64))"
        "case ph of None \<Rightarrow> [] | Some p \<Rightarrow> p", unfolded Let_def option.case] o assms(3,4)
    by (simp only: simp_thms if_False if_True option.case)
qed

text \<open>What the unpacking of a legacy length amounts to: an equivalent in-range call.\<close>

lemma normalize_reduce:
  assumes "\<forall>n. path_len = Some n \<longrightarrow>
      (-1 \<le> n \<and> n \<le> 63) \<or> n mod 256 = 255 \<or> nat (n mod 256) div 64 \<noteq> 3"
  shows "\<exists>q l mo. -1 \<le> l \<and> l \<le> 63 \<and>
    normalize_contact_route path_hex path_len path_hash_mode = route_tail q l mo"
proof (cases path_len)
  case None
  then have "normalize_contact_route path_hex path_len path_hash_mode =
      normalize_contact_route path_hex (Some (-1)) path_hash_mode"
    by (simp add: normalize_contact_route_def)
  then show ?thesis by (auto simp: normalize_in_range intro!: exI [of _ "-1"])
next
  case (Some n)
  define k where "k = nat (n mod 256)"
  consider (inr) "-1 \<le> n" "n \<le> 63" | (ff) "\<not> (-1 \<le> n \<and> n \<le> 63)" "k = 255"
    | (un) "\<not> (-1 \<le> n \<and> n \<le> 63)" "k \<noteq> 255" "k div 64 \<noteq> 3"
    using assms Some by (cases "-1 \<le> n \<and> n \<le> 63"; cases "k = 255") (auto simp: k_def)
  then show ?thesis
  proof cases
    case inr
    then show ?thesis using normalize_in_range Some by blast
  next
    case ff
    then have "normalize_contact_route path_hex path_len path_hash_mode = route_tail [] (-1) None"
      by (auto simp: Some normalize_contact_route_def route_tail_def k_def)
    then show ?thesis by (intro exI [of _ "[]"] exI [of _ "-1"] exI [of _ None]) simp
  next
    case un
    have "int (k mod 64) \<le> 63" using mod_less_divisor [of 64 k] by linarith
    then show ?thesis using normalize_unpack [OF un(1) k_def un(2,3)] Some
      by (intro exI [of _ "case path_hex of None \<Rightarrow> [] | Some p \<Rightarrow> p"] exI [of _ "int (k mod 64)"]
          exI [of _ "Some (int (k div 64))"]) auto
  qed
qed

lemma normalize_normal:
  assumes "\<forall>n. path_len = Some n \<longrightarrow>
      (-1 \<le> n \<and> n \<le> 63) \<or> n mod 256 = 255 \<or> nat (n mod 256) div 64 \<noteq> 3"
    and "normalize_contact_route path_hex path_len path_hash_mode = (p, l, m)"
  shows "(p = [] \<and> l = -1 \<and> m = -1 \<or> 0 \<le> l \<and> l \<le> 63 \<and> m \<in> {0, 1, 2})
    \<and> normalize_contact_route (Some p) (Some l) (Some m) = (p, l, m)"
proof -
  obtain q l0 mo where l0: "-1 \<le> l0" "l0 \<le> 63" and eq: "route_tail q l0 mo = (p, l, m)"
    using normalize_reduce [OF assms(1)] assms(2) by metis
  show ?thesis
  proof (cases "l0 = -1")
    case True
    then show ?thesis using eq by (auto simp: normalize_in_range route_tail_def)
  next
    case False
    then have f: "fit_route q l0 (m + 1) = (p, l)" and m: "m \<in> {0, 1, 2}"
      using eq by (auto simp: route_tail_def Let_def prod_eq_iff split: option.splits if_splits)
    have "0 \<le> l \<and> l \<le> l0 \<and> fit_route p l (m + 1) = (p, l)"
      using l0 False m by (intro fit_route_fixpoint [OF _ _ f]) auto
    then show ?thesis using m l0 by (auto simp: normalize_in_range route_tail_def Let_def)
  qed
qed

text \<open>normalising a stored route whose length is in range, or is a packed path byte of a
  supported mode, gives either the flood route or a hop count of 0 to 63 with a hash mode of 0 to
  2, and normalising the result again changes nothing.\<close>

theorem normalize_contact_route_normal:
  assumes "\<forall>n. path_len = Some n \<longrightarrow>
      (-1 \<le> n \<and> n \<le> 63) \<or> n mod 256 = 255 \<or> nat (n mod 256) div 64 \<noteq> 3"
    and "normalize_contact_route path_hex path_len path_hash_mode = (p, l, m)"
  shows "(p = [] \<and> l = -1 \<and> m = -1 \<or> 0 \<le> l \<and> l \<le> 63 \<and> m \<in> {0, 1, 2})
    \<and> normalize_contact_route (Some p) (Some l) (Some m) = (p, l, m)"
  using assms by (rule normalize_normal)

theorem normalize_contact_route_normal_witness:
  "normalize_contact_route (Some ''abcdef'') (Some (-125)) None = (''abcdef'', 1, 2)
   \<and> normalize_contact_route (Some ''abcdef'') (Some 1) (Some 2) = (''abcdef'', 1, 2)"
proof -
  have h: "normalize_contact_route (Some ''abcdef'') (Some (-125)) None = (''abcdef'', 1, 2)"
    by code_simp
  show ?thesis using h normalize_contact_route_normal [OF _ h] by simp
qed

lemma explicit_route_obtain:
  assumes "parse_explicit_hop_route t = Inr (p, n, m)"
  obtains hops where "p = concat hops" "n = length hops" "hops \<noteq> []" "m \<le> 2"
    "list_all (\<lambda>h. length h = 2 * (m + 1) \<and> fromhex h \<noteq> None) hops" "n * (m + 1) \<le> 64"
proof -
  define hops where "hops = map (\<lambda>hop. lower (strip hop))
      (filter (\<lambda>hop. strip hop \<noteq> []) (split_on (CHR '','') t))"
  define c where "c = length (hd hops)"
  note eq = assms [unfolded parse_explicit_hop_route_def hops_def [symmetric] Let_def
      c_def [symmetric] path_wire_len_def MAX_PATH_SIZE_def]
  have h: "hops \<noteq> []" and c: "c = 2 \<or> c = 4 \<or> c = 6"
    and all: "\<forall>h \<in> set hops. length h = c \<and> fromhex h \<noteq> None"
    and b: "length hops * (c div 2) \<le> 64"
    and r: "p = concat hops" "n = length hops" "m = c div 2 - 1"
    using eq unfolding if_Inl_eq_Inr sum.inject prod.inject not_less by blast+
  from c r(3) have "m \<le> 2" "c = 2 * (m + 1)" by auto
  moreover have "list_all (\<lambda>h. length h = 2 * (m + 1) \<and> fromhex h \<noteq> None) hops"
    unfolding list_all_iff using all \<open>c = 2 * (m + 1)\<close> by simp
  moreover have "n * (m + 1) \<le> 64" using b r(2) \<open>c = 2 * (m + 1)\<close> by simp
  ultimately show ?thesis by (intro that [OF r(1,2) h])
qed

lemma length_concat_all: "list_all (\<lambda>h. length h = k) xs \<Longrightarrow> length (concat xs) = length xs * k"
  by (induction xs) auto

text \<open>an accepted explicit route has between one and 64 path bytes, a path text of exactly
  \<open>hops * 2 * hash_size\<close> characters that splits back into its hops, and, up to the 63 hops the
  path byte can count, is a fixed point of the route normalisation applied when it is read back.\<close>

theorem explicit_route_shape:
  assumes "parse_explicit_hop_route t = Inr (p, n, m)"
  shows "1 \<le> n \<and> m \<le> 2 \<and> n * (m + 1) \<le> 64 \<and> length p = n * (2 * (m + 1))
    \<and> length (split_path_hex p (int n)) = n
    \<and> (n \<le> 63 \<longrightarrow> normalize_contact_route (Some p) (Some (int n)) (Some (int m)) = (p, int n, int m))"
proof -
  from explicit_route_obtain [OF assms] obtain hops where
    h: "p = concat hops" "n = length hops" "hops \<noteq> []" "m \<le> 2"
      "list_all (\<lambda>h. length h = 2 * (m + 1) \<and> fromhex h \<noteq> None) hops" "n * (m + 1) \<le> 64"
    by blast
  have len: "length p = n * (2 * (m + 1))"
    using h length_concat_all [of "2 * (m + 1)" hops] by (simp add: list_all_iff)
  have n: "1 \<le> n" using h by (simp add: Suc_le_eq)
  have "length (split_path_hex p (int n)) = n"
    using split_path_hex_hops [of "m + 1" n p] n len by simp
  moreover have "normalize_contact_route (Some p) (Some (int n)) (Some (int m)) = (p, int n, int m)"
    if "n \<le> 63"
  proof -
    have "int (length p div 2) = int n * (int m + 1)" using len by (simp add: algebra_simps)
    moreover have "int m = 0 \<or> int m = 1 \<or> int m = 2" using h(4) by linarith
    ultimately show ?thesis using that n
      by (simp add: normalize_in_range route_tail_def fit_route_def Let_def)
  qed
  ultimately show ?thesis using h n len by simp
qed

theorem explicit_route_shape_witness:
  "parse_explicit_hop_route '' A1b2, c3D4 '' = Inr (''a1b2c3d4'', 2, 1)
   \<and> length (split_path_hex ''a1b2c3d4'' 2) = 2
   \<and> normalize_contact_route (Some ''a1b2c3d4'') (Some 2) (Some 1) = (''a1b2c3d4'', 2, 1)"
proof -
  have h: "parse_explicit_hop_route '' A1b2, c3D4 '' = Inr (''a1b2c3d4'', 2, 1)"
    by code_simp
  show ?thesis using h explicit_route_shape [OF h] by simp
qed

text \<open>Sixty-four one-byte hops pass the explicit-route check although the path byte counts to 63; the
  route comes back from the normalisation with no hop at all.\<close>

theorem explicit_route_64_hops_lost:
  "parse_explicit_hop_route (concat (replicate 64 ''aa,'')) = Inr (concat (replicate 64 ''aa''), 64, 0)
   \<and> normalize_contact_route (Some (concat (replicate 64 ''aa''))) (Some 64) (Some 0) = ([], 0, 1)"
  by (rule conjI; code_simp)

text \<open>
  \<open>bytes.fromhex\<close> skips white space between byte pairs, so a hop with inner blanks passes as a
  three-byte hop while it holds two bytes.
\<close>

lemma explicit_route_inner_space:
  "parse_explicit_hop_route ''a1  b2'' = Inr (''a1  b2'', 1, 2) \<and> fromhex ''a1  b2'' = Some [0xA1, 0xB2]"
  by (rule conjI; code_simp)

section \<open>Statistics\<close>

definition parsed_rows :: "bytes list \<Rightarrow> ParsedPacketEnvelope list" where
  "parsed_rows rows = List.map_filter parse_packet_envelope rows"

lemma parsed_rows_simps [simp]:
  "parsed_rows [] = []"
  "parsed_rows (r # rs) = (case parse_packet_envelope r of None \<Rightarrow> parsed_rows rs | Some e \<Rightarrow> e # parsed_rows rs)"
  by (auto simp: parsed_rows_def List.map_filter_simps split: option.splits)

lemma hash_size_parsed: "parse_packet_envelope r = Some e \<Longrightarrow> env_hash_size e \<in> {1, 2, 3}"
  by (auto dest!: parse_packet_envelope_wf simp: wf_envelope_def)

lemma count_hash_widths_eq:
  "count_hash_widths rows (s, d, t) =
     (s + length (filter (\<lambda>e. env_hash_size e = 1) (parsed_rows rows)),
      d + length (filter (\<lambda>e. env_hash_size e = 2) (parsed_rows rows)),
      t + length (filter (\<lambda>e. env_hash_size e = 3) (parsed_rows rows)))"
  by (induction rows "(s, d, t)" arbitrary: s d t rule: count_hash_widths.induct)
    (auto split: option.splits)

lemma bucket_path_hash_widths_total:
  "total_packets (bucket_path_hash_widths rows) = length (parsed_rows rows)
   \<and> single_byte (bucket_path_hash_widths rows) + double_byte (bucket_path_hash_widths rows)
       + triple_byte (bucket_path_hash_widths rows) = length (parsed_rows rows)
   \<and> (parsed_rows rows \<noteq> [] \<longrightarrow>
        single_byte_pct (bucket_path_hash_widths rows) + double_byte_pct (bucket_path_hash_widths rows)
          + triple_byte_pct (bucket_path_hash_widths rows) = 100)"
proof -
  have p: "length (filter (\<lambda>e. env_hash_size e = 1) (parsed_rows rows))
      + length (filter (\<lambda>e. env_hash_size e = 2) (parsed_rows rows))
      + length (filter (\<lambda>e. env_hash_size e = 3) (parsed_rows rows)) = length (parsed_rows rows)"
    by (induction rows) (use hash_size_parsed in \<open>fastforce split: option.splits\<close>)+
  define s d t where "s = length (filter (\<lambda>e. env_hash_size e = 1) (parsed_rows rows))"
    and "d = length (filter (\<lambda>e. env_hash_size e = 2) (parsed_rows rows))"
    and "t = length (filter (\<lambda>e. env_hash_size e = 3) (parsed_rows rows))"
  have b: "bucket_path_hash_widths rows = (let total = s + d + t
        in if total = 0
           then \<lparr>total_packets = 0, single_byte = 0, double_byte = 0, triple_byte = 0,
                 single_byte_pct = 0, double_byte_pct = 0, triple_byte_pct = 0\<rparr>
           else \<lparr>total_packets = total, single_byte = s, double_byte = d, triple_byte = t,
                 single_byte_pct = real s / real total * 100,
                 double_byte_pct = real d / real total * 100,
                 triple_byte_pct = real t / real total * 100\<rparr>)"
    unfolding bucket_path_hash_widths_def count_hash_widths_eq s_def d_def t_def add_0 prod.case ..
  have pct: "real s / real n * 100 + real d / real n * 100 + real t / real n * 100 = 100"
    if "n = s + d + t" "n \<noteq> 0" for n
  proof -
    have "real s / real n * 100 + real d / real n * 100 + real t / real n * 100
        = (real s + real d + real t) / real n * 100"
      by (simp add: add_divide_distrib distrib_right)
    also have "real s + real d + real t = real n" using that by simp
    also have "real n / real n * 100 = 100" using that(2) by simp
    finally show ?thesis .
  qed
  have len: "s + d + t = length (parsed_rows rows)" using p by (simp add: s_def d_def t_def)
  show ?thesis unfolding b Let_def using pct [OF refl] len by auto
qed

definition flood_group_text :: "ParsedPacketEnvelope \<Rightarrow> bool" where
  "flood_group_text e \<longleftrightarrow> env_payload_type e = 5 \<and> env_route_type e \<in> {0, 1}"

lemma codes_parsed:
  "parse_packet_envelope r = Some e \<Longrightarrow> env_transport_codes e \<noteq> None \<longleftrightarrow> env_route_type e \<in> {0, 3}"
  using wf_envelope_codes [of e] by (auto dest: parse_packet_envelope_wf split: option.splits)

lemma count_region_scope_eq:
  "count_region_scope rows (a, b, c) =
     (a + length (filter flood_group_text (parsed_rows rows)),
      b + length (filter (\<lambda>e. env_payload_type e = 5 \<and> env_route_type e = 0) (parsed_rows rows)),
      c + length (filter (\<lambda>e. env_route_type e = 0 \<and> env_payload_type e \<in> {12, 13, 14}) (parsed_rows rows)))"
  by (induction rows "(a, b, c)" arbitrary: a b c rule: count_region_scope.induct)
    (auto simp: flood_group_text_def dest: codes_parsed split: option.splits)

section \<open>Packet hash\<close>

text \<open>the packet hash depends on the payload type and the payload only (and, for TRACE, on the
  path byte): copies of one packet that travelled different routes, flooded or scoped, hash alike.\<close>

theorem packet_hash_route_independent:
  assumes "parse_packet_envelope a = Some e" and "parse_packet_envelope b = Some f"
    and "env_payload_type e = env_payload_type f" and "env_payload e = env_payload f"
    and "env_payload_type e \<noteq> 9 \<or> env_path_byte e = env_path_byte f"
  shows "calculate_packet_hash sha256 a = calculate_packet_hash sha256 b"
proof -
  have "a \<noteq> []" "b \<noteq> []" using assms(1,2) by (auto simp: parse_packet_envelope_def)
  then show ?thesis using assms by (auto simp: calculate_packet_hash_def)
qed

theorem packet_hash_route_independent_witness:
  "calculate_packet_hash (\<lambda>d. d @ replicate 32 0) [0x15, 0x01, 0xAA, 7, 8]
   = calculate_packet_hash (\<lambda>d. d @ replicate 32 0) [0x14, 1, 2, 3, 4, 0x00, 7, 8]"
proof -
  have a: "parse_packet_envelope [0x15, 0x01, 0xAA, 7, 8] =
      Some \<lparr>env_header = 21, env_route_type = 1, env_payload_type = 5, env_payload_version = 0,
        env_path_byte = 1, env_hop_count = 1, env_hash_size = 1, env_path_byte_len = 1,
        env_path = [0xAA], env_payload = [7, 8], env_payload_offset = 3, env_transport_codes = None\<rparr>"
    by code_simp
  have b: "parse_packet_envelope [0x14, 1, 2, 3, 4, 0x00, 7, 8] =
      Some \<lparr>env_header = 20, env_route_type = 0, env_payload_type = 5, env_payload_version = 0,
        env_path_byte = 0, env_hop_count = 0, env_hash_size = 1, env_path_byte_len = 0,
        env_path = [], env_payload = [7, 8], env_payload_offset = 6,
        env_transport_codes = Some (513, 1027)\<rparr>"
    by code_simp
  show ?thesis by (rule packet_hash_route_independent [OF a b]) simp_all
qed

end
