(* ===== verification/Contact.thy ===== *)
theory Contact
  imports Path
begin

text \<open>
  Stored contacts (\<open>src/app/models.py\<close>): the route fields a contact carries, the normalisation its
  constructor runs, the effective route every sender uses, and the conversion of a radio contact
  into the row that is written.
\<close>

section \<open>Floats\<close>

text \<open>A Python float: a real number, an infinity or a NaN. Arithmetic on finite values is exact here.\<close>

datatype pyfloat = Finite real | PosInf | NegInf | NaN

definition float_between :: "real \<Rightarrow> real \<Rightarrow> pyfloat \<Rightarrow> bool" where
  "float_between lo hi v = (case v of Finite x \<Rightarrow> lo \<le> x \<and> x \<le> hi | _ \<Rightarrow> False)"

text \<open>\<open>round(x)\<close>: to the nearest integer, ties to even; \<open>round(x * k)\<close> raises for a NaN or an infinity.\<close>

definition py_round :: "real \<Rightarrow> int" where
  "py_round x =
     (let f = \<lfloor>x\<rfloor>; d = x - of_int f
      in if d < 1 / 2 then f else if d > 1 / 2 then f + 1 else if even f then f else f + 1)"

fun round_scaled :: "real \<Rightarrow> pyfloat \<Rightarrow> int res" where
  "round_scaled k (Finite x) = Inr (py_round (x * k))"
| "round_scaled k PosInf = Inl OverflowError"
| "round_scaled k NegInf = Inl OverflowError"
| "round_scaled k NaN = Inl ValueError"

section \<open>Records\<close>

record ContactRoute =
  cr_path :: string
  cr_path_len :: int
  cr_path_hash_mode :: int

datatype route_source = SrcOverride | SrcDirect | SrcFlood

record Contact =
  c_public_key :: string
  c_name :: "ustr option"
  c_type :: int
  c_flags :: int
  c_direct_path :: "string option"
  c_direct_path_len :: int
  c_direct_path_hash_mode :: int
  c_direct_path_updated_at :: "int option"
  c_route_override_path :: "string option"
  c_route_override_len :: "int option"
  c_route_override_hash_mode :: "int option"
  c_last_advert :: "int option"
  c_lat :: "pyfloat option"
  c_lon :: "pyfloat option"
  c_last_seen :: "int option"
  c_on_radio :: bool
  c_favorite :: bool
  c_last_contacted :: "int option"
  c_first_seen :: "int option"
  c_effective_route :: "ContactRoute option"
  c_effective_route_source :: route_source
  c_direct_route :: "ContactRoute option"
  c_route_override :: "ContactRoute option"

definition has_route_override :: "Contact \<Rightarrow> bool" where
  "has_route_override c \<longleftrightarrow> c_route_override_len c \<noteq> None"

definition effective_route_tuple :: "Contact \<Rightarrow> string \<times> int \<times> int" where
  "effective_route_tuple c =
     (if has_route_override c
      then normalize_contact_route (c_route_override_path c) (c_route_override_len c) (c_route_override_hash_mode c)
      else if c_direct_path_len c \<ge> 0
      then normalize_contact_route (c_direct_path c) (Some (c_direct_path_len c)) (Some (c_direct_path_hash_mode c))
      else ([], -1, -1))"

text \<open>\<open>p or None\<close> for a string.\<close>

definition or_none :: "string option \<Rightarrow> string option" where
  "or_none p = (case p of None \<Rightarrow> None | Some s \<Rightarrow> if s = [] then None else Some s)"

definition route_of :: "string \<times> int \<times> int \<Rightarrow> ContactRoute" where
  "route_of r = (case r of (p, l, m) \<Rightarrow> \<lparr>cr_path = p, cr_path_len = l, cr_path_hash_mode = m\<rparr>)"

definition model_post_init :: "Contact \<Rightarrow> Contact" where
  "model_post_init c0 =
     (case normalize_contact_route (c_direct_path c0) (Some (c_direct_path_len c0)) (Some (c_direct_path_hash_mode c0)) of
        (dp, dl, dm) \<Rightarrow>
      case normalize_route_override (c_route_override_path c0) (c_route_override_len c0) (c_route_override_hash_mode c0) of
        (op, ol, om) \<Rightarrow>
      let c1 = c0\<lparr>c_direct_path := or_none (Some dp), c_direct_path_len := dl, c_direct_path_hash_mode := dm,
                  c_route_override_path := or_none op, c_route_override_len := ol, c_route_override_hash_mode := om,
                  c_route_override := (case (op, ol, om) of
                      (Some p, Some l, Some m) \<Rightarrow> Some \<lparr>cr_path = p, cr_path_len = l, cr_path_hash_mode = m\<rparr>
                    | _ \<Rightarrow> None),
                  c_direct_route := (if dl \<ge> 0 then Some \<lparr>cr_path = dp, cr_path_len = dl, cr_path_hash_mode = dm\<rparr> else None)\<rparr>
      in c1\<lparr>c_effective_route_source :=
              (if has_route_override c1 then SrcOverride
               else if c_direct_route c1 \<noteq> None then SrcDirect else SrcFlood),
            c_effective_route := Some (route_of (effective_route_tuple c1))\<rparr>)"

section \<open>Radio contacts\<close>

text \<open>The dict of a radio contact: a key that is absent is \<^const>\<open>None\<close>.\<close>

record RadioContact =
  rd_public_key :: string
  rd_adv_name :: "ustr option"
  rd_type :: "int option"
  rd_flags :: "int option"
  rd_out_path :: "string option"
  rd_out_path_len :: "int option"
  rd_out_path_hash_mode :: "int option"
  rd_adv_lat :: "pyfloat option"
  rd_adv_lon :: "pyfloat option"
  rd_last_advert :: "int option"

record ContactUpsert =
  cu_public_key :: string
  cu_name :: "ustr option"
  cu_type :: int
  cu_flags :: int
  cu_direct_path :: string
  cu_direct_path_len :: int
  cu_direct_path_hash_mode :: int
  cu_lat :: "pyfloat option"
  cu_lon :: "pyfloat option"
  cu_last_advert :: "int option"
  cu_on_radio :: bool

definition get_or :: "'a \<Rightarrow> 'a option \<Rightarrow> 'a" where
  "get_or d v = (case v of None \<Rightarrow> d | Some x \<Rightarrow> x)"

definition from_radio_dict :: "string \<Rightarrow> RadioContact \<Rightarrow> bool \<Rightarrow> ContactUpsert" where
  "from_radio_dict public_key rd on_radio =
     (case normalize_contact_route (rd_out_path rd) (Some (get_or (-1) (rd_out_path_len rd)))
             (Some (get_or (if get_or (-1) (rd_out_path_len rd) = -1 then -1 else 0) (rd_out_path_hash_mode rd))) of
        (direct_path, direct_path_len, direct_path_hash_mode) \<Rightarrow>
      let raw_type = get_or 0 (rd_type rd)
      in \<lparr>cu_public_key = public_key,
          cu_name = rd_adv_name rd,
          cu_type = (if raw_type \<in> {0, 1, 2, 3, 4} then raw_type else 0),
          cu_flags = get_or 0 (rd_flags rd),
          cu_direct_path = direct_path, cu_direct_path_len = direct_path_len, cu_direct_path_hash_mode = direct_path_hash_mode,
          cu_lat = (case rd_adv_lat rd of None \<Rightarrow> None | Some v \<Rightarrow> if \<not> float_between (-90) 90 v then None else Some v),
          cu_lon = (case rd_adv_lon rd of None \<Rightarrow> None | Some v \<Rightarrow> if \<not> float_between (-180) 180 v then None else Some v),
          cu_last_advert = rd_last_advert rd,
          cu_on_radio = on_radio\<rparr>)"

definition to_radio_dict :: "Contact \<Rightarrow> RadioContact" where
  "to_radio_dict c =
     (case effective_route_tuple c of (p, l, m) \<Rightarrow>
        \<lparr>rd_public_key = c_public_key c, rd_adv_name = Some (get_or [] (c_name c)), rd_type = Some (c_type c),
         rd_flags = Some (c_flags c), rd_out_path = Some p, rd_out_path_len = Some l, rd_out_path_hash_mode = Some m,
         rd_adv_lat = Some (get_or (Finite 0) (c_lat c)), rd_adv_lon = Some (get_or (Finite 0) (c_lon c)),
         rd_last_advert = Some (get_or 0 (c_last_advert c))\<rparr>)"

section \<open>Lemmas\<close>

lemma py_round_error: "\<bar>of_int (py_round x) - x\<bar> \<le> 1 / 2"
proof -
  have "0 \<le> x - of_int \<lfloor>x\<rfloor>" "x - of_int \<lfloor>x\<rfloor> < 1" by linarith+
  then show ?thesis by (simp add: py_round_def Let_def abs_le_iff)
qed

lemma py_round_of_int [simp]: "py_round (of_int z) = z"
  by (simp add: py_round_def)

lemma or_none_some [simp]: "or_none (Some s) = (if s = [] then None else Some s)"
  by (simp add: or_none_def)

lemma or_none_None [simp]: "or_none None = None"
  by (simp add: or_none_def)

text \<open>A stored hop count that the normalisation can read: in range, or a packed path byte of a supported mode.\<close>

definition readable_len :: "int option \<Rightarrow> bool" where
  "readable_len pl \<longleftrightarrow> (case pl of None \<Rightarrow> True | Some n \<Rightarrow> (-1 \<le> n \<and> n \<le> 63) \<or> n mod 256 = 255 \<or> nat (n mod 256) div 64 \<noteq> 3)"

definition flood_or_route :: "string \<times> int \<times> int \<Rightarrow> bool" where
  "flood_or_route r \<longleftrightarrow> (case r of (p, l, m) \<Rightarrow> p = [] \<and> l = -1 \<and> m = -1 \<or> 0 \<le> l \<and> l \<le> 63 \<and> m \<in> {0, 1, 2})"

lemma normalize_readable:
  assumes "readable_len pl" and "normalize_contact_route ph pl mo = (p, l, m)"
  shows "flood_or_route (p, l, m) \<and> normalize_contact_route (Some p) (Some l) (Some m) = (p, l, m)"
proof -
  have "\<forall>n. pl = Some n \<longrightarrow> (-1 \<le> n \<and> n \<le> 63) \<or> n mod 256 = 255 \<or> nat (n mod 256) div 64 \<noteq> 3"
    using assms(1) by (auto simp: readable_len_def split: option.splits)
  from normalize_normal [OF this assms(2)] show ?thesis by (simp add: flood_or_route_def)
qed

lemma normalize_empty_path: "normalize_contact_route None pl mo = normalize_contact_route (Some []) pl mo"
  by (simp add: normalize_contact_route_def)

lemma normalize_or_none [simp]:
  "normalize_contact_route (or_none (Some p)) pl mo = normalize_contact_route (Some p) pl mo"
  by (simp add: normalize_empty_path)

lemma normalize_flood [simp]: "normalize_contact_route ph (Some (-1)) mo = ([], -1, -1)"
  by (simp add: normalize_contact_route_def Let_def)

lemma normalize_override_readable:
  assumes "readable_len pl" and "normalize_route_override ph pl mo = (p, l, m)"
  shows "pl = None \<and> p = None \<and> l = None \<and> m = None
    \<or> (\<exists>q k h. p = Some q \<and> l = Some k \<and> m = Some h \<and> flood_or_route (q, k, h)
        \<and> normalize_contact_route (Some q) (Some k) (Some h) = (q, k, h))"
  using assms normalize_readable [OF assms(1)]
  by (auto simp: normalize_route_override_def split: option.splits prod.splits)

text \<open>What a constructed contact looks like: both stored routes are fixed points and the derived routes agree with them.\<close>

lemma post_init_parts:
  assumes "readable_len (Some (c_direct_path_len c))" and "readable_len (c_route_override_len c)"
  obtains dp dl dm op ol om where
    "model_post_init c = c\<lparr>c_direct_path := or_none (Some dp), c_direct_path_len := dl, c_direct_path_hash_mode := dm,
        c_route_override_path := or_none op, c_route_override_len := ol, c_route_override_hash_mode := om,
        c_route_override := (case ol of None \<Rightarrow> None | Some _ \<Rightarrow> Some (route_of (the op, the ol, the om))),
        c_direct_route := (if dl \<ge> 0 then Some (route_of (dp, dl, dm)) else None),
        c_effective_route_source := (if ol \<noteq> None then SrcOverride else if dl \<ge> 0 then SrcDirect else SrcFlood),
        c_effective_route := Some (route_of (if ol \<noteq> None then (the op, the ol, the om) else if dl \<ge> 0 then (dp, dl, dm) else ([], -1, -1)))\<rparr>"
    "flood_or_route (dp, dl, dm)" "normalize_contact_route (Some dp) (Some dl) (Some dm) = (dp, dl, dm)"
    "ol = None \<and> op = None \<and> om = None \<or> (\<exists>q k h. op = Some q \<and> ol = Some k \<and> om = Some h \<and> flood_or_route (q, k, h)
        \<and> normalize_contact_route (Some q) (Some k) (Some h) = (q, k, h))"
proof -
  obtain dp dl dm where d: "normalize_contact_route (c_direct_path c) (Some (c_direct_path_len c)) (Some (c_direct_path_hash_mode c)) = (dp, dl, dm)"
    by (metis prod_cases3)
  obtain op ol om where ov: "normalize_route_override (c_route_override_path c) (c_route_override_len c) (c_route_override_hash_mode c) = (op, ol, om)"
    by (metis prod_cases3)
  note D = normalize_readable [OF assms(1) d]
  note OV = normalize_override_readable [OF assms(2) ov]
  have "model_post_init c = c\<lparr>c_direct_path := or_none (Some dp), c_direct_path_len := dl, c_direct_path_hash_mode := dm,
        c_route_override_path := or_none op, c_route_override_len := ol, c_route_override_hash_mode := om,
        c_route_override := (case ol of None \<Rightarrow> None | Some _ \<Rightarrow> Some (route_of (the op, the ol, the om))),
        c_direct_route := (if dl \<ge> 0 then Some (route_of (dp, dl, dm)) else None),
        c_effective_route_source := (if ol \<noteq> None then SrcOverride else if dl \<ge> 0 then SrcDirect else SrcFlood),
        c_effective_route := Some (route_of (if ol \<noteq> None then (the op, the ol, the om) else if dl \<ge> 0 then (dp, dl, dm) else ([], -1, -1)))\<rparr>"
    using OV
  proof (elim disjE exE conjE)
    assume "op = None" "ol = None" "om = None"
    then show ?thesis using D
      by (simp add: model_post_init_def d ov Let_def effective_route_tuple_def has_route_override_def route_of_def normalize_empty_path
          del: or_none_some)
  next
    fix q k h
    assume "op = Some q" "ol = Some k" "om = Some h" "normalize_contact_route (Some q) (Some k) (Some h) = (q, k, h)"
    then show ?thesis
      by (simp add: model_post_init_def d ov Let_def effective_route_tuple_def has_route_override_def route_of_def normalize_empty_path
          del: or_none_some)
  qed
  then show thesis using D OV that by blast
qed

text \<open>Constructing a contact from a row whose hop counts are readable settles it: constructing it again changes nothing,
  and the effective route is the one its source names: the override when there is one, else the learned direct route, else flood.\<close>

theorem contact_routes_settle:
  assumes "readable_len (Some (c_direct_path_len c))" and "readable_len (c_route_override_len c)"
  shows "model_post_init (model_post_init c) = model_post_init c
    \<and> c_effective_route (model_post_init c) =
       (case c_effective_route_source (model_post_init c) of
          SrcOverride \<Rightarrow> c_route_override (model_post_init c)
        | SrcDirect \<Rightarrow> c_direct_route (model_post_init c)
        | SrcFlood \<Rightarrow> Some \<lparr>cr_path = [], cr_path_len = -1, cr_path_hash_mode = -1\<rparr>)
    \<and> flood_or_route (effective_route_tuple (model_post_init c))"
proof -
  obtain dp dl dm op ol om where
    eq: "model_post_init c = c\<lparr>c_direct_path := or_none (Some dp), c_direct_path_len := dl, c_direct_path_hash_mode := dm,
        c_route_override_path := or_none op, c_route_override_len := ol, c_route_override_hash_mode := om,
        c_route_override := (case ol of None \<Rightarrow> None | Some _ \<Rightarrow> Some (route_of (the op, the ol, the om))),
        c_direct_route := (if dl \<ge> 0 then Some (route_of (dp, dl, dm)) else None),
        c_effective_route_source := (if ol \<noteq> None then SrcOverride else if dl \<ge> 0 then SrcDirect else SrcFlood),
        c_effective_route := Some (route_of (if ol \<noteq> None then (the op, the ol, the om) else if dl \<ge> 0 then (dp, dl, dm) else ([], -1, -1)))\<rparr>"
    and d: "flood_or_route (dp, dl, dm)" "normalize_contact_route (Some dp) (Some dl) (Some dm) = (dp, dl, dm)"
    and ov: "ol = None \<and> op = None \<and> om = None \<or> (\<exists>q k h. op = Some q \<and> ol = Some k \<and> om = Some h \<and> flood_or_route (q, k, h)
        \<and> normalize_contact_route (Some q) (Some k) (Some h) = (q, k, h))"
    by (rule post_init_parts [OF assms])
  from ov show ?thesis
  proof (elim disjE exE conjE)
    assume "op = None" "ol = None" "om = None"
    then show ?thesis using d unfolding eq
      by (simp add: model_post_init_def Let_def effective_route_tuple_def has_route_override_def route_of_def
          normalize_route_override_def flood_or_route_def del: or_none_some) auto
  next
    fix q k h
    assume "op = Some q" "ol = Some k" "om = Some h" "flood_or_route (q, k, h)" "normalize_contact_route (Some q) (Some k) (Some h) = (q, k, h)"
    then show ?thesis using d unfolding eq
      by (simp add: model_post_init_def Let_def effective_route_tuple_def has_route_override_def route_of_def
          normalize_route_override_def flood_or_route_def del: or_none_some)
  qed
qed

definition demo_contact :: Contact where
  "demo_contact = \<lparr>c_public_key = hex_of (replicate 32 7), c_name = Some [0x42, 0x6F, 0x62], c_type = 1, c_flags = 4,
     c_direct_path = Some ''abcdef'', c_direct_path_len = 3, c_direct_path_hash_mode = 0, c_direct_path_updated_at = None,
     c_route_override_path = None, c_route_override_len = None, c_route_override_hash_mode = None,
     c_last_advert = Some 1700000000, c_lat = Some (Finite (45 / 2)), c_lon = Some (Finite (- 3)), c_last_seen = None, c_on_radio = False,
     c_favorite = True, c_last_contacted = None, c_first_seen = None, c_effective_route = None,
     c_effective_route_source = SrcFlood, c_direct_route = None, c_route_override = None\<rparr>"

lemma demo_contact_route: "effective_route_tuple demo_contact = (''abcdef'', 3, 0)"
  by (simp add: effective_route_tuple_def has_route_override_def demo_contact_def normalize_contact_route_def pybits)

theorem contact_routes_settle_witness:
  "flood_or_route (effective_route_tuple (model_post_init demo_contact))"
  using contact_routes_settle [of demo_contact] by (simp add: readable_len_def demo_contact_def)

text \<open>A contact read off the radio is stored with a known type, coordinates on the globe or none, and a route the rest of
  the program can use; what the radio said is kept where it was already so.\<close>

theorem radio_contact_sanitised:
  assumes "readable_len (Some (get_or (-1) (rd_out_path_len rd)))" and "u = from_radio_dict key rd on_radio"
  shows "cu_type u \<in> {0, 1, 2, 3, 4} \<and> (get_or 0 (rd_type rd) \<in> {0, 1, 2, 3, 4} \<longrightarrow> cu_type u = get_or 0 (rd_type rd))
    \<and> pred_option (float_between (-90) 90) (cu_lat u) \<and> pred_option (float_between (-180) 180) (cu_lon u)
    \<and> (pred_option (float_between (-90) 90) (rd_adv_lat rd) \<longrightarrow> cu_lat u = rd_adv_lat rd)
    \<and> (pred_option (float_between (-180) 180) (rd_adv_lon rd) \<longrightarrow> cu_lon u = rd_adv_lon rd)
    \<and> flood_or_route (cu_direct_path u, cu_direct_path_len u, cu_direct_path_hash_mode u)
    \<and> normalize_contact_route (Some (cu_direct_path u)) (Some (cu_direct_path_len u)) (Some (cu_direct_path_hash_mode u))
        = (cu_direct_path u, cu_direct_path_len u, cu_direct_path_hash_mode u)"
proof -
  let ?mo = "Some (get_or (if get_or (-1) (rd_out_path_len rd) = -1 then -1 else 0) (rd_out_path_hash_mode rd))"
  obtain p l m where n: "normalize_contact_route (rd_out_path rd) (Some (get_or (-1) (rd_out_path_len rd))) ?mo = (p, l, m)"
    by (metis prod_cases3)
  show ?thesis using normalize_readable [OF assms(1) n]
    by (auto simp: assms(2) from_radio_dict_def n Let_def split: option.splits)
qed

theorem radio_contact_sanitised_witness:
  "cu_type (from_radio_dict ''00'' \<lparr>rd_public_key = ''00'', rd_adv_name = None, rd_type = Some 240, rd_flags = None, rd_out_path = None,
     rd_out_path_len = Some 255, rd_out_path_hash_mode = None, rd_adv_lat = Some NaN, rd_adv_lon = None, rd_last_advert = None\<rparr> False)
     \<in> {0, 1, 2, 3, 4}"
  using radio_contact_sanitised [OF _ refl, of "\<lparr>rd_public_key = ''00'', rd_adv_name = None, rd_type = Some 240, rd_flags = None, rd_out_path = None,
     rd_out_path_len = Some 255, rd_out_path_hash_mode = None, rd_adv_lat = Some NaN, rd_adv_lon = None, rd_last_advert = None\<rparr>" "''00''" False]
  by (simp add: readable_len_def get_or_def)

end
