(* ===== verification/Decoder.thy ===== *)
theory Decoder
  imports Contact
begin

text \<open>
  The packet decoder (\<open>src/app/decoder.py\<close>): typed packets, channel text and binary decryption,
  advertisements and their signature, direct messages and returned paths. The primitives come from
  libraries and are a parameter, the record \<open>crypto\<close>: the two hashes, AES-128 in ECB mode
  (\<^const>\<open>None\<close> where the library raises), Ed25519 verification and the curve operations. The text
  method \<open>isalnum\<close> depends on the Unicode tables and is a parameter too.
\<close>

record crypto =
  sha256 :: "bytes \<Rightarrow> bytes"
  hmac_sha256 :: "bytes \<Rightarrow> bytes \<Rightarrow> bytes"
  aes_decrypt :: "bytes \<Rightarrow> bytes \<Rightarrow> bytes option"
  ed25519_verify :: "bytes \<Rightarrow> bytes \<Rightarrow> bytes \<Rightarrow> bool"
  base_noclamp :: "bytes \<Rightarrow> bytes option"
  pk_to_curve25519 :: "bytes \<Rightarrow> bytes option"
  scalarmult :: "bytes \<Rightarrow> bytes \<Rightarrow> bytes option"

section \<open>Packets\<close>

datatype PayloadType = REQUEST | RESPONSE | TEXT_MESSAGE | ACK | ADVERT | GROUP_TEXT | GROUP_DATA | ANON_REQUEST
  | PATH | TRACE | MULTIPART | CONTROL | RAW_CUSTOM

definition payload_type_of :: "nat \<Rightarrow> PayloadType option" where
  "payload_type_of n =
     map_of [(0, REQUEST), (1, RESPONSE), (2, TEXT_MESSAGE), (3, ACK), (4, ADVERT), (5, GROUP_TEXT), (6, GROUP_DATA),
             (7, ANON_REQUEST), (8, PATH), (9, TRACE), (10, MULTIPART), (11, CONTROL), (15, RAW_CUSTOM)] n"

datatype RouteType = TRANSPORT_FLOOD | FLOOD | DIRECT | TRANSPORT_DIRECT

definition route_type_of :: "nat \<Rightarrow> RouteType option" where
  "route_type_of n = map_of [(0, TRANSPORT_FLOOD), (1, FLOOD), (2, DIRECT), (3, TRANSPORT_DIRECT)] n"

record PacketInfo =
  pi_route_type :: RouteType
  pi_payload_type :: PayloadType
  pi_payload_version :: nat
  pi_path_length :: nat
  pi_path :: bytes
  pi_payload :: bytes
  pi_path_hash_size :: nat
  pi_transport_codes :: "(nat \<times> nat) option"

definition extract_payload :: "bytes \<Rightarrow> bytes option" where
  "extract_payload raw_packet = map_option env_payload (parse_packet_envelope raw_packet)"

definition parse_packet :: "bytes \<Rightarrow> PacketInfo option" where
  "parse_packet raw_packet =
     (case parse_packet_envelope raw_packet of
        None \<Rightarrow> None
      | Some e \<Rightarrow>
          (case (route_type_of (env_route_type e), payload_type_of (env_payload_type e)) of
             (Some rt, Some pt) \<Rightarrow>
               Some \<lparr>pi_route_type = rt, pi_payload_type = pt, pi_payload_version = env_payload_version e,
                     pi_path_length = env_hop_count e, pi_path = env_path e, pi_payload = env_payload e,
                     pi_path_hash_size = env_hash_size e, pi_transport_codes = env_transport_codes e\<rparr>
           | _ \<Rightarrow> None))"

definition get_packet_payload_type :: "bytes \<Rightarrow> PayloadType option" where
  "get_packet_payload_type raw_packet =
     (if length raw_packet < 1 then None else payload_type_of (drop_bit 2 (unat (raw_packet ! 0)) AND 15))"

section \<open>Channel messages\<close>

text \<open>The steps the four decryptors share: block alignment, the two-byte MAC, then AES.\<close>

definition unseal :: "crypto \<Rightarrow> bytes \<Rightarrow> bytes \<Rightarrow> bytes \<Rightarrow> bytes \<Rightarrow> bytes option" where
  "unseal cr mac_key aes_key mac ciphertext =
     (if length ciphertext = 0 \<or> length ciphertext mod 16 \<noteq> 0 then None
      else if take 2 (hmac_sha256 cr mac_key ciphertext) \<noteq> mac then None
      else aes_decrypt cr aes_key ciphertext)"

text \<open>Strict UTF-8, cut at the first NUL.\<close>

definition text_until_null :: "bytes \<Rightarrow> ustr option" where
  "text_until_null bs = map_option (takeWhile (\<lambda>c. c \<noteq> 0)) (utf8_decode bs)"

record DecryptedGroupText =
  gt_timestamp :: nat
  gt_flags :: nat
  gt_sender :: "ustr option"
  gt_message :: ustr
  gt_channel_hash :: string

text \<open>The \<open>"sender: message"\<close> convention.\<close>

definition split_sender :: "ustr \<Rightarrow> ustr option \<times> ustr" where
  "split_sender message_text =
     (case find_sub [0x3A, 0x20] message_text of
        None \<Rightarrow> (None, message_text)
      | Some colon_idx \<Rightarrow>
          if 0 < colon_idx \<and> colon_idx < 50
             \<and> \<not> list_ex (\<lambda>c. c \<in> {0x3A, 0x5B, 0x5D, 0}) (take colon_idx message_text)
          then (Some (take colon_idx message_text), drop (colon_idx + 2) message_text)
          else (None, message_text))"

definition decrypt_group_text :: "crypto \<Rightarrow> bytes \<Rightarrow> bytes \<Rightarrow> DecryptedGroupText option" where
  "decrypt_group_text cr payload channel_key =
     (if length payload < 3 then None
      else
        case unseal cr (channel_key @ replicate 16 0) channel_key (slice 1 3 payload) (drop 3 payload) of
          None \<Rightarrow> None
        | Some decrypted \<Rightarrow>
            if length decrypted < 5 then None
            else
              (case text_until_null (drop 5 decrypted) of
                 None \<Rightarrow> None
               | Some message_text \<Rightarrow>
                   (case split_sender message_text of (sender, content) \<Rightarrow>
                      Some \<lparr>gt_timestamp = from_le (slice 0 4 decrypted), gt_flags = unat (decrypted ! 4), gt_sender = sender,
                            gt_message = content, gt_channel_hash = hex_byte (payload ! 0)\<rparr>)))"

definition try_decrypt_packet_with_channel_key :: "crypto \<Rightarrow> bytes \<Rightarrow> bytes \<Rightarrow> DecryptedGroupText option" where
  "try_decrypt_packet_with_channel_key cr raw_packet channel_key =
     (case parse_packet raw_packet of
        None \<Rightarrow> None
      | Some i \<Rightarrow>
          if pi_payload_type i \<noteq> GROUP_TEXT then None
          else if length (pi_payload i) < 1 then None
          else if hex_byte (pi_payload i ! 0) \<noteq> hex_byte (sha256 cr channel_key ! 0) then None
          else decrypt_group_text cr (pi_payload i) channel_key)"

record DecryptedGroupData =
  gd_channel_hash :: string
  gd_data_type :: nat
  gd_data :: bytes

definition decrypt_group_data :: "crypto \<Rightarrow> bytes \<Rightarrow> bytes \<Rightarrow> DecryptedGroupData option" where
  "decrypt_group_data cr payload channel_key =
     (if length payload < 3 then None
      else
        case unseal cr (channel_key @ replicate 16 0) channel_key (slice 1 3 payload) (drop 3 payload) of
          None \<Rightarrow> None
        | Some decrypted \<Rightarrow>
            if length decrypted < 3 then None
            else
              let data_type = unat (decrypted ! 0) OR push_bit 8 (unat (decrypted ! 1));
                  data_len = unat (decrypted ! 2)
              in if 3 + data_len > length decrypted then None
                 else Some \<lparr>gd_channel_hash = hex_byte (payload ! 0), gd_data_type = data_type,
                            gd_data = slice 3 (3 + data_len) decrypted\<rparr>)"

definition try_decrypt_group_data_packet :: "crypto \<Rightarrow> bytes \<Rightarrow> bytes \<Rightarrow> DecryptedGroupData option" where
  "try_decrypt_group_data_packet cr raw_packet channel_key =
     (case parse_packet raw_packet of
        None \<Rightarrow> None
      | Some i \<Rightarrow>
          if pi_payload_type i \<noteq> GROUP_DATA then None
          else if length (pi_payload i) < 1 then None
          else if pi_payload i ! 0 \<noteq> sha256 cr channel_key ! 0 then None
          else decrypt_group_data cr (pi_payload i) channel_key)"

section \<open>Advertisements\<close>

record ParsedAdvertisement =
  pa_public_key :: string
  pa_timestamp :: nat
  pa_name :: "ustr option"
  pa_lat :: "real option"
  pa_lon :: "real option"
  pa_device_role :: nat

definition is_valid_advert_location :: "real \<Rightarrow> real \<Rightarrow> bool" where
  "is_valid_advert_location lat lon \<longleftrightarrow> -90 \<le> lat \<and> lat \<le> 90 \<and> -180 \<le> lon \<and> lon \<le> 180"

text \<open>\<open>str.isspace\<close> of a code point, which \<open>strip\<close> removes at both ends.\<close>

definition uni_space :: "nat \<Rightarrow> bool" where
  "uni_space c \<longleftrightarrow> (9 \<le> c \<and> c \<le> 13) \<or> (28 \<le> c \<and> c \<le> 32) \<or> c = 0x85 \<or> c = 0xA0 \<or> c = 0x1680
     \<or> (0x2000 \<le> c \<and> c \<le> 0x200A) \<or> c = 0x2028 \<or> c = 0x2029 \<or> c = 0x202F \<or> c = 0x205F \<or> c = 0x3000"

definition uni_strip :: "ustr \<Rightarrow> ustr" where
  "uni_strip s = rev (dropWhile uni_space (rev (dropWhile uni_space s)))"

definition advert_name :: "(nat \<Rightarrow> bool) \<Rightarrow> bytes \<Rightarrow> ustr option" where
  "advert_name alnum name_bytes =
     (let name = uni_strip (filter (\<lambda>c. c \<ge> 0x20 \<or> c = 9) (takeWhile (\<lambda>c. c \<noteq> 0) (utf8_decode_ignore name_bytes)))
      in if name = [] \<or> \<not> list_ex alnum name then None else Some name)"

text \<open>Where the name starts, and the position when one is sent and lies on the globe.\<close>

definition advert_name_offset :: "nat \<Rightarrow> nat" where
  "advert_name_offset flags =
     101 + (if flags AND 0x10 \<noteq> 0 then 8 else 0) + (if flags AND 0x20 \<noteq> 0 then 2 else 0) + (if flags AND 0x40 \<noteq> 0 then 2 else 0)"

definition advert_position :: "nat \<Rightarrow> bytes \<Rightarrow> (real \<times> real) option" where
  "advert_position flags payload =
     (let lat = of_int (from_le_signed (slice 101 105 payload)) / 1000000;
          lon = of_int (from_le_signed (slice 105 109 payload)) / 1000000
      in if flags AND 0x10 \<noteq> 0 \<and> is_valid_advert_location lat lon then Some (lat, lon) else None)"

definition parse_advertisement :: "(nat \<Rightarrow> bool) \<Rightarrow> bytes \<Rightarrow> ParsedAdvertisement option" where
  "parse_advertisement alnum payload =
     (if length payload < 101 then None
      else
        let public_key = hex_of (slice 0 32 payload);
            timestamp = from_le (slice 32 36 payload);
            flags = unat (payload ! 100);
            role = flags AND 15;
            device_role = (if role > 4 then 0 else role)
        in if flags AND 0x10 \<noteq> 0 \<and> length payload < 101 + 8
           then Some \<lparr>pa_public_key = public_key, pa_timestamp = timestamp, pa_name = None,
                      pa_lat = None, pa_lon = None, pa_device_role = device_role\<rparr>
           else
             let position = advert_position flags payload;
                 offset = advert_name_offset flags;
                 name = (if flags AND 0x80 \<noteq> 0 \<and> length payload > offset then advert_name alnum (drop offset payload) else None)
             in Some \<lparr>pa_public_key = public_key, pa_timestamp = timestamp, pa_name = name,
                      pa_lat = map_option fst position, pa_lon = map_option snd position, pa_device_role = device_role\<rparr>)"

definition ADVERT_PUB_KEY_SIZE :: nat where "ADVERT_PUB_KEY_SIZE = 32"
definition ADVERT_TIMESTAMP_SIZE :: nat where "ADVERT_TIMESTAMP_SIZE = 4"
definition ADVERT_SIGNATURE_SIZE :: nat where "ADVERT_SIGNATURE_SIZE = 64"
definition ADVERT_MAX_APP_DATA_SIZE :: nat where "ADVERT_MAX_APP_DATA_SIZE = 32"
definition ADVERT_HEADER_SIZE :: nat where
  "ADVERT_HEADER_SIZE = ADVERT_PUB_KEY_SIZE + ADVERT_TIMESTAMP_SIZE + ADVERT_SIGNATURE_SIZE"

definition verify_advert_signature :: "crypto \<Rightarrow> bytes \<Rightarrow> bool" where
  "verify_advert_signature cr payload =
     (if length payload < ADVERT_HEADER_SIZE then False
      else
        let public_key = slice 0 ADVERT_PUB_KEY_SIZE payload;
            signature = slice (ADVERT_PUB_KEY_SIZE + ADVERT_TIMESTAMP_SIZE) ADVERT_HEADER_SIZE payload;
            app_data_len = min (length payload - ADVERT_HEADER_SIZE) ADVERT_MAX_APP_DATA_SIZE;
            message = slice 0 (ADVERT_PUB_KEY_SIZE + ADVERT_TIMESTAMP_SIZE) payload
                      @ slice ADVERT_HEADER_SIZE (ADVERT_HEADER_SIZE + app_data_len) payload
        in ed25519_verify cr public_key message signature)"

section \<open>Direct messages\<close>

text \<open>\<open>k[:32]\<close> must hold 32 bytes for the index 31 to exist.\<close>

definition clamp_scalar :: "bytes \<Rightarrow> bytes res" where
  "clamp_scalar k =
     (if length k < 32 then Inl IndexError
      else
        let clamped = take 32 k
        in Inr (clamped[0 := clamped ! 0 AND 248, 31 := (clamped ! 31 AND 63) OR 64]))"

definition derive_public_key :: "crypto \<Rightarrow> bytes \<Rightarrow> bytes option" where
  "derive_public_key cr private_key = base_noclamp cr (take 32 private_key)"

text \<open>\<^const>\<open>None\<close>: one of the steps raises, which every caller treats alike.\<close>

definition derive_shared_secret :: "crypto \<Rightarrow> bytes \<Rightarrow> bytes \<Rightarrow> bytes option" where
  "derive_shared_secret cr our_private_key their_public_key =
     (case clamp_scalar (take 32 our_private_key) of
        Inl _ \<Rightarrow> None
      | Inr clamped \<Rightarrow>
          (case pk_to_curve25519 cr their_public_key of None \<Rightarrow> None
           | Some x25519_pub \<Rightarrow> scalarmult cr clamped x25519_pub))"

record DecryptedDirectMessage =
  dm_timestamp :: nat
  dm_flags :: nat
  dm_message :: ustr
  dm_dest_hash :: string
  dm_src_hash :: string
  dm_signed_sender_prefix :: "string option"

definition txt_type :: "DecryptedDirectMessage \<Rightarrow> nat" where
  "txt_type d = drop_bit 2 (dm_flags d)"

definition attempt :: "DecryptedDirectMessage \<Rightarrow> nat" where
  "attempt d = dm_flags d AND 3"

definition decrypt_direct_message :: "crypto \<Rightarrow> bytes \<Rightarrow> bytes \<Rightarrow> DecryptedDirectMessage option" where
  "decrypt_direct_message cr payload shared_secret =
     (if length payload < 4 then None
      else
        case unseal cr shared_secret (take 16 shared_secret) (slice 2 4 payload) (drop 4 payload) of
          None \<Rightarrow> None
        | Some decrypted \<Rightarrow>
            if length decrypted < 5 then None
            else
              let flags = unat (decrypted ! 4);
                  signed = (drop_bit 2 flags = 2);
                  message_bytes = drop 5 decrypted
              in if signed \<and> length message_bytes < 4 then None
                 else
                   (case text_until_null (if signed then drop 4 message_bytes else message_bytes) of
                      None \<Rightarrow> None
                    | Some message_text \<Rightarrow>
                        Some \<lparr>dm_timestamp = from_le (slice 0 4 decrypted), dm_flags = flags, dm_message = message_text,
                              dm_dest_hash = hex_byte (payload ! 0), dm_src_hash = hex_byte (payload ! 1),
                              dm_signed_sender_prefix = (if signed then Some (hex_of (take 4 message_bytes)) else None)\<rparr>))"

definition try_decrypt_dm ::
  "crypto \<Rightarrow> bytes \<Rightarrow> bytes \<Rightarrow> bytes \<Rightarrow> bytes option \<Rightarrow> DecryptedDirectMessage option res" where
  "try_decrypt_dm cr raw_packet our_private_key their_public_key our_public_key =
     (case parse_packet raw_packet of
        None \<Rightarrow> Inr None
      | Some i \<Rightarrow>
          if pi_payload_type i \<noteq> TEXT_MESSAGE then Inr None
          else if length (pi_payload i) < 4 then Inr None
          else
            let dest_hash = pi_payload i ! 0; src_hash = pi_payload i ! 1
            in bind_res (py_get their_public_key 0) (\<lambda>their_first_byte.
               let is_inbound = (src_hash = their_first_byte)
               in bind_res (case our_public_key of None \<Rightarrow> Inr False
                            | Some k \<Rightarrow> bind_res (py_get k 0) (\<lambda>our_first_byte.
                                Inr (src_hash = our_first_byte \<and> dest_hash = their_first_byte))) (\<lambda>is_outbound.
                  if \<not> is_inbound \<and> \<not> is_outbound then Inr None
                  else case derive_shared_secret cr our_private_key their_public_key of
                         None \<Rightarrow> Inr None
                       | Some shared_secret \<Rightarrow> Inr (decrypt_direct_message cr (pi_payload i) shared_secret))))"

section \<open>Returned paths\<close>

record DecryptedPathPayload =
  dp_dest_hash :: string
  dp_src_hash :: string
  dp_returned_path :: bytes
  dp_returned_path_len :: nat
  dp_returned_path_hash_mode :: nat
  dp_extra_type :: nat
  dp_extra :: bytes

definition decrypt_path_payload :: "crypto \<Rightarrow> bytes \<Rightarrow> bytes \<Rightarrow> DecryptedPathPayload option" where
  "decrypt_path_payload cr payload shared_secret =
     (if length payload < 4 then None
      else
        case unseal cr shared_secret (take 16 shared_secret) (slice 2 4 payload) (drop 4 payload) of
          None \<Rightarrow> None
        | Some decrypted \<Rightarrow>
            if length decrypted < 2 then None
            else
              (case decode_path_byte (unat (decrypted ! 0)) of
                 Inl _ \<Rightarrow> None
               | Inr (returned_path_len, hash_size) \<Rightarrow>
                   let path_byte_len = returned_path_len * hash_size
                   in if length decrypted < 1 + path_byte_len + 1 then None
                      else Some \<lparr>dp_dest_hash = hex_byte (payload ! 0), dp_src_hash = hex_byte (payload ! 1),
                                 dp_returned_path = slice 1 (1 + path_byte_len) decrypted,
                                 dp_returned_path_len = returned_path_len, dp_returned_path_hash_mode = hash_size - 1,
                                 dp_extra_type = unat (decrypted ! (1 + path_byte_len)) AND 15,
                                 dp_extra = drop (1 + path_byte_len + 1) decrypted\<rparr>))"

definition try_decrypt_path :: "crypto \<Rightarrow> bytes \<Rightarrow> bytes \<Rightarrow> bytes \<Rightarrow> bytes \<Rightarrow> DecryptedPathPayload option res" where
  "try_decrypt_path cr raw_packet our_private_key their_public_key our_public_key =
     (case parse_packet raw_packet of
        None \<Rightarrow> Inr None
      | Some i \<Rightarrow>
          if pi_payload_type i \<noteq> PATH then Inr None
          else if length (pi_payload i) < 4 then Inr None
          else
            bind_res (py_get our_public_key 0) (\<lambda>ours.
              if pi_payload i ! 0 \<noteq> ours then Inr None
              else bind_res (py_get their_public_key 0) (\<lambda>theirs.
                if pi_payload i ! 1 \<noteq> theirs then Inr None
                else case derive_shared_secret cr our_private_key their_public_key of
                       None \<Rightarrow> Inr None
                     | Some shared_secret \<Rightarrow> Inr (decrypt_path_payload cr (pi_payload i) shared_secret))))"

section \<open>What a sender puts on the air\<close>

text \<open>The peer's side of the format: zero padding to the block, AES, a two-byte MAC in front.\<close>

definition pad16 :: "bytes \<Rightarrow> bytes" where
  "pad16 plain = plain @ replicate ((16 - length plain mod 16) mod 16) 0"

definition seal :: "crypto \<Rightarrow> (bytes \<Rightarrow> bytes \<Rightarrow> bytes) \<Rightarrow> bytes \<Rightarrow> bytes \<Rightarrow> bytes \<Rightarrow> bytes" where
  "seal cr enc mac_key aes_key plain =
     (let ciphertext = enc aes_key (pad16 plain) in take 2 (hmac_sha256 cr mac_key ciphertext) @ ciphertext)"

text \<open>What the libraries promise: with a 16-byte key the block cipher is inverted by decryption and keeps the length, and
  the MAC has 32 bytes.\<close>

definition aes_inverse :: "crypto \<Rightarrow> (bytes \<Rightarrow> bytes \<Rightarrow> bytes) \<Rightarrow> bool" where
  "aes_inverse cr enc \<longleftrightarrow>
     (\<forall>k p. length k = 16 \<and> length p mod 16 = 0 \<longrightarrow> aes_decrypt cr k (enc k p) = Some p \<and> length (enc k p) = length p)
     \<and> (\<forall>k m. length (hmac_sha256 cr k m) = 32)"

lemma length_pad16: "length (pad16 p) mod 16 = 0 \<and> length p \<le> length (pad16 p)"
proof -
  have "(n + (16 - n mod 16) mod 16) mod 16 = 0" for n :: nat
  proof -
    have "(n + (16 - n mod 16) mod 16) mod 16 = (n mod 16 + (16 - n mod 16)) mod 16" by (simp only: mod_add_left_eq mod_add_right_eq)
    also have "n mod 16 + (16 - n mod 16) = 16" by simp
    finally show ?thesis by simp
  qed
  then show ?thesis by (simp add: pad16_def)
qed

lemma pad16_split: "\<exists>k. pad16 p = p @ replicate k 0"
  by (auto simp: pad16_def)

lemma unseal_seal:
  assumes "aes_inverse cr enc" and "length ak = 16" and "p \<noteq> []"
  shows "\<not> length (seal cr enc mk ak p) < 2"
    and "unseal cr mk ak (take 2 (seal cr enc mk ak p)) (drop 2 (seal cr enc mk ak p)) = Some (pad16 p)"
proof -
  let ?ct = "enc ak (pad16 p)"
  have ct: "aes_decrypt cr ak ?ct = Some (pad16 p)" "length ?ct = length (pad16 p)" and "length (hmac_sha256 cr mk ?ct) = 32"
    using assms(1,2) length_pad16 by (simp_all add: aes_inverse_def)
  then have t: "length (take 2 (hmac_sha256 cr mk ?ct)) = 2" by simp
  then show "\<not> length (seal cr enc mk ak p) < 2" by (simp add: seal_def Let_def)
  from t have "take 2 (seal cr enc mk ak p) = take 2 (hmac_sha256 cr mk ?ct)" "drop 2 (seal cr enc mk ak p) = ?ct"
    by (simp_all add: seal_def Let_def)
  then show "unseal cr mk ak (take 2 (seal cr enc mk ak p)) (drop 2 (seal cr enc mk ak p)) = Some (pad16 p)"
    using ct length_pad16 [of p] assms(3) by (auto simp: unseal_def)
qed

lemma utf8_zeros: "utf8_encode (replicate k 0) = replicate k 0"
  by (induction k) (simp_all add: utf8_encode_def utf8_char_def byte_of_def)

lemma text_until_null_padded:
  assumes "list_all scalar_value s" and "0 \<notin> set s"
  shows "text_until_null (utf8_encode s @ replicate k 0) = Some s"
proof -
  have "list_all scalar_value (s @ replicate k 0)" using assms(1) by (auto simp: list_all_iff scalar_value_def)
  moreover have "utf8_encode (s @ replicate k 0) = utf8_encode s @ replicate k 0"
    by (simp add: utf8_encode_def flip: utf8_zeros)
  ultimately have "utf8_decode (utf8_encode s @ replicate k 0) = Some (s @ replicate k 0)"
    using utf8_decode_encode by metis
  moreover have "takeWhile (\<lambda>c. c \<noteq> 0) (s @ replicate k 0) = s" using assms(2) by (auto simp: takeWhile_append takeWhile_replicate)
  ultimately show ?thesis by (simp add: text_until_null_def)
qed

lemma find_sub_colon: "0x3A \<notin> set s \<Longrightarrow> find_sub [0x3A, 0x20] (s @ [0x3A, 0x20] @ t) = Some (length s)"
  by (induction s) auto

lemma split_sender_named:
  assumes "0 < length s" and "length s < 50" and "list_all (\<lambda>c. c \<notin> {0x3A, 0x5B, 0x5D, 0}) s"
  shows "split_sender (s @ [0x3A, 0x20] @ t) = (Some s, t)"
proof -
  have "0x3A \<notin> set s" using assms(3) by (auto simp: list_all_iff)
  moreover have "\<not> list_ex (\<lambda>c. c \<in> {0x3A, 0x5B, 0x5D, 0}) s" using assms(3) by (auto simp: list_all_iff list_ex_iff)
  ultimately show ?thesis using assms(1,2) find_sub_colon [of s t] by (simp add: split_sender_def)
qed

section \<open>What arrives\<close>

lemma seal_slices: "slice 1 3 (h # s) = take 2 s" "drop 3 (h # s) = drop 2 s"
  "slice 2 4 (h # g # s) = take 2 s" "drop 4 (h # g # s) = drop 2 s"
  by (simp_all add: slice_def numeral_eq_Suc)

lemma group_text_opened:
  assumes "aes_inverse cr enc" and "length key = 16"
    and "parse_packet raw = Some i" and "pi_payload_type i = GROUP_TEXT"
    and "pi_payload i = sha256 cr key ! 0 # seal cr enc (key @ replicate 16 0) key (to_le 4 ts @ [flags] @ utf8_encode msg)"
    and "ts < 2 ^ 32" and "list_all scalar_value msg" and "0 \<notin> set msg"
  shows "try_decrypt_packet_with_channel_key cr raw key = Some
      \<lparr>gt_timestamp = ts, gt_flags = unat flags, gt_sender = fst (split_sender msg), gt_message = snd (split_sender msg),
       gt_channel_hash = hex_byte (sha256 cr key ! 0)\<rparr>"
proof -
  define p where "p = to_le 4 ts @ [flags] @ utf8_encode msg"
  obtain k where k: "pad16 p = to_le 4 ts @ [flags] @ utf8_encode msg @ replicate k 0" using pad16_split [of p] by (auto simp: p_def)
  have ne: "p \<noteq> []" by (simp add: p_def)
  have u: "unseal cr (key @ replicate 16 0) key (slice 1 3 (pi_payload i)) (drop 3 (pi_payload i)) = Some (pad16 p)"
    and l: "\<not> length (pi_payload i) < 3"
    unfolding assms(5) p_def [symmetric] seal_slices using unseal_seal [OF assms(1,2) ne, of "key @ replicate 16 0"] by simp_all
  have dec: "slice 0 4 (pad16 p) = to_le 4 ts" "pad16 p ! 4 = flags" "drop 5 (pad16 p) = utf8_encode msg @ replicate k 0"
    by (simp_all add: k nth_append)
  have "from_le (to_le 4 ts) = ts" using assms(6) by (simp add: from_le_to_le)
  then have "decrypt_group_text cr (pi_payload i) key = Some
      \<lparr>gt_timestamp = ts, gt_flags = unat flags, gt_sender = fst (split_sender msg), gt_message = snd (split_sender msg),
       gt_channel_hash = hex_byte (pi_payload i ! 0)\<rparr>"
    unfolding decrypt_group_text_def u option.case dec text_until_null_padded [OF assms(7,8)]
    using l by (simp add: k split: prod.split)
  then show ?thesis using assms(3-5) by (auto simp: try_decrypt_packet_with_channel_key_def)
qed

text \<open>C21: A channel text sealed with a channel's key reaches a node that holds the key as it was sent: time, flags, and the
  text, split at the sender's name when the text starts with one.\<close>

theorem channel_text_received:
  assumes "aes_inverse cr enc" and "length key = 16"
    and "parse_packet raw = Some i" and "pi_payload_type i = GROUP_TEXT"
    and "pi_payload i = sha256 cr key ! 0 # seal cr enc (key @ replicate 16 0) key (to_le 4 ts @ [flags] @ utf8_encode msg)"
    and "ts < 2 ^ 32" and "list_all scalar_value msg" and "0 \<notin> set msg"
  shows "try_decrypt_packet_with_channel_key cr raw key = Some
      \<lparr>gt_timestamp = ts, gt_flags = unat flags, gt_sender = fst (split_sender msg), gt_message = snd (split_sender msg),
       gt_channel_hash = hex_byte (sha256 cr key ! 0)\<rparr>
    \<and> (\<forall>s t. msg = s @ [0x3A, 0x20] @ t \<and> 0 < length s \<and> length s < 50 \<and> list_all (\<lambda>c. c \<notin> {0x3A, 0x5B, 0x5D, 0}) s \<longrightarrow>
         split_sender msg = (Some s, t))"
  using group_text_opened [OF assms] split_sender_named by auto

text \<open>C22: A direct message sealed with the shared secret reaches the addressee as it was sent, whoever of the two sent it;
  a signed one also yields the signer's four-byte prefix.\<close>

theorem direct_message_received:
  assumes "aes_inverse cr enc" and "length secret = 32"
    and "derive_shared_secret cr our_private their_public = Some secret" and "their_public = t0 # trest" and "our_public = o0 # orest"
    and "parse_packet raw = Some i" and "pi_payload_type i = TEXT_MESSAGE"
    and "(d, s) = (o0, t0) \<or> (d, s) = (t0, o0)"
    and "pi_payload i = d # s # seal cr enc secret (take 16 secret) (to_le 4 ts @ [flags] @ sig @ utf8_encode msg)"
    and "length sig = (if unat flags div 4 = 2 then 4 else 0)"
    and "ts < 2 ^ 32" and "list_all scalar_value msg" and "0 \<notin> set msg"
  shows "try_decrypt_dm cr raw our_private their_public (Some our_public) = Inr (Some
      \<lparr>dm_timestamp = ts, dm_flags = unat flags, dm_message = msg, dm_dest_hash = hex_byte d, dm_src_hash = hex_byte s,
       dm_signed_sender_prefix = (if unat flags div 4 = 2 then Some (hex_of sig) else None)\<rparr>)"
proof -
  define p where "p = to_le 4 ts @ [flags] @ sig @ utf8_encode msg"
  obtain k where k: "pad16 p = to_le 4 ts @ [flags] @ sig @ utf8_encode msg @ replicate k 0" using pad16_split [of p] by (auto simp: p_def)
  have ne: "p \<noteq> []" by (simp add: p_def)
  have "length (take 16 secret) = 16" using assms(2) by simp
  then have u: "unseal cr secret (take 16 secret) (slice 2 4 (pi_payload i)) (drop 4 (pi_payload i)) = Some (pad16 p)"
    and l: "\<not> length (pi_payload i) < 4"
    unfolding assms(9) p_def [symmetric] seal_slices using unseal_seal [OF assms(1) _ ne, of "take 16 secret" secret] by simp_all
  have dec: "slice 0 4 (pad16 p) = to_le 4 ts" "pad16 p ! 4 = flags" "drop 5 (pad16 p) = sig @ utf8_encode msg @ replicate k 0"
    by (simp_all add: k nth_append)
  have "from_le (to_le 4 ts) = ts" using assms(11) by (simp add: from_le_to_le)
  then have "decrypt_direct_message cr (pi_payload i) secret = Some
      \<lparr>dm_timestamp = ts, dm_flags = unat flags, dm_message = msg, dm_dest_hash = hex_byte d, dm_src_hash = hex_byte s,
       dm_signed_sender_prefix = (if unat flags div 4 = 2 then Some (hex_of sig) else None)\<rparr>"
    unfolding decrypt_direct_message_def u option.case dec Let_def
    using l text_until_null_padded [OF assms(12,13), of k] assms(10)
    by (cases "unat flags div 4 = 2") (simp_all add: k assms(9) pybits)
  then show ?thesis using assms(3-8) l
    by (auto simp: try_decrypt_dm_def assms(9) Let_def)
qed

text \<open>A returned path sealed with the shared secret arrives hop for hop, with the type and the bytes of what came with it.\<close>

theorem returned_path_received:
  assumes "aes_inverse cr enc" and "length secret = 32"
    and "derive_shared_secret cr our_private their_public = Some secret" and "their_public = t0 # trest" and "our_public = o0 # orest"
    and "parse_packet raw = Some i" and "pi_payload_type i = PATH"
    and "pi_payload i = o0 # t0 # seal cr enc secret (take 16 secret) ([byte_of (m * 64 + n)] @ path @ [kind] @ extra)"
    and "n \<le> 63" and "m \<le> 2" and "length path = n * (m + 1)"
  shows "\<exists>k. try_decrypt_path cr raw our_private their_public our_public = Inr (Some
      \<lparr>dp_dest_hash = hex_byte o0, dp_src_hash = hex_byte t0, dp_returned_path = path, dp_returned_path_len = n,
       dp_returned_path_hash_mode = m, dp_extra_type = unat kind mod 16, dp_extra = extra @ replicate k 0\<rparr>)"
proof -
  define p where "p = [byte_of (m * 64 + n)] @ path @ [kind] @ extra"
  obtain k where k: "pad16 p = [byte_of (m * 64 + n)] @ path @ [kind] @ extra @ replicate k 0" using pad16_split [of p] by (auto simp: p_def)
  have ne: "p \<noteq> []" by (simp add: p_def)
  have "length (take 16 secret) = 16" using assms(2) by simp
  then have u: "unseal cr secret (take 16 secret) (slice 2 4 (pi_payload i)) (drop 4 (pi_payload i)) = Some (pad16 p)"
    and l: "\<not> length (pi_payload i) < 4"
    unfolding assms(8) p_def [symmetric] seal_slices using unseal_seal [OF assms(1) _ ne, of "take 16 secret" secret] by simp_all
  have "m * 64 + n < 256" using assms(9,10) by simp
  then have b: "unat (pad16 p ! 0) = m * 64 + n" by (simp add: k)
  have "decode_path_byte (m * 64 + n) = Inr (n, m + 1)" using assms(9,10) by (simp add: decode_path_byte_eq)
  then have "decrypt_path_payload cr (pi_payload i) secret = Some
      \<lparr>dp_dest_hash = hex_byte o0, dp_src_hash = hex_byte t0, dp_returned_path = path, dp_returned_path_len = n,
       dp_returned_path_hash_mode = m, dp_extra_type = unat kind mod 16, dp_extra = extra @ replicate k 0\<rparr>"
    unfolding decrypt_path_payload_def u option.case b
    using l by (simp add: k assms(8,11) Let_def slice_def nth_append pybits)
  then show ?thesis using assms(3-7) l by (auto simp: try_decrypt_path_def assms(8))
qed

section \<open>Safety\<close>

lemma unseal_Some: "unseal cr mk ak mac ct = Some p \<Longrightarrow> 0 < length ct \<and> length ct mod 16 = 0 \<and> mac = take 2 (hmac_sha256 cr mk ct)"
  by (auto simp: unseal_def split: if_splits)

lemma mod_shift: "length (drop n xs) mod 16 = 0 \<Longrightarrow> 0 < length (drop n xs) \<Longrightarrow> n < 16 \<Longrightarrow> n < length xs \<and> length xs mod 16 = n"
  by (metis add_0 length_drop less_imp_le mod_add_left_eq mod_less le_add_diff_inverse2 zero_less_diff)

lemma channel_payload_authentic:
  assumes "decrypt_group_text cr pl key = Some g \<or> decrypt_group_data cr pl key = Some h"
  shows "length pl > 3 \<and> length pl mod 16 = 3 \<and> slice 1 3 pl = take 2 (hmac_sha256 cr (key @ replicate 16 0) (drop 3 pl))"
proof -
  obtain p where "unseal cr (key @ replicate 16 0) key (slice 1 3 pl) (drop 3 pl) = Some p"
    using assms by (auto simp: decrypt_group_text_def decrypt_group_data_def split: option.splits)
  from unseal_Some [OF this] mod_shift [of 3 pl] show ?thesis by auto
qed

lemma peer_payload_authentic:
  assumes "decrypt_direct_message cr pl secret = Some d \<or> decrypt_path_payload cr pl secret = Some q"
  shows "length pl > 4 \<and> length pl mod 16 = 4 \<and> slice 2 4 pl = take 2 (hmac_sha256 cr secret (drop 4 pl))"
proof -
  obtain p where "unseal cr secret (take 16 secret) (slice 2 4 pl) (drop 4 pl) = Some p"
    using assms by (auto simp: decrypt_direct_message_def decrypt_path_payload_def split: option.splits)
  from unseal_Some [OF this] mod_shift [of 4 pl] show ?thesis by auto
qed

lemma hex_byte_inject: "hex_byte a = hex_byte b \<longleftrightarrow> a = b"
  using hex_of_inject [of "[a]" "[b]"] by simp

lemma channel_accepts:
  assumes "try_decrypt_packet_with_channel_key cr raw key = Some g \<or> try_decrypt_group_data_packet cr raw key = Some h"
  shows "\<exists>i. parse_packet raw = Some i \<and> pi_payload i ! 0 = sha256 cr key ! 0
    \<and> (decrypt_group_text cr (pi_payload i) key = Some g \<or> decrypt_group_data cr (pi_payload i) key = Some h)"
  using assms
  by (auto simp: try_decrypt_packet_with_channel_key_def try_decrypt_group_data_packet_def hex_byte_inject split: option.splits if_splits)

lemma dm_accepts:
  assumes "try_decrypt_dm cr raw priv their our = Inr (Some d)"
  shows "\<exists>i secret. parse_packet raw = Some i \<and> derive_shared_secret cr priv their = Some secret
    \<and> decrypt_direct_message cr (pi_payload i) secret = Some d"
  using assms by (auto simp: try_decrypt_dm_def bind_res_Inr Let_def split: option.splits if_splits)

lemma path_accepts:
  assumes "try_decrypt_path cr raw priv their ours = Inr (Some q)"
  shows "\<exists>i secret. parse_packet raw = Some i \<and> derive_shared_secret cr priv their = Some secret
    \<and> decrypt_path_payload cr (pi_payload i) secret = Some q"
  using assms by (auto simp: try_decrypt_path_def bind_res_Inr Let_def split: option.splits if_splits)

text \<open>Nothing is accepted without its MAC: whatever a decryptor returns came from a block-aligned ciphertext whose two-byte
  MAC under the key in hand is the one in the packet, and a channel packet also names that channel's hash.\<close>

theorem decrypted_is_authentic:
  "(try_decrypt_packet_with_channel_key cr raw key = Some g \<or> try_decrypt_group_data_packet cr raw key = Some h \<longrightarrow>
      (\<exists>i. parse_packet raw = Some i \<and> pi_payload i ! 0 = sha256 cr key ! 0 \<and> length (pi_payload i) > 3
         \<and> length (pi_payload i) mod 16 = 3
         \<and> slice 1 3 (pi_payload i) = take 2 (hmac_sha256 cr (key @ replicate 16 0) (drop 3 (pi_payload i)))))
   \<and> (try_decrypt_dm cr raw priv their our = Inr (Some d) \<or> try_decrypt_path cr raw priv their ours = Inr (Some q) \<longrightarrow>
      (\<exists>i secret. parse_packet raw = Some i \<and> derive_shared_secret cr priv their = Some secret \<and> length (pi_payload i) > 4
         \<and> length (pi_payload i) mod 16 = 4
         \<and> slice 2 4 (pi_payload i) = take 2 (hmac_sha256 cr secret (drop 4 (pi_payload i)))))"
proof (intro conjI impI)
  assume "try_decrypt_packet_with_channel_key cr raw key = Some g \<or> try_decrypt_group_data_packet cr raw key = Some h"
  from channel_accepts [OF this] show "\<exists>i. parse_packet raw = Some i \<and> pi_payload i ! 0 = sha256 cr key ! 0 \<and> length (pi_payload i) > 3
         \<and> length (pi_payload i) mod 16 = 3
         \<and> slice 1 3 (pi_payload i) = take 2 (hmac_sha256 cr (key @ replicate 16 0) (drop 3 (pi_payload i)))"
    using channel_payload_authentic by blast
next
  assume "try_decrypt_dm cr raw priv their our = Inr (Some d) \<or> try_decrypt_path cr raw priv their ours = Inr (Some q)"
  then show "\<exists>i secret. parse_packet raw = Some i \<and> derive_shared_secret cr priv their = Some secret \<and> length (pi_payload i) > 4
         \<and> length (pi_payload i) mod 16 = 4
         \<and> slice 2 4 (pi_payload i) = take 2 (hmac_sha256 cr secret (drop 4 (pi_payload i)))"
    using dm_accepts path_accepts peer_payload_authentic by meson
qed

text \<open>What an advertisement yields is bounded by the format: a role of 0 to 4, a position on the globe or none, and a name
  that is not blank or none.\<close>

lemma advert_name_sane: "advert_name alnum bs = Some n \<Longrightarrow> n \<noteq> [] \<and> 0 \<notin> set n \<and> list_ex alnum n"
  by (auto simp: advert_name_def Let_def uni_strip_def dest!: set_dropWhileD split: if_splits)

lemma advert_position_valid: "advert_position flags payload = Some (lat, lon) \<Longrightarrow> is_valid_advert_location lat lon"
  by (auto simp: advert_position_def Let_def split: if_splits)

lemma parse_advertisement_sane:
  assumes "parse_advertisement alnum payload = Some a"
  shows "pa_device_role a \<le> 4 \<and> (pa_lat a = None \<longleftrightarrow> pa_lon a = None)
    \<and> (\<forall>lat lon. pa_lat a = Some lat \<and> pa_lon a = Some lon \<longrightarrow> is_valid_advert_location lat lon)
    \<and> (\<forall>n. pa_name a = Some n \<longrightarrow> n \<noteq> [] \<and> 0 \<notin> set n \<and> list_ex alnum n)"
proof -
  define flags where "flags = unat (payload ! 100)"
  note eq = assms [unfolded parse_advertisement_def Let_def flags_def [symmetric]]
  show ?thesis using eq advert_name_sane [of alnum "drop (advert_name_offset flags) payload"] advert_position_valid [of flags payload]
    by (auto split: if_splits)
qed

text \<open>A visible ASCII name comes through as it is.\<close>

definition visible :: "byte \<Rightarrow> bool" where
  "visible b \<longleftrightarrow> 0x21 \<le> unat b \<and> unat b < 127"

lemma advert_name_visible:
  assumes "list_all visible bs" and "bs \<noteq> []" and "list_ex alnum (map unat bs)"
  shows "advert_name alnum bs = Some (map unat bs)"
proof -
  have "list_all (\<lambda>b. unat b < 128) bs" using assms(1) by (auto simp: list_all_iff visible_def)
  then have d: "utf8_decode_ignore bs = map unat bs" using utf8_decode_ascii utf8_decode_ignore_strict by blast
  have v: "\<forall>c \<in> set (map unat bs). 0x21 \<le> c \<and> c < 127" using assms(1) by (auto simp: list_all_iff visible_def)
  then have "takeWhile (\<lambda>c. c \<noteq> 0) (map unat bs) = map unat bs" "filter (\<lambda>c. c \<ge> 0x20 \<or> c = 9) (map unat bs) = map unat bs"
    by (force simp: takeWhile_eq_all_conv, force simp: filter_id_conv)
  moreover have "dropWhile uni_space xs = xs" if "set xs \<subseteq> set (map unat bs)" for xs
    using that v by (cases xs) (auto simp: uni_space_def)
  then have "uni_strip (map unat bs) = map unat bs" by (simp add: uni_strip_def)
  ultimately show ?thesis using assms(2,3) unfolding advert_name_def Let_def d by (simp only: map_is_Nil_conv) simp
qed

text \<open>C38: The signature does not cover what the parser reads: bytes appended to an advertisement whose application data already
  fills the 32 signed bytes leave the verification unchanged, yet they extend the name that is taken from it.\<close>

theorem advert_tail_unsigned:
  assumes "length payload \<ge> 132" and "payload ! 100 = 0x81" and "list_all visible (drop 101 payload @ suffix)"
    and "list_ex alnum (map unat (drop 101 payload))"
  shows "verify_advert_signature cr (payload @ suffix) = verify_advert_signature cr payload
    \<and> map_option pa_name (parse_advertisement alnum (payload @ suffix)) = Some (Some (map unat (drop 101 payload @ suffix)))"
proof
  show "verify_advert_signature cr (payload @ suffix) = verify_advert_signature cr payload"
    using assms(1) by (simp add: verify_advert_signature_def ADVERT_HEADER_SIZE_def ADVERT_PUB_KEY_SIZE_def ADVERT_TIMESTAMP_SIZE_def
        ADVERT_SIGNATURE_SIZE_def ADVERT_MAX_APP_DATA_SIZE_def slice_def)
  have n: "advert_name alnum (drop 101 payload @ suffix) = Some (map unat (drop 101 payload @ suffix))"
    using assms by (intro advert_name_visible) auto
  have f: "unat ((payload @ suffix) ! 100) = 0x81" using assms(1,2) by (simp add: nth_append)
  show "map_option pa_name (parse_advertisement alnum (payload @ suffix)) = Some (Some (map unat (drop 101 payload @ suffix)))"
    unfolding parse_advertisement_def Let_def f using assms(1) n by (simp add: advert_name_offset_def)
qed

definition demo_advert :: bytes where
  "demo_advert = replicate 100 0 @ [0x81] @ replicate 31 0x41"

definition demo_crypto :: crypto where
  "demo_crypto = \<lparr>sha256 = (\<lambda>m. replicate 32 7), hmac_sha256 = (\<lambda>k m. replicate 32 (byte_of (length m))),
     aes_decrypt = (\<lambda>k c. if length k = 16 then Some (map (\<lambda>b. b XOR hd k) c) else None),
     ed25519_verify = (\<lambda>k m s. True), base_noclamp = Some, pk_to_curve25519 = Some,
     scalarmult = (\<lambda>a b. Some (replicate 32 5))\<rparr>"

definition demo_encrypt :: "bytes \<Rightarrow> bytes \<Rightarrow> bytes" where
  "demo_encrypt k p = map (\<lambda>b. b XOR hd k) p"

lemma demo_aes: "aes_inverse demo_crypto demo_encrypt"
  by (simp add: aes_inverse_def demo_crypto_def demo_encrypt_def comp_def xor.assoc)

theorem advert_tail_unsigned_witness:
  "verify_advert_signature demo_crypto (demo_advert @ [0x42]) = verify_advert_signature demo_crypto demo_advert"
  using advert_tail_unsigned [of demo_advert "[0x42]" "\<lambda>c. True" demo_crypto]
  by (simp add: demo_advert_def nth_append visible_def list_all_iff list_ex_iff)

text \<open>Clamping is idempotent, as the source notes.\<close>

lemma clamp_scalar_idem: "clamp_scalar k = Inr c \<Longrightarrow> clamp_scalar c = Inr c"
  by (auto simp: clamp_scalar_def Let_def bit_eq_iff bit_simps intro!: nth_equalityI simp: nth_list_update split: if_splits)

section \<open>Demonstrations\<close>

lemma demo_packets:
  assumes "pl \<noteq> []"
  shows
  "\<exists>i. parse_packet (0x15 # 0 # pl) = Some i \<and> pi_payload i = pl \<and> pi_payload_type i = GROUP_TEXT"
  "\<exists>i. parse_packet (0x09 # 0 # pl) = Some i \<and> pi_payload i = pl \<and> pi_payload_type i = TEXT_MESSAGE"
  "\<exists>i. parse_packet (0x21 # 0 # pl) = Some i \<and> pi_payload i = pl \<and> pi_payload_type i = PATH"
  using assms by (simp_all add: parse_packet_def parse_packet_envelope_def validate_path_byte_def decode_path_byte_def path_wire_len_def
      MAX_PATH_SIZE_def route_type_of_def payload_type_of_def Let_def slice_def)

theorem channel_text_received_witness:
  "\<exists>raw g. try_decrypt_packet_with_channel_key demo_crypto raw (replicate 16 3) = Some g
     \<and> gt_sender g = Some [0x42, 0x6F, 0x62] \<and> gt_message g = [0x68, 0x69]"
proof -
  let ?msg = "[0x42, 0x6F, 0x62 :: nat] @ [0x3A, 0x20] @ [0x68, 0x69]"
  let ?key = "replicate 16 (3::byte)"
  define pl where "pl = sha256 demo_crypto ?key ! 0 # seal demo_crypto demo_encrypt (?key @ replicate 16 0) ?key (to_le 4 77 @ [0] @ utf8_encode ?msg)"
  obtain i where i: "parse_packet (0x15 # 0 # pl) = Some i" "pi_payload i = pl" "pi_payload_type i = GROUP_TEXT"
    using demo_packets [of pl] by (auto simp: pl_def)
  have "list_all scalar_value ?msg" "0 \<notin> set ?msg" by (simp_all add: scalar_value_def)
  from channel_text_received [OF demo_aes _ i(1,3) i(2) [unfolded pl_def] _ this]
  have "try_decrypt_packet_with_channel_key demo_crypto (0x15 # 0 # pl) ?key = Some
      \<lparr>gt_timestamp = 77, gt_flags = 0, gt_sender = fst (split_sender ?msg), gt_message = snd (split_sender ?msg),
       gt_channel_hash = hex_byte (sha256 demo_crypto ?key ! 0)\<rparr>" by simp
  moreover have "split_sender ?msg = (Some [0x42, 0x6F, 0x62], [0x68, 0x69])" by (rule split_sender_named) simp_all
  ultimately show ?thesis by (intro exI [of _ "0x15 # 0 # pl"]) simp
qed

lemma demo_secret: "derive_shared_secret demo_crypto (replicate 64 1) (4 # replicate 31 0) = Some (replicate 32 5)"
  by (simp add: derive_shared_secret_def clamp_scalar_def demo_crypto_def Let_def)

theorem direct_message_received_witness:
  "\<exists>raw d. try_decrypt_dm demo_crypto raw (replicate 64 1) (4 # replicate 31 0) (Some (6 # replicate 31 0)) = Inr (Some d)
     \<and> dm_message d = [0x68, 0x69]"
proof -
  define pl where "pl = 6 # 4 # seal demo_crypto demo_encrypt (replicate 32 5) (take 16 (replicate 32 5)) (to_le 4 77 @ [0] @ [] @ utf8_encode [0x68, 0x69])"
  obtain i where i: "parse_packet (0x09 # 0 # pl) = Some i" "pi_payload i = pl" "pi_payload_type i = TEXT_MESSAGE"
    using demo_packets [of pl] by (auto simp: pl_def)
  from direct_message_received [OF demo_aes _ demo_secret refl refl i(1,3) _ i(2) [unfolded pl_def]]
  show ?thesis by (intro exI [of _ "0x09 # 0 # pl"]) (simp add: scalar_value_def)
qed

theorem returned_path_received_witness:
  "\<exists>raw q. try_decrypt_path demo_crypto raw (replicate 64 1) (4 # replicate 31 0) (6 # replicate 31 0) = Inr (Some q)
     \<and> dp_returned_path q = [0xAA, 0xBB] \<and> dp_returned_path_len q = 1"
proof -
  define pl where "pl = 6 # 4 # seal demo_crypto demo_encrypt (replicate 32 5) (take 16 (replicate 32 5)) ([byte_of (1 * 64 + 1)] @ [0xAA, 0xBB] @ [3] @ [])"
  obtain i where i: "parse_packet (0x21 # 0 # pl) = Some i" "pi_payload i = pl" "pi_payload_type i = PATH"
    using demo_packets [of pl] by (auto simp: pl_def)
  from returned_path_received [OF demo_aes _ demo_secret refl refl i(1,3) i(2) [unfolded pl_def]]
  obtain k where "try_decrypt_path demo_crypto (0x21 # 0 # pl) (replicate 64 1) (4 # replicate 31 0) (6 # replicate 31 0) = Inr (Some
      \<lparr>dp_dest_hash = hex_byte 6, dp_src_hash = hex_byte 4, dp_returned_path = [0xAA, 0xBB], dp_returned_path_len = 1,
       dp_returned_path_hash_mode = 1, dp_extra_type = 3, dp_extra = [] @ replicate k 0\<rparr>)"
    by auto
  then show ?thesis by (intro exI [of _ "0x21 # 0 # pl"]) simp
qed

theorem decrypted_is_authentic_witness:
  "\<exists>raw i. parse_packet raw = Some i \<and> length (pi_payload i) mod 16 = 3
     \<and> slice 1 3 (pi_payload i) = take 2 (hmac_sha256 demo_crypto (replicate 16 3 @ replicate 16 0) (drop 3 (pi_payload i)))"
proof -
  let ?key = "replicate 16 (3::byte)"
  define pl where "pl = sha256 demo_crypto ?key ! 0 # seal demo_crypto demo_encrypt (?key @ replicate 16 0) ?key (to_le 4 77 @ [0] @ utf8_encode [0x68])"
  obtain i where i: "parse_packet (0x15 # 0 # pl) = Some i" "pi_payload i = pl" "pi_payload_type i = GROUP_TEXT"
    using demo_packets [of pl] by (auto simp: pl_def)
  obtain g where "try_decrypt_packet_with_channel_key demo_crypto (0x15 # 0 # pl) ?key = Some g"
    using group_text_opened [OF demo_aes _ i(1,3) i(2) [unfolded pl_def]] by (simp add: scalar_value_def)
  then have h: "try_decrypt_packet_with_channel_key demo_crypto (0x15 # 0 # pl) ?key = Some g
      \<or> try_decrypt_group_data_packet demo_crypto (0x15 # 0 # pl) ?key = Some undefined" by simp
  show ?thesis using decrypted_is_authentic [THEN conjunct1, rule_format, OF h] by blast
qed

end
