(* ===== verification/RxWatchdog.thy ===== *)
theory RxWatchdog
  imports Prelude
begin

text \<open>
  The silence watchdog (\<open>src/app/services/rx_watchdog.py\<close>): its per-incident state, one tick, and the
  escalation ladder. What a tick reads from the radio manager and the clock is a record of inputs;
  what it does to the radio is a value, an action. A failing disconnect, reconnect or reboot is only
  logged by the source, so an action has no result.
\<close>

section \<open>State\<close>

definition CHECK_INTERVAL_SECONDS :: nat where "CHECK_INTERVAL_SECONDS = 30"
definition REBOOT_COOLDOWN_SECONDS :: real where "REBOOT_COOLDOWN_SECONDS = 30 * 60"

record ProbeSample =
  ps_taken_at :: real
  ps_recv :: "int option"

datatype log_entry = SilentFor int | HeardReconnecting int | HeardRebooting int

record RxWatchdogState =
  wd_incident_open :: bool
  wd_warned :: bool
  wd_stats_unsupported_warned :: bool
  wd_last_probe :: "ProbeSample option"
  wd_escalation :: nat
  wd_last_reboot_at :: "real option"
  wd_log :: "log_entry list"

definition fresh_state :: "real option \<Rightarrow> RxWatchdogState" where
  "fresh_state last_reboot =
     \<lparr>wd_incident_open = False, wd_warned = False, wd_stats_unsupported_warned = False, wd_last_probe = None,
      wd_escalation = 0, wd_last_reboot_at = last_reboot, wd_log = []\<rparr>"

definition wd_reset :: "RxWatchdogState \<Rightarrow> RxWatchdogState" where
  "wd_reset s = fresh_state (wd_last_reboot_at s)"

text \<open>The configured timeout: a number, or a value \<open>int\<close> refuses.\<close>

definition rx_timeout :: "int option \<Rightarrow> int" where
  "rx_timeout configured = (case configured of Some n \<Rightarrow> max 0 n | None \<Rightarrow> 0)"

section \<open>One tick\<close>

text \<open>\<open>tk_probe\<close> is \<^const>\<open>None\<close> when the radio was busy or the exchange failed, else the packet counter if the answer had one.
  The clock is read up to three times in a tick.\<close>

record tick =
  tk_timeout :: "int option"
  tk_connected :: bool
  tk_setup_complete :: bool
  tk_silence :: "real option"
  tk_frame_seen :: bool
  tk_now :: real
  tk_probe :: "int option option"
  tk_sampled_at :: real
  tk_escalated_at :: real

datatype action = NoAction | Reconnect | Reboot

definition escalate :: "int \<Rightarrow> real \<Rightarrow> RxWatchdogState \<Rightarrow> action \<times> RxWatchdogState" where
  "escalate heard now s =
     (if wd_escalation s = 0 then
        (Reconnect, s\<lparr>wd_escalation := 1, wd_log := wd_log s @ [HeardReconnecting heard], wd_last_probe := None\<rparr>)
      else if (case wd_last_reboot_at s of Some t \<Rightarrow> now - t < REBOOT_COOLDOWN_SECONDS | None \<Rightarrow> False) then
        (Reconnect, s\<lparr>wd_last_probe := None\<rparr>)
      else
        (Reboot, s\<lparr>wd_escalation := 2, wd_last_reboot_at := Some now, wd_log := wd_log s @ [HeardRebooting heard],
                   wd_last_probe := None\<rparr>))"

definition check :: "tick \<Rightarrow> RxWatchdogState \<Rightarrow> action \<times> RxWatchdogState" where
  "check k s =
     (let timeout = rx_timeout (tk_timeout k)
      in if timeout \<le> 0 then (NoAction, s)
      else if \<not> tk_connected k \<or> \<not> tk_setup_complete k then
        let s1 = s\<lparr>wd_last_probe := None\<rparr>
        in (NoAction, if \<not> wd_incident_open s1 then wd_reset s1 else s1)
      else
        case tk_silence k of
          None \<Rightarrow> (NoAction, s)
        | Some silence \<Rightarrow>
            if silence < of_int timeout then
              (NoAction, if \<not> wd_incident_open s \<or> \<not> tk_frame_seen k then s else wd_reset s)
            else
              let previous = wd_last_probe s
              in if (case previous of Some p \<Rightarrow> tk_now k - ps_taken_at p < of_int timeout | None \<Rightarrow> False) then (NoAction, s)
              else
                let s1 = (if \<not> wd_incident_open s
                          then s\<lparr>wd_incident_open := True, wd_log := wd_log s @ [SilentFor \<lfloor>silence\<rfloor>]\<rparr> else s)
                in case tk_probe k of
                     None \<Rightarrow> (NoAction, s1)
                   | Some recv \<Rightarrow>
                       let s2 = s1\<lparr>wd_warned := True, wd_last_probe := Some \<lparr>ps_taken_at = tk_sampled_at k, ps_recv = recv\<rparr>\<rparr>
                       in case recv of
                            None \<Rightarrow> (NoAction, s2\<lparr>wd_stats_unsupported_warned := True\<rparr>)
                          | Some n \<Rightarrow>
                              (case Option.bind previous ps_recv of
                                 Some before \<Rightarrow>
                                   if n - before \<le> 0 then (NoAction, s2) else escalate (n - before) (tk_escalated_at k) s2
                               | None \<Rightarrow> (NoAction, s2)))"

text \<open>A run of the loop: the action of every tick, with the time it was taken.\<close>

fun watch :: "tick list \<Rightarrow> RxWatchdogState \<Rightarrow> (real \<times> action) list" where
  "watch [] s = []"
| "watch (k # ks) s = (case check k s of (a, s1) \<Rightarrow> (tk_escalated_at k, a) # watch ks s1)"

section \<open>What the watchdog may do\<close>

text \<open>The evidence an action needs: a live link, silence past the timeout, and a packet counter that rose since the last probe.\<close>

definition confirmed :: "tick \<Rightarrow> RxWatchdogState \<Rightarrow> bool" where
  "confirmed k s \<longleftrightarrow> 0 < rx_timeout (tk_timeout k) \<and> tk_connected k \<and> tk_setup_complete k
     \<and> (\<exists>silence. tk_silence k = Some silence \<and> silence \<ge> of_int (rx_timeout (tk_timeout k)))
     \<and> (\<exists>before n. Option.bind (wd_last_probe s) ps_recv = Some before \<and> tk_probe k = Some (Some n) \<and> before < n)"

lemmas check_splits = option.splits if_splits

lemma check_confirmed: "check k s = (a, s') \<Longrightarrow> a \<noteq> NoAction \<Longrightarrow> confirmed k s"
  by (auto simp: check_def Let_def confirmed_def split: check_splits)

lemma check_no_reboot: "check k s = (a, s') \<Longrightarrow> a \<noteq> Reboot \<Longrightarrow> wd_last_reboot_at s' = wd_last_reboot_at s"
  by (auto simp: check_def Let_def escalate_def wd_reset_def fresh_state_def split: check_splits)

lemma check_reboot: "check k s = (Reboot, s') \<Longrightarrow> wd_escalation s \<noteq> 0 \<and> wd_last_reboot_at s' = Some (tk_escalated_at k)
    \<and> (\<forall>t. wd_last_reboot_at s = Some t \<longrightarrow> REBOOT_COOLDOWN_SECONDS \<le> tk_escalated_at k - t)"
  by (auto simp: check_def Let_def escalate_def split: check_splits)

lemma check_idle: "check k s = (NoAction, s') \<Longrightarrow> wd_escalation s = 0 \<Longrightarrow> wd_escalation s' = 0"
  by (auto simp: check_def Let_def escalate_def wd_reset_def fresh_state_def split: check_splits)

definition reboot_times :: "(real \<times> action) list \<Rightarrow> real list" where
  "reboot_times acts = map fst (filter (\<lambda>(t, a). a = Reboot) acts)"

fun watch_states :: "tick list \<Rightarrow> RxWatchdogState \<Rightarrow> (tick \<times> RxWatchdogState \<times> action) list" where
  "watch_states [] s = []"
| "watch_states (k # ks) s = (case check k s of (a, s1) \<Rightarrow> (k, s, a) # watch_states ks s1)"

lemma reboots_spaced:
  "successively (\<lambda>a b. REBOOT_COOLDOWN_SECONDS \<le> b - a)
     ((case wd_last_reboot_at s of None \<Rightarrow> [] | Some t \<Rightarrow> [t]) @ reboot_times (watch ks s))"
proof (induction ks arbitrary: s)
  case (Cons k ks)
  obtain a s1 where c: "check k s = (a, s1)" by fastforce
  show ?case
  proof (cases "a = Reboot")
    case True
    then show ?thesis using Cons [of s1] check_reboot [of k s s1] c
      by (auto simp: reboot_times_def split: option.splits)
  next
    case False
    then show ?thesis using Cons [of s1] check_no_reboot [OF c] c by (simp add: reboot_times_def)
  qed
qed (simp add: reboot_times_def split: option.split)

lemma reconnect_first:
  "wd_escalation s = 0 \<Longrightarrow> Reboot \<notin> set (takeWhile (\<lambda>a. a \<noteq> Reconnect) (map snd (watch ks s)))"
proof (induction ks arbitrary: s)
  case (Cons k ks)
  obtain a s1 where c: "check k s = (a, s1)" by fastforce
  have "a \<noteq> Reboot" using check_reboot c Cons.prems by blast
  then show ?case using Cons.IH [of s1] check_idle [of k s s1] c Cons.prems by (cases a) auto
qed simp

text \<open>C34: Whatever the radio and the clock report, the watchdog acts only on evidence (a live link, silence past the timeout, and a
  packet counter that rose since its last probe), reconnects before it ever reboots, and leaves at least the cooldown
  between two reboots.\<close>

theorem watchdog_restrained:
  "list_all (\<lambda>(k, s, a). a \<noteq> NoAction \<longrightarrow> confirmed k s) (watch_states ks s0)
   \<and> Reboot \<notin> set (takeWhile (\<lambda>a. a \<noteq> Reconnect) (map snd (watch ks (fresh_state r))))
   \<and> successively (\<lambda>a b. REBOOT_COOLDOWN_SECONDS \<le> b - a) (reboot_times (watch ks (fresh_state r)))"
proof (intro conjI)
  show "list_all (\<lambda>(k, s, a). a \<noteq> NoAction \<longrightarrow> confirmed k s) (watch_states ks s0)"
    using check_confirmed by (induction ks arbitrary: s0) (auto split: prod.splits)
  show "Reboot \<notin> set (takeWhile (\<lambda>a. a \<noteq> Reconnect) (map snd (watch ks (fresh_state r))))"
    by (rule reconnect_first) (simp add: fresh_state_def)
  show "successively (\<lambda>a b. REBOOT_COOLDOWN_SECONDS \<le> b - a) (reboot_times (watch ks (fresh_state r)))"
    using reboots_spaced [of "fresh_state r" ks]
    by (cases r; cases "reboot_times (watch ks (fresh_state r))") (simp_all add: fresh_state_def)
qed

definition demo_tick :: "int \<Rightarrow> real \<Rightarrow> tick" where
  "demo_tick recv t = \<lparr>tk_timeout = Some 60, tk_connected = True, tk_setup_complete = True, tk_silence = Some 100, tk_frame_seen = False,
     tk_now = t, tk_probe = Some (Some recv), tk_sampled_at = t, tk_escalated_at = t\<rparr>"

lemma demo_watch: "list_ex (\<lambda>(k, s, a). a = Reconnect) (watch_states [demo_tick 5 0, demo_tick 9 60] (fresh_state None))"
  by (simp add: check_def demo_tick_def rx_timeout_def fresh_state_def escalate_def)

theorem watchdog_restrained_witness:
  "list_ex (\<lambda>(k, s, a). a = Reconnect \<and> confirmed k s) (watch_states [demo_tick 5 0, demo_tick 9 60] (fresh_state None))"
proof -
  have "list_all P xs \<Longrightarrow> list_ex Q xs \<Longrightarrow> list_ex (\<lambda>x. Q x \<and> P x) xs" for P Q :: "tick \<times> RxWatchdogState \<times> action \<Rightarrow> bool" and xs
    by (induction xs) auto
  from this [OF watchdog_restrained [THEN conjunct1] demo_watch] show ?thesis
    by (rule back_subst) (auto intro!: arg_cong [of _ _ "\<lambda>f. list_ex f _"])
qed

end
