(* ===== verification/Cron.thy ===== *)
theory Cron
  imports Prelude "HOL-Library.Product_Lexorder"
begin

text \<open>
  Cron schedules of the bots (\<open>src/app/bots/cron.py\<close>): the five-field parser and the search for the
  next fire time. A \<open>datetime\<close> is a naive local moment at minute resolution (the search drops the
  seconds, and a moment without seconds is at or before the limit exactly when its minute is). Years
  are unbounded; the source's \<open>datetime\<close> raises past the year 9999.
\<close>

section \<open>Moments\<close>

datatype datetime = DateTime (dt_year: nat) (dt_month: nat) (dt_day: nat) (dt_hour: nat) (dt_minute: nat)

definition dt_key :: "datetime \<Rightarrow> nat \<times> nat \<times> nat \<times> nat \<times> nat" where
  "dt_key t = (dt_year t, dt_month t, dt_day t, dt_hour t, dt_minute t)"

lemma dt_key_inject [simp]: "dt_key a = dt_key b \<longleftrightarrow> a = b"
  by (cases a; cases b) (simp add: dt_key_def)

instantiation datetime :: linorder
begin

definition less_eq_datetime :: "datetime \<Rightarrow> datetime \<Rightarrow> bool" where
  "less_eq_datetime a b \<longleftrightarrow> dt_key a \<le> dt_key b"

definition less_datetime :: "datetime \<Rightarrow> datetime \<Rightarrow> bool" where
  "less_datetime a b \<longleftrightarrow> dt_key a < dt_key b"

instance
  by standard (auto simp: less_eq_datetime_def less_datetime_def less_le)

end

definition is_leap :: "nat \<Rightarrow> bool" where
  "is_leap y \<longleftrightarrow> y mod 4 = 0 \<and> (y mod 100 \<noteq> 0 \<or> y mod 400 = 0)"

definition days_in_month :: "nat \<Rightarrow> nat \<Rightarrow> nat" where
  "days_in_month y m = (if m = 2 then (if is_leap y then 29 else 28) else if m \<in> {4, 6, 9, 11} then 30 else 31)"

definition days_before_year :: "nat \<Rightarrow> nat" where
  "days_before_year y = (y - 1) * 365 + (y - 1) div 4 - (y - 1) div 100 + (y - 1) div 400"

text \<open>\<open>date.toordinal\<close> and \<open>weekday\<close>, 0 for Monday.\<close>

definition toordinal :: "datetime \<Rightarrow> nat" where
  "toordinal t = days_before_year (dt_year t) + sum_list (map (days_in_month (dt_year t)) [1..<dt_month t]) + dt_day t"

definition weekday :: "datetime \<Rightarrow> nat" where
  "weekday t = (toordinal t + 6) mod 7"

definition first_of_next_month :: "datetime \<Rightarrow> datetime" where
  "first_of_next_month t =
     (if dt_month t \<ge> 12 then DateTime (dt_year t + 1) 1 1 0 0 else DateTime (dt_year t) (dt_month t + 1) 1 0 0)"

text \<open>\<open>(t + timedelta(days=1)).replace(hour=0, minute=0)\<close>, \<open>(t + timedelta(hours=1)).replace(minute=0)\<close> and
  \<open>t + timedelta(minutes=1)\<close>.\<close>

definition next_day :: "datetime \<Rightarrow> datetime" where
  "next_day t =
     (if dt_day t < days_in_month (dt_year t) (dt_month t) then DateTime (dt_year t) (dt_month t) (dt_day t + 1) 0 0
      else first_of_next_month t)"

definition next_hour :: "datetime \<Rightarrow> datetime" where
  "next_hour t = (if dt_hour t < 23 then DateTime (dt_year t) (dt_month t) (dt_day t) (dt_hour t + 1) 0 else next_day t)"

definition next_minute :: "datetime \<Rightarrow> datetime" where
  "next_minute t =
     (if dt_minute t < 59 then DateTime (dt_year t) (dt_month t) (dt_day t) (dt_hour t) (dt_minute t + 1) else next_hour t)"

text \<open>\<open>t + timedelta(days=n)\<close>.\<close>

definition add_days :: "nat \<Rightarrow> datetime \<Rightarrow> datetime" where
  "add_days n t =
     (let d = (next_day ^^ n) (DateTime (dt_year t) (dt_month t) (dt_day t) 0 0)
      in DateTime (dt_year d) (dt_month d) (dt_day d) (dt_hour t) (dt_minute t))"

section \<open>Parsing\<close>

definition presets :: "(string \<times> string) list" where
  "presets =
     [(''@yearly'', ''0 0 1 1 *''), (''@annually'', ''0 0 1 1 *''), (''@monthly'', ''0 0 1 * *''), (''@weekly'', ''0 0 * * 0''),
      (''@daily'', ''0 0 * * *''), (''@midnight'', ''0 0 * * *''), (''@hourly'', ''0 * * * *'')]"

definition dow_names :: "(string \<times> int) list" where
  "dow_names = [(''mon'', 0), (''tue'', 1), (''wed'', 2), (''thu'', 3), (''fri'', 4), (''sat'', 5), (''sun'', 6)]"

definition month_names :: "(string \<times> int) list" where
  "month_names =
     [(''jan'', 1), (''feb'', 2), (''mar'', 3), (''apr'', 4), (''may'', 5), (''jun'', 6),
      (''jul'', 7), (''aug'', 8), (''sep'', 9), (''oct'', 10), (''nov'', 11), (''dec'', 12)]"

definition parse_atom :: "string \<Rightarrow> int \<Rightarrow> int \<Rightarrow> (string \<times> int) list \<Rightarrow> int res" where
  "parse_atom atom0 lo hi names =
     (let atom = lower (strip atom0)
      in case map_of names atom of
           Some v \<Rightarrow> Inr v
         | None \<Rightarrow>
             (case py_int 10 atom of
                None \<Rightarrow> Inl CronParseError
              | Some v \<Rightarrow> if \<not> (lo \<le> v \<and> v \<le> hi) then Inl CronParseError else Inr v))"

text \<open>\<open>part.split(c, 1)\<close> for a separator that occurs: the text before and after its first occurrence.\<close>

definition split_once :: "char \<Rightarrow> string \<Rightarrow> string \<times> string" where
  "split_once c s = (takeWhile (\<lambda>x. x \<noteq> c) s, drop 1 (dropWhile (\<lambda>x. x \<noteq> c) s))"

text \<open>\<open>range(start, end + 1, step)\<close>.\<close>

definition stepped :: "int \<Rightarrow> int \<Rightarrow> int \<Rightarrow> int list" where
  "stepped start fin step = filter (\<lambda>v. (v - start) mod step = 0) [start..fin]"

definition parse_range :: "string \<Rightarrow> int \<Rightarrow> int \<Rightarrow> (string \<times> int) list \<Rightarrow> (int \<times> int) res" where
  "parse_range part lo hi names =
     (if part = ''*'' \<or> part = [] then Inr (lo, hi)
      else if CHR ''-'' \<in> set part then
        (case split_once (CHR ''-'') part of (start_s, end_s) \<Rightarrow>
           bind_res (parse_atom start_s lo hi names) (\<lambda>start.
           bind_res (parse_atom end_s lo hi names) (\<lambda>fin.
             if fin < start then Inl CronParseError else Inr (start, fin))))
      else bind_res (parse_atom part lo hi names) (\<lambda>v. Inr (v, v)))"

definition parse_part :: "string \<Rightarrow> int \<Rightarrow> int \<Rightarrow> (string \<times> int) list \<Rightarrow> int list res" where
  "parse_part part0 lo hi names =
     (let part = strip part0
      in if part = [] then Inl CronParseError
      else
        bind_res
          (if CHR ''/'' \<in> set part then
             (case split_once (CHR ''/'') part of (p, step_str) \<Rightarrow>
                (case py_int 10 step_str of
                   None \<Rightarrow> Inl CronParseError
                 | Some step \<Rightarrow> if step < 1 then Inl CronParseError else Inr (p, step)))
           else Inr (part, 1))
          (\<lambda>(p, step). bind_res (parse_range p lo hi names) (\<lambda>(start, fin). Inr (stepped start fin step))))"

definition parse_field :: "string \<Rightarrow> int \<Rightarrow> int \<Rightarrow> (string \<times> int) list \<Rightarrow> int set res" where
  "parse_field fld lo hi names =
     bind_res (map_res (\<lambda>part. parse_part part lo hi names) (split_on (CHR '','') fld)) (\<lambda>parts. Inr (set (concat parts)))"

record CronSchedule =
  cs_expression :: string
  cs_minutes :: "int set"
  cs_hours :: "int set"
  cs_days_of_month :: "int set"
  cs_months :: "int set"
  cs_days_of_week :: "int set"
  cs_dom_restricted :: bool
  cs_dow_restricted :: bool

text \<open>\<open>raw.split()\<close>: the runs of characters that are not white space.\<close>

fun split_ws :: "string \<Rightarrow> string list" where
  "split_ws [] = []"
| "split_ws (c # cs) =
     (if py_space c then split_ws cs
      else (case split_ws cs of
              [] \<Rightarrow> [[c]]
            | w # ws \<Rightarrow> if cs \<noteq> [] \<and> \<not> py_space (hd cs) then (c # w) # ws else [c] # w # ws))"

text \<open>The five fields of a split expression.\<close>

fun parse_fields :: "string \<Rightarrow> string list \<Rightarrow> CronSchedule res" where
  "parse_fields expression [minute_f, hour_f, dom_f, month_f, dow_f] =
     bind_res (parse_field minute_f 0 59 []) (\<lambda>minutes.
     bind_res (parse_field hour_f 0 23 []) (\<lambda>hours.
     bind_res (parse_field dom_f 1 31 []) (\<lambda>doms.
     bind_res (parse_field month_f 1 12 month_names) (\<lambda>months.
     bind_res (parse_field dow_f 0 6 dow_names) (\<lambda>dows.
       Inr \<lparr>cs_expression = strip expression, cs_minutes = minutes, cs_hours = hours, cs_days_of_month = doms,
            cs_months = months, cs_days_of_week = dows,
            cs_dom_restricted = hd (split_on (CHR ''/'') dom_f) \<noteq> ''*'',
            cs_dow_restricted = hd (split_on (CHR ''/'') dow_f) \<noteq> ''*''\<rparr>)))))"
| "parse_fields expression _ = Inl CronParseError"

definition parse_cron :: "string \<Rightarrow> CronSchedule res" where
  "parse_cron expression =
     (let raw = strip expression
      in if raw = [] then Inl CronParseError
      else
        bind_res
          (if starts_with ''@'' (lower raw)
           then (case map_of presets (lower raw) of None \<Rightarrow> Inl CronParseError | Some p \<Rightarrow> Inr p)
           else Inr raw)
          (\<lambda>raw1. parse_fields expression (split_ws raw1)))"

section \<open>Firing\<close>

definition day_matches :: "CronSchedule \<Rightarrow> datetime \<Rightarrow> bool" where
  "day_matches s moment =
     (let dom_ok = int (dt_day moment) \<in> cs_days_of_month s; dow_ok = int (weekday moment) \<in> cs_days_of_week s
      in if cs_dom_restricted s \<and> cs_dow_restricted s then dom_ok \<or> dow_ok else dom_ok \<and> dow_ok)"

definition matches :: "CronSchedule \<Rightarrow> datetime \<Rightarrow> bool" where
  "matches s moment \<longleftrightarrow> int (dt_minute moment) \<in> cs_minutes s \<and> int (dt_hour moment) \<in> cs_hours s
     \<and> int (dt_month moment) \<in> cs_months s \<and> day_matches s moment"

lemma days_in_month_le: "days_in_month y m \<le> 31"
  by (simp add: days_in_month_def)

function next_fire_loop :: "CronSchedule \<Rightarrow> datetime \<Rightarrow> datetime \<Rightarrow> datetime option" where
  "next_fire_loop s limit moment =
     (if \<not> moment \<le> limit then None
      else if int (dt_month moment) \<notin> cs_months s then next_fire_loop s limit (first_of_next_month moment)
      else if \<not> day_matches s moment then next_fire_loop s limit (next_day moment)
      else if int (dt_hour moment) \<notin> cs_hours s then next_fire_loop s limit (next_hour moment)
      else if int (dt_minute moment) \<notin> cs_minutes s then next_fire_loop s limit (next_minute moment)
      else Some moment)"
  by pat_completeness auto
termination
proof (relation "measures [\<lambda>(s, l, t). Suc (dt_year l) - dt_year t, \<lambda>(s, l, t). 12 - dt_month t, \<lambda>(s, l, t). 31 - dt_day t,
    \<lambda>(s, l, t). 23 - dt_hour t, \<lambda>(s, l, t). 59 - dt_minute t]", goal_cases)
  case (2 s l t)
  then show ?case by (auto simp: less_eq_datetime_def dt_key_def first_of_next_month_def)
next
  case (3 s l t)
  then show ?case using days_in_month_le [of "dt_year t" "dt_month t"]
    by (auto simp: less_eq_datetime_def dt_key_def first_of_next_month_def next_day_def)
next
  case (4 s l t)
  then show ?case using days_in_month_le [of "dt_year t" "dt_month t"]
    by (auto simp: less_eq_datetime_def dt_key_def first_of_next_month_def next_day_def next_hour_def)
next
  case (5 s l t)
  then show ?case using days_in_month_le [of "dt_year t" "dt_month t"]
    by (auto simp: less_eq_datetime_def dt_key_def first_of_next_month_def next_day_def next_hour_def next_minute_def)
qed simp

declare next_fire_loop.simps [simp del]

definition next_fire :: "CronSchedule \<Rightarrow> datetime \<Rightarrow> datetime option" where
  "next_fire s after = next_fire_loop s (add_days (4 * 366) after) (next_minute after)"

section \<open>The next fire time is the first\<close>

definition valid_dt :: "datetime \<Rightarrow> bool" where
  "valid_dt t \<longleftrightarrow> 1 \<le> dt_month t \<and> dt_month t \<le> 12 \<and> 1 \<le> dt_day t \<and> dt_day t \<le> days_in_month (dt_year t) (dt_month t)
     \<and> dt_hour t < 24 \<and> dt_minute t < 60"

lemmas dt_order = less_eq_datetime_def less_datetime_def dt_key_def

lemma days_in_month_pos [simp]: "1 \<le> days_in_month y m"
  by (simp add: days_in_month_def)

lemma valid_steps:
  assumes "valid_dt t"
  shows "valid_dt (first_of_next_month t)" "valid_dt (next_day t)" "valid_dt (next_hour t)" "valid_dt (next_minute t)"
proof -
  show m: "valid_dt (first_of_next_month t)" using assms days_in_month_pos [of "dt_year t + 1" 1] days_in_month_pos [of "dt_year t" "dt_month t + 1"]
    by (auto simp: valid_dt_def first_of_next_month_def simp del: days_in_month_pos)
  then show d: "valid_dt (next_day t)" using assms by (auto simp: valid_dt_def next_day_def)
  then show h: "valid_dt (next_hour t)" using assms by (auto simp: valid_dt_def next_hour_def)
  then show "valid_dt (next_minute t)" using assms by (auto simp: valid_dt_def next_minute_def)
qed

lemma steps_advance: "t < first_of_next_month t" "t < next_day t" "t < next_hour t" "t < next_minute t"
  by (simp_all add: dt_order first_of_next_month_def next_day_def next_hour_def next_minute_def)

text \<open>Each jump passes only over moments of the same month, day, hour or minute.\<close>

lemma same_month: "valid_dt t \<Longrightarrow> valid_dt x \<Longrightarrow> t \<le> x \<Longrightarrow> x < first_of_next_month t \<Longrightarrow> dt_year x = dt_year t \<and> dt_month x = dt_month t"
  by (auto simp: dt_order valid_dt_def first_of_next_month_def split: if_splits)

lemma same_day:
  assumes "valid_dt t" "valid_dt x" "t \<le> x" "x < next_day t"
  shows "dt_year x = dt_year t \<and> dt_month x = dt_month t \<and> dt_day x = dt_day t"
proof (cases "dt_day t < days_in_month (dt_year t) (dt_month t)")
  case True
  then show ?thesis using assms by (auto simp: dt_order next_day_def)
next
  case False
  then have "x < first_of_next_month t" using assms(4) by (simp add: next_day_def)
  from same_month [OF assms(1-3) this] show ?thesis using assms False by (auto simp: dt_order valid_dt_def)
qed

lemma same_hour:
  assumes "valid_dt t" "valid_dt x" "t \<le> x" "x < next_hour t"
  shows "dt_year x = dt_year t \<and> dt_month x = dt_month t \<and> dt_day x = dt_day t \<and> dt_hour x = dt_hour t"
proof (cases "dt_hour t < 23")
  case True
  then show ?thesis using assms by (auto simp: dt_order next_hour_def)
next
  case False
  then have "x < next_day t" using assms(4) by (simp add: next_hour_def)
  from same_day [OF assms(1-3) this] show ?thesis using assms False by (auto simp: dt_order valid_dt_def)
qed

lemma same_minute:
  assumes "valid_dt t" "valid_dt x" "t \<le> x" "x < next_minute t"
  shows "x = t"
proof (cases "dt_minute t < 59")
  case True
  then show ?thesis using assms by (cases x; cases t) (auto simp: dt_order next_minute_def)
next
  case False
  then have "x < next_hour t" using assms(4) by (simp add: next_minute_def)
  from same_hour [OF assms(1-3) this] show ?thesis using assms False by (cases x; cases t) (auto simp: dt_order valid_dt_def)
qed

lemma day_matches_cong:
  "dt_year x = dt_year t \<Longrightarrow> dt_month x = dt_month t \<Longrightarrow> dt_day x = dt_day t \<Longrightarrow> day_matches s x = day_matches s t"
  by (simp add: day_matches_def weekday_def toordinal_def)

text \<open>The jump of a round that does not fire, and what it passes over.\<close>

definition jump :: "CronSchedule \<Rightarrow> datetime \<Rightarrow> datetime" where
  "jump s t =
     (if int (dt_month t) \<notin> cs_months s then first_of_next_month t
      else if \<not> day_matches s t then next_day t
      else if int (dt_hour t) \<notin> cs_hours s then next_hour t
      else next_minute t)"

lemma jump_passes:
  assumes "valid_dt t" and "\<not> matches s t" and "valid_dt x" and "t \<le> x" and "x < jump s t"
  shows "\<not> matches s x"
proof -
  consider "int (dt_month t) \<notin> cs_months s" | "int (dt_month t) \<in> cs_months s" "\<not> day_matches s t"
    | "int (dt_month t) \<in> cs_months s" "day_matches s t" "int (dt_hour t) \<notin> cs_hours s"
    | "int (dt_month t) \<in> cs_months s" "day_matches s t" "int (dt_hour t) \<in> cs_hours s" by blast
  then show ?thesis
  proof cases
    case 1
    then show ?thesis using same_month [OF assms(1,3,4)] assms(5) by (simp add: jump_def matches_def)
  next
    case 2
    then show ?thesis using same_day [OF assms(1,3,4)] assms(5) day_matches_cong [of x t s] by (simp add: jump_def matches_def)
  next
    case 3
    then show ?thesis using same_hour [OF assms(1,3,4)] assms(5) by (simp add: jump_def matches_def)
  next
    case 4
    then show ?thesis using same_minute [OF assms(1,3,4)] assms(2,5) by (simp add: jump_def)
  qed
qed

lemma next_fire_loop_eq:
  "next_fire_loop s limit t = (if \<not> t \<le> limit then None else if matches s t then Some t else next_fire_loop s limit (jump s t))"
  by (subst next_fire_loop.simps) (auto simp: matches_def jump_def)

lemma jump_valid: "valid_dt t \<Longrightarrow> valid_dt (jump s t) \<and> t < jump s t"
  by (simp add: jump_def valid_steps steps_advance)

definition first_match :: "CronSchedule \<Rightarrow> datetime \<Rightarrow> datetime \<Rightarrow> datetime option \<Rightarrow> bool" where
  "first_match s from limit r \<longleftrightarrow>
     (case r of
        Some u \<Rightarrow> valid_dt u \<and> matches s u \<and> from \<le> u \<and> u \<le> limit \<and> (\<forall>x. valid_dt x \<and> from \<le> x \<and> x < u \<longrightarrow> \<not> matches s x)
      | None \<Rightarrow> \<forall>x. valid_dt x \<and> from \<le> x \<and> x \<le> limit \<longrightarrow> \<not> matches s x)"

lemma first_match_jump:
  assumes "valid_dt t" and "\<not> matches s t" and "first_match s (jump s t) limit r"
  shows "first_match s t limit r"
proof -
  have "\<not> matches s x" if "valid_dt x" "t \<le> x" "x < jump s t" for x using jump_passes [OF assms(1,2) that] .
  then show ?thesis using assms(3) jump_valid [OF assms(1), of s]
    by (cases r) (auto simp: first_match_def not_le [symmetric])
qed

lemma loop_first: "valid_dt t \<Longrightarrow> first_match s t limit (next_fire_loop s limit t)"
proof (induction s limit t rule: next_fire_loop.induct)
  case (1 s limit t)
  consider "\<not> t \<le> limit" | "t \<le> limit" "matches s t" | "t \<le> limit" "\<not> matches s t" by blast
  then show ?case
  proof cases
    case 1
    then show ?thesis by (auto simp: next_fire_loop_eq [of s limit t] first_match_def)
  next
    case 2
    then show ?thesis using 1(5) by (auto simp: next_fire_loop_eq [of s limit t] first_match_def)
  next
    case 3
    have "first_match s (jump s t) limit (next_fire_loop s limit (jump s t))"
      using 1 3 jump_valid [of t s] by (simp add: jump_def matches_def split: if_splits)
    then show ?thesis using first_match_jump [OF 1(5)] 3 by (simp add: next_fire_loop_eq [of s limit t])
  qed
qed

text \<open>C35: The search for the next fire time finds the first moment after the given one at which the schedule fires, for every
  schedule and every date, and gives up exactly when no such moment lies within the four-year horizon; it always ends.\<close>

theorem next_fire_first:
  assumes "valid_dt after"
  shows "case next_fire s after of
      Some t \<Rightarrow> matches s t \<and> valid_dt t \<and> after < t \<and> t \<le> add_days (4 * 366) after
        \<and> (\<forall>x. valid_dt x \<and> after < x \<and> x < t \<longrightarrow> \<not> matches s x)
    | None \<Rightarrow> \<forall>x. valid_dt x \<and> after < x \<and> x \<le> add_days (4 * 366) after \<longrightarrow> \<not> matches s x"
proof -
  have step: "after < x \<longleftrightarrow> next_minute after \<le> x" if "valid_dt x" for x
    using same_minute [OF assms that] steps_advance(4) [of after] by (metis leI less_le_trans less_imp_le less_irrefl)
  have "first_match s (next_minute after) (add_days (4 * 366) after) (next_fire s after)"
    unfolding next_fire_def using loop_first valid_steps(4) [OF assms] .
  then show ?thesis using step by (auto simp: first_match_def split: option.splits)
qed

section \<open>What the parser lets through\<close>

definition field_ok :: "int \<Rightarrow> int \<Rightarrow> int set \<Rightarrow> bool" where
  "field_ok lo hi vs \<longleftrightarrow> vs \<noteq> {} \<and> (\<forall>v\<in>vs. lo \<le> v \<and> v \<le> hi)"

definition schedule_ok :: "CronSchedule \<Rightarrow> bool" where
  "schedule_ok s \<longleftrightarrow> field_ok 0 59 (cs_minutes s) \<and> field_ok 0 23 (cs_hours s) \<and> field_ok 1 31 (cs_days_of_month s)
     \<and> field_ok 1 12 (cs_months s) \<and> field_ok 0 6 (cs_days_of_week s)"

definition names_ok :: "int \<Rightarrow> int \<Rightarrow> (string \<times> int) list \<Rightarrow> bool" where
  "names_ok lo hi names \<longleftrightarrow> (\<forall>v\<in>snd ` set names. lo \<le> v \<and> v \<le> hi)"

lemma names_ok_tables [simp]: "names_ok 1 12 month_names" "names_ok 0 6 dow_names" "names_ok lo hi []"
  by (simp_all add: names_ok_def month_names_def dow_names_def)

lemma parse_atom_range: "parse_atom a lo hi names = Inr v \<Longrightarrow> names_ok lo hi names \<Longrightarrow> lo \<le> v \<and> v \<le> hi"
  by (auto simp: parse_atom_def names_ok_def Let_def image_iff split: option.splits if_splits dest!: map_of_SomeD)

lemma parse_range_ok:
  "parse_range p lo hi names = Inr (a, b) \<Longrightarrow> names_ok lo hi names \<Longrightarrow> lo \<le> hi \<Longrightarrow> lo \<le> a \<and> a \<le> b \<and> b \<le> hi"
  by (auto simp: parse_range_def bind_res_Inr split: if_splits sum.splits prod.splits dest!: parse_atom_range)

lemma stepped_ok: "lo \<le> a \<Longrightarrow> a \<le> b \<Longrightarrow> b \<le> hi \<Longrightarrow> field_ok lo hi (set (stepped a b k))"
  by (auto simp: field_ok_def stepped_def intro!: bexI [of _ a])

lemma parse_part_ok:
  assumes "parse_part p lo hi names = Inr vs" and "names_ok lo hi names" and "lo \<le> hi"
  shows "field_ok lo hi (set vs)"
  using assms
  by (auto simp: parse_part_def Let_def bind_res_Inr split: if_splits sum.splits prod.splits option.splits
      intro!: stepped_ok dest!: parse_range_ok)

lemma parse_field_ok:
  assumes "parse_field f lo hi names = Inr vs" and "names_ok lo hi names" and "lo \<le> hi"
  shows "field_ok lo hi vs"
proof -
  let ?ps = "split_on (CHR '','') f"
  obtain parts where p: "map_res (\<lambda>part. parse_part part lo hi names) ?ps = Inr parts" and vs: "vs = set (concat parts)"
    using assms(1) by (auto simp: parse_field_def bind_res_Inr)
  have each: "field_ok lo hi (set x)" if x: "x \<in> set parts" for x
    using x p parse_part_ok [OF _ assms(2,3)] by (auto simp: map_res_nth in_set_conv_nth)
  have "parts \<noteq> []" using p by (auto simp: map_res_nth)
  then have "hd parts \<in> set parts" by simp
  from each [OF this] have "set (hd parts) \<noteq> {}" by (simp add: field_ok_def)
  then show ?thesis using each \<open>hd parts \<in> set parts\<close> by (fastforce simp: vs field_ok_def)
qed

lemma parse_fields_ok: "parse_fields e fs = Inr s \<Longrightarrow> schedule_ok s"
  by (cases "(e, fs)" rule: parse_fields.cases)
    (auto simp: bind_res_Inr schedule_ok_def elim!: parse_field_ok)

text \<open>Every cron expression the parser accepts gives a schedule whose five fields are non-empty and hold only
  minutes 0-59, hours 0-23, days 1-31, months 1-12 and weekdays 0-6; everything else is a parse error.\<close>

theorem parse_cron_in_range:
  assumes "parse_cron e = Inr s"
  shows "schedule_ok s"
  using assms by (auto simp: parse_cron_def Let_def bind_res_Inr dest!: parse_fields_ok split: if_splits)

theorem parse_cron_in_range_witness: "\<exists>s. parse_cron ''*/20 1-9/4 29 feb mon,4'' = Inr s \<and> schedule_ok s \<and> cs_minutes s = {0, 20, 40}"
proof -
  have "case parse_cron ''*/20 1-9/4 29 feb mon,4'' of Inr s \<Rightarrow> cs_minutes s = {0, 20, 40} | Inl _ \<Rightarrow> False" by code_simp
  then show ?thesis using parse_cron_in_range by (auto split: sum.splits)
qed

theorem next_fire_first_witness:
  "\<exists>s. parse_cron ''0 12 29 2 *'' = Inr s \<and> valid_dt (DateTime 2024 2 29 12 0) \<and>
     (case next_fire s (DateTime 2024 2 29 12 0) of
       Some t \<Rightarrow> matches s t \<and> valid_dt t \<and> DateTime 2024 2 29 12 0 < t \<and> t \<le> add_days (4 * 366) (DateTime 2024 2 29 12 0)
         \<and> (\<forall>x. valid_dt x \<and> DateTime 2024 2 29 12 0 < x \<and> x < t \<longrightarrow> \<not> matches s x)
     | None \<Rightarrow> \<forall>x. valid_dt x \<and> DateTime 2024 2 29 12 0 < x \<and> x \<le> add_days (4 * 366) (DateTime 2024 2 29 12 0) \<longrightarrow> \<not> matches s x)"
proof -
  have "case parse_cron ''0 12 29 2 *'' of Inr _ \<Rightarrow> True | Inl _ \<Rightarrow> False" by code_simp
  then have p: "\<exists>s. parse_cron ''0 12 29 2 *'' = Inr s" by (auto split: sum.splits)
  have v: "valid_dt (DateTime 2024 2 29 12 0)" by (simp add: valid_dt_def days_in_month_def is_leap_def)
  show ?thesis using p next_fire_first [OF v] v by blast
qed

end
