(* ===== verification/ChannelData.thy ===== *)
theory ChannelData
  imports Prelude "HOL-Library.AList"
begin

text \<open>
  The binary image transport over group-data packets: chunk blobs, splitting, XOR parity and
  recovery, companion frames and envelopes (\<open>src/app/imaging/aeic/channel_data.py\<close>), and the
  reassembler with its session table (\<open>src/app/imaging/aeic/channel_data_ingest.py\<close>).
  A Python \<open>dict\<close> is an association list in insertion order; assignment keeps the position of a key
  and appends a new one, as \<^const>\<open>AList.update\<close> does. Times are reals. An operation of the
  reassembler returns the state it leaves behind, also when it raises.
\<close>

section \<open>Constants\<close>

definition CMD_SEND_CHANNEL_DATA :: nat where "CMD_SEND_CHANNEL_DATA = 62"
definition RESP_CODE_CHANNEL_DATA_RECV :: nat where "RESP_CODE_CHANNEL_DATA_RECV = 27"
definition OUT_PATH_UNKNOWN :: nat where "OUT_PATH_UNKNOWN = 255"
definition DATA_TYPE_AEIC_IMAGE :: nat where "DATA_TYPE_AEIC_IMAGE = 0xAE1C"
definition DATA_TYPE_MCO_IMAGE :: nat where "DATA_TYPE_MCO_IMAGE = 0xFFF0"
definition DATA_TYPE_MCMP :: nat where "DATA_TYPE_MCMP = 0xFFF1"
definition DATA_TYPE_MCO_APP :: nat where "DATA_TYPE_MCO_APP = 0x0120"
definition MCO_APP_SUBTYPE_MCO_IMAGE :: nat where "MCO_APP_SUBTYPE_MCO_IMAGE = 1"
definition BLOB_BYTES :: nat where "BLOB_BYTES = 163"
definition CHUNK_HEADER_BYTES :: nat where "CHUNK_HEADER_BYTES = 4"
definition PARITY_LENGTH_BYTES :: nat where "PARITY_LENGTH_BYTES = 1"
definition BODY_BYTES :: nat where "BODY_BYTES = BLOB_BYTES - CHUNK_HEADER_BYTES - PARITY_LENGTH_BYTES"
definition METADATA_BYTES :: nat where "METADATA_BYTES = 1"
definition MAX_DATA_CHUNKS :: nat where "MAX_DATA_CHUNKS = 15"
definition CHUNK_ZERO_IMAGE_BYTES :: nat where "CHUNK_ZERO_IMAGE_BYTES = BODY_BYTES - METADATA_BYTES"
definition LOCAL_ALIAS_PREFIX_XOR :: nat where "LOCAL_ALIAS_PREFIX_XOR = 65535"
definition MAX_ENVELOPE_NAME_BYTES :: nat where "MAX_ENVELOPE_NAME_BYTES = 127"
definition SESSION_TTL_SECONDS :: real where "SESSION_TTL_SECONDS = 600"
definition MAX_PENDING_IMAGES :: nat where "MAX_PENDING_IMAGES = 32"
definition TEXT_BLOB_DEDUP_SECONDS :: real where "TEXT_BLOB_DEDUP_SECONDS = 60"
definition MAX_REMEMBERED_TEXT_BLOBS :: nat where "MAX_REMEMBERED_TEXT_BLOBS = 256"

section \<open>Chunks\<close>

record ChannelDataChunk =
  ch_sender_prefix :: nat
  ch_img_id :: nat
  ch_index :: nat
  ch_total :: nat
  ch_body :: bytes

definition is_parity :: "ChannelDataChunk \<Rightarrow> bool" where
  "is_parity c \<longleftrightarrow> ch_index c = ch_total c"

definition sender_prefix_for :: "bytes \<Rightarrow> nat res" where
  "sender_prefix_for public_key =
     (case public_key of
        a # b # _ \<Rightarrow> Inr (push_bit 8 (unat a AND 255) OR (unat b AND 255))
      | _ \<Rightarrow> Inl ChannelDataFormatError)"

definition aliased_sender_prefix :: "nat \<Rightarrow> nat" where
  "aliased_sender_prefix sender_prefix = (sender_prefix XOR LOCAL_ALIAS_PREFIX_XOR) AND 65535"

definition prefix_bytes :: "nat \<Rightarrow> bytes" where
  "prefix_bytes p = [byte_of (drop_bit 8 p AND 255), byte_of (p AND 255)]"

definition aliased_public_key :: "string \<Rightarrow> string option" where
  "aliased_public_key public_key =
     (case fromhex public_key of
        None \<Rightarrow> None
      | Some raw \<Rightarrow>
          if length raw \<noteq> 32 then None
          else (case sender_prefix_for raw of
                  Inl _ \<Rightarrow> None
                | Inr p \<Rightarrow> Some (hex_of (prefix_bytes (aliased_sender_prefix p)) @ hex_of (drop 2 raw))))"

definition relabel_chunk_sender :: "bytes \<Rightarrow> nat \<Rightarrow> bytes" where
  "relabel_chunk_sender blob sender_prefix =
     (if length blob < CHUNK_HEADER_BYTES then blob else prefix_bytes sender_prefix @ drop 2 blob)"

definition build_chunk_blob :: "int \<Rightarrow> int \<Rightarrow> int \<Rightarrow> int \<Rightarrow> bytes \<Rightarrow> bytes res" where
  "build_chunk_blob sender_prefix img_id index tot body =
     (if \<not> (0 \<le> sender_prefix \<and> sender_prefix \<le> 65535) then Inl ChannelDataFormatError
      else if \<not> (0 \<le> img_id \<and> img_id \<le> 255) then Inl ChannelDataFormatError
      else if \<not> (1 \<le> tot \<and> tot \<le> int MAX_DATA_CHUNKS) then Inl ChannelDataFormatError
      else if \<not> (0 \<le> index \<and> index \<le> tot) then Inl ChannelDataFormatError
      else if length body > BODY_BYTES + PARITY_LENGTH_BYTES then Inl ChannelDataFormatError
      else Inr (prefix_bytes (nat sender_prefix)
                @ [byte_of (nat img_id AND 255),
                   byte_of (push_bit 4 (nat index AND 15) OR (nat tot AND 15))] @ body))"

definition parse_chunk_blob :: "bytes \<Rightarrow> ChannelDataChunk option" where
  "parse_chunk_blob blob =
     (if length blob \<le> CHUNK_HEADER_BYTES then None
      else
        let tot = unat (blob ! 3) AND 15;
            index = drop_bit 4 (unat (blob ! 3)) AND 15
        in if tot < 1 \<or> index > tot then None
           else Some \<lparr>ch_sender_prefix = push_bit 8 (unat (blob ! 0) AND 255) OR (unat (blob ! 1) AND 255),
                      ch_img_id = unat (blob ! 2) AND 255, ch_index = index, ch_total = tot,
                      ch_body = drop CHUNK_HEADER_BYTES blob\<rparr>)"

section \<open>Splitting and parity\<close>

definition split_image_bodies :: "bytes \<Rightarrow> int \<Rightarrow> bytes list res" where
  "split_image_bodies bitstream metadata_byte =
     (if bitstream = [] then Inl ChannelDataFormatError
      else if \<not> (0 \<le> metadata_byte \<and> metadata_byte \<le> 255) then Inl ChannelDataFormatError
      else
        let bodies = (byte_of (nat metadata_byte) # take CHUNK_ZERO_IMAGE_BYTES bitstream)
                     # chunks BODY_BYTES (drop CHUNK_ZERO_IMAGE_BYTES bitstream)
        in if length bodies > MAX_DATA_CHUNKS then Inl ChannelDataFormatError else Inr bodies)"

text \<open>\<open>for i, value in enumerate(body): xor[i] ^= value\<close> on a \<open>bytearray\<close>.\<close>

definition xor_into :: "bytes \<Rightarrow> bytes \<Rightarrow> bytes res" where
  "xor_into acc body =
     (if length body > length acc then Inl IndexError
      else Inr (map2 (XOR) (take (length body) acc) body @ drop (length body) acc))"

fun xor_bodies :: "bytes list \<Rightarrow> nat \<times> bytes \<Rightarrow> (nat \<times> bytes) res" where
  "xor_bodies [] st = Inr st"
| "xor_bodies (body # bodies) (len_xor, acc) =
     (case xor_into acc body of
        Inl e \<Rightarrow> Inl e
      | Inr acc' \<Rightarrow> xor_bodies bodies (len_xor XOR length body, acc'))"

definition build_parity_body :: "bytes list \<Rightarrow> bytes res" where
  "build_parity_body bodies =
     (case xor_bodies bodies (0, replicate BODY_BYTES 0) of
        Inl e \<Rightarrow> Inl e
      | Inr (len_xor, acc) \<Rightarrow> Inr (byte_of (len_xor AND 255) # acc))"

definition build_image_chunks :: "bytes \<Rightarrow> int \<Rightarrow> int \<Rightarrow> int \<Rightarrow> bool \<Rightarrow> bytes list res" where
  "build_image_chunks bitstream metadata_byte sender_prefix img_id with_parity =
     bind_res (split_image_bodies bitstream metadata_byte) (\<lambda>bodies.
       let tot = int (length bodies)
       in bind_res (map_res (\<lambda>(i, body). build_chunk_blob sender_prefix img_id (int i) tot body)
                     (enumerate 0 bodies)) (\<lambda>blobs.
          if with_parity then
            bind_res (build_parity_body bodies) (\<lambda>parity.
            bind_res (build_chunk_blob sender_prefix img_id tot tot parity) (\<lambda>pb.
              Inr (blobs @ [pb])))
          else Inr blobs))"

section \<open>Pending images\<close>

record PendingImage =
  pi_total :: nat
  pi_bodies :: "(nat \<times> bytes) list"
  pi_parity_body :: "bytes option"
  pi_first_seen :: real
  pi_last_seen :: real

definition is_complete :: "PendingImage \<Rightarrow> bool" where
  "is_complete e \<longleftrightarrow> length (pi_bodies e) = pi_total e
     \<and> list_all (\<lambda>i. map_of (pi_bodies e) i \<noteq> None) [0..<pi_total e]"

definition is_recoverable :: "PendingImage \<Rightarrow> bool" where
  "is_recoverable e \<longleftrightarrow> pi_parity_body e \<noteq> None \<and> int (length (pi_bodies e)) = int (pi_total e) - 1"

definition first_missing :: "PendingImage \<Rightarrow> nat option" where
  "first_missing e = List.find (\<lambda>i. map_of (pi_bodies e) i = None) [0..<pi_total e]"

definition recover_missing_body :: "PendingImage \<Rightarrow> bytes option res" where
  "recover_missing_body e =
     (case pi_parity_body e of
        None \<Rightarrow> Inr None
      | Some parity \<Rightarrow>
          if \<not> is_recoverable e then Inr None
          else (case first_missing e of
                  None \<Rightarrow> Inr None
                | Some missing \<Rightarrow>
                    bind_res (py_get parity 0) (\<lambda>b.
                    let acc = take BODY_BYTES (drop PARITY_LENGTH_BYTES parity)
                              @ replicate (BODY_BYTES - length (drop PARITY_LENGTH_BYTES parity)) 0
                    in bind_res (xor_bodies (map snd (pi_bodies e)) (unat b AND 255, acc)) (\<lambda>(len_xor, acc').
                       if len_xor > BODY_BYTES then Inr None
                       else if missing = 0 \<and> len_xor < METADATA_BYTES then Inr None
                       else if int missing < int (pi_total e) - 1 \<and> len_xor \<noteq> BODY_BYTES then Inr None
                       else Inr (Some (take len_xor acc'))))))"

fun gather :: "(nat \<times> bytes) list \<Rightarrow> nat list \<Rightarrow> bytes option" where
  "gather bodies [] = Some []"
| "gather bodies (i # is) =
     (case map_of bodies i of None \<Rightarrow> None | Some b \<Rightarrow> map_option ((@) b) (gather bodies is))"

definition assemble :: "PendingImage \<Rightarrow> (bytes \<times> nat) option" where
  "assemble e =
     (case map_of (pi_bodies e) 0 of
        None \<Rightarrow> None
      | Some first \<Rightarrow>
          if length first < METADATA_BYTES then None
          else (case gather (pi_bodies e) [1..<pi_total e] of
                  None \<Rightarrow> None
                | Some rest \<Rightarrow> Some (drop METADATA_BYTES first @ rest, unat (hd first))))"

section \<open>Frames and envelopes\<close>

record ParsedChannelData =
  pc_snr_raw :: int
  pc_channel_index :: nat
  pc_path_len_byte :: nat
  pc_data_type :: nat
  pc_payload :: bytes

definition hop_count :: "ParsedChannelData \<Rightarrow> nat option" where
  "hop_count p = (if pc_path_len_byte p \<noteq> OUT_PATH_UNKNOWN then Some (pc_path_len_byte p AND 63) else None)"

record ChannelDataEnvelope =
  ev_sender_name :: ustr
  ev_body :: bytes
  ev_subtype :: "nat option"
  ev_version :: "nat option"

definition parse_envelope :: "bytes \<Rightarrow> bool \<Rightarrow> ChannelDataEnvelope option" where
  "parse_envelope payload with_subtype =
     (case payload of
        [] \<Rightarrow> None
      | b # _ \<Rightarrow>
          let name_len = unat b; body_at = 1 + name_len
          in if name_len AND 128 \<noteq> 0 \<or> name_len > MAX_ENVELOPE_NAME_BYTES then None
             else if body_at > length payload then None
             else (case utf8_decode (slice 1 body_at payload) of
                     None \<Rightarrow> None
                   | Some name \<Rightarrow>
                       if \<not> with_subtype
                       then Some \<lparr>ev_sender_name = name, ev_body = drop body_at payload,
                                  ev_subtype = None, ev_version = None\<rparr>
                       else if body_at \<ge> length payload then None
                       else let packed = unat (payload ! body_at)
                            in Some \<lparr>ev_sender_name = name, ev_body = drop (body_at + 1) payload,
                                     ev_subtype = Some (drop_bit 4 packed), ev_version = Some (packed AND 15)\<rparr>))"

definition mco_app_subtype :: "bytes \<Rightarrow> (nat \<times> nat) option" where
  "mco_app_subtype payload =
     (case parse_envelope payload True of
        None \<Rightarrow> None
      | Some env \<Rightarrow> (case (ev_subtype env, ev_version env) of (Some s, Some v) \<Rightarrow> Some (s, v) | _ \<Rightarrow> None))"

definition parse_channel_data_frame :: "bytes \<Rightarrow> ParsedChannelData option" where
  "parse_channel_data_frame frame =
     (if length frame < 9 \<or> unat (frame ! 0) \<noteq> RESP_CODE_CHANNEL_DATA_RECV then None
      else
        let data_len = unat (frame ! 8)
        in if length frame < 9 + data_len then None
           else Some \<lparr>pc_snr_raw = (if unat (frame ! 1) \<ge> 128 then int (unat (frame ! 1)) - 256
                                     else int (unat (frame ! 1))),
                      pc_channel_index = unat (frame ! 4), pc_path_len_byte = unat (frame ! 5),
                      pc_data_type = unat (frame ! 6) OR push_bit 8 (unat (frame ! 7)),
                      pc_payload = slice 9 (9 + data_len) frame\<rparr>)"

definition build_send_command :: "int \<Rightarrow> int \<Rightarrow> bytes \<Rightarrow> bytes res" where
  "build_send_command channel_index data_type blob =
     (if \<not> (0 \<le> channel_index \<and> channel_index \<le> 255) then Inl ChannelDataFormatError
      else if \<not> (0 \<le> data_type \<and> data_type \<le> 65535) then Inl ChannelDataFormatError
      else if length blob > BLOB_BYTES then Inl ChannelDataFormatError
      else Inr ([byte_of CMD_SEND_CHANNEL_DATA, byte_of (nat channel_index AND 255), byte_of OUT_PATH_UNKNOWN,
                 byte_of (nat data_type AND 255), byte_of (drop_bit 8 (nat data_type) AND 255)] @ blob))"

definition carries_an_image :: "nat \<Rightarrow> bytes \<Rightarrow> bool" where
  "carries_an_image data_type payload =
     (if data_type = DATA_TYPE_MCO_IMAGE then True
      else if data_type \<noteq> DATA_TYPE_MCO_APP then False
      else (case mco_app_subtype payload of None \<Rightarrow> False | Some (k, _) \<Rightarrow> k = MCO_APP_SUBTYPE_MCO_IMAGE))"

section \<open>Reassembler\<close>

type_synonym img_key = "string \<times> nat \<times> nat"

record ChannelDataReassembler =
  ra_pending :: "(img_key \<times> PendingImage) list"
  ra_completed :: "(img_key \<times> real \<times> nat) list"

definition new_reassembler :: ChannelDataReassembler where
  "new_reassembler = \<lparr>ra_pending = [], ra_completed = []\<rparr>"

definition expire :: "real \<Rightarrow> ChannelDataReassembler \<Rightarrow> ChannelDataReassembler" where
  "expire now r =
     \<lparr>ra_pending = filter (\<lambda>(k, e). \<not> now - pi_last_seen e > SESSION_TTL_SECONDS) (ra_pending r),
      ra_completed = filter (\<lambda>(k, fin, t). \<not> now - fin > SESSION_TTL_SECONDS) (ra_completed r)\<rparr>"

definition already_finished :: "ChannelDataReassembler \<Rightarrow> img_key \<Rightarrow> nat \<Rightarrow> real \<Rightarrow> bool" where
  "already_finished r key tot now =
     (case map_of (ra_completed r) key of
        None \<Rightarrow> False
      | Some (fin, completed_total) \<Rightarrow>
          if completed_total \<noteq> tot then False else now - fin \<le> SESSION_TTL_SECONDS)"

text \<open>\<open>min(..., key=f)\<close>: the first entry with the least value.\<close>

fun least_by :: "('a \<Rightarrow> real) \<Rightarrow> 'a list \<Rightarrow> 'a option" where
  "least_by f [] = None"
| "least_by f (x # xs) =
     (case least_by f xs of None \<Rightarrow> Some x | Some y \<Rightarrow> if f y < f x then Some y else Some x)"

lemma least_by_mem: "least_by f xs = Some x \<Longrightarrow> x \<in> set xs"
  by (induction xs arbitrary: x) (auto split: option.splits if_splits)

function enforce_cap :: "img_key \<Rightarrow> (img_key \<times> PendingImage) list \<Rightarrow> (img_key \<times> PendingImage) list" where
  "enforce_cap protect pending =
     (if length pending > MAX_PENDING_IMAGES then
        (case least_by (\<lambda>(k, e). pi_first_seen e) (filter (\<lambda>(k, e). k \<noteq> protect) pending) of
           None \<Rightarrow> pending
         | Some (oldest, _) \<Rightarrow> enforce_cap protect (AList.delete oldest pending))
      else pending)"
  by pat_completeness auto
termination
proof (relation "measure (\<lambda>(p, pending). length pending)", goal_cases)
  case (2 protect pending x oldest e)
  then have "(oldest, e) \<in> set pending" by (auto dest!: sym [of "Some _"] least_by_mem)
  then show ?case by (auto simp: AList.delete_eq intro!: length_filter_less)
qed simp

function trim_completed :: "(img_key \<times> real \<times> nat) list \<Rightarrow> (img_key \<times> real \<times> nat) list" where
  "trim_completed completed =
     (if length completed > MAX_PENDING_IMAGES then
        (case least_by (\<lambda>(k, fin, t). fin) completed of
           None \<Rightarrow> completed
         | Some (k, _) \<Rightarrow> trim_completed (AList.delete k completed))
      else completed)"
  by pat_completeness auto
termination
proof (relation "measure length", goal_cases)
  case (2 completed x k y)
  then have "(k, y) \<in> set completed" by (auto dest!: sym [of "Some _"] least_by_mem)
  then show ?case by (auto simp: AList.delete_eq intro!: length_filter_less)
qed simp

declare enforce_cap.simps [simp del] trim_completed.simps [simp del]

definition new_pending :: "nat \<Rightarrow> real \<Rightarrow> PendingImage" where
  "new_pending tot moment =
     \<lparr>pi_total = tot, pi_bodies = [], pi_parity_body = None, pi_first_seen = moment, pi_last_seen = moment\<rparr>"

definition absorb :: "ChannelDataChunk \<Rightarrow> PendingImage \<Rightarrow> PendingImage" where
  "absorb chunk e =
     (if is_parity chunk then e\<lparr>pi_parity_body := Some (ch_body chunk)\<rparr>
      else case map_of (pi_bodies e) (ch_index chunk) of
             Some _ \<Rightarrow> e
           | None \<Rightarrow> e\<lparr>pi_bodies := pi_bodies e @ [(ch_index chunk, ch_body chunk)]\<rparr>)"

text \<open>The end of \<open>note_chunk\<close>: the image is whole, or becomes whole from parity, or is kept.\<close>

definition conclude ::
  "img_key \<Rightarrow> real \<Rightarrow> PendingImage \<Rightarrow> bool \<Rightarrow> ChannelDataReassembler
    \<Rightarrow> (bytes \<times> nat \<times> bool) option res \<times> ChannelDataReassembler" where
  "conclude key moment e recovered r =
     (case assemble e of
        None \<Rightarrow> (Inr None, r)
      | Some (bitstream, meta) \<Rightarrow>
          (Inr (Some (bitstream, meta, recovered)),
           \<lparr>ra_pending = AList.delete key (ra_pending r),
            ra_completed = trim_completed (AList.update key (moment, pi_total e) (ra_completed r))\<rparr>))"

definition note_chunk ::
  "ChannelDataReassembler \<Rightarrow> string \<Rightarrow> bytes \<Rightarrow> real
    \<Rightarrow> (bytes \<times> nat \<times> bool) option res \<times> ChannelDataReassembler" where
  "note_chunk r0 conversation_key blob moment =
     (case parse_chunk_blob blob of
        None \<Rightarrow> (Inr None, r0)
      | Some chunk \<Rightarrow>
          let r = expire moment r0;
              key = (conversation_key, ch_sender_prefix chunk, ch_img_id chunk)
          in if already_finished r key (ch_total chunk) moment then (Inr None, r)
             else
               let e0 = (case map_of (ra_pending r) key of
                           None \<Rightarrow> new_pending (ch_total chunk) moment
                         | Some e \<Rightarrow> if pi_total e \<noteq> ch_total chunk then new_pending (ch_total chunk) moment else e);
                   e1 = e0\<lparr>pi_last_seen := moment\<rparr>;
                   pending = enforce_cap key (AList.update key e1 (ra_pending r));
                   e2 = absorb chunk e1;
                   r2 = r\<lparr>ra_pending := AList.update key e2 pending\<rparr>
               in if is_complete e2 then conclude key moment e2 False r2
                  else (case recover_missing_body e2 of
                          Inl err \<Rightarrow> (Inl err, r2)
                        | Inr None \<Rightarrow> (Inr None, r2)
                        | Inr (Some rebuilt) \<Rightarrow>
                            (case first_missing e2 of
                               None \<Rightarrow> (Inl StopIteration, r2)
                             | Some missing \<Rightarrow>
                                 let e3 = e2\<lparr>pi_bodies := AList.update missing rebuilt (pi_bodies e2)\<rparr>
                                 in conclude key moment e3 True (r2\<lparr>ra_pending := AList.update key e3 pending\<rparr>))))"

text \<open>The recent-text memory of \<open>_already_stored_text\<close>.\<close>

function trim_text :: "('k \<times> real) list \<Rightarrow> ('k \<times> real) list" where
  "trim_text d =
     (if length d > MAX_REMEMBERED_TEXT_BLOBS then
        (case least_by snd d of None \<Rightarrow> d | Some (k, _) \<Rightarrow> trim_text (AList.delete k d))
      else d)"
  by pat_completeness auto
termination
proof (relation "measure length", goal_cases)
  case (2 d x k y)
  then have "(k, y) \<in> set d" by (auto dest!: sym [of "Some _"] least_by_mem)
  then show ?case by (auto simp: AList.delete_eq intro!: length_filter_less)
qed simp

declare trim_text.simps [simp del]

definition already_stored_text :: "'k \<Rightarrow> real \<Rightarrow> ('k \<times> real) list \<Rightarrow> bool \<times> ('k \<times> real) list" where
  "already_stored_text key now d =
     (let d1 = filter (\<lambda>(k, seen). \<not> now - seen > TEXT_BLOB_DEDUP_SECONDS) d
      in if map_of d1 key \<noteq> None then (True, d1)
         else (False, trim_text (AList.update key now d1)))"

end
