(* ===== verification/VnProtocol.thy ===== *)
theory VnProtocol
  imports Contact ChannelData
begin

text \<open>
  The companion wire protocol of the virtual node (\<open>src/app/virtual_node/protocol.py\<close>): the stream
  framing of host commands, the response frames the node builds, and the parsers of the commands it
  interprets itself. Frame codes that come from the \<open>meshcore\<close> library are a parameter, the record
  \<open>packet_codes\<close>; each is one byte.
\<close>

record packet_codes =
  pt_OK :: byte
  pt_ERROR :: byte
  pt_DISABLED :: byte
  pt_NO_MORE_MSGS :: byte
  pt_CURRENT_TIME :: byte
  pt_BATTERY :: byte
  pt_MSG_SENT :: byte
  pt_ADVERTISEMENT :: byte
  pt_MESSAGES_WAITING :: byte
  pt_SELF_INFO :: byte
  pt_CONTACT :: byte
  pt_CONTACT_START :: byte
  pt_CONTACT_END :: byte
  pt_CHANNEL_INFO :: byte
  pt_CONTACT_MSG_RECV :: byte
  pt_CONTACT_MSG_RECV_V3 :: byte
  pt_CHANNEL_MSG_RECV_V3 :: byte

section \<open>Stream framing\<close>

definition FRAME_HOST_TO_RADIO :: byte where "FRAME_HOST_TO_RADIO = 0x3C"
definition FRAME_RADIO_TO_HOST :: byte where "FRAME_RADIO_TO_HOST = 0x3E"
definition MAX_FRAME_PAYLOAD :: nat where "MAX_FRAME_PAYLOAD = 300"

definition frame_to_host :: "bytes \<Rightarrow> bytes res" where
  "frame_to_host payload =
     bind_res (to_bytes_le 2 (int (length payload))) (\<lambda>n. Inr (FRAME_RADIO_TO_HOST # n @ payload))"

text \<open>The loop of \<open>HostFrameParser.feed\<close> on the buffer: the frames it finds and the buffer it leaves.\<close>

function feed_loop :: "bytes \<Rightarrow> bytes list \<times> bytes" where
  "feed_loop buffer0 =
     (let buffer = dropWhile (\<lambda>b. b \<noteq> FRAME_HOST_TO_RADIO) buffer0
      in if buffer = [] then ([], [])
         else if length buffer < 3 then ([], buffer)
         else
           let len = from_le (slice 1 3 buffer)
           in if len = 0 \<or> len > MAX_FRAME_PAYLOAD then feed_loop (drop 1 buffer)
              else if length buffer < 3 + len then ([], buffer)
              else (case feed_loop (drop (3 + len) buffer) of
                      (frames, rest) \<Rightarrow> (slice 3 (3 + len) buffer # frames, rest)))"
  by pat_completeness auto
termination
proof (relation "measure length", simp_all, goal_cases)
  case (1 b)
  then show ?case using length_dropWhile_le [of "\<lambda>b. b \<noteq> FRAME_HOST_TO_RADIO" b]
    by (cases "dropWhile (\<lambda>b. b \<noteq> FRAME_HOST_TO_RADIO) b") auto
next
  case (2 b)
  then show ?case using length_dropWhile_le [of "\<lambda>b. b \<noteq> FRAME_HOST_TO_RADIO" b]
    by (cases "dropWhile (\<lambda>b. b \<noteq> FRAME_HOST_TO_RADIO) b") auto
qed

declare feed_loop.simps [simp del]

text \<open>\<open>feed\<close>: the parser's state is its buffer.\<close>

definition feed :: "bytes \<Rightarrow> bytes \<Rightarrow> bytes list \<times> bytes" where
  "feed buffer data = feed_loop (buffer @ data)"

section \<open>Simple response frames\<close>

text \<open>\<open>int(x) & 0xFF\<close> as a byte.\<close>

definition low_byte :: "int \<Rightarrow> byte" where
  "low_byte x = byte_of (nat (x mod 256))"

datatype ErrorCode = UNSUPPORTED_CMD | NOT_FOUND | TABLE_FULL | BAD_STATE | FILE_IO_ERROR | ILLEGAL_ARG

primrec error_value :: "ErrorCode \<Rightarrow> int" where
  "error_value UNSUPPORTED_CMD = 1"
| "error_value NOT_FOUND = 2"
| "error_value TABLE_FULL = 3"
| "error_value BAD_STATE = 4"
| "error_value FILE_IO_ERROR = 5"
| "error_value ILLEGAL_ARG = 6"

definition encode_ok :: "packet_codes \<Rightarrow> int option \<Rightarrow> bytes res" where
  "encode_ok pt v =
     (case v of None \<Rightarrow> Inr [pt_OK pt]
      | Some x \<Rightarrow> bind_res (to_bytes_le 4 x) (\<lambda>b. Inr (pt_OK pt # b)))"

definition encode_error :: "packet_codes \<Rightarrow> int \<Rightarrow> bytes" where
  "encode_error pt code = [pt_ERROR pt, low_byte code]"

definition encode_disabled :: "packet_codes \<Rightarrow> bytes" where
  "encode_disabled pt = [pt_DISABLED pt]"

definition encode_no_more_messages :: "packet_codes \<Rightarrow> bytes" where
  "encode_no_more_messages pt = [pt_NO_MORE_MSGS pt]"

definition encode_current_time :: "packet_codes \<Rightarrow> int \<Rightarrow> bytes res" where
  "encode_current_time pt epoch = bind_res (to_bytes_le 4 epoch) (\<lambda>b. Inr (pt_CURRENT_TIME pt # b))"

definition encode_battery :: "packet_codes \<Rightarrow> int \<Rightarrow> int option \<Rightarrow> int option \<Rightarrow> bytes res" where
  "encode_battery pt level_mv used_kb total_kb =
     bind_res (to_bytes_le 2 (max 0 (min 0xFFFF level_mv))) (\<lambda>l.
       case (used_kb, total_kb) of
         (Some u, Some t) \<Rightarrow>
           bind_res (to_bytes_le 4 u) (\<lambda>ub. bind_res (to_bytes_le 4 t) (\<lambda>tb. Inr (pt_BATTERY pt # l @ ub @ tb)))
       | _ \<Rightarrow> Inr (pt_BATTERY pt # l))"

definition encode_msg_sent :: "packet_codes \<Rightarrow> bool \<Rightarrow> bytes \<Rightarrow> int \<Rightarrow> bytes res" where
  "encode_msg_sent pt is_flood expected_ack suggested_timeout_ms =
     bind_res (to_bytes_le 4 (max 0 suggested_timeout_ms)) (\<lambda>t.
       Inr ([pt_MSG_SENT pt, if is_flood then 1 else 0] @ fixed expected_ack 4 @ t))"

definition encode_push_advert :: "packet_codes \<Rightarrow> string \<Rightarrow> bytes res" where
  "encode_push_advert pt public_key_hex =
     (case fromhex public_key_hex of None \<Rightarrow> Inl ValueError
      | Some k \<Rightarrow> Inr (pt_ADVERTISEMENT pt # fixed k 32))"

definition encode_push_msg_waiting :: "packet_codes \<Rightarrow> bytes" where
  "encode_push_msg_waiting pt = [pt_MESSAGES_WAITING pt]"

section \<open>Device info\<close>

definition DEVICE_INFO_MAX_CHANNELS_OFFSET :: nat where "DEVICE_INFO_MAX_CHANNELS_OFFSET = 3"

definition rewrite_device_info_max_channels :: "bytes \<Rightarrow> int \<Rightarrow> bytes" where
  "rewrite_device_info_max_channels frame max_channels =
     (if length frame \<le> DEVICE_INFO_MAX_CHANNELS_OFFSET \<or> unat (frame ! 1) < 3 then frame
      else frame[DEVICE_INFO_MAX_CHANNELS_OFFSET := byte_of (nat (max 0 (min 255 max_channels)))])"

section \<open>Contacts\<close>

text \<open>An infinite coordinate raises: \<open>int(round(...))\<close> then fails with an error the handler does not name.\<close>

definition coord_bytes :: "pyfloat option \<Rightarrow> bytes res" where
  "coord_bytes v =
     (let scaled = (case v of None \<Rightarrow> Inr 0 | Some f \<Rightarrow> (case round_scaled 1000000 f of Inl ValueError \<Rightarrow> Inr 0 | r \<Rightarrow> r))
      in bind_res scaled (\<lambda>s. to_bytes_le_signed 4 (max (- (2 ^ 31)) (min (2 ^ 31 - 1) s))))"

definition route_byte :: "int \<Rightarrow> int \<Rightarrow> byte" where
  "route_byte path_len hash_mode =
     (if path_len < 0 then 0xFF
      else
        let mode = (if hash_mode \<ge> 0 then hash_mode else 0)
        in byte_of (nat (min path_len 0x3F) OR push_bit 6 (nat (mode mod 4))))"

definition contact_lastmod :: "Contact \<Rightarrow> int" where
  "contact_lastmod c =
     (let candidates = List.map_filter id [c_last_advert c, c_last_seen c, c_direct_path_updated_at c, c_last_contacted c, c_first_seen c]
      in if candidates = [] then 0 else Max (set candidates))"

definition is_full_public_key :: "string option \<Rightarrow> bool" where
  "is_full_public_key k = (case k of None \<Rightarrow> False | Some s \<Rightarrow> s \<noteq> [] \<and> length s = 64 \<and> fromhex s \<noteq> None)"

definition hex_arg :: "string \<Rightarrow> bytes res" where
  "hex_arg s = (case fromhex s of None \<Rightarrow> Inl ValueError | Some b \<Rightarrow> Inr b)"

definition encode_contact :: "packet_codes \<Rightarrow> Contact \<Rightarrow> int option \<Rightarrow> bytes res" where
  "encode_contact pt c lastmod =
     (case effective_route_tuple c of (path, path_len, hash_mode) \<Rightarrow>
        bind_res (if path \<noteq> [] then hex_arg path else Inr []) (\<lambda>path_bytes.
        let flags0 = nat (c_flags c mod 256);
            flags = (if c_favorite c then flags0 OR 1 else flags0)
        in
        bind_res (hex_arg (c_public_key c)) (\<lambda>key.
        bind_res (to_bytes_le 4 (get_or 0 (c_last_advert c))) (\<lambda>advert.
        bind_res (coord_bytes (c_lat c)) (\<lambda>lat.
        bind_res (coord_bytes (c_lon c)) (\<lambda>lon.
        bind_res (to_bytes_le 4 (case lastmod of Some l \<Rightarrow> l | None \<Rightarrow> contact_lastmod c)) (\<lambda>lm.
          Inr ([pt_CONTACT pt] @ fixed key 32
               @ [low_byte (c_type c), byte_of flags, route_byte path_len hash_mode]
               @ fixed path_bytes 64 @ fixed (utf8_encode (get_or [] (c_name c))) 32
               @ advert @ lat @ lon @ lm))))))))"

text \<open>The dict the radio's self info was parsed into; a key that is absent is \<^const>\<open>None\<close>.\<close>

record self_info =
  si_telemetry_mode_base :: "int option"
  si_telemetry_mode_loc :: "int option"
  si_telemetry_mode_env :: "int option"
  si_adv_type :: "int option"
  si_tx_power :: "int option"
  si_max_tx_power :: "int option"
  si_public_key :: "string option"
  si_adv_lat :: "pyfloat option"
  si_adv_lon :: "pyfloat option"
  si_multi_acks :: "int option"
  si_adv_loc_policy :: "int option"
  si_manual_add_contacts :: "bool option"
  si_radio_freq :: "pyfloat option"
  si_radio_bw :: "pyfloat option"
  si_radio_sf :: "int option"
  si_radio_cr :: "int option"
  si_name :: "ustr option"

definition telemetry_mode :: "self_info \<Rightarrow> nat" where
  "telemetry_mode i =
     nat (get_or 0 (si_telemetry_mode_base i) mod 4)
     OR push_bit 2 (nat (get_or 0 (si_telemetry_mode_loc i) mod 4))
     OR push_bit 4 (nat (get_or 0 (si_telemetry_mode_env i) mod 4))"

definition encode_self_info :: "packet_codes \<Rightarrow> self_info \<Rightarrow> bytes res" where
  "encode_self_info pt i =
     bind_res (hex_arg (get_or [] (si_public_key i))) (\<lambda>key.
     bind_res (coord_bytes (si_adv_lat i)) (\<lambda>lat.
     bind_res (coord_bytes (si_adv_lon i)) (\<lambda>lon.
     bind_res (bind_res (round_scaled 1000 (get_or (Finite 0) (si_radio_freq i))) (to_bytes_le 4)) (\<lambda>freq.
     bind_res (bind_res (round_scaled 1000 (get_or (Finite 0) (si_radio_bw i))) (to_bytes_le 4)) (\<lambda>bw.
       Inr ([pt_SELF_INFO pt, low_byte (get_or 1 (si_adv_type i)), low_byte (get_or 0 (si_tx_power i)),
             low_byte (get_or 0 (si_max_tx_power i))]
            @ fixed key 32 @ lat @ lon
            @ [low_byte (get_or 0 (si_multi_acks i)), low_byte (get_or 0 (si_adv_loc_policy i)),
               byte_of (telemetry_mode i), if si_manual_add_contacts i = Some True then 1 else 0]
            @ freq @ bw @ [low_byte (get_or 0 (si_radio_sf i)), low_byte (get_or 0 (si_radio_cr i))]
            @ utf8_encode (get_or [] (si_name i))))))))"

definition encode_contact_start :: "packet_codes \<Rightarrow> int \<Rightarrow> bytes res" where
  "encode_contact_start pt count = bind_res (to_bytes_le 4 count) (\<lambda>b. Inr (pt_CONTACT_START pt # b))"

definition encode_contact_end :: "packet_codes \<Rightarrow> int \<Rightarrow> bytes res" where
  "encode_contact_end pt lastmod = bind_res (to_bytes_le 4 lastmod) (\<lambda>b. Inr (pt_CONTACT_END pt # b))"

record ContactUpdate =
  up_public_key :: string
  up_type :: nat
  up_flags :: nat
  up_out_path :: string
  up_out_path_len :: int
  up_out_path_hash_mode :: int
  up_adv_name :: ustr
  up_last_advert :: nat
  up_adv_lat :: real
  up_adv_lon :: real

definition update_to_radio_dict :: "ContactUpdate \<Rightarrow> RadioContact" where
  "update_to_radio_dict u =
     \<lparr>rd_public_key = up_public_key u, rd_adv_name = Some (up_adv_name u), rd_type = Some (int (up_type u)),
      rd_flags = Some (int (up_flags u)), rd_out_path = Some (up_out_path u), rd_out_path_len = Some (up_out_path_len u),
      rd_out_path_hash_mode = Some (up_out_path_hash_mode u), rd_adv_lat = Some (Finite (up_adv_lat u)),
      rd_adv_lon = Some (Finite (up_adv_lon u)), rd_last_advert = Some (int (up_last_advert u))\<rparr>"

text \<open>\<open>field.split(b"\<backslash>x00", 1)[0].decode("utf-8", "ignore")\<close>.\<close>

definition c_string :: "bytes \<Rightarrow> ustr" where
  "c_string bs = utf8_decode_ignore (takeWhile (\<lambda>b. b \<noteq> 0) bs)"

definition parse_contact_update :: "bytes \<Rightarrow> ContactUpdate option" where
  "parse_contact_update payload =
     (if length payload < 32 + 1 + 1 + 1 + 64 + 32 + 4 + 4 + 4 then None
      else
        let route = unat (payload ! 34);
            (out_path, out_path_len, hash_mode) =
              (if route = 255 then ([], -1, -1)
               else
                 let n = route AND 63; m = drop_bit 6 route
                 in (hex_of (slice 35 (35 + n * (m + 1)) payload), int n, int m))
        in Some \<lparr>up_public_key = hex_of (slice 0 32 payload), up_type = unat (payload ! 32), up_flags = unat (payload ! 33),
                 up_out_path = out_path, up_out_path_len = out_path_len, up_out_path_hash_mode = hash_mode,
                 up_adv_name = c_string (slice 99 131 payload),
                 up_last_advert = from_le (slice 131 135 payload),
                 up_adv_lat = of_int (from_le_signed (slice 135 139 payload)) / 1000000,
                 up_adv_lon = of_int (from_le_signed (slice 139 143 payload)) / 1000000\<rparr>)"

definition parse_get_contacts_since :: "bytes \<Rightarrow> nat" where
  "parse_get_contacts_since payload = (if length payload \<ge> 4 then from_le (take 4 payload) else 0)"

definition parse_public_key_arg :: "bytes \<Rightarrow> string option" where
  "parse_public_key_arg payload = (if length payload < 32 then None else Some (hex_of (take 32 payload)))"

section \<open>Channels\<close>

definition CHANNEL_NAME_SIZE :: nat where "CHANNEL_NAME_SIZE = 32"
definition CHANNEL_SECRET_SIZE :: nat where "CHANNEL_SECRET_SIZE = 16"
definition EMPTY_CHANNEL_SECRET :: bytes where "EMPTY_CHANNEL_SECRET = replicate CHANNEL_SECRET_SIZE 0"

text \<open>A channel is its name and its key in hexadecimal.\<close>

definition encode_channel_info :: "packet_codes \<Rightarrow> int \<Rightarrow> (ustr \<times> string) option \<Rightarrow> bytes res" where
  "encode_channel_info pt index channel =
     bind_res (case channel of None \<Rightarrow> Inr ([], EMPTY_CHANNEL_SECRET)
               | Some (name, key) \<Rightarrow> bind_res (hex_arg key) (\<lambda>s. Inr (utf8_encode name, s)))
       (\<lambda>(name, secret). Inr ([pt_CHANNEL_INFO pt, low_byte index] @ fixed name CHANNEL_NAME_SIZE @ fixed secret CHANNEL_SECRET_SIZE))"

record ChannelUpdate =
  chu_index :: nat
  chu_name :: ustr
  chu_secret :: bytes

definition is_clear :: "ChannelUpdate \<Rightarrow> bool" where
  "is_clear u \<longleftrightarrow> chu_name u = [] \<and> chu_secret u = EMPTY_CHANNEL_SECRET"

definition channel_key :: "ChannelUpdate \<Rightarrow> string" where
  "channel_key u = map upper_hex (hex_of (chu_secret u))"

definition parse_channel_update :: "bytes \<Rightarrow> ChannelUpdate option" where
  "parse_channel_update payload =
     (if length payload < 1 + CHANNEL_NAME_SIZE + CHANNEL_SECRET_SIZE then None
      else Some \<lparr>chu_index = unat (payload ! 0), chu_name = c_string (slice 1 (1 + CHANNEL_NAME_SIZE) payload),
                 chu_secret = slice (1 + CHANNEL_NAME_SIZE) (1 + CHANNEL_NAME_SIZE + CHANNEL_SECRET_SIZE) payload\<rparr>)"

section \<open>Messages\<close>

record OutgoingTextMessage =
  ot_txt_type :: nat
  ot_attempt :: nat
  ot_timestamp :: nat
  ot_pubkey_prefix :: string
  ot_text :: ustr

definition parse_send_txt_msg :: "bytes \<Rightarrow> OutgoingTextMessage option" where
  "parse_send_txt_msg payload =
     (if length payload < 1 + 1 + 4 + 6 then None
      else Some \<lparr>ot_txt_type = unat (payload ! 0), ot_attempt = unat (payload ! 1),
                 ot_timestamp = from_le (slice 2 6 payload), ot_pubkey_prefix = hex_of (slice 6 12 payload),
                 ot_text = c_string (drop 12 payload)\<rparr>)"

record OutgoingChannelMessage =
  oc_txt_type :: nat
  oc_channel_index :: nat
  oc_timestamp :: nat
  oc_text :: ustr

definition parse_send_channel_txt_msg :: "bytes \<Rightarrow> OutgoingChannelMessage option" where
  "parse_send_channel_txt_msg payload =
     (if length payload < 1 + 1 + 4 then None
      else Some \<lparr>oc_txt_type = unat (payload ! 0), oc_channel_index = unat (payload ! 1),
                 oc_timestamp = from_le (slice 2 6 payload), oc_text = utf8_decode_ignore (drop 6 payload)\<rparr>)"

record OutgoingChannelData =
  od_channel_index :: nat
  od_path_len_byte :: nat
  od_path :: bytes
  od_data_type :: nat
  od_blob :: bytes

definition parse_send_channel_data :: "bytes \<Rightarrow> OutgoingChannelData option" where
  "parse_send_channel_data payload =
     (if length payload < 2 then None
      else
        let path_len_byte = unat (payload ! 1);
            path_bytes = (if path_len_byte = 0xFF then 0 else path_len_byte);
            type_at = 2 + path_bytes
        in if length payload < type_at + 2 then None
           else Some \<lparr>od_channel_index = unat (payload ! 0), od_path_len_byte = path_len_byte, od_path = slice 2 type_at payload,
                      od_data_type = unat (payload ! type_at) OR push_bit 8 (unat (payload ! (type_at + 1))),
                      od_blob = drop (type_at + 2) payload\<rparr>)"

definition CHANNEL_DATA_RECV_INDEX_OFFSET :: nat where "CHANNEL_DATA_RECV_INDEX_OFFSET = 4"
definition CHANNEL_DATA_RECV_HEADER_BYTES :: nat where "CHANNEL_DATA_RECV_HEADER_BYTES = 9"

definition snr_byte :: "pyfloat option \<Rightarrow> bytes res" where
  "snr_byte snr =
     (case snr of None \<Rightarrow> Inr [0]
      | Some f \<Rightarrow> bind_res (round_scaled 4 f) (\<lambda>s. to_bytes_le_signed 1 (max (-128) (min 127 s))))"

definition encode_channel_data_recv :: "int \<Rightarrow> nat \<Rightarrow> bytes \<Rightarrow> pyfloat option \<Rightarrow> bytes res" where
  "encode_channel_data_recv channel_index data_type blob snr =
     bind_res (snr_byte snr) (\<lambda>s.
       Inr ([byte_of RESP_CODE_CHANNEL_DATA_RECV] @ s @ [0, 0]
            @ [low_byte channel_index, 0xFF, byte_of (data_type AND 255), byte_of (drop_bit 8 data_type AND 255), byte_of (length blob AND 255)]
            @ blob))"

definition rewrite_channel_data_index :: "bytes \<Rightarrow> int \<Rightarrow> bytes" where
  "rewrite_channel_data_index frame channel_index =
     (if length frame \<le> CHANNEL_DATA_RECV_INDEX_OFFSET then frame
      else frame[CHANNEL_DATA_RECV_INDEX_OFFSET := low_byte channel_index])"

definition rewrite_channel_data :: "bytes \<Rightarrow> int \<Rightarrow> bytes \<Rightarrow> bytes" where
  "rewrite_channel_data frame channel_index blob =
     (if length frame < CHANNEL_DATA_RECV_HEADER_BYTES then frame
      else (take CHANNEL_DATA_RECV_HEADER_BYTES frame)
             [CHANNEL_DATA_RECV_INDEX_OFFSET := low_byte channel_index,
              CHANNEL_DATA_RECV_HEADER_BYTES - 1 := byte_of (length blob AND 255)] @ blob)"

text \<open>The stored message payload: an absent key is \<^const>\<open>None\<close>, a path entry that is null is \<^const>\<open>None\<close>.\<close>

record message_path =
  mp_path :: "string option"
  mp_path_len :: "int option"
  mp_snr :: "pyfloat option"

record stored_message =
  sm_conversation_key :: "string option"
  sm_paths :: "message_path option list"
  sm_txt_type :: "int option"
  sm_sender_timestamp :: "int option"
  sm_received_at :: "int option"
  sm_signature :: "string option"
  sm_text :: "ustr option"

definition null_path :: message_path where
  "null_path = \<lparr>mp_path = None, mp_path_len = None, mp_snr = None\<rparr>"

text \<open>\<open>bytes([n])\<close> raises outside \<open>range(256)\<close>; only a negative stored hop count gets there.\<close>

definition message_route_byte :: "stored_message \<Rightarrow> byte res" where
  "message_route_byte m =
     (if sm_paths m = [] then Inr 0xFF
      else
        let l = get_or null_path (last (sm_paths m));
            path_len = (case mp_path_len l of Some n \<Rightarrow> n | None \<Rightarrow> int (length (get_or [] (mp_path l)) div 2));
            n = min path_len 0x3F
        in if n < 0 then Inl ValueError else Inr (byte_of (nat n)))"

definition message_snr :: "stored_message \<Rightarrow> pyfloat option" where
  "message_snr m = (if sm_paths m = [] then None else mp_snr (get_or null_path (last (sm_paths m))))"

text \<open>\<open>int(sender_timestamp or received_at or 0)\<close>.\<close>

definition message_time :: "stored_message \<Rightarrow> int" where
  "message_time m =
     (let s = get_or 0 (sm_sender_timestamp m) in if s \<noteq> 0 then s else get_or 0 (sm_received_at m))"

definition encode_contact_message :: "packet_codes \<Rightarrow> stored_message \<Rightarrow> bytes option res" where
  "encode_contact_message pt m =
     (let conversation_key = get_or [] (sm_conversation_key m)
      in if length conversation_key < 12 then Inr None
         else case fromhex (take 12 conversation_key) of
           None \<Rightarrow> Inr None
         | Some prefix \<Rightarrow>
             let txt_type = low_byte (get_or 0 (sm_txt_type m))
             in bind_res (snr_byte (message_snr m)) (\<lambda>snr.
                bind_res (message_route_byte m) (\<lambda>route.
                bind_res (to_bytes_le 4 (message_time m)) (\<lambda>ts.
                  let frame = [pt_CONTACT_MSG_RECV_V3 pt] @ snr @ [0, 0] @ prefix @ [route, txt_type] @ ts;
                      sig = (case fromhex (get_or [] (sm_signature m)) of None \<Rightarrow> [] | Some b \<Rightarrow> b);
                      signed = (if txt_type = 2 then frame @ fixed sig 4 else frame)
                  in Inr (Some (signed @ utf8_encode (get_or [] (sm_text m))))))))"

definition encode_channel_message :: "packet_codes \<Rightarrow> stored_message \<Rightarrow> int \<Rightarrow> bytes res" where
  "encode_channel_message pt m channel_index =
     bind_res (snr_byte (message_snr m)) (\<lambda>snr.
     bind_res (message_route_byte m) (\<lambda>route.
     bind_res (to_bytes_le 4 (message_time m)) (\<lambda>ts.
       Inr ([pt_CHANNEL_MSG_RECV_V3 pt] @ snr @ [0, 0]
            @ [low_byte channel_index, route, low_byte (get_or 0 (sm_txt_type m))] @ ts
            @ utf8_encode (get_or [] (sm_text m))))))"

definition pulled_message_txt_type :: "packet_codes \<Rightarrow> bytes \<Rightarrow> nat option" where
  "pulled_message_txt_type pt frame =
     (if frame \<noteq> [] \<and> hd frame = pt_CONTACT_MSG_RECV pt \<and> length frame \<ge> 9 then Some (unat (frame ! 8))
      else if frame \<noteq> [] \<and> hd frame = pt_CONTACT_MSG_RECV_V3 pt \<and> length frame \<ge> 12 then Some (unat (frame ! 11))
      else None)"

definition stats_frame_type :: "bytes \<Rightarrow> nat option" where
  "stats_frame_type payload = (case payload of [] \<Rightarrow> None | b # _ \<Rightarrow> Some (unat b))"

definition unpack_u32 :: "bytes \<Rightarrow> nat" where
  "unpack_u32 data = from_le (fixed data 4)"

section \<open>Stream framing: fragmentation does not matter\<close>

abbreviation "skip_junk \<equiv> dropWhile (\<lambda>b. b \<noteq> FRAME_HOST_TO_RADIO)"

lemma skip_junk_idem [simp]: "skip_junk (skip_junk b) = skip_junk b"
  by (metis dropWhile_idem)

lemma feed_loop_skip [simp]: "feed_loop (skip_junk b) = feed_loop b"
  by (subst (1 2) feed_loop.simps) simp

lemma feed_loop_Nil [simp]: "feed_loop [] = ([], [])"
  by (simp add: feed_loop.simps)

lemma skip_junk_append: "skip_junk (a @ b) = (if skip_junk a = [] then skip_junk b else skip_junk a @ b)"
  by (auto simp: dropWhile_append)

lemma feed_loop_append_skip: "feed_loop (a @ b) = feed_loop (skip_junk a @ b)"
  by (metis feed_loop_skip skip_junk_append skip_junk_idem append_Nil)

text \<open>The four ways a round of the loop goes, on a buffer that starts at a marker.\<close>

lemma feed_loop_short: "skip_junk d = d \<Longrightarrow> length d < 3 \<Longrightarrow> feed_loop d = ([], d)"
  by (subst feed_loop.simps) simp

lemma feed_loop_bad: "skip_junk d = d \<Longrightarrow> 3 \<le> length d \<Longrightarrow>
    from_le (slice 1 3 d) = 0 \<or> from_le (slice 1 3 d) > MAX_FRAME_PAYLOAD \<Longrightarrow> feed_loop d = feed_loop (drop 1 d)"
  by (subst feed_loop.simps) (auto simp: Let_def)

lemma feed_loop_wait: "skip_junk d = d \<Longrightarrow> 3 \<le> length d \<Longrightarrow>
    from_le (slice 1 3 d) \<noteq> 0 \<Longrightarrow> from_le (slice 1 3 d) \<le> MAX_FRAME_PAYLOAD \<Longrightarrow> length d < 3 + from_le (slice 1 3 d) \<Longrightarrow>
    feed_loop d = ([], d)"
  by (subst feed_loop.simps) (auto simp: Let_def)

lemma feed_loop_frame: "skip_junk d = d \<Longrightarrow> len = from_le (slice 1 3 d) \<Longrightarrow> len \<noteq> 0 \<Longrightarrow> len \<le> MAX_FRAME_PAYLOAD \<Longrightarrow>
    3 + len \<le> length d \<Longrightarrow> feed_loop d = (case feed_loop (drop (3 + len) d) of (fs, r) \<Rightarrow> (slice 3 (3 + len) d # fs, r))"
  by (subst feed_loop.simps) (auto simp: Let_def)

lemma skip_junk_keeps: "skip_junk d = d \<Longrightarrow> d \<noteq> [] \<Longrightarrow> skip_junk (d @ b) = d @ b"
  by (simp add: skip_junk_append)

lemma slice_append_left: "j \<le> length d \<Longrightarrow> slice i j (d @ b) = slice i j d"
  by (simp add: slice_def)

lemma feed_loop_append:
  "feed_loop (a @ b) = (case feed_loop a of (f1, r1) \<Rightarrow> case feed_loop (r1 @ b) of (f2, r2) \<Rightarrow> (f1 @ f2, r2))"
proof (induction a rule: feed_loop.induct)
  case (1 a)
  define d where "d = skip_junk a"
  define len where "len = from_le (slice 1 3 d)"
  have d: "skip_junk d = d" and a: "feed_loop a = feed_loop d" "feed_loop (a @ b) = feed_loop (d @ b)"
    unfolding d_def by (simp_all flip: feed_loop_append_skip)
  note IH = 1 [OF d_def]
  consider "d = []" | "d \<noteq> []" "length d < 3" | "d \<noteq> []" "3 \<le> length d" "len = 0 \<or> len > MAX_FRAME_PAYLOAD"
    | "d \<noteq> []" "3 \<le> length d" "len \<noteq> 0" "len \<le> MAX_FRAME_PAYLOAD" "length d < 3 + len"
    | "d \<noteq> []" "3 \<le> length d" "len \<noteq> 0" "len \<le> MAX_FRAME_PAYLOAD" "3 + len \<le> length d"
    by linarith
  then show ?case
  proof cases
    case 1
    then show ?thesis by (simp add: a)
  next
    case 2
    then show ?thesis by (simp add: a feed_loop_short [OF d] split: prod.split)
  next
    case 3
    have "feed_loop (d @ b) = feed_loop (drop 1 d @ b)"
      using 3 d by (subst feed_loop_bad) (auto simp: skip_junk_keeps slice_append_left len_def)
    moreover have "feed_loop d = feed_loop (drop 1 d)" using 3 d by (intro feed_loop_bad) (auto simp: len_def)
    moreover have "feed_loop (drop 1 d @ b) = (case feed_loop (drop 1 d) of (f1, r1) \<Rightarrow> case feed_loop (r1 @ b) of (f2, r2) \<Rightarrow> (f1 @ f2, r2))"
      by (rule IH(1)) (use 3 len_def in auto)
    ultimately show ?thesis by (simp add: a)
  next
    case 4
    then have "feed_loop d = ([], d)" using d by (intro feed_loop_wait) (auto simp: len_def)
    then show ?thesis by (simp add: a split: prod.split)
  next
    case 5
    have "feed_loop (d @ b) = (case feed_loop (drop (3 + len) d @ b) of (fs, r) \<Rightarrow> (slice 3 (3 + len) d # fs, r))"
      using 5 d by (subst feed_loop_frame [of _ len]) (auto simp: skip_junk_keeps slice_append_left len_def)
    moreover have "feed_loop d = (case feed_loop (drop (3 + len) d) of (fs, r) \<Rightarrow> (slice 3 (3 + len) d # fs, r))"
      using 5 d by (intro feed_loop_frame) (auto simp: len_def)
    moreover have "feed_loop (drop (3 + len) d @ b) = (case feed_loop (drop (3 + len) d) of (f1, r1) \<Rightarrow> case feed_loop (r1 @ b) of (f2, r2) \<Rightarrow> (f1 @ f2, r2))"
      by (rule IH(2)) (use 5 len_def in auto)
    ultimately show ?thesis by (simp add: a split: prod.split)
  qed
qed

text \<open>A connection: the reads of a TCP stream fed one after the other.\<close>

fun feed_all :: "bytes \<Rightarrow> bytes list \<Rightarrow> bytes list \<times> bytes" where
  "feed_all buffer [] = ([], buffer)"
| "feed_all buffer (d # ds) =
     (case feed buffer d of (f1, b1) \<Rightarrow> case feed_all b1 ds of (f2, b2) \<Rightarrow> (f1 @ f2, b2))"

lemma feed_loop_rest: "feed_loop (snd (feed_loop a)) = ([], snd (feed_loop a))"
  using feed_loop_append [of a "[]"] by (auto split: prod.splits)

lemma feed_all_concat: "feed_loop buffer = ([], buffer) \<Longrightarrow> feed_all buffer ds = feed_loop (buffer @ concat ds)"
proof (induction ds arbitrary: buffer)
  case (Cons d ds)
  obtain f1 b1 where f: "feed_loop (buffer @ d) = (f1, b1)" by fastforce
  have "feed_loop b1 = ([], b1)" using feed_loop_rest [of "buffer @ d"] by (simp add: f)
  from Cons.IH [OF this] show ?case using feed_loop_append [of "buffer @ d" "concat ds"] by (simp add: feed_def f)
qed simp

section \<open>Stream framing: frames arrive\<close>

definition host_frame :: "bytes \<Rightarrow> bytes" where
  "host_frame payload = FRAME_HOST_TO_RADIO # to_le 2 (length payload) @ payload"

lemma feed_loop_host_frame:
  assumes "FRAME_HOST_TO_RADIO \<notin> set junk" and "1 \<le> length p" and "length p \<le> MAX_FRAME_PAYLOAD"
  shows "feed_loop (junk @ host_frame p @ b) = (case feed_loop b of (fs, r) \<Rightarrow> (p # fs, r))"
proof -
  let ?d = "host_frame p @ b"
  have "skip_junk junk = []" using assms(1) by (auto simp: dropWhile_eq_Nil_conv)
  then have "feed_loop (junk @ ?d) = feed_loop ?d" using feed_loop_append_skip [of junk ?d] by (simp only: append_Nil)
  moreover have "slice 1 3 ?d = to_le 2 (length p)" and s: "slice 3 (3 + length p) ?d = p" and dr: "drop (3 + length p) ?d = b"
    by (simp_all add: host_frame_def slice_def numeral_2_eq_2 numeral_3_eq_3)
  then have "length p = from_le (slice 1 3 ?d)" using assms(3) by (simp add: from_le_to_le MAX_FRAME_PAYLOAD_def)
  then have "feed_loop ?d = (case feed_loop (drop (3 + length p) ?d) of (fs, r) \<Rightarrow> (slice 3 (3 + length p) ?d # fs, r))"
    using assms by (intro feed_loop_frame) (auto simp: host_frame_def)
  ultimately show ?thesis using s dr by simp
qed

text \<open>C13: However the TCP stream is cut into reads, the parser hands over exactly the framed commands, in order, skipping
  the junk between them, and its buffer is empty when the stream ends at a frame.\<close>

theorem host_stream_parsed:
  assumes "list_all (\<lambda>(junk, p). FRAME_HOST_TO_RADIO \<notin> set junk \<and> 1 \<le> length p \<and> length p \<le> MAX_FRAME_PAYLOAD) items"
    and "concat reads = concat (map (\<lambda>(junk, p). junk @ host_frame p) items)"
  shows "feed_all [] reads = (map snd items, [])"
proof -
  have "feed_loop (concat (map (\<lambda>(junk, p). junk @ host_frame p) items)) = (map snd items, [])"
    using assms(1) by (induction items) (auto simp: feed_loop_host_frame)
  then show ?thesis using feed_all_concat [of "[]" reads] assms(2) by simp
qed

theorem host_stream_parsed_witness:
  "feed_all [] [[9, 0x3C], [2, 0, 7], [8, 0x3C, 1, 0], [5]] = ([[7, 8], [5]], [])"
proof -
  have "concat [[9, 0x3C], [2, 0, 7], [8, 0x3C, 1, 0], [5]]
      = concat (map (\<lambda>(junk, p). junk @ host_frame p) [([9], [7, 8]), ([], [5])])"
    by (simp add: host_frame_def FRAME_HOST_TO_RADIO_def numeral_2_eq_2 byte_of_def)
  from host_stream_parsed [OF _ this] show ?thesis by (simp add: FRAME_HOST_TO_RADIO_def MAX_FRAME_PAYLOAD_def)
qed

text \<open>Whatever the peer sends, what the parser keeps between reads is at most one incomplete frame, and every frame it
  hands over has 1 to 300 bytes.\<close>

theorem host_buffer_bounded:
  "length (snd (feed buffer data)) < 3 + MAX_FRAME_PAYLOAD
   \<and> list_all (\<lambda>f. 1 \<le> length f \<and> length f \<le> MAX_FRAME_PAYLOAD) (fst (feed buffer data))"
proof -
  have "length (snd (feed_loop b)) < 3 + MAX_FRAME_PAYLOAD
      \<and> list_all (\<lambda>f. 1 \<le> length f \<and> length f \<le> MAX_FRAME_PAYLOAD) (fst (feed_loop b))" for b
  proof (induction b rule: feed_loop.induct)
    case (1 b)
    then show ?case
      by (subst (1 2) feed_loop.simps) (auto simp: Let_def length_slice split: prod.splits)
  qed
  then show ?thesis by (simp add: feed_def)
qed

section \<open>Fields of a frame\<close>

lemma slice_skip: "length xs \<le> i \<Longrightarrow> slice i j (xs @ ys) = slice (i - length xs) (j - length xs) ys"
  by (auto simp: slice_def)

lemma slice_Cons: "0 < i \<Longrightarrow> slice i j (x # xs) = slice (i - 1) (j - 1) xs"
  by (cases i; cases j) (auto simp: slice_def)

lemma slice_head: "length xs = j \<Longrightarrow> slice 0 j (xs @ ys) = xs"
  by simp

lemmas field_slices = slice_skip slice_Cons slice_head nth_append

lemma byte_of_zero_iff: "x < 256 \<Longrightarrow> byte_of x = 0 \<longleftrightarrow> x = 0"
  by (metis mod_less unat_0 unat_byte_of byte_of_unat)

lemma utf8_char_nonzero: "scalar_value cp \<Longrightarrow> cp \<noteq> 0 \<Longrightarrow> 0 \<notin> set (utf8_char cp)"
proof -
  assume cp: "scalar_value cp" "cp \<noteq> 0"
  have "cp div 64 < 64" if "cp < 2048" using that by simp
  moreover have "cp div 4096 < 16" if "cp < 65536" using that by simp
  moreover have "cp div 262144 < 8" using cp(1) by (simp add: scalar_value_def) linarith
  moreover have "cp mod 64 < 64" "cp div 64 mod 64 < 64" "cp div 4096 mod 64 < 64" by simp_all
  ultimately show ?thesis using cp by (auto simp: utf8_char_def byte_of_zero_iff)
qed

lemma c_string_fixed:
  assumes "list_all scalar_value nm" and "0 \<notin> set nm" and "length (utf8_encode nm) \<le> n"
  shows "c_string (fixed (utf8_encode nm) n) = nm"
proof -
  have "0 \<notin> set (utf8_encode nm)"
    using assms(1,2) utf8_char_nonzero by (induction nm) (auto simp: utf8_encode_def)
  then have "takeWhile (\<lambda>b. b \<noteq> 0) (fixed (utf8_encode nm) n) = utf8_encode nm"
    using assms(3) by (auto simp: fixed_def takeWhile_append takeWhile_replicate)
  then show ?thesis by (simp add: c_string_def utf8_decode_ignore_strict [OF utf8_decode_encode [OF assms(1)]])
qed

lemma coord_bytes_close:
  assumes "\<bar>x\<bar> \<le> 180" and "coord_bytes (Some (Finite x)) = Inr b"
  shows "length b = 4 \<and> \<bar>of_int (from_le_signed b) / 1000000 - x\<bar> \<le> 1 / 2000000"
proof -
  let ?s = "py_round (x * 1000000)"
  have s: "\<bar>of_int ?s - x * 1000000\<bar> \<le> 1 / 2" by (rule py_round_error)
  with assms(1) have "\<bar>real_of_int ?s\<bar> \<le> 180000001" by linarith
  then have r: "\<bar>?s\<bar> \<le> 180000001" by linarith
  have "max (- (2 ^ 31)) (min (2 ^ 31 - 1) ?s) = ?s" using r by simp
  then have "to_bytes_le_signed 4 ?s = Inr b" using assms(2) by (simp add: coord_bytes_def)
  then have "from_le_signed b = ?s" "length b = 4" using from_le_signed_roundtrip [of 4 ?s b] by auto
  then show ?thesis using s by (simp add: field_simps abs_le_iff)
qed

lemma hex_of_eq_Nil: "hex_of bs = [] \<longleftrightarrow> bs = []"
  using hex_of_inject [of bs "[]"] by simp

text \<open>A route the 64-byte field of a contact frame can carry.\<close>

definition wire_route :: "string \<Rightarrow> int \<Rightarrow> int \<Rightarrow> bool" where
  "wire_route p l m \<longleftrightarrow> p = [] \<and> l = -1 \<and> m = -1
     \<or> (\<exists>pb n k. p = hex_of pb \<and> l = int n \<and> m = int k \<and> n \<le> 63 \<and> k \<le> 2 \<and> length pb = n * (k + 1) \<and> length pb \<le> 64)"

lemma route_byte_decodes:
  assumes "n \<le> 63" and "k \<le> 2"
  shows "unat (route_byte (int n) (int k)) \<noteq> 255 \<and> unat (route_byte (int n) (int k)) AND 63 = n
    \<and> drop_bit 6 (unat (route_byte (int n) (int k))) = k"
proof -
  have "nat (min (int n) 63) = n" "nat (int k mod 4) = k" using assms by auto
  then have "unat (route_byte (int n) (int k)) = (k * 64 + n) mod 256"
    using assms or_push_bit' [of n 6 k] by (simp add: route_byte_def Let_def)
  then show ?thesis using assms by (simp add: pybits)
qed

text \<open>A contact frame read back as the contact command an app would send is that contact: its key, type and flags (with
  the favourite in bit 0), the effective route, the name, the advert time, and coordinates within half a microdegree.\<close>

theorem contact_echo:
  assumes "encode_contact pt c lastmod = Inr frame"
    and "effective_route_tuple c = (p, l, m)" and "wire_route p l m"
    and "c_public_key c = hex_of key" and "length key = 32"
    and "c_name c = Some nm" and "list_all scalar_value nm" and "0 \<notin> set nm" and "length (utf8_encode nm) \<le> 32"
    and "c_lat c = Some (Finite lat)" and "\<bar>lat\<bar> \<le> 90" and "c_lon c = Some (Finite lon)" and "\<bar>lon\<bar> \<le> 180"
  shows "\<exists>u. parse_contact_update (tl frame) = Some u \<and> up_public_key u = hex_of key
    \<and> int (up_type u) = c_type c mod 256 \<and> up_flags u = (nat (c_flags c mod 256) OR (if c_favorite c then 1 else 0)) mod 256
    \<and> (up_out_path u, up_out_path_len u, up_out_path_hash_mode u) = (p, l, m) \<and> up_adv_name u = nm
    \<and> int (up_last_advert u) = get_or 0 (c_last_advert c)
    \<and> \<bar>up_adv_lat u - lat\<bar> \<le> 1 / 2000000 \<and> \<bar>up_adv_lon u - lon\<bar> \<le> 1 / 2000000"
proof -
  let ?flags = "if c_favorite c then nat (c_flags c mod 256) OR 1 else nat (c_flags c mod 256)"
  obtain pb la lo ad lm where parts: "(if p \<noteq> [] then hex_arg p else Inr []) = Inr pb"
      "coord_bytes (c_lat c) = Inr la" "coord_bytes (c_lon c) = Inr lo"
      "to_bytes_le 4 (get_or 0 (c_last_advert c)) = Inr ad"
      "to_bytes_le 4 (case lastmod of Some l \<Rightarrow> l | None \<Rightarrow> contact_lastmod c) = Inr lm"
    and fr: "frame = pt_CONTACT pt # fixed key 32 @ [low_byte (c_type c), byte_of ?flags, route_byte l m] @ fixed pb 64
        @ fixed (utf8_encode nm) 32 @ ad @ la @ lo @ lm"
    using assms(1) unfolding encode_contact_def assms(2) prod.case Let_def bind_res_Inr
    by (auto simp: assms(4,6) hex_arg_def get_or_def)
  have la: "length la = 4" "\<bar>of_int (from_le_signed la) / 1000000 - lat\<bar> \<le> 1 / 2000000"
    using coord_bytes_close [of lat la] assms(10,11) parts(2) by auto
  have lo: "length lo = 4" "\<bar>of_int (from_le_signed lo) / 1000000 - lon\<bar> \<le> 1 / 2000000"
    using coord_bytes_close [of lon lo] assms(12,13) parts(3) by auto
  have ad: "length ad = 4" "int (from_le ad) = get_or 0 (c_last_advert c)" using to_bytes_le_roundtrip parts(4) by auto
  have lm: "length lm = 4" using to_bytes_le_roundtrip parts(5) by auto
  note L = la(1) lo(1) ad(1) lm
  have len: "length (tl frame) = 147" by (simp add: fr L)
  have fields: "slice 0 32 (tl frame) = key" "tl frame ! 32 = low_byte (c_type c)" "tl frame ! 33 = byte_of ?flags"
      "tl frame ! 34 = route_byte l m" "slice 99 131 (tl frame) = fixed (utf8_encode nm) 32"
      "slice 131 135 (tl frame) = ad" "slice 135 139 (tl frame) = la" "slice 139 143 (tl frame) = lo"
    by (simp_all add: fr L field_slices assms(5))
  have path: "slice 35 (35 + k) (tl frame) = take k pb" if "k \<le> length pb" "length pb \<le> 64" for k
    using that by (simp add: fr L field_slices assms(5) fixed_def)
  have route: "(if unat (route_byte l m) = 255 then ([], -1, -1)
      else (hex_of (slice 35 (35 + (unat (route_byte l m) AND 63) * (drop_bit 6 (unat (route_byte l m)) + 1)) (tl frame)),
            int (unat (route_byte l m) AND 63), int (drop_bit 6 (unat (route_byte l m))))) = (p, l, m)"
    using assms(3) unfolding wire_route_def
  proof (elim disjE exE conjE)
    fix qb n k
    assume q: "p = hex_of qb" "l = int n" "m = int k" "n \<le> 63" "k \<le> 2" "length qb = n * (k + 1)" "length qb \<le> 64"
    then have "pb = qb" using parts(1) by (auto simp: hex_arg_def hex_of_eq_Nil split: if_splits)
    then show ?thesis using route_byte_decodes [OF q(4,5)] q path [of "n * (k + 1)"] by simp
  qed (simp add: route_byte_def)
  have fl: "unat (byte_of ?flags) = (nat (c_flags c mod 256) OR (if c_favorite c then 1 else 0)) mod 256" by simp
  have ty: "int (unat (low_byte (c_type c))) = c_type c mod 256" by (simp add: low_byte_def nat_mod_distrib)
  show ?thesis
    unfolding parse_contact_update_def Let_def len fields route fl
    using la lo ad ty c_string_fixed [OF assms(7,8,9)] by (simp add: fl)
qed

definition demo_codes :: packet_codes where
  "demo_codes = \<lparr>pt_OK = 0, pt_ERROR = 1, pt_DISABLED = 15, pt_NO_MORE_MSGS = 10, pt_CURRENT_TIME = 9, pt_BATTERY = 12,
     pt_MSG_SENT = 6, pt_ADVERTISEMENT = 128, pt_MESSAGES_WAITING = 131, pt_SELF_INFO = 5, pt_CONTACT = 3, pt_CONTACT_START = 2,
     pt_CONTACT_END = 4, pt_CHANNEL_INFO = 18, pt_CONTACT_MSG_RECV = 7, pt_CONTACT_MSG_RECV_V3 = 16, pt_CHANNEL_MSG_RECV_V3 = 17\<rparr>"

lemma demo_coords: "coord_bytes (Some (Finite (45 / 2))) = Inr (to_le 4 22500000)"
  "coord_bytes (Some (Finite (- 3))) = Inr (to_le 4 4291967296)"
  by (simp_all add: coord_bytes_def py_round_def to_bytes_le_signed_def)

lemma demo_contact_encodes: "\<exists>frame. encode_contact demo_codes demo_contact None = Inr frame"
proof -
  have "fromhex ''abcdef'' \<noteq> None" by code_simp
  then obtain pb where pb: "hex_arg ''abcdef'' = Inr pb" by (auto simp: hex_arg_def)
  have k: "hex_arg (c_public_key demo_contact) = Inr (replicate 32 7)" by (simp add: demo_contact_def hex_arg_def)
  have "to_bytes_le 4 (get_or 0 (c_last_advert demo_contact)) = Inr (to_le 4 1700000000)"
    by (simp add: demo_contact_def get_or_def to_bytes_le_def)
  moreover have "to_bytes_le 4 (contact_lastmod demo_contact) = Inr (to_le 4 1700000000)"
    by (simp add: demo_contact_def contact_lastmod_def to_bytes_le_def map_filter_def)
  moreover have "c_lat demo_contact = Some (Finite (45 / 2))" "c_lon demo_contact = Some (Finite (- 3))" by (simp_all add: demo_contact_def)
  ultimately show ?thesis by (simp add: encode_contact_def demo_contact_route pb k demo_coords Let_def)
qed

theorem contact_echo_witness:
  "\<exists>frame u. encode_contact demo_codes demo_contact None = Inr frame \<and> parse_contact_update (tl frame) = Some u
     \<and> up_out_path u = ''abcdef'' \<and> up_adv_name u = [0x42, 0x6F, 0x62]"
proof -
  obtain frame where f: "encode_contact demo_codes demo_contact None = Inr frame" using demo_contact_encodes by blast
  have h: "''abcdef'' = hex_of [0xAB, 0xCD, 0xEF]" by code_simp
  have w: "wire_route ''abcdef'' 3 0" unfolding wire_route_def h
    by (rule disjI2, rule exI [of _ "[0xAB, 0xCD, 0xEF]"], rule exI [of _ 3], rule exI [of _ 0]) simp
  have "length (utf8_encode [0x42, 0x6F, 0x62]) \<le> 32" by (simp add: utf8_encode_def utf8_char_def)
  then show ?thesis
    using contact_echo [OF f demo_contact_route w, of "replicate 32 7" "[0x42, 0x6F, 0x62]" "45 / 2" "- 3"] f
    by (fastforce simp: demo_contact_def scalar_value_def)
qed

section \<open>Channel frames\<close>

text \<open>A channel slot read back as the channel command an app would send is that slot: its index, its name and, as upper-case
  hexadecimal, its key; and the blank frame of an empty slot reads back as a request to clear it.\<close>

theorem channel_echo:
  assumes "0 \<le> i" and "i \<le> 255" and "list_all scalar_value nm" and "0 \<notin> set nm" and "length (utf8_encode nm) \<le> 32"
    and "length secret = 16"
  shows "(\<exists>frame u. encode_channel_info pt i (Some (nm, hex_of secret)) = Inr frame \<and> parse_channel_update (tl frame) = Some u
      \<and> int (chu_index u) = i \<and> chu_name u = nm \<and> channel_key u = map upper_hex (hex_of secret))
    \<and> (\<exists>frame u. encode_channel_info pt i None = Inr frame \<and> parse_channel_update (tl frame) = Some u
      \<and> int (chu_index u) = i \<and> is_clear u)"
proof -
  have i: "int (unat (low_byte i)) = i" using assms(1,2) by (simp add: low_byte_def)
  have p: "parse_channel_update (low_byte i # fixed n 32 @ fixed s 16) = Some \<lparr>chu_index = unat (low_byte i), chu_name = c_string (fixed n 32), chu_secret = fixed s 16\<rparr>" for n s
    by (simp add: parse_channel_update_def CHANNEL_NAME_SIZE_def CHANNEL_SECRET_SIZE_def field_slices)
  have "c_string (fixed [] 32) = []" by (simp add: c_string_def fixed_def takeWhile_replicate)
  then show ?thesis
    using i p [of "utf8_encode nm" secret] p [of "[]" "replicate 16 0"] assms(6) c_string_fixed [OF assms(3-5)]
    by (simp add: encode_channel_info_def hex_arg_def channel_key_def is_clear_def EMPTY_CHANNEL_SECRET_def
        CHANNEL_NAME_SIZE_def CHANNEL_SECRET_SIZE_def)
qed

theorem channel_echo_witness:
  "\<exists>frame u. encode_channel_info demo_codes 3 (Some ([0x23, 0x61], hex_of (replicate 16 9))) = Inr frame
     \<and> parse_channel_update (tl frame) = Some u \<and> chu_name u = [0x23, 0x61]"
  using channel_echo [of 3 "[0x23, 0x61]" "replicate 16 9" demo_codes] by (fastforce simp: scalar_value_def utf8_encode_def utf8_char_def)

lemma snr_byte_single: "snr_byte snr = Inr b \<Longrightarrow> \<exists>s. b = [s]"
  by (auto simp: snr_byte_def bind_res_Inr to_bytes_le_signed_def split: option.splits if_splits)

text \<open>The blob frames agree across components. A blob the node announces is read by the ingest parser with its slot, type and
  bytes; the send command built for a blob is read by the node's own parser; and re-addressing an inbound frame changes
  the slot and the blob and nothing else.\<close>

theorem channel_data_frames_agree:
  assumes "0 \<le> i" and "i \<le> 255" and "t \<le> 65535" and "length blob \<le> 255"
  shows "(encode_channel_data_recv i t blob snr = Inr frame \<longrightarrow>
      (\<exists>q. parse_channel_data_frame frame = Some q \<and> int (pc_channel_index q) = i \<and> pc_data_type q = t \<and> pc_payload q = blob
         \<and> pc_path_len_byte q = 255))
    \<and> (build_send_command i (int t) blob = Inr cmd \<longrightarrow>
        parse_send_channel_data (tl cmd) = Some \<lparr>od_channel_index = nat i, od_path_len_byte = 255, od_path = [],
          od_data_type = t, od_blob = blob\<rparr>)
    \<and> (parse_channel_data_frame frame = Some q \<longrightarrow>
        parse_channel_data_frame (rewrite_channel_data frame i blob) = Some (q\<lparr>pc_channel_index := nat i, pc_payload := blob\<rparr>))"
proof (intro conjI impI)
  have i: "int (unat (low_byte i)) = i" "unat (low_byte i) = nat i" using assms(1,2) by (auto simp: low_byte_def)
  have t: "t mod 256 + t div 256 mod 256 * 256 = t" using assms(3) by simp
  {
    assume e: "encode_channel_data_recv i t blob snr = Inr frame"
    then obtain b where b: "snr_byte snr = Inr b"
      and fb: "frame = 27 # b @ [0, 0, low_byte i, 255, byte_of (t AND 255), byte_of (drop_bit 8 t AND 255), byte_of (length blob AND 255)] @ blob"
      by (auto simp: encode_channel_data_recv_def bind_res_Inr RESP_CODE_CHANNEL_DATA_RECV_def byte_of_def)
    obtain s where "b = [s]" using snr_byte_single [OF b] by blast
    with fb have f: "frame = [27, s, 0, 0, low_byte i, 255, byte_of (t AND 255), byte_of (drop_bit 8 t AND 255), byte_of (length blob AND 255)] @ blob"
      by simp
    show "\<exists>q. parse_channel_data_frame frame = Some q \<and> int (pc_channel_index q) = i \<and> pc_data_type q = t \<and> pc_payload q = blob
         \<and> pc_path_len_byte q = 255"
      using assms(1,4) t or_push_bit' [of "t mod 256" 8 "t div 256 mod 256"]
      by (simp add: f parse_channel_data_frame_def RESP_CODE_CHANNEL_DATA_RECV_def i pybits slice_def Let_def)
  }
  {
    assume "build_send_command i (int t) blob = Inr cmd"
    then show "parse_send_channel_data (tl cmd) = Some \<lparr>od_channel_index = nat i, od_path_len_byte = 255, od_path = [],
          od_data_type = t, od_blob = blob\<rparr>"
      using assms t or_push_bit' [of "t mod 256" 8 "t div 256 mod 256"]
      by (auto simp: build_send_command_def parse_send_channel_data_def OUT_PATH_UNKNOWN_def pybits slice_def split: if_splits)
  }
  {
    assume "parse_channel_data_frame frame = Some q"
    then show "parse_channel_data_frame (rewrite_channel_data frame i blob) = Some (q\<lparr>pc_channel_index := nat i, pc_payload := blob\<rparr>)"
      using assms(4) i
      by (auto simp: parse_channel_data_frame_def rewrite_channel_data_def CHANNEL_DATA_RECV_HEADER_BYTES_def
          CHANNEL_DATA_RECV_INDEX_OFFSET_def Let_def nth_append slice_def pybits split: if_splits)
  }
qed

lemma demo_blob_frame: "encode_channel_data_recv 3 0xAE1C [1, 2] None = Inr [27, 0, 0, 0, 3, 255, 0x1C, 0xAE, 2, 1, 2]"
  by (simp add: encode_channel_data_recv_def snr_byte_def RESP_CODE_CHANNEL_DATA_RECV_def low_byte_def byte_of_def pybits)

theorem channel_data_frames_agree_witness:
  "\<exists>q. parse_channel_data_frame [27, 0, 0, 0, 3, 255, 0x1C, 0xAE, 2, 1, 2] = Some q \<and> pc_payload q = [1, 2]"
  using channel_data_frames_agree [of 3 "0xAE1C" "[1, 2]" None "[27, 0, 0, 0, 3, 255, 0x1C, 0xAE, 2, 1, 2]"] demo_blob_frame by auto

end
