(* ===== verification/VnSlots.thy ===== *)
theory VnSlots
  imports VnProtocol "HOL-Library.List_Lexorder" "HOL-Library.Char_ord" "HOL-Library.Multiset"
begin

text \<open>
  The channel slots of the virtual node (the channel part of \<open>src/app/virtual_node/server.py\<close>, with
  \<open>src/app/repository/virtual_node_channel_slots.py\<close> and the rows it needs of
  \<open>src/app/repository/channels.py\<close>). The state holds the table in memory, the two database tables, and
  whether the table was loaded. Each handler runs under the slot lock; \<open>_set_channel\<close> stores the
  channel only after it released the lock, so it is a sequence of two steps. Database calls whose
  failure the source catches take a flag that says whether they succeed.
\<close>

section \<open>State\<close>

definition MAX_VIRTUAL_CHANNEL_SLOTS :: nat where "MAX_VIRTUAL_CHANNEL_SLOTS = 255"
definition MIN_ADVERTISED_CHANNEL_SLOTS :: nat where "MIN_ADVERTISED_CHANNEL_SLOTS = 40"
definition PUBLIC_CHANNEL_KEY :: string where "PUBLIC_CHANNEL_KEY = ''8B3387E9C5CDEA6AC9E5EDBAA115CD72''"

record Channel =
  cn_key :: string
  cn_name :: ustr
  cn_is_hashtag :: bool
  cn_on_radio :: bool

record slots_state =
  vs_slots :: "string option list"
  vs_loaded :: bool
  vs_stored :: "(nat \<times> string) list"
  vs_channels :: "Channel list"

abbreviation upper :: "string \<Rightarrow> string" where
  "upper s \<equiv> map upper_hex s"

section \<open>The channel store\<close>

definition channel_get_by_key :: "string \<Rightarrow> Channel list \<Rightarrow> Channel option" where
  "channel_get_by_key key rows = find (\<lambda>r. cn_key r = upper key) rows"

definition channel_upsert :: "string \<Rightarrow> ustr \<Rightarrow> bool \<Rightarrow> bool \<Rightarrow> Channel list \<Rightarrow> Channel list" where
  "channel_upsert key name is_hashtag on_radio rows =
     (if list_ex (\<lambda>r. cn_key r = upper key) rows
      then map (\<lambda>r. if cn_key r = upper key then r\<lparr>cn_name := name, cn_is_hashtag := is_hashtag, cn_on_radio := on_radio\<rparr> else r) rows
      else rows @ [\<lparr>cn_key = upper key, cn_name = name, cn_is_hashtag = is_hashtag, cn_on_radio = on_radio\<rparr>])"

definition channel_delete :: "string \<Rightarrow> Channel list \<Rightarrow> Channel list" where
  "channel_delete key rows = filter (\<lambda>r. cn_key r \<noteq> upper key) rows"

section \<open>Loading and saving the table\<close>

text \<open>\<open>replace_all\<close>: the rows of the slots that are not blank.\<close>

definition replace_all :: "string option list \<Rightarrow> (nat \<times> string) list" where
  "replace_all slots = [(i, upper (the (slots ! i))). i \<leftarrow> [0..<length slots], slots ! i \<noteq> None]"

definition persist_channel_slots :: "bool \<Rightarrow> slots_state \<Rightarrow> slots_state" where
  "persist_channel_slots saved s = (if saved then s\<lparr>vs_stored := replace_all (vs_slots s)\<rparr> else s)"

text \<open>\<open>get_all\<close>: slot to upper-case key.\<close>

definition stored_slots :: "(nat \<times> string) list \<Rightarrow> (nat \<times> string) list" where
  "stored_slots rows = map (\<lambda>(i, k). (i, upper k)) rows"

definition load_channel_slots :: "bool \<Rightarrow> slots_state \<Rightarrow> slots_state" where
  "load_channel_slots readable s =
     (if vs_loaded s then s
      else
        let s1 = s\<lparr>vs_loaded := True\<rparr>; stored = stored_slots (vs_stored s)
        in if \<not> readable \<or> stored = [] then s1
           else s1\<lparr>vs_slots := map (map_of stored) [0..<Suc (Max (fst ` set stored))]\<rparr>)"

section \<open>Reconciling the table with the channels\<close>

fun index_of_slot :: "'a \<Rightarrow> 'a list \<Rightarrow> nat" where
  "index_of_slot x [] = 0"
| "index_of_slot x (y # ys) = (if x = y then 0 else Suc (index_of_slot x ys))"

definition drop_unknown :: "string set \<Rightarrow> string option list \<Rightarrow> string option list" where
  "drop_unknown known slots = map (\<lambda>k. case k of Some key \<Rightarrow> if key \<in> known then Some key else None | None \<Rightarrow> None) slots"

definition pin_public_channel_slot :: "string set \<Rightarrow> string option list \<Rightarrow> string option list" where
  "pin_public_channel_slot known slots =
     (if PUBLIC_CHANNEL_KEY \<notin> known then slots
      else if slots = [] then [Some PUBLIC_CHANNEL_KEY]
      else if slots ! 0 = Some PUBLIC_CHANNEL_KEY then slots
      else
        let displaced = slots ! 0;
            slots1 = slots[0 := Some PUBLIC_CHANNEL_KEY]
        in if Some PUBLIC_CHANNEL_KEY \<in> set slots then slots1[index_of_slot (Some PUBLIC_CHANNEL_KEY) slots := displaced]
           else if displaced \<noteq> None then
             (if None \<in> set slots1 then slots1[index_of_slot None slots1 := displaced]
              else if length slots1 < MAX_VIRTUAL_CHANNEL_SLOTS then slots1 @ [displaced]
              else slots1)
           else slots1)"

definition assign_slot :: "string \<Rightarrow> string option list \<Rightarrow> string option list" where
  "assign_slot key slots =
     (if length slots < MAX_VIRTUAL_CHANNEL_SLOTS then slots @ [Some key]
      else if None \<in> set slots then slots[index_of_slot None slots := Some key]
      else slots)"

definition present_keys :: "string option list \<Rightarrow> string set" where
  "present_keys slots = {k. Some k \<in> set slots}"

lemma present_keys_code [code]: "present_keys slots = set (List.map_filter id slots)"
  by (auto simp: present_keys_def List.map_filter_def image_iff) force

definition reconcile :: "string set \<Rightarrow> string option list \<Rightarrow> string option list" where
  "reconcile known slots =
     (let pinned = pin_public_channel_slot known (drop_unknown known slots)
      in fold assign_slot (sorted_list_of_set (known - present_keys pinned)) pinned)"

definition known_keys :: "Channel list \<Rightarrow> string set" where
  "known_keys rows = (upper \<circ> cn_key) ` set rows"

definition ensure_channel_slots :: "bool \<Rightarrow> bool \<Rightarrow> slots_state \<Rightarrow> slots_state" where
  "ensure_channel_slots readable saved s =
     (let s1 = load_channel_slots readable s;
          slots = reconcile (known_keys (vs_channels s1)) (vs_slots s1);
          s2 = s1\<lparr>vs_slots := slots\<rparr>
      in if slots \<noteq> vs_slots s1 then persist_channel_slots saved s2 else s2)"

definition slot_for_channel :: "bool \<Rightarrow> bool \<Rightarrow> string \<Rightarrow> slots_state \<Rightarrow> nat option \<times> slots_state" where
  "slot_for_channel readable saved key s =
     (let s1 = (if Some (upper key) \<notin> set (vs_slots s) then ensure_channel_slots readable saved s else s)
      in (if Some (upper key) \<in> set (vs_slots s1) then Some (index_of_slot (Some (upper key)) (vs_slots s1)) else None, s1))"

text \<open>\<open>max_channels\<close> of the radio is absent or a number.\<close>

definition advertised_channel_slots :: "int option \<Rightarrow> nat \<Rightarrow> nat" where
  "advertised_channel_slots max_channels used =
     (let radio_max = (case max_channels of Some n \<Rightarrow> if n > 0 then nat n else 0 | None \<Rightarrow> 0)
      in min MAX_VIRTUAL_CHANNEL_SLOTS (max MIN_ADVERTISED_CHANNEL_SLOTS (max radio_max used)))"

section \<open>Commands\<close>

definition channel_in_slot :: "nat \<Rightarrow> slots_state \<Rightarrow> Channel option" where
  "channel_in_slot index s =
     (case if index < length (vs_slots s) then vs_slots s ! index else None of
        Some key \<Rightarrow> if key = [] then None else channel_get_by_key key (vs_channels s)
      | None \<Rightarrow> None)"

definition channel_info :: "packet_codes \<Rightarrow> int option \<Rightarrow> bool \<Rightarrow> bool \<Rightarrow> bytes \<Rightarrow> slots_state \<Rightarrow> bytes res \<times> slots_state" where
  "channel_info pt max_channels readable saved payload s =
     (if payload = [] then (Inr (encode_error pt (error_value ILLEGAL_ARG)), s)
      else
        let index = unat (payload ! 0); s1 = ensure_channel_slots readable saved s
        in if index \<ge> advertised_channel_slots max_channels (length (vs_slots s1))
           then (Inr (encode_error pt (error_value ILLEGAL_ARG)), s1)
           else (encode_channel_info pt (int index) (map_option (\<lambda>c. (cn_name c, cn_key c)) (channel_in_slot index s1)), s1))"

text \<open>The part of \<open>_set_channel\<close> under the lock. The flag says whether the channel is to be stored.\<close>

definition bind_slot :: "bool \<Rightarrow> ChannelUpdate \<Rightarrow> slots_state \<Rightarrow> bool \<times> slots_state" where
  "bind_slot saved update s =
     (let index = chu_index update;
          slots = vs_slots s @ replicate (Suc index - length (vs_slots s)) None
      in if is_clear update then
           (let s1 = s\<lparr>vs_slots := slots[index := None]\<rparr>
            in (False, if slots ! index \<noteq> None \<and> slots ! index \<noteq> Some [] then persist_channel_slots saved s1 else s1))
         else
           let key = channel_key update;
               slots1 = (if Some key \<in> set slots \<and> index_of_slot (Some key) slots \<noteq> index
                         then slots[index_of_slot (Some key) slots := None] else slots)
           in (True, persist_channel_slots saved (s\<lparr>vs_slots := slots1[index := Some key]\<rparr>)))"

text \<open>The part after the lock is released.\<close>

definition store_channel :: "ChannelUpdate \<Rightarrow> slots_state \<Rightarrow> slots_state" where
  "store_channel update s =
     (let key = channel_key update;
          existing = channel_get_by_key key (vs_channels s);
          name = (if chu_name update \<noteq> [] then chu_name update
                  else case existing of Some c \<Rightarrow> cn_name c | None \<Rightarrow> map of_char (take 8 key));
          on_radio = (case existing of Some c \<Rightarrow> cn_on_radio c | None \<Rightarrow> False)
      in s\<lparr>vs_channels := channel_upsert key name (starts_with [35] name) on_radio (vs_channels s)\<rparr>)"

definition set_channel :: "packet_codes \<Rightarrow> int option \<Rightarrow> bool \<Rightarrow> bool \<Rightarrow> bytes \<Rightarrow> slots_state \<Rightarrow> bytes res \<times> slots_state" where
  "set_channel pt max_channels readable saved payload s =
     (case parse_channel_update payload of
        None \<Rightarrow> (Inr (encode_error pt (error_value ILLEGAL_ARG)), s)
      | Some update \<Rightarrow>
          let s1 = ensure_channel_slots readable saved s
          in if chu_index update \<ge> advertised_channel_slots max_channels (length (vs_slots s1))
             then (Inr (encode_error pt (error_value ILLEGAL_ARG)), s1)
             else
               (case bind_slot saved update s1 of
                  (True, s2) \<Rightarrow> (encode_ok pt None, store_channel update s2)
                | (False, s2) \<Rightarrow> (encode_ok pt None, s2)))"

text \<open>A restart of the process keeps only the database.\<close>

definition restart :: "slots_state \<Rightarrow> slots_state" where
  "restart s = s\<lparr>vs_slots := [], vs_loaded := False\<rparr>"

section \<open>One slot per channel\<close>

definition slots_ok :: "string option list \<Rightarrow> bool" where
  "slots_ok slots \<longleftrightarrow> length slots \<le> MAX_VIRTUAL_CHANNEL_SLOTS \<and> (\<forall>k. count (mset slots) (Some k) \<le> 1)"

lemma index_of_slot_in: "x \<in> set xs \<Longrightarrow> index_of_slot x xs < length xs \<and> xs ! index_of_slot x xs = x"
  by (induction xs) auto

lemma in_present [simp]: "k \<in> present_keys xs \<longleftrightarrow> Some k \<in> set xs"
  by (simp add: present_keys_def)

lemma slots_ok_Nil [simp]: "slots_ok []"
  by (simp add: slots_ok_def)

lemma slots_ok_update: "slots_ok xs \<Longrightarrow> v = None \<or> v \<notin> set xs \<Longrightarrow> slots_ok (xs[i := v])"
  by (cases "i < length xs") (auto simp: slots_ok_def mset_update list_update_beyond count_eq_zero_iff [THEN iffD2] intro: le_trans diff_le_self)

lemma slots_ok_append:
  "slots_ok xs \<Longrightarrow> length xs < MAX_VIRTUAL_CHANNEL_SLOTS \<Longrightarrow> v = None \<or> v \<notin> set xs \<Longrightarrow> slots_ok (xs @ [v])"
  by (auto simp: slots_ok_def count_eq_zero_iff [THEN iffD2])

lemma slots_ok_swap: "slots_ok xs \<Longrightarrow> i < length xs \<Longrightarrow> j < length xs \<Longrightarrow> slots_ok (xs[i := xs ! j, j := xs ! i])"
  by (simp add: slots_ok_def mset_swap)

lemma length_drop_unknown [simp]: "length (drop_unknown known xs) = length xs"
  by (simp add: drop_unknown_def)

lemma count_drop: "count (mset (drop_unknown known xs)) (Some k) \<le> count (mset xs) (Some k)"
  by (induction xs) (auto simp: drop_unknown_def split: option.splits)

lemma slots_ok_drop: "slots_ok xs \<Longrightarrow> slots_ok (drop_unknown known xs)"
  by (simp add: slots_ok_def order_trans [OF count_drop])

lemma present_drop [simp]: "present_keys (drop_unknown known xs) = present_keys xs \<inter> known"
  by (force simp: drop_unknown_def split: option.splits if_splits)

lemma drop_unknown_keeps: "i < length xs \<Longrightarrow> xs ! i = Some k \<Longrightarrow> k \<in> known \<Longrightarrow> drop_unknown known xs ! i = Some k"
  by (simp add: drop_unknown_def)

lemma slots_ok_distinct: "slots_ok xs \<Longrightarrow> None \<notin> set xs \<Longrightarrow> distinct xs"
  by (auto simp: slots_ok_def distinct_count_atmost_1 count_eq_zero_iff) (metis One_nat_def count_greater_eq_one_iff in_multiset_in_set le_antisym not_None_eq)

lemma finite_present [simp]: "finite (present_keys xs)"
  by (simp add: present_keys_code)

text \<open>A table with fewer channels than slots has room.\<close>

lemma slots_room:
  assumes "slots_ok xs" and "card (present_keys xs) < MAX_VIRTUAL_CHANNEL_SLOTS" and "None \<notin> set xs"
  shows "length xs < MAX_VIRTUAL_CHANNEL_SLOTS"
proof -
  have "x \<in> set xs \<longleftrightarrow> x \<in> Some ` present_keys xs" for x using assms(3) by (cases x) auto
  then have s: "set xs = Some ` present_keys xs" by blast
  have "length xs = card (set xs)" using slots_ok_distinct [OF assms(1,3)] by (simp add: distinct_card)
  also have "\<dots> = card (present_keys xs)" unfolding s by (simp add: card_image)
  finally show ?thesis using assms(2) by simp
qed

section \<open>Assigning the channels without a slot\<close>

lemma index_None: "None \<in> set xs \<Longrightarrow> index_of_slot None xs < length xs \<and> xs ! index_of_slot None xs = None"
  by (rule index_of_slot_in)

lemma assign_slot_ok: "slots_ok xs \<Longrightarrow> Some k \<notin> set xs \<Longrightarrow> slots_ok (assign_slot k xs)"
  by (simp add: assign_slot_def slots_ok_append slots_ok_update)

lemma assign_slot_keeps: "i < length xs \<Longrightarrow> xs ! i \<noteq> None \<Longrightarrow> assign_slot k xs ! i = xs ! i \<and> length xs \<le> length (assign_slot k xs)"
  using index_None [of xs] by (auto simp: assign_slot_def nth_append nth_list_update)

lemma set_update_None:
  assumes "i < length xs" and "xs ! i = None"
  shows "present_keys (xs[i := Some k]) = insert k (present_keys xs)"
proof -
  have "Some x \<in> set (xs[i := Some k]) \<longleftrightarrow> x = k \<or> Some x \<in> set xs" for x
    using assms by (simp add: mset_update in_diff_count flip: set_mset_mset)
  then show ?thesis by auto
qed

lemma present_assign_cases:
  "present_keys (assign_slot k xs) =
     (if length xs < MAX_VIRTUAL_CHANNEL_SLOTS \<or> None \<in> set xs then insert k (present_keys xs) else present_keys xs)"
proof (cases "length xs < MAX_VIRTUAL_CHANNEL_SLOTS")
  case True
  then show ?thesis by (auto simp: assign_slot_def)
next
  case False
  then show ?thesis using index_None [of xs] by (simp add: assign_slot_def set_update_None)
qed

lemma present_assign_le: "present_keys (assign_slot k xs) \<subseteq> insert k (present_keys xs)"
  by (auto simp: present_assign_cases simp del: in_present split: if_splits)

lemma present_assign:
  assumes "slots_ok xs" and "card (present_keys xs) < MAX_VIRTUAL_CHANNEL_SLOTS"
  shows "present_keys (assign_slot k xs) = insert k (present_keys xs)"
  using slots_room [OF assms] by (simp only: present_assign_cases) argo

lemma assign_all_ok:
  "slots_ok xs \<Longrightarrow> distinct ks \<Longrightarrow> set ks \<inter> present_keys xs = {} \<Longrightarrow>
     slots_ok (fold assign_slot ks xs) \<and> present_keys (fold assign_slot ks xs) \<subseteq> set ks \<union> present_keys xs"
proof (induction ks arbitrary: xs)
  case (Cons k ks)
  have "slots_ok (assign_slot k xs)" using assign_slot_ok Cons.prems by auto
  moreover have "set ks \<inter> present_keys (assign_slot k xs) = {}" using present_assign_le [of k xs] Cons.prems by auto
  ultimately show ?case using Cons.IH [of "assign_slot k xs"] present_assign_le [of k xs] Cons.prems(2) by auto
qed simp

lemma assign_all_keeps:
  "i < length xs \<Longrightarrow> xs ! i \<noteq> None \<Longrightarrow> fold assign_slot ks xs ! i = xs ! i \<and> length xs \<le> length (fold assign_slot ks xs)"
proof (induction ks arbitrary: xs)
  case (Cons k ks)
  note a = assign_slot_keeps [OF Cons.prems, of k]
  then show ?case using Cons.IH [of "assign_slot k xs"] Cons.prems by fastforce
qed simp

lemma assign_all_present:
  "slots_ok xs \<Longrightarrow> distinct ks \<Longrightarrow> set ks \<inter> present_keys xs = {} \<Longrightarrow> card (set ks \<union> present_keys xs) \<le> MAX_VIRTUAL_CHANNEL_SLOTS \<Longrightarrow>
     present_keys (fold assign_slot ks xs) = set ks \<union> present_keys xs"
proof (induction ks arbitrary: xs)
  case (Cons k ks)
  have "present_keys xs \<subset> set (k # ks) \<union> present_keys xs" using Cons.prems(3) by auto
  then have "card (present_keys xs) < card (set (k # ks) \<union> present_keys xs)" by (intro psubset_card_mono) simp_all
  then have p: "present_keys (assign_slot k xs) = insert k (present_keys xs)"
    using present_assign Cons.prems(1,4) by simp
  moreover have "slots_ok (assign_slot k xs)" using assign_slot_ok Cons.prems by auto
  ultimately show ?case using Cons.IH [of "assign_slot k xs"] Cons.prems(2-4) by (auto simp: Un_insert_right)
qed simp

section \<open>The public channel\<close>

text \<open>The three ways the public channel takes slot 0.\<close>

lemma pin_cases:
  assumes "PUBLIC_CHANNEL_KEY \<in> known"
  obtains (empty) "slots = []" "pin_public_channel_slot known slots = [Some PUBLIC_CHANNEL_KEY]"
  | (seated) "slots \<noteq> []" "slots ! 0 = Some PUBLIC_CHANNEL_KEY" "pin_public_channel_slot known slots = slots"
  | (swapped) c where "0 < c" "c < length slots" "slots ! c = Some PUBLIC_CHANNEL_KEY"
      "pin_public_channel_slot known slots = slots[0 := slots ! c, c := slots ! 0]"
  | (moved) b where "0 < b" "b < length slots" "slots ! b = None" "Some PUBLIC_CHANNEL_KEY \<notin> set slots" "slots ! 0 \<noteq> None"
      "pin_public_channel_slot known slots = slots[0 := Some PUBLIC_CHANNEL_KEY, b := slots ! 0]"
  | (pushed) "slots \<noteq> []" "Some PUBLIC_CHANNEL_KEY \<notin> set slots" "length slots < MAX_VIRTUAL_CHANNEL_SLOTS" "slots ! 0 \<noteq> None"
      "pin_public_channel_slot known slots = slots[0 := Some PUBLIC_CHANNEL_KEY] @ [slots ! 0]"
  | (replaced) "slots \<noteq> []" "Some PUBLIC_CHANNEL_KEY \<notin> set slots"
      "pin_public_channel_slot known slots = slots[0 := Some PUBLIC_CHANNEL_KEY]"
proof (cases "slots = [] \<or> slots ! 0 = Some PUBLIC_CHANNEL_KEY")
  case True
  then show ?thesis using empty seated assms by (auto simp: pin_public_channel_slot_def)
next
  case False
  let ?P = "Some PUBLIC_CHANNEL_KEY" and ?s = "slots[0 := Some PUBLIC_CHANNEL_KEY]"
  note c = index_of_slot_in [of ?P slots] and b = index_of_slot_in [of None ?s]
  consider "?P \<in> set slots" | "?P \<notin> set slots" "slots ! 0 \<noteq> None" "None \<in> set ?s" | "?P \<notin> set slots" "slots ! 0 \<noteq> None" "None \<notin> set ?s"
    | "?P \<notin> set slots" "slots ! 0 = None" by blast
  then show ?thesis
  proof cases
    case 1
    then have "0 < index_of_slot ?P slots" using c False by (metis gr0I)
    then show ?thesis using swapped [of "index_of_slot ?P slots"] c 1 False assms by (simp add: pin_public_channel_slot_def)
  next
    case 2
    have z: "0 < index_of_slot None ?s" using b [OF 2(3)] False by (metis gr0I length_greater_0_conv nth_list_update_eq option.distinct(1))
    then have "slots ! index_of_slot None ?s = None" using b [OF 2(3)] by simp
    then show ?thesis using moved [of "index_of_slot None ?s"] b [OF 2(3)] z 2 False assms by (simp add: pin_public_channel_slot_def Let_def)
  next
    case 3
    then show ?thesis using pushed replaced False assms
      by (cases "length slots < MAX_VIRTUAL_CHANNEL_SLOTS") (simp_all add: pin_public_channel_slot_def)
  next
    case 4
    then show ?thesis using replaced False assms by (simp add: pin_public_channel_slot_def)
  qed
qed

lemma slots_ok_move:
  assumes "slots_ok xs" "0 < b" "b < length xs" "xs ! b = None" "v \<notin> set xs" "v \<noteq> None"
  shows "slots_ok (xs[0 := v, b := xs ! 0])"
proof -
  have n: "0 < length xs" using assms(3) by (rule le_less_trans [OF le0])
  then have "slots_ok (xs[0 := None, b := xs ! 0])" using slots_ok_swap [OF assms(1) _ assms(3)] assms(4) by metis
  moreover have "v \<notin> set (xs[0 := None, b := xs ! 0])" using assms(4,5) set_swap [OF n assms(3)] by simp
  ultimately have "slots_ok (xs[0 := None, b := xs ! 0, 0 := v])" by (simp add: slots_ok_update [of "xs[0 := None, b := xs ! 0]"])
  then show ?thesis using assms(2) by (simp add: list_update_swap [of b 0])
qed

lemma slots_ok_push:
  assumes "slots_ok xs" "xs \<noteq> []" "length xs < MAX_VIRTUAL_CHANNEL_SLOTS" "v \<notin> set xs" "v \<noteq> None" "xs ! 0 \<noteq> None"
  shows "slots_ok (xs[0 := v] @ [xs ! 0])"
proof (rule slots_ok_append)
  show "slots_ok (xs[0 := v])" using slots_ok_update assms by blast
  obtain k where k: "xs ! 0 = Some k" using assms(6) by auto
  have "count (mset xs) (Some k) = 1"
    using assms(1,2) k by (metis count_greater_eq_one_iff in_multiset_in_set le_antisym length_greater_0_conv nth_mem slots_ok_def)
  then have "count (mset (xs[0 := v])) (Some k) = 0" using assms k nth_mem [of 0 xs] by (auto simp: mset_update)
  then show "xs ! 0 = None \<or> xs ! 0 \<notin> set (xs[0 := v])" using k by (metis count_eq_zero_iff in_multiset_in_set)
qed (use assms in simp)

lemma pin_ok: "slots_ok slots \<Longrightarrow> slots_ok (pin_public_channel_slot known slots)"
proof (cases "PUBLIC_CHANNEL_KEY \<in> known")
  case True
  assume ok: "slots_ok slots"
  from True show ?thesis
  proof (cases rule: pin_cases [of known slots])
    case swapped
    then show ?thesis using slots_ok_swap [OF ok] by (metis gr_implies_not0 length_0_conv length_greater_0_conv order_less_trans)
  qed (use ok in \<open>simp_all add: slots_ok_move slots_ok_push slots_ok_update slots_ok_def [of "[_]"] MAX_VIRTUAL_CHANNEL_SLOTS_def\<close>)
qed (simp add: pin_public_channel_slot_def)

lemma pin_present: "present_keys (pin_public_channel_slot known slots) \<subseteq> present_keys slots \<union> ({PUBLIC_CHANNEL_KEY} \<inter> known)"
proof (cases "PUBLIC_CHANNEL_KEY \<in> known")
  case True
  have mem: "v = w \<or> v = xs ! 0 \<or> v \<in> set xs" if "v \<in> set (xs[0 := w, b := xs ! 0])" for v w b and xs :: "string option list"
    using that set_update_subset_insert [of "xs[0 := w]" b "xs ! 0"] set_update_subset_insert [of xs 0 w] by blast
  from True show ?thesis
  proof (cases rule: pin_cases [of known slots])
    case (swapped c)
    then show ?thesis using set_swap [of 0 slots c] by (cases slots) auto
  next
    case (moved b)
    then show ?thesis using mem [of _ slots "Some PUBLIC_CHANNEL_KEY" b] True nth_mem [of 0 slots] by fastforce
  next
    case pushed
    then have "set (slots[0 := Some PUBLIC_CHANNEL_KEY] @ [slots ! 0]) \<subseteq> insert (Some PUBLIC_CHANNEL_KEY) (set slots)"
      using set_update_subset_insert [of slots 0 "Some PUBLIC_CHANNEL_KEY"] by simp
    then show ?thesis using True unfolding pushed(5) present_keys_def by blast
  qed (use True set_update_subset_insert [of slots 0 "Some PUBLIC_CHANNEL_KEY"] in auto)
qed (simp add: pin_public_channel_slot_def)

lemma pin_keeps:
  assumes "0 < i" "i < length slots" "slots ! i = Some k" "k \<noteq> PUBLIC_CHANNEL_KEY"
  shows "pin_public_channel_slot known slots ! i = Some k \<and> i < length (pin_public_channel_slot known slots)"
proof (cases "PUBLIC_CHANNEL_KEY \<in> known")
  case True
  then show ?thesis using assms by (cases rule: pin_cases [of known slots]) (auto simp: nth_list_update nth_append)
qed (use assms in \<open>simp add: pin_public_channel_slot_def\<close>)

lemma pin_first:
  assumes "PUBLIC_CHANNEL_KEY \<in> known"
  shows "pin_public_channel_slot known slots \<noteq> [] \<and> pin_public_channel_slot known slots ! 0 = Some PUBLIC_CHANNEL_KEY"
  using assms by (cases rule: pin_cases [of known slots]; cases slots) (auto simp: nth_list_update nth_append split: nat.splits)

lemma pin_seated: "slots = [] \<and> PUBLIC_CHANNEL_KEY \<notin> known \<or> slots \<noteq> [] \<and> slots ! 0 = Some PUBLIC_CHANNEL_KEY \<or> PUBLIC_CHANNEL_KEY \<notin> known
    \<Longrightarrow> pin_public_channel_slot known slots = slots"
  by (auto simp: pin_public_channel_slot_def)

section \<open>The reconciled table\<close>

lemma reconcile_parts:
  fixes known slots
  defines "pinned \<equiv> pin_public_channel_slot known (drop_unknown known slots)"
  assumes "slots_ok slots" and "finite known"
  shows "slots_ok pinned" and "present_keys pinned \<subseteq> known" and "set (sorted_list_of_set (known - present_keys pinned)) = known - present_keys pinned"
    and "reconcile known slots = fold assign_slot (sorted_list_of_set (known - present_keys pinned)) pinned"
  using assms pin_ok slots_ok_drop pin_present [of known "drop_unknown known slots"]
  by (auto simp: reconcile_def Let_def simp del: in_present)

lemma reconcile_ok: "slots_ok slots \<Longrightarrow> finite known \<Longrightarrow> slots_ok (reconcile known slots) \<and> present_keys (reconcile known slots) \<subseteq> known"
  using reconcile_parts [of slots known] assign_all_ok [of "pin_public_channel_slot known (drop_unknown known slots)"
      "sorted_list_of_set (known - present_keys (pin_public_channel_slot known (drop_unknown known slots)))"]
  by (auto simp del: in_present)

lemma reconcile_complete:
  assumes "slots_ok slots" and "finite known" and "card known \<le> MAX_VIRTUAL_CHANNEL_SLOTS"
  shows "present_keys (reconcile known slots) = known"
proof -
  let ?p = "pin_public_channel_slot known (drop_unknown known slots)"
  note p = reconcile_parts [OF assms(1,2)]
  have u: "(known - present_keys ?p) \<union> present_keys ?p = known" using p(2) by blast
  have "present_keys (fold assign_slot (sorted_list_of_set (known - present_keys ?p)) ?p) = (known - present_keys ?p) \<union> present_keys ?p"
    using assign_all_present [OF p(1), of "sorted_list_of_set (known - present_keys ?p)"] p(3) assms(3) u by (simp only: distinct_sorted_list_of_set) blast
  then show ?thesis using p(4) u by simp
qed

lemma reconcile_public:
  assumes "slots_ok slots" and "finite known" and "PUBLIC_CHANNEL_KEY \<in> known"
  shows "reconcile known slots \<noteq> [] \<and> reconcile known slots ! 0 = Some PUBLIC_CHANNEL_KEY"
  using reconcile_parts(4) [OF assms(1,2)] pin_first [OF assms(3), of "drop_unknown known slots"]
    assign_all_keeps [of 0 "pin_public_channel_slot known (drop_unknown known slots)"]
  by (metis length_greater_0_conv list.size(3) not_one_le_zero option.distinct(1) leD)

lemma reconcile_keeps:
  assumes "slots_ok slots" and "finite known" and "0 < i" and "i < length slots" and "slots ! i = Some k" and "k \<in> known" and "k \<noteq> PUBLIC_CHANNEL_KEY"
  shows "i < length (reconcile known slots) \<and> reconcile known slots ! i = Some k"
proof -
  have "pin_public_channel_slot known (drop_unknown known slots) ! i = Some k \<and> i < length (pin_public_channel_slot known (drop_unknown known slots))"
    using pin_keeps [of i "drop_unknown known slots"] drop_unknown_keeps assms by simp
  then show ?thesis using reconcile_parts(4) [OF assms(1,2)] assign_all_keeps [of i "pin_public_channel_slot known (drop_unknown known slots)"]
    by (metis option.distinct(1) order_less_le_trans)
qed

lemma finite_known [simp]: "finite (known_keys rows)"
  by (simp add: known_keys_def)

section \<open>Saving and loading\<close>

lemma upper_hex_idem [simp]: "upper_hex (upper_hex c) = upper_hex c"
  by (auto simp: upper_hex_def Let_def)

lemma upper_idem [simp]: "upper_hex \<circ> upper_hex = upper_hex"
  by (simp add: fun_eq_iff)

definition slot_at :: "string option list \<Rightarrow> nat \<Rightarrow> string option" where
  "slot_at slots i = (if i < length slots then slots ! i else None)"

lemma replace_all_snoc: "replace_all (xs @ [x]) = replace_all xs @ (if x = None then [] else [(length xs, upper (the x))])"
proof -
  have "concat (map (\<lambda>i. if (xs @ [x]) ! i \<noteq> None then [(i, upper (the ((xs @ [x]) ! i)))] else []) [0..<length xs])
      = concat (map (\<lambda>i. if xs ! i \<noteq> None then [(i, upper (the (xs ! i)))] else []) [0..<length xs])"
    by (intro arg_cong [of _ _ concat] map_cong) (simp_all add: nth_append)
  then show ?thesis by (simp add: replace_all_def)
qed

lemma replace_all_Nil [simp]: "replace_all [] = []"
  by (simp add: replace_all_def)

lemma replace_all_index: "(i, k) \<in> set (replace_all xs) \<Longrightarrow> i < length xs \<and> k = upper k"
  by (induction xs rule: rev_induct) (auto simp: replace_all_snoc split: if_splits)

lemma map_of_replace_all: "map_of (replace_all xs) i = map_option upper (slot_at xs i)"
proof (induction xs rule: rev_induct)
  case (snoc x xs)
  have "map_of (replace_all xs) (length xs) = None" using snoc replace_all_index [of "length xs" _ xs] by (fastforce simp: map_of_eq_None_iff)
  then show ?case using snoc by (cases "i = length xs") (auto simp: replace_all_snoc map_add_def slot_at_def nth_append split: option.splits)
qed (simp add: slot_at_def)

lemma map_of_stored: "map_of (stored_slots rows) i = map_option upper (map_of rows i)"
  by (induction rows) (auto simp: stored_slots_def)

section \<open>Runs\<close>

text \<open>
  What can happen to the slots, in any order: a reconciliation, the two halves of an app's channel write,
  channels created or deleted elsewhere in the program, and a restart. The first half of a channel write is
  reached only after a reconciliation in the same process and with an index below the advertised count.
\<close>

datatype slots_event =
    Reconcile bool bool
  | BindSlot bool ChannelUpdate
  | StoreChannel ChannelUpdate
  | ChannelsBecome "Channel list"
  | Restarted

fun slots_step :: "slots_event \<Rightarrow> slots_state \<Rightarrow> slots_state" where
  "slots_step (Reconcile readable saved) s = ensure_channel_slots readable saved s"
| "slots_step (BindSlot saved u) s = (if vs_loaded s \<and> chu_index u < MAX_VIRTUAL_CHANNEL_SLOTS then snd (bind_slot saved u s) else s)"
| "slots_step (StoreChannel u) s = store_channel u s"
| "slots_step (ChannelsBecome rows) s = s\<lparr>vs_channels := rows\<rparr>"
| "slots_step Restarted s = restart s"

definition table_ok :: "(nat \<Rightarrow> string option) \<Rightarrow> bool" where
  "table_ok f \<longleftrightarrow> (\<forall>i k. f i = Some k \<longrightarrow> i < MAX_VIRTUAL_CHANNEL_SLOTS \<and> upper k = k) \<and> (\<forall>i j k. f i = Some k \<and> f j = Some k \<longrightarrow> i = j)"

definition stored_at :: "slots_state \<Rightarrow> nat \<Rightarrow> string option" where
  "stored_at s i = map_of (stored_slots (vs_stored s)) i"

definition slots_inv :: "slots_state \<Rightarrow> bool" where
  "slots_inv s \<longleftrightarrow> slots_ok (vs_slots s) \<and> table_ok (slot_at (vs_slots s)) \<and> table_ok (stored_at s) \<and> (\<not> vs_loaded s \<longrightarrow> vs_slots s = [])"

text \<open>Reading the table as a function relates it to the database rows.\<close>

lemma slot_at_present: "k \<in> present_keys xs \<longleftrightarrow> (\<exists>i. slot_at xs i = Some k)"
  by (auto simp: slot_at_def in_set_conv_nth split: if_splits)

lemma count_mset_le_1: "count (mset xs) x \<le> 1 \<longleftrightarrow> (\<forall>i < length xs. \<forall>j < length xs. xs ! i = x \<and> xs ! j = x \<longrightarrow> i = j)"
proof (induction xs)
  case (Cons y ys)
  have all: "(\<forall>i < Suc n. P i) \<longleftrightarrow> P 0 \<and> (\<forall>i < n. P (Suc i))" for P and n :: nat
    by (metis Suc_less_eq gr0_implies_Suc zero_less_Suc not_gr0)
  have "x \<notin> set ys \<longleftrightarrow> (\<forall>i < length ys. ys ! i \<noteq> x)" by (auto simp: in_set_conv_nth)
  then show ?case using Cons by (auto simp: all count_eq_zero_iff)
qed simp

lemma slots_ok_table: "slots_ok xs \<longleftrightarrow> length xs \<le> MAX_VIRTUAL_CHANNEL_SLOTS \<and> (\<forall>i j k. slot_at xs i = Some k \<and> slot_at xs j = Some k \<longrightarrow> i = j)"
  by (auto simp: slots_ok_def count_mset_le_1 [unfolded One_nat_def] slot_at_def split: if_splits)

lemma table_ok_slots: "slots_ok xs \<Longrightarrow> (\<And>k. k \<in> present_keys xs \<Longrightarrow> upper k = k) \<Longrightarrow> table_ok (slot_at xs)"
  by (auto simp: table_ok_def slots_ok_table slot_at_present simp del: in_present) (auto simp: slot_at_def split: if_splits)

lemma table_ok_upper: "table_ok (slot_at xs) \<Longrightarrow> k \<in> present_keys xs \<Longrightarrow> upper k = k"
  by (auto simp: table_ok_def slot_at_present simp del: in_present)

lemma stored_replace_all:
  assumes "table_ok (slot_at xs)"
  shows "map_of (stored_slots (replace_all xs)) = slot_at xs"
  using assms by (auto simp: fun_eq_iff map_of_stored map_of_replace_all table_ok_def option.map_comp comp_def intro!: option.map_ident_strong)

lemma known_upper: "k \<in> known_keys rows \<Longrightarrow> upper k = k"
  by (auto simp: known_keys_def)

section \<open>Every step keeps the table sound\<close>

lemma slot_at_load:
  assumes "st \<noteq> []"
  shows "slot_at (map (map_of st) [0..<Suc (Max (fst ` set st))]) = map_of st"
proof
  fix i
  show "slot_at (map (map_of st) [0..<Suc (Max (fst ` set st))]) i = map_of st i"
  proof (cases "i < Suc (Max (fst ` set st))")
    case True
    then show ?thesis by (simp add: slot_at_def nth_map_upt del: upt_Suc)
  next
    case False
    then have "i \<notin> fst ` set st" using Max_ge [of "fst ` set st" i] by (meson List.finite_set finite_imageI le_imp_less_Suc)
    then have "map_of st i = None" by (simp add: map_of_eq_None_iff)
    then show ?thesis using False by (simp add: slot_at_def del: upt_Suc)
  qed
qed

definition table_of :: "slots_state \<Rightarrow> nat \<Rightarrow> string option" where
  "table_of s = (if vs_loaded s then slot_at (vs_slots s) else stored_at s)"

lemma slot_at_Nil: "slot_at [] = (\<lambda>_. None)"
  by (simp add: slot_at_def fun_eq_iff)

lemma load_inv:
  assumes "slots_inv s"
  shows "slots_inv (load_channel_slots r s)" and "r \<Longrightarrow> slot_at (vs_slots (load_channel_slots r s)) = table_of s"
    and "stored_at (load_channel_slots r s) = stored_at s" and "vs_loaded (load_channel_slots r s)"
    and "vs_channels (load_channel_slots r s) = vs_channels s"
proof -
  let ?st = "stored_slots (vs_stored s)"
  have tab: "table_ok (map_of ?st)" using assms unfolding slots_inv_def stored_at_def [abs_def] by simp
  have len: "Suc (Max (fst ` set ?st)) \<le> MAX_VIRTUAL_CHANNEL_SLOTS" if "?st \<noteq> []"
  proof -
    have "Max (fst ` set ?st) \<in> fst ` set ?st" using that by (intro Max_in) auto
    then obtain k where "map_of ?st (Max (fst ` set ?st)) = Some k" by (metis domD dom_map_of_conv_image_fst)
    then show ?thesis using tab unfolding table_ok_def by (simp add: Suc_le_eq)
  qed
  show "slots_inv (load_channel_slots r s)"
    using assms len tab by (auto simp: load_channel_slots_def Let_def slots_inv_def stored_at_def [abs_def] slots_ok_table slot_at_load
        table_ok_def simp del: upt_Suc)
  show "r \<Longrightarrow> slot_at (vs_slots (load_channel_slots r s)) = table_of s"
    using assms by (auto simp: load_channel_slots_def Let_def table_of_def slot_at_load stored_at_def [abs_def] slots_inv_def slot_at_Nil simp del: upt_Suc)
qed (auto simp: load_channel_slots_def Let_def stored_at_def [abs_def])

lemma slots_inv_replace:
  assumes "slots_inv s" and "vs_loaded s" and "slots_ok xs" and "\<And>k. k \<in> present_keys xs \<Longrightarrow> upper k = k"
  shows "slots_inv (s\<lparr>vs_slots := xs\<rparr>)" and "slots_inv (persist_channel_slots sv (s\<lparr>vs_slots := xs\<rparr>))"
    and "sv \<Longrightarrow> stored_at (persist_channel_slots sv (s\<lparr>vs_slots := xs\<rparr>)) = slot_at xs"
  using assms table_ok_slots [OF assms(3,4)] stored_replace_all
  by (auto simp: slots_inv_def persist_channel_slots_def stored_at_def [abs_def])

lemma ensure_slots:
  assumes "slots_inv s"
  shows "slots_inv (ensure_channel_slots r sv s)"
    and "vs_slots (ensure_channel_slots r sv s) = reconcile (known_keys (vs_channels s)) (vs_slots (load_channel_slots r s))"
    and "vs_loaded (ensure_channel_slots r sv s)" and "vs_channels (ensure_channel_slots r sv s) = vs_channels s"
proof -
  let ?s1 = "load_channel_slots r s" and ?r = "reconcile (known_keys (vs_channels s)) (vs_slots (load_channel_slots r s))"
  note l = load_inv [OF assms, of r]
  have ok: "slots_ok ?r" "\<And>k. k \<in> present_keys ?r \<Longrightarrow> upper k = k"
    using reconcile_ok [of "vs_slots ?s1" "known_keys (vs_channels s)"] l(1) known_upper by (auto simp: slots_inv_def simp del: in_present)
  note rep = slots_inv_replace [OF l(1,4) ok]
  show "slots_inv (ensure_channel_slots r sv s)"
    using rep(1,2) l(1,5) by (simp add: ensure_channel_slots_def Let_def)
qed (use load_inv [OF assms, of r] in \<open>simp_all add: ensure_channel_slots_def Let_def persist_channel_slots_def\<close>)

lemma present_update_le: "present_keys (xs[i := v]) \<subseteq> (case v of Some k \<Rightarrow> {k} | None \<Rightarrow> {}) \<union> present_keys xs"
  using set_update_subset_insert [of xs i v] by (auto split: option.splits)

lemma present_replicate [simp]: "present_keys (xs @ replicate n None) = present_keys xs"
  by auto

lemma slots_ok_pad: "slots_ok xs \<Longrightarrow> length xs + n \<le> MAX_VIRTUAL_CHANNEL_SLOTS \<Longrightarrow> slots_ok (xs @ replicate n None)"
  by (simp add: slots_ok_def)

lemma slots_ok_unbind:
  assumes "slots_ok xs" and "Some k \<in> set xs"
  shows "Some k \<notin> set (xs[index_of_slot (Some k) xs := None])"
proof -
  note i = index_of_slot_in [OF assms(2)]
  have "count (mset xs) (Some k) \<le> 1" using assms(1) by (simp add: slots_ok_def)
  then have "count (mset (xs[index_of_slot (Some k) xs := None])) (Some k) = 0" using i by (simp add: mset_update)
  then show ?thesis by (simp add: count_eq_zero_iff)
qed

lemma bind_slot_inv:
  assumes "slots_inv s" and "vs_loaded s" and "chu_index u < MAX_VIRTUAL_CHANNEL_SLOTS"
  shows "slots_inv (snd (bind_slot sv u s))"
proof -
  let ?i = "chu_index u" and ?k = "channel_key u"
  let ?xs = "vs_slots s @ replicate (Suc ?i - length (vs_slots s)) None"
  have ok: "slots_ok ?xs" using assms(1,3) by (intro slots_ok_pad) (auto simp: slots_inv_def slots_ok_def)
  have up: "upper k = k" if "k \<in> present_keys ?xs" for k
    using that assms(1) table_ok_upper [of "vs_slots s"] by (simp add: slots_inv_def del: in_present)
  have upk: "upper ?k = ?k" by (simp add: channel_key_def)
  have clear: "slots_ok (?xs[?i := None])" "\<And>k. k \<in> present_keys (?xs[?i := None]) \<Longrightarrow> upper k = k"
    using slots_ok_update [OF ok] up present_update_le [of ?xs ?i None] by auto
  define ys where "ys = (if Some ?k \<in> set ?xs \<and> index_of_slot (Some ?k) ?xs \<noteq> ?i then ?xs[index_of_slot (Some ?k) ?xs := None] else ?xs)"
  have ys: "slots_ok ys" "present_keys ys \<subseteq> present_keys ?xs" "Some ?k \<in> set ys \<Longrightarrow> index_of_slot (Some ?k) ys = ?i"
    using ok slots_ok_update [OF ok] slots_ok_unbind [OF ok] present_update_le [of ?xs _ None] by (auto simp: ys_def simp del: in_present set_append)
  have "slots_ok (ys[?i := Some ?k])"
  proof (cases "Some ?k \<in> set ys")
    case True
    then show ?thesis using ys(1,3) index_of_slot_in [OF True] by (metis list_update_id)
  qed (use slots_ok_update [OF ys(1)] in blast)
  moreover have "upper k = k" if "k \<in> present_keys (ys[?i := Some ?k])" for k
    using that present_update_le [of ys ?i "Some ?k"] ys(2) up upk by (auto simp del: in_present)
  ultimately show ?thesis using slots_inv_replace [OF assms(1,2) clear] slots_inv_replace [OF assms(1,2), of "ys[?i := Some ?k]"]
    by (simp add: bind_slot_def Let_def ys_def)
qed

lemma slots_step_inv:
  assumes "slots_inv s"
  shows "slots_inv (slots_step e s)"
proof (cases e)
  case (Reconcile r sv)
  then show ?thesis using ensure_slots(1) [OF assms] by simp
next
  case (BindSlot sv u)
  then show ?thesis using bind_slot_inv [OF assms] assms by simp
qed (use assms in \<open>auto simp: store_channel_def Let_def slots_inv_def restart_def stored_at_def [abs_def] slot_at_Nil table_ok_def\<close>)

interpretation slot_table: invariant_machine slots_step slots_inv
  by unfold_locales (rule slots_step_inv)

section \<open>What an app's channel index means\<close>

definition fresh_slots :: "Channel list \<Rightarrow> slots_state" where
  "fresh_slots rows = \<lparr>vs_slots = [], vs_loaded = False, vs_stored = [], vs_channels = rows\<rparr>"

lemma fresh_slots_inv: "slots_inv (fresh_slots rows)"
  by (simp add: fresh_slots_def slots_inv_def stored_at_def [abs_def] stored_slots_def slot_at_Nil table_ok_def)

lemmas run_slots_inv = slot_table.run_inv [OF fresh_slots_inv]

text \<open>C30: After any history of channel changes, app writes, failed or successful database accesses and restarts, a reconciliation
  leaves a slot table of at most 255 slots in which every channel has at most one slot, only existing channels have one, the public
  channel holds slot 0 if it exists, and every channel has a slot as long as there are at most 255.\<close>

theorem slot_table_sound:
  fixes es rows readable saved
  defines "s \<equiv> fold slots_step es (fresh_slots rows)"
  defines "slots \<equiv> vs_slots (ensure_channel_slots readable saved s)" and "known \<equiv> known_keys (vs_channels s)"
  shows "length slots \<le> MAX_VIRTUAL_CHANNEL_SLOTS
    \<and> (\<forall>i j k. slot_at slots i = Some k \<and> slot_at slots j = Some k \<longrightarrow> i = j)
    \<and> present_keys slots \<subseteq> known
    \<and> (PUBLIC_CHANNEL_KEY \<in> known \<longrightarrow> slot_at slots 0 = Some PUBLIC_CHANNEL_KEY)
    \<and> (card known \<le> MAX_VIRTUAL_CHANNEL_SLOTS \<longrightarrow> present_keys slots = known)"
proof -
  let ?l = "vs_slots (load_channel_slots readable s)"
  have inv: "slots_inv s" unfolding s_def by (rule run_slots_inv)
  have ok: "slots_ok ?l" using load_inv(1) [OF inv] by (simp add: slots_inv_def)
  have eq: "slots = reconcile known ?l" unfolding slots_def known_def by (rule ensure_slots(2) [OF inv])
  have fin: "finite known" by (simp add: known_def)
  show ?thesis
    using reconcile_ok [OF ok fin] reconcile_complete [OF ok fin] reconcile_public [OF ok fin] slots_ok_table [of slots]
    unfolding eq [symmetric] by (simp add: slot_at_def del: in_present)
qed

text \<open>What disturbs the assignment of slot \<open>i\<close> to the channel \<open>k\<close>: an app binding that slot or that channel, the deletion of the
  channel, and a failure to read the saved table.\<close>

fun undisturbed :: "nat \<Rightarrow> string \<Rightarrow> slots_event \<Rightarrow> bool" where
  "undisturbed i k (Reconcile readable saved) \<longleftrightarrow> readable"
| "undisturbed i k (BindSlot saved u) \<longleftrightarrow> chu_index u \<noteq> i \<and> channel_key u \<noteq> k"
| "undisturbed i k (StoreChannel u) \<longleftrightarrow> True"
| "undisturbed i k (ChannelsBecome rows) \<longleftrightarrow> k \<in> known_keys rows"
| "undisturbed i k Restarted \<longleftrightarrow> True"

definition assigned :: "nat \<Rightarrow> string \<Rightarrow> slots_state \<Rightarrow> bool" where
  "assigned i k s \<longleftrightarrow> slots_inv s \<and> stored_at s i = Some k \<and> (vs_loaded s \<longrightarrow> slot_at (vs_slots s) i = Some k) \<and> k \<in> known_keys (vs_channels s)"

lemma known_map: "(\<And>r. cn_key (f r) = cn_key r) \<Longrightarrow> known_keys (map f rows) = known_keys rows"
  by (simp add: known_keys_def image_image)

lemma upsert_known: "k \<in> known_keys rows \<Longrightarrow> k \<in> known_keys (channel_upsert key nm h r rows)"
  by (auto simp: channel_upsert_def known_map) (simp add: known_keys_def)

lemma ensure_keeps:
  assumes "assigned i k s" and "0 < i" and "k \<noteq> PUBLIC_CHANNEL_KEY"
  shows "slot_at (vs_slots (ensure_channel_slots True sv s)) i = Some k" and "assigned i k (ensure_channel_slots True sv s)"
proof -
  have inv: "slots_inv s" and known: "k \<in> known_keys (vs_channels s)" using assms(1) by (simp_all add: assigned_def)
  note l = load_inv [OF inv, of True]
  have "slot_at (vs_slots (load_channel_slots True s)) i = Some k" using l(2) assms(1) by (simp add: table_of_def assigned_def)
  then show at: "slot_at (vs_slots (ensure_channel_slots True sv s)) i = Some k"
    using reconcile_keeps [of "vs_slots (load_channel_slots True s)" "known_keys (vs_channels s)" i k] l(1) assms(2,3) known
      ensure_slots(2) [OF inv, of True sv]
    by (auto simp: slots_inv_def slot_at_def split: if_splits)
  have "stored_at (ensure_channel_slots True sv s) i = Some k"
  proof (cases "vs_slots (ensure_channel_slots True sv s) \<noteq> vs_slots (load_channel_slots True s) \<and> sv")
    case True
    have "table_ok (slot_at (vs_slots (ensure_channel_slots True sv s)))" using ensure_slots(1) [OF inv] by (simp add: slots_inv_def)
    moreover have "vs_stored (ensure_channel_slots True sv s) = replace_all (vs_slots (ensure_channel_slots True sv s))"
      using True by (auto simp: ensure_channel_slots_def persist_channel_slots_def Let_def split: if_splits)
    ultimately show ?thesis using at stored_replace_all by (simp add: stored_at_def)
  next
    case False
    then have "stored_at (ensure_channel_slots True sv s) = stored_at s"
      using l(3) by (auto simp: ensure_channel_slots_def persist_channel_slots_def Let_def stored_at_def [abs_def] split: if_splits)
    then show ?thesis using assms(1) by (simp add: assigned_def)
  qed
  then show "assigned i k (ensure_channel_slots True sv s)"
    using at ensure_slots [OF inv] known by (simp add: assigned_def)
qed

lemma bind_keeps:
  assumes "assigned i k s" and "vs_loaded s" and "chu_index u < MAX_VIRTUAL_CHANNEL_SLOTS" and "chu_index u \<noteq> i" and "channel_key u \<noteq> k"
  shows "assigned i k (snd (bind_slot sv u s))"
proof -
  have inv: "slots_inv s" and at: "slot_at (vs_slots s) i = Some k" using assms(1,2) by (simp_all add: assigned_def)
  let ?s = "snd (bind_slot sv u s)" and ?xs = "vs_slots s @ replicate (Suc (chu_index u) - length (vs_slots s)) None"
  have i: "i < length ?xs" "?xs ! i = Some k" using at by (auto simp: slot_at_def nth_append split: if_splits)
  have "index_of_slot (Some (channel_key u)) ?xs \<noteq> i" if "Some (channel_key u) \<in> set ?xs"
    using index_of_slot_in [OF that] i assms(5) by auto
  then have at': "slot_at (vs_slots ?s) i = Some k"
    using i assms(4) by (auto simp: bind_slot_def Let_def slot_at_def persist_channel_slots_def nth_list_update simp del: set_append)
  have "stored_at ?s i = Some k"
  proof (cases "vs_stored ?s = replace_all (vs_slots ?s)")
    case True
    have "table_ok (slot_at (vs_slots ?s))" using bind_slot_inv [OF inv assms(2,3)] by (simp add: slots_inv_def)
    then show ?thesis using True at' stored_replace_all by (simp add: stored_at_def)
  next
    case False
    then have "vs_stored ?s = vs_stored s" by (auto simp: bind_slot_def Let_def persist_channel_slots_def split: if_splits)
    then show ?thesis using assms(1) by (simp add: assigned_def stored_at_def)
  qed
  then show ?thesis using at' bind_slot_inv [OF inv assms(2,3)] assms(1)
    by (auto simp: assigned_def bind_slot_def Let_def persist_channel_slots_def)
qed

lemma step_keeps:
  assumes "assigned i k s" and "0 < i" and "k \<noteq> PUBLIC_CHANNEL_KEY" and "undisturbed i k e"
  shows "assigned i k (slots_step e s)"
proof (cases e)
  case (Reconcile r sv)
  then show ?thesis using ensure_keeps [OF assms(1-3)] assms(4) by simp
next
  case (BindSlot sv u)
  then show ?thesis using bind_keeps [OF assms(1)] assms by simp
next
  case (StoreChannel u)
  then show ?thesis using assms(1) slots_step_inv [of s e] upsert_known by (auto simp: assigned_def store_channel_def Let_def stored_at_def)
next
  case (ChannelsBecome rows)
  then show ?thesis using assms slots_step_inv [of s e] by (auto simp: assigned_def stored_at_def)
next
  case Restarted
  then show ?thesis using assms(1) slots_step_inv [of s e] by (auto simp: assigned_def restart_def stored_at_def)
qed

lemma run_keeps:
  "assigned i k s \<Longrightarrow> 0 < i \<Longrightarrow> k \<noteq> PUBLIC_CHANNEL_KEY \<Longrightarrow> list_all (undisturbed i k) es \<Longrightarrow> assigned i k (fold slots_step es s)"
  by (induction es arbitrary: s) (simp_all add: step_keeps)

lemma index_of_slot_unique:
  assumes "slots_ok xs" and "slot_at xs i = Some k"
  shows "index_of_slot (Some k) xs = i"
proof -
  have "Some k \<in> set xs" using assms(2) slot_at_present [of k xs] by auto
  from index_of_slot_in [OF this] have "slot_at xs (index_of_slot (Some k) xs) = Some k" by (simp add: slot_at_def)
  then show ?thesis using assms unfolding slots_ok_table by blast
qed

lemma slot_for_assigned:
  assumes "assigned i k s" and "0 < i" and "k \<noteq> PUBLIC_CHANNEL_KEY" and "upper k = k"
  shows "fst (slot_for_channel True sv k s) = Some i"
proof -
  let ?s = "if Some k \<notin> set (vs_slots s) then ensure_channel_slots True sv s else s"
  have "slots_inv ?s \<and> slot_at (vs_slots ?s) i = Some k"
  proof (cases "Some k \<in> set (vs_slots s)")
    case True
    then have "vs_loaded s" using assms(1) by (auto simp: assigned_def slots_inv_def)
    then show ?thesis using True assms(1) by (simp add: assigned_def)
  next
    case False
    then show ?thesis using ensure_keeps [OF assms(1-3), of sv] by (simp add: assigned_def)
  qed
  moreover then have "Some k \<in> set (vs_slots ?s)" using slot_at_present [of k "vs_slots ?s"] by auto
  ultimately show ?thesis using index_of_slot_unique [of "vs_slots ?s" i k] assms(4)
    by (auto simp: slot_for_channel_def Let_def slots_inv_def)
qed

definition demo_channel :: "string \<Rightarrow> Channel" where
  "demo_channel k = \<lparr>cn_key = k, cn_name = [], cn_is_hashtag = False, cn_on_radio = False\<rparr>"

definition demo_slots :: slots_state where
  "demo_slots = ensure_channel_slots True True (fresh_slots [demo_channel PUBLIC_CHANNEL_KEY, demo_channel ''AA'', demo_channel ''BB''])"

text \<open>C11: A channel keeps its slot: once channel \<open>k\<close> (not the public one) has been saved in a slot \<open>i > 0\<close>, it is still found in that
  slot after any sequence of reconciliations, failed saves, restarts, channels created or deleted, and app writes to other slots
  and channels.\<close>

theorem slot_stable:
  assumes "assigned i k s" and "0 < i" and "k \<noteq> PUBLIC_CHANNEL_KEY" and "list_all (undisturbed i k) es"
  shows "fst (slot_for_channel True saved k (fold slots_step es s)) = Some i
    \<and> slot_at (vs_slots (ensure_channel_slots True saved (fold slots_step es s))) i = Some k"
proof -
  have a: "assigned i k (fold slots_step es s)" by (rule run_keeps [OF assms])
  have "upper k = k" using assms(1) known_upper by (auto simp: assigned_def)
  then show ?thesis using slot_for_assigned [OF a assms(2,3)] ensure_keeps(1) [OF a assms(2,3)] by simp
qed

lemma demo_assigned: "assigned 2 ''BB'' demo_slots"
proof -
  have "slots_inv demo_slots" unfolding demo_slots_def by (rule ensure_slots(1) [OF fresh_slots_inv])
  moreover have "stored_at demo_slots 2 = Some ''BB''" "slot_at (vs_slots demo_slots) 2 = Some ''BB''" "''BB'' \<in> known_keys (vs_channels demo_slots)" by code_simp+
  ultimately show ?thesis by (simp add: assigned_def)
qed

theorem slot_stable_witness:
  "fst (slot_for_channel True True ''BB''
     (fold slots_step [ChannelsBecome [demo_channel ''BB'', demo_channel ''A0''], Reconcile True True, Restarted, Reconcile True False] demo_slots)) = Some 2"
proof (rule slot_stable [OF demo_assigned, THEN conjunct1])
  show "list_all (undisturbed 2 ''BB'') [ChannelsBecome [demo_channel ''BB'', demo_channel ''A0''], Reconcile True True, Restarted, Reconcile True False]"
    by code_simp
qed (simp_all add: PUBLIC_CHANNEL_KEY_def)

theorem slot_table_sound_witness:
  "PUBLIC_CHANNEL_KEY \<in> known_keys (vs_channels (fold slots_step [Restarted, Reconcile True False, ChannelsBecome [demo_channel ''BB'', demo_channel PUBLIC_CHANNEL_KEY]] (fresh_slots [demo_channel ''AA''])))
   \<and> slot_at (vs_slots (ensure_channel_slots True True
       (fold slots_step [Restarted, Reconcile True False, ChannelsBecome [demo_channel ''BB'', demo_channel PUBLIC_CHANNEL_KEY]] (fresh_slots [demo_channel ''AA''])))) 0 = Some PUBLIC_CHANNEL_KEY"
proof -
  let ?es = "[Restarted, Reconcile True False, ChannelsBecome [demo_channel ''BB'', demo_channel PUBLIC_CHANNEL_KEY]]"
  have "PUBLIC_CHANNEL_KEY \<in> known_keys (vs_channels (fold slots_step ?es (fresh_slots [demo_channel ''AA''])))" by code_simp
  then show ?thesis using slot_table_sound [where es = ?es and rows = "[demo_channel ''AA'']" and readable = True and saved = True] by blast
qed

text \<open>A blank slot at the end of the table does not survive a restart: after channel \<open>BB\<close> in slot 2 is deleted and the process
  restarts, the next new channel takes slot 2, although the table is far from full. An app that cached the index sends to the wrong
  channel.\<close>

theorem blank_slot_reused_after_restart:
  "vs_slots demo_slots ! 2 = Some ''BB''
   \<and> vs_slots (fold slots_step
       [ChannelsBecome [demo_channel PUBLIC_CHANNEL_KEY, demo_channel ''AA''], Reconcile True True, Restarted,
        ChannelsBecome [demo_channel PUBLIC_CHANNEL_KEY, demo_channel ''AA'', demo_channel ''CC''], Reconcile True True] demo_slots) ! 2 = Some ''CC''"
  by code_simp

definition demo_update :: ChannelUpdate where
  "demo_update = \<lparr>chu_index = 5, chu_name = [35, 99], chu_secret = replicate 16 7\<rparr>"

text \<open>An app's channel write is lost when a reconciliation runs between its two halves: the new channel's slot is blanked before the
  channel is stored, so the channel ends up in another slot than the one the app was told OK for. Run without interruption, the same
  write binds the requested slot.\<close>

theorem set_channel_race:
  "vs_slots (fold slots_step [BindSlot True demo_update, StoreChannel demo_update, Reconcile True True] demo_slots) ! 5 = Some (channel_key demo_update)
   \<and> vs_slots (fold slots_step [BindSlot True demo_update, Reconcile True True, StoreChannel demo_update, Reconcile True True] demo_slots) ! 5 = None
   \<and> vs_slots (fold slots_step [BindSlot True demo_update, Reconcile True True, StoreChannel demo_update, Reconcile True True] demo_slots) ! 6 = Some (channel_key demo_update)"
  by code_simp

end
