(* ===== verification/VnHistory.thy ===== *)
theory VnHistory
  imports VnSlots
begin

text \<open>
  The message history of the apps on the virtual node (the session part of \<open>src/app/virtual_node/server.py\<close>,
  \<open>src/app/repository/virtual_node_clients.py\<close> and the two history queries of
  \<open>src/app/repository/messages.py\<close>): the bounded inbox of a session, its cursor, the replay of what a
  returning app missed, and how the cursor is written back. The frame of a message is an argument
  \<open>fr\<close>, the value of \<open>_frame_for_message\<close> (\<open>frame_for_message\<close> below).
\<close>

section \<open>Messages\<close>

definition MAX_QUEUED_MESSAGES :: nat where "MAX_QUEUED_MESSAGES = 500"
definition APP_START_NAME_OFFSET :: nat where "APP_START_NAME_OFFSET = 7"

datatype message_type = PRIV | CHAN | OtherType

record server_message = stored_message +
  hm_id :: int
  hm_type :: message_type
  hm_outgoing :: bool
  hm_is_reaction :: bool

text \<open>\<open>LOCAL_MARKER_PREFIXES\<close>: the texts aeib: and mediax:.\<close>

definition LOCAL_MARKER_PREFIXES :: "ustr list" where
  "LOCAL_MARKER_PREFIXES = map (map of_char) [''aeib:'', ''mediax:'']"

definition is_local_marker :: "ustr option \<Rightarrow> bool" where
  "is_local_marker text = (case text of None \<Rightarrow> False | Some t \<Rightarrow> t \<noteq> [] \<and> list_ex (\<lambda>p. starts_with p t) LOCAL_MARKER_PREFIXES)"

definition frame_for_message :: "packet_codes \<Rightarrow> bool \<Rightarrow> bool \<Rightarrow> server_message \<Rightarrow> slots_state \<Rightarrow> bytes option res \<times> slots_state" where
  "frame_for_message pt readable saved m s =
     (if is_local_marker (sm_text m) then (Inr None, s)
      else case hm_type m of
             PRIV \<Rightarrow> (encode_contact_message pt (stored_message.truncate m), s)
           | CHAN \<Rightarrow>
               (let key = get_or [] (sm_conversation_key m)
                in if key = [] then (Inr None, s)
                   else case slot_for_channel readable saved key s of
                          (None, s1) \<Rightarrow> (Inr None, s1)
                        | (Some slot, s1) \<Rightarrow> (bind_res (encode_channel_message pt (stored_message.truncate m) (int slot)) (\<lambda>f. Inr (Some f)), s1))
           | OtherType \<Rightarrow> (Inr None, s))"

definition get_latest_id :: "server_message list \<Rightarrow> int" where
  "get_latest_id rows = fold (\<lambda>m n. max n (hm_id m)) rows 0"

definition incoming :: "server_message \<Rightarrow> bool" where
  "incoming m \<longleftrightarrow> \<not> hm_outgoing m \<and> \<not> hm_is_reaction m"

definition get_incoming_after_id :: "int \<Rightarrow> int \<Rightarrow> server_message list \<Rightarrow> server_message list \<times> nat" where
  "get_incoming_after_id after_id limit rows =
     (if limit \<le> 0 then ([], 0)
      else
        let found = sort_key hm_id (filter (\<lambda>m. hm_id m > after_id \<and> incoming m) rows);
            messages = drop (length found - nat limit) found
        in (messages, length found - length messages))"

section \<open>The cursors of the apps\<close>

record VirtualNodeClient =
  vc_app_name :: ustr
  vc_peer_host :: ustr
  vc_last_message_id :: int
  vc_first_seen :: int
  vc_last_seen :: int
  vc_connections :: nat

type_synonym client_table = "ustr \<Rightarrow> VirtualNodeClient option"

definition record_connection :: "ustr \<Rightarrow> ustr \<Rightarrow> ustr \<Rightarrow> int \<Rightarrow> int \<Rightarrow> client_table \<Rightarrow> VirtualNodeClient \<times> client_table" where
  "record_connection client_id app_name peer_host now initial_message_id table =
     (let row = (case table client_id of
                   None \<Rightarrow> \<lparr>vc_app_name = app_name, vc_peer_host = peer_host, vc_last_message_id = initial_message_id,
                            vc_first_seen = now, vc_last_seen = now, vc_connections = 1\<rparr>
                 | Some r \<Rightarrow> r\<lparr>vc_app_name := app_name, vc_peer_host := peer_host, vc_last_seen := now,
                               vc_connections := vc_connections r + 1\<rparr>)
      in (row, table(client_id \<mapsto> row)))"

definition advance_cursor :: "ustr \<Rightarrow> int \<Rightarrow> int \<Rightarrow> client_table \<Rightarrow> client_table" where
  "advance_cursor client_id last_message_id now table =
     (case table client_id of
        None \<Rightarrow> table
      | Some r \<Rightarrow> table(client_id \<mapsto> r\<lparr>vc_last_message_id := max (vc_last_message_id r) last_message_id, vc_last_seen := now\<rparr>))"

section \<open>A session\<close>

record ClientSession =
  se_peer_host :: ustr
  se_inbox :: "(int option \<times> bytes) list"
  se_app_started :: bool
  se_app_name :: ustr
  se_client_id :: "ustr option"
  se_cursor :: int
  se_cursor_dirty :: bool
  se_persist_pending :: bool
  se_replayed :: nat

definition new_session :: "ustr \<Rightarrow> ClientSession" where
  "new_session host =
     \<lparr>se_peer_host = host, se_inbox = [], se_app_started = False, se_app_name = [], se_client_id = None, se_cursor = 0,
      se_cursor_dirty = False, se_persist_pending = False, se_replayed = 0\<rparr>"

text \<open>\<open>deque(maxlen=500).append\<close>.\<close>

definition inbox_append :: "int option \<times> bytes \<Rightarrow> ClientSession \<Rightarrow> ClientSession" where
  "inbox_append x s = s\<lparr>se_inbox := drop (Suc (length (se_inbox s)) - MAX_QUEUED_MESSAGES) (se_inbox s @ [x])\<rparr>"

definition note_delivered :: "int option \<Rightarrow> ClientSession \<Rightarrow> ClientSession" where
  "note_delivered message_id s =
     (case message_id of
        None \<Rightarrow> s
      | Some m \<Rightarrow> if m \<le> se_cursor s then s else s\<lparr>se_cursor := m, se_cursor_dirty := True, se_persist_pending := True\<rparr>)"

text \<open>A failed write is only logged, and the cursor stays dirty.\<close>

definition persist_cursor :: "bool \<Rightarrow> int \<Rightarrow> ClientSession \<Rightarrow> client_table \<Rightarrow> ClientSession \<times> client_table" where
  "persist_cursor written now s table =
     (case se_client_id s of
        None \<Rightarrow> (s, table)
      | Some c \<Rightarrow>
          if \<not> se_cursor_dirty s \<or> \<not> written then (s, table)
          else (s\<lparr>se_cursor_dirty := False\<rparr>, advance_cursor c (se_cursor s) now table))"

definition persist_cursor_later :: "bool \<Rightarrow> int \<Rightarrow> ClientSession \<Rightarrow> client_table \<Rightarrow> ClientSession \<times> client_table" where
  "persist_cursor_later written now s table =
     (if se_persist_pending s
      then (case persist_cursor written now s table of (s1, t1) \<Rightarrow> (s1\<lparr>se_persist_pending := False\<rparr>, t1))
      else (s, table))"

definition strip_name :: "ustr \<Rightarrow> ustr" where
  "strip_name s = (let junk = (\<lambda>c. c \<in> {0, 32, 9, 13, 10}) in rev (dropWhile junk (rev (dropWhile junk s))))"

definition or_unknown :: "ustr \<Rightarrow> ustr" where
  "or_unknown s = (if s = [] then map of_char ''unknown'' else s)"

definition app_name_of :: "bytes \<Rightarrow> ustr" where
  "app_name_of payload = take 64 (strip_name (utf8_decode_ignore (drop APP_START_NAME_OFFSET payload)))"

definition client_id_of :: "bytes \<Rightarrow> ustr \<Rightarrow> ustr" where
  "client_id_of payload host = or_unknown (app_name_of payload) @ [64] @ or_unknown host"

text \<open>The frames of the missed messages, queued in order.\<close>

definition replay :: "(server_message \<Rightarrow> bytes option) \<Rightarrow> server_message list \<Rightarrow> ClientSession \<Rightarrow> ClientSession" where
  "replay fr missed s =
     fold (\<lambda>m s. case fr m of None \<Rightarrow> s | Some frame \<Rightarrow> inbox_append (Some (hm_id m), frame) s) missed s"

definition start_app_session ::
  "packet_codes \<Rightarrow> (server_message \<Rightarrow> bytes option) \<Rightarrow> int \<Rightarrow> bool \<Rightarrow> int \<Rightarrow> bytes \<Rightarrow> bytes \<Rightarrow> ClientSession \<Rightarrow> server_message list \<Rightarrow> client_table
     \<Rightarrow> bytes list \<times> ClientSession \<times> client_table" where
  "start_app_session pt fr replay_limit readable now self_info payload s rows table =
     (if se_app_started s then ([self_info], s, table)
      else
        let name = app_name_of payload;
            cid = client_id_of payload (se_peer_host s);
            s1 = s\<lparr>se_app_started := True, se_app_name := name, se_client_id := Some cid\<rparr>;
            latest = get_latest_id rows
        in if \<not> readable then ([self_info], s1, table)
        else
          case record_connection cid name (se_peer_host s) now latest table of (row, table1) \<Rightarrow>
          let s2 = s1\<lparr>se_cursor := vc_last_message_id row, se_inbox := []\<rparr>;
              s3 = (if vc_connections row > 1 \<and> replay_limit > 0 \<and> vc_last_message_id row < latest then
                      (case get_incoming_after_id (vc_last_message_id row) replay_limit rows of (missed, skipped) \<Rightarrow>
                         let r = replay fr missed s2; r1 = r\<lparr>se_replayed := length (se_inbox r)\<rparr>
                         in if skipped \<noteq> 0
                            then note_delivered (Some (if missed \<noteq> [] then hm_id (hd missed) - 1 else latest)) r1
                            else r1)
                    else s2)
          in (self_info # (if se_inbox s3 \<noteq> [] then [encode_push_msg_waiting pt] else []), s3, table1))"

text \<open>\<open>SYNC_NEXT_MESSAGE\<close>.\<close>

definition sync_next_message :: "packet_codes \<Rightarrow> ClientSession \<Rightarrow> bytes \<times> ClientSession" where
  "sync_next_message pt s =
     (case se_inbox s of
        [] \<Rightarrow> (encode_no_more_messages pt, s)
      | (message_id, frame) # rest \<Rightarrow> (frame, note_delivered message_id (s\<lparr>se_inbox := rest\<rparr>)))"

text \<open>\<open>on_app_event\<close> for a message, with \<open>_enqueue_message\<close> and \<open>_enqueue_for_all\<close>: the sessions and the push each of them gets.\<close>

definition enqueue_for_all :: "packet_codes \<Rightarrow> bytes \<Rightarrow> int option \<Rightarrow> ClientSession list \<Rightarrow> ClientSession list \<times> bytes list" where
  "enqueue_for_all pt frame message_id sessions =
     (map (inbox_append (message_id, frame)) sessions, map (\<lambda>_. encode_push_msg_waiting pt) sessions)"

definition on_message_event :: "packet_codes \<Rightarrow> (server_message \<Rightarrow> bytes option) \<Rightarrow> server_message \<Rightarrow> ClientSession list \<Rightarrow> ClientSession list \<times> bytes list" where
  "on_message_event pt fr m sessions =
     (if sessions = [] \<or> hm_outgoing m \<or> hm_is_reaction m then (sessions, [])
      else case fr m of None \<Rightarrow> (sessions, []) | Some frame \<Rightarrow> enqueue_for_all pt frame (Some (hm_id m)) sessions)"

section \<open>What a returning app receives\<close>

text \<open>The app pulls until it is told that there are no more messages.\<close>

fun drain :: "nat \<Rightarrow> packet_codes \<Rightarrow> ClientSession \<Rightarrow> bytes list \<times> ClientSession" where
  "drain 0 pt s = ([], s)"
| "drain (Suc n) pt s =
     (case sync_next_message pt s of (frame, s1) \<Rightarrow> case drain n pt s1 of (frames, s2) \<Rightarrow> (frame # frames, s2))"

text \<open>The specification: what an app with a given cursor has yet to receive.\<close>

definition pending_for :: "(server_message \<Rightarrow> bytes option) \<Rightarrow> server_message list \<Rightarrow> int \<Rightarrow> server_message list" where
  "pending_for fr rows c = filter (\<lambda>m. hm_id m > c \<and> incoming m \<and> fr m \<noteq> None) rows"

definition newest :: "nat \<Rightarrow> 'a list \<Rightarrow> 'a list" where
  "newest n xs = drop (length xs - n) xs"

text \<open>Of the incoming messages it missed, the newest the replay limit allows; of those with a frame, the newest 500.\<close>

definition replayable :: "(server_message \<Rightarrow> bytes option) \<Rightarrow> int \<Rightarrow> server_message list \<Rightarrow> server_message list" where
  "replayable fr limit missed = newest MAX_QUEUED_MESSAGES (filter (\<lambda>m. fr m \<noteq> None) (newest (nat limit) (filter incoming missed)))"

definition entry :: "(server_message \<Rightarrow> bytes option) \<Rightarrow> server_message \<Rightarrow> int option \<times> bytes" where
  "entry fr m = (Some (hm_id m), the (fr m))"

definition inbox_exact :: "(server_message \<Rightarrow> bytes option) \<Rightarrow> server_message list \<Rightarrow> ClientSession \<Rightarrow> bool" where
  "inbox_exact fr rows s \<longleftrightarrow> se_inbox s = map (entry fr) (newest MAX_QUEUED_MESSAGES (pending_for fr rows (se_cursor s)))"

definition ascending :: "server_message list \<Rightarrow> bool" where
  "ascending rows \<longleftrightarrow> sorted_wrt (\<lambda>a b. hm_id a < hm_id b) rows"

subsection \<open>The bounded queue\<close>

lemma newest_append: "newest n (newest n xs @ [x]) = newest n (xs @ [x])"
  by (cases "length xs \<le> n") (simp_all add: newest_def Suc_diff_le)

lemma newest_map: "newest n (map f xs) = map f (newest n xs)"
  by (simp add: newest_def drop_map)

lemma newest_short [simp]: "length xs \<le> n \<Longrightarrow> newest n xs = xs"
  by (simp add: newest_def)

lemma inbox_append_newest [simp]: "se_inbox (inbox_append x s) = newest MAX_QUEUED_MESSAGES (se_inbox s @ [x])"
  by (simp add: inbox_append_def newest_def)

lemma inbox_append_rest [simp]:
  "se_cursor (inbox_append x s) = se_cursor s" "se_client_id (inbox_append x s) = se_client_id s"
  "se_cursor_dirty (inbox_append x s) = se_cursor_dirty s"
  by (simp_all add: inbox_append_def)

lemma replay_inbox:
  "se_inbox s = newest MAX_QUEUED_MESSAGES xs \<Longrightarrow>
     se_inbox (replay fr ms s) = newest MAX_QUEUED_MESSAGES (xs @ map (entry fr) (filter (\<lambda>m. fr m \<noteq> None) ms))"
proof (induction ms arbitrary: s xs)
  case (Cons m ms)
  show ?case
  proof (cases "fr m")
    case None
    then show ?thesis using Cons by (simp add: replay_def)
  next
    case (Some f)
    have "se_inbox (inbox_append (Some (hm_id m), f) s) = newest MAX_QUEUED_MESSAGES (xs @ [entry fr m])"
      using Cons.prems Some by (simp add: newest_append entry_def)
    from Cons.IH [OF this] show ?thesis using Some by (simp add: replay_def)
  qed
qed (simp add: replay_def)

lemma replay_rest [simp]: "se_cursor (replay fr ms s) = se_cursor s" "se_client_id (replay fr ms s) = se_client_id s"
    "se_cursor_dirty (replay fr ms s) = se_cursor_dirty s"
  by (induction ms arbitrary: s) (auto simp: replay_def split: option.splits)

subsection \<open>The rows\<close>

lemma latest_ge: "m \<in> set rows \<Longrightarrow> hm_id m \<le> get_latest_id rows"
proof -
  have "m \<in> set rows \<Longrightarrow> hm_id m \<le> fold (\<lambda>m n. max n (hm_id m)) rows a" for a
  proof (induction rows arbitrary: a)
    case (Cons r rs)
    have mono: "b \<le> fold (\<lambda>m n. max n (hm_id m)) rs b" for b
      by (induction rs arbitrary: b) (auto intro: order_trans [OF max.cobounded1])
    show ?case using Cons mono [of "max a (hm_id r)"] by auto
  qed simp
  then show "m \<in> set rows \<Longrightarrow> hm_id m \<le> get_latest_id rows" by (simp add: get_latest_id_def)
qed

lemma latest_cases: "get_latest_id rows = 0 \<or> (\<exists>m \<in> set rows. hm_id m = get_latest_id rows)"
proof -
  have "fold (\<lambda>m n. max n (hm_id m)) rows a = a \<or> (\<exists>m \<in> set rows. hm_id m = fold (\<lambda>m n. max n (hm_id m)) rows a)" for a
  proof (induction rows arbitrary: a)
    case (Cons r rs)
    show ?case using Cons [of "max a (hm_id r)"] by (auto simp: max_def)
  qed simp
  then show ?thesis by (simp add: get_latest_id_def)
qed

lemma sort_ascending: "ascending rows \<Longrightarrow> sort_key hm_id (filter P rows) = filter P rows"
proof -
  assume "ascending rows"
  then have "sorted_wrt (\<lambda>a b. hm_id a < hm_id b) (filter P rows)" by (simp add: ascending_def sorted_wrt_filter)
  then have "sorted (map hm_id (filter P rows))" unfolding sorted_map by (rule sorted_wrt_mono_rel [rotated]) simp
  then show ?thesis by (rule sort_key_id_if_sorted)
qed

lemma pending_latest: "get_latest_id rows \<le> c \<Longrightarrow> pending_for fr rows c = []"
  using latest_ge by (fastforce simp: pending_for_def filter_empty_conv)

lemma pending_after_head:
  assumes "ascending rows" and "pending_for fr rows c = ms @ m # rest"
  shows "pending_for fr rows (hm_id m) = rest"
proof -
  have "sorted_wrt (\<lambda>a b. hm_id a < hm_id b) (ms @ m # rest)"
    using assms by (simp add: ascending_def flip: assms(2)) (simp add: pending_for_def sorted_wrt_filter)
  then have lt: "\<forall>x\<in>set ms. hm_id x < hm_id m" "\<forall>x\<in>set rest. hm_id m < hm_id x" by (auto simp: sorted_wrt_append)
  have "m \<in> set (pending_for fr rows c)" using assms(2) by simp
  then have "c < hm_id m" by (simp add: pending_for_def)
  then have "pending_for fr rows (hm_id m) = filter (\<lambda>x. hm_id x > hm_id m) (pending_for fr rows c)"
    by (auto simp: pending_for_def intro!: filter_cong)
  also have "\<dots> = rest" unfolding assms(2) using lt by (auto simp: filter_empty_conv filter_id_conv)
  finally show ?thesis .
qed

subsection \<open>Starting a session\<close>

lemma missed_pending:
  assumes asc: "ascending rows" and lim: "limit > 0" and get: "get_incoming_after_id c limit rows = (missed, skipped)"
  shows "if skipped = 0 then filter (\<lambda>m. fr m \<noteq> None) missed = pending_for fr rows c
     else missed \<noteq> [] \<and> c < hm_id (hd missed) - 1 \<and> filter (\<lambda>m. fr m \<noteq> None) missed = pending_for fr rows (hm_id (hd missed) - 1)"
proof -
  define found where "found = filter (\<lambda>m. hm_id m > c \<and> incoming m) rows"
  have f: "missed = drop (length found - nat limit) found" "skipped = length found - length missed"
    using get lim sort_ascending [OF asc, of "\<lambda>m. hm_id m > c \<and> incoming m"]
    by (auto simp: get_incoming_after_id_def Let_def simp flip: found_def)
  have p: "pending_for fr rows c = filter (\<lambda>m. fr m \<noteq> None) found"
    by (auto simp: pending_for_def found_def conj_commute conj_left_commute intro!: filter_cong)
  show ?thesis
  proof (cases "skipped = 0")
    case True
    then have "missed = found" using f by simp
    then show ?thesis using True p by simp
  next
    case False
    then have "nat limit < length found" using f by (auto simp: not_less)
    then obtain pre m rest where split: "found = pre @ m # rest" "missed = m # rest" "pre \<noteq> []"
      using f(1) lim by (metis (no_types, opaque_lifting) Cons_nth_drop_Suc append_take_drop_id diff_less take_eq_Nil zero_less_diff
          length_greater_0_conv less_nat_zero_code less_numeral_extra(3) list.size(3) zero_less_nat_eq)
    have "sorted_wrt (\<lambda>a b. hm_id a < hm_id b) found" using asc by (simp add: ascending_def found_def sorted_wrt_filter)
    then have lt: "\<forall>x\<in>set pre. hm_id x < hm_id m" "\<forall>x\<in>set rest. hm_id m < hm_id x" by (auto simp: split sorted_wrt_append)
    have "\<forall>x\<in>set found. c < hm_id x" by (simp add: found_def)
    then have c: "c < hm_id m - 1" using lt(1) split(1,3) by (cases pre) auto
    have "pending_for fr rows (hm_id m - 1) = filter (\<lambda>x. fr x \<noteq> None) (filter (\<lambda>x. hm_id x > hm_id m - 1) found)"
      using c by (auto simp: pending_for_def found_def intro!: filter_cong)
    also have "filter (\<lambda>x. hm_id x > hm_id m - 1) found = missed"
    proof -
      have "filter (\<lambda>x. hm_id x > hm_id m - 1) pre = []" "filter (\<lambda>x. hm_id x > hm_id m - 1) rest = rest"
        using lt by (force simp: filter_empty_conv, force simp: filter_id_conv)
      then show ?thesis by (simp add: split)
    qed
    finally show ?thesis using False split c by simp
  qed
qed

lemma missed_rows: "get_incoming_after_id c limit rows = (missed, skipped) \<Longrightarrow> set missed \<subseteq> set rows"
  using set_drop_subset by (fastforce simp: get_incoming_after_id_def Let_def split: if_splits)

lemma start_session:
  assumes asc: "ascending rows" and lim: "limit > 0"
    and start: "start_app_session pt fr limit True now info payload (new_session host) rows table = (fs, s, table')"
    and conn: "\<And>r. table (client_id_of payload host) = Some r \<Longrightarrow> vc_connections r \<ge> 1 \<and> vc_last_message_id r \<le> get_latest_id rows"
  defines "cid \<equiv> client_id_of payload host"
  shows "inbox_exact fr rows s \<and> se_client_id s = Some cid \<and> se_cursor s \<le> get_latest_id rows
    \<and> (\<exists>row. table' cid = Some row \<and> vc_last_message_id row \<le> se_cursor s \<and> (\<not> se_cursor_dirty s \<longrightarrow> se_cursor s = vc_last_message_id row)
         \<and> vc_connections row \<ge> 1 \<and> vc_last_message_id row \<le> get_latest_id rows
         \<and> (case table cid of None \<Rightarrow> True | Some r \<Rightarrow> vc_last_message_id row = vc_last_message_id r))"
proof -
  define name where "name = app_name_of payload"
  obtain row t1 where rc: "record_connection cid name host now (get_latest_id rows) table = (row, t1)" by fastforce
  have row: "t1 cid = Some row" "case table cid of None \<Rightarrow> vc_last_message_id row = get_latest_id rows | Some r \<Rightarrow> vc_last_message_id row = vc_last_message_id r"
    "vc_connections row \<ge> 1" "vc_last_message_id row \<le> get_latest_id rows" "vc_connections row \<le> 1 \<Longrightarrow> table cid = None"
    using rc conn by (auto simp: record_connection_def Let_def cid_def split: option.splits)
  define s2 where "s2 = (new_session host)\<lparr>se_app_started := True, se_app_name := name, se_client_id := Some cid,
     se_cursor := vc_last_message_id row, se_inbox := []\<rparr>"
  have s2: "se_inbox s2 = []" "se_cursor s2 = vc_last_message_id row" "se_client_id s2 = Some cid" "\<not> se_cursor_dirty s2"
    by (simp_all add: s2_def new_session_def)
  obtain missed skipped where get: "get_incoming_after_id (vc_last_message_id row) limit rows = (missed, skipped)" by fastforce
  let ?replaying = "vc_connections row > 1 \<and> vc_last_message_id row < get_latest_id rows"
  let ?r = "(replay fr missed s2)\<lparr>se_replayed := length (se_inbox (replay fr missed s2))\<rparr>"
  have s: "s = (if ?replaying then if skipped \<noteq> 0 then note_delivered (Some (if missed \<noteq> [] then hm_id (hd missed) - 1 else get_latest_id rows)) ?r else ?r else s2)"
    and t: "table' = t1"
    using start rc get lim by (auto simp: start_app_session_def Let_def new_session_def s2_def cid_def name_def)
  have inbox: "se_inbox (replay fr missed s2) = newest MAX_QUEUED_MESSAGES (map (entry fr) (filter (\<lambda>m. fr m \<noteq> None) missed))"
    using replay_inbox [of s2 "[]"] s2(1) by simp
  note mp = missed_pending [OF asc lim get, of fr]
  have hd: "missed \<noteq> [] \<Longrightarrow> hm_id (hd missed) \<le> get_latest_id rows" using missed_rows [OF get] latest_ge hd_in_set by blast
  show ?thesis
  proof (cases ?replaying)
    case True
    then show ?thesis using s t row mp inbox s2 hd
      by (cases "skipped = 0") (auto simp: inbox_exact_def newest_map note_delivered_def split: option.splits)
  next
    case False
    then have "get_latest_id rows \<le> vc_last_message_id row" using row(2,5) by (auto split: option.splits)
    then have "pending_for fr rows (vc_last_message_id row) = []" by (rule pending_latest)
    then show ?thesis using False s t row s2 by (auto simp: inbox_exact_def newest_def split: option.splits)
  qed
qed


subsection \<open>Pulling\<close>

lemma pull_exact:
  assumes "ascending rows" and "inbox_exact fr rows s" and "se_inbox s = (i, f) # rest"
  obtains m where "i = Some (hm_id m)" and "se_cursor s < hm_id m" and "inbox_exact fr rows (snd (sync_next_message pt s))"
    and "m \<in> set rows" and "incoming m" and "fr m = Some f"
proof -
  let ?p = "pending_for fr rows (se_cursor s)"
  obtain m ms where nw: "newest MAX_QUEUED_MESSAGES ?p = m # ms" "entry fr m = (i, f)" "rest = map (entry fr) ms"
    using assms(2,3) by (auto simp: inbox_exact_def Cons_eq_map_conv)
  then have split: "?p = take (length ?p - MAX_QUEUED_MESSAGES) ?p @ m # ms" by (metis append_take_drop_id newest_def)
  have m: "m \<in> set ?p" using split by (metis in_set_conv_decomp)
  have "length ms < MAX_QUEUED_MESSAGES" using arg_cong [OF nw(1), of length] by (simp add: newest_def)
  then have "newest MAX_QUEUED_MESSAGES (pending_for fr rows (hm_id m)) = ms" using pending_after_head [OF assms(1) split] by simp
  then have "inbox_exact fr rows (snd (sync_next_message pt s))"
    using m nw(2,3) assms(3) by (auto simp: sync_next_message_def note_delivered_def inbox_exact_def entry_def pending_for_def)
  then show ?thesis using that [of m] m nw(2) by (auto simp: pending_for_def entry_def)
qed


lemma persist_cases:
  assumes "persist_cursor w now s table = (s', t')" and "se_client_id s = Some cid" and "table cid = Some row"
  shows "se_inbox s' = se_inbox s \<and> se_cursor s' = se_cursor s \<and> se_client_id s' = Some cid
    \<and> (\<exists>r. t' cid = Some r \<and> vc_connections r = vc_connections row
         \<and> (vc_last_message_id r = vc_last_message_id row \<and> se_cursor_dirty s' = se_cursor_dirty s \<and> (w \<longrightarrow> \<not> se_cursor_dirty s)
            \<or> vc_last_message_id r = max (vc_last_message_id row) (se_cursor s) \<and> \<not> se_cursor_dirty s'))"
  using assms by (auto simp: persist_cursor_def advance_cursor_def split: if_splits)

lemma drain_exact:
  "ascending rows \<Longrightarrow> inbox_exact fr rows s \<Longrightarrow> drain (Suc (length (se_inbox s))) pt s = (frames, s1) \<Longrightarrow>
     frames = map snd (se_inbox s) @ [encode_no_more_messages pt] \<and> se_inbox s1 = [] \<and> inbox_exact fr rows s1 \<and> se_cursor s \<le> se_cursor s1
     \<and> (se_inbox s = [] \<longrightarrow> s1 = s) \<and> (se_inbox s \<noteq> [] \<longrightarrow> se_cursor_dirty s1) \<and> se_client_id s1 = se_client_id s \<and> se_cursor s1 \<le> max (se_cursor s) (get_latest_id rows)"
proof (induction "se_inbox s" arbitrary: s frames s1)
  case Nil
  then show ?case by (auto simp: sync_next_message_def)
next
  case (Cons x rest)
  obtain i f where x: "se_inbox s = (i, f) # rest" using Cons.hyps(2) by (cases x) (metis)
  obtain s' where s': "sync_next_message pt s = (f, s')" by (simp add: sync_next_message_def x)
  from pull_exact [OF Cons.prems(1,2) x, of pt] obtain m where m: "i = Some (hm_id m)" "se_cursor s < hm_id m" "inbox_exact fr rows s'" "m \<in> set rows"
    using s' by (metis snd_conv)
  have n: "se_inbox s' = rest" "se_cursor s' = hm_id m" "se_cursor_dirty s'" "se_client_id s' = se_client_id s"
    using m(1,2) s' by (auto simp: sync_next_message_def note_delivered_def x)
  obtain fs s2 where d: "drain (Suc (length (se_inbox s'))) pt s' = (fs, s2)" by fastforce
  have "drain (Suc (length (se_inbox s))) pt s = (f # fs, s2)" using d unfolding x n(1) list.size by (subst drain.simps(2)) (simp add: s' del: drain.simps)
  then have "frames = f # fs" "s1 = s2" using Cons.prems(3) by simp_all
  moreover note Cons.hyps(1) [OF n(1) [symmetric] Cons.prems(1) m(3) d]
  ultimately show ?case using n m latest_ge [OF m(4)] by (cases "rest = []") (auto simp: x simp del: drain.simps)
qed

lemma newest_nil_iff: "newest n xs = [] \<longleftrightarrow> xs = [] \<or> n = 0"
  by (cases xs) (auto simp: newest_def)

lemma newest_filter_append: "filter P xs = [] \<Longrightarrow> filter P (newest n (xs @ ys)) = filter P (newest n ys)"
proof -
  assume none: "filter P xs = []"
  show ?thesis
  proof (cases "length ys \<le> n")
    case True
    have "filter P (drop (length (xs @ ys) - n) xs) = []" using none set_drop_subset by (fastforce simp: filter_empty_conv)
    then show ?thesis using True by (simp add: newest_def)
  qed (simp add: newest_def)
qed

lemma missed_newest:
  "ascending rows \<Longrightarrow> limit > 0 \<Longrightarrow> fst (get_incoming_after_id c limit rows) = newest (nat limit) (filter incoming (filter (\<lambda>m. hm_id m > c) rows))"
proof -
  assume a: "ascending rows" "limit > 0"
  have "filter (\<lambda>m. hm_id m > c \<and> incoming m) rows = filter incoming (filter (\<lambda>m. hm_id m > c) rows)" by (auto intro!: filter_cong)
  then show ?thesis using a(2) sort_ascending [OF a(1), of "\<lambda>m. hm_id m > c \<and> incoming m"] by (simp add: get_incoming_after_id_def Let_def newest_def)
qed

text \<open>The inbox of a returning app as its session starts.\<close>

lemma start_replays:
  assumes "ascending rows" and "limit > 0" and "table (client_id_of payload host) = Some r" and "vc_connections r \<ge> 1"
    and "start_app_session pt fr limit True now info payload (new_session host) rows table = (fs, s, table1)"
  shows "se_inbox s = map (entry fr) (replayable fr limit (filter (\<lambda>m. hm_id m > vc_last_message_id r) rows))
    \<and> fs = info # (if se_inbox s = [] then [] else [encode_push_msg_waiting pt])"
proof -
  define missed where "missed = fst (get_incoming_after_id (vc_last_message_id r) limit rows)"
  have m: "replayable fr limit (filter (\<lambda>m. hm_id m > vc_last_message_id r) rows) = newest MAX_QUEUED_MESSAGES (filter (\<lambda>m. fr m \<noteq> None) missed)"
    using missed_newest [OF assms(1,2)] by (simp add: replayable_def missed_def)
  define s2 where "s2 = (new_session host)\<lparr>se_app_started := True, se_app_name := app_name_of payload, se_client_id := Some (client_id_of payload host),
     se_cursor := vc_last_message_id r, se_inbox := []\<rparr>"
  have inbox: "se_inbox (replay fr missed s2) = map (entry fr) (newest MAX_QUEUED_MESSAGES (filter (\<lambda>m. fr m \<noteq> None) missed))"
    using replay_inbox [of s2 "[]" fr missed] by (simp add: newest_map) (simp add: s2_def newest_def)
  have nd [simp]: "se_inbox (note_delivered i x) = se_inbox x" for i x by (simp add: note_delivered_def split: option.split)
  show ?thesis
  proof (cases "vc_last_message_id r < get_latest_id rows")
    case True
    have "se_inbox s = se_inbox (replay fr missed s2)"
      using assms(2-5) True by (auto simp: start_app_session_def record_connection_def Let_def new_session_def s2_def missed_def split: prod.splits if_splits)
    moreover have "fs = info # (if se_inbox s = [] then [] else [encode_push_msg_waiting pt])"
      using assms(3-5) by (auto simp: start_app_session_def record_connection_def Let_def new_session_def split: prod.splits)
    ultimately show ?thesis using inbox m by simp
  next
    case False
    then have "filter (\<lambda>m. hm_id m > vc_last_message_id r) rows = []" using latest_ge by (fastforce simp: filter_empty_conv)
    then show ?thesis using assms(3-5) False
      by (auto simp: start_app_session_def record_connection_def Let_def new_session_def replayable_def newest_def split: prod.splits)
  qed
qed


definition demo_codes :: packet_codes where
  "demo_codes = \<lparr>pt_OK = 0, pt_ERROR = 1, pt_DISABLED = 15, pt_NO_MORE_MSGS = 10, pt_CURRENT_TIME = 9, pt_BATTERY = 12, pt_MSG_SENT = 6,
     pt_ADVERTISEMENT = 128, pt_MESSAGES_WAITING = 131, pt_SELF_INFO = 5, pt_CONTACT = 3, pt_CONTACT_START = 2, pt_CONTACT_END = 4,
     pt_CHANNEL_INFO = 18, pt_CONTACT_MSG_RECV = 7, pt_CONTACT_MSG_RECV_V3 = 16, pt_CHANNEL_MSG_RECV_V3 = 17\<rparr>"

definition demo_message :: "int \<Rightarrow> bool \<Rightarrow> server_message" where
  "demo_message i outgoing =
     \<lparr>sm_conversation_key = None, sm_paths = [], sm_txt_type = None, sm_sender_timestamp = None, sm_received_at = None, sm_signature = None,
      sm_text = Some [104, 105], hm_id = i, hm_type = PRIV, hm_outgoing = outgoing, hm_is_reaction = False\<rparr>"

definition demo_frame :: "server_message \<Rightarrow> bytes option" where
  "demo_frame m = (if hm_id m = 4 then None else Some [byte_of (nat (hm_id m))])"

definition demo_clients :: client_table where
  "demo_clients = (\<lambda>_. None)(client_id_of [] [] \<mapsto> \<lparr>vc_app_name = [], vc_peer_host = [], vc_last_message_id = 1, vc_first_seen = 0, vc_last_seen = 0, vc_connections = 1\<rparr>)"


end
