(* ===== verification/ContactStore.thy ===== *)
theory ContactStore
  imports Contact
begin

text \<open>
  The contact table (\<open>src/app/repository/contacts.py\<close>, class \<open>ContactRepository\<close>). A row is a record whose optional
  fields are the nullable columns; each SQL statement is a function on the list of rows. A key or prefix given to a
  \<open>LIKE\<close> is hexadecimal, so it holds no wildcard.
\<close>

section \<open>Rows\<close>

record contact_row =
  ro_public_key :: string
  ro_name :: "ustr option"
  ro_type :: int
  ro_flags :: int
  ro_direct_path :: "string option"
  ro_direct_path_len :: "int option"
  ro_direct_path_hash_mode :: "int option"
  ro_direct_path_updated_at :: "int option"
  ro_route_override_path :: "string option"
  ro_route_override_len :: "int option"
  ro_route_override_hash_mode :: "int option"
  ro_last_advert :: "int option"
  ro_lat :: "pyfloat option"
  ro_lon :: "pyfloat option"
  ro_last_seen :: "int option"
  ro_on_radio :: "bool option"
  ro_last_contacted :: "int option"
  ro_first_seen :: "int option"
  ro_favorite :: bool

text \<open>The write contract, with all its fields.\<close>

record contact_write =
  wr_public_key :: string
  wr_name :: "ustr option"
  wr_type :: int
  wr_flags :: int
  wr_direct_path :: "string option"
  wr_direct_path_len :: "int option"
  wr_direct_path_hash_mode :: "int option"
  wr_direct_path_updated_at :: "int option"
  wr_route_override_path :: "string option"
  wr_route_override_len :: "int option"
  wr_route_override_hash_mode :: "int option"
  wr_last_advert :: "int option"
  wr_lat :: "pyfloat option"
  wr_lon :: "pyfloat option"
  wr_last_seen :: "int option"
  wr_on_radio :: "bool option"
  wr_last_contacted :: "int option"
  wr_first_seen :: "int option"

text \<open>What \<open>from_radio_dict\<close> fills in, and what \<open>to_upsert\<close> copies from a stored contact.\<close>

definition write_of_radio :: "ContactUpsert \<Rightarrow> contact_write" where
  "write_of_radio u =
     \<lparr>wr_public_key = cu_public_key u, wr_name = cu_name u, wr_type = cu_type u, wr_flags = cu_flags u,
      wr_direct_path = Some (cu_direct_path u), wr_direct_path_len = Some (cu_direct_path_len u),
      wr_direct_path_hash_mode = Some (cu_direct_path_hash_mode u), wr_direct_path_updated_at = None,
      wr_route_override_path = None, wr_route_override_len = None, wr_route_override_hash_mode = None,
      wr_last_advert = cu_last_advert u, wr_lat = cu_lat u, wr_lon = cu_lon u, wr_last_seen = None,
      wr_on_radio = Some (cu_on_radio u), wr_last_contacted = None, wr_first_seen = None\<rparr>"

definition to_upsert :: "Contact \<Rightarrow> contact_write" where
  "to_upsert c =
     \<lparr>wr_public_key = c_public_key c, wr_name = c_name c, wr_type = c_type c, wr_flags = c_flags c,
      wr_direct_path = c_direct_path c, wr_direct_path_len = Some (c_direct_path_len c),
      wr_direct_path_hash_mode = Some (c_direct_path_hash_mode c), wr_direct_path_updated_at = c_direct_path_updated_at c,
      wr_route_override_path = c_route_override_path c, wr_route_override_len = c_route_override_len c,
      wr_route_override_hash_mode = c_route_override_hash_mode c, wr_last_advert = c_last_advert c, wr_lat = c_lat c, wr_lon = c_lon c,
      wr_last_seen = c_last_seen c, wr_on_radio = Some (c_on_radio c), wr_last_contacted = c_last_contacted c, wr_first_seen = c_first_seen c\<rparr>"

section \<open>Writing\<close>

text \<open>\<open>COALESCE\<close>, and the clause that keeps the later of two times.\<close>

definition coalesce :: "'a option \<Rightarrow> 'a option \<Rightarrow> 'a option" where
  "coalesce a b = (case a of None \<Rightarrow> b | Some x \<Rightarrow> Some x)"

definition later :: "int option \<Rightarrow> int option \<Rightarrow> int option" where
  "later new old =
     (case new of None \<Rightarrow> old
      | Some n \<Rightarrow> (case old of None \<Rightarrow> Some n | Some x \<Rightarrow> if n > x then Some n else Some x))"

definition direct_columns :: "contact_write \<Rightarrow> string option \<times> int option \<times> int option" where
  "direct_columns w =
     (if wr_direct_path w = None \<and> wr_direct_path_len w = None \<and> wr_direct_path_hash_mode w = None then (None, None, None)
      else case normalize_contact_route (wr_direct_path w) (wr_direct_path_len w) (wr_direct_path_hash_mode w) of
             (p, l, m) \<Rightarrow> (Some p, Some l, Some m))"

definition inserted_row :: "contact_write \<Rightarrow> contact_row" where
  "inserted_row w =
     (case direct_columns w of (dp, dl, dm) \<Rightarrow>
      case normalize_route_override (wr_route_override_path w) (wr_route_override_len w) (wr_route_override_hash_mode w) of (op, ol, om) \<Rightarrow>
        \<lparr>ro_public_key = lower (wr_public_key w), ro_name = wr_name w, ro_type = wr_type w, ro_flags = wr_flags w,
         ro_direct_path = dp, ro_direct_path_len = dl, ro_direct_path_hash_mode = dm,
         ro_direct_path_updated_at = wr_direct_path_updated_at w,
         ro_route_override_path = op, ro_route_override_len = ol, ro_route_override_hash_mode = om,
         ro_last_advert = wr_last_advert w, ro_lat = wr_lat w, ro_lon = wr_lon w, ro_last_seen = wr_last_seen w,
         ro_on_radio = wr_on_radio w, ro_last_contacted = wr_last_contacted w, ro_first_seen = wr_first_seen w, ro_favorite = False\<rparr>)"

text \<open>The \<open>DO UPDATE\<close> clause: \<open>x\<close> is the excluded row, \<open>r\<close> the row in the table.\<close>

definition merged_row :: "contact_row \<Rightarrow> contact_row \<Rightarrow> contact_row" where
  "merged_row x r =
     r\<lparr>ro_name := coalesce (ro_name x) (ro_name r),
       ro_type := (if ro_type x = 0 then ro_type r else ro_type x),
       ro_flags := ro_flags x,
       ro_direct_path := coalesce (ro_direct_path x) (ro_direct_path r),
       ro_direct_path_len := coalesce (ro_direct_path_len x) (ro_direct_path_len r),
       ro_direct_path_hash_mode := coalesce (ro_direct_path_hash_mode x) (ro_direct_path_hash_mode r),
       ro_direct_path_updated_at := coalesce (ro_direct_path_updated_at x) (ro_direct_path_updated_at r),
       ro_route_override_path := coalesce (ro_route_override_path x) (ro_route_override_path r),
       ro_route_override_len := coalesce (ro_route_override_len x) (ro_route_override_len r),
       ro_route_override_hash_mode := coalesce (ro_route_override_hash_mode x) (ro_route_override_hash_mode r),
       ro_last_advert := coalesce (ro_last_advert x) (ro_last_advert r),
       ro_lat := coalesce (ro_lat x) (ro_lat r),
       ro_lon := coalesce (ro_lon x) (ro_lon r),
       ro_last_seen := later (ro_last_seen x) (ro_last_seen r),
       ro_on_radio := coalesce (ro_on_radio x) (ro_on_radio r),
       ro_last_contacted := coalesce (ro_last_contacted x) (ro_last_contacted r),
       ro_first_seen := coalesce (ro_first_seen r) (ro_first_seen x)\<rparr>"

text \<open>\<open>UPDATE contacts SET ... WHERE public_key = key\<close>.\<close>

definition update_where :: "string \<Rightarrow> (contact_row \<Rightarrow> contact_row) \<Rightarrow> contact_row list \<Rightarrow> contact_row list" where
  "update_where key f rows = map (\<lambda>r. if ro_public_key r = lower key then f r else r) rows"

definition contact_upsert :: "contact_write \<Rightarrow> contact_row list \<Rightarrow> contact_row list" where
  "contact_upsert w rows =
     (let x = inserted_row w
      in if list_ex (\<lambda>r. ro_public_key r = ro_public_key x) rows then update_where (wr_public_key w) (merged_row x) rows
         else rows @ [x])"

definition update_direct_path :: "string \<Rightarrow> string \<Rightarrow> int \<Rightarrow> int option \<Rightarrow> int \<Rightarrow> contact_row list \<Rightarrow> contact_row list" where
  "update_direct_path key path path_len path_hash_mode ts rows =
     (case normalize_contact_route (Some path) (Some path_len) path_hash_mode of (p, l, m) \<Rightarrow>
        update_where key
          (\<lambda>r. r\<lparr>ro_direct_path := Some p, ro_direct_path_len := Some l,
                 ro_direct_path_hash_mode := coalesce (Some m) (ro_direct_path_hash_mode r),
                 ro_direct_path_updated_at := Some ts, ro_last_seen := later (Some ts) (ro_last_seen r)\<rparr>) rows)"

definition set_routing_override :: "string \<Rightarrow> string option \<Rightarrow> int option \<Rightarrow> int option \<Rightarrow> contact_row list \<Rightarrow> contact_row list" where
  "set_routing_override key path path_len path_hash_mode rows =
     (case normalize_route_override path path_len path_hash_mode of (p, l, m) \<Rightarrow>
        update_where key (\<lambda>r. r\<lparr>ro_route_override_path := p, ro_route_override_len := l, ro_route_override_hash_mode := m\<rparr>) rows)"

definition clear_routing_override :: "string \<Rightarrow> contact_row list \<Rightarrow> contact_row list" where
  "clear_routing_override key rows =
     update_where key (\<lambda>r. r\<lparr>ro_route_override_path := None, ro_route_override_len := None, ro_route_override_hash_mode := None\<rparr>) rows"

definition clear_on_radio_except :: "string list \<Rightarrow> contact_row list \<Rightarrow> contact_row list" where
  "clear_on_radio_except keep_keys rows =
     map (\<lambda>r. if ro_on_radio r = Some True \<and> ro_public_key r \<notin> set keep_keys then r\<lparr>ro_on_radio := Some False\<rparr> else r) rows"

definition set_favorite :: "string \<Rightarrow> bool \<Rightarrow> contact_row list \<Rightarrow> contact_row list" where
  "set_favorite key v rows = update_where key (\<lambda>r. r\<lparr>ro_favorite := v\<rparr>) rows"

definition contact_delete :: "string \<Rightarrow> contact_row list \<Rightarrow> contact_row list" where
  "contact_delete key rows = filter (\<lambda>r. ro_public_key r \<noteq> lower key) rows"

definition update_last_contacted :: "string \<Rightarrow> int \<Rightarrow> contact_row list \<Rightarrow> contact_row list" where
  "update_last_contacted key ts rows = update_where key (\<lambda>r. r\<lparr>ro_last_contacted := Some ts\<rparr>) rows"

definition touch_last_seen :: "string \<Rightarrow> int \<Rightarrow> contact_row list \<Rightarrow> contact_row list" where
  "touch_last_seen key ts rows = update_where key (\<lambda>r. r\<lparr>ro_last_seen := later (Some ts) (ro_last_seen r)\<rparr>) rows"

section \<open>Reading\<close>

definition row_to_contact :: "contact_row \<Rightarrow> Contact" where
  "row_to_contact r =
     (case normalize_contact_route (ro_direct_path r) (ro_direct_path_len r) (ro_direct_path_hash_mode r) of (dp, dl, dm) \<Rightarrow>
      case normalize_route_override (ro_route_override_path r) (ro_route_override_len r) (ro_route_override_hash_mode r) of (op, ol, om) \<Rightarrow>
        model_post_init
          \<lparr>c_public_key = ro_public_key r, c_name = ro_name r, c_type = ro_type r, c_flags = ro_flags r,
           c_direct_path = Some dp, c_direct_path_len = dl, c_direct_path_hash_mode = dm,
           c_direct_path_updated_at = ro_direct_path_updated_at r,
           c_route_override_path = op, c_route_override_len = ol, c_route_override_hash_mode = om,
           c_last_advert = ro_last_advert r, c_lat = ro_lat r, c_lon = ro_lon r, c_last_seen = ro_last_seen r,
           c_on_radio = (ro_on_radio r = Some True), c_favorite = ro_favorite r,
           c_last_contacted = ro_last_contacted r, c_first_seen = ro_first_seen r,
           c_effective_route = None, c_effective_route_source = SrcFlood, c_direct_route = None, c_route_override = None\<rparr>)"

definition row_by_key :: "string \<Rightarrow> contact_row list \<Rightarrow> contact_row option" where
  "row_by_key key rows = find (\<lambda>r. ro_public_key r = lower key) rows"

definition get_by_key :: "string \<Rightarrow> contact_row list \<Rightarrow> Contact option" where
  "get_by_key key rows = map_option row_to_contact (row_by_key key rows)"

text \<open>\<open>... LIKE prefix% ORDER BY public_key LIMIT n\<close>; with a limit of 2 only whether there is exactly one match is used.\<close>

definition prefix_rows :: "string \<Rightarrow> contact_row list \<Rightarrow> contact_row list" where
  "prefix_rows prefix rows = filter (\<lambda>r. starts_with (lower prefix) (ro_public_key r)) rows"

definition get_by_key_prefix :: "string \<Rightarrow> contact_row list \<Rightarrow> Contact option" where
  "get_by_key_prefix prefix rows =
     (case get_by_key (lower prefix) rows of
        Some c \<Rightarrow> Some c
      | None \<Rightarrow> (case prefix_rows (lower prefix) rows of [r] \<Rightarrow> Some (row_to_contact r) | _ \<Rightarrow> None))"

datatype lookup = Found Contact | Missing | Ambiguous

definition get_by_key_or_prefix :: "string \<Rightarrow> contact_row list \<Rightarrow> lookup" where
  "get_by_key_or_prefix key_or_prefix rows =
     (case get_by_key key_or_prefix rows of
        Some c \<Rightarrow> Found c
      | None \<Rightarrow>
          (case prefix_rows key_or_prefix rows of
             [] \<Rightarrow> Missing
           | [r] \<Rightarrow> Found (row_to_contact r)
           | _ \<Rightarrow> Ambiguous))"

text \<open>The rows collected for a prefix: each matching row once for every time the prefix was asked for.\<close>

definition collected_rows :: "string list \<Rightarrow> string \<Rightarrow> contact_row list \<Rightarrow> contact_row list" where
  "collected_rows normalized p rows =
     concat (map (\<lambda>r. concat (map (\<lambda>q. if starts_with q (ro_public_key r) \<and> q = p then [r] else []) normalized)) rows)"

definition resolve_prefixes :: "string list \<Rightarrow> contact_row list \<Rightarrow> string \<Rightarrow> Contact option" where
  "resolve_prefixes prefixes rows p =
     (let normalized = map lower prefixes
      in if p \<in> set normalized
         then (case collected_rows normalized p rows of [r] \<Rightarrow> Some (row_to_contact r) | _ \<Rightarrow> None)
         else None)"

definition get_favorites :: "contact_row list \<Rightarrow> Contact list" where
  "get_favorites rows = map row_to_contact (filter (\<lambda>r. ro_favorite r \<and> length (ro_public_key r) = 64) rows)"

section \<open>What the table keeps\<close>

datatype contact_op =
    Upsert contact_write
  | UpdatePath string string int "int option" int
  | SetOverride string "string option" "int option" "int option"
  | ClearOverride string
  | ClearOnRadio "string list"
  | SetFavorite string bool
  | Delete string
  | Contacted string int
  | Seen string int

fun contact_step :: "contact_op \<Rightarrow> contact_row list \<Rightarrow> contact_row list" where
  "contact_step (Upsert w) rows = contact_upsert w rows"
| "contact_step (UpdatePath k p l m ts) rows = update_direct_path k p l m ts rows"
| "contact_step (SetOverride k p l m) rows = set_routing_override k p l m rows"
| "contact_step (ClearOverride k) rows = clear_routing_override k rows"
| "contact_step (ClearOnRadio keep) rows = clear_on_radio_except keep rows"
| "contact_step (SetFavorite k v) rows = set_favorite k v rows"
| "contact_step (Delete k) rows = contact_delete k rows"
| "contact_step (Contacted k ts) rows = update_last_contacted k ts rows"
| "contact_step (Seen k ts) rows = touch_last_seen k ts rows"

definition contacts_ok :: "contact_row list \<Rightarrow> bool" where
  "contacts_ok rows \<longleftrightarrow> distinct (map ro_public_key rows) \<and> (\<forall>r\<in>set rows. lower (ro_public_key r) = ro_public_key r)"

lemma lower_char_idem [simp]: "lower_char (lower_char c) = lower_char c"
  by (auto simp: lower_char_def Let_def)

lemma lower_idem [simp]: "lower (lower s) = lower s"
  by (simp add: lower_def)

text \<open>Every statement but the insertion and the deletion rewrites rows in place and keeps their keys.\<close>

lemma map_keys [simp]: "(\<And>r. ro_public_key (f r) = ro_public_key r) \<Longrightarrow> map ro_public_key (map f rows) = map ro_public_key rows"
  by simp

lemma contacts_ok_map: "contacts_ok rows \<Longrightarrow> (\<And>r. ro_public_key (f r) = ro_public_key r) \<Longrightarrow> contacts_ok (map f rows)"
  by (auto simp: contacts_ok_def comp_def)

lemma merged_key [simp]: "ro_public_key (merged_row x r) = ro_public_key r"
  by (simp add: merged_row_def)

lemma inserted_key [simp]: "ro_public_key (inserted_row w) = lower (wr_public_key w)"
  by (simp add: inserted_row_def split: prod.splits)

lemma upsert_ok: "contacts_ok rows \<Longrightarrow> contacts_ok (contact_upsert w rows)"
  by (auto simp: contact_upsert_def Let_def update_where_def list_ex_iff intro!: contacts_ok_map) (auto simp: contacts_ok_def)

lemma contact_step_ok: "contacts_ok rows \<Longrightarrow> contacts_ok (contact_step e rows)"
  by (cases e) (auto simp: upsert_ok update_direct_path_def set_routing_override_def clear_routing_override_def clear_on_radio_except_def
      set_favorite_def update_last_contacted_def touch_last_seen_def update_where_def split: prod.splits intro!: contacts_ok_map,
      auto simp: contacts_ok_def contact_delete_def distinct_map_filter)

subsection \<open>Rows only gain knowledge\<close>

definition known_stays :: "'a option \<Rightarrow> 'a option \<Rightarrow> bool" where
  "known_stays a b \<longleftrightarrow> (a \<noteq> None \<longrightarrow> b \<noteq> None)"

definition not_earlier :: "int option \<Rightarrow> int option \<Rightarrow> bool" where
  "not_earlier a b \<longleftrightarrow> (case a of None \<Rightarrow> True | Some x \<Rightarrow> (case b of None \<Rightarrow> False | Some y \<Rightarrow> x \<le> y))"

definition not_later :: "int option \<Rightarrow> int option \<Rightarrow> bool" where
  "not_later a b \<longleftrightarrow> (case a of None \<Rightarrow> True | Some x \<Rightarrow> (case b of None \<Rightarrow> False | Some y \<Rightarrow> y \<le> x))"

text \<open>Routes are left out, since a reset unlearns them, and so are the flags, which every upsert overwrites.\<close>

definition knows_more :: "contact_row \<Rightarrow> contact_row \<Rightarrow> bool" where
  "knows_more r r' \<longleftrightarrow> ro_public_key r' = ro_public_key r
     \<and> known_stays (ro_name r) (ro_name r') \<and> (ro_type r \<noteq> 0 \<longrightarrow> ro_type r' \<noteq> 0) \<and> known_stays (ro_last_advert r) (ro_last_advert r')
     \<and> known_stays (ro_lat r) (ro_lat r') \<and> known_stays (ro_lon r) (ro_lon r')
     \<and> known_stays (ro_last_contacted r) (ro_last_contacted r')
     \<and> not_earlier (ro_last_seen r) (ro_last_seen r') \<and> not_later (ro_first_seen r) (ro_first_seen r')"

lemma known_stays_simps [simp]: "known_stays a a" "known_stays a (coalesce b a)" "known_stays a (Some x)"
  by (simp_all add: known_stays_def coalesce_def split: option.splits)

lemma not_earlier_simps [simp]: "not_earlier a a" "not_earlier a (later b a)"
  by (simp_all add: not_earlier_def later_def split: option.splits)

lemma not_later_simps [simp]: "not_later a a" "not_later a (coalesce a b)"
  by (simp_all add: not_later_def coalesce_def split: option.splits)

lemma knows_more_refl [simp]: "knows_more r r"
  by (simp add: knows_more_def)

lemma knows_more_trans: "knows_more a b \<Longrightarrow> knows_more b c \<Longrightarrow> knows_more a c"
  by (auto simp: knows_more_def known_stays_def not_earlier_def not_later_def split: option.splits)

lemma knows_more_merged: "knows_more r (merged_row x r)"
  by (simp add: knows_more_def merged_row_def)

lemma row_by_key_map:
  "(\<And>r. ro_public_key (f r) = ro_public_key r) \<Longrightarrow> row_by_key k (map f rows) = map_option f (row_by_key k rows)"
  by (induction rows) (auto simp: row_by_key_def)

lemma row_by_key_append: "row_by_key k (rows @ [x]) = (case row_by_key k rows of Some r \<Rightarrow> Some r | None \<Rightarrow> if ro_public_key x = lower k then Some x else None)"
  by (induction rows) (auto simp: row_by_key_def)

lemma row_by_key_delete: "lower d \<noteq> lower k \<Longrightarrow> row_by_key k (contact_delete d rows) = row_by_key k rows"
  by (induction rows) (auto simp: row_by_key_def contact_delete_def)

fun spares :: "string \<Rightarrow> contact_op \<Rightarrow> bool" where
  "spares k (Delete d) \<longleftrightarrow> lower d \<noteq> lower k"
| "spares k _ \<longleftrightarrow> True"

lemma map_step_knows:
  assumes "row_by_key k rows = Some r" and "\<And>r. knows_more r (f r)"
  shows "\<exists>r'. row_by_key k (map f rows) = Some r' \<and> knows_more r r'"
  using assms row_by_key_map [of f k rows] by (simp add: knows_more_def)

lemma step_knows:
  assumes "row_by_key k rows = Some r" and "spares k e"
  shows "\<exists>r'. row_by_key k (contact_step e rows) = Some r' \<and> knows_more r r'"
proof (cases e)
  case (Upsert w)
  then show ?thesis using assms(1) map_step_knows [OF assms(1), of "\<lambda>r. if ro_public_key r = lower (wr_public_key w) then merged_row (inserted_row w) r else r"]
    by (auto simp: contact_upsert_def Let_def update_where_def knows_more_merged row_by_key_append)
next
  case (Delete d)
  then show ?thesis using assms row_by_key_delete by simp
qed (use assms(1) in \<open>auto simp: update_direct_path_def set_routing_override_def clear_routing_override_def clear_on_radio_except_def
      set_favorite_def update_last_contacted_def touch_last_seen_def update_where_def split: prod.splits intro!: map_step_knows,
      auto simp: knows_more_def\<close>)

definition demo_write :: "string \<Rightarrow> contact_write" where
  "demo_write k = \<lparr>wr_public_key = k, wr_name = Some [65], wr_type = 1, wr_flags = 0, wr_direct_path = Some ''a1'', wr_direct_path_len = Some 1,
     wr_direct_path_hash_mode = Some 0, wr_direct_path_updated_at = None, wr_route_override_path = None, wr_route_override_len = None,
     wr_route_override_hash_mode = None, wr_last_advert = None, wr_lat = None, wr_lon = None, wr_last_seen = Some 100, wr_on_radio = None,
     wr_last_contacted = None, wr_first_seen = Some 7\<rparr>"

lemma demo_rows:
  "fold contact_step [Upsert (demo_write ''AB01'')] [] = [inserted_row (demo_write ''AB01'')]"
  "row_by_key ''ab01'' [inserted_row (demo_write ''AB01'')] = Some (inserted_row (demo_write ''AB01''))"
proof -
  have k: "lower ''AB01'' = ''ab01'' \<and> lower ''ab01'' = ''ab01''" by code_simp
  show "fold contact_step [Upsert (demo_write ''AB01'')] [] = [inserted_row (demo_write ''AB01'')]" by (simp add: contact_upsert_def Let_def)
  show "row_by_key ''ab01'' [inserted_row (demo_write ''AB01'')] = Some (inserted_row (demo_write ''AB01''))"
    by (simp add: row_by_key_def demo_write_def k)
qed

section \<open>Lookups by prefix\<close>

lemma get_by_key_lower [simp]: "get_by_key (lower k) rows = get_by_key k rows" "prefix_rows (lower k) rows = prefix_rows k rows"
  by (simp_all add: get_by_key_def row_by_key_def prefix_rows_def)

lemma collected_distinct:
  assumes "distinct ps" and "p \<in> set ps"
  shows "collected_rows ps p rows = filter (\<lambda>r. starts_with p (ro_public_key r)) rows"
proof -
  have each: "concat (map (\<lambda>q. if starts_with q (ro_public_key r) \<and> q = p then [r] else []) ps) = (if starts_with p (ro_public_key r) then [r] else [])" for r
    using assms
  proof (induction ps)
    case (Cons a ps)
    have none: "concat (map (\<lambda>q. if starts_with q (ro_public_key r) \<and> q = p then [r] else []) ps) = []" if "p \<notin> set ps"
      using that by (auto simp: concat_eq_Nil_conv)
    show ?case
    proof (cases "a = p")
      case True
      then show ?thesis using none Cons.prems(1) by simp
    qed (use Cons in simp)
  qed simp
  show ?thesis unfolding collected_rows_def each by (induction rows) simp_all
qed

text \<open>The lookups by key prefix never choose between several contacts and agree with each other: the strict lookup finds what the
  lenient one finds and reports an ambiguity exactly when the lenient one finds nothing because several contacts match; resolving a
  list of different prefixes gives each the same answer, unless a contact's whole key is the prefix.\<close>

theorem prefix_lookups_agree:
  "(get_by_key_or_prefix p rows = Found c \<longleftrightarrow> get_by_key_prefix p rows = Some c)
   \<and> (get_by_key_or_prefix p rows = Ambiguous \<longleftrightarrow> get_by_key_prefix p rows = None \<and> 2 \<le> length (prefix_rows p rows))
   \<and> (distinct (map lower ps) \<and> p \<in> set ps \<and> row_by_key p rows = None \<longrightarrow> resolve_prefixes ps rows (lower p) = get_by_key_prefix p rows)"
proof (intro conjI impI)
  show "get_by_key_or_prefix p rows = Found c \<longleftrightarrow> get_by_key_prefix p rows = Some c"
    by (simp add: get_by_key_or_prefix_def get_by_key_prefix_def split: option.splits list.splits)
  show "get_by_key_or_prefix p rows = Ambiguous \<longleftrightarrow> get_by_key_prefix p rows = None \<and> 2 \<le> length (prefix_rows p rows)"
    by (auto simp: get_by_key_or_prefix_def get_by_key_prefix_def split: option.splits list.splits)
  assume a: "distinct (map lower ps) \<and> p \<in> set ps \<and> row_by_key p rows = None"
  then have "collected_rows (map lower ps) (lower p) rows = prefix_rows p rows" by (simp add: collected_distinct prefix_rows_def)
  moreover have "get_by_key p rows = None" using a by (simp add: get_by_key_def)
  ultimately show "resolve_prefixes ps rows (lower p) = get_by_key_prefix p rows"
    using a by (simp add: resolve_prefixes_def Let_def get_by_key_prefix_def split: list.splits)
qed

theorem prefix_lookups_agree_witness:
  "row_by_key ''AB'' [inserted_row (demo_write ''ab01'')] = None
   \<and> resolve_prefixes [''cd'', ''AB''] [inserted_row (demo_write ''ab01'')] (lower ''AB'') = get_by_key_prefix ''AB'' [inserted_row (demo_write ''ab01'')]"
proof -
  have k: "lower ''AB'' = ''ab'' \<and> lower ''cd'' = ''cd'' \<and> lower ''ab01'' = ''ab01''" by code_simp
  have "row_by_key ''AB'' [inserted_row (demo_write ''ab01'')] = None" "distinct (map lower [''cd'', ''AB''])"
    by (simp_all add: row_by_key_def demo_write_def k)
  then show ?thesis using prefix_lookups_agree [of "''AB''" "[inserted_row (demo_write ''ab01'')]" _ "[''cd'', ''AB'']"] by simp
qed

text \<open>A prefix that is asked for twice is not resolved although exactly one contact matches it; asked for once, it is. A path that
  passes the same repeater twice is such a request.\<close>

theorem repeated_prefix_unresolved:
  "resolve_prefixes [''ab'', ''cd''] [inserted_row (demo_write ''ab01'')] ''ab'' = Some (row_to_contact (inserted_row (demo_write ''ab01'')))
   \<and> resolve_prefixes [''ab'', ''cd'', ''ab''] [inserted_row (demo_write ''ab01'')] ''ab'' = None"
proof -
  have k: "lower ''ab01'' = ''ab01'' \<and> lower ''ab'' = ''ab'' \<and> lower ''cd'' = ''cd''" by code_simp
  then have "ro_public_key (inserted_row (demo_write ''ab01'')) = ''ab01''" by (simp add: demo_write_def)
  then show ?thesis by (simp add: resolve_prefixes_def Let_def collected_rows_def k starts_with_def)
qed

section \<open>Writing back what was read\<close>

lemma coalesce_simps [simp]: "coalesce a a = a" "coalesce None a = a" "coalesce (Some x) a = Some x" "coalesce a None = a"
  by (simp_all add: coalesce_def split: option.splits)

lemma later_same [simp]: "later a a = a"
  by (simp add: later_def split: option.splits)

definition routes_readable :: "contact_row \<Rightarrow> bool" where
  "routes_readable r \<longleftrightarrow> readable_len (ro_direct_path_len r) \<and> readable_len (ro_route_override_len r)"

lemma override_again:
  assumes "readable_len pl" and "normalize_route_override ph pl mo = (p, l, m)"
  shows "normalize_route_override (case p of None \<Rightarrow> None | Some s \<Rightarrow> or_none (Some s)) l m = (p, l, m)" and "l = None \<longleftrightarrow> pl = None"
  using normalize_override_readable [OF assms] normalize_or_none assms(2)
  by (auto simp: normalize_route_override_def simp del: or_none_some split: option.splits prod.splits)

lemma flood_readable: "flood_or_route (p, l, m) \<Longrightarrow> readable_len (Some l)"
  by (auto simp: flood_or_route_def readable_len_def)

lemma row_to_contact_fields:
  assumes r: "routes_readable r"
    and d: "normalize_contact_route (ro_direct_path r) (ro_direct_path_len r) (ro_direct_path_hash_mode r) = (dp, dl, dm)"
    and ov: "normalize_route_override (ro_route_override_path r) (ro_route_override_len r) (ro_route_override_hash_mode r) = (op, ol, om)"
  shows "c_direct_path (row_to_contact r) = or_none (Some dp)" "c_direct_path_len (row_to_contact r) = dl" "c_direct_path_hash_mode (row_to_contact r) = dm"
    "c_route_override_path (row_to_contact r) = or_none op" "c_route_override_len (row_to_contact r) = ol" "c_route_override_hash_mode (row_to_contact r) = om"
proof -
  have rd: "readable_len (ro_direct_path_len r)" and ro: "readable_len (ro_route_override_len r)" using r by (simp_all add: routes_readable_def)
  note D = normalize_readable [OF rd d]
  have O: "normalize_route_override op ol om = (op, ol, om)"
    using normalize_override_readable [OF ro ov] by (auto simp: normalize_route_override_def)
  show "c_direct_path (row_to_contact r) = or_none (Some dp)" "c_direct_path_len (row_to_contact r) = dl" "c_direct_path_hash_mode (row_to_contact r) = dm"
    "c_route_override_path (row_to_contact r) = or_none op" "c_route_override_len (row_to_contact r) = ol" "c_route_override_hash_mode (row_to_contact r) = om"
    by (simp_all add: row_to_contact_def d ov model_post_init_def D O Let_def del: or_none_some)
qed

lemma row_to_contact_plain [simp]:
  "c_public_key (row_to_contact r) = ro_public_key r" "c_name (row_to_contact r) = ro_name r" "c_type (row_to_contact r) = ro_type r"
  "c_flags (row_to_contact r) = ro_flags r" "c_direct_path_updated_at (row_to_contact r) = ro_direct_path_updated_at r"
  "c_last_advert (row_to_contact r) = ro_last_advert r" "c_lat (row_to_contact r) = ro_lat r" "c_lon (row_to_contact r) = ro_lon r"
  "c_last_seen (row_to_contact r) = ro_last_seen r" "c_on_radio (row_to_contact r) \<longleftrightarrow> ro_on_radio r = Some True"
  "c_last_contacted (row_to_contact r) = ro_last_contacted r" "c_first_seen (row_to_contact r) = ro_first_seen r"
  "c_favorite (row_to_contact r) = ro_favorite r"
  by (simp_all add: row_to_contact_def model_post_init_def Let_def split: prod.splits)

lemma row_to_contact_cong:
  assumes "normalize_contact_route (ro_direct_path r') (ro_direct_path_len r') (ro_direct_path_hash_mode r')
      = normalize_contact_route (ro_direct_path r) (ro_direct_path_len r) (ro_direct_path_hash_mode r)"
    and "normalize_route_override (ro_route_override_path r') (ro_route_override_len r') (ro_route_override_hash_mode r')
      = normalize_route_override (ro_route_override_path r) (ro_route_override_len r) (ro_route_override_hash_mode r)"
    and "ro_public_key r' = ro_public_key r" "ro_name r' = ro_name r" "ro_type r' = ro_type r" "ro_flags r' = ro_flags r"
      "ro_direct_path_updated_at r' = ro_direct_path_updated_at r" "ro_last_advert r' = ro_last_advert r" "ro_lat r' = ro_lat r" "ro_lon r' = ro_lon r"
      "ro_last_seen r' = ro_last_seen r" "(ro_on_radio r' = Some True) = (ro_on_radio r = Some True)" "ro_last_contacted r' = ro_last_contacted r"
      "ro_first_seen r' = ro_first_seen r" "ro_favorite r' = ro_favorite r"
  shows "row_to_contact r' = row_to_contact r"
  unfolding row_to_contact_def assms ..

lemma merge_back:
  assumes "routes_readable r"
  shows "row_to_contact (merged_row (inserted_row (to_upsert (row_to_contact r))) r) = row_to_contact r"
proof -
  obtain dp dl dm where d: "normalize_contact_route (ro_direct_path r) (ro_direct_path_len r) (ro_direct_path_hash_mode r) = (dp, dl, dm)"
    by (metis prod_cases3)
  obtain op ol om where ov: "normalize_route_override (ro_route_override_path r) (ro_route_override_len r) (ro_route_override_hash_mode r) = (op, ol, om)"
    by (metis prod_cases3)
  have rd: "readable_len (ro_direct_path_len r)" and ro: "readable_len (ro_route_override_len r)" using assms by (simp_all add: routes_readable_def)
  note D = normalize_readable [OF rd d] and O = override_again [OF ro ov] and f = row_to_contact_fields [OF assms d ov]
  have or: "or_none op = (case op of None \<Rightarrow> None | Some s \<Rightarrow> or_none (Some s))" by (simp split: option.splits)
  define x where "x = inserted_row (to_upsert (row_to_contact r))"
  have x: "ro_direct_path x = Some dp" "ro_direct_path_len x = Some dl" "ro_direct_path_hash_mode x = Some dm"
    "ro_route_override_path x = op" "ro_route_override_len x = ol" "ro_route_override_hash_mode x = om"
    "ro_name x = ro_name r" "ro_type x = ro_type r" "ro_flags x = ro_flags r" "ro_direct_path_updated_at x = ro_direct_path_updated_at r"
    "ro_last_advert x = ro_last_advert r" "ro_lat x = ro_lat r" "ro_lon x = ro_lon r" "ro_last_seen x = ro_last_seen r"
    "ro_on_radio x = Some (ro_on_radio r = Some True)" "ro_last_contacted x = ro_last_contacted r" "ro_first_seen x = ro_first_seen r"
    unfolding x_def inserted_row_def direct_columns_def to_upsert_def f or
    by (simp_all add: f D O(1) del: or_none_some split: prod.splits)
  show ?thesis unfolding x_def [symmetric]
  proof (rule row_to_contact_cong)
    show "normalize_contact_route (ro_direct_path (merged_row x r)) (ro_direct_path_len (merged_row x r)) (ro_direct_path_hash_mode (merged_row x r))
      = normalize_contact_route (ro_direct_path r) (ro_direct_path_len r) (ro_direct_path_hash_mode r)"
      using D by (simp add: merged_row_def x d)
    show "normalize_route_override (ro_route_override_path (merged_row x r)) (ro_route_override_len (merged_row x r)) (ro_route_override_hash_mode (merged_row x r))
      = normalize_route_override (ro_route_override_path r) (ro_route_override_len r) (ro_route_override_hash_mode r)"
      unfolding ov using normalize_override_readable [OF ro ov] by (auto simp: merged_row_def x normalize_route_override_def)
  qed (simp_all add: merged_row_def x)
qed

text \<open>Writing a stored contact back unchanged changes nothing: the contact read afterwards is the contact read before, and every
  other contact is untouched.\<close>

theorem contact_write_back:
  assumes "contacts_ok rows" and "row_by_key k rows = Some r" and "routes_readable r"
  shows "get_by_key k (contact_upsert (to_upsert (row_to_contact r)) rows) = get_by_key k rows
    \<and> (\<forall>k'. lower k' \<noteq> lower k \<longrightarrow> get_by_key k' (contact_upsert (to_upsert (row_to_contact r)) rows) = get_by_key k' rows)"
proof -
  have r: "r \<in> set rows" "ro_public_key r = lower k" using assms(2) by (auto simp: row_by_key_def find_Some_iff)
  let ?x = "inserted_row (to_upsert (row_to_contact r))"
  have key: "wr_public_key (to_upsert (row_to_contact r)) = lower k" by (simp add: to_upsert_def r(2))
  have up: "contact_upsert (to_upsert (row_to_contact r)) rows = map (\<lambda>s. if ro_public_key s = lower k then merged_row ?x s else s) rows"
    using r by (auto simp: contact_upsert_def Let_def key update_where_def list_ex_iff)
  have row: "row_by_key k' (contact_upsert (to_upsert (row_to_contact r)) rows)
      = map_option (\<lambda>s. if ro_public_key s = lower k then merged_row ?x s else s) (row_by_key k' rows)" for k'
    unfolding up by (rule row_by_key_map) simp
  have "row_by_key k' rows = Some s \<Longrightarrow> ro_public_key s = lower k'" for k' s by (auto simp: row_by_key_def find_Some_iff)
  then show ?thesis using row [of k] row assms(2) r(2) merge_back [OF assms(3)]
    by (auto simp: get_by_key_def option.map_comp intro!: map_option_cong)
qed

theorem contact_write_back_witness:
  "get_by_key ''ab01'' (contact_upsert (to_upsert (row_to_contact (inserted_row (demo_write ''AB01'')))) [inserted_row (demo_write ''AB01'')])
    = get_by_key ''ab01'' [inserted_row (demo_write ''AB01'')]"
proof -
  have "lower (lower ''AB01'') = lower ''AB01''" by (rule lower_idem)
  then have "contacts_ok [inserted_row (demo_write ''AB01'')]" by (simp add: contacts_ok_def)
  moreover have "routes_readable (inserted_row (demo_write ''AB01''))"
  proof -
    have "ro_direct_path_len (inserted_row (demo_write ''AB01'')) = Some 1 \<and> ro_route_override_len (inserted_row (demo_write ''AB01'')) = None" by code_simp
    then show ?thesis by (simp add: routes_readable_def readable_len_def)
  qed
  ultimately show ?thesis using contact_write_back demo_rows(2) by blast
qed

end
