(* ===== verification/DmDelivery.thy ===== *)
theory DmDelivery
  imports Prelude "HOL-Library.AList"
begin

text \<open>
  Delivery of direct messages: the acknowledgement tracker (\<open>src/app/services/dm_ack_tracker.py\<close>),
  the application of an arriving acknowledgement (\<open>src/app/services/dm_ack_apply.py\<close>), the retry
  loop of \<open>src/app/services/message_send.py\<close>, the attempt cap (\<open>src/app/send_attempts.py\<close>) and the
  registry of background sends (\<open>src/app/services/send_tracker.py\<close>).

  The clock is an argument of each operation. The \<open>acked\<close> column of the message table is part of the
  state: \<^const>\<open>None\<close> for a row that does not exist.
\<close>

section \<open>Acknowledgement tracker\<close>

definition BUFFERED_ACK_TTL_SECONDS :: real where "BUFFERED_ACK_TTL_SECONDS = 30"

type_synonym pending_ack = "int \<times> real \<times> int"

record dm_world =
  pending_acks :: "(string \<times> pending_ack) list"
  buffered_acks :: "(string \<times> real) list"
  acked_rows :: "int \<Rightarrow> nat option"

definition track_pending_ack :: "string \<Rightarrow> int \<Rightarrow> int \<Rightarrow> real \<Rightarrow> dm_world \<Rightarrow> bool \<times> dm_world" where
  "track_pending_ack expected_ack message_id timeout_ms now w =
     (case map_of (buffered_acks w) expected_ack of
        Some _ \<Rightarrow> (True, w\<lparr>buffered_acks := AList.delete expected_ack (buffered_acks w)\<rparr>)
      | None \<Rightarrow> (False, w\<lparr>pending_acks := AList.update expected_ack (message_id, now, timeout_ms) (pending_acks w)\<rparr>))"

definition buffer_unmatched_ack :: "string \<Rightarrow> real \<Rightarrow> dm_world \<Rightarrow> dm_world" where
  "buffer_unmatched_ack ack_code now w = w\<lparr>buffered_acks := AList.update ack_code now (buffered_acks w)\<rparr>"

definition cleanup_expired_acks :: "real \<Rightarrow> dm_world \<Rightarrow> dm_world" where
  "cleanup_expired_acks now w =
     w\<lparr>pending_acks := filter (\<lambda>(code, (m, created_at, timeout_ms)). \<not> now - created_at > (of_int timeout_ms / 1000) * 2) (pending_acks w),
       buffered_acks := filter (\<lambda>(code, buffered_at). \<not> now - buffered_at > BUFFERED_ACK_TTL_SECONDS) (buffered_acks w)\<rparr>"

definition pop_pending_ack :: "string \<Rightarrow> dm_world \<Rightarrow> int option \<times> dm_world" where
  "pop_pending_ack ack_code w =
     (map_option fst (map_of (pending_acks w) ack_code), w\<lparr>pending_acks := AList.delete ack_code (pending_acks w)\<rparr>)"

definition clear_pending_acks_for_message :: "int \<Rightarrow> dm_world \<Rightarrow> dm_world" where
  "clear_pending_acks_for_message message_id w =
     w\<lparr>pending_acks := filter (\<lambda>(code, (m, created_at, timeout_ms)). m \<noteq> message_id) (pending_acks w)\<rparr>"

text \<open>\<open>UPDATE messages SET acked = acked + 1 WHERE id = ? RETURNING acked\<close>, and 1 when no row is there.\<close>

definition increment_ack_count :: "int \<Rightarrow> dm_world \<Rightarrow> nat \<times> dm_world" where
  "increment_ack_count message_id w =
     (case acked_rows w message_id of
        None \<Rightarrow> (1, w)
      | Some n \<Rightarrow> (n + 1, w\<lparr>acked_rows := (acked_rows w)(message_id \<mapsto> n + 1)\<rparr>))"

text \<open>The broadcasts: the message id and its count, in order.\<close>

definition apply_dm_ack_code :: "string \<Rightarrow> real \<Rightarrow> dm_world \<Rightarrow> (int \<times> nat) option \<times> dm_world" where
  "apply_dm_ack_code ack_code now w0 =
     (let w1 = cleanup_expired_acks now w0
      in case pop_pending_ack ack_code w1 of
           (None, w2) \<Rightarrow> (None, buffer_unmatched_ack ack_code now w2)
         | (Some message_id, w2) \<Rightarrow>
             (case increment_ack_count message_id (clear_pending_acks_for_message message_id w2) of
                (n, w3) \<Rightarrow> (Some (message_id, n), w3)))"

section \<open>Sending\<close>

definition MIN_MESSAGE_RETRIES :: int where "MIN_MESSAGE_RETRIES = 1"
definition DEFAULT_MAX_MESSAGE_RETRIES :: int where "DEFAULT_MAX_MESSAGE_RETRIES = 3"
definition MAX_MESSAGE_RETRIES :: int where "MAX_MESSAGE_RETRIES = 10"

text \<open>A stored setting: absent, a number, or something \<open>int\<close> refuses.\<close>

datatype setting = Absent | Number int | Unreadable

definition clamp_message_retries :: "setting \<Rightarrow> int" where
  "clamp_message_retries v =
     (case v of Number numeric \<Rightarrow> max MIN_MESSAGE_RETRIES (min MAX_MESSAGE_RETRIES numeric)
      | _ \<Rightarrow> DEFAULT_MAX_MESSAGE_RETRIES)"

definition DEFAULT_DM_ACK_TIMEOUT_MS :: int where "DEFAULT_DM_ACK_TIMEOUT_MS = 10000"
definition DM_RETRY_WAIT_MARGIN :: real where "DM_RETRY_WAIT_MARGIN = 12 / 10"

text \<open>The radio's answer to a send: none, an error, or the expected acknowledgement code (in hexadecimal, possibly absent) and
  the suggested timeout.\<close>

datatype send_result = NoAnswer | ErrorAnswer | SentAnswer "string option" setting

definition extract_expected_ack_code :: "send_result \<Rightarrow> string option" where
  "extract_expected_ack_code result =
     (case result of SentAnswer (Some c) _ \<Rightarrow> if c = [] then None else Some c | _ \<Rightarrow> None)"

definition get_ack_tracking_timeout_ms :: "send_result \<Rightarrow> int" where
  "get_ack_tracking_timeout_ms result =
     (case result of SentAnswer _ (Number t) \<Rightarrow> max 1 t | _ \<Rightarrow> DEFAULT_DM_ACK_TIMEOUT_MS)"

definition apply_direct_message_ack_tracking :: "send_result \<Rightarrow> int \<Rightarrow> real \<Rightarrow> dm_world \<Rightarrow> nat \<times> dm_world" where
  "apply_direct_message_ack_tracking result message_id now w =
     (case extract_expected_ack_code result of
        None \<Rightarrow> (0, w)
      | Some ack_code \<Rightarrow>
          (case track_pending_ack ack_code message_id (get_ack_tracking_timeout_ms result) now w of
             (True, w1) \<Rightarrow> increment_ack_count message_id (clear_pending_acks_for_message message_id w1)
           | (False, w1) \<Rightarrow> (0, w1)))"

definition is_message_acked :: "int \<Rightarrow> dm_world \<Rightarrow> bool" where
  "is_message_acked message_id w = (case acked_rows w message_id of None \<Rightarrow> False | Some n \<Rightarrow> n > 0)"

text \<open>What the other tasks do while the retry loop is suspended: acknowledgements arrive, other messages are registered, the
  user deletes a message.\<close>

datatype dm_event =
    AckArrives string real
  | OtherSend string int int real
  | RowDeleted int

definition dm_step :: "dm_event \<Rightarrow> dm_world \<Rightarrow> dm_world" where
  "dm_step e w =
     (case e of
        AckArrives code now \<Rightarrow> snd (apply_dm_ack_code code now w)
      | OtherSend code m t now \<Rightarrow> snd (apply_direct_message_ack_tracking (SentAnswer (Some code) (Number t)) m now w)
      | RowDeleted m \<Rightarrow> w\<lparr>acked_rows := (acked_rows w)(m := None)\<rparr>)"

text \<open>The radio operation of one round: refused because the radio is busy, failed with an exception (before or after the
  transmission), or answered.\<close>

datatype radio_outcome = RadioBusy | RadioFailed bool | Answered send_result

record retry_round =
  rr_asleep :: "dm_event list"
  rr_outcome :: radio_outcome
  rr_meanwhile :: "dm_event list"
  rr_now :: real

text \<open>What a run did: the waits in seconds, each transmission with its attempt number and whether the path was reset first,
  whether the loop is over, and the state it left.\<close>

record retry_run =
  ru_waits :: "real list"
  ru_sends :: "(int \<times> bool) list"
  ru_over :: bool
  ru_world :: dm_world

definition stop_run :: "bool \<Rightarrow> dm_world \<Rightarrow> retry_run" where
  "stop_run over w = \<lparr>ru_waits = [], ru_sends = [], ru_over = over, ru_world = w\<rparr>"

definition after_send :: "(int \<times> bool) list \<Rightarrow> retry_run \<Rightarrow> retry_run" where
  "after_send sends r = r\<lparr>ru_sends := sends @ ru_sends r\<rparr>"

definition after_wait :: "int \<Rightarrow> retry_run \<Rightarrow> retry_run" where
  "after_wait ms r = r\<lparr>ru_waits := (of_int ms / 1000) * DM_RETRY_WAIT_MARGIN # ru_waits r\<rparr>"

text \<open>The loop, driven by the rounds the environment grants; with no round left it is still waiting.\<close>

fun run_direct_message_retries :: "int \<Rightarrow> int \<Rightarrow> int \<Rightarrow> int \<Rightarrow> retry_round list \<Rightarrow> dm_world \<Rightarrow> retry_run" where
  "run_direct_message_retries max_attempts message_id next_wait_timeout_ms attempt [] w = stop_run (\<not> attempt < max_attempts) w"
| "run_direct_message_retries max_attempts message_id next_wait_timeout_ms attempt (r # rs) w =
     (if \<not> attempt < max_attempts then stop_run True w
      else after_wait next_wait_timeout_ms
        (let w1 = fold dm_step (rr_asleep r) w
         in if is_message_acked message_id w1 then stop_run True w1
         else
           let w2 = fold dm_step (rr_meanwhile r) w1;
               send = (attempt, attempt = max_attempts - 1)
           in case rr_outcome r of
                RadioBusy \<Rightarrow> run_direct_message_retries max_attempts message_id next_wait_timeout_ms attempt rs w2
              | RadioFailed sent \<Rightarrow>
                  after_send (if sent then [send] else [])
                    (run_direct_message_retries max_attempts message_id next_wait_timeout_ms (attempt + 1) rs w2)
              | Answered result \<Rightarrow>
                  after_send [send]
                    (if result = NoAnswer \<or> result = ErrorAnswer
                     then run_direct_message_retries max_attempts message_id next_wait_timeout_ms (attempt + 1) rs w2
                     else if is_message_acked message_id w2 then stop_run True w2
                     else if extract_expected_ack_code result = None
                     then run_direct_message_retries max_attempts message_id next_wait_timeout_ms (attempt + 1) rs w2
                     else
                       (case apply_direct_message_ack_tracking result message_id (rr_now r) w2 of
                          (ack_count, w3) \<Rightarrow>
                            if ack_count > 0 then stop_run True w3
                            else run_direct_message_retries max_attempts message_id (get_ack_tracking_timeout_ms result) (attempt + 1) rs w3))))"

text \<open>What follows a transmission by a send or a manual retry: its code is registered, and unless it counted at once the retries start.\<close>

definition track_and_retry :: "int \<Rightarrow> int \<Rightarrow> send_result \<Rightarrow> real \<Rightarrow> retry_round list \<Rightarrow> dm_world \<Rightarrow> retry_run" where
  "track_and_retry max_attempts message_id result now rs w =
     (case apply_direct_message_ack_tracking result message_id now w of
        (ack_count, w1) \<Rightarrow>
          if ack_count > 0 then stop_run True w1
          else if max_attempts > 1 \<and> extract_expected_ack_code result \<noteq> None
          then run_direct_message_retries max_attempts message_id (get_ack_tracking_timeout_ms result) 1 rs w1
          else stop_run True w1)"

section \<open>Registry of background sends\<close>

text \<open>A task is a number; the scheduler's view of it is the set of finished tasks and the set of tasks asked to cancel.\<close>

record send_registry =
  sr_tasks :: "(int \<times> nat) list"
  sr_done :: "nat set"
  sr_canceled :: "nat set"

definition register :: "int \<Rightarrow> nat \<Rightarrow> send_registry \<Rightarrow> send_registry" where
  "register message_id task s =
     (let canceled = (case map_of (sr_tasks s) message_id of
            Some previous \<Rightarrow> if previous \<noteq> task \<and> previous \<notin> sr_done s then {previous} else {}
          | None \<Rightarrow> {})
      in s\<lparr>sr_canceled := sr_canceled s \<union> canceled, sr_tasks := AList.update message_id task (sr_tasks s)\<rparr>)"

definition deregister :: "int \<Rightarrow> nat \<Rightarrow> send_registry \<Rightarrow> send_registry" where
  "deregister message_id task s =
     (if map_of (sr_tasks s) message_id = Some task then s\<lparr>sr_tasks := AList.delete message_id (sr_tasks s)\<rparr> else s)"

definition is_active :: "int \<Rightarrow> send_registry \<Rightarrow> bool" where
  "is_active message_id s = (case map_of (sr_tasks s) message_id of None \<Rightarrow> False | Some task \<Rightarrow> task \<notin> sr_done s)"

definition cancel :: "int \<Rightarrow> send_registry \<Rightarrow> bool \<times> send_registry" where
  "cancel message_id s =
     (let s1 = s\<lparr>sr_tasks := AList.delete message_id (sr_tasks s)\<rparr>
      in case map_of (sr_tasks s) message_id of
           None \<Rightarrow> (False, s1)
         | Some task \<Rightarrow> if task \<in> sr_done s then (False, s1) else (True, s1\<lparr>sr_canceled := insert task (sr_canceled s1)\<rparr>))"

definition active_message_ids :: "send_registry \<Rightarrow> int list" where
  "active_message_ids s = map fst (filter (\<lambda>(m, task). task \<notin> sr_done s) (sr_tasks s))"

text \<open>A task that ends runs its done callback, which deregisters it.\<close>

definition task_ends :: "int \<Rightarrow> nat \<Rightarrow> send_registry \<Rightarrow> send_registry" where
  "task_ends message_id task s = deregister message_id task (s\<lparr>sr_done := insert task (sr_done s)\<rparr>)"

section \<open>Tracker invariant\<close>

lemmas ack_defs = track_pending_ack_def buffer_unmatched_ack_def cleanup_expired_acks_def pop_pending_ack_def
  clear_pending_acks_for_message_def increment_ack_count_def

definition keys :: "('k \<times> 'v) list \<Rightarrow> 'k set" where
  "keys xs = fst ` set xs"

lemma keys_delete [simp]: "keys (AList.delete k xs) = keys xs - {k}"
  by (auto simp: keys_def AList.delete_eq image_iff)

lemma keys_update [simp]: "keys (AList.update k v xs) = insert k (keys xs)"
  by (simp add: keys_def dom_update)

lemma keys_filter: "keys (filter P xs) \<subseteq> keys xs"
  by (auto simp: keys_def)

lemma map_of_keys: "map_of xs k = None \<longleftrightarrow> k \<notin> keys xs"
  by (simp add: keys_def map_of_eq_None_iff)

definition ack_inv :: "dm_world \<Rightarrow> bool" where
  "ack_inv w \<longleftrightarrow> distinct (map fst (pending_acks w)) \<and> distinct (map fst (buffered_acks w))
     \<and> keys (pending_acks w) \<inter> keys (buffered_acks w) = {}"

lemma distinct_keys_filter: "distinct (map fst xs) \<Longrightarrow> distinct (map fst (filter P xs))"
  by (induction xs) auto

lemma inv_track: "ack_inv w \<Longrightarrow> ack_inv (snd (track_pending_ack c m t now w))"
  by (auto simp: ack_inv_def track_pending_ack_def distinct_update distinct_delete map_of_keys split: option.splits)

lemma inv_cleanup: "ack_inv w \<Longrightarrow> ack_inv (cleanup_expired_acks now w)"
  unfolding ack_inv_def cleanup_expired_acks_def
  using keys_filter [of _ "pending_acks w"] keys_filter [of _ "buffered_acks w"]
  by (simp add: distinct_keys_filter) blast

lemma inv_clear: "ack_inv w \<Longrightarrow> ack_inv (clear_pending_acks_for_message m w)"
  unfolding ack_inv_def clear_pending_acks_for_message_def
  using keys_filter [of _ "pending_acks w"] by (simp add: distinct_keys_filter) blast

lemma inv_increment: "ack_inv w \<Longrightarrow> ack_inv (snd (increment_ack_count m w))"
  by (simp add: ack_inv_def increment_ack_count_def split: option.split)

lemma inv_pop: "ack_inv w \<Longrightarrow> pop_pending_ack c w = (r, w') \<Longrightarrow> ack_inv w' \<and> c \<notin> keys (pending_acks w')"
  by (auto simp: ack_inv_def pop_pending_ack_def distinct_delete)

lemma inv_apply: "ack_inv w \<Longrightarrow> ack_inv (snd (apply_dm_ack_code c now w))"
proof -
  assume w: "ack_inv w"
  obtain r w2 where p: "pop_pending_ack c (cleanup_expired_acks now w) = (r, w2)" by fastforce
  note P = inv_pop [OF inv_cleanup [OF w] p]
  have "ack_inv (buffer_unmatched_ack c now w2)"
    using P by (auto simp: ack_inv_def buffer_unmatched_ack_def distinct_update)
  moreover have "ack_inv (snd (increment_ack_count m (clear_pending_acks_for_message m w2)))" for m
    using P inv_clear inv_increment by blast
  ultimately show ?thesis by (simp add: apply_dm_ack_code_def Let_def p split: option.split prod.split)
    (metis snd_conv)
qed

lemma inv_tracking: "ack_inv w \<Longrightarrow> ack_inv (snd (apply_direct_message_ack_tracking res m now w))"
proof -
  assume w: "ack_inv w"
  have "ack_inv w1" if "track_pending_ack c m t now w = (b, w1)" for c t b w1
    using inv_track [OF w, of c m t now] that by simp
  then show ?thesis using w inv_clear inv_increment
    by (auto simp: apply_direct_message_ack_tracking_def split: option.splits prod.splits bool.splits)
qed

lemma inv_step: "ack_inv w \<Longrightarrow> ack_inv (dm_step e w)"
  using inv_apply inv_tracking by (auto simp: dm_step_def ack_inv_def split: dm_event.splits)

interpretation acks: invariant_machine dm_step ack_inv
  by unfold_locales (rule inv_step)

section \<open>One acknowledgement per message\<close>

definition no_pending :: "int \<Rightarrow> dm_world \<Rightarrow> bool" where
  "no_pending m w \<longleftrightarrow> list_all (\<lambda>(c, (m', t, ms)). m' \<noteq> m) (pending_acks w)"

definition registers :: "int \<Rightarrow> dm_event \<Rightarrow> bool" where
  "registers m e = (case e of OtherSend c m' t now \<Rightarrow> m' = m | _ \<Rightarrow> False)"

lemma pending_increment [simp]: "pending_acks (snd (increment_ack_count m w)) = pending_acks w"
  by (simp add: increment_ack_count_def split: option.split)

lemma increment_positive [simp]: "0 < fst (increment_ack_count m w)"
  by (simp add: increment_ack_count_def split: option.split)

lemma apply_cases:
  obtains (buffered) w' where "apply_dm_ack_code c now w = (None, w')" "set (pending_acks w') \<subseteq> set (pending_acks w)"
  | (matched) m n w' t ms where "apply_dm_ack_code c now w = (Some (m, n), w')" "(c, m, t, ms) \<in> set (pending_acks w)"
      "set (pending_acks w') \<subseteq> set (pending_acks w)" "no_pending m w'"
proof -
  let ?w1 = "cleanup_expired_acks now w"
  have sub: "set (AList.delete c (pending_acks ?w1)) \<subseteq> set (pending_acks w)"
    by (auto simp: cleanup_expired_acks_def AList.delete_eq)
  show thesis
  proof (cases "map_of (pending_acks ?w1) c")
    case None
    then show thesis using sub buffered
      by (simp add: apply_dm_ack_code_def Let_def pop_pending_ack_def buffer_unmatched_ack_def)
  next
    case (Some p)
    obtain m t ms where p: "p = (m, t, ms)" by (cases p)
    let ?w2 = "?w1\<lparr>pending_acks := AList.delete c (pending_acks ?w1)\<rparr>"
    let ?r = "increment_ack_count m (clear_pending_acks_for_message m ?w2)"
    have "apply_dm_ack_code c now w = (Some (m, fst ?r), snd ?r)"
      using Some by (simp add: apply_dm_ack_code_def Let_def pop_pending_ack_def p split: prod.split)
    moreover have "(c, m, t, ms) \<in> set (pending_acks w)"
      using map_of_SomeD [OF Some] by (simp add: p cleanup_expired_acks_def)
    moreover have "set (pending_acks (snd ?r)) \<subseteq> set (pending_acks w)" "no_pending m (snd ?r)"
      using sub by (auto simp: clear_pending_acks_for_message_def no_pending_def list_all_iff)
    ultimately show thesis using matched by blast
  qed
qed

lemma tracking_pending:
  "set (pending_acks (snd (apply_direct_message_ack_tracking res m now w)))
     \<subseteq> set (pending_acks w) \<union> {(c, m', t, ms). m' = m}"
proof -
  have "set (AList.update k v xs) \<subseteq> insert (k, v) (set xs)" for k and v :: pending_ack and xs
    by (induction xs) auto
  then show ?thesis
    by (fastforce simp: apply_direct_message_ack_tracking_def track_pending_ack_def clear_pending_acks_for_message_def
        split: option.splits prod.splits bool.splits)
qed

lemma no_pending_subset: "no_pending m w \<Longrightarrow> set (pending_acks w') \<subseteq> set (pending_acks w) \<Longrightarrow> no_pending m w'"
  by (auto simp: no_pending_def list_all_iff)

lemma acked_apply:
  "acked_rows (snd (apply_dm_ack_code c now w)) m =
     (case map_of (pending_acks (cleanup_expired_acks now w)) c of
        None \<Rightarrow> acked_rows w m
      | Some (m', t, ms) \<Rightarrow> if m' = m then map_option Suc (acked_rows w m) else acked_rows w m)"
  by (auto simp: apply_dm_ack_code_def Let_def pop_pending_ack_def buffer_unmatched_ack_def increment_ack_count_def
      clear_pending_acks_for_message_def cleanup_expired_acks_def split: option.splits prod.splits)

lemma acked_tracking:
  "acked_rows (snd (apply_direct_message_ack_tracking res m' now w)) m =
     (case extract_expected_ack_code res of
        None \<Rightarrow> acked_rows w m
      | Some c \<Rightarrow> if m' = m \<and> map_of (buffered_acks w) c \<noteq> None then map_option Suc (acked_rows w m) else acked_rows w m)"
  by (auto simp: apply_direct_message_ack_tracking_def track_pending_ack_def clear_pending_acks_for_message_def increment_ack_count_def
      split: option.splits)

text \<open>The count of a message is at most one, and nothing of it is awaited once it is one.\<close>

definition settled_once :: "int \<Rightarrow> dm_world \<Rightarrow> bool" where
  "settled_once m w \<longleftrightarrow> (case acked_rows w m of None \<Rightarrow> True | Some n \<Rightarrow> n = 0 \<or> n = 1 \<and> no_pending m w)"

lemma settled_step:
  assumes s: "settled_once m w" and e: "\<not> registers m e"
  shows "settled_once m (dm_step e w)"
proof (cases e)
  case (AckArrives c now)
  have st: "dm_step e w = snd (apply_dm_ack_code c now w)" by (simp add: AckArrives dm_step_def)
  show ?thesis
  proof (cases rule: apply_cases [of c now w])
    case (buffered w')
    then have "acked_rows w' m = acked_rows w m"
      by (auto simp: apply_dm_ack_code_def Let_def pop_pending_ack_def buffer_unmatched_ack_def cleanup_expired_acks_def
          split: option.splits prod.splits)
    then show ?thesis using s buffered no_pending_subset [of m w w'] by (auto simp: st settled_once_def split: option.splits)
  next
    case (matched m' n w' t ms)
    have acked: "acked_rows w' m = (if m' = m then map_option Suc (acked_rows w m) else acked_rows w m)"
      using matched(1) by (auto simp: apply_dm_ack_code_def Let_def pop_pending_ack_def increment_ack_count_def
          clear_pending_acks_for_message_def cleanup_expired_acks_def split: option.splits prod.splits)
    have "acked_rows w m \<noteq> Some 1" if "m' = m"
      using s matched(2) that by (auto simp: settled_once_def no_pending_def list_all_iff)
    then show ?thesis using s matched(1,3,4) acked no_pending_subset [of m w w'] by (auto simp: st settled_once_def split: option.splits)
  qed
next
  case (OtherSend c m' t now)
  let ?r = "SentAnswer (Some c) (Number t)"
  have "m' \<noteq> m" using e OtherSend by (simp add: registers_def)
  then have "acked_rows (dm_step e w) m = acked_rows w m" "no_pending m w \<Longrightarrow> no_pending m (dm_step e w)"
    using tracking_pending [of ?r m' now w] by (auto simp: OtherSend dm_step_def acked_tracking no_pending_def list_all_iff split: option.split)
  then show ?thesis using s by (auto simp: settled_once_def split: option.splits)
next
  case (RowDeleted m')
  then show ?thesis using s by (auto simp: dm_step_def settled_once_def no_pending_def split: option.splits)
qed

lemma settled_run: "settled_once m w \<Longrightarrow> list_all (\<lambda>e. \<not> registers m e) es \<Longrightarrow> settled_once m (fold dm_step es w)"
  by (induction es arbitrary: w) (simp_all add: settled_step)

text \<open>Registering a code keeps this as long as the message is not acknowledged yet.\<close>

lemma settled_tracking:
  assumes "settled_once m w" and "\<not> is_message_acked m w"
  shows "settled_once m (snd (apply_direct_message_ack_tracking res m now w))"
proof -
  have n: "acked_rows w m = None \<or> acked_rows w m = Some 0" using assms by (auto simp: is_message_acked_def split: option.splits)
  show ?thesis
  proof (cases "extract_expected_ack_code res")
    case None
    then show ?thesis using assms(1) by (simp add: apply_direct_message_ack_tracking_def)
  next
    case (Some c)
    have "no_pending m (snd (apply_direct_message_ack_tracking res m now w))" if "map_of (buffered_acks w) c \<noteq> None"
      using that Some by (auto simp: apply_direct_message_ack_tracking_def track_pending_ack_def clear_pending_acks_for_message_def
          no_pending_def list_all_iff)
    then show ?thesis using n by (auto simp: settled_once_def acked_tracking Some)
  qed
qed

definition unregistering :: "int \<Rightarrow> retry_round list \<Rightarrow> bool" where
  "unregistering m rs \<longleftrightarrow> list_all (\<lambda>r. list_all (\<lambda>e. \<not> registers m e) (rr_asleep r @ rr_meanwhile r)) rs"

lemma ru_world_after [simp]: "ru_world (after_wait ms r) = ru_world r" "ru_world (after_send xs r) = ru_world r" "ru_world (stop_run b w) = w"
  by (simp_all add: after_wait_def after_send_def stop_run_def)

lemma settled_retries:
  "settled_once m w \<Longrightarrow> unregistering m rs \<Longrightarrow> settled_once m (ru_world (run_direct_message_retries max_attempts m wait attempt rs w))"
proof (induction rs arbitrary: wait attempt w)
  case (Cons r rs)
  define w1 where "w1 = fold dm_step (rr_asleep r) w"
  define w2 where "w2 = fold dm_step (rr_meanwhile r) w1"
  have rs: "unregistering m rs" using Cons.prems(2) by (simp add: unregistering_def)
  have 1: "settled_once m w1" "settled_once m w2" using settled_run Cons.prems by (auto simp: w1_def w2_def unregistering_def)
  note IH = Cons.IH [OF _ rs]
  have 3: "settled_once m w3" if "apply_direct_message_ack_tracking res m now w2 = (n, w3)" "\<not> is_message_acked m w2" for res now n w3
    using settled_tracking [OF 1(2) that(2), of res now] that(1) by simp
  show ?case
    using Cons.prems(1) 1 IH 3
    by (auto simp: Let_def simp flip: w1_def w2_def split: radio_outcome.splits prod.splits)
qed simp


definition two_attempts :: dm_world where
  "two_attempts = \<lparr>pending_acks = [(''aa'', (7, 0, 4000)), (''bb'', (7, 1, 4000))], buffered_acks = [], acked_rows = [7 \<mapsto> 0]\<rparr>"

text \<open>The second attempt is acknowledged while the third one is on the air.\<close>

definition crossing_round :: retry_round where
  "crossing_round = \<lparr>rr_asleep = [], rr_outcome = Answered (SentAnswer (Some ''dd'') Absent), rr_meanwhile = [AckArrives ''bb'' 3], rr_now = 4\<rparr>"


text \<open>Events that do not concern a message or one of its codes; acknowledgements come up to a given time.\<close>

definition unrelated :: "string \<Rightarrow> int \<Rightarrow> (real \<Rightarrow> bool) \<Rightarrow> dm_event \<Rightarrow> bool" where
  "unrelated c m soon e =
     (case e of AckArrives c' t \<Rightarrow> c' \<noteq> c \<and> soon t | OtherSend c' m' ms t \<Rightarrow> c' \<noteq> c \<and> m' \<noteq> m | RowDeleted m' \<Rightarrow> m' \<noteq> m)"

lemma map_of_kept_key: "distinct (map fst xs) \<Longrightarrow> map_of xs k = Some v \<Longrightarrow> map_of (filter P xs) k = (if P (k, v) then Some v else None)"
  by (induction xs) (auto simp: map_of_eq_None_iff image_iff dest!: map_of_SomeD)

text \<open>A registered code stays registered.\<close>

definition awaiting :: "string \<Rightarrow> int \<Rightarrow> real \<Rightarrow> int \<Rightarrow> nat \<Rightarrow> dm_world \<Rightarrow> bool" where
  "awaiting c m t0 ms n w \<longleftrightarrow> ack_inv w \<and> map_of (pending_acks w) c = Some (m, t0, ms) \<and> acked_rows w m = Some n
     \<and> list_all (\<lambda>(c', (m', t, ms')). m' = m \<longrightarrow> c' = c) (pending_acks w)"

text \<open>An early acknowledgement stays buffered.\<close>

definition remembered :: "string \<Rightarrow> int \<Rightarrow> real option set \<Rightarrow> nat \<Rightarrow> dm_world \<Rightarrow> bool" where
  "remembered c m ts n w \<longleftrightarrow> ack_inv w \<and> map_of (buffered_acks w) c \<in> ts \<and> map_of (pending_acks w) c = None
     \<and> acked_rows w m = Some n \<and> no_pending m w"

lemma expected_code [simp]: "extract_expected_ack_code (SentAnswer (Some c) t) = (if c = [] then None else Some c)"
  by (simp add: extract_expected_ack_code_def)

lemma awaiting_step:
  assumes a: "awaiting c m t0 ms n w" and e: "unrelated c m (\<lambda>t. t - t0 \<le> of_int ms / 1000 * 2) e"
  shows "awaiting c m t0 ms n (dm_step e w)"
proof -
  have inv: "ack_inv (dm_step e w)" using a inv_step by (simp add: awaiting_def)
  have d: "distinct (map fst (pending_acks w))" and c: "map_of (pending_acks w) c = Some (m, t0, ms)" using a by (simp_all add: awaiting_def ack_inv_def)
  show ?thesis
  proof (cases e)
    case (AckArrives c' t)
    have e': "c' \<noteq> c" "t - t0 \<le> of_int ms / 1000 * 2" using e by (simp_all add: AckArrives unrelated_def)
    let ?w1 = "cleanup_expired_acks t w"
    have k: "map_of (pending_acks ?w1) c = Some (m, t0, ms)" using map_of_kept_key [OF d c] e'(2) by (simp add: cleanup_expired_acks_def)
    have d1: "distinct (map fst (pending_acks ?w1))" using distinct_keys_filter [OF d] by (simp add: cleanup_expired_acks_def)
    have own: "m' \<noteq> m" if "map_of (pending_acks ?w1) c' = Some (m', t', ms')" for m' t' ms'
      using map_of_SomeD [OF that] a e'(1) by (auto simp: awaiting_def cleanup_expired_acks_def list_all_iff)
    have "map_of (AList.delete c' (pending_acks ?w1)) c = Some (m, t0, ms)" using k e'(1) by (simp add: delete_conv')
    then have kept: "map_of (filter (\<lambda>(code, (m'', created_at, timeout_ms)). m'' \<noteq> m') (AList.delete c' (pending_acks ?w1))) c = Some (m, t0, ms)"
      if "m' \<noteq> m" for m' using map_of_kept_key [OF distinct_delete [OF d1, of c']] that by simp
    have sub: "set (pending_acks (dm_step e w)) \<subseteq> set (pending_acks w)"
      by (cases rule: apply_cases [of c' t w]) (simp_all add: AckArrives dm_step_def)
    have "acked_rows (dm_step e w) m = Some n" using own a
      by (auto simp: AckArrives dm_step_def acked_apply awaiting_def split: option.split)
    moreover have "map_of (pending_acks (dm_step e w)) c = Some (m, t0, ms)"
    proof (cases "map_of (pending_acks ?w1) c'")
      case None
      then show ?thesis using k e'(1)
        by (simp add: AckArrives dm_step_def apply_dm_ack_code_def Let_def pop_pending_ack_def buffer_unmatched_ack_def delete_conv')
    next
      case (Some p)
      obtain m' t' ms' where p: "p = (m', t', ms')" by (cases p)
      have "pending_acks (dm_step e w) = filter (\<lambda>(code, (m'', created_at, timeout_ms)). m'' \<noteq> m') (AList.delete c' (pending_acks ?w1))"
        using Some by (simp add: AckArrives dm_step_def apply_dm_ack_code_def Let_def pop_pending_ack_def p clear_pending_acks_for_message_def
            increment_ack_count_def split: option.split)
      then show ?thesis using kept own Some p by simp
    qed
    ultimately show ?thesis using inv a sub by (auto simp: awaiting_def list_all_iff)
  next
    case (OtherSend c' m' ms' t)
    have e': "c' \<noteq> c" "m' \<noteq> m" using e by (simp_all add: OtherSend unrelated_def)
    have kept: "map_of (filter (\<lambda>(code, (m'', created_at, timeout_ms)). m'' \<noteq> m') (pending_acks w)) c = Some (m, t0, ms)"
      using map_of_kept_key [OF d c] e'(2) by simp
    then have "map_of (pending_acks (dm_step e w)) c = Some (m, t0, ms)" using c e'
      by (auto simp: OtherSend dm_step_def apply_direct_message_ack_tracking_def track_pending_ack_def clear_pending_acks_for_message_def
          increment_ack_count_def update_conv' split: option.splits)
    moreover have "acked_rows (dm_step e w) m = Some n" using a e'(2)
      by (auto simp: OtherSend dm_step_def acked_tracking awaiting_def split: option.split)
    ultimately show ?thesis using inv a tracking_pending [of "SentAnswer (Some c') (Number ms')" m' t w] e'(2)
      by (fastforce simp: OtherSend dm_step_def awaiting_def list_all_iff)
  next
    case (RowDeleted m')
    then show ?thesis using a e inv by (simp add: dm_step_def awaiting_def unrelated_def ack_inv_def)
  qed
qed

lemma buffered_apply:
  "c' \<noteq> c \<Longrightarrow> map_of (buffered_acks (dm_step (AckArrives c' t) w)) c = map_of (buffered_acks (cleanup_expired_acks t w)) c"
  by (auto simp: dm_step_def apply_dm_ack_code_def Let_def pop_pending_ack_def buffer_unmatched_ack_def clear_pending_acks_for_message_def
      increment_ack_count_def update_conv' split: option.split prod.split)

lemma remembered_step:
  assumes a: "remembered c m ts n w" and e: "unrelated c m soon e"
    and ts: "\<And>t0 t. Some t0 \<in> ts \<Longrightarrow> soon t \<Longrightarrow> t - t0 > BUFFERED_ACK_TTL_SECONDS \<Longrightarrow> None \<in> ts"
  shows "remembered c m ts n (dm_step e w)"
proof -
  have inv: "ack_inv (dm_step e w)" using a inv_step by (simp add: remembered_def)
  have d: "distinct (map fst (buffered_acks w))" and c: "map_of (buffered_acks w) c \<in> ts" and np: "no_pending m w" and ac: "acked_rows w m = Some n"
    and pc: "map_of (pending_acks w) c = None" using a by (simp_all add: remembered_def ack_inv_def)
  show ?thesis
  proof (cases e)
    case (AckArrives c' t)
    have e': "c' \<noteq> c" "soon t" using e by (simp_all add: AckArrives unrelated_def)
    have k: "map_of (buffered_acks (cleanup_expired_acks t w)) c \<in> ts"
    proof (cases "map_of (buffered_acks w) c")
      case None
      then have "map_of (buffered_acks (cleanup_expired_acks t w)) c = None"
        by (simp add: cleanup_expired_acks_def map_of_keys) (meson keys_filter subsetD)
      then show ?thesis using c None by simp
    next
      case (Some t0)
      then show ?thesis using map_of_kept_key [OF d Some] ts [OF _ e'(2), of t0] c by (auto simp: cleanup_expired_acks_def)
    qed
    have own: "m' \<noteq> m" if "map_of (pending_acks (cleanup_expired_acks t w)) c' = Some (m', t', ms')" for m' t' ms'
      using map_of_SomeD [OF that] np by (auto simp: no_pending_def cleanup_expired_acks_def list_all_iff)
    have sub: "set (pending_acks (dm_step e w)) \<subseteq> set (pending_acks w)"
      by (cases rule: apply_cases [of c' t w]) (simp_all add: AckArrives dm_step_def)
    have "acked_rows (dm_step e w) m = Some n" using own ac
      by (auto simp: AckArrives dm_step_def acked_apply split: option.split)
    moreover have "map_of (buffered_acks (dm_step e w)) c \<in> ts" using k buffered_apply [OF e'(1)] by (simp add: AckArrives)
    moreover have "map_of (pending_acks (dm_step e w)) c = None" using pc sub by (auto simp: map_of_eq_None_iff)
    ultimately show ?thesis using inv no_pending_subset [OF np sub] by (simp add: remembered_def)
  next
    case (OtherSend c' m' ms' t)
    have e': "c' \<noteq> c" "m' \<noteq> m" using e by (simp_all add: OtherSend unrelated_def)
    have "map_of (buffered_acks (dm_step e w)) c = map_of (buffered_acks w) c" using e'(1)
      by (auto simp: OtherSend dm_step_def apply_direct_message_ack_tracking_def track_pending_ack_def clear_pending_acks_for_message_def
          increment_ack_count_def delete_conv' split: option.splits)
    moreover have "map_of (pending_acks (dm_step e w)) c = None" using pc e'(1)
      by (auto simp: OtherSend dm_step_def apply_direct_message_ack_tracking_def track_pending_ack_def clear_pending_acks_for_message_def
          increment_ack_count_def map_of_keys split: option.splits dest: subsetD [OF keys_filter])
    moreover have "acked_rows (dm_step e w) m = Some n" using ac e'(2)
      by (auto simp: OtherSend dm_step_def acked_tracking split: option.split)
    ultimately show ?thesis using inv c np tracking_pending [of "SentAnswer (Some c') (Number ms')" m' t w] e'(2)
      by (fastforce simp: OtherSend dm_step_def remembered_def no_pending_def list_all_iff)
  next
    case (RowDeleted m')
    then show ?thesis using a e inv by (simp add: dm_step_def remembered_def unrelated_def ack_inv_def no_pending_def)
  qed
qed

lemma awaiting_run: "awaiting c m t0 ms n w \<Longrightarrow> list_all (unrelated c m (\<lambda>t. t - t0 \<le> of_int ms / 1000 * 2)) es \<Longrightarrow> awaiting c m t0 ms n (fold dm_step es w)"
  by (induction es arbitrary: w) (simp_all add: awaiting_step)

lemma remembered_run:
  assumes "\<And>t0 t. Some t0 \<in> ts \<Longrightarrow> soon t \<Longrightarrow> t - t0 > BUFFERED_ACK_TTL_SECONDS \<Longrightarrow> None \<in> ts"
  shows "remembered c m ts n w \<Longrightarrow> list_all (unrelated c m soon) es \<Longrightarrow> remembered c m ts n (fold dm_step es w)"
proof (induction es arbitrary: w)
  case (Cons e es)
  have "remembered c m ts n (dm_step e w)" by (rule remembered_step [where soon = soon, OF Cons.prems(1) _ assms]) (use Cons.prems(2) in simp_all)
  then show ?case using Cons by simp
qed simp

lemma register_awaits:
  assumes "c \<noteq> []" and "ack_inv w" and "map_of (buffered_acks w) c = None" and "no_pending m w" and "acked_rows w m = Some n" and "1 \<le> ms"
  shows "awaiting c m t0 ms n (dm_step (OtherSend c m ms t0) w)"
proof -
  have up: "set (AList.update c (m, t0, ms) xs) \<subseteq> insert (c, m, t0, ms) (set xs)" for xs by (induction xs) auto
  have st: "dm_step (OtherSend c m ms t0) w = w\<lparr>pending_acks := AList.update c (m, t0, ms) (pending_acks w)\<rparr>"
    using assms(1,3,6) by (simp add: dm_step_def apply_direct_message_ack_tracking_def get_ack_tracking_timeout_ms_def track_pending_ack_def)
  have "ack_inv (dm_step (OtherSend c m ms t0) w)" using inv_step assms(2) by blast
  then show ?thesis using assms(4,5) up [of "pending_acks w"] by (auto simp: awaiting_def st update_conv' no_pending_def list_all_iff)
qed

lemma early_remembered:
  assumes "ack_inv w" and "map_of (pending_acks w) c = None" and "no_pending m w" and "acked_rows w m = Some n"
  shows "remembered c m {Some t0} n (dm_step (AckArrives c t0) w)"
proof -
  have none: "map_of (pending_acks (cleanup_expired_acks t0 w)) c = None"
    using assms(2) by (simp add: cleanup_expired_acks_def map_of_keys) (meson keys_filter subsetD)
  have st: "dm_step (AckArrives c t0) w = buffer_unmatched_ack c t0 (snd (pop_pending_ack c (cleanup_expired_acks t0 w)))"
    using none by (simp add: dm_step_def apply_dm_ack_code_def Let_def pop_pending_ack_def)
  have sub: "set (pending_acks (dm_step (AckArrives c t0) w)) \<subseteq> set (pending_acks w)"
    by (cases rule: apply_cases [of c t0 w]) (simp_all add: dm_step_def)
  have "map_of (pending_acks (dm_step (AckArrives c t0) w)) c = None" using assms(2) sub by (auto simp: map_of_eq_None_iff)
  moreover have "map_of (buffered_acks (dm_step (AckArrives c t0) w)) c = Some t0" by (simp add: st buffer_unmatched_ack_def update_conv')
  moreover have "acked_rows (dm_step (AckArrives c t0) w) m = Some n" using none assms(4) by (simp add: dm_step_def acked_apply)
  ultimately show ?thesis using inv_step [OF assms(1)] no_pending_subset [OF assms(3) sub] by (simp add: remembered_def)
qed

text \<open>C36: The acknowledgement and the registration of its code may come in either order, within the time limits of the tracker and whatever
  unrelated messages and acknowledgements come in between. A code that is acknowledged within twice its timeout counts once; so does a
  code registered within 30 seconds of its acknowledgement; and once another acknowledgement arrives more than 30 seconds after the
  early one, the early one is forgotten and a later registration only waits.\<close>

theorem ack_either_order:
  assumes "c \<noteq> []" and "ack_inv w" and "map_of (pending_acks w) c = None" and "map_of (buffered_acks w) c = None"
    and "no_pending m w" and "acked_rows w m = Some n" and "1 \<le> ms"
    and "list_all (unrelated c m (\<lambda>t. t - t0 \<le> of_int ms / 1000 * 2)) es1" and "t1 - t0 \<le> of_int ms / 1000 * 2"
    and "list_all (unrelated c m (\<lambda>t. t - t0 \<le> BUFFERED_ACK_TTL_SECONDS)) es2" and "t2 - t0 \<le> BUFFERED_ACK_TTL_SECONDS"
    and "list_all (unrelated c m (\<lambda>t. True)) es3" and "c' \<noteq> c" and "t3 - t0 > BUFFERED_ACK_TTL_SECONDS"
  shows "acked_rows (fold dm_step (OtherSend c m ms t0 # es1 @ [AckArrives c t1]) w) m = Some (n + 1)
    \<and> acked_rows (fold dm_step (AckArrives c t0 # es2 @ [OtherSend c m ms t2]) w) m = Some (n + 1)
    \<and> acked_rows (fold dm_step (AckArrives c t0 # es3 @ [AckArrives c' t3, OtherSend c m ms t4]) w) m = Some n"
proof (intro conjI)
  let ?w = "fold dm_step es1 (dm_step (OtherSend c m ms t0) w)"
  have a: "awaiting c m t0 ms n ?w" by (rule awaiting_run [OF register_awaits [OF assms(1,2,4-7)] assms(8)])
  then have "map_of (pending_acks (cleanup_expired_acks t1 ?w)) c = Some (m, t0, ms)"
    using map_of_kept_key [of "pending_acks ?w" c] assms(9) by (simp add: awaiting_def ack_inv_def cleanup_expired_acks_def)
  then have "acked_rows (dm_step (AckArrives c t1) ?w) m = Some (n + 1)" using a by (simp add: dm_step_def acked_apply awaiting_def)
  then show "acked_rows (fold dm_step (OtherSend c m ms t0 # es1 @ [AckArrives c t1]) w) m = Some (n + 1)" by simp
  note early = early_remembered [OF assms(2,3,5,6), of t0]
  let ?v = "fold dm_step es2 (dm_step (AckArrives c t0) w)"
  have "remembered c m {Some t0} n ?v" by (rule remembered_run [OF _ early assms(10)]) auto
  then have "acked_rows (dm_step (OtherSend c m ms t2) ?v) m = Some (n + 1)" using assms(1) by (simp add: dm_step_def acked_tracking remembered_def)
  then show "acked_rows (fold dm_step (AckArrives c t0 # es2 @ [OtherSend c m ms t2]) w) m = Some (n + 1)" by simp
  have wide: "remembered c m {Some t0, None} n (dm_step (AckArrives c t0) w)" using early by (simp add: remembered_def)
  let ?u = "fold dm_step es3 (dm_step (AckArrives c t0) w)"
  have u: "remembered c m {Some t0, None} n ?u" by (rule remembered_run [OF _ wide assms(12)]) simp
  have "unrelated c m (\<lambda>t. True) (AckArrives c' t3)" using assms(13) by (simp add: unrelated_def)
  then have u1: "remembered c m {Some t0, None} n (dm_step (AckArrives c' t3) ?u)" by (rule remembered_step [OF u]) simp
  have "map_of (buffered_acks (cleanup_expired_acks t3 ?u)) c = None"
  proof (cases "map_of (buffered_acks ?u) c")
    case None
    then show ?thesis by (simp add: cleanup_expired_acks_def map_of_keys) (meson keys_filter subsetD)
  next
    case (Some t)
    then have "t = t0" using u by (simp add: remembered_def)
    then show ?thesis using map_of_kept_key [of "buffered_acks ?u" c t0] Some u assms(14) by (simp add: remembered_def ack_inv_def cleanup_expired_acks_def)
  qed
  then have "map_of (buffered_acks (dm_step (AckArrives c' t3) ?u)) c = None" by (simp only: buffered_apply [OF assms(13)])
  then have "acked_rows (dm_step (OtherSend c m ms t4) (dm_step (AckArrives c' t3) ?u)) m = Some n"
    using u1 assms(1) by (simp add: dm_step_def acked_tracking remembered_def)
  then show "acked_rows (fold dm_step (AckArrives c t0 # es3 @ [AckArrives c' t3, OtherSend c m ms t4]) w) m = Some n" by simp
qed

definition other_pending :: dm_world where
  "other_pending = \<lparr>pending_acks = [(''aa'', (8, 0, 4000))], buffered_acks = [], acked_rows = [7 \<mapsto> 0, 8 \<mapsto> 0]\<rparr>"

theorem ack_either_order_witness:
  "acked_rows (fold dm_step (OtherSend ''cc'' 7 4000 0 # [AckArrives ''aa'' 1] @ [AckArrives ''cc'' 5]) other_pending) 7 = Some 1
   \<and> acked_rows (fold dm_step (AckArrives ''cc'' 0 # [AckArrives ''aa'' 1] @ [OtherSend ''cc'' 7 4000 20]) other_pending) 7 = Some 1
   \<and> acked_rows (fold dm_step (AckArrives ''cc'' 0 # [] @ [AckArrives ''aa'' 31, OtherSend ''cc'' 7 4000 32]) other_pending) 7 = Some 0"
  using ack_either_order [of "''cc''" other_pending 7 0 4000 0 "[AckArrives ''aa'' 1]" 5 "[AckArrives ''aa'' 1]" 20 "[]" "''aa''" 31 32]
  by (simp add: other_pending_def ack_inv_def keys_def no_pending_def unrelated_def BUFFERED_ACK_TTL_SECONDS_def del: fold_simps)

text \<open>Without another acknowledgement in between nothing expires: a code registered any time after its acknowledgement counts.\<close>

lemma late_registration_counts:
  assumes "c \<noteq> []" and "ack_inv w" and "map_of (pending_acks w) c = None" and "no_pending m w" and "acked_rows w m = Some n"
  shows "acked_rows (fold dm_step [AckArrives c t0, OtherSend c m ms t2] w) m = Some (n + 1)"
  using early_remembered [OF assms(2-5), of t0] assms(1) by (simp add: remembered_def) (simp add: dm_step_def acked_tracking)

section \<open>Retries\<close>

lemmas run_simps = stop_run_def after_send_def after_wait_def

text \<open>The transmissions of a run: numbered upwards from the current attempt, below the cap, the path reset exactly on the last.\<close>

definition paced :: "int \<Rightarrow> int \<Rightarrow> (int \<times> bool) list \<Rightarrow> bool" where
  "paced lo hi sends \<longleftrightarrow> sorted_wrt (<) (map fst sends) \<and> list_all (\<lambda>(a, r). lo \<le> a \<and> a < hi \<and> (r \<longleftrightarrow> a = hi - 1)) sends"

lemma paced_Nil [simp]: "paced lo hi []"
  by (simp add: paced_def)

lemma paced_weaken: "paced (lo + 1) hi sends \<Longrightarrow> paced lo hi sends"
  by (auto simp: paced_def list_all_iff)

lemma paced_Cons: "lo < hi \<Longrightarrow> paced (lo + 1) hi sends \<Longrightarrow> paced lo hi ((lo, lo = hi - 1) # sends)"
  by (auto simp: paced_def list_all_iff )

text \<open>One round of the loop: it stops, it waits for a busy radio, or it uses up an attempt.\<close>

lemma run_round:
  assumes "attempt < max_attempts"
  obtains (stop) sends w' where "sends = [] \<or> sends = [(attempt, attempt = max_attempts - 1)]"
      "run_direct_message_retries max_attempts m wait attempt (r # rs) w = after_wait wait (after_send sends (stop_run True w'))"
  | (busy) w' where "rr_outcome r = RadioBusy"
      "run_direct_message_retries max_attempts m wait attempt (r # rs) w
         = after_wait wait (run_direct_message_retries max_attempts m wait attempt rs w')"
  | (more) sends wait' w' where "sends = [] \<or> sends = [(attempt, attempt = max_attempts - 1)]" "rr_outcome r \<noteq> RadioBusy"
      "run_direct_message_retries max_attempts m wait attempt (r # rs) w
         = after_wait wait (after_send sends (run_direct_message_retries max_attempts m wait' (attempt + 1) rs w'))"
proof -
  define w1 where "w1 = fold dm_step (rr_asleep r) w"
  define w2 where "w2 = fold dm_step (rr_meanwhile r) w1"
  note eq = run_direct_message_retries.simps(2) [of max_attempts m wait attempt r rs w, folded w1_def, unfolded Let_def, folded w2_def]
  have none: "after_send [] x = x" for x by (simp add: after_send_def)
  show thesis
  proof (cases "is_message_acked m w1")
    case True
    then show thesis using stop [of "[]" w1] assms eq by (simp add: none)
  next
    case False
    show thesis
    proof (cases "rr_outcome r")
      case RadioBusy
      then show thesis using busy [of w2] assms eq False by simp
    next
      case (RadioFailed sent)
      then show thesis using more [of "if sent then [(attempt, attempt = max_attempts - 1)] else []" wait w2] assms eq False by auto
    next
      case (Answered result)
      obtain n w3 where a: "apply_direct_message_ack_tracking result m (rr_now r) w2 = (n, w3)" by fastforce
      let ?s = "[(attempt, attempt = max_attempts - 1)]"
      consider "result = NoAnswer \<or> result = ErrorAnswer" | "\<not> (result = NoAnswer \<or> result = ErrorAnswer)" "is_message_acked m w2"
        | "\<not> (result = NoAnswer \<or> result = ErrorAnswer)" "\<not> is_message_acked m w2" by blast
      then show thesis
      proof cases
        case 1
        then show thesis using more [of ?s wait w2] Answered assms eq False by simp
      next
        case 2
        then show thesis using stop [of ?s w2] Answered assms eq False by simp
      next
        case 3
        then have eq3: "run_direct_message_retries max_attempts m wait attempt (r # rs) w = after_wait wait (after_send ?s
            (if extract_expected_ack_code result = None then run_direct_message_retries max_attempts m wait (attempt + 1) rs w2
             else if n > 0 then stop_run True w3
             else run_direct_message_retries max_attempts m (get_ack_tracking_timeout_ms result) (attempt + 1) rs w3))"
          using Answered assms eq False a by simp
        show thesis
        proof (cases "extract_expected_ack_code result = None")
          case True
          then show thesis using more [of ?s wait w2] eq3 Answered by simp
        next
          case False
          show thesis
          proof (cases "n > 0")
            case True
            then show thesis using stop [of ?s w3, OF _ eq3 [unfolded if_not_P [OF False] if_P [OF True]]] by simp
          next
            case n: False
            show thesis
              using more [of ?s "get_ack_tracking_timeout_ms result" w3, OF _ _ eq3 [unfolded if_not_P [OF False] if_not_P [OF n]]]
                Answered by simp
          qed
        qed
      qed
    qed
  qed
qed

lemma ru_after [simp]:
  "ru_sends (after_wait ms x) = ru_sends x" "ru_over (after_wait ms x) = ru_over x"
  "ru_sends (after_send s x) = s @ ru_sends x" "ru_over (after_send s x) = ru_over x"
  "ru_sends (stop_run b w) = []" "ru_over (stop_run b w) = b"
  by (simp_all add: run_simps)

lemma run_paced: "paced attempt max_attempts (ru_sends (run_direct_message_retries max_attempts m wait attempt rs w))"
proof (induction rs arbitrary: wait attempt w)
  case (Cons r rs)
  show ?case
  proof (cases "attempt < max_attempts")
    case True
    show ?thesis
      by (rule run_round [OF True, of m wait r rs w])
        (use Cons paced_Cons [OF True] paced_weaken in \<open>auto simp del: run_direct_message_retries.simps\<close>)
  qed simp
qed simp

lemma paced_length: "paced lo hi sends \<Longrightarrow> length sends \<le> nat (hi - lo)"
proof (induction sends arbitrary: lo)
  case (Cons s sends)
  obtain a b where s: "s = (a, b)" by fastforce
  have "paced (a + 1) hi sends" and a: "lo \<le> a" "a < hi" using Cons.prems by (auto simp: paced_def s list_all_iff)
  with Cons.IH [of "a + 1"] show ?case by simp
qed simp

text \<open>The run ends at the first look at the row that finds the message acknowledged.\<close>

lemma run_stops_acked:
  "is_message_acked m (fold dm_step (rr_asleep r) (ru_world (run_direct_message_retries max_attempts m wait attempt rs1 w))) \<Longrightarrow>
     ru_sends (run_direct_message_retries max_attempts m wait attempt (rs1 @ r # rs2) w) = ru_sends (run_direct_message_retries max_attempts m wait attempt rs1 w)
     \<and> ru_over (run_direct_message_retries max_attempts m wait attempt (rs1 @ r # rs2) w)"
proof (induction rs1 arbitrary: wait attempt w)
  case (Cons r0 rs1)
  define w1 where "w1 = fold dm_step (rr_asleep r0) w"
  define w2 where "w2 = fold dm_step (rr_meanwhile r0) w1"
  show ?case using Cons by (auto simp: Let_def simp flip: w1_def w2_def split: radio_outcome.splits prod.splits if_splits)
qed simp

lemma run_ends:
  "int (length (filter (\<lambda>r. rr_outcome r \<noteq> RadioBusy) rs)) \<ge> max_attempts - attempt
     \<Longrightarrow> ru_over (run_direct_message_retries max_attempts m wait attempt rs w)"
proof (induction rs arbitrary: wait attempt w)
  case (Cons r rs)
  show ?case
  proof (cases "attempt < max_attempts")
    case True
    show ?thesis
      by (rule run_round [OF True, of m wait r rs w])
        (use Cons in \<open>auto simp del: run_direct_message_retries.simps\<close>)
  qed simp
qed simp

text \<open>C24: The retry loop keeps its budget: with the caller's own transmission as attempt 1, at most as many messages go on air as the
  cap allows, with attempt numbers that only rise, and the path is reset exactly before the last. Whenever the message is acknowledged at
  the end of a wait, after any number of rounds, the loop is over and nothing more is sent; and as long as the radio is not busy the loop is
  over after the remaining attempts.\<close>

theorem retry_budget:
  assumes "run = run_direct_message_retries max_attempts m wait 1 rs w"
  shows "1 + int (length (ru_sends run)) \<le> max 1 max_attempts \<and> paced 1 max_attempts (ru_sends run)
    \<and> (\<forall>rs1 r rs2. rs = rs1 @ r # rs2
         \<and> is_message_acked m (fold dm_step (rr_asleep r) (ru_world (run_direct_message_retries max_attempts m wait 1 rs1 w)))
         \<longrightarrow> ru_over run \<and> ru_sends run = ru_sends (run_direct_message_retries max_attempts m wait 1 rs1 w))
    \<and> (int (length (filter (\<lambda>r. rr_outcome r \<noteq> RadioBusy) rs)) \<ge> max_attempts - 1 \<longrightarrow> ru_over run)"
proof -
  have p: "paced 1 max_attempts (ru_sends run)" using run_paced assms by simp
  then have "1 + int (length (ru_sends run)) \<le> max 1 max_attempts" using paced_length [OF p] by linarith
  then show ?thesis using p run_stops_acked [of m _ max_attempts wait 1 _ w] run_ends [of max_attempts 1 rs m wait w] assms by blast
qed

definition silent_round :: retry_round where
  "silent_round = \<lparr>rr_asleep = [], rr_outcome = Answered (SentAnswer (Some ''dd'') Absent), rr_meanwhile = [], rr_now = 9\<rparr>"

text \<open>One round passes without an acknowledgement; that of an earlier attempt comes in the wait after it.\<close>

definition late_round :: retry_round where
  "late_round = silent_round\<lparr>rr_asleep := [AckArrives ''bb'' 5]\<rparr>"

theorem retry_budget_witness:
  "ru_sends (run_direct_message_retries 5 7 4000 1 ([silent_round] @ late_round # [silent_round, silent_round]) two_attempts) = [(1, False)]"
proof -
  have "ru_sends (run_direct_message_retries 5 7 4000 1 [silent_round] two_attempts) = [(1, False)]
      \<and> is_message_acked 7 (fold dm_step (rr_asleep late_round) (ru_world (run_direct_message_retries 5 7 4000 1 [silent_round] two_attempts)))"
    by code_simp
  then show ?thesis using retry_budget [OF refl, of 5 7 4000 "[silent_round] @ late_round # [silent_round, silent_round]" two_attempts] by metis
qed

section \<open>Background sends\<close>

text \<open>The histories of the registry: which tasks were ever started for which message.\<close>

inductive registry_history :: "(int \<times> nat) set \<Rightarrow> send_registry \<Rightarrow> bool" where
  empty: "registry_history {} \<lparr>sr_tasks = [], sr_done = {}, sr_canceled = {}\<rparr>"
| start: "registry_history started s \<Longrightarrow> task \<notin> snd ` started \<Longrightarrow> registry_history (insert (m, task) started) (register m task s)"
| ends: "registry_history started s \<Longrightarrow> (m, task) \<in> started \<Longrightarrow> registry_history started (task_ends m task s)"
| stop: "registry_history started s \<Longrightarrow> registry_history started (snd (cancel m s))"

lemma registry_sound:
  assumes "registry_history started s"
  shows "inj_on snd started \<and> sr_done s \<subseteq> snd ` started
    \<and> (\<forall>m t. map_of (sr_tasks s) m = Some t \<longrightarrow> (m, t) \<in> started)
    \<and> (\<forall>m t. (m, t) \<in> started \<and> t \<notin> sr_done s \<and> t \<notin> sr_canceled s \<longrightarrow> map_of (sr_tasks s) m = Some t)"
  using assms
proof (induction rule: registry_history.induct)
  case (start started s task m)
  let ?s = "register m task s"
  have tasks: "map_of (sr_tasks ?s) = (map_of (sr_tasks s))(m \<mapsto> task)" and dn: "sr_done ?s = sr_done s"
    by (simp_all add: register_def Let_def update_conv')
  have old: "t \<in> sr_canceled ?s" if "map_of (sr_tasks s) m = Some t" "t \<noteq> task" "t \<notin> sr_done s" for t
    using that by (simp add: register_def Let_def)
  have kept: "t \<in> sr_canceled s \<Longrightarrow> t \<in> sr_canceled ?s" for t by (simp add: register_def Let_def)
  have live: "map_of (sr_tasks ?s) m' = Some t" if "(m', t) \<in> insert (m, task) started" "t \<notin> sr_done s" "t \<notin> sr_canceled ?s" for m' t
  proof (cases "(m', t) = (m, task)")
    case False
    then have "(m', t) \<in> started" using that(1) by blast
    moreover from this have "t \<in> snd ` started" by (simp add: rev_image_eqI)
    then have "t \<noteq> task" using start.hyps(2) by blast
    moreover have "t \<notin> sr_canceled s" using kept that(3) by blast
    ultimately have "map_of (sr_tasks s) m' = Some t" "t \<noteq> task"
      using start.IH [THEN conjunct2, THEN conjunct2, THEN conjunct2, rule_format] that(2) by simp_all
    then show ?thesis using old that(2,3) by (cases "m' = m") (auto simp: tasks)
  qed (simp add: tasks)
  have reg: "(m', t) \<in> insert (m, task) started" if "map_of (sr_tasks ?s) m' = Some t" for m' t
    using that start.IH [THEN conjunct2, THEN conjunct2, THEN conjunct1, rule_format, of m' t] by (auto simp: tasks split: if_splits)
  have "inj_on snd (insert (m, task) started)" using start.IH [THEN conjunct1] start.hyps(2) by (auto simp: inj_on_insert)
  moreover have "sr_done ?s \<subseteq> snd ` insert (m, task) started" using start.IH [THEN conjunct2, THEN conjunct1] by (auto simp: dn)
  moreover have "\<forall>m' t. map_of (sr_tasks ?s) m' = Some t \<longrightarrow> (m', t) \<in> insert (m, task) started" using reg by blast
  moreover have "\<forall>m' t. (m', t) \<in> insert (m, task) started \<and> t \<notin> sr_done ?s \<and> t \<notin> sr_canceled ?s \<longrightarrow> map_of (sr_tasks ?s) m' = Some t"
    unfolding dn using live by blast
  ultimately show ?case by (intro conjI)
next
  case (ends started s m task)
  let ?s = "task_ends m task s"
  note IH = ends.IH [THEN conjunct2, THEN conjunct2]
  have tasks: "map_of (sr_tasks ?s) = (if map_of (sr_tasks s) m = Some task then (map_of (sr_tasks s))(m := None) else map_of (sr_tasks s))"
    and dn: "sr_done ?s = insert task (sr_done s)" and ca: "sr_canceled ?s = sr_canceled s"
    by (simp_all add: task_ends_def deregister_def delete_conv')
  have "map_of (sr_tasks ?s) m' = Some t" if "(m', t) \<in> started \<and> t \<notin> sr_done ?s \<and> t \<notin> sr_canceled ?s" for m' t
    using IH [THEN conjunct2, rule_format, of m' t] that by (auto simp: tasks dn ca)
  moreover have "(m', t) \<in> started" if "map_of (sr_tasks ?s) m' = Some t" for m' t
    using IH [THEN conjunct1, rule_format, of m' t] that by (simp add: tasks split: if_splits)
  moreover have "sr_done ?s \<subseteq> snd ` started" using ends.IH [THEN conjunct2, THEN conjunct1] rev_image_eqI [OF ends.hyps(2), of task snd] by (simp add: dn)
  ultimately show ?case using ends.IH [THEN conjunct1] by blast
next
  case (stop started s m)
  let ?s = "snd (cancel m s)"
  note IH = stop.IH [THEN conjunct2, THEN conjunct2]
  have tasks: "map_of (sr_tasks ?s) = (map_of (sr_tasks s))(m := None)" and dn: "sr_done ?s = sr_done s"
    and ca: "sr_canceled ?s = (case map_of (sr_tasks s) m of None \<Rightarrow> sr_canceled s
      | Some t \<Rightarrow> if t \<in> sr_done s then sr_canceled s else insert t (sr_canceled s))"
    by (simp_all add: cancel_def Let_def delete_conv' split: option.split)
  have "map_of (sr_tasks ?s) m' = Some t" if "(m', t) \<in> started \<and> t \<notin> sr_done ?s \<and> t \<notin> sr_canceled ?s" for m' t
    using IH [THEN conjunct2, rule_format, of m' t] that by (auto simp: tasks dn ca split: option.splits if_splits)
  moreover have "(m', t) \<in> started" if "map_of (sr_tasks ?s) m' = Some t" for m' t
    using IH [THEN conjunct1, rule_format, of m' t] that by (simp add: tasks split: if_splits)
  ultimately show ?case using stop.IH [THEN conjunct1] stop.IH [THEN conjunct2, THEN conjunct1] dn by blast
qed simp_all

text \<open>A message never has two live sends: of all the tasks ever started for it, every one that has neither finished nor been
  asked to stop is the registered one; and cancelling a message leaves it with no live send at all.\<close>

theorem one_live_send:
  assumes "registry_history started s" and "(m, t) \<in> started" and "t \<notin> sr_done s" and "t \<notin> sr_canceled s"
  shows "map_of (sr_tasks s) m = Some t \<and> is_active m s \<and> fst (cancel m s) \<and> t \<in> sr_canceled (snd (cancel m s))
    \<and> (\<forall>t'. (m, t') \<in> started \<and> t' \<notin> sr_done s \<and> t' \<notin> sr_canceled s \<longrightarrow> t' = t)"
proof -
  note live = registry_sound [OF assms(1), THEN conjunct2, THEN conjunct2, THEN conjunct2, rule_format]
  have r: "map_of (sr_tasks s) m = Some t" using live assms(2-4) by simp
  moreover have "t' = t" if "(m, t') \<in> started \<and> t' \<notin> sr_done s \<and> t' \<notin> sr_canceled s" for t'
    using live [OF that] r by simp
  ultimately show ?thesis using assms(3) by (auto simp: is_active_def cancel_def Let_def)
qed

theorem one_live_send_witness:
  "is_active 7 (register 7 2 (register 7 1 \<lparr>sr_tasks = [], sr_done = {}, sr_canceled = {}\<rparr>))"
proof -
  let ?s1 = "register 7 1 \<lparr>sr_tasks = [], sr_done = {}, sr_canceled = {}\<rparr>"
  have "registry_history (insert (7, 2) (insert (7, 1) {})) (register 7 2 ?s1)"
    by (rule registry_history.start, rule registry_history.start, rule registry_history.empty) simp_all
  from one_live_send [OF this, of 7 2] show ?thesis by (simp add: register_def)
qed

lemma clamp_in_range: "1 \<le> clamp_message_retries v \<and> clamp_message_retries v \<le> 10
    \<and> (v = Number n \<and> 1 \<le> n \<and> n \<le> 10 \<longrightarrow> clamp_message_retries v = n)"
  by (cases v) (auto simp: clamp_message_retries_def MIN_MESSAGE_RETRIES_def MAX_MESSAGE_RETRIES_def DEFAULT_MAX_MESSAGE_RETRIES_def)

end
