(* ===== verification/ChannelDelivery.thy ===== *)
theory ChannelDelivery
  imports ChannelData "HOL-Library.Multiset"
begin

text \<open>
  Correctness of the binary image transport: the blob codec, the shape of a split, recovery of one
  missing chunk from parity (through a locale of commuting, self-inverse folds), and the delivery of an
  image through the reassembler under reordering, duplication and loss. The reassembler's tables are
  shown bounded as an instance of the shared invariant locale.
\<close>

section \<open>Chunk blobs\<close>

lemmas chunk_consts = BLOB_BYTES_def CHUNK_HEADER_BYTES_def PARITY_LENGTH_BYTES_def BODY_BYTES_def
  METADATA_BYTES_def MAX_DATA_CHUNKS_def CHUNK_ZERO_IMAGE_BYTES_def

lemma BODY_BYTES_val: "BODY_BYTES = 158" and CHUNK_ZERO_val: "CHUNK_ZERO_IMAGE_BYTES = 157"
  by (simp_all add: chunk_consts)

lemma prefix_bytes_value:
  "p < 65536 \<Longrightarrow> prefix_bytes p = [a, b] \<Longrightarrow> push_bit 8 (unat a AND 255) OR (unat b AND 255) = p"
  using or_push_bit [of "p mod 256" 8 "p div 256"] by (auto simp: prefix_bytes_def and_255 drop_bit_eq_div)

lemma chunk_position_byte:
  assumes "i \<le> (15::nat)" "t \<le> 15"
  shows "unat (byte_of (push_bit 4 (i AND 15) OR (t AND 15))) AND 15 = t"
    and "drop_bit 4 (unat (byte_of (push_bit 4 (i AND 15) OR (t AND 15)))) AND 15 = i"
proof -
  have "push_bit 4 (i AND 15) OR (t AND 15) = 16 * i + t"
    using assms or_push_bit [of t 4 i] by (simp add: and_15)
  then show "unat (byte_of (push_bit 4 (i AND 15) OR (t AND 15))) AND 15 = t"
    and "drop_bit 4 (unat (byte_of (push_bit 4 (i AND 15) OR (t AND 15)))) AND 15 = i"
    using assms by (simp_all add: and_15 drop_bit_eq_div)
qed

definition encode_chunk :: "ChannelDataChunk \<Rightarrow> bytes res" where
  "encode_chunk c = build_chunk_blob (int (ch_sender_prefix c)) (int (ch_img_id c)) (int (ch_index c))
     (int (ch_total c)) (ch_body c)"

lemma parse_encode_chunk:
  assumes "ch_body c \<noteq> []" and "encode_chunk c = Inr blob"
  shows "parse_chunk_blob blob = Some c"
proof -
  have g: "ch_sender_prefix c < 65536" "ch_img_id c < 256" "1 \<le> ch_total c" "ch_total c \<le> 15" "ch_index c \<le> ch_total c"
    and blob: "blob = prefix_bytes (ch_sender_prefix c) @ [byte_of (ch_img_id c AND 255),
      byte_of (push_bit 4 (ch_index c AND 15) OR (ch_total c AND 15))] @ ch_body c"
    using assms(2) by (auto simp: encode_chunk_def build_chunk_blob_def MAX_DATA_CHUNKS_def)
  obtain a b where ab: "prefix_bytes (ch_sender_prefix c) = [a, b]" by (simp add: prefix_bytes_def)
  have "0 < length (ch_body c)" using assms(1) by simp
  then show ?thesis
    using g prefix_bytes_value [OF g(1) ab] chunk_position_byte [of "ch_index c" "ch_total c"]
    by (simp add: parse_chunk_blob_def blob ab CHUNK_HEADER_BYTES_def Let_def and_255)
qed

interpretation chunk_codec: wire_codec encode_chunk parse_chunk_blob "\<lambda>c. c" "\<lambda>c. ch_body c \<noteq> []"
  using parse_encode_chunk by unfold_locales

section \<open>Splitting\<close>

text \<open>What splitting promises: the bodies in order are the metadata byte and the bitstream, every body
  but the last is full, and none is empty.\<close>

lemma split_shape:
  assumes "split_image_bodies bitstream meta = Inr bodies"
  shows "concat bodies = byte_of (nat meta) # bitstream" "bodies \<noteq> []" "length bodies \<le> 15"
    and "0 \<le> meta" "meta \<le> 255"
    and "\<And>i. i < length bodies \<Longrightarrow> bodies ! i \<noteq> [] \<and> length (bodies ! i) \<le> BODY_BYTES"
    and "\<And>i. Suc i < length bodies \<Longrightarrow> length (bodies ! i) = BODY_BYTES"
proof -
  let ?rest = "drop CHUNK_ZERO_IMAGE_BYTES bitstream"
  have b: "bodies = (byte_of (nat meta) # take CHUNK_ZERO_IMAGE_BYTES bitstream) # chunks BODY_BYTES ?rest"
    and m: "0 \<le> meta" "meta \<le> 255" and n: "length bodies \<le> 15"
    using assms by (auto simp: split_image_bodies_def Let_def MAX_DATA_CHUNKS_def split: if_splits)
  show "0 \<le> meta" "meta \<le> 255" "length bodies \<le> 15" "bodies \<noteq> []" using b m n by simp_all
  show "concat bodies = byte_of (nat meta) # bitstream" by (simp add: b BODY_BYTES_val)
  show "bodies ! i \<noteq> [] \<and> length (bodies ! i) \<le> BODY_BYTES" if "i < length bodies" for i
  proof (cases i)
    case 0
    then show ?thesis by (simp add: b CHUNK_ZERO_val BODY_BYTES_val)
  next
    case (Suc j)
    then have "bodies ! i \<in> set (chunks BODY_BYTES ?rest)" using that by (simp add: b)
    then show ?thesis using chunks_length_le by blast
  qed
  have full: "length (chunks m xs ! i) = m" if "0 < m" "Suc i < length (chunks m xs)" for m i and xs :: bytes
    using that
  proof (induction m xs arbitrary: i rule: chunks.induct)
    case (1 m xs)
    show ?case
    proof (cases "xs = []")
      case False
      then have c: "chunks m xs = take m xs # chunks m (drop m xs)" using 1 by (simp add: chunks.simps [of m xs])
      show ?thesis
      proof (cases i)
        case 0
        then have "chunks m (drop m xs) \<noteq> []" using 1(3) c by auto
        then have "drop m xs \<noteq> []" by auto
        then show ?thesis using 0 c by simp
      next
        case (Suc j)
        then show ?thesis using 1 False c by simp
      qed
    qed (use 1 in simp)
  qed
  show "length (bodies ! i) = BODY_BYTES" if "Suc i < length bodies" for i
  proof (cases i)
    case 0
    then have "chunks BODY_BYTES ?rest \<noteq> []" using that b by auto
    then have "?rest \<noteq> []" by auto
    then show ?thesis using 0 by (simp add: b CHUNK_ZERO_val BODY_BYTES_val)
  next
    case (Suc j)
    then show ?thesis using full [of BODY_BYTES j ?rest] that by (simp add: b BODY_BYTES_val)
  qed
qed

section \<open>Parity\<close>

text \<open>A body as the parity sees it: padded with zeros to the full size.\<close>

definition pad :: "bytes \<Rightarrow> bytes" where
  "pad body = body @ replicate (BODY_BYTES - length body) 0"

definition xorl :: "bytes \<Rightarrow> bytes \<Rightarrow> bytes" where
  "xorl xs ys = map2 (XOR) xs ys"

lemma length_pad: "length b \<le> BODY_BYTES \<Longrightarrow> length (pad b) = BODY_BYTES"
  by (simp add: pad_def)

lemma length_xorl [simp]: "length (xorl xs ys) = min (length xs) (length ys)"
  by (simp add: xorl_def)

lemma xorl_nth: "i < length xs \<Longrightarrow> i < length ys \<Longrightarrow> xorl xs ys ! i = xs ! i XOR ys ! i"
  by (simp add: xorl_def)

lemma xor_into_pad:
  assumes "length body \<le> BODY_BYTES" "length acc = BODY_BYTES"
  shows "xor_into acc body = Inr (xorl acc (pad body))"
proof -
  have "map2 (XOR) (take (length body) acc) body @ drop (length body) acc = xorl acc (pad body)"
    by (rule nth_equalityI) (use assms in \<open>auto simp: xorl_nth pad_def nth_append min_def length_pad\<close>)
  then show ?thesis using assms by (simp add: xor_into_def)
qed

lemma xor_bodies_fold:
  assumes "\<forall>b \<in> set bodies. length b \<le> BODY_BYTES" "length acc = BODY_BYTES"
  shows "xor_bodies bodies (l, acc)
    = Inr (fold (\<lambda>b l. l XOR length b) bodies l, fold (\<lambda>b acc. xorl acc (pad b)) bodies acc)"
  using assms
proof (induction bodies arbitrary: l acc)
  case (Cons b bodies)
  then have "length (xorl acc (pad b)) = BODY_BYTES" by (simp add: length_pad)
  then show ?case using Cons by (simp add: xor_into_pad)
qed simp

lemma length_fold_xorl:
  "\<forall>b \<in> set bodies. length b \<le> BODY_BYTES \<Longrightarrow> length acc = BODY_BYTES \<Longrightarrow>
     length (fold (\<lambda>b acc. xorl acc (pad b)) bodies acc) = BODY_BYTES"
  by (induction bodies arbitrary: acc) (auto simp: length_pad)

lemma xor_nat_less: "x < 2 ^ n \<Longrightarrow> y < 2 ^ n \<Longrightarrow> (x::nat) XOR y < 2 ^ n"
  by (metis take_bit_nat_eq_self take_bit_nat_less_exp take_bit_xor)

lemma fold_xor_bound: "(\<forall>b \<in> set bodies. length b < 256) \<Longrightarrow> (l::nat) < 256 \<Longrightarrow>
    fold (\<lambda>b l. l XOR length b) bodies l < 256"
proof (induction bodies arbitrary: l)
  case (Cons b bodies)
  have "l XOR length b < 2 ^ 8" by (rule xor_nat_less) (use Cons.prems in simp_all)
  then show ?case using Cons by simp
qed simp

text \<open>
  Why one missing item comes back: the steps commute and undo themselves, so folding the surviving
  items over the fold of all of them leaves the missing one.
\<close>

locale parity =
  fixes f :: "'a \<Rightarrow> 's \<Rightarrow> 's" and ok :: "'a \<Rightarrow> bool" and inv :: "'s \<Rightarrow> bool"
  assumes comm: "f x (f y s) = f y (f x s)"
    and undo: "ok x \<Longrightarrow> inv s \<Longrightarrow> f x (f x s) = s"
    and keeps: "ok x \<Longrightarrow> inv s \<Longrightarrow> inv (f x s)"
begin

lemma fold_comm: "fold f xs (f x s) = f x (fold f xs s)"
  by (induction xs arbitrary: s) (simp_all add: comm [of _ x])

lemma fold_twice: "list_all ok xs \<Longrightarrow> inv s \<Longrightarrow> fold f xs (fold f xs s) = s"
  by (induction xs arbitrary: s) (simp_all add: fold_comm undo keeps flip: fold_comm)

lemma fold_perm: "mset xs = mset ys \<Longrightarrow> fold f xs s = fold f ys s"
  using fold_multiset_equiv [of xs f ys] comm by (simp add: fun_eq_iff)

lemma missing:
  assumes "mset xs = mset (x # ys)" "list_all ok (x # ys)" "inv s"
  shows "fold f ys (fold f xs s) = f x s"
  using assms fold_perm [OF assms(1), of s] fold_twice [of ys "f x s"] keeps [of x s] by simp

end

interpretation len_parity: parity "\<lambda>(b::bytes) (l::nat). l XOR length b" "\<lambda>_. True" "\<lambda>_. True"
  by unfold_locales (simp_all add: xor.assoc xor.commute xor.left_commute)

interpretation body_parity: parity "\<lambda>b acc. xorl acc (pad b)" "\<lambda>b. length b \<le> BODY_BYTES"
  "\<lambda>acc. length acc = BODY_BYTES"
proof (unfold_locales, goal_cases)
  case (1 x y s)
  show ?case by (rule nth_equalityI) (simp_all add: xorl_nth xor.assoc xor.commute xor.left_commute)
next
  case (2 x s)
  then show ?case by (intro nth_equalityI) (simp_all add: xorl_nth length_pad xor.assoc)
qed (simp add: length_pad)

lemma xorl_zero: "length b \<le> BODY_BYTES \<Longrightarrow> xorl (replicate BODY_BYTES 0) (pad b) = pad b"
  by (rule nth_equalityI) (simp_all add: xorl_nth length_pad)

section \<open>Recovery\<close>

text \<open>An entry that holds exactly the chunks with indexes in \<open>D\<close> of the image with bodies \<open>bs\<close>.\<close>

definition holds :: "bytes list \<Rightarrow> bytes \<Rightarrow> nat set \<Rightarrow> PendingImage \<Rightarrow> bool" where
  "holds bs par D e \<longleftrightarrow> pi_total e = length bs \<and> distinct (map fst (pi_bodies e))
     \<and> set (pi_bodies e) = (\<lambda>i. (i, bs ! i)) ` {i \<in> D. i < length bs}
     \<and> pi_parity_body e = (if length bs \<in> D then Some par else None)"

lemma holds_map_of:
  assumes "holds bs par D e" "i < length bs"
  shows "map_of (pi_bodies e) i = (if i \<in> D then Some (bs ! i) else None)"
proof (cases "i \<in> D")
  case True
  then have "(i, bs ! i) \<in> set (pi_bodies e)" using assms by (auto simp: holds_def)
  then show ?thesis using assms(1) True by (simp add: holds_def map_of_eq_Some_iff)
next
  case False
  then have "i \<notin> fst ` set (pi_bodies e)" using assms by (auto simp: holds_def)
  then show ?thesis using False by (simp add: map_of_eq_None_iff)
qed

lemma holds_length:
  assumes "holds bs par D e"
  shows "length (pi_bodies e) = card {i \<in> D. i < length bs}"
proof -
  have "length (pi_bodies e) = card (set (map fst (pi_bodies e)))"
    using assms distinct_card [of "map fst (pi_bodies e)"] by (simp add: holds_def)
  also have "set (map fst (pi_bodies e)) = {i \<in> D. i < length bs}"
    using assms by (force simp: holds_def image_image)
  finally show ?thesis .
qed

lemma holds_complete: "holds bs par D e \<Longrightarrow> is_complete e \<longleftrightarrow> {..<length bs} \<subseteq> D"
proof -
  assume h: "holds bs par D e"
  have "list_all (\<lambda>i. map_of (pi_bodies e) i \<noteq> None) [0..<pi_total e] \<longleftrightarrow> {..<length bs} \<subseteq> D"
  proof -
    have "map_of (pi_bodies e) i \<noteq> None \<longleftrightarrow> i \<in> D" if "i < length bs" for i
      using holds_map_of [OF h that] by simp
    then have "(\<forall>i \<in> {..<length bs}. map_of (pi_bodies e) i \<noteq> None) \<longleftrightarrow> {..<length bs} \<subseteq> D"
      unfolding subset_eq by (meson lessThan_iff)
    moreover have "pi_total e = length bs" using h by (simp add: holds_def)
    ultimately show ?thesis by (simp only: list_all_iff set_upt atLeast0LessThan)
  qed
  moreover have "length (pi_bodies e) = pi_total e" if "{..<length bs} \<subseteq> D"
  proof -
    have "{i \<in> D. i < length bs} = {..<length bs}" using that by auto
    then show ?thesis using holds_length [OF h] h by (simp add: holds_def)
  qed
  ultimately show ?thesis by (auto simp: is_complete_def)
qed

lemma holds_first_missing:
  assumes "holds bs par D e" "{..<length bs} - D = {k}"
  shows "first_missing e = Some k" "length (pi_bodies e) + 1 = length bs" "k < length bs"
proof -
  show k: "k < length bs" using assms(2) by auto
  have m: "map_of (pi_bodies e) i = None \<longleftrightarrow> i = k" if "i < length bs" for i
    using holds_map_of [OF assms(1) that] assms(2) that by auto
  show "first_missing e = Some k"
    unfolding first_missing_def find_Some_iff
    using assms(1) k m by (intro exI [of _ k]) (simp add: holds_def)
  have "{i \<in> D. i < length bs} = {..<length bs} - {k}" using assms(2) by auto
  then show "length (pi_bodies e) + 1 = length bs" using holds_length [OF assms(1)] k by simp
qed

lemma holds_values:
  assumes "holds bs par D e" "{..<length bs} - D = {k}"
  shows "mset bs = mset (bs ! k # map snd (pi_bodies e))"
proof -
  have k: "k < length bs" using assms(2) by auto
  let ?rest = "filter (\<lambda>i. i \<noteq> k) [0..<length bs]"
  have eq: "mset (pi_bodies e) = mset (map (\<lambda>i. (i, bs ! i)) ?rest)"
  proof (subst set_eq_iff_mset_eq_distinct [symmetric])
    show "distinct (pi_bodies e)" using assms(1) by (simp add: holds_def distinct_map)
    show "distinct (map (\<lambda>i. (i, bs ! i)) ?rest)" by (simp add: distinct_map inj_on_def)
    show "set (pi_bodies e) = set (map (\<lambda>i. (i, bs ! i)) ?rest)"
      using assms by (auto simp: holds_def)
  qed
  have v: "mset (map snd (pi_bodies e)) = mset (map ((!) bs) ?rest)"
    using arg_cong [OF eq, of "image_mset snd"] by (simp only: mset_map [symmetric] map_map comp_def snd_conv)
  have up: "mset [0..<length bs] = mset (k # ?rest)"
    by (subst set_eq_iff_mset_eq_distinct [symmetric]) (use k in auto)
  have "mset bs = mset (map ((!) bs) (k # ?rest))"
    using arg_cong [OF up, of "image_mset ((!) bs)"] by (simp only: mset_map [symmetric] map_nth)
  then show ?thesis using v by simp
qed

text \<open>The parity body rebuilds the missing one.\<close>

lemma recover_one:
  assumes split: "split_image_bodies bitstream meta = Inr bs" and par: "build_parity_body bs = Inr par"
    and h: "holds bs par D e" and D: "length bs \<in> D" "{..<length bs} - D = {k}"
  shows "recover_missing_body e = Inr (Some (bs ! k))"
proof -
  note sh = split_shape [OF split]
  note fm = holds_first_missing [OF h D(2)]
  let ?vs = "map snd (pi_bodies e)" and ?b = "bs ! k"
  have le: "\<forall>b \<in> set bs. length b \<le> BODY_BYTES" using sh(6) by (metis in_set_conv_nth)
  have ms: "mset bs = mset (?b # ?vs)" by (rule holds_values [OF h D(2)])
  then have "set bs = set (?b # ?vs)" by (metis mset_eq_setD)
  then have vs: "list_all (\<lambda>b. length b \<le> BODY_BYTES) (?b # ?vs)" using le by (simp add: list_all_iff)
  define L where "L = fold (\<lambda>b l. l XOR length b) bs 0"
  define A where "A = fold (\<lambda>b acc. xorl acc (pad b)) bs (replicate BODY_BYTES 0)"
  have L: "L < 256" unfolding L_def by (rule fold_xor_bound) (use le in \<open>auto simp: BODY_BYTES_val\<close>)
  have A: "length A = BODY_BYTES" unfolding A_def by (rule length_fold_xorl [OF le]) simp
  have p: "par = byte_of L # A" using par le L
    by (simp add: build_parity_body_def xor_bodies_fold L_def A_def and_255)
  have len: "fold (\<lambda>b l. l XOR length b) ?vs L = length ?b"
    unfolding L_def by (subst len_parity.missing [OF ms]) (simp_all add: list_all_iff)
  have body: "fold (\<lambda>b acc. xorl acc (pad b)) ?vs A = pad ?b"
    unfolding A_def by (subst body_parity.missing [OF ms vs]) (use vs in \<open>simp_all add: xorl_zero\<close>)
  have x: "xor_bodies ?vs (L, A) = Inr (length ?b, pad ?b)"
    using xor_bodies_fold [of ?vs A L] vs A len body by (simp add: list_all_iff)
  have kb: "?b \<noteq> []" "length ?b \<le> BODY_BYTES" "Suc k < length bs \<Longrightarrow> length ?b = BODY_BYTES"
    using sh(6,7) fm(3) by blast+
  have tot: "pi_total e = length bs" "pi_parity_body e = Some par" using h D(1) by (simp_all add: holds_def)
  have "is_recoverable e" using tot fm(2) by (simp add: is_recoverable_def)
  moreover have "take (length ?b) (pad ?b) = ?b" by (simp add: pad_def)
  moreover have "py_get par 0 = Inr (byte_of L)" by (simp add: p)
  moreover have "unat (byte_of L) AND 255 = L" using L by (simp add: and_255)
  moreover have "take BODY_BYTES (drop PARITY_LENGTH_BYTES par)
      @ replicate (BODY_BYTES - length (drop PARITY_LENGTH_BYTES par)) 0 = A"
    using A by (simp add: p PARITY_LENGTH_BYTES_def)
  moreover have "\<not> (k = 0 \<and> length ?b < METADATA_BYTES)" "\<not> (int k < int (length bs) - 1 \<and> length ?b \<noteq> BODY_BYTES)"
    using kb by (auto simp: METADATA_BYTES_def)
  ultimately show ?thesis
    using tot fm(1) x kb(2) unfolding recover_missing_body_def by (simp only: option.case bind_res.simps Let_def) simp
qed

text \<open>Nothing is rebuilt while two chunks are missing.\<close>

lemma recover_none:
  assumes "holds bs par D e" "\<not> (length bs \<in> D \<and> (\<exists>k. {..<length bs} - D = {k}))"
  shows "recover_missing_body e = Inr None"
proof (cases "length bs \<in> D")
  case False
  then show ?thesis using assms(1) by (simp add: holds_def recover_missing_body_def)
next
  case True
  have "card ({..<length bs} - D) \<noteq> 1" using assms(2) True by (auto simp: card_1_singleton_iff)
  moreover have "{..<length bs} - D = {..<length bs} - {i \<in> D. i < length bs}" by auto
  ultimately have "length bs - card {i \<in> D. i < length bs} \<noteq> 1"
    by (simp add: card_Diff_subset subset_iff)
  then have "\<not> is_recoverable e"
    using holds_length [OF assms(1)] assms(1) by (auto simp: is_recoverable_def holds_def)
  then show ?thesis by (simp add: recover_missing_body_def split: option.splits)
qed

text \<open>With every body in hand the image comes out.\<close>

lemma gather_all: "(\<And>i. i \<in> set is \<Longrightarrow> map_of bodies i = Some (bs ! i)) \<Longrightarrow>
    gather bodies is = Some (concat (map ((!) bs) is))"
  by (induction "is") auto

lemma assemble_all:
  assumes "split_image_bodies bitstream meta = Inr bs" "pi_total e = length bs"
    "\<And>i. i < length bs \<Longrightarrow> map_of (pi_bodies e) i = Some (bs ! i)"
  shows "assemble e = Some (bitstream, nat meta)"
proof -
  note sh = split_shape [OF assms(1)]
  obtain b0 rest where bs: "bs = b0 # rest" using sh(2) by (cases bs) auto
  have b0: "b0 \<noteq> []" using sh(6) [of 0] bs by simp
  then obtain m b0' where b0': "b0 = m # b0'" by (cases b0) auto
  have c: "m = byte_of (nat meta)" "b0' @ concat rest = bitstream" using sh(1) by (simp_all add: bs b0')
  have "map ((!) bs) [1..<length bs] = rest"
    unfolding bs length_Cons One_nat_def map_Suc_upt [symmetric] map_map comp_def nth_Cons_Suc by (rule map_nth)
  then have "gather (pi_bodies e) [1..<pi_total e] = Some (concat rest)"
    using gather_all [of "[1..<length bs]" "pi_bodies e" bs] assms(2,3) by simp
  then show ?thesis using assms(3) [of 0] c sh(4,5) by (simp add: assemble_def bs b0' METADATA_BYTES_def)
qed

section \<open>Delivery\<close>

text \<open>The chunk with index \<open>i\<close> of an image; index \<open>length bs\<close> is the parity chunk.\<close>

definition image_chunk :: "bytes list \<Rightarrow> bytes \<Rightarrow> nat \<Rightarrow> nat \<Rightarrow> nat \<Rightarrow> ChannelDataChunk" where
  "image_chunk bs par sp img i =
     \<lparr>ch_sender_prefix = sp, ch_img_id = img, ch_index = i, ch_total = length bs,
      ch_body = (if i < length bs then bs ! i else par)\<rparr>"

lemma build_parity_length: "build_parity_body bs = Inr par \<Longrightarrow> \<forall>b \<in> set bs. length b \<le> BODY_BYTES \<Longrightarrow>
    length par = BODY_BYTES + 1"
  using length_fold_xorl [of bs "replicate BODY_BYTES 0"] by (auto simp: build_parity_body_def xor_bodies_fold)

lemma build_image_chunks_parse:
  assumes "build_image_chunks bitstream meta sp img True = Inr blobs"
  obtains bs par where "split_image_bodies bitstream meta = Inr bs" "build_parity_body bs = Inr par"
    "length blobs = length bs + 1"
    "\<And>i. i \<le> length bs \<Longrightarrow> parse_chunk_blob (blobs ! i) = Some (image_chunk bs par (nat sp) (nat img) i)"
proof -
  obtain bs par where s: "split_image_bodies bitstream meta = Inr bs" and p: "build_parity_body bs = Inr par"
    using assms by (auto simp: build_image_chunks_def Let_def bind_res_Inr)
  obtain ds pb where d: "map_res (\<lambda>(i, body). build_chunk_blob sp img (int i) (int (length bs)) body) (enumerate 0 bs) = Inr ds"
    and pb: "build_chunk_blob sp img (int (length bs)) (int (length bs)) par = Inr pb" and bl: "blobs = ds @ [pb]"
    using assms s p by (auto simp: build_image_chunks_def Let_def bind_res_Inr)
  have l: "length ds = length bs" using d by (simp add: map_res_nth)
  have g: "0 \<le> sp" "0 \<le> img" using pb by (simp_all add: build_chunk_blob_def)
  note sh = split_shape [OF s]
  have le: "\<forall>b \<in> set bs. length b \<le> BODY_BYTES" using sh(6) by (metis in_set_conv_nth)
  have "parse_chunk_blob (blobs ! i) = Some (image_chunk bs par (nat sp) (nat img) i)" if "i \<le> length bs" for i
  proof (rule chunk_codec.dec_enc)
    show "ch_body (image_chunk bs par (nat sp) (nat img) i) \<noteq> []"
      using sh(6) [of i] build_parity_length [OF p le] by (auto simp: image_chunk_def)
    show "encode_chunk (image_chunk bs par (nat sp) (nat img) i) = Inr (blobs ! i)"
    proof (cases "i < length bs")
      case True
      then show ?thesis using d l g by (auto simp: encode_chunk_def image_chunk_def bl nth_append map_res_nth nth_enumerate_eq)
    next
      case False
      then show ?thesis using that pb l g by (simp add: encode_chunk_def image_chunk_def bl nth_append)
    qed
  qed
  then show thesis using that s p l bl by simp
qed

text \<open>The reassembler while the image is open, with the chunks \<open>D\<close> in hand, and once it is done.\<close>

definition in_window :: "real \<Rightarrow> real \<Rightarrow> bool" where
  "in_window t0 t \<longleftrightarrow> t0 \<le> t \<and> t \<le> t0 + SESSION_TTL_SECONDS"

definition st_open :: "bytes list \<Rightarrow> bytes \<Rightarrow> img_key \<Rightarrow> real \<Rightarrow> nat set \<Rightarrow> ChannelDataReassembler \<Rightarrow> bool" where
  "st_open bs par key t0 D r \<longleftrightarrow> ra_completed r = []
     \<and> (D = {} \<and> ra_pending r = []
        \<or> (\<exists>e. ra_pending r = [(key, e)] \<and> holds bs par D e \<and> in_window t0 (pi_last_seen e)))"

definition st_done :: "bytes list \<Rightarrow> img_key \<Rightarrow> real \<Rightarrow> ChannelDataReassembler \<Rightarrow> bool" where
  "st_done bs key t0 r \<longleftrightarrow> ra_pending r = [] \<and> (\<exists>fin. ra_completed r = [(key, fin, length bs)] \<and> in_window t0 fin)"

lemma in_window_diff: "in_window t0 t \<Longrightarrow> in_window t0 t' \<Longrightarrow> t - t' \<le> SESSION_TTL_SECONDS"
  by (simp add: in_window_def)

lemma holds_absorb:
  assumes "holds bs par D e" "i \<le> length bs"
  shows "holds bs par (insert i D) (absorb (image_chunk bs par sp img i) e)"
proof (cases "i = length bs")
  case True
  have "{j \<in> insert i D. j < length bs} = {j \<in> D. j < length bs}" using True by auto
  then show ?thesis using assms(1) True by (simp add: holds_def absorb_def is_parity_def image_chunk_def)
next
  case False
  then have i: "i < length bs" using assms(2) by simp
  show ?thesis
  proof (cases "i \<in> D")
    case True
    then show ?thesis using assms(1) i holds_map_of [OF assms(1) i]
      by (simp add: absorb_def is_parity_def image_chunk_def insert_absorb)
  next
    case nD: False
    have "{j \<in> insert i D. j < length bs} = insert i {j \<in> D. j < length bs}" using i by auto
    moreover have "i \<notin> fst ` set (pi_bodies e)" using assms(1) nD by (auto simp: holds_def)
    ultimately show ?thesis using assms(1) i nD holds_map_of [OF assms(1) i]
      by (simp add: absorb_def is_parity_def image_chunk_def holds_def)
  qed
qed

lemma holds_new: "holds bs par {} (new_pending (length bs) t)"
  by (simp add: holds_def new_pending_def)

lemma holds_seen: "holds bs par D (e\<lparr>pi_last_seen := t\<rparr>) = holds bs par D e"
  by (simp add: holds_def)

text \<open>What \<open>note_chunk\<close> does with a chunk of the open image, up to the completeness test.\<close>

lemma note_open:
  assumes r: "st_open bs par key t0 D r" and t: "in_window t0 t" and i: "i \<le> length bs"
    and p: "parse_chunk_blob blob = Some (image_chunk bs par sp img i)" and key: "key = (conv, sp, img)"
  obtains e where "holds bs par (insert i D) e" "in_window t0 (pi_last_seen e)"
    "note_chunk r conv blob t =
       (let r2 = \<lparr>ra_pending = [(key, e)], ra_completed = []\<rparr>
        in if is_complete e then conclude key t e False r2
           else (case recover_missing_body e of
                   Inl err \<Rightarrow> (Inl err, r2)
                 | Inr None \<Rightarrow> (Inr None, r2)
                 | Inr (Some rebuilt) \<Rightarrow>
                     (case first_missing e of
                        None \<Rightarrow> (Inl StopIteration, r2)
                      | Some missing \<Rightarrow>
                          let e3 = e\<lparr>pi_bodies := AList.update missing rebuilt (pi_bodies e)\<rparr>
                          in conclude key t e3 True (r2\<lparr>ra_pending := [(key, e3)]\<rparr>))))"
proof -
  define e0 where "e0 = (case ra_pending r of [] \<Rightarrow> new_pending (length bs) t | (_, e) # _ \<Rightarrow> e)"
  have x: "expire t r = r" and c: "ra_completed r = []" and h0: "holds bs par D e0"
    and tot: "pi_total e0 = length bs" and pend: "ra_pending r = [] \<or> ra_pending r = [(key, e0)]"
    using r t in_window_diff [OF t] unfolding st_open_def
    by (auto simp: expire_def e0_def holds_new holds_def new_pending_def not_less)
  define e1 where "e1 = e0\<lparr>pi_last_seen := t\<rparr>"
  define e where "e = absorb (image_chunk bs par sp img i) e1"
  have m: "(case map_of (ra_pending r) key of None \<Rightarrow> new_pending (length bs) t
      | Some e \<Rightarrow> if pi_total e \<noteq> length bs then new_pending (length bs) t else e) = e0"
  proof -
    have "ra_pending r = [] \<Longrightarrow> e0 = new_pending (length bs) t" by (simp add: e0_def)
    then show ?thesis using pend tot by (elim disjE) simp_all
  qed
  have up: "AList.update key e' (ra_pending r) = [(key, e')]" for e' using pend by auto
  have cap: "enforce_cap key [(key, e')] = [(key, e')]" for e'
    by (simp add: enforce_cap.simps MAX_PENDING_IMAGES_def)
  have h: "holds bs par (insert i D) e"
    unfolding e_def e1_def using h0 i by (intro holds_absorb) (simp_all add: holds_seen)
  have w: "in_window t0 (pi_last_seen e)"
    using t by (auto simp: e_def e1_def absorb_def split: option.splits)
  have ch: "ch_total (image_chunk bs par sp img i) = length bs" "ch_sender_prefix (image_chunk bs par sp img i) = sp"
    "ch_img_id (image_chunk bs par sp img i) = img" by (simp_all add: image_chunk_def)
  have fin: "already_finished r key (length bs) t = False" by (simp add: already_finished_def c)
  have r2: "r\<lparr>ra_pending := ps\<rparr> = \<lparr>ra_pending = ps, ra_completed = []\<rparr>" for ps using c by simp
  show thesis
  proof (rule that [OF h w])
    show "note_chunk r conv blob t =
       (let r2 = \<lparr>ra_pending = [(key, e)], ra_completed = []\<rparr>
        in if is_complete e then conclude key t e False r2
           else (case recover_missing_body e of
                   Inl err \<Rightarrow> (Inl err, r2)
                 | Inr None \<Rightarrow> (Inr None, r2)
                 | Inr (Some rebuilt) \<Rightarrow>
                     (case first_missing e of
                        None \<Rightarrow> (Inl StopIteration, r2)
                      | Some missing \<Rightarrow>
                          let e3 = e\<lparr>pi_bodies := AList.update missing rebuilt (pi_bodies e)\<rparr>
                          in conclude key t e3 True (r2\<lparr>ra_pending := [(key, e3)]\<rparr>))))"
      unfolding note_chunk_def p option.case Let_def ch x key [symmetric] m up cap fin
        e1_def [symmetric] e_def [symmetric] r2 by (simp cong: option.case_cong sum.case_cong if_cong)
  qed
qed

text \<open>At most one of the \<open>length bs + 1\<close> chunks is missing.\<close>

definition enough :: "bytes list \<Rightarrow> nat set \<Rightarrow> bool" where
  "enough bs D \<longleftrightarrow> card ({..length bs} - D) \<le> 1"

lemma enough_cases:
  "enough bs D \<longleftrightarrow> {..<length bs} \<subseteq> D \<or> length bs \<in> D \<and> (\<exists>k. {..<length bs} - D = {k})"
proof -
  let ?M = "{..<length bs} - D"
  have s: "{..length bs} - D = (if length bs \<in> D then ?M else insert (length bs) ?M)"
    by (auto simp: lessThan_Suc_atMost [symmetric] lessThan_Suc)
  have c: "card ({..length bs} - D) = card ?M + (if length bs \<in> D then 0 else 1)"
    unfolding s by simp
  have "card ?M = 0 \<longleftrightarrow> {..<length bs} \<subseteq> D" by auto
  moreover have "card ?M = 1 \<longleftrightarrow> (\<exists>k. ?M = {k})" by (rule card_1_singleton_iff [unfolded One_nat_def [symmetric]])
  moreover have "card ({..length bs} - D) \<le> 1 \<longleftrightarrow> card ?M = 0 \<or> length bs \<in> D \<and> card ?M = 1"
    unfolding c by (cases "length bs \<in> D") (simp_all only: if_True if_False simp_thms, linarith+)
  ultimately show ?thesis unfolding enough_def by metis
qed

lemma conclude_done:
  assumes "split_image_bodies bitstream meta = Inr bs" "pi_total e = length bs"
    "\<And>i. i < length bs \<Longrightarrow> map_of (pi_bodies e) i = Some (bs ! i)" "in_window t0 t"
  shows "\<exists>r'. conclude key t e b \<lparr>ra_pending = [(key, e)], ra_completed = []\<rparr>
      = (Inr (Some (bitstream, nat meta, b)), r') \<and> st_done bs key t0 r'"
  using assemble_all [OF assms(1-3)] assms(2,4)
  by (simp add: conclude_def st_done_def trim_completed.simps MAX_PENDING_IMAGES_def)

lemma note_step:
  assumes split: "split_image_bodies bitstream meta = Inr bs" and par: "build_parity_body bs = Inr par"
    and r: "st_open bs par key t0 D r" and t: "in_window t0 t" and i: "i \<le> length bs"
    and p: "parse_chunk_blob blob = Some (image_chunk bs par sp img i)" and key: "key = (conv, sp, img)"
  shows "if enough bs (insert i D)
    then \<exists>b r'. note_chunk r conv blob t = (Inr (Some (bitstream, nat meta, b)), r') \<and> st_done bs key t0 r'
    else \<exists>r'. note_chunk r conv blob t = (Inr None, r') \<and> st_open bs par key t0 (insert i D) r'"
proof -
  obtain e where h: "holds bs par (insert i D) e" and w: "in_window t0 (pi_last_seen e)"
    and n: "note_chunk r conv blob t =
       (let r2 = \<lparr>ra_pending = [(key, e)], ra_completed = []\<rparr>
        in if is_complete e then conclude key t e False r2
           else (case recover_missing_body e of
                   Inl err \<Rightarrow> (Inl err, r2)
                 | Inr None \<Rightarrow> (Inr None, r2)
                 | Inr (Some rebuilt) \<Rightarrow>
                     (case first_missing e of
                        None \<Rightarrow> (Inl StopIteration, r2)
                      | Some missing \<Rightarrow>
                          let e3 = e\<lparr>pi_bodies := AList.update missing rebuilt (pi_bodies e)\<rparr>
                          in conclude key t e3 True (r2\<lparr>ra_pending := [(key, e3)]\<rparr>))))"
    using note_open [OF r t i p key] .
  have tot: "pi_total e = length bs" using h by (simp add: holds_def)
  consider (all) "{..<length bs} \<subseteq> insert i D"
    | (one) k where "\<not> {..<length bs} \<subseteq> insert i D" "length bs \<in> insert i D" "{..<length bs} - insert i D = {k}"
    | (more) "\<not> enough bs (insert i D)" unfolding enough_cases by blast
  then show ?thesis
  proof cases
    case all
    then have "map_of (pi_bodies e) j = Some (bs ! j)" if "j < length bs" for j
      using holds_map_of [OF h that] that by auto
    then have "\<exists>r'. note_chunk r conv blob t = (Inr (Some (bitstream, nat meta, False)), r') \<and> st_done bs key t0 r'"
      using n holds_complete [OF h] all conclude_done [OF split tot _ t] by simp
    then show ?thesis using all enough_cases by auto
  next
    case one
    let ?e3 = "e\<lparr>pi_bodies := AList.update k (bs ! k) (pi_bodies e)\<rparr>"
    have "map_of (pi_bodies ?e3) j = Some (bs ! j)" if "j < length bs" for j
      using holds_map_of [OF h that] that one(3) by (auto simp: update_conv)
    then have "\<exists>r'. conclude key t ?e3 True \<lparr>ra_pending = [(key, ?e3)], ra_completed = []\<rparr>
        = (Inr (Some (bitstream, nat meta, True)), r') \<and> st_done bs key t0 r'"
      using conclude_done [OF split, of ?e3] tot t by simp
    moreover have "\<not> is_complete e" using holds_complete [OF h] one(1) by simp
    ultimately have "\<exists>r'. note_chunk r conv blob t = (Inr (Some (bitstream, nat meta, True)), r') \<and> st_done bs key t0 r'"
      using n recover_one [OF split par h one(2,3)] holds_first_missing(1) [OF h one(3)] by (simp add: Let_def)
    moreover have "enough bs (insert i D)" using one enough_cases by blast
    ultimately show ?thesis by auto
  next
    case more
    then have "recover_missing_body e = Inr None" "\<not> is_complete e"
      using recover_none [OF h] holds_complete [OF h] enough_cases by blast+
    then have "note_chunk r conv blob t = (Inr None, \<lparr>ra_pending = [(key, e)], ra_completed = []\<rparr>)"
      using n by simp
    then show ?thesis using more h w by (auto simp: st_open_def)
  qed
qed

lemma note_done:
  assumes "st_done bs key t0 r" "in_window t0 t"
    "parse_chunk_blob blob = Some (image_chunk bs par sp img i)" "key = (conv, sp, img)"
  shows "\<exists>r'. note_chunk r conv blob t = (Inr None, r') \<and> st_done bs key t0 r'"
proof -
  obtain fin where c: "ra_pending r = []" "ra_completed r = [(key, fin, length bs)]" "in_window t0 fin"
    using assms(1) by (auto simp: st_done_def)
  have d: "t - fin \<le> SESSION_TTL_SECONDS" by (rule in_window_diff [OF assms(2) c(3)])
  then have "expire t r = r" using c by (simp add: expire_def not_less)
  moreover have "already_finished r key (length bs) t" using c d by (simp add: already_finished_def)
  ultimately show ?thesis using assms by (simp add: note_chunk_def image_chunk_def Let_def)
qed

text \<open>A run of deliveries, with the outcome of each call.\<close>

fun deliver :: "ChannelDataReassembler \<Rightarrow> string \<Rightarrow> (bytes \<times> real) list
    \<Rightarrow> (bytes \<times> nat \<times> bool) option res list \<times> ChannelDataReassembler" where
  "deliver r conv [] = ([], r)"
| "deliver r conv ((blob, t) # ds) =
     (case note_chunk r conv blob t of
        (out, r') \<Rightarrow> (case deliver r' conv ds of (outs, r'') \<Rightarrow> (out # outs, r'')))"

lemma deliver_Cons:
  "fst (deliver r conv ((blob, t) # ds))
     = fst (note_chunk r conv blob t) # fst (deliver (snd (note_chunk r conv blob t)) conv ds)"
  by (simp split: prod.splits)

declare deliver.simps(2) [simp del]

definition loud :: "(bytes \<times> nat \<times> bool) option res list \<Rightarrow> (bytes \<times> nat \<times> bool) option res list" where
  "loud outs = filter (\<lambda>out. out \<noteq> Inr None) outs"

lemma deliver_done:
  assumes "st_done bs key t0 r" "key = (conv, sp, img)"
    "\<forall>(blob, t) \<in> set ds. in_window t0 t \<and> (\<exists>i. parse_chunk_blob blob = Some (image_chunk bs par sp img i))"
  shows "loud (fst (deliver r conv ds)) = []"
  using assms
proof (induction ds arbitrary: r)
  case (Cons d ds)
  obtain blob t where d: "d = (blob, t)" by (cases d)
  then obtain i where p: "in_window t0 t" "parse_chunk_blob blob = Some (image_chunk bs par sp img i)"
    using Cons.prems(3) by auto
  from note_done [OF Cons.prems(1) p Cons.prems(2)] obtain r' where
    "note_chunk r conv blob t = (Inr None, r')" "st_done bs key t0 r'" by blast
  then show ?case using Cons.IH [of r'] Cons.prems(2,3) d by (simp add: loud_def deliver_Cons)
qed (simp add: loud_def)

lemma deliver_open:
  assumes split: "split_image_bodies bitstream meta = Inr bs" and par: "build_parity_body bs = Inr par"
    and key: "key = (conv, sp, img)" and r: "st_open bs par key t0 D r" and D: "\<not> enough bs D"
    and ds: "length is = length ds" "\<forall>j < length ds. is ! j \<le> length bs \<and> in_window t0 (snd (ds ! j))
       \<and> parse_chunk_blob (fst (ds ! j)) = Some (image_chunk bs par sp img (is ! j))"
  shows "if enough bs (D \<union> set is) then \<exists>b. loud (fst (deliver r conv ds)) = [Inr (Some (bitstream, nat meta, b))]
    else loud (fst (deliver r conv ds)) = []"
  using r D ds
proof (induction ds arbitrary: r D "is")
  case Nil
  then show ?case by (simp add: loud_def)
next
  case (Cons d ds)
  obtain blob t where d: "d = (blob, t)" by (cases d)
  obtain i "is'" where i: "is = i # is'" using Cons.prems(3) by (cases "is") auto
  have h: "i \<le> length bs" "in_window t0 t" "parse_chunk_blob blob = Some (image_chunk bs par sp img i)"
    using Cons.prems(4) [rule_format, of 0] by (simp_all add: i d)
  have t: "length is' = length ds" "\<forall>j < length ds. is' ! j \<le> length bs \<and> in_window t0 (snd (ds ! j))
       \<and> parse_chunk_blob (fst (ds ! j)) = Some (image_chunk bs par sp img (is' ! j))"
    using Cons.prems(3) Cons.prems(4) [rule_format, of "Suc _"] by (auto simp: i)
  note step = note_step [OF split par Cons.prems(1) h(2,1,3) key]
  show ?case
  proof (cases "enough bs (insert i D)")
    case True
    from step True obtain b r' where n: "note_chunk r conv blob t = (Inr (Some (bitstream, nat meta, b)), r')"
      "st_done bs key t0 r'" by auto
    have "loud (fst (deliver r' conv ds)) = []"
    proof (rule deliver_done [OF n(2) key, where par = par], clarify)
      fix blob' t' assume "(blob', t') \<in> set ds"
      then obtain j where j: "j < length ds" "ds ! j = (blob', t')" by (metis in_set_conv_nth)
      then show "in_window t0 t' \<and> (\<exists>i. parse_chunk_blob blob' = Some (image_chunk bs par sp img i))"
        using t(2) [rule_format, OF j(1)] by auto
    qed
    moreover have "enough bs (D \<union> set is)"
    proof -
      have "card ({..length bs} - (D \<union> set is)) \<le> card ({..length bs} - insert i D)"
        by (rule card_mono) (auto simp: i)
      then show ?thesis using True unfolding enough_def by simp
    qed
    ultimately show ?thesis using n(1) d by (simp add: loud_def deliver_Cons)
  next
    case False
    from step False obtain r' where n: "note_chunk r conv blob t = (Inr None, r')"
      "st_open bs par key t0 (insert i D) r'" by auto
    show ?thesis using Cons.IH [OF n(2) False t] n(1) d by (simp add: loud_def i deliver_Cons split: if_splits)
  qed
qed

lemma image_delivery_run:
  assumes build: "build_image_chunks bitstream meta sp img True = Inr blobs"
    and ds: "\<forall>(b, t) \<in> set ds. b \<in> set blobs \<and> t0 \<le> t \<and> t \<le> t0 + SESSION_TTL_SECONDS"
  shows "if card (set blobs - fst ` set ds) \<le> 1
    then \<exists>b. loud (fst (deliver new_reassembler conv ds)) = [Inr (Some (bitstream, nat meta, b))]
    else loud (fst (deliver new_reassembler conv ds)) = []"
proof -
  obtain bs par where split: "split_image_bodies bitstream meta = Inr bs" and par: "build_parity_body bs = Inr par"
    and len: "length blobs = length bs + 1"
    and p: "\<And>i. i \<le> length bs \<Longrightarrow> parse_chunk_blob (blobs ! i) = Some (image_chunk bs par (nat sp) (nat img) i)"
    using build_image_chunks_parse [OF build] by metis
  define ix where "ix = (\<lambda>b. SOME i. i \<le> length bs \<and> blobs ! i = b)"
  have ix: "ix b \<le> length bs \<and> blobs ! ix b = b" if "b \<in> set blobs" for b
  proof -
    have "\<exists>i. i \<le> length bs \<and> blobs ! i = b" using that len by (auto simp: in_set_conv_nth less_Suc_eq_le)
    then show ?thesis unfolding ix_def by (rule someI_ex)
  qed
  have inj: "inj_on (\<lambda>i. blobs ! i) {..length bs}"
  proof (rule inj_onI)
    fix i j assume "i \<in> {..length bs}" "j \<in> {..length bs}" "blobs ! i = blobs ! j"
    then have "Some (image_chunk bs par (nat sp) (nat img) i) = Some (image_chunk bs par (nat sp) (nat img) j)"
      using p by (metis atMost_iff)
    then show "i = j" by (simp add: image_chunk_def)
  qed
  let ?is = "map (ix \<circ> fst) ds"
  have im: "(\<lambda>i. blobs ! i) ` ({..length bs} - set ?is) = set blobs - fst ` set ds"
  proof -
    have "(\<lambda>i. blobs ! i) ` {..length bs} = set blobs"
      using len by (auto simp: set_conv_nth less_Suc_eq_le image_def)
    moreover have m: "fst d \<in> set blobs" if "d \<in> set ds" for d using ds that by (cases d) auto
    then have "set ?is \<subseteq> {..length bs}" using ix by auto
    moreover have "(\<lambda>i. blobs ! i) ` set ?is = (\<lambda>d. blobs ! ix (fst d)) ` set ds" by (auto simp: image_image)
    then have "(\<lambda>i. blobs ! i) ` set ?is = fst ` set ds" using m ix by (simp cong: image_cong)
    ultimately show ?thesis using inj_on_image_set_diff [OF inj, of "{..length bs}" "set ?is"] by simp
  qed
  have "card (set blobs - fst ` set ds) = card ({..length bs} - set ?is)"
    unfolding im [symmetric] by (rule card_image [OF inj_on_subset [OF inj Diff_subset]])
  moreover have "if enough bs ({} \<union> set ?is)
    then \<exists>b. loud (fst (deliver new_reassembler conv ds)) = [Inr (Some (bitstream, nat meta, b))]
    else loud (fst (deliver new_reassembler conv ds)) = []"
  proof (rule deliver_open [OF split par refl])
    show "st_open bs par (conv, nat sp, nat img) t0 {} new_reassembler"
      by (simp add: st_open_def new_reassembler_def)
    show "\<not> enough bs {}" using split_shape(2) [OF split] by (cases bs) (simp_all add: enough_def)
    show "\<forall>j < length ds. ?is ! j \<le> length bs \<and> in_window t0 (snd (ds ! j))
       \<and> parse_chunk_blob (fst (ds ! j)) = Some (image_chunk bs par (nat sp) (nat img) (?is ! j))"
    proof (intro allI impI)
      fix j assume j: "j < length ds"
      then have m: "fst (ds ! j) \<in> set blobs" "in_window t0 (snd (ds ! j))"
        using bspec [OF ds nth_mem [OF j]] by (cases "ds ! j", simp add: in_window_def)+
      then show "?is ! j \<le> length bs \<and> in_window t0 (snd (ds ! j))
        \<and> parse_chunk_blob (fst (ds ! j)) = Some (image_chunk bs par (nat sp) (nat img) (?is ! j))"
        using j ix [OF m(1)] p by (metis comp_apply nth_map)
    qed
  qed simp
  ultimately show ?thesis by (simp add: enough_def)
qed

text \<open>C2: An image survives any reordering, any duplication and the loss of any one chunk. Whatever sequence of
  the image's chunks reaches a fresh reassembler within the session lifetime, exactly one call returns a
  result, the sender's bitstream and metadata byte, when at most one chunk never arrives, and no
  call returns one (or raises) otherwise.\<close>

theorem image_delivery:
  assumes "build_image_chunks bitstream meta sp img True = Inr blobs"
    and "\<forall>(b, t) \<in> set ds. b \<in> set blobs \<and> start \<le> t \<and> t \<le> start + SESSION_TTL_SECONDS"
  shows "if card (set blobs - fst ` set ds) \<le> 1
    then \<exists>b. filter (\<lambda>out. out \<noteq> Inr None) (fst (deliver new_reassembler conv ds)) = [Inr (Some (bitstream, nat meta, b))]
    else filter (\<lambda>out. out \<noteq> Inr None) (fst (deliver new_reassembler conv ds)) = []"
  by (rule image_delivery_run [OF assms, unfolded loud_def])

definition demo_bits :: bytes where
  "demo_bits = replicate 200 (7::byte)"

definition demo_blobs :: "bytes list" where
  "demo_blobs = (case build_image_chunks demo_bits 3 258 9 True of Inr b \<Rightarrow> b | Inl _ \<Rightarrow> [])"

lemma demo_blobs_built: "build_image_chunks demo_bits 3 258 9 True = Inr demo_blobs" "length demo_blobs = 3"
  by code_simp+

theorem image_delivery_witness:
  "if card (set demo_blobs - fst ` set [(demo_blobs ! 2, 5 :: real), (demo_blobs ! 0, 6)]) \<le> 1
    then \<exists>b. filter (\<lambda>out. out \<noteq> Inr None) (fst (deliver new_reassembler ''ch'' [(demo_blobs ! 2, 5), (demo_blobs ! 0, 6)]))
        = [Inr (Some (demo_bits, nat 3, b))]
    else filter (\<lambda>out. out \<noteq> Inr None) (fst (deliver new_reassembler ''ch'' [(demo_blobs ! 2, 5), (demo_blobs ! 0, 6)])) = []"
  by (rule image_delivery [OF demo_blobs_built(1), where start = 0])
    (simp add: demo_blobs_built(2) SESSION_TTL_SECONDS_def)

section \<open>Capacity\<close>

lemma length_split:
  "length (chunks BODY_BYTES (drop CHUNK_ZERO_IMAGE_BYTES bitstream)) \<le> 14 \<longleftrightarrow> length bitstream \<le> 2369"
proof -
  have l: "length (chunks BODY_BYTES (drop CHUNK_ZERO_IMAGE_BYTES bitstream)) = (length bitstream - 157 + 157) div 158"
    by (simp add: length_chunks BODY_BYTES_val CHUNK_ZERO_val)
  have "n div 158 < 15 \<longleftrightarrow> n < 15 * 158" for n :: nat by (rule div_less_iff_less_mult) simp
  from this [of "length bitstream - 157 + 157"] show ?thesis unfolding l by linarith
qed

lemma split_succeeds:
  "(\<exists>bs. split_image_bodies bitstream meta = Inr bs) \<longleftrightarrow>
     bitstream \<noteq> [] \<and> length bitstream \<le> 2369 \<and> 0 \<le> meta \<and> meta \<le> 255"
  using length_split [of bitstream] by (auto simp: split_image_bodies_def Let_def MAX_DATA_CHUNKS_def)

lemma build_chunk_ok:
  assumes "0 \<le> sp" "sp \<le> 65535" "0 \<le> img" "img \<le> 255" "1 \<le> n" "n \<le> 15" "i \<le> n" "length body \<le> BODY_BYTES + 1"
  shows "\<exists>blob. build_chunk_blob sp img (int i) (int n) body = Inr blob \<and> length blob = length body + 4"
  using assms by (simp add: build_chunk_blob_def MAX_DATA_CHUNKS_def PARITY_LENGTH_BYTES_def prefix_bytes_def)

text \<open>Framing succeeds exactly for non-empty bitstreams of at most 2369 bytes (157 in chunk 0, 158 in each of
  14 more) with the header fields in range, and every blob then fits the radio's 163 bytes.\<close>

theorem image_chunks_capacity:
  "(\<exists>blobs. build_image_chunks bitstream meta sp img True = Inr blobs
      \<and> length blobs \<le> 16 \<and> list_all (\<lambda>b. length b \<le> BLOB_BYTES) blobs)
   \<longleftrightarrow> bitstream \<noteq> [] \<and> length bitstream \<le> 2369 \<and> 0 \<le> meta \<and> meta \<le> 255
      \<and> 0 \<le> sp \<and> sp \<le> 65535 \<and> 0 \<le> img \<and> img \<le> 255" (is "?ok \<longleftrightarrow> ?guards")
proof
  assume ?ok
  then obtain blobs where b: "build_image_chunks bitstream meta sp img True = Inr blobs" by blast
  then obtain bs par pb where "split_image_bodies bitstream meta = Inr bs"
    "build_chunk_blob sp img (int (length bs)) (int (length bs)) par = Inr pb"
    by (auto simp: build_image_chunks_def Let_def bind_res_Inr)
  then show ?guards using split_succeeds [of bitstream meta] by (auto simp: build_chunk_blob_def)
next
  assume g: ?guards
  then obtain bs where s: "split_image_bodies bitstream meta = Inr bs" using split_succeeds by blast
  note sh = split_shape [OF s]
  have le: "\<forall>b \<in> set bs. length b \<le> BODY_BYTES" using sh(6) by (metis in_set_conv_nth)
  obtain par where par: "build_parity_body bs = Inr par" using le
    by (simp add: build_parity_body_def xor_bodies_fold)
  have n: "1 \<le> length bs" using sh(2) by (cases bs) simp_all
  have "\<exists>blob. build_chunk_blob sp img (int i) (int (length bs)) (bs ! i) = Inr blob \<and> length blob \<le> BLOB_BYTES"
    if "i < length bs" for i
    using build_chunk_ok [of sp img "length bs" i "bs ! i"] g n sh(3) sh(6) [OF that] that
    by (auto simp: BODY_BYTES_val BLOB_BYTES_def)
  then obtain f where f: "\<And>i. i < length bs \<Longrightarrow>
      build_chunk_blob sp img (int i) (int (length bs)) (bs ! i) = Inr (f i) \<and> length (f i) \<le> BLOB_BYTES"
    by metis
  have m: "map_res (\<lambda>(i, body). build_chunk_blob sp img (int i) (int (length bs)) body) (enumerate 0 bs)
      = Inr (map f [0..<length bs])"
    using f by (simp add: map_res_nth nth_enumerate_eq)
  obtain pb where pb: "build_chunk_blob sp img (int (length bs)) (int (length bs)) par = Inr pb" "length pb = BLOB_BYTES"
    using build_chunk_ok [of sp img "length bs" "length bs" par] g n sh(3) build_parity_length [OF par le]
    by (auto simp: BODY_BYTES_val BLOB_BYTES_def)
  have "build_image_chunks bitstream meta sp img True = Inr (map f [0..<length bs] @ [pb])"
    using s m par pb(1) by (simp add: build_image_chunks_def)
  then show ?ok using f pb(2) sh(3) by (auto simp: list_all_iff)
qed

section \<open>Bounded memory\<close>

text \<open>Both tables stay within the cap and never hold a key twice.\<close>

definition ra_inv :: "ChannelDataReassembler \<Rightarrow> bool" where
  "ra_inv r \<longleftrightarrow> length (ra_pending r) \<le> MAX_PENDING_IMAGES \<and> distinct (map fst (ra_pending r))
     \<and> length (ra_completed r) \<le> MAX_PENDING_IMAGES \<and> distinct (map fst (ra_completed r))"

lemma least_by_None: "least_by f xs = None \<longleftrightarrow> xs = []"
  by (cases xs) (auto split: option.splits)

lemma enforce_cap_inv:
  "distinct (map fst pending) \<Longrightarrow>
     length (enforce_cap k pending) \<le> MAX_PENDING_IMAGES \<and> distinct (map fst (enforce_cap k pending))
     \<and> (k \<in> fst ` set pending \<longrightarrow> k \<in> fst ` set (enforce_cap k pending))"
proof (induction k pending rule: enforce_cap.induct)
  case (1 k pending)
  show ?case
  proof (cases "length pending > MAX_PENDING_IMAGES")
    case True
    have "filter (\<lambda>(j, e). j \<noteq> k) pending \<noteq> []"
    proof
      assume "filter (\<lambda>(j, e). j \<noteq> k) pending = []"
      then have "set (map fst pending) \<subseteq> {k}" by (auto simp: filter_empty_conv)
      then have "card (set (map fst pending)) \<le> card {k}" by (intro card_mono) auto
      then have "length pending \<le> 1" using 1(2) distinct_card [of "map fst pending"] by simp
      then show False using True by (simp add: MAX_PENDING_IMAGES_def)
    qed
    then obtain o' e where l: "least_by (\<lambda>(k, e). pi_first_seen e) (filter (\<lambda>(j, e). j \<noteq> k) pending) = Some (o', e)"
      using least_by_None by (metis option.exhaust surj_pair)
    then have "o' \<noteq> k" by (auto dest: least_by_mem)
    moreover have "distinct (map fst (AList.delete o' pending))" using 1(2) by (rule distinct_delete)
    ultimately show ?thesis using 1(1) [OF True l refl] True l
      by (subst (1 2 3) enforce_cap.simps) (auto simp: AList.delete_eq)
  next
    case False
    then show ?thesis using 1(2) by (subst (1 2 3) enforce_cap.simps) simp
  qed
qed

lemma trim_completed_inv:
  "distinct (map fst c) \<Longrightarrow> length (trim_completed c) \<le> MAX_PENDING_IMAGES \<and> distinct (map fst (trim_completed c))"
proof (induction c rule: trim_completed.induct)
  case (1 c)
  show ?case
  proof (cases "length c > MAX_PENDING_IMAGES")
    case True
    then have "c \<noteq> []" by auto
    then obtain k y where l: "least_by (\<lambda>(k, fin, t). fin) c = Some (k, y)"
      using least_by_None by (metis option.exhaust surj_pair)
    moreover have "distinct (map fst (AList.delete k c))" using 1(2) by (rule distinct_delete)
    ultimately show ?thesis using 1(1) [OF True l refl] True by (subst (1 2) trim_completed.simps) simp
  next
    case False
    then show ?thesis using 1(2) by (subst (1 2) trim_completed.simps) simp
  qed
qed

lemma update_length_mem: "k \<in> fst ` set d \<Longrightarrow> length (AList.update k v d) = length d"
  by (induction d) auto

lemma conclude_inv: "ra_inv r \<Longrightarrow> ra_inv (snd (conclude key t e b r))"
  using trim_completed_inv [of "AList.update key (t, pi_total e) (ra_completed r)"]
    length_delete_le [of key "ra_pending r"]
  by (auto simp: conclude_def ra_inv_def distinct_update distinct_delete split: option.splits)

lemma expire_inv: "ra_inv r \<Longrightarrow> ra_inv (expire t r)"
  by (auto simp: ra_inv_def expire_def distinct_map_filter intro: order_trans [OF length_filter_le])

lemma note_chunk_inv:
  assumes "ra_inv r0"
  shows "ra_inv (snd (note_chunk r0 conv blob t))"
proof (cases "parse_chunk_blob blob")
  case None
  then show ?thesis using assms by (simp add: note_chunk_def)
next
  case (Some chunk)
  define r where "r = expire t r0"
  define key where "key = (conv, ch_sender_prefix chunk, ch_img_id chunk)"
  have r: "ra_inv r" using expire_inv [OF assms] by (simp add: r_def)
  have up: "ra_inv (r\<lparr>ra_pending := AList.update key e' (enforce_cap key (AList.update key e (ra_pending r)))\<rparr>)" for e e'
  proof -
    have d: "distinct (map fst (AList.update key e (ra_pending r)))"
      using r by (simp add: ra_inv_def distinct_update)
    have "key \<in> fst ` set (AList.update key e (ra_pending r))"
      by (metis dom_map_of_conv_image_fst domI fun_upd_same update_conv)
    then show ?thesis using enforce_cap_inv [OF d, of key] r
      by (simp add: ra_inv_def update_length_mem distinct_update)
  qed
  have up': "ra_inv (r\<lparr>ra_pending := AList.update key e' (enforce_cap key (AList.update key e (ra_pending r))), ra_pending := ps\<rparr>)
    = ra_inv (r\<lparr>ra_pending := ps\<rparr>)" for e e' ps by simp
  show ?thesis
    unfolding note_chunk_def Some option.case Let_def r_def [symmetric] key_def [symmetric]
    using r up by (auto simp: up' intro!: conclude_inv split: option.splits sum.splits)
qed

interpretation reassembler: invariant_machine
  "\<lambda>(conv, blob, t) r. snd (note_chunk r conv blob t)" ra_inv
  using note_chunk_inv by unfold_locales auto

text \<open>However many sessions peers open, and whatever bytes they send, the reassembler holds at most 32
  partial images and 32 completion records, one per image key.\<close>

theorem reassembler_bounded:
  "ra_inv (fold (\<lambda>(conv, blob, t) r. snd (note_chunk r conv blob t)) events new_reassembler)"
  by (rule reassembler.run_inv) (simp add: ra_inv_def new_reassembler_def)

section \<open>Local aliases\<close>

lemma alias_xor: "p < 65536 \<Longrightarrow> aliased_sender_prefix p = p XOR 65535 \<and> p XOR 65535 < 65536"
  using xor_nat_less [of p 16 65535] by (simp add: aliased_sender_prefix_def LOCAL_ALIAS_PREFIX_XOR_def and_65535)

lemma alias_involution: "p < 65536 \<Longrightarrow> aliased_sender_prefix (aliased_sender_prefix p) = p"
  using alias_xor [of p] alias_xor [of "p XOR 65535"] by (simp add: xor.assoc)

lemma alias_differs: "p < 65536 \<Longrightarrow> aliased_sender_prefix p \<noteq> p"
  using alias_xor [of p] by (metis xor.left_neutral xor.assoc xor_self_eq zero_neq_numeral xor.commute)

lemma parse_prefix_less: "parse_chunk_blob blob = Some c \<Longrightarrow> ch_sender_prefix c < 65536"
proof -
  assume "parse_chunk_blob blob = Some c"
  then have "ch_sender_prefix c = push_bit 8 (unat (blob ! 0)) OR unat (blob ! 1)"
    by (auto simp: parse_chunk_blob_def Let_def and_255 split: if_splits)
  then show ?thesis
    using or_push_bit [of "unat (blob ! 1)" 8 "unat (blob ! 0)"] unat_byte_less [of "blob ! 0"] unat_byte_less [of "blob ! 1"]
    by (simp del: unat_byte_less)
qed

lemma relabel_parse:
  assumes "parse_chunk_blob blob = Some c" "p < 65536"
  shows "parse_chunk_blob (relabel_chunk_sender blob p) = Some (c\<lparr>ch_sender_prefix := p\<rparr>)"
proof -
  have l: "4 < length blob" using assms(1) by (auto simp: parse_chunk_blob_def CHUNK_HEADER_BYTES_def split: if_splits)
  then obtain x y z w rest where b: "blob = x # y # z # w # rest"
    by (auto simp: Suc_le_length_iff numeral_eq_Suc Suc_le_eq [symmetric])
  obtain a a' where ab: "prefix_bytes p = [a, a']" by (simp add: prefix_bytes_def)
  show ?thesis using assms(1) prefix_bytes_value [OF assms(2) ab] l
    by (auto simp: parse_chunk_blob_def relabel_chunk_sender_def b ab CHUNK_HEADER_BYTES_def Let_def split: if_splits)
qed

section \<open>Malformed peers\<close>

definition oversized_run :: "(bytes \<times> nat \<times> bool) option res list" where
  "oversized_run = fst (deliver new_reassembler ''ch''
     [([1, 2, 9, 0x02] @ replicate 159 0, 0), ([1, 2, 9, 0x22] @ replicate 159 0, 1)])"

text \<open>A data body longer than the framing's 158 bytes is accepted, since the blob parser has no upper
  bound, and makes the recovery of its image raise.\<close>

theorem oversized_body_raises:
  "oversized_run = [Inr None, Inl IndexError]"
  by code_simp

section \<open>Text repeats\<close>

lemma trim_text_inv: "distinct (map fst d) \<Longrightarrow>
    length (trim_text d) \<le> MAX_REMEMBERED_TEXT_BLOBS \<and> distinct (map fst (trim_text d)) \<and> set (trim_text d) \<subseteq> set d"
proof (induction d rule: trim_text.induct)
  case (1 d)
  show ?case
  proof (cases "length d > MAX_REMEMBERED_TEXT_BLOBS")
    case True
    then have "d \<noteq> []" by auto
    then obtain k y where l: "least_by snd d = Some (k, y)"
      using least_by_None by (metis option.exhaust surj_pair)
    moreover have "distinct (map fst (AList.delete k d))" using 1(2) by (rule distinct_delete)
    ultimately show ?thesis using 1(1) [OF True l refl] True
      by (subst (1 2 3) trim_text.simps) (auto simp: AList.delete_eq)
  next
    case False
    then show ?thesis using 1(2) by (subst (1 2 3) trim_text.simps) simp
  qed
qed

text \<open>A text blob is stored when it was not stored within the last minute and skipped when it was, and the
  memory of recent blobs stays within 256 entries.\<close>

theorem text_blob_dedup:
  assumes "distinct (map fst d)" and "length d \<le> MAX_REMEMBERED_TEXT_BLOBS"
  shows "(fst (already_stored_text key now d) \<longleftrightarrow> (\<exists>seen. (key, seen) \<in> set d \<and> now - seen \<le> TEXT_BLOB_DEDUP_SECONDS))
    \<and> distinct (map fst (snd (already_stored_text key now d)))
    \<and> length (snd (already_stored_text key now d)) \<le> MAX_REMEMBERED_TEXT_BLOBS"
proof -
  define d1 where "d1 = filter (\<lambda>(k, seen). \<not> now - seen > TEXT_BLOB_DEDUP_SECONDS) d"
  have "map_of d1 key \<noteq> None \<longleftrightarrow> key \<in> fst ` set d1" by (simp add: map_of_eq_None_iff)
  also have "\<dots> \<longleftrightarrow> (\<exists>seen. (key, seen) \<in> set d \<and> now - seen \<le> TEXT_BLOB_DEDUP_SECONDS)"
    by (force simp: d1_def not_less)
  finally have m: "map_of d1 key \<noteq> None \<longleftrightarrow> (\<exists>seen. (key, seen) \<in> set d \<and> now - seen \<le> TEXT_BLOB_DEDUP_SECONDS)" .
  have d1: "distinct (map fst d1)" "length d1 \<le> MAX_REMEMBERED_TEXT_BLOBS"
    using assms order_trans [OF length_filter_le] by (auto simp: d1_def distinct_map_filter)
  have t: "distinct (map fst (AList.update key now d1))" using d1(1) by (simp add: distinct_update)
  note trim = trim_text_inv [OF t]
  have eq: "already_stored_text key now d =
      (if map_of d1 key \<noteq> None then (True, d1) else (False, trim_text (AList.update key now d1)))"
    by (simp add: already_stored_text_def Let_def flip: d1_def)
  show ?thesis unfolding m [symmetric] using trim d1 by (simp add: eq)
qed

theorem text_blob_dedup_witness:
  "fst (already_stored_text (1::nat) 30 [(1, 0), (2, 5)]) \<longleftrightarrow>
     (\<exists>seen. (1::nat, seen) \<in> set [(1, 0), (2, 5)] \<and> 30 - seen \<le> TEXT_BLOB_DEDUP_SECONDS)"
  using text_blob_dedup [of "[(1::nat, 0), (2, 5)]" 1 30] by (simp add: MAX_REMEMBERED_TEXT_BLOBS_def)

end
