(* ===== verification/VnForward.thy ===== *)
theory VnForward
  imports VnHistory ContactStore DmDelivery ChannelDelivery
begin

text \<open>
  The virtual node and the radio (the forwarding and relaying part of \<open>src/app/virtual_node/server.py\<close>): the classes of
  commands, the tap every radio frame passes, the exchange that forwards a command and waits for its answer, the response cache,
  and the relay of channel-data blobs to the apps. The codes of the \<open>meshcore\<close> library are two parameters, \<open>cmd\<close> and \<open>resp\<close>,
  that give the value of a \<open>CommandType\<close> or \<open>PacketType\<close> by its name.
\<close>

section \<open>Codes\<close>

type_synonym code_table = "string \<Rightarrow> byte"

definition packet_codes_of :: "code_table \<Rightarrow> packet_codes" where
  "packet_codes_of resp =
     \<lparr>pt_OK = resp ''OK'', pt_ERROR = resp ''ERROR'', pt_DISABLED = resp ''DISABLED'', pt_NO_MORE_MSGS = resp ''NO_MORE_MSGS'',
      pt_CURRENT_TIME = resp ''CURRENT_TIME'', pt_BATTERY = resp ''BATTERY'', pt_MSG_SENT = resp ''MSG_SENT'',
      pt_ADVERTISEMENT = resp ''ADVERTISEMENT'', pt_MESSAGES_WAITING = resp ''MESSAGES_WAITING'', pt_SELF_INFO = resp ''SELF_INFO'',
      pt_CONTACT = resp ''CONTACT'', pt_CONTACT_START = resp ''CONTACT_START'', pt_CONTACT_END = resp ''CONTACT_END'',
      pt_CHANNEL_INFO = resp ''CHANNEL_INFO'', pt_CONTACT_MSG_RECV = resp ''CONTACT_MSG_RECV'',
      pt_CONTACT_MSG_RECV_V3 = resp ''CONTACT_MSG_RECV_V3'', pt_CHANNEL_MSG_RECV_V3 = resp ''CHANNEL_MSG_RECV_V3''\<rparr>"

definition ERR :: "code_table \<Rightarrow> byte" where "ERR resp = resp ''ERROR''"
definition MSG_SENT :: "code_table \<Rightarrow> byte" where "MSG_SENT resp = resp ''MSG_SENT''"

definition RESPONSE_CACHE_TTL_SECONDS :: real where "RESPONSE_CACHE_TTL_SECONDS = 30"
definition RELAY_DEDUP_SECONDS :: real where "RELAY_DEDUP_SECONDS = 60"
definition MAX_REMEMBERED_RELAYED_BLOBS :: nat where "MAX_REMEMBERED_RELAYED_BLOBS = 128"

definition TRANSMIT_COMMANDS :: "code_table \<Rightarrow> byte set" where
  "TRANSMIT_COMMANDS cmd =
     insert (byte_of CMD_SEND_CHANNEL_DATA)
       (cmd ` {''SEND_TXT_MSG'', ''SEND_CHANNEL_TXT_MSG'', ''SEND_SELF_ADVERT'', ''SHARE_CONTACT'', ''SEND_RAW_DATA'', ''SEND_LOGIN'',
               ''SEND_STATUS_REQ'', ''LOGOUT'', ''SEND_TRACE_PATH'', ''SEND_TELEMETRY_REQ'', ''BINARY_REQ'', ''PATH_DISCOVERY'',
               ''SEND_CONTROL_DATA'', ''SEND_ANON_REQ''})"

definition SEND_SHAPING_COMMANDS :: "code_table \<Rightarrow> byte set" where
  "SEND_SHAPING_COMMANDS cmd = cmd ` {''SET_FLOOD_SCOPE'', ''SET_PATH_HASH_MODE''}"

definition ADMIN_COMMANDS :: "code_table \<Rightarrow> byte set" where
  "ADMIN_COMMANDS cmd =
     cmd ` {''SET_ADVERT_NAME'', ''SET_RADIO_PARAMS'', ''SET_RADIO_TX_POWER'', ''SET_ADVERT_LATLON'', ''SET_TUNING_PARAMS'',
            ''SIGN_START'', ''SIGN_DATA'', ''SIGN_FINISH'', ''SET_DEVICE_PIN'', ''SET_OTHER_PARAMS'', ''SET_CUSTOM_VAR'',
            ''SET_AUTOADD_CONFIG'', ''SET_DEFAULT_FLOOD_SCOPE''}"

definition IDENTITY_CHANGING_COMMANDS :: "code_table \<Rightarrow> byte set" where
  "IDENTITY_CHANGING_COMMANDS cmd =
     cmd ` {''SET_ADVERT_NAME'', ''SET_RADIO_PARAMS'', ''SET_RADIO_TX_POWER'', ''SET_ADVERT_LATLON'', ''SET_OTHER_PARAMS''}"

definition LOCAL_WRITE_COMMANDS :: "code_table \<Rightarrow> byte set" where
  "LOCAL_WRITE_COMMANDS cmd =
     cmd ` {''ADD_UPDATE_CONTACT'', ''RESET_PATH'', ''REMOVE_CONTACT'', ''SET_CHANNEL'', ''IMPORT_CONTACT''}"

definition REFUSED_COMMANDS :: "code_table \<Rightarrow> byte set" where
  "REFUSED_COMMANDS cmd = cmd ` {''REBOOT'', ''IMPORT_PRIVATE_KEY'', ''FACTORY_RESET''}"

definition CACHED_QUERY_COMMANDS :: "code_table \<Rightarrow> byte set" where
  "CACHED_QUERY_COMMANDS cmd =
     cmd ` {''GET_CUSTOM_VARS'', ''GET_ADVERT_PATH'', ''GET_TUNING_PARAMS'', ''GET_STATS'', ''GET_AUTOADD_CONFIG'',
            ''GET_ALLOWED_REPEAT_FREQ'', ''GET_DEFAULT_FLOOD_SCOPE'', ''GET_BATT_AND_STORAGE''}"

definition CONTACT_ADDRESSED_COMMANDS :: "code_table \<Rightarrow> byte set" where
  "CONTACT_ADDRESSED_COMMANDS cmd =
     cmd ` {''SHARE_CONTACT'', ''SEND_LOGIN'', ''SEND_STATUS_REQ'', ''HAS_CONNECTION'', ''LOGOUT'', ''BINARY_REQ'', ''PATH_DISCOVERY'',
            ''SEND_ANON_REQ'', ''EXPORT_CONTACT''}"

definition EXPECTED_RESPONSES :: "code_table \<Rightarrow> code_table \<Rightarrow> byte \<Rightarrow> byte set option" where
  "EXPECTED_RESPONSES cmd resp code =
     (if code \<in> cmd ` {''SEND_RAW_DATA'', ''SEND_LOGIN'', ''SEND_STATUS_REQ'', ''SEND_TRACE_PATH'', ''SEND_TELEMETRY_REQ'', ''BINARY_REQ'',
                       ''PATH_DISCOVERY'', ''SEND_ANON_REQ''}
      then Some {MSG_SENT resp, ERR resp}
      else map_of
        [(cmd ''EXPORT_CONTACT'', {resp ''CONTACT_URI'', ERR resp}),
         (cmd ''EXPORT_PRIVATE_KEY'', {resp ''PRIVATE_KEY'', resp ''DISABLED'', ERR resp}),
         (cmd ''GET_BATT_AND_STORAGE'', {resp ''BATTERY'', ERR resp}),
         (cmd ''DEVICE_QEURY'', {resp ''DEVICE_INFO'', ERR resp}),
         (cmd ''SIGN_START'', {resp ''SIGN_START'', ERR resp}),
         (cmd ''SIGN_FINISH'', {resp ''SIGNATURE'', ERR resp}),
         (cmd ''GET_CUSTOM_VARS'', {resp ''CUSTOM_VARS'', ERR resp}),
         (cmd ''GET_ADVERT_PATH'', {resp ''ADVERT_PATH'', ERR resp}),
         (cmd ''GET_TUNING_PARAMS'', {resp ''TUNING_PARAMS'', ERR resp}),
         (cmd ''GET_STATS'', {resp ''STATS'', ERR resp}),
         (cmd ''GET_AUTOADD_CONFIG'', {resp ''AUTOADD_CONFIG'', ERR resp}),
         (cmd ''GET_ALLOWED_REPEAT_FREQ'', {resp ''ALLOWED_REPEAT_FREQ'', ERR resp}),
         (cmd ''GET_DEFAULT_FLOOD_SCOPE'', {resp ''DEFAULT_FLOOD_SCOPE'', ERR resp})] code)"

definition NEVER_A_FORWARD_RESPONSE :: "code_table \<Rightarrow> byte set" where
  "NEVER_A_FORWARD_RESPONSE resp =
     insert (byte_of RESP_CODE_CHANNEL_DATA_RECV)
       (resp ` {''CONTACT_START'', ''CONTACT'', ''CONTACT_END'', ''CONTACT_MSG_RECV'', ''CHANNEL_MSG_RECV'', ''NO_MORE_MSGS'',
                ''CONTACT_MSG_RECV_V3'', ''CHANNEL_MSG_RECV_V3''})"

definition UNRELAYED_PUSH_CODES :: "code_table \<Rightarrow> byte set" where
  "UNRELAYED_PUSH_CODES resp = resp ` {''ADVERTISEMENT'', ''PUSH_CODE_NEW_ADVERT'', ''MESSAGES_WAITING''}"

section \<open>The link to the radio\<close>

text \<open>What the node puts on the link, and what it hands to the apps.\<close>

datatype radio_op =
    Command bytes
  | StageContact RadioContact
  | RefreshIdentity
  | ResetPathOf string
  | RemoveContactOf string
  | SendDirect string ustr
  | SendChannel string ustr

datatype app_effect = Broadcast bytes | RelayInbound bytes | EnqueueAll bytes

record vn_link =
  vl_has_clients :: bool
  vl_pending :: "(byte set option \<times> bytes option) option"
  vl_cache :: "(bytes \<times> real \<times> bytes) list"
  vl_self_info :: "bytes option"
  vl_device_info :: "bytes option"
  vl_last_msg_sent :: "(real \<times> bytes) option"
  vl_cached_commands :: nat
  vl_forwarded_commands :: nat
  vl_radio :: "radio_op list"
  vl_apps :: "app_effect list"

definition say :: "radio_op \<Rightarrow> 'a vn_link_scheme \<Rightarrow> 'a vn_link_scheme" where
  "say x v = v\<lparr>vl_radio := vl_radio v @ [x]\<rparr>"

subsection \<open>The frame tap\<close>

definition answers :: "code_table \<Rightarrow> byte set option \<Rightarrow> bytes \<Rightarrow> bool" where
  "answers resp expected frame \<longleftrightarrow> frame \<noteq> [] \<and> unat (hd frame) < 0x80 \<and>
     (case expected of Some e \<Rightarrow> hd frame \<in> e | None \<Rightarrow> hd frame \<notin> NEVER_A_FORWARD_RESPONSE resp)"

text \<open>What a frame that completes nothing causes for the connected apps.\<close>

definition relay_of :: "code_table \<Rightarrow> bytes \<Rightarrow> app_effect option" where
  "relay_of resp frame =
     (if frame = [] then None
      else if unat (hd frame) \<ge> 0x80 then (if hd frame \<in> UNRELAYED_PUSH_CODES resp then None else Some (Broadcast frame))
      else if unat (hd frame) = RESP_CODE_CHANNEL_DATA_RECV then Some (RelayInbound frame)
      else if pulled_message_txt_type (packet_codes_of resp) frame = Some 1 then Some (EnqueueAll frame)
      else None)"

definition note_identity :: "code_table \<Rightarrow> real \<Rightarrow> bytes \<Rightarrow> 'a vn_link_scheme \<Rightarrow> 'a vn_link_scheme" where
  "note_identity resp now frame v =
     (if hd frame = resp ''SELF_INFO'' then v\<lparr>vl_self_info := Some frame\<rparr>
      else if hd frame = resp ''DEVICE_INFO'' then v\<lparr>vl_device_info := Some frame\<rparr>
      else if hd frame = MSG_SENT resp then v\<lparr>vl_last_msg_sent := Some (now, frame)\<rparr>
      else v)"

definition on_radio_frame :: "code_table \<Rightarrow> real \<times> bytes \<Rightarrow> 'a vn_link_scheme \<Rightarrow> 'a vn_link_scheme" where
  "on_radio_frame resp tf v =
     (case tf of (now, frame) \<Rightarrow>
      if frame = [] then v
      else
        let v1 = note_identity resp now frame v;
            relayed = (if \<not> vl_has_clients v1 then v1
                       else case relay_of resp frame of None \<Rightarrow> v1 | Some x \<Rightarrow> v1\<lparr>vl_apps := vl_apps v1 @ [x]\<rparr>)
        in case vl_pending v1 of
             Some (expected, None) \<Rightarrow>
               if answers resp expected frame then v1\<lparr>vl_pending := Some (expected, Some frame)\<rparr> else relayed
           | _ \<Rightarrow> relayed)"

subsection \<open>Forwarding a command\<close>

text \<open>One use of the radio: whether the operation lock and the radio were available in time, the wall clock, and the frames that
  arrive while the node waits, with their arrival times. A wait that times out ends with no answer among them.\<close>

record radio_use =
  ru_available :: bool
  ru_now :: real
  ru_frames :: "(real \<times> bytes) list"

definition bad_state :: "code_table \<Rightarrow> bytes" where
  "bad_state resp = encode_error (packet_codes_of resp) (error_value BAD_STATE)"

definition exchange :: "code_table \<Rightarrow> radio_use \<Rightarrow> bytes \<Rightarrow> byte set option \<Rightarrow> 'a vn_link_scheme \<Rightarrow> bytes \<times> 'a vn_link_scheme" where
  "exchange resp u command expected v =
     (let v1 = say (Command command) (v\<lparr>vl_pending := Some (expected, None)\<rparr>);
          v2 = fold (on_radio_frame resp) (ru_frames u) v1
      in ((case vl_pending v2 of Some (_, Some frame) \<Rightarrow> frame | _ \<Rightarrow> bad_state resp), v2\<lparr>vl_pending := None\<rparr>))"

definition cached_response :: "real \<Rightarrow> bytes \<Rightarrow> 'a vn_link_scheme \<Rightarrow> bytes option \<times> 'a vn_link_scheme" where
  "cached_response now command v =
     (case map_of (vl_cache v) command of
        None \<Rightarrow> (None, v)
      | Some (expires, response) \<Rightarrow>
          if expires < now then (None, v\<lparr>vl_cache := AList.delete command (vl_cache v)\<rparr>) else (Some response, v))"

definition forward_under_lock ::
  "code_table \<Rightarrow> radio_use \<Rightarrow> bytes \<Rightarrow> RadioContact option \<Rightarrow> bool \<Rightarrow> byte set option \<Rightarrow> bool \<Rightarrow> 'a vn_link_scheme \<Rightarrow> bytes \<times> 'a vn_link_scheme" where
  "forward_under_lock resp u command stage refresh_identity expected cacheable v =
     (case (if cacheable then cached_response (ru_now u) command v else (None, v)) of
        (Some cached, v1) \<Rightarrow> (cached, v1\<lparr>vl_cached_commands := Suc (vl_cached_commands v1)\<rparr>)
      | (None, v1) \<Rightarrow>
          let v2 = v1\<lparr>vl_forwarded_commands := Suc (vl_forwarded_commands v1)\<rparr>;
              v3 = (case stage of None \<Rightarrow> v2 | Some c \<Rightarrow> say (StageContact c) v2)
          in case exchange resp u command expected v3 of (response, v4) \<Rightarrow>
             let v5 = (if refresh_identity \<and> hd response \<noteq> ERR resp then say RefreshIdentity v4 else v4)
             in (response,
                 if cacheable \<and> hd response \<noteq> ERR resp
                 then v5\<lparr>vl_cache := AList.update command (ru_now u + RESPONSE_CACHE_TTL_SECONDS, response) (vl_cache v5)\<rparr> else v5))"

definition forward ::
  "code_table \<Rightarrow> code_table \<Rightarrow> radio_use \<Rightarrow> bytes \<Rightarrow> RadioContact option \<Rightarrow> bool \<Rightarrow> byte set option \<Rightarrow> bool \<Rightarrow> 'a vn_link_scheme \<Rightarrow> bytes \<times> 'a vn_link_scheme" where
  "forward cmd resp u command stage refresh_identity expected0 cacheable v =
     (let expected = (case expected0 of None \<Rightarrow> EXPECTED_RESPONSES cmd resp (hd command) | Some e \<Rightarrow> Some e)
      in if ru_available u then forward_under_lock resp u command stage refresh_identity expected cacheable v
         else (bad_state resp, v))"

section \<open>Relaying channel data\<close>

function trim_relayed :: "('k \<times> real) list \<Rightarrow> ('k \<times> real) list" where
  "trim_relayed d =
     (if length d > MAX_REMEMBERED_RELAYED_BLOBS then
        (case least_by snd d of None \<Rightarrow> d | Some (k, _) \<Rightarrow> trim_relayed (AList.delete k d))
      else d)"
  by pat_completeness auto
termination
proof (relation "measure length", goal_cases)
  case (2 d x k y)
  then have "(k, y) \<in> set d" by (auto dest!: sym [of "Some _"] least_by_mem)
  then show ?case by (auto simp: AList.delete_eq intro!: length_filter_less)
qed simp

declare trim_relayed.simps [simp del]

definition already_relayed :: "'k \<Rightarrow> real \<Rightarrow> ('k \<times> real) list \<Rightarrow> bool \<times> ('k \<times> real) list" where
  "already_relayed key now d =
     (let d1 = filter (\<lambda>(k, seen). \<not> now - seen > RELAY_DEDUP_SECONDS) d
      in if map_of d1 key \<noteq> None then (True, d1)
         else (False, trim_relayed (AList.update key now d1)))"

text \<open>The identity of the radio: its public key and name, once it has reported itself.\<close>

definition self_sender_prefix :: "(string \<times> ustr) option \<Rightarrow> nat option" where
  "self_sender_prefix identity =
     (case identity of None \<Rightarrow> None
      | Some (public_key, _) \<Rightarrow>
          (case fromhex public_key of
             Some (a # b # _) \<Rightarrow> Some (push_bit 8 (unat a AND 255) OR (unat b AND 255))
           | _ \<Rightarrow> None))"

definition relabel_if_ours :: "(string \<times> ustr) option \<Rightarrow> nat \<Rightarrow> bytes \<Rightarrow> bytes" where
  "relabel_if_ours identity data_type blob =
     (if data_type \<noteq> DATA_TYPE_AEIC_IMAGE then blob
      else case parse_chunk_blob blob of
             None \<Rightarrow> blob
           | Some chunk \<Rightarrow>
               if self_sender_prefix identity = None \<or> self_sender_prefix identity \<noteq> Some (ch_sender_prefix chunk) then blob
               else relabel_chunk_sender blob (aliased_sender_prefix (ch_sender_prefix chunk)))"

text \<open>The frame the apps get for a blob: the radio's own frame re-addressed, or a new one. The source rewrites in place when the blob
  is the very object it was given, that is when it was not relabelled.\<close>

definition relayed_frame :: "(string \<times> ustr) option \<Rightarrow> nat \<Rightarrow> nat \<Rightarrow> bytes \<Rightarrow> bytes option \<Rightarrow> bytes res" where
  "relayed_frame identity slot data_type blob source_frame =
     (let app_blob = relabel_if_ours identity data_type blob
      in case source_frame of
           None \<Rightarrow> encode_channel_data_recv (int slot) data_type app_blob None
         | Some f \<Rightarrow> Inr (if app_blob = blob then rewrite_channel_data_index f (int slot) else rewrite_channel_data f (int slot) app_blob))"

section \<open>Every frame is the answer or is relayed\<close>

text \<open>The frames without the first one that satisfies a predicate.\<close>

definition drop_first :: "('a \<Rightarrow> bool) \<Rightarrow> 'a list \<Rightarrow> 'a list" where
  "drop_first P xs = takeWhile (\<lambda>x. \<not> P x) xs @ tl (dropWhile (\<lambda>x. \<not> P x) xs)"

lemma drop_first_Cons [simp]: "drop_first P (x # xs) = (if P x then xs else x # drop_first P xs)"
  by (simp add: drop_first_def)

lemma drop_first_Nil [simp]: "drop_first P [] = []"
  by (simp add: drop_first_def)

definition relays :: "code_table \<Rightarrow> (real \<times> bytes) list \<Rightarrow> app_effect list" where
  "relays resp frames = List.map_filter (relay_of resp \<circ> snd) frames"

lemma relays_simps [simp]: "relays resp [] = []"
    "relays resp (x # xs) = (case relay_of resp (snd x) of None \<Rightarrow> relays resp xs | Some e \<Rightarrow> e # relays resp xs)"
  by (simp_all add: relays_def List.map_filter_simps split: option.split)

lemma note_identity_simps [simp]:
  "vl_pending (note_identity resp t f v) = vl_pending v" "vl_apps (note_identity resp t f v) = vl_apps v"
  "vl_has_clients (note_identity resp t f v) = vl_has_clients v" "vl_radio (note_identity resp t f v) = vl_radio v"
  "vl_cache (note_identity resp t f v) = vl_cache v"
  by (simp_all add: note_identity_def)

lemma tap_keeps [simp]:
  "vl_has_clients (on_radio_frame resp x v) = vl_has_clients v" "vl_radio (on_radio_frame resp x v) = vl_radio v"
  "vl_cache (on_radio_frame resp x v) = vl_cache v"
  by (cases x; simp add: on_radio_frame_def Let_def split: option.splits prod.splits)+

lemma relay_of_Nil [simp]: "relay_of resp [] = None"
  by (simp add: relay_of_def)

lemma tap_idle:
  assumes "vl_has_clients v" and "\<And>e. vl_pending v \<noteq> Some (e, None)"
  shows "vl_pending (on_radio_frame resp x v) = vl_pending v"
    and "vl_apps (on_radio_frame resp x v) = vl_apps v @ (case relay_of resp (snd x) of None \<Rightarrow> [] | Some e \<Rightarrow> [e])"
  using assms by (cases x; auto simp: on_radio_frame_def Let_def split: option.splits prod.splits)+

lemma tap_waiting:
  assumes "vl_has_clients v" and "vl_pending v = Some (e, None)"
  shows "vl_pending (on_radio_frame resp x v) = Some (e, if answers resp e (snd x) then Some (snd x) else None)"
    and "vl_apps (on_radio_frame resp x v) = vl_apps v @ (if answers resp e (snd x) then [] else case relay_of resp (snd x) of None \<Rightarrow> [] | Some e \<Rightarrow> [e])"
  using assms by (cases x; auto simp: on_radio_frame_def Let_def answers_def split: option.splits prod.splits)+

lemma taps_idle:
  assumes "vl_has_clients v" and "\<And>e. vl_pending v \<noteq> Some (e, None)"
  shows "vl_pending (fold (on_radio_frame resp) xs v) = vl_pending v \<and> vl_apps (fold (on_radio_frame resp) xs v) = vl_apps v @ relays resp xs"
  using assms
proof (induction xs arbitrary: v)
  case (Cons x xs)
  note t = tap_idle [OF Cons.prems, of resp x]
  have "vl_has_clients (on_radio_frame resp x v)" "\<And>e. vl_pending (on_radio_frame resp x v) \<noteq> Some (e, None)" using Cons.prems t(1) by auto
  from Cons.IH [OF this] show ?case using t by (auto split: option.splits)
qed simp

lemma taps_waiting:
  assumes "vl_has_clients v" and "vl_pending v = Some (e, None)"
  shows "vl_pending (fold (on_radio_frame resp) xs v) = Some (e, map_option snd (find (answers resp e \<circ> snd) xs))
    \<and> vl_apps (fold (on_radio_frame resp) xs v) = vl_apps v @ relays resp (drop_first (answers resp e \<circ> snd) xs)"
  using assms
proof (induction xs arbitrary: v)
  case (Cons x xs)
  note t = tap_waiting [OF Cons.prems, of resp x]
  show ?case
  proof (cases "answers resp e (snd x)")
    case True
    then show ?thesis using taps_idle [of "on_radio_frame resp x v" resp xs] t Cons.prems by simp
  next
    case False
    then show ?thesis using Cons.IH [of "on_radio_frame resp x v"] t Cons.prems by (auto split: option.splits)
  qed
qed simp

lemma taps_radio [simp]: "vl_radio (fold (on_radio_frame resp) xs v) = vl_radio v"
  by (induction xs arbitrary: v) simp_all

lemma exchange_exact:
  assumes "vl_has_clients v" and "exchange resp u command expected v = (r, v')"
  shows "r = (case find (answers resp expected \<circ> snd) (ru_frames u) of None \<Rightarrow> bad_state resp | Some (_, f) \<Rightarrow> f)
    \<and> vl_apps v' = vl_apps v @ relays resp (drop_first (answers resp expected \<circ> snd) (ru_frames u))
    \<and> vl_pending v' = None \<and> vl_radio v' = vl_radio v @ [Command command]"
proof -
  let ?w = "say (Command command) (v\<lparr>vl_pending := Some (expected, None)\<rparr>)"
  have "vl_has_clients ?w" "vl_pending ?w = Some (expected, None)" using assms(1) by (simp_all add: say_def)
  from taps_waiting [OF this, of resp "ru_frames u"] show ?thesis using assms(2)
    by (auto simp: exchange_def Let_def say_def split: option.splits)
qed

text \<open>A query that the cache can answer, and the cache after a look at it.\<close>

definition fresh_answer :: "real \<Rightarrow> bytes \<Rightarrow> bool \<Rightarrow> 'a vn_link_scheme \<Rightarrow> bytes option" where
  "fresh_answer now command cacheable v =
     (if cacheable then case map_of (vl_cache v) command of None \<Rightarrow> None | Some (expires, r) \<Rightarrow> if expires < now then None else Some r else None)"

lemma cached_response_fresh: "fst (cached_response now command v) = fresh_answer now command True v"
    "vl_has_clients (snd (cached_response now command v)) = vl_has_clients v" "vl_apps (snd (cached_response now command v)) = vl_apps v"
    "vl_radio (snd (cached_response now command v)) = vl_radio v"
  by (simp_all add: cached_response_def fresh_answer_def split: option.splits prod.splits)

text \<open>A forwarded command is answered from the cache while an answer of the last 30 seconds is there, without touching the radio;
  otherwise exactly one command reaches the radio, the answer is the first frame of an expected kind that arrives while the node waits,
  or the bad-state error if none does, and every other frame that arrives meanwhile is relayed to the apps in order. A push frame is
  never taken for an answer.\<close>

theorem forward_accounts_for_frames:
  assumes "vl_has_clients v" and "ru_available u"
    and "forward cmd resp u command None False expected cacheable v = (r, v')"
  shows "case fresh_answer (ru_now u) command cacheable v of
      Some c \<Rightarrow> r = c \<and> vl_radio v' = vl_radio v \<and> vl_apps v' = vl_apps v
    | None \<Rightarrow>
        (\<exists>e. (expected = None \<longrightarrow> e = EXPECTED_RESPONSES cmd resp (hd command)) \<and> (expected \<noteq> None \<longrightarrow> e = expected)
         \<and> r = (case find (answers resp e \<circ> snd) (ru_frames u) of None \<Rightarrow> bad_state resp | Some (_, f) \<Rightarrow> f)
         \<and> vl_apps v' = vl_apps v @ relays resp (drop_first (answers resp e \<circ> snd) (ru_frames u))
         \<and> vl_radio v' = vl_radio v @ [Command command]
         \<and> (\<forall>f. f \<noteq> [] \<and> unat (hd f) \<ge> 0x80 \<longrightarrow> \<not> answers resp e f))"
proof -
  define e where "e = (case expected of None \<Rightarrow> EXPECTED_RESPONSES cmd resp (hd command) | Some x \<Rightarrow> Some x)"
  obtain c v1 where cr: "(if cacheable then cached_response (ru_now u) command v else (None, v)) = (c, v1)" by fastforce
  have c: "c = fresh_answer (ru_now u) command cacheable v" "vl_has_clients v1" "vl_apps v1 = vl_apps v" "vl_radio v1 = vl_radio v"
    using cr assms(1) cached_response_fresh [of "ru_now u" command v] by (auto simp: fresh_answer_def split: if_splits)
  have f: "forward_under_lock resp u command None False e cacheable v = (r, v')"
    using assms(2,3) by (simp add: forward_def Let_def e_def)
  have e: "expected = None \<longrightarrow> e = EXPECTED_RESPONSES cmd resp (hd command)" "expected \<noteq> None \<longrightarrow> e = expected"
    by (auto simp: e_def)
  show ?thesis
  proof (cases c)
    case None
    let ?v2 = "v1\<lparr>vl_forwarded_commands := Suc (vl_forwarded_commands v1)\<rparr>"
    obtain r0 v4 where x: "exchange resp u command e ?v2 = (r0, v4)" by fastforce
    have "vl_has_clients ?v2" using c(2) by simp
    note ex = exchange_exact [OF this x]
    have "r = r0 \<and> vl_apps v' = vl_apps v4 \<and> vl_radio v' = vl_radio v4" using f cr None x by (auto simp: forward_under_lock_def Let_def)
    then show ?thesis using ex c None e by (auto simp: answers_def)
  next
    case (Some a)
    then show ?thesis using f cr c by (auto simp: forward_under_lock_def)
  qed
qed

section \<open>One picture, one name\<close>

text \<open>A picture this node sends reaches an app under one consistent alias: the chunk handed to the app is the chunk sent except for
  its sender, which is not the radio's own prefix (the app would drop it as its own echo), and which is the prefix of the key of the
  alias contact the node serves, so the app can name it.\<close>

theorem picture_sender_alias:
  assumes "fromhex key = Some raw" and "length raw = 32" and "parse_chunk_blob blob = Some chunk"
    and "self_sender_prefix (Some (key, name)) = Some (ch_sender_prefix chunk)"
  shows "\<exists>alias alias_key.
      parse_chunk_blob (relabel_if_ours (Some (key, name)) DATA_TYPE_AEIC_IMAGE blob) = Some (chunk\<lparr>ch_sender_prefix := alias\<rparr>)
    \<and> alias \<noteq> ch_sender_prefix chunk \<and> aliased_public_key key = Some alias_key
    \<and> self_sender_prefix (Some (alias_key, name)) = Some alias"
proof -
  obtain a b rest where raw: "raw = a # b # rest" "length rest = 30" using assms(2) by (cases raw; cases "tl raw") auto
  let ?p = "push_bit 8 (unat a AND 255) OR (unat b AND 255) :: nat" and ?q = "aliased_sender_prefix (ch_sender_prefix chunk)"
  have own: "ch_sender_prefix chunk = ?p" using assms(1,4) raw by (simp add: self_sender_prefix_def)
  have lt: "ch_sender_prefix chunk < 65536" by (rule parse_prefix_less [OF assms(3)])
  have q: "?q < 65536" by (simp add: aliased_sender_prefix_def and_65535)
  have "parse_chunk_blob (relabel_if_ours (Some (key, name)) DATA_TYPE_AEIC_IMAGE blob) = Some (chunk\<lparr>ch_sender_prefix := ?q\<rparr>)"
    using relabel_parse [OF assms(3) q] assms(3,4) by (simp add: relabel_if_ours_def)
  moreover have "?q \<noteq> ch_sender_prefix chunk" by (rule alias_differs [OF lt])
  moreover have "aliased_public_key key = Some (hex_of (prefix_bytes ?q @ rest))"
    using assms(1,2) raw own by (simp add: aliased_public_key_def sender_prefix_for_def)
  moreover obtain c d where cd: "prefix_bytes ?q = [c, d]" by (simp add: prefix_bytes_def)
  moreover have "self_sender_prefix (Some (hex_of (prefix_bytes ?q @ rest), name)) = Some ?q"
    using prefix_bytes_value [OF q cd] by (simp add: self_sender_prefix_def cd del: hex_of_append hex_of_Cons)
  ultimately show ?thesis by blast
qed

theorem picture_sender_alias_witness:
  "\<exists>alias alias_key.
      parse_chunk_blob (relabel_if_ours (Some (hex_of (0 # 1 # replicate 30 0), [])) DATA_TYPE_AEIC_IMAGE [0, 1, 1, 2, 9])
        = Some \<lparr>ch_sender_prefix = alias, ch_img_id = 1, ch_index = 0, ch_total = 2, ch_body = [9]\<rparr>
    \<and> alias \<noteq> 1 \<and> aliased_public_key (hex_of (0 # 1 # replicate 30 0)) = Some alias_key
    \<and> self_sender_prefix (Some (alias_key, [])) = Some alias"
proof -
  let ?c = "\<lparr>ch_sender_prefix = 1, ch_img_id = 1, ch_index = 0, ch_total = 2, ch_body = [9]\<rparr>"
  have "parse_chunk_blob [0, 1, 1, 2, 9] = Some ?c" by code_simp
  moreover have "self_sender_prefix (Some (hex_of (0 # 1 # replicate 30 0), [])) = Some 1"
    by (simp add: self_sender_prefix_def del: hex_of_Cons replicate.simps)
  ultimately show ?thesis
    using picture_sender_alias [of "hex_of (0 # 1 # replicate 30 0)" "0 # 1 # replicate 30 0" "[0, 1, 1, 2, 9]" ?c "[]"]
    by (simp del: hex_of_Cons)
qed

definition demo_resp :: code_table where
  "demo_resp n = (if n = ''ERROR'' then 1 else if n = ''STATS'' then 24 else if n = ''MESSAGES_WAITING'' then 131 else 0)"

definition demo_cmd :: code_table where
  "demo_cmd n = (if n = ''GET_STATS'' then 56 else 0)"

definition demo_link :: vn_link where
  "demo_link = \<lparr>vl_has_clients = True, vl_pending = None, vl_cache = [], vl_self_info = None, vl_device_info = None, vl_last_msg_sent = None,
     vl_cached_commands = 0, vl_forwarded_commands = 0, vl_radio = [], vl_apps = []\<rparr>"

definition demo_use :: radio_use where
  "demo_use = \<lparr>ru_available = True, ru_now = 0, ru_frames = [(0, [0x88, 7]), (1, [24, 0]), (2, [131])]\<rparr>"

lemma demo_answer: "answers demo_resp (Some {24, 1}) [24, 0] \<and> \<not> answers demo_resp (Some {24, 1}) [0x88, 7]"
  by code_simp

lemma demo_expected: "EXPECTED_RESPONSES demo_cmd demo_resp 56 = Some {24, 1}"
  by (simp add: EXPECTED_RESPONSES_def demo_cmd_def demo_resp_def ERR_def)

theorem forward_accounts_for_frames_witness:
  "fst (forward demo_cmd demo_resp demo_use [56, 0] None False None True demo_link) = [24, 0]"
proof -
  obtain r v' where f: "forward demo_cmd demo_resp demo_use [56, 0] None False None True demo_link = (r, v')" by fastforce
  have "vl_has_clients demo_link" "ru_available demo_use" by (simp_all add: demo_link_def demo_use_def)
  from forward_accounts_for_frames [OF this f] have "r = [24, 0]"
    using demo_answer by (auto simp: fresh_answer_def demo_link_def demo_use_def demo_expected)
  then show ?thesis using f by simp
qed

end
