(* ===== verification/VnServer.thy ===== *)
theory VnServer
  imports VnForward
begin

text \<open>
  The command handlers and the dispatcher of the virtual node (\<open>src/app/virtual_node/server.py\<close>), over the link of
  \<open>VnForward\<close>, the slots of \<open>VnSlots\<close>, the sessions of \<open>VnHistory\<close> and the contact table. A command is served to its end before the
  next one of the same app; what the rest of the program contributes to it (clocks, settings, the radio's frames, the outcome of the
  send service, the identity of the radio) is the record \<open>command_env\<close>.
\<close>

section \<open>State\<close>

definition BATTERY_CACHE_MAX_AGE_SECONDS :: real where "BATTERY_CACHE_MAX_AGE_SECONDS = 180"
definition RECENT_DM_SEND_TTL_SECONDS :: real where "RECENT_DM_SEND_TTL_SECONDS = 120"

type_synonym dm_key = "string \<times> nat \<times> ustr"

record vn_server = vn_link +
  sv_read_only :: bool
  sv_replay_limit :: int
  sv_local_commands :: nat
  sv_slots :: slots_state
  sv_contacts :: "contact_row list"
  sv_messages :: "server_message list"
  sv_client_table :: client_table
  sv_recent_dm :: "(dm_key \<times> int \<times> real \<times> bool) list"
  sv_pending_acks :: "(string \<times> pending_ack) list"

record command_env =
  ce_now :: real
  ce_started :: real
  ce_admin_allowed :: bool
  ce_key_export :: bool
  ce_radio :: radio_use
  ce_self_info :: "self_info option"
  ce_identity :: "(string \<times> ustr) option"
  ce_max_channels :: "int option"
  ce_battery :: "(real \<times> int) option"
  ce_readable :: bool
  ce_saved :: bool
  ce_history_readable :: bool
  ce_on_radio :: "string \<Rightarrow> bool"
  ce_send :: "nat + int"
  ce_radio_slot :: "int option"
  ce_frame :: "server_message \<Rightarrow> bytes option"

text \<open>How a command can fail: with an error code of the protocol, or with any other exception.\<close>

datatype vn_failure = VirtualNodeError ErrorCode | OtherError py_error

type_synonym 'a vn_res = "vn_failure + 'a"

definition lift_res :: "'a res \<Rightarrow> 'a vn_res" where
  "lift_res r = (case r of Inl e \<Rightarrow> Inl (OtherError e) | Inr x \<Rightarrow> Inr x)"

definition err :: "code_table \<Rightarrow> ErrorCode \<Rightarrow> bytes" where
  "err resp e = encode_error (packet_codes_of resp) (error_value e)"

definition ok_frame :: "code_table \<Rightarrow> bytes vn_res" where
  "ok_frame resp = lift_res (encode_ok (packet_codes_of resp) None)"

definition count_local :: "vn_server \<Rightarrow> vn_server" where
  "count_local v = v\<lparr>sv_local_commands := Suc (sv_local_commands v)\<rparr>"

section \<open>Identity\<close>

definition self_info_frame :: "code_table \<Rightarrow> command_env \<Rightarrow> vn_server \<Rightarrow> bytes vn_res" where
  "self_info_frame resp env v =
     (case vl_self_info v of
        Some f \<Rightarrow> Inr f
      | None \<Rightarrow> (case ce_self_info env of
                   None \<Rightarrow> Inl (VirtualNodeError BAD_STATE)
                 | Some i \<Rightarrow> lift_res (encode_self_info (packet_codes_of resp) i)))"

definition device_info :: "code_table \<Rightarrow> code_table \<Rightarrow> command_env \<Rightarrow> vn_server \<Rightarrow> bytes \<times> vn_server" where
  "device_info cmd resp env v =
     (case (case vl_device_info v of
              Some f \<Rightarrow> (Inr f, count_local v)
            | None \<Rightarrow>
                (case forward cmd resp (ce_radio env) [cmd ''DEVICE_QEURY'', 0x03] None False None False v of
                   (response, v1) \<Rightarrow>
                     if hd response \<noteq> resp ''DEVICE_INFO'' then (Inl response, v1)
                     else (Inr response, v1\<lparr>vl_device_info := Some response\<rparr>))) of
        (Inl response, v1) \<Rightarrow> (response, v1)
      | (Inr frame, v1) \<Rightarrow>
          let s = ensure_channel_slots (ce_readable env) (ce_saved env) (sv_slots v1)
          in (rewrite_device_info_max_channels frame (int (advertised_channel_slots (ce_max_channels env) (length (vs_slots s)))),
              v1\<lparr>sv_slots := s\<rparr>))"

definition battery_from_stats :: "code_table \<Rightarrow> command_env \<Rightarrow> bytes vn_res option" where
  "battery_from_stats resp env =
     (case ce_battery env of
        None \<Rightarrow> None
      | Some (sampled_at, battery_mv) \<Rightarrow>
          if ce_now env - sampled_at > BATTERY_CACHE_MAX_AGE_SECONDS then None
          else Some (lift_res (encode_battery (packet_codes_of resp) battery_mv None None)))"

section \<open>Contacts\<close>

text \<open>\<open>Contact(public_key, name, type=1, last_advert=1)\<close>.\<close>

definition plain_contact :: "string \<Rightarrow> ustr \<Rightarrow> Contact" where
  "plain_contact key name =
     model_post_init
       \<lparr>c_public_key = key, c_name = Some name, c_type = 1, c_flags = 0, c_direct_path = None, c_direct_path_len = -1,
        c_direct_path_hash_mode = -1, c_direct_path_updated_at = None, c_route_override_path = None, c_route_override_len = None,
        c_route_override_hash_mode = None, c_last_advert = Some 1, c_lat = None, c_lon = None, c_last_seen = None, c_on_radio = False,
        c_favorite = False, c_last_contacted = None, c_first_seen = None, c_effective_route = None, c_effective_route_source = SrcFlood,
        c_direct_route = None, c_route_override = None\<rparr>"

definition alias_contact :: "(string \<times> ustr) option \<Rightarrow> Contact option" where
  "alias_contact identity =
     (case identity of None \<Rightarrow> None
      | Some (public_key, name) \<Rightarrow>
          (case aliased_public_key public_key of
             None \<Rightarrow> None
           | Some key \<Rightarrow> if name = [] then None else Some (plain_contact key name)))"

definition is_alias_prefix :: "(string \<times> ustr) option \<Rightarrow> string \<Rightarrow> bool" where
  "is_alias_prefix identity prefix_hex =
     (case alias_contact identity of None \<Rightarrow> False | Some c \<Rightarrow> starts_with (lower prefix_hex) (c_public_key c))"

text \<open>\<open>get_all\<close>, ordered by \<open>COALESCE(name, public_key)\<close>.\<close>

definition get_all :: "nat \<Rightarrow> contact_row list \<Rightarrow> Contact list" where
  "get_all limit rows =
     map row_to_contact (take limit (sort_key (\<lambda>r. case ro_name r of Some n \<Rightarrow> n | None \<Rightarrow> map of_char (ro_public_key r)) rows))"

definition contacts_frames :: "code_table \<Rightarrow> (string \<times> ustr) option \<Rightarrow> nat \<Rightarrow> contact_row list \<Rightarrow> bytes list res" where
  "contacts_frames resp identity since rows =
     (let pt = packet_codes_of resp;
          contacts = filter (\<lambda>c. is_full_public_key (Some (c_public_key c))) (get_all 100000 rows);
          newest = fold (\<lambda>c n. max n (contact_lastmod c)) contacts 0;
          listed = filter (\<lambda>c. \<not> (since \<noteq> 0 \<and> contact_lastmod c \<le> int since)) contacts
      in bind_res (map_res (\<lambda>c. encode_contact pt c (Some (contact_lastmod c))) listed) (\<lambda>frames.
         bind_res (case alias_contact identity of None \<Rightarrow> Inr [] | Some a \<Rightarrow> bind_res (encode_contact pt a (Some 1)) (\<lambda>f. Inr [f])) (\<lambda>alias.
         bind_res (encode_contact_start pt (int (length (frames @ alias)))) (\<lambda>start.
         bind_res (encode_contact_end pt newest) (\<lambda>fin. Inr ([start] @ frames @ alias @ [fin]))))))"

definition contact_by_key :: "code_table \<Rightarrow> (string \<times> ustr) option \<Rightarrow> bytes \<Rightarrow> contact_row list \<Rightarrow> bytes res" where
  "contact_by_key resp identity payload rows =
     (let key = parse_public_key_arg payload;
          stored = Option.bind key (\<lambda>k. get_by_key k rows);
          contact = (case (stored, key, alias_contact identity) of
                       (None, Some k, Some a) \<Rightarrow> if c_public_key a = lower k then Some a else None
                     | _ \<Rightarrow> stored)
      in case contact of
           None \<Rightarrow> Inr (err resp NOT_FOUND)
         | Some c \<Rightarrow> if \<not> is_full_public_key (Some (c_public_key c)) then Inr (err resp NOT_FOUND)
                     else encode_contact (packet_codes_of resp) c None)"

definition add_update_contact :: "code_table \<Rightarrow> bytes \<Rightarrow> vn_server \<Rightarrow> bytes vn_res \<times> vn_server" where
  "add_update_contact resp payload v =
     (case parse_contact_update payload of
        None \<Rightarrow> (Inr (err resp ILLEGAL_ARG), v)
      | Some update \<Rightarrow>
          let existing = get_by_key (up_public_key update) (sv_contacts v);
              upsert0 = from_radio_dict (up_public_key update) (update_to_radio_dict update) False;
              upsert = (case existing of Some e \<Rightarrow> if up_adv_name update = [] then upsert0\<lparr>cu_name := c_name e\<rparr> else upsert0 | None \<Rightarrow> upsert0);
              rows1 = contact_upsert (write_of_radio upsert) (sv_contacts v);
              favorite = (up_flags update AND 1 \<noteq> 0);
              rows2 = (if (case existing of None \<Rightarrow> True | Some e \<Rightarrow> c_favorite e \<noteq> favorite)
                       then set_favorite (up_public_key update) favorite rows1 else rows1)
          in (ok_frame resp, v\<lparr>sv_contacts := rows2\<rparr>))"

definition reset_path :: "code_table \<Rightarrow> command_env \<Rightarrow> bytes \<Rightarrow> vn_server \<Rightarrow> bytes vn_res \<times> vn_server" where
  "reset_path resp env payload v =
     (case Option.bind (parse_public_key_arg payload) (\<lambda>k. get_by_key k (sv_contacts v)) of
        None \<Rightarrow> (Inr (err resp NOT_FOUND), v)
      | Some c \<Rightarrow>
          let v1 = v\<lparr>sv_contacts := update_direct_path (c_public_key c) [] (-1) (Some (-1)) \<lfloor>ce_now env\<rfloor> (sv_contacts v)\<rparr>
          in (ok_frame resp, if ru_available (ce_radio env) then say (ResetPathOf (c_public_key c)) v1 else v1))"

definition remove_contact :: "code_table \<Rightarrow> command_env \<Rightarrow> bytes \<Rightarrow> vn_server \<Rightarrow> bytes vn_res \<times> vn_server" where
  "remove_contact resp env payload v =
     (case Option.bind (parse_public_key_arg payload) (\<lambda>k. get_by_key k (sv_contacts v)) of
        None \<Rightarrow> (Inr (err resp NOT_FOUND), v)
      | Some c \<Rightarrow>
          let v1 = (if ru_available (ce_radio env) \<and> ce_on_radio env (take 12 (c_public_key c)) then say (RemoveContactOf (c_public_key c)) v else v)
          in (ok_frame resp, v1\<lparr>sv_contacts := contact_delete (c_public_key c) (sv_contacts v1)\<rparr>))"

definition stage_contact :: "string option \<Rightarrow> vn_server \<Rightarrow> RadioContact option" where
  "stage_contact key v =
     (case key of None \<Rightarrow> None
      | Some k \<Rightarrow>
          if k = [] then None
          else case get_by_key k (sv_contacts v) of
                 None \<Rightarrow> None
               | Some c \<Rightarrow> if is_full_public_key (Some (c_public_key c)) then Some (to_radio_dict c) else None)"

definition contact_for_prefix :: "string \<Rightarrow> vn_server \<Rightarrow> Contact option" where
  "contact_for_prefix prefix_hex v =
     (case get_by_key_prefix prefix_hex (sv_contacts v) of
        None \<Rightarrow> None
      | Some c \<Rightarrow> if is_full_public_key (Some (c_public_key c)) then Some c else None)"

section \<open>Sends\<close>

text \<open>\<open>_pending_ack_for_message\<close>: the newest code of a message, the first of several with the same time.\<close>

definition pending_ack_for_message :: "int \<Rightarrow> (string \<times> pending_ack) list \<Rightarrow> string option \<times> int" where
  "pending_ack_for_message message_id acks =
     (case fold (\<lambda>(code, (m, created_at, timeout_ms)) newest.
                   if m = message_id \<and> (case newest of None \<Rightarrow> True | Some (t, _, _) \<Rightarrow> created_at > t)
                   then Some (created_at, code, timeout_ms) else newest) acks None of
        None \<Rightarrow> (None, 0)
      | Some (_, code, timeout_ms) \<Rightarrow> (Some code, timeout_ms))"

definition msg_sent_for_message :: "code_table \<Rightarrow> int \<Rightarrow> bool \<Rightarrow> real option \<Rightarrow> vn_server \<Rightarrow> bytes vn_res" where
  "msg_sent_for_message resp message_id is_flood since v =
     (case (since, vl_last_msg_sent v) of
        (Some t, Some (seen_at, frame)) \<Rightarrow>
          if seen_at \<ge> t then Inr frame
          else (case pending_ack_for_message message_id (sv_pending_acks v) of (code, timeout_ms) \<Rightarrow>
                  lift_res (bind_res (case code of None \<Rightarrow> Inr [] | Some c \<Rightarrow> hex_arg c) (\<lambda>a. encode_msg_sent (packet_codes_of resp) is_flood a timeout_ms)))
      | _ \<Rightarrow>
          (case pending_ack_for_message message_id (sv_pending_acks v) of (code, timeout_ms) \<Rightarrow>
             lift_res (bind_res (case code of None \<Rightarrow> Inr [] | Some c \<Rightarrow> hex_arg c) (\<lambda>a. encode_msg_sent (packet_codes_of resp) is_flood a timeout_ms))))"

definition expire_recent_dm_sends :: "real \<Rightarrow> vn_server \<Rightarrow> vn_server" where
  "expire_recent_dm_sends now v = v\<lparr>sv_recent_dm := filter (\<lambda>(k, m, expires, f). \<not> expires < now) (sv_recent_dm v)\<rparr>"

definition send_failed :: "code_table \<Rightarrow> nat \<Rightarrow> bytes" where
  "send_failed resp status = err resp (if status \<in> {408, 423} then BAD_STATE else ILLEGAL_ARG)"

text \<open>The send service puts the message on the air and the tap sees what the radio answers meanwhile.\<close>

definition send_text_message :: "code_table \<Rightarrow> code_table \<Rightarrow> command_env \<Rightarrow> bytes \<Rightarrow> vn_server \<Rightarrow> bytes vn_res \<times> vn_server" where
  "send_text_message cmd resp env payload v =
     (case parse_send_txt_msg payload of
        None \<Rightarrow> (Inr (err resp ILLEGAL_ARG), v)
      | Some outgoing \<Rightarrow>
          if ot_txt_type outgoing \<noteq> 0 then
            (case forward cmd resp (ce_radio env) (cmd ''SEND_TXT_MSG'' # payload)
                    (stage_contact (map_option c_public_key (contact_for_prefix (ot_pubkey_prefix outgoing) v)) v)
                    False (Some {MSG_SENT resp, ERR resp}) False v of
               (response, v1) \<Rightarrow> (Inr response, v1))
          else
            let v1 = expire_recent_dm_sends (ce_now env) v;
                retry_key = (ot_pubkey_prefix outgoing, ot_timestamp outgoing, ot_text outgoing)
            in case (if ot_attempt outgoing > 0 then map_of (sv_recent_dm v1) retry_key else None) of
                 Some (message_id, _, is_flood) \<Rightarrow> (msg_sent_for_message resp message_id is_flood None v1, count_local v1)
               | None \<Rightarrow>
                   (case contact_for_prefix (ot_pubkey_prefix outgoing) v1 of
                      None \<Rightarrow> (Inl (VirtualNodeError (if is_alias_prefix (ce_identity env) (ot_pubkey_prefix outgoing) then ILLEGAL_ARG else NOT_FOUND)), v1)
                    | Some contact \<Rightarrow>
                        let v2 = say (SendDirect (c_public_key contact) (ot_text outgoing)) (v1\<lparr>vl_forwarded_commands := Suc (vl_forwarded_commands v1)\<rparr>);
                            v3 = fold (on_radio_frame resp) (ru_frames (ce_radio env)) v2
                        in case ce_send env of
                             Inl status \<Rightarrow> (Inr (send_failed resp status), v3)
                           | Inr message_id \<Rightarrow>
                               let is_flood = (c_effective_route_source contact = SrcFlood);
                                   v4 = v3\<lparr>sv_recent_dm := AList.update retry_key (message_id, ce_now env + RECENT_DM_SEND_TTL_SECONDS, is_flood) (sv_recent_dm v3)\<rparr>
                               in (msg_sent_for_message resp message_id is_flood (Some (ce_started env)) v4, v4)))"

definition send_channel_message :: "code_table \<Rightarrow> command_env \<Rightarrow> bytes \<Rightarrow> vn_server \<Rightarrow> bytes vn_res \<times> vn_server" where
  "send_channel_message resp env payload v =
     (case parse_send_channel_txt_msg payload of
        None \<Rightarrow> (Inr (err resp ILLEGAL_ARG), v)
      | Some outgoing \<Rightarrow>
          let s = ensure_channel_slots (ce_readable env) (ce_saved env) (sv_slots v); v1 = v\<lparr>sv_slots := s\<rparr>
          in case channel_in_slot (oc_channel_index outgoing) s of
               None \<Rightarrow> (Inl (VirtualNodeError NOT_FOUND), v1)
             | Some channel \<Rightarrow>
                 let v2 = say (SendChannel (upper (cn_key channel)) (oc_text outgoing)) (v1\<lparr>vl_forwarded_commands := Suc (vl_forwarded_commands v1)\<rparr>);
                     v3 = fold (on_radio_frame resp) (ru_frames (ce_radio env)) v2
                 in case ce_send env of Inl status \<Rightarrow> (Inr (send_failed resp status), v3) | Inr _ \<Rightarrow> (ok_frame resp, v3))"

definition send_channel_data :: "code_table \<Rightarrow> code_table \<Rightarrow> command_env \<Rightarrow> bytes \<Rightarrow> vn_server \<Rightarrow> bytes vn_res \<times> vn_server" where
  "send_channel_data cmd resp env payload v =
     (case parse_send_channel_data payload of
        None \<Rightarrow> (Inr (err resp ILLEGAL_ARG), v)
      | Some outgoing \<Rightarrow>
          let s = ensure_channel_slots (ce_readable env) (ce_saved env) (sv_slots v); v1 = v\<lparr>sv_slots := s\<rparr>
          in case channel_in_slot (od_channel_index outgoing) s of
               None \<Rightarrow> (Inl (VirtualNodeError NOT_FOUND), v1)
             | Some channel \<Rightarrow>
                 (case ce_radio_slot env of
                    None \<Rightarrow> (Inr (err resp BAD_STATE), v1)
                  | Some radio_slot \<Rightarrow>
                      (case build_send_command radio_slot (int (od_data_type outgoing)) (od_blob outgoing) of
                         Inl _ \<Rightarrow> (Inr (err resp ILLEGAL_ARG), v1)
                       | Inr command \<Rightarrow>
                           (case forward cmd resp (ce_radio env) command None False (Some {resp ''OK'', ERR resp}) False v1 of
                              (response, v2) \<Rightarrow> (Inr response, v2)))))"

section \<open>Dispatch\<close>

definition one :: "bytes vn_res \<Rightarrow> bytes list vn_res" where
  "one r = (case r of Inl e \<Rightarrow> Inl e | Inr f \<Rightarrow> Inr [f])"

definition handle_command ::
  "code_table \<Rightarrow> code_table \<Rightarrow> command_env \<Rightarrow> byte \<Rightarrow> bytes \<Rightarrow> ClientSession \<Rightarrow> vn_server \<Rightarrow> bytes list vn_res \<times> ClientSession \<times> vn_server" where
  "handle_command cmd resp env code payload session v =
     (let pt = packet_codes_of resp in
      if code \<in> REFUSED_COMMANDS cmd then (Inl (VirtualNodeError UNSUPPORTED_CMD), session, v)
      else if sv_read_only v \<and> (code \<in> TRANSMIT_COMMANDS cmd \<or> code \<in> ADMIN_COMMANDS cmd \<or> code \<in> LOCAL_WRITE_COMMANDS cmd)
        then (Inl (VirtualNodeError UNSUPPORTED_CMD), session, v)
      else if code \<in> ADMIN_COMMANDS cmd \<and> \<not> ce_admin_allowed env then (Inl (VirtualNodeError UNSUPPORTED_CMD), session, v)
      else if code \<in> SEND_SHAPING_COMMANDS cmd then (one (ok_frame resp), session, count_local v)
      else if code = cmd ''APP_START'' then
        (let v1 = count_local v
         in case self_info_frame resp env v1 of
              Inl e \<Rightarrow> (Inl e, session, v1)
            | Inr info \<Rightarrow>
                (case start_app_session pt (ce_frame env) (sv_replay_limit v1) (ce_history_readable env) \<lfloor>ce_now env\<rfloor> info payload session
                        (sv_messages v1) (sv_client_table v1) of
                   (frames, session1, table) \<Rightarrow> (Inr frames, session1, v1\<lparr>sv_client_table := table\<rparr>)))
      else if code = cmd ''DEVICE_QEURY'' then (case device_info cmd resp env v of (f, v1) \<Rightarrow> (Inr [f], session, v1))
      else if code = cmd ''GET_CONTACTS'' then
        (lift_res (contacts_frames resp (ce_identity env) (parse_get_contacts_since payload) (sv_contacts v)), session, count_local v)
      else if code = cmd ''GET_CONTACT_BY_KEY'' then
        (one (lift_res (contact_by_key resp (ce_identity env) payload (sv_contacts v))), session, count_local v)
      else if code = cmd ''GET_DEVICE_TIME'' then (one (lift_res (encode_current_time pt \<lfloor>ce_now env\<rfloor>)), session, count_local v)
      else if code = cmd ''SET_DEVICE_TIME'' then (one (ok_frame resp), session, count_local v)
      else if code = cmd ''SYNC_NEXT_MESSAGE'' then
        (case sync_next_message pt session of (f, session1) \<Rightarrow> (Inr [f], session1, count_local v))
      else if code = cmd ''GET_CHANNEL'' then
        (case channel_info pt (ce_max_channels env) (ce_readable env) (ce_saved env) payload (sv_slots v) of
           (r, s) \<Rightarrow> (one (lift_res r), session, (count_local v)\<lparr>sv_slots := s\<rparr>))
      else if code = cmd ''SET_CHANNEL'' then
        (case set_channel pt (ce_max_channels env) (ce_readable env) (ce_saved env) payload (sv_slots v) of
           (r, s) \<Rightarrow> (one (lift_res r), session, (count_local v)\<lparr>sv_slots := s\<rparr>))
      else if code = cmd ''ADD_UPDATE_CONTACT'' then
        (case add_update_contact resp payload (count_local v) of (r, v1) \<Rightarrow> (one r, session, v1))
      else if code = cmd ''RESET_PATH'' then (case reset_path resp env payload (count_local v) of (r, v1) \<Rightarrow> (one r, session, v1))
      else if code = cmd ''REMOVE_CONTACT'' then (case remove_contact resp env payload (count_local v) of (r, v1) \<Rightarrow> (one r, session, v1))
      else if code = cmd ''SEND_TXT_MSG'' then (case send_text_message cmd resp env payload v of (r, v1) \<Rightarrow> (one r, session, v1))
      else if code = cmd ''SEND_CHANNEL_TXT_MSG'' then (case send_channel_message resp env payload v of (r, v1) \<Rightarrow> (one r, session, v1))
      else if unat code = CMD_SEND_CHANNEL_DATA then (case send_channel_data cmd resp env payload v of (r, v1) \<Rightarrow> (one r, session, v1))
      else if code = cmd ''GET_BATT_AND_STORAGE'' \<and> battery_from_stats resp env \<noteq> None then
        (one (the (battery_from_stats resp env)), session, count_local v)
      else if code = cmd ''EXPORT_PRIVATE_KEY'' \<and> \<not> ce_key_export env then (Inr [encode_disabled pt], session, count_local v)
      else
        let command = code # payload; cacheable = (code \<in> CACHED_QUERY_COMMANDS cmd)
        in case (if cacheable then cached_response (ce_now env) command v else (None, v)) of
             (Some cached, v1) \<Rightarrow> (Inr [cached], session, v1\<lparr>vl_cached_commands := Suc (vl_cached_commands v1)\<rparr>)
           | (None, v1) \<Rightarrow>
               (case forward cmd resp (ce_radio env) command
                       (if code \<in> CONTACT_ADDRESSED_COMMANDS cmd then stage_contact (parse_public_key_arg payload) v1 else None)
                       (code \<in> IDENTITY_CHANGING_COMMANDS cmd) None cacheable v1 of
                  (response, v2) \<Rightarrow>
                    (Inr [response], session, if code \<in> ADMIN_COMMANDS cmd then v2\<lparr>vl_cache := []\<rparr> else v2)))"

definition serve ::
  "code_table \<Rightarrow> code_table \<Rightarrow> command_env \<Rightarrow> bytes \<Rightarrow> ClientSession \<Rightarrow> vn_server \<Rightarrow> bytes list \<times> ClientSession \<times> vn_server" where
  "serve cmd resp env command session v =
     (case command of
        [] \<Rightarrow> ([], session, v)
      | code # payload \<Rightarrow>
          (case handle_command cmd resp env code payload session v of
             (Inl (VirtualNodeError e), s1, v1) \<Rightarrow> ([err resp e], s1, v1)
           | (Inl (OtherError _), s1, v1) \<Rightarrow> ([bad_state resp], s1, v1)
           | (Inr frames, s1, v1) \<Rightarrow> (frames, s1, v1)))"

section \<open>What an app can make the node do\<close>

text \<open>What the node may do at the radio while it serves a command with a given code. A read-only node still puts a stored contact on the
  radio before it forwards one of the two queries that address a contact.\<close>

fun permitted :: "code_table \<Rightarrow> byte \<Rightarrow> bool \<Rightarrow> bool \<Rightarrow> radio_op \<Rightarrow> bool" where
  "permitted cmd code read_only admin (Command c) \<longleftrightarrow>
     hd c \<notin> REFUSED_COMMANDS cmd \<and> hd c \<notin> SEND_SHAPING_COMMANDS cmd
     \<and> (hd c \<in> ADMIN_COMMANDS cmd \<longrightarrow> admin \<and> \<not> read_only)
     \<and> (hd c \<in> TRANSMIT_COMMANDS cmd \<union> LOCAL_WRITE_COMMANDS cmd \<longrightarrow> \<not> read_only)"
| "permitted cmd code read_only admin (StageContact c) \<longleftrightarrow> (read_only \<longrightarrow> code \<in> {cmd ''HAS_CONNECTION'', cmd ''EXPORT_CONTACT''})"
| "permitted cmd code read_only admin RefreshIdentity \<longleftrightarrow> admin \<and> \<not> read_only"
| "permitted cmd code read_only admin (ResetPathOf k) \<longleftrightarrow> \<not> read_only"
| "permitted cmd code read_only admin (RemoveContactOf k) \<longleftrightarrow> \<not> read_only"
| "permitted cmd code read_only admin (SendDirect k t) \<longleftrightarrow> \<not> read_only"
| "permitted cmd code read_only admin (SendChannel k t) \<longleftrightarrow> \<not> read_only"

text \<open>The stores an app can change through the node.\<close>

definition stores :: "vn_server \<Rightarrow> bool \<times> contact_row list \<times> Channel list \<times> (dm_key \<times> int \<times> real \<times> bool) list" where
  "stores v = (sv_read_only v, sv_contacts v, vs_channels (sv_slots v), sv_recent_dm v)"

definition guarded_step :: "code_table \<Rightarrow> byte \<Rightarrow> bool \<Rightarrow> vn_server \<Rightarrow> vn_server \<Rightarrow> bool" where
  "guarded_step cmd code admin v v' \<longleftrightarrow> sv_read_only v' = sv_read_only v
     \<and> (\<exists>ops. vl_radio v' = vl_radio v @ ops \<and> list_all (permitted cmd code (sv_read_only v) admin) ops)
     \<and> (sv_read_only v \<longrightarrow> stores v' = stores v)"

lemma guarded_refl [simp]: "guarded_step cmd code admin v v"
  by (simp add: guarded_step_def)

lemma guarded_same: "vl_radio v' = vl_radio v \<Longrightarrow> stores v' = stores v \<Longrightarrow> guarded_step cmd code admin v v'"
  by (simp add: guarded_step_def stores_def)

lemma count_local_simps [simp]: "vl_radio (count_local v) = vl_radio v" "stores (count_local v) = stores v"
    "sv_read_only (count_local v) = sv_read_only v" "sv_contacts (count_local v) = sv_contacts v" "sv_slots (count_local v) = sv_slots v"
  by (simp_all add: count_local_def stores_def)

lemma tap_more: "vn_link.more (on_radio_frame resp x v) = vn_link.more v"
  by (cases x; simp add: on_radio_frame_def Let_def note_identity_def split: option.splits prod.splits)

lemma vn_server_more: "vn_link.more (v :: vn_server) = vn_link.more w \<Longrightarrow> stores v = stores w \<and> sv_read_only v = sv_read_only w"
  by (cases v; cases w) (simp add: stores_def)

lemma taps_stores [simp]: "stores (fold (on_radio_frame resp) xs (v :: vn_server)) = stores v"
    "sv_read_only (fold (on_radio_frame resp) xs (v :: vn_server)) = sv_read_only v"
proof -
  have "vn_link.more (fold (on_radio_frame resp) xs v) = vn_link.more v" by (induction xs arbitrary: v) (simp_all add: tap_more)
  then show "stores (fold (on_radio_frame resp) xs v) = stores v" "sv_read_only (fold (on_radio_frame resp) xs v) = sv_read_only v"
    using vn_server_more by blast+
qed

lemma stores_link [simp]:
  "stores (v\<lparr>vl_cache := c\<rparr>) = stores v" "stores (v\<lparr>vl_pending := p\<rparr>) = stores v" "stores (v\<lparr>vl_forwarded_commands := n\<rparr>) = stores v"
  "stores (v\<lparr>vl_cached_commands := n\<rparr>) = stores v" "stores (say x v) = stores v" "stores (v\<lparr>vl_device_info := d\<rparr>) = stores v"
  "sv_read_only (say x v) = sv_read_only v"
  by (simp_all add: stores_def say_def)

lemma say_radio [simp]: "vl_radio (say x v) = vl_radio v @ [x]"
  by (simp add: say_def)

lemma exchange_guarded:
  assumes "exchange resp u command expected (v :: vn_server) = (r, v')"
  shows "stores v' = stores v \<and> vl_radio v' = vl_radio v @ [Command command]"
  using assms by (auto simp: exchange_def Let_def)

lemma cached_guarded: "stores (snd (cached_response now command (v :: vn_server))) = stores v"
    "vl_radio (snd (cached_response now command v)) = vl_radio v"
  by (simp_all add: cached_response_def split: option.split prod.split)

definition link_ops :: "bytes \<Rightarrow> bool \<Rightarrow> bool \<Rightarrow> radio_op list \<Rightarrow> bool" where
  "link_ops command staged refresh ops \<longleftrightarrow> (\<forall>x\<in>set ops. x = Command command \<or> staged \<and> (\<exists>c. x = StageContact c) \<or> x = RefreshIdentity \<and> refresh)"

lemma link_ops_append: "link_ops command staged refresh (xs @ ys) \<longleftrightarrow> link_ops command staged refresh xs \<and> link_ops command staged refresh ys"
  by (auto simp: link_ops_def)

lemma under_lock_guarded:
  assumes "forward_under_lock resp u command stage refresh expected cacheable (v :: vn_server) = (r, v')"
  shows "stores v' = stores v \<and> (\<exists>ops. vl_radio v' = vl_radio v @ ops \<and> link_ops command (stage \<noteq> None) refresh ops)"
proof -
  obtain c v1 where cr: "(if cacheable then cached_response (ru_now u) command v else (None, v)) = (c, v1)" by fastforce
  have v1: "stores v1 = stores v" "vl_radio v1 = vl_radio v" using cr cached_guarded [of "ru_now u" command v] by (auto split: if_splits)
  show ?thesis
  proof (cases c)
    case None
    define v3 where "v3 = (case stage of None \<Rightarrow> v1\<lparr>vl_forwarded_commands := Suc (vl_forwarded_commands v1)\<rparr>
        | Some c \<Rightarrow> say (StageContact c) (v1\<lparr>vl_forwarded_commands := Suc (vl_forwarded_commands v1)\<rparr>))"
    obtain r0 v4 where x: "exchange resp u command expected v3 = (r0, v4)" by fastforce
    obtain pre where v3: "stores v3 = stores v" "vl_radio v3 = vl_radio v @ pre" "link_ops command (stage \<noteq> None) refresh pre"
      using v1 by (cases stage) (auto simp: v3_def link_ops_def)
    define v5 where "v5 = (if refresh \<and> hd r0 \<noteq> ERR resp then say RefreshIdentity v4 else v4)"
    define post where "post = Command command # (if refresh \<and> hd r0 \<noteq> ERR resp then [RefreshIdentity] else [])"
    have v5: "stores v5 = stores v" "vl_radio v5 = vl_radio v @ pre @ post" "link_ops command (stage \<noteq> None) refresh post"
      using exchange_guarded [OF x] v3 by (simp_all add: v5_def post_def link_ops_def)
    have "v' = (if cacheable \<and> hd r0 \<noteq> ERR resp
        then v5\<lparr>vl_cache := AList.update command (ru_now u + RESPONSE_CACHE_TTL_SECONDS, r0) (vl_cache v5)\<rparr> else v5)"
      using assms unfolding forward_under_lock_def cr None Let_def prod.case option.case v3_def [symmetric] x v5_def by (elim Pair_inject) (rule sym)
    then show ?thesis using v5 v3(3) by (auto simp: link_ops_append)
  next
    case (Some a)
    then have "v' = v1\<lparr>vl_cached_commands := Suc (vl_cached_commands v1)\<rparr>" using assms cr by (simp add: forward_under_lock_def)
    then show ?thesis using v1 by (auto simp: link_ops_def)
  qed
qed

lemma stores_read_only: "stores v' = stores v \<Longrightarrow> sv_read_only v' = sv_read_only v"
  by (simp add: stores_def)

lemma forward_guarded:
  assumes "forward cmd resp u command stage refresh expected cacheable (v :: vn_server) = (r, v')"
    and "permitted cmd code (sv_read_only v) admin (Command command)" and "refresh \<Longrightarrow> admin \<and> \<not> sv_read_only v"
    and "stage \<noteq> None \<Longrightarrow> sv_read_only v \<Longrightarrow> code \<in> {cmd ''HAS_CONNECTION'', cmd ''EXPORT_CONTACT''}"
  shows "guarded_step cmd code admin v v'"
proof (cases "ru_available u")
  case True
  then obtain e where "forward_under_lock resp u command stage refresh e cacheable v = (r, v')" using assms(1) by (auto simp: forward_def Let_def)
  from under_lock_guarded [OF this] obtain ops where o: "stores v' = stores v" "vl_radio v' = vl_radio v @ ops" "link_ops command (stage \<noteq> None) refresh ops" by blast
  have "permitted cmd code (sv_read_only v) admin x" if x: "x \<in> set ops" for x
  proof -
    consider "x = Command command" | c where "x = StageContact c" "stage \<noteq> None" | "x = RefreshIdentity" "refresh" using o(3) x unfolding link_ops_def by blast
    then show ?thesis using assms(2-4) by cases auto
  qed
  then have "list_all (permitted cmd code (sv_read_only v) admin) ops" by (simp add: list_all_iff)
  then show ?thesis using o(1,2) stores_read_only [OF o(1)] unfolding guarded_step_def by blast
qed (use assms(1) in \<open>simp add: forward_def Let_def\<close>)

lemma ensure_channels [simp]: "vs_channels (ensure_channel_slots r w s) = vs_channels s"
  by (simp add: ensure_channel_slots_def load_channel_slots_def persist_channel_slots_def Let_def)

lemma stores_slots: "vs_channels s = vs_channels (sv_slots v) \<Longrightarrow> stores (v\<lparr>sv_slots := s\<rparr>) = stores v"
  by (simp add: stores_def)

lemma guarded_trans:
  assumes "guarded_step cmd code admin a b" and "guarded_step cmd code admin b c"
  shows "guarded_step cmd code admin a c"
proof -
  obtain xs ys where x: "vl_radio b = vl_radio a @ xs" "list_all (permitted cmd code (sv_read_only a) admin) xs"
    and y: "vl_radio c = vl_radio b @ ys" "list_all (permitted cmd code (sv_read_only b) admin) ys"
    using assms unfolding guarded_step_def by blast
  have r: "sv_read_only b = sv_read_only a" using assms(1) by (simp add: guarded_step_def)
  have "vl_radio c = vl_radio a @ (xs @ ys)" "list_all (permitted cmd code (sv_read_only a) admin) (xs @ ys)"
    using x y r by simp_all
  then show ?thesis using assms r unfolding guarded_step_def by auto
qed

text \<open>The handlers that only run when the node is not read-only.\<close>

lemma guarded_writer:
  assumes "\<not> sv_read_only v" and "sv_read_only v' = sv_read_only v" and "vl_radio v' = vl_radio v @ ops" and "list_all (permitted cmd code False admin) ops"
  shows "guarded_step cmd code admin v v'"
  using assms by (auto simp: guarded_step_def)

lemma device_info_guarded:
  assumes "device_info cmd resp env v = (f, v')" and "permitted cmd code (sv_read_only v) admin (Command [cmd ''DEVICE_QEURY'', 0x03])"
  shows "guarded_step cmd code admin v v'"
proof (cases "vl_device_info v")
  case (Some d)
  then show ?thesis using assms(1) by (intro guarded_same) (auto simp: device_info_def Let_def stores_slots)
next
  case None
  obtain r v1 where f: "forward cmd resp (ce_radio env) [cmd ''DEVICE_QEURY'', 0x03] None False None False v = (r, v1)" by fastforce
  have g: "guarded_step cmd code admin v v1" using forward_guarded [OF f assms(2)] by simp
  have "vl_radio v' = vl_radio v1 \<and> stores v' = stores v1"
    using assms(1) None f by (auto simp: device_info_def Let_def stores_slots split: if_splits)
  then show ?thesis using guarded_trans [OF g guarded_same] by blast
qed

lemma send_text_guarded:
  assumes "send_text_message cmd resp env payload v = (r, v')" and "\<not> sv_read_only v"
    and "\<And>p. permitted cmd code False admin (Command (cmd ''SEND_TXT_MSG'' # p))"
  shows "guarded_step cmd code admin v v'"
proof (cases "parse_send_txt_msg payload")
  case None
  then show ?thesis using assms(1) by (auto simp: send_text_message_def)
next
  case (Some o')
  have ex: "vl_radio (expire_recent_dm_sends t v) = vl_radio v" "sv_read_only (expire_recent_dm_sends t v) = sv_read_only v" for t
    by (simp_all add: expire_recent_dm_sends_def)
  show ?thesis
  proof (cases "ot_txt_type o' = 0")
    case False
    then obtain st rr where "forward cmd resp (ce_radio env) (cmd ''SEND_TXT_MSG'' # payload) st False (Some {MSG_SENT resp, ERR resp}) False v = (rr, v')"
      using assms(1) Some by (auto simp: send_text_message_def split: prod.splits)
    from forward_guarded [OF this, of code admin] show ?thesis using assms(2) assms(3) [of payload] by simp
  next
    case True
    let ?v1 = "expire_recent_dm_sends (ce_now env) v"
    have "\<exists>ops. vl_radio v' = vl_radio v @ ops \<and> list_all (permitted cmd code False admin) ops \<and> sv_read_only v' = sv_read_only v"
      using assms(1) Some True
      by (auto simp: send_text_message_def Let_def ex split: option.splits sum.splits prod.splits if_splits)
    then show ?thesis using guarded_writer assms(2) by blast
  qed
qed

lemma send_channel_guarded:
  assumes "send_channel_message resp env payload v = (r, v')" and "\<not> sv_read_only v"
  shows "guarded_step cmd code admin v v'"
proof -
  have "\<exists>ops. vl_radio v' = vl_radio v @ ops \<and> list_all (permitted cmd code False admin) ops \<and> sv_read_only v' = sv_read_only v"
    using assms(1) by (auto simp: send_channel_message_def Let_def split: option.splits sum.splits)
  then show ?thesis using guarded_writer assms(2) by blast
qed

lemma send_data_guarded:
  assumes "send_channel_data cmd resp env payload v = (r, v')" and "\<not> sv_read_only v"
    and "\<And>p. permitted cmd code False admin (Command (byte_of CMD_SEND_CHANNEL_DATA # p))"
  shows "guarded_step cmd code admin v v'"
proof (cases "parse_send_channel_data payload")
  case (Some o')
  let ?v1 = "v\<lparr>sv_slots := ensure_channel_slots (ce_readable env) (ce_saved env) (sv_slots v)\<rparr>"
  have v1: "guarded_step cmd code admin v ?v1" by (rule guarded_same) (simp_all add: stores_slots)
  have "v' = ?v1 \<or> (\<exists>p rr. forward cmd resp (ce_radio env) (byte_of CMD_SEND_CHANNEL_DATA # p) None False (Some {resp ''OK'', ERR resp}) False ?v1 = (rr, v'))"
    using assms(1) Some by (auto simp: send_channel_data_def build_send_command_def Let_def split: option.splits sum.splits prod.splits if_splits)
  then show ?thesis
  proof
    assume "\<exists>p rr. forward cmd resp (ce_radio env) (byte_of CMD_SEND_CHANNEL_DATA # p) None False (Some {resp ''OK'', ERR resp}) False ?v1 = (rr, v')"
    then have "guarded_step cmd code admin ?v1 v'" using forward_guarded [where code = code and admin = admin and v = ?v1] assms(2,3) by fastforce
    then show ?thesis using guarded_trans v1 by blast
  qed (use v1 in simp)
qed (use assms(1) in \<open>auto simp: send_channel_data_def\<close>)

lemma contact_writes_guarded:
  assumes "\<not> sv_read_only v"
  shows "guarded_step cmd code admin v (snd (add_update_contact resp payload (count_local v)))"
    "guarded_step cmd code admin v (snd (reset_path resp env payload (count_local v)))"
    "guarded_step cmd code admin v (snd (remove_contact resp env payload (count_local v)))"
  using assms
  by (auto simp: guarded_step_def add_update_contact_def reset_path_def remove_contact_def Let_def count_local_def say_def split: option.split)

lemma command_classes:
  "cmd ''SET_CHANNEL'' \<in> LOCAL_WRITE_COMMANDS cmd" "cmd ''ADD_UPDATE_CONTACT'' \<in> LOCAL_WRITE_COMMANDS cmd"
  "cmd ''RESET_PATH'' \<in> LOCAL_WRITE_COMMANDS cmd" "cmd ''REMOVE_CONTACT'' \<in> LOCAL_WRITE_COMMANDS cmd"
  "cmd ''SEND_TXT_MSG'' \<in> TRANSMIT_COMMANDS cmd" "cmd ''SEND_CHANNEL_TXT_MSG'' \<in> TRANSMIT_COMMANDS cmd"
  "byte_of CMD_SEND_CHANNEL_DATA \<in> TRANSMIT_COMMANDS cmd" "code \<in> IDENTITY_CHANGING_COMMANDS cmd \<Longrightarrow> code \<in> ADMIN_COMMANDS cmd"
  by (auto simp: LOCAL_WRITE_COMMANDS_def TRANSMIT_COMMANDS_def IDENTITY_CHANGING_COMMANDS_def ADMIN_COMMANDS_def)

lemma channel_data_code: "unat code = CMD_SEND_CHANNEL_DATA \<Longrightarrow> code = byte_of CMD_SEND_CHANNEL_DATA"
  by (metis byte_of_unat)

lemma forwarded_guarded:
  assumes "(case (if cacheable then cached_response now (code # payload) v else (None, v)) of
             (Some cached, v1) \<Rightarrow> (Inr [cached], session, v1\<lparr>vl_cached_commands := Suc (vl_cached_commands v1)\<rparr>)
           | (None, v1) \<Rightarrow>
               (case forward cmd resp u (code # payload) (stage v1) refresh None cacheable v1 of
                  (response, v2) \<Rightarrow> (Inr [response], session, if clear then v2\<lparr>vl_cache := []\<rparr> else v2))) = (r, s', (v' :: vn_server))"
    and "permitted cmd code (sv_read_only v) admin (Command (code # payload))" and "refresh \<Longrightarrow> admin \<and> \<not> sv_read_only v"
    and "\<And>v1. stage v1 \<noteq> None \<Longrightarrow> sv_read_only v \<Longrightarrow> code \<in> {cmd ''HAS_CONNECTION'', cmd ''EXPORT_CONTACT''}"
  shows "guarded_step cmd code admin v v'"
proof -
  obtain c v1 where cr: "(if cacheable then cached_response now (code # payload) v else (None, v)) = (c, v1)" by fastforce
  have v1: "stores v1 = stores v" "vl_radio v1 = vl_radio v" using cr cached_guarded [of now "code # payload" v] by (auto split: if_splits)
  note ro = stores_read_only [OF v1(1)] and g1 = guarded_same [OF v1(2,1)]
  show ?thesis
  proof (cases c)
    case None
    obtain rr v2 where f: "forward cmd resp u (code # payload) (stage v1) refresh None cacheable v1 = (rr, v2)" by fastforce
    have "guarded_step cmd code admin v1 v2" using forward_guarded [OF f, of code admin] assms(2-4) ro by auto
    moreover have "v' = (if clear then v2\<lparr>vl_cache := []\<rparr> else v2)" using assms(1) unfolding cr None prod.case option.case f by simp
    moreover have "guarded_step cmd code admin v2 (v2\<lparr>vl_cache := []\<rparr>)" by (rule guarded_same) simp_all
    ultimately show ?thesis using g1 guarded_trans by (cases clear) (simp, blast)+
  next
    case (Some a)
    then have "v' = v1\<lparr>vl_cached_commands := Suc (vl_cached_commands v1)\<rparr>" using assms(1) unfolding cr Some by simp
    then show ?thesis using v1 by (intro guarded_same) simp_all
  qed
qed

lemma if_elim: "(if b then x else y) = z \<Longrightarrow> (b \<Longrightarrow> x = z \<Longrightarrow> P) \<Longrightarrow> (\<not> b \<Longrightarrow> y = z \<Longrightarrow> P) \<Longrightarrow> P"
  by (cases b) simp_all

lemma handle_guarded:
  assumes "handle_command cmd resp env code payload session v = (r, s', v')"
  shows "guarded_step cmd code (ce_admin_allowed env) v v'"
proof (cases "code \<in> REFUSED_COMMANDS cmd
      \<or> sv_read_only v \<and> (code \<in> TRANSMIT_COMMANDS cmd \<or> code \<in> ADMIN_COMMANDS cmd \<or> code \<in> LOCAL_WRITE_COMMANDS cmd)
      \<or> code \<in> ADMIN_COMMANDS cmd \<and> \<not> ce_admin_allowed env \<or> code \<in> SEND_SHAPING_COMMANDS cmd")
  case True
  then show ?thesis using assms by (auto simp: handle_command_def Let_def intro!: guarded_same split: if_splits)
next
  case False
  then have perm: "permitted cmd code (sv_read_only v) (ce_admin_allowed env) (Command (code # p))" for p by auto
  have wr: "\<not> sv_read_only v" if "code \<in> TRANSMIT_COMMANDS cmd \<or> code \<in> LOCAL_WRITE_COMMANDS cmd" using False that by blast
  have rest: "code \<notin> REFUSED_COMMANDS cmd" "\<not> (sv_read_only v \<and> (code \<in> TRANSMIT_COMMANDS cmd \<or> code \<in> ADMIN_COMMANDS cmd \<or> code \<in> LOCAL_WRITE_COMMANDS cmd))"
    "\<not> (code \<in> ADMIN_COMMANDS cmd \<and> \<not> ce_admin_allowed env)" "code \<notin> SEND_SHAPING_COMMANDS cmd" using False by blast+
  note h = assms [unfolded handle_command_def Let_def if_not_P [OF rest(1)] if_not_P [OF rest(2)] if_not_P [OF rest(3)] if_not_P [OF rest(4)]]
  have cl: "guarded_step cmd code (ce_admin_allowed env) v (count_local v)" by (rule guarded_same) simp_all
  show ?thesis
    using h
  proof (elim if_elim, goal_cases)
    case 1
    then show ?case
      by (intro guarded_same) (auto simp: stores_def count_local_def split: sum.splits prod.splits)
  next
    case 2
    then show ?case using device_info_guarded [where cmd = cmd and resp = resp and env = env and v = v and v' = v' and code = code and admin = "ce_admin_allowed env"] perm [of "[0x03]"] by (auto split: prod.splits)
  next
    case 8
    then show ?case by (intro guarded_same) (auto simp: channel_info_def Let_def stores_def count_local_def split: prod.splits if_splits)
  next
    case 9
    then have "\<not> sv_read_only v" using wr command_classes(1) by blast
    then show ?case using 9 by (intro guarded_writer [where ops = "[]"]) (auto split: prod.splits)
  next
    case 10
    then have "\<not> sv_read_only v" using wr command_classes(2) by blast
    from contact_writes_guarded(1) [OF this] show ?case using 10 by (metis (no_types, lifting) Pair_inject case_prod_beta')
  next
    case 11
    then have "\<not> sv_read_only v" using wr command_classes(3) by blast
    from contact_writes_guarded(2) [OF this] show ?case using 11 by (metis (no_types, lifting) Pair_inject case_prod_beta')
  next
    case 12
    then have "\<not> sv_read_only v" using wr command_classes(4) by blast
    from contact_writes_guarded(3) [OF this] show ?case using 12 by (metis (no_types, lifting) Pair_inject case_prod_beta')
  next
    case 13
    then have w: "\<not> sv_read_only v" using wr command_classes(5) by blast
    obtain rr where "send_text_message cmd resp env payload v = (rr, v')" using 13 by (auto split: prod.splits)
    from send_text_guarded [OF this w] show ?case using perm 13 w by simp
  next
    case 14
    then have w: "\<not> sv_read_only v" using wr command_classes(6) by blast
    obtain rr where "send_channel_message resp env payload v = (rr, v')" using 14 by (auto split: prod.splits)
    from send_channel_guarded [OF this w] show ?case .
  next
    case 15
    then have c: "code = byte_of CMD_SEND_CHANNEL_DATA" using channel_data_code by blast
    then have w: "\<not> sv_read_only v" using wr command_classes(7) by blast
    obtain rr where "send_channel_data cmd resp env payload v = (rr, v')" using 15 by (auto split: prod.splits)
    from send_data_guarded [OF this w] show ?case using perm c w by simp
  next
    case 18
    have stage: "(if code \<in> CONTACT_ADDRESSED_COMMANDS cmd then stage_contact (parse_public_key_arg payload) v1 else None) \<noteq> None \<Longrightarrow> sv_read_only v
        \<Longrightarrow> code \<in> {cmd ''HAS_CONNECTION'', cmd ''EXPORT_CONTACT''}" for v1
      using rest(2) by (auto simp: CONTACT_ADDRESSED_COMMANDS_def TRANSMIT_COMMANDS_def split: if_splits)
    show ?case by (rule forwarded_guarded [OF 18(18) _ _ stage]) (use perm [of payload] rest(2,3) command_classes(8) in blast)+
  qed (use cl in \<open>auto simp: guarded_same split: prod.splits\<close>)
qed


definition demo_server :: vn_server where
  "demo_server = \<lparr>vl_has_clients = True, vl_pending = None, vl_cache = [], vl_self_info = None, vl_device_info = None, vl_last_msg_sent = None,
     vl_cached_commands = 0, vl_forwarded_commands = 0, vl_radio = [], vl_apps = [], sv_read_only = True, sv_replay_limit = 10,
     sv_local_commands = 0, sv_slots = fresh_slots [], sv_contacts = [inserted_row (demo_write (replicate 64 (CHR ''a'')))], sv_messages = [],
     sv_client_table = (\<lambda>_. None), sv_recent_dm = [], sv_pending_acks = []\<rparr>"

definition demo_env :: "real \<Rightarrow> command_env" where
  "demo_env t = \<lparr>ce_now = t, ce_started = t, ce_admin_allowed = False, ce_key_export = False, ce_radio = demo_use\<lparr>ru_available := False\<rparr>, ce_self_info = None,
     ce_identity = None, ce_max_channels = None, ce_battery = None, ce_readable = True, ce_saved = True, ce_history_readable = True,
     ce_on_radio = (\<lambda>_. False), ce_send = Inr 7, ce_radio_slot = None, ce_frame = (\<lambda>_. None)\<rparr>"

text \<open>A read-only node with its radio at hand: \<open>EXPORT_CONTACT\<close> is forwarded, and the contact staged for it; a direct message is refused.\<close>

definition app_cmd :: code_table where
  "app_cmd n = (if n = ''EXPORT_CONTACT'' then 17 else if n = ''SEND_TXT_MSG'' then 2 else 200)"

definition asked :: "bytes \<Rightarrow> bytes list \<times> ClientSession \<times> vn_server" where
  "asked command = serve app_cmd demo_resp ((demo_env 0)\<lparr>ce_radio := demo_use\<rparr>) command (new_session []) demo_server"

lemma forward_ops:
  assumes "ru_available u"
  shows "vl_radio (snd (forward cmd resp u command stage False e False (v :: vn_server)))
    = vl_radio v @ (case stage of None \<Rightarrow> [] | Some c \<Rightarrow> [StageContact c]) @ [Command command]"
proof -
  obtain e' where e: "forward cmd resp u command stage False e False v = forward_under_lock resp u command stage False e' False v"
    using assms by (simp add: forward_def Let_def)
  define v3 where "v3 = (case stage of None \<Rightarrow> v\<lparr>vl_forwarded_commands := Suc (vl_forwarded_commands v)\<rparr>
      | Some c \<Rightarrow> say (StageContact c) (v\<lparr>vl_forwarded_commands := Suc (vl_forwarded_commands v)\<rparr>))"
  obtain r v4 where x: "exchange resp u command e' v3 = (r, v4)" by fastforce
  have "forward_under_lock resp u command stage False e' False v = (r, v4)" by (simp add: forward_under_lock_def Let_def x flip: v3_def)
  then show ?thesis using exchange_guarded [OF x] e by (simp add: v3_def split: option.split)
qed

lemma export_staged: "stage_contact (parse_public_key_arg (replicate 32 0xAA)) demo_server \<noteq> None"
  by code_simp

lemma asked_radio:
  "length (vl_radio (snd (snd (asked (17 # replicate 32 0xAA))))) = 2" "vl_radio (snd (snd (asked (2 # replicate 20 0xAA)))) = []"
proof -
  let ?env = "(demo_env 0)\<lparr>ce_radio := demo_use\<rparr>"
  have sets: "17 \<notin> REFUSED_COMMANDS app_cmd" "17 \<notin> TRANSMIT_COMMANDS app_cmd" "17 \<notin> ADMIN_COMMANDS app_cmd" "17 \<notin> LOCAL_WRITE_COMMANDS app_cmd"
    "17 \<notin> SEND_SHAPING_COMMANDS app_cmd" "17 \<notin> CACHED_QUERY_COMMANDS app_cmd" "17 \<in> CONTACT_ADDRESSED_COMMANDS app_cmd"
    "17 \<notin> IDENTITY_CHANGING_COMMANDS app_cmd" "2 \<notin> REFUSED_COMMANDS app_cmd" "2 \<in> TRANSMIT_COMMANDS app_cmd"
    by code_simp+
  have "snd (snd (handle_command app_cmd demo_resp ?env 17 (replicate 32 0xAA) (new_session []) demo_server))
      = snd (forward app_cmd demo_resp demo_use (17 # replicate 32 0xAA) (stage_contact (parse_public_key_arg (replicate 32 0xAA)) demo_server) False None False demo_server)"
    by (simp add: handle_command_def Let_def sets app_cmd_def CMD_SEND_CHANNEL_DATA_def split: prod.split)
  moreover have "snd (snd (asked (17 # replicate 32 0xAA)))
      = snd (snd (handle_command app_cmd demo_resp ?env 17 (replicate 32 0xAA) (new_session []) demo_server))"
    by (simp add: asked_def serve_def case_prod_beta split: sum.split vn_failure.split)
  moreover obtain c where "stage_contact (parse_public_key_arg (replicate 32 0xAA)) demo_server = Some c" using export_staged by blast
  moreover have "ru_available demo_use" "vl_radio demo_server = []" by (simp_all add: demo_use_def demo_server_def)
  ultimately show "length (vl_radio (snd (snd (asked (17 # replicate 32 0xAA))))) = 2" by (simp only: forward_ops option.case) simp
  have ro: "sv_read_only demo_server" by (simp add: demo_server_def)
  have "handle_command app_cmd demo_resp ?env 2 p (new_session []) demo_server = (Inl (VirtualNodeError UNSUPPORTED_CMD), new_session [], demo_server)" for p
    unfolding handle_command_def Let_def by (simp only: sets ro simp_thms if_False if_True)
  then show "vl_radio (snd (snd (asked (2 # replicate 20 0xAA)))) = []" unfolding asked_def serve_def list.case by (simp only: prod.case sum.case vn_failure.case snd_conv)
      (simp add: demo_server_def)
qed


section \<open>Retries of an app\<close>

lemma map_of_filter_keep: "map_of xs k = Some e \<Longrightarrow> P (k, e) \<Longrightarrow> map_of (filter P xs) k = Some e"
  by (induction xs) (auto split: if_splits)

text \<open>When an app retries a direct message within two minutes, with the same destination, time and text, the node answers for the
  message it already sent: nothing goes to the radio, no second message is created, and the send stays remembered.\<close>

theorem dm_retry_not_resent:
  assumes first: "parse_send_txt_msg payload1 = Some out1" "ot_txt_type out1 = 0" "ot_attempt out1 = 0"
    and found: "contact_for_prefix (ot_pubkey_prefix out1) v = Some contact" and sent: "ce_send env1 = Inr message_id"
    and retry: "parse_send_txt_msg payload2 = Some out2" "ot_txt_type out2 = 0" "ot_attempt out2 > 0"
      "ot_pubkey_prefix out2 = ot_pubkey_prefix out1" "ot_timestamp out2 = ot_timestamp out1" "ot_text out2 = ot_text out1"
    and soon: "ce_now env2 \<le> ce_now env1 + RECENT_DM_SEND_TTL_SECONDS"
    and run: "send_text_message cmd resp env1 payload1 v = (r1, v1)" "send_text_message cmd resp env2 payload2 v1 = (r2, v2)"
  shows "vl_radio v1 = vl_radio v @ [SendDirect (c_public_key contact) (ot_text out1)]
    \<and> vl_radio v2 = vl_radio v1
    \<and> r2 = msg_sent_for_message resp message_id (c_effective_route_source contact = SrcFlood) None (expire_recent_dm_sends (ce_now env2) v1)
    \<and> map_of (sv_recent_dm v2) (ot_pubkey_prefix out1, ot_timestamp out1, ot_text out1) \<noteq> None"
proof -
  let ?k = "(ot_pubkey_prefix out1, ot_timestamp out1, ot_text out1)"
  let ?e = "(message_id, ce_now env1 + RECENT_DM_SEND_TTL_SECONDS, c_effective_route_source contact = SrcFlood)"
  let ?x = "expire_recent_dm_sends (ce_now env1) v"
  let ?t = "fold (on_radio_frame resp) (ru_frames (ce_radio env1)) (say (SendDirect (c_public_key contact) (ot_text out1))
      (?x\<lparr>vl_forwarded_commands := Suc (vl_forwarded_commands ?x)\<rparr>))"
  have c: "contact_for_prefix (ot_pubkey_prefix out1) ?x = Some contact" using found by (simp add: contact_for_prefix_def expire_recent_dm_sends_def)
  have v1: "v1 = ?t\<lparr>sv_recent_dm := AList.update ?k ?e (sv_recent_dm ?t)\<rparr>"
    using run(1) first sent c by (simp add: send_text_message_def Let_def)
  have r1: "vl_radio v1 = vl_radio v @ [SendDirect (c_public_key contact) (ot_text out1)]" unfolding v1 by (simp add: expire_recent_dm_sends_def)
  have m: "map_of (sv_recent_dm v1) ?k = Some ?e" unfolding v1 by (simp add: update_conv')
  have "map_of (filter (\<lambda>(k, m, expires, f). \<not> expires < ce_now env2) (sv_recent_dm v1)) ?k = Some ?e"
    using soon by (intro map_of_filter_keep [OF m]) simp
  then have m2: "map_of (sv_recent_dm (expire_recent_dm_sends (ce_now env2) v1)) ?k = Some ?e" by (simp add: expire_recent_dm_sends_def)
  have "r2 = msg_sent_for_message resp message_id (c_effective_route_source contact = SrcFlood) None (expire_recent_dm_sends (ce_now env2) v1)"
    "v2 = count_local (expire_recent_dm_sends (ce_now env2) v1)"
    using run(2) retry m2 by (simp_all add: send_text_message_def Let_def)
  then show ?thesis using r1 m2 by (simp add: count_local_def) (simp add: expire_recent_dm_sends_def)
qed

definition demo_dm :: "byte \<Rightarrow> bytes" where
  "demo_dm attempt = [0, attempt, 1, 0, 0, 0] @ replicate 6 0xAA @ [104, 105]"

theorem dm_retry_not_resent_witness:
  "vl_radio (snd (send_text_message demo_cmd demo_resp (demo_env 5) (demo_dm 1) (snd (send_text_message demo_cmd demo_resp (demo_env 0) (demo_dm 0) demo_server))))
   = [SendDirect (replicate 64 (CHR ''a'')) [104, 105]]"
proof -
  obtain r1 v1 where f: "send_text_message demo_cmd demo_resp (demo_env 0) (demo_dm 0) demo_server = (r1, v1)" by fastforce
  obtain r2 v2 where g: "send_text_message demo_cmd demo_resp (demo_env 5) (demo_dm 1) v1 = (r2, v2)" by fastforce
  have p: "\<exists>out. parse_send_txt_msg (demo_dm a) = Some out \<and> ot_txt_type out = 0 \<and> ot_attempt out = unat a \<and> ot_pubkey_prefix out = replicate 12 (CHR ''a'')
      \<and> ot_timestamp out = 1 \<and> ot_text out = [104, 105]" for a
  proof -
    have "hex_of (slice 6 12 (demo_dm a)) = replicate 12 (CHR ''a'')" "from_le (slice 2 6 (demo_dm a)) = 1" "c_string (drop 12 (demo_dm a)) = [104, 105]"
      by (simp_all add: demo_dm_def slice_def numeral_eq_Suc) code_simp+
    then show ?thesis by (simp add: parse_send_txt_msg_def demo_dm_def)
  qed
  have c: "map_option c_public_key (contact_for_prefix (replicate 12 (CHR ''a'')) demo_server) = Some (replicate 64 (CHR ''a''))"
    by code_simp
  obtain out1 where o1: "parse_send_txt_msg (demo_dm 0) = Some out1" "ot_txt_type out1 = 0" "ot_attempt out1 = 0" "ot_pubkey_prefix out1 = replicate 12 (CHR ''a'')"
    "ot_timestamp out1 = 1" "ot_text out1 = [104, 105]" using p [of 0] by auto
  obtain out2 where o2: "parse_send_txt_msg (demo_dm 1) = Some out2" "ot_txt_type out2 = 0" "ot_attempt out2 = 1" "ot_pubkey_prefix out2 = replicate 12 (CHR ''a'')"
    "ot_timestamp out2 = 1" "ot_text out2 = [104, 105]" using p [of 1] by auto
  obtain c where c: "contact_for_prefix (ot_pubkey_prefix out1) demo_server = Some c" "c_public_key c = replicate 64 (CHR ''a'')" using c o1(4) by auto
  have "vl_radio demo_server = []" by (simp add: demo_server_def)
  then show ?thesis
    using dm_retry_not_resent [OF o1(1-3) c(1) _ o2(1,2) _ _ _ _ _ f g, of 7] o1 o2 c(2) f g by (simp add: demo_env_def RECENT_DM_SEND_TTL_SECONDS_def)
qed

text \<open>Resetting the route of a contact from an app marks the contact as heard: the last-seen time of its row becomes the time of the
  command, with no radio connected and nothing received.\<close>

theorem reset_path_marks_seen:
  assumes "parse_public_key_arg payload = Some k" and "row_by_key k (sv_contacts v) = Some r" and "ro_last_seen r = Some t" and "t < \<lfloor>ce_now env\<rfloor>"
    and "\<not> ru_available (ce_radio env)"
  shows "\<exists>r'. row_by_key k (sv_contacts (snd (reset_path resp env payload v))) = Some r' \<and> ro_last_seen r' = Some \<lfloor>ce_now env\<rfloor>
    \<and> vl_radio (snd (reset_path resp env payload v)) = vl_radio v"
proof -
  have key: "ro_public_key r = lower k" using assms(2) by (auto simp: row_by_key_def find_Some_iff)
  obtain c where c: "get_by_key k (sv_contacts v) = Some c" "c_public_key c = lower k" using assms(2) key by (simp add: get_by_key_def)
  then show ?thesis using assms
    by (auto simp: reset_path_def update_direct_path_def update_where_def row_by_key_map key later_def split: prod.split)
qed

theorem reset_path_marks_seen_witness:
  "\<exists>r'. row_by_key (replicate 64 (CHR ''a''))
      (sv_contacts (snd (reset_path demo_resp (demo_env 9) (replicate 32 0xAA) (demo_server\<lparr>sv_contacts := [(inserted_row (demo_write (replicate 64 (CHR ''a''))))\<lparr>ro_last_seen := Some 4\<rparr>]\<rparr>))))
    = Some r' \<and> ro_last_seen r' = Some 9"
proof -
  let ?r = "(inserted_row (demo_write (replicate 64 (CHR ''a''))))\<lparr>ro_last_seen := Some 4\<rparr>"
  have "parse_public_key_arg (replicate 32 0xAA) = Some (replicate 64 (CHR ''a''))" by code_simp
  moreover have "row_by_key (replicate 64 (CHR ''a'')) (sv_contacts (demo_server\<lparr>sv_contacts := [?r]\<rparr>)) = Some ?r"
    by (simp add: row_by_key_def demo_write_def)
  moreover have "ro_last_seen ?r = Some 4" "(4 :: int) < \<lfloor>ce_now (demo_env 9)\<rfloor>" "\<not> ru_available (ce_radio (demo_env 9))" "\<lfloor>ce_now (demo_env 9)\<rfloor> = 9"
    by (simp_all add: demo_env_def)
  ultimately show ?thesis using reset_path_marks_seen by metis
qed

end
