(* ===== verification/Mcotxt.thy ===== *)
theory Mcotxt
  imports Prelude "HOL-Library.AList" "HOL-Library.Product_Lexorder"
begin

text \<open>
  The MCOtxt v1 stream (\<open>src/app/compression/mcotxt.py\<close>): bit reader and writer, language tables, the strict decoder, the token planner
  with its case plan and its dynamic programme over positions, languages and contexts, and the encoder that checks its own stream.

  The tables come from a data file whose hashes are checked on load; here they are an argument, and what the code relies on about them
  is the predicate \<open>models_ok\<close>. The Unicode predicate \<open>isalpha\<close> is an argument too.
\<close>

section \<open>Constants\<close>

definition CODEC_VERSION :: nat where "CODEC_VERSION = 1"
definition HEADER_FIELD_BITS :: nat where "HEADER_FIELD_BITS = 3"
definition HEADER_FIELD_ESCAPE :: nat where "HEADER_FIELD_ESCAPE = 7"
definition HEADER_FIELD_MAX :: nat where "HEADER_FIELD_MAX = HEADER_FIELD_ESCAPE + 0xFF"
definition LANGUAGE_BITS :: nat where "LANGUAGE_BITS = 3"
definition NORMAL_HEADER_BITS :: nat where "NORMAL_HEADER_BITS = 12"
definition RAW_UTF8_PADDING_BITS :: nat where "RAW_UTF8_PADDING_BITS = 4"
definition LANGUAGE_NONE_WIRE_ID :: nat where "LANGUAGE_NONE_WIRE_ID = 7"
definition EXTENDED_HEADER_WIRE_ID :: nat where "EXTENDED_HEADER_WIRE_ID = 7"
definition EXTENDED_PAIR8_FORMAT :: nat where "EXTENDED_PAIR8_FORMAT = 0"
definition RAW_UTF8_FORMAT :: nat where "RAW_UTF8_FORMAT = 1"
definition GLOBAL_LANGUAGE_NONE :: nat where "GLOBAL_LANGUAGE_NONE = 255"
definition EXT_PREFIX :: nat where "EXT_PREFIX = 63"
definition EXT_PREFIX_BITS :: nat where "EXT_PREFIX_BITS = 6"
definition EXT_SUBOPCODE_BITS :: nat where "EXT_SUBOPCODE_BITS = 3"
definition SUB_SWITCH_OTHER_LANGUAGE :: nat where "SUB_SWITCH_OTHER_LANGUAGE = 0"
definition SUB_RESET_CONTEXT :: nat where "SUB_RESET_CONTEXT = 1"
definition SUB_UTF8_RUN :: nat where "SUB_UTF8_RUN = 2"
definition SUB_TOGGLE_CASE_MODE :: nat where "SUB_TOGGLE_CASE_MODE = 3"
definition UTF8_RUN_LENGTH_BITS :: nat where "UTF8_RUN_LENGTH_BITS = 5"
definition UTF8_RUN_MAX_BYTES :: nat where "UTF8_RUN_MAX_BYTES = 32"
definition BITS_SHIFT :: nat where "BITS_SHIFT = 5"
definition BITS_TOGGLE_LANGUAGE :: nat where "BITS_TOGGLE_LANGUAGE = 6"
definition BITS_SWITCH_OTHER :: nat where "BITS_SWITCH_OTHER = EXT_PREFIX_BITS + EXT_SUBOPCODE_BITS + 8"
definition BITS_TOGGLE_CASE :: nat where "BITS_TOGGLE_CASE = EXT_PREFIX_BITS + EXT_SUBOPCODE_BITS"
definition BITS_UTF8_RUN_OVERHEAD :: nat where "BITS_UTF8_RUN_OVERHEAD = EXT_PREFIX_BITS + EXT_SUBOPCODE_BITS + UTF8_RUN_LENGTH_BITS"
definition TOP4_BITS :: "nat list" where "TOP4_BITS = [2, 3, 4, 4]"

lemmas mcotxt_consts = CODEC_VERSION_def HEADER_FIELD_BITS_def HEADER_FIELD_ESCAPE_def HEADER_FIELD_MAX_def LANGUAGE_BITS_def NORMAL_HEADER_BITS_def
  RAW_UTF8_PADDING_BITS_def LANGUAGE_NONE_WIRE_ID_def EXTENDED_HEADER_WIRE_ID_def EXTENDED_PAIR8_FORMAT_def RAW_UTF8_FORMAT_def
  GLOBAL_LANGUAGE_NONE_def EXT_PREFIX_def EXT_PREFIX_BITS_def EXT_SUBOPCODE_BITS_def SUB_SWITCH_OTHER_LANGUAGE_def SUB_RESET_CONTEXT_def
  SUB_UTF8_RUN_def SUB_TOGGLE_CASE_MODE_def UTF8_RUN_LENGTH_BITS_def UTF8_RUN_MAX_BYTES_def BITS_SHIFT_def BITS_TOGGLE_LANGUAGE_def
  BITS_SWITCH_OTHER_def BITS_TOGGLE_CASE_def BITS_UTF8_RUN_OVERHEAD_def TOP4_BITS_def

definition PUNCTUATION :: "nat list" where
  "PUNCTUATION =
     [0x20, 0x2E, 0x2C, 0x21, 0x3F, 0x3A, 0x3B, 0x2D, 0x2014, 0x5F, 0x27, 0x22, 0xAB, 0xBB, 0x201C, 0x201D,
      0x201E, 0x2018, 0x2019, 0x28, 0x29, 0x5B, 0x5D, 0x2F, 0x5C, 0x40, 0x23, 0x25, 0x26, 0x2B, 0x3D, 0x0A]"

text \<open>\<open>{x: i for i, x in enumerate(xs)}\<close>: the last position of an element.\<close>

definition enum_dict :: "'a list \<Rightarrow> 'a \<rightharpoonup> nat" where
  "enum_dict xs = map_of (rev (zip xs [0..<length xs]))"

definition PUNCTUATION_ID :: "nat \<rightharpoonup> nat" where
  "PUNCTUATION_ID = enum_dict PUNCTUATION"

definition SPACE :: nat where "SPACE = 0x20"
definition LINE_FEED :: nat where "LINE_FEED = 0x0A"

datatype pctx = Start | AfterPunct | Symbol nat

definition NFC_PAIRS :: "((nat \<times> nat) \<times> nat) list" where
  "NFC_PAIRS =
     [((0x61, 0x300), 0xE0), ((0x61, 0x302), 0xE2), ((0x41, 0x300), 0xC0), ((0x41, 0x302), 0xC2),
      ((0x63, 0x327), 0xE7), ((0x43, 0x327), 0xC7),
      ((0x65, 0x300), 0xE8), ((0x65, 0x301), 0xE9), ((0x65, 0x302), 0xEA), ((0x65, 0x308), 0xEB),
      ((0x45, 0x300), 0xC8), ((0x45, 0x301), 0xC9), ((0x45, 0x302), 0xCA), ((0x45, 0x308), 0xCB),
      ((0x69, 0x300), 0xEC), ((0x69, 0x302), 0xEE), ((0x69, 0x308), 0xEF),
      ((0x49, 0x300), 0xCC), ((0x49, 0x302), 0xCE), ((0x49, 0x308), 0xCF),
      ((0x6F, 0x302), 0xF4), ((0x6F, 0x308), 0xF6), ((0x4F, 0x302), 0xD4), ((0x4F, 0x308), 0xD6),
      ((0x75, 0x300), 0xF9), ((0x75, 0x302), 0xFB), ((0x75, 0x308), 0xFC),
      ((0x55, 0x300), 0xD9), ((0x55, 0x302), 0xDB), ((0x55, 0x308), 0xDC),
      ((0x435, 0x308), 0x451), ((0x415, 0x308), 0x401), ((0x438, 0x306), 0x439), ((0x418, 0x306), 0x419),
      ((0x456, 0x308), 0x457), ((0x406, 0x308), 0x407), ((0x443, 0x306), 0x45E), ((0x423, 0x306), 0x40E)]"

section \<open>Language tables\<close>

record RawModel =
  raw_languageId :: nat
  raw_primary :: "nat list"
  raw_extension :: "nat list"
  raw_startTop4 :: "nat list"
  raw_punctStartTop4 :: "nat list"
  raw_top4 :: "nat list"
  raw_uppercase :: "(nat \<times> nat) list"

record Model =
  md_global_id :: nat
  md_primary :: "nat list"
  md_extension :: "nat list"
  md_start_top4 :: "nat list"
  md_punct_start_top4 :: "nat list"
  md_top4 :: "nat \<rightharpoonup> nat list"
  md_upper_to_lower :: "nat \<rightharpoonup> nat"
  md_lower_to_upper :: "nat \<rightharpoonup> nat"
  md_primary_id :: "nat \<rightharpoonup> nat"
  md_extension_id :: "nat \<rightharpoonup> nat"

text \<open>A dict built from pairs: a repeated key keeps its place and takes the new value.\<close>

definition dict_items :: "('k \<times> 'v) list \<Rightarrow> ('k \<times> 'v) list" where
  "dict_items ps = fold (\<lambda>(k, v). AList.update k v) ps []"

definition make_model :: "RawModel \<Rightarrow> Model res" where
  "make_model raw =
     (let symbols = raw_primary raw @ raw_extension raw; pick = map_res (\<lambda>i. py_get symbols (int i))
      in bind_res (pick (raw_startTop4 raw)) (\<lambda>start.
         bind_res (pick (raw_punctStartTop4 raw)) (\<lambda>punct.
         bind_res (map_res (\<lambda>(i, sym). bind_res (pick (slice (i * 4) (i * 4 + 4) (raw_top4 raw))) (\<lambda>row. Inr (sym, row)))
           (enumerate 0 symbols)) (\<lambda>rows.
         bind_res (map_res (\<lambda>(upper, i). bind_res (py_get symbols (int i)) (\<lambda>sym. Inr (upper, sym))) (raw_uppercase raw)) (\<lambda>cases.
         Inr \<lparr>md_global_id = raw_languageId raw, md_primary = raw_primary raw, md_extension = raw_extension raw, md_start_top4 = start,
              md_punct_start_top4 = punct, md_top4 = map_of (dict_items rows), md_upper_to_lower = map_of (dict_items cases),
              md_lower_to_upper = map_of (dict_items (map prod.swap (dict_items cases))),
              md_primary_id = enum_dict (raw_primary raw), md_extension_id = enum_dict (raw_extension raw)\<rparr>)))))"

definition normalize_cp :: "Model \<Rightarrow> nat \<Rightarrow> nat option" where
  "normalize_cp m cp = (if md_top4 m cp \<noteq> None then Some cp else md_upper_to_lower m cp)"

fun predictions :: "Model \<Rightarrow> pctx \<Rightarrow> nat list" where
  "predictions m Start = md_start_top4 m"
| "predictions m AfterPunct = md_punct_start_top4 m"
| "predictions m (Symbol s) = (case md_top4 m s of None \<Rightarrow> [] | Some row \<Rightarrow> row)"

record ModelSet =
  ms_generation :: nat
  ms_models :: "Model list"

definition by_id :: "ModelSet \<Rightarrow> nat \<rightharpoonup> Model" where
  "by_id ms = map_of (rev (map (\<lambda>m. (md_global_id m, m)) (ms_models ms)))"

section \<open>Normalisation\<close>

fun replace_crlf :: "ustr \<Rightarrow> ustr" where
  "replace_crlf (a # b # s) = (if a = 13 \<and> b = 10 then 10 # replace_crlf s else a # replace_crlf (b # s))"
| "replace_crlf s = s"

definition replace_cr :: "ustr \<Rightarrow> ustr" where
  "replace_cr s = map (\<lambda>c. if c = 13 then 10 else c) s"

fun compose_pairs :: "ustr \<Rightarrow> ustr" where
  "compose_pairs (a # b # s) = (case map_of NFC_PAIRS (a, b) of Some c \<Rightarrow> c # compose_pairs s | None \<Rightarrow> a # compose_pairs (b # s))"
| "compose_pairs s = s"

definition normalize_text :: "ustr \<Rightarrow> ustr" where
  "normalize_text s = compose_pairs (replace_cr (replace_crlf s))"

section \<open>Bits\<close>

record BitWriter =
  bw_bytes :: bytes
  bw_current :: nat
  bw_offset :: nat

definition new_writer :: BitWriter where
  "new_writer = \<lparr>bw_bytes = [], bw_current = 0, bw_offset = 0\<rparr>"

definition writer_bit_length :: "BitWriter \<Rightarrow> nat" where
  "writer_bit_length w = length (bw_bytes w) * 8 + bw_offset w"

definition write_bit :: "nat \<Rightarrow> BitWriter \<Rightarrow> BitWriter" where
  "write_bit b w =
     (let current = bw_current w OR push_bit (7 - bw_offset w) b; offset = bw_offset w + 1
      in if offset = 8 then \<lparr>bw_bytes = bw_bytes w @ [byte_of current], bw_current = 0, bw_offset = 0\<rparr>
         else w\<lparr>bw_current := current, bw_offset := offset\<rparr>)"

definition write_bits :: "nat \<Rightarrow> nat \<Rightarrow> BitWriter \<Rightarrow> BitWriter" where
  "write_bits v n w = fold (\<lambda>sh. write_bit (drop_bit sh v AND 1)) (rev [0..<n]) w"

definition writer_to_bytes :: "BitWriter \<Rightarrow> bytes" where
  "writer_to_bytes w = (if bw_offset w \<noteq> 0 then bw_bytes w @ [byte_of (bw_current w)] else bw_bytes w)"

record BitReader =
  br_data :: bytes
  br_length :: nat
  br_index :: nat

definition new_reader :: "bytes \<Rightarrow> nat \<Rightarrow> BitReader res" where
  "new_reader data bit_length =
     (if bit_length > length data * 8 then Inl MCOtxtError else Inr \<lparr>br_data = data, br_length = bit_length, br_index = 0\<rparr>)"

definition remaining :: "BitReader \<Rightarrow> nat" where
  "remaining r = br_length r - br_index r"

definition data_bit :: "bytes \<Rightarrow> nat \<Rightarrow> nat" where
  "data_bit data i = drop_bit (7 - i mod 8) (unat (data ! (i div 8))) AND 1"

definition read_bits :: "nat \<Rightarrow> BitReader \<Rightarrow> (nat \<times> BitReader) res" where
  "read_bits n r =
     (if br_index r + n > br_length r then Inl MCOtxtError
      else Inr (fold (\<lambda>i v. push_bit 1 v OR data_bit (br_data r) i) [br_index r..<br_index r + n] 0, r\<lparr>br_index := br_index r + n\<rparr>))"

text \<open>\<open>bytes(reader.read(8) for _ in range(n))\<close>.\<close>

primrec read_octets :: "nat \<Rightarrow> BitReader \<Rightarrow> (bytes \<times> BitReader) res" where
  "read_octets 0 r = Inr ([], r)"
| "read_octets (Suc n) r = bind_res (read_bits 8 r) (\<lambda>(v, r1). bind_res (read_octets n r1) (\<lambda>(bs, r2). Inr (byte_of v # bs, r2)))"

definition write_header_field :: "nat \<Rightarrow> BitWriter \<Rightarrow> BitWriter res" where
  "write_header_field v w =
     (if v > HEADER_FIELD_MAX then Inl MCOtxtError
      else if v < HEADER_FIELD_ESCAPE then Inr (write_bits v HEADER_FIELD_BITS w)
      else Inr (write_bits (v - HEADER_FIELD_ESCAPE) 8 (write_bits HEADER_FIELD_ESCAPE HEADER_FIELD_BITS w)))"

definition read_header_field :: "BitReader \<Rightarrow> (nat \<times> BitReader) res" where
  "read_header_field r =
     bind_res (read_bits HEADER_FIELD_BITS r) (\<lambda>(v, r1).
       if v \<noteq> HEADER_FIELD_ESCAPE then Inr (v, r1)
       else bind_res (read_bits 8 r1) (\<lambda>(x, r2). Inr (HEADER_FIELD_ESCAPE + x, r2)))"

definition strict_utf8 :: "bytes \<Rightarrow> ustr res" where
  "strict_utf8 data = (case utf8_decode data of None \<Rightarrow> Inl MCOtxtError | Some s \<Rightarrow> Inr s)"

section \<open>Decoder\<close>

definition context_after_punctuation :: "nat \<Rightarrow> pctx \<Rightarrow> pctx" where
  "context_after_punctuation cp ctx =
     (if cp = SPACE then (case ctx of Symbol s \<Rightarrow> Symbol s | _ \<Rightarrow> Start) else if cp = LINE_FEED then Start else AfterPunct)"

record decode_state =
  ds_current :: nat
  ds_context :: pctx
  ds_shift :: bool
  ds_caps :: bool
  ds_out :: ustr

definition emit :: "Model \<Rightarrow> nat \<Rightarrow> decode_state \<Rightarrow> decode_state res" where
  "emit m symbol st =
     (let upper = md_lower_to_upper m symbol
      in if ds_shift st \<and> upper = None then Inl MCOtxtError
         else Inr (st\<lparr>ds_out := ds_out st @ [if upper \<noteq> None \<and> ds_caps st \<noteq> ds_shift st then the upper else symbol],
                      ds_context := Symbol symbol, ds_shift := False\<rparr>))"

definition read_rank :: "BitReader \<Rightarrow> (nat \<times> BitReader) res" where
  "read_rank r =
     bind_res (read_bits 1 r) (\<lambda>(b0, r1). if b0 = 0 then Inr (0, r1)
     else bind_res (read_bits 1 r1) (\<lambda>(b1, r2). if b1 = 0 then Inr (1, r2)
     else bind_res (read_bits 1 r2) (\<lambda>(b2, r3). Inr (if b2 = 0 then 2 else 3, r3))))"

definition decode_literal :: "Model \<Rightarrow> nat list \<Rightarrow> decode_state \<Rightarrow> BitReader \<Rightarrow> (decode_state \<times> BitReader) res" where
  "decode_literal m table st r =
     bind_res (read_bits 5 r) (\<lambda>(i, r1).
       if i \<ge> length table then Inl MCOtxtError else bind_res (emit m (table ! i) st) (\<lambda>st1. Inr (st1, r1)))"

definition decode_control :: "ModelSet \<Rightarrow> decode_state \<Rightarrow> BitReader \<Rightarrow> (decode_state \<times> BitReader) res" where
  "decode_control ms st r =
     bind_res (read_bits EXT_SUBOPCODE_BITS r) (\<lambda>(sub, r1).
       if sub = SUB_SWITCH_OTHER_LANGUAGE then
         bind_res (read_bits 8 r1) (\<lambda>(target, r2).
           if target = GLOBAL_LANGUAGE_NONE \<or> target > 6 then Inl MCOtxtError
           else if by_id ms target = None then Inl MCOtxtError
           else Inr (st\<lparr>ds_current := target, ds_context := Start\<rparr>, r2))
       else if sub = SUB_RESET_CONTEXT then Inr (st\<lparr>ds_context := Start\<rparr>, r1)
       else if sub = SUB_UTF8_RUN then
         bind_res (read_bits UTF8_RUN_LENGTH_BITS r1) (\<lambda>(len, r2).
         bind_res (read_octets (len + 1) r2) (\<lambda>(raw, r3).
         bind_res (strict_utf8 raw) (\<lambda>s. Inr (st\<lparr>ds_out := ds_out st @ s, ds_context := Start\<rparr>, r3))))
       else if sub = SUB_TOGGLE_CASE_MODE then Inr (st\<lparr>ds_caps := \<not> ds_caps st\<rparr>, r1)
       else Inl MCOtxtError)"

definition toggle_language :: "nat \<Rightarrow> nat option \<Rightarrow> decode_state \<Rightarrow> decode_state res" where
  "toggle_language lang_a lang_b st =
     (case lang_b of
        None \<Rightarrow> Inl MCOtxtError
      | Some b \<Rightarrow>
          if ds_current st = lang_a then Inr (st\<lparr>ds_current := b, ds_context := Start\<rparr>)
          else if ds_current st = b then Inr (st\<lparr>ds_current := lang_a, ds_context := Start\<rparr>)
          else Inl MCOtxtError)"

text \<open>One round of the decoding loop.\<close>

definition decode_token :: "ModelSet \<Rightarrow> nat \<Rightarrow> nat option \<Rightarrow> decode_state \<Rightarrow> BitReader \<Rightarrow> (decode_state \<times> BitReader) res" where
  "decode_token ms lang_a lang_b st r =
     (let m = the (by_id ms (ds_current st))
      in bind_res (read_bits 1 r) (\<lambda>(x0, r0).
         if x0 = 0 then
           bind_res (read_rank r0) (\<lambda>(rank, r1).
             let row = predictions m (ds_context st)
             in if rank \<ge> length row then Inl MCOtxtError else bind_res (emit m (row ! rank) st) (\<lambda>st1. Inr (st1, r1)))
         else bind_res (read_bits 1 r0) (\<lambda>(x1, r1).
         if x1 = 0 then decode_literal m (md_primary m) st r1
         else bind_res (read_bits 1 r1) (\<lambda>(x2, r2).
         if x2 = 0 then
           if ds_shift st then Inl MCOtxtError
           else bind_res (read_bits 5 r2) (\<lambda>(i, r3).
                  let cp = PUNCTUATION ! i
                  in Inr (st\<lparr>ds_out := ds_out st @ [cp], ds_context := context_after_punctuation cp (ds_context st)\<rparr>, r3))
         else bind_res (read_bits 1 r2) (\<lambda>(x3, r3).
         if x3 = 0 then decode_literal m (md_extension m) st r3
         else bind_res (read_bits 1 r3) (\<lambda>(x4, r4).
         if x4 = 0 then if ds_shift st then Inl MCOtxtError else Inr (st\<lparr>ds_shift := True\<rparr>, r4)
         else bind_res (read_bits 1 r4) (\<lambda>(x5, r5).
         if x5 = 0 then
           if ds_shift st then Inl MCOtxtError else bind_res (toggle_language lang_a lang_b st) (\<lambda>st1. Inr (st1, r5))
         else if ds_shift st then Inl MCOtxtError else decode_control ms st r5)))))))"

lemma read_bits_ahead: "read_bits n r = Inr (v, r1) \<Longrightarrow> br_index r1 = br_index r + n \<and> br_index r1 \<le> br_length r1 \<and> br_length r1 = br_length r"
  by (auto simp: read_bits_def split: if_splits)

text \<open>A reading step only moves the reader forward.\<close>

definition ahead :: "BitReader \<Rightarrow> ('a \<times> BitReader) res \<Rightarrow> bool" where
  "ahead r res \<longleftrightarrow> (\<forall>x r1. res = Inr (x, r1) \<longrightarrow> br_index r \<le> br_index r1 \<and> br_length r1 = br_length r)"

lemma ahead_read: "ahead r (read_bits n r)"
  using read_bits_ahead by (auto simp: ahead_def)

lemma ahead_bind: "ahead r m \<Longrightarrow> (\<And>x r1. ahead r1 (f (x, r1))) \<Longrightarrow> ahead r (bind_res m f)"
  by (cases m) (fastforce simp: ahead_def)+

lemma ahead_emit: "ahead r (bind_res m (\<lambda>x. Inr (x, r)))"
  by (cases m) (simp_all add: ahead_def)

lemma ahead_if: "(c \<Longrightarrow> ahead r x) \<Longrightarrow> (\<not> c \<Longrightarrow> ahead r y) \<Longrightarrow> ahead r (if c then x else y)"
  by simp

lemma ahead_end: "ahead r (Inl e)" "ahead r (Inr (x, r))"
  by (simp_all add: ahead_def)

lemma ahead_octets: "ahead r (read_octets n r)"
proof (induction n arbitrary: r)
  case (Suc n)
  then show ?case by (auto intro!: ahead_bind ahead_read ahead_end)
qed (simp add: ahead_end)

lemmas ahead_rules = ahead_bind ahead_read ahead_if ahead_end ahead_emit ahead_octets

lemma ahead_parts: "ahead r (read_rank r)" "ahead r (decode_literal m t st r)" "ahead r (decode_control ms st r)"
proof -
  show "ahead r (read_rank r)" by (auto simp: read_rank_def intro!: ahead_bind ahead_read ahead_end)
  show "ahead r (decode_literal m t st r)" by (auto simp: decode_literal_def intro!: ahead_bind ahead_read ahead_end ahead_emit)
  have "ahead r3 (bind_res (strict_utf8 raw) (\<lambda>s. Inr (g s, r3)))" for r3 raw and g :: "ustr \<Rightarrow> decode_state"
    by (cases "strict_utf8 raw") (simp_all add: ahead_end)
  then show "ahead r (decode_control ms st r)"
    by (auto simp: decode_control_def intro!: ahead_bind ahead_read ahead_end ahead_octets)
qed

lemma decode_token_ahead:
  assumes "decode_token ms a b st r = Inr (st1, r1)"
  shows "br_index r < br_index r1 \<and> br_length r1 = br_length r"
proof -
  obtain x r0 where 0: "read_bits 1 r = Inr (x, r0)" using assms by (cases "read_bits 1 r") (auto simp: decode_token_def Let_def)
  have "ahead r0 (decode_token ms a b st r)"
    unfolding decode_token_def Let_def 0 bind_res.simps prod.case
    by (intro ahead_bind ahead_read ahead_if ahead_end ahead_emit ahead_parts | simp only: prod.case)+
  then show ?thesis using assms read_bits_ahead [OF 0] by (auto simp: ahead_def)
qed

function decode_loop :: "ModelSet \<Rightarrow> nat \<Rightarrow> nat option \<Rightarrow> decode_state \<Rightarrow> BitReader \<Rightarrow> ustr res" where
  "decode_loop ms lang_a lang_b st r =
     (if remaining r > 0 then
        case decode_token ms lang_a lang_b st r of
          Inl e \<Rightarrow> Inl e
        | Inr (st1, r1) \<Rightarrow> decode_loop ms lang_a lang_b st1 r1
      else if ds_shift st then Inl MCOtxtError else Inr (ds_out st))"
  by pat_completeness auto
termination
  by (relation "measure (\<lambda>(ms, a, b, st, r). remaining r)") (auto simp: remaining_def dest!: decode_token_ahead)

declare decode_loop.simps [simp del]

definition read_languages :: "nat \<Rightarrow> nat \<Rightarrow> BitReader \<Rightarrow> ((nat \<times> nat option) \<times> BitReader) res" where
  "read_languages lang_a_field lang_b_field r =
     (if lang_a_field = EXTENDED_HEADER_WIRE_ID then
        if lang_b_field \<noteq> EXTENDED_PAIR8_FORMAT then Inl MCOtxtError
        else bind_res (read_bits 8 r) (\<lambda>(lang_a, r1). bind_res (read_bits 8 r1) (\<lambda>(lang_b_global, r2).
               if lang_a = GLOBAL_LANGUAGE_NONE \<or> lang_a > 6 then Inl MCOtxtError
               else if lang_b_global \<noteq> GLOBAL_LANGUAGE_NONE \<and> lang_b_global > 6 then Inl MCOtxtError
               else Inr ((lang_a, if lang_b_global = GLOBAL_LANGUAGE_NONE then None else Some lang_b_global), r2)))
      else Inr ((lang_a_field, if lang_b_field = LANGUAGE_NONE_WIRE_ID then None else Some lang_b_field), r))"

definition decode_raw_utf8 :: "BitReader \<Rightarrow> ustr res" where
  "decode_raw_utf8 r =
     bind_res (read_bits RAW_UTF8_PADDING_BITS r) (\<lambda>(pad, r1).
       if pad \<noteq> 0 then Inl MCOtxtError
       else if remaining r1 mod 8 \<noteq> 0 then Inl MCOtxtError
       else bind_res (read_octets (remaining r1 div 8) r1) (\<lambda>(raw, r2). strict_utf8 raw))"

definition start_state :: "nat \<Rightarrow> decode_state" where
  "start_state lang = \<lparr>ds_current = lang, ds_context = Start, ds_shift = False, ds_caps = False, ds_out = []\<rparr>"

definition decode_mct_stream :: "ModelSet \<Rightarrow> bytes \<Rightarrow> nat \<Rightarrow> ustr res" where
  "decode_mct_stream ms data bit_length =
     bind_res (new_reader data bit_length) (\<lambda>r0.
     bind_res (read_header_field r0) (\<lambda>(version, r1).
     if version \<noteq> CODEC_VERSION then Inl MCOtxtError
     else bind_res (read_header_field r1) (\<lambda>(generation, r2).
     bind_res (read_bits LANGUAGE_BITS r2) (\<lambda>(lang_a_field, r3).
     bind_res (read_bits LANGUAGE_BITS r3) (\<lambda>(lang_b_field, r4).
     if lang_a_field = EXTENDED_HEADER_WIRE_ID \<and> lang_b_field = RAW_UTF8_FORMAT then decode_raw_utf8 r4
     else bind_res (read_languages lang_a_field lang_b_field r4) (\<lambda>((lang_a, lang_b), r5).
     if generation \<noteq> ms_generation ms then Inl MCOtxtError
     else if by_id ms lang_a = None \<or> (case lang_b of None \<Rightarrow> False | Some b \<Rightarrow> by_id ms b = None) then Inl MCOtxtError
     else decode_loop ms lang_a lang_b (start_state lang_a) r5))))))"

section \<open>Tokens\<close>

datatype token = Top4 nat | Primary nat | Punct nat | Extension nat | Shift | ToggleLanguage | SwitchOther nat | ToggleCase | Utf8Run bytes

fun write_token :: "token \<Rightarrow> BitWriter \<Rightarrow> BitWriter" where
  "write_token (Top4 k) w = write_bits ([0, 2, 6, 7] ! k) (TOP4_BITS ! k) w"
| "write_token (Primary k) w = write_bits k 5 (write_bits 2 2 w)"
| "write_token (Punct k) w = write_bits k 5 (write_bits 6 3 w)"
| "write_token (Extension k) w = write_bits k 5 (write_bits 14 4 w)"
| "write_token Shift w = write_bits 30 5 w"
| "write_token ToggleLanguage w = write_bits 62 6 w"
| "write_token (SwitchOther k) w = write_bits k 8 (write_bits SUB_SWITCH_OTHER_LANGUAGE EXT_SUBOPCODE_BITS (write_bits EXT_PREFIX EXT_PREFIX_BITS w))"
| "write_token ToggleCase w = write_bits SUB_TOGGLE_CASE_MODE EXT_SUBOPCODE_BITS (write_bits EXT_PREFIX EXT_PREFIX_BITS w)"
| "write_token (Utf8Run bs) w =
     fold (\<lambda>b. write_bits (unat b) 8) bs
       (write_bits (length bs - 1) UTF8_RUN_LENGTH_BITS
         (write_bits SUB_UTF8_RUN EXT_SUBOPCODE_BITS (write_bits EXT_PREFIX EXT_PREFIX_BITS w)))"

section \<open>Case plan\<close>

text \<open>Where the case of a character has to be said: its position and whether it is the upper case.\<close>

definition case_of :: "ModelSet \<Rightarrow> nat \<Rightarrow> bool option" where
  "case_of ms cp =
     (case find (\<lambda>m. case normalize_cp m cp of None \<Rightarrow> False | Some s \<Rightarrow> md_lower_to_upper m s \<noteq> None) (ms_models ms) of
        None \<Rightarrow> None
      | Some m \<Rightarrow> Some (the (normalize_cp m cp) \<noteq> cp))"

definition case_positions :: "ModelSet \<Rightarrow> ustr \<Rightarrow> (nat \<times> bool) list" where
  "case_positions ms cps = map (\<lambda>pos. (pos, the (case_of ms (cps ! pos)))) (filter (\<lambda>pos. case_of ms (cps ! pos) \<noteq> None) [0..<length cps])"

type_synonym case_cost = "nat \<times> nat \<times> nat"
type_synonym decision = "bool \<times> bool \<times> bool"

text \<open>The cost of reaching a caps state from a previous one, with the decision (previous state, toggled, shifted).\<close>

definition case_move :: "bool \<Rightarrow> case_cost option \<Rightarrow> bool \<Rightarrow> bool \<Rightarrow> (case_cost \<times> decision) option" where
  "case_move desired_upper prev_cost prev_state st =
     map_option (\<lambda>(bits, ntoggles, nshifts).
       let toggled = prev_state \<noteq> st; shifted = desired_upper \<noteq> st
       in ((bits + (if toggled then BITS_TOGGLE_CASE else 0) + (if shifted then 5 else 0), ntoggles + of_bool toggled, nshifts + of_bool shifted),
           (prev_state, toggled, shifted))) prev_cost"

text \<open>\<open>previous\<close> holds the costs with caps off and on; the later candidate replaces the earlier one only when it is cheaper.\<close>

definition case_best :: "(case_cost \<times> decision) option \<Rightarrow> (case_cost \<times> decision) option \<Rightarrow> (case_cost \<times> decision) option" where
  "case_best c1 c2 = (case (c1, c2) of (None, _) \<Rightarrow> c2 | (_, None) \<Rightarrow> c1 | (Some x, Some y) \<Rightarrow> if fst y < fst x then c2 else c1)"

type_synonym decisions = "decision option \<times> decision option"

definition case_step :: "bool \<Rightarrow> (case_cost option \<times> case_cost option) \<Rightarrow> (case_cost option \<times> case_cost option) \<times> decisions" where
  "case_step desired_upper previous =
     (let off = case_best (case_move desired_upper (fst previous) False False) (case_move desired_upper (snd previous) True False);
          on = case_best (case_move desired_upper (fst previous) False True) (case_move desired_upper (snd previous) True True)
      in ((map_option fst off, map_option fst on), (map_option snd off, map_option snd on)))"

fun case_search :: "bool list \<Rightarrow> (case_cost option \<times> case_cost option) \<Rightarrow> (case_cost option \<times> case_cost option) \<times> decisions list" where
  "case_search [] previous = (previous, [])"
| "case_search (d # ds) previous =
     (case case_step d previous of (nxt, dec) \<Rightarrow> (case case_search ds nxt of (final, back) \<Rightarrow> (final, dec # back)))"

definition decision_for :: "decisions \<Rightarrow> bool \<Rightarrow> decision" where
  "decision_for d st = the (if st then snd d else fst d)"

text \<open>The walk back over the decisions; both arguments run from the last position to the first.\<close>

fun case_backtrack :: "nat list \<Rightarrow> decisions list \<Rightarrow> bool \<Rightarrow> nat list \<times> nat list" where
  "case_backtrack (p # ps) (d # ds) st =
     (let decision = decision_for d st; rest = case_backtrack ps ds (fst decision)
      in ((if fst (snd decision) then p # fst rest else fst rest), (if snd (snd decision) then p # snd rest else snd rest)))"
| "case_backtrack _ _ st = ([], [])"

definition case_plan :: "ModelSet \<Rightarrow> ustr \<Rightarrow> nat list \<times> nat list" where
  "case_plan ms cps =
     (let marked = case_positions ms cps
      in if marked = [] then ([], [])
         else case case_search (map snd marked) (Some (0, 0, 0), None) of
                (final, back) \<Rightarrow>
                  let st = \<not> (snd final = None \<or> the (fst final) < the (snd final))
                  in case_backtrack (rev (map fst marked)) (rev back) st)"

section \<open>Planner\<close>

definition symbol_option :: "Model \<Rightarrow> nat \<Rightarrow> pctx \<Rightarrow> bool \<Rightarrow> (token list \<times> nat \<times> nat \<times> bool) option" where
  "symbol_option m cp ctx shift =
     (case normalize_cp m cp of
        None \<Rightarrow> None
      | Some s \<Rightarrow>
          if shift \<and> md_lower_to_upper m s = None then None
          else let prefix = (if shift then [Shift] else []); shift_bits = (if shift then BITS_SHIFT else 0); row = predictions m ctx
               in if s \<in> set row then
                    let rank = the (find (\<lambda>k. row ! k = s) [0..<length row])
                    in Some (prefix @ [Top4 rank], TOP4_BITS ! rank + shift_bits, s, True)
                  else case md_primary_id m s of
                         Some k \<Rightarrow> Some (prefix @ [Primary k], 7 + shift_bits, s, False)
                       | None \<Rightarrow>
                           (case md_extension_id m s of
                              Some k \<Rightarrow> Some (prefix @ [Extension k], 9 + shift_bits, s, False)
                            | None \<Rightarrow> None))"

type_synonym plan_state = "nat \<times> nat \<times> pctx"
type_synonym plan_edge = "token list \<times> nat \<times> nat \<times> nat \<times> plan_state"
type_synonym plan_cost = "int \<times> int \<times> int \<times> int"

definition supported :: "ModelSet \<Rightarrow> nat \<Rightarrow> bool" where
  "supported ms cp \<longleftrightarrow> PUNCTUATION_ID cp \<noteq> None \<or> list_ex (\<lambda>m. normalize_cp m cp \<noteq> None) (ms_models ms)"

text \<open>The characters of an UTF-8 run, as many as fit, and their number.\<close>

fun utf8_run_from :: "ModelSet \<Rightarrow> ustr \<Rightarrow> bytes \<Rightarrow> nat \<Rightarrow> bytes \<times> nat" where
  "utf8_run_from ms [] data n = (data, n)"
| "utf8_run_from ms (cp # cps) data n =
     (if supported ms cp then (data, n)
      else if data \<noteq> [] \<and> length data + length (utf8_char cp) > UTF8_RUN_MAX_BYTES then (data, n)
      else if length (data @ utf8_char cp) = UTF8_RUN_MAX_BYTES then (data @ utf8_char cp, n + 1)
      else utf8_run_from ms cps (data @ utf8_char cp) (n + 1))"

definition utf8_run :: "ModelSet \<Rightarrow> ustr \<Rightarrow> nat \<Rightarrow> bytes \<times> nat" where
  "utf8_run ms cps pos =
     (case utf8_run_from ms (drop pos cps) [] 0 of (data, n) \<Rightarrow> if n = 0 then (data @ utf8_char (cps ! pos), 1) else (data, n))"

definition toggled_lang :: "nat \<Rightarrow> nat option \<Rightarrow> nat \<Rightarrow> nat option" where
  "toggled_lang lang_a lang_b lang =
     (case lang_b of None \<Rightarrow> None | Some b \<Rightarrow> if lang = lang_a then Some b else if lang = b then Some lang_a else None)"

definition plan_targets :: "ModelSet \<Rightarrow> nat \<Rightarrow> nat option \<Rightarrow> nat \<Rightarrow> pctx \<Rightarrow> (nat \<times> pctx \<times> token list \<times> nat \<times> nat) list" where
  "plan_targets ms lang_a lang_b lang ctx =
     (let other = toggled_lang lang_a lang_b lang
      in (lang, ctx, [], 0, 0)
         # (case other of None \<Rightarrow> [] | Some l \<Rightarrow> [(l, Start, [ToggleLanguage], BITS_TOGGLE_LANGUAGE, 1)])
         @ map (\<lambda>m. (md_global_id m, Start, [SwitchOther (md_global_id m)], BITS_SWITCH_OTHER, 1))
             (filter (\<lambda>m. md_global_id m \<noteq> lang \<and> Some (md_global_id m) \<noteq> other) (ms_models ms)))"

definition symbol_edges :: "ModelSet \<Rightarrow> nat list \<Rightarrow> nat list \<Rightarrow> nat \<Rightarrow> nat \<Rightarrow> (nat \<times> pctx \<times> token list \<times> nat \<times> nat) list \<Rightarrow> plan_edge list" where
  "symbol_edges ms toggle_before shift_at cp pos targets =
     List.map_filter (\<lambda>(target, ctx, prefix, prefix_bits, switches).
       map_option (\<lambda>(tokens, bits, symbol, hit).
         let toggles = pos \<in> set toggle_before
         in (prefix @ (if toggles then ToggleCase # tokens else tokens), bits + (if toggles then BITS_TOGGLE_CASE else 0) + prefix_bits, switches,
             (if hit then 1 else 0), (pos + 1, target, Symbol symbol)))
         (symbol_option (the (by_id ms target)) cp ctx (pos \<in> set shift_at))) targets"

definition candidates :: "ModelSet \<Rightarrow> nat \<Rightarrow> nat option \<Rightarrow> nat list \<Rightarrow> nat list \<Rightarrow> ustr \<Rightarrow> plan_state \<Rightarrow> plan_edge list" where
  "candidates ms lang_a lang_b toggle_before shift_at cps st =
     (case st of (pos, lang, ctx) \<Rightarrow>
        let cp = cps ! pos;
            puncts = (case PUNCTUATION_ID cp of None \<Rightarrow> [] | Some k \<Rightarrow> [([Punct k], 8, 0, 0, (pos + 1, lang, context_after_punctuation cp ctx))]);
            symbols = symbol_edges ms toggle_before shift_at cp pos (plan_targets ms lang_a lang_b lang ctx)
        in puncts @ symbols
           @ (if puncts = [] \<and> symbols = [] then
                case utf8_run ms cps pos of (data, n) \<Rightarrow> [([Utf8Run data], BITS_UTF8_RUN_OVERHEAD + 8 * length data, 0, 0, (pos + n, lang, Start))]
              else []))"

subsection \<open>The dynamic programme\<close>

record plan_graph =
  pg_by_position :: "plan_state list list"
  pg_edges :: "plan_state \<rightharpoonup> plan_edge list"
  pg_seen :: "plan_state set"

definition edge_next :: "plan_edge \<Rightarrow> plan_state" where
  "edge_next e = snd (snd (snd (snd e)))"

definition discover :: "plan_state \<Rightarrow> plan_graph \<Rightarrow> plan_graph" where
  "discover nxt g =
     (if nxt \<in> pg_seen g then g
      else g\<lparr>pg_seen := insert nxt (pg_seen g), pg_by_position := (pg_by_position g)[fst nxt := pg_by_position g ! fst nxt @ [nxt]]\<rparr>)"

definition expand :: "(plan_state \<Rightarrow> plan_edge list) \<Rightarrow> plan_state \<Rightarrow> plan_graph \<Rightarrow> plan_graph" where
  "expand cand st g = fold (\<lambda>e. discover (edge_next e)) (cand st) (g\<lparr>pg_edges := (pg_edges g)(st \<mapsto> cand st)\<rparr>)"

definition forward_pass :: "(plan_state \<Rightarrow> plan_edge list) \<Rightarrow> nat \<Rightarrow> plan_state \<Rightarrow> plan_graph" where
  "forward_pass cand n start =
     fold (\<lambda>pos g. fold (expand cand) (pg_by_position g ! pos) g) [0..<n]
       \<lparr>pg_by_position = (replicate (Suc n) [])[0 := [start]], pg_edges = Map.empty, pg_seen = {start}\<rparr>"

type_synonym plan_best = "plan_state \<rightharpoonup> plan_cost \<times> (token list \<times> plan_state) option"

definition edge_cost :: "plan_edge \<Rightarrow> plan_cost \<Rightarrow> plan_cost" where
  "edge_cost e rest =
     (case e of (tokens, bits, switches, top4, nxt) \<Rightarrow> case rest of (b, t, s, h) \<Rightarrow> (b + int bits, t + int (length tokens), s + int switches, h - int top4))"

definition choose_edge :: "plan_best \<Rightarrow> plan_edge \<Rightarrow> (plan_cost \<times> (token list \<times> plan_state) option) option \<Rightarrow> (plan_cost \<times> (token list \<times> plan_state) option) option" where
  "choose_edge best e chosen =
     (let cost = edge_cost e (fst (the (best (edge_next e))))
      in if chosen = None \<or> cost < fst (the chosen) then Some (cost, Some (fst e, edge_next e)) else chosen)"

definition price :: "plan_graph \<Rightarrow> plan_state \<Rightarrow> plan_best \<Rightarrow> plan_best" where
  "price g st best = best(st := fold (choose_edge best) (the (pg_edges g st)) None)"

definition backward_pass :: "plan_graph \<Rightarrow> nat \<Rightarrow> plan_best" where
  "backward_pass g n =
     fold (\<lambda>pos. fold (price g) (pg_by_position g ! pos)) (rev [0..<n])
       (fold (\<lambda>st best. best(st \<mapsto> ((0, 0, 0, 0), None))) (pg_by_position g ! n) Map.empty)"

text \<open>Reading the tokens off takes at most one step per character.\<close>

primrec read_plan :: "nat \<Rightarrow> plan_best \<Rightarrow> nat \<Rightarrow> plan_state option \<Rightarrow> token list" where
  "read_plan 0 best n st = []"
| "read_plan (Suc k) best n st =
     (case st of
        None \<Rightarrow> []
      | Some s \<Rightarrow>
          if fst s < n then
            (case snd (the (best s)) of
               None \<Rightarrow> []
             | Some (tokens, nxt) \<Rightarrow> tokens @ read_plan k best n (Some nxt))
          else [])"

definition plan :: "ModelSet \<Rightarrow> ustr \<Rightarrow> nat \<Rightarrow> nat option \<Rightarrow> plan_cost \<times> token list" where
  "plan ms cps lang_a lang_b =
     (case case_plan ms cps of (toggle_before, shift_at) \<Rightarrow>
        let n = length cps; start = (0, lang_a, Start); g = forward_pass (candidates ms lang_a lang_b toggle_before shift_at cps) n start;
            best = backward_pass g n
        in (if n \<noteq> 0 then fst (the (best start)) else (0, 0, 0, 0), read_plan n best n (Some start)))"

section \<open>Encoder\<close>

definition raw_utf8_stream :: "ustr \<Rightarrow> nat \<Rightarrow> (bytes \<times> nat) res" where
  "raw_utf8_stream normalized generation =
     bind_res (write_header_field CODEC_VERSION new_writer) (\<lambda>w1.
     bind_res (write_header_field generation w1) (\<lambda>w2.
     let w3 = write_bits 0 RAW_UTF8_PADDING_BITS (write_bits RAW_UTF8_FORMAT LANGUAGE_BITS (write_bits EXTENDED_HEADER_WIRE_ID LANGUAGE_BITS w2));
         w4 = fold (\<lambda>b. write_bits (unat b) 8) (utf8_encode normalized) w3
     in Inr (writer_to_bytes w4, writer_bit_length w4)))"

definition default_pair :: "(nat \<Rightarrow> bool) \<Rightarrow> ModelSet \<Rightarrow> ustr \<Rightarrow> nat \<times> nat option" where
  "default_pair isalpha ms cps =
     (let letters = filter isalpha cps;
          best_id = fst (fold (\<lambda>m (best_id, best_count).
            let n = int (length (filter (\<lambda>cp. normalize_cp m cp \<noteq> None) letters))
            in if n > best_count then (md_global_id m, n) else (best_id, best_count)) (ms_models ms) (0, -1));
          other = (if best_id = 0 then 1 else 0)
      in (best_id, if by_id ms other \<noteq> None then Some other else None))"

definition language_pairs :: "(nat \<Rightarrow> bool) \<Rightarrow> ModelSet \<Rightarrow> ustr \<Rightarrow> (nat \<times> nat option) option \<Rightarrow> bool \<Rightarrow> (nat \<times> nat option) list" where
  "language_pairs isalpha ms cps languages search_all_pairs =
     (case languages of
        Some p \<Rightarrow> [p]
      | None \<Rightarrow>
          if search_all_pairs then
            let ids = map md_global_id (ms_models ms)
            in [(a, b). a \<leftarrow> ids, b \<leftarrow> map Some ids @ [None], b \<noteq> Some a]
          else [default_pair isalpha ms cps])"

definition plan_key :: "plan_cost \<Rightarrow> nat \<times> nat option \<Rightarrow> int \<times> int \<times> int \<times> int \<times> int" where
  "plan_key cost p =
     (case cost of (bits, tokens, switches, hits) \<Rightarrow>
        (int NORMAL_HEADER_BITS + bits, switches, if snd p = None then 1 else 2, int (fst p),
         int (case snd p of None \<Rightarrow> GLOBAL_LANGUAGE_NONE | Some b \<Rightarrow> b)))"

definition best_plan :: "ModelSet \<Rightarrow> ustr \<Rightarrow> (nat \<times> nat option) list \<Rightarrow> (nat \<times> nat option) \<times> token list" where
  "best_plan ms cps pairs =
     snd (fold (\<lambda>p (best_key, best).
       case plan ms cps (fst p) (snd p) of (cost, tokens) \<Rightarrow>
         let key = plan_key cost p
         in if best_key = None \<or> key < the best_key then (Some key, (p, tokens)) else (best_key, best)) pairs (None, (hd pairs, [])))"

definition planned_stream :: "ModelSet \<Rightarrow> nat \<times> nat option \<Rightarrow> token list \<Rightarrow> (bytes \<times> nat) res" where
  "planned_stream ms p tokens =
     bind_res (write_header_field CODEC_VERSION new_writer) (\<lambda>w1.
     bind_res (write_header_field (ms_generation ms) w1) (\<lambda>w2.
     let w3 = write_bits (case snd p of None \<Rightarrow> LANGUAGE_NONE_WIRE_ID | Some b \<Rightarrow> b) LANGUAGE_BITS (write_bits (fst p) LANGUAGE_BITS w2);
         w4 = fold write_token tokens w3
     in Inr (writer_to_bytes w4, writer_bit_length w4)))"

text \<open>A text with a lone surrogate has no UTF-8 form, which the planner's runs and the raw stream both need.\<close>

definition encode_stream :: "(nat \<Rightarrow> bool) \<Rightarrow> ModelSet \<Rightarrow> ustr \<Rightarrow> (nat \<times> nat option) option \<Rightarrow> bool \<Rightarrow> (bytes \<times> nat) res" where
  "encode_stream isalpha ms txt languages search_all_pairs =
     (let normalized = normalize_text txt; pairs = language_pairs isalpha ms normalized languages search_all_pairs
      in if pairs = [] then Inl IndexError
         else if normalized \<noteq> [] \<and> list_ex (\<lambda>p. by_id ms (fst p) = None \<or> (case snd p of None \<Rightarrow> False | Some b \<Rightarrow> by_id ms b = None)) pairs
           then Inl KeyError
         else if \<not> list_all scalar_value normalized then Inl ValueError
         else case best_plan ms normalized pairs of
                (p, tokens) \<Rightarrow>
                  bind_res (planned_stream ms p tokens) (\<lambda>(data, bit_length).
                  bind_res (raw_utf8_stream normalized (ms_generation ms)) (\<lambda>(raw_data, raw_bits).
                  if (length raw_data, raw_bits) < (length data, bit_length) then Inr (raw_data, raw_bits)
                  else bind_res (decode_mct_stream ms data bit_length) (\<lambda>s.
                         if s \<noteq> normalized then Inr (raw_data, raw_bits) else Inr (data, bit_length)))))"

end
