(* ===== verification/McotxtBits.thy ===== *)
theory McotxtBits
  imports Mcotxt
begin

text \<open>
  What the MCOtxt bit writer and reader do to a stream as a list of bits, the bits of each token, and that a stream of tokens is decoded
  as the tokens say: the strict decoder of \<open>src/app/compression/mcotxt.py\<close> inverts the writer, and the encoder's own check makes the
  stream that leaves it decode to the normalised text whatever the planner did.
\<close>

section \<open>The bits behind reader and writer\<close>

definition nat_bits :: "nat \<Rightarrow> nat \<Rightarrow> bool list" where
  "nat_bits n v = map (bit v) (rev [0..<n])"

definition bits_nat :: "bool list \<Rightarrow> nat" where
  "bits_nat bs = fold (\<lambda>b v. 2 * v + of_bool b) bs 0"

lemma length_nat_bits [simp]: "length (nat_bits n v) = n"
  by (simp add: nat_bits_def)

lemma nat_bits_nth [simp]: "i < n \<Longrightarrow> nat_bits n v ! i = bit v (n - 1 - i)"
  by (simp add: nat_bits_def rev_nth)

lemma nat_bits_Suc: "nat_bits (Suc n) v = bit v n # nat_bits n v"
  by (simp add: nat_bits_def)

lemma nat_bits_inverse [simp]: "bits_nat (nat_bits n v) = v mod 2 ^ n"
proof -
  have "fold (\<lambda>b v. 2 * v + of_bool b) (nat_bits n v) x = x * 2 ^ n + v mod 2 ^ n" for x
  proof (induction n arbitrary: x)
    case (Suc n)
    have "v mod 2 ^ Suc n = of_bool (bit v n) * 2 ^ n + v mod 2 ^ n"
      using mod_mult2_eq [of v "2 ^ n" 2] by (simp add: bit_iff_odd power_Suc2 mult.commute odd_iff_mod_2_eq_one del: power_Suc)
    then show ?case using Suc [of "2 * x + of_bool (bit v n)"] by (simp add: nat_bits_Suc algebra_simps)
  qed (simp add: nat_bits_def)
  from this [of 0] show ?thesis by (simp add: bits_nat_def)
qed

definition wbits :: "BitWriter \<Rightarrow> bool list" where
  "wbits w = concat (map (\<lambda>b. nat_bits 8 (unat b)) (bw_bytes w)) @ take (bw_offset w) (nat_bits 8 (bw_current w))"

definition writer_ok :: "BitWriter \<Rightarrow> bool" where
  "writer_ok w \<longleftrightarrow> bw_offset w < 8 \<and> (\<forall>j < 8 - bw_offset w. \<not> bit (bw_current w) j)"

lemma new_writer_ok [simp]: "writer_ok new_writer" "wbits new_writer = []"
  by (simp_all add: writer_ok_def new_writer_def wbits_def)

lemma length_wbits: "writer_ok w \<Longrightarrow> length (wbits w) = writer_bit_length w"
  by (simp add: wbits_def writer_bit_length_def writer_ok_def length_concat comp_def sum_list_triv)

lemma written_length: "writer_ok w \<Longrightarrow> length (writer_to_bytes w) = (writer_bit_length w + 7) div 8"
proof -
  assume "writer_ok w"
  then have "bw_offset w < 8" by (simp add: writer_ok_def)
  then show ?thesis by (simp add: writer_to_bytes_def writer_bit_length_def) presburger
qed

lemma byte_bits: "nat_bits 8 (unat (byte_of c)) = nat_bits 8 c"
proof (rule nth_equalityI)
  fix i assume "i < length (nat_bits 8 (unat (byte_of c)))"
  then have i: "i < 8" by simp
  have "bit (c mod 2 ^ 8) j = bit c j" if "j < 8" for j using that by (metis bit_take_bit_iff take_bit_eq_mod)
  then show "nat_bits 8 (unat (byte_of c)) ! i = nat_bits 8 c ! i" using i by simp
qed simp

lemma write_bit:
  assumes "writer_ok w" and "b < 2"
  shows "writer_ok (write_bit b w)" and "wbits (write_bit b w) = wbits w @ [b = 1]"
proof -
  define c where "c = bw_current w OR push_bit (7 - bw_offset w) b"
  have o: "bw_offset w < 8" and z: "\<And>j. j < 8 - bw_offset w \<Longrightarrow> \<not> bit (bw_current w) j" using assms(1) by (simp_all add: writer_ok_def)
  have b: "bit b j \<longleftrightarrow> b = 1 \<and> j = 0" for j
  proof -
    have "b = 0 \<or> b = 1" using assms(2) by auto
    then show ?thesis by (auto simp: bit_1_iff bit_Suc_0_iff)
  qed
  have c: "bit c j \<longleftrightarrow> (if j = 7 - bw_offset w then b = 1 else bit (bw_current w) j)" for j
    using z [of "7 - bw_offset w"] o by (auto simp: c_def bit_or_iff bit_push_bit_iff b)
  have t: "take (Suc (bw_offset w)) (nat_bits 8 c) = take (bw_offset w) (nat_bits 8 (bw_current w)) @ [b = 1]"
    using o by (intro nth_equalityI) (auto simp: c nth_append less_Suc_eq)
  show "writer_ok (write_bit b w)"
    using z o c by (auto simp: write_bit_def Let_def writer_ok_def c_def [symmetric])
  show "wbits (write_bit b w) = wbits w @ [b = 1]"
  proof (cases "Suc (bw_offset w) = 8")
    case True
    then have "nat_bits 8 (unat (byte_of c)) = take (bw_offset w) (nat_bits 8 (bw_current w)) @ [b = 1]" using t by (simp add: byte_bits del: unat_byte_of)
    moreover have "write_bit b w = \<lparr>bw_bytes = bw_bytes w @ [byte_of c], bw_current = 0, bw_offset = 0\<rparr>" using True by (simp add: write_bit_def Let_def c_def)
    ultimately show ?thesis by (simp add: wbits_def del: unat_byte_of)
  next
    case False
    then show ?thesis using t by (simp add: write_bit_def Let_def wbits_def c_def [symmetric])
  qed
qed

lemma write_bits:
  assumes "writer_ok w"
  shows "writer_ok (write_bits v n w)" and "wbits (write_bits v n w) = wbits w @ nat_bits n v"
proof -
  have b: "drop_bit sh v AND 1 < 2" "drop_bit sh v AND 1 = 1 \<longleftrightarrow> bit v sh" for sh
    by (simp_all add: and_1 bit_iff_odd_drop_bit odd_iff_mod_2_eq_one)
  have "writer_ok (fold (\<lambda>sh. write_bit (drop_bit sh v AND 1)) xs w) \<and> wbits (fold (\<lambda>sh. write_bit (drop_bit sh v AND 1)) xs w) = wbits w @ map (bit v) xs"
    for xs using assms
  proof (induction xs arbitrary: w)
    case (Cons x xs)
    from Cons.IH [OF write_bit(1) [OF Cons.prems b(1)]] show ?case using write_bit(2) [OF Cons.prems b(1), of x] b(2) [of x] by simp
  qed simp
  then show "writer_ok (write_bits v n w)" "wbits (write_bits v n w) = wbits w @ nat_bits n v" by (simp_all add: write_bits_def nat_bits_def)
qed

definition octet_bits :: "bytes \<Rightarrow> bool list" where
  "octet_bits bs = concat (map (\<lambda>b. nat_bits 8 (unat b)) bs)"

lemma octet_bits_simps [simp]: "octet_bits [] = []" "octet_bits (b # bs) = nat_bits 8 (unat b) @ octet_bits bs" "length (octet_bits bs) = 8 * length bs"
  by (simp_all add: octet_bits_def length_concat comp_def sum_list_triv)

lemma write_octets:
  "writer_ok w \<Longrightarrow> writer_ok (fold (\<lambda>b. write_bits (unat b) 8) bs w) \<and> wbits (fold (\<lambda>b. write_bits (unat b) 8) bs w) = wbits w @ octet_bits bs"
  by (induction bs arbitrary: w) (simp_all add: write_bits)

subsection \<open>Reading back\<close>

definition rbits :: "BitReader \<Rightarrow> bool list" where
  "rbits r = map (\<lambda>i. data_bit (br_data r) i = 1) [br_index r..<br_length r]"

lemma data_bit_cases: "data_bit d i = of_bool (data_bit d i = 1)"
  by (simp add: data_bit_def and_1)

definition skip_bits :: "nat \<Rightarrow> BitReader \<Rightarrow> BitReader" where
  "skip_bits n r = r\<lparr>br_index := br_index r + n\<rparr>"

lemma remaining_rbits: "remaining r = length (rbits r)"
  by (simp add: remaining_def rbits_def)

lemma rbits_skip [simp]: "rbits (skip_bits n r) = drop n (rbits r)"
  by (simp add: rbits_def skip_bits_def drop_map)

lemma skip_skip [simp]: "skip_bits n (skip_bits m r) = skip_bits (m + n) r"
  by (simp add: skip_bits_def add.assoc)

lemma read_bits_prefix:
  assumes "rbits r = xs @ rest" and "xs \<noteq> []"
  shows "read_bits (length xs) r = Inr (bits_nat xs, skip_bits (length xs) r)" and "rbits (skip_bits (length xs) r) = rest"
proof -
  have l: "br_index r + length xs \<le> br_length r" 
  proof -
    have "br_length r - br_index r = length xs + length rest" "0 < length xs" using arg_cong [OF assms(1), of length] assms(2) by (simp_all add: rbits_def)
    then show ?thesis by linarith
  qed
  have "[br_index r..<br_length r] = [br_index r..<br_index r + length xs] @ [br_index r + length xs..<br_length r]"
    using upt_add_eq_append [of "br_index r" "br_index r + length xs" "br_length r - (br_index r + length xs)"] l by simp
  then have xs: "map (\<lambda>i. data_bit (br_data r) i = 1) [br_index r..<br_index r + length xs] = xs" using assms(1) by (simp add: rbits_def append_eq_append_conv)
  have "fold (\<lambda>i v. push_bit 1 v OR data_bit (br_data r) i) is x = fold (\<lambda>b v. 2 * v + of_bool b) (map (\<lambda>i. data_bit (br_data r) i = 1) is) x" for "is" x
  proof (induction "is" arbitrary: x)
    case (Cons i "is")
    have d: "data_bit (br_data r) i < 2 ^ 1" by (simp add: data_bit_def and_1)
    have "push_bit 1 x OR data_bit (br_data r) i = 2 * x + of_bool (data_bit (br_data r) i = 1)"
      using or_push_bit [OF d, of x] data_bit_cases [of "br_data r" i] by simp
    then show ?case using Cons by simp
  qed simp
  from this [of "[br_index r..<br_index r + length xs]" 0] xs show "read_bits (length xs) r = Inr (bits_nat xs, skip_bits (length xs) r)"
    using l by (simp add: read_bits_def bits_nat_def skip_bits_def)
  show "rbits (skip_bits (length xs) r) = rest" using assms(1) by simp
qed

lemma read_value:
  assumes "rbits r = nat_bits n v @ rest" and "0 < n" and "v < 2 ^ n"
  shows "read_bits n r = Inr (v, skip_bits n r)" and "rbits (skip_bits n r) = rest"
  using read_bits_prefix [OF assms(1)] assms(2,3) by (simp_all add: nat_bits_def) (metis length_nat_bits list.size(3) nat_bits_def nat_bits_inverse mod_less not_less0)

lemma read_one: "rbits r = b # rest \<Longrightarrow> read_bits 1 r = Inr (of_bool b, skip_bits 1 r)" "rbits r = b # rest \<Longrightarrow> rbits (skip_bits 1 r) = rest"
  using read_bits_prefix [of r "[b]" rest] by (simp_all add: bits_nat_def)

lemma read_octets_back:
  assumes "rbits r = octet_bits bs @ rest"
  shows "read_octets (length bs) r = Inr (bs, skip_bits (8 * length bs) r)"
  using assms
proof (induction bs arbitrary: r)
  case (Cons b bs)
  have 1: "rbits r = nat_bits 8 (unat b) @ octet_bits bs @ rest" using Cons.prems by simp
  note v = read_value [OF 1]
  have "read_octets (length bs) (skip_bits 8 r) = Inr (bs, skip_bits (8 * length bs) (skip_bits 8 r))" by (rule Cons.IH) (use v in simp)
  then show ?case using v(1) by simp
qed (simp add: skip_bits_def)

lemma reader_of_writer:
  assumes "writer_ok w"
  obtains r where "new_reader (writer_to_bytes w) (writer_bit_length w) = Inr r" and "rbits r = wbits w"
proof -
  have o: "bw_offset w < 8" using assms by (simp add: writer_ok_def)
  define dat where "dat = writer_to_bytes w"
  let ?n = "writer_bit_length w"
  have n: "?n \<le> length dat * 8" using o by (simp add: dat_def writer_to_bytes_def writer_bit_length_def)
  have d: "(data_bit dat i = 1) = bit (unat (dat ! (i div 8))) (7 - i mod 8)" for i
    by (simp add: data_bit_def and_1 bit_iff_odd_drop_bit odd_iff_mod_2_eq_one)
  have oct: "octet_bits bs ! i = bit (unat (bs ! (i div 8))) (7 - i mod 8)" if "i < 8 * length bs" for bs i
    using that
  proof (induction bs arbitrary: i)
    case (Cons b bs)
    show ?case
    proof (cases "i < 8")
      case False
      then have "i = 8 + (i - 8)" by simp
      then obtain k where k: "i = 8 + k" by blast
      then show ?thesis using Cons.IH [of k] Cons.prems by (simp add: nth_append)
    qed (simp add: nth_append)
  qed simp
  have "map (\<lambda>i. data_bit dat i = 1) [0..<?n] = wbits w"
  proof (rule nth_equalityI)
    fix i assume "i < length (map (\<lambda>i. data_bit dat i = 1) [0..<?n])"
    then have i: "i < ?n" by simp
    have "bit (unat (dat ! (i div 8))) (7 - i mod 8) = wbits w ! i"
    proof (cases "i < 8 * length (bw_bytes w)")
      case True
      then have "i div 8 < length (bw_bytes w)" by (simp add: less_mult_imp_div_less)
      then have "dat ! (i div 8) = bw_bytes w ! (i div 8)" by (simp add: dat_def writer_to_bytes_def nth_append)
      then show ?thesis using True oct [OF True] by (simp add: wbits_def octet_bits_def [symmetric] nth_append)
    next
      case False
      then obtain k where k: "i = 8 * length (bw_bytes w) + k" using le_Suc_ex by (metis not_less)
      then have kb: "k < bw_offset w" "k < 8" using i o by (simp_all add: writer_bit_length_def)
      then have m: "i div 8 = length (bw_bytes w)" "i mod 8 = k" using k o by simp_all
      then have "dat ! (i div 8) = byte_of (bw_current w)" using kb by (simp add: dat_def writer_to_bytes_def)
      moreover have "bit (unat (byte_of (bw_current w))) (7 - k) = nat_bits 8 (unat (byte_of (bw_current w))) ! k" using kb by simp
      ultimately show ?thesis using k kb m by (simp add: wbits_def octet_bits_def [symmetric] nth_append byte_bits del: unat_byte_of)
    qed
    then show "map (\<lambda>i. data_bit dat i = 1) [0..<?n] ! i = wbits w ! i" using i d [of i] by simp
  qed (simp add: length_wbits [OF assms])
  then show thesis using that [of "\<lparr>br_data = dat, br_length = ?n, br_index = 0\<rparr>"] n by (simp add: new_reader_def rbits_def dat_def)
qed

section \<open>What a token means\<close>

fun token_bits :: "token \<Rightarrow> bool list" where
  "token_bits (Top4 k) = False # [[False], [True, False], [True, True, False], [True, True, True]] ! k"
| "token_bits (Primary k) = [True, False] @ nat_bits 5 k"
| "token_bits (Punct k) = [True, True, False] @ nat_bits 5 k"
| "token_bits (Extension k) = [True, True, True, False] @ nat_bits 5 k"
| "token_bits Shift = [True, True, True, True, False]"
| "token_bits ToggleLanguage = [True, True, True, True, True, False]"
| "token_bits (SwitchOther k) = replicate 6 True @ nat_bits 3 0 @ nat_bits 8 k"
| "token_bits ToggleCase = replicate 6 True @ nat_bits 3 3"
| "token_bits (Utf8Run bs) = replicate 6 True @ nat_bits 3 2 @ nat_bits 5 (length bs - 1) @ octet_bits bs"

fun token_ok :: "token \<Rightarrow> bool" where
  "token_ok (Top4 k) \<longleftrightarrow> k < 4"
| "token_ok (Primary k) \<longleftrightarrow> k < 32"
| "token_ok (Punct k) \<longleftrightarrow> k < 32"
| "token_ok (Extension k) \<longleftrightarrow> k < 32"
| "token_ok (SwitchOther k) \<longleftrightarrow> k < 256"
| "token_ok (Utf8Run bs) \<longleftrightarrow> bs \<noteq> [] \<and> length bs \<le> 32"
| "token_ok _ \<longleftrightarrow> True"

lemma less_4_cases: "(k::nat) < 4 \<Longrightarrow> k = 0 \<or> k = 1 \<or> k = 2 \<or> k = 3"
  by linarith

lemma nat_bits_values:
  "nat_bits 2 0 = [False, False]" "nat_bits 3 2 = [False, True, False]" "nat_bits 4 6 = [False, True, True, False]" "nat_bits 4 7 = [False, True, True, True]"
  "nat_bits 2 2 = [True, False]" "nat_bits 3 6 = [True, True, False]" "nat_bits 4 14 = [True, True, True, False]"
  "nat_bits 5 30 = [True, True, True, True, False]" "nat_bits 6 62 = [True, True, True, True, True, False]" "nat_bits 6 63 = replicate 6 True"
  by (simp_all add: nat_bits_def upt_rec bit_iff_odd) (simp add: eval_nat_numeral)

lemma write_token_bits:
  assumes "writer_ok w" and "token_ok t"
  shows "writer_ok (write_token t w) \<and> wbits (write_token t w) = wbits w @ token_bits t"
proof (cases t)
  case (Top4 k)
  then show ?thesis using assms less_4_cases [of k] by (auto simp: write_bits TOP4_BITS_def nat_bits_values)
next
  case (Utf8Run bs)
  then show ?thesis using assms write_octets by (simp add: write_bits nat_bits_values mcotxt_consts)
qed (use assms in \<open>simp_all add: write_bits nat_bits_values mcotxt_consts\<close>)

lemma write_tokens_bits:
  "writer_ok w \<Longrightarrow> list_all token_ok ts \<Longrightarrow> writer_ok (fold write_token ts w) \<and> wbits (fold write_token ts w) = wbits w @ concat (map token_bits ts)"
  by (induction ts arbitrary: w) (simp_all add: write_token_bits)

text \<open>The effect of a token on the state of the decoder.\<close>

definition unshifted :: "decode_state \<Rightarrow> 'a res \<Rightarrow> 'a res" where
  "unshifted st res = (if ds_shift st then Inl MCOtxtError else res)"

fun apply_token :: "ModelSet \<Rightarrow> nat \<Rightarrow> nat option \<Rightarrow> token \<Rightarrow> decode_state \<Rightarrow> decode_state res" where
  "apply_token ms a b (Top4 k) st =
     (let m = the (by_id ms (ds_current st)); row = predictions m (ds_context st) in if k \<ge> length row then Inl MCOtxtError else emit m (row ! k) st)"
| "apply_token ms a b (Primary k) st =
     (let m = the (by_id ms (ds_current st)) in if k \<ge> length (md_primary m) then Inl MCOtxtError else emit m (md_primary m ! k) st)"
| "apply_token ms a b (Punct k) st =
     unshifted st (Inr (st\<lparr>ds_out := ds_out st @ [PUNCTUATION ! k], ds_context := context_after_punctuation (PUNCTUATION ! k) (ds_context st)\<rparr>))"
| "apply_token ms a b (Extension k) st =
     (let m = the (by_id ms (ds_current st)) in if k \<ge> length (md_extension m) then Inl MCOtxtError else emit m (md_extension m ! k) st)"
| "apply_token ms a b Shift st = unshifted st (Inr (st\<lparr>ds_shift := True\<rparr>))"
| "apply_token ms a b ToggleLanguage st = unshifted st (toggle_language a b st)"
| "apply_token ms a b (SwitchOther k) st =
     unshifted st (if k = GLOBAL_LANGUAGE_NONE \<or> k > 6 then Inl MCOtxtError else if by_id ms k = None then Inl MCOtxtError
                   else Inr (st\<lparr>ds_current := k, ds_context := Start\<rparr>))"
| "apply_token ms a b ToggleCase st = unshifted st (Inr (st\<lparr>ds_caps := \<not> ds_caps st\<rparr>))"
| "apply_token ms a b (Utf8Run bs) st =
     unshifted st (bind_res (strict_utf8 bs) (\<lambda>s. Inr (st\<lparr>ds_out := ds_out st @ s, ds_context := Start\<rparr>)))"

lemma read_take [simp]: "0 < n \<Longrightarrow> n \<le> length (rbits r) \<Longrightarrow> read_bits n r = Inr (bits_nat (take n (rbits r)), skip_bits n r)"
  using read_bits_prefix(1) [of r "take n (rbits r)" "drop n (rbits r)"] by (cases "rbits r") (auto simp: min_def split: if_splits)

lemma bits_nat_single [simp]: "bits_nat [b] = of_bool b"
  by (simp add: bits_nat_def)

lemma read_rank_bits:
  assumes "k < 4" and "rbits r = [[False], [True, False], [True, True, False], [True, True, True]] ! k @ rest"
  shows "read_rank r = Inr (k, skip_bits (length ([[False], [True, False], [True, True, False], [True, True, True]] ! k)) r)"
  using less_4_cases [OF assms(1)] assms(2) by (auto simp: read_rank_def)

lemma decode_literal_bits:
  assumes "rbits r = nat_bits 5 k @ rest" and "k < 32"
  shows "decode_literal m table st r =
    bind_res (if k \<ge> length table then Inl MCOtxtError else emit m (table ! k) st) (\<lambda>st1. Inr (st1, skip_bits 5 r))"
  using assms by (simp add: decode_literal_def)

definition reads_as :: "'a res \<Rightarrow> nat \<Rightarrow> BitReader \<Rightarrow> ('a \<times> BitReader) res" where
  "reads_as res n r = bind_res res (\<lambda>x. Inr (x, skip_bits n r))"

lemma six_ones: "replicate 6 True = [True, True, True, True, True, True]"
  by (simp add: numeral_eq_Suc)

lemma decode_token_control:
  assumes "rbits r = replicate 6 True @ rest"
  shows "decode_token ms a b st r = unshifted st (decode_control ms st (skip_bits 6 r))"
  using assms by (simp add: six_ones decode_token_def Let_def unshifted_def) (simp add: numeral_eq_Suc)

lemma decode_control_bits:
  shows "rbits r = nat_bits 3 0 @ nat_bits 8 k @ rest \<Longrightarrow> k < 256 \<Longrightarrow> decode_control ms st r =
      reads_as (if k = GLOBAL_LANGUAGE_NONE \<or> k > 6 then Inl MCOtxtError else if by_id ms k = None then Inl MCOtxtError
                else Inr (st\<lparr>ds_current := k, ds_context := Start\<rparr>)) 11 r"
    and "rbits r = nat_bits 3 3 @ rest \<Longrightarrow> decode_control ms st r = reads_as (Inr (st\<lparr>ds_caps := \<not> ds_caps st\<rparr>)) 3 r"
    and "rbits r = nat_bits 3 2 @ nat_bits 5 (length bs - 1) @ octet_bits bs @ rest \<Longrightarrow> bs \<noteq> [] \<Longrightarrow> length bs \<le> 32 \<Longrightarrow> decode_control ms st r =
      reads_as (bind_res (strict_utf8 bs) (\<lambda>s. Inr (st\<lparr>ds_out := ds_out st @ s, ds_context := Start\<rparr>))) (8 + 8 * length bs) r"
proof -
  show "rbits r = nat_bits 3 0 @ nat_bits 8 k @ rest \<Longrightarrow> k < 256 \<Longrightarrow> decode_control ms st r =
      reads_as (if k = GLOBAL_LANGUAGE_NONE \<or> k > 6 then Inl MCOtxtError else if by_id ms k = None then Inl MCOtxtError
                else Inr (st\<lparr>ds_current := k, ds_context := Start\<rparr>)) 11 r"
    by (simp add: decode_control_def mcotxt_consts reads_as_def)
  show "rbits r = nat_bits 3 3 @ rest \<Longrightarrow> decode_control ms st r = reads_as (Inr (st\<lparr>ds_caps := \<not> ds_caps st\<rparr>)) 3 r"
    by (simp add: decode_control_def mcotxt_consts reads_as_def)
  assume r: "rbits r = nat_bits 3 2 @ nat_bits 5 (length bs - 1) @ octet_bits bs @ rest" and bs: "bs \<noteq> []" "length bs \<le> 32"
  have "read_octets (length bs) (skip_bits 8 r) = Inr (bs, skip_bits (8 * length bs) (skip_bits 8 r))"
    by (rule read_octets_back [of _ _ rest]) (use r in simp)
  moreover have "Suc (length bs - 1) = length bs" using bs(1) by (cases bs) simp_all
  ultimately show "decode_control ms st r =
      reads_as (bind_res (strict_utf8 bs) (\<lambda>s. Inr (st\<lparr>ds_out := ds_out st @ s, ds_context := Start\<rparr>))) (8 + 8 * length bs) r"
    using r bs by (cases "strict_utf8 bs") (simp_all add: decode_control_def mcotxt_consts reads_as_def del: read_octets.simps)
qed

lemma unshifted_reads: "unshifted st (reads_as res n r) = reads_as (unshifted st res) n r"
  by (simp add: unshifted_def reads_as_def)

lemma reads_skip: "reads_as res n (skip_bits m r) = reads_as res (m + n) r"
  by (simp add: reads_as_def)

lemma decode_token_bits:
  assumes "token_ok t" and "rbits r = token_bits t @ rest"
  shows "decode_token ms a b st r = reads_as (apply_token ms a b t st) (length (token_bits t)) r"
proof (cases t)
  case (Top4 k)
  let ?rank = "[[False], [True, False], [True, True, False], [True, True, True]] ! k"
  have "rbits (skip_bits (Suc 0) r) = ?rank @ rest" using assms(2) Top4 by simp
  from read_rank_bits [OF _ this] show ?thesis using assms Top4 by (simp add: decode_token_def reads_as_def Let_def)
next
  case (Primary k)
  have "rbits (skip_bits 2 r) = nat_bits 5 k @ rest" using assms(2) Primary by simp
  from decode_literal_bits [OF this] show ?thesis using assms Primary by (simp add: decode_token_def reads_as_def Let_def numeral_2_eq_2)
next
  case (Punct k)
  then show ?thesis using assms by (simp add: decode_token_def reads_as_def Let_def unshifted_def)
next
  case (Extension k)
  have "rbits (skip_bits 4 r) = nat_bits 5 k @ rest" using assms(2) Extension by simp
  from decode_literal_bits [OF this] show ?thesis using assms Extension by (simp add: decode_token_def reads_as_def Let_def eval_nat_numeral)
next
  case Shift
  then show ?thesis using assms by (simp add: decode_token_def reads_as_def Let_def unshifted_def)
next
  case ToggleLanguage
  then show ?thesis using assms by (simp add: decode_token_def reads_as_def Let_def unshifted_def)
next
  case (SwitchOther k)
  then have "rbits r = replicate 6 True @ nat_bits 3 0 @ nat_bits 8 k @ rest" using assms(2) by simp
  moreover from this have "rbits (skip_bits 6 r) = nat_bits 3 0 @ nat_bits 8 k @ rest" by simp
  ultimately show ?thesis using assms(1) SwitchOther decode_control_bits(1) by (simp add: decode_token_control unshifted_reads reads_skip)
next
  case ToggleCase
  then have "rbits r = replicate 6 True @ nat_bits 3 3 @ rest" using assms(2) by simp
  moreover from this have "rbits (skip_bits 6 r) = nat_bits 3 3 @ rest" by simp
  ultimately show ?thesis using ToggleCase decode_control_bits(2) by (simp add: decode_token_control unshifted_reads reads_skip)
next
  case (Utf8Run bs)
  then have "rbits r = replicate 6 True @ nat_bits 3 2 @ nat_bits 5 (length bs - 1) @ octet_bits bs @ rest" using assms(2) by simp
  moreover from this have "rbits (skip_bits 6 r) = nat_bits 3 2 @ nat_bits 5 (length bs - 1) @ octet_bits bs @ rest" by simp
  ultimately show ?thesis using assms(1) Utf8Run decode_control_bits(3) by (simp add: decode_token_control unshifted_reads reads_skip)
qed

primrec apply_tokens :: "ModelSet \<Rightarrow> nat \<Rightarrow> nat option \<Rightarrow> token list \<Rightarrow> decode_state \<Rightarrow> decode_state res" where
  "apply_tokens ms a b [] st = Inr st"
| "apply_tokens ms a b (t # ts) st = bind_res (apply_token ms a b t st) (apply_tokens ms a b ts)"

lemma token_bits_not_Nil [simp]: "token_bits t \<noteq> []"
  by (cases t) simp_all

lemma decode_loop_tokens:
  "list_all token_ok ts \<Longrightarrow> rbits r = concat (map token_bits ts) \<Longrightarrow>
    decode_loop ms a b st r = bind_res (apply_tokens ms a b ts st) (\<lambda>st1. if ds_shift st1 then Inl MCOtxtError else Inr (ds_out st1))"
proof (induction ts arbitrary: r st)
  case Nil
  then show ?case by (subst decode_loop.simps) (simp add: remaining_rbits)
next
  case (Cons t ts)
  let ?r = "skip_bits (length (token_bits t)) r"
  have r: "rbits r = token_bits t @ concat (map token_bits ts)" using Cons.prems(2) by simp
  have "0 < remaining r" by (simp add: remaining_rbits r)
  moreover have "decode_token ms a b st r = reads_as (apply_token ms a b t st) (length (token_bits t)) r"
    by (rule decode_token_bits [OF _ r]) (use Cons.prems(1) in simp)
  moreover have "decode_loop ms a b st1 ?r = bind_res (apply_tokens ms a b ts st1) (\<lambda>st1. if ds_shift st1 then Inl MCOtxtError else Inr (ds_out st1))" for st1
    by (rule Cons.IH) (use Cons.prems(1) r in simp_all)
  ultimately show ?case
    by (subst decode_loop.simps) (cases "apply_token ms a b t st", simp_all add: reads_as_def)
qed

definition header_bits :: "nat \<Rightarrow> bool list" where
  "header_bits v = (if v < 7 then nat_bits 3 v else nat_bits 3 7 @ nat_bits 8 (v - 7))"

lemma write_header: "writer_ok w \<Longrightarrow> v \<le> 262 \<Longrightarrow> \<exists>w1. write_header_field v w = Inr w1 \<and> writer_ok w1 \<and> wbits w1 = wbits w @ header_bits v"
  by (auto simp: write_header_field_def header_bits_def mcotxt_consts write_bits)

lemma write_header_bound: "write_header_field v w = Inr w1 \<Longrightarrow> v \<le> 262"
  by (auto simp: write_header_field_def mcotxt_consts split: if_splits)

lemma read_header:
  assumes "rbits r = header_bits v @ rest" and "v \<le> 262"
  shows "read_header_field r = Inr (v, skip_bits (length (header_bits v)) r)"
  using assms by (auto simp: read_header_field_def header_bits_def mcotxt_consts)

definition stream_bits :: "nat \<Rightarrow> nat \<Rightarrow> nat \<Rightarrow> bool list" where
  "stream_bits generation a b = header_bits 1 @ header_bits generation @ nat_bits 3 a @ nat_bits 3 b"

lemma stream_written:
  assumes "generation \<le> 262"
  obtains w2 where "bind_res (write_header_field CODEC_VERSION new_writer) (write_header_field generation) = Inr w2"
    and "writer_ok (write_bits b 3 (write_bits a 3 w2))" and "wbits (write_bits b 3 (write_bits a 3 w2)) = stream_bits generation a b"
proof -
  obtain w1 where w1: "write_header_field CODEC_VERSION new_writer = Inr w1" "writer_ok w1" "wbits w1 = header_bits 1"
    using write_header [of new_writer 1] by (auto simp: CODEC_VERSION_def)
  obtain w2 where w2: "write_header_field generation w1 = Inr w2" "writer_ok w2" "wbits w2 = header_bits 1 @ header_bits generation"
    using write_header [OF w1(2) assms] w1(3) by auto
  show thesis using that [of w2] w1(1) w2 by (simp add: write_bits stream_bits_def)
qed

lemma decode_stream_header:
  assumes "new_reader data n = Inr r" and "rbits r = stream_bits generation a b @ rest" and "generation \<le> 262" and "a < 8" and "b < 8"
  obtains r4 where "rbits r4 = rest" and "decode_mct_stream ms data n =
     (if a = EXTENDED_HEADER_WIRE_ID \<and> b = RAW_UTF8_FORMAT then decode_raw_utf8 r4
      else bind_res (read_languages a b r4) (\<lambda>((lang_a, lang_b), r5).
        if generation \<noteq> ms_generation ms then Inl MCOtxtError
        else if by_id ms lang_a = None \<or> (case lang_b of None \<Rightarrow> False | Some b \<Rightarrow> by_id ms b = None) then Inl MCOtxtError
        else decode_loop ms lang_a lang_b (start_state lang_a) r5))"
proof -
  let ?r1 = "skip_bits (length (header_bits 1)) r" and ?r2 = "skip_bits (length (header_bits 1) + length (header_bits generation)) r"
  have r: "rbits r = header_bits 1 @ header_bits generation @ nat_bits 3 a @ nat_bits 3 b @ rest" using assms(2) by (simp add: stream_bits_def)
  have 1: "read_header_field r = Inr (1, ?r1)" by (rule read_header [OF r]) simp
  have "rbits ?r1 = header_bits generation @ nat_bits 3 a @ nat_bits 3 b @ rest" by (simp add: r)
  from read_header [OF this assms(3)] have 2: "read_header_field ?r1 = Inr (generation, ?r2)" by simp
  have r2: "rbits ?r2 = nat_bits 3 a @ nat_bits 3 b @ rest" by (simp add: r)
  then have 3: "read_bits 3 ?r2 = Inr (a, skip_bits 3 ?r2)" using assms(4) by simp
  have 4: "read_bits 3 (skip_bits 3 ?r2) = Inr (b, skip_bits 3 (skip_bits 3 ?r2))" using assms(5) r by simp
  show thesis
  proof (rule that [of "skip_bits 3 (skip_bits 3 ?r2)"])
    show "rbits (skip_bits 3 (skip_bits 3 ?r2)) = rest" by (simp add: r)
  qed (simp only: decode_mct_stream_def assms(1) bind_res.simps prod.case 1 2 3 4 LANGUAGE_BITS_def CODEC_VERSION_def not_not simp_thms if_False if_True)
qed

lemma raw_stream_inverse:
  assumes "raw_utf8_stream s generation = Inr (data, n)" and "list_all scalar_value s"
  shows "decode_mct_stream ms data n = Inr s"
proof -
  have g: "generation \<le> 262" using assms(1) write_header_bound by (auto simp: raw_utf8_stream_def bind_res_Inr)
  obtain w2 where w2: "bind_res (write_header_field CODEC_VERSION new_writer) (write_header_field generation) = Inr w2"
    "writer_ok (write_bits 1 3 (write_bits 7 3 w2))" "wbits (write_bits 1 3 (write_bits 7 3 w2)) = stream_bits generation 7 1"
    using stream_written [OF g] by blast
  let ?w3 = "write_bits 0 4 (write_bits 1 3 (write_bits 7 3 w2))"
  define w4 where "w4 = fold (\<lambda>b. write_bits (unat b) 8) (utf8_encode s) ?w3"
  have w4: "writer_ok w4" "wbits w4 = stream_bits generation 7 1 @ nat_bits 4 0 @ octet_bits (utf8_encode s)"
    using write_octets [of ?w3 "utf8_encode s"] w2(2,3) by (simp_all add: write_bits w4_def)
  have dn: "data = writer_to_bytes w4" "n = writer_bit_length w4"
    using assms(1) w2(1) by (auto simp: raw_utf8_stream_def bind_res_Inr mcotxt_consts Let_def w4_def)
  obtain r where r: "new_reader data n = Inr r" "rbits r = wbits w4" using reader_of_writer [OF w4(1)] dn by blast
  obtain r4 where r4: "rbits r4 = nat_bits 4 0 @ octet_bits (utf8_encode s)" "decode_mct_stream ms data n = decode_raw_utf8 r4"
    using decode_stream_header [OF r(1), of generation 7 1 "nat_bits 4 0 @ octet_bits (utf8_encode s)" ms] r(2) w4(2) g by (auto simp: mcotxt_consts)
  have "read_octets (length (utf8_encode s)) (skip_bits 4 r4) = Inr (utf8_encode s, skip_bits (8 * length (utf8_encode s)) (skip_bits 4 r4))"
    by (rule read_octets_back [of _ _ "[]"]) (simp add: r4(1))
  then show ?thesis using r4 by (simp add: decode_raw_utf8_def mcotxt_consts remaining_rbits strict_utf8_def utf8_decode_encode [OF assms(2)])
qed

definition pair_ok :: "ModelSet \<Rightarrow> nat \<times> nat option \<Rightarrow> bool" where
  "pair_ok ms p \<longleftrightarrow> fst p < 7 \<and> by_id ms (fst p) \<noteq> None \<and> (case snd p of None \<Rightarrow> True | Some b \<Rightarrow> b < 7 \<and> by_id ms b \<noteq> None)"

lemma planned_stream_decodes:
  assumes "planned_stream ms p tokens = Inr (data, n)" and "list_all token_ok tokens" and "pair_ok ms p"
  shows "decode_mct_stream ms data n = bind_res (apply_tokens ms (fst p) (snd p) tokens (start_state (fst p)))
    (\<lambda>st. if ds_shift st then Inl MCOtxtError else Inr (ds_out st))"
proof -
  define g where "g = ms_generation ms"
  define a where "a = fst p"
  define b where "b = (case snd p of None \<Rightarrow> LANGUAGE_NONE_WIRE_ID | Some b \<Rightarrow> b)"
  have g: "g \<le> 262" using assms(1) write_header_bound by (auto simp: planned_stream_def bind_res_Inr g_def)
  have ab: "a < 7" "b < 8" "snd p = (if b = LANGUAGE_NONE_WIRE_ID then None else Some b)" using assms(3) by (auto simp: pair_ok_def a_def b_def mcotxt_consts split: option.splits)
  obtain w2 where w2: "bind_res (write_header_field CODEC_VERSION new_writer) (write_header_field g) = Inr w2"
    "writer_ok (write_bits b 3 (write_bits a 3 w2))" "wbits (write_bits b 3 (write_bits a 3 w2)) = stream_bits g a b"
    using stream_written [OF g] by blast
  define w4 where "w4 = fold write_token tokens (write_bits b 3 (write_bits a 3 w2))"
  have w4: "writer_ok w4" "wbits w4 = stream_bits g a b @ concat (map token_bits tokens)"
    using write_tokens_bits [OF w2(2) assms(2)] w2(3) by (simp_all add: w4_def)
  have dn: "data = writer_to_bytes w4" "n = writer_bit_length w4"
    using assms(1) w2(1) by (auto simp: planned_stream_def bind_res_Inr LANGUAGE_BITS_def Let_def w4_def g_def a_def b_def)
  obtain r where r: "new_reader data n = Inr r" "rbits r = wbits w4" using reader_of_writer [OF w4(1)] dn by blast
  have "read_languages a b r4 = Inr ((a, snd p), r4)" for r4 using ab by (simp add: read_languages_def mcotxt_consts)
  moreover have "\<not> (by_id ms a = None \<or> (case snd p of None \<Rightarrow> False | Some b \<Rightarrow> by_id ms b = None))"
    using assms(3) by (auto simp: pair_ok_def a_def split: option.splits)
  ultimately obtain r4 where "rbits r4 = concat (map token_bits tokens)" "decode_mct_stream ms data n = decode_loop ms a (snd p) (start_state a) r4"
    using decode_stream_header [OF r(1), of g a b "concat (map token_bits tokens)" ms] r(2) w4(2) g ab(1,2) by (auto simp: mcotxt_consts g_def) blast
  then show ?thesis using decode_loop_tokens [OF assms(2)] by (simp add: a_def)
qed

text \<open>Whatever the planner does, the stream that leaves the encoder decodes to the normalised text.\<close>

lemma encode_stream_inverse:
  assumes "encode_stream isalpha ms t languages all = Inr (data, n)"
  shows "decode_mct_stream ms data n = Inr (normalize_text t)"
proof -
  let ?s = "normalize_text t"
  obtain p tokens where bp: "best_plan ms ?s (language_pairs isalpha ms ?s languages all) = (p, tokens)" by fastforce
  have s: "list_all scalar_value ?s" using assms by (auto simp: encode_stream_def Let_def)
  obtain d0 n0 rd rn where d: "planned_stream ms p tokens = Inr (d0, n0)" "raw_utf8_stream ?s (ms_generation ms) = Inr (rd, rn)"
    "(data, n) = (rd, rn) \<or> ((data, n) = (d0, n0) \<and> decode_mct_stream ms d0 n0 = Inr ?s)"
    using assms bp by (auto simp: encode_stream_def Let_def bind_res_Inr split: if_splits)
  then show ?thesis using raw_stream_inverse [OF d(2) s] by auto
qed

end
