(* ===== verification/McotxtPlan.thy ===== *)
theory McotxtPlan
  imports McotxtBits
begin

text \<open>
  The planner of \<open>src/app/compression/mcotxt.py\<close>: the dynamic programme reads off a walk of least cost over the candidate edges
  (locale \<open>plan_dag\<close>, interpreted on \<^const>\<open>candidates\<close>), the case plan brings every letter out in its case, and with sound language
  tables the tokens of a plan decode to the text, so the encoder never falls back for a stream that does not read back.
\<close>

section \<open>The dynamic programme finds a cheapest plan\<close>

text \<open>A plan is a walk over candidate edges to the end of the text; its cost is the sum over its edges.\<close>

inductive walk :: "(plan_state \<Rightarrow> plan_edge list) \<Rightarrow> nat \<Rightarrow> plan_state \<Rightarrow> token list \<Rightarrow> plan_cost \<Rightarrow> bool" for cand n where
  walk_end: "fst st = n \<Longrightarrow> walk cand n st [] (0, 0, 0, 0)"
| walk_step: "fst st < n \<Longrightarrow> e \<in> set (cand st) \<Longrightarrow> walk cand n (edge_next e) ts c \<Longrightarrow> walk cand n st (fst e @ ts) (edge_cost e c)"

inductive_cases walk_elim: "walk cand n st ts c"

lemma edge_cost_mono: "c \<le> c' \<Longrightarrow> edge_cost e c \<le> edge_cost e c'"
  by (cases e; cases c; cases c') (auto simp: edge_cost_def)

locale plan_dag =
  fixes cand :: "plan_state \<Rightarrow> plan_edge list" and n :: nat and start :: plan_state
  assumes advance: "fst st < n \<Longrightarrow> e \<in> set (cand st) \<Longrightarrow> fst st < fst (edge_next e) \<and> fst (edge_next e) \<le> n"
    and some_edge: "cand st \<noteq> []"
    and start_first: "fst start = 0"
begin

definition shaped :: "plan_graph \<Rightarrow> bool" where
  "shaped g \<longleftrightarrow> length (pg_by_position g) = Suc n \<and> (\<forall>st. st \<in> pg_seen g \<longleftrightarrow> fst st \<le> n \<and> st \<in> set (pg_by_position g ! fst st))
     \<and> (\<forall>i \<le> n. \<forall>st \<in> set (pg_by_position g ! i). fst st = i)"

definition expanded :: "plan_graph \<Rightarrow> plan_state \<Rightarrow> bool" where
  "expanded g st \<longleftrightarrow> pg_edges g st = Some (cand st) \<and> (\<forall>e \<in> set (cand st). edge_next e \<in> pg_seen g)"

lemma discover_shaped:
  assumes "shaped g" and "fst nxt \<le> n"
  shows "shaped (discover nxt g)" "pg_seen (discover nxt g) = insert nxt (pg_seen g)" "pg_edges (discover nxt g) = pg_edges g"
    "i \<noteq> fst nxt \<Longrightarrow> pg_by_position (discover nxt g) ! i = pg_by_position g ! i"
  using assms by (auto simp: discover_def shaped_def nth_list_update)

lemma discover_all:
  assumes "shaped g" and "\<And>e. e \<in> set es \<Longrightarrow> p < fst (edge_next e) \<and> fst (edge_next e) \<le> n"
  shows "shaped (fold (\<lambda>e. discover (edge_next e)) es g) \<and> pg_seen (fold (\<lambda>e. discover (edge_next e)) es g) = pg_seen g \<union> edge_next ` set es
    \<and> pg_edges (fold (\<lambda>e. discover (edge_next e)) es g) = pg_edges g
    \<and> (\<forall>i \<le> p. pg_by_position (fold (\<lambda>e. discover (edge_next e)) es g) ! i = pg_by_position g ! i)"
  using assms
proof (induction es arbitrary: g)
  case (Cons e es)
  have e: "p < fst (edge_next e)" "fst (edge_next e) \<le> n" using Cons.prems(2) by auto
  note d = discover_shaped [OF Cons.prems(1) e(2)]
  from Cons.IH [OF d(1)] Cons.prems(2) show ?case using d(2-4) e(1) by auto
qed simp

lemma expand_shaped:
  assumes "shaped g" and "fst st < n"
  shows "shaped (expand cand st g)" "pg_seen g \<subseteq> pg_seen (expand cand st g)" "expanded (expand cand st g) st"
    "expanded g st' \<Longrightarrow> expanded (expand cand st g) st'" "i \<le> fst st \<Longrightarrow> pg_by_position (expand cand st g) ! i = pg_by_position g ! i"
proof -
  let ?g = "g\<lparr>pg_edges := (pg_edges g)(st \<mapsto> cand st)\<rparr>"
  have "shaped ?g" using assms(1) by (simp add: shaped_def)
  note d = discover_all [OF this, of "cand st" "fst st"]
  have d: "shaped (expand cand st g)" "pg_seen (expand cand st g) = pg_seen g \<union> edge_next ` set (cand st)"
    "pg_edges (expand cand st g) = (pg_edges g)(st \<mapsto> cand st)" "\<And>i. i \<le> fst st \<Longrightarrow> pg_by_position (expand cand st g) ! i = pg_by_position g ! i"
    using d advance [OF assms(2)] by (auto simp: expand_def)
  show "shaped (expand cand st g)" "pg_seen g \<subseteq> pg_seen (expand cand st g)" using d by auto
  show "i \<le> fst st \<Longrightarrow> pg_by_position (expand cand st g) ! i = pg_by_position g ! i" by (rule d(4))
  show "expanded (expand cand st g) st" "expanded g st' \<Longrightarrow> expanded (expand cand st g) st'" using d(2,3) by (auto simp: expanded_def)
qed

lemma expand_all:
  assumes "shaped g" and "p < n" and "\<And>st. st \<in> set sts \<Longrightarrow> fst st = p"
  shows "shaped (fold (expand cand) sts g) \<and> pg_seen g \<subseteq> pg_seen (fold (expand cand) sts g)
    \<and> (\<forall>st. st \<in> set sts \<or> expanded g st \<longrightarrow> expanded (fold (expand cand) sts g) st)
    \<and> (\<forall>i \<le> p. pg_by_position (fold (expand cand) sts g) ! i = pg_by_position g ! i)"
  using assms
proof (induction sts arbitrary: g)
  case (Cons s sts)
  have s: "fst s < n" "fst s = p" using Cons.prems by auto
  note x = expand_shaped [OF Cons.prems(1) s(1)]
  from Cons.IH [OF x(1) Cons.prems(2)] Cons.prems(3) x(2-5) s(2) show ?case by auto
qed simp

definition covered :: "nat \<Rightarrow> plan_graph \<Rightarrow> bool" where
  "covered p g \<longleftrightarrow> shaped g \<and> start \<in> pg_seen g \<and> (\<forall>st \<in> pg_seen g. fst st < p \<longrightarrow> expanded g st)"

lemma shaped_seen: "shaped g \<Longrightarrow> st \<in> pg_seen g \<longleftrightarrow> fst st \<le> n \<and> st \<in> set (pg_by_position g ! fst st)"
  unfolding shaped_def by blast

lemma covered_step:
  assumes "covered p g" and "p < n"
  shows "covered (Suc p) (fold (expand cand) (pg_by_position g ! p) g)"
proof -
  define h where "h = fold (expand cand) (pg_by_position g ! p) g"
  have sh: "shaped g" using assms(1) by (simp add: covered_def)
  have "fst st = p" if "st \<in> set (pg_by_position g ! p)" for st using sh that assms(2) by (simp add: shaped_def)
  from expand_all [OF sh assms(2) this] have e: "shaped h" "pg_seen g \<subseteq> pg_seen h"
    "\<And>st. st \<in> set (pg_by_position g ! p) \<or> expanded g st \<Longrightarrow> expanded h st" "\<And>i. i \<le> p \<Longrightarrow> pg_by_position h ! i = pg_by_position g ! i"
    unfolding h_def by auto
  have "expanded h st" if st: "st \<in> pg_seen h" "fst st < Suc p" for st
  proof -
    have "fst st \<le> n" "st \<in> set (pg_by_position h ! fst st)" using st(1) shaped_seen [OF e(1)] by simp_all
    then have in_g: "st \<in> set (pg_by_position g ! fst st)" "st \<in> pg_seen g" using e(4) st(2) shaped_seen [OF sh] by simp_all
    then have "expanded g st \<or> fst st = p" using assms(1) st(2) by (auto simp: covered_def)
    then show ?thesis using e(3) in_g by blast
  qed
  then show ?thesis using assms(1) e(1,2) unfolding covered_def h_def [symmetric] by blast
qed

lemma forward_covers: "covered n (forward_pass cand n start)"
proof -
  let ?g0 = "\<lparr>pg_by_position = (replicate (Suc n) [])[0 := [start]], pg_edges = Map.empty, pg_seen = {start}\<rparr>"
  have "covered p (fold (\<lambda>pos g. fold (expand cand) (pg_by_position g ! pos) g) [0..<p] ?g0)" if "p \<le> n" for p
    using that
  proof (induction p)
    case 0
    have "(replicate (Suc n) [])[0 := [start]] = [start] # replicate n []" by simp
    then show ?case using start_first by (auto simp: covered_def shaped_def nth_Cons')
  next
    case (Suc p)
    then show ?case using covered_step [of p] by simp
  qed
  then show ?thesis by (simp add: forward_pass_def)
qed

subsection \<open>Backward pass\<close>

abbreviation rest_cost :: "plan_best \<Rightarrow> plan_edge \<Rightarrow> plan_cost" where
  "rest_cost best e \<equiv> edge_cost e (fst (the (best (edge_next e))))"

lemma choose_least:
  assumes "es \<noteq> []"
  shows "\<exists>e \<in> set es. fold (choose_edge best) es None = Some (rest_cost best e, Some (fst e, edge_next e)) \<and> (\<forall>e' \<in> set es. rest_cost best e \<le> rest_cost best e')"
  using assms
proof (induction es rule: rev_induct)
  case (snoc x es)
  show ?case
  proof (cases "es = []")
    case True
    then show ?thesis by (simp add: choose_edge_def Let_def)
  next
    case False
    then obtain e where e: "e \<in> set es" "fold (choose_edge best) es None = Some (rest_cost best e, Some (fst e, edge_next e))"
      "\<forall>e' \<in> set es. rest_cost best e \<le> rest_cost best e'" using snoc.IH by blast
    have "fold (choose_edge best) (es @ [x]) None =
      (if rest_cost best x < rest_cost best e then Some (rest_cost best x, Some (fst x, edge_next x)) else Some (rest_cost best e, Some (fst e, edge_next e)))"
      by (simp add: e(2)) (simp add: choose_edge_def)
    moreover have "rest_cost best x \<le> rest_cost best e'" if "rest_cost best x < rest_cost best e" "e' \<in> set es" for e'
      using that e(3) by (meson less_imp_le order_trans)
    ultimately show ?thesis using e(1,3) by (cases "rest_cost best x < rest_cost best e") (auto simp: not_less)
  qed
qed simp

definition priced :: "plan_best \<Rightarrow> plan_state \<Rightarrow> bool" where
  "priced best st \<longleftrightarrow>
     (if fst st = n then best st = Some ((0, 0, 0, 0), None)
      else \<exists>e \<in> set (cand st). best st = Some (rest_cost best e, Some (fst e, edge_next e)) \<and> (\<forall>e' \<in> set (cand st). rest_cost best e \<le> rest_cost best e'))"

text \<open>Pricing the states of one position leaves the later positions alone, so their prices stay good.\<close>

lemma priced_later:
  assumes "\<And>x. p < fst x \<Longrightarrow> best' x = best x" and "best' st = best st" and "priced best st" and "p \<le> fst st" and "fst st \<le> n"
  shows "priced best' st"
proof (cases "fst st = n")
  case True
  then show ?thesis using assms(2,3) by (simp add: priced_def)
next
  case False
  have "rest_cost best' e = rest_cost best e" if "e \<in> set (cand st)" for e
    using advance [OF _ that] False assms(1,4,5) by (metis le_neq_implies_less le_less_trans)
  then show ?thesis using assms(2,3) False by (auto simp: priced_def)
qed

lemma price_position:
  assumes "\<And>st. st \<in> set sts \<Longrightarrow> fst st = p \<and> pg_edges g st = Some (cand st)" and "p < n"
  shows "(\<forall>x. x \<notin> set sts \<longrightarrow> fold (price g) sts best x = best x) \<and> (\<forall>st \<in> set sts. priced (fold (price g) sts best) st)"
  using assms(1)
proof (induction sts rule: rev_induct)
  case (snoc s sts)
  define b where "b = fold (price g) sts best"
  have ih: "\<forall>x. x \<notin> set sts \<longrightarrow> b x = best x" "\<forall>st \<in> set sts. priced b st" using snoc by (auto simp: b_def)
  have s: "fst s = p" "pg_edges g s = Some (cand s)" using snoc.prems by auto
  obtain e where e: "e \<in> set (cand s)" "price g s b = b(s \<mapsto> (rest_cost b e, Some (fst e, edge_next e)))" "\<forall>e' \<in> set (cand s). rest_cost b e \<le> rest_cost b e'"
    using choose_least [OF some_edge, of s b] s(2) by (auto simp: price_def)
  have same: "rest_cost (price g s b) e' = rest_cost b e'" if "e' \<in> set (cand s)" for e'
    using advance [OF _ that] s(1) assms(2) by (auto simp: e(2))
  have "priced (price g s b) s" using e same s(1) assms(2) by (auto simp: priced_def)
  moreover have "priced (price g s b) st" if "st \<in> set sts" "st \<noteq> s" for st
    by (rule priced_later [of p _ b]) (use that snoc.prems ih(2) s(1) assms(2) e(2) in auto)
  moreover have "price g s b x = b x" if "x \<noteq> s" for x using that e(2) by simp
  ultimately show ?case using ih(1) unfolding b_def by auto
qed simp

lemma backward_priced:
  assumes "covered n g" and "st \<in> pg_seen g"
  shows "priced (backward_pass g n) st"
proof -
  have sh: "shaped g" using assms(1) by (simp add: covered_def)
  define b0 where "b0 = fold (\<lambda>st best. best(st \<mapsto> ((0, 0, 0, 0), None))) (pg_by_position g ! n) (Map.empty :: plan_best)"
  have b0: "b0 st = Some ((0, 0, 0, 0), None)" if "st \<in> set (pg_by_position g ! n)" for st
  proof -
    have "fold (\<lambda>st best. best(st \<mapsto> ((0, 0, 0, 0), None))) xs b st = (if st \<in> set xs then Some ((0, 0, 0, 0), None) else b st)" for xs and b :: plan_best
      by (induction xs arbitrary: b) auto
    then show ?thesis using that by (simp add: b0_def)
  qed
  define bk where "bk k = fold (\<lambda>pos. fold (price g) (pg_by_position g ! pos)) (rev [n - k..<n]) b0" for k
  have "k \<le> n \<Longrightarrow> \<forall>st \<in> pg_seen g. n - k \<le> fst st \<longrightarrow> priced (bk k) st" for k
  proof (induction k)
    case 0
    then show ?case using b0 shaped_seen [OF sh] by (auto simp: bk_def priced_def)
  next
    case (Suc k)
    let ?p = "n - Suc k"
    have p: "?p < n" "Suc ?p = n - k" using Suc.prems by auto
    have "[?p..<n] = ?p # [n - k..<n]" using p by (simp add: upt_conv_Cons)
    then have step: "bk (Suc k) = fold (price g) (pg_by_position g ! ?p) (bk k)" by (simp add: bk_def)
    have all: "fst st = ?p \<and> pg_edges g st = Some (cand st)" if "st \<in> set (pg_by_position g ! ?p)" for st
    proof -
      have f: "fst st = ?p" using sh that p(1) by (simp add: shaped_def)
      then have "st \<in> pg_seen g" using shaped_seen [OF sh] that p(1) by simp
      then show ?thesis using assms(1) f p(1) by (auto simp: covered_def expanded_def)
    qed
    note pp = price_position [OF all p(1), where best = "bk k"]
    show ?case
    proof (intro ballI impI)
      fix st assume st: "st \<in> pg_seen g" "?p \<le> fst st"
      have n: "fst st \<le> n" "st \<in> set (pg_by_position g ! fst st)" using st(1) shaped_seen [OF sh] by simp_all
      show "priced (bk (Suc k)) st"
      proof (cases "fst st = ?p")
        case True
        then show ?thesis using pp n(2) unfolding step by simp
      next
        case False
        have later: "bk (Suc k) x = bk k x" if "?p < fst x" for x using pp all [of x] that unfolding step by (metis less_irrefl)
        have "priced (bk k) st" using Suc.IH Suc.prems st False by auto
        then show ?thesis using priced_later [of ?p "bk (Suc k)" "bk k" st] later st(2) n(1) False by simp
      qed
    qed
  qed
  from this [of n] show ?thesis using assms(2) by (simp add: bk_def backward_pass_def b0_def)
qed

text \<open>The tokens read off the priced graph are those of a walk of least cost.\<close>

lemma read_walk:
  assumes "covered n g"
  shows "st \<in> pg_seen g \<Longrightarrow> n - fst st \<le> k \<Longrightarrow>
    walk cand n st (read_plan k (backward_pass g n) n (Some st)) (fst (the (backward_pass g n st)))
    \<and> (\<forall>ts c. walk cand n st ts c \<longrightarrow> fst (the (backward_pass g n st)) \<le> c)"
proof (induction k arbitrary: st)
  case (0 st)
  moreover have "shaped g" using assms by (simp add: covered_def)
  ultimately have "fst st = n" using shaped_seen [of g st] by simp
  then show ?case using backward_priced [OF assms 0(1)] by (auto simp: priced_def intro: walk_end elim: walk_elim)
next
  case (Suc k st)
  let ?best = "backward_pass g n"
  have p: "priced ?best st" by (rule backward_priced [OF assms Suc.prems(1)])
  show ?case
  proof (cases "fst st = n")
    case True
    then show ?thesis using p by (auto simp: priced_def intro: walk_end elim: walk_elim)
  next
    case False
    moreover have "shaped g" using assms by (simp add: covered_def)
    ultimately have lt: "fst st < n" using Suc.prems(1) shaped_seen [of g st] by simp
    from lt obtain e where e: "e \<in> set (cand st)" "?best st = Some (rest_cost ?best e, Some (fst e, edge_next e))"
      "\<forall>e' \<in> set (cand st). rest_cost ?best e \<le> rest_cost ?best e'" using p False by (auto simp: priced_def)
    have nxt: "edge_next e' \<in> pg_seen g" "n - fst (edge_next e') \<le> k" if "e' \<in> set (cand st)" for e'
      using assms Suc.prems lt that advance [OF lt that] by (auto simp: covered_def expanded_def)
    note ih = Suc.IH [OF nxt]
    have "walk cand n st (fst e @ read_plan k ?best n (Some (edge_next e))) (rest_cost ?best e)"
      using walk_step [of st n e cand, OF lt e(1)] ih [OF e(1) e(1)] by blast
    moreover have "rest_cost ?best e \<le> c" if w: "walk cand n st ts c" for ts c
    proof (rule walk_elim [OF w])
      fix e' ts' c' assume e': "e' \<in> set (cand st)" "walk cand n (edge_next e') ts' c'" "c = edge_cost e' c'"
      then have "fst (the (?best (edge_next e'))) \<le> c'" using ih [OF e'(1) e'(1)] by blast
      from edge_cost_mono [OF this, of e'] show ?thesis using e(3) e'(1,3) by (meson order_trans)
    qed (use lt in simp)
    ultimately show ?thesis using e(2) lt by simp
  qed
qed

end

lemma run_from_facts:
  assumes "utf8_run_from ms xs data n = (data', n')"
  shows "n \<le> n' \<and> n' \<le> n + length xs \<and> data' = data @ utf8_encode (take (n' - n) xs) \<and> (\<forall>cp \<in> set (take (n' - n) xs). \<not> supported ms cp)
    \<and> (length data \<le> 32 \<longrightarrow> (\<forall>cp \<in> set xs. length (utf8_char cp) \<le> 4) \<longrightarrow> length data' \<le> 32)"
  using assms
proof (induction ms xs data n rule: utf8_run_from.induct)
  case (2 ms cp cps data n)
  note P = "2.prems"
  consider "supported ms cp \<or> (data \<noteq> [] \<and> length data + length (utf8_char cp) > UTF8_RUN_MAX_BYTES)"
    | "\<not> supported ms cp" "\<not> (data \<noteq> [] \<and> length data + length (utf8_char cp) > UTF8_RUN_MAX_BYTES)" "length (data @ utf8_char cp) = UTF8_RUN_MAX_BYTES"
    | "\<not> supported ms cp" "\<not> (data \<noteq> [] \<and> length data + length (utf8_char cp) > UTF8_RUN_MAX_BYTES)" "length (data @ utf8_char cp) \<noteq> UTF8_RUN_MAX_BYTES" by blast
  then show ?case
  proof cases
    case 1
    then show ?thesis using P by (auto simp: utf8_encode_def split: if_splits)
  next
    case 2
    then have "data' = data @ utf8_char cp" "n' = n + 1" using P by auto
    then show ?thesis using 2 by (simp add: utf8_encode_def UTF8_RUN_MAX_BYTES_def)
  next
    case 3
    then have r: "utf8_run_from ms cps (data @ utf8_char cp) (n + 1) = (data', n')" using P by auto
    note ih = "2.IH" [OF 3(1,2) _ r]
    have "n + 1 \<le> n' \<and> n' \<le> n + 1 + length cps \<and> data' = (data @ utf8_char cp) @ utf8_encode (take (n' - (n + 1)) cps) \<and> (\<forall>cp \<in> set (take (n' - (n + 1)) cps). \<not> supported ms cp)
      \<and> (length (data @ utf8_char cp) \<le> 32 \<longrightarrow> (\<forall>cp \<in> set cps. length (utf8_char cp) \<le> 4) \<longrightarrow> length data' \<le> 32)" by (rule ih [OF 3(3)])
    moreover from this have "n' - n = Suc (n' - (n + 1))" by linarith
    ultimately show ?thesis using 3 by (auto simp: utf8_encode_def UTF8_RUN_MAX_BYTES_def)
  qed
qed (auto simp: utf8_encode_def)

lemma utf8_char_short: "length (utf8_char cp) \<le> 4"
  by (auto simp: utf8_char_def)

lemma run_facts:
  assumes "utf8_run ms cps pos = (data, n)" and "pos < length cps"
  shows "0 < n" "pos + n \<le> length cps" "data = utf8_encode (take n (drop pos cps))" "data \<noteq> []" "length data \<le> 32"
    "\<not> supported ms (cps ! pos) \<Longrightarrow> cp \<in> set (take n (drop pos cps)) \<Longrightarrow> \<not> supported ms cp"
proof -
  obtain d k where dk: "utf8_run_from ms (drop pos cps) [] 0 = (d, k)" by fastforce
  note f = run_from_facts [OF dk]
  have one: "take 1 (drop pos cps) = [cps ! pos]" using assms(2) by (simp add: take_Suc hd_drop_conv_nth)
  have dn: "(data, n) = (if k = 0 then (utf8_char (cps ! pos), 1) else (d, k))" using assms(1) dk f by (auto simp: utf8_run_def utf8_encode_def)
  show "0 < n" "pos + n \<le> length cps" using dn f assms(2) by (auto split: if_splits)
  show d: "data = utf8_encode (take n (drop pos cps))" using dn f one by (auto simp: utf8_encode_def split: if_splits)
  have "length (utf8_char (cps ! pos)) \<le> 32" using utf8_char_short [of "cps ! pos"] by simp
  moreover have "length d \<le> 32"
  proof -
    from f have "length ([] :: bytes) \<le> 32 \<longrightarrow> (\<forall>cp \<in> set (drop pos cps). length (utf8_char cp) \<le> 4) \<longrightarrow> length d \<le> 32" by blast
    then show ?thesis using utf8_char_short by simp
  qed
  ultimately show "length data \<le> 32" using dn by (auto split: if_splits)
  have "take n (drop pos cps) \<noteq> []" using \<open>0 < n\<close> assms(2) by simp
  then show "data \<noteq> []" using d by (cases "take n (drop pos cps)") (simp_all add: utf8_encode_def)
  show "\<not> supported ms (cps ! pos) \<Longrightarrow> cp \<in> set (take n (drop pos cps)) \<Longrightarrow> \<not> supported ms cp" using dn f one by (auto split: if_splits)
qed

lemma symbol_edge:
  assumes "e \<in> set (symbol_edges ms tg sh cp pos targets)"
  obtains target ctx prefix pbits sw tokens bits s hit where "(target, ctx, prefix, pbits, sw) \<in> set targets"
    and "symbol_option (the (by_id ms target)) cp ctx (pos \<in> set sh) = Some (tokens, bits, s, hit)"
    and "e = (prefix @ (if pos \<in> set tg then ToggleCase # tokens else tokens), bits + (if pos \<in> set tg then BITS_TOGGLE_CASE else 0) + pbits, sw,
         (if hit then 1 else 0), (pos + 1, target, Symbol s))"
  using assms by (force simp: symbol_edges_def List.map_filter_def Let_def split: option.splits)

definition no_symbol :: "ModelSet \<Rightarrow> nat list \<Rightarrow> nat list \<Rightarrow> nat \<Rightarrow> nat option \<Rightarrow> ustr \<Rightarrow> nat \<Rightarrow> nat \<Rightarrow> pctx \<Rightarrow> bool" where
  "no_symbol ms tg sh a b cps pos lang ctx \<longleftrightarrow>
     PUNCTUATION_ID (cps ! pos) = None \<and> symbol_edges ms tg sh (cps ! pos) pos (plan_targets ms a b lang ctx) = []"

lemma candidate_cases:
  assumes "e \<in> set (candidates ms a b tg sh cps (pos, lang, ctx))"
  shows "(\<exists>k. PUNCTUATION_ID (cps ! pos) = Some k \<and> e = ([Punct k], 8, 0, 0, (pos + 1, lang, context_after_punctuation (cps ! pos) ctx)))
    \<or> e \<in> set (symbol_edges ms tg sh (cps ! pos) pos (plan_targets ms a b lang ctx))
    \<or> (\<exists>data n. utf8_run ms cps pos = (data, n) \<and> e = ([Utf8Run data], BITS_UTF8_RUN_OVERHEAD + 8 * length data, 0, 0, (pos + n, lang, Start))
         \<and> no_symbol ms tg sh a b cps pos lang ctx)"
proof -
  define se where "se = symbol_edges ms tg sh (cps ! pos) pos (plan_targets ms a b lang ctx)"
  obtain data n where r: "utf8_run ms cps pos = (data, n)" by fastforce
  from assms show ?thesis
    unfolding candidates_def Let_def prod.case no_symbol_def se_def [symmetric] r
    by (cases "PUNCTUATION_ID (cps ! pos)"; cases "se = []") simp_all
qed

interpretation planner: plan_dag "candidates ms a b tg sh cps" "length cps" "(0, a, Start)" for ms a b tg sh cps
proof
  fix st e assume st: "fst st < length cps" "e \<in> set (candidates ms a b tg sh cps st)"
  obtain pos lang ctx where s: "st = (pos, lang, ctx)" by (cases st)
  consider k where "e = ([Punct k], 8, 0, 0, (pos + 1, lang, context_after_punctuation (cps ! pos) ctx))"
    | "e \<in> set (symbol_edges ms tg sh (cps ! pos) pos (plan_targets ms a b lang ctx))"
    | data n where "utf8_run ms cps pos = (data, n)" "e = ([Utf8Run data], BITS_UTF8_RUN_OVERHEAD + 8 * length data, 0, 0, (pos + n, lang, Start))"
    using candidate_cases [OF st(2) [unfolded s]] by blast
  then show "fst st < fst (edge_next e) \<and> fst (edge_next e) \<le> length cps"
  proof cases
    case 2
    then show ?thesis using st(1) s by (elim symbol_edge) (simp add: edge_next_def)
  next
    case (3 data n)
    then show ?thesis using run_facts(1,2) [OF 3(1)] st(1) s by (simp add: edge_next_def)
  qed (use st(1) s in \<open>simp add: edge_next_def\<close>)
next
  fix st show "candidates ms a b tg sh cps st \<noteq> []" by (cases st) (auto simp: candidates_def Let_def split: prod.splits)
qed simp

lemma plan_walk:
  assumes "case_plan ms cps = (tg, sh)" and "plan ms cps a b = (cost, tokens)"
  shows "walk (candidates ms a b tg sh cps) (length cps) (0, a, Start) tokens cost"
    and "walk (candidates ms a b tg sh cps) (length cps) (0, a, Start) ts c \<Longrightarrow> cost \<le> c"
proof -
  let ?g = "forward_pass (candidates ms a b tg sh cps) (length cps) (0, a, Start)"
  note cov = planner.forward_covers [of ms a b tg sh cps]
  have s: "(0, a, Start) \<in> pg_seen ?g" using cov by (simp add: planner.covered_def)
  have "length cps - fst (0, a, Start) \<le> length cps" by simp
  note r = planner.read_walk [OF cov s this]
  have c: "cost = fst (the (backward_pass ?g (length cps) (0, a, Start)))"
    using assms planner.backward_priced [OF cov s] by (auto simp: plan_def Let_def planner.priced_def split: if_splits)
  have t: "tokens = read_plan (length cps) (backward_pass ?g (length cps)) (length cps) (Some (0, a, Start))" using assms by (simp add: plan_def Let_def)
  show "walk (candidates ms a b tg sh cps) (length cps) (0, a, Start) tokens cost" unfolding c t using r by blast
  show "walk (candidates ms a b tg sh cps) (length cps) (0, a, Start) ts c \<Longrightarrow> cost \<le> c" unfolding c using r by blast
qed

section \<open>The case plan says the case of every letter\<close>

definition reachable_caps :: "(case_cost option \<times> case_cost option) \<Rightarrow> bool \<Rightarrow> bool" where
  "reachable_caps p st \<longleftrightarrow> (if st then snd p else fst p) \<noteq> None"

definition case_cell :: "bool \<Rightarrow> case_cost option \<times> case_cost option \<Rightarrow> bool \<Rightarrow> (case_cost \<times> decision) option" where
  "case_cell d prev st = case_best (case_move d (fst prev) False st) (case_move d (snd prev) True st)"

lemma case_step_cells:
  assumes "case_step d prev = (nxt, dec)"
  shows "(if st then snd nxt else fst nxt) = map_option fst (case_cell d prev st)" "(if st then snd dec else fst dec) = map_option snd (case_cell d prev st)"
  using assms by (auto simp: case_step_def Let_def case_cell_def)

lemma case_move_Some: "case_move d c s st = Some z \<Longrightarrow> snd z = (s, s \<noteq> st, d \<noteq> st) \<and> c \<noteq> None"
  by (auto simp: case_move_def Let_def)

lemma case_cell_Some: "case_cell d prev st = Some z \<Longrightarrow> \<exists>s0. snd z = (s0, s0 \<noteq> st, d \<noteq> st) \<and> reachable_caps prev s0"
proof -
  assume "case_cell d prev st = Some z"
  then consider "case_move d (fst prev) False st = Some z" | "case_move d (snd prev) True st = Some z"
    by (auto simp: case_cell_def case_best_def split: option.splits if_splits)
  then show ?thesis
  proof cases
    case 1
    then show ?thesis using case_move_Some [OF 1] by (intro exI [of _ False]) (auto simp: reachable_caps_def)
  next
    case 2
    then show ?thesis using case_move_Some [OF 2] by (intro exI [of _ True]) (auto simp: reachable_caps_def)
  qed
qed

lemma case_step_decision:
  assumes "case_step d prev = (nxt, dec)" and "reachable_caps nxt st"
  shows "\<exists>s0. decision_for dec st = (s0, s0 \<noteq> st, d \<noteq> st) \<and> reachable_caps prev s0"
proof -
  note c = case_step_cells [OF assms(1), of st]
  obtain z where z: "case_cell d prev st = Some z" using assms(2) c(1) by (cases "case_cell d prev st") (auto simp: reachable_caps_def)
  then have "decision_for dec st = snd z" using c(2) by (simp add: decision_for_def)
  then show ?thesis using case_cell_Some [OF z] by simp
qed

lemma case_step_reachable:
  assumes "case_step d prev = (nxt, dec)" and "reachable_caps prev s"
  shows "reachable_caps nxt st"
proof -
  have "case_best x y = None \<longleftrightarrow> x = None \<and> y = None" for x y by (cases x; cases y) (simp_all add: case_best_def del: not_None_eq)
  then have "case_cell d prev st \<noteq> None" using assms(2) by (cases s) (simp_all add: case_cell_def case_move_def reachable_caps_def)
  then show ?thesis unfolding reachable_caps_def using case_step_cells(1) [OF assms(1), of st] by simp
qed

primrec back_state :: "decisions list \<Rightarrow> bool \<Rightarrow> bool" where
  "back_state [] st = st"
| "back_state (d # ds) st = back_state ds (fst (decision_for d st))"

lemma backtrack_append:
  "length ps = length ds \<Longrightarrow> case_backtrack (ps @ qs) (ds @ es) st =
    (fst (case_backtrack ps ds st) @ fst (case_backtrack qs es (back_state ds st)), snd (case_backtrack ps ds st) @ snd (case_backtrack qs es (back_state ds st)))"
  by (induction ps ds arbitrary: st rule: list_induct2) (simp_all add: Let_def)

lemma backtrack_subset: "set (fst (case_backtrack ps ds st)) \<subseteq> set ps \<and> set (snd (case_backtrack ps ds st)) \<subseteq> set ps
    \<and> (distinct ps \<longrightarrow> distinct (fst (case_backtrack ps ds st)))"
proof (induction ps arbitrary: ds st)
  case (Cons p ps)
  show ?case
  proof (cases ds)
    case (Cons d es)
    with Cons.IH [of es "fst (decision_for d st)"] show ?thesis by (auto simp: Let_def)
  qed simp
qed simp

lemma case_search_length: "case_search ds prev = (final, decs) \<Longrightarrow> length decs = length ds"
  by (induction ds arbitrary: prev decs) (auto split: prod.splits)

definition caps_upto :: "nat list \<Rightarrow> nat \<Rightarrow> bool" where
  "caps_upto tg p \<longleftrightarrow> odd (length (filter (\<lambda>q. q \<le> p) tg))"

lemma search_plan:
  "case_search ds prev = (final, decs) \<Longrightarrow> reachable_caps final st \<Longrightarrow> length ps = length ds \<Longrightarrow> sorted_wrt (<) ps \<Longrightarrow>
    \<exists>s0. reachable_caps prev s0 \<and> back_state (rev decs) st = s0
      \<and> (\<forall>i < length ds. ps ! i \<in> set (snd (case_backtrack (rev ps) (rev decs) st))
            \<longleftrightarrow> (ds ! i \<noteq> (s0 \<noteq> caps_upto (fst (case_backtrack (rev ps) (rev decs) st)) (ps ! i))))"
proof (induction ds arbitrary: prev decs ps)
  case Nil
  then show ?case by auto
next
  case (Cons d ds)
  obtain nxt dec where step: "case_step d prev = (nxt, dec)" by (cases "case_step d prev")
  obtain decs' where bk: "case_search ds nxt = (final, decs')" "decs = dec # decs'" using Cons.prems(1) step by (auto split: prod.splits)
  obtain p qs where ps: "ps = p # qs" "length qs = length ds" using Cons.prems(3) by (cases ps) auto
  have sorted: "sorted_wrt (<) qs" "\<And>q. q \<in> set qs \<Longrightarrow> p < q" using Cons.prems(4) ps by auto
  define tg sh where "tg = fst (case_backtrack (rev qs) (rev decs') st)" and "sh = snd (case_backtrack (rev qs) (rev decs') st)"
  obtain s1 where s1: "reachable_caps nxt s1" "back_state (rev decs') st = s1" "\<And>i. i < length ds \<Longrightarrow> qs ! i \<in> set sh \<longleftrightarrow> (ds ! i \<noteq> (s1 \<noteq> caps_upto tg (qs ! i)))"
    using Cons.IH [OF bk(1) Cons.prems(2) ps(2) sorted(1)] by (auto simp: tg_def sh_def)
  obtain s0 where s0: "decision_for dec s1 = (s0, s0 \<noteq> s1, d \<noteq> s1)" "reachable_caps prev s0" using case_step_decision [OF step s1(1)] by blast
  have len: "length (rev qs) = length (rev decs')" using case_search_length [OF bk(1)] ps(2) by simp
  have bt: "case_backtrack (rev ps) (rev decs) st = (tg @ (if s0 \<noteq> s1 then [p] else []), sh @ (if d \<noteq> s1 then [p] else []))"
    using backtrack_append [OF len, of "[p]" "[dec]" st] s0(1) s1(2) by (simp add: ps(1) bk(2) tg_def sh_def)
  have sub: "set tg \<subseteq> set qs" "set sh \<subseteq> set qs" using backtrack_subset [of "rev qs" "rev decs'" st] by (auto simp: tg_def sh_def)
  have bs: "back_state (ds1 @ [e]) x = fst (decision_for e (back_state ds1 x))" for ds1 e x by (induction ds1 arbitrary: x) simp_all
  have caps: "caps_upto (tg @ (if s0 \<noteq> s1 then [p] else [])) q \<longleftrightarrow> (caps_upto tg q \<noteq> (s0 \<noteq> s1))" if "p \<le> q" for q
    using that by (auto simp: caps_upto_def)
  have "\<not> q \<le> p" if "q \<in> set tg" for q using that sub(1) sorted(2) by (auto simp: not_le)
  then have none: "\<not> caps_upto tg p" by (simp add: caps_upto_def)
  have right: "ps ! i \<in> set (sh @ (if d \<noteq> s1 then [p] else [])) \<longleftrightarrow> ((d # ds) ! i \<noteq> (s0 \<noteq> caps_upto (tg @ (if s0 \<noteq> s1 then [p] else [])) (ps ! i)))"
    if i: "i < Suc (length ds)" for i
  proof (cases i)
    case 0
    have "p \<notin> set sh" using sub(2) sorted(2) by blast
    then show ?thesis using 0 caps [of p] none by (auto simp: ps(1))
  next
    case (Suc k)
    then have q: "qs ! k \<in> set qs" using i ps(2) by simp
    then have "qs ! k \<noteq> p" "p \<le> qs ! k" using sorted(2) by fastforce+
    then show ?thesis using Suc s1(3) [of k] caps [of "qs ! k"] i by (auto simp: ps(1))
  qed
  show ?case
  proof (intro exI [of _ s0] conjI allI impI)
    show "reachable_caps prev s0" by (rule s0(2))
    show "back_state (rev decs) st = s0" by (simp add: bk(2) bs s1(2) s0(1))
    fix i assume "i < length (d # ds)"
    then show "ps ! i \<in> set (snd (case_backtrack (rev ps) (rev decs) st))
      \<longleftrightarrow> ((d # ds) ! i \<noteq> (s0 \<noteq> caps_upto (fst (case_backtrack (rev ps) (rev decs) st)) (ps ! i)))"
      unfolding bt fst_conv snd_conv by (intro right) simp
  qed
qed

lemma case_positions_sorted: "sorted_wrt (<) (map fst (case_positions ms cps))"
  by (simp add: case_positions_def comp_def sorted_wrt_filter)

lemma case_positions_mem: "(p, w) \<in> set (case_positions ms cps) \<longleftrightarrow> p < length cps \<and> case_of ms (cps ! p) = Some w"
  by (auto simp: case_positions_def)

text \<open>Where a letter needs a case, a shift is planned exactly when the caps state in force is the wrong one.\<close>

lemma case_plan_right:
  assumes "case_plan ms cps = (tg, sh)"
  shows "distinct tg" and "p \<in> set tg \<union> set sh \<Longrightarrow> p < length cps \<and> case_of ms (cps ! p) \<noteq> None"
    and "p < length cps \<Longrightarrow> case_of ms (cps ! p) = Some w \<Longrightarrow> p \<in> set sh \<longleftrightarrow> (w \<noteq> caps_upto tg p)"
proof -
  let ?m = "case_positions ms cps"
  have "distinct tg \<and> (\<forall>p \<in> set tg \<union> set sh. p \<in> fst ` set ?m) \<and> (\<forall>(p, w) \<in> set ?m. p \<in> set sh \<longleftrightarrow> (w \<noteq> caps_upto tg p))"
  proof (cases "?m = []")
    case True
    then show ?thesis using assms by (simp add: case_plan_def Let_def)
  next
    case False
    obtain final decs where s: "case_search (map snd ?m) (Some (0, 0, 0), None) = (final, decs)" by fastforce
    define st where "st = (\<not> (snd final = None \<or> the (fst final) < the (snd final)))"
    have bt: "case_backtrack (rev (map fst ?m)) (rev decs) st = (tg, sh)" using assms False s by (simp add: case_plan_def Let_def st_def)
    have "reachable_caps (fst (case_search ds prev)) x" if "reachable_caps prev y" "ds \<noteq> []" for ds prev x y
      using that
    proof (induction ds arbitrary: prev y)
      case (Cons d ds)
      obtain nxt dec where n: "case_step d prev = (nxt, dec)" by (cases "case_step d prev")
      note r = case_step_reachable [OF n Cons.prems(1)]
      have "fst (case_search (d # ds) prev) = fst (case_search ds nxt)" by (simp add: n split: prod.splits)
      then show ?case using r Cons.IH [OF r [of x]] by (cases "ds = []") simp_all
    qed simp
    from this [of "(Some (0, 0, 0), None)" False "map snd ?m" st] have "reachable_caps final st" using False s by (simp add: reachable_caps_def)
    from search_plan [OF s this, of "map fst ?m"] case_positions_sorted
    obtain s0 where s0: "reachable_caps (Some (0, 0, 0), None) s0" "\<And>i. i < length ?m \<Longrightarrow> fst (?m ! i) \<in> set sh \<longleftrightarrow> (snd (?m ! i) \<noteq> (s0 \<noteq> caps_upto tg (fst (?m ! i))))"
      by (auto simp: bt)
    have "\<not> s0" using s0(1) by (cases s0) (simp_all add: reachable_caps_def)
    moreover have "distinct (map fst ?m)" using case_positions_sorted strict_sorted_iff by blast
    moreover have "p \<in> set sh \<longleftrightarrow> (w \<noteq> caps_upto tg p)" if pw: "(p, w) \<in> set ?m" "\<not> s0" for p w
    proof -
      obtain i where "i < length ?m" "?m ! i = (p, w)" using pw(1) by (auto simp: in_set_conv_nth)
      then show ?thesis using s0(2) [of i] pw(2) by simp
    qed
    ultimately show ?thesis using backtrack_subset [of "rev (map fst ?m)" "rev decs" st] by (auto simp: bt)
  qed
  then have d: "distinct tg" "\<And>p. p \<in> set tg \<union> set sh \<Longrightarrow> p \<in> fst ` set ?m" "\<And>p w. (p, w) \<in> set ?m \<Longrightarrow> p \<in> set sh \<longleftrightarrow> (w \<noteq> caps_upto tg p)" by auto
  show "distinct tg" by (rule d(1))
  show "p \<in> set tg \<union> set sh \<Longrightarrow> p < length cps \<and> case_of ms (cps ! p) \<noteq> None" using d(2) [of p] case_positions_mem by fastforce
  show "p < length cps \<Longrightarrow> case_of ms (cps ! p) = Some w \<Longrightarrow> p \<in> set sh \<longleftrightarrow> (w \<noteq> caps_upto tg p)" using d(3) case_positions_mem by blast
qed

section \<open>A plan decodes to the text\<close>

definition language_ok :: "Model \<Rightarrow> bool" where
  "language_ok m \<longleftrightarrow> md_global_id m \<le> 6 \<and> length (md_primary m) \<le> 32 \<and> length (md_extension m) \<le> 32
     \<and> md_primary_id m = enum_dict (md_primary m) \<and> md_extension_id m = enum_dict (md_extension m)
     \<and> dom (md_top4 m) = set (md_primary m) \<union> set (md_extension m) \<and> (\<forall>ctx. length (predictions m ctx) \<le> 4)
     \<and> (\<forall>u l. md_upper_to_lower m u = Some l \<longrightarrow> md_lower_to_upper m l = Some u \<and> md_top4 m l \<noteq> None)"

definition models_ok :: "ModelSet \<Rightarrow> bool" where
  "models_ok ms \<longleftrightarrow> distinct (map md_global_id (ms_models ms)) \<and> (\<forall>m \<in> set (ms_models ms). language_ok m)
     \<and> (\<forall>m \<in> set (ms_models ms). \<forall>m' \<in> set (ms_models ms). \<forall>cp s s'. normalize_cp m cp = Some s \<longrightarrow> normalize_cp m' cp = Some s' \<longrightarrow> (s = cp \<longleftrightarrow> s' = cp))
     \<and> (\<forall>cp \<in> set PUNCTUATION. case_of ms cp = None)"

lemma enum_dict_Some: "enum_dict xs x = Some k \<Longrightarrow> k < length xs \<and> xs ! k = x"
  by (auto simp: enum_dict_def set_zip dest!: map_of_SomeD)

lemma enum_dict_None: "enum_dict xs x = None \<longleftrightarrow> x \<notin> set xs"
  by (simp add: enum_dict_def map_of_eq_None_iff flip: set_map)

lemma find_SomeD: "find P xs = Some x \<Longrightarrow> x \<in> set xs \<and> P x"
  by (auto simp: find_Some_iff)

lemma by_id_mem: "models_ok ms \<Longrightarrow> by_id ms k = Some m \<longleftrightarrow> m \<in> set (ms_models ms) \<and> md_global_id m = k"
proof -
  assume "models_ok ms"
  then have "distinct (map fst (rev (map (\<lambda>m. (md_global_id m, m)) (ms_models ms))))" by (simp add: models_ok_def comp_def flip: rev_map)
  from map_of_eq_Some_iff [OF this, of k m] show ?thesis by (auto simp: by_id_def)
qed

lemma normalize_listed:
  assumes "language_ok m" and "normalize_cp m cp = Some s"
  shows "s \<in> set (md_primary m) \<union> set (md_extension m)" and "s \<noteq> cp \<Longrightarrow> md_lower_to_upper m s = Some cp"
  using assms by (auto simp: normalize_cp_def language_ok_def split: if_splits)

lemma case_of_Some:
  assumes "models_ok ms" and "case_of ms cp = Some w" and "m \<in> set (ms_models ms)" and "normalize_cp m cp = Some s"
  shows "w \<longleftrightarrow> s \<noteq> cp"
proof -
  obtain m' where m': "find (\<lambda>m. case normalize_cp m cp of None \<Rightarrow> False | Some s \<Rightarrow> md_lower_to_upper m s \<noteq> None) (ms_models ms) = Some m'" "w = (the (normalize_cp m' cp) \<noteq> cp)"
    using assms(2) by (auto simp: case_of_def split: option.splits)
  then obtain s' where "m' \<in> set (ms_models ms)" "normalize_cp m' cp = Some s'" by (auto dest!: find_SomeD split: option.splits)
  moreover from this have "s = cp \<longleftrightarrow> s' = cp" using assms(1,3,4) unfolding models_ok_def by blast
  ultimately show ?thesis using m'(2) by simp
qed

lemma case_of_model:
  assumes "case_of ms cp \<noteq> None"
  obtains m s where "m \<in> set (ms_models ms)" and "normalize_cp m cp = Some s" and "md_lower_to_upper m s \<noteq> None"
  using assms by (auto simp: case_of_def dest!: find_SomeD split: option.splits)

lemma case_of_None: "case_of ms cp = None \<Longrightarrow> m \<in> set (ms_models ms) \<Longrightarrow> normalize_cp m cp = Some s \<Longrightarrow> md_lower_to_upper m s = None"
  by (fastforce simp: case_of_def find_None_iff split: option.splits)

text \<open>The right case comes out, given the caps state and the shift of the case plan.\<close>

lemma emit_right:
  assumes ok: "models_ok ms" and m: "m \<in> set (ms_models ms)" "normalize_cp m cp = Some s"
    and shift: "ds_shift st \<Longrightarrow> md_lower_to_upper m s \<noteq> None"
    and plan: "\<And>w. case_of ms cp = Some w \<Longrightarrow> ds_shift st \<longleftrightarrow> (w \<noteq> ds_caps st)" "case_of ms cp = None \<Longrightarrow> \<not> ds_shift st"
  shows "emit m s st = Inr (st\<lparr>ds_out := ds_out st @ [cp], ds_context := Symbol s, ds_shift := False\<rparr>)"
proof -
  have lang: "language_ok m" using ok m(1) by (simp add: models_ok_def)
  note up = normalize_listed(2) [OF lang m(2)]
  show ?thesis
  proof (cases "case_of ms cp")
    case None
    then have "md_lower_to_upper m s = None" using case_of_None m by blast
    then show ?thesis using up plan(2) None by (cases "s = cp") (auto simp: emit_def)
  next
    case (Some w)
    then have "w \<longleftrightarrow> s \<noteq> cp" "ds_shift st \<longleftrightarrow> (w \<noteq> ds_caps st)" using case_of_Some [OF ok Some m] plan(1) by auto
    then show ?thesis using up shift by (cases "s = cp") (auto simp: emit_def Let_def)
  qed
qed

definition caps_before :: "nat list \<Rightarrow> nat \<Rightarrow> bool" where
  "caps_before tg pos \<longleftrightarrow> odd (length (filter (\<lambda>q. q < pos) tg))"

lemma caps_Suc: "caps_before tg (Suc pos) = caps_upto tg pos"
  by (simp add: caps_before_def caps_upto_def less_Suc_eq_le)

lemma caps_upto_toggle:
  assumes "distinct tg"
  shows "caps_upto tg pos = (caps_before tg pos \<noteq> (pos \<in> set tg))"
  using assms by (induction tg) (auto simp: caps_upto_def caps_before_def le_less)

lemma caps_run: "(\<And>q. pos \<le> q \<Longrightarrow> q < pos + n \<Longrightarrow> q \<notin> set tg) \<Longrightarrow> caps_before tg (pos + n) = caps_before tg pos"
proof -
  assume q: "\<And>q. pos \<le> q \<Longrightarrow> q < pos + n \<Longrightarrow> q \<notin> set tg"
  have "x < pos + n \<longleftrightarrow> x < pos" if "x \<in> set tg" for x using that q [of x] by (meson not_less trans_less_add1)
  then have "filter (\<lambda>q. q < pos + n) tg = filter (\<lambda>q. q < pos) tg" by (intro filter_cong) auto
  then show ?thesis by (simp add: caps_before_def)
qed

text \<open>The state of a decoder that has read the tokens of the first \<open>pos\<close> characters.\<close>

definition decoded_upto :: "nat list \<Rightarrow> ustr \<Rightarrow> plan_state \<Rightarrow> decode_state" where
  "decoded_upto tg cps st =
     (case st of (pos, lang, ctx) \<Rightarrow> \<lparr>ds_current = lang, ds_context = ctx, ds_shift = False, ds_caps = caps_before tg pos, ds_out = take pos cps\<rparr>)"

lemma apply_append: "apply_tokens ms a b (xs @ ys) st = bind_res (apply_tokens ms a b xs st) (apply_tokens ms a b ys)"
proof (induction xs arbitrary: st)
  case (Cons x xs)
  then show ?case by (cases "apply_token ms a b x st") simp_all
qed simp

definition bits_of :: "token list \<Rightarrow> nat" where
  "bits_of ts = length (concat (map token_bits ts))"

lemma bits_of_simps [simp]: "bits_of [] = 0" "bits_of (t # ts) = length (token_bits t) + bits_of ts" "bits_of (xs @ ys) = bits_of xs + bits_of ys"
  by (simp_all add: bits_of_def)

lemma symbol_option_right:
  assumes ok: "models_ok ms" and m: "m \<in> set (ms_models ms)" and opt: "symbol_option m cp ctx shift = Some (tokens, bits, s, hit)"
    and st: "ds_current st = md_global_id m" "ds_context st = ctx" "\<not> ds_shift st"
    and plan: "\<And>w. case_of ms cp = Some w \<Longrightarrow> shift \<longleftrightarrow> (w \<noteq> ds_caps st)" "case_of ms cp = None \<Longrightarrow> \<not> shift"
  shows "apply_tokens ms a b tokens st = Inr (st\<lparr>ds_out := ds_out st @ [cp], ds_context := Symbol s\<rparr>)"
    and "list_all token_ok tokens" and "bits = bits_of tokens"
proof -
  have lang: "language_ok m" using ok m by (simp add: models_ok_def)
  have cur: "the (by_id ms (ds_current st)) = m" using by_id_mem [OF ok] st(1) m by (metis option.sel)
  have s: "normalize_cp m cp = Some s" using opt by (auto simp: symbol_option_def Let_def split: option.splits if_splits)
  have sh: "shift \<Longrightarrow> md_lower_to_upper m s \<noteq> None" using opt s by (auto simp: symbol_option_def split: if_splits)
  let ?st = "st\<lparr>ds_shift := shift\<rparr>" and ?row = "predictions m ctx" and ?pre = "if shift then [Shift] else []" and ?sb = "if shift then BITS_SHIFT else 0"
  have guard: "\<not> (shift \<and> md_lower_to_upper m s = None)" using sh by blast
  note opt' = opt [unfolded symbol_option_def s option.case if_not_P [OF guard] Let_def]
  have em: "emit m s ?st = Inr (st\<lparr>ds_out := ds_out st @ [cp], ds_context := Symbol s\<rparr>)"
    using emit_right [OF ok m s, of ?st] sh plan st(3) by simp
  obtain t where t: "tokens = ?pre @ [t]" "token_ok t" "apply_token ms a b t ?st = emit m s ?st" "bits = length (token_bits t) + ?sb"
  proof (cases "s \<in> set ?row")
    case True
    obtain k where k: "find (\<lambda>k. ?row ! k = s) [0..<length ?row] = Some k"
      using True by (cases "find (\<lambda>k. ?row ! k = s) [0..<length ?row]") (auto simp: find_None_iff in_set_conv_nth)
    have row: "k < length ?row" "?row ! k = s" using find_SomeD [OF k] by auto
    have k4: "k < 4" using row(1) lang by (meson language_ok_def le_trans less_le_trans)
    have "length (token_bits (Top4 k)) = TOP4_BITS ! k" using less_4_cases [OF k4] by (auto simp: TOP4_BITS_def)
    moreover have "tokens = ?pre @ [Top4 k]" "bits = TOP4_BITS ! k + ?sb" using opt' True k by simp_all
    moreover have "apply_token ms a b (Top4 k) ?st = emit m s ?st" using row cur st(2) by simp
    ultimately show thesis using that [of "Top4 k"] k4 by simp
  next
    case False
    show thesis
    proof (cases "md_primary_id m s")
      case (Some k)
      then have "k < length (md_primary m)" "md_primary m ! k = s" "k < 32" using lang enum_dict_Some [of "md_primary m" s k] by (auto simp: language_ok_def)
      moreover have "tokens = ?pre @ [Primary k]" "bits = 7 + ?sb" using opt' False Some by simp_all
      ultimately show thesis using that [of "Primary k"] cur by simp
    next
      case None
      then obtain k where k: "md_extension_id m s = Some k" using opt' False by (auto split: option.splits)
      then have "k < length (md_extension m)" "md_extension m ! k = s" "k < 32" using lang enum_dict_Some [of "md_extension m" s k] by (auto simp: language_ok_def)
      moreover have "tokens = ?pre @ [Extension k]" "bits = 9 + ?sb" using opt' False None k by simp_all
      ultimately show thesis using that [of "Extension k"] cur by simp
    qed
  qed
  have "apply_tokens ms a b tokens st = bind_res (apply_token ms a b t ?st) Inr"
  proof -
    have n: "apply_tokens ms a b [] = Inr" by auto
    have u: "st\<lparr>ds_shift := False\<rparr> = st" using st(3) by (cases st) simp
    show ?thesis
    proof (cases shift)
      case True
      then show ?thesis using st(3) n by (simp add: t(1) unshifted_def)
    next
      case False
      then have e: "?st = st" using u by simp
      show ?thesis unfolding e using False n by (simp add: t(1))
    qed
  qed
  then show "apply_tokens ms a b tokens st = Inr (st\<lparr>ds_out := ds_out st @ [cp], ds_context := Symbol s\<rparr>)" using t(3) em by simp
  show "list_all token_ok tokens" "bits = bits_of tokens" using t(1,2,4) by (simp_all add: BITS_SHIFT_def)
qed

lemma prefix_right:
  assumes ok: "models_ok ms" "pair_ok ms (a, b)" and t: "(target, ctx', prefix, pbits, sw) \<in> set (plan_targets ms a b lang ctx)" and lang: "by_id ms lang \<noteq> None"
    and st: "ds_current st = lang" "ds_context st = ctx" "\<not> ds_shift st"
  shows "by_id ms target \<noteq> None" and "apply_tokens ms a b prefix st = Inr (st\<lparr>ds_current := target, ds_context := ctx'\<rparr>)" and "list_all token_ok prefix"
    and "pbits = bits_of prefix"
proof -
  let ?other = "toggled_lang a b lang"
  consider "(target, ctx', prefix, pbits, sw) = (lang, ctx, [], 0, 0)"
    | l where "?other = Some l" "(target, ctx', prefix, pbits, sw) = (l, Start, [ToggleLanguage], BITS_TOGGLE_LANGUAGE, 1)"
    | m where "m \<in> set (ms_models ms)" "(target, ctx', prefix, pbits, sw) = (md_global_id m, Start, [SwitchOther (md_global_id m)], BITS_SWITCH_OTHER, 1)"
    using t by (auto simp: plan_targets_def Let_def split: option.splits)
  then have "by_id ms target \<noteq> None \<and> apply_tokens ms a b prefix st = Inr (st\<lparr>ds_current := target, ds_context := ctx'\<rparr>) \<and> list_all token_ok prefix \<and> pbits = bits_of prefix"
  proof cases
    case 1
    then show ?thesis using lang st by simp
  next
    case (2 l)
    then have "by_id ms l \<noteq> None" "toggle_language a b st = Inr (st\<lparr>ds_current := l, ds_context := Start\<rparr>)"
      using ok(2) st(1) by (auto simp: toggled_lang_def toggle_language_def pair_ok_def split: option.splits if_splits)
    then show ?thesis using 2 st(3) by (simp add: unshifted_def mcotxt_consts)
  next
    case (3 m)
    then have "by_id ms (md_global_id m) = Some m" "md_global_id m \<le> 6" using by_id_mem [OF ok(1)] ok(1) by (auto simp: models_ok_def language_ok_def)
    then show ?thesis using 3 st(3) by (simp add: unshifted_def mcotxt_consts)
  qed
  then show "by_id ms target \<noteq> None" "apply_tokens ms a b prefix st = Inr (st\<lparr>ds_current := target, ds_context := ctx'\<rparr>)" "list_all token_ok prefix" "pbits = bits_of prefix"
    by simp_all
qed

lemma model_targeted:
  assumes "models_ok ms" and "m \<in> set (ms_models ms)"
  obtains ctx' prefix pbits sw where "(md_global_id m, ctx', prefix, pbits, sw) \<in> set (plan_targets ms a b lang ctx)"
proof -
  have "md_global_id m \<in> fst ` set (plan_targets ms a b lang ctx)"
  proof (cases "md_global_id m = lang \<or> toggled_lang a b lang = Some (md_global_id m)")
    case True
    then show ?thesis by (auto simp: plan_targets_def Let_def)
  next
    case False
    then have "m \<in> set (filter (\<lambda>m. md_global_id m \<noteq> lang \<and> Some (md_global_id m) \<noteq> toggled_lang a b lang) (ms_models ms))" using assms(2) by (auto dest: sym)
    then have "(md_global_id m, Start, [SwitchOther (md_global_id m)], BITS_SWITCH_OTHER, 1) \<in> set (plan_targets ms a b lang ctx)"
      unfolding plan_targets_def Let_def by auto
    then show ?thesis by (rule image_eqI [rotated]) simp
  qed
  then show thesis using that by (metis imageE prod.collapse)
qed

lemma symbol_option_some:
  assumes "language_ok m" and "normalize_cp m cp = Some s" and "shift \<Longrightarrow> md_lower_to_upper m s \<noteq> None"
  shows "symbol_option m cp ctx shift \<noteq> None"
proof -
  have "md_primary_id m s \<noteq> None \<or> md_extension_id m s \<noteq> None"
    using normalize_listed(1) [OF assms(1,2)] assms(1) by (simp add: language_ok_def enum_dict_None del: not_None_eq)
  then show ?thesis using assms(2,3) by (auto simp: symbol_option_def Let_def split: option.splits)
qed

lemma symbol_edges_nonempty:
  assumes "t \<in> set targets" and "symbol_option (the (by_id ms (fst t))) cp (fst (snd t)) (pos \<in> set sh) = Some r"
  shows "symbol_edges ms tg sh cp pos targets \<noteq> []"
proof -
  obtain target ctx prefix pbits sw where t: "t = (target, ctx, prefix, pbits, sw)" by (cases t)
  let ?f = "\<lambda>(target, ctx, prefix, prefix_bits, switches).
       map_option (\<lambda>(tokens, bits, symbol, hit).
         let toggles = pos \<in> set tg
         in (prefix @ (if toggles then ToggleCase # tokens else tokens), bits + (if toggles then BITS_TOGGLE_CASE else 0) + prefix_bits, switches,
             (if hit then 1 else 0), (pos + 1, target, Symbol symbol)))
         (symbol_option (the (by_id ms target)) cp ctx (pos \<in> set sh)) :: plan_edge option"
  have "?f t \<noteq> None" using assms(2) by (simp add: t)
  then have "filter (\<lambda>x. ?f x \<noteq> None) targets \<noteq> []" using assms(1) unfolding filter_empty_conv by blast
  then show ?thesis by (simp add: symbol_edges_def List.map_filter_def comp_def del: not_None_eq)
qed

text \<open>A character that some table knows is never left to an UTF-8 run.\<close>

lemma run_unsupported:
  assumes ok: "models_ok ms" and cp: "case_plan ms cps = (tg, sh)" and "no_symbol ms tg sh a b cps pos lang ctx"
  shows "\<not> supported ms (cps ! pos)"
proof
  assume "supported ms (cps ! pos)"
  then obtain m0 s0 where m0: "m0 \<in> set (ms_models ms)" "normalize_cp m0 (cps ! pos) = Some s0"
    using assms(3) by (auto simp: supported_def no_symbol_def list_ex_iff)
  obtain m s where m: "m \<in> set (ms_models ms)" "normalize_cp m (cps ! pos) = Some s" "pos \<in> set sh \<Longrightarrow> md_lower_to_upper m s \<noteq> None"
  proof (cases "pos \<in> set sh")
    case True
    then have "case_of ms (cps ! pos) \<noteq> None" using case_plan_right(2) [OF cp, of pos] by blast
    then show thesis using that by (elim case_of_model) blast
  next
    case False
    then show thesis using that m0 by blast
  qed
  have lang: "language_ok m" "the (by_id ms (md_global_id m)) = m" using ok m(1) by_id_mem [OF ok, of "md_global_id m" m] by (simp_all add: models_ok_def)
  obtain ctx' prefix pbits sw where t: "(md_global_id m, ctx', prefix, pbits, sw) \<in> set (plan_targets ms a b lang ctx)" by (rule model_targeted [OF ok m(1)])
  obtain r where "symbol_option m (cps ! pos) ctx' (pos \<in> set sh) = Some r" using symbol_option_some [OF lang(1) m(2,3)] by blast
  then have "symbol_edges ms tg sh (cps ! pos) pos (plan_targets ms a b lang ctx) \<noteq> []" using lang(2) by (intro symbol_edges_nonempty [OF t]) simp
  then show False using assms(3) by (simp add: no_symbol_def)
qed

lemma edge_right:
  assumes ok: "models_ok ms" "pair_ok ms (a, b)" and cp: "case_plan ms cps = (tg, sh)" and sv: "list_all scalar_value cps"
    and pos: "pos < length cps" and lang: "by_id ms lang \<noteq> None" and e: "e \<in> set (candidates ms a b tg sh cps (pos, lang, ctx))"
  shows "apply_tokens ms a b (fst e) (decoded_upto tg cps (pos, lang, ctx)) = Inr (decoded_upto tg cps (edge_next e))
    \<and> list_all token_ok (fst e) \<and> fst (snd e) = bits_of (fst e) \<and> by_id ms (fst (snd (edge_next e))) \<noteq> None"
proof -
  let ?cp = "cps ! pos" and ?st = "decoded_upto tg cps (pos, lang, ctx)"
  note plan = case_plan_right [OF cp]
  have take: "take (Suc pos) cps = take pos cps @ [?cp]" using pos by (simp add: take_Suc_conv_app_nth)
  consider k where "PUNCTUATION_ID ?cp = Some k" "e = ([Punct k], 8, 0, 0, (pos + 1, lang, context_after_punctuation ?cp ctx))"
    | "e \<in> set (symbol_edges ms tg sh ?cp pos (plan_targets ms a b lang ctx))"
    | data n where "utf8_run ms cps pos = (data, n)" "e = ([Utf8Run data], BITS_UTF8_RUN_OVERHEAD + 8 * length data, 0, 0, (pos + n, lang, Start))"
        "no_symbol ms tg sh a b cps pos lang ctx"
    using candidate_cases [OF e] by blast
  then show ?thesis
  proof cases
    case (1 k)
    have k: "k < 32" "PUNCTUATION ! k = ?cp" using enum_dict_Some [of PUNCTUATION ?cp k] 1(1) by (simp_all add: PUNCTUATION_ID_def PUNCTUATION_def)
    then have "?cp \<in> set PUNCTUATION" using enum_dict_Some [of PUNCTUATION ?cp k] 1(1) nth_mem by (metis PUNCTUATION_ID_def)
    then have "case_of ms ?cp = None" using ok(1) by (simp add: models_ok_def)
    then have "pos \<notin> set tg" using plan(2) [of pos] by blast
    then have "caps_before tg (Suc pos) = caps_before tg pos" using caps_upto_toggle [OF plan(1)] by (simp add: caps_Suc)
    then show ?thesis using 1 k take lang by (simp add: decoded_upto_def unshifted_def edge_next_def)
  next
    case 2
    then obtain target ctx' prefix pbits sw tokens bits s hit where t: "(target, ctx', prefix, pbits, sw) \<in> set (plan_targets ms a b lang ctx)"
      and opt: "symbol_option (the (by_id ms target)) ?cp ctx' (pos \<in> set sh) = Some (tokens, bits, s, hit)"
      and e': "e = (prefix @ (if pos \<in> set tg then ToggleCase # tokens else tokens), bits + (if pos \<in> set tg then BITS_TOGGLE_CASE else 0) + pbits, sw,
         (if hit then 1 else 0), (pos + 1, target, Symbol s))" by (rule symbol_edge)
    have st: "ds_current ?st = lang" "ds_context ?st = ctx" "\<not> ds_shift ?st" by (simp_all add: decoded_upto_def)
    note p = prefix_right [OF ok t lang st]
    obtain m where m: "by_id ms target = Some m" using p(1) by blast
    then have mm: "m \<in> set (ms_models ms)" "md_global_id m = target" using by_id_mem [OF ok(1)] by auto
    define st1 where "st1 = \<lparr>ds_current = target, ds_context = ctx', ds_shift = False, ds_caps = caps_upto tg pos, ds_out = take pos cps\<rparr>"
    have sym: "apply_tokens ms a b tokens st1 = Inr (st1\<lparr>ds_out := ds_out st1 @ [?cp], ds_context := Symbol s\<rparr>)" "list_all token_ok tokens" "bits = bits_of tokens"
    proof -
      have "symbol_option m ?cp ctx' (pos \<in> set sh) = Some (tokens, bits, s, hit)" using opt m by simp
      moreover have "pos \<in> set sh \<longleftrightarrow> (w \<noteq> ds_caps st1)" if "case_of ms ?cp = Some w" for w using plan(3) [OF pos that] by (simp add: st1_def)
      moreover have "pos \<notin> set sh" if "case_of ms ?cp = None" using plan(2) [of pos] that by blast
      ultimately show "apply_tokens ms a b tokens st1 = Inr (st1\<lparr>ds_out := ds_out st1 @ [?cp], ds_context := Symbol s\<rparr>)" "list_all token_ok tokens" "bits = bits_of tokens"
        using symbol_option_right [OF ok(1) mm(1), of ?cp ctx' "pos \<in> set sh" tokens bits s hit st1] mm(2) by (simp_all add: st1_def)
    qed
    have "apply_tokens ms a b (if pos \<in> set tg then ToggleCase # tokens else tokens) (?st\<lparr>ds_current := target, ds_context := ctx'\<rparr>) = apply_tokens ms a b tokens st1"
      using caps_upto_toggle [OF plan(1), of pos] by (simp add: decoded_upto_def unshifted_def st1_def)
    then have "apply_tokens ms a b (fst e) ?st = Inr (decoded_upto tg cps (edge_next e))"
      using p(2) sym(1) take by (simp add: e' apply_append edge_next_def decoded_upto_def st1_def caps_Suc)
    moreover have "list_all token_ok (fst e)" "fst (snd e) = bits_of (fst e)" using p(3,4) sym(2,3) by (auto simp: e' mcotxt_consts)
    ultimately show ?thesis using p(1) by (simp add: e' edge_next_def)
  next
    case (3 data n)
    note r = run_facts [OF 3(1) pos]
    have uns: "\<not> supported ms c" if "c \<in> set (take n (drop pos cps))" for c using r(6) [OF run_unsupported [OF ok(1) cp 3(3)]] that by blast
    have "q \<notin> set tg" if "pos \<le> q" "q < pos + n" for q
    proof
      assume "q \<in> set tg"
      then have "case_of ms (cps ! q) \<noteq> None" using plan(2) [of q] by blast
      then obtain m s where "m \<in> set (ms_models ms)" "normalize_cp m (cps ! q) = Some s" by (rule case_of_model)
      then have "supported ms (cps ! q)" by (auto simp: supported_def list_ex_iff)
      moreover have "cps ! q \<in> set (take n (drop pos cps))" using that r(2) by (auto simp: in_set_conv_nth intro!: exI [of _ "q - pos"])
      ultimately show False using uns by blast
    qed
    then have caps: "caps_before tg (pos + n) = caps_before tg pos" by (rule caps_run)
    have "list_all scalar_value (take n (drop pos cps))" using sv by (auto simp: list_all_iff dest!: in_set_takeD in_set_dropD)
    then have "strict_utf8 data = Inr (take n (drop pos cps))" by (simp add: strict_utf8_def r(3) utf8_decode_encode)
    then show ?thesis using 3(2) r(4,5) lang caps by (simp add: decoded_upto_def unshifted_def edge_next_def mcotxt_consts take_add)
  qed
qed

lemma walk_right:
  assumes ok: "models_ok ms" "pair_ok ms (a, b)" and cp: "case_plan ms cps = (tg, sh)" and sv: "list_all scalar_value cps"
    and w: "walk (candidates ms a b tg sh cps) (length cps) st ts c" and lang: "by_id ms (fst (snd st)) \<noteq> None"
  shows "\<exists>l ctx. apply_tokens ms a b ts (decoded_upto tg cps st) = Inr (decoded_upto tg cps (length cps, l, ctx)) \<and> list_all token_ok ts \<and> fst c = int (bits_of ts)"
  using w lang
proof (induction rule: walk.induct)
  case (walk_end st)
  then show ?case by (cases st) auto
next
  case (walk_step st e ts c)
  obtain pos l ctx where st: "st = (pos, l, ctx)" by (cases st)
  have "pos < length cps" "by_id ms l \<noteq> None" "e \<in> set (candidates ms a b tg sh cps (pos, l, ctx))" using walk_step.hyps walk_step.prems by (simp_all add: st)
  from edge_right [OF ok cp sv this] have r: "apply_tokens ms a b (fst e) (decoded_upto tg cps st) = Inr (decoded_upto tg cps (edge_next e))"
    "list_all token_ok (fst e)" "fst (snd e) = bits_of (fst e)" "by_id ms (fst (snd (edge_next e))) \<noteq> None" by (simp_all add: st)
  obtain l' ctx' where ih: "apply_tokens ms a b ts (decoded_upto tg cps (edge_next e)) = Inr (decoded_upto tg cps (length cps, l', ctx'))" "list_all token_ok ts" "fst c = int (bits_of ts)"
    using walk_step.IH [OF r(4)] by blast
  have "fst (edge_cost e c) = fst c + int (fst (snd e))" by (cases e; cases c) (simp add: edge_cost_def)
  then show ?case using r ih by (intro exI [of _ l'] exI [of _ ctx']) (simp add: apply_append)
qed

lemma plan_right:
  assumes ok: "models_ok ms" "pair_ok ms (a, b)" and sv: "list_all scalar_value cps" and p: "plan ms cps a b = (cost, tokens)"
  shows "\<exists>st. apply_tokens ms a b tokens (start_state a) = Inr st \<and> \<not> ds_shift st \<and> ds_out st = cps" and "list_all token_ok tokens" and "fst cost = int (bits_of tokens)"
proof -
  obtain tg sh where cp: "case_plan ms cps = (tg, sh)" by fastforce
  have "by_id ms a \<noteq> None" using ok(2) by (simp add: pair_ok_def)
  then obtain l ctx where w: "apply_tokens ms a b tokens (decoded_upto tg cps (0, a, Start)) = Inr (decoded_upto tg cps (length cps, l, ctx))" "list_all token_ok tokens" "fst cost = int (bits_of tokens)"
    using walk_right [OF ok cp sv plan_walk(1) [OF cp p]] by auto
  then show "\<exists>st. apply_tokens ms a b tokens (start_state a) = Inr st \<and> \<not> ds_shift st \<and> ds_out st = cps" by (simp add: decoded_upto_def start_state_def caps_before_def)
  show "list_all token_ok tokens" "fst cost = int (bits_of tokens)" by (rule w)+
qed

section \<open>The encoder\<close>

text \<open>The pair that is declared is one of those tried, and no other has a smaller key.\<close>

definition pair_key :: "ModelSet \<Rightarrow> ustr \<Rightarrow> nat \<times> nat option \<Rightarrow> int \<times> int \<times> int \<times> int \<times> int" where
  "pair_key ms cps p = plan_key (fst (plan ms cps (fst p) (snd p))) p"

lemma best_plan_least:
  assumes "pairs \<noteq> []" and "best_plan ms cps pairs = (p, tokens)"
  shows "p \<in> set pairs" and "tokens = snd (plan ms cps (fst p) (snd p))" and "q \<in> set pairs \<Longrightarrow> pair_key ms cps p \<le> pair_key ms cps q"
proof -
  let ?step = "\<lambda>p (best_key, best). case plan ms cps (fst p) (snd p) of (cost, tokens) \<Rightarrow>
         let key = plan_key cost p
         in if best_key = None \<or> key < the best_key then (Some key, (p, tokens)) else (best_key, best)"
  have "fst acc = Some (pair_key ms cps r) \<Longrightarrow> snd acc = (r, snd (plan ms cps (fst r) (snd r))) \<Longrightarrow>
    \<exists>p' \<in> insert r (set ps). fold ?step ps acc = (Some (pair_key ms cps p'), (p', snd (plan ms cps (fst p') (snd p'))))
      \<and> (\<forall>q \<in> insert r (set ps). pair_key ms cps p' \<le> pair_key ms cps q)" for ps acc r
  proof (induction ps arbitrary: acc r)
    case Nil
    then show ?case by (cases acc) simp
  next
    case (Cons x xs)
    obtain cost ts where x: "plan ms cps (fst x) (snd x) = (cost, ts)" by fastforce
    have acc: "acc = (Some (pair_key ms cps r), (r, snd (plan ms cps (fst r) (snd r))))" using Cons.prems by (cases acc) simp
    show ?case
    proof (cases "pair_key ms cps x < pair_key ms cps r")
      case True
      then have s: "?step x acc = (Some (pair_key ms cps x), (x, snd (plan ms cps (fst x) (snd x))))" by (simp add: acc x pair_key_def Let_def)
      have "\<exists>p' \<in> insert x (set xs). fold ?step xs (?step x acc) = (Some (pair_key ms cps p'), (p', snd (plan ms cps (fst p') (snd p'))))
      \<and> (\<forall>q \<in> insert x (set xs). pair_key ms cps p' \<le> pair_key ms cps q)" by (rule Cons.IH) (simp_all add: s)
      then obtain p' where p': "p' \<in> insert x (set xs)" "fold ?step xs (?step x acc) = (Some (pair_key ms cps p'), (p', snd (plan ms cps (fst p') (snd p'))))"
        "\<forall>q \<in> insert x (set xs). pair_key ms cps p' \<le> pair_key ms cps q" by blast
      then have "pair_key ms cps p' \<le> pair_key ms cps r" using True by force
      then show ?thesis using p' by (intro bexI [of _ p']) auto
    next
      case False
      then have s: "?step x acc = acc" by (simp add: acc x pair_key_def Let_def)
      have "\<exists>p' \<in> insert r (set xs). fold ?step xs acc = (Some (pair_key ms cps p'), (p', snd (plan ms cps (fst p') (snd p'))))
      \<and> (\<forall>q \<in> insert r (set xs). pair_key ms cps p' \<le> pair_key ms cps q)" by (rule Cons.IH) (simp_all add: acc)
      then obtain p' where p': "p' \<in> insert r (set xs)" "fold ?step xs acc = (Some (pair_key ms cps p'), (p', snd (plan ms cps (fst p') (snd p'))))"
        "\<forall>q \<in> insert r (set xs). pair_key ms cps p' \<le> pair_key ms cps q" by blast
      then have "pair_key ms cps p' \<le> pair_key ms cps x" using False by force
      then show ?thesis using p' s by (intro bexI [of _ p']) auto
    qed
  qed
  note run = this
  obtain x xs where pairs: "pairs = x # xs" using assms(1) by (cases pairs) auto
  have first: "?step x (None, b) = (Some (pair_key ms cps x), (x, snd (plan ms cps (fst x) (snd x))))" for b by (cases "plan ms cps (fst x) (snd x)") (simp add: pair_key_def Let_def)
  have "\<exists>p' \<in> insert x (set xs). fold ?step xs (?step x (None, (hd pairs, []))) = (Some (pair_key ms cps p'), (p', snd (plan ms cps (fst p') (snd p'))))
      \<and> (\<forall>q \<in> insert x (set xs). pair_key ms cps p' \<le> pair_key ms cps q)" by (rule run) (simp_all only: first fst_conv snd_conv)
  then obtain p' where p': "p' \<in> set pairs" "fold ?step pairs (None, (hd pairs, [])) = (Some (pair_key ms cps p'), (p', snd (plan ms cps (fst p') (snd p'))))"
    "\<forall>q \<in> set pairs. pair_key ms cps p' \<le> pair_key ms cps q" unfolding pairs fold_simps o_apply list.sel list.set by blast
  then have "p = p' \<and> tokens = snd (plan ms cps (fst p') (snd p'))" using assms(2) by (auto simp add: best_plan_def)
  then show "p \<in> set pairs" "tokens = snd (plan ms cps (fst p) (snd p))" "q \<in> set pairs \<Longrightarrow> pair_key ms cps p \<le> pair_key ms cps q"
    using p' by auto
qed

lemma default_pair_ok:
  assumes ok: "models_ok ms" and "ms_models ms \<noteq> []"
  shows "pair_ok ms (default_pair isalpha ms cps)"
proof -
  let ?n = "\<lambda>m. int (length (filter (\<lambda>cp. normalize_cp m cp \<noteq> None) (filter isalpha cps)))"
  let ?step = "\<lambda>m (best_id, best_count). if ?n m > best_count then (md_global_id m, ?n m) else (best_id, best_count)"
  have "fst (fold ?step mods (i, c)) \<in> insert i (md_global_id ` set mods)" for mods i c by (induction mods arbitrary: i c) auto
  note step_id = this
  obtain m mods where ms: "ms_models ms = m # mods" using assms(2) by (cases "ms_models ms") auto
  have "fold ?step (ms_models ms) (0, -1) = fold ?step mods (md_global_id m, ?n m)" by (simp add: ms)
  then have "fst (fold ?step (ms_models ms) (0, -1)) \<in> md_global_id ` set (ms_models ms)" using step_id [of mods "md_global_id m" "?n m"] by (simp only: ms list.simps image_insert)
  then obtain m' where m': "m' \<in> set (ms_models ms)" "fst (default_pair isalpha ms cps) = md_global_id m'"
    unfolding default_pair_def Let_def fst_conv by blast
  then have "by_id ms (md_global_id m') = Some m'" "md_global_id m' \<le> 6" using by_id_mem [OF ok] ok by (auto simp: models_ok_def language_ok_def)
  moreover have "snd (default_pair isalpha ms cps) = Some b \<Longrightarrow> b < 7 \<and> by_id ms b \<noteq> None" for b
    by (auto simp: default_pair_def Let_def split: if_splits)
  ultimately show ?thesis using m'(2) by (auto simp: pair_ok_def split: option.splits)
qed

text \<open>With sound tables the check that guards the planner never fires.\<close>

lemma planned_right:
  assumes ok: "models_ok ms" "pair_ok ms p" "list_all scalar_value cps" and g: "ms_generation ms \<le> 262"
  obtains data n where "planned_stream ms p (snd (plan ms cps (fst p) (snd p))) = Inr (data, n)" and "decode_mct_stream ms data n = Inr cps"
    and "int n = int (length (stream_bits (ms_generation ms) 0 0)) + fst (fst (plan ms cps (fst p) (snd p)))"
    and "length data = (n + 7) div 8"
proof -
  obtain cost tokens where pl: "plan ms cps (fst p) (snd p) = (cost, tokens)" by fastforce
  have "pair_ok ms (fst p, snd p)" using ok(2) by simp
  note r = plan_right [OF ok(1) this ok(3) pl]
  obtain w2 where w2: "bind_res (write_header_field CODEC_VERSION new_writer) (write_header_field (ms_generation ms)) = Inr w2"
    "writer_ok (write_bits (case snd p of None \<Rightarrow> LANGUAGE_NONE_WIRE_ID | Some b \<Rightarrow> b) 3 (write_bits (fst p) 3 w2))"
    "wbits (write_bits (case snd p of None \<Rightarrow> LANGUAGE_NONE_WIRE_ID | Some b \<Rightarrow> b) 3 (write_bits (fst p) 3 w2))
      = stream_bits (ms_generation ms) (fst p) (case snd p of None \<Rightarrow> LANGUAGE_NONE_WIRE_ID | Some b \<Rightarrow> b)"
    using stream_written [OF g] by blast
  define w4 where "w4 = fold write_token tokens (write_bits (case snd p of None \<Rightarrow> LANGUAGE_NONE_WIRE_ID | Some b \<Rightarrow> b) 3 (write_bits (fst p) 3 w2))"
  have w4: "writer_ok w4" "length (wbits w4) = length (stream_bits (ms_generation ms) 0 0) + bits_of tokens"
    using write_tokens_bits [OF w2(2) r(2)] w2(3) by (simp_all add: w4_def bits_of_def stream_bits_def)
  have ps: "planned_stream ms p tokens = Inr (writer_to_bytes w4, writer_bit_length w4)"
    using w2(1) by (auto simp: planned_stream_def bind_res_Inr LANGUAGE_BITS_def Let_def w4_def)
  show thesis
  proof (rule that)
    show "planned_stream ms p (snd (plan ms cps (fst p) (snd p))) = Inr (writer_to_bytes w4, writer_bit_length w4)" using ps by (simp add: pl)
    show "decode_mct_stream ms (writer_to_bytes w4) (writer_bit_length w4) = Inr cps" using planned_stream_decodes [OF ps r(2) ok(2)] r(1) by auto
    show "int (writer_bit_length w4) = int (length (stream_bits (ms_generation ms) 0 0)) + fst (fst (plan ms cps (fst p) (snd p)))"
      using w4 length_wbits [OF w4(1)] r(3) by (simp add: pl)
    show "length (writer_to_bytes w4) = (writer_bit_length w4 + 7) div 8" by (rule written_length [OF w4(1)])
  qed
qed

lemma raw_written:
  assumes "generation \<le> 262"
  obtains data where "raw_utf8_stream s generation = Inr (data, length (stream_bits generation 0 0) + 4 + 8 * length (utf8_encode s))"
    and "length data = (length (stream_bits generation 0 0) + 4 + 8 * length (utf8_encode s) + 7) div 8"
proof -
  obtain w2 where w2: "bind_res (write_header_field CODEC_VERSION new_writer) (write_header_field generation) = Inr w2"
    "writer_ok (write_bits 1 3 (write_bits 7 3 w2))" "wbits (write_bits 1 3 (write_bits 7 3 w2)) = stream_bits generation 7 1"
    using stream_written [OF assms] by blast
  let ?w3 = "write_bits 0 4 (write_bits 1 3 (write_bits 7 3 w2))"
  define w4 where "w4 = fold (\<lambda>b. write_bits (unat b) 8) (utf8_encode s) ?w3"
  have w4: "writer_ok w4" "length (wbits w4) = length (stream_bits generation 0 0) + 4 + 8 * length (utf8_encode s)"
    using write_octets [of ?w3 "utf8_encode s"] w2(2,3) by (simp_all add: write_bits w4_def stream_bits_def)
  have r: "raw_utf8_stream s generation = Inr (writer_to_bytes w4, writer_bit_length w4)"
    using w2(1) by (auto simp: raw_utf8_stream_def bind_res_Inr mcotxt_consts Let_def w4_def)
  show thesis using that r w4 length_wbits [OF w4(1)] written_length [OF w4(1)] by simp
qed

lemma encode_stream_right:
  assumes ok: "models_ok ms" "ms_generation ms \<le> 262" and pairs: "language_pairs isalpha ms (normalize_text t) languages search \<noteq> []"
    "\<forall>p \<in> set (language_pairs isalpha ms (normalize_text t) languages search). pair_ok ms p" and sv: "list_all scalar_value (normalize_text t)"
  obtains data n where "encode_stream isalpha ms t languages search = Inr (data, n)" and "length data = (n + 7) div 8"
    and "n \<le> length (stream_bits (ms_generation ms) 0 0) + 4 + 8 * length (utf8_encode (normalize_text t))"
    and "\<And>p. p \<in> set (language_pairs isalpha ms (normalize_text t) languages search) \<Longrightarrow>
      int n \<le> int (length (stream_bits (ms_generation ms) 0 0)) + fst (fst (plan ms (normalize_text t) (fst p) (snd p)))"
proof -
  let ?s = "normalize_text t" and ?pairs = "language_pairs isalpha ms (normalize_text t) languages search" and ?h = "length (stream_bits (ms_generation ms) 0 0)"
  obtain p tokens where bp: "best_plan ms ?s ?pairs = (p, tokens)" by fastforce
  note best = best_plan_least [OF pairs(1) bp]
  have p: "pair_ok ms p" using pairs(2) best(1) by blast
  obtain data n where d: "planned_stream ms p tokens = Inr (data, n)" "decode_mct_stream ms data n = Inr ?s" "int n = int ?h + fst (fst (plan ms ?s (fst p) (snd p)))"
    "length data = (n + 7) div 8" using planned_right [OF ok(1) p sv ok(2)] unfolding best(2) by metis
  obtain raw where raw: "raw_utf8_stream ?s (ms_generation ms) = Inr (raw, ?h + 4 + 8 * length (utf8_encode ?s))"
    "length raw = (?h + 4 + 8 * length (utf8_encode ?s) + 7) div 8" by (rule raw_written [OF ok(2)])
  have least: "int n \<le> int ?h + fst (fst (plan ms ?s (fst q) (snd q)))" if "q \<in> set ?pairs" for q
    using best(3) [OF that] d(3) by (auto simp: pair_key_def plan_key_def less_eq_prod_def split: prod.splits)
  have keys: "\<not> list_ex (\<lambda>p. by_id ms (fst p) = None \<or> (case snd p of None \<Rightarrow> False | Some b \<Rightarrow> by_id ms b = None)) ?pairs"
    using pairs(2) by (auto simp: list_ex_iff pair_ok_def split: option.splits)
  let ?rn = "?h + 4 + 8 * length (utf8_encode ?s)"
  have enc: "encode_stream isalpha ms t languages search = (if (length raw, ?rn) < (length data, n) then Inr (raw, ?rn) else Inr (data, n))"
    unfolding encode_stream_def Let_def using pairs(1) keys sv by (simp add: bp d(1,2) raw(1))
  show thesis
  proof (cases "(length raw, ?rn) < (length data, n)")
    case True
    then have "?rn \<le> n" by (auto simp: d(4) raw(2) less_prod_def)
    then show thesis using that [of raw ?rn] enc True raw(2) least by force
  next
    case False
    then have "n \<le> ?rn" by (auto simp: d(4) raw(2) less_prod_def not_less)
    then show thesis using that [of data n] enc False d(4) least by force
  qed
qed

section \<open>Normalising twice is normalising once\<close>

lemma replace_cr_no_cr: "13 \<notin> set (replace_cr s)"
  by (auto simp: replace_cr_def)

lemma replace_crlf_id: "13 \<notin> set s \<Longrightarrow> replace_crlf s = s"
  by (induction s rule: replace_crlf.induct) auto

lemma replace_cr_id: "13 \<notin> set s \<Longrightarrow> replace_cr s = s"
  by (auto simp: replace_cr_def intro!: map_idI)

text \<open>What is composed neither starts nor ends a pair.\<close>

lemma NFC_disjoint: "\<forall>p \<in> set NFC_PAIRS. snd p \<noteq> 13 \<and> (\<forall>q \<in> set NFC_PAIRS. snd p \<noteq> fst (fst q) \<and> snd p \<noteq> snd (fst q))"
proof -
  let ?firsts = "[0x61, 0x41, 0x63, 0x43, 0x65, 0x45, 0x69, 0x49, 0x6F, 0x4F, 0x75, 0x55, 0x435, 0x415, 0x438, 0x418, 0x456, 0x406, 0x443, 0x423 :: nat]"
  have "list_all (\<lambda>p. fst (fst p) \<in> set ?firsts \<and> 0x300 \<le> snd (fst p) \<and> snd (fst p) < 0x330) NFC_PAIRS" by (simp add: NFC_PAIRS_def)
  moreover have "list_all (\<lambda>p. snd p \<notin> set ?firsts \<and> (snd p < 0x300 \<or> 0x330 \<le> snd p) \<and> snd p \<noteq> 13) NFC_PAIRS" by (simp add: NFC_PAIRS_def)
  ultimately show ?thesis unfolding list_all_iff by (metis not_less)
qed

lemma composed_final:
  assumes "map_of NFC_PAIRS (a, b) = Some c"
  shows "c \<noteq> 13" and "map_of NFC_PAIRS (c, x) = None" and "map_of NFC_PAIRS (x, c) = None"
proof -
  have m: "((a, b), c) \<in> set NFC_PAIRS" using assms by (rule map_of_SomeD)
  have no: "map_of NFC_PAIRS k = None" if "fst k = c \<or> snd k = c" for k
  proof (cases "map_of NFC_PAIRS k")
    case (Some v)
    then have "(k, v) \<in> set NFC_PAIRS" by (rule map_of_SomeD)
    then show ?thesis using NFC_disjoint m that by force
  qed
  show "c \<noteq> 13" using NFC_disjoint m by force
  show "map_of NFC_PAIRS (c, x) = None" "map_of NFC_PAIRS (x, c) = None" by (rule no; simp)+
qed

lemma compose_hd: "hd (compose_pairs (b # s)) = b \<or> (\<exists>a x. map_of NFC_PAIRS (a, x) = Some (hd (compose_pairs (b # s))))"
  by (cases s) (auto split: option.splits)

lemma compose_not_Nil: "compose_pairs (b # s) \<noteq> []"
  by (cases s) (auto split: option.splits)

lemma compose_again: "compose_pairs (compose_pairs s) = compose_pairs s"
proof (induction s rule: compose_pairs.induct)
  case (1 a b s)
  show ?case
  proof (cases "map_of NFC_PAIRS (a, b)")
    case None
    obtain x xs where x: "compose_pairs (b # s) = x # xs" using compose_not_Nil by (cases "compose_pairs (b # s)") auto
    then have "map_of NFC_PAIRS (a, x) = None" using compose_hd [of b s] None composed_final(3) by auto
    then show ?thesis using 1(1) [OF None] None x by simp
  next
    case (Some c)
    have ih: "compose_pairs (compose_pairs s) = compose_pairs s" by (rule 1(2) [OF Some])
    have "compose_pairs (c # compose_pairs s) = c # compose_pairs s"
    proof (cases "compose_pairs s")
      case (Cons x xs)
      then show ?thesis using ih composed_final(2) [OF Some, of x] by simp
    qed simp
    then show ?thesis using Some by simp
  qed
qed simp_all

lemma compose_no_cr: "13 \<notin> set s \<Longrightarrow> 13 \<notin> set (compose_pairs s)"
  by (induction s rule: compose_pairs.induct) (auto split: option.splits dest: composed_final(1))

lemma normalize_again: "normalize_text (normalize_text s) = normalize_text s"
proof -
  have "13 \<notin> set (compose_pairs (replace_cr (replace_crlf s)))" by (rule compose_no_cr [OF replace_cr_no_cr])
  then show ?thesis by (simp add: normalize_text_def replace_crlf_id replace_cr_id compose_again)
qed

end
