(* ===== verification/Arith.thy ===== *)
theory Arith
  imports Prelude
begin

text \<open>
  The arithmetic coder of the MCMP text compressor (\<open>src/app/compression/mcmp.py\<close>, classes \<open>_ArithmeticEncoder\<close> and
  \<open>_ArithmeticDecoder\<close>). The renormalisation loops are partial functions into \<open>option\<close>: on an interval that is not empty they are
  shown to return. A bit is a boolean. The decoder reads the bytes of its data, and zeros past their end.
\<close>

section \<open>Constants\<close>

definition PRECISION :: nat where "PRECISION = 32"
definition FULL :: int where "FULL = 2 ^ 32"
definition HALF :: int where "HALF = 2 ^ 31"
definition QUARTER :: int where "QUARTER = 2 ^ 30"
definition THREE_QUARTER :: int where "THREE_QUARTER = 3 * QUARTER"
definition MASK :: int where "MASK = FULL - 1"
definition CDF_SCALE :: int where "CDF_SCALE = 2 ^ 20"

lemmas arith_consts = FULL_def HALF_def QUARTER_def THREE_QUARTER_def MASK_def CDF_SCALE_def

section \<open>Encoder\<close>

record ArithmeticEncoder =
  ae_low :: int
  ae_high :: int
  ae_pending :: nat
  ae_bits :: "bool list"

definition new_arith_encoder :: ArithmeticEncoder where
  "new_arith_encoder = \<lparr>ae_low = 0, ae_high = MASK, ae_pending = 0, ae_bits = []\<rparr>"

definition emit_bit :: "bool \<Rightarrow> ArithmeticEncoder \<Rightarrow> ArithmeticEncoder" where
  "emit_bit b e = e\<lparr>ae_bits := ae_bits e @ b # replicate (ae_pending e) (\<not> b), ae_pending := 0\<rparr>"

text \<open>The end of a round: both ends lose \<open>c\<close>, shift left, and the upper end takes in a one.\<close>

definition shift_interval :: "int \<Rightarrow> ArithmeticEncoder \<Rightarrow> ArithmeticEncoder" where
  "shift_interval c e = e\<lparr>ae_low := 2 * (ae_low e - c) mod FULL, ae_high := (2 * (ae_high e - c) + 1) mod FULL\<rparr>"

partial_function (option) encoder_renorm :: "ArithmeticEncoder \<Rightarrow> ArithmeticEncoder option" where
  "encoder_renorm e =
     (if ae_high e < HALF then encoder_renorm (shift_interval 0 (emit_bit False e))
      else if ae_low e \<ge> HALF then encoder_renorm (shift_interval HALF (emit_bit True e))
      else if ae_low e \<ge> QUARTER \<and> ae_high e < THREE_QUARTER
        then encoder_renorm (shift_interval QUARTER (e\<lparr>ae_pending := Suc (ae_pending e)\<rparr>))
      else Some e)"

declare encoder_renorm.simps [code]

definition narrow :: "int \<Rightarrow> int \<Rightarrow> int \<Rightarrow> ArithmeticEncoder \<Rightarrow> ArithmeticEncoder" where
  "narrow low_count high_count tot e =
     (let rng = ae_high e - ae_low e + 1
      in e\<lparr>ae_high := ae_low e + rng * high_count div tot - 1, ae_low := ae_low e + rng * low_count div tot\<rparr>)"

definition encode_symbol :: "int \<Rightarrow> int \<Rightarrow> int \<Rightarrow> ArithmeticEncoder \<Rightarrow> ArithmeticEncoder option" where
  "encode_symbol low_count high_count tot e = encoder_renorm (narrow low_count high_count tot e)"

definition finish_bits :: "ArithmeticEncoder \<Rightarrow> bool list" where
  "finish_bits e = ae_bits (emit_bit (\<not> ae_low e < QUARTER) (e\<lparr>ae_pending := Suc (ae_pending e)\<rparr>))"

section \<open>Decoder\<close>

record ArithmeticDecoder =
  ad_data :: bytes
  ad_low :: int
  ad_high :: int
  ad_value :: int
  ad_bit_pos :: nat

definition read_bit :: "ArithmeticDecoder \<Rightarrow> bool \<times> ArithmeticDecoder" where
  "read_bit d =
     (if ad_bit_pos d \<ge> length (ad_data d) * 8 then (False, d)
      else (bit (ad_data d ! (ad_bit_pos d div 8)) (7 - ad_bit_pos d mod 8), d\<lparr>ad_bit_pos := Suc (ad_bit_pos d)\<rparr>))"

text \<open>\<open>value = (value << 1) | read_bit()\<close>.\<close>

definition take_bit_in :: "ArithmeticDecoder \<Rightarrow> ArithmeticDecoder" where
  "take_bit_in d = (case read_bit d of (b, d1) \<Rightarrow> d1\<lparr>ad_value := 2 * ad_value d + of_bool b\<rparr>)"

definition new_arith_decoder :: "bytes \<Rightarrow> ArithmeticDecoder" where
  "new_arith_decoder data =
     (take_bit_in ^^ PRECISION) \<lparr>ad_data = data, ad_low = 0, ad_high = MASK, ad_value = 0, ad_bit_pos = 0\<rparr>"

definition decoder_shift :: "int \<Rightarrow> ArithmeticDecoder \<Rightarrow> ArithmeticDecoder" where
  "decoder_shift c d =
     (case read_bit d of (b, d1) \<Rightarrow>
        d1\<lparr>ad_low := 2 * (ad_low d - c) mod FULL, ad_high := (2 * (ad_high d - c) + 1) mod FULL,
           ad_value := (2 * (ad_value d - c) + of_bool b) mod FULL\<rparr>)"

partial_function (option) decoder_renorm :: "ArithmeticDecoder \<Rightarrow> ArithmeticDecoder option" where
  "decoder_renorm d =
     (if ad_high d < HALF then decoder_renorm (decoder_shift 0 d)
      else if ad_low d \<ge> HALF then decoder_renorm (decoder_shift HALF d)
      else if ad_low d \<ge> QUARTER \<and> ad_high d < THREE_QUARTER then decoder_renorm (decoder_shift QUARTER d)
      else Some d)"

declare decoder_renorm.simps [code]

text \<open>The two decoding methods share the last steps: the interval of the symbol found, and the renormalisation.\<close>

definition decoder_narrow :: "int \<Rightarrow> int \<Rightarrow> int \<Rightarrow> ArithmeticDecoder \<Rightarrow> ArithmeticDecoder" where
  "decoder_narrow low_count high_count tot d =
     (let rng = ad_high d - ad_low d + 1
      in d\<lparr>ad_high := ad_low d + rng * high_count div tot - 1, ad_low := ad_low d + rng * low_count div tot\<rparr>)"

definition scaled_value :: "int \<Rightarrow> ArithmeticDecoder \<Rightarrow> int" where
  "scaled_value tot d = ((ad_value d - ad_low d + 1) * tot - 1) div (ad_high d - ad_low d + 1)"

function search_index :: "int list \<Rightarrow> int \<Rightarrow> nat \<Rightarrow> nat \<Rightarrow> nat" where
  "search_index highs scaled left right =
     (if left < right then
        let mid = (left + right) div 2
        in if highs ! mid \<le> scaled then search_index highs scaled (mid + 1) right else search_index highs scaled left mid
      else left)"
  by pat_completeness auto
termination
  by (relation "measure (\<lambda>(h, s, l, r). r - l)") auto

declare search_index.simps [simp del]

definition low_count_of :: "int list \<Rightarrow> nat \<Rightarrow> int" where
  "low_count_of highs i = (if i > 0 then highs ! (i - 1) else 0)"

definition decode_model_index :: "int list \<Rightarrow> ArithmeticDecoder \<Rightarrow> (nat \<times> ArithmeticDecoder) option" where
  "decode_model_index highs d =
     (let index = search_index highs (scaled_value CDF_SCALE d) 0 (length highs - 1)
      in map_option (Pair index) (decoder_renorm (decoder_narrow (low_count_of highs index) (highs ! index) CDF_SCALE d)))"

definition decode_uniform :: "nat \<Rightarrow> ArithmeticDecoder \<Rightarrow> (nat \<times> ArithmeticDecoder) option" where
  "decode_uniform count d =
     (let scaled = scaled_value (int count) d; index = max 0 (if scaled < int count then scaled else int count - 1)
      in map_option (Pair (nat index)) (decoder_renorm (decoder_narrow index (index + 1) (int count) d)))"

section \<open>Bits and bytes\<close>

definition bits_to_bytes :: "bool list \<Rightarrow> bytes" where
  "bits_to_bytes bits =
     fold (\<lambda>(i, b) out. if b then out[i div 8 := out ! (i div 8) OR push_bit (7 - i mod 8) 1] else out) (enumerate 0 bits)
       (replicate ((length bits + 7) div 8) 0)"

definition bits_to_min_bytes :: "bool list \<Rightarrow> bytes" where
  "bits_to_min_bytes bits = rev (dropWhile (\<lambda>b. b = 0) (rev (bits_to_bytes bits)))"

section \<open>The number a bit stream stands for\<close>

text \<open>The first \<open>n\<close> bits of a stream as a binary number.\<close>

primrec window :: "(nat \<Rightarrow> bool) \<Rightarrow> nat \<Rightarrow> int" where
  "window f 0 = 0"
| "window f (Suc n) = 2 * window f n + of_bool (f n)"

definition stream_of :: "bool list \<Rightarrow> nat \<Rightarrow> bool" where
  "stream_of bits i \<longleftrightarrow> i < length bits \<and> bits ! i"

definition bits_value :: "bool list \<Rightarrow> int" where
  "bits_value bits = window (stream_of bits) (length bits)"

lemma window_cong: "(\<And>i. i < n \<Longrightarrow> f i = g i) \<Longrightarrow> window f n = window g n"
  by (induction n) auto

lemma bits_value_snoc: "bits_value (bs @ [b]) = 2 * bits_value bs + of_bool b"
proof -
  have "window (stream_of (bs @ [b])) (length bs) = window (stream_of bs) (length bs)"
    by (rule window_cong) (simp add: stream_of_def nth_append)
  then show ?thesis by (simp add: bits_value_def) (simp add: stream_of_def nth_append)
qed

lemma bits_value_Nil [simp]: "bits_value [] = 0"
  by (simp add: bits_value_def)

lemma bits_value_same:
  "bits_value (bs @ replicate n True) = 2 ^ n * bits_value bs + 2 ^ n - 1"
  "bits_value (bs @ replicate n False) = 2 ^ n * bits_value bs"
proof (induction n)
  case (Suc n)
  { case 1
    show ?case using Suc(1) bits_value_snoc [of "bs @ replicate n True" True] by (simp add: replicate_append_same)
  next
    case 2
    show ?case using Suc(2) bits_value_snoc [of "bs @ replicate n False" False] by (simp add: replicate_append_same) }
qed simp_all

lemma window_past: "window (stream_of bits) (length bits + n) = 2 ^ n * bits_value bits"
proof (induction n)
  case (Suc n)
  then show ?case by (simp add: stream_of_def)
qed (simp add: bits_value_def)

section \<open>The interval of an encoder\<close>

text \<open>How many times the encoder has shifted, and what the bits shifted out so far stand for at that scale.\<close>

definition shifts :: "ArithmeticEncoder \<Rightarrow> nat" where
  "shifts e = length (ae_bits e) + ae_pending e"

definition shifted_out :: "ArithmeticEncoder \<Rightarrow> int" where
  "shifted_out e = 2 ^ ae_pending e * bits_value (ae_bits e) * FULL + (2 ^ ae_pending e - 1) * HALF"

definition register :: "(nat \<Rightarrow> bool) \<Rightarrow> ArithmeticEncoder \<Rightarrow> int" where
  "register f e = window f (PRECISION + shifts e) - shifted_out e"

definition inside :: "(nat \<Rightarrow> bool) \<Rightarrow> ArithmeticEncoder \<Rightarrow> bool" where
  "inside f e \<longleftrightarrow> ae_low e \<le> register f e \<and> register f e \<le> ae_high e"

definition proper :: "ArithmeticEncoder \<Rightarrow> bool" where
  "proper e \<longleftrightarrow> 0 \<le> ae_low e \<and> ae_low e \<le> ae_high e \<and> ae_high e < FULL"

definition settled :: "ArithmeticEncoder \<Rightarrow> bool" where
  "settled e \<longleftrightarrow> 0 \<le> ae_low e \<and> ae_low e < HALF \<and> HALF \<le> ae_high e \<and> ae_high e < FULL \<and> (ae_low e < QUARTER \<or> THREE_QUARTER \<le> ae_high e)"

lemma settled_proper: "settled e \<Longrightarrow> proper e"
  by (simp add: settled_def proper_def)

lemma bits_value_emit: "bits_value (bs @ b # replicate p (\<not> b)) = 2 ^ (Suc p) * bits_value bs + (if b then 2 ^ p else 2 ^ p - 1)"
  using bits_value_same [of "bs @ [b]" p] by (cases b) (simp_all add: bits_value_snoc algebra_simps)

lemma emit_shifts:
  "shifts (shift_interval 0 (emit_bit False e)) = Suc (shifts e)"
  "shifts (shift_interval HALF (emit_bit True e)) = Suc (shifts e)"
  "shifts (shift_interval QUARTER (e\<lparr>ae_pending := Suc (ae_pending e)\<rparr>)) = Suc (shifts e)"
  by (simp_all add: shifts_def shift_interval_def emit_bit_def)

lemma emit_shifted_out:
  "shifted_out (shift_interval 0 (emit_bit False e)) = 2 * shifted_out e"
  "shifted_out (shift_interval HALF (emit_bit True e)) = 2 * (shifted_out e + HALF)"
  "shifted_out (shift_interval QUARTER (e\<lparr>ae_pending := Suc (ae_pending e)\<rparr>)) = 2 * (shifted_out e + QUARTER)"
  using bits_value_emit [of "ae_bits e" False "ae_pending e"] bits_value_emit [of "ae_bits e" True "ae_pending e"]
  by (simp_all add: shifted_out_def shift_interval_def emit_bit_def arith_consts algebra_simps del: replicate.simps)


section \<open>Renormalisation\<close>

definition shift_offset :: "int \<Rightarrow> int \<Rightarrow> int option" where
  "shift_offset low high =
     (if high < HALF then Some 0 else if low \<ge> HALF then Some HALF
      else if low \<ge> QUARTER \<and> high < THREE_QUARTER then Some QUARTER else None)"

definition shift_step :: "ArithmeticEncoder \<Rightarrow> ArithmeticEncoder" where
  "shift_step e =
     (if ae_high e < HALF then shift_interval 0 (emit_bit False e)
      else if ae_low e \<ge> HALF then shift_interval HALF (emit_bit True e)
      else shift_interval QUARTER (e\<lparr>ae_pending := Suc (ae_pending e)\<rparr>))"

lemma encoder_renorm_step:
  "encoder_renorm e = (case shift_offset (ae_low e) (ae_high e) of None \<Rightarrow> Some e | Some _ \<Rightarrow> encoder_renorm (shift_step e))"
  by (subst encoder_renorm.simps) (simp add: shift_offset_def shift_step_def)

lemma decoder_renorm_step:
  "decoder_renorm d = (case shift_offset (ad_low d) (ad_high d) of None \<Rightarrow> Some d | Some c \<Rightarrow> decoder_renorm (decoder_shift c d))"
  by (subst decoder_renorm.simps) (simp add: shift_offset_def)

lemma shift_bounds:
  assumes "0 \<le> l" "l \<le> h" "h < FULL" "shift_offset l h = Some c" "l \<le> x" "x \<le> h"
  shows "2 * (x - c) mod FULL = 2 * (x - c)" "(2 * (x - c) + 1) mod FULL = 2 * (x - c) + 1"
proof -
  have "0 \<le> 2 * (x - c)" "2 * (x - c) + 1 < FULL"
    using assms by (auto simp: shift_offset_def arith_consts split: if_splits)
  then show "2 * (x - c) mod FULL = 2 * (x - c)" "(2 * (x - c) + 1) mod FULL = 2 * (x - c) + 1"
    by (simp_all add: mod_pos_pos_trivial del: right_diff_distrib_numeral)
qed

lemma shift_step_facts:
  assumes "proper e" and "shift_offset (ae_low e) (ae_high e) = Some c"
  shows "ae_low (shift_step e) = 2 * (ae_low e - c)" "ae_high (shift_step e) = 2 * (ae_high e - c) + 1"
    "shifts (shift_step e) = Suc (shifts e)" "shifted_out (shift_step e) = 2 * (shifted_out e + c)" "proper (shift_step e)"
proof -
  have b: "0 \<le> ae_low e" "ae_low e \<le> ae_high e" "ae_high e < FULL" using assms(1) by (simp_all add: proper_def)
  note m = shift_bounds [OF b assms(2)]
  have lh: "ae_low (shift_step e) = 2 * (ae_low e - c) mod FULL" "ae_high (shift_step e) = (2 * (ae_high e - c) + 1) mod FULL"
    using assms(2) by (auto simp: shift_offset_def shift_step_def shift_interval_def emit_bit_def split: if_splits)
  then show l: "ae_low (shift_step e) = 2 * (ae_low e - c)" and h: "ae_high (shift_step e) = 2 * (ae_high e - c) + 1"
    using m(1) [of "ae_low e"] m(2) [of "ae_high e"] b by simp_all
  show "shifts (shift_step e) = Suc (shifts e)" "shifted_out (shift_step e) = 2 * (shifted_out e + c)"
    using assms(2) by (auto simp: shift_offset_def shift_step_def emit_shifts emit_shifted_out split: if_splits)
  have "0 \<le> ae_low (shift_step e)" "ae_high (shift_step e) < FULL" unfolding lh by (simp_all add: FULL_def)
  then show "proper (shift_step e)" using l h b by (simp add: proper_def)
qed

lemma register_step:
  assumes "proper e" and "shift_offset (ae_low e) (ae_high e) = Some c"
  shows "register f (shift_step e) = 2 * (register f e - c) + of_bool (f (PRECISION + shifts e))"
  using shift_step_facts(3,4) [OF assms] by (simp add: register_def)

lemma inside_step:
  assumes "proper e" and "shift_offset (ae_low e) (ae_high e) = Some c"
  shows "inside f (shift_step e) \<longleftrightarrow> inside f e"
  using shift_step_facts(1,2) [OF assms] register_step [OF assms, of f] by (auto simp: inside_def)

lemma width_grows:
  assumes "proper e" and "shift_offset (ae_low e) (ae_high e) = Some c"
  shows "nat (FULL - (ae_high (shift_step e) - ae_low (shift_step e))) < nat (FULL - (ae_high e - ae_low e))"
  using shift_step_facts [OF assms] assms(1) by (auto simp: proper_def)

lemma settled_offset: "proper e \<Longrightarrow> shift_offset (ae_low e) (ae_high e) = None \<longleftrightarrow> settled e"
  by (auto simp: proper_def settled_def shift_offset_def arith_consts)

lemma encoder_renorm_ends:
  assumes "proper e"
  shows "\<exists>e'. encoder_renorm e = Some e' \<and> settled e' \<and> (\<forall>f. inside f e' \<longleftrightarrow> inside f e)"
  using assms
proof (induction "nat (FULL - (ae_high e - ae_low e))" arbitrary: e rule: less_induct)
  case less
  show ?case
  proof (cases "shift_offset (ae_low e) (ae_high e)")
    case None
    then show ?thesis using settled_offset [OF less.prems] by (simp add: encoder_renorm_step [of e])
  next
    case (Some c)
    from less.hyps [OF width_grows [OF less.prems Some] shift_step_facts(5) [OF less.prems Some]]
    show ?thesis using inside_step [OF less.prems Some] by (simp add: encoder_renorm_step [of e] Some)
  qed
qed

section \<open>A decoder that follows its encoder\<close>

definition data_stream :: "bytes \<Rightarrow> nat \<Rightarrow> bool" where
  "data_stream data i \<longleftrightarrow> i < length data * 8 \<and> bit (data ! (i div 8)) (7 - i mod 8)"

definition follows :: "ArithmeticDecoder \<Rightarrow> ArithmeticEncoder \<Rightarrow> bool" where
  "follows d e \<longleftrightarrow> ad_low d = ae_low e \<and> ad_high d = ae_high e \<and> ad_value d = register (data_stream (ad_data d)) e
     \<and> ad_bit_pos d = min (PRECISION + shifts e) (length (ad_data d) * 8)"

lemma read_bit_at:
  assumes "ad_bit_pos d = min n (length (ad_data d) * 8)"
  shows "read_bit d = (data_stream (ad_data d) n, d\<lparr>ad_bit_pos := min (Suc n) (length (ad_data d) * 8)\<rparr>)"
  using assms by (cases "n < length (ad_data d) * 8") (auto simp: read_bit_def data_stream_def min_def)

lemma take_bits_in:
  "(take_bit_in ^^ n) \<lparr>ad_data = data, ad_low = l, ad_high = h, ad_value = 0, ad_bit_pos = 0\<rparr>
    = \<lparr>ad_data = data, ad_low = l, ad_high = h, ad_value = window (data_stream data) n, ad_bit_pos = min n (length data * 8)\<rparr>"
proof (induction n)
  case (Suc n)
  then show ?case
    using read_bit_at [of "\<lparr>ad_data = data, ad_low = l, ad_high = h, ad_value = window (data_stream data) n, ad_bit_pos = min n (length data * 8)\<rparr>" n]
    by (simp add: take_bit_in_def)
qed simp

lemma new_decoder_follows: "follows (new_arith_decoder data) new_arith_encoder" "ad_data (new_arith_decoder data) = data"
  by (simp_all add: new_arith_decoder_def take_bits_in follows_def new_arith_encoder_def register_def shifts_def shifted_out_def)

lemma new_encoder_settled: "settled new_arith_encoder"
  by (simp add: new_arith_encoder_def settled_def arith_consts)

lemma decoder_shift_follows:
  assumes "follows d e" and "proper e" and "inside (data_stream (ad_data d)) e" and "shift_offset (ae_low e) (ae_high e) = Some c"
  shows "follows (decoder_shift c d) (shift_step e)" "ad_data (decoder_shift c d) = ad_data d"
proof -
  let ?f = "data_stream (ad_data d)"
  have b: "0 \<le> ae_low e" "ae_low e \<le> ae_high e" "ae_high e < FULL" using assms(2) by (simp_all add: proper_def)
  note m = shift_bounds [OF b assms(4)]
  have i: "ae_low e \<le> register ?f e" "register ?f e \<le> ae_high e" using assms(3) by (simp_all add: inside_def)
  have r: "read_bit d = (?f (PRECISION + shifts e), d\<lparr>ad_bit_pos := min (Suc (PRECISION + shifts e)) (length (ad_data d) * 8)\<rparr>)"
    using assms(1) by (intro read_bit_at) (simp add: follows_def)
  have v: "(2 * (register ?f e - c) + of_bool b) mod FULL = 2 * (register ?f e - c) + of_bool b" for b
    using m [OF i] by (cases b) simp_all
  show "ad_data (decoder_shift c d) = ad_data d" by (simp add: decoder_shift_def r)
  show "follows (decoder_shift c d) (shift_step e)"
    using assms(1) shift_step_facts [OF assms(2,4)] register_step [OF assms(2,4), of ?f] m(1) [of "ae_low e"] m(2) [of "ae_high e"] b v
    by (simp add: follows_def decoder_shift_def r)
qed

lemma decoder_renorm_follows:
  assumes "follows d e" and "proper e" and "inside (data_stream (ad_data d)) e" and "encoder_renorm e = Some e'"
  shows "\<exists>d'. decoder_renorm d = Some d' \<and> follows d' e' \<and> ad_data d' = ad_data d"
  using assms
proof (induction "nat (FULL - (ae_high e - ae_low e))" arbitrary: e d rule: less_induct)
  case less
  have lh: "ad_low d = ae_low e" "ad_high d = ae_high e" using less.prems(1) by (simp_all add: follows_def)
  show ?case
  proof (cases "shift_offset (ae_low e) (ae_high e)")
    case None
    then show ?thesis using less.prems by (simp add: encoder_renorm_step [of e] decoder_renorm_step [of d] lh)
  next
    case (Some c)
    note s = decoder_shift_follows [OF less.prems(1-3) Some]
    have "inside (data_stream (ad_data (decoder_shift c d))) (shift_step e)" using s(2) inside_step [OF less.prems(2) Some] less.prems(3) by simp
    moreover have "encoder_renorm (shift_step e) = Some e'" using less.prems(4) by (simp add: encoder_renorm_step [of e] Some)
    ultimately have "\<exists>d'. decoder_renorm (decoder_shift c d) = Some d' \<and> follows d' e' \<and> ad_data d' = ad_data (decoder_shift c d)"
      using less.hyps [OF width_grows [OF less.prems(2) Some] s(1) shift_step_facts(5) [OF less.prems(2) Some]] by blast
    then show ?thesis using s(2) by (simp add: decoder_renorm_step [of d] lh Some)
  qed
qed

section \<open>The interval of a symbol\<close>

lemma settled_width: "settled e \<Longrightarrow> QUARTER < ae_high e - ae_low e + 1"
  by (auto simp: settled_def arith_consts)

lemma narrow_simps [simp]:
  "ae_low (narrow l h t e) = ae_low e + (ae_high e - ae_low e + 1) * l div t"
  "ae_high (narrow l h t e) = ae_low e + (ae_high e - ae_low e + 1) * h div t - 1"
  "register f (narrow l h t e) = register f e"
  by (simp_all add: narrow_def Let_def register_def shifts_def shifted_out_def)

lemma le_div_int: "0 < (t::int) \<Longrightarrow> y \<le> x div t \<longleftrightarrow> y * t \<le> x"
proof
  assume t: "0 < t" and "y \<le> x div t"
  then have "y * t \<le> x div t * t" by (simp add: mult_right_mono)
  also have "\<dots> \<le> x" using t pos_mod_sign [of t x] div_mult_mod_eq [of x t] by linarith
  finally show "y * t \<le> x" .
qed (metis nonzero_mult_div_cancel_right less_irrefl zdiv_mono1)

lemma div_less_int: "0 < (t::int) \<Longrightarrow> x div t < y \<longleftrightarrow> x < y * t"
  using le_div_int [of t y x] by (simp add: not_le [symmetric])

lemma mult_div_step:
  assumes "(l::int) < h" and "t \<le> r" and "0 < t"
  shows "r * l div t + 1 \<le> r * h div t"
proof -
  have "0 \<le> (r * (h - 1 - l))" using assms by simp
  then have "r * l + 1 * t \<le> r * h" using assms(2) by (simp add: algebra_simps)
  from zdiv_mono1 [OF this assms(3)] show ?thesis using assms(3) by (simp add: div_mult_self1 del: mult_1)
qed

lemma narrow_proper:
  assumes "settled e" and "0 \<le> l" and "l < h" and "h \<le> t" and "t \<le> QUARTER"
  shows "proper (narrow l h t e)" and "inside f (narrow l h t e) \<Longrightarrow> inside f e"
proof -
  let ?r = "ae_high e - ae_low e + 1"
  have t: "0 < t" "t \<le> ?r" using assms settled_width [OF assms(1)] by simp_all
  have s: "?r * l div t + 1 \<le> ?r * h div t" by (rule mult_div_step) (use assms t in simp_all)
  have "?r * h \<le> ?r * t" using assms(4) t by (intro mult_left_mono) simp_all
  then have "?r * h div t \<le> ?r" using zdiv_mono1 [of "?r * h" "?r * t" t] t by simp
  moreover have "0 \<le> ?r * l div t" using t assms(2) by (simp add: pos_imp_zdiv_nonneg_iff)
  ultimately show "proper (narrow l h t e)" "inside f (narrow l h t e) \<Longrightarrow> inside f e"
    using s assms(1) by (auto simp: proper_def settled_def inside_def)
qed

lemma scaled_range_iff:
  assumes "0 < (r::int)" and "0 < t"
  shows "l \<le> ((u + 1) * t - 1) div r \<and> ((u + 1) * t - 1) div r < h \<longleftrightarrow> r * l div t \<le> u \<and> u + 1 \<le> r * h div t"
proof -
  have "l \<le> ((u + 1) * t - 1) div r \<longleftrightarrow> r * l div t < u + 1"
    unfolding le_div_int [OF assms(1)] div_less_int [OF assms(2)] by (simp add: mult.commute)
  moreover have "((u + 1) * t - 1) div r < h \<longleftrightarrow> u + 1 \<le> r * h div t"
    unfolding le_div_int [OF assms(2)] div_less_int [OF assms(1)] by (auto simp: mult.commute)
  ultimately show ?thesis by auto
qed

lemma scaled_in_range:
  assumes "follows d e" and "settled e" and "0 < t" and "inside (data_stream (ad_data d)) (narrow l h t e)"
  shows "l \<le> scaled_value t d" and "scaled_value t d < h"
proof -
  have r: "0 < ae_high e - ae_low e + 1" using settled_width [OF assms(2)] by (simp add: QUARTER_def)
  show "l \<le> scaled_value t d" "scaled_value t d < h"
    using scaled_range_iff [OF r assms(3), of l "ad_value d - ae_low e" h] assms(1,4)
    by (simp_all add: scaled_value_def follows_def inside_def algebra_simps)
qed

lemma decoder_narrow_follows: "follows d e \<Longrightarrow> follows (decoder_narrow l h t d) (narrow l h t e)" "ad_data (decoder_narrow l h t d) = ad_data d"
  by (simp_all add: follows_def decoder_narrow_def Let_def shifts_def) (simp add: narrow_def Let_def)

text \<open>What the two decoding methods promise: when the scaled value lies in the range of a symbol, that symbol is returned and its
  interval taken. Then a symbol coded by an encoder is read back by every decoder that follows it, whatever is coded afterwards.\<close>

locale ranged_decoder =
  fixes decode :: "ArithmeticDecoder \<Rightarrow> (nat \<times> ArithmeticDecoder) option" and lo hi :: "nat \<Rightarrow> int" and tot :: int and good :: "nat \<Rightarrow> bool"
  assumes range: "good s \<Longrightarrow> 0 \<le> lo s \<and> lo s < hi s \<and> hi s \<le> tot \<and> tot \<le> QUARTER"
    and picks: "good s \<Longrightarrow> lo s \<le> scaled_value tot d \<Longrightarrow> scaled_value tot d < hi s \<Longrightarrow>
      decode d = map_option (Pair s) (decoder_renorm (decoder_narrow (lo s) (hi s) tot d))"
begin

lemma encodes:
  assumes "settled e" and "good s"
  obtains e' where "encode_symbol (lo s) (hi s) tot e = Some e'" and "settled e'" and "\<And>f. inside f e' \<Longrightarrow> inside f e"
    and "\<And>d. follows d e \<Longrightarrow> inside (data_stream (ad_data d)) e' \<Longrightarrow> \<exists>d'. decode d = Some (s, d') \<and> follows d' e' \<and> ad_data d' = ad_data d"
proof -
  let ?n = "narrow (lo s) (hi s) tot e"
  have n: "proper ?n" "\<And>f. inside f ?n \<Longrightarrow> inside f e" using narrow_proper [OF assms(1)] range [OF assms(2)] by auto
  obtain e' where e: "encoder_renorm ?n = Some e'" "settled e'" "\<And>f. inside f e' \<longleftrightarrow> inside f ?n" using encoder_renorm_ends [OF n(1)] by blast
  have "\<exists>d'. decode d = Some (s, d') \<and> follows d' e' \<and> ad_data d' = ad_data d"
    if d: "follows d e" "inside (data_stream (ad_data d)) e'" for d
  proof -
    have i: "inside (data_stream (ad_data d)) ?n" using d(2) e(3) by simp
    have "decode d = map_option (Pair s) (decoder_renorm (decoder_narrow (lo s) (hi s) tot d))"
      using picks [OF assms(2)] scaled_in_range [OF d(1) assms(1) _ i] range [OF assms(2)] by simp
    then show ?thesis
      using decoder_renorm_follows [OF decoder_narrow_follows(1) [OF d(1)] n(1) _ e(1)] i decoder_narrow_follows(2) by fastforce
  qed
  then show thesis using that e n(2) by (simp add: encode_symbol_def)
qed

end

interpretation uniform: ranged_decoder "decode_uniform n" "\<lambda>i. int i" "\<lambda>i. int i + 1" "int n" "\<lambda>i. i < n \<and> int n \<le> QUARTER" for n
  by unfold_locales (auto simp: decode_uniform_def Let_def max_def)

section \<open>Symbols of a cumulative table\<close>

definition cdf_ok :: "int list \<Rightarrow> bool" where
  "cdf_ok highs \<longleftrightarrow> highs \<noteq> [] \<and> sorted highs \<and> 0 \<le> hd highs \<and> last highs = CDF_SCALE"

lemma search_index_finds:
  assumes "sorted highs" and "left \<le> right" and "right < length highs" and "x < highs ! right" and "left > 0 \<Longrightarrow> highs ! (left - 1) \<le> x"
  shows "search_index highs x left right < length highs \<and> x < highs ! search_index highs x left right
    \<and> (search_index highs x left right > 0 \<longrightarrow> highs ! (search_index highs x left right - 1) \<le> x)"
  using assms
proof (induction highs x left right rule: search_index.induct)
  case (1 highs x left right)
  show ?case
  proof (cases "left < right")
    case True
    let ?mid = "(left + right) div 2"
    have mid: "left \<le> ?mid" "?mid < right" using True by auto
    show ?thesis
    proof (cases "highs ! ?mid \<le> x")
      case hi: True
      then show ?thesis using "1.IH"(1) [OF True refl hi "1.prems"(1)] "1.prems" mid by (simp add: search_index.simps [of highs x left right] True)
    next
      case False
      then show ?thesis using "1.IH"(2) [OF True refl False "1.prems"(1)] "1.prems" mid by (simp add: search_index.simps [of highs x left right] True)
    qed
  next
    case False
    then have "left = right" using "1.prems"(2) by simp
    then show ?thesis using "1.prems" by (simp add: search_index.simps [of highs x right right])
  qed
qed

lemma search_index_cdf:
  assumes "cdf_ok highs" and "0 \<le> x" and "x < CDF_SCALE"
  defines "i \<equiv> search_index highs x 0 (length highs - 1)"
  shows "i < length highs \<and> low_count_of highs i \<le> x \<and> x < highs ! i"
  using search_index_finds [of highs 0 "length highs - 1" x] assms by (auto simp: cdf_ok_def low_count_of_def last_conv_nth)

lemma cdf_range:
  assumes "cdf_ok highs" and "i < length highs"
  shows "0 \<le> low_count_of highs i" and "highs ! i \<le> CDF_SCALE" and "low_count_of highs i \<le> highs ! i"
proof -
  have s: "sorted highs" "0 \<le> highs ! 0" "highs ! (length highs - 1) = CDF_SCALE"
    using assms(1) by (auto simp: cdf_ok_def hd_conv_nth last_conv_nth)
  have n: "highs ! j \<le> highs ! k" if "j \<le> k" "k < length highs" for j k using sorted_nth_mono [OF s(1)] that by blast
  show "0 \<le> low_count_of highs i" using n [of 0 "i - 1"] s(2) assms(2) by (fastforce simp: low_count_of_def)
  show "highs ! i \<le> CDF_SCALE" using n [of i "length highs - 1"] s(3) assms(2) by simp
  show "low_count_of highs i \<le> highs ! i" using n [of "i - 1" i] n [of 0 i] s(2) assms(2) by (auto simp: low_count_of_def)
qed

lemma search_index_unique:
  assumes "cdf_ok highs" and "i < length highs" and "low_count_of highs i \<le> x" and "x < highs ! i"
  shows "search_index highs x 0 (length highs - 1) = i"
proof -
  let ?j = "search_index highs x 0 (length highs - 1)"
  have x: "0 \<le> x" "x < CDF_SCALE" using cdf_range [OF assms(1,2)] assms(3,4) by linarith+
  have j: "?j < length highs" "low_count_of highs ?j \<le> x" "x < highs ! ?j" using search_index_cdf [OF assms(1) x] by auto
  have n: "highs ! a \<le> highs ! b" if "a \<le> b" "b < length highs" for a b
    using assms(1) sorted_nth_mono [of highs] that by (auto simp: cdf_ok_def)
  have "\<not> ?j < i"
  proof
    assume "?j < i"
    then have "?j \<le> i - 1" "i - 1 < length highs" "0 < i" using assms(2) by simp_all
    then show False using n [of ?j "i - 1"] j(3) assms(3) by (simp add: low_count_of_def)
  qed
  moreover have "\<not> i < ?j"
  proof
    assume "i < ?j"
    then have "i \<le> ?j - 1" "?j - 1 < length highs" "0 < ?j" using j(1) by simp_all
    then show False using n [of i "?j - 1"] j(2) assms(4) by (simp add: low_count_of_def)
  qed
  ultimately show ?thesis by simp
qed

interpretation model: ranged_decoder "decode_model_index highs" "low_count_of highs" "\<lambda>i. highs ! i" CDF_SCALE
    "\<lambda>i. cdf_ok highs \<and> i < length highs \<and> low_count_of highs i < highs ! i" for highs
proof
  fix s assume s: "cdf_ok highs \<and> s < length highs \<and> low_count_of highs s < highs ! s"
  then show "0 \<le> low_count_of highs s \<and> low_count_of highs s < highs ! s \<and> highs ! s \<le> CDF_SCALE \<and> CDF_SCALE \<le> QUARTER"
    using cdf_range by (auto simp: CDF_SCALE_def QUARTER_def)
  fix d assume "low_count_of highs s \<le> scaled_value CDF_SCALE d" "scaled_value CDF_SCALE d < highs ! s"
  then show "decode_model_index highs d = map_option (Pair s) (decoder_renorm (decoder_narrow (low_count_of highs s) (highs ! s) CDF_SCALE d))"
    using s search_index_unique [of highs s] by (simp add: decode_model_index_def Let_def)
qed

section \<open>The end of the stream\<close>

lemma stream_window: "length bits \<le> n \<Longrightarrow> window (stream_of bits) n = 2 ^ (n - length bits) * bits_value bits"
  using window_past [of bits "n - length bits"] by simp

lemma finish_length: "length (finish_bits e) = shifts e + 2"
  by (simp add: finish_bits_def emit_bit_def shifts_def)

lemma finish_value:
  "bits_value (finish_bits e) = 4 * 2 ^ ae_pending e * bits_value (ae_bits e) + (if ae_low e < QUARTER then 2 * 2 ^ ae_pending e - 1 else 2 * 2 ^ ae_pending e)"
  using bits_value_emit [of "ae_bits e" "\<not> ae_low e < QUARTER" "Suc (ae_pending e)"] by (simp add: finish_bits_def emit_bit_def)

lemma finish_inside:
  assumes "settled e"
  shows "inside (stream_of (finish_bits e)) e"
proof -
  have "PRECISION + shifts e - length (finish_bits e) = 30" by (simp add: finish_length PRECISION_def)
  then have "window (stream_of (finish_bits e)) (PRECISION + shifts e) = 2 ^ 30 * bits_value (finish_bits e)"
    using stream_window [of "finish_bits e" "PRECISION + shifts e"] by (simp add: finish_length PRECISION_def)
  then have "register (stream_of (finish_bits e)) e = (if ae_low e < QUARTER then QUARTER else HALF)"
    by (simp add: register_def finish_value shifted_out_def arith_consts algebra_simps)
  then show ?thesis using assms by (auto simp: inside_def settled_def arith_consts)
qed

section \<open>Packing\<close>

definition put_bit :: "nat \<times> bool \<Rightarrow> bytes \<Rightarrow> bytes" where
  "put_bit = (\<lambda>(i, b) out. if b then out[i div 8 := out ! (i div 8) OR push_bit (7 - i mod 8) 1] else out)"

lemma put_bit_stream:
  assumes "n < length out * 8"
  shows "data_stream (put_bit (n, b) out) i \<longleftrightarrow> data_stream out i \<or> (i = n \<and> b)"
proof (cases "b \<and> i div 8 = n div 8 \<and> i < length out * 8")
  case True
  have "i mod 8 = n mod 8 \<longleftrightarrow> i = n" using True by (metis div_mult_mod_eq)
  then have "7 - i mod 8 = 7 - n mod 8 \<longleftrightarrow> i = n"
    using mod_less_divisor [of 8 i] mod_less_divisor [of 8 n] by linarith
  moreover have "bit (push_bit a 1 :: byte) k \<longleftrightarrow> k = a" if "a < 8" for a k using that by (auto simp: bit_simps)
  then have "bit (push_bit (7 - n mod 8) 1 :: byte) (7 - i mod 8) \<longleftrightarrow> 7 - i mod 8 = 7 - n mod 8" by simp
  moreover have "data_stream (put_bit (n, b) out) i \<longleftrightarrow> bit (out ! (n div 8) OR push_bit (7 - n mod 8) 1) (7 - i mod 8)"
    using True assms by (simp add: data_stream_def put_bit_def del: push_bit_of_1)
  moreover have "data_stream out i \<longleftrightarrow> bit (out ! (n div 8)) (7 - i mod 8)" using True by (simp add: data_stream_def)
  ultimately show ?thesis using True by (simp only: bit_or_iff) simp
next
  case False
  then show ?thesis using assms by (auto simp: data_stream_def put_bit_def nth_list_update)
qed

lemma put_bits:
  assumes "length bits \<le> length out * 8" and "\<And>i. data_stream out i \<Longrightarrow> False"
  shows "length (fold put_bit (enumerate 0 bits) out) = length out \<and> data_stream (fold put_bit (enumerate 0 bits) out) = stream_of bits"
  using assms(1)
proof (induction bits rule: rev_induct)
  case Nil
  then show ?case using assms(2) by (auto simp: stream_of_def)
next
  case (snoc b bits)
  let ?o = "fold put_bit (enumerate 0 bits) out" and ?n = "length bits"
  have o: "length ?o = length out" "data_stream ?o = stream_of bits" using snoc by auto
  have eq: "fold put_bit (enumerate 0 (bits @ [b])) out = put_bit (?n, b) ?o" by (simp add: enumerate_append_eq)
  have "data_stream (put_bit (?n, b) ?o) i = stream_of (bits @ [b]) i" for i
  proof -
    have si: "stream_of (bits @ [b]) i \<longleftrightarrow> stream_of bits i \<or> (i = ?n \<and> b)" by (auto simp: stream_of_def nth_append)
    have "data_stream (put_bit (?n, b) ?o) i \<longleftrightarrow> data_stream ?o i \<or> (i = ?n \<and> b)"
      by (rule put_bit_stream) (use snoc.prems o(1) in simp)
    then show ?thesis using si o(2) by simp
  qed
  moreover have "length (put_bit x ?o) = length ?o" for x by (cases x) (simp add: put_bit_def)
  ultimately show ?case unfolding eq using o(1) by auto
qed

lemma bits_to_bytes_stream: "data_stream (bits_to_bytes bits) = stream_of bits"
proof -
  have "bits_to_bytes bits = fold put_bit (enumerate 0 bits) (replicate ((length bits + 7) div 8) 0)"
    by (simp add: bits_to_bytes_def put_bit_def)
  moreover have "length bits \<le> length (replicate ((length bits + 7) div 8) (0::byte)) * 8" by simp
  moreover have "\<not> data_stream (replicate n 0) i" for n i by (auto simp: data_stream_def)
  ultimately show ?thesis using put_bits by metis
qed

lemma data_stream_zeros: "data_stream (xs @ replicate n 0) = data_stream xs"
proof
  fix i
  show "data_stream (xs @ replicate n 0) i = data_stream xs i"
  proof (cases "i div 8 < length xs")
    case True
    then show ?thesis by (auto simp: data_stream_def nth_append)
  next
    case False
    then show ?thesis by (auto simp: data_stream_def nth_append)
  qed
qed

lemma min_bytes_stream: "data_stream (bits_to_min_bytes bits) = stream_of bits"
proof -
  let ?o = "bits_to_bytes bits"
  have "?o = rev (dropWhile (\<lambda>b. b = 0) (rev ?o)) @ rev (takeWhile (\<lambda>b. b = 0) (rev ?o))"
    by (metis rev_append rev_rev_ident takeWhile_dropWhile_id)
  moreover have "takeWhile (\<lambda>b. b = 0) (rev ?o) = replicate (length (takeWhile (\<lambda>b. b = 0) (rev ?o))) 0"
    by (rule replicate_eqI) (auto dest: set_takeWhileD)
  ultimately have "?o = bits_to_min_bytes bits @ replicate (length (takeWhile (\<lambda>b. b = 0) (rev ?o))) 0"
    by (metis bits_to_min_bytes_def rev_replicate)
  then show ?thesis by (metis bits_to_bytes_stream data_stream_zeros)
qed

section \<open>Decoding arbitrary data\<close>

definition decoder_ok :: "ArithmeticDecoder \<Rightarrow> bool" where
  "decoder_ok d \<longleftrightarrow> 0 \<le> ad_low d \<and> ad_low d < HALF \<and> HALF \<le> ad_high d \<and> ad_high d < FULL \<and> (ad_low d < QUARTER \<or> THREE_QUARTER \<le> ad_high d)
     \<and> ad_low d \<le> ad_value d \<and> ad_value d \<le> ad_high d"

lemma decoder_renorm_ends:
  assumes "0 \<le> ad_low d" and "ad_low d \<le> ad_value d" and "ad_value d \<le> ad_high d" and "ad_high d < FULL"
  shows "\<exists>d'. decoder_renorm d = Some d' \<and> decoder_ok d'"
  using assms
proof (induction "nat (FULL - (ad_high d - ad_low d))" arbitrary: d rule: less_induct)
  case less
  have lh: "ad_low d \<le> ad_high d" using less.prems by simp
  show ?case
  proof (cases "shift_offset (ad_low d) (ad_high d)")
    case None
    then show ?thesis using less.prems by (auto simp: decoder_renorm_step [of d] decoder_ok_def shift_offset_def arith_consts split: if_splits)
  next
    case (Some c)
    note m = shift_bounds [OF less.prems(1) lh less.prems(4) Some]
    obtain b d1 where r: "read_bit d = (b, d1)" by fastforce
    have v: "(2 * (ad_value d - c) + of_bool b) mod FULL = 2 * (ad_value d - c) + of_bool b" using m [OF less.prems(2,3)] by (cases b) simp_all
    have s: "ad_low (decoder_shift c d) = 2 * (ad_low d - c)" "ad_high (decoder_shift c d) = 2 * (ad_high d - c) + 1"
      "ad_value (decoder_shift c d) = 2 * (ad_value d - c) + of_bool b"
      using m(1) [of "ad_low d"] m(2) [of "ad_high d"] lh v by (simp_all add: decoder_shift_def r)
    have g: "0 \<le> ad_low (decoder_shift c d)" "ad_high (decoder_shift c d) < FULL" by (simp_all add: decoder_shift_def r FULL_def)
    have "nat (FULL - (ad_high (decoder_shift c d) - ad_low (decoder_shift c d))) < nat (FULL - (ad_high d - ad_low d))"
      using s less.prems lh by auto
    from less.hyps [OF this g(1) _ _ g(2)] show ?thesis using s less.prems by (auto simp: decoder_renorm_step [of d] Some)
  qed
qed

lemma scaled_value_bounds:
  assumes "decoder_ok d" and "0 < t"
  shows "0 \<le> scaled_value t d" and "scaled_value t d < t"
proof -
  let ?r = "ad_high d - ad_low d + 1" and ?u = "ad_value d - ad_low d"
  have r: "0 < ?r" "0 \<le> ?u" "?u + 1 \<le> ?r" using assms(1) by (auto simp: decoder_ok_def)
  have "?r * 0 div t \<le> ?u \<and> ?u + 1 \<le> ?r * t div t" using r assms(2) by simp
  then show "0 \<le> scaled_value t d" "scaled_value t d < t" using scaled_range_iff [OF r(1) assms(2), of 0 ?u t] by (simp_all add: scaled_value_def)
qed

lemma narrowed_renorm:
  assumes "decoder_ok d" and "0 < t" and "0 \<le> l" and "h \<le> t" and "l \<le> scaled_value t d" and "scaled_value t d < h"
  shows "\<exists>d'. decoder_renorm (decoder_narrow l h t d) = Some d' \<and> decoder_ok d'"
proof (rule decoder_renorm_ends)
  let ?r = "ad_high d - ad_low d + 1" and ?u = "ad_value d - ad_low d"
  have r: "0 < ?r" using assms(1) by (auto simp: decoder_ok_def)
  have iff: "?r * l div t \<le> ?u \<and> ?u + 1 \<le> ?r * h div t" using scaled_range_iff [OF r assms(2), of l ?u h] assms(5,6) by (simp add: scaled_value_def)
  have "0 \<le> ?r * l div t" using r assms(2,3) by (simp add: pos_imp_zdiv_nonneg_iff)
  moreover have "?r * h \<le> ?r * t" using assms(4) r by (intro mult_left_mono) simp_all
  then have "?r * h div t \<le> ?r" using zdiv_mono1 [of "?r * h" "?r * t" t] assms(2) by simp
  ultimately show "0 \<le> ad_low (decoder_narrow l h t d)" "ad_low (decoder_narrow l h t d) \<le> ad_value (decoder_narrow l h t d)"
    "ad_value (decoder_narrow l h t d) \<le> ad_high (decoder_narrow l h t d)" "ad_high (decoder_narrow l h t d) < FULL"
    using iff assms(1) by (auto simp: decoder_narrow_def Let_def decoder_ok_def)
qed

lemma decode_model_total:
  assumes "decoder_ok d" and "cdf_ok highs"
  obtains i d' where "decode_model_index highs d = Some (i, d')" and "i < length highs" and "decoder_ok d'"
proof -
  let ?i = "search_index highs (scaled_value CDF_SCALE d) 0 (length highs - 1)"
  have "0 < CDF_SCALE" by (simp add: CDF_SCALE_def)
  note b = scaled_value_bounds [OF assms(1) this]
  have i: "?i < length highs" "low_count_of highs ?i \<le> scaled_value CDF_SCALE d" "scaled_value CDF_SCALE d < highs ! ?i"
    using search_index_cdf [OF assms(2) b] by auto
  obtain d' where "decoder_renorm (decoder_narrow (low_count_of highs ?i) (highs ! ?i) CDF_SCALE d) = Some d'" "decoder_ok d'"
    using narrowed_renorm [OF assms(1) \<open>0 < CDF_SCALE\<close> cdf_range(1) [OF assms(2) i(1)] cdf_range(2) [OF assms(2) i(1)] i(2,3)] by blast
  then show thesis using that i(1) by (simp add: decode_model_index_def)
qed

lemma decode_uniform_total:
  assumes "decoder_ok d" and "0 < n"
  obtains i d' where "decode_uniform n d = Some (i, d')" and "i < n" and "decoder_ok d'"
proof -
  note b = scaled_value_bounds [OF assms(1), of "int n"]
  let ?s = "scaled_value (int n) d"
  obtain d' where "decoder_renorm (decoder_narrow ?s (?s + 1) (int n) d) = Some d'" "decoder_ok d'"
    using narrowed_renorm [OF assms(1), of "int n" ?s "?s + 1"] b assms(2) by auto
  then show thesis using that [of "nat ?s" d'] b assms(2) by (simp add: decode_uniform_def Let_def)
qed

lemma window_range: "0 \<le> window f n \<and> window f n < 2 ^ n"
  by (induction n) auto

lemma new_decoder_ok: "decoder_ok (new_arith_decoder data)"
  using window_range [of "data_stream data" PRECISION]
  by (simp add: new_arith_decoder_def take_bits_in decoder_ok_def arith_consts PRECISION_def del: window.simps)

end
