(* ===== verification/Mcmp.thy ===== *)
theory Mcmp
  imports Arith Base91 "HOL-Library.List_Lexorder" "HOL-Library.Multiset"
begin

text \<open>
  The MCMP text compressor (\<open>src/app/compression/mcmp.py\<close>): the n-gram model and its blended cumulative tables, the arithmetic
  coding of a text with escapes for characters outside the model, the \<open>mcmp2:\<close> text transport and the \<open>mcmp3:\<close> container.

  The tables are computed in floating point. A float operation is the exact operation followed by a rounding, and the rounding and
  the logarithm are arguments of the model, so nothing depends on their last bits; the cache of tables is left out.
\<close>

section \<open>Characters\<close>

definition utext :: "string \<Rightarrow> ustr" where
  "utext s = map of_char s"

definition as_string :: "ustr \<Rightarrow> string option" where
  "as_string u = (if list_all (\<lambda>c. c < 256) u then Some (map char_of u) else None)"

text \<open>White space of \<open>str.lstrip\<close>.\<close>

definition uspace :: "nat \<Rightarrow> bool" where
  "uspace c \<longleftrightarrow> 9 \<le> c \<and> c \<le> 13 \<or> 28 \<le> c \<and> c \<le> 32 \<or> c = 133 \<or> c = 160 \<or> c = 0x1680 \<or> 0x2000 \<le> c \<and> c \<le> 0x200A
     \<or> c = 0x2028 \<or> c = 0x2029 \<or> c = 0x202F \<or> c = 0x205F \<or> c = 0x3000"

definition lstrip :: "ustr \<Rightarrow> ustr" where
  "lstrip s = dropWhile uspace s"

definition BOS :: nat where "BOS = 2"
definition EOF_SYMBOL :: nat where "EOF_SYMBOL = 3"
definition ESC :: nat where "ESC = 4"
definition SCRIPT_BOOST :: int where "SCRIPT_BOOST = 8"
definition ESC_PROB :: int where "ESC_PROB = 500"
definition DECODE_HARD_LIMIT :: nat where "DECODE_HARD_LIMIT = 4096"
definition PREFIX_V2 :: ustr where "PREFIX_V2 = utext ''mcmp2:''"
definition PREFIX_V3 :: ustr where "PREFIX_V3 = utext ''mcmp3:''"

datatype script = Common | Latin | Cyrillic | OtherScript

definition char_script :: "nat \<Rightarrow> script" where
  "char_script cp =
     (if cp < 0x41 then Common
      else if cp \<le> 0x24F \<or> (0x1E00 \<le> cp \<and> cp \<le> 0x1EFF) then Latin
      else if 0x400 \<le> cp \<and> cp \<le> 0x52F then Cyrillic
      else if cp > 0xFFFF then Common
      else OtherScript)"

section \<open>Model\<close>

record MeshModel =
  mm_order :: nat
  mm_vocab :: "nat list"
  mm_counts :: "(ustr \<Rightarrow> (nat \<times> int) list option) list"

text \<open>\<open>s.encode("utf-16-be")\<close> of one character, in code units; the order of big-endian bytes is the order of the units.\<close>

definition utf16_units :: "nat \<Rightarrow> nat list" where
  "utf16_units cp = (if cp > 0xFFFF then [0xD800 + (cp - 0x10000) div 0x400, 0xDC00 + (cp - 0x10000) mod 0x400] else [cp])"

definition from_dict :: "nat \<Rightarrow> nat list \<Rightarrow> (ustr \<Rightarrow> (nat \<times> int) list option) list \<Rightarrow> MeshModel" where
  "from_dict order v c =
     (let v1 = (if EOF_SYMBOL \<in> set v then v else v @ [EOF_SYMBOL]); v2 = (if ESC \<in> set v1 then v1 else v1 @ [ESC])
      in \<lparr>mm_order = order, mm_vocab = sort_key utf16_units v2, mm_counts = take (Suc order) c\<rparr>)"

definition vocab_index :: "MeshModel \<Rightarrow> nat \<Rightarrow> nat option" where
  "vocab_index m ch = map_of (rev (zip (mm_vocab m) [0..<length (mm_vocab m)])) ch"

definition totals :: "MeshModel \<Rightarrow> nat \<Rightarrow> ustr \<Rightarrow> int" where
  "totals m n ctx = (case (mm_counts m ! n) ctx of None \<Rightarrow> 0 | Some sym_counts \<Rightarrow> sum_list (map snd sym_counts))"

record float_ops =
  fo_round :: "real \<Rightarrow> real"
  fo_log :: "int \<Rightarrow> real"

text \<open>\<open>int(x)\<close> of a float.\<close>

definition trunc :: "real \<Rightarrow> int" where
  "trunc x = (if 0 \<le> x then \<lfloor>x\<rfloor> else \<lceil>x\<rceil>)"

definition context_tail :: "nat \<Rightarrow> ustr \<Rightarrow> ustr" where
  "context_tail n context = (if n > 0 then drop (length context - n) context else [])"

definition level_weight :: "float_ops \<Rightarrow> nat \<Rightarrow> int \<Rightarrow> real" where
  "level_weight fo n t =
     (let fl = fo_round fo; confidence = fl (fl (of_int t) / fl (fl (of_int t) + 1.5))
      in fl (fl (fl (of_nat ((n + 1) ^ 3)) * fo_log fo (t + 1)) * confidence))"

definition active_levels :: "float_ops \<Rightarrow> MeshModel \<Rightarrow> ustr \<Rightarrow> (nat \<times> ustr \<times> int \<times> real) list" where
  "active_levels fo m context =
     map (\<lambda>n. let ctx = context_tail n context; t = totals m n ctx in (n, ctx, t, level_weight fo n t))
       (filter (\<lambda>n. totals m n (context_tail n context) > 0) (rev [0..<Suc (mm_order m)]))"

definition total_weight :: "float_ops \<Rightarrow> (nat \<times> ustr \<times> int \<times> real) list \<Rightarrow> real" where
  "total_weight fo active = fold (\<lambda>(n, ctx, t, w) acc. fo_round fo (acc + w)) active 0"

definition effective_boost :: "(nat \<times> ustr \<times> int \<times> real) list \<Rightarrow> int" where
  "effective_boost active = (if active = [] \<or> fst (hd active) \<le> 2 then SCRIPT_BOOST * 4 else SCRIPT_BOOST)"

fun context_script :: "ustr \<Rightarrow> script option \<Rightarrow> script option" where
  "context_script [] found = found"
| "context_script (ch # rest) found =
     (if ch = BOS then context_script rest found
      else if char_script ch \<noteq> Common then Some (char_script ch)
      else context_script rest (Some (char_script ch)))"

definition epsilon_of :: "script option \<Rightarrow> int \<Rightarrow> bool \<Rightarrow> nat \<Rightarrow> int" where
  "epsilon_of found boost has_escapes ch =
     (if ch = ESC then (if has_escapes then ESC_PROB else 0)
      else if (case found of None \<Rightarrow> False | Some s \<Rightarrow> s \<noteq> Common \<and> char_script ch \<in> {s, Common}) then boost
      else if char_script ch = Common then max 1 (boost div 3)
      else 1)"

definition rescale :: "float_ops \<Rightarrow> int list \<Rightarrow> int list" where
  "rescale fo freqs =
     (if sum_list freqs > CDF_SCALE div 2 then
        let scale_factor = fo_round fo (of_int (CDF_SCALE div 2) / of_int (sum_list freqs))
        in map (\<lambda>f. max 1 (trunc (fo_round fo (fo_round fo (of_int f) * scale_factor)))) freqs
      else freqs)"

definition add_counts :: "float_ops \<Rightarrow> MeshModel \<Rightarrow> real \<Rightarrow> (nat \<times> int) list \<Rightarrow> int list \<Rightarrow> int list" where
  "add_counts fo m factor sym_counts freqs =
     fold (\<lambda>(sym, v) fr.
             case vocab_index m sym of
               None \<Rightarrow> fr
             | Some i \<Rightarrow> fr[i := fr ! i + trunc (fo_round fo (fo_round fo (of_int v) * factor))]) sym_counts freqs"

definition blend :: "float_ops \<Rightarrow> MeshModel \<Rightarrow> (nat \<times> ustr \<times> int \<times> real) list \<Rightarrow> int list \<Rightarrow> int list" where
  "blend fo m active freqs =
     (let tw = total_weight fo active; scale = CDF_SCALE - sum_list freqs; fl = fo_round fo
      in if tw > 0 then
           fold (\<lambda>(n, ctx, t, w) fr.
                   case (mm_counts m ! n) ctx of
                     None \<Rightarrow> fr
                   | Some sym_counts \<Rightarrow> add_counts fo m (fl (fl (fl (w / tw) * fl (of_int scale)) / fl (of_int t))) sym_counts fr) active freqs
         else freqs)"

text \<open>The first index of the largest entry.\<close>

definition max_index :: "int list \<Rightarrow> nat" where
  "max_index freqs = fold (\<lambda>i best. if freqs ! i > freqs ! best then i else best) [1..<length freqs] 0"

fun trim_largest :: "nat list \<Rightarrow> int \<Rightarrow> int list \<Rightarrow> int list" where
  "trim_largest [] remaining freqs = freqs"
| "trim_largest (i # is) remaining freqs =
     (if remaining \<le> 0 then freqs
      else let remove = min (freqs ! i - 1) remaining in trim_largest is (remaining - remove) (freqs[i := freqs ! i - remove]))"

definition balance :: "int list \<Rightarrow> int list" where
  "balance freqs =
     (let diff = CDF_SCALE - sum_list freqs
      in if diff = 0 then freqs
         else if diff > 0 then freqs[max_index freqs := freqs ! max_index freqs + diff]
         else trim_largest (sort_key (\<lambda>i. - (freqs ! i)) [0..<length freqs]) (- diff) freqs)"

fun cumulate :: "int \<Rightarrow> int list \<Rightarrow> int list" where
  "cumulate acc [] = []"
| "cumulate acc (f # fs) = (acc + f) # cumulate (acc + f) fs"

definition base_freqs :: "float_ops \<Rightarrow> MeshModel \<Rightarrow> ustr \<Rightarrow> bool \<Rightarrow> int list" where
  "base_freqs fo m context has_escapes =
     map (epsilon_of (context_script (rev context) None) (effective_boost (active_levels fo m context)) has_escapes) (mm_vocab m)"

definition compute_cdf :: "float_ops \<Rightarrow> MeshModel \<Rightarrow> ustr \<Rightarrow> bool \<Rightarrow> int list" where
  "compute_cdf fo m context has_escapes =
     cumulate 0 (balance (blend fo m (active_levels fo m context) (rescale fo (base_freqs fo m context has_escapes))))"

section \<open>Coding a text\<close>

definition append_context :: "ustr \<Rightarrow> nat \<Rightarrow> nat \<Rightarrow> ustr" where
  "append_context context ch order =
     (let combined = context @ [ch]
      in if length combined \<le> order then combined else if order = 0 then combined else drop (length combined - order) combined)"

definition UNICODE_BLOCKS :: "(nat \<times> nat) list" where
  "UNICODE_BLOCKS =
     [(0x0400, 0x04FF), (0x0100, 0x024F), (0x2000, 0x206F), (0x2190, 0x21FF), (0x2600, 0x27BF), (0x1F300, 0x1F5FF), (0x1F600, 0x1F64F),
      (0x1F900, 0x1F9FF), (0xFE00, 0xFE0F), (0x1FA70, 0x1FAFF)]"

definition NUM_BLOCKS :: nat where "NUM_BLOCKS = 10"
definition TOTAL_BLOCK_IDS :: nat where "TOTAL_BLOCK_IDS = NUM_BLOCKS + 1"

definition encode_uniform :: "nat \<Rightarrow> nat \<Rightarrow> ArithmeticEncoder \<Rightarrow> ArithmeticEncoder option" where
  "encode_uniform i n e = encode_symbol (int i) (int i + 1) (int n) e"

definition block_of :: "nat \<Rightarrow> nat option" where
  "block_of cp = find (\<lambda>i. fst (UNICODE_BLOCKS ! i) \<le> cp \<and> cp \<le> snd (UNICODE_BLOCKS ! i)) [0..<NUM_BLOCKS]"

definition encode_codepoint :: "nat \<Rightarrow> ArithmeticEncoder \<Rightarrow> ArithmeticEncoder option" where
  "encode_codepoint cp e =
     (case block_of cp of
        Some i \<Rightarrow>
          Option.bind (encode_uniform i TOTAL_BLOCK_IDS e)
            (encode_uniform (cp - fst (UNICODE_BLOCKS ! i)) (snd (UNICODE_BLOCKS ! i) - fst (UNICODE_BLOCKS ! i) + 1))
      | None \<Rightarrow>
          Option.bind (encode_uniform NUM_BLOCKS TOTAL_BLOCK_IDS e) (\<lambda>e1.
          Option.bind (encode_uniform (cp AND 0x7F) 128 e1) (\<lambda>e2.
          Option.bind (encode_uniform (drop_bit 7 cp AND 0x7F) 128 e2)
            (encode_uniform (drop_bit 14 cp AND 0x7F) 128))))"

definition decode_codepoint :: "ArithmeticDecoder \<Rightarrow> (nat \<times> ArithmeticDecoder) option" where
  "decode_codepoint d =
     Option.bind (decode_uniform TOTAL_BLOCK_IDS d) (\<lambda>(block_id, d1).
       if block_id < NUM_BLOCKS then
         (case UNICODE_BLOCKS ! block_id of (start, fin) \<Rightarrow>
            map_option (\<lambda>(offset, d2). (start + offset, d2)) (decode_uniform (fin - start + 1) d1))
       else
         Option.bind (decode_uniform 128 d1) (\<lambda>(b0, d2).
         Option.bind (decode_uniform 128 d2) (\<lambda>(b1, d3).
         map_option (\<lambda>(b2, d4). ((b0 OR push_bit 7 b1) OR push_bit 14 b2, d4)) (decode_uniform 128 d3))))"

definition encode_index :: "int list \<Rightarrow> nat \<Rightarrow> ArithmeticEncoder \<Rightarrow> ArithmeticEncoder option" where
  "encode_index highs i e = encode_symbol (low_count_of highs i) (highs ! i) CDF_SCALE e"

definition encode_char :: "float_ops \<Rightarrow> MeshModel \<Rightarrow> bool \<Rightarrow> ustr \<Rightarrow> nat \<Rightarrow> ArithmeticEncoder \<Rightarrow> ArithmeticEncoder option" where
  "encode_char fo m has_extras context ch e =
     (let highs = compute_cdf fo m context has_extras
      in case vocab_index m ch of
           Some i \<Rightarrow> encode_index highs i e
         | None \<Rightarrow> Option.bind (encode_index highs (the (vocab_index m ESC)) e) (encode_codepoint ch))"

fun encode_chars :: "float_ops \<Rightarrow> MeshModel \<Rightarrow> bool \<Rightarrow> ustr \<Rightarrow> ustr \<Rightarrow> ArithmeticEncoder \<Rightarrow> ArithmeticEncoder option" where
  "encode_chars fo m has_extras context [] e =
     encode_index (compute_cdf fo m context has_extras) (the (vocab_index m EOF_SYMBOL)) e"
| "encode_chars fo m has_extras context (ch # text) e =
     Option.bind (encode_char fo m has_extras context ch e)
       (encode_chars fo m has_extras (append_context context ch (mm_order m)) text)"

definition has_extras :: "MeshModel \<Rightarrow> ustr \<Rightarrow> bool" where
  "has_extras m text = list_ex (\<lambda>ch. ch \<notin> set (mm_vocab m)) text"

definition compress_arithmetic_bits :: "float_ops \<Rightarrow> MeshModel \<Rightarrow> ustr \<Rightarrow> (bool \<times> bool list) option" where
  "compress_arithmetic_bits fo m text =
     map_option (\<lambda>e. (has_extras m text, finish_bits e))
       (encode_chars fo m (has_extras m text) (replicate (mm_order m) BOS) text new_arith_encoder)"

text \<open>The loop of \<open>_decode_arithmetic\<close>; its first argument is what is left of the \<open>range(_DECODE_HARD_LIMIT)\<close>.\<close>

fun decode_chars :: "nat \<Rightarrow> float_ops \<Rightarrow> MeshModel \<Rightarrow> bool \<Rightarrow> ustr \<Rightarrow> ArithmeticDecoder \<Rightarrow> ustr res option" where
  "decode_chars 0 fo m has_escapes context d = Some (Inr [])"
| "decode_chars (Suc k) fo m has_escapes context d =
     Option.bind (decode_model_index (compute_cdf fo m context has_escapes) d) (\<lambda>(index, d1).
       let ch = mm_vocab m ! index; continue = (\<lambda>c d'.
             map_option (map_sum id ((#) c)) (decode_chars k fo m has_escapes (append_context context c (mm_order m)) d'))
       in if ch = EOF_SYMBOL then Some (Inr [])
          else if ch = ESC \<and> has_escapes then
            Option.bind (decode_codepoint d1) (\<lambda>(cp, d2).
              if cp > 0x10FFFF \<or> (0xD800 \<le> cp \<and> cp \<le> 0xDFFF) then Some (Inl MeshCompressorError) else continue cp d2)
          else continue ch d1)"

definition decode_arithmetic :: "float_ops \<Rightarrow> MeshModel \<Rightarrow> bool \<Rightarrow> bytes \<Rightarrow> ustr res option" where
  "decode_arithmetic fo m has_escapes ac_data =
     decode_chars DECODE_HARD_LIMIT fo m has_escapes (replicate (mm_order m) BOS) (new_arith_decoder ac_data)"

section \<open>The tables are usable\<close>

definition float_ok :: "float_ops \<Rightarrow> bool" where
  "float_ok fo \<longleftrightarrow> mono (fo_round fo) \<and> fo_round fo 0 = 0 \<and> (\<forall>t \<ge> 1. 0 \<le> fo_log fo t)"

definition model_ok :: "MeshModel \<Rightarrow> bool" where
  "model_ok m \<longleftrightarrow> distinct (mm_vocab m) \<and> EOF_SYMBOL \<in> set (mm_vocab m) \<and> ESC \<in> set (mm_vocab m) \<and> length (mm_vocab m) \<le> 1000
     \<and> (\<forall>level \<in> set (mm_counts m). \<forall>ctx sym_counts. level ctx = Some sym_counts \<longrightarrow> (\<forall>p \<in> set sym_counts. 0 \<le> snd p))
     \<and> mm_order m < length (mm_counts m)"

text \<open>Frequencies that give every symbol its share: none negative, and at least one for every symbol but an escape that cannot occur.\<close>

definition shares :: "MeshModel \<Rightarrow> bool \<Rightarrow> int list \<Rightarrow> bool" where
  "shares m esc fr \<longleftrightarrow> length fr = length (mm_vocab m)
     \<and> (\<forall>i < length fr. 0 \<le> fr ! i \<and> (mm_vocab m ! i \<noteq> ESC \<or> esc \<longrightarrow> 1 \<le> fr ! i))"

lemma round_nonneg: "float_ok fo \<Longrightarrow> 0 \<le> x \<Longrightarrow> 0 \<le> fo_round fo x"
  unfolding float_ok_def by (metis monoD)

lemma trunc_nonneg: "0 \<le> x \<Longrightarrow> 0 \<le> trunc x"
  by (simp add: trunc_def)

lemma epsilon_bounds:
  "0 \<le> epsilon_of found (effective_boost act) esc ch \<and> epsilon_of found (effective_boost act) esc ch \<le> 500
   \<and> (ch \<noteq> ESC \<or> esc \<longrightarrow> 1 \<le> epsilon_of found (effective_boost act) esc ch)"
  by (auto simp: epsilon_of_def ESC_PROB_def effective_boost_def SCRIPT_BOOST_def split: option.splits)

lemma sum_list_le: "(\<And>x. x \<in> set xs \<Longrightarrow> x \<le> (c::int)) \<Longrightarrow> sum_list xs \<le> c * int (length xs)"
proof (induction xs)
  case (Cons x xs)
  then have "x \<le> c" "sum_list xs \<le> c * int (length xs)" by simp_all
  then show ?case by (simp add: algebra_simps)
qed simp

lemma base_shares:
  assumes "model_ok m"
  shows "shares m esc (base_freqs fo m ctxt esc)" and "sum_list (base_freqs fo m ctxt esc) \<le> CDF_SCALE div 2"
    and "rescale fo (base_freqs fo m ctxt esc) = base_freqs fo m ctxt esc"
proof -
  show "shares m esc (base_freqs fo m ctxt esc)" using epsilon_bounds by (simp add: shares_def base_freqs_def)
  have "sum_list (base_freqs fo m ctxt esc) \<le> 500 * int (length (base_freqs fo m ctxt esc))"
    using epsilon_bounds by (intro sum_list_le) (auto simp: base_freqs_def)
  also have "\<dots> \<le> CDF_SCALE div 2" using assms by (simp add: base_freqs_def model_ok_def CDF_SCALE_def)
  finally show s: "sum_list (base_freqs fo m ctxt esc) \<le> CDF_SCALE div 2" .
  then show "rescale fo (base_freqs fo m ctxt esc) = base_freqs fo m ctxt esc" by (simp add: rescale_def)
qed

lemma shares_raise:
  assumes "shares m esc fr" and "0 \<le> x"
  shows "shares m esc (fr[i := fr ! i + x])"
  using assms by (cases "i < length fr") (auto simp: shares_def nth_list_update)

lemma add_counts_shares:
  assumes "float_ok fo" and "0 \<le> factor" and "\<forall>p \<in> set sc. 0 \<le> snd p" and "shares m esc fr"
  shows "shares m esc (add_counts fo m factor sc fr)"
  using assms(3,4) unfolding add_counts_def
proof (induction sc arbitrary: fr)
  case (Cons p sc)
  obtain sym v where p: "p = (sym, v)" by fastforce
  have "0 \<le> trunc (fo_round fo (fo_round fo (of_int v) * factor))"
    using Cons.prems(1) assms(1,2) by (intro trunc_nonneg round_nonneg mult_nonneg_nonneg) (simp_all add: p)
  then have "shares m esc (case vocab_index m sym of None \<Rightarrow> fr | Some i \<Rightarrow> fr[i := fr ! i + trunc (fo_round fo (fo_round fo (of_int v) * factor))])"
    using Cons.prems(2) by (simp add: shares_raise split: option.split)
  then show ?case using Cons.IH Cons.prems(1) by (simp add: p)
qed simp

lemma weight_nonneg:
  assumes "float_ok fo" and "0 < t"
  shows "0 \<le> level_weight fo n t"
proof -
  have "0 \<le> fo_log fo (t + 1)" using assms by (simp add: float_ok_def)
  then show ?thesis unfolding level_weight_def Let_def
    by (intro round_nonneg [OF assms(1)] mult_nonneg_nonneg divide_nonneg_nonneg add_nonneg_nonneg) (use assms(2) in simp_all)
qed

lemma active_facts:
  assumes "(n, ctx, t, w) \<in> set (active_levels fo m ctxt)"
  shows "n \<le> mm_order m" "0 < t" "w = level_weight fo n t"
  using assms by (auto simp: active_levels_def Let_def simp del: upt_Suc)

lemma blend_shares:
  assumes "float_ok fo" and "model_ok m" and "shares m esc fr" and "sum_list fr \<le> CDF_SCALE"
  shows "shares m esc (blend fo m (active_levels fo m ctxt) fr)"
proof -
  let ?act = "active_levels fo m ctxt"
  let ?tw = "total_weight fo ?act" and ?fl = "fo_round fo" and ?scale = "CDF_SCALE - sum_list fr"
  let ?step = "\<lambda>(n, ctx, t, w) fr. case (mm_counts m ! n) ctx of None \<Rightarrow> fr
     | Some sc \<Rightarrow> add_counts fo m (?fl (?fl (?fl (w / ?tw) * ?fl (of_int ?scale)) / ?fl (of_int t))) sc fr"
  have "shares m esc (fold ?step as g)" if "set as \<subseteq> set ?act" "shares m esc g" "0 < ?tw" for as g
    using that
  proof (induction as arbitrary: g)
    case (Cons a as)
    obtain n ctx t w where a: "a = (n, ctx, t, w)" by (metis prod_cases4)
    have f: "n \<le> mm_order m" "0 < t" "w = level_weight fo n t" using active_facts Cons.prems(1) unfolding a by auto
    have fac: "0 \<le> ?fl (?fl (?fl (w / ?tw) * ?fl (of_int ?scale)) / ?fl (of_int t))"
      unfolding f(3) using Cons.prems(3) assms(4) f(2)
      by (intro round_nonneg [OF assms(1)] mult_nonneg_nonneg divide_nonneg_nonneg weight_nonneg [OF assms(1)]) simp_all
    have "mm_counts m ! n \<in> set (mm_counts m)" using f(1) assms(2) by (simp add: model_ok_def)
    then have c: "\<forall>p \<in> set sc. 0 \<le> snd p" if "(mm_counts m ! n) ctx = Some sc" for sc using assms(2) that unfolding model_ok_def by blast
    have "shares m esc (?step a g)"
      using add_counts_shares [OF assms(1) fac c Cons.prems(2)] Cons.prems(2) by (simp add: a split: option.split)
    then show ?case using Cons.IH Cons.prems(1,3) by simp
  qed simp
  then show ?thesis using assms(3) by (simp add: blend_def Let_def)
qed

lemma max_index_less:
  assumes "fr \<noteq> []"
  shows "max_index fr < length fr"
proof -
  have "fold (\<lambda>i best. if fr ! i > fr ! best then i else best) is b < length fr" if "b < length fr" "set is \<subseteq> {..<length fr}" for "is" b
    using that by (induction "is" arbitrary: b) auto
  from this [of 0 "[1..<length fr]"] show ?thesis using assms by (simp add: max_index_def subset_iff)
qed

lemma sum_list_update_int: "i < length xs \<Longrightarrow> sum_list (xs[i := (v::int)]) = sum_list xs + v - xs ! i"
proof (induction xs arbitrary: i)
  case (Cons x xs)
  then show ?case by (cases i) simp_all
qed simp

text \<open>What can still be taken from the indices \<open>is\<close> without going below one.\<close>

definition spare :: "int list \<Rightarrow> nat list \<Rightarrow> int" where
  "spare fr is = sum_list (map (\<lambda>i. max 0 (fr ! i - 1)) is)"

lemma spare_nonneg: "0 \<le> spare fr is"
  unfolding spare_def by (rule sum_list_nonneg) auto

lemma spare_update: "i \<notin> set is \<Longrightarrow> spare (fr[i := v]) is = spare fr is"
  by (induction "is") (auto simp: spare_def)

lemma trim_exact:
  assumes "0 \<le> rem" and "rem \<le> spare fr is" and "distinct is" and "set is \<subseteq> {..<length fr}"
    and "sorted_wrt (\<lambda>i j. fr ! j \<le> fr ! i) is" and "\<forall>i < length fr. 0 \<le> fr ! i"
  shows "sum_list (trim_largest is rem fr) = sum_list fr - rem \<and> length (trim_largest is rem fr) = length fr
    \<and> (\<forall>i < length fr. (fr ! i = 0 \<longrightarrow> trim_largest is rem fr ! i = 0) \<and> (1 \<le> fr ! i \<longrightarrow> 1 \<le> trim_largest is rem fr ! i))"
  using assms
proof (induction "is" rem fr rule: trim_largest.induct)
  case (1 rem fr)
  then show ?case by (auto simp: spare_def)
next
  case (2 i "is" rem fr)
  show ?case
  proof (cases "rem \<le> 0")
    case True
    then show ?thesis using "2.prems"(1) by simp
  next
    case False
    have i: "i < length fr" "0 \<le> fr ! i" using "2.prems"(4,6) by auto
    have "fr ! i \<noteq> 0"
    proof
      assume z: "fr ! i = 0"
      have "\<forall>j \<in> set is. fr ! j \<le> 0" using "2.prems"(5) z by auto
      then have "spare fr is = 0" by (induction "is") (auto simp: spare_def)
      then have "spare fr (i # is) = 0" using z by (simp add: spare_def)
      then show False using "2.prems"(2) False by simp
    qed
    then have p: "1 \<le> fr ! i" using i(2) by simp
    define r where "r = min (fr ! i - 1) rem"
    let ?fr = "fr[i := fr ! i - r]"
    have r: "0 \<le> r" "r \<le> rem" "1 \<le> fr ! i - r" using p False by (auto simp: r_def)
    have ni: "i \<notin> set is" using "2.prems"(3) by simp
    have sp: "spare fr (i # is) = (fr ! i - 1) + spare fr is" using p by (simp add: spare_def)
    have "rem - r \<le> spare ?fr is" using "2.prems"(2) sp spare_nonneg [of fr "is"] spare_update [OF ni] by (auto simp: r_def)
    moreover have "sorted_wrt (\<lambda>a b. ?fr ! b \<le> ?fr ! a) is"
    proof (rule sorted_wrt_mono_rel [OF _ "2.prems"(5) [unfolded sorted_wrt.simps, THEN conjunct2]])
      show "fr ! b \<le> fr ! a \<Longrightarrow> ?fr ! b \<le> ?fr ! a" if "a \<in> set is" "b \<in> set is" for a b using that ni by (metis nth_list_update_neq)
    qed
    moreover have "\<forall>j < length ?fr. 0 \<le> ?fr ! j" 
    proof (intro allI impI)
      fix j assume "j < length ?fr"
      then show "0 \<le> ?fr ! j" using "2.prems"(6) r(3) by (cases "j = i") simp_all
    qed
    ultimately have ih: "sum_list (trim_largest is (rem - r) ?fr) = sum_list ?fr - (rem - r) \<and> length (trim_largest is (rem - r) ?fr) = length ?fr
      \<and> (\<forall>j < length ?fr. (?fr ! j = 0 \<longrightarrow> trim_largest is (rem - r) ?fr ! j = 0) \<and> (1 \<le> ?fr ! j \<longrightarrow> 1 \<le> trim_largest is (rem - r) ?fr ! j))"
      using "2.IH" [OF False r_def] "2.prems"(3,4) r by simp
    have "trim_largest (i # is) rem fr = trim_largest is (rem - r) ?fr" using False by (simp add: r_def Let_def)
    moreover have "(fr ! j = 0 \<longrightarrow> ?fr ! j = 0) \<and> (1 \<le> fr ! j \<longrightarrow> 1 \<le> ?fr ! j)" if "j < length fr" for j
      using that p r(3) by (cases "j = i") simp_all
    ultimately show ?thesis using ih i(1) by (simp add: sum_list_update_int)
  qed
qed

lemma spare_all: "(\<forall>x \<in> set fr. 0 \<le> x) \<Longrightarrow> sum_list fr - int (length fr) \<le> spare fr [0..<length fr]"
proof -
  have "spare fr [0..<length fr] = sum_list (map (\<lambda>x. max 0 (x - 1)) fr)"
    unfolding spare_def by (rule arg_cong [where f = sum_list], rule nth_equalityI) simp_all
  moreover have "sum_list fr - int (length fr) \<le> sum_list (map (\<lambda>x. max 0 (x - 1)) fr)" by (induction fr) auto
  ultimately show ?thesis by simp
qed

lemma spare_perm: "mset is = mset js \<Longrightarrow> spare fr is = spare fr js"
  by (simp add: spare_def flip: sum_mset_sum_list)

lemma balance_exact:
  assumes "shares m esc fr" and "fr \<noteq> []" and "int (length fr) \<le> CDF_SCALE"
  shows "sum_list (balance fr) = CDF_SCALE \<and> shares m esc (balance fr)"
proof (cases "CDF_SCALE - sum_list fr \<ge> 0")
  case True
  then show ?thesis
    using assms(1) max_index_less [OF assms(2)] shares_raise [OF assms(1), of "CDF_SCALE - sum_list fr" "max_index fr"]
    by (auto simp: balance_def Let_def sum_list_update_int)
next
  case False
  let ?is = "sort_key (\<lambda>i. - (fr ! i)) [0..<length fr]" and ?rem = "sum_list fr - CDF_SCALE"
  have nn: "\<forall>i < length fr. 0 \<le> fr ! i" using assms(1) by (simp add: shares_def)
  have "sorted (map (\<lambda>i. - (fr ! i)) ?is)" by simp
  then have srt: "sorted_wrt (\<lambda>i j. fr ! j \<le> fr ! i) ?is" by (simp add: sorted_wrt_map)
  have "sum_list fr - int (length fr) \<le> spare fr [0..<length fr]" using spare_all [of fr] nn unfolding all_set_conv_all_nth by blast
  then have "?rem \<le> spare fr [0..<length fr]" using assms(3) by linarith
  moreover have "spare fr ?is = spare fr [0..<length fr]" by (rule spare_perm) simp
  ultimately have sp: "?rem \<le> spare fr ?is" by simp
  have t: "sum_list (trim_largest ?is ?rem fr) = sum_list fr - ?rem \<and> length (trim_largest ?is ?rem fr) = length fr
    \<and> (\<forall>i < length fr. (fr ! i = 0 \<longrightarrow> trim_largest ?is ?rem fr ! i = 0) \<and> (1 \<le> fr ! i \<longrightarrow> 1 \<le> trim_largest ?is ?rem fr ! i))"
    by (rule trim_exact) (use False sp srt nn in \<open>auto simp: atLeast0LessThan\<close>)
  have "balance fr = trim_largest ?is ?rem fr" using False by (simp add: balance_def Let_def)
  moreover have "0 \<le> trim_largest ?is ?rem fr ! i" if "i < length fr" for i
    using t nn that by (cases "fr ! i = 0") force+
  ultimately show ?thesis using t assms(1) by (auto simp: shares_def)
qed

lemma cumulate_length [simp]: "length (cumulate a fs) = length fs"
  by (induction fs arbitrary: a) auto

lemma cumulate_nth: "i < length fs \<Longrightarrow> cumulate a fs ! i = a + sum_list (take (Suc i) fs)"
proof (induction fs arbitrary: a i)
  case (Cons f fs)
  then show ?case by (cases i) auto
qed simp

lemma cumulate_last: "fs \<noteq> [] \<Longrightarrow> last (cumulate a fs) = a + sum_list fs"
proof (induction fs arbitrary: a)
  case (Cons f fs)
  then show ?case by (cases fs) auto
qed simp

lemma cumulate_low: "i < length fs \<Longrightarrow> low_count_of (cumulate 0 fs) i = sum_list (take i fs)"
  by (cases i) (simp_all add: low_count_of_def cumulate_nth)

lemma cdf_usable:
  assumes "float_ok fo" and "model_ok m"
  defines "highs ctxt esc \<equiv> compute_cdf fo m ctxt esc"
  shows "cdf_ok (highs ctxt esc)" and "length (highs ctxt esc) = length (mm_vocab m)"
    and "i < length (mm_vocab m) \<Longrightarrow> mm_vocab m ! i \<noteq> ESC \<or> esc \<Longrightarrow> low_count_of (highs ctxt esc) i < highs ctxt esc ! i"
proof -
  note b = base_shares [OF assms(2), where fo = fo and ctxt = ctxt and esc = esc]
  define fr where "fr = blend fo m (active_levels fo m ctxt) (base_freqs fo m ctxt esc)"
  have v: "mm_vocab m \<noteq> []" "length (mm_vocab m) \<le> 1000" using assms(2) by (auto simp: model_ok_def)
  have s: "shares m esc fr" unfolding fr_def by (rule blend_shares [OF assms(1,2) b(1)]) (use b(2) in \<open>simp add: CDF_SCALE_def\<close>)
  then have len: "length fr = length (mm_vocab m)" by (simp add: shares_def)
  have e: "sum_list (balance fr) = CDF_SCALE" "shares m esc (balance fr)"
    using balance_exact [OF s] len v by (auto simp: CDF_SCALE_def simp flip: length_greater_0_conv)
  have h: "highs ctxt esc = cumulate 0 (balance fr)" by (simp add: highs_def compute_cdf_def b(3) fr_def)
  have bl: "length (balance fr) = length (mm_vocab m)" using e(2) by (simp add: shares_def)
  show "length (highs ctxt esc) = length (mm_vocab m)" by (simp add: h bl)
  have ne: "balance fr \<noteq> []" using bl v(1) by (metis length_0_conv)
  have nn: "0 \<le> balance fr ! j" if "j < length (balance fr)" for j using e(2) that by (simp add: shares_def)
  have mono: "sum_list (take j (balance fr)) \<le> sum_list (take (Suc j) (balance fr))" for j
    using nn [of j] by (cases "j < length (balance fr)") (simp_all add: take_Suc_conv_app_nth)
  have srt: "sorted (highs ctxt esc)"
    unfolding h sorted_iff_nth_Suc using mono by (simp add: cumulate_nth)
  have "hd (highs ctxt esc) = balance fr ! 0" using v bl by (cases "balance fr") (simp_all add: h)
  then have "0 \<le> hd (highs ctxt esc)" using nn [of 0] v bl by simp
  moreover have "last (highs ctxt esc) = CDF_SCALE" using e(1) cumulate_last [OF ne, of 0] by (simp add: h)
  moreover have "highs ctxt esc \<noteq> []" using ne by (cases "balance fr") (simp_all add: h)
  ultimately show "cdf_ok (highs ctxt esc)" using srt by (simp add: cdf_ok_def)
  show "low_count_of (highs ctxt esc) i < highs ctxt esc ! i" if "i < length (mm_vocab m)" "mm_vocab m ! i \<noteq> ESC \<or> esc"
    using that e(2) bl by (auto simp: h cumulate_low cumulate_nth take_Suc_conv_app_nth shares_def)
qed

section \<open>Coding a text and back\<close>

lemma vocab_index_nth:
  assumes "distinct (mm_vocab m)"
  shows "vocab_index m ch = Some i \<longleftrightarrow> i < length (mm_vocab m) \<and> mm_vocab m ! i = ch"
proof -
  have "distinct (map fst (rev (zip (mm_vocab m) [0..<length (mm_vocab m)])))" using assms by (simp flip: rev_map)
  then have "vocab_index m ch = Some i \<longleftrightarrow> (ch, i) \<in> set (rev (zip (mm_vocab m) [0..<length (mm_vocab m)]))"
    unfolding vocab_index_def by (metis map_of_eq_Some_iff)
  then show ?thesis by (auto simp: set_zip)
qed

lemma vocab_index_None: "distinct (mm_vocab m) \<Longrightarrow> vocab_index m ch = None \<longleftrightarrow> ch \<notin> set (mm_vocab m)"
  using vocab_index_nth [of m ch] by (cases "vocab_index m ch") (auto simp: in_set_conv_nth)

text \<open>A piece of coding that any following decoder reads back. Pieces compose, which carries the round trip from symbols to texts.\<close>

definition coded_as :: "ArithmeticEncoder \<Rightarrow> ArithmeticEncoder \<Rightarrow> (ArithmeticDecoder \<Rightarrow> ('a \<times> ArithmeticDecoder) option) \<Rightarrow> 'a \<Rightarrow> bool" where
  "coded_as e e' decode x \<longleftrightarrow> settled e' \<and> (\<forall>f. inside f e' \<longrightarrow> inside f e)
     \<and> (\<forall>d. follows d e \<longrightarrow> inside (data_stream (ad_data d)) e' \<longrightarrow> (\<exists>d'. decode d = Some (x, d') \<and> follows d' e' \<and> ad_data d' = ad_data d))"

lemma uniform_coded:
  assumes "settled e" and "i < n" and "int n \<le> QUARTER"
  obtains e' where "encode_uniform i n e = Some e'" and "coded_as e e' (decode_uniform n) i"
proof -
  obtain e' where "encode_symbol (int i) (int i + 1) (int n) e = Some e'" "settled e'" "\<And>f. inside f e' \<Longrightarrow> inside f e"
    "\<And>d. follows d e \<Longrightarrow> inside (data_stream (ad_data d)) e' \<Longrightarrow> \<exists>d'. decode_uniform n d = Some (i, d') \<and> follows d' e' \<and> ad_data d' = ad_data d"
    using uniform.encodes [OF assms(1), of i n] assms(2,3) by blast
  then show thesis using that [of e'] by (simp add: encode_uniform_def coded_as_def)
qed

lemma index_coded:
  assumes "settled e" and "cdf_ok highs" and "i < length highs" and "low_count_of highs i < highs ! i"
  obtains e' where "encode_index highs i e = Some e'" and "coded_as e e' (decode_model_index highs) i"
proof -
  obtain e' where "encode_symbol (low_count_of highs i) (highs ! i) CDF_SCALE e = Some e'" "settled e'" "\<And>f. inside f e' \<Longrightarrow> inside f e"
    "\<And>d. follows d e \<Longrightarrow> inside (data_stream (ad_data d)) e' \<Longrightarrow> \<exists>d'. decode_model_index highs d = Some (i, d') \<and> follows d' e' \<and> ad_data d' = ad_data d"
    using model.encodes [OF assms(1), of highs i] assms(2-4) by blast
  then show thesis using that [of e'] by (simp add: encode_index_def coded_as_def)
qed

lemma coded_settled: "coded_as e e' dec x \<Longrightarrow> settled e'"
  by (simp add: coded_as_def)

lemma block_of_range:
  assumes "block_of cp = Some i"
  shows "i < NUM_BLOCKS" "fst (UNICODE_BLOCKS ! i) \<le> cp" "cp \<le> snd (UNICODE_BLOCKS ! i)"
  using assms by (auto simp: block_of_def find_Some_iff)

lemma block_sizes: "list_all (\<lambda>(a, b). b - a + 1 \<le> 1000) UNICODE_BLOCKS \<and> length UNICODE_BLOCKS = NUM_BLOCKS"
  by (simp add: UNICODE_BLOCKS_def NUM_BLOCKS_def)

lemma base128: "cp < 0x200000 \<Longrightarrow> ((cp AND 0x7F) OR push_bit 7 (drop_bit 7 cp AND 0x7F)) OR push_bit 14 (drop_bit 14 cp AND 0x7F) = (cp::nat)"
proof -
  assume c: "cp < 0x200000"
  have "(cp AND 0x7F) OR push_bit 7 (drop_bit 7 cp AND 0x7F) = cp mod 2 ^ 14"
    using or_push_bit' [of "cp mod 128" 7 "cp div 128 mod 128"] mod_mult2_eq [of cp 128 128] by (simp add: pybits)
  moreover have "cp mod 2 ^ 14 OR push_bit 14 (drop_bit 14 cp AND 0x7F) = cp"
    using or_push_bit' [of "cp mod 2 ^ 14" 14 "cp div 2 ^ 14"] c div_mult_mod_eq [of cp "2 ^ 14"] by (simp add: pybits less_mult_imp_div_less)
  ultimately show ?thesis by simp
qed

lemma codepoint_coded:
  assumes "settled e" and "cp < 0x200000"
  obtains e' where "encode_codepoint cp e = Some e'" and "coded_as e e' decode_codepoint cp"
proof (cases "block_of cp")
  case (Some i)
  note r = block_of_range [OF Some]
  obtain a b where ab: "UNICODE_BLOCKS ! i = (a, b)" by fastforce
  have "b - a + 1 \<le> 1000" using block_sizes r(1) ab unfolding list_all_length by (metis (mono_tags, lifting) case_prod_conv)
  then have n: "int (b - a + 1) \<le> QUARTER" by (simp add: QUARTER_def)
  have t: "i < TOTAL_BLOCK_IDS" "int TOTAL_BLOCK_IDS \<le> QUARTER" using r(1) by (simp_all add: TOTAL_BLOCK_IDS_def NUM_BLOCKS_def QUARTER_def)
  obtain e1 where e1: "encode_uniform i TOTAL_BLOCK_IDS e = Some e1" "coded_as e e1 (decode_uniform TOTAL_BLOCK_IDS) i"
    using uniform_coded [OF assms(1) t] by blast
  obtain e2 where e2: "encode_uniform (cp - a) (b - a + 1) e1 = Some e2" "coded_as e1 e2 (decode_uniform (b - a + 1)) (cp - a)"
    by (rule uniform_coded [OF coded_settled [OF e1(2)] _ n, of "cp - a"]) (use r ab in auto)
  have "coded_as e e2 decode_codepoint cp"
    unfolding coded_as_def
  proof (intro conjI allI impI)
    show "settled e2" using coded_settled e2(2) .
    show "inside f e2 \<Longrightarrow> inside f e" for f using e1(2) e2(2) by (auto simp: coded_as_def)
    fix d assume d: "follows d e" "inside (data_stream (ad_data d)) e2"
    then obtain d1 where d1: "decode_uniform TOTAL_BLOCK_IDS d = Some (i, d1)" "follows d1 e1" "ad_data d1 = ad_data d"
      using e1(2) e2(2) by (auto simp: coded_as_def)
    then obtain d2 where "decode_uniform (b - a + 1) d1 = Some (cp - a, d2)" "follows d2 e2" "ad_data d2 = ad_data d1"
      using e2(2) d(2) by (auto simp: coded_as_def)
    then show "\<exists>d'. decode_codepoint d = Some (cp, d') \<and> follows d' e2 \<and> ad_data d' = ad_data d"
      using d1 r ab by (auto simp: decode_codepoint_def)
  qed
  then show thesis using that [of e2] e1(1) e2(1) Some ab by (simp add: encode_codepoint_def)
next
  case None
  have q: "(128::nat) = 128" "int 128 \<le> QUARTER" "NUM_BLOCKS < TOTAL_BLOCK_IDS" "int TOTAL_BLOCK_IDS \<le> QUARTER"
    by (simp_all add: TOTAL_BLOCK_IDS_def NUM_BLOCKS_def QUARTER_def)
  have small: "x AND 0x7F < (128::nat)" for x by (simp add: and_127)
  obtain e1 where e1: "encode_uniform NUM_BLOCKS TOTAL_BLOCK_IDS e = Some e1" "coded_as e e1 (decode_uniform TOTAL_BLOCK_IDS) NUM_BLOCKS"
    using uniform_coded [OF assms(1) q(3,4)] by blast
  obtain e2 where e2: "encode_uniform (cp AND 0x7F) 128 e1 = Some e2" "coded_as e1 e2 (decode_uniform 128) (cp AND 0x7F)"
    using uniform_coded [OF coded_settled [OF e1(2)] small q(2)] by blast
  obtain e3 where e3: "encode_uniform (drop_bit 7 cp AND 0x7F) 128 e2 = Some e3" "coded_as e2 e3 (decode_uniform 128) (drop_bit 7 cp AND 0x7F)"
    using uniform_coded [OF coded_settled [OF e2(2)] small q(2)] by blast
  obtain e4 where e4: "encode_uniform (drop_bit 14 cp AND 0x7F) 128 e3 = Some e4" "coded_as e3 e4 (decode_uniform 128) (drop_bit 14 cp AND 0x7F)"
    using uniform_coded [OF coded_settled [OF e3(2)] small q(2)] by blast
  have "coded_as e e4 decode_codepoint cp"
    unfolding coded_as_def
  proof (intro conjI allI impI)
    show "settled e4" using coded_settled e4(2) .
    show ins: "inside f e4 \<Longrightarrow> inside f e" for f using e1(2) e2(2) e3(2) e4(2) by (auto simp: coded_as_def)
    fix d assume d: "follows d e" "inside (data_stream (ad_data d)) e4"
    have i: "inside (data_stream (ad_data d)) e3" "inside (data_stream (ad_data d)) e2" "inside (data_stream (ad_data d)) e1"
      using d(2) e2(2) e3(2) e4(2) by (auto simp: coded_as_def)
    obtain d1 where d1: "decode_uniform TOTAL_BLOCK_IDS d = Some (NUM_BLOCKS, d1)" "follows d1 e1" "ad_data d1 = ad_data d"
      using e1(2) d(1) i by (auto simp: coded_as_def)
    obtain d2 where d2: "decode_uniform 128 d1 = Some (cp AND 0x7F, d2)" "follows d2 e2" "ad_data d2 = ad_data d"
      using e2(2) d1 i by (auto simp: coded_as_def)
    obtain d3 where d3: "decode_uniform 128 d2 = Some (drop_bit 7 cp AND 0x7F, d3)" "follows d3 e3" "ad_data d3 = ad_data d"
      using e3(2) d2 i by (auto simp: coded_as_def)
    obtain d4 where "decode_uniform 128 d3 = Some (drop_bit 14 cp AND 0x7F, d4)" "follows d4 e4" "ad_data d4 = ad_data d"
      using e4(2) d3 d(2) by (auto simp: coded_as_def)
    then show "\<exists>d'. decode_codepoint d = Some (cp, d') \<and> follows d' e4 \<and> ad_data d' = ad_data d"
      using d1 d2 d3 base128 [OF assms(2)] by (simp add: decode_codepoint_def)
  qed
  then show thesis using that [of e4] e1(1) e2(1) e3(1) e4(1) None by (simp add: encode_codepoint_def)
qed

lemma char_coded:
  assumes fm: "float_ok fo" "model_ok m" and "settled e" and "ch \<noteq> EOF_SYMBOL" and "ch \<noteq> ESC" and "scalar_value ch"
    and "ch \<notin> set (mm_vocab m) \<Longrightarrow> esc"
  obtains e' where "encode_char fo m esc ctxt ch e = Some e'" and "settled e'" and "\<And>f. inside f e' \<Longrightarrow> inside f e"
    and "\<And>d. follows d e \<Longrightarrow> inside (data_stream (ad_data d)) e' \<Longrightarrow> \<exists>d'. follows d' e' \<and> ad_data d' = ad_data d
      \<and> (\<forall>k. decode_chars (Suc k) fo m esc ctxt d = map_option (map_sum id ((#) ch)) (decode_chars k fo m esc (append_context ctxt ch (mm_order m)) d'))"
proof (cases "vocab_index m ch")
  let ?highs = "compute_cdf fo m ctxt esc"
  have dv: "distinct (mm_vocab m)" using fm(2) by (simp add: model_ok_def)
  note cdf = cdf_usable [OF fm]
  {
    case (Some i)
    then have i: "i < length (mm_vocab m)" "mm_vocab m ! i = ch" using vocab_index_nth [OF dv] by auto
    obtain e' where e': "encode_index ?highs i e = Some e'" "coded_as e e' (decode_model_index ?highs) i"
      by (rule index_coded [OF assms(3) cdf(1)]) (use i cdf(2,3) assms(5) in auto)
    show thesis
    proof (rule that)
      show "encode_char fo m esc ctxt ch e = Some e'" using Some e'(1) by (simp add: encode_char_def)
      show "settled e'" "\<And>f. inside f e' \<Longrightarrow> inside f e" using e'(2) by (auto simp: coded_as_def)
      fix d assume "follows d e" "inside (data_stream (ad_data d)) e'"
      then obtain d' where "decode_model_index ?highs d = Some (i, d')" "follows d' e'" "ad_data d' = ad_data d" using e'(2) by (auto simp: coded_as_def)
      then show "\<exists>d'. follows d' e' \<and> ad_data d' = ad_data d
        \<and> (\<forall>k. decode_chars (Suc k) fo m esc ctxt d = map_option (map_sum id ((#) ch)) (decode_chars k fo m esc (append_context ctxt ch (mm_order m)) d'))"
        using i assms(4,5) by (intro exI [of _ d']) simp
    qed
  next
    case None
    then have esc: "esc = True" using assms(7) vocab_index_None [OF dv] by blast
    obtain i where vi: "vocab_index m ESC = Some i" using vocab_index_None [OF dv, of ESC] fm(2) by (auto simp: model_ok_def)
    then have i: "i < length (mm_vocab m)" "mm_vocab m ! i = ESC" using vocab_index_nth [OF dv] by auto
    obtain e1 where e1: "encode_index ?highs i e = Some e1" "coded_as e e1 (decode_model_index ?highs) i"
      by (rule index_coded [OF assms(3) cdf(1)]) (use i cdf(2,3) esc in auto)
    have "ch < 0x200000" using assms(6) by (auto simp: scalar_value_def)
    then obtain e' where e': "encode_codepoint ch e1 = Some e'" "coded_as e1 e' decode_codepoint ch"
      using codepoint_coded [OF coded_settled [OF e1(2)]] by blast
    show thesis
    proof (rule that)
      show "encode_char fo m esc ctxt ch e = Some e'" using None vi e1(1) e'(1) by (simp add: encode_char_def)
      show "settled e'" "\<And>f. inside f e' \<Longrightarrow> inside f e" using e'(2) e1(2) by (auto simp: coded_as_def)
      fix d assume d: "follows d e" "inside (data_stream (ad_data d)) e'"
      then obtain d1 where d1: "decode_model_index ?highs d = Some (i, d1)" "follows d1 e1" "ad_data d1 = ad_data d" using e1(2) e'(2) by (auto simp: coded_as_def)
      then obtain d' where "decode_codepoint d1 = Some (ch, d')" "follows d' e'" "ad_data d' = ad_data d" using e'(2) d(2) by (auto simp: coded_as_def)
      moreover have "\<not> (ch > 0x10FFFF \<or> (0xD800 \<le> ch \<and> ch \<le> 0xDFFF))" using assms(6) by (auto simp: scalar_value_def)
      ultimately show "\<exists>d'. follows d' e' \<and> ad_data d' = ad_data d
        \<and> (\<forall>k. decode_chars (Suc k) fo m esc ctxt d = map_option (map_sum id ((#) ch)) (decode_chars k fo m esc (append_context ctxt ch (mm_order m)) d'))"
        using d1(1) i esc by (intro exI [of _ d']) (auto simp: ESC_def EOF_SYMBOL_def)
    qed
  }
qed

abbreviation plain :: "MeshModel \<Rightarrow> bool \<Rightarrow> ustr \<Rightarrow> bool" where
  "plain m esc t \<equiv> list_all scalar_value t \<and> EOF_SYMBOL \<notin> set t \<and> ESC \<notin> set t \<and> (\<forall>ch \<in> set t. ch \<in> set (mm_vocab m) \<or> esc)"

abbreviation context_after :: "MeshModel \<Rightarrow> ustr \<Rightarrow> ustr \<Rightarrow> ustr" where
  "context_after m t ctxt \<equiv> fold (\<lambda>ch c. append_context c ch (mm_order m)) t ctxt"

lemma prefix_coded:
  assumes fm: "float_ok fo" "model_ok m"
  shows "settled e \<Longrightarrow> plain m esc t \<Longrightarrow>
    \<exists>e'. (\<forall>u. encode_chars fo m esc ctxt (t @ u) e = encode_chars fo m esc (context_after m t ctxt) u e') \<and> settled e' \<and> (\<forall>f. inside f e' \<longrightarrow> inside f e)
      \<and> (\<forall>d. follows d e \<longrightarrow> inside (data_stream (ad_data d)) e' \<longrightarrow> (\<exists>d'. follows d' e' \<and> ad_data d' = ad_data d
          \<and> (\<forall>k. decode_chars (length t + k) fo m esc ctxt d = map_option (map_sum id ((@) t)) (decode_chars k fo m esc (context_after m t ctxt) d'))))"
proof (induction t arbitrary: ctxt e)
  case Nil
  have i: "map_option (map_sum (\<lambda>a. a) (\<lambda>a. a)) r = r" for r :: "ustr res option" by (cases r) (simp_all add: sum.map_ident)
  show ?case using Nil by (intro exI [of _ e]) (auto simp: i id_def simp del: decode_chars.simps)
next
  case (Cons ch t)
  let ?ctxt = "append_context ctxt ch (mm_order m)"
  obtain e1 where e1: "encode_char fo m esc ctxt ch e = Some e1" "settled e1" "\<And>f. inside f e1 \<Longrightarrow> inside f e"
    and dec: "\<And>d. follows d e \<Longrightarrow> inside (data_stream (ad_data d)) e1 \<Longrightarrow> \<exists>d'. follows d' e1 \<and> ad_data d' = ad_data d
      \<and> (\<forall>k. decode_chars (Suc k) fo m esc ctxt d = map_option (map_sum id ((#) ch)) (decode_chars k fo m esc ?ctxt d'))"
    by (rule char_coded [OF fm Cons.prems(1), of ch esc ctxt]) (use Cons.prems in auto)
  obtain e' where e': "\<And>u. encode_chars fo m esc ?ctxt (t @ u) e1 = encode_chars fo m esc (context_after m t ?ctxt) u e'" "settled e'" "\<And>f. inside f e' \<Longrightarrow> inside f e1"
    and ih: "\<And>d. follows d e1 \<Longrightarrow> inside (data_stream (ad_data d)) e' \<Longrightarrow> \<exists>d'. follows d' e' \<and> ad_data d' = ad_data d
      \<and> (\<forall>k. decode_chars (length t + k) fo m esc ?ctxt d = map_option (map_sum id ((@) t)) (decode_chars k fo m esc (context_after m t ?ctxt) d'))"
  proof -
    have "plain m esc t" using Cons.prems(2) by auto
    from Cons.IH [OF e1(2) this, of ?ctxt] show thesis using that by blast
  qed
  have "\<exists>d'. follows d' e' \<and> ad_data d' = ad_data d \<and> (\<forall>k. decode_chars (length (ch # t) + k) fo m esc ctxt d
      = map_option (map_sum id ((@) (ch # t))) (decode_chars k fo m esc (context_after m (ch # t) ctxt) d'))"
    if d: "follows d e" "inside (data_stream (ad_data d)) e'" for d
  proof -
    obtain d1 where d1: "follows d1 e1" "ad_data d1 = ad_data d"
      "\<And>k. decode_chars (Suc k) fo m esc ctxt d = map_option (map_sum id ((#) ch)) (decode_chars k fo m esc ?ctxt d1)"
      using dec [OF d(1) e'(3) [OF d(2)]] by blast
    obtain d' where "follows d' e'" "ad_data d' = ad_data d1"
      "\<And>k. decode_chars (length t + k) fo m esc ?ctxt d1 = map_option (map_sum id ((@) t)) (decode_chars k fo m esc (context_after m t ?ctxt) d')"
      using ih [OF d1(1)] d(2) d1(2) by auto
    moreover have "(@) (ch # t) = (\<lambda>x. ch # t @ x)" by auto
    ultimately show ?thesis using d1(2,3) by (intro exI [of _ d']) (simp add: option.map_comp comp_def sum.map_comp id_def del: decode_chars.simps)
  qed
  then show ?case using e1(3) e'(2,3) by (intro exI [of _ e'] conjI allI impI) (simp add: e1(1) e'(1), blast+)
qed

lemma eof_coded:
  assumes fm: "float_ok fo" "model_ok m" and "settled e"
  obtains e' where "encode_chars fo m esc ctxt [] e = Some e'" and "encode_char fo m esc ctxt EOF_SYMBOL e = Some e'" and "settled e'"
    and "\<And>f. inside f e' \<Longrightarrow> inside f e"
    and "\<And>d k. follows d e \<Longrightarrow> inside (data_stream (ad_data d)) e' \<Longrightarrow> decode_chars (Suc k) fo m esc ctxt d = Some (Inr [])"
proof -
  let ?highs = "compute_cdf fo m ctxt esc"
  have dv: "distinct (mm_vocab m)" using fm(2) by (simp add: model_ok_def)
  note cdf = cdf_usable [OF fm]
  obtain i where vi: "vocab_index m EOF_SYMBOL = Some i" using vocab_index_None [OF dv, of EOF_SYMBOL] fm(2) by (auto simp: model_ok_def)
  then have i: "i < length (mm_vocab m)" "mm_vocab m ! i = EOF_SYMBOL" using vocab_index_nth [OF dv] by auto
  obtain e' where e': "encode_index ?highs i e = Some e'" "coded_as e e' (decode_model_index ?highs) i"
    by (rule index_coded [OF assms(3) cdf(1)]) (use i cdf(2,3) in \<open>auto simp: EOF_SYMBOL_def ESC_def\<close>)
  have "decode_chars (Suc k) fo m esc ctxt d = Some (Inr [])" if d: "follows d e" "inside (data_stream (ad_data d)) e'" for d k
  proof -
    obtain d' where "decode_model_index ?highs d = Some (i, d')" using e'(2) d by (auto simp: coded_as_def)
    then show ?thesis using i by simp
  qed
  then show thesis using that [of e'] e' vi by (auto simp: coded_as_def encode_char_def simp del: decode_chars.simps)
qed

lemma chars_coded:
  assumes fm: "float_ok fo" "model_ok m" and "settled e" and "plain m esc t"
  obtains e' where "encode_chars fo m esc ctxt t e = Some e'" and "settled e'" and "\<And>f. inside f e' \<Longrightarrow> inside f e"
    and "\<And>d k. follows d e \<Longrightarrow> inside (data_stream (ad_data d)) e' \<Longrightarrow> length t < k \<Longrightarrow> decode_chars k fo m esc ctxt d = Some (Inr t)"
proof -
  obtain e1 where e1: "\<And>u. encode_chars fo m esc ctxt (t @ u) e = encode_chars fo m esc (context_after m t ctxt) u e1" "settled e1"
    "\<And>f. inside f e1 \<Longrightarrow> inside f e"
    and dec: "\<And>d. follows d e \<Longrightarrow> inside (data_stream (ad_data d)) e1 \<Longrightarrow> \<exists>d'. follows d' e1 \<and> ad_data d' = ad_data d
      \<and> (\<forall>k. decode_chars (length t + k) fo m esc ctxt d = map_option (map_sum id ((@) t)) (decode_chars k fo m esc (context_after m t ctxt) d'))"
    using prefix_coded [OF assms, of ctxt] by blast
  obtain e' where e': "encode_chars fo m esc (context_after m t ctxt) [] e1 = Some e'" "settled e'" "\<And>f. inside f e' \<Longrightarrow> inside f e1"
    and fin: "\<And>d k. follows d e1 \<Longrightarrow> inside (data_stream (ad_data d)) e' \<Longrightarrow> decode_chars (Suc k) fo m esc (context_after m t ctxt) d = Some (Inr [])"
    by (rule eof_coded [OF fm e1(2), of esc "context_after m t ctxt"]) blast
  show thesis
  proof (rule that)
    show "encode_chars fo m esc ctxt t e = Some e'" using e1(1) [of "[]"] e'(1) by simp
    show "settled e'" by (rule e'(2))
    show "inside f e' \<Longrightarrow> inside f e" for f using e'(3) e1(3) by blast
    fix d k assume d: "follows d e" "inside (data_stream (ad_data d)) e'" "length t < k"
    obtain d' where "follows d' e1" "ad_data d' = ad_data d"
      "\<And>k. decode_chars (length t + k) fo m esc ctxt d = map_option (map_sum id ((@) t)) (decode_chars k fo m esc (context_after m t ctxt) d')"
      using dec [OF d(1) e'(3) [OF d(2)]] by blast
    moreover have "k = length t + Suc (k - length t - 1)" using d(3) by simp
    ultimately show "decode_chars k fo m esc ctxt d = Some (Inr t)" using fin d(2) by (metis append_Nil2 map_sum.simps(2) option.simps(9))
  qed
qed

text \<open>The text round trip through the coder: what was compressed is decoded from any data that carries the bits, zeros appended or not.\<close>

lemma arithmetic_roundtrip:
  assumes "float_ok fo" and "model_ok m" and "list_all scalar_value text" and "EOF_SYMBOL \<notin> set text" and "ESC \<notin> set text"
    and "length text < DECODE_HARD_LIMIT"
  obtains bits where "compress_arithmetic_bits fo m text = Some (has_extras m text, bits)" and "bits \<noteq> []"
    and "\<And>data. data_stream data = stream_of bits \<Longrightarrow> decode_arithmetic fo m (has_extras m text) data = Some (Inr text)"
proof -
  let ?c = "replicate (mm_order m) BOS"
  have "plain m (has_extras m text) text" using assms(3-5) by (auto simp: has_extras_def list_ex_iff)
  then obtain e' where e': "encode_chars fo m (has_extras m text) ?c text new_arith_encoder = Some e'" "settled e'"
    and dec: "\<And>d k. follows d new_arith_encoder \<Longrightarrow> inside (data_stream (ad_data d)) e' \<Longrightarrow> length text < k \<Longrightarrow>
      decode_chars k fo m (has_extras m text) ?c d = Some (Inr text)"
    using chars_coded [OF assms(1,2) new_encoder_settled] by metis
  show thesis
  proof (rule that)
    show "compress_arithmetic_bits fo m text = Some (has_extras m text, finish_bits e')" using e'(1) by (simp add: compress_arithmetic_bits_def)
    show "finish_bits e' \<noteq> []" using finish_length [of e'] by auto
    fix data assume "data_stream data = stream_of (finish_bits e')"
    then show "decode_arithmetic fo m (has_extras m text) data = Some (Inr text)"
      using dec [OF new_decoder_follows(1)] finish_inside [OF e'(2)] assms(6) new_decoder_follows(2) by (simp add: decode_arithmetic_def)
  qed
qed

text \<open>A character U+0003 inside the text is coded as the end of the text, and what follows it is lost.\<close>

lemma eof_character_truncates:
  assumes fm: "float_ok fo" "model_ok m" and t: "list_all scalar_value (t @ u)" "EOF_SYMBOL \<notin> set (t @ u)" "ESC \<notin> set (t @ u)"
    and len: "length t < DECODE_HARD_LIMIT"
  defines "x \<equiv> t @ EOF_SYMBOL # u"
  obtains bits where "compress_arithmetic_bits fo m x = Some (has_extras m x, bits)"
    and "\<And>data. data_stream data = stream_of bits \<Longrightarrow> decode_arithmetic fo m (has_extras m x) data = Some (Inr t)"
proof -
  let ?c = "replicate (mm_order m) BOS" and ?esc = "has_extras m x"
  have p: "plain m ?esc t" "plain m ?esc u" using t by (auto simp: has_extras_def list_ex_iff x_def)
  let ?ct = "context_after m t ?c"
  obtain e1 where e1: "\<And>v. encode_chars fo m ?esc ?c (t @ v) new_arith_encoder = encode_chars fo m ?esc ?ct v e1" "settled e1"
    and dec: "\<And>d. follows d new_arith_encoder \<Longrightarrow> inside (data_stream (ad_data d)) e1 \<Longrightarrow> \<exists>d'. follows d' e1 \<and> ad_data d' = ad_data d
      \<and> (\<forall>k. decode_chars (length t + k) fo m ?esc ?c d = map_option (map_sum id ((@) t)) (decode_chars k fo m ?esc ?ct d'))"
    using prefix_coded [OF fm new_encoder_settled p(1), of ?c] by blast
  obtain e2 where e2: "encode_char fo m ?esc ?ct EOF_SYMBOL e1 = Some e2" "settled e2" "\<And>f. inside f e2 \<Longrightarrow> inside f e1"
    and fin: "\<And>d k. follows d e1 \<Longrightarrow> inside (data_stream (ad_data d)) e2 \<Longrightarrow> decode_chars (Suc k) fo m ?esc ?ct d = Some (Inr [])"
    by (rule eof_coded [OF fm e1(2), of ?esc ?ct]) blast
  obtain e3 where e3: "encode_chars fo m ?esc (append_context ?ct EOF_SYMBOL (mm_order m)) u e2 = Some e3" "settled e3" "\<And>f. inside f e3 \<Longrightarrow> inside f e2"
    using chars_coded [OF fm e2(2) p(2)] by metis
  show thesis
  proof (rule that)
    have "encode_chars fo m ?esc ?c x new_arith_encoder = Some e3" using e1(1) [of "EOF_SYMBOL # u"] e2(1) e3(1) by (simp add: x_def)
    then show "compress_arithmetic_bits fo m x = Some (?esc, finish_bits e3)" by (simp add: compress_arithmetic_bits_def)
    fix data assume "data_stream data = stream_of (finish_bits e3)"
    then have i: "inside (data_stream data) e2" using finish_inside [OF e3(2)] e3(3) by simp
    then obtain d' where "follows d' e1" "ad_data d' = data"
      "\<And>k. decode_chars (length t + k) fo m ?esc ?c (new_arith_decoder data) = map_option (map_sum id ((@) t)) (decode_chars k fo m ?esc ?ct d')"
      using dec [OF new_decoder_follows(1) [of data]] e2(3) new_decoder_follows(2) by auto
    moreover have "DECODE_HARD_LIMIT = length t + Suc (DECODE_HARD_LIMIT - length t - 1)" using len by simp
    ultimately show "decode_arithmetic fo m ?esc data = Some (Inr t)"
      unfolding decode_arithmetic_def using fin i by (metis append_Nil2 map_sum.simps(2) option.simps(9))
  qed
qed

section \<open>Decoding arbitrary bytes ends\<close>

lemma decode_codepoint_total:
  assumes "decoder_ok d"
  obtains cp d' where "decode_codepoint d = Some (cp, d')" and "decoder_ok d'"
proof -
  obtain i d1 where 1: "decode_uniform TOTAL_BLOCK_IDS d = Some (i, d1)" "decoder_ok d1"
    by (rule decode_uniform_total [OF assms, of TOTAL_BLOCK_IDS]) (simp add: TOTAL_BLOCK_IDS_def)
  show thesis
  proof (cases "i < NUM_BLOCKS")
    case True
    obtain a b where "UNICODE_BLOCKS ! i = (a, b)" by fastforce
    then show thesis using decode_uniform_total [OF 1(2), of "b - a + 1"] that 1(1) True by (fastforce simp: decode_codepoint_def)
  next
    case False
    obtain x d2 where 2: "decode_uniform 128 d1 = Some (x, d2)" "decoder_ok d2" using decode_uniform_total [OF 1(2), of 128] by (metis zero_less_numeral)
    obtain y d3 where 3: "decode_uniform 128 d2 = Some (y, d3)" "decoder_ok d3" using decode_uniform_total [OF 2(2), of 128] by (metis zero_less_numeral)
    obtain z d4 where "decode_uniform 128 d3 = Some (z, d4)" "decoder_ok d4" using decode_uniform_total [OF 3(2), of 128] by (metis zero_less_numeral)
    then show thesis using that 1(1) 2(1) 3(1) False by (simp add: decode_codepoint_def)
  qed
qed

lemma decode_chars_total:
  assumes "float_ok fo" and "model_ok m"
  shows "decoder_ok d \<Longrightarrow> decode_chars k fo m esc ctxt d \<noteq> None"
proof (induction k arbitrary: ctxt d)
  case (Suc k)
  obtain i d1 where 1: "decode_model_index (compute_cdf fo m ctxt esc) d = Some (i, d1)" "decoder_ok d1"
    using decode_model_total [OF Suc.prems cdf_usable(1) [OF assms]] by blast
  obtain cp d2 where "decode_codepoint d1 = Some (cp, d2)" "decoder_ok d2" using decode_codepoint_total [OF 1(2)] by blast
  then show ?case using 1 Suc.IH by (auto simp: Let_def)
qed simp

end
