(* ===== verification/McmpText.thy ===== *)
theory McmpText
  imports Mcmp
begin

text \<open>
  The carriers of MCMP-compressed text (\<open>src/app/compression/mcmp.py\<close>): the \<open>mcmp2:\<close> transport with its only-if-smaller gate, the
  binary form, and the \<open>mcmp3:\<close> container with timestamp, sender and reply. The outer option of a result is \<^const>\<open>None\<close> only if
  the coder does not return; it is shown to return.
\<close>

section \<open>Version 2\<close>

definition TEXT_EMPTY_MARKER :: nat where "TEXT_EMPTY_MARKER = of_char CHR ''!''"
definition TEXT_COMPRESSED_NO_ESC_MARKER :: nat where "TEXT_COMPRESSED_NO_ESC_MARKER = 0x22"
definition TEXT_COMPRESSED_ESC_MARKER :: nat where "TEXT_COMPRESSED_ESC_MARKER = of_char CHR ''#''"

definition TEXT_MARKERS :: "nat set" where
  "TEXT_MARKERS = {TEXT_EMPTY_MARKER, TEXT_COMPRESSED_NO_ESC_MARKER, TEXT_COMPRESSED_ESC_MARKER}"

text \<open>Both decoders of basE91 on a text: a character outside the alphabet is an error.\<close>

definition b91_text_v2 :: "ustr \<Rightarrow> bytes res" where
  "b91_text_v2 u = (case as_string u of None \<Rightarrow> Inl MeshCompressorError | Some s \<Rightarrow> b91_decode_v2 s)"

definition b91_text_v3 :: "ustr \<Rightarrow> bytes res" where
  "b91_text_v3 u = (case as_string u of None \<Rightarrow> Inl MeshCompressorError | Some s \<Rightarrow> b91_decode_v3 s)"

definition compress_text_transport :: "float_ops \<Rightarrow> MeshModel \<Rightarrow> ustr \<Rightarrow> ustr option" where
  "compress_text_transport fo m txt =
     (if txt = [] then Some [TEXT_EMPTY_MARKER]
      else map_option (\<lambda>(flags, bits).
             let compressed = (if flags then TEXT_COMPRESSED_ESC_MARKER else TEXT_COMPRESSED_NO_ESC_MARKER) # utext (b91_encode (bits_to_min_bytes bits))
             in if length compressed \<ge> length txt \<and> hd txt \<notin> TEXT_MARKERS then txt else compressed)
           (compress_arithmetic_bits fo m txt))"

definition decompress_text_transport :: "float_ops \<Rightarrow> MeshModel \<Rightarrow> ustr \<Rightarrow> ustr res option" where
  "decompress_text_transport fo m txt =
     (case txt of
        [] \<Rightarrow> Some (Inr [])
      | head # rest \<Rightarrow>
          if head = TEXT_EMPTY_MARKER then Some (Inr [])
          else if head \<noteq> TEXT_COMPRESSED_NO_ESC_MARKER \<and> head \<noteq> TEXT_COMPRESSED_ESC_MARKER then Some (Inl MeshCompressorError)
          else case b91_text_v2 rest of
                 Inl e \<Rightarrow> Some (Inl e)
               | Inr payload \<Rightarrow> decode_arithmetic fo m (head = TEXT_COMPRESSED_ESC_MARKER) payload)"

definition has_prefix :: "ustr \<Rightarrow> bool" where
  "has_prefix txt \<longleftrightarrow> starts_with PREFIX_V2 (lstrip txt) \<and> length (lstrip txt) > length PREFIX_V2"

text \<open>\<open>model\<close> is \<^const>\<open>None\<close> before the model file is loaded. A text with a lone surrogate makes \<open>encode\<close> raise, which keeps the text.\<close>

definition encode_if_smaller :: "float_ops \<Rightarrow> MeshModel option \<Rightarrow> ustr \<Rightarrow> ustr option" where
  "encode_if_smaller fo model txt =
     (case model of
        None \<Rightarrow> Some txt
      | Some m \<Rightarrow>
          if txt = [] \<or> starts_with PREFIX_V2 txt then Some txt
          else map_option (\<lambda>encoded.
                 let candidate = PREFIX_V2 @ encoded
                 in if list_all scalar_value txt \<and> length (utf8_encode candidate) < length (utf8_encode txt) then candidate else txt)
               (compress_text_transport fo m txt))"

definition caught :: "'a res \<Rightarrow> 'a option" where
  "caught r = (case r of Inl _ \<Rightarrow> None | Inr x \<Rightarrow> Some x)"

definition try_decode_prefixed :: "float_ops \<Rightarrow> MeshModel option \<Rightarrow> ustr \<Rightarrow> ustr option option" where
  "try_decode_prefixed fo model txt =
     (let stripped = lstrip txt
      in if starts_with PREFIX_V2 stripped \<and> length stripped > length PREFIX_V2 then
           (case model of None \<Rightarrow> Some None
            | Some m \<Rightarrow> map_option caught (decompress_text_transport fo m (drop (length PREFIX_V2) stripped)))
         else Some None)"

section \<open>Binary form\<close>

definition compress_to_bytes :: "float_ops \<Rightarrow> MeshModel \<Rightarrow> ustr \<Rightarrow> bytes option" where
  "compress_to_bytes fo m txt =
     (if txt = [] then Some []
      else map_option (\<lambda>(flags, bits).
             let ac_result = (if flags then 1 else 0) # bits_to_bytes bits
             in if length ac_result > length (utf8_encode txt) \<and> unat (hd (utf8_encode txt)) \<ge> 2 then utf8_encode txt else ac_result)
           (compress_arithmetic_bits fo m txt))"

definition decompress_bytes :: "float_ops \<Rightarrow> MeshModel \<Rightarrow> bytes \<Rightarrow> ustr res option" where
  "decompress_bytes fo m data =
     (case data of
        [] \<Rightarrow> Some (Inr [])
      | first # rest \<Rightarrow>
          if unat first > 1 then Some (case utf8_decode data of None \<Rightarrow> Inl MeshCompressorError | Some s \<Rightarrow> Inr s)
          else if rest = [] then Some (Inr [])
          else decode_arithmetic fo m (first AND 1 = 1) rest)"

section \<open>Version 3 container\<close>

definition V3_FLAG_REPLY :: nat where "V3_FLAG_REPLY = 1"
definition V3_FLAG_SIGNED :: nat where "V3_FLAG_SIGNED = 2"
definition V3_FLAG_SENDER_NAME :: nat where "V3_FLAG_SENDER_NAME = 4"
definition V3_KNOWN_FLAGS :: nat where "V3_KNOWN_FLAGS = 7"
definition V3_SIGNATURE_SIZE :: nat where "V3_SIGNATURE_SIZE = 64"

record V3Header =
  v3_timestamp :: nat
  v3_sender_name :: "ustr option"
  v3_is_signed :: bool
  v3_reply_author_name :: "ustr option"
  v3_reply_timestamp :: "nat option"

function write_varuint :: "nat \<Rightarrow> bytes" where
  "write_varuint v = (if v < 128 then [byte_of v] else byte_of (128 + v mod 128) # write_varuint (v div 128))"
  by pat_completeness auto
termination
  by (relation "measure id") auto

declare write_varuint.simps [simp del]

text \<open>The reader is the bytes that are left.\<close>

definition read_byte :: "bytes \<Rightarrow> (nat \<times> bytes) res" where
  "read_byte bs = (case bs of [] \<Rightarrow> Inl MeshCompressorError | b # rest \<Rightarrow> Inr (unat b, rest))"

definition read_bytes :: "nat \<Rightarrow> bytes \<Rightarrow> (bytes \<times> bytes) res" where
  "read_bytes n bs = (if n > length bs then Inl MeshCompressorError else Inr (take n bs, drop n bs))"

definition read_uint32_le :: "bytes \<Rightarrow> (nat \<times> bytes) res" where
  "read_uint32_le bs = bind_res (read_bytes 4 bs) (\<lambda>(b, rest). Inr (from_le b, rest))"

function read_varuint_loop :: "nat \<Rightarrow> nat \<Rightarrow> bytes \<Rightarrow> (nat \<times> bytes) res" where
  "read_varuint_loop result sh bs =
     (case bs of
        [] \<Rightarrow> Inl MeshCompressorError
      | b # rest \<Rightarrow>
          let result' = result OR push_bit sh (unat b AND 0x7F)
          in if unat b AND 0x80 = 0 then Inr (result', rest)
             else if sh + 7 > 28 then Inl MeshCompressorError
             else read_varuint_loop result' (sh + 7) rest)"
  by pat_completeness auto
termination
  by (relation "measure (\<lambda>(r, s, bs). length bs)") auto

declare read_varuint_loop.simps [simp del]

definition read_varuint :: "bytes \<Rightarrow> (nat \<times> bytes) res" where
  "read_varuint bs = read_varuint_loop 0 0 bs"

text \<open>\<open>reader.read_bytes(reader.read_varuint()).decode("utf-8")\<close>.\<close>

definition read_name :: "bytes \<Rightarrow> (ustr \<times> bytes) res" where
  "read_name bs =
     bind_res (read_varuint bs) (\<lambda>(n, r1). bind_res (read_bytes n r1) (\<lambda>(raw, r2).
       case utf8_decode raw of None \<Rightarrow> Inl ValueError | Some s \<Rightarrow> Inr (s, r2)))"

definition read_v3_header :: "bytes \<Rightarrow> (V3Header \<times> bytes) res" where
  "read_v3_header bs =
     bind_res (read_byte bs) (\<lambda>(flags, r0).
     if flags div (V3_KNOWN_FLAGS + 1) \<noteq> 0 then Inl MeshCompressorError
     else bind_res (read_uint32_le r0) (\<lambda>(timestamp, r1).
     bind_res (if flags AND V3_FLAG_SENDER_NAME \<noteq> 0 then bind_res (read_name r1) (\<lambda>(s, r). Inr (Some s, r)) else Inr (None, r1)) (\<lambda>(sender, r2).
     bind_res (if flags AND V3_FLAG_SIGNED \<noteq> 0 then bind_res (read_bytes V3_SIGNATURE_SIZE r2) (\<lambda>(sig, r). Inr r) else Inr r2) (\<lambda>r3.
     bind_res (if flags AND V3_FLAG_REPLY \<noteq> 0
               then bind_res (read_name r3) (\<lambda>(author, r). bind_res (read_uint32_le r) (\<lambda>(ts, r'). Inr (Some author, Some ts, r')))
               else Inr (None, None, r3)) (\<lambda>(author, reply_ts, r4).
     Inr (\<lparr>v3_timestamp = timestamp, v3_sender_name = sender, v3_is_signed = (flags AND V3_FLAG_SIGNED \<noteq> 0),
           v3_reply_author_name = author, v3_reply_timestamp = reply_ts\<rparr>, r4))))))"

definition write_name :: "ustr \<Rightarrow> bytes" where
  "write_name s = write_varuint (length (utf8_encode s)) @ utf8_encode s"

definition encode_v3_body :: "float_ops \<Rightarrow> MeshModel \<Rightarrow> ustr \<Rightarrow> int \<Rightarrow> ustr option \<Rightarrow> ustr option \<Rightarrow> int option \<Rightarrow> bytes res option" where
  "encode_v3_body fo m txt timestamp sender_name reply_author_name reply_timestamp =
     (if timestamp < 0 \<or> timestamp > 0xFFFFFFFF then Some (Inl MeshCompressorError)
      else if (reply_author_name = None) \<noteq> (reply_timestamp = None) then Some (Inl MeshCompressorError)
      else if (case reply_timestamp of None \<Rightarrow> False | Some ts \<Rightarrow> ts < 0 \<or> ts > 0xFFFFFFFF) then Some (Inl MeshCompressorError)
      else map_option (\<lambda>compressed.
             let flags = (if reply_author_name = None then 0 else V3_FLAG_REPLY) + (if sender_name = None then 0 else V3_FLAG_SENDER_NAME)
             in Inr ([byte_of flags] @ to_le 4 (nat timestamp)
                  @ (case sender_name of None \<Rightarrow> [] | Some s \<Rightarrow> write_name s)
                  @ (case (reply_author_name, reply_timestamp) of (Some a, Some ts) \<Rightarrow> write_name a @ to_le 4 (nat ts) | _ \<Rightarrow> [])
                  @ compressed)) (compress_to_bytes fo m txt))"

definition decode_v3_body :: "float_ops \<Rightarrow> MeshModel \<Rightarrow> bytes \<Rightarrow> (V3Header \<times> ustr) res option" where
  "decode_v3_body fo m body =
     (case read_v3_header body of
        Inl e \<Rightarrow> Some (Inl e)
      | Inr (h, rest) \<Rightarrow> map_option (map_sum id (Pair h)) (decompress_bytes fo m rest))"

definition is_v3_text_payload :: "ustr \<Rightarrow> bool" where
  "is_v3_text_payload txt \<longleftrightarrow> starts_with PREFIX_V3 (lstrip txt) \<and> length (lstrip txt) > length PREFIX_V3"

definition encode_v3_text :: "float_ops \<Rightarrow> MeshModel \<Rightarrow> ustr \<Rightarrow> int \<Rightarrow> ustr option \<Rightarrow> ustr option \<Rightarrow> int option \<Rightarrow> ustr option" where
  "encode_v3_text fo m txt timestamp sender_name reply_author_name reply_timestamp =
     (if txt = [] \<or> is_v3_text_payload txt \<or> has_prefix txt then Some txt
      else if \<not> (list_all scalar_value txt \<and> pred_option (list_all scalar_value) sender_name \<and> pred_option (list_all scalar_value) reply_author_name)
        then Some txt
      else map_option (\<lambda>r. case r of Inl _ \<Rightarrow> txt | Inr body \<Rightarrow> PREFIX_V3 @ utext (b91_encode body))
             (encode_v3_body fo m txt timestamp sender_name reply_author_name reply_timestamp))"

definition v3_compressed_text_bytes :: "ustr \<Rightarrow> nat option" where
  "v3_compressed_text_bytes txt =
     (if \<not> is_v3_text_payload txt then None
      else caught (bind_res (b91_text_v3 (drop (length PREFIX_V3) (lstrip txt))) (\<lambda>body.
             bind_res (read_v3_header body) (\<lambda>(h, rest). Inr (length rest)))))"

definition try_decode_v3_text :: "float_ops \<Rightarrow> MeshModel \<Rightarrow> ustr \<Rightarrow> (V3Header \<times> ustr) option option" where
  "try_decode_v3_text fo m txt =
     (if \<not> is_v3_text_payload txt then Some None
      else case b91_text_v3 (drop (length PREFIX_V3) (lstrip txt)) of
             Inl _ \<Rightarrow> Some None
           | Inr body \<Rightarrow> map_option caught (decode_v3_body fo m body))"

section \<open>Texts and prefixes\<close>

lemma as_string_utext [simp]: "as_string (utext s) = Some s"
by (simp add: as_string_def utext_def list_all_iff comp_def)

lemma b91_text_inverse [simp]: "b91_text_v2 (utext (b91_encode data)) = Inr data" "b91_text_v3 (utext (b91_encode data)) = Inr data"
  using v2.dec_encode [of data] v3.dec_encode [of data]
  by (simp_all add: b91_text_v2_def b91_text_v3_def b91_decode_v2_def b91_decode_v3_def)

lemma lstrip_prefix [simp]: "lstrip (PREFIX_V2 @ t) = PREFIX_V2 @ t" "lstrip (PREFIX_V3 @ t) = PREFIX_V3 @ t"
  by (simp_all add: lstrip_def PREFIX_V2_def PREFIX_V3_def utext_def uspace_def)

lemma utf8_append [simp]: "utf8_encode (s @ t) = utf8_encode s @ utf8_encode t"
  by (simp add: utf8_encode_def)

lemma utf8_prefix_length [simp]: "length (utf8_encode PREFIX_V2) = 6" "length PREFIX_V2 = 6" "length PREFIX_V3 = 6"
  by (simp_all add: PREFIX_V2_def PREFIX_V3_def utext_def utf8_encode_def utf8_char_def)

section \<open>Round trips\<close>

abbreviation sendable :: "ustr \<Rightarrow> bool" where
  "sendable t \<equiv> list_all scalar_value t \<and> EOF_SYMBOL \<notin> set t \<and> ESC \<notin> set t \<and> length t < DECODE_HARD_LIMIT"

lemma text_transport_inverse:
  assumes "float_ok fo" and "model_ok m" and "sendable t" and "t \<noteq> []"
  obtains c where "compress_text_transport fo m t = Some c" and "c = t \<or> decompress_text_transport fo m c = Some (Inr t)" and "c \<noteq> []"
proof -
  obtain bits where b: "compress_arithmetic_bits fo m t = Some (has_extras m t, bits)"
    "\<And>data. data_stream data = stream_of bits \<Longrightarrow> decode_arithmetic fo m (has_extras m t) data = Some (Inr t)"
    using arithmetic_roundtrip [OF assms(1,2)] assms(3) by metis
  let ?c = "(if has_extras m t then TEXT_COMPRESSED_ESC_MARKER else TEXT_COMPRESSED_NO_ESC_MARKER) # utext (b91_encode (bits_to_min_bytes bits))"
  have "decompress_text_transport fo m ?c = Some (Inr t)"
    using b(2) [OF min_bytes_stream] by (cases "has_extras m t")
      (simp_all add: decompress_text_transport_def TEXT_EMPTY_MARKER_def TEXT_COMPRESSED_ESC_MARKER_def TEXT_COMPRESSED_NO_ESC_MARKER_def)
  then show thesis using that b(1) assms(4) by (cases "length ?c \<ge> length t \<and> hd t \<notin> TEXT_MARKERS") (auto simp: compress_text_transport_def Let_def)
qed

lemma v2_inverse:
  assumes "float_ok fo" and "model_ok m" and "sendable t"
  obtains c where "encode_if_smaller fo (Some m) t = Some c"
    and "c = t \<or> (has_prefix c \<and> length (utf8_encode c) < length (utf8_encode t) \<and> try_decode_prefixed fo (Some m) c = Some (Some t))"
proof (cases "t = [] \<or> starts_with PREFIX_V2 t")
  case True
  then show thesis using that by (auto simp: encode_if_smaller_def)
next
  case False
  obtain e where e: "compress_text_transport fo m t = Some e" "e = t \<or> decompress_text_transport fo m e = Some (Inr t)" "e \<noteq> []"
    using text_transport_inverse [OF assms] False by blast
  let ?c = "PREFIX_V2 @ e"
  show thesis
  proof (cases "length (utf8_encode ?c) < length (utf8_encode t)")
    case True
    then have "decompress_text_transport fo m e = Some (Inr t)" using e(2) by auto
    then have "try_decode_prefixed fo (Some m) ?c = Some (Some t)" using e(3) by (simp add: try_decode_prefixed_def Let_def caught_def)
    moreover have "has_prefix ?c" using e(3) by (simp add: has_prefix_def)
    ultimately show thesis using that [of ?c] True False assms(3) e(1) by (simp add: encode_if_smaller_def Let_def)
  next
    case False
    then show thesis using that [of t] \<open>\<not> (t = [] \<or> starts_with PREFIX_V2 t)\<close> e(1) by (simp add: encode_if_smaller_def Let_def)
  qed
qed

lemma hd_utf8_scalar: "scalar_value c \<Longrightarrow> utf8_char c \<noteq> []"
  by simp

lemma bytes_inverse:
  assumes "float_ok fo" and "model_ok m" and "sendable t"
  obtains c where "compress_to_bytes fo m t = Some c" and "decompress_bytes fo m c = Some (Inr t)"
proof (cases "t = []")
  case True
  then show thesis using that by (simp add: compress_to_bytes_def decompress_bytes_def)
next
  case False
  obtain bits where b: "compress_arithmetic_bits fo m t = Some (has_extras m t, bits)" "bits \<noteq> []"
    "\<And>data. data_stream data = stream_of bits \<Longrightarrow> decode_arithmetic fo m (has_extras m t) data = Some (Inr t)"
    using arithmetic_roundtrip [OF assms(1,2)] assms(3) by metis
  let ?a = "(if has_extras m t then 1 else 0) # bits_to_bytes bits" and ?u = "utf8_encode t"
  have u: "utf8_decode ?u = Some t" by (rule utf8_decode_encode) (use assms(3) in simp)
  have "length (bits_to_bytes bits) = (length bits + 7) div 8"
  proof -
    have "length (fold (\<lambda>(i, b) out. if b then out[i div 8 := out ! (i div 8) OR push_bit (7 - i mod 8) (1::byte)] else out) xs ys) = length ys" for xs ys
      by (induction xs arbitrary: ys) auto
    then show ?thesis by (simp add: bits_to_bytes_def)
  qed
  then have ne: "bits_to_bytes bits \<noteq> []" using b(2) by (cases bits) auto
  have "decompress_bytes fo m ?a = Some (Inr t)" using b(3) [OF bits_to_bytes_stream] ne
    by (cases "has_extras m t") (simp_all add: decompress_bytes_def)
  moreover have "decompress_bytes fo m ?u = Some (Inr t)" if "unat (hd ?u) \<ge> 2"
    using u that False by (cases ?u) (auto simp: decompress_bytes_def)
  ultimately show thesis using that [of "if length ?a > length ?u \<and> unat (hd ?u) \<ge> 2 then ?u else ?a"] b(1) False
    by (simp add: compress_to_bytes_def Let_def split: if_splits)
qed

lemma and_128: "(x::nat) AND 0x80 = (if odd (x div 128) then 128 else 0)"
proof -
  have "x AND 2 ^ 7 = of_bool (bit x 7) * 2 ^ 7" by (rule bit_eqI) (auto simp: bit_and_iff bit_exp_iff simp del: power_numeral)
  then show ?thesis by (simp add: bit_iff_odd)
qed

lemma varuint_loop_inverse:
  "r < 2 ^ (7 * j) \<Longrightarrow> v < 2 ^ (7 * (5 - j)) \<Longrightarrow> j < 5 \<Longrightarrow>
    read_varuint_loop r (7 * j) (write_varuint v @ rest) = Inr (r + v * 2 ^ (7 * j), rest)"
proof (induction v arbitrary: r j rule: less_induct)
  case (less v)
  show ?case
  proof (cases "v < 128")
    case True
    have o: "r OR push_bit (7 * j) v = v * 2 ^ (7 * j) + r" by (rule or_push_bit') (use less.prems(1) in simp)
    then show ?thesis using True
      by (subst read_varuint_loop.simps) (simp add: write_varuint.simps [of v] Let_def and_127 and_128 mult.commute)
  next
    case False
    have j: "Suc j < 5"
    proof (rule ccontr)
      assume "\<not> Suc j < 5"
      then have "5 - j = 1" using less.prems(3) by simp
      then show False using less.prems(2) False by simp
    qed
    let ?r = "r + v mod 128 * 2 ^ (7 * j)"
    have o: "r OR push_bit (7 * j) (v mod 128) = ?r" using or_push_bit' [of r "7 * j" "v mod 128"] less.prems(1) by simp
    have b: "(128 + v mod 128) mod 256 = 128 + v mod 128" "(128 + v mod 128) div 128 = 1" "(128 + v mod 128) mod 128 = v mod 128" by simp_all
    have "5 - j = Suc (5 - Suc j)" using j by simp
    then have "v < 2 ^ (7 + 7 * (5 - Suc j))" using less.prems(2) by simp
    then have v: "v div 128 < 2 ^ (7 * (5 - Suc j))" by (simp add: power_add less_mult_imp_div_less mult.commute)
    have "v mod 128 * 2 ^ (7 * j) \<le> 127 * 2 ^ (7 * j)" by (rule mult_right_mono) (simp_all add: less_Suc_eq_le [symmetric])
    then have "?r < 128 * 2 ^ (7 * j)" using less.prems(1) by linarith
    then have r: "?r < 2 ^ (7 * Suc j)" by (simp add: power_add)
    have "read_varuint_loop r (7 * j) (write_varuint v @ rest) = read_varuint_loop ?r (7 * Suc j) (write_varuint (v div 128) @ rest)"
      using False j o b by (subst read_varuint_loop.simps) (simp add: write_varuint.simps [of v] Let_def and_127 and_128 add.commute)
    also have "\<dots> = Inr (?r + v div 128 * 2 ^ (7 * Suc j), rest)" by (rule less.IH) (use False r v j in simp_all)
    also have "?r + v div 128 * 2 ^ (7 * Suc j) = r + (v div 128 * 128 + v mod 128) * 2 ^ (7 * j)"
      by (simp only: mult_Suc_right power_add add_mult_distrib) simp
    finally show ?thesis by (simp only: div_mult_mod_eq)
  qed
qed

lemma varuint_inverse: "v < 2 ^ 35 \<Longrightarrow> read_varuint (write_varuint v @ rest) = Inr (v, rest)"
  using varuint_loop_inverse [of 0 0 v rest] by (simp add: read_varuint_def)

lemma name_inverse: "list_all scalar_value s \<Longrightarrow> length (utf8_encode s) < 2 ^ 35 \<Longrightarrow> read_name (write_name s @ rest) = Inr (s, rest)"
  by (simp add: read_name_def write_name_def varuint_inverse read_bytes_def utf8_decode_encode)

lemma uint32_inverse: "n < 2 ^ 32 \<Longrightarrow> read_uint32_le (to_le 4 n @ rest) = Inr (n, rest)"
  by (simp add: read_uint32_le_def read_bytes_def from_le_to_le)

definition v3_fields :: "int \<Rightarrow> ustr option \<Rightarrow> ustr option \<Rightarrow> int option \<Rightarrow> V3Header" where
  "v3_fields ts sender author rts = \<lparr>v3_timestamp = nat ts, v3_sender_name = sender, v3_is_signed = False, v3_reply_author_name = author,
     v3_reply_timestamp = map_option nat rts\<rparr>"

abbreviation name_ok :: "ustr option \<Rightarrow> bool" where
  "name_ok s \<equiv> pred_option (\<lambda>s. list_all scalar_value s \<and> length (utf8_encode s) < 2 ^ 35) s"

abbreviation stamp_ok :: "int \<Rightarrow> bool" where
  "stamp_ok ts \<equiv> 0 \<le> ts \<and> ts \<le> 0xFFFFFFFF"

lemma v3_body_inverse:
  assumes "float_ok fo" and "model_ok m" and "sendable t" and "stamp_ok ts" and "name_ok sender" and "name_ok author" and "pred_option stamp_ok rts"
    and "author = None \<longleftrightarrow> rts = None"
  obtains body where "encode_v3_body fo m t ts sender author rts = Some (Inr body)"
    and "decode_v3_body fo m body = Some (Inr (v3_fields ts sender author rts, t))" and "body \<noteq> []"
proof -
  obtain c where c: "compress_to_bytes fo m t = Some c" "decompress_bytes fo m c = Some (Inr t)" using bytes_inverse [OF assms(1-3)] by blast
  have n: "nat x < 4294967296" if "stamp_ok x" for x using that by (simp add: nat_less_iff)
  show thesis
  proof (cases sender)
    case None
    show thesis
    proof (cases author)
      case None
      then show thesis using that c assms(4,8) n [OF assms(4)] \<open>sender = None\<close> uint32_inverse [of "nat ts"]
        by (simp add: encode_v3_body_def decode_v3_body_def read_v3_header_def read_byte_def V3_KNOWN_FLAGS_def v3_fields_def)
    next
      case (Some a)
      then obtain rt where rt: "rts = Some rt" "stamp_ok rt" using assms(7,8) by auto
      then show thesis using that c assms(4,6) n [OF assms(4)] n [OF rt(2)] \<open>sender = None\<close> Some uint32_inverse [of "nat ts"] uint32_inverse [of "nat rt"] name_inverse [of a]
        by (simp add: encode_v3_body_def decode_v3_body_def read_v3_header_def read_byte_def V3_KNOWN_FLAGS_def v3_fields_def
            V3_FLAG_REPLY_def V3_FLAG_SENDER_NAME_def V3_FLAG_SIGNED_def)
    qed
  next
    case (Some s)
    show thesis
    proof (cases author)
      case None
      then show thesis using that c assms(4,5,8) n [OF assms(4)] Some uint32_inverse [of "nat ts"] name_inverse [of s]
        by (simp add: encode_v3_body_def decode_v3_body_def read_v3_header_def read_byte_def V3_KNOWN_FLAGS_def v3_fields_def
            V3_FLAG_REPLY_def V3_FLAG_SENDER_NAME_def V3_FLAG_SIGNED_def)
    next
      case a: (Some a)
      then obtain rt where rt: "rts = Some rt" "stamp_ok rt" using assms(7,8) by auto
      then show thesis using that c assms(4,5,6) n [OF assms(4)] n [OF rt(2)] Some a uint32_inverse [of "nat ts"] uint32_inverse [of "nat rt"]
          name_inverse [of a] name_inverse [of s]
        by (simp add: encode_v3_body_def decode_v3_body_def read_v3_header_def read_byte_def V3_KNOWN_FLAGS_def v3_fields_def
            V3_FLAG_REPLY_def V3_FLAG_SENDER_NAME_def V3_FLAG_SIGNED_def)
    qed
  qed
qed

section \<open>Encoding any text ends\<close>

text \<open>An escape that cannot occur has an empty interval. Coding it still ends: the shifts run the lower end out to zero.\<close>

lemma shift_empty:
  assumes "ae_high e = ae_low e - 1" and "0 \<le> ae_low e" and "ae_low e \<le> FULL"
  defines "c \<equiv> if ae_low e \<le> HALF then 0 else HALF"
  shows "shift_offset (ae_low e) (ae_high e) = Some c"
    and "settled (shift_step e) \<or> (ae_high (shift_step e) = ae_low (shift_step e) - 1 \<and> ae_low (shift_step e) = 2 * (ae_low e - c) \<and> ae_low (shift_step e) \<le> FULL)"
    and "2 * (ae_low e - c) \<in> {0, FULL} \<Longrightarrow> settled (shift_step e)"
proof -
  show o: "shift_offset (ae_low e) (ae_high e) = Some c" using assms(1) by (auto simp: shift_offset_def c_def)
  let ?x = "2 * (ae_low e - c)"
  have l: "ae_low (shift_step e) = ?x mod FULL"
    using assms(1) by (auto simp: shift_step_def shift_interval_def emit_bit_def c_def)
  have "2 * (ae_low e - 1 - c) + 1 = ?x - 1" by simp
  then have h: "ae_high (shift_step e) = (?x - 1) mod FULL"
    using assms(1) by (auto simp: shift_step_def shift_interval_def emit_bit_def c_def)
  have x: "0 \<le> ?x" "?x \<le> FULL" using assms(2,3) by (auto simp: c_def arith_consts)
  show s: "settled (shift_step e)" if "?x \<in> {0, FULL}"
  proof -
    have "?x = 0 \<or> ?x = FULL" using that by blast
    then have "?x mod FULL = 0" "(?x - 1) mod FULL = MASK" by (auto simp only: arith_consts) auto
    then show ?thesis using l h by (simp add: settled_def arith_consts)
  qed
  show "settled (shift_step e) \<or> (ae_high (shift_step e) = ae_low (shift_step e) - 1 \<and> ae_low (shift_step e) = ?x \<and> ae_low (shift_step e) \<le> FULL)"
  proof (cases "?x \<in> {0, FULL}")
    case False
    then have "0 < ?x" "?x < FULL" using x by auto
    then have "?x mod FULL = ?x" "(?x - 1) mod FULL = ?x - 1" by (intro mod_pos_pos_trivial, simp_all)+
    then show ?thesis using l h x by simp
  qed (use s in blast)
qed

lemma settled_after:
  assumes "shift_offset (ae_low e) (ae_high e) = Some c" and "settled (shift_step e)"
  shows "\<exists>e'. encoder_renorm e = Some e' \<and> settled e'"
proof -
  have "encoder_renorm (shift_step e) = Some (shift_step e)"
    using settled_offset [OF settled_proper [OF assms(2)]] assms(2) by (subst encoder_renorm_step) simp
  then show ?thesis using assms by (subst encoder_renorm_step) simp
qed

lemma empty_renorm:
  "k \<le> 32 \<Longrightarrow> ae_high e = ae_low e - 1 \<Longrightarrow> 0 \<le> ae_low e \<Longrightarrow> ae_low e \<le> FULL \<Longrightarrow> 2 ^ (32 - k) dvd ae_low e \<Longrightarrow>
    \<exists>e'. encoder_renorm e = Some e' \<and> settled e'"
proof (induction k arbitrary: e)
  case 0
  note s = shift_empty [OF 0(2-4)]
  obtain q where q: "ae_low e = FULL * q" using 0(5) by (auto simp: FULL_def)
  then have "q = 0 \<or> q = 1" using 0(3,4) by (auto simp: FULL_def)
  then have "ae_low e = 0 \<or> ae_low e = FULL" using q by auto
  then have "settled (shift_step e)" by (intro s(3)) (auto simp: arith_consts)
  then show ?case by (rule settled_after [OF s(1)])
next
  case (Suc k)
  note s = shift_empty [OF Suc.prems(2-4)]
  define c where "c = (if ae_low e \<le> HALF then 0 else HALF)"
  consider "settled (shift_step e)" | "ae_high (shift_step e) = ae_low (shift_step e) - 1" "ae_low (shift_step e) = 2 * (ae_low e - c)" "ae_low (shift_step e) \<le> FULL"
    using s(2) unfolding c_def by blast
  then show ?case
  proof cases
    case 1
    then show ?thesis by (rule settled_after [OF s(1)])
  next
    case 2
    have k: "32 - k = Suc (32 - Suc k)" "32 - Suc k \<le> 31" using Suc.prems(1) by simp_all
    have "2 ^ (32 - Suc k) dvd c" using le_imp_power_dvd [OF k(2), of "2 :: int"] by (simp add: c_def HALF_def)
    then have "2 ^ (32 - Suc k) dvd ae_low e - c" using Suc.prems(5) by (rule dvd_diff [rotated])
    then have "2 ^ (32 - k) dvd ae_low (shift_step e)" unfolding 2(2) k(1) power_Suc by (rule mult_dvd_mono [OF dvd_refl])
    moreover have "0 \<le> ae_low (shift_step e)" using Suc.prems(3) by (simp add: 2(2) c_def HALF_def)
    ultimately obtain e' where "encoder_renorm (shift_step e) = Some e'" "settled e'" using Suc.IH [of "shift_step e"] 2 Suc.prems(1) by auto
    then show ?thesis using s(1) by (simp add: encoder_renorm_step [of e])
  qed
qed

lemma index_encoded:
  assumes "settled e" and "cdf_ok highs" and "i < length highs"
  shows "\<exists>e'. encode_index highs i e = Some e' \<and> settled e'"
proof (cases "low_count_of highs i < highs ! i")
  case True
  then show ?thesis using index_coded [OF assms] coded_settled by metis
next
  case False
  have r: "0 \<le> low_count_of highs i \<and> low_count_of highs i \<le> highs ! i \<and> highs ! i \<le> CDF_SCALE" using cdf_range [OF assms(2,3)] by auto
  then have z: "low_count_of highs i = highs ! i" using False by simp
  let ?e = "narrow (low_count_of highs i) (highs ! i) CDF_SCALE e" and ?w = "ae_high e - ae_low e + 1"
  have w: "0 \<le> ?w" "ae_low e + ?w \<le> FULL" "0 \<le> ae_low e" using assms(1) by (auto simp: settled_def)
  have "?w * (highs ! i) div CDF_SCALE \<le> ?w * CDF_SCALE div CDF_SCALE"
    by (intro zdiv_mono1 mult_left_mono) (use r w(1) in \<open>simp_all add: CDF_SCALE_def\<close>)
  moreover have "0 \<le> ?w * (highs ! i) div CDF_SCALE" using r w(1) z by (simp add: CDF_SCALE_def pos_imp_zdiv_nonneg_iff)
  ultimately have "ae_high ?e = ae_low ?e - 1" "0 \<le> ae_low ?e" "ae_low ?e \<le> FULL" using w by (simp_all add: narrow_def Let_def z CDF_SCALE_def)
  from empty_renorm [of 32, OF _ this] show ?thesis by (simp add: encode_index_def encode_symbol_def)
qed

lemma encode_chars_total:
  assumes fm: "float_ok fo" "model_ok m"
  shows "settled e \<Longrightarrow> list_all (\<lambda>ch. ch < 0x200000) t \<Longrightarrow> \<exists>e'. encode_chars fo m esc ctxt t e = Some e' \<and> settled e'"
proof (induction t arbitrary: ctxt e)
  have dv: "distinct (mm_vocab m)" "EOF_SYMBOL \<in> set (mm_vocab m)" "ESC \<in> set (mm_vocab m)" using fm(2) by (simp_all add: model_ok_def)
  note cdf = cdf_usable [OF fm]
  have ix: "\<exists>e'. encode_index (compute_cdf fo m ctxt esc) i e = Some e' \<and> settled e'" if "settled e" "vocab_index m ch = Some i" for ctxt i e ch
    using index_encoded [OF that(1) cdf(1)] that(2) cdf(2) vocab_index_nth [OF dv(1)] by metis
  {
    case Nil
    obtain i where "vocab_index m EOF_SYMBOL = Some i" using vocab_index_None [OF dv(1), of EOF_SYMBOL] dv(2) by auto
    then show ?case using ix [OF Nil(1)] by simp
  next
    case (Cons ch t)
    obtain e1 where "encode_char fo m esc ctxt ch e = Some e1" "settled e1"
    proof (cases "vocab_index m ch")
      case (Some i)
      then show thesis using ix [OF Cons.prems(1) Some] that by (auto simp: encode_char_def)
    next
      case None
      obtain i where i: "vocab_index m ESC = Some i" using vocab_index_None [OF dv(1), of ESC] dv(3) by auto
      obtain e0 where e0: "encode_index (compute_cdf fo m ctxt esc) i e = Some e0" "settled e0" using ix [OF Cons.prems(1) i] by blast
      obtain e1 where "encode_codepoint ch e0 = Some e1" "coded_as e0 e1 decode_codepoint ch"
        using codepoint_coded [OF e0(2), of ch] Cons.prems(2) by auto
      then show thesis using that [of e1] coded_settled [of e0 e1 decode_codepoint ch] None i e0(1) by (simp add: encode_char_def)
    qed
    then show ?case using Cons.IH Cons.prems(2) by simp
  }
qed

lemma compress_total:
  assumes "float_ok fo" and "model_ok m" and "list_all (\<lambda>ch. ch < 0x200000) t"
  shows "compress_arithmetic_bits fo m t \<noteq> None"
  using encode_chars_total [OF assms(1,2) new_encoder_settled assms(3)] by (fastforce simp: compress_arithmetic_bits_def)

lemma decode_arithmetic_total: "float_ok fo \<Longrightarrow> model_ok m \<Longrightarrow> decode_arithmetic fo m esc data \<noteq> None"
  unfolding decode_arithmetic_def by (rule decode_chars_total [OF _ _ new_decoder_ok])

lemma decompress_total:
  assumes "float_ok fo" and "model_ok m"
  shows "decompress_text_transport fo m t \<noteq> None" and "decompress_bytes fo m data \<noteq> None" and "decode_v3_body fo m body \<noteq> None"
proof -
  note d = decode_arithmetic_total [OF assms]
  show "decompress_text_transport fo m t \<noteq> None" using d by (auto simp: decompress_text_transport_def split: list.splits sum.splits)
  show b: "decompress_bytes fo m data \<noteq> None" for data using d by (auto simp: decompress_bytes_def split: list.splits)
  show "decode_v3_body fo m body \<noteq> None" using b by (auto simp: decode_v3_body_def split: sum.splits)
qed

section \<open>The container as a text\<close>

lemma v3_text_inverse:
  assumes "float_ok fo" and "model_ok m" and "sendable t" and "stamp_ok ts" and "name_ok sender" and "name_ok author" and "pred_option stamp_ok rts"
    and "author = None \<longleftrightarrow> rts = None" and "t \<noteq> []" and "\<not> is_v3_text_payload t" and "\<not> has_prefix t"
  obtains c where "encode_v3_text fo m t ts sender author rts = Some c" and "is_v3_text_payload c"
    and "try_decode_v3_text fo m c = Some (Some (v3_fields ts sender author rts, t))"
proof -
  obtain body where b: "encode_v3_body fo m t ts sender author rts = Some (Inr body)"
    "decode_v3_body fo m body = Some (Inr (v3_fields ts sender author rts, t))" "body \<noteq> []"
    by (rule v3_body_inverse [OF assms(1-8)])
  have "b91_encode body \<noteq> []"
  proof
    assume "b91_encode body = []"
    then show False using v2.dec_encode [of body] v2.dec_encode [of "[]"] b(3) by (simp add: b91_encode_def)
  qed
  then have p: "is_v3_text_payload (PREFIX_V3 @ utext (b91_encode body))" by (simp add: is_v3_text_payload_def utext_def)
  have "pred_option (list_all scalar_value) sender" "pred_option (list_all scalar_value) author" using assms(5,6) by (auto simp: option.pred_set)
  then have "encode_v3_text fo m t ts sender author rts = Some (PREFIX_V3 @ utext (b91_encode body))" using assms(3,9-11) b(1) by (simp add: encode_v3_text_def)
  moreover have "try_decode_v3_text fo m (PREFIX_V3 @ utext (b91_encode body)) = Some (Some (v3_fields ts sender author rts, t))"
    using p b(2) by (simp add: try_decode_v3_text_def caught_def)
  ultimately show thesis using that p by blast
qed

section \<open>What the compressor promises\<close>

text \<open>A small model and exact arithmetic, for the witnesses.\<close>

definition demo_floats :: float_ops where
  "demo_floats = \<lparr>fo_round = id, fo_log = (\<lambda>t. 1)\<rparr>"

definition demo_model :: MeshModel where
  "demo_model = from_dict 1 [97, 98] [(\<lambda>c. if c = [] then Some [(97, 3), (98, 1)] else None), Map.empty]"

lemma demo_ok: "float_ok demo_floats" "model_ok demo_model"
proof -
  show "float_ok demo_floats" by (simp add: float_ok_def demo_floats_def mono_def)
  have "mm_vocab demo_model = [3, 4, 97, 98]" by (simp add: demo_model_def from_dict_def EOF_SYMBOL_def ESC_def utf16_units_def)
  then show "model_ok demo_model" by (auto simp: model_ok_def EOF_SYMBOL_def ESC_def demo_model_def from_dict_def)
qed

text \<open>C37: For every context and text kind, the cumulative table has one entry per symbol of the vocabulary, ascends from at least zero to
  the full scale, and leaves every symbol that can occur an interval that is not empty, whatever the rounding of the floating-point
  arithmetic, as long as it is monotone and keeps zero.\<close>

theorem mcmp_table_usable:
  assumes "float_ok fo" and "model_ok m"
  shows "length (compute_cdf fo m ctxt esc) = length (mm_vocab m) \<and> sorted (compute_cdf fo m ctxt esc) \<and> 0 \<le> hd (compute_cdf fo m ctxt esc)
    \<and> last (compute_cdf fo m ctxt esc) = CDF_SCALE
    \<and> (\<forall>i < length (mm_vocab m). mm_vocab m ! i \<noteq> ESC \<or> esc \<longrightarrow> low_count_of (compute_cdf fo m ctxt esc) i < compute_cdf fo m ctxt esc ! i)"
  using cdf_usable [OF assms] by (auto simp: cdf_ok_def)

theorem mcmp_table_usable_witness:
  "float_ok demo_floats \<and> model_ok demo_model \<and> last (compute_cdf demo_floats demo_model [97] False) = CDF_SCALE"
  using mcmp_table_usable [OF demo_ok, of "[97]" False] demo_ok by blast

text \<open>C14: Any text without the two control characters of the model is decoded from its compressed form exactly, whether the bits are
  packed whole or with trailing zero bytes cut; and the message sent is either the text itself or a strictly shorter \<open>mcmp2:\<close> text that
  decodes to it.\<close>

theorem mcmp_v2_roundtrip:
  assumes "float_ok fo" and "model_ok m" and "list_all scalar_value t" and "EOF_SYMBOL \<notin> set t" and "ESC \<notin> set t" and "length t < DECODE_HARD_LIMIT"
  shows "(\<exists>flag bits. compress_arithmetic_bits fo m t = Some (flag, bits) \<and> decode_arithmetic fo m flag (bits_to_bytes bits) = Some (Inr t)
        \<and> decode_arithmetic fo m flag (bits_to_min_bytes bits) = Some (Inr t))
    \<and> (\<exists>c. encode_if_smaller fo (Some m) t = Some c \<and> (c = t \<or> (has_prefix c \<and> length (utf8_encode c) < length (utf8_encode t)
        \<and> try_decode_prefixed fo (Some m) c = Some (Some t))))"
proof -
  obtain bits where "compress_arithmetic_bits fo m t = Some (has_extras m t, bits)"
    "\<And>data. data_stream data = stream_of bits \<Longrightarrow> decode_arithmetic fo m (has_extras m t) data = Some (Inr t)"
    using arithmetic_roundtrip [OF assms] by metis
  moreover from this have "decode_arithmetic fo m (has_extras m t) (bits_to_bytes bits) = Some (Inr t)"
    "decode_arithmetic fo m (has_extras m t) (bits_to_min_bytes bits) = Some (Inr t)"
    using bits_to_bytes_stream min_bytes_stream by blast+
  ultimately show ?thesis using v2_inverse [OF assms(1,2), of t] assms(3-6) by blast
qed

theorem mcmp_v2_roundtrip_witness:
  "\<exists>flag bits. compress_arithmetic_bits demo_floats demo_model [97, 0x416] = Some (flag, bits)
     \<and> decode_arithmetic demo_floats demo_model flag (bits_to_min_bytes bits) = Some (Inr [97, 0x416])"
proof -
  have "list_all scalar_value [97, 0x416] \<and> EOF_SYMBOL \<notin> set [97, 0x416] \<and> ESC \<notin> set [97, 0x416] \<and> length [97, 0x416::nat] < DECODE_HARD_LIMIT"
    by (simp add: scalar_value_def EOF_SYMBOL_def ESC_def DECODE_HARD_LIMIT_def)
  then show ?thesis using mcmp_v2_roundtrip [OF demo_ok, of "[97, 0x416]"] by blast
qed

text \<open>C19: A text put into an \<open>mcmp3:\<close> container is read back with its timestamp, its sender's name and the message it replies to.\<close>

theorem mcmp_v3_roundtrip:
  assumes "float_ok fo" and "model_ok m" and "sendable t" and "stamp_ok ts" and "name_ok sender" and "name_ok author" and "pred_option stamp_ok rts"
    and "author = None \<longleftrightarrow> rts = None" and "t \<noteq> []" and "\<not> is_v3_text_payload t" and "\<not> has_prefix t"
  shows "\<exists>c. encode_v3_text fo m t ts sender author rts = Some c \<and> is_v3_text_payload c
    \<and> try_decode_v3_text fo m c = Some (Some (\<lparr>v3_timestamp = nat ts, v3_sender_name = sender, v3_is_signed = False,
        v3_reply_author_name = author, v3_reply_timestamp = map_option nat rts\<rparr>, t))"
  using v3_text_inverse [OF assms] unfolding v3_fields_def by metis

theorem mcmp_v3_roundtrip_witness:
  "\<exists>c. encode_v3_text demo_floats demo_model [97, 98] 1700000000 (Some [97]) (Some [98]) (Some 5) = Some c
    \<and> try_decode_v3_text demo_floats demo_model c = Some (Some (\<lparr>v3_timestamp = nat 1700000000, v3_sender_name = Some [97], v3_is_signed = False,
        v3_reply_author_name = Some [98], v3_reply_timestamp = Some 5\<rparr>, [97, 98]))"
proof -
  have "sendable [97, 98]" by (simp add: scalar_value_def EOF_SYMBOL_def ESC_def DECODE_HARD_LIMIT_def)
  moreover have "name_ok (Some [97])" "name_ok (Some [98])" by (simp_all add: scalar_value_def utf8_encode_def utf8_char_def)
  moreover have "\<not> is_v3_text_payload [97, 98]" "\<not> has_prefix [97, 98]"
    by (simp_all add: is_v3_text_payload_def has_prefix_def lstrip_def uspace_def PREFIX_V2_def PREFIX_V3_def utext_def)
  ultimately show ?thesis using mcmp_v3_roundtrip [OF demo_ok, of "[97, 98]" 1700000000 "Some [97]" "Some [98]" "Some 5"] by auto
qed

text \<open>C18: Compressing any text and decompressing any text or container ends: the renormalisation loops of the coder leave off after
  finitely many shifts whatever the symbol, the table and the received bytes, an empty interval included.\<close>

theorem mcmp_returns:
  assumes "float_ok fo" and "model_ok m" and "list_all (\<lambda>ch. ch < 0x110000) t"
  shows "(\<exists>c. encode_if_smaller fo (Some m) t = Some c) \<and> (\<exists>c. encode_v3_text fo m t ts sender author rts = Some c)
    \<and> (\<exists>r. try_decode_prefixed fo (Some m) u = Some r) \<and> (\<exists>r. try_decode_v3_text fo m u = Some r)"
proof (intro conjI)
  have "list_all (\<lambda>ch. ch < 0x200000) t" using assms(3) by (auto simp: list_all_iff)
  then obtain p where c: "compress_arithmetic_bits fo m t = Some p" using compress_total [OF assms(1,2)] by blast
  note d = decompress_total [OF assms(1,2)]
  show "\<exists>c. encode_if_smaller fo (Some m) t = Some c" using c by (auto simp: encode_if_smaller_def compress_text_transport_def)
  show "\<exists>c. encode_v3_text fo m t ts sender author rts = Some c" using c by (auto simp: encode_v3_text_def encode_v3_body_def compress_to_bytes_def)
  show "\<exists>r. try_decode_prefixed fo (Some m) u = Some r" using d(1) by (auto simp: try_decode_prefixed_def Let_def)
  show "\<exists>r. try_decode_v3_text fo m u = Some r" using d(3) by (auto simp: try_decode_v3_text_def split: sum.splits)
qed

theorem mcmp_returns_witness:
  "float_ok demo_floats \<and> model_ok demo_model \<and> (\<exists>c. encode_if_smaller demo_floats (Some demo_model) [ESC, 97] = Some c)"
  using mcmp_returns [OF demo_ok, of "[ESC, 97]"] demo_ok by (simp add: ESC_def)

text \<open>A character U+0003 in a text is coded as the end of the text: what is decoded stops before it, and nothing on the way notices.\<close>

theorem mcmp_end_mark_truncates:
  assumes "float_ok fo" and "model_ok m" and "list_all scalar_value (t @ u)" and "EOF_SYMBOL \<notin> set (t @ u)" and "ESC \<notin> set (t @ u)"
    and "length t < DECODE_HARD_LIMIT"
  shows "\<exists>flag bits. compress_arithmetic_bits fo m (t @ [EOF_SYMBOL] @ u) = Some (flag, bits)
    \<and> decode_arithmetic fo m flag (bits_to_min_bytes bits) = Some (Inr t)"
  using eof_character_truncates [OF assms] min_bytes_stream by (metis append_Cons append_Nil)

theorem mcmp_end_mark_truncates_witness:
  "\<exists>flag bits. compress_arithmetic_bits demo_floats demo_model [97, 3, 98] = Some (flag, bits)
     \<and> decode_arithmetic demo_floats demo_model flag (bits_to_min_bytes bits) = Some (Inr [97])"
  using mcmp_end_mark_truncates [OF demo_ok, of "[97]" "[98]"] by (simp add: scalar_value_def EOF_SYMBOL_def ESC_def DECODE_HARD_LIMIT_def)

end
