(* ===== verification/McotxtText.thy ===== *)
theory McotxtText
  imports McotxtPlan McmpText
begin

text \<open>
  Frame, container and text transport of MCOtxt (\<open>src/app/compression/mcotxt.py\<close>): the length-prefixed frame, the container with flags,
  timestamp, sender and reply, and the \<open>mct:\<close> text. The language tables \<open>ms\<close> stand for the process-wide ones.
\<close>

section \<open>Frame\<close>

definition PREFIX_MCT :: ustr where "PREFIX_MCT = utext ''mct:''"
definition SUBTYPE_ID :: nat where "SUBTYPE_ID = 0x03"
definition WIRE_REVISION :: nat where "WIRE_REVISION = 0x01"
definition SUBTYPE_VERSION :: nat where "SUBTYPE_VERSION = push_bit 4 SUBTYPE_ID OR WIRE_REVISION"

function varuint :: "nat \<Rightarrow> bytes" where
  "varuint v =
     (let b = v AND 0x7F; v' = drop_bit 7 v
      in if v' \<noteq> 0 then byte_of (b OR 0x80) # varuint v' else [byte_of b])"
  by pat_completeness auto
termination
  by (relation "measure id") (auto simp: drop_bit_eq_div)

declare varuint.simps [simp del]

text \<open>The reader is the bytes that are left.\<close>

definition rd_byte :: "bytes \<Rightarrow> (nat \<times> bytes) res" where
  "rd_byte bs = (case bs of [] \<Rightarrow> Inl MCOtxtError | b # rest \<Rightarrow> Inr (unat b, rest))"

definition rd_take :: "nat \<Rightarrow> bytes \<Rightarrow> (bytes \<times> bytes) res" where
  "rd_take n bs = (if n > length bs then Inl MCOtxtError else Inr (take n bs, drop n bs))"

definition rd_uint32 :: "bytes \<Rightarrow> (nat \<times> bytes) res" where
  "rd_uint32 bs = bind_res (rd_take 4 bs) (\<lambda>(b, rest). Inr (from_le b, rest))"

fun rd_varuint_from :: "nat \<Rightarrow> nat list \<Rightarrow> bytes \<Rightarrow> (nat \<times> bytes) res" where
  "rd_varuint_from result [] bs = Inl MCOtxtError"
| "rd_varuint_from result (sh # shs) bs =
     bind_res (rd_byte bs) (\<lambda>(b, rest).
       let result' = result OR push_bit sh (b AND 0x7F)
       in if b AND 0x80 = 0 then Inr (result', rest) else rd_varuint_from result' shs rest)"

definition rd_varuint :: "bytes \<Rightarrow> (nat \<times> bytes) res" where
  "rd_varuint bs = rd_varuint_from 0 [0, 7, 14, 21, 28] bs"

definition encode_frame :: "(nat \<Rightarrow> bool) \<Rightarrow> ModelSet \<Rightarrow> ustr \<Rightarrow> bytes res" where
  "encode_frame isalpha ms txt = bind_res (encode_stream isalpha ms txt None False) (\<lambda>(data, bit_length). Inr (varuint bit_length @ data))"

section \<open>Container\<close>

definition FLAG_REPLY :: nat where "FLAG_REPLY = 0x01"
definition FLAG_SENDER_NAME :: nat where "FLAG_SENDER_NAME = 0x02"
definition FLAG_TIMESTAMP_INHERITED :: nat where "FLAG_TIMESTAMP_INHERITED = 0x04"
definition KNOWN_FLAGS :: nat where "KNOWN_FLAGS = FLAG_REPLY OR FLAG_SENDER_NAME OR FLAG_TIMESTAMP_INHERITED"
definition STRING_MCOTXT :: nat where "STRING_MCOTXT = 0x00"
definition STRING_UTF8 :: nat where "STRING_UTF8 = 0x01"

record DecodedMCOtxtMessage =
  mct_text :: ustr
  mct_timestamp :: "nat option"
  mct_sender_name :: "ustr option"
  mct_reply_author_name :: "ustr option"
  mct_reply_timestamp :: "nat option"
  mct_text_payload_bytes :: nat

text \<open>A name with a lone surrogate has no UTF-8 form. Only the codec's own error falls back to plain UTF-8.\<close>

definition mct_write_name :: "(nat \<Rightarrow> bool) \<Rightarrow> ModelSet \<Rightarrow> ustr \<Rightarrow> bytes res" where
  "mct_write_name isalpha ms name =
     (let normalized = normalize_text name; raw = utf8_encode normalized;
          utf8_form = byte_of STRING_UTF8 # varuint (length raw) @ raw
      in if \<not> list_all scalar_value normalized then Inl ValueError
         else case encode_frame isalpha ms normalized of
                Inl e \<Rightarrow> if e = MCOtxtError then Inr utf8_form else Inl e
              | Inr frame \<Rightarrow>
                  let mcotxt_form = byte_of STRING_MCOTXT # frame
                  in Inr (if length mcotxt_form \<le> length utf8_form then mcotxt_form else utf8_form))"

text \<open>\<open>(t & 0xFFFFFFFF).to_bytes(4, "little")\<close>.\<close>

definition stamp_bytes :: "int \<Rightarrow> bytes" where
  "stamp_bytes t = to_le 4 (nat (t mod 2 ^ 32))"

definition opt_res :: "('a \<Rightarrow> bytes res) \<Rightarrow> 'a option \<Rightarrow> bytes res" where
  "opt_res f x = (case x of None \<Rightarrow> Inr [] | Some v \<Rightarrow> f v)"

definition encode_container :: "(nat \<Rightarrow> bool) \<Rightarrow> ModelSet \<Rightarrow> ustr \<Rightarrow> int option \<Rightarrow> ustr option \<Rightarrow> ustr option \<Rightarrow> int option \<Rightarrow> bytes res" where
  "encode_container isalpha ms txt timestamp sender_name reply_author_name reply_timestamp =
     (if (reply_author_name = None) \<noteq> (reply_timestamp = None) then Inl ValueError
      else
        let flags = (if reply_author_name \<noteq> None then FLAG_REPLY else 0) OR (if sender_name \<noteq> None then FLAG_SENDER_NAME else 0)
                OR (if timestamp = None then FLAG_TIMESTAMP_INHERITED else 0)
        in bind_res (opt_res (mct_write_name isalpha ms) sender_name) (\<lambda>sender.
           bind_res (opt_res (mct_write_name isalpha ms) reply_author_name) (\<lambda>author.
           bind_res (encode_frame isalpha ms txt) (\<lambda>frame.
           Inr ([byte_of flags] @ (case timestamp of None \<Rightarrow> [] | Some t \<Rightarrow> stamp_bytes t) @ sender
             @ author @ (case reply_timestamp of None \<Rightarrow> [] | Some t \<Rightarrow> stamp_bytes t) @ [byte_of STRING_MCOTXT] @ frame)))))"

definition rd_string :: "ModelSet \<Rightarrow> bytes \<Rightarrow> ((ustr \<times> nat) \<times> bytes) res" where
  "rd_string ms bs =
     bind_res (rd_byte bs) (\<lambda>(mode, r1).
       if mode = STRING_MCOTXT then
         bind_res (rd_varuint r1) (\<lambda>(bit_length, r2). bind_res (rd_take (drop_bit 3 (bit_length + 7)) r2) (\<lambda>(payload, r3).
         bind_res (decode_mct_stream ms payload bit_length) (\<lambda>s. Inr ((s, length payload), r3))))
       else if mode = STRING_UTF8 then
         bind_res (rd_varuint r1) (\<lambda>(n, r2). bind_res (rd_take n r2) (\<lambda>(payload, r3).
         bind_res (strict_utf8 payload) (\<lambda>s. Inr ((s, length payload), r3))))
       else Inl MCOtxtError)"

definition decode_container :: "ModelSet \<Rightarrow> bytes \<Rightarrow> DecodedMCOtxtMessage res" where
  "decode_container ms body =
     bind_res (rd_byte body) (\<lambda>(flags, r0).
     if flags AND KNOWN_FLAGS \<noteq> flags then Inl MCOtxtError
     else bind_res (if flags AND FLAG_TIMESTAMP_INHERITED \<noteq> 0 then Inr (None, r0) else bind_res (rd_uint32 r0) (\<lambda>(t, r). Inr (Some t, r))) (\<lambda>(timestamp, r1).
     bind_res (if flags AND FLAG_SENDER_NAME \<noteq> 0 then bind_res (rd_string ms r1) (\<lambda>((s, _), r). Inr (Some s, r)) else Inr (None, r1)) (\<lambda>(sender, r2).
     bind_res (if flags AND FLAG_REPLY \<noteq> 0
               then bind_res (rd_string ms r2) (\<lambda>((author, _), r). bind_res (rd_uint32 r) (\<lambda>(ts, r'). Inr (Some author, Some ts, r')))
               else Inr (None, None, r2)) (\<lambda>(author, reply_ts, r3).
     bind_res (rd_string ms r3) (\<lambda>((s, payload_bytes), r4).
     if r4 \<noteq> [] then Inl MCOtxtError
     else Inr \<lparr>mct_text = s, mct_timestamp = timestamp, mct_sender_name = sender, mct_reply_author_name = author,
               mct_reply_timestamp = reply_ts, mct_text_payload_bytes = payload_bytes\<rparr>)))))"

section \<open>Text transport\<close>

definition is_text_payload :: "ustr \<Rightarrow> bool" where
  "is_text_payload txt \<longleftrightarrow> starts_with PREFIX_MCT (lstrip txt) \<and> length (lstrip txt) > length PREFIX_MCT"

definition encode_text :: "(nat \<Rightarrow> bool) \<Rightarrow> ModelSet \<Rightarrow> ustr \<Rightarrow> ustr res" where
  "encode_text isalpha ms txt =
     (if txt = [] \<or> is_text_payload txt then Inr txt
      else bind_res (encode_container isalpha ms txt None None None None) (\<lambda>body.
             Inr (PREFIX_MCT @ utext (b91_encode (byte_of SUBTYPE_VERSION # body)))))"

definition text_body :: "ustr \<Rightarrow> bytes res" where
  "text_body txt =
     bind_res (b91_text_v3 (drop (length PREFIX_MCT) (lstrip txt))) (\<lambda>payload.
       case payload of
         [] \<Rightarrow> Inl MCOtxtError
       | b # body \<Rightarrow>
           if drop_bit 4 (unat b) \<noteq> SUBTYPE_ID then Inl MCOtxtError
           else if unat b AND 0x0F \<noteq> WIRE_REVISION then Inl MCOtxtError
           else Inr body)"

definition try_decode_text :: "ModelSet \<Rightarrow> ustr \<Rightarrow> DecodedMCOtxtMessage option" where
  "try_decode_text ms txt = (if \<not> is_text_payload txt then None else caught (bind_res (text_body txt) (decode_container ms)))"

definition text_payload_bytes :: "ModelSet \<Rightarrow> ustr \<Rightarrow> nat option" where
  "text_payload_bytes ms txt = map_option mct_text_payload_bytes (try_decode_text ms txt)"

section \<open>Reading back what was written\<close>

lemma varuint_is: "varuint v = write_varuint v"
proof (induction v rule: less_induct)
  case (less v)
  have "v mod 128 OR 128 = 128 + v mod 128" using or_push_bit' [of "v mod 128" 7 1] by (simp add: or.commute)
  moreover have "v < 128 \<longleftrightarrow> v div 128 = 0" by auto
  ultimately show ?case using less [of "v div 128"]
    by (subst varuint.simps, subst write_varuint.simps) (auto simp: Let_def and_127 drop_bit_eq_div)
qed

lemma rd_varuint_loop:
  assumes "read_varuint_loop r (7 * j) bs = Inr x" and "j < 5"
  shows "rd_varuint_from r (map ((*) 7) [j..<5]) bs = Inr x"
  using assms
proof (induction "5 - j" arbitrary: r j bs)
  case (Suc k)
  have j: "map ((*) 7) [j..<5] = 7 * j # map ((*) 7) [Suc j..<5]" using Suc.prems(2) by (simp add: upt_conv_Cons)
  obtain b rest where bs: "bs = b # rest" using Suc.prems(1) by (cases bs) (simp_all add: read_varuint_loop.simps [of r "7 * j"])
  let ?r = "r OR push_bit (7 * j) (unat b AND 0x7F)"
  show ?case
  proof (cases "unat b AND 0x80 = 0")
    case True
    then show ?thesis using Suc.prems(1) by (subst (asm) read_varuint_loop.simps) (simp add: j bs rd_byte_def Let_def)
  next
    case False
    then have "read_varuint_loop ?r (7 * Suc j) rest = Inr x \<and> Suc j < 5"
      using Suc.prems(1) by (subst (asm) read_varuint_loop.simps) (auto simp: bs Let_def add.commute split: if_splits)
    then have "rd_varuint_from ?r (map ((*) 7) [Suc j..<5]) rest = Inr x" by (intro Suc.hyps(1)) (use Suc.hyps(2) in auto)
    then show ?thesis using False by (simp add: j bs rd_byte_def Let_def)
  qed
qed simp

lemma rd_varuint_inverse: "v < 2 ^ 35 \<Longrightarrow> rd_varuint (varuint v @ rest) = Inr (v, rest)"
proof -
  assume "v < 2 ^ 35"
  then have "read_varuint_loop 0 (7 * 0) (write_varuint v @ rest) = Inr (v, rest)" using varuint_inverse by (simp add: read_varuint_def)
  moreover have "map ((*) 7) [0..<5] = [0, 7, 14, 21, 28::nat]" by (simp add: upt_rec)
  ultimately show ?thesis using rd_varuint_loop by (fastforce simp: rd_varuint_def varuint_is)
qed

definition tables_ok :: "ModelSet \<Rightarrow> bool" where
  "tables_ok ms \<longleftrightarrow> models_ok ms \<and> ms_models ms \<noteq> [] \<and> ms_generation ms \<le> HEADER_FIELD_MAX"

abbreviation text_ok :: "ustr \<Rightarrow> bool" where
  "text_ok t \<equiv> list_all scalar_value (normalize_text t) \<and> length (utf8_encode (normalize_text t)) < 2 ^ 31"

lemma stream_header_length: "length (stream_bits g a b) \<le> 20"
  by (simp add: stream_bits_def header_bits_def)

lemma default_stream:
  assumes "tables_ok ms" and "list_all scalar_value (normalize_text t)"
  obtains data n where "encode_stream isalpha ms t None False = Inr (data, n)" and "length data = (n + 7) div 8"
    and "n \<le> 24 + 8 * length (utf8_encode (normalize_text t))" and "decode_mct_stream ms data n = Inr (normalize_text t)"
proof -
  have ok: "models_ok ms" "ms_models ms \<noteq> []" "ms_generation ms \<le> 262" using assms(1) by (simp_all add: tables_ok_def mcotxt_consts)
  have lp: "language_pairs isalpha ms (normalize_text t) None False = [default_pair isalpha ms (normalize_text t)]" by (simp add: language_pairs_def)
  obtain data n where d: "encode_stream isalpha ms t None False = Inr (data, n)" "length data = (n + 7) div 8"
    "n \<le> length (stream_bits (ms_generation ms) 0 0) + 4 + 8 * length (utf8_encode (normalize_text t))"
  proof (rule encode_stream_right [OF ok(1,3) _ _ assms(2), of isalpha None False])
    show "\<forall>p \<in> set (language_pairs isalpha ms (normalize_text t) None False). pair_ok ms p" using default_pair_ok [OF ok(1,2)] lp by simp
  qed (use lp that in auto)
  show thesis by (rule that [OF d(1,2)]) (use d(3) stream_header_length [of "ms_generation ms" 0 0] encode_stream_inverse [OF d(1)] in simp_all)
qed

lemma frame_inverse:
  assumes "tables_ok ms" and "text_ok t"
  obtains frame k where "encode_frame isalpha ms t = Inr frame" and "\<And>rest. rd_string ms (byte_of STRING_MCOTXT # frame @ rest) = Inr ((normalize_text t, k), rest)"
    and "k \<le> 3 + length (utf8_encode (normalize_text t))"
proof -
  obtain data n where d: "encode_stream isalpha ms t None False = Inr (data, n)" "length data = (n + 7) div 8"
    "n \<le> 24 + 8 * length (utf8_encode (normalize_text t))" "decode_mct_stream ms data n = Inr (normalize_text t)"
    using default_stream [OF assms(1)] assms(2) by blast
  have n: "n < 2 ^ 35" using d(3) assms(2) by simp
  have "drop_bit 3 (n + 7) = length data" by (simp add: drop_bit_eq_div d(2))
  then have "rd_string ms (byte_of STRING_MCOTXT # (varuint n @ data) @ rest) = Inr ((normalize_text t, length data), rest)" for rest
    using rd_varuint_inverse [OF n, of "data @ rest"] d(4) by (simp add: rd_string_def rd_byte_def STRING_MCOTXT_def rd_take_def)
  moreover have "length data \<le> 3 + length (utf8_encode (normalize_text t))" using d(2,3) by linarith
  ultimately show thesis using that [of "varuint n @ data" "length data"] d(1) by (simp add: encode_frame_def)
qed

lemma mct_name_inverse:
  assumes "tables_ok ms" and "text_ok name"
  obtains bs where "mct_write_name isalpha ms name = Inr bs" and "\<And>rest. \<exists>k. rd_string ms (bs @ rest) = Inr ((normalize_text name, k), rest)"
proof -
  let ?s = "normalize_text name" and ?raw = "utf8_encode (normalize_text name)"
  obtain frame k where f: "encode_frame isalpha ms ?s = Inr frame" "\<And>rest. rd_string ms (byte_of STRING_MCOTXT # frame @ rest) = Inr ((?s, k), rest)"
    using frame_inverse [OF assms(1), of ?s] assms(2) unfolding normalize_again by blast
  have "length ?raw < 2 ^ 35" using assms(2) by simp
  note v = rd_varuint_inverse [OF this]
  have u: "rd_string ms ((byte_of STRING_UTF8 # varuint (length ?raw) @ ?raw) @ rest) = Inr ((?s, length ?raw), rest)" for rest
    using v [of "?raw @ rest"] assms(2) by (simp add: rd_string_def rd_byte_def STRING_MCOTXT_def STRING_UTF8_def rd_take_def strict_utf8_def utf8_decode_encode)
  let ?bs = "if length (byte_of STRING_MCOTXT # frame) \<le> length (byte_of STRING_UTF8 # varuint (length ?raw) @ ?raw)
    then byte_of STRING_MCOTXT # frame else byte_of STRING_UTF8 # varuint (length ?raw) @ ?raw"
  have "mct_write_name isalpha ms name = Inr ?bs" using assms(2) f(1) by (simp add: mct_write_name_def Let_def)
  moreover have "\<exists>k. rd_string ms (?bs @ rest) = Inr ((?s, k), rest)" for rest using u [of rest] f(2) [of rest] by auto
  ultimately show thesis using that by blast
qed

lemma rd_uint32_inverse: "rd_uint32 (stamp_bytes t @ rest) = Inr (nat (t mod 2 ^ 32), rest)"
proof -
  have "nat (t mod 2 ^ 32) < 2 ^ 32" by (simp add: nat_less_iff)
  then show ?thesis by (simp add: rd_uint32_def rd_take_def stamp_bytes_def from_le_to_le)
qed

definition container_flags :: "bool \<Rightarrow> bool \<Rightarrow> bool \<Rightarrow> nat" where
  "container_flags r s i = (if r then FLAG_REPLY else 0) OR (if s then FLAG_SENDER_NAME else 0) OR (if i then FLAG_TIMESTAMP_INHERITED else 0)"

lemma container_flags [simp]:
  "unat (byte_of (container_flags r s i)) = container_flags r s i" "container_flags r s i AND KNOWN_FLAGS = container_flags r s i" "container_flags r s i AND FLAG_REPLY = 0 \<longleftrightarrow> \<not> r"
  "container_flags r s i AND FLAG_SENDER_NAME = 0 \<longleftrightarrow> \<not> s" "container_flags r s i AND FLAG_TIMESTAMP_INHERITED = 0 \<longleftrightarrow> \<not> i"
  by (cases r; cases s; cases i; simp add: container_flags_def KNOWN_FLAGS_def FLAG_REPLY_def FLAG_SENDER_NAME_def FLAG_TIMESTAMP_INHERITED_def)+

lemma container_inverse:
  assumes ok: "tables_ok ms" "text_ok t" "pred_option text_ok sender" "pred_option text_ok author" and "author = None \<longleftrightarrow> rts = None"
  obtains body k where "encode_container isalpha ms t ts sender author rts = Inr body" and "k \<le> 3 + length (utf8_encode (normalize_text t))"
    and "decode_container ms body = Inr \<lparr>mct_text = normalize_text t, mct_timestamp = map_option (\<lambda>t. nat (t mod 2 ^ 32)) ts,
      mct_sender_name = map_option normalize_text sender, mct_reply_author_name = map_option normalize_text author,
      mct_reply_timestamp = map_option (\<lambda>t. nat (t mod 2 ^ 32)) rts, mct_text_payload_bytes = k\<rparr>"
proof -
  obtain frame k where f: "encode_frame isalpha ms t = Inr frame" "\<And>rest. rd_string ms (byte_of STRING_MCOTXT # frame @ rest) = Inr ((normalize_text t, k), rest)"
    "k \<le> 3 + length (utf8_encode (normalize_text t))" using frame_inverse [OF ok(1,2), of isalpha] by blast
  obtain sb where sb: "opt_res (mct_write_name isalpha ms) sender = Inr sb"
    "\<And>x rest. sender = Some x \<Longrightarrow> \<exists>k. rd_string ms (sb @ rest) = Inr ((normalize_text x, k), rest)" "sender = None \<Longrightarrow> sb = []"
  proof (cases sender)
    case (Some x)
    then obtain bs where "mct_write_name isalpha ms x = Inr bs" "\<And>rest. \<exists>k. rd_string ms (bs @ rest) = Inr ((normalize_text x, k), rest)"
      using mct_name_inverse [OF ok(1), of x] ok(3) by auto
    then show thesis by (intro that [of bs]) (use Some in \<open>auto simp: opt_res_def\<close>)
  qed (use that in \<open>simp add: opt_res_def\<close>)
  obtain ab where ab: "opt_res (mct_write_name isalpha ms) author = Inr ab"
    "\<And>x rest. author = Some x \<Longrightarrow> \<exists>k. rd_string ms (ab @ rest) = Inr ((normalize_text x, k), rest)" "author = None \<Longrightarrow> ab = []"
  proof (cases author)
    case (Some x)
    then obtain bs where "mct_write_name isalpha ms x = Inr bs" "\<And>rest. \<exists>k. rd_string ms (bs @ rest) = Inr ((normalize_text x, k), rest)"
      using mct_name_inverse [OF ok(1), of x] ok(4) by auto
    then show thesis by (intro that [of bs]) (use Some in \<open>auto simp: opt_res_def\<close>)
  qed (use that in \<open>simp add: opt_res_def\<close>)
  have f0: "rd_string ms (byte_of STRING_MCOTXT # frame) = Inr ((normalize_text t, k), [])" using f(2) [of "[]"] by simp
  define sbytes where "sbytes t = (case t of None \<Rightarrow> [] | Some t \<Rightarrow> stamp_bytes t)" for t
  let ?body = "byte_of (container_flags (author \<noteq> None) (sender \<noteq> None) (ts = None)) # sbytes ts @ sb @ ab @ sbytes rts @ byte_of STRING_MCOTXT # frame"
  have e: "encode_container isalpha ms t ts sender author rts = Inr ?body"
    using assms(5) by (simp add: encode_container_def Let_def f(1) sb(1) ab(1) sbytes_def flip: container_flags_def)
  let ?stamp = "map_option (\<lambda>t. nat (t mod 2 ^ 32))"
  have 1: "(if ts = None then Inr (None, sbytes ts @ r) else bind_res (rd_uint32 (sbytes ts @ r)) (\<lambda>(t, r). Inr (Some t, r))) = Inr (?stamp ts, r)" for r
    by (cases ts) (simp_all add: sbytes_def rd_uint32_inverse)
  have 2: "(if sender \<noteq> None then bind_res (rd_string ms (sb @ r)) (\<lambda>((s, _), r). Inr (Some s, r)) else Inr (None, sb @ r)) = Inr (map_option normalize_text sender, r)" for r
  proof (cases sender)
    case (Some x)
    then show ?thesis using sb(2) [OF Some, of r] by auto
  qed (simp add: sb(3))
  have 3: "(if author \<noteq> None then bind_res (rd_string ms (ab @ sbytes rts @ r)) (\<lambda>((author, _), r). bind_res (rd_uint32 r) (\<lambda>(ts, r'). Inr (Some author, Some ts, r')))
      else Inr (None, None, ab @ sbytes rts @ r)) = Inr (map_option normalize_text author, ?stamp rts, r)" for r
  proof (cases author)
    case (Some x)
    then obtain q where q: "rts = Some q" using assms(5) by auto
    obtain k where "rd_string ms (ab @ sbytes rts @ r) = Inr ((normalize_text x, k), sbytes rts @ r)" using ab(2) [OF Some] by blast
    then show ?thesis using Some q by (simp add: sbytes_def rd_uint32_inverse)
  qed (use assms(5) in \<open>simp add: ab(3) sbytes_def\<close>)
  show thesis
  proof (rule that [OF e f(3)])
    show "decode_container ms ?body = Inr \<lparr>mct_text = normalize_text t, mct_timestamp = ?stamp ts, mct_sender_name = map_option normalize_text sender,
      mct_reply_author_name = map_option normalize_text author, mct_reply_timestamp = ?stamp rts, mct_text_payload_bytes = k\<rparr>"
      unfolding decode_container_def rd_byte_def by (simp only: list.case bind_res.simps prod.case container_flags simp_thms if_False 1 2 3 f0 not_not)
  qed
qed

lemma mct_payload [simp]: "lstrip (PREFIX_MCT @ t) = PREFIX_MCT @ t" "length PREFIX_MCT = 4" "starts_with PREFIX_MCT (PREFIX_MCT @ t)"
  by (simp_all add: PREFIX_MCT_def utext_def lstrip_def uspace_def starts_with_def)

lemma b91_not_Nil: "data \<noteq> [] \<Longrightarrow> b91_encode data \<noteq> []"
proof
  assume "data \<noteq> []" and "b91_encode data = []"
  then show False using v2.dec_encode [of data] v2.dec_encode [of "[]"] by (simp add: b91_encode_def)
qed

lemma mct_text_inverse:
  assumes "tables_ok ms" and "text_ok t" and "t \<noteq> []" and "\<not> is_text_payload t"
  obtains c k where "encode_text isalpha ms t = Inr c" and "is_text_payload c" and "k \<le> 3 + length (utf8_encode (normalize_text t))"
    and "try_decode_text ms c = Some \<lparr>mct_text = normalize_text t, mct_timestamp = None, mct_sender_name = None, mct_reply_author_name = None,
      mct_reply_timestamp = None, mct_text_payload_bytes = k\<rparr>"
    and "text_payload_bytes ms c = Some k"
proof -
  obtain body k where b: "encode_container isalpha ms t None None None None = Inr body" "k \<le> 3 + length (utf8_encode (normalize_text t))"
    "decode_container ms body = Inr \<lparr>mct_text = normalize_text t, mct_timestamp = None, mct_sender_name = None, mct_reply_author_name = None,
      mct_reply_timestamp = None, mct_text_payload_bytes = k\<rparr>"
    using container_inverse [OF assms(1,2), of None None None isalpha None] by auto
  let ?c = "PREFIX_MCT @ utext (b91_encode (byte_of SUBTYPE_VERSION # body))"
  have p: "is_text_payload ?c" using b91_not_Nil [of "byte_of SUBTYPE_VERSION # body"] by (simp add: is_text_payload_def utext_def)
  have "text_body ?c = Inr body" by (simp add: text_body_def SUBTYPE_VERSION_def SUBTYPE_ID_def WIRE_REVISION_def)
  then have "try_decode_text ms ?c = Some \<lparr>mct_text = normalize_text t, mct_timestamp = None, mct_sender_name = None, mct_reply_author_name = None,
      mct_reply_timestamp = None, mct_text_payload_bytes = k\<rparr>" using p b(3) by (simp add: try_decode_text_def caught_def)
  moreover have "encode_text isalpha ms t = Inr ?c" using assms(3,4) b(1) by (simp add: encode_text_def)
  ultimately show thesis using that p b(2) by (simp add: text_payload_bytes_def)
qed

end
