(* ===== verification/Compression.thy ===== *)
theory Compression
  imports McotxtText
begin

text \<open>
  The entry points of \<open>src/app/compression\<close>: \<open>encode_outbound\<close>, which picks the codec of a conversation, \<open>try_decode_incoming\<close>, which
  recognises every codec, and the compression facts shown with a message (\<open>metadata.py\<close>). The compressor is \<^const>\<open>None\<close> when its model
  cannot be loaded. The outer option of a result is \<^const>\<open>None\<close> only if the MCMP coder does not return; it is shown to return.
\<close>

definition FRAMED_PREFIXES :: "ustr list" where
  "FRAMED_PREFIXES = map utext [''mcmp2:'', ''mcmp3:'', ''mct:'', ''aei1'', ''IE4:'', ''VE3:'', ''rmt1:'']"

definition lower_hex :: "nat \<Rightarrow> bool" where
  "lower_hex c \<longleftrightarrow> 48 \<le> c \<and> c \<le> 57 \<or> 97 \<le> c \<and> c \<le> 102"

text \<open>\<open>^r:[0-9a-f]{4}:[0-9a-f]{2}$\<close>; the dollar also matches before a final line feed.\<close>

definition reaction_payload :: "ustr \<Rightarrow> bool" where
  "reaction_payload txt \<longleftrightarrow> (length txt = 9 \<or> (length txt = 10 \<and> txt ! 9 = 10)) \<and> take 2 txt = utext ''r:'' \<and> list_all lower_hex (take 4 (drop 2 txt))
     \<and> txt ! 6 = of_char CHR '':'' \<and> list_all lower_hex (take 2 (drop 7 txt))"

definition is_framed_payload :: "ustr \<Rightarrow> bool" where
  "is_framed_payload txt \<longleftrightarrow> list_ex (\<lambda>p. starts_with p txt) FRAMED_PREFIXES \<or> reaction_payload txt"

definition TRANSPORT_MCOTXT :: nat where "TRANSPORT_MCOTXT = 4"

text \<open>The codecs a process has: the arithmetic of its floats, the MCMP model, the MCOtxt tables and the character class.\<close>

record codecs =
  co_floats :: float_ops
  co_model :: "MeshModel option"
  co_tables :: ModelSet
  co_isalpha :: "nat \<Rightarrow> bool"

definition encode_outbound :: "codecs \<Rightarrow> ustr \<Rightarrow> nat \<Rightarrow> int \<Rightarrow> ustr res option" where
  "encode_outbound co txt version timestamp =
     (if txt = [] then Some (Inr txt)
      else if is_framed_payload txt then Some (Inr txt)
      else if version = TRANSPORT_MCOTXT then
        (if normalize_text txt \<noteq> txt then Some (Inr txt)
         else case encode_text (co_isalpha co) (co_tables co) txt of
                Inl _ \<Rightarrow> Some (Inr txt)
              | Inr encoded \<Rightarrow>
                  if \<not> list_all scalar_value encoded \<or> \<not> list_all scalar_value txt then Some (Inl ValueError)
                  else Some (Inr (if length (utf8_encode encoded) < length (utf8_encode txt) then encoded else txt)))
      else case co_model co of
             None \<Rightarrow> Some (Inr txt)
           | Some m \<Rightarrow>
               if version = 3 then map_option Inr (encode_v3_text (co_floats co) m txt timestamp None None None)
               else map_option Inr (encode_if_smaller (co_floats co) (Some m) txt))"

record DecodedIncoming =
  di_text :: ustr
  di_version :: string
  di_v3 :: "(V3Header \<times> ustr) option"
  di_mcotxt :: "DecodedMCOtxtMessage option"

definition try_decode_incoming :: "codecs \<Rightarrow> ustr \<Rightarrow> DecodedIncoming option option" where
  "try_decode_incoming co txt =
     (let stripped = lstrip txt
      in if txt = [] then Some None
         else if starts_with PREFIX_MCT stripped then
           Some (map_option (\<lambda>d. \<lparr>di_text = mct_text d, di_version = ''mcotxt'', di_v3 = None, di_mcotxt = Some d\<rparr>) (try_decode_text (co_tables co) txt))
         else if \<not> (starts_with PREFIX_V3 stripped \<or> starts_with PREFIX_V2 stripped) then Some None
         else case co_model co of
                None \<Rightarrow> Some None
              | Some m \<Rightarrow>
                  (case try_decode_v3_text (co_floats co) m txt of
                     None \<Rightarrow> None
                   | Some (Some v3) \<Rightarrow> Some (Some \<lparr>di_text = snd v3, di_version = ''v3'', di_v3 = Some v3, di_mcotxt = None\<rparr>)
                   | Some None \<Rightarrow>
                       map_option (map_option (\<lambda>s. \<lparr>di_text = s, di_version = ''v2'', di_v3 = None, di_mcotxt = None\<rparr>))
                         (try_decode_prefixed (co_floats co) (Some m) txt)))"

definition decode_incoming_body :: "codecs \<Rightarrow> ustr \<Rightarrow> ustr option" where
  "decode_incoming_body co txt = map_option (\<lambda>d. case d of None \<Rightarrow> txt | Some d \<Rightarrow> di_text d) (try_decode_incoming co txt)"

section \<open>Compression facts\<close>

definition CODEC_MCMP_V2 :: string where "CODEC_MCMP_V2 = ''mcmp2''"
definition CODEC_MCMP_V3 :: string where "CODEC_MCMP_V3 = ''mcmp3''"
definition CODEC_MCOTXT :: string where "CODEC_MCOTXT = ''mcotxt''"

record CompressionInfo =
  ci_codec :: string
  ci_plain_bytes :: nat
  ci_wire_bytes :: nat
  ci_payload_bytes :: nat

text \<open>\<open>round(x / y)\<close> of integers: to the nearest, a half to the even neighbour. A quotient of integers below a million is too far from a
  half, unless it is one, for the division of doubles to matter.\<close>

definition round_div :: "int \<Rightarrow> int \<Rightarrow> int" where
  "round_div x y =
     (let q = x div y; r = x mod y in if 2 * r < y \<or> (2 * r = y \<and> even q) then q else q + 1)"

definition savings_percent :: "CompressionInfo \<Rightarrow> int" where
  "savings_percent c =
     (if ci_plain_bytes c = 0 then 0
      else max 0 (min 100 (round_div ((int (ci_plain_bytes c) - int (ci_payload_bytes c)) * 100) (int (ci_plain_bytes c)))))"

definition describe_compression :: "codecs \<Rightarrow> ustr \<Rightarrow> ustr \<Rightarrow> CompressionInfo option res" where
  "describe_compression co plain_text wire_text =
     (if wire_text = [] \<or> wire_text = plain_text then Inr None
      else if \<not> list_all scalar_value plain_text \<or> \<not> list_all scalar_value wire_text then Inl ValueError
      else
        let stripped = lstrip wire_text; plain_bytes = length (utf8_encode plain_text); wire_bytes = length (utf8_encode wire_text);
            info = (\<lambda>codec n. \<lparr>ci_codec = codec, ci_plain_bytes = plain_bytes, ci_wire_bytes = wire_bytes, ci_payload_bytes = n\<rparr>)
        in if is_text_payload wire_text then Inr (map_option (info CODEC_MCOTXT) (text_payload_bytes (co_tables co) wire_text))
           else if is_v3_text_payload wire_text then Inr (map_option (info CODEC_MCMP_V3) (v3_compressed_text_bytes wire_text))
           else if starts_with PREFIX_V2 stripped \<and> length stripped > length PREFIX_V2 then Inr (Some (info CODEC_MCMP_V2 wire_bytes))
           else Inr None)"

definition decode_and_describe :: "codecs \<Rightarrow> ustr \<Rightarrow> (ustr \<times> CompressionInfo option) res option" where
  "decode_and_describe co txt =
     map_option (\<lambda>d. case d of
         None \<Rightarrow> Inr (txt, None)
       | Some d \<Rightarrow> bind_res (describe_compression co (di_text d) txt) (\<lambda>info. Inr (di_text d, info))) (try_decode_incoming co txt)"

section \<open>What is sent is what is read\<close>

definition plain_body :: "ustr \<Rightarrow> bool" where
  "plain_body t \<longleftrightarrow> \<not> starts_with PREFIX_MCT (lstrip t) \<and> \<not> starts_with PREFIX_V3 (lstrip t) \<and> \<not> starts_with PREFIX_V2 (lstrip t)"

lemma plain_decodes: "plain_body t \<Longrightarrow> decode_incoming_body co t = Some t"
  by (simp add: decode_incoming_body_def try_decode_incoming_def plain_body_def Let_def)

lemma same_start: "starts_with p x \<Longrightarrow> starts_with q x \<Longrightarrow> k \<le> length p \<Longrightarrow> k \<le> length q \<Longrightarrow> take k p = take k q"
  by (metis starts_with_def min.absorb1 take_take)

lemma prefixes_apart:
  "starts_with PREFIX_V2 x \<Longrightarrow> \<not> starts_with PREFIX_MCT x" "starts_with PREFIX_V3 x \<Longrightarrow> \<not> starts_with PREFIX_MCT x"
  "starts_with PREFIX_V2 x \<Longrightarrow> \<not> starts_with PREFIX_V3 x"
  using same_start [of PREFIX_V2 x PREFIX_MCT 4] same_start [of PREFIX_V3 x PREFIX_MCT 4] same_start [of PREFIX_V2 x PREFIX_V3 6]
  by (auto simp: PREFIX_MCT_def PREFIX_V2_def PREFIX_V3_def utext_def)

definition codecs_ok :: "codecs \<Rightarrow> bool" where
  "codecs_ok co \<longleftrightarrow> float_ok (co_floats co) \<and> pred_option model_ok (co_model co) \<and> tables_ok (co_tables co)"

lemma mcotxt_lossless:
  assumes "codecs_ok co" and "sendable t" and "plain_body t" and "t \<noteq> []" and "normalize_text t = t"
  obtains c where "encode_text (co_isalpha co) (co_tables co) t = Inr c" and "list_all scalar_value c" and "decode_incoming_body co c = Some t"
proof -
  have t: "text_ok t" "\<not> is_text_payload t"
  proof -
    have "length (utf8_encode t) \<le> 4 * length t" by (induction t) (use utf8_char_short in \<open>auto simp: utf8_encode_def intro: add_mono\<close>)
    then show "text_ok t" using assms(2,5) by (simp add: DECODE_HARD_LIMIT_def)
  qed (use assms(3) in \<open>simp add: plain_body_def is_text_payload_def\<close>)
  obtain c k where c: "encode_text (co_isalpha co) (co_tables co) t = Inr c" "is_text_payload c"
    "try_decode_text (co_tables co) c = Some \<lparr>mct_text = normalize_text t, mct_timestamp = None, mct_sender_name = None, mct_reply_author_name = None,
      mct_reply_timestamp = None, mct_text_payload_bytes = k\<rparr>"
    using mct_text_inverse [OF _ t(1) assms(4) t(2)] assms(1) by (metis codecs_ok_def)
  have "starts_with PREFIX_MCT (lstrip c)" "c \<noteq> []" using c(2) by (auto simp: is_text_payload_def lstrip_def)
  then have "decode_incoming_body co c = Some t" using c(3) assms(5) by (simp add: decode_incoming_body_def try_decode_incoming_def Let_def)
  moreover have "(of_char x :: nat) < 0xD800" for x :: char using nat_of_char_less_256 [of x] by linarith
  then have "list_all scalar_value c"
    using c(1) assms(4) t(2) by (auto simp: encode_text_def bind_res_Inr PREFIX_MCT_def utext_def list_all_iff scalar_value_def)
  ultimately show thesis using that c(1) by blast
qed

lemma v2_lossless:
  assumes "codecs_ok co" and "sendable t" and "plain_body t" and "co_model co = Some m"
  obtains c where "encode_if_smaller (co_floats co) (Some m) t = Some c" and "decode_incoming_body co c = Some t"
proof -
  have ok: "float_ok (co_floats co)" "model_ok m" using assms(1,4) by (simp_all add: codecs_ok_def)
  obtain c where c: "encode_if_smaller (co_floats co) (Some m) t = Some c"
    "c = t \<or> (has_prefix c \<and> length (utf8_encode c) < length (utf8_encode t) \<and> try_decode_prefixed (co_floats co) (Some m) c = Some (Some t))"
    by (rule v2_inverse [OF ok assms(2)])
  have "decode_incoming_body co c = Some t" if "has_prefix c" "try_decode_prefixed (co_floats co) (Some m) c = Some (Some t)"
  proof -
    have p: "starts_with PREFIX_V2 (lstrip c)" using that(1) by (simp add: has_prefix_def)
    then have "try_decode_v3_text (co_floats co) m c = Some None" by (simp add: try_decode_v3_text_def is_v3_text_payload_def prefixes_apart)
    moreover have "c \<noteq> []" using that(1) by (auto simp: has_prefix_def lstrip_def)
    ultimately show ?thesis using p that(2) assms(4) by (simp add: decode_incoming_body_def try_decode_incoming_def Let_def prefixes_apart)
  qed
  then show thesis using that c plain_decodes [OF assms(3)] by blast
qed

lemma v3_lossless:
  assumes "codecs_ok co" and "sendable t" and "plain_body t" and "t \<noteq> []" and "co_model co = Some m"
  obtains c where "encode_v3_text (co_floats co) m t ts None None None = Some c" and "decode_incoming_body co c = Some t"
proof (cases "stamp_ok ts")
  case True
  have ok: "float_ok (co_floats co)" "model_ok m" using assms(1,5) by (simp_all add: codecs_ok_def)
  have "\<not> is_v3_text_payload t" "\<not> has_prefix t" using assms(3) by (simp_all add: plain_body_def is_v3_text_payload_def has_prefix_def)
  then obtain c where c: "encode_v3_text (co_floats co) m t ts None None None = Some c" "is_v3_text_payload c"
    "try_decode_v3_text (co_floats co) m c = Some (Some (v3_fields ts None None None, t))"
    using v3_text_inverse [OF ok assms(2) True _ _ _ _ assms(4), of None None None] by auto
  have "starts_with PREFIX_V3 (lstrip c)" "c \<noteq> []" using c(2) by (auto simp: is_v3_text_payload_def lstrip_def)
  then have "decode_incoming_body co c = Some t" using c(3) assms(5) by (simp add: decode_incoming_body_def try_decode_incoming_def Let_def prefixes_apart)
  then show thesis using that c(1) by blast
next
  case False
  then have "encode_v3_text (co_floats co) m t ts None None None = Some t" by (auto simp: encode_v3_text_def encode_v3_body_def)
  then show thesis using that plain_decodes [OF assms(3)] by blast
qed

lemma outbound_lossless:
  assumes "codecs_ok co" and "sendable t" and "plain_body t"
  shows "\<exists>c. encode_outbound co t version ts = Some (Inr c) \<and> decode_incoming_body co c = Some t"
proof -
  have plain: ?thesis if "encode_outbound co t version ts = Some (Inr t)" using that plain_decodes [OF assms(3)] by blast
  show ?thesis
  proof (cases "t = [] \<or> is_framed_payload t")
    case True
    then show ?thesis by (intro plain) (auto simp: encode_outbound_def)
  next
    case f: False
    show ?thesis
    proof (cases "version = TRANSPORT_MCOTXT")
      case True
      show ?thesis
      proof (cases "normalize_text t = t")
        case False
        then show ?thesis using f True by (intro plain) (simp add: encode_outbound_def)
      next
        case n: True
        obtain c where c: "encode_text (co_isalpha co) (co_tables co) t = Inr c" "list_all scalar_value c" "decode_incoming_body co c = Some t"
          using mcotxt_lossless [OF assms _ n] f by blast
        then show ?thesis using f True n assms(2) plain_decodes [OF assms(3)] by (simp add: encode_outbound_def)
      qed
    next
      case v: False
      show ?thesis
      proof (cases "co_model co")
        case None
        then show ?thesis using f v by (intro plain) (simp add: encode_outbound_def)
      next
        case (Some m)
        obtain c2 where c2: "encode_if_smaller (co_floats co) (Some m) t = Some c2" "decode_incoming_body co c2 = Some t" by (rule v2_lossless [OF assms Some])
        obtain c3 where c3: "encode_v3_text (co_floats co) m t ts None None None = Some c3" "decode_incoming_body co c3 = Some t"
          using v3_lossless [OF assms _ Some] f by blast
        show ?thesis using f v Some c2 c3 by (simp add: encode_outbound_def)
      qed
    qed
  qed
qed

section \<open>What compression promises\<close>

text \<open>A one-language table, for the witnesses.\<close>

definition demo_language :: Model where
  "demo_language =
     \<lparr>md_global_id = 0, md_primary = [97, 98], md_extension = [49], md_start_top4 = [97], md_punct_start_top4 = [98],
      md_top4 = [97 \<mapsto> [98], 98 \<mapsto> [97], 49 \<mapsto> []], md_upper_to_lower = [65 \<mapsto> 97], md_lower_to_upper = [97 \<mapsto> 65],
      md_primary_id = enum_dict [97, 98], md_extension_id = enum_dict [49]\<rparr>"

definition mct_demo_tables :: ModelSet where
  "mct_demo_tables = \<lparr>ms_generation = 1, ms_models = [demo_language]\<rparr>"

definition demo_codecs :: codecs where
  "demo_codecs = \<lparr>co_floats = demo_floats, co_model = Some demo_model, co_tables = mct_demo_tables, co_isalpha = (\<lambda>c. c \<in> {65, 97, 98})\<rparr>"

lemma mct_demo_tables_ok: "tables_ok mct_demo_tables"
proof -
  have "length (predictions demo_language ctx) \<le> 4" for ctx by (cases ctx) (auto simp: demo_language_def split: option.splits)
  then have "language_ok demo_language" by (auto simp: language_ok_def demo_language_def split: if_splits)
  moreover have "case_of mct_demo_tables cp = None" if "cp \<in> set PUNCTUATION" for cp
    using that by (auto simp: case_of_def mct_demo_tables_def PUNCTUATION_def normalize_cp_def demo_language_def)
  ultimately show ?thesis by (simp add: tables_ok_def models_ok_def mct_demo_tables_def mcotxt_consts)
qed

lemma demo_codecs_ok: "codecs_ok demo_codecs"
  using demo_ok mct_demo_tables_ok by (simp add: codecs_ok_def demo_codecs_def)

text \<open>C17: The planner's dynamic programme is exhaustive search: the tokens it returns are a walk over the candidate tokens from the start of
  the text to its end, no such walk has a smaller cost, and with sound tables its first cost component is the number of bits the tokens
  take on the wire and decoding them gives the text.\<close>

theorem mcotxt_plan_optimal:
  assumes "models_ok ms" and "pair_ok ms (a, b)" and "list_all scalar_value cps"
  shows "(case (case_plan ms cps, plan ms cps a b) of ((tg, sh), (cost, tokens)) \<Rightarrow>
      walk (candidates ms a b tg sh cps) (length cps) (0, a, Start) tokens cost
      \<and> (\<forall>ts c. walk (candidates ms a b tg sh cps) (length cps) (0, a, Start) ts c \<longrightarrow> cost \<le> c)
      \<and> fst cost = int (bits_of tokens)
      \<and> (\<exists>st. apply_tokens ms a b tokens (start_state a) = Inr st \<and> \<not> ds_shift st \<and> ds_out st = cps))"
proof -
  obtain tg sh where cp: "case_plan ms cps = (tg, sh)" by fastforce
  obtain cost tokens where p: "plan ms cps a b = (cost, tokens)" by fastforce
  show ?thesis using plan_walk [OF cp p] plan_right [OF assms p] by (simp add: cp p)
qed

theorem mcotxt_plan_optimal_witness:
  "fst (fst (plan mct_demo_tables [97, 98, 33] 0 None)) = int (bits_of (snd (plan mct_demo_tables [97, 98, 33] 0 None)))"
proof -
  have "models_ok mct_demo_tables" using mct_demo_tables_ok by (simp add: tables_ok_def)
  moreover have "pair_ok mct_demo_tables (0, None)" by (simp add: pair_ok_def by_id_def mct_demo_tables_def demo_language_def)
  moreover have "list_all scalar_value [97, 98, 33]" by (simp add: scalar_value_def)
  ultimately show ?thesis using mcotxt_plan_optimal [of mct_demo_tables 0 None "[97, 98, 33]"] by (simp split: prod.splits)
qed

text \<open>C16: With sound tables every text that has a UTF-8 form is encoded, the stream decodes to the text with its line ends and accents
  normalised, it is never longer than the raw form of the text (at most three bytes over its UTF-8 length) nor than the plan of any
  language pair tried. This does not rest on the encoder's own check that a stream reads back: the planned stream of every pair decodes to the
  normalised text, so the check never rejects one.\<close>

theorem mcotxt_stream_roundtrip:
  assumes "models_ok ms" and "ms_generation ms \<le> HEADER_FIELD_MAX" and "list_all scalar_value (normalize_text t)"
    and "language_pairs isalpha ms (normalize_text t) languages search \<noteq> []"
    and "\<forall>p \<in> set (language_pairs isalpha ms (normalize_text t) languages search). pair_ok ms p"
  shows "\<exists>data n. encode_stream isalpha ms t languages search = Inr (data, n) \<and> decode_mct_stream ms data n = Inr (normalize_text t)
    \<and> length data = (n + 7) div 8 \<and> length data \<le> 3 + length (utf8_encode (normalize_text t))
    \<and> (\<forall>p \<in> set (language_pairs isalpha ms (normalize_text t) languages search).
         (\<exists>d k. planned_stream ms p (snd (plan ms (normalize_text t) (fst p) (snd p))) = Inr (d, k)
           \<and> decode_mct_stream ms d k = Inr (normalize_text t) \<and> n \<le> k))"
proof -
  have g: "ms_generation ms \<le> 262" using assms(2) by (simp add: mcotxt_consts)
  obtain data n where d: "encode_stream isalpha ms t languages search = Inr (data, n)" "length data = (n + 7) div 8"
    "n \<le> length (stream_bits (ms_generation ms) 0 0) + 4 + 8 * length (utf8_encode (normalize_text t))"
    "\<And>p. p \<in> set (language_pairs isalpha ms (normalize_text t) languages search) \<Longrightarrow>
      int n \<le> int (length (stream_bits (ms_generation ms) 0 0)) + fst (fst (plan ms (normalize_text t) (fst p) (snd p)))"
    using encode_stream_right [OF assms(1) g assms(4,5,3)] by metis
  have "\<exists>d k. planned_stream ms p (snd (plan ms (normalize_text t) (fst p) (snd p))) = Inr (d, k) \<and> decode_mct_stream ms d k = Inr (normalize_text t) \<and> n \<le> k"
    if "p \<in> set (language_pairs isalpha ms (normalize_text t) languages search)" for p
    using planned_right [OF assms(1) _ assms(3) g, of p] assms(5) that d(4) [OF that] by (metis of_nat_le_iff)
  moreover have "length data \<le> 3 + length (utf8_encode (normalize_text t))" using d(2,3) stream_header_length [of "ms_generation ms" 0 0] by linarith
  ultimately show ?thesis using d(1,2) encode_stream_inverse [OF d(1)] by blast
qed

theorem mcotxt_stream_roundtrip_witness:
  "\<exists>data n. encode_stream (\<lambda>c. c = 97) mct_demo_tables [65, 13, 10, 0x416] None True = Inr (data, n) \<and> decode_mct_stream mct_demo_tables data n = Inr [65, 10, 0x416]"
proof -
  have n: "normalize_text [65, 13, 10, 0x416] = [65, 10, 0x416]" by (simp add: normalize_text_def replace_cr_def NFC_PAIRS_def)
  have lp: "language_pairs (\<lambda>c. c = 97) mct_demo_tables [65, 10, 0x416] None True = [(0, None)]" by (simp add: language_pairs_def mct_demo_tables_def demo_language_def)
  have "pair_ok mct_demo_tables (0, None)" by (simp add: pair_ok_def by_id_def mct_demo_tables_def demo_language_def)
  then show ?thesis using mcotxt_stream_roundtrip [of mct_demo_tables "[65, 13, 10, 0x416]" "\<lambda>c. c = 97" None True] mct_demo_tables_ok unfolding n lp
    by (auto simp: tables_ok_def scalar_value_def)
qed

text \<open>C20: A container is read back with its text, timestamp, sender and reply: names and text normalised, timestamps taken modulo \<open>2^32\<close>,
  for every combination of optional fields; and a text in the \<open>mct:\<close> transport is recognised and decodes to the text.\<close>

theorem mcotxt_container_roundtrip:
  assumes "tables_ok ms" and "text_ok t" and "pred_option text_ok sender" and "pred_option text_ok author" and "author = None \<longleftrightarrow> rts = None"
  shows "(\<exists>body k. encode_container isalpha ms t ts sender author rts = Inr body \<and> k \<le> 3 + length (utf8_encode (normalize_text t))
      \<and> decode_container ms body = Inr \<lparr>mct_text = normalize_text t, mct_timestamp = map_option (\<lambda>t. nat (t mod 2 ^ 32)) ts,
          mct_sender_name = map_option normalize_text sender, mct_reply_author_name = map_option normalize_text author,
          mct_reply_timestamp = map_option (\<lambda>t. nat (t mod 2 ^ 32)) rts, mct_text_payload_bytes = k\<rparr>)
    \<and> (t \<noteq> [] \<longrightarrow> \<not> is_text_payload t \<longrightarrow>
        (\<exists>c d. encode_text isalpha ms t = Inr c \<and> is_text_payload c \<and> try_decode_text ms c = Some d \<and> mct_text d = normalize_text t
          \<and> text_payload_bytes ms c = Some (mct_text_payload_bytes d)))"
proof -
  have "\<exists>c d. encode_text isalpha ms t = Inr c \<and> is_text_payload c \<and> try_decode_text ms c = Some d \<and> mct_text d = normalize_text t
          \<and> text_payload_bytes ms c = Some (mct_text_payload_bytes d)" if "t \<noteq> []" "\<not> is_text_payload t"
    by (rule mct_text_inverse [OF assms(1,2) that, of isalpha]) fastforce
  then show ?thesis using container_inverse [OF assms, of isalpha ts] by metis
qed

theorem mcotxt_container_roundtrip_witness:
  "\<exists>body d. encode_container (\<lambda>c. c = 97) mct_demo_tables [97] (Some 5) (Some [98]) None None = Inr body \<and> decode_container mct_demo_tables body = Inr d
     \<and> mct_text d = [97] \<and> mct_timestamp d = Some 5 \<and> mct_sender_name d = Some [98]"
proof -
  have n: "normalize_text [x] = [x]" if "x \<noteq> 13" for x using that by (simp add: normalize_text_def replace_cr_def)
  have "text_ok [97]" "text_ok [98]" by (simp_all add: n scalar_value_def utf8_encode_def utf8_char_def)
  then show ?thesis using mcotxt_container_roundtrip [OF mct_demo_tables_ok, of "[97]" "Some [98]" None None "\<lambda>c. c = 97" "Some 5"] by (fastforce simp: n)
qed

text \<open>C15: Whatever codec a conversation uses, a sendable text is what the receiver stores: for every transport version and timestamp,
  \<open>encode_outbound\<close> returns a body, and decoding that body on the way in gives the text back. Sendable are texts of Unicode scalar values
  without the characters U+0003 and U+0004 and shorter than the limit of the decoder, and the text must not, after white space, start with
  the prefix of a compressed body: such a text is taken for one.\<close>

theorem outbound_text_lossless:
  assumes "codecs_ok co" and "sendable t" and "plain_body t"
  shows "\<exists>c. encode_outbound co t version ts = Some (Inr c) \<and> decode_incoming_body co c = Some t"
  by (rule outbound_lossless [OF assms])

theorem outbound_text_lossless_witness:
  "\<exists>c. encode_outbound demo_codecs [97, 98, 97] TRANSPORT_MCOTXT 0 = Some (Inr c) \<and> decode_incoming_body demo_codecs c = Some [97, 98, 97]"
proof -
  have "sendable [97, 98, 97]" by (simp add: scalar_value_def EOF_SYMBOL_def ESC_def DECODE_HARD_LIMIT_def)
  moreover have "plain_body [97, 98, 97]" by (simp add: plain_body_def lstrip_def uspace_def PREFIX_V2_def PREFIX_V3_def PREFIX_MCT_def utext_def starts_with_def)
  ultimately show ?thesis using outbound_text_lossless [OF demo_codecs_ok, of "[97, 98, 97]" TRANSPORT_MCOTXT 0] by blast
qed

text \<open>A text that starts with white space and then the prefix of a compressed body is not recognised as framed and goes out plain, but the
  receiver skips the white space and decodes it: what is stored is not what was sent.\<close>

lemma spaced_prefix_not_lossless:
  assumes "co_model co = Some m"
  shows "encode_outbound co (utext '' mcmp2:!'') 3 ts = Some (Inr (utext '' mcmp2:!''))" and "decode_incoming_body co (utext '' mcmp2:!'') = Some []"
proof -
  let ?t = "utext '' mcmp2:!''"
  have t: "?t = [32, 109, 99, 109, 112, 50, 58, 33]" "lstrip ?t = [109, 99, 109, 112, 50, 58, 33]" by (simp_all add: utext_def lstrip_def uspace_def)
  have p: "PREFIX_V2 = [109, 99, 109, 112, 50, 58]" "PREFIX_V3 = [109, 99, 109, 112, 51, 58]" "PREFIX_MCT = [109, 99, 116, 58]"
    by (simp_all add: PREFIX_V2_def PREFIX_V3_def PREFIX_MCT_def utext_def)
  have "\<not> is_framed_payload ?t" by (simp add: is_framed_payload_def reaction_payload_def FRAMED_PREFIXES_def starts_with_def utext_def)
  moreover have h: "has_prefix ?t" unfolding has_prefix_def t(2) p by (simp add: starts_with_def)
  ultimately show "encode_outbound co ?t 3 ts = Some (Inr ?t)" using assms by (simp add: encode_outbound_def TRANSPORT_MCOTXT_def encode_v3_text_def t(1))
  have "try_decode_v3_text (co_floats co) m ?t = Some None" unfolding try_decode_v3_text_def is_v3_text_payload_def t(2) p by (simp add: starts_with_def)
  moreover have "try_decode_prefixed (co_floats co) (Some m) ?t = Some (Some [])"
    unfolding try_decode_prefixed_def t(2) p by (simp add: starts_with_def Let_def decompress_text_transport_def TEXT_EMPTY_MARKER_def caught_def)
  moreover have "\<not> starts_with PREFIX_MCT (lstrip ?t)" "starts_with PREFIX_V2 (lstrip ?t)" "?t \<noteq> []" unfolding t(2) p by (simp_all add: starts_with_def utext_def)
  ultimately show "decode_incoming_body co ?t = Some []" using assms by (simp add: decode_incoming_body_def try_decode_incoming_def Let_def)
qed

end
