(* ===== verification/Reactions.thy ===== *)
theory Reactions
  imports Compression
begin

text \<open>
  Emoji reactions (\<open>src/app/reactions.py\<close>): the wire form \<open>r:HHHH:II\<close>, the emoji table, the Dart string hash over UTF-16 code units on
  32-bit words, the split of a channel text into sender and body, and the text a message's hash is computed over. Texts are lists of code points.
\<close>

section \<open>The emoji table\<close>

definition REACTION_MATCH_SCAN_LIMIT :: nat where "REACTION_MATCH_SCAN_LIMIT = 500"

definition QUICK_REACTION_EMOJIS :: "ustr list" where
  "QUICK_REACTION_EMOJIS =
     [[0x1F44D], [0x2764, 0xFE0F], [0x1F602], [0x1F389], [0x1F44F], [0x1F525]]"

definition SMILEYS :: "ustr list" where
  "SMILEYS =
     map (\<lambda>c. [c])
     [0x1F600, 0x1F603, 0x1F604, 0x1F601, 0x1F605, 0x1F602, 0x1F923, 0x1F60A, 0x1F607, 0x1F642, 0x1F643, 0x1F609, 0x1F60C, 0x1F60D, 0x1F970,
      0x1F618, 0x1F617, 0x1F619, 0x1F61A, 0x1F60B, 0x1F61B, 0x1F61D, 0x1F61C, 0x1F92A, 0x1F928, 0x1F9D0, 0x1F913, 0x1F60E, 0x1F978, 0x1F929,
      0x1F973, 0x1F60F, 0x1F612, 0x1F61E, 0x1F614, 0x1F61F, 0x1F615, 0x1F641, 0x1F623, 0x1F616, 0x1F62B, 0x1F629, 0x1F97A, 0x1F622, 0x1F62D,
      0x1F624, 0x1F620, 0x1F621, 0x1F92C, 0x1F92F, 0x1F633, 0x1F975, 0x1F976, 0x1F631, 0x1F628, 0x1F630, 0x1F625, 0x1F613, 0x1F917, 0x1F914,
      0x1F92D, 0x1F92B, 0x1F925, 0x1F636]"

definition GESTURES :: "ustr list" where
  "GESTURES =
     [[0x1F44D], [0x1F44E], [0x1F44A], [0x270A], [0x1F91B], [0x1F91C], [0x1F91E], [0x270C, 0xFE0F], [0x1F91F], [0x1F918], [0x1F44C], [0x1F90C],
      [0x1F90F], [0x1F448], [0x1F449], [0x1F446], [0x1F447], [0x261D, 0xFE0F], [0x1F44B], [0x1F91A], [0x1F590, 0xFE0F], [0x270B], [0x1F596],
      [0x1F44F], [0x1F64C], [0x1F450], [0x1F932], [0x1F91D], [0x1F64F], [0x270D, 0xFE0F], [0x1F485], [0x1F933], [0x1F4AA]]"

definition HEARTS :: "ustr list" where
  "HEARTS =
     [[0x2764, 0xFE0F], [0x1F9E1], [0x1F49B], [0x1F49A], [0x1F499], [0x1F49C], [0x1F5A4], [0x1F90D], [0x1F90E], [0x1F494],
      [0x2764, 0xFE0F, 0x200D, 0x1F525], [0x2764, 0xFE0F, 0x200D, 0x1FA79], [0x1F495], [0x1F49E], [0x1F493], [0x1F497], [0x1F496], [0x1F498],
      [0x1F49D], [0x1F49F], [0x1F48C], [0x1F4A2], [0x1F4A5], [0x1F4AB], [0x1F4A6], [0x1F4A8], [0x1F573, 0xFE0F], [0x1F4AC],
      [0x1F441, 0xFE0F, 0x200D, 0x1F5E8, 0xFE0F], [0x1F5E8, 0xFE0F], [0x1F5EF, 0xFE0F], [0x1F4AD]]"

definition OBJECTS :: "ustr list" where
  "OBJECTS =
     map (\<lambda>c. [c])
     [0x1F389, 0x1F38A, 0x1F388, 0x1F381, 0x1F380, 0x1FA85, 0x1FA86, 0x1F3C6, 0x1F947, 0x1F948, 0x1F949, 0x26BD, 0x26BE, 0x1F94E, 0x1F3C0, 0x1F3D0,
      0x1F3C8, 0x1F3C9, 0x1F3BE, 0x1F94F, 0x1F3B3, 0x1F3CF, 0x1F3D1, 0x1F3D2, 0x1F94D, 0x1F3D3, 0x1F3F8, 0x1F94A, 0x1F94B, 0x1F945, 0x26F3,
      0x1F525, 0x2B50, 0x1F31F, 0x2728, 0x26A1, 0x1F4A1, 0x1F526, 0x1F3EE, 0x1FA94, 0x1F4F1, 0x1F4BB, 0x231A, 0x1F4F7, 0x1F4FA, 0x1F4FB, 0x1F3B5,
      0x1F3B6, 0x1F680]"

definition REACTION_EMOJIS :: "ustr list" where
  "REACTION_EMOJIS = QUICK_REACTION_EMOJIS @ SMILEYS @ GESTURES @ HEARTS @ OBJECTS"

record ReactionInfo =
  ri_target_hash :: ustr
  ri_emoji :: ustr

section \<open>Hash\<close>

definition utf16_code_units :: "ustr \<Rightarrow> nat list" where
  "utf16_code_units txt = concat (map utf16_units txt)"

definition hash_step :: "nat \<Rightarrow> 32 word \<Rightarrow> 32 word" where
  "hash_step unit h =
     (let h1 = h + of_nat unit; h2 = h1 + push_bit 10 h1 in h2 XOR drop_bit 6 h2)"

definition hash_finish :: "32 word \<Rightarrow> 32 word" where
  "hash_finish h =
     (let h1 = h + push_bit 3 h; h2 = h1 XOR drop_bit 11 h1; h3 = h2 + push_bit 15 h2; h4 = h3 AND mask 30
      in if h4 \<noteq> 0 then h4 else 1)"

definition dart_string_hash :: "ustr \<Rightarrow> 32 word" where
  "dart_string_hash txt = hash_finish (fold hash_step (utf16_code_units txt) 0)"

text \<open>Decimal text of an integer, and \<open>format(n, "0kx")\<close> for a number of at most \<open>k\<close> digits.\<close>

function dec_digits :: "nat \<Rightarrow> ustr" where
  "dec_digits n = (if n < 10 then [48 + n] else dec_digits (n div 10) @ [48 + n mod 10])"
  by pat_completeness auto
termination
  by (relation "measure id") auto

declare dec_digits.simps [simp del]

definition dec_text :: "int \<Rightarrow> ustr" where
  "dec_text n = (if n < 0 then 45 # dec_digits (nat (- n)) else dec_digits (nat n))"

definition hex_char :: "nat \<Rightarrow> nat" where
  "hex_char d = (if d < 10 then 48 + d else 87 + d)"

primrec hex_text :: "nat \<Rightarrow> nat \<Rightarrow> ustr" where
  "hex_text 0 n = []"
| "hex_text (Suc k) n = hex_text k (n div 16) @ [hex_char (n mod 16)]"

definition compute_reaction_hash :: "int \<Rightarrow> ustr option \<Rightarrow> ustr \<Rightarrow> ustr" where
  "compute_reaction_hash timestamp_secs sender_name txt =
     (let first5 = take 5 (utf16_code_units txt);
          prefix = (case sender_name of Some s \<Rightarrow> dec_text timestamp_secs @ s | None \<Rightarrow> dec_text timestamp_secs);
          units = utf16_code_units prefix @ first5
      in hex_text 4 (unat (hash_finish (fold hash_step units 0) AND 0xFFFF)))"

section \<open>Wire form\<close>

definition hex_value :: "nat \<Rightarrow> nat" where
  "hex_value c = (if c < 58 then c - 48 else c - 87)"

definition parse_reaction :: "ustr \<Rightarrow> ReactionInfo option" where
  "parse_reaction txt =
     (if \<not> reaction_payload txt then None
      else let i = 16 * hex_value (txt ! 7) + hex_value (txt ! 8)
           in if i \<ge> length REACTION_EMOJIS then None
              else Some \<lparr>ri_target_hash = take 4 (drop 2 txt), ri_emoji = REACTION_EMOJIS ! i\<rparr>)"

definition is_reaction_text :: "ustr \<Rightarrow> bool" where
  "is_reaction_text txt \<longleftrightarrow> parse_reaction txt \<noteq> None"

definition emoji_to_index_hex :: "ustr \<Rightarrow> ustr option" where
  "emoji_to_index_hex emoji = map_option (hex_text 2) (find (\<lambda>i. REACTION_EMOJIS ! i = emoji) [0..<length REACTION_EMOJIS])"

definition encode_reaction :: "ustr \<Rightarrow> ustr \<Rightarrow> ustr" where
  "encode_reaction target_hash emoji_index_hex = utext ''r:'' @ target_hash @ utext '':'' @ emoji_index_hex"

section \<open>Sender and body of a channel text\<close>

abbreviation colon :: nat where "colon \<equiv> 58"
abbreviation blank :: nat where "blank \<equiv> 32"
abbreviation line_end :: nat where "line_end \<equiv> 10"
abbreviation open_bracket :: nat where "open_bracket \<equiv> 91"
abbreviation close_bracket :: nat where "close_bracket \<equiv> 93"

definition UNKNOWN_SENDER :: ustr where "UNKNOWN_SENDER = utext ''Unknown''"

definition split_channel_sender_text :: "ustr \<Rightarrow> ustr \<times> ustr" where
  "split_channel_sender_text txt =
     (case find_sub [colon] txt of
        None \<Rightarrow> (UNKNOWN_SENDER, txt)
      | Some idx \<Rightarrow>
          if 0 < idx \<and> idx < length txt - 1 \<and> length (utf16_code_units (take idx txt)) < 50 then
            let sender = take idx txt
            in if open_bracket \<in> set sender \<or> close_bracket \<in> set sender then (UNKNOWN_SENDER, txt)
               else let offset = (if idx + 1 < length txt \<and> txt ! (idx + 1) = blank then idx + 2 else idx + 1)
                    in (sender, drop offset txt)
          else (UNKNOWN_SENDER, txt))"

text \<open>\<open>^@\[[^\]]+\]\s+(.+)$\<close> with the dot matching line ends: the group gives back one white space when nothing else is left for it.\<close>

definition reply_mention :: "ustr \<Rightarrow> ustr option" where
  "reply_mention body =
     (if take 2 body \<noteq> utext ''@['' then None
      else let rest = drop 2 body; name = takeWhile (\<lambda>c. c \<noteq> close_bracket) rest; tail = drop (length name) rest
           in if name = [] \<or> tail = [] then None
              else let ws = takeWhile uspace (tl tail); after = dropWhile uspace (tl tail)
                   in if ws = [] then None
                      else if after \<noteq> [] then Some after
                      else if length ws \<ge> 2 then Some [last ws] else None)"

definition clean_channel_body_for_hash :: "ustr \<Rightarrow> ustr" where
  "clean_channel_body_for_hash body =
     (case reply_mention body of
        None \<Rightarrow> body
      | Some actual \<Rightarrow>
          if starts_with (utext ''>'') actual then
            (case find_sub [line_end] actual of
               Some newline \<Rightarrow> if newline > 1 then drop (newline + 1) actual else actual
             | None \<Rightarrow> actual)
          else actual)"

section \<open>Round trips\<close>

lemma find_index: "find (\<lambda>i. xs ! i = x) [0..<length xs] = Some i \<Longrightarrow> i < length xs \<and> xs ! i = x"
  by (auto simp: find_Some_iff)

lemma emoji_count: "length REACTION_EMOJIS = 184"
  by (simp add: REACTION_EMOJIS_def QUICK_REACTION_EMOJIS_def SMILEYS_def GESTURES_def HEARTS_def OBJECTS_def)

lemma hex_char_lower: "d < 16 \<Longrightarrow> lower_hex (hex_char d)" "d < 16 \<Longrightarrow> hex_value (hex_char d) = d"
  by (auto simp: lower_hex_def hex_char_def hex_value_def)

lemma length_hex_text [simp]: "length (hex_text k n) = k"
  by (induction k arbitrary: n) simp_all

lemma hex_text_lower: "list_all lower_hex (hex_text k n)"
  by (induction k arbitrary: n) (simp_all add: hex_char_lower)

definition hash_text :: "ustr \<Rightarrow> bool" where
  "hash_text h \<longleftrightarrow> length h = 4 \<and> list_all lower_hex h"

lemma computed_hash_text: "hash_text (compute_reaction_hash ts s t)"
  by (simp add: hash_text_def compute_reaction_hash_def Let_def hex_text_lower)

lemma reaction_inverse:
  assumes "hash_text h" and "emoji_to_index_hex e = Some x"
  shows "parse_reaction (encode_reaction h x) = Some \<lparr>ri_target_hash = h, ri_emoji = e\<rparr>" and "reaction_payload (encode_reaction h x)"
proof -
  obtain i where i: "i < 184" "REACTION_EMOJIS ! i = e" "x = hex_text 2 i"
    using assms(2) find_index [of REACTION_EMOJIS e] by (auto simp: emoji_to_index_hex_def emoji_count)
  obtain a b c d where h: "h = [a, b, c, d]" "lower_hex a" "lower_hex b" "lower_hex c" "lower_hex d"
    using assms(1) by (cases h rule: remdups_adj.cases; auto simp: hash_text_def length_Suc_conv numeral_eq_Suc)
  have x: "x = [hex_char (i div 16 mod 16), hex_char (i mod 16)]" by (simp add: i(3) numeral_2_eq_2)
  have r: "encode_reaction h x = [114, 58, a, b, c, d, 58, hex_char (i div 16 mod 16), hex_char (i mod 16)]"
    by (simp add: encode_reaction_def utext_def h(1) x)
  have d: "i div 16 mod 16 = i div 16" "16 * (i div 16) + i mod 16 = i" using i(1) by simp_all
  show p: "reaction_payload (encode_reaction h x)" using h(2-) by (simp add: r reaction_payload_def utext_def hex_char_lower)
  have "16 * hex_value (encode_reaction h x ! 7) + hex_value (encode_reaction h x ! 8) = i" using d by (simp add: r hex_char_lower)
  moreover have "take 4 (drop 2 (encode_reaction h x)) = h" unfolding r by (simp add: h(1))
  ultimately show "parse_reaction (encode_reaction h x) = Some \<lparr>ri_target_hash = h, ri_emoji = e\<rparr>"
    using p i(1,2) by (simp add: parse_reaction_def emoji_count Let_def)
qed

lemma emoji_indexed: "e \<in> set REACTION_EMOJIS \<Longrightarrow> emoji_to_index_hex e \<noteq> None"
  by (auto simp: emoji_to_index_hex_def find_None_iff in_set_conv_nth)

text \<open>A name that survives the split: not empty, short, without colon or bracket.\<close>

definition name_splits :: "ustr \<Rightarrow> bool" where
  "name_splits s \<longleftrightarrow> s \<noteq> [] \<and> colon \<notin> set s \<and> open_bracket \<notin> set s \<and> close_bracket \<notin> set s \<and> length (utf16_code_units s) < 50"

lemma find_colon: "colon \<notin> set s \<Longrightarrow> find_sub [colon] (s @ colon # t) = Some (length s)"
  by (induction s) auto

lemma split_named: "name_splits s \<Longrightarrow> b \<noteq> [] \<Longrightarrow> split_channel_sender_text (s @ utext '': '' @ b) = (s, b)"
  by (simp add: split_channel_sender_text_def utext_def name_splits_def find_colon nth_append)

end
