(* ===== verification/MessageStore.thy ===== *)
theory MessageStore
  imports Reactions ContactStore
begin

text \<open>
  The message and raw-packet tables (\<open>src/app/repository/messages.py\<close>, \<open>src/app/repository/raw_packets.py\<close>, schema in
  \<open>src/app/database.py\<close>). A row is a record whose optional fields are the nullable columns; a statement is a function on the database,
  and a statement that would break a unique index changes nothing: it is ignored where the source says \<open>INSERT OR IGNORE\<close> and raises
  otherwise. JSON columns are the values they hold. Keys are hexadecimal, so a \<open>LIKE\<close> on them holds no wildcard.
\<close>

section \<open>Rows\<close>

datatype msg_type = MsgChan | MsgPriv

record MessagePath =
  mp_path :: string
  mp_received_at :: int
  mp_path_len :: "int option"
  mp_rssi :: "int option"
  mp_snr :: "pyfloat option"

record message_row =
  mr_id :: nat
  mr_type :: msg_type
  mr_conversation_key :: string
  mr_text :: ustr
  mr_sender_timestamp :: "int option"
  mr_received_at :: int
  mr_paths :: "MessagePath list option"
  mr_txt_type :: int
  mr_signature :: "string option"
  mr_outgoing :: bool
  mr_acked :: nat
  mr_sender_name :: "ustr option"
  mr_sender_key :: "string option"
  mr_transport_code :: "nat option"
  mr_region :: "ustr option"
  mr_compression :: "CompressionInfo option"
  mr_send_attempts :: "nat option"
  mr_send_max_attempts :: "nat option"
  mr_send_state :: "string option"
  mr_reactions :: "(ustr \<times> nat) list option"
  mr_is_reaction :: bool
  mr_recovered_at :: "int option"

text \<open>The defaults of the keyword arguments of \<open>create\<close>.\<close>

definition row_defaults :: message_row where
  "row_defaults =
     \<lparr>mr_id = 0, mr_type = MsgChan, mr_conversation_key = [], mr_text = [], mr_sender_timestamp = None, mr_received_at = 0, mr_paths = None,
      mr_txt_type = 0, mr_signature = None, mr_outgoing = False, mr_acked = 0, mr_sender_name = None, mr_sender_key = None,
      mr_transport_code = None, mr_region = None, mr_compression = None, mr_send_attempts = None, mr_send_max_attempts = None,
      mr_send_state = None, mr_reactions = None, mr_is_reaction = False, mr_recovered_at = None\<rparr>"

record raw_packet =
  rp_id :: nat
  rp_timestamp :: int
  rp_data :: bytes
  rp_message_id :: "nat option"
  rp_payload_hash :: bytes

record msg_db =
  db_messages :: "message_row list"
  db_next_message :: nat
  db_raw :: "raw_packet list"
  db_next_raw :: nat
  db_contacts :: "contact_row list"

section \<open>Unique indexes\<close>

definition ts0 :: "message_row \<Rightarrow> int" where
  "ts0 r = (case mr_sender_timestamp r of None \<Rightarrow> 0 | Some t \<Rightarrow> t)"

definition key0 :: "message_row \<Rightarrow> string" where
  "key0 r = (case mr_sender_key r of None \<Rightarrow> [] | Some k \<Rightarrow> k)"

text \<open>Both rows are in a unique index, with the same key: \<open>idx_messages_dedup_null_safe\<close> and \<open>idx_messages_incoming_priv_dedup\<close>.\<close>

definition conflicts :: "message_row \<Rightarrow> message_row \<Rightarrow> bool" where
  "conflicts a b \<longleftrightarrow> mr_type a = mr_type b \<and> mr_conversation_key a = mr_conversation_key b \<and> mr_text a = mr_text b \<and> ts0 a = ts0 b
     \<and> (mr_type a = MsgPriv \<longrightarrow> \<not> mr_outgoing a \<and> \<not> mr_outgoing b \<and> key0 a = key0 b)"

fun unique_rows :: "message_row list \<Rightarrow> bool" where
  "unique_rows [] \<longleftrightarrow> True"
| "unique_rows (r # rs) \<longleftrightarrow> \<not> list_ex (conflicts r) rs \<and> unique_rows rs"

section \<open>Writing messages\<close>

definition path_entry :: "string \<Rightarrow> int \<Rightarrow> int option \<Rightarrow> int option \<Rightarrow> pyfloat option \<Rightarrow> MessagePath" where
  "path_entry path received_at path_len rssi snr =
     \<lparr>mp_path = path, mp_received_at = received_at, mp_path_len = path_len, mp_rssi = rssi, mp_snr = snr\<rparr>"

text \<open>\<open>MessageRepository.create\<close>: \<open>m\<close> holds the column values, the radio path comes apart.\<close>

definition message_create ::
  "message_row \<Rightarrow> string option \<Rightarrow> int option \<Rightarrow> int option \<Rightarrow> pyfloat option \<Rightarrow> msg_db \<Rightarrow> nat option \<times> msg_db" where
  "message_create m path path_len rssi snr db =
     (let row = m\<lparr>mr_id := db_next_message db, mr_paths := map_option (\<lambda>p. [path_entry p (mr_received_at m) path_len rssi snr]) path,
                  mr_acked := 0, mr_sender_key := map_option (\<lambda>k. if k \<noteq> [] then lower k else k) (mr_sender_key m), mr_reactions := None\<rparr>
      in if list_ex (conflicts row) (db_messages db) then (None, db)
         else (Some (mr_id row), db\<lparr>db_messages := db_messages db @ [row], db_next_message := Suc (mr_id row)\<rparr>))"

text \<open>\<open>UPDATE messages SET ... WHERE id = i\<close> on columns no unique index holds.\<close>

definition update_message :: "nat \<Rightarrow> (message_row \<Rightarrow> message_row) \<Rightarrow> msg_db \<Rightarrow> msg_db" where
  "update_message i f db = db\<lparr>db_messages := map (\<lambda>r. if mr_id r = i then f r else r) (db_messages db)\<rparr>"

definition message_by_id :: "nat \<Rightarrow> msg_db \<Rightarrow> message_row option" where
  "message_by_id i db = find (\<lambda>r. mr_id r = i) (db_messages db)"

definition paths_list :: "message_row \<Rightarrow> MessagePath list" where
  "paths_list r = (case mr_paths r of None \<Rightarrow> [] | Some ps \<Rightarrow> ps)"

definition add_path :: "nat \<Rightarrow> string \<Rightarrow> int \<Rightarrow> int option \<Rightarrow> int option \<Rightarrow> pyfloat option \<Rightarrow> msg_db \<Rightarrow> MessagePath list \<times> msg_db" where
  "add_path i path received_at path_len rssi snr db =
     (let db1 = update_message i (\<lambda>r. r\<lparr>mr_paths := Some (paths_list r @ [path_entry path received_at path_len rssi snr])\<rparr>) db
      in (case message_by_id i db1 of None \<Rightarrow> [] | Some r \<Rightarrow> paths_list r, db1))"

definition message_increment_ack :: "nat \<Rightarrow> msg_db \<Rightarrow> nat \<times> msg_db" where
  "message_increment_ack i db =
     (let db1 = update_message i (\<lambda>r. r\<lparr>mr_acked := mr_acked r + 1\<rparr>) db
      in (case message_by_id i db1 of None \<Rightarrow> 1 | Some r \<Rightarrow> mr_acked r, db1))"

text \<open>\<open>json_set\<close> on an object: the count of a member that is there changes in place, a new member goes last.\<close>

fun json_bump :: "ustr \<Rightarrow> (ustr \<times> nat) list \<Rightarrow> (ustr \<times> nat) list" where
  "json_bump e [] = [(e, 1)]"
| "json_bump e ((x, n) # rest) = (if x = e then (x, n + 1) # rest else (x, n) # json_bump e rest)"

definition reactions_list :: "message_row \<Rightarrow> (ustr \<times> nat) list" where
  "reactions_list r = (case mr_reactions r of None \<Rightarrow> [] | Some rs \<Rightarrow> rs)"

definition increment_reaction :: "nat \<Rightarrow> ustr \<Rightarrow> msg_db \<Rightarrow> (ustr \<times> nat) list \<times> msg_db" where
  "increment_reaction i emoji db =
     (let db1 = update_message i (\<lambda>r. r\<lparr>mr_reactions := Some (json_bump emoji (reactions_list r))\<rparr>) db
      in (case message_by_id i db1 of None \<Rightarrow> [] | Some r \<Rightarrow> reactions_list r, db1))"

definition record_send_attempt :: "nat \<Rightarrow> string \<Rightarrow> msg_db \<Rightarrow> (nat \<times> nat) \<times> msg_db" where
  "record_send_attempt i state db =
     (let db1 = update_message i (\<lambda>r. r\<lparr>mr_send_attempts := Some (case mr_send_attempts r of None \<Rightarrow> 1 | Some n \<Rightarrow> n + 1), mr_send_state := Some state\<rparr>) db
      in (case message_by_id i db1 of
            None \<Rightarrow> (0, 0)
          | Some r \<Rightarrow> (case mr_send_attempts r of None \<Rightarrow> 0 | Some n \<Rightarrow> n, case mr_send_max_attempts r of None \<Rightarrow> 0 | Some n \<Rightarrow> n), db1))"

definition set_send_state :: "nat \<Rightarrow> string \<Rightarrow> nat option \<Rightarrow> nat option \<Rightarrow> msg_db \<Rightarrow> msg_db" where
  "set_send_state i state attempts max_attempts =
     update_message i (\<lambda>r. r\<lparr>mr_send_state := Some state,
       mr_send_attempts := (case attempts of None \<Rightarrow> mr_send_attempts r | Some n \<Rightarrow> Some n),
       mr_send_max_attempts := (case max_attempts of None \<Rightarrow> mr_send_max_attempts r | Some n \<Rightarrow> Some n)\<rparr>)"

definition set_is_reaction :: "nat \<Rightarrow> bool \<Rightarrow> msg_db \<Rightarrow> msg_db" where
  "set_is_reaction i b = update_message i (\<lambda>r. r\<lparr>mr_is_reaction := b\<rparr>)"

definition set_compression :: "nat \<Rightarrow> CompressionInfo option \<Rightarrow> msg_db \<Rightarrow> msg_db" where
  "set_compression i c = update_message i (\<lambda>r. r\<lparr>mr_compression := c\<rparr>)"

definition set_transport_scope :: "nat \<Rightarrow> nat option \<Rightarrow> ustr option \<Rightarrow> msg_db \<Rightarrow> msg_db" where
  "set_transport_scope i code region = update_message i (\<lambda>r. r\<lparr>mr_transport_code := code, mr_region := region\<rparr>)"

definition delete_by_id :: "nat \<Rightarrow> msg_db \<Rightarrow> msg_db" where
  "delete_by_id i db =
     db\<lparr>db_raw := map (\<lambda>p. if rp_message_id p = Some i then p\<lparr>rp_message_id := None\<rparr> else p) (db_raw db),
        db_messages := filter (\<lambda>r. mr_id r \<noteq> i) (db_messages db)\<rparr>"

text \<open>\<open>LIKE\<close> ignores the case of ASCII letters.\<close>

definition like_prefix :: "string \<Rightarrow> string \<Rightarrow> bool" where
  "like_prefix p s \<longleftrightarrow> starts_with (lower p) (lower s)"

definition claimed_row :: "string \<Rightarrow> message_row \<Rightarrow> message_row" where
  "claimed_row key r =
     r\<lparr>mr_conversation_key := key,
       mr_sender_key := (case mr_sender_key r of
           None \<Rightarrow> None
         | Some k \<Rightarrow> Some (if length k < 64 \<and> like_prefix k key then key else k))\<rparr>"

definition claimable :: "string \<Rightarrow> contact_row list \<Rightarrow> message_row \<Rightarrow> bool" where
  "claimable key contacts r \<longleftrightarrow> mr_type r = MsgPriv \<and> length (mr_conversation_key r) < 64 \<and> like_prefix (mr_conversation_key r) key
     \<and> length (filter (\<lambda>c. length (ro_public_key c) = 64 \<and> like_prefix (mr_conversation_key r) (ro_public_key c)) contacts) = 1"

definition claim_prefix_messages :: "string \<Rightarrow> msg_db \<Rightarrow> nat res \<times> msg_db" where
  "claim_prefix_messages full_key db =
     (let key = lower full_key; hit = claimable key (db_contacts db);
          rows = map (\<lambda>r. if hit r then claimed_row key r else r) (db_messages db)
      in if unique_rows rows then (Inr (length (filter hit (db_messages db))), db\<lparr>db_messages := rows\<rparr>)
         else (Inl IntegrityError, db))"

definition backfill_channel_sender_key :: "string \<Rightarrow> ustr \<Rightarrow> msg_db \<Rightarrow> nat \<times> msg_db" where
  "backfill_channel_sender_key public_key name db =
     (let key = lower public_key; named = filter (\<lambda>c. ro_name c = Some name) (db_contacts db);
          hit = (\<lambda>r. mr_type r = MsgChan \<and> mr_sender_name r = Some name \<and> mr_sender_key r = None
            \<and> length named = 1 \<and> list_ex (\<lambda>c. ro_public_key c = key) named)
      in (length (filter hit (db_messages db)),
          db\<lparr>db_messages := map (\<lambda>r. if hit r then r\<lparr>mr_sender_key := Some key\<rparr> else r) (db_messages db)\<rparr>))"

section \<open>Raw packets\<close>

text \<open>\<open>payload\<close> is what \<open>extract_payload\<close> finds in the packet, \<open>sha\<close> the hash function.\<close>

definition raw_packet_create :: "(bytes \<Rightarrow> bytes) \<Rightarrow> bytes \<Rightarrow> bytes option \<Rightarrow> int \<Rightarrow> msg_db \<Rightarrow> (nat \<times> bool) \<times> msg_db" where
  "raw_packet_create sha data payload timestamp db =
     (let payload_hash = (case payload of Some (b # bs) \<Rightarrow> sha (b # bs) | _ \<Rightarrow> sha data)
      in case find (\<lambda>p. rp_payload_hash p = payload_hash) (db_raw db) of
           Some p \<Rightarrow> ((rp_id p, False), db)
         | None \<Rightarrow>
             let i = db_next_raw db
             in ((i, True), db\<lparr>db_raw := db_raw db @ [\<lparr>rp_id = i, rp_timestamp = timestamp, rp_data = data, rp_message_id = None, rp_payload_hash = payload_hash\<rparr>],
                              db_next_raw := Suc i\<rparr>))"

definition mark_decrypted :: "nat \<Rightarrow> nat \<Rightarrow> msg_db \<Rightarrow> msg_db" where
  "mark_decrypted packet_id message_id db =
     db\<lparr>db_raw := map (\<lambda>p. if rp_id p = packet_id then p\<lparr>rp_message_id := Some message_id\<rparr> else p) (db_raw db)\<rparr>"

definition get_linked_message_id :: "nat \<Rightarrow> msg_db \<Rightarrow> nat option" where
  "get_linked_message_id packet_id db = (case find (\<lambda>p. rp_id p = packet_id) (db_raw db) of None \<Rightarrow> None | Some p \<Rightarrow> rp_message_id p)"

definition prune_old_undecrypted :: "int \<Rightarrow> msg_db \<Rightarrow> nat \<times> msg_db" where
  "prune_old_undecrypted cutoff db =
     (let old = (\<lambda>p. rp_message_id p = None \<and> rp_timestamp p < cutoff)
      in (length (filter old (db_raw db)), db\<lparr>db_raw := filter (\<lambda>p. \<not> old p) (db_raw db)\<rparr>))"

definition purge_linked_to_messages :: "msg_db \<Rightarrow> nat \<times> msg_db" where
  "purge_linked_to_messages db =
     (length (filter (\<lambda>p. rp_message_id p \<noteq> None) (db_raw db)), db\<lparr>db_raw := filter (\<lambda>p. rp_message_id p = None) (db_raw db)\<rparr>)"

section \<open>Reading\<close>

text \<open>A row read with its representative packet, \<open>SELECT MIN(id) FROM raw_packets\<close>.\<close>

definition packet_id_of :: "msg_db \<Rightarrow> nat \<Rightarrow> nat option" where
  "packet_id_of db i =
     (case map rp_id (filter (\<lambda>p. rp_message_id p = Some i) (db_raw db)) of [] \<Rightarrow> None | x # xs \<Rightarrow> Some (fold min xs x))"

type_synonym read_message = "message_row \<times> nat option"

definition read_row :: "msg_db \<Rightarrow> message_row \<Rightarrow> read_message" where
  "read_row db r = (r, packet_id_of db (mr_id r))"

definition get_by_id :: "nat \<Rightarrow> msg_db \<Rightarrow> read_message option" where
  "get_by_id i db = map_option (read_row db) (message_by_id i db)"

text \<open>Rows stand in the order of their ids, so the first match has the least id.\<close>

definition get_by_content :: "msg_type \<Rightarrow> string \<Rightarrow> ustr \<Rightarrow> int option \<Rightarrow> bool option \<Rightarrow> msg_db \<Rightarrow> read_message option" where
  "get_by_content t key txt ts outgoing db =
     map_option (read_row db)
       (find (\<lambda>r. mr_type r = t \<and> mr_conversation_key r = key \<and> mr_text r = txt \<and> mr_sender_timestamp r = ts
          \<and> (case outgoing of None \<Rightarrow> True | Some out \<Rightarrow> mr_outgoing r = out)) (db_messages db))"

definition find_channel_twin :: "string \<Rightarrow> ustr \<Rightarrow> int option \<Rightarrow> msg_db \<Rightarrow> read_message option" where
  "find_channel_twin key txt ts db =
     map_option (read_row db)
       (find (\<lambda>r. mr_type r = MsgChan \<and> mr_conversation_key r = key \<and> mr_text r = txt \<and> ts0 r = (case ts of None \<Rightarrow> 0 | Some t \<Rightarrow> t)) (db_messages db))"

definition get_ack_and_paths :: "nat \<Rightarrow> msg_db \<Rightarrow> nat \<times> MessagePath list option" where
  "get_ack_and_paths i db = (case message_by_id i db of None \<Rightarrow> (0, None) | Some r \<Rightarrow> (mr_acked r, mr_paths r))"

definition upper_key_char :: "char \<Rightarrow> char" where
  "upper_key_char c = (let n = of_char c :: nat in if 97 \<le> n \<and> n \<le> 122 then char_of (n - 32) else c)"

definition upper_key :: "string \<Rightarrow> string" where
  "upper_key s = map upper_key_char s"

definition in_conversation :: "string \<Rightarrow> message_row \<Rightarrow> bool" where
  "in_conversation key r \<longleftrightarrow>
     (if length key = 64 then mr_conversation_key r = lower key
      else if length key = 32 then mr_conversation_key r = upper_key key
      else like_prefix key (mr_conversation_key r))"

definition age_key :: "message_row \<Rightarrow> int \<times> nat" where
  "age_key r = (mr_received_at r, mr_id r)"

definition oldest_first :: "message_row list \<Rightarrow> message_row list" where
  "oldest_first rows = sort_key age_key rows"

definition newest_first :: "message_row list \<Rightarrow> message_row list" where
  "newest_first rows = rev (sort_key age_key rows)"

definition get_recent_for_reaction_matching :: "msg_type \<Rightarrow> string \<Rightarrow> nat \<Rightarrow> msg_db \<Rightarrow> message_row list" where
  "get_recent_for_reaction_matching t key limit db =
     take limit (newest_first (filter (\<lambda>r. mr_type r = t \<and> in_conversation key r \<and> \<not> mr_is_reaction r) (db_messages db)))"

definition blocked_incoming :: "string list \<Rightarrow> ustr list \<Rightarrow> message_row \<Rightarrow> bool" where
  "blocked_incoming keys names r \<longleftrightarrow> \<not> mr_outgoing r
     \<and> ((mr_type r = MsgPriv \<and> mr_conversation_key r \<in> set keys)
        \<or> (mr_type r = MsgChan \<and> (case mr_sender_key r of None \<Rightarrow> False | Some k \<Rightarrow> k \<in> set keys))
        \<or> (case mr_sender_name r of None \<Rightarrow> False | Some n \<Rightarrow> n \<in> set names))"

record page_filter =
  pf_type :: "msg_type option"
  pf_conversation :: "string option"
  pf_blocked_keys :: "string list"
  pf_blocked_names :: "ustr list"

definition shown :: "page_filter \<Rightarrow> message_row \<Rightarrow> bool" where
  "shown f r \<longleftrightarrow> \<not> mr_is_reaction r \<and> \<not> blocked_incoming (pf_blocked_keys f) (pf_blocked_names f) r
     \<and> (case pf_type f of None \<Rightarrow> True | Some t \<Rightarrow> mr_type r = t)
     \<and> (case pf_conversation f of None \<Rightarrow> True | Some k \<Rightarrow> k = [] \<or> in_conversation k r)"

datatype cursor = NoCursor nat | Before int nat | After int nat

text \<open>\<open>get_all\<close> without a search text; the offset counts only where no cursor is given.\<close>

definition get_all_messages :: "page_filter \<Rightarrow> nat \<Rightarrow> cursor \<Rightarrow> msg_db \<Rightarrow> message_row list" where
  "get_all_messages f limit c db =
     (let rows = filter (shown f) (db_messages db)
      in case c of
           After tm i \<Rightarrow> take limit (oldest_first (filter (\<lambda>r. mr_received_at r > tm \<or> mr_received_at r = tm \<and> mr_id r > i) rows))
         | Before tm i \<Rightarrow> take limit (newest_first (filter (\<lambda>r. mr_received_at r < tm \<or> mr_received_at r = tm \<and> mr_id r < i) rows))
         | NoCursor offset \<Rightarrow> take limit (drop offset (newest_first rows)))"

definition get_around :: "page_filter \<Rightarrow> nat \<Rightarrow> nat \<Rightarrow> msg_db \<Rightarrow> message_row list \<times> bool \<times> bool" where
  "get_around f i context_size db =
     (let rows = filter (shown f) (db_messages db)
      in case find (\<lambda>r. mr_id r = i) rows of
           None \<Rightarrow> ([], False, False)
         | Some target \<Rightarrow>
             let older = take (context_size + 1) (newest_first (filter (\<lambda>r. age_key r < age_key target) rows));
                 newer = take (context_size + 1) (oldest_first (filter (\<lambda>r. age_key target < age_key r) rows))
             in (rev (take context_size older) @ [target] @ take context_size newer, length older > context_size, length newer > context_size))"

section \<open>What the tables keep\<close>

lemma conflicts_sym: "conflicts a b \<longleftrightarrow> conflicts b a"
  by (auto simp: conflicts_def)

lemma unique_append [simp]: "unique_rows (xs @ ys) \<longleftrightarrow> unique_rows xs \<and> unique_rows ys \<and> (\<forall>x \<in> set xs. \<forall>y \<in> set ys. \<not> conflicts x y)"
  by (induction xs) (auto simp: list_ex_iff)

lemma unique_map: "(\<And>x y. x \<in> set xs \<Longrightarrow> y \<in> set xs \<Longrightarrow> conflicts (f x) (f y) \<Longrightarrow> conflicts x y) \<Longrightarrow> unique_rows xs \<Longrightarrow> unique_rows (map f xs)"
  by (induction xs) (auto simp: list_ex_iff)

lemma unique_filter: "unique_rows xs \<Longrightarrow> unique_rows (filter P xs)"
  by (induction xs) (auto simp: list_ex_iff)

definition db_ok :: "msg_db \<Rightarrow> bool" where
  "db_ok db \<longleftrightarrow> unique_rows (db_messages db) \<and> sorted_wrt (<) (map mr_id (db_messages db)) \<and> (\<forall>r \<in> set (db_messages db). mr_id r < db_next_message db)
     \<and> distinct (map rp_id (db_raw db)) \<and> distinct (map rp_payload_hash (db_raw db)) \<and> (\<forall>p \<in> set (db_raw db). rp_id p < db_next_raw db)"

text \<open>The columns of the unique indexes.\<close>

definition same_index :: "message_row \<Rightarrow> message_row \<Rightarrow> bool" where
  "same_index a b \<longleftrightarrow> mr_id a = mr_id b \<and> mr_type a = mr_type b \<and> mr_conversation_key a = mr_conversation_key b \<and> mr_text a = mr_text b
     \<and> mr_sender_timestamp a = mr_sender_timestamp b \<and> mr_outgoing a = mr_outgoing b \<and> (mr_type a = MsgPriv \<longrightarrow> mr_sender_key a = mr_sender_key b)"

lemma same_index_conflicts: "same_index a a' \<Longrightarrow> same_index b b' \<Longrightarrow> conflicts a' b' \<longleftrightarrow> conflicts a b"
  by (auto simp: same_index_def conflicts_def ts0_def key0_def)

lemma same_index_refl [simp]: "same_index r r"
  by (simp add: same_index_def)

lemma same_index_id: "same_index r r' \<Longrightarrow> mr_id r' = mr_id r"
  by (simp add: same_index_def)

lemma db_ok_map:
  assumes "db_ok db" and "\<And>r. mr_id (f r) = mr_id r" and "unique_rows (map f (db_messages db))"
  shows "db_ok (db\<lparr>db_messages := map f (db_messages db)\<rparr>)"
proof -
  have "mr_id \<circ> f = mr_id" using assms(2) by auto
  then show ?thesis using assms by (simp add: db_ok_def)
qed

lemma db_ok_rewrite:
  assumes "db_ok db" and "\<And>r. same_index r (f r)"
  shows "db_ok (db\<lparr>db_messages := map f (db_messages db)\<rparr>)"
proof (rule db_ok_map [OF assms(1)])
  show "mr_id (f r) = mr_id r" for r using same_index_id [OF assms(2)] .
  have "conflicts (f x) (f y) \<longleftrightarrow> conflicts x y" for x y by (rule same_index_conflicts [OF assms(2) assms(2)])
  then show "unique_rows (map f (db_messages db))" using assms(1) by (intro unique_map) (simp_all add: db_ok_def)
qed

lemma update_message_ok: "db_ok db \<Longrightarrow> (\<And>r. same_index r (f r)) \<Longrightarrow> db_ok (update_message i f db)"
  unfolding update_message_def by (rule db_ok_rewrite) (simp_all split: if_split)

lemma create_ok:
  assumes "db_ok db" and "message_create m path path_len rssi snr db = (r, db')"
  shows "db_ok db'"
proof -
  define row where "row = m\<lparr>mr_id := db_next_message db, mr_paths := map_option (\<lambda>p. [path_entry p (mr_received_at m) path_len rssi snr]) path,
                  mr_acked := 0, mr_sender_key := map_option (\<lambda>k. if k \<noteq> [] then lower k else k) (mr_sender_key m), mr_reactions := None\<rparr>"
  show ?thesis
  proof (cases "list_ex (conflicts row) (db_messages db)")
    case True
    then show ?thesis using assms by (simp add: message_create_def Let_def flip: row_def)
  next
    case False
    then have "db' = db\<lparr>db_messages := db_messages db @ [row], db_next_message := Suc (mr_id row)\<rparr>"
      using assms(2) by (simp add: message_create_def Let_def flip: row_def)
    moreover have "\<forall>x \<in> set (db_messages db). \<not> conflicts x row" using False conflicts_sym by (auto simp: list_ex_iff)
    moreover have "mr_id row = db_next_message db" by (simp add: row_def)
    ultimately show ?thesis using assms(1) by (auto simp: db_ok_def sorted_wrt_append less_Suc_eq)
  qed
qed

lemma claim_ok:
  assumes "db_ok db" and "claim_prefix_messages k db = (r, db')"
  shows "db_ok db'"
proof (cases r)
  case (Inl e)
  then show ?thesis using assms by (auto simp: claim_prefix_messages_def Let_def split: if_splits)
next
  case (Inr n)
  let ?f = "\<lambda>r. if claimable (lower k) (db_contacts db) r then claimed_row (lower k) r else r"
  have d: "db' = db\<lparr>db_messages := map ?f (db_messages db)\<rparr>" and u: "unique_rows (map ?f (db_messages db))"
    using Inr assms(2) by (auto simp: claim_prefix_messages_def Let_def split: if_splits)
  show ?thesis unfolding d by (rule db_ok_map [OF assms(1) _ u]) (simp add: claimed_row_def)
qed

lemma backfill_ok: "db_ok db \<Longrightarrow> backfill_channel_sender_key k n db = (c, db') \<Longrightarrow> db_ok db'"
  by (auto simp: backfill_channel_sender_key_def Let_def intro!: db_ok_rewrite) (auto simp: same_index_def)

lemma distinct_map_update: "(\<And>x. g (f x) = g x) \<Longrightarrow> map g (map f xs) = map g xs"
  by simp

lemma raw_rewrite_ok:
  assumes "db_ok db" and "\<And>p. rp_id (f p) = rp_id p" and "\<And>p. rp_payload_hash (f p) = rp_payload_hash p"
  shows "db_ok (db\<lparr>db_raw := map f (db_raw db)\<rparr>)"
  using assms by (auto simp: db_ok_def comp_def)

lemma delete_ok: "db_ok db \<Longrightarrow> db_ok (delete_by_id i db)"
proof -
  assume "db_ok db"
  then have "db_ok (db\<lparr>db_raw := map (\<lambda>p. if rp_message_id p = Some i then p\<lparr>rp_message_id := None\<rparr> else p) (db_raw db)\<rparr>)" by (rule raw_rewrite_ok) auto
  then show ?thesis by (auto simp: delete_by_id_def db_ok_def unique_filter sorted_wrt_map sorted_wrt_filter)
qed

lemma raw_create_ok: "db_ok db \<Longrightarrow> raw_packet_create sha d p ts db = (r, db') \<Longrightarrow> db_ok db'"
proof -
  assume ok: "db_ok db" and r: "raw_packet_create sha d p ts db = (r, db')"
  define h where "h = (case p of Some (b # bs) \<Rightarrow> sha (b # bs) | _ \<Rightarrow> sha d)"
  show "db_ok db'"
  proof (cases "find (\<lambda>p. rp_payload_hash p = h) (db_raw db)")
    case None
    then have "h \<notin> rp_payload_hash ` set (db_raw db)" by (auto simp: find_None_iff)
    moreover have "db' = db\<lparr>db_raw := db_raw db @ [\<lparr>rp_id = db_next_raw db, rp_timestamp = ts, rp_data = d, rp_message_id = None, rp_payload_hash = h\<rparr>],
        db_next_raw := Suc (db_next_raw db)\<rparr>" using r None by (simp add: raw_packet_create_def Let_def flip: h_def)
    moreover have "db_next_raw db \<notin> rp_id ` set (db_raw db)" using ok by (auto simp: db_ok_def)
    ultimately show ?thesis using ok by (auto simp: db_ok_def less_Suc_eq)
  next
    case (Some q)
    then show ?thesis using ok r by (simp add: raw_packet_create_def Let_def flip: h_def)
  qed
qed

lemma raw_filter_ok: "db_ok db \<Longrightarrow> db_ok (db\<lparr>db_raw := filter P (db_raw db)\<rparr>)"
  by (auto simp: db_ok_def distinct_map_filter)

section \<open>Paging\<close>

definition descending :: "message_row list \<Rightarrow> bool" where
  "descending rows \<longleftrightarrow> sorted_wrt (\<lambda>a b. age_key b < age_key a) rows"

lemma rows_distinct: "db_ok db \<Longrightarrow> inj_on mr_id (set (db_messages db)) \<and> distinct (db_messages db)"
  by (auto simp: db_ok_def strict_sorted_iff distinct_map)

lemma strict_sort:
  assumes "inj_on age_key (set xs)" and "distinct xs"
  shows "sorted_wrt (\<lambda>a b. age_key a < age_key b) (sort_key age_key xs)"
proof -
  have "distinct (map age_key (sort_key age_key xs))" using assms by (simp add: distinct_map)
  then have "sorted_wrt (<) (map age_key (sort_key age_key xs))" by (simp add: strict_sorted_iff)
  then show ?thesis by (simp add: sorted_wrt_map)
qed

lemma shown_strict:
  assumes "db_ok db"
  shows "sorted_wrt (\<lambda>a b. age_key a < age_key b) (oldest_first (filter P (db_messages db)))"
proof -
  have "inj_on age_key (set (filter P (db_messages db)))" using rows_distinct [OF assms] by (auto simp: age_key_def inj_on_def)
  then show ?thesis using rows_distinct [OF assms] by (simp add: oldest_first_def strict_sort)
qed

lemma newest_rev: "newest_first rows = rev (oldest_first rows)"
  by (simp add: newest_first_def oldest_first_def)

lemma oldest_filter: "oldest_first (filter P rows) = filter P (oldest_first rows)"
  by (simp add: oldest_first_def filter_sort)

text \<open>What is older than the last row of a prefix is the rest.\<close>

lemma older_rest:
  assumes "sorted_wrt (\<lambda>a b. age_key b < age_key a) (xs @ x # ys)"
  shows "filter (\<lambda>r. age_key r < age_key x) (xs @ x # ys) = ys"
proof -
  have "filter (\<lambda>r. age_key r < age_key x) xs = []" using assms by (auto simp: sorted_wrt_append filter_empty_conv not_less less_imp_le)
  moreover have "filter (\<lambda>r. age_key r < age_key x) ys = ys" using assms by (auto simp: sorted_wrt_append intro!: filter_True)
  ultimately show ?thesis by simp
qed

lemma before_cursor: "mr_received_at r < mr_received_at x \<or> mr_received_at r = mr_received_at x \<and> mr_id r < mr_id x \<longleftrightarrow> age_key r < age_key x"
  by (simp add: age_key_def less_prod_def) auto

text \<open>The pages a client loads: each asks for what is before the last row of the page it has.\<close>

primrec load_pages :: "nat \<Rightarrow> page_filter \<Rightarrow> nat \<Rightarrow> cursor \<Rightarrow> msg_db \<Rightarrow> message_row list" where
  "load_pages 0 f limit c db = []"
| "load_pages (Suc n) f limit c db =
     (let page = get_all_messages f limit c db
      in if page = [] then [] else page @ load_pages n f limit (Before (mr_received_at (last page)) (mr_id (last page))) db)"

lemma load_rest:
  assumes ok: "db_ok db" and lim: "0 < limit"
  shows "newest_first (filter (shown f) (db_messages db)) = pre @ x # rest \<Longrightarrow> length rest \<le> n \<Longrightarrow>
    load_pages n f limit (Before (mr_received_at x) (mr_id x)) db = rest"
proof (induction n arbitrary: pre x rest)
  case (Suc n)
  let ?L = "newest_first (filter (shown f) (db_messages db))"
  have s: "sorted_wrt (\<lambda>a b. age_key b < age_key a) ?L" using shown_strict [OF ok, of "shown f"] by (simp add: newest_rev sorted_wrt_rev)
  have "newest_first (filter (\<lambda>r. age_key r < age_key x) (filter (shown f) (db_messages db))) = filter (\<lambda>r. age_key r < age_key x) ?L"
    by (simp only: newest_rev oldest_filter rev_filter)
  also have "\<dots> = rest" using older_rest s Suc.prems(1) by metis
  finally have page: "get_all_messages f limit (Before (mr_received_at x) (mr_id x)) db = take limit rest"
    by (simp only: get_all_messages_def Let_def cursor.case before_cursor)
  show ?case
  proof (cases rest)
    case Nil
    then show ?thesis using page by simp
  next
    case (Cons y ys)
    let ?p = "take limit rest"
    have p: "?p \<noteq> []" using Cons lim by simp
    have "rest = butlast ?p @ last ?p # drop limit rest" using p by (metis append_butlast_last_id append_take_drop_id append.assoc append_Cons append_Nil)
    then have "?L = (pre @ x # butlast ?p) @ last ?p # drop limit rest" using Suc.prems(1) by simp
    moreover have "length (drop limit rest) \<le> n" using Suc.prems(2) Cons lim by simp
    ultimately have "load_pages n f limit (Before (mr_received_at (last ?p)) (mr_id (last ?p))) db = drop limit rest" by (rule Suc.IH)
    then show ?thesis using p by (simp add: page Let_def)
  qed
qed simp

lemma load_all:
  assumes ok: "db_ok db" and lim: "0 < limit" and n: "length (filter (shown f) (db_messages db)) < n"
  shows "load_pages n f limit (NoCursor 0) db = newest_first (filter (shown f) (db_messages db))"
proof -
  let ?L = "newest_first (filter (shown f) (db_messages db))"
  have len: "length ?L = length (filter (shown f) (db_messages db))" by (simp add: newest_first_def)
  have page: "get_all_messages f limit (NoCursor 0) db = take limit ?L" by (simp add: get_all_messages_def)
  obtain k where k: "n = Suc k" using n by (cases n) auto
  show ?thesis
  proof (cases "?L = []")
    case True
    then show ?thesis by (simp add: k page)
  next
    case False
    let ?p = "take limit ?L"
    have p: "?p \<noteq> []" using False lim by simp
    have "?L = butlast ?p @ last ?p # drop limit ?L" using p by (metis append_butlast_last_id append_take_drop_id append.assoc append_Cons append_Nil)
    then have "load_pages k f limit (Before (mr_received_at (last ?p)) (mr_id (last ?p))) db = drop limit ?L"
      by (rule load_rest [OF ok lim]) (use n k len in simp)
    then show ?thesis using p by (simp add: k page Let_def)
  qed
qed

lemma around_window:
  assumes ok: "db_ok db" and r: "get_around f i c db = (page, older, newer)" and t: "target \<in> set (db_messages db)" "mr_id target = i" "shown f target"
  shows "\<exists>pre post before after. oldest_first (filter (shown f) (db_messages db)) = pre @ page @ post \<and> older = (pre \<noteq> []) \<and> newer = (post \<noteq> [])
    \<and> page = before @ target # after \<and> length before \<le> c \<and> length after \<le> c \<and> (older \<longrightarrow> length before = c) \<and> (newer \<longrightarrow> length after = c)"
proof -
  let ?rows = "filter (shown f) (db_messages db)"
  let ?L = "oldest_first ?rows"
  have s: "sorted_wrt (\<lambda>a b. age_key a < age_key b) ?L" by (rule shown_strict [OF ok])
  have fd: "find (\<lambda>r. mr_id r = i) ?rows = Some target"
  proof -
    have "\<exists>x. find (\<lambda>r. mr_id r = i) ?rows = Some x" using t by (cases "find (\<lambda>r. mr_id r = i) ?rows") (auto simp: find_None_iff)
    then obtain x where x: "find (\<lambda>r. mr_id r = i) ?rows = Some x" by blast
    then have "x \<in> set ?rows" "mr_id x = i" using find_SomeD [OF x] by blast+
    then have "x = target" using rows_distinct [OF ok] t(1,2) by (auto simp: inj_on_def)
    then show ?thesis using x by simp
  qed
  have "target \<in> set ?L" using t by (simp add: oldest_first_def)
  then obtain xs ys where L: "?L = xs @ target # ys" by (meson split_list)
  have lt: "age_key x < age_key target" if "x \<in> set xs" for x using s that by (auto simp: L sorted_wrt_append)
  have gt: "age_key target < age_key y" if "y \<in> set ys" for y using s that by (auto simp: L sorted_wrt_append)
  have "filter (\<lambda>r. age_key r < age_key target) ?L = xs"
    using lt gt by (simp add: L) (metis append_Nil2 filter_False filter_True less_asym)
  then have o: "newest_first (filter (\<lambda>r. age_key r < age_key target) ?rows) = rev xs" by (simp only: newest_rev oldest_filter)
  have "filter (\<lambda>r. age_key target < age_key r) ?L = ys"
    using lt gt by (simp add: L) (metis append_Nil filter_False filter_True less_asym)
  then have n: "oldest_first (filter (\<lambda>r. age_key target < age_key r) ?rows) = ys" by (simp only: oldest_filter)
  have p: "page = drop (length xs - c) xs @ target # take c ys" "older = (length xs > c)" "newer = (length ys > c)"
  proof -
    have e: "take c (take (c + 1) zs) = take c zs" "length (take (c + 1) zs) > c \<longleftrightarrow> length zs > c" for zs :: "message_row list" by (auto simp: min_def)
    have v: "rev (take c (rev xs)) = drop (length xs - c) xs" by (simp add: take_rev)
    have "(drop (length xs - c) xs @ [target] @ take c ys, length xs > c, length ys > c) = (page, older, newer)"
      using r unfolding get_around_def Let_def fd option.case o n e v length_rev .
    then show "page = drop (length xs - c) xs @ target # take c ys" "older = (length xs > c)" "newer = (length ys > c)" by auto
  qed
  let ?pre = "take (length xs - c) xs" and ?b = "drop (length xs - c) xs" and ?a = "take c ys" and ?post = "drop c ys"
  have "?L = ?pre @ page @ ?post" by (simp add: L p(1))
  moreover have "older = (?pre \<noteq> [])" "newer = (?post \<noteq> [])" by (auto simp: p(2,3))
  moreover have "length ?b \<le> c" "length ?a \<le> c" "older \<longrightarrow> length ?b = c" "newer \<longrightarrow> length ?a = c" by (auto simp: p(2,3))
  ultimately show ?thesis using p(1) by blast
qed

end
