(* ===== verification/MessageIngest.thy ===== *)
theory MessageIngest
  imports MessageStore Decoder
begin

text \<open>
  How messages get into the store (\<open>src/app/services/messages.py\<close>, \<open>src/app/services/dm_ingest.py\<close>, and the matching half of
  \<open>src/app/reactions.py\<close>): channel messages from decrypted packets and from the radio's queue, direct messages from both, our own
  messages, duplicates that reconcile onto the row they repeat, and reactions that land on a message. Broadcasts and the hand-over of
  image and media chunks are an event log. What a function wrote before it raised stays written. Log lines are left out.
\<close>

section \<open>Store\<close>

datatype store_event =
    EvMessage message_row "nat option" "bool option"
  | EvAcked nat nat "MessagePath list" "nat option"
  | EvReaction nat string msg_type "(ustr \<times> nat) list"
  | EvContact Contact
  | NoteChunk ustr nat string
  | NoteTunnel ustr string

record store =
  st_db :: msg_db
  st_events :: "store_event list"

definition broadcast :: "store_event \<Rightarrow> store \<Rightarrow> store" where
  "broadcast e s = s\<lparr>st_events := st_events s @ [e]\<rparr>"

definition write_db :: "(msg_db \<Rightarrow> msg_db) \<Rightarrow> store \<Rightarrow> store" where
  "write_db f s = s\<lparr>st_db := f (st_db s)\<rparr>"

definition write_contacts :: "(contact_row list \<Rightarrow> contact_row list) \<Rightarrow> store \<Rightarrow> store" where
  "write_contacts f = write_db (\<lambda>db. db\<lparr>db_contacts := f (db_contacts db)\<rparr>)"

text \<open>The copy of a message that was heard: the keyword arguments every route passes along.\<close>

record reception =
  rx_packet_id :: "nat option"
  rx_path :: "string option"
  rx_received_at :: int
  rx_path_len :: "int option"
  rx_rssi :: "int option"
  rx_snr :: "pyfloat option"
  rx_transport_code :: "nat option"
  rx_region :: "ustr option"

text \<open>The process: its codecs and the display name of the connected radio.\<close>

record ingest_env =
  ie_codecs :: codecs
  ie_our_name :: "ustr option"

definition build_message_paths :: "reception \<Rightarrow> MessagePath list option" where
  "build_message_paths rx = map_option (\<lambda>p. [path_entry p (rx_received_at rx) (rx_path_len rx) (rx_rssi rx) (rx_snr rx)]) (rx_path rx)"

section \<open>Duplicates\<close>

definition truthy :: "'a list option \<Rightarrow> bool" where
  "truthy x \<longleftrightarrow> (case x of None \<Rightarrow> False | Some v \<Rightarrow> v \<noteq> [])"

definition reconcile_duplicate_message :: "read_message \<Rightarrow> reception \<Rightarrow> store \<Rightarrow> store" where
  "reconcile_duplicate_message existing rx s =
     (case existing of (m, packet_id) \<Rightarrow>
        let (paths, db1) = (case rx_path rx of
              Some p \<Rightarrow> add_path (mr_id m) p (rx_received_at rx) (rx_path_len rx) (rx_rssi rx) (rx_snr rx) (st_db s)
            | None \<Rightarrow> (paths_list m, st_db s));
            db2 = (if rx_transport_code rx \<noteq> None \<and> (mr_transport_code m = None \<or> (mr_region m = None \<and> truthy (rx_region rx)))
                   then set_transport_scope (mr_id m) (rx_transport_code rx) (rx_region rx) db1 else db1);
            (ack_count, db3) = (if mr_outgoing m \<and> mr_type m = MsgChan then message_increment_ack (mr_id m) db2 else (mr_acked m, db2));
            representative = (if packet_id \<noteq> None then packet_id else rx_packet_id rx);
            s1 = s\<lparr>st_db := db3\<rparr>;
            s2 = (if mr_outgoing m \<or> rx_path rx \<noteq> None then broadcast (EvAcked (mr_id m) ack_count paths representative) s1 else s1)
        in (case rx_packet_id rx of None \<Rightarrow> s2 | Some p \<Rightarrow> write_db (mark_decrypted p (mr_id m)) s2))"

definition handle_duplicate_message :: "msg_type \<Rightarrow> string \<Rightarrow> ustr \<Rightarrow> int \<Rightarrow> bool option \<Rightarrow> reception \<Rightarrow> store \<Rightarrow> store" where
  "handle_duplicate_message t key txt ts outgoing rx s =
     (case get_by_content t key txt (Some ts) outgoing (st_db s) of
        None \<Rightarrow> s
      | Some existing \<Rightarrow> reconcile_duplicate_message existing rx s)"

section \<open>Reactions\<close>

definition extract_reaction_from_stored_text :: "msg_type \<Rightarrow> ustr \<Rightarrow> ReactionInfo option" where
  "extract_reaction_from_stored_text t txt = parse_reaction (if t = MsgChan then snd (split_channel_sender_text txt) else txt)"

definition non_empty :: "'a list option \<Rightarrow> 'a list option" where
  "non_empty x = (if truthy x then x else None)"

definition hash_inputs_for_message :: "message_row \<Rightarrow> bool \<Rightarrow> ustr option \<Rightarrow> (int \<times> ustr option \<times> ustr) option" where
  "hash_inputs_for_message m is_room our_name =
     (case mr_sender_timestamp m of
        None \<Rightarrow> None
      | Some ts \<Rightarrow>
          Some (if mr_type m = MsgChan then
                  (case split_channel_sender_text (mr_text m) of (sender, body) \<Rightarrow> (ts, Some sender, clean_channel_body_for_hash body))
                else if is_room then (ts, if mr_outgoing m then our_name else non_empty (mr_sender_name m), mr_text m)
                else (ts, None, mr_text m)))"

definition reaction_hash_for_message :: "message_row \<Rightarrow> bool \<Rightarrow> ustr option \<Rightarrow> ustr option" where
  "reaction_hash_for_message m is_room our_name =
     map_option (\<lambda>(ts, sender, txt). compute_reaction_hash ts sender txt) (hash_inputs_for_message m is_room our_name)"

definition CONTACT_TYPE_REPEATER :: int where "CONTACT_TYPE_REPEATER = 2"
definition CONTACT_TYPE_ROOM :: int where "CONTACT_TYPE_ROOM = 3"

definition conversation_is_room :: "msg_type \<Rightarrow> string \<Rightarrow> msg_db \<Rightarrow> bool" where
  "conversation_is_room t key db \<longleftrightarrow> t = MsgPriv \<and>
     (case get_by_key (lower key) (db_contacts db) of None \<Rightarrow> False | Some c \<Rightarrow> c_type c = CONTACT_TYPE_ROOM)"

definition reaction_eligible :: "msg_type \<Rightarrow> bool \<Rightarrow> bool \<Rightarrow> message_row \<Rightarrow> bool" where
  "reaction_eligible t is_room reactor_is_self m \<longleftrightarrow> \<not> (t = MsgPriv \<and> \<not> is_room \<and> mr_outgoing m = reactor_is_self)"

definition apply_reaction ::
  "ingest_env \<Rightarrow> msg_type \<Rightarrow> string \<Rightarrow> ReactionInfo \<Rightarrow> bool \<Rightarrow> message_row option \<Rightarrow> store \<Rightarrow> message_row option \<times> store" where
  "apply_reaction env t key reaction reactor_is_self fallback s =
     (let is_room = conversation_is_room t key (st_db s);
          candidates = get_recent_for_reaction_matching t key REACTION_MATCH_SCAN_LIMIT (st_db s);
          hit = find (\<lambda>m. reaction_eligible t is_room reactor_is_self m
                  \<and> reaction_hash_for_message m is_room (ie_our_name env) = Some (ri_target_hash reaction)) candidates
      in case (if hit = None then fallback else hit) of
           None \<Rightarrow> (None, s)
         | Some target \<Rightarrow>
             (case increment_reaction (mr_id target) (ri_emoji reaction) (st_db s) of
                (reactions, db1) \<Rightarrow>
                  (Some (target\<lparr>mr_reactions := Some reactions\<rparr>), broadcast (EvReaction (mr_id target) key t reactions) (s\<lparr>st_db := db1\<rparr>))))"

definition unhide_unmatched_reaction :: "message_row \<Rightarrow> nat option \<Rightarrow> store \<Rightarrow> message_row \<times> store" where
  "unhide_unmatched_reaction m packet_id s =
     (let visible = m\<lparr>mr_is_reaction := False\<rparr>
      in (visible, broadcast (EvMessage visible packet_id (Some False)) (write_db (set_is_reaction (mr_id m) False) s)))"

text \<open>An incoming reaction that was just stored hidden: applied to its target, or shown.\<close>

definition land_reaction :: "ingest_env \<Rightarrow> msg_type \<Rightarrow> string \<Rightarrow> ReactionInfo \<Rightarrow> message_row \<Rightarrow> nat option \<Rightarrow> store \<Rightarrow> message_row \<times> store" where
  "land_reaction env t key reaction m packet_id s =
     (case apply_reaction env t key reaction False None s of
        (Some _, s1) \<Rightarrow> (m, s1)
      | (None, s1) \<Rightarrow> unhide_unmatched_reaction m packet_id s1)"

section \<open>Channel messages\<close>

text \<open>Decoding a body ends (\<open>body_decodes\<close> below).\<close>

definition decoded_body :: "ingest_env \<Rightarrow> ustr \<Rightarrow> (ustr \<times> CompressionInfo option) res" where
  "decoded_body env txt = the (decode_and_describe (ie_codecs env) txt)"

definition with_sender :: "ustr option \<Rightarrow> ustr \<Rightarrow> ustr" where
  "with_sender sender body = (case non_empty sender of None \<Rightarrow> body | Some s \<Rightarrow> s @ utext '': '' @ body)"

definition sole_key_by_name :: "ustr option \<Rightarrow> msg_db \<Rightarrow> string option" where
  "sole_key_by_name sender db =
     (case non_empty sender of
        None \<Rightarrow> None
      | Some s \<Rightarrow> (case filter (\<lambda>c. ro_name c = Some s) (db_contacts db) of [c] \<Rightarrow> Some (ro_public_key c) | _ \<Rightarrow> None))"

definition opt_write :: "nat option \<Rightarrow> (nat \<Rightarrow> msg_db \<Rightarrow> msg_db) \<Rightarrow> store \<Rightarrow> store" where
  "opt_write x f s = (case x of None \<Rightarrow> s | Some v \<Rightarrow> write_db (f v) s)"

definition create_message_from_decrypted ::
  "ingest_env \<Rightarrow> string \<Rightarrow> ustr option \<Rightarrow> ustr \<Rightarrow> int \<Rightarrow> bool \<Rightarrow> int option \<Rightarrow> reception \<Rightarrow> store \<Rightarrow> nat option res \<times> store" where
  "create_message_from_decrypted env channel_key sender message_text timestamp realtime recovered_at rx s =
     (case decoded_body env message_text of
        Inl e \<Rightarrow> (Inl e, s)
      | Inr (body, compression) \<Rightarrow>
          let txt = with_sender sender body; key = upper_key channel_key; reaction = extract_reaction_from_stored_text MsgChan txt;
              m = row_defaults\<lparr>mr_type := MsgChan, mr_conversation_key := key, mr_text := txt, mr_sender_timestamp := Some timestamp,
                    mr_received_at := rx_received_at rx, mr_sender_name := sender, mr_sender_key := sole_key_by_name sender (st_db s),
                    mr_transport_code := rx_transport_code rx, mr_region := rx_region rx, mr_compression := compression,
                    mr_is_reaction := (reaction \<noteq> None), mr_recovered_at := recovered_at\<rparr>
          in case message_create m (rx_path rx) (rx_path_len rx) (rx_rssi rx) (rx_snr rx) (st_db s) of
               (None, _) \<Rightarrow> (Inr None, handle_duplicate_message MsgChan key txt timestamp None rx s)
             | (Some i, db1) \<Rightarrow>
                 let message = m\<lparr>mr_id := i, mr_paths := build_message_paths rx\<rparr>;
                     s1 = opt_write (rx_packet_id rx) (\<lambda>p. mark_decrypted p i) (s\<lparr>st_db := db1\<rparr>)
                 in case reaction of
                      Some r \<Rightarrow> (Inr (Some i), snd (land_reaction env MsgChan key r message (rx_packet_id rx) s1))
                    | None \<Rightarrow> (Inr (Some i), broadcast (NoteChunk txt i key) (broadcast (EvMessage message (rx_packet_id rx) (Some realtime)) s1)))"

definition create_fallback_channel_message ::
  "ingest_env \<Rightarrow> string \<Rightarrow> ustr \<Rightarrow> int \<Rightarrow> int \<Rightarrow> ustr option \<Rightarrow> reception \<Rightarrow> store \<Rightarrow> message_row option res \<times> store" where
  "create_fallback_channel_message env conversation_key message_text sender_timestamp ttype sender_name rx s =
     (case decoded_body env message_text of
        Inl e \<Rightarrow> (Inl e, s)
      | Inr (body, compression) \<Rightarrow>
          let txt = with_sender sender_name body; key = upper_key conversation_key; reaction = extract_reaction_from_stored_text MsgChan txt;
              rx' = rx\<lparr>rx_packet_id := None, rx_rssi := None, rx_snr := None, rx_transport_code := None, rx_region := None\<rparr>;
              m = row_defaults\<lparr>mr_type := MsgChan, mr_conversation_key := key, mr_text := txt, mr_sender_timestamp := Some sender_timestamp,
                    mr_received_at := rx_received_at rx, mr_txt_type := ttype, mr_sender_name := sender_name,
                    mr_sender_key := sole_key_by_name sender_name (st_db s), mr_compression := compression, mr_is_reaction := (reaction \<noteq> None)\<rparr>
          in case message_create m (rx_path rx') (rx_path_len rx') None None (st_db s) of
               (None, _) \<Rightarrow> (Inr None, handle_duplicate_message MsgChan key txt sender_timestamp None rx' s)
             | (Some i, db1) \<Rightarrow>
                 let message = m\<lparr>mr_id := i, mr_paths := build_message_paths rx'\<rparr>; s1 = s\<lparr>st_db := db1\<rparr>
                 in case reaction of
                      Some r \<Rightarrow> (Inr None, snd (land_reaction env MsgChan key r message None s1))
                    | None \<Rightarrow> (Inr (Some message), broadcast (NoteChunk txt i key) (broadcast (EvMessage message None None) s1)))"

section \<open>Our own messages\<close>

definition create_outgoing_direct_message ::
  "string \<Rightarrow> ustr \<Rightarrow> int \<Rightarrow> int \<Rightarrow> CompressionInfo option \<Rightarrow> nat option \<Rightarrow> nat option \<Rightarrow> string option \<Rightarrow> store \<Rightarrow> message_row option \<times> store" where
  "create_outgoing_direct_message key txt sender_timestamp received_at compression attempts max_attempts state s =
     (let is_reaction = extract_reaction_from_stored_text MsgPriv txt \<noteq> None;
          m = row_defaults\<lparr>mr_type := MsgPriv, mr_conversation_key := key, mr_text := txt, mr_sender_timestamp := Some sender_timestamp,
                mr_received_at := received_at, mr_outgoing := True, mr_compression := compression, mr_send_attempts := attempts,
                mr_send_max_attempts := max_attempts, mr_send_state := state\<rparr>
      in case message_create (m\<lparr>mr_is_reaction := is_reaction\<rparr>) None None None None (st_db s) of
           (None, _) \<Rightarrow> (None, s)
         | (Some i, db1) \<Rightarrow>
             let message = m\<lparr>mr_id := i\<rparr>; s1 = s\<lparr>st_db := db1\<rparr>
             in (Some message, if is_reaction then s1 else broadcast (EvMessage message None None) s1))"

definition build_stored_outgoing_channel_message :: "nat \<Rightarrow> message_row \<Rightarrow> msg_db \<Rightarrow> message_row" where
  "build_stored_outgoing_channel_message i m db =
     (case get_ack_and_paths i db of (acked, paths) \<Rightarrow> m\<lparr>mr_id := i, mr_acked := acked, mr_paths := paths\<rparr>)"

definition create_outgoing_channel_message ::
  "string \<Rightarrow> ustr \<Rightarrow> int \<Rightarrow> int \<Rightarrow> ustr option \<Rightarrow> string option \<Rightarrow> bool \<Rightarrow> CompressionInfo option \<Rightarrow> nat option \<Rightarrow> string option \<Rightarrow> store
    \<Rightarrow> message_row option \<times> store" where
  "create_outgoing_channel_message key txt sender_timestamp received_at sender_name sender_key announce compression attempts state s =
     (let is_reaction = extract_reaction_from_stored_text MsgChan txt \<noteq> None;
          m = row_defaults\<lparr>mr_type := MsgChan, mr_conversation_key := key, mr_text := txt, mr_sender_timestamp := Some sender_timestamp,
                mr_received_at := received_at, mr_outgoing := True, mr_sender_name := sender_name, mr_sender_key := sender_key,
                mr_compression := compression, mr_send_attempts := attempts, mr_send_state := state, mr_is_reaction := is_reaction\<rparr>
      in case message_create m None None None None (st_db s) of
           (None, _) \<Rightarrow> (None, s)
         | (Some i, db1) \<Rightarrow>
             let message = build_stored_outgoing_channel_message i m db1; s1 = s\<lparr>st_db := db1\<rparr>
             in (Some message, if announce \<and> \<not> is_reaction then broadcast (EvMessage message None None) s1 else s1))"

section \<open>Direct messages\<close>

definition prepare_resolved_contact :: "Contact \<Rightarrow> store \<Rightarrow> (string \<times> bool) res \<times> store" where
  "prepare_resolved_contact contact s =
     (let key = lower (c_public_key contact)
      in case claim_prefix_messages key (st_db s) of
           (Inl e, db1) \<Rightarrow> (Inl e, s\<lparr>st_db := db1\<rparr>)
         | (Inr _, db1) \<Rightarrow> (Inr (key, c_type contact = CONTACT_TYPE_REPEATER), s\<lparr>st_db := db1\<rparr>))"

record FallbackDirectMessageContext =
  fc_conversation_key :: string
  fc_contact :: "Contact option"
  fc_sender_name :: "ustr option"
  fc_sender_key :: "string option"
  fc_skip_storage :: bool

definition placeholder_write :: "string \<Rightarrow> int \<Rightarrow> contact_write" where
  "placeholder_write key received_at =
     \<lparr>wr_public_key = key, wr_name = None, wr_type = 0, wr_flags = 0, wr_direct_path = None, wr_direct_path_len = None,
      wr_direct_path_hash_mode = None, wr_direct_path_updated_at = None, wr_route_override_path = None, wr_route_override_len = None,
      wr_route_override_hash_mode = None, wr_last_advert = None, wr_lat = None, wr_lon = None, wr_last_seen = Some received_at,
      wr_on_radio = Some False, wr_last_contacted = Some received_at, wr_first_seen = Some received_at\<rparr>"

definition resolve_fallback_direct_message_context :: "string \<Rightarrow> int \<Rightarrow> store \<Rightarrow> FallbackDirectMessageContext res \<times> store" where
  "resolve_fallback_direct_message_context sender_public_key received_at s =
     (let sender = lower sender_public_key
      in case get_by_key_or_prefix sender (db_contacts (st_db s)) of
           Found contact \<Rightarrow>
             (case prepare_resolved_contact contact s of
                (Inl e, s1) \<Rightarrow> (Inl e, s1)
              | (Inr (key, skip), s1) \<Rightarrow>
                  (Inr \<lparr>fc_conversation_key = key, fc_contact = Some contact, fc_sender_name = c_name contact, fc_sender_key = Some key, fc_skip_storage = skip\<rparr>, s1))
         | _ \<Rightarrow>
             let s1 = (if sender \<noteq> [] then write_contacts (contact_upsert (placeholder_write sender received_at)) s else s);
                 contact = (if sender \<noteq> [] then get_by_key sender (db_contacts (st_db s1)) else None);
                 s2 = (case contact of None \<Rightarrow> s1 | Some c \<Rightarrow> broadcast (EvContact c) s1)
             in (Inr \<lparr>fc_conversation_key = sender, fc_contact = contact, fc_sender_name = (case contact of None \<Rightarrow> None | Some c \<Rightarrow> c_name c),
                      fc_sender_key = non_empty (Some sender), fc_skip_storage = False\<rparr>, s2))"

definition resolve_direct_message_sender_metadata :: "string \<Rightarrow> store \<Rightarrow> (ustr option \<times> string option) res \<times> store" where
  "resolve_direct_message_sender_metadata sender_public_key s =
     (let sender = lower sender_public_key
      in case get_by_key_or_prefix sender (db_contacts (st_db s)) of
           Found contact \<Rightarrow>
             (case claim_prefix_messages (lower (c_public_key contact)) (st_db s) of
                (Inl e, db1) \<Rightarrow> (Inl e, s\<lparr>st_db := db1\<rparr>)
              | (Inr _, db1) \<Rightarrow> (Inr (c_name contact, Some (lower (c_public_key contact))), s\<lparr>st_db := db1\<rparr>))
         | _ \<Rightarrow> (Inr (None, non_empty (Some sender)), s))"

text \<open>What the routes of a direct message hand to the common store function.\<close>

record dm_fields =
  df_conversation_key :: string
  df_sender_timestamp :: int
  df_outgoing :: bool
  df_txt_type :: int
  df_signature :: "string option"
  df_sender_name :: "ustr option"
  df_sender_key :: "string option"
  df_realtime :: bool
  df_update_last_contacted_key :: "string option"
  df_best_effort_content_dedup :: bool
  df_linked_packet_dedup :: bool
  df_recovered_at :: "int option"

definition touch_contact :: "dm_fields \<Rightarrow> int \<Rightarrow> store \<Rightarrow> store" where
  "touch_contact d received_at s =
     (case non_empty (df_update_last_contacted_key d) of
        None \<Rightarrow> s
      | Some k \<Rightarrow>
          let s1 = write_contacts (update_last_contacted k received_at) s
          in if df_outgoing d then s1 else write_contacts (touch_last_seen k received_at) s1)"

definition store_new_direct_message :: "ingest_env \<Rightarrow> dm_fields \<Rightarrow> ustr \<Rightarrow> CompressionInfo option \<Rightarrow> reception \<Rightarrow> store \<Rightarrow> message_row option \<times> store" where
  "store_new_direct_message env d txt compression rx s =
     (let reaction = parse_reaction txt; key = df_conversation_key d;
          m = row_defaults\<lparr>mr_type := MsgPriv, mr_conversation_key := key, mr_text := txt, mr_sender_timestamp := Some (df_sender_timestamp d),
                mr_received_at := rx_received_at rx, mr_txt_type := df_txt_type d, mr_signature := df_signature d, mr_outgoing := df_outgoing d,
                mr_sender_key := df_sender_key d, mr_sender_name := df_sender_name d, mr_transport_code := rx_transport_code rx, mr_region := rx_region rx,
                mr_compression := compression, mr_is_reaction := (reaction \<noteq> None), mr_recovered_at := df_recovered_at d\<rparr>
      in case message_create m (rx_path rx) (rx_path_len rx) (rx_rssi rx) (rx_snr rx) (st_db s) of
           (None, _) \<Rightarrow> (None, handle_duplicate_message MsgPriv key txt (df_sender_timestamp d) (Some (df_outgoing d)) rx s)
         | (Some i, db1) \<Rightarrow>
             let message = m\<lparr>mr_id := i, mr_paths := build_message_paths rx\<rparr>;
                 s1 = opt_write (rx_packet_id rx) (\<lambda>p. mark_decrypted p i) (s\<lparr>st_db := db1\<rparr>);
                 (message', s2) = (case reaction of
                     Some r \<Rightarrow> if df_outgoing d then (message, s1) else land_reaction env MsgPriv key r message (rx_packet_id rx) s1
                   | None \<Rightarrow> (message, broadcast (NoteChunk txt i key) (broadcast (EvMessage message (rx_packet_id rx) (Some (df_realtime d))) s1)))
             in (Some message', touch_contact d (rx_received_at rx) s2))"

definition linked_message :: "dm_fields \<Rightarrow> reception \<Rightarrow> msg_db \<Rightarrow> read_message option" where
  "linked_message d rx db =
     (if \<not> df_linked_packet_dedup d then None
      else case rx_packet_id rx of
             None \<Rightarrow> None
           | Some p \<Rightarrow> (case get_linked_message_id p db of None \<Rightarrow> None | Some i \<Rightarrow> get_by_id i db))"

definition twin_message :: "dm_fields \<Rightarrow> ustr \<Rightarrow> msg_db \<Rightarrow> read_message option" where
  "twin_message d txt db =
     (if df_best_effort_content_dedup d then get_by_content MsgPriv (df_conversation_key d) txt (Some (df_sender_timestamp d)) (Some (df_outgoing d)) db else None)"

definition TUNNEL_PREFIX :: ustr where "TUNNEL_PREFIX = utext ''rmt1:''"

definition is_tunnel_chunk :: "ustr \<Rightarrow> bool" where
  "is_tunnel_chunk txt = starts_with TUNNEL_PREFIX txt"

definition store_direct_message :: "ingest_env \<Rightarrow> dm_fields \<Rightarrow> ustr \<Rightarrow> reception \<Rightarrow> store \<Rightarrow> message_row option res \<times> store" where
  "store_direct_message env d text0 rx s =
     (case decoded_body env text0 of
        Inl e \<Rightarrow> (Inl e, s)
      | Inr (txt, compression) \<Rightarrow>
          if is_tunnel_chunk txt then
            (Inr None, if df_outgoing d then s
                       else broadcast (NoteTunnel txt (case non_empty (df_sender_key d) of Some k \<Rightarrow> k | None \<Rightarrow> df_conversation_key d)) s)
          else case linked_message d rx (st_db s) of
                 Some existing \<Rightarrow> (Inr None, reconcile_duplicate_message existing rx s)
               | None \<Rightarrow>
                   (case twin_message d txt (st_db s) of
                      Some existing \<Rightarrow> (Inr None, reconcile_duplicate_message existing rx s)
                    | None \<Rightarrow> (case store_new_direct_message env d txt compression rx s of (r, s1) \<Rightarrow> (Inr r, s1))))"

definition decrypted_sender :: "DecryptedDirectMessage \<Rightarrow> Contact option \<Rightarrow> bool \<Rightarrow> string \<Rightarrow> store \<Rightarrow> (ustr option \<times> string option \<times> string option) res \<times> store" where
  "decrypted_sender decrypted contact outgoing key s =
     (case contact of
        None \<Rightarrow> (Inr (None, if outgoing then None else Some key, None), s)
      | Some c \<Rightarrow>
          if outgoing then (Inr (None, None, None), s)
          else case non_empty (dm_signed_sender_prefix decrypted) of
                 Some prefix \<Rightarrow>
                   if c_type c = CONTACT_TYPE_ROOM then
                     (case resolve_direct_message_sender_metadata prefix s of
                        (Inl e, s1) \<Rightarrow> (Inl e, s1)
                      | (Inr (name, sender_key), s1) \<Rightarrow> (Inr (name, sender_key, Some prefix), s1))
                   else (Inr (c_name c, Some key, None), s)
               | None \<Rightarrow> (Inr (c_name c, Some key, None), s))"

definition ingest_decrypted_direct_message ::
  "ingest_env \<Rightarrow> DecryptedDirectMessage \<Rightarrow> string \<Rightarrow> bool \<Rightarrow> bool \<Rightarrow> int option \<Rightarrow> reception \<Rightarrow> store \<Rightarrow> message_row option res \<times> store" where
  "ingest_decrypted_direct_message env decrypted their_public_key outgoing realtime recovered_at rx s =
     (let key = lower their_public_key
      in if \<not> outgoing \<and> txt_type decrypted = 1 then (Inr None, s)
         else
           let contact = get_by_key key (db_contacts (st_db s));
               prepared = (case contact of None \<Rightarrow> (Inr (key, False), s) | Some c \<Rightarrow> prepare_resolved_contact c s)
           in case prepared of
                (Inl e, s1) \<Rightarrow> (Inl e, s1)
              | (Inr (conversation_key, skip), s1) \<Rightarrow>
                  if skip then (Inr None, s1)
                  else case decrypted_sender decrypted contact outgoing key s1 of
                         (Inl e, s2) \<Rightarrow> (Inl e, s2)
                       | (Inr (sender_name, sender_key, signature), s2) \<Rightarrow>
                           store_direct_message env
                             \<lparr>df_conversation_key = conversation_key, df_sender_timestamp = int (dm_timestamp decrypted), df_outgoing = outgoing,
                              df_txt_type = int (txt_type decrypted), df_signature = signature, df_sender_name = sender_name, df_sender_key = sender_key,
                              df_realtime = realtime, df_update_last_contacted_key = Some conversation_key, df_best_effort_content_dedup = outgoing,
                              df_linked_packet_dedup = True, df_recovered_at = recovered_at\<rparr> (dm_message decrypted) rx s2)"

definition ingest_fallback_direct_message ::
  "ingest_env \<Rightarrow> string \<Rightarrow> ustr \<Rightarrow> int \<Rightarrow> int \<Rightarrow> string option \<Rightarrow> ustr option \<Rightarrow> string option \<Rightarrow> string option \<Rightarrow> reception \<Rightarrow> store
    \<Rightarrow> message_row option res \<times> store" where
  "ingest_fallback_direct_message env key txt sender_timestamp ttype signature sender_name sender_key update_key rx =
     store_direct_message env
       \<lparr>df_conversation_key = key, df_sender_timestamp = sender_timestamp, df_outgoing = False, df_txt_type = ttype, df_signature = signature,
        df_sender_name = sender_name, df_sender_key = sender_key, df_realtime = True, df_update_last_contacted_key = update_key,
        df_best_effort_content_dedup = True, df_linked_packet_dedup = False, df_recovered_at = None\<rparr> txt
       (rx\<lparr>rx_packet_id := None, rx_rssi := None, rx_snr := None, rx_transport_code := None, rx_region := None\<rparr>)"

text \<open>A queued direct message as the radio library reports it (\<open>src/app/event_handlers.py\<close>); \<open>now\<close> is the clock.\<close>

record contact_event =
  ce_txt_type :: int
  ce_public_key :: "string option"
  ce_pubkey_prefix :: string
  ce_sender_timestamp :: "int option"
  ce_path :: "string option"
  ce_path_len :: "int option"
  ce_signature :: "string option"
  ce_text :: ustr

definition on_contact_message :: "ingest_env \<Rightarrow> contact_event \<Rightarrow> int \<Rightarrow> store \<Rightarrow> message_row option res \<times> store" where
  "on_contact_message env payload now s =
     (if ce_txt_type payload = 1 then (Inr None, s)
      else
        let sender = (case non_empty (ce_public_key payload) of Some k \<Rightarrow> k | None \<Rightarrow> ce_pubkey_prefix payload)
        in case resolve_fallback_direct_message_context sender now s of
             (Inl e, s1) \<Rightarrow> (Inl e, s1)
           | (Inr fc, s1) \<Rightarrow>
               if fc_skip_storage fc then (Inr None, s1)
               else
                 let ts = (case ce_sender_timestamp payload of None \<Rightarrow> now | Some t \<Rightarrow> t);
                     is_room = (case fc_contact fc of None \<Rightarrow> False | Some c \<Rightarrow> c_type c = CONTACT_TYPE_ROOM);
                     author = (if is_room \<and> ce_txt_type payload = 2 \<and> truthy (ce_signature payload)
                               then resolve_direct_message_sender_metadata (the (ce_signature payload)) s1
                               else (Inr (fc_sender_name fc, fc_sender_key fc), s1))
                 in case author of
                      (Inl e, s2) \<Rightarrow> (Inl e, s2)
                    | (Inr (sender_name, sender_key), s2) \<Rightarrow>
                        ingest_fallback_direct_message env (fc_conversation_key fc) (ce_text payload) ts (ce_txt_type payload) (ce_signature payload)
                          sender_name sender_key (map_option (\<lambda>c. lower (c_public_key c)) (fc_contact fc))
                          \<lparr>rx_packet_id = None, rx_path = ce_path payload, rx_received_at = now, rx_path_len = ce_path_len payload, rx_rssi = None,
                           rx_snr = None, rx_transport_code = None, rx_region = None\<rparr> s2)"

section \<open>Decoding ends\<close>

lemma body_decodes:
  assumes "codecs_ok co"
  shows "\<exists>r. decode_and_describe co t = Some r"
proof -
  have "\<exists>r. try_decode_incoming co t = Some r"
  proof (cases "co_model co")
    case None
    then show ?thesis by (simp add: try_decode_incoming_def Let_def)
  next
    case (Some m)
    have ok: "float_ok (co_floats co)" "model_ok m" using assms Some by (simp_all add: codecs_ok_def)
    note d = decompress_total [OF ok]
    have "\<exists>r. try_decode_v3_text (co_floats co) m t = Some r" using d(3) by (auto simp: try_decode_v3_text_def split: sum.splits)
    moreover have "\<exists>r. try_decode_prefixed (co_floats co) (Some m) t = Some r" using d(1) by (auto simp: try_decode_prefixed_def Let_def)
    ultimately obtain r3 r2 where "try_decode_v3_text (co_floats co) m t = Some r3" "try_decode_prefixed (co_floats co) (Some m) t = Some r2" by blast
    then show ?thesis using Some by (cases r3) (simp_all add: try_decode_incoming_def Let_def)
  qed
  then show ?thesis by (auto simp: decode_and_describe_def)
qed

section \<open>Every route keeps the tables in order\<close>

lemma add_path_ok: "db_ok db \<Longrightarrow> add_path i p ra pl rs sn db = (ps, db') \<Longrightarrow> db_ok db'"
  by (auto simp: add_path_def Let_def intro!: update_message_ok) (simp add: same_index_def)

lemma scope_ok: "db_ok db \<Longrightarrow> db_ok (set_transport_scope i c r db)"
  unfolding set_transport_scope_def by (rule update_message_ok) (simp_all add: same_index_def)

lemma ack_ok: "db_ok db \<Longrightarrow> message_increment_ack i db = (n, db') \<Longrightarrow> db_ok db'"
  by (auto simp: message_increment_ack_def Let_def intro!: update_message_ok) (simp add: same_index_def)

lemma mark_ok: "db_ok db \<Longrightarrow> db_ok (mark_decrypted p i db)"
  unfolding mark_decrypted_def by (rule raw_rewrite_ok) auto

lemma set_reaction_ok: "db_ok db \<Longrightarrow> db_ok (set_is_reaction i b db)"
  unfolding set_is_reaction_def by (rule update_message_ok) (simp_all add: same_index_def)

lemma bump_ok: "db_ok db \<Longrightarrow> increment_reaction i e db = (n, db') \<Longrightarrow> db_ok db'"
  by (auto simp: increment_reaction_def Let_def intro!: update_message_ok) (simp add: same_index_def)

abbreviation store_ok :: "store \<Rightarrow> bool" where
  "store_ok s \<equiv> db_ok (st_db s)"

lemma broadcast_db [simp]: "st_db (broadcast e s) = st_db s"
  by (simp add: broadcast_def)

lemma write_db_db [simp]: "st_db (write_db f s) = f (st_db s)"
  by (simp add: write_db_def)

lemma contacts_ok_db [simp]: "db_ok (db\<lparr>db_contacts := c\<rparr>) = db_ok db"
  by (simp add: db_ok_def)

lemma reconciling_ok: "store_ok s \<Longrightarrow> store_ok (reconcile_duplicate_message ex rx s)"
proof -
  assume ok: "store_ok s"
  obtain m pid where ex: "ex = (m, pid)" by (cases ex)
  obtain paths db1 where 1: "(case rx_path rx of
              Some p \<Rightarrow> add_path (mr_id m) p (rx_received_at rx) (rx_path_len rx) (rx_rssi rx) (rx_snr rx) (st_db s)
            | None \<Rightarrow> (paths_list m, st_db s)) = (paths, db1)" by fastforce
  have ok1: "db_ok db1" using 1 ok add_path_ok by (auto split: option.splits)
  define db2 where "db2 = (if rx_transport_code rx \<noteq> None \<and> (mr_transport_code m = None \<or> (mr_region m = None \<and> truthy (rx_region rx)))
                   then set_transport_scope (mr_id m) (rx_transport_code rx) (rx_region rx) db1 else db1)"
  have ok2: "db_ok db2" using ok1 scope_ok by (simp add: db2_def)
  obtain n db3 where 3: "(if mr_outgoing m \<and> mr_type m = MsgChan then message_increment_ack (mr_id m) db2 else (mr_acked m, db2)) = (n, db3)" by fastforce
  have ok3: "db_ok db3" using 3 ok2 ack_ok by (auto split: if_splits)
  show ?thesis unfolding reconcile_duplicate_message_def ex Let_def prod.case 1 db2_def [symmetric] 3
    using ok3 mark_ok by (auto split: option.splits)
qed

lemma duplicate_ok: "store_ok s \<Longrightarrow> store_ok (handle_duplicate_message t k x ts out rx s)"
  using reconciling_ok by (simp add: handle_duplicate_message_def split: option.splits)

lemma apply_ok: "store_ok s \<Longrightarrow> apply_reaction env t k r self fb s = (m, s') \<Longrightarrow> store_ok s'"
  using bump_ok by (auto simp: apply_reaction_def Let_def split: option.splits if_splits prod.splits)

lemma land_ok: "store_ok s \<Longrightarrow> store_ok (snd (land_reaction env t k r m p s))"
  using apply_ok set_reaction_ok by (auto simp: land_reaction_def unhide_unmatched_reaction_def Let_def split: option.splits prod.splits)

lemma opt_write_ok: "store_ok s \<Longrightarrow> (\<And>v db. db_ok db \<Longrightarrow> db_ok (f v db)) \<Longrightarrow> store_ok (opt_write x f s)"
  by (simp add: opt_write_def split: option.splits)

lemma channel_route_ok: "store_ok s \<Longrightarrow> create_message_from_decrypted env k sn t ts rt rc rx s = (r, s') \<Longrightarrow> store_ok s'"
  by (auto simp: create_message_from_decrypted_def Let_def duplicate_ok create_ok land_ok mark_ok opt_write_ok split: sum.splits prod.splits option.splits)

lemma queued_channel_ok: "store_ok s \<Longrightarrow> create_fallback_channel_message env k t ts tt sn rx s = (r, s') \<Longrightarrow> store_ok s'"
  by (auto simp: create_fallback_channel_message_def Let_def duplicate_ok create_ok land_ok split: sum.splits prod.splits option.splits)

lemma send_direct_ok: "store_ok s \<Longrightarrow> create_outgoing_direct_message k t ts ra c a ma stt s = (r, s') \<Longrightarrow> store_ok s'"
  by (auto simp: create_outgoing_direct_message_def Let_def create_ok split: prod.splits option.splits if_splits)

lemma send_channel_ok: "store_ok s \<Longrightarrow> create_outgoing_channel_message k t ts ra sn sk an c a stt s = (r, s') \<Longrightarrow> store_ok s'"
  by (auto simp: create_outgoing_channel_message_def Let_def create_ok split: prod.splits option.splits if_splits)

lemma write_contacts_ok [simp]: "store_ok (write_contacts f s) = store_ok s"
  by (simp add: write_contacts_def)

lemma touch_ok [simp]: "store_ok (touch_contact d ra s) = store_ok s"
  by (simp add: touch_contact_def Let_def split: option.splits)

lemma land_ok_eq: "land_reaction env t k r m p s = (m', s') \<Longrightarrow> store_ok s \<Longrightarrow> store_ok s'"
  using land_ok by (metis snd_conv)

lemma store_new_ok:
  assumes "store_ok s" and "store_new_direct_message env d t c rx s = (r, s')"
  shows "store_ok s'"
  using assms
  apply (auto simp: store_new_direct_message_def Let_def duplicate_ok create_ok mark_ok opt_write_ok split: prod.splits option.splits if_splits)
  subgoal by (erule land_ok_eq) (simp add: opt_write_ok mark_ok create_ok)
  done

lemma store_direct_ok: "store_ok s \<Longrightarrow> store_direct_message env d t rx s = (r, s') \<Longrightarrow> store_ok s'"
  by (auto simp: store_direct_message_def reconciling_ok dest: store_new_ok split: sum.splits prod.splits option.splits if_splits)

lemma prepare_ok: "store_ok s \<Longrightarrow> prepare_resolved_contact c s = (r, s') \<Longrightarrow> store_ok s'"
  using claim_ok by (auto simp: prepare_resolved_contact_def Let_def split: sum.splits prod.splits)

lemma metadata_ok: "store_ok s \<Longrightarrow> resolve_direct_message_sender_metadata k s = (r, s') \<Longrightarrow> store_ok s'"
  using claim_ok by (auto simp: resolve_direct_message_sender_metadata_def Let_def split: sum.splits prod.splits lookup.splits)

lemma context_ok: "store_ok s \<Longrightarrow> resolve_fallback_direct_message_context k ra s = (r, s') \<Longrightarrow> store_ok s'"
  by (auto simp: resolve_fallback_direct_message_context_def Let_def dest: prepare_ok split: sum.splits prod.splits lookup.splits option.splits if_splits)

lemma sender_ok: "store_ok s \<Longrightarrow> decrypted_sender d c out k s = (r, s') \<Longrightarrow> store_ok s'"
  by (auto simp: decrypted_sender_def dest: metadata_ok split: sum.splits prod.splits option.splits if_splits)

lemma direct_route_ok:
  assumes "store_ok s" and "ingest_decrypted_direct_message env d k out rt rc rx s = (r, s')"
  shows "store_ok s'"
proof (cases "\<not> out \<and> txt_type d = 1")
  case True
  then show ?thesis using assms by (simp add: ingest_decrypted_direct_message_def)
next
  case False
  obtain x s1 where p: "(case get_by_key (lower k) (db_contacts (st_db s)) of None \<Rightarrow> (Inr (lower k, False), s) | Some c \<Rightarrow> prepare_resolved_contact c s) = (x, s1)"
    by fastforce
  have s1: "store_ok s1" using p assms(1) prepare_ok by (auto split: option.splits)
  obtain y s2 where q: "decrypted_sender d (get_by_key (lower k) (db_contacts (st_db s))) out (lower k) s1 = (y, s2)" by fastforce
  have s2: "store_ok s2" by (rule sender_ok [OF s1 q])
  have g: "(\<not> out \<and> txt_type d = 1) = False" using False by blast
  note u = assms(2) [unfolded ingest_decrypted_direct_message_def Let_def g if_False p]
  show ?thesis
  proof (cases x)
    case (Inl e)
    then show ?thesis using u s1 by simp
  next
    case (Inr z)
    obtain key skip where z: "z = (key, skip)" by (cases z)
    note v = u [unfolded Inr z prod.case sum.case q]
    show ?thesis
    proof (cases skip)
      case True
      then show ?thesis using v s1 by simp
    next
      case n: False
      then show ?thesis using v s2 store_direct_ok [OF s2] by (cases y) (simp_all split: prod.splits)
    qed
  qed
qed

end
