(* ===== verification/ContactHistory.thy ===== *)
theory ContactHistory
  imports MessageStore
begin

text \<open>
  What is remembered of a contact beside its row (\<open>src/app/repository/contacts.py\<close>): the names it used, the paths its advertisements
  took, the drift of its clock, and the promotion of a placeholder that only had a key prefix. Tables are lists of rows; a row that
  meets a unique key updates the row that holds it. The read marker of a contact is not modelled.
\<close>

section \<open>Rows\<close>

record name_row =
  nh_public_key :: string
  nh_name :: ustr
  nh_first_seen :: int
  nh_last_seen :: int

record advert_path_row =
  ap_public_key :: string
  ap_path_hex :: string
  ap_path_len :: int
  ap_first_seen :: int
  ap_last_seen :: int
  ap_heard_count :: nat

record drift_row =
  dr_public_key :: string
  dr_bucket_start :: int
  dr_drift_seconds :: int
  dr_observed_at :: int
  dr_advert_timestamp :: int
  dr_path_len :: int
  dr_sample_count :: nat

record history_db =
  hd_contacts :: "contact_row list"
  hd_names :: "name_row list"
  hd_paths :: "advert_path_row list"
  hd_drift :: "drift_row list"

text \<open>\<open>INSERT ... ON CONFLICT DO UPDATE\<close>: \<open>same\<close> is the unique key, \<open>upd\<close> the update clause.\<close>

definition upsert_row :: "('r \<Rightarrow> 'r \<Rightarrow> bool) \<Rightarrow> ('r \<Rightarrow> 'r \<Rightarrow> 'r) \<Rightarrow> 'r \<Rightarrow> 'r list \<Rightarrow> 'r list" where
  "upsert_row same upd x rows = (if list_ex (same x) rows then map (\<lambda>r. if same x r then upd x r else r) rows else rows @ [x])"

section \<open>Names\<close>

definition same_name :: "name_row \<Rightarrow> name_row \<Rightarrow> bool" where
  "same_name x r \<longleftrightarrow> nh_public_key x = nh_public_key r \<and> nh_name x = nh_name r"

definition record_name :: "string \<Rightarrow> ustr \<Rightarrow> int \<Rightarrow> name_row list \<Rightarrow> name_row list" where
  "record_name public_key name timestamp =
     upsert_row same_name (\<lambda>x r. r\<lparr>nh_last_seen := max (nh_last_seen r) (nh_last_seen x)\<rparr>)
       \<lparr>nh_public_key = lower public_key, nh_name = name, nh_first_seen = timestamp, nh_last_seen = timestamp\<rparr>"

section \<open>Paths of advertisements\<close>

definition same_path :: "advert_path_row \<Rightarrow> advert_path_row \<Rightarrow> bool" where
  "same_path x r \<longleftrightarrow> ap_public_key x = ap_public_key r \<and> ap_path_hex x = ap_path_hex r \<and> ap_path_len x = ap_path_len r"

text \<open>The binary order of text.\<close>

fun text_less :: "string \<Rightarrow> string \<Rightarrow> bool" where
  "text_less [] [] \<longleftrightarrow> False"
| "text_less [] (y # ys) \<longleftrightarrow> True"
| "text_less (x # xs) [] \<longleftrightarrow> False"
| "text_less (x # xs) (y # ys) \<longleftrightarrow> (of_char x :: nat) < of_char y \<or> x = y \<and> text_less xs ys"

text \<open>\<open>ORDER BY last_seen DESC, heard_count DESC, path_len ASC, path_hex ASC\<close>: \<open>a\<close> stands before \<open>b\<close>.\<close>

definition path_before :: "advert_path_row \<Rightarrow> advert_path_row \<Rightarrow> bool" where
  "path_before a b \<longleftrightarrow> ap_last_seen a > ap_last_seen b \<or> ap_last_seen a = ap_last_seen b \<and>
     (ap_heard_count a > ap_heard_count b \<or> ap_heard_count a = ap_heard_count b \<and>
      (ap_path_len a < ap_path_len b \<or> ap_path_len a = ap_path_len b \<and> text_less (ap_path_hex a) (ap_path_hex b)))"

text \<open>Being among the first \<open>n\<close> of its contact: fewer than \<open>n\<close> rows stand before it.\<close>

definition prune_paths :: "string \<Rightarrow> nat \<Rightarrow> advert_path_row list \<Rightarrow> advert_path_row list" where
  "prune_paths key n rows =
     filter (\<lambda>r. ap_public_key r \<noteq> key \<or> length (filter (\<lambda>x. ap_public_key x = key \<and> path_before x r) rows) < n) rows"

definition record_observation :: "string \<Rightarrow> string \<Rightarrow> int \<Rightarrow> int \<Rightarrow> int option \<Rightarrow> advert_path_row list \<Rightarrow> advert_path_row list" where
  "record_observation public_key path_hex timestamp max_paths hop_count rows =
     (let key = lower public_key; path = lower path_hex;
          path_len = (case hop_count of None \<Rightarrow> int (length path div 2) | Some n \<Rightarrow> n)
      in prune_paths key (nat (max 1 max_paths))
           (upsert_row same_path (\<lambda>x r. r\<lparr>ap_last_seen := max (ap_last_seen r) (ap_last_seen x), ap_heard_count := ap_heard_count r + 1\<rparr>)
             \<lparr>ap_public_key = key, ap_path_hex = path, ap_path_len = path_len, ap_first_seen = timestamp, ap_last_seen = timestamp, ap_heard_count = 1\<rparr> rows))"

section \<open>Clock drift\<close>

definition DRIFT_BUCKET_SECONDS :: int where "DRIFT_BUCKET_SECONDS = 3600"
definition DRIFT_FULL_RESOLUTION_SECONDS :: int where "DRIFT_FULL_RESOLUTION_SECONDS = 90 * 86400"
definition DAY_SECONDS :: int where "DAY_SECONDS = 86400"

definition bucket_start :: "int \<Rightarrow> int" where
  "bucket_start observed_at = observed_at div DRIFT_BUCKET_SECONDS * DRIFT_BUCKET_SECONDS"

definition day_start :: "int \<Rightarrow> int" where
  "day_start timestamp = timestamp div DAY_SECONDS * DAY_SECONDS"

definition same_bucket :: "drift_row \<Rightarrow> drift_row \<Rightarrow> bool" where
  "same_bucket x r \<longleftrightarrow> dr_public_key x = dr_public_key r \<and> dr_bucket_start x = dr_bucket_start r"

definition drift_record :: "string \<Rightarrow> int \<Rightarrow> int \<Rightarrow> int \<Rightarrow> drift_row list \<Rightarrow> drift_row list" where
  "drift_record public_key advert_timestamp observed_at path_len =
     upsert_row same_bucket
       (\<lambda>x r. let better = dr_drift_seconds x > dr_drift_seconds r
              in r\<lparr>dr_sample_count := dr_sample_count r + 1, dr_drift_seconds := max (dr_drift_seconds r) (dr_drift_seconds x),
                   dr_observed_at := (if better then dr_observed_at x else dr_observed_at r),
                   dr_advert_timestamp := (if better then dr_advert_timestamp x else dr_advert_timestamp r),
                   dr_path_len := (if better then dr_path_len x else dr_path_len r)\<rparr>)
       \<lparr>dr_public_key = lower public_key, dr_bucket_start = bucket_start observed_at, dr_drift_seconds = advert_timestamp - observed_at,
        dr_observed_at = observed_at, dr_advert_timestamp = advert_timestamp, dr_path_len = path_len, dr_sample_count = 1\<rparr>"

text \<open>\<open>(bucket_start / d) * d\<close> in SQL; bucket starts are not negative. The groups come in the order of their first row.\<close>

definition drift_day :: "drift_row \<Rightarrow> int" where
  "drift_day r = dr_bucket_start r div DAY_SECONDS * DAY_SECONDS"

definition drift_group :: "drift_row \<Rightarrow> string \<times> int" where
  "drift_group r = (dr_public_key r, drift_day r)"

text \<open>The query has both \<open>MAX(drift_seconds)\<close> and \<open>MIN(bucket_start)\<close>. The bare columns beside them come from one row of the group; SQLite documents
  that it is a row where one of the two is attained, not which. The choice is the argument \<open>bare\<close>.\<close>

definition day_row :: "(drift_row list \<Rightarrow> drift_row) \<Rightarrow> int \<Rightarrow> drift_row list \<Rightarrow> drift_row" where
  "day_row bare day rows =
     (bare rows)\<lparr>dr_bucket_start := day, dr_drift_seconds := Max (set (map dr_drift_seconds rows)), dr_sample_count := sum_list (map dr_sample_count rows)\<rparr>"

definition drift_compact :: "(drift_row list \<Rightarrow> drift_row) \<Rightarrow> int \<Rightarrow> int \<Rightarrow> drift_row list \<Rightarrow> nat \<times> drift_row list" where
  "drift_compact bare full_resolution_seconds now rows =
     (let cutoff = day_start (now - full_resolution_seconds);
          old = filter (\<lambda>r. dr_bucket_start r < cutoff) rows;
          groups = remdups (map drift_group old);
          members = (\<lambda>g. filter (\<lambda>r. drift_group r = g) old);
          pending = filter (\<lambda>g. length (members g) > 1 \<or> list_ex (\<lambda>r. dr_bucket_start r \<noteq> snd g) (members g)) groups
      in if pending = [] then (0, rows)
         else (sum_list (map (\<lambda>g. length (members g)) pending) - length pending,
               filter (\<lambda>r. \<not> list_ex (\<lambda>g. dr_public_key r = fst g \<and> snd g \<le> dr_bucket_start r \<and> dr_bucket_start r < snd g + DAY_SECONDS) pending) rows
                 @ map (\<lambda>g. day_row bare (snd g) (members g)) pending))"

section \<open>Promotion of placeholders\<close>

definition earlier :: "int option \<Rightarrow> int option \<Rightarrow> int option" where
  "earlier new old =
     (case new of None \<Rightarrow> old
      | Some n \<Rightarrow> (case old of None \<Rightarrow> Some n | Some x \<Rightarrow> if n < x then Some n else Some x))"

definition migrate_child_rows :: "string \<Rightarrow> string \<Rightarrow> history_db \<Rightarrow> history_db" where
  "migrate_child_rows old_key new_key db =
     (let names = fold (\<lambda>r. upsert_row same_name
                    (\<lambda>x y. y\<lparr>nh_first_seen := min (nh_first_seen y) (nh_first_seen x), nh_last_seen := max (nh_last_seen y) (nh_last_seen x)\<rparr>)
                    (r\<lparr>nh_public_key := new_key\<rparr>)) (filter (\<lambda>r. nh_public_key r = old_key) (hd_names db)) (hd_names db);
          paths = fold (\<lambda>r. upsert_row same_path
                    (\<lambda>x y. y\<lparr>ap_first_seen := min (ap_first_seen y) (ap_first_seen x), ap_last_seen := max (ap_last_seen y) (ap_last_seen x),
                             ap_heard_count := ap_heard_count y + ap_heard_count x\<rparr>)
                    (r\<lparr>ap_public_key := new_key\<rparr>)) (filter (\<lambda>r. ap_public_key r = old_key) (hd_paths db)) (hd_paths db)
      in db\<lparr>hd_names := filter (\<lambda>r. nh_public_key r \<noteq> old_key) names, hd_paths := filter (\<lambda>r. ap_public_key r \<noteq> old_key) paths\<rparr>)"

text \<open>Deleting a contact takes its drift rows along. \<open>ph\<close> is the placeholder as it was selected.\<close>

definition promote_one :: "string \<Rightarrow> contact_row \<Rightarrow> string list \<times> history_db \<Rightarrow> string list \<times> history_db" where
  "promote_one full_key ph acc =
     (case acc of (promoted, db) \<Rightarrow>
        let old_key = ro_public_key ph
        in if old_key = full_key then acc
           else if length (filter (\<lambda>c. length (ro_public_key c) = 64 \<and> like_prefix old_key (ro_public_key c)) (hd_contacts db)) \<noteq> 1 then acc
           else
             let db1 = migrate_child_rows old_key full_key db
             in (promoted @ [old_key],
                 db1\<lparr>hd_contacts := filter (\<lambda>r. ro_public_key r \<noteq> old_key)
                       (map (\<lambda>r. if ro_public_key r = full_key
                                 then r\<lparr>ro_last_seen := later (ro_last_seen ph) (ro_last_seen r),
                                        ro_last_contacted := later (ro_last_contacted ph) (ro_last_contacted r),
                                        ro_first_seen := earlier (ro_first_seen ph) (ro_first_seen r)\<rparr>
                                 else r) (hd_contacts db1)),
                     hd_drift := filter (\<lambda>r. dr_public_key r \<noteq> old_key) (hd_drift db1)\<rparr>))"

text \<open>\<open>ORDER BY length(public_key) DESC, public_key\<close>: prefixes of one key with the same length are the same, so the length decides.\<close>

definition promote_prefix_placeholders :: "string \<Rightarrow> history_db \<Rightarrow> string list \<times> history_db" where
  "promote_prefix_placeholders full_key db =
     (let key = lower full_key;
          rows = sort_key (\<lambda>r. 64 - length (ro_public_key r))
            (filter (\<lambda>r. length (ro_public_key r) < 64 \<and> like_prefix (ro_public_key r) key) (hd_contacts db))
      in fold (promote_one key) rows ([], db))"

section \<open>What compaction keeps\<close>

definition day_summary :: "string \<times> int \<Rightarrow> drift_row list \<Rightarrow> nat \<times> int option" where
  "day_summary g rows = (let xs = filter (\<lambda>r. drift_group r = g) rows
     in (sum_list (map dr_sample_count xs), if xs = [] then None else Some (Max (set (map dr_drift_seconds xs)))))"

definition same_reading :: "drift_row \<Rightarrow> drift_row \<Rightarrow> bool" where
  "same_reading x r \<longleftrightarrow> dr_public_key x = dr_public_key r \<and> dr_drift_seconds x = dr_drift_seconds r \<and> dr_observed_at x = dr_observed_at r
     \<and> dr_advert_timestamp x = dr_advert_timestamp r \<and> dr_path_len x = dr_path_len r"

text \<open>The columns of a row that belong to one arrival.\<close>

definition same_arrival :: "drift_row \<Rightarrow> drift_row \<Rightarrow> bool" where
  "same_arrival x r \<longleftrightarrow> drift_group x = drift_group r \<and> dr_observed_at x = dr_observed_at r
     \<and> dr_advert_timestamp x = dr_advert_timestamp r \<and> dr_path_len x = dr_path_len r"

definition of_maximum :: "drift_row list \<Rightarrow> drift_row \<Rightarrow> bool" where
  "of_maximum rows r \<longleftrightarrow> r \<in> set rows \<and> dr_drift_seconds r = Max (set (map dr_drift_seconds rows))"

definition of_minimum :: "drift_row list \<Rightarrow> drift_row \<Rightarrow> bool" where
  "of_minimum rows r \<longleftrightarrow> r \<in> set rows \<and> dr_bucket_start r = Min (set (map dr_bucket_start rows))"

definition bare_columns :: "(drift_row list \<Rightarrow> drift_row) \<Rightarrow> bool" where
  "bare_columns bare \<longleftrightarrow> (\<forall>rows. rows \<noteq> [] \<longrightarrow> of_maximum rows (bare rows) \<or> of_minimum rows (bare rows))"

lemma bare_member: "bare_columns bare \<Longrightarrow> xs \<noteq> [] \<Longrightarrow> bare xs \<in> set xs"
  by (auto simp: bare_columns_def of_maximum_def of_minimum_def)

lemma div_range:
  fixes b k D :: int
  assumes "0 < D"
  shows "(k * D \<le> b \<and> b < k * D + D) = (b div D * D = k * D)"
proof -
  have "(k * D \<le> b \<and> b < k * D + D) = (b div D = k)"
  proof
    assume "k * D \<le> b \<and> b < k * D + D"
    then show "b div D = k" by (intro int_div_pos_eq [of b D k "b - k * D"]) (auto simp: mult.commute)
  next
    assume k: "b div D = k"
    show "k * D \<le> b \<and> b < k * D + D" using pos_mod_sign [OF assms, of b] pos_mod_bound [OF assms, of b] minus_div_mult_eq_mod [of b D] by (simp add: k)
  qed
  then show ?thesis using assms by simp
qed

lemma day_range: "snd g = d div DAY_SECONDS * DAY_SECONDS \<Longrightarrow>
    (snd g \<le> b \<and> b < snd g + DAY_SECONDS) = (b div DAY_SECONDS * DAY_SECONDS = snd g)" for b d :: int
  using div_range [of DAY_SECONDS "d div DAY_SECONDS" b] by (simp add: DAY_SECONDS_def)

definition merged_days :: "(drift_row list \<Rightarrow> drift_row) \<Rightarrow> (string \<times> int) list \<Rightarrow> drift_row list \<Rightarrow> drift_row list" where
  "merged_days bare pending rows = filter (\<lambda>r. drift_group r \<notin> set pending) rows
     @ map (\<lambda>g. day_row bare (snd g) (filter (\<lambda>r. drift_group r = g) rows)) pending"

lemma day_row_group:
  assumes bare: "bare_columns bare" and "g \<in> set (map drift_group rows)"
  shows "drift_group (day_row bare (snd g) (filter (\<lambda>r. drift_group r = g) rows)) = g"
proof -
  let ?xs = "filter (\<lambda>r. drift_group r = g) rows"
  have "bare ?xs \<in> set ?xs" by (rule bare_member [OF bare]) (use assms(2) in \<open>auto simp: filter_empty_conv\<close>)
  then have "drift_group (bare ?xs) = g" by simp
  then have b: "dr_public_key (bare ?xs) = fst g" "snd g = drift_day (bare ?xs)" by (metis drift_group_def fst_conv, metis drift_group_def snd_conv)
  have "snd g div DAY_SECONDS * DAY_SECONDS = snd g" unfolding b(2) drift_day_def by (simp add: DAY_SECONDS_def)
  then show ?thesis using b(1) by (simp add: drift_group_def day_row_def drift_day_def)
qed

lemma merged_group:
  assumes bare: "bare_columns bare" and "distinct pending" and "set pending \<subseteq> set (map drift_group rows)"
  shows "filter (\<lambda>r. drift_group r = g) (merged_days bare pending rows)
    = (if g \<in> set pending then [day_row bare (snd g) (filter (\<lambda>r. drift_group r = g) rows)] else filter (\<lambda>r. drift_group r = g) rows)"
proof -
  have f: "filter (\<lambda>r. drift_group r = g) (map (\<lambda>g. day_row bare (snd g) (filter (\<lambda>r. drift_group r = g) rows)) ps)
      = (if g \<in> set ps then [day_row bare (snd g) (filter (\<lambda>r. drift_group r = g) rows)] else [])" if "distinct ps" "set ps \<subseteq> set (map drift_group rows)" for ps
    using that by (induction ps) (auto simp: day_row_group [OF bare])
  show ?thesis
  proof (cases "g \<in> set pending")
    case True
    then have "filter (\<lambda>r. drift_group r = g) (filter (\<lambda>r. drift_group r \<notin> set pending) rows) = []" by (auto simp: filter_empty_conv)
    then show ?thesis using True f [OF assms(2,3)] by (simp add: merged_days_def)
  next
    case False
    then have "filter (\<lambda>r. drift_group r = g) (filter (\<lambda>r. drift_group r \<notin> set pending) rows) = filter (\<lambda>r. drift_group r = g) rows"
      by (auto simp: filter_filter intro!: filter_cong)
    then show ?thesis using False f [OF assms(2,3)] by (simp add: merged_days_def)
  qed
qed

lemma grouped_length:
  assumes "distinct pending"
  shows "length (filter (\<lambda>r. drift_group r \<in> set pending) rows) = sum_list (map (\<lambda>g. length (filter (\<lambda>r. drift_group r = g) rows)) pending)"
  using assms
proof (induction pending)
  case (Cons g ps)
  have "length (filter (\<lambda>r. drift_group r \<in> set (g # ps)) rows) = length (filter (\<lambda>r. drift_group r = g) rows) + length (filter (\<lambda>r. drift_group r \<in> set ps) rows)"
    using Cons.prems by (induction rows) auto
  then show ?case using Cons by simp
qed simp

lemma merged_length:
  assumes "distinct pending" and "set pending \<subseteq> set (map drift_group rows)"
  shows "length (merged_days bare pending rows) + (sum_list (map (\<lambda>g. length (filter (\<lambda>r. drift_group r = g) rows)) pending) - length pending) = length rows"
proof -
  have "length pending \<le> sum_list (map (\<lambda>g. length (filter (\<lambda>r. drift_group r = g) rows)) pending)"
    using assms(2)
  proof (induction pending)
    case (Cons g ps)
    have "filter (\<lambda>r. drift_group r = g) rows \<noteq> []" using Cons.prems by (auto simp: filter_empty_conv)
    then have "1 \<le> length (filter (\<lambda>r. drift_group r = g) rows)" by (simp add: Suc_le_eq)
    then show ?case using Cons by simp
  qed simp
  then show ?thesis using grouped_length [OF assms(1), of rows] sum_length_filter_compl [of "\<lambda>r. drift_group r \<in> set pending" rows]
    by (simp add: merged_days_def)
qed

lemma merged_summary:
  assumes bare: "bare_columns bare" and "distinct pending" and "set pending \<subseteq> set (map drift_group rows)"
  shows "day_summary g (merged_days bare pending rows) = day_summary g rows"
proof (cases "g \<in> set pending")
  case True
  then have ne: "filter (\<lambda>r. drift_group r = g) rows \<noteq> []" using assms(3) by (auto simp: filter_empty_conv)
  show ?thesis unfolding day_summary_def merged_group [OF assms] using True ne by (simp add: Let_def day_row_def)
qed (simp add: day_summary_def merged_group [OF assms])

lemma merged_arrivals:
  assumes bare: "bare_columns bare" and "set pending \<subseteq> set (map drift_group rows)"
  shows "list_all (\<lambda>x. list_ex (same_arrival x) rows) (merged_days bare pending rows)"
proof -
  have "list_ex (same_arrival (day_row bare (snd g) (filter (\<lambda>r. drift_group r = g) rows))) rows" if "g \<in> set pending" for g
  proof -
    let ?xs = "filter (\<lambda>r. drift_group r = g) rows"
    have g: "g \<in> set (map drift_group rows)" using that assms(2) by blast
    then have "bare ?xs \<in> set ?xs" by (intro bare_member [OF bare]) (auto simp: filter_empty_conv)
    moreover from this have "same_arrival (day_row bare (snd g) ?xs) (bare ?xs)" using day_row_group [OF bare g] by (simp add: same_arrival_def) (simp add: day_row_def)
    ultimately show ?thesis by (auto simp: list_ex_iff)
  qed
  then show ?thesis by (auto simp: merged_days_def list_all_iff list_ex_iff same_arrival_def)
qed

lemma merged_readings:
  assumes "\<forall>rows. rows \<noteq> [] \<longrightarrow> of_maximum rows (bare rows)" and "set pending \<subseteq> set (map drift_group rows)"
  shows "list_all (\<lambda>x. list_ex (same_reading x) rows) (merged_days bare pending rows)"
proof -
  have "list_ex (same_reading (day_row bare (snd g) (filter (\<lambda>r. drift_group r = g) rows))) rows" if "g \<in> set pending" for g
  proof -
    have "filter (\<lambda>r. drift_group r = g) rows \<noteq> []" using that assms(2) by (auto simp: filter_empty_conv)
    then have "of_maximum (filter (\<lambda>r. drift_group r = g) rows) (bare (filter (\<lambda>r. drift_group r = g) rows))" using assms(1) by blast
    then show ?thesis by (auto simp: list_ex_iff same_reading_def day_row_def of_maximum_def)
  qed
  then show ?thesis by (auto simp: merged_days_def list_all_iff list_ex_iff same_reading_def)
qed

definition due_days :: "int \<Rightarrow> drift_row list \<Rightarrow> (string \<times> int) list" where
  "due_days cutoff rows =
     filter (\<lambda>g. length (filter (\<lambda>r. drift_group r = g) rows) > 1 \<or> list_ex (\<lambda>r. dr_bucket_start r \<noteq> snd g) (filter (\<lambda>r. drift_group r = g) rows))
       (remdups (map drift_group (filter (\<lambda>r. dr_bucket_start r < cutoff) rows)))"

lemma div_less_iff:
  fixes b k D :: int
  assumes "0 < D"
  shows "b < k * D \<longleftrightarrow> b div D < k"
proof
  assume "b < k * D"
  moreover have "b div D * D \<le> b" using pos_mod_sign [OF assms, of b] minus_div_mult_eq_mod [of b D] by linarith
  ultimately have "b div D * D < k * D" by linarith
  then show "b div D < k" using assms by (simp add: mult_less_cancel_right)
next
  assume "b div D < k"
  then have "(b div D + 1) * D \<le> k * D" using assms by (intro mult_right_mono) auto
  then show "b < k * D" using pos_mod_bound [OF assms, of b] minus_div_mult_eq_mod [of b D] by (simp add: distrib_right)
qed

text \<open>The cutoff is a midnight, so a day is old as a whole.\<close>

lemma old_day: "cutoff = day_start t \<Longrightarrow> dr_bucket_start r < cutoff \<longleftrightarrow> drift_day r < cutoff"
  using div_less_iff [of DAY_SECONDS "dr_bucket_start r" "t div DAY_SECONDS"] by (simp add: day_start_def drift_day_def DAY_SECONDS_def)

lemma old_members:
  assumes "cutoff = day_start t" and "g \<in> set (map drift_group (filter (\<lambda>r. dr_bucket_start r < cutoff) rows))"
  shows "filter (\<lambda>r. drift_group r = g) (filter (\<lambda>r. dr_bucket_start r < cutoff) rows) = filter (\<lambda>r. drift_group r = g) rows"
proof -
  have "snd g < cutoff" using assms(2) old_day [OF assms(1)] by (auto simp: drift_group_def)
  then have "dr_bucket_start r < cutoff" if "drift_group r = g" for r using that old_day [OF assms(1), of r] by (metis drift_group_def snd_conv)
  then show ?thesis unfolding filter_filter by (intro filter_cong) auto
qed

lemma compact_merges:
  assumes "cutoff = day_start (now - horizon)"
  shows "drift_compact bare horizon now rows = (if due_days cutoff rows = [] then (0, rows)
    else (sum_list (map (\<lambda>g. length (filter (\<lambda>r. drift_group r = g) rows)) (due_days cutoff rows)) - length (due_days cutoff rows), merged_days bare (due_days cutoff rows) rows))"
proof -
  define old where "old = filter (\<lambda>r. dr_bucket_start r < cutoff) rows"
  define groups where "groups = remdups (map drift_group old)"
  have m: "filter (\<lambda>r. drift_group r = g) old = filter (\<lambda>r. drift_group r = g) rows" if "g \<in> set groups" for g
    unfolding old_def by (rule old_members [OF assms]) (use that in \<open>simp add: groups_def old_def\<close>)
  have p: "filter (\<lambda>g. length (filter (\<lambda>r. drift_group r = g) old) > 1 \<or> list_ex (\<lambda>r. dr_bucket_start r \<noteq> snd g) (filter (\<lambda>r. drift_group r = g) old)) groups
      = due_days cutoff rows" unfolding due_days_def old_def [symmetric] groups_def [symmetric] by (rule filter_cong) (simp_all add: m)
  have sub: "set (due_days cutoff rows) \<subseteq> set groups" by (auto simp: due_days_def groups_def old_def)
  have al: "\<exists>d. snd g = d div DAY_SECONDS * DAY_SECONDS" if due: "g \<in> set (due_days cutoff rows)" for g
  proof -
    obtain r where "drift_group r = g" using due sub by (auto simp: groups_def)
    then show ?thesis by (intro exI [of _ "dr_bucket_start r"]) (auto simp: drift_group_def drift_day_def)
  qed
  have del: "list_ex (\<lambda>g. dr_public_key r = fst g \<and> snd g \<le> dr_bucket_start r \<and> dr_bucket_start r < snd g + DAY_SECONDS) (due_days cutoff rows)
      \<longleftrightarrow> drift_group r \<in> set (due_days cutoff rows)" for r
  proof -
    have "(snd g \<le> dr_bucket_start r \<and> dr_bucket_start r < snd g + DAY_SECONDS) = (drift_day r = snd g)" if "g \<in> set (due_days cutoff rows)" for g
      using al [OF that] day_range by (metis drift_day_def)
    then have "list_ex (\<lambda>g. dr_public_key r = fst g \<and> snd g \<le> dr_bucket_start r \<and> dr_bucket_start r < snd g + DAY_SECONDS) (due_days cutoff rows)
      \<longleftrightarrow> (\<exists>g \<in> set (due_days cutoff rows). g = drift_group r)" by (force simp: list_ex_iff drift_group_def)
    then show ?thesis by simp
  qed
  have mem: "map (\<lambda>g. length (filter (\<lambda>r. drift_group r = g) old)) (due_days cutoff rows) = map (\<lambda>g. length (filter (\<lambda>r. drift_group r = g) rows)) (due_days cutoff rows)"
    "map (\<lambda>g. day_row bare (snd g) (filter (\<lambda>r. drift_group r = g) old)) (due_days cutoff rows) = map (\<lambda>g. day_row bare (snd g) (filter (\<lambda>r. drift_group r = g) rows)) (due_days cutoff rows)"
    using m sub by (auto intro!: map_cong)
  show ?thesis
    unfolding drift_compact_def Let_def assms [symmetric] old_def [symmetric] groups_def [symmetric] p del mem merged_days_def by (rule refl)
qed

lemma due_days_wf: "distinct (due_days cutoff rows)" "set (due_days cutoff rows) \<subseteq> set (map drift_group rows)"
  by (auto simp: due_days_def)

lemma merged_not_due:
  assumes bare: "bare_columns bare"
  shows "due_days cutoff (merged_days bare (due_days cutoff rows) rows) = []"
proof -
  let ?d = "due_days cutoff rows" and ?rows = "merged_days bare (due_days cutoff rows) rows"
  have "\<not> (length (filter (\<lambda>r. drift_group r = g) ?rows) > 1 \<or> list_ex (\<lambda>r. dr_bucket_start r \<noteq> snd g) (filter (\<lambda>r. drift_group r = g) ?rows))"
    if g: "g \<in> set (map drift_group (filter (\<lambda>r. dr_bucket_start r < cutoff) ?rows))" for g
  proof (cases "g \<in> set ?d")
    case True
    then show ?thesis unfolding merged_group [OF bare due_days_wf] by (simp add: day_row_def)
  next
    case False
    obtain x where x: "x \<in> set ?rows" "dr_bucket_start x < cutoff" "drift_group x = g" using g by auto
    then have "x \<in> set (filter (\<lambda>r. drift_group r = g) ?rows)" by simp
    then have "x \<in> set (filter (\<lambda>r. drift_group r = g) rows)" unfolding merged_group [OF bare due_days_wf] using False by simp
    then have "g \<in> set (remdups (map drift_group (filter (\<lambda>r. dr_bucket_start r < cutoff) rows)))" using x by auto
    then show ?thesis unfolding merged_group [OF bare due_days_wf] using False by (auto simp: due_days_def)
  qed
  then show ?thesis by (auto simp: due_days_def filter_empty_conv)
qed

text \<open>C26: Compacting the clock readings loses nothing it promises to keep, whichever of the two rows the database takes the bare columns from: for
  every contact and day the number of samples and the largest drift stay, the times and the path length of every row that is left are those of one
  arrival of that contact and day, the count it returns is the number of rows that went, and a second run changes nothing. If the bare
  columns come from the row of the maximum, every row that is left is a reading that was taken.\<close>

theorem drift_compact_faithful:
  assumes "bare_columns bare"
  shows "case drift_compact bare horizon now rows of (n, rows') \<Rightarrow>
     (\<forall>g. day_summary g rows' = day_summary g rows) \<and> list_all (\<lambda>x. list_ex (same_arrival x) rows) rows'
     \<and> length rows' + n = length rows \<and> drift_compact bare horizon now rows' = (0, rows')
     \<and> ((\<forall>rows. rows \<noteq> [] \<longrightarrow> of_maximum rows (bare rows)) \<longrightarrow> list_all (\<lambda>x. list_ex (same_reading x) rows) rows')"
proof -
  define cutoff where "cutoff = day_start (now - horizon)"
  note c = compact_merges [OF cutoff_def]
  show ?thesis
  proof (cases "due_days cutoff rows = []")
    case True
    then show ?thesis by (simp add: c list_all_iff list_ex_iff same_reading_def same_arrival_def) blast
  next
    case False
    show ?thesis unfolding c [of bare rows]
      using False merged_summary [OF assms due_days_wf] merged_arrivals [OF assms due_days_wf(2)] merged_length [OF due_days_wf]
        merged_readings [OF _ due_days_wf(2)] c [of bare "merged_days bare (due_days cutoff rows) rows"] merged_not_due [OF assms] by simp
  qed
qed

definition earliest_row :: "drift_row list \<Rightarrow> drift_row" where
  "earliest_row rows = foldl (\<lambda>a r. if dr_bucket_start r < dr_bucket_start a then r else a) (hd rows) (tl rows)"

lemma earliest_fold:
  fixes x :: drift_row and xs :: "drift_row list"
  defines "b \<equiv> foldl (\<lambda>a r. if dr_bucket_start r < dr_bucket_start a then r else a) x xs"
  shows "b \<in> set (x # xs) \<and> (\<forall>r \<in> set (x # xs). dr_bucket_start b \<le> dr_bucket_start r)"
  unfolding b_def
proof (induction xs arbitrary: x)
  case (Cons y xs)
  show ?case
  proof (cases "dr_bucket_start y < dr_bucket_start x")
    case True
    then show ?thesis using Cons.IH [of y] by auto
  next
    case False
    then show ?thesis using Cons.IH [of x] by auto
  qed
qed simp

lemma earliest_row_bare: "bare_columns earliest_row"
proof -
  have "of_minimum rows (earliest_row rows)" if "rows \<noteq> []" for rows
  proof -
    have e: "earliest_row rows \<in> set rows" "\<forall>r \<in> set rows. dr_bucket_start (earliest_row rows) \<le> dr_bucket_start r"
      using earliest_fold [of "hd rows" "tl rows"] that by (simp_all add: earliest_row_def)
    have "Min (set (map dr_bucket_start rows)) = dr_bucket_start (earliest_row rows)" using e by (intro Min_eqI) auto
    then show ?thesis using e(1) by (simp add: of_minimum_def)
  qed
  then show ?thesis by (simp add: bare_columns_def)
qed

text \<open>Two hours of one day, the later one with the larger drift.\<close>

definition two_hours :: "drift_row list" where
  "two_hours =
    [\<lparr>dr_public_key = ''ab'', dr_bucket_start = 3600, dr_drift_seconds = - 5, dr_observed_at = 3700, dr_advert_timestamp = 3695, dr_path_len = 1, dr_sample_count = 2\<rparr>,
     \<lparr>dr_public_key = ''ab'', dr_bucket_start = 7200, dr_drift_seconds = 9, dr_observed_at = 7300, dr_advert_timestamp = 7309, dr_path_len = 0, dr_sample_count = 4\<rparr>]"

theorem drift_compact_faithful_witness:
  "bare_columns earliest_row \<and> drift_compact earliest_row 0 864000 two_hours
     = (1, [\<lparr>dr_public_key = ''ab'', dr_bucket_start = 0, dr_drift_seconds = 9, dr_observed_at = 3700, dr_advert_timestamp = 3695, dr_path_len = 1, dr_sample_count = 6\<rparr>])
   \<and> (\<forall>g. day_summary g (snd (drift_compact earliest_row 0 864000 two_hours)) = day_summary g two_hours)"
proof -
  have "drift_compact earliest_row 0 864000 two_hours
     = (1, [\<lparr>dr_public_key = ''ab'', dr_bucket_start = 0, dr_drift_seconds = 9, dr_observed_at = 3700, dr_advert_timestamp = 3695, dr_path_len = 1, dr_sample_count = 6\<rparr>])"
    by code_simp
  then show ?thesis using drift_compact_faithful [OF earliest_row_bare, where horizon = 0 and now = 864000 and rows = two_hours] earliest_row_bare by simp
qed

text \<open>With the other choice of the row, the merged row is not a reading that was taken.\<close>

lemma mixed_reading: "\<not> list_all (\<lambda>x. list_ex (same_reading x) two_hours) (snd (drift_compact earliest_row 0 864000 two_hours))"
  by code_simp

section \<open>What the contact table keeps\<close>

text \<open>Every write of the contact table, the promotion of placeholders included. What a promotion does to the contacts depends on the contacts alone.\<close>

definition promote_contacts :: "string \<Rightarrow> contact_row list \<Rightarrow> contact_row list" where
  "promote_contacts full_key rows =
     hd_contacts (snd (promote_prefix_placeholders full_key \<lparr>hd_contacts = rows, hd_names = [], hd_paths = [], hd_drift = []\<rparr>))"

datatype table_op = Row contact_op | Promote string

fun table_step :: "table_op \<Rightarrow> contact_row list \<Rightarrow> contact_row list" where
  "table_step (Row e) rows = contact_step e rows"
| "table_step (Promote full_key) rows = promote_contacts full_key rows"

fun table_spares :: "string \<Rightarrow> table_op \<Rightarrow> bool" where
  "table_spares k (Row e) \<longleftrightarrow> spares k e"
| "table_spares k (Promote full_key) \<longleftrightarrow> True"

lemma migrate_contacts [simp]: "hd_contacts (migrate_child_rows a b db) = hd_contacts db"
  by (simp add: migrate_child_rows_def Let_def)

definition absorb_placeholder :: "string \<Rightarrow> contact_row \<Rightarrow> contact_row \<Rightarrow> contact_row" where
  "absorb_placeholder full_key ph r =
     (if ro_public_key r = full_key
      then r\<lparr>ro_last_seen := later (ro_last_seen ph) (ro_last_seen r), ro_last_contacted := later (ro_last_contacted ph) (ro_last_contacted r),
             ro_first_seen := earlier (ro_first_seen ph) (ro_first_seen r)\<rparr>
      else r)"

lemma promote_one_contacts:
  assumes "promote_one full_key ph (ps, db) = (ps', db')"
  shows "hd_contacts db' = hd_contacts db
    \<or> hd_contacts db' = filter (\<lambda>r. ro_public_key r \<noteq> ro_public_key ph) (map (absorb_placeholder full_key ph) (hd_contacts db))"
  using assms by (auto simp: promote_one_def Let_def absorb_placeholder_def [abs_def] split: if_splits)

lemma absorb_key [simp]: "ro_public_key (absorb_placeholder full_key ph r) = ro_public_key r"
  by (simp add: absorb_placeholder_def)

lemma absorb_knows: "knows_more r (absorb_placeholder full_key ph r)"
proof -
  have "known_stays a (later b a)" "not_later c (earlier d c)" for a b c d :: "int option"
    by (auto simp: known_stays_def later_def not_later_def earlier_def split: option.splits)
  then show ?thesis by (simp add: absorb_placeholder_def knows_more_def)
qed

lemma row_by_key_others: "old \<noteq> lower k \<Longrightarrow> row_by_key k (filter (\<lambda>r. ro_public_key r \<noteq> old) rows) = row_by_key k rows"
  by (induction rows) (auto simp: row_by_key_def)

lemma contacts_ok_filter: "contacts_ok rows \<Longrightarrow> contacts_ok (filter P rows)"
  by (auto simp: contacts_ok_def distinct_map_filter)

lemma promotes_keep:
  assumes "contacts_ok (hd_contacts db)" and "row_by_key k (hd_contacts db) = Some r" and "list_all (\<lambda>ph. ro_public_key ph \<noteq> lower k) phs"
  shows "contacts_ok (hd_contacts (snd (fold (promote_one full_key) phs (ps, db))))
    \<and> (\<exists>r'. row_by_key k (hd_contacts (snd (fold (promote_one full_key) phs (ps, db)))) = Some r' \<and> knows_more r r')"
  using assms
proof (induction phs arbitrary: ps db r)
  case (Cons ph phs)
  obtain ps1 db1 where one: "promote_one full_key ph (ps, db) = (ps1, db1)" by fastforce
  have ne: "ro_public_key ph \<noteq> lower k" using Cons.prems(3) by simp
  have "contacts_ok (map (absorb_placeholder full_key ph) (hd_contacts db))" by (rule contacts_ok_map [OF Cons.prems(1)]) simp
  then have ok: "contacts_ok (hd_contacts db1)" using promote_one_contacts [OF one] Cons.prems(1) contacts_ok_filter by auto
  obtain r1 where r1: "row_by_key k (hd_contacts db1) = Some r1" "knows_more r r1"
    using promote_one_contacts [OF one] Cons.prems(2) map_step_knows [OF Cons.prems(2), of "absorb_placeholder full_key ph"] absorb_knows row_by_key_others [OF ne] by auto
  obtain r2 where "contacts_ok (hd_contacts (snd (fold (promote_one full_key) phs (ps1, db1))))"
      "row_by_key k (hd_contacts (snd (fold (promote_one full_key) phs (ps1, db1)))) = Some r2" "knows_more r1 r2"
    using Cons.IH [OF ok r1(1)] Cons.prems(3) by auto
  then show ?case using one knows_more_trans [OF r1(2)] by auto
qed simp

lemma promotes_ok:
  "contacts_ok (hd_contacts db) \<Longrightarrow> contacts_ok (hd_contacts (snd (fold (promote_one full_key) phs (ps, db))))"
proof (induction phs arbitrary: ps db)
  case (Cons ph phs)
  obtain ps1 db1 where one: "promote_one full_key ph (ps, db) = (ps1, db1)" by fastforce
  have "contacts_ok (map (absorb_placeholder full_key ph) (hd_contacts db))" by (rule contacts_ok_map [OF Cons.prems]) simp
  then have "contacts_ok (hd_contacts db1)" using promote_one_contacts [OF one] Cons.prems contacts_ok_filter by auto
  then show ?case using Cons.IH one by simp
qed simp

lemma table_step_ok: "contacts_ok rows \<Longrightarrow> contacts_ok (table_step e rows)"
  by (cases e) (simp_all add: contact_step_ok promote_contacts_def promote_prefix_placeholders_def Let_def promotes_ok)

interpretation contact_table: invariant_machine table_step contacts_ok
  by unfold_locales (rule table_step_ok)

lemma table_step_knows:
  assumes "contacts_ok rows" and "row_by_key k rows = Some r" and "length k = 64" and "table_spares k e"
  shows "\<exists>r'. row_by_key k (table_step e rows) = Some r' \<and> knows_more r r'"
proof (cases e)
  case (Row e')
  then show ?thesis using step_knows assms by simp
next
  case (Promote full_key)
  define phs where "phs = sort_key (\<lambda>r. 64 - length (ro_public_key r))
      (filter (\<lambda>r. length (ro_public_key r) < 64 \<and> like_prefix (ro_public_key r) (lower full_key)) rows)"
  have "length (lower k) = 64" using assms(3) by (simp add: lower_def)
  then have "list_all (\<lambda>ph. ro_public_key ph \<noteq> lower k) phs" by (auto simp: phs_def list_all_iff)
  then show ?thesis using promotes_keep [of "\<lparr>hd_contacts = rows, hd_names = [], hd_paths = [], hd_drift = []\<rparr>" k r phs "lower full_key" "[]"] assms(1,2)
    by (simp add: Promote promote_contacts_def promote_prefix_placeholders_def Let_def phs_def)
qed

lemma table_run_knows:
  "contacts_ok rows \<Longrightarrow> row_by_key k rows = Some r \<Longrightarrow> length k = 64 \<Longrightarrow> list_all (table_spares k) es
     \<Longrightarrow> \<exists>r'. row_by_key k (fold table_step es rows) = Some r' \<and> knows_more r r'"
proof (induction es arbitrary: rows r)
  case (Cons e es)
  then obtain r1 where "row_by_key k (table_step e rows) = Some r1" "knows_more r r1" using table_step_knows [OF Cons.prems(1-3), of e] by auto
  then show ?case using Cons table_step_ok [OF Cons.prems(1)] knows_more_trans by fastforce
qed simp


text \<open>A contact is heard as a placeholder, then with its full key, and the placeholder is promoted.\<close>

definition long_key :: string where
  "long_key = ''ab01'' @ replicate 60 (CHR ''0'')"

definition known_rows :: "contact_row list" where
  "known_rows = fold table_step [Row (Upsert (demo_write ''AB01'')), Row (Upsert ((demo_write long_key)\<lparr>wr_first_seen := Some 9\<rparr>))] []"

lemma known_row:
  "case row_by_key long_key known_rows of None \<Rightarrow> False
   | Some r \<Rightarrow> ro_first_seen r = Some 9 \<and> map_option ro_first_seen (row_by_key long_key (fold table_step [Promote long_key, Row (Delete ''cc'')] known_rows)) = Some (Some 7)"
  by code_simp


end
