(* ===== verification/Region.thy ===== *)
theory Region
  imports Decoder Compression
begin

text \<open>
  Regions of a flood (\<open>src/app/region_scope.py\<close>, \<open>src/app/region_resolver.py\<close>): a transport code is a keyed hash of the payload, so the
  region of a packet is the first known one whose code is the packet's. The cache of derived keys only repeats what is computed.
\<close>

definition UNSCOPED_SENTINELS :: "ustr list" where
  "UNSCOPED_SENTINELS = [utext '''', utext ''0'', utext ''*'']"

definition is_unscoped :: "ustr option \<Rightarrow> bool" where
  "is_unscoped scope \<longleftrightarrow> uni_strip (case scope of None \<Rightarrow> [] | Some s \<Rightarrow> s) \<in> set UNSCOPED_SENTINELS"

definition normalize_region_scope :: "ustr option \<Rightarrow> ustr" where
  "normalize_region_scope scope =
     (let stripped = uni_strip (case scope of None \<Rightarrow> [] | Some s \<Rightarrow> s)
      in if stripped \<in> set UNSCOPED_SENTINELS then []
         else if starts_with (utext ''#'') stripped then stripped
         else utext ''#'' @ stripped)"

definition region_key :: "crypto \<Rightarrow> ustr \<Rightarrow> bytes option" where
  "region_key cr region_name =
     (let normalized = normalize_region_scope (Some region_name)
      in if normalized = [] then None else Some (take 16 (sha256 cr (utf8_encode normalized))))"

definition compute_transport_code :: "crypto \<Rightarrow> ustr \<Rightarrow> nat \<Rightarrow> bytes \<Rightarrow> nat option" where
  "compute_transport_code cr region_name payload_type payload =
     (case region_key cr region_name of
        None \<Rightarrow> None
      | Some key \<Rightarrow>
          let code = from_le (take 2 (hmac_sha256 cr key (byte_of (payload_type mod 256) # payload)))
          in Some (if code = 0 then 1 else if code = 0xFFFF then 0xFFFE else code))"

fun resolve_region :: "crypto \<Rightarrow> nat \<Rightarrow> bytes \<Rightarrow> nat \<Rightarrow> ustr list \<Rightarrow> ustr option" where
  "resolve_region cr payload_type payload transport_code [] = None"
| "resolve_region cr payload_type payload transport_code (name # names) =
     (if name \<noteq> [] \<and> compute_transport_code cr name payload_type payload = Some transport_code then Some name
      else resolve_region cr payload_type payload transport_code names)"

section \<open>What a code names\<close>

lemma dropWhile_idem [simp]: "dropWhile P (dropWhile P s) = dropWhile P s"
  by (induction s) auto

lemma strip_ends: "uni_strip s = [] \<or> \<not> uni_space (hd (uni_strip s)) \<and> \<not> uni_space (last (uni_strip s))"
proof -
  let ?t = "dropWhile uni_space s"
  show ?thesis
  proof (cases "dropWhile uni_space (rev ?t) = []")
    case True
    then show ?thesis by (simp add: uni_strip_def)
  next
    case False
    obtain x xs where x: "dropWhile uni_space (rev ?t) = x # xs" using False by (cases "dropWhile uni_space (rev ?t)") auto
    have l: "last (uni_strip s) = x" using x by (simp add: uni_strip_def)
    have nx: "\<not> uni_space x" using hd_dropWhile [OF False] x by simp
    obtain pre where pre: "rev ?t = pre @ x # xs" using x by (metis takeWhile_dropWhile_id)
    have "rev xs @ [x] \<noteq> []" by simp
    then have "hd (uni_strip s) = hd (rev (rev ?t))" using x pre by (simp add: uni_strip_def hd_append)
    moreover have "?t \<noteq> []" using pre by (metis append_is_Nil_conv list.distinct(1) rev.simps(1))
    ultimately show ?thesis using l nx hd_dropWhile [of uni_space s] by auto
  qed
qed

lemma strip_clean: "s = [] \<or> \<not> uni_space (hd s) \<and> \<not> uni_space (last s) \<Longrightarrow> uni_strip s = s"
proof (cases "s = []")
  case False
  assume "s = [] \<or> \<not> uni_space (hd s) \<and> \<not> uni_space (last s)"
  then have h: "\<not> uni_space (hd s)" "\<not> uni_space (hd (rev s))" using False by (auto simp: hd_rev)
  have d: "dropWhile uni_space t = t" if "t \<noteq> []" "\<not> uni_space (hd t)" for t using that by (cases t) auto
  show ?thesis using d [OF False h(1)] d [of "rev s"] h(2) False by (simp add: uni_strip_def)
qed (simp add: uni_strip_def)

lemma normalize_region_idem: "normalize_region_scope (Some (normalize_region_scope scope)) = normalize_region_scope scope"
proof -
  define t where "t = uni_strip (case scope of None \<Rightarrow> [] | Some s \<Rightarrow> s)"
  have hash: "\<not> uni_space 35" by (simp add: uni_space_def)
  show ?thesis
  proof (cases "t \<in> set UNSCOPED_SENTINELS")
    case True
    then have "normalize_region_scope scope = []" by (simp add: normalize_region_scope_def t_def [symmetric])
    then show ?thesis by (simp add: normalize_region_scope_def UNSCOPED_SENTINELS_def utext_def uni_strip_def)
  next
    case False
    then have ne: "t \<noteq> []" by (auto simp: UNSCOPED_SENTINELS_def utext_def)
    define u where "u = (if starts_with (utext ''#'') t then t else utext ''#'' @ t)"
    have u: "normalize_region_scope scope = u" using False by (simp add: normalize_region_scope_def t_def [symmetric] u_def)
    have e: "\<not> uni_space (hd t) \<and> \<not> uni_space (last t)" using strip_ends [of "case scope of None \<Rightarrow> [] | Some s \<Rightarrow> s"] ne by (simp add: t_def [symmetric])
    have h: "u \<noteq> [] \<and> hd u = 35" using ne by (cases t) (auto simp: u_def utext_def starts_with_def)
    have "\<not> uni_space (last u)" using e ne by (simp add: u_def utext_def)
    then have s: "uni_strip u = u" using h hash by (intro strip_clean) auto
    have "u \<notin> set UNSCOPED_SENTINELS" using h by (auto simp: UNSCOPED_SENTINELS_def utext_def)
    moreover have "starts_with (utext ''#'') u" using h by (cases u) (auto simp: starts_with_def utext_def)
    ultimately show ?thesis unfolding u by (simp add: normalize_region_scope_def s)
  qed
qed

lemma resolve_region_first:
  "resolve_region cr pt payload code names = find (\<lambda>n. n \<noteq> [] \<and> compute_transport_code cr n pt payload = Some code) names"
  by (induction names) auto

lemma transport_code_legal: "compute_transport_code cr n pt payload = Some code \<Longrightarrow> 0 < code \<and> code < 0xFFFF"
proof -
  assume a: "compute_transport_code cr n pt payload = Some code"
  obtain key where k: "region_key cr n = Some key" using a by (auto simp: compute_transport_code_def split: option.splits)
  let ?d = "take 2 (hmac_sha256 cr key (byte_of (pt mod 256) # payload))"
  have "from_le ?d < 256 ^ length ?d" by (rule from_le_less)
  also have "256 ^ length ?d \<le> (256 ^ 2 :: nat)" by (rule power_increasing) auto
  finally show ?thesis using a by (auto simp: compute_transport_code_def k Let_def split: if_splits)
qed



end
