(* ===== verification/PacketProcessor.thy ===== *)
theory PacketProcessor
  imports MessageIngest VnForward ContactHistory Region
begin

text \<open>
  The entry point of every packet heard (\<open>src/app/packet_processor.py\<close>) with the reconciliation of a contact's messages
  (\<open>src/app/services/contact_reconciliation.py\<close>). A packet is archived, parsed, and handed to the handler of its type; the handlers
  decrypt with every key in hand and write the message and contact tables. An acknowledgement goes through the tracker
  of theory \<open>DmDelivery\<close>, whose two tables are part of the state; what goes to other components is an event: channel data (\<open>ChannelData\<close>,
  \<open>VnForward\<close>), a sweep over old packets. Log lines and packet hashes are
  left out, as are the fields a result only repeats (time, bytes, signal, the channel's and the contact's name). The time of a packet is the
  one it was given, or the clock's; the tracker reads the clock itself, and its reading while a packet is handled is a function of the
  packet's number. What a handler wrote before it raised stays written.
\<close>

section \<open>State\<close>

record packet_env =
  pe_ingest :: ingest_env
  pe_crypto :: crypto
  pe_isalnum :: "nat \<Rightarrow> bool"
  pe_private_key :: "bytes option"
  pe_public_key :: "bytes option"
  pe_identity :: "(string \<times> ustr) option"
  pe_known_regions :: "ustr list"
  pe_discovery_blocked_types :: "int list"
  pe_auto_decrypt_dm_on_advert :: bool
  pe_clock :: "nat \<Rightarrow> real"

record packet_result =
  rs_packet_id :: nat
  rs_payload_type :: "PayloadType option"
  rs_decrypted :: bool
  rs_message_id :: "nat option"
  rs_channel_key :: "string option"
  rs_contact_key :: "string option"
  rs_sender :: "ustr option"
  rs_sender_timestamp :: "nat option"
  rs_message :: "ustr option"

datatype packet_event =
    RawPacket nat nat int bytes packet_result "nat option" "ustr option"
  | MessageAcked int nat
  | ChannelBlob string nat bytes
  | ContactChanged Contact
  | ContactResolved string Contact
  | SweepRequested string "ustr option"
  | SweepRefused

record packet_state =
  ps_store :: store
  ps_names :: "name_row list"
  ps_paths :: "advert_path_row list"
  ps_drift :: "drift_row list"
  ps_channels :: "Channel list"
  ps_observations :: nat
  ps_pending_acks :: "(string \<times> pending_ack) list"
  ps_buffered_acks :: "(string \<times> real) list"
  ps_events :: "packet_event list"

definition publish :: "packet_event \<Rightarrow> packet_state \<Rightarrow> packet_state" where
  "publish e s = s\<lparr>ps_events := ps_events s @ [e]\<rparr>"

definition contacts_of :: "packet_state \<Rightarrow> contact_row list" where
  "contacts_of s = db_contacts (st_db (ps_store s))"

definition set_contacts :: "contact_row list \<Rightarrow> packet_state \<Rightarrow> packet_state" where
  "set_contacts rows s = s\<lparr>ps_store := write_contacts (\<lambda>_. rows) (ps_store s)\<rparr>"

section \<open>Channel packets\<close>

fun first_channel :: "(bytes \<Rightarrow> 'a option) \<Rightarrow> Channel list \<Rightarrow> (Channel \<times> 'a) option" where
  "first_channel decrypt [] = None"
| "first_channel decrypt (c # cs) =
     (case fromhex (cn_key c) of
        None \<Rightarrow> first_channel decrypt cs
      | Some key \<Rightarrow> (case decrypt key of None \<Rightarrow> first_channel decrypt cs | Some d \<Rightarrow> Some (c, d)))"

definition packet_reception :: "nat \<Rightarrow> int \<Rightarrow> PacketInfo \<Rightarrow> int option \<Rightarrow> pyfloat option \<Rightarrow> nat option \<Rightarrow> ustr option \<Rightarrow> reception" where
  "packet_reception packet_id timestamp info rssi snr transport_code region =
     \<lparr>rx_packet_id = Some packet_id, rx_path = Some (hex_of (pi_path info)), rx_received_at = timestamp, rx_path_len = Some (int (pi_path_length info)),
      rx_rssi = rssi, rx_snr = snr, rx_transport_code = transport_code, rx_region = region\<rparr>"

definition process_group_text ::
  "packet_env \<Rightarrow> bytes \<Rightarrow> reception \<Rightarrow> packet_result \<Rightarrow> packet_state \<Rightarrow> packet_result res \<times> packet_state" where
  "process_group_text env raw rx result s =
     (case first_channel (try_decrypt_packet_with_channel_key (pe_crypto env) raw) (ps_channels s) of
        None \<Rightarrow> (Inr result, s)
      | Some (channel, d) \<Rightarrow>
          (case create_message_from_decrypted (pe_ingest env) (cn_key channel) (gt_sender d) (gt_message d) (int (gt_timestamp d)) True None rx (ps_store s) of
             (Inl e, st) \<Rightarrow> (Inl e, s\<lparr>ps_store := st\<rparr>)
           | (Inr i, st) \<Rightarrow>
               (Inr (result\<lparr>rs_decrypted := True, rs_message_id := i, rs_channel_key := Some (cn_key channel), rs_sender := gt_sender d,
                            rs_sender_timestamp := Some (gt_timestamp d), rs_message := Some (gt_message d)\<rparr>), s\<lparr>ps_store := st\<rparr>)))"

definition is_our_own_image_chunk :: "packet_env \<Rightarrow> nat \<Rightarrow> bytes \<Rightarrow> bool" where
  "is_our_own_image_chunk env data_type payload \<longleftrightarrow> data_type = DATA_TYPE_AEIC_IMAGE
     \<and> (case (parse_chunk_blob payload, self_sender_prefix (pe_identity env)) of (Some c, Some ours) \<Rightarrow> ch_sender_prefix c = ours | _ \<Rightarrow> False)"

definition process_group_data :: "packet_env \<Rightarrow> bytes \<Rightarrow> packet_result \<Rightarrow> packet_state \<Rightarrow> packet_result \<times> packet_state" where
  "process_group_data env raw result s =
     (case first_channel (try_decrypt_group_data_packet (pe_crypto env) raw) (ps_channels s) of
        None \<Rightarrow> (result, s)
      | Some (channel, d) \<Rightarrow>
          (result\<lparr>rs_decrypted := True, rs_channel_key := Some (cn_key channel)\<rparr>,
           if is_our_own_image_chunk env (gd_data_type d) (gd_data d) then s
           else publish (ChannelBlob (cn_key channel) (gd_data_type d) (gd_data d)) s))"

section \<open>Advertisements\<close>

definition advert_write :: "ParsedAdvertisement \<Rightarrow> int \<Rightarrow> int \<Rightarrow> contact_write" where
  "advert_write advert contact_type timestamp =
     \<lparr>wr_public_key = lower (pa_public_key advert), wr_name = pa_name advert, wr_type = contact_type, wr_flags = 0, wr_direct_path = None,
      wr_direct_path_len = None, wr_direct_path_hash_mode = None, wr_direct_path_updated_at = None, wr_route_override_path = None,
      wr_route_override_len = None, wr_route_override_hash_mode = None, wr_last_advert = Some timestamp, wr_lat = map_option Finite (pa_lat advert),
      wr_lon = map_option Finite (pa_lon advert), wr_last_seen = Some timestamp, wr_on_radio = None, wr_last_contacted = None,
      wr_first_seen = Some timestamp\<rparr>"

definition promote_prefix_contacts_for_contact :: "string \<Rightarrow> packet_state \<Rightarrow> string list \<times> packet_state" where
  "promote_prefix_contacts_for_contact public_key s =
     (case promote_prefix_placeholders (lower public_key)
             \<lparr>hd_contacts = contacts_of s, hd_names = ps_names s, hd_paths = ps_paths s, hd_drift = ps_drift s\<rparr> of
        (promoted, h) \<Rightarrow>
          (promoted, set_contacts (hd_contacts h) (s\<lparr>ps_names := hd_names h, ps_paths := hd_paths h, ps_drift := hd_drift h\<rparr>)))"

definition reconcile_contact_messages :: "string \<Rightarrow> ustr option \<Rightarrow> packet_state \<Rightarrow> unit res \<times> packet_state" where
  "reconcile_contact_messages public_key contact_name s =
     (case claim_prefix_messages (lower public_key) (st_db (ps_store s)) of
        (Inl e, db1) \<Rightarrow> (Inl e, s\<lparr>ps_store := (ps_store s)\<lparr>st_db := db1\<rparr>\<rparr>)
      | (Inr _, db1) \<Rightarrow>
          let db2 = (case non_empty contact_name of None \<Rightarrow> db1 | Some name \<Rightarrow> snd (backfill_channel_sender_key (lower public_key) name db1))
          in (Inr (), s\<lparr>ps_store := (ps_store s)\<lparr>st_db := db2\<rparr>\<rparr>))"

definition record_contact_name_and_reconcile :: "string \<Rightarrow> ustr option \<Rightarrow> int \<Rightarrow> packet_state \<Rightarrow> unit res \<times> packet_state" where
  "record_contact_name_and_reconcile public_key contact_name timestamp s =
     reconcile_contact_messages public_key contact_name
       (case non_empty contact_name of None \<Rightarrow> s | Some name \<Rightarrow> s\<lparr>ps_names := record_name public_key name timestamp (ps_names s)\<rparr>)"

definition start_historical_dm_decryption :: "packet_env \<Rightarrow> string \<Rightarrow> ustr option \<Rightarrow> packet_state \<Rightarrow> packet_state" where
  "start_historical_dm_decryption env key name s =
     (case pe_private_key env of
        None \<Rightarrow> publish SweepRefused s
      | Some _ \<Rightarrow> (case fromhex key of None \<Rightarrow> s | Some _ \<Rightarrow> publish (SweepRequested (lower key) name) s))"

text \<open>The advert as it is written once it is accepted.\<close>

definition store_advert :: "packet_env \<Rightarrow> ParsedAdvertisement \<Rightarrow> int \<Rightarrow> bool \<Rightarrow> PacketInfo \<Rightarrow> int \<Rightarrow> packet_state \<Rightarrow> unit res \<times> packet_state" where
  "store_advert env advert contact_type is_new info timestamp s =
     (let key = lower (pa_public_key advert);
          s1 = set_contacts (contact_upsert (advert_write advert contact_type timestamp) (contacts_of s)) s;
          s2 = s1\<lparr>ps_drift := drift_record (pa_public_key advert) (int (pa_timestamp advert)) timestamp (int (pi_path_length info)) (ps_drift s1)\<rparr>;
          s3 = s2\<lparr>ps_paths := record_observation key (hex_of (pi_path info)) timestamp 10 (Some (int (pi_path_length info))) (ps_paths s2)\<rparr>;
          (promoted, s4) = promote_prefix_contacts_for_contact (pa_public_key advert) s3
      in case record_contact_name_and_reconcile (pa_public_key advert) (pa_name advert) timestamp s4 of
           (Inl e, s5) \<Rightarrow> (Inl e, s5)
         | (Inr _, s5) \<Rightarrow>
             let s6 = (case get_by_key key (contacts_of s5) of
                         None \<Rightarrow> publish (ContactChanged (row_to_contact (inserted_row (advert_write advert contact_type timestamp)))) s5
                       | Some c \<Rightarrow> fold (\<lambda>old. publish (ContactResolved old c)) promoted (publish (ContactChanged c) s5))
             in (Inr (), if is_new \<and> pe_auto_decrypt_dm_on_advert env then start_historical_dm_decryption env key (pa_name advert) s6 else s6))"

definition process_advertisement :: "packet_env \<Rightarrow> PacketInfo \<Rightarrow> int \<Rightarrow> packet_state \<Rightarrow> unit res \<times> packet_state" where
  "process_advertisement env info timestamp s =
     (case parse_advertisement (pe_isalnum env) (pi_payload info) of
        None \<Rightarrow> (Inr (), s)
      | Some advert \<Rightarrow>
          if \<not> verify_advert_signature (pe_crypto env) (pi_payload info) then (Inr (), s)
          else
            let existing = get_by_key (lower (pa_public_key advert)) (contacts_of s);
                contact_type = (if pa_device_role advert > 0 then int (pa_device_role advert) else (case existing of None \<Rightarrow> 0 | Some c \<Rightarrow> c_type c))
            in if existing = None \<and> contact_type > 0 \<and> contact_type \<in> set (pe_discovery_blocked_types env) then (Inr (), s)
               else store_advert env advert contact_type (existing = None) info timestamp s)"

section \<open>Direct messages\<close>

definition get_by_pubkey_first_byte :: "string \<Rightarrow> contact_row list \<Rightarrow> Contact list" where
  "get_by_pubkey_first_byte hex rows = map row_to_contact (filter (\<lambda>r. take 2 (ro_public_key r) = lower hex) rows)"

fun first_contact :: "(bytes \<Rightarrow> 'a option res) \<Rightarrow> Contact list \<Rightarrow> (Contact \<times> 'a) option res" where
  "first_contact decrypt [] = Inr None"
| "first_contact decrypt (c # cs) =
     (case fromhex (c_public_key c) of
        None \<Rightarrow> first_contact decrypt cs
      | Some key \<Rightarrow>
          (case decrypt key of
             Inl e \<Rightarrow> Inl e
           | Inr None \<Rightarrow> first_contact decrypt cs
           | Inr (Some d) \<Rightarrow> Inr (Some (c, d))))"

text \<open>Whose message it is, by the first bytes of the keys; \<^const>\<open>None\<close>: not ours.\<close>

definition dm_direction :: "byte \<Rightarrow> byte \<Rightarrow> byte \<Rightarrow> bool option" where
  "dm_direction ours dest src =
     (if dest = ours \<and> src \<noteq> ours then Some False
      else if src = ours \<and> dest \<noteq> ours then Some True
      else if dest = ours \<and> src = ours then Some False
      else None)"

definition process_direct_message ::
  "packet_env \<Rightarrow> bytes \<Rightarrow> PacketInfo \<Rightarrow> reception \<Rightarrow> packet_result \<Rightarrow> packet_state \<Rightarrow> packet_result res \<times> packet_state" where
  "process_direct_message env raw info rx result s =
     (case (pe_private_key env, pe_public_key env) of
        (Some private_key, Some our_public_key) \<Rightarrow>
          if length (pi_payload info) < 4 then (Inr result, s)
          else
            let dest = pi_payload info ! 0; src = pi_payload info ! 1
            in (case py_get our_public_key 0 of
                  Inl e \<Rightarrow> (Inl e, s)
                | Inr ours \<Rightarrow>
                    (case dm_direction ours dest src of
                       None \<Rightarrow> (Inr result, s)
                     | Some is_outgoing \<Rightarrow>
                         let candidates = get_by_pubkey_first_byte (hex_byte (if is_outgoing then dest else src)) (contacts_of s)
                         in (case first_contact (\<lambda>key. try_decrypt_dm (pe_crypto env) raw private_key key (if is_outgoing then None else Some our_public_key)) candidates of
                               Inl e \<Rightarrow> (Inl e, s)
                             | Inr None \<Rightarrow> (Inr result, s)
                             | Inr (Some (contact, d)) \<Rightarrow>
                                 let outgoing = (is_outgoing \<or> dest = src \<and> get_by_content MsgPriv (lower (c_public_key contact)) (dm_message d)
                                                   (Some (int (dm_timestamp d))) (Some True) (st_db (ps_store s)) \<noteq> None)
                                 in (case ingest_decrypted_direct_message (pe_ingest env) d (c_public_key contact) outgoing True None rx (ps_store s) of
                                       (Inl e, st) \<Rightarrow> (Inl e, s\<lparr>ps_store := st\<rparr>)
                                     | (Inr m, st) \<Rightarrow>
                                         (Inr (result\<lparr>rs_decrypted := True, rs_message_id := map_option mr_id m, rs_contact_key := Some (c_public_key contact),
                                             rs_sender := (case non_empty (c_name contact) of Some n \<Rightarrow> Some n | None \<Rightarrow> Some (utext (take 12 (c_public_key contact)))),
                                             rs_sender_timestamp := Some (dm_timestamp d), rs_message := Some (dm_message d)\<rparr>),
                                          s\<lparr>ps_store := st\<rparr>)))))
      | _ \<Rightarrow> (Inr result, s))"

section \<open>Returned paths and acknowledgements\<close>

definition payload_code :: "PayloadType \<Rightarrow> nat" where
  "payload_code t = (case t of REQUEST \<Rightarrow> 0 | RESPONSE \<Rightarrow> 1 | TEXT_MESSAGE \<Rightarrow> 2 | ACK \<Rightarrow> 3 | ADVERT \<Rightarrow> 4 | GROUP_TEXT \<Rightarrow> 5 | GROUP_DATA \<Rightarrow> 6
     | ANON_REQUEST \<Rightarrow> 7 | PATH \<Rightarrow> 8 | TRACE \<Rightarrow> 9 | MULTIPART \<Rightarrow> 10 | CONTROL \<Rightarrow> 11 | RAW_CUSTOM \<Rightarrow> 15)"

text \<open>What the tracker works on, its tables and the acknowledgement counts of the message rows, and an arriving code carried through it.\<close>

definition ack_view :: "packet_state \<Rightarrow> dm_world" where
  "ack_view s =
     \<lparr>pending_acks = ps_pending_acks s, buffered_acks = ps_buffered_acks s,
      acked_rows = (\<lambda>i. if i < 0 then None else map_option mr_acked (message_by_id (nat i) (st_db (ps_store s))))\<rparr>"

definition apply_ack :: "string \<Rightarrow> real \<Rightarrow> packet_state \<Rightarrow> packet_state" where
  "apply_ack code now s =
     (case apply_dm_ack_code code now (ack_view s) of
        (matched, w) \<Rightarrow>
          let s1 = s\<lparr>ps_pending_acks := pending_acks w, ps_buffered_acks := buffered_acks w\<rparr>
          in case matched of
               None \<Rightarrow> s1
             | Some (m, acks) \<Rightarrow>
                 publish (MessageAcked m acks)
                   (if m < 0 then s1 else s1\<lparr>ps_store := write_db (\<lambda>db. snd (message_increment_ack (nat m) db)) (ps_store s1)\<rparr>))"

fun learn_paths :: "packet_env \<Rightarrow> bytes \<Rightarrow> bytes \<Rightarrow> bytes \<Rightarrow> int \<Rightarrow> Contact list \<Rightarrow> packet_state \<Rightarrow> unit res \<times> packet_state" where
  "learn_paths env raw private_key our_public_key timestamp [] s = (Inr (), s)"
| "learn_paths env raw private_key our_public_key timestamp (c # cs) s =
     (if length (c_public_key c) \<noteq> 64 then learn_paths env raw private_key our_public_key timestamp cs s
      else case fromhex (c_public_key c) of
             None \<Rightarrow> learn_paths env raw private_key our_public_key timestamp cs s
           | Some key \<Rightarrow>
               (case try_decrypt_path (pe_crypto env) raw private_key key our_public_key of
                  Inl e \<Rightarrow> (Inl e, s)
                | Inr None \<Rightarrow> learn_paths env raw private_key our_public_key timestamp cs s
                | Inr (Some d) \<Rightarrow>
                    let s1 = set_contacts (update_direct_path (c_public_key c) (hex_of (dp_returned_path d)) (int (dp_returned_path_len d))
                               (Some (int (dp_returned_path_hash_mode d))) timestamp (contacts_of s)) s;
                        s2 = (if dp_extra_type d = payload_code ACK \<and> 4 \<le> length (dp_extra d) then apply_ack (hex_of (take 4 (dp_extra d))) (pe_clock env (ps_observations s1)) s1 else s1)
                    in (Inr (), case get_by_key (c_public_key c) (contacts_of s2) of None \<Rightarrow> s2 | Some fresh \<Rightarrow> publish (ContactChanged fresh) s2)))"

definition process_path_packet :: "packet_env \<Rightarrow> bytes \<Rightarrow> PacketInfo \<Rightarrow> int \<Rightarrow> packet_state \<Rightarrow> unit res \<times> packet_state" where
  "process_path_packet env raw info timestamp s =
     (case (pe_private_key env, pe_public_key env) of
        (Some private_key, Some our_public_key) \<Rightarrow>
          if length (pi_payload info) < 4 then (Inr (), s)
          else (case py_get our_public_key 0 of
                  Inl e \<Rightarrow> (Inl e, s)
                | Inr ours \<Rightarrow>
                    if pi_payload info ! 0 \<noteq> ours then (Inr (), s)
                    else learn_paths env raw private_key our_public_key timestamp (get_by_pubkey_first_byte (hex_byte (pi_payload info ! 1)) (contacts_of s)) s)
      | _ \<Rightarrow> (Inr (), s))"

section \<open>Every packet\<close>

text \<open>\<open>payload_type.name if payload_type else "Unknown"\<close>: the enumeration holds integers, and the type with the value 0 counts as none.\<close>

definition reported_type :: "PayloadType option \<Rightarrow> PayloadType option" where
  "reported_type t = (if t = Some REQUEST then None else t)"

definition new_result :: "nat \<Rightarrow> PayloadType option \<Rightarrow> packet_result" where
  "new_result packet_id t =
     \<lparr>rs_packet_id = packet_id, rs_payload_type = reported_type t, rs_decrypted = False, rs_message_id = None, rs_channel_key = None,
      rs_contact_key = None, rs_sender = None, rs_sender_timestamp = None, rs_message = None\<rparr>"

definition packet_scope :: "packet_env \<Rightarrow> PacketInfo \<Rightarrow> nat option \<times> ustr option" where
  "packet_scope env info =
     (case pi_transport_codes info of
        None \<Rightarrow> (None, None)
      | Some (code, _) \<Rightarrow>
          (Some code, resolve_region (pe_crypto env) (payload_code (pi_payload_type info)) (pi_payload info) code (pe_known_regions env)))"

text \<open>The handler of the packet's type.\<close>

definition dispatch_packet ::
  "packet_env \<Rightarrow> bytes \<Rightarrow> PacketInfo \<Rightarrow> reception \<Rightarrow> packet_result \<Rightarrow> packet_state \<Rightarrow> packet_result res \<times> packet_state" where
  "dispatch_packet env raw info rx result s =
     (case pi_payload_type info of
        GROUP_TEXT \<Rightarrow> process_group_text env raw rx result s
      | ADVERT \<Rightarrow> (case process_advertisement env info (rx_received_at rx) s of (Inl e, s1) \<Rightarrow> (Inl e, s1) | (Inr _, s1) \<Rightarrow> (Inr result, s1))
      | TEXT_MESSAGE \<Rightarrow> process_direct_message env raw info rx result s
      | GROUP_DATA \<Rightarrow> (case process_group_data env raw result s of (r, s1) \<Rightarrow> (Inr r, s1))
      | PATH \<Rightarrow> (case process_path_packet env raw info (rx_received_at rx) s of (Inl e, s1) \<Rightarrow> (Inl e, s1) | (Inr _, s1) \<Rightarrow> (Inr result, s1))
      | ACK \<Rightarrow> (Inr result, if 4 \<le> length (pi_payload info) then apply_ack (hex_of (take 4 (pi_payload info))) (pe_clock env (ps_observations s)) s else s)
      | _ \<Rightarrow> (Inr result, s))"

definition process_raw_packet ::
  "packet_env \<Rightarrow> bytes \<Rightarrow> int \<Rightarrow> pyfloat option \<Rightarrow> int option \<Rightarrow> packet_state \<Rightarrow> packet_result res \<times> packet_state" where
  "process_raw_packet env raw ts snr rssi s =
     (case raw_packet_create (sha256 (pe_crypto env)) raw (extract_payload raw) ts (st_db (ps_store s)) of ((packet_id, is_new), db1) \<Rightarrow>
        let observation = ps_observations s;
            s1 = s\<lparr>ps_observations := observation + 1, ps_store := (ps_store s)\<lparr>st_db := db1\<rparr>\<rparr>;
            info = parse_packet raw;
            result = new_result packet_id (map_option pi_payload_type info);
            (transport_code, region) = (case info of None \<Rightarrow> (None, None) | Some i \<Rightarrow> packet_scope env i)
        in case (case info of
                   None \<Rightarrow> (Inr result, s1)
                 | Some i \<Rightarrow> dispatch_packet env raw i (packet_reception packet_id ts i rssi snr transport_code region) result s1) of
             (Inl e, s2) \<Rightarrow> (Inl e, s2)
           | (Inr r, s2) \<Rightarrow> (Inr r, publish (RawPacket packet_id observation ts raw r transport_code region) s2))"



end
