(* ===== verification/HistoricalDecrypt.thy ===== *)
theory HistoricalDecrypt
  imports PacketProcessor
begin

text \<open>
  Sweeps over stored packets that never became a message (\<open>src/app/services/historical_decrypt.py\<close>, with the paged scan of
  \<open>src/app/repository/raw_packets.py\<close>). A sweep tries one contact's key or a set of channel keys on every such packet, stores what opens at
  the packet's time, and reports its progress; sweeps wait in a queue and run one at a time. The monotonic clock is a function of the number
  of packets examined, the id of a job and the time of day are arguments. Yielding to the event loop and log lines are left out; an
  exception ends a sweep as failed, with what it stored so far.
\<close>

section \<open>Jobs\<close>

definition PROGRESS_PACKET_INTERVAL :: nat where "PROGRESS_PACKET_INTERVAL = 250"
definition PROGRESS_MIN_SECONDS :: real where "PROGRESS_MIN_SECONDS = 75 / 100"
definition UNDECRYPTED_PACKET_BATCH_SIZE :: nat where "UNDECRYPTED_PACKET_BATCH_SIZE = 500"

record ChannelTarget =
  ct_key_bytes :: bytes
  ct_key_hex :: string
  ct_name :: ustr

record ContactTarget =
  tg_private_key :: bytes
  tg_public_key_bytes :: bytes
  tg_public_key_hex :: string
  tg_name :: "ustr option"

definition display_name :: "ContactTarget \<Rightarrow> ustr" where
  "display_name t = (case non_empty (tg_name t) of Some n \<Rightarrow> n | None \<Rightarrow> utext (take 12 (tg_public_key_hex t)))"

datatype sweep_status = SweepQueued | SweepRunning | SweepComplete | SweepFailed

record sweep_job =
  sj_job_id :: string
  sj_label :: ustr
  sj_total :: nat
  sj_channel_targets :: "ChannelTarget list"
  sj_contact_target :: "ContactTarget option"
  sj_status :: sweep_status
  sj_processed :: nat
  sj_decrypted :: nat
  sj_per_target :: "(string \<times> nat) list"
  sj_target_names :: "(string \<times> ustr) list"
  sj_started_at :: "int option"
  sj_finished_at :: "int option"
  sj_last_emit_at :: real
  sj_last_emit_processed :: nat
  sj_last_emit_decrypted :: nat

record sweep_progress =
  pg_job_id :: string
  pg_is_contact :: bool
  pg_label :: ustr
  pg_status :: sweep_status
  pg_total :: nat
  pg_processed :: nat
  pg_decrypted :: nat
  pg_target_count :: nat
  pg_targets :: "(string \<times> ustr \<times> nat) list"
  pg_started_at :: "int option"
  pg_finished_at :: "int option"
  pg_queued :: nat

datatype sweep_event = Progress sweep_progress | Toast "ustr option" nat nat

definition target_count :: "sweep_job \<Rightarrow> nat" where
  "target_count j = (if sj_contact_target j = None then length (sj_channel_targets j) else 1)"

definition dict_get :: "'k \<Rightarrow> 'v \<Rightarrow> ('k \<times> 'v) list \<Rightarrow> 'v" where
  "dict_get k d xs = (case map_of xs k of None \<Rightarrow> d | Some v \<Rightarrow> v)"

definition credit :: "string \<Rightarrow> ustr \<Rightarrow> sweep_job \<Rightarrow> sweep_job" where
  "credit key name j = j\<lparr>sj_decrypted := sj_decrypted j + 1, sj_per_target := AList.update key (dict_get key 0 (sj_per_target j) + 1) (sj_per_target j),
     sj_target_names := AList.update key name (sj_target_names j)\<rparr>"

text \<open>\<open>sorted(..., key=lambda item: (-item[1], item[0]))\<close>: the keys are distinct.\<close>

definition better_find :: "string \<times> nat \<Rightarrow> string \<times> nat \<Rightarrow> bool" where
  "better_find a b \<longleftrightarrow> snd a > snd b \<or> snd a = snd b \<and> text_less (fst a) (fst b)"

fun place_find :: "string \<times> nat \<Rightarrow> (string \<times> nat) list \<Rightarrow> (string \<times> nat) list" where
  "place_find x [] = [x]"
| "place_find x (y # ys) = (if better_find x y then x # y # ys else y # place_find x ys)"

definition snapshot :: "nat \<Rightarrow> sweep_job \<Rightarrow> sweep_progress" where
  "snapshot queued j =
     \<lparr>pg_job_id = sj_job_id j, pg_is_contact = (sj_contact_target j \<noteq> None), pg_label = sj_label j, pg_status = sj_status j,
      pg_total = max (sj_total j) (sj_processed j), pg_processed = sj_processed j, pg_decrypted = sj_decrypted j, pg_target_count = target_count j,
      pg_targets = map (\<lambda>(key, found). (key, dict_get key (utext (take 12 key)) (sj_target_names j), found)) (foldr place_find (sj_per_target j) []),
      pg_started_at = sj_started_at j, pg_finished_at = sj_finished_at j, pg_queued = queued\<rparr>"

record sweep_world =
  sw_store :: store
  sw_events :: "sweep_event list"
  sw_job :: sweep_job

definition emit_progress :: "real \<Rightarrow> nat \<Rightarrow> sweep_world \<Rightarrow> sweep_world" where
  "emit_progress now queued w =
     (let j = (sw_job w)\<lparr>sj_last_emit_at := now, sj_last_emit_processed := sj_processed (sw_job w), sj_last_emit_decrypted := sj_decrypted (sw_job w)\<rparr>
      in w\<lparr>sw_job := j, sw_events := sw_events w @ [Progress (snapshot queued j)]\<rparr>)"

definition sweep_tick :: "real \<Rightarrow> nat \<Rightarrow> sweep_world \<Rightarrow> sweep_world" where
  "sweep_tick now queued w =
     (let j = sw_job w
      in if now - sj_last_emit_at j < PROGRESS_MIN_SECONDS then w
         else if int (sj_processed j) - int (sj_last_emit_processed j) < int PROGRESS_PACKET_INTERVAL \<and> sj_decrypted j = sj_last_emit_decrypted j then w
         else emit_progress now queued w)"

section \<open>The scan\<close>

definition undecrypted_after :: "int \<Rightarrow> msg_db \<Rightarrow> raw_packet list" where
  "undecrypted_after last_id db = sort_key rp_id (filter (\<lambda>p. rp_message_id p = None \<and> int (rp_id p) > last_id) (db_raw db))"

definition get_undecrypted_count :: "msg_db \<Rightarrow> nat" where
  "get_undecrypted_count db = length (filter (\<lambda>p. rp_message_id p = None) (db_raw db))"

text \<open>The body of an \<open>async for\<close> loop on a batch of rows: an exception leaves the loop.\<close>

fun each_row :: "('r \<Rightarrow> 's \<Rightarrow> unit res \<times> 's) \<Rightarrow> 'r list \<Rightarrow> 's \<Rightarrow> unit res \<times> 's" where
  "each_row body [] s = (Inr (), s)"
| "each_row body (r # rs) s = (case body r s of (Inl e, s1) \<Rightarrow> (Inl e, s1) | (Inr _, s1) \<Rightarrow> each_row body rs s1)"

text \<open>\<open>_stream_undecrypted_rows\<close> around the body: each page is read afresh behind the last row seen. \<^const>\<open>None\<close>: out of fuel.\<close>

fun stream_undecrypted :: "nat \<Rightarrow> nat \<Rightarrow> ('s \<Rightarrow> msg_db) \<Rightarrow> (raw_packet \<Rightarrow> 's \<Rightarrow> unit res \<times> 's) \<Rightarrow> int \<Rightarrow> 's \<Rightarrow> (unit res \<times> 's) option" where
  "stream_undecrypted 0 batch_size db_of body last_id s = None"
| "stream_undecrypted (Suc fuel) batch_size db_of body last_id s =
     (case take batch_size (undecrypted_after last_id (db_of s)) of
        [] \<Rightarrow> Some (Inr (), s)
      | rows \<Rightarrow> (case each_row body rows s of
                   (Inl e, s1) \<Rightarrow> Some (Inl e, s1)
                 | (Inr _, s1) \<Rightarrow> stream_undecrypted fuel batch_size db_of body (int (rp_id (last rows))) s1))"

section \<open>Channel sweeps\<close>

definition index_by_channel_hash :: "crypto \<Rightarrow> ChannelTarget list \<Rightarrow> (byte \<times> ChannelTarget list) list" where
  "index_by_channel_hash cr targets =
     fold (\<lambda>t d. let h = sha256 cr (ct_key_bytes t) ! 0 in AList.update h (dict_get h [] d @ [t]) d) targets []"

fun first_target :: "(ChannelTarget \<Rightarrow> 'a option) \<Rightarrow> ChannelTarget list \<Rightarrow> (ChannelTarget \<times> 'a) option" where
  "first_target decrypt [] = None"
| "first_target decrypt (t # ts) = (case decrypt t of None \<Rightarrow> first_target decrypt ts | Some g \<Rightarrow> Some (t, g))"

definition stored_reception :: "raw_packet \<Rightarrow> PacketInfo \<Rightarrow> nat option \<Rightarrow> ustr option \<Rightarrow> reception" where
  "stored_reception p info transport_code region = packet_reception (rp_id p) (rp_timestamp p) info None None transport_code region"

definition recover_channel_text :: "packet_env \<Rightarrow> int \<Rightarrow> raw_packet \<Rightarrow> PacketInfo \<Rightarrow> ChannelTarget \<times> DecryptedGroupText \<Rightarrow> sweep_world \<Rightarrow> unit res \<times> sweep_world" where
  "recover_channel_text env recovered_at p info hit w =
     (case hit of (target, g) \<Rightarrow> case packet_scope env info of (transport_code, region) \<Rightarrow>
        case create_message_from_decrypted (pe_ingest env) (ct_key_hex target) (gt_sender g) (gt_message g) (int (gt_timestamp g)) False (Some recovered_at)
               (stored_reception p info transport_code region) (sw_store w) of
          (Inl e, st) \<Rightarrow> (Inl e, w\<lparr>sw_store := st\<rparr>)
        | (Inr msg_id, st) \<Rightarrow>
            (Inr (), w\<lparr>sw_store := st, sw_job := (if msg_id \<noteq> None then credit (ct_key_hex target) (ct_name target) (sw_job w) else sw_job w)\<rparr>))"

definition examined :: "sweep_world \<Rightarrow> sweep_world" where
  "examined w = w\<lparr>sw_job := (sw_job w)\<lparr>sj_processed := sj_processed (sw_job w) + 1\<rparr>\<rparr>"

definition ticked :: "(nat \<Rightarrow> real) \<Rightarrow> nat \<Rightarrow> unit res \<times> sweep_world \<Rightarrow> unit res \<times> sweep_world" where
  "ticked clock queued rw = (case rw of (Inl e, w) \<Rightarrow> (Inl e, w) | (Inr u, w) \<Rightarrow> (Inr u, sweep_tick (clock (sj_processed (sw_job w))) queued w))"

definition channel_row ::
  "packet_env \<Rightarrow> (nat \<Rightarrow> real) \<Rightarrow> nat \<Rightarrow> int \<Rightarrow> (byte \<times> ChannelTarget list) list \<Rightarrow> raw_packet \<Rightarrow> sweep_world \<Rightarrow> unit res \<times> sweep_world" where
  "channel_row env clock queued recovered_at by_hash p w0 =
     (let w = examined w0
      in ticked clock queued
           (case parse_packet (rp_data p) of
              None \<Rightarrow> (Inr (), w)
            | Some info \<Rightarrow>
                if pi_payload_type info \<noteq> GROUP_TEXT \<or> pi_payload info = [] then (Inr (), w)
                else (case first_target (\<lambda>t. decrypt_group_text (pe_crypto env) (pi_payload info) (ct_key_bytes t)) (dict_get (pi_payload info ! 0) [] by_hash) of
                        None \<Rightarrow> (Inr (), w)
                      | Some hit \<Rightarrow> recover_channel_text env recovered_at p info hit w)))"

definition scan_for_channels :: "packet_env \<Rightarrow> (nat \<Rightarrow> real) \<Rightarrow> nat \<Rightarrow> int \<Rightarrow> nat \<Rightarrow> sweep_world \<Rightarrow> (unit res \<times> sweep_world) option" where
  "scan_for_channels env clock queued recovered_at fuel w =
     stream_undecrypted fuel UNDECRYPTED_PACKET_BATCH_SIZE (\<lambda>w. st_db (sw_store w))
       (channel_row env clock queued recovered_at (index_by_channel_hash (pe_crypto env) (sj_channel_targets (sw_job w)))) (-1) w"

section \<open>Contact sweeps\<close>

definition contact_row_step ::
  "packet_env \<Rightarrow> (nat \<Rightarrow> real) \<Rightarrow> nat \<Rightarrow> int \<Rightarrow> ContactTarget \<Rightarrow> byte \<Rightarrow> raw_packet \<Rightarrow> sweep_world \<Rightarrow> unit res \<times> sweep_world" where
  "contact_row_step env clock queued recovered_at target our_first_byte p w0 =
     (let w = examined w0
      in ticked clock queued
           (if get_packet_payload_type (rp_data p) \<noteq> Some TEXT_MESSAGE then (Inr (), w)
            else case try_decrypt_dm (pe_crypto env) (rp_data p) (tg_private_key target) (tg_public_key_bytes target) None of
                   Inl e \<Rightarrow> (Inl e, w)
                 | Inr None \<Rightarrow> (Inr (), w)
                 | Inr (Some d) \<Rightarrow>
                     let ours = hex_byte our_first_byte; outgoing = (dm_src_hash d = ours \<and> dm_dest_hash d \<noteq> ours);
                         rx = (case parse_packet (rp_data p) of
                                 Some info \<Rightarrow> stored_reception p info None None
                               | None \<Rightarrow> \<lparr>rx_packet_id = Some (rp_id p), rx_path = None, rx_received_at = rp_timestamp p, rx_path_len = None, rx_rssi = None,
                                          rx_snr = None, rx_transport_code = None, rx_region = None\<rparr>)
                     in (case ingest_decrypted_direct_message (pe_ingest env) d (tg_public_key_hex target) outgoing False (Some recovered_at) rx (sw_store w) of
                           (Inl e, st) \<Rightarrow> (Inl e, w\<lparr>sw_store := st\<rparr>)
                         | (Inr m, st) \<Rightarrow>
                             (Inr (), w\<lparr>sw_store := st, sw_job := (if m \<noteq> None then credit (tg_public_key_hex target) (display_name target) (sw_job w) else sw_job w)\<rparr>))))"

text \<open>Whatever the curve operation raises, the sweep fails.\<close>

definition scan_for_contact ::
  "packet_env \<Rightarrow> (nat \<Rightarrow> real) \<Rightarrow> nat \<Rightarrow> int \<Rightarrow> nat \<Rightarrow> ContactTarget \<Rightarrow> sweep_world \<Rightarrow> (unit res \<times> sweep_world) option" where
  "scan_for_contact env clock queued recovered_at fuel target w =
     (let j = sw_job w;
          per = (if map_of (sj_per_target j) (tg_public_key_hex target) = None then AList.update (tg_public_key_hex target) 0 (sj_per_target j) else sj_per_target j);
          w1 = w\<lparr>sw_job := j\<lparr>sj_per_target := per, sj_target_names := AList.update (tg_public_key_hex target) (display_name target) (sj_target_names j)\<rparr>\<rparr>
      in case derive_public_key (pe_crypto env) (tg_private_key target) of
           None \<Rightarrow> Some (Inl ValueError, w1)
         | Some our_public_key \<Rightarrow>
             (case py_get our_public_key 0 of
                Inl e \<Rightarrow> Some (Inl e, w1)
              | Inr our_first_byte \<Rightarrow>
                  stream_undecrypted fuel UNDECRYPTED_PACKET_BATCH_SIZE (\<lambda>w. st_db (sw_store w))
                    (contact_row_step env clock queued recovered_at target our_first_byte) (-1) w1))"

section \<open>Running a job\<close>

definition announce :: "sweep_job \<Rightarrow> sweep_event list" where
  "announce j =
     (if sj_decrypted j = 0 then []
      else if sj_contact_target j \<noteq> None \<or> length (sj_per_target j) = 1
      then [Toast (Some (case sj_target_names j of [] \<Rightarrow> sj_label j | (k, name) # _ \<Rightarrow> name)) (sj_decrypted j) 1]
      else [Toast None (sj_decrypted j) (length (sj_per_target j))])"

text \<open>\<open>fuel\<close> bounds the pages; \<open>now\<close> is the time of day, the same at every reading.\<close>

definition run_job :: "packet_env \<Rightarrow> (nat \<Rightarrow> real) \<Rightarrow> int \<Rightarrow> nat \<Rightarrow> nat \<Rightarrow> sweep_world \<Rightarrow> (unit res \<times> sweep_world) option" where
  "run_job env clock now fuel queued w =
     (let w1 = emit_progress (clock (sj_processed (sw_job w))) queued (w\<lparr>sw_job := (sw_job w)\<lparr>sj_status := SweepRunning, sj_started_at := Some now\<rparr>\<rparr>)
      in case (case sj_contact_target (sw_job w1) of
                 Some target \<Rightarrow> scan_for_contact env clock queued now fuel target w1
               | None \<Rightarrow> scan_for_channels env clock queued now fuel w1) of
           None \<Rightarrow> None
         | Some (Inl e, w2) \<Rightarrow> Some (Inl e, w2)
         | Some (Inr _, w2) \<Rightarrow>
             let w3 = emit_progress (clock (sj_processed (sw_job w2))) queued
                        (w2\<lparr>sw_job := (sw_job w2)\<lparr>sj_status := SweepComplete, sj_finished_at := Some now\<rparr>\<rparr>)
             in Some (Inr (), w3\<lparr>sw_events := sw_events w3 @ announce (sw_job w3)\<rparr>))"

section \<open>The queue\<close>

record sweep_runner =
  rn_pending :: "sweep_job list"
  rn_active :: "(sweep_job \<times> nat) option"
  rn_last :: "sweep_progress option"
  rn_store :: store
  rn_events :: "sweep_event list"

definition queued_ahead :: "sweep_runner \<Rightarrow> nat" where
  "queued_ahead r = length (rn_pending r) + (if rn_active r \<noteq> None then 1 else 0)"

definition submit_job :: "sweep_job \<Rightarrow> sweep_runner \<Rightarrow> nat \<times> sweep_runner" where
  "submit_job j r = (queued_ahead r, r\<lparr>rn_pending := rn_pending r @ [j]\<rparr>)"

text \<open>A turn of \<open>_drain\<close> in its two halves, since sweeps are submitted while one runs: \<open>rn_active\<close> is the running job with the number that
  waited when it started.\<close>

definition drain_start :: "sweep_runner \<Rightarrow> sweep_runner" where
  "drain_start r =
     (case (rn_active r, rn_pending r) of
        (None, j # rest) \<Rightarrow> r\<lparr>rn_pending := rest, rn_active := Some (j, length rest)\<rparr>
      | _ \<Rightarrow> r)"

definition drain_finish :: "packet_env \<Rightarrow> (nat \<Rightarrow> real) \<Rightarrow> int \<Rightarrow> nat \<Rightarrow> sweep_runner \<Rightarrow> sweep_runner option" where
  "drain_finish env clock now fuel r =
     (case rn_active r of
        None \<Rightarrow> Some r
      | Some (j, queued) \<Rightarrow>
          (case run_job env clock now fuel queued \<lparr>sw_store = rn_store r, sw_events = rn_events r, sw_job = j\<rparr> of
             None \<Rightarrow> None
           | Some (res, w) \<Rightarrow>
               let w' = (case res of
                           Inl _ \<Rightarrow> emit_progress (clock (sj_processed (sw_job w))) (length (rn_pending r))
                                      (w\<lparr>sw_job := (sw_job w)\<lparr>sj_status := SweepFailed, sj_finished_at := Some now\<rparr>\<rparr>)
                         | Inr _ \<Rightarrow> w)
               in Some (r\<lparr>rn_active := None, rn_last := Some (snapshot (length (rn_pending r)) (sw_job w')), rn_store := sw_store w', rn_events := sw_events w'\<rparr>)))"

definition channel_job :: "string \<Rightarrow> ChannelTarget list \<Rightarrow> ustr option \<Rightarrow> nat \<Rightarrow> sweep_job" where
  "channel_job job_id targets label tot =
     \<lparr>sj_job_id = job_id,
      sj_label = (case non_empty label of Some l \<Rightarrow> l
                  | None \<Rightarrow> (case targets of [t] \<Rightarrow> ct_name t | _ \<Rightarrow> dec_text (int (length targets)) @ utext '' conversations'')),
      sj_total = tot, sj_channel_targets = targets, sj_contact_target = None, sj_status = SweepQueued, sj_processed = 0, sj_decrypted = 0,
      sj_per_target = [], sj_target_names = [], sj_started_at = None, sj_finished_at = None, sj_last_emit_at = 0, sj_last_emit_processed = 0,
      sj_last_emit_decrypted = 0\<rparr>"

definition contact_job :: "string \<Rightarrow> ContactTarget \<Rightarrow> nat \<Rightarrow> sweep_job" where
  "contact_job job_id target tot =
     \<lparr>sj_job_id = job_id, sj_label = display_name target, sj_total = tot, sj_channel_targets = [], sj_contact_target = Some target, sj_status = SweepQueued,
      sj_processed = 0, sj_decrypted = 0, sj_per_target = [], sj_target_names = [], sj_started_at = None, sj_finished_at = None,
      sj_last_emit_at = 0, sj_last_emit_processed = 0, sj_last_emit_decrypted = 0\<rparr>"

definition submit_channel_sweep :: "string \<Rightarrow> ChannelTarget list \<Rightarrow> ustr option \<Rightarrow> sweep_runner \<Rightarrow> nat option \<times> sweep_runner" where
  "submit_channel_sweep job_id targets label r =
     (let tot = get_undecrypted_count (st_db (rn_store r))
      in if targets = [] \<or> tot = 0 then (None, r)
         else (case submit_job (channel_job job_id targets label tot) r of (waiting, r1) \<Rightarrow> (Some waiting, r1)))"

definition submit_contact_sweep :: "string \<Rightarrow> ContactTarget \<Rightarrow> sweep_runner \<Rightarrow> nat option \<times> sweep_runner" where
  "submit_contact_sweep job_id target r =
     (let tot = get_undecrypted_count (st_db (rn_store r))
      in if tot = 0 then (None, r)
         else (case submit_job (contact_job job_id target tot) r of (waiting, r1) \<Rightarrow> (Some waiting, r1)))"

definition sweep_status_now :: "sweep_runner \<Rightarrow> sweep_progress option \<times> sweep_progress option \<times> nat" where
  "sweep_status_now r = (map_option (\<lambda>(j, _). snapshot (length (rn_pending r)) j) (rn_active r), rn_last r, length (rn_pending r))"



end
