(* ===== verification/ChannelIngest.thy ===== *)
theory ChannelIngest
  imports MessageIngest
begin

text \<open>
  What the routes of a channel message do to the store: every copy of a message, from whichever route, meets the same row; every
  history of the store keeps its tables in order; and a reaction lands on the message it names.
\<close>


lemma queued_direct_ok:
  assumes "store_ok s" and "on_contact_message env ev now s = (r, s')"
  shows "store_ok s'"
proof (cases "ce_txt_type ev = 1")
  case True
  then show ?thesis using assms by (simp add: on_contact_message_def)
next
  case False
  define sender where "sender = (case non_empty (ce_public_key ev) of Some k \<Rightarrow> k | None \<Rightarrow> ce_pubkey_prefix ev)"
  obtain x s1 where x: "resolve_fallback_direct_message_context sender now s = (x, s1)" by fastforce
  have s1: "store_ok s1" by (rule context_ok [OF assms(1) x])
  have g: "(ce_txt_type ev = 1) = False" using False by blast
  note u = assms(2) [unfolded on_contact_message_def Let_def g if_False sender_def [symmetric] x prod.case]
  show ?thesis
  proof (cases x)
    case (Inl e)
    then show ?thesis using u s1 by simp
  next
    case (Inr fc)
    show ?thesis
    proof (cases "fc_skip_storage fc")
      case True
      then show ?thesis using u s1 Inr by simp
    next
      case n: False
      obtain y s2 where y: "(if (case fc_contact fc of None \<Rightarrow> False | Some c \<Rightarrow> c_type c = CONTACT_TYPE_ROOM) \<and> ce_txt_type ev = 2 \<and> truthy (ce_signature ev)
          then resolve_direct_message_sender_metadata (the (ce_signature ev)) s1 else (Inr (fc_sender_name fc, fc_sender_key fc), s1)) = (y, s2)" by fastforce
      have s2: "store_ok s2" using y s1 metadata_ok by (auto split: if_splits)
      have h: "fc_skip_storage fc = False" using n by blast
      note v = u [unfolded Inr sum.case h if_False y prod.case]
      show ?thesis using v s2 store_direct_ok [OF s2] by (cases y) (simp_all add: ingest_fallback_direct_message_def split: prod.splits)
    qed
  qed
qed

section \<open>Copies of a channel message\<close>

definition scoped :: "message_row \<Rightarrow> reception \<Rightarrow> bool" where
  "scoped m rx \<longleftrightarrow> rx_transport_code rx \<noteq> None \<and> (mr_transport_code m = None \<or> (mr_region m = None \<and> truthy (rx_region rx)))"

definition heard_paths :: "reception \<Rightarrow> MessagePath list" where
  "heard_paths rx = (case build_message_paths rx of None \<Rightarrow> [] | Some ps \<Rightarrow> ps)"

text \<open>What a duplicate does to the row it repeats, \<open>m\<close> being the row as it was read.\<close>

definition reconciled :: "message_row \<Rightarrow> reception \<Rightarrow> message_row \<Rightarrow> message_row" where
  "reconciled m rx r =
     r\<lparr>mr_paths := (if rx_path rx = None then mr_paths r else Some (paths_list r @ heard_paths rx)),
       mr_transport_code := (if scoped m rx then rx_transport_code rx else mr_transport_code r),
       mr_region := (if scoped m rx then rx_region rx else mr_region r),
       mr_acked := (if mr_outgoing m \<and> mr_type m = MsgChan then mr_acked r + 1 else mr_acked r)\<rparr>"

lemma update_messages [simp]: "db_messages (update_message i f db) = map (\<lambda>r. if mr_id r = i then f r else r) (db_messages db)"
  by (simp add: update_message_def)

lemma mark_messages [simp]: "db_messages (mark_decrypted p i db) = db_messages db"
  by (simp add: mark_decrypted_def)

lemma path_rows:
  "db_messages (case rx_path rx of Some p \<Rightarrow> snd (add_path i p (rx_received_at rx) (rx_path_len rx) (rx_rssi rx) (rx_snr rx) db) | None \<Rightarrow> db)
     = map (\<lambda>r. if mr_id r = i then r\<lparr>mr_paths := (if rx_path rx = None then mr_paths r else Some (paths_list r @ heard_paths rx))\<rparr> else r) (db_messages db)"
  by (cases "rx_path rx") (simp_all add: add_path_def Let_def heard_paths_def build_message_paths_def paths_list_def map_idI)

lemma scope_rows:
  "db_messages (if b then set_transport_scope i t reg db else db)
     = map (\<lambda>r. if mr_id r = i then r\<lparr>mr_transport_code := (if b then t else mr_transport_code r), mr_region := (if b then reg else mr_region r)\<rparr> else r) (db_messages db)"
  by (cases b) (simp_all add: set_transport_scope_def map_idI)

lemma ack_rows:
  "db_messages (if b then snd (message_increment_ack i db) else db)
     = map (\<lambda>r. if mr_id r = i then r\<lparr>mr_acked := (if b then mr_acked r + 1 else mr_acked r)\<rparr> else r) (db_messages db)"
  by (cases b) (simp_all add: message_increment_ack_def Let_def map_idI)

lemma reconcile_rows:
  "db_messages (st_db (reconcile_duplicate_message (m, pid) rx s)) = map (\<lambda>r. if mr_id r = mr_id m then reconciled m rx r else r) (db_messages (st_db s))"
proof -
  let ?i = "mr_id m"
  define db1 where "db1 = (case rx_path rx of
              Some p \<Rightarrow> snd (add_path ?i p (rx_received_at rx) (rx_path_len rx) (rx_rssi rx) (rx_snr rx) (st_db s)) | None \<Rightarrow> st_db s)"
  define db2 where "db2 = (if scoped m rx then set_transport_scope ?i (rx_transport_code rx) (rx_region rx) db1 else db1)"
  define db3 where "db3 = (if mr_outgoing m \<and> mr_type m = MsgChan then snd (message_increment_ack ?i db2) else db2)"
  obtain paths dba where a: "(case rx_path rx of Some p \<Rightarrow> add_path ?i p (rx_received_at rx) (rx_path_len rx) (rx_rssi rx) (rx_snr rx) (st_db s)
      | None \<Rightarrow> (paths_list m, st_db s)) = (paths, dba)" by fastforce
  have da: "dba = db1" using a unfolding db1_def by (cases "rx_path rx") auto
  obtain n dbc where c: "(if mr_outgoing m \<and> mr_type m = MsgChan then message_increment_ack ?i db2 else (mr_acked m, db2)) = (n, dbc)" by fastforce
  have dc: "dbc = db3" using c unfolding db3_def by (cases "mr_outgoing m \<and> mr_type m = MsgChan") auto
  have "db_messages (st_db (reconcile_duplicate_message (m, pid) rx s)) = db_messages db3"
    unfolding reconcile_duplicate_message_def Let_def prod.case a da scoped_def [symmetric] db2_def [symmetric] c dc
    by (cases "rx_packet_id rx") (simp_all add: broadcast_def write_db_def)
  also have "\<dots> = map (\<lambda>r. if mr_id r = ?i then reconciled m rx r else r) (db_messages (st_db s))"
    unfolding db3_def ack_rows db2_def scope_rows db1_def path_rows map_map by (rule map_cong) (simp_all add: reconciled_def)
  finally show ?thesis .
qed

definition heard_as :: "string \<Rightarrow> ustr \<Rightarrow> int \<Rightarrow> message_row \<Rightarrow> bool" where
  "heard_as key txt ts r \<longleftrightarrow> mr_type r = MsgChan \<and> mr_conversation_key r = key \<and> mr_text r = txt \<and> mr_sender_timestamp r = Some ts"

lemma reconciled_keeps [simp]: "mr_id (reconciled m rx r) = mr_id r" "mr_type (reconciled m rx r) = mr_type r" "mr_conversation_key (reconciled m rx r) = mr_conversation_key r"
  "mr_text (reconciled m rx r) = mr_text r" "mr_sender_timestamp (reconciled m rx r) = mr_sender_timestamp r" "mr_outgoing (reconciled m rx r) = mr_outgoing r"
  "mr_sender_key (reconciled m rx r) = mr_sender_key r"
  by (simp_all add: reconciled_def)

lemma reconciled_paths [simp]: "paths_list (reconciled m rx r) = paths_list r @ heard_paths rx"
  by (cases "rx_path rx") (simp_all add: reconciled_def paths_list_def heard_paths_def build_message_paths_def)

type_synonym echo = "(MessagePath list \<times> nat \<times> bool) option"

text \<open>What the store should know of a channel message: the ways it was heard, the repeats of our own, and whose it is.\<close>

fun heard_copy :: "reception \<Rightarrow> echo \<Rightarrow> echo" where
  "heard_copy rx None = Some (heard_paths rx, 0, False)"
| "heard_copy rx (Some (paths, acks, ours)) = Some (paths @ heard_paths rx, if ours then acks + 1 else acks, ours)"

definition echo_rows :: "string \<Rightarrow> ustr \<Rightarrow> int \<Rightarrow> store \<Rightarrow> (MessagePath list \<times> nat \<times> bool) list" where
  "echo_rows key txt ts s = map (\<lambda>r. (paths_list r, mr_acked r, mr_outgoing r)) (filter (heard_as key txt ts) (db_messages (st_db s)))"

definition known_echo :: "echo \<Rightarrow> (MessagePath list \<times> nat \<times> bool) list" where
  "known_echo e = (case e of None \<Rightarrow> [] | Some x \<Rightarrow> [x])"

lemma heard_conflict: "ts \<noteq> 0 \<Longrightarrow> heard_as key txt ts row \<Longrightarrow> conflicts row r \<longleftrightarrow> heard_as key txt ts r"
  by (auto simp: heard_as_def conflicts_def ts0_def split: option.splits)

lemma heard_once:
  assumes "unique_rows rows" and "ts \<noteq> 0"
  shows "filter (heard_as key txt ts) rows = [] \<or> (\<exists>r. filter (heard_as key txt ts) rows = [r])"
  using assms(1)
proof (induction rows)
  case (Cons x xs)
  then show ?case using heard_conflict [OF assms(2), of key "txt" x] by (auto simp: list_ex_iff filter_empty_conv)
qed simp

lemma find_filter: "find P xs = (case filter P xs of [] \<Rightarrow> None | x # _ \<Rightarrow> Some x)"
  by (induction xs) auto

lemma duplicate_echo:
  assumes ok: "store_ok s" and ts: "ts \<noteq> 0" and h: "filter (heard_as key txt ts) (db_messages (st_db s)) \<noteq> []"
  shows "\<exists>e. echo_rows key txt ts s = [e] \<and> echo_rows key txt ts (handle_duplicate_message MsgChan key txt ts None rx s) = known_echo (heard_copy rx (Some e))"
proof -
  obtain m where m: "filter (heard_as key txt ts) (db_messages (st_db s)) = [m]" using heard_once [OF _ ts] ok h by (metis db_ok_def)
  have hm: "heard_as key txt ts m" using m by (metis filter_eq_ConsD)
  have "(\<lambda>r. mr_type r = MsgChan \<and> mr_conversation_key r = key \<and> mr_text r = txt \<and> mr_sender_timestamp r = Some ts \<and> True) = heard_as key txt ts" by (auto simp: heard_as_def)
  then have g: "get_by_content MsgChan key txt (Some ts) None (st_db s) = Some (read_row (st_db s) m)" by (simp add: get_by_content_def find_filter m)
  let ?g = "\<lambda>r. if mr_id r = mr_id m then reconciled m rx r else r"
  have "heard_as key txt ts \<circ> ?g = heard_as key txt ts" by (rule ext) (simp add: heard_as_def)
  then have "filter (heard_as key txt ts) (map ?g (db_messages (st_db s))) = [?g m]" by (simp add: filter_map m)
  then have "echo_rows key txt ts (handle_duplicate_message MsgChan key txt ts None rx s) = [(paths_list (reconciled m rx m), mr_acked (reconciled m rx m), mr_outgoing m)]"
    by (simp add: handle_duplicate_message_def g read_row_def echo_rows_def reconcile_rows)
  moreover have "mr_acked (reconciled m rx m) = (if mr_outgoing m then mr_acked m + 1 else mr_acked m)" using hm by (simp add: reconciled_def heard_as_def)
  ultimately show ?thesis by (simp add: echo_rows_def m known_echo_def)
qed

text \<open>A copy of a channel message: from a decrypted packet, from the radio's queue, or our own send.\<close>

datatype channel_copy =
    FromPacket bool "int option" reception
  | FromQueue int reception
  | OurSend int "string option" bool "CompressionInfo option" "nat option" "string option"

definition queued_copy :: "reception \<Rightarrow> reception" where
  "queued_copy rx = rx\<lparr>rx_packet_id := None, rx_rssi := None, rx_snr := None, rx_transport_code := None, rx_region := None\<rparr>"

fun take_copy :: "ingest_env \<Rightarrow> string \<Rightarrow> ustr option \<Rightarrow> ustr \<Rightarrow> ustr \<Rightarrow> int \<Rightarrow> channel_copy \<Rightarrow> store \<Rightarrow> store" where
  "take_copy env key sender wire body ts (FromPacket realtime recovered_at rx) s =
     snd (create_message_from_decrypted env key sender wire ts realtime recovered_at rx s)"
| "take_copy env key sender wire body ts (FromQueue ttype rx) s = snd (create_fallback_channel_message env key wire ts ttype sender rx s)"
| "take_copy env key sender wire body ts (OurSend received_at sender_key announce compression attempts state) s =
     snd (create_outgoing_channel_message (upper_key key) (with_sender sender body) ts received_at sender sender_key announce compression attempts state s)"

fun echo_spec :: "channel_copy \<Rightarrow> echo \<Rightarrow> echo" where
  "echo_spec (FromPacket realtime recovered_at rx) e = heard_copy rx e"
| "echo_spec (FromQueue ttype rx) e = heard_copy (queued_copy rx) e"
| "echo_spec (OurSend received_at sender_key announce compression attempts state) e = (if e = None then Some ([], 0, True) else e)"

definition created_row :: "message_row \<Rightarrow> string option \<Rightarrow> int option \<Rightarrow> int option \<Rightarrow> pyfloat option \<Rightarrow> nat \<Rightarrow> message_row" where
  "created_row m path path_len rssi snr i =
     m\<lparr>mr_id := i, mr_paths := map_option (\<lambda>p. [path_entry p (mr_received_at m) path_len rssi snr]) path,
       mr_acked := 0, mr_sender_key := map_option (\<lambda>k. if k \<noteq> [] then lower k else k) (mr_sender_key m), mr_reactions := None\<rparr>"

lemma create_heard:
  assumes "ts \<noteq> 0" and "heard_as key txt ts m"
  shows "message_create m path path_len rssi snr db =
    (if filter (heard_as key txt ts) (db_messages db) = []
     then (Some (db_next_message db),
           db\<lparr>db_messages := db_messages db @ [created_row m path path_len rssi snr (db_next_message db)], db_next_message := Suc (db_next_message db)\<rparr>)
     else (None, db))"
proof -
  let ?row = "created_row m path path_len rssi snr (db_next_message db)"
  have "heard_as key txt ts ?row" using assms(2) by (simp add: heard_as_def created_row_def)
  then have "list_ex (conflicts ?row) (db_messages db) \<longleftrightarrow> filter (heard_as key txt ts) (db_messages db) \<noteq> []"
    using heard_conflict [OF assms(1)] by (auto simp: list_ex_iff filter_empty_conv)
  then show ?thesis unfolding message_create_def created_row_def [symmetric] Let_def by (simp add: created_row_def)
qed

lemma created_heard: "heard_as key txt ts (created_row m p pl rs sn i) = heard_as key txt ts m"
  by (simp add: heard_as_def created_row_def)

definition unheard_rows :: "string \<Rightarrow> ustr \<Rightarrow> int \<Rightarrow> store \<Rightarrow> message_row list" where
  "unheard_rows key txt ts s = filter (\<lambda>r. \<not> heard_as key txt ts r) (db_messages (st_db s))"

lemma opt_write_messages [simp]: "db_messages (st_db (opt_write x (\<lambda>p. mark_decrypted p i) s)) = db_messages (st_db s)"
  by (simp add: opt_write_def split: option.splits)

lemma duplicate_unheard:
  assumes ok: "store_ok s" and ts: "ts \<noteq> 0" and h: "filter (heard_as key txt ts) (db_messages (st_db s)) \<noteq> []"
  shows "unheard_rows key txt ts (handle_duplicate_message MsgChan key txt ts None rx s) = unheard_rows key txt ts s"
proof -
  obtain m where m: "filter (heard_as key txt ts) (db_messages (st_db s)) = [m]" using heard_once [OF _ ts] ok h by (metis db_ok_def)
  have hm: "heard_as key txt ts m" "m \<in> set (db_messages (st_db s))" using m by (auto dest: filter_eq_ConsD simp flip: set_filter)
  have "(\<lambda>r. mr_type r = MsgChan \<and> mr_conversation_key r = key \<and> mr_text r = txt \<and> mr_sender_timestamp r = Some ts \<and> True) = heard_as key txt ts" by (auto simp: heard_as_def)
  then have g: "get_by_content MsgChan key txt (Some ts) None (st_db s) = Some (read_row (st_db s) m)" by (simp add: get_by_content_def find_filter m)
  let ?g = "\<lambda>r. if mr_id r = mr_id m then reconciled m rx r else r"
  have 1: "heard_as key txt ts (?g r) = heard_as key txt ts r" for r by (simp add: heard_as_def)
  have inj: "inj_on mr_id (set (db_messages (st_db s)))" using rows_distinct [OF ok] by blast
  have 2: "?g r = r" if "r \<in> set (db_messages (st_db s))" "\<not> heard_as key txt ts r" for r
    using that hm inj by (auto simp: inj_on_def)
  have "filter (\<lambda>r. \<not> heard_as key txt ts r) (map ?g (db_messages (st_db s))) = map ?g (filter (\<lambda>r. \<not> heard_as key txt ts r) (db_messages (st_db s)))"
    by (simp only: filter_map comp_def 1)
  also have "\<dots> = filter (\<lambda>r. \<not> heard_as key txt ts r) (db_messages (st_db s))" by (rule map_idI) (use 2 in auto)
  finally show ?thesis by (simp add: handle_duplicate_message_def g read_row_def unheard_rows_def reconcile_rows)
qed

fun is_announcement :: "store_event \<Rightarrow> bool" where
  "is_announcement (EvMessage m p r) = True"
| "is_announcement e = False"

definition announcements :: "store \<Rightarrow> nat" where
  "announcements s = length (filter is_announcement (st_events s))"

lemma write_announcements [simp]: "announcements (write_db f s) = announcements s" "announcements (s\<lparr>st_db := db\<rparr>) = announcements s"
  "announcements (opt_write x g s) = announcements s" "announcements (broadcast e s) = announcements s + (if is_announcement e then 1 else 0)"
  by (simp_all add: announcements_def write_db_def opt_write_def broadcast_def split: option.splits)

lemma duplicate_silent: "announcements (handle_duplicate_message t key txt ts out rx s) = announcements s"
proof -
  have "announcements (reconcile_duplicate_message (m, pid) rx s) = announcements s" for m pid
    unfolding reconcile_duplicate_message_def prod.case Let_def case_prod_beta by (cases "rx_packet_id rx") simp_all
  then show ?thesis by (simp add: handle_duplicate_message_def split: option.splits)
qed

text \<open>A copy that is new appends a row; a known one is reconciled. \<open>r\<close> is the row the route writes.\<close>

lemma new_copy:
  assumes "filter (heard_as key txt ts) (db_messages (st_db s)) = []" and "heard_as key txt ts r"
    and "db_messages (st_db s') = db_messages (st_db s) @ [r]"
  shows "echo_rows key txt ts s' = [(paths_list r, mr_acked r, mr_outgoing r)] \<and> unheard_rows key txt ts s' = unheard_rows key txt ts s"
  using assms by (simp add: echo_rows_def unheard_rows_def)

lemma known_empty: "echo_rows key txt ts s = known_echo e \<Longrightarrow> filter (heard_as key txt ts) (db_messages (st_db s)) = [] \<longleftrightarrow> e = None"
  by (cases e) (auto simp: echo_rows_def known_echo_def)

definition copy_taken :: "string \<Rightarrow> ustr \<Rightarrow> int \<Rightarrow> store \<Rightarrow> echo \<Rightarrow> echo \<Rightarrow> store \<Rightarrow> bool" where
  "copy_taken key txt ts s e e' s' \<longleftrightarrow> echo_rows key txt ts s' = known_echo e' \<and> unheard_rows key txt ts s' = unheard_rows key txt ts s
     \<and> announcements s' \<le> announcements s + (if e = None then 1 else 0)"

lemma known_copy:
  assumes ok: "store_ok s" and ts: "ts \<noteq> 0" and e: "echo_rows key txt ts s = known_echo (Some x)"
  shows "copy_taken key txt ts s (Some x) (heard_copy rx (Some x)) (handle_duplicate_message MsgChan key txt ts None rx s)"
proof -
  have h: "filter (heard_as key txt ts) (db_messages (st_db s)) \<noteq> []" using known_empty [OF e] by simp
  obtain y where y: "echo_rows key txt ts s = [y]" "echo_rows key txt ts (handle_duplicate_message MsgChan key txt ts None rx s) = known_echo (heard_copy rx (Some y))"
    using duplicate_echo [OF ok ts h] by blast
  have "y = x" using e y(1) by (simp add: known_echo_def)
  then show ?thesis using y(2) duplicate_unheard [OF ok ts h] duplicate_silent by (simp add: copy_taken_def)
qed

lemma packet_copy:
  assumes ok: "store_ok s" and ts: "ts \<noteq> 0" and d: "decoded_body env wire = Inr (body, c)"
    and nr: "extract_reaction_from_stored_text MsgChan (with_sender sender body) = None"
    and e: "echo_rows (upper_key key) (with_sender sender body) ts s = known_echo e"
  shows "copy_taken (upper_key key) (with_sender sender body) ts s e (heard_copy rx e) (snd (create_message_from_decrypted env key sender wire ts rt rc rx s))"
proof -
  let ?k = "upper_key key" and ?t = "with_sender sender body"
  define m where "m = row_defaults\<lparr>mr_type := MsgChan, mr_conversation_key := ?k, mr_text := ?t, mr_sender_timestamp := Some ts,
                    mr_received_at := rx_received_at rx, mr_sender_name := sender, mr_sender_key := sole_key_by_name sender (st_db s),
                    mr_transport_code := rx_transport_code rx, mr_region := rx_region rx, mr_compression := c,
                    mr_is_reaction := (None \<noteq> (None :: ReactionInfo option)), mr_recovered_at := rc\<rparr>"
  have hm: "heard_as ?k ?t ts m" by (simp add: m_def heard_as_def)
  note u = create_message_from_decrypted_def [of env key sender wire ts rt rc rx s, unfolded d sum.case prod.case Let_def nr, folded m_def,
      unfolded create_heard [OF ts hm] known_empty [OF e]]
  show ?thesis
  proof (cases e)
    case None
    let ?r = "created_row m (rx_path rx) (rx_path_len rx) (rx_rssi rx) (rx_snr rx) (db_next_message (st_db s))"
    let ?s = "snd (create_message_from_decrypted env key sender wire ts rt rc rx s)"
    have "db_messages (st_db ?s) = db_messages (st_db s) @ [?r]" unfolding u None by simp
    moreover have "paths_list ?r = heard_paths rx" "mr_acked ?r = 0" "mr_outgoing ?r = False"
      by (simp_all add: paths_list_def created_row_def heard_paths_def build_message_paths_def m_def row_defaults_def split: option.splits)
    moreover have "announcements ?s = announcements s + 1" unfolding u None by simp
    ultimately show ?thesis using new_copy [of ?k ?t ts s ?r ?s] known_empty [OF e] None hm by (simp add: created_heard copy_taken_def known_echo_def)
  next
    case (Some x)
    then show ?thesis unfolding u using known_copy [OF ok ts e [unfolded Some]] by simp
  qed
qed

lemma queue_copy:
  assumes ok: "store_ok s" and ts: "ts \<noteq> 0" and d: "decoded_body env wire = Inr (body, c)"
    and nr: "extract_reaction_from_stored_text MsgChan (with_sender sender body) = None"
    and e: "echo_rows (upper_key key) (with_sender sender body) ts s = known_echo e"
  shows "copy_taken (upper_key key) (with_sender sender body) ts s e (heard_copy (queued_copy rx) e) (snd (create_fallback_channel_message env key wire ts tt sender rx s))"
proof -
  let ?k = "upper_key key" and ?t = "with_sender sender body"
  define m where "m = row_defaults\<lparr>mr_type := MsgChan, mr_conversation_key := ?k, mr_text := ?t, mr_sender_timestamp := Some ts,
                    mr_received_at := rx_received_at rx, mr_txt_type := tt, mr_sender_name := sender,
                    mr_sender_key := sole_key_by_name sender (st_db s), mr_compression := c, mr_is_reaction := (None \<noteq> (None :: ReactionInfo option))\<rparr>"
  have hm: "heard_as ?k ?t ts m" by (simp add: m_def heard_as_def)
  note u = create_fallback_channel_message_def [of env key wire ts tt sender rx s, unfolded d sum.case prod.case Let_def nr, folded m_def queued_copy_def,
      unfolded create_heard [OF ts hm] known_empty [OF e]]
  show ?thesis
  proof (cases e)
    case None
    let ?r = "created_row m (rx_path (queued_copy rx)) (rx_path_len (queued_copy rx)) None None (db_next_message (st_db s))"
    let ?s = "snd (create_fallback_channel_message env key wire ts tt sender rx s)"
    have "db_messages (st_db ?s) = db_messages (st_db s) @ [?r]" unfolding u None by simp
    moreover have "paths_list ?r = heard_paths (queued_copy rx)" "mr_acked ?r = 0" "mr_outgoing ?r = False"
      by (simp_all add: paths_list_def created_row_def heard_paths_def build_message_paths_def m_def row_defaults_def queued_copy_def split: option.splits)
    moreover have "announcements ?s = announcements s + 1" unfolding u None by simp
    ultimately show ?thesis using new_copy [of ?k ?t ts s ?r ?s] known_empty [OF e] None hm by (simp add: created_heard copy_taken_def known_echo_def)
  next
    case (Some x)
    then show ?thesis unfolding u using known_copy [OF ok ts e [unfolded Some]] by simp
  qed
qed

lemma own_copy:
  assumes ok: "store_ok s" and ts: "ts \<noteq> 0" and nr: "extract_reaction_from_stored_text MsgChan txt = None"
    and e: "echo_rows key txt ts s = known_echo e"
  shows "copy_taken key txt ts s e (if e = None then Some ([], 0, True) else e)
    (snd (create_outgoing_channel_message key txt ts ra sender sk announce c att state s))"
proof -
  define m where "m = row_defaults\<lparr>mr_type := MsgChan, mr_conversation_key := key, mr_text := txt, mr_sender_timestamp := Some ts,
                mr_received_at := ra, mr_outgoing := True, mr_sender_name := sender, mr_sender_key := sk,
                mr_compression := c, mr_send_attempts := att, mr_send_state := state, mr_is_reaction := (None \<noteq> (None :: ReactionInfo option))\<rparr>"
  have hm: "heard_as key txt ts m" by (simp add: m_def heard_as_def)
  note u = create_outgoing_channel_message_def [of key "txt" ts ra sender sk announce c att state s, unfolded Let_def nr, folded m_def,
      unfolded create_heard [OF ts hm] known_empty [OF e]]
  show ?thesis
  proof (cases e)
    case None
    let ?r = "created_row m None None None None (db_next_message (st_db s))"
    let ?s = "snd (create_outgoing_channel_message key txt ts ra sender sk announce c att state s)"
    have "db_messages (st_db ?s) = db_messages (st_db s) @ [?r]" unfolding u None by simp
    moreover have "paths_list ?r = []" "mr_acked ?r = 0" "mr_outgoing ?r = True"
      by (simp_all add: paths_list_def created_row_def m_def row_defaults_def)
    moreover have "announcements ?s \<le> announcements s + 1" unfolding u None by simp
    ultimately show ?thesis using new_copy [of key "txt" ts s ?r ?s] known_empty [OF e] None hm by (simp add: created_heard copy_taken_def known_echo_def)
  next
    case (Some x)
    then show ?thesis unfolding u using e by (simp add: copy_taken_def)
  qed
qed

lemma take_copy_ok: "store_ok s \<Longrightarrow> store_ok (take_copy env key sender wire body ts cp s)"
  by (cases cp) (auto simp: prod_eq_iff dest: channel_route_ok [OF _ surjective_pairing] queued_channel_ok [OF _ surjective_pairing] send_channel_ok [OF _ surjective_pairing])

lemma take_copy_step:
  assumes "store_ok s" and "ts \<noteq> 0" and "decoded_body env wire = Inr (body, c)"
    and "extract_reaction_from_stored_text MsgChan (with_sender sender body) = None"
    and "echo_rows (upper_key key) (with_sender sender body) ts s = known_echo e"
  shows "copy_taken (upper_key key) (with_sender sender body) ts s e (echo_spec cp e) (take_copy env key sender wire body ts cp s)"
  using assms by (cases cp) (simp_all add: packet_copy queue_copy own_copy del: if_split)

lemma echo_spec_known: "echo_spec cp e \<noteq> None"
  by (cases cp; cases e) auto

lemma take_copies:
  assumes "store_ok s" and "ts \<noteq> 0" and "decoded_body env wire = Inr (body, c)"
    and "extract_reaction_from_stored_text MsgChan (with_sender sender body) = None"
    and "echo_rows (upper_key key) (with_sender sender body) ts s = known_echo e"
  shows "store_ok (fold (take_copy env key sender wire body ts) copies s) \<and>
    copy_taken (upper_key key) (with_sender sender body) ts s e (fold echo_spec copies e) (fold (take_copy env key sender wire body ts) copies s)"
  using assms(1,5)
proof (induction copies arbitrary: s e)
  case Nil
  then show ?case by (simp add: copy_taken_def)
next
  case (Cons cp copies)
  let ?s = "take_copy env key sender wire body ts cp s"
  have 1: "copy_taken (upper_key key) (with_sender sender body) ts s e (echo_spec cp e) ?s" by (rule take_copy_step) (use assms Cons.prems in auto)
  then have "echo_rows (upper_key key) (with_sender sender body) ts ?s = known_echo (echo_spec cp e)" by (simp add: copy_taken_def)
  from Cons.IH [OF take_copy_ok [OF Cons.prems(1)] this] 1 show ?case by (auto simp: copy_taken_def echo_spec_known)
qed

section \<open>Histories\<close>

text \<open>Everything that writes the message and packet tables.\<close>

datatype store_op =
    HearChannel string "ustr option" ustr int bool "int option" reception
  | QueueChannel string ustr int int "ustr option" reception
  | SendChannel string ustr int int "ustr option" "string option" bool "CompressionInfo option" "nat option" "string option"
  | HearDirect DecryptedDirectMessage string bool bool "int option" reception
  | QueueDirect contact_event int
  | SendDirect string ustr int int "CompressionInfo option" "nat option" "nat option" "string option"
  | React msg_type string ReactionInfo bool "message_row option"
  | StorePacket bytes "bytes option" int
  | LinkPacket nat nat
  | PrunePackets int
  | PurgePackets
  | DeleteMessage nat
  | SendAttempt nat string
  | SendState nat string "nat option" "nat option"
  | Acknowledge nat
  | AddPath nat string int "int option" "int option" "pyfloat option"
  | Claim string
  | Backfill string ustr
  | SetCompression nat "CompressionInfo option"
  | WriteContacts "contact_row list"

fun store_step :: "ingest_env \<Rightarrow> (bytes \<Rightarrow> bytes) \<Rightarrow> store_op \<Rightarrow> store \<Rightarrow> store" where
  "store_step env sha (HearChannel key sender wire ts realtime recovered_at rx) s = snd (create_message_from_decrypted env key sender wire ts realtime recovered_at rx s)"
| "store_step env sha (QueueChannel key wire ts ttype sender rx) s = snd (create_fallback_channel_message env key wire ts ttype sender rx s)"
| "store_step env sha (SendChannel key txt ts received_at sender sender_key announce compression attempts state) s =
     snd (create_outgoing_channel_message key txt ts received_at sender sender_key announce compression attempts state s)"
| "store_step env sha (HearDirect decrypted their_key outgoing realtime recovered_at rx) s =
     snd (ingest_decrypted_direct_message env decrypted their_key outgoing realtime recovered_at rx s)"
| "store_step env sha (QueueDirect payload now) s = snd (on_contact_message env payload now s)"
| "store_step env sha (SendDirect key txt ts received_at compression attempts max_attempts state) s =
     snd (create_outgoing_direct_message key txt ts received_at compression attempts max_attempts state s)"
| "store_step env sha (React t key reaction self fallback) s = snd (apply_reaction env t key reaction self fallback s)"
| "store_step env sha (StorePacket data payload timestamp) s = write_db (\<lambda>db. snd (raw_packet_create sha data payload timestamp db)) s"
| "store_step env sha (LinkPacket p i) s = write_db (mark_decrypted p i) s"
| "store_step env sha (PrunePackets cutoff) s = write_db (\<lambda>db. snd (prune_old_undecrypted cutoff db)) s"
| "store_step env sha PurgePackets s = write_db (\<lambda>db. snd (purge_linked_to_messages db)) s"
| "store_step env sha (DeleteMessage i) s = write_db (delete_by_id i) s"
| "store_step env sha (SendAttempt i state) s = write_db (\<lambda>db. snd (record_send_attempt i state db)) s"
| "store_step env sha (SendState i state attempts max_attempts) s = write_db (set_send_state i state attempts max_attempts) s"
| "store_step env sha (Acknowledge i) s = write_db (\<lambda>db. snd (message_increment_ack i db)) s"
| "store_step env sha (AddPath i path received_at path_len rssi snr) s = write_db (\<lambda>db. snd (add_path i path received_at path_len rssi snr db)) s"
| "store_step env sha (Claim key) s = write_db (\<lambda>db. snd (claim_prefix_messages key db)) s"
| "store_step env sha (Backfill key name) s = write_db (\<lambda>db. snd (backfill_channel_sender_key key name db)) s"
| "store_step env sha (SetCompression i c) s = write_db (set_compression i c) s"
| "store_step env sha (WriteContacts rows) s = write_contacts (\<lambda>_. rows) s"

lemma attempt_ok: "db_ok db \<Longrightarrow> db_ok (snd (record_send_attempt i st db))"
  by (simp add: record_send_attempt_def Let_def) (rule update_message_ok, simp_all add: same_index_def)

lemma send_state_ok: "db_ok db \<Longrightarrow> db_ok (set_send_state i st a b db)"
  unfolding set_send_state_def by (rule update_message_ok) (simp_all add: same_index_def)

lemma compression_ok: "db_ok db \<Longrightarrow> db_ok (set_compression i c db)"
  unfolding set_compression_def by (rule update_message_ok) (simp_all add: same_index_def)

lemma store_step_ok:
  assumes "store_ok s"
  shows "store_ok (store_step env sha op s)"
proof (cases op)
  case (HearChannel key sender wire ts realtime recovered_at rx)
  then show ?thesis using channel_route_ok [OF assms surjective_pairing] by simp
next
  case (QueueChannel key wire ts ttype sender rx)
  then show ?thesis using queued_channel_ok [OF assms surjective_pairing] by simp
next
  case (SendChannel key x ts ra sender sk an c at st)
  then show ?thesis using send_channel_ok [OF assms surjective_pairing] by simp
next
  case (HearDirect d k out rt rc rx)
  then show ?thesis using direct_route_ok [OF assms surjective_pairing] by simp
next
  case (QueueDirect ev now)
  then show ?thesis using queued_direct_ok [OF assms surjective_pairing] by simp
next
  case (SendDirect k x ts ra c a ma st)
  then show ?thesis using send_direct_ok [OF assms surjective_pairing] by simp
next
  case (React t k r self fb)
  then show ?thesis using apply_ok [OF assms surjective_pairing] by simp
next
  case (StorePacket d p ts)
  then show ?thesis using raw_create_ok [OF assms surjective_pairing] by simp
next
  case (PrunePackets c)
  then show ?thesis using raw_filter_ok [OF assms] by (simp add: prune_old_undecrypted_def Let_def)
next
  case PurgePackets
  then show ?thesis using raw_filter_ok [OF assms] by (simp add: purge_linked_to_messages_def)
next
  case (Acknowledge i)
  then show ?thesis using ack_ok [OF assms surjective_pairing] by simp
next
  case (AddPath i p ra pl rs sn)
  then show ?thesis using add_path_ok [OF assms surjective_pairing] by simp
next
  case (Claim k)
  then show ?thesis using claim_ok [OF assms surjective_pairing] by simp
next
  case (Backfill k n)
  then show ?thesis using backfill_ok [OF assms surjective_pairing] by simp
qed (use assms in \<open>simp_all add: mark_ok delete_ok attempt_ok send_state_ok compression_ok\<close>)

interpretation message_store: invariant_machine "store_step env sha" store_ok for env sha
  by unfold_locales (rule store_step_ok)

definition empty_store :: store where
  "empty_store = \<lparr>st_db = \<lparr>db_messages = [], db_next_message = 1, db_raw = [], db_next_raw = 1, db_contacts = []\<rparr>, st_events = []\<rparr>"

lemma history_ok: "store_ok (fold (store_step env sha) ops empty_store)"
  by (rule message_store.run_inv) (simp add: empty_store_def db_ok_def)

section \<open>Reactions\<close>

lemma find_map_id: "(\<And>x. P (f x) = P x) \<Longrightarrow> find P (map f xs) = map_option f (find P xs)"
  by (induction xs) auto

lemma hidden_not_candidate:
  "mr_is_reaction r \<Longrightarrow> db_messages db' = db_messages db @ [r] \<Longrightarrow>
    get_recent_for_reaction_matching t key n db' = get_recent_for_reaction_matching t key n db"
  by (simp add: get_recent_for_reaction_matching_def)

text \<open>The message a reaction is for: the newest of the last 500 that carries its hash.\<close>

definition reaction_target :: "ingest_env \<Rightarrow> msg_type \<Rightarrow> string \<Rightarrow> ReactionInfo \<Rightarrow> bool \<Rightarrow> msg_db \<Rightarrow> message_row option" where
  "reaction_target env t key reaction self db =
     find (\<lambda>m. reaction_eligible t (conversation_is_room t key db) self m
        \<and> reaction_hash_for_message m (conversation_is_room t key db) (ie_our_name env) = Some (ri_target_hash reaction))
       (get_recent_for_reaction_matching t key REACTION_MATCH_SCAN_LIMIT db)"

definition with_reaction :: "nat \<Rightarrow> ustr \<Rightarrow> message_row list \<Rightarrow> message_row list" where
  "with_reaction i emoji = map (\<lambda>x. if mr_id x = i then x\<lparr>mr_reactions := Some (json_bump emoji (reactions_list x))\<rparr> else x)"

lemma recent_stored: "m \<in> set (get_recent_for_reaction_matching t key n db) \<Longrightarrow> m \<in> set (db_messages db)"
  by (auto simp: get_recent_for_reaction_matching_def newest_first_def dest!: in_set_takeD)

lemma target_stored: "reaction_target env t key r self db = Some g \<Longrightarrow> g \<in> set (db_messages db)"
  unfolding reaction_target_def by (meson find_SomeD recent_stored)

lemma apply_rows:
  "db_messages (st_db (snd (apply_reaction env t key r self None s))) =
     (case reaction_target env t key r self (st_db s) of None \<Rightarrow> db_messages (st_db s) | Some g \<Rightarrow> with_reaction (mr_id g) (ri_emoji r) (db_messages (st_db s)))"
  "(fst (apply_reaction env t key r self None s) = None) = (reaction_target env t key r self (st_db s) = None)"
  "announcements (snd (apply_reaction env t key r self None s)) = announcements s"
proof -
  have u: "apply_reaction env t key r self None s =
     (case reaction_target env t key r self (st_db s) of None \<Rightarrow> (None, s)
      | Some g \<Rightarrow> (case increment_reaction (mr_id g) (ri_emoji r) (st_db s) of
                (reactions, db1) \<Rightarrow> (Some (g\<lparr>mr_reactions := Some reactions\<rparr>), broadcast (EvReaction (mr_id g) key t reactions) (s\<lparr>st_db := db1\<rparr>))))"
    unfolding apply_reaction_def reaction_target_def [symmetric] Let_def by (cases "reaction_target env t key r self (st_db s)") simp_all
  show "db_messages (st_db (snd (apply_reaction env t key r self None s))) =
     (case reaction_target env t key r self (st_db s) of None \<Rightarrow> db_messages (st_db s) | Some g \<Rightarrow> with_reaction (mr_id g) (ri_emoji r) (db_messages (st_db s)))"
    unfolding u by (simp add: increment_reaction_def Let_def with_reaction_def split: option.splits)
  show "(fst (apply_reaction env t key r self None s) = None) = (reaction_target env t key r self (st_db s) = None)"
    unfolding u by (simp add: increment_reaction_def Let_def split: option.splits)
  show "announcements (snd (apply_reaction env t key r self None s)) = announcements s"
    unfolding u by (simp add: increment_reaction_def Let_def split: option.splits)
qed

lemma target_cong:
  assumes "mr_is_reaction x" and "db_messages db' = db_messages db @ [x]" and "db_contacts db' = db_contacts db"
  shows "reaction_target env t key r self db' = reaction_target env t key r self db"
  using assms by (simp add: reaction_target_def hidden_not_candidate conversation_is_room_def)

lemma land_rows:
  assumes new: "db_messages (st_db s) = rows @ [x]" and x: "mr_id x = mr_id m" "mr_is_reaction x" and ids: "\<forall>r \<in> set rows. mr_id r \<noteq> mr_id m"
    and tgt: "reaction_target env t key r False (st_db s) = tgt"
  shows "db_messages (st_db (snd (land_reaction env t key r m p s))) =
      (case tgt of None \<Rightarrow> rows @ [x\<lparr>mr_is_reaction := False\<rparr>] | Some g \<Rightarrow> with_reaction (mr_id g) (ri_emoji r) (rows @ [x]))
    \<and> announcements (snd (land_reaction env t key r m p s)) = announcements s + (if tgt = None then 1 else 0)"
proof -
  obtain a s1 where a: "apply_reaction env t key r False None s = (a, s1)" by fastforce
  note ar = apply_rows [of env t key r False s, unfolded a fst_conv snd_conv tgt]
  have keep: "map (\<lambda>r. if mr_id r = mr_id m then r\<lparr>mr_is_reaction := False\<rparr> else r) rows = rows" by (rule map_idI) (use ids in auto)
  show ?thesis
  proof (cases tgt)
    case None
    then have "a = None" "db_messages (st_db s1) = rows @ [x]" using ar new by auto
    then show ?thesis using None ar(3) x keep by (simp add: land_reaction_def a unhide_unmatched_reaction_def Let_def set_is_reaction_def)
  next
    case (Some g)
    then obtain v where "a = Some v" using ar(2) by auto
    then show ?thesis using Some ar new by (simp add: land_reaction_def a)
  qed
qed

lemma channel_reaction:
  fixes realtime :: bool and recovered_at :: "int option" and rx :: reception
  assumes ok: "store_ok s" and ts: "ts \<noteq> 0" and d: "decoded_body env wire = Inr (body, c)"
    and rr: "extract_reaction_from_stored_text MsgChan (with_sender sender body) = Some r"
    and new: "echo_rows (upper_key key) (with_sender sender body) ts s = []"
  defines "s' \<equiv> snd (create_message_from_decrypted env key sender wire ts realtime recovered_at rx s)"
    and "tgt \<equiv> reaction_target env MsgChan (upper_key key) r False (st_db s)"
  shows "\<exists>row. db_messages (st_db s') = (case tgt of None \<Rightarrow> db_messages (st_db s) | Some g \<Rightarrow> with_reaction (mr_id g) (ri_emoji r) (db_messages (st_db s))) @ [row]
    \<and> heard_as (upper_key key) (with_sender sender body) ts row \<and> mr_is_reaction row = (tgt \<noteq> None)
    \<and> announcements s' = announcements s + (if tgt = None then 1 else 0)"
proof -
  let ?k = "upper_key key" and ?t = "with_sender sender body" and ?n = "db_next_message (st_db s)"
  define m where "m = row_defaults\<lparr>mr_type := MsgChan, mr_conversation_key := ?k, mr_text := ?t, mr_sender_timestamp := Some ts,
                    mr_received_at := rx_received_at rx, mr_sender_name := sender, mr_sender_key := sole_key_by_name sender (st_db s),
                    mr_transport_code := rx_transport_code rx, mr_region := rx_region rx, mr_compression := c,
                    mr_is_reaction := (Some r \<noteq> None), mr_recovered_at := recovered_at\<rparr>"
  have hm: "heard_as ?k ?t ts m" by (simp add: m_def heard_as_def)
  have none: "filter (heard_as ?k ?t ts) (db_messages (st_db s)) = []" using new by (simp add: echo_rows_def)
  define x where "x = created_row m (rx_path rx) (rx_path_len rx) (rx_rssi rx) (rx_snr rx) ?n"
  define s1 where "s1 = opt_write (rx_packet_id rx) (\<lambda>p. mark_decrypted p ?n)
      (s\<lparr>st_db := (st_db s)\<lparr>db_messages := db_messages (st_db s) @ [x], db_next_message := Suc ?n\<rparr>\<rparr>)"
  define m' where "m' = m\<lparr>mr_id := ?n, mr_paths := build_message_paths rx\<rparr>"
  have u: "s' = snd (land_reaction env MsgChan ?k r m' (rx_packet_id rx) s1)"
    unfolding s'_def create_message_from_decrypted_def d sum.case prod.case Let_def rr m_def [symmetric] create_heard [OF ts hm] none
    by (simp add: s1_def x_def m'_def)
  have rows: "db_messages (st_db s1) = db_messages (st_db s) @ [x]" "announcements s1 = announcements s" by (simp_all add: s1_def)
  have xi: "mr_id x = mr_id m'" "mr_is_reaction x" "heard_as ?k ?t ts x" using hm by (simp_all add: x_def created_heard) (simp_all add: created_row_def m'_def m_def)
  have ids: "\<forall>r \<in> set (db_messages (st_db s)). mr_id r \<noteq> mr_id m'" using ok by (auto simp: db_ok_def m'_def)
  have con: "db_contacts (st_db s1) = db_contacts (st_db s)" by (simp add: s1_def opt_write_def mark_decrypted_def split: option.splits)
  have tg: "reaction_target env MsgChan ?k r False (st_db s1) = tgt" unfolding tgt_def by (rule target_cong [OF xi(2) rows(1) con])
  note l = land_rows [OF rows(1) xi(1,2) ids tg, of "rx_packet_id rx", folded u]
  show ?thesis
  proof (cases tgt)
    case None
    then show ?thesis using l rows xi by (intro exI [of _ "x\<lparr>mr_is_reaction := False\<rparr>"]) (simp add: heard_as_def)
  next
    case (Some g)
    then have "mr_id x \<noteq> mr_id g" using target_stored ids xi(1) by (metis tgt_def)
    then show ?thesis using l rows xi Some by (intro exI [of _ x]) (simp add: with_reaction_def)
  qed
qed

end
