(* ===== verification/DirectIngest.thy ===== *)
theory DirectIngest
  imports ChannelIngest
begin

text \<open>
  What the routes of a direct message do to the store, for a contact that is known: decrypted packets and queued messages meet the same
  row. A claim of prefix messages that would break a unique index raises.
\<close>


section \<open>Copies of a direct message\<close>

definition told_as :: "string \<Rightarrow> ustr \<Rightarrow> int \<Rightarrow> message_row \<Rightarrow> bool" where
  "told_as key txt ts r \<longleftrightarrow> mr_type r = MsgPriv \<and> mr_conversation_key r = key \<and> mr_text r = txt \<and> mr_sender_timestamp r = Some ts \<and> \<not> mr_outgoing r"

abbreviation told_rows :: "string \<Rightarrow> ustr \<Rightarrow> int \<Rightarrow> store \<Rightarrow> message_row list" where
  "told_rows key txt ts s \<equiv> filter (told_as key txt ts) (db_messages (st_db s))"

definition told_paths :: "string \<Rightarrow> ustr \<Rightarrow> int \<Rightarrow> store \<Rightarrow> MessagePath list list" where
  "told_paths key txt ts s = map paths_list (told_rows key txt ts s)"

lemma told_conflict:
  assumes "ts \<noteq> 0" and "told_as key txt ts row" and "key0 row = key" and "told_as key txt ts r \<longrightarrow> mr_sender_key r = Some key"
  shows "conflicts row r \<longleftrightarrow> told_as key txt ts r"
  using assms by (auto simp: told_as_def conflicts_def ts0_def key0_def split: option.splits)

lemma unique_pair: "unique_rows xs \<Longrightarrow> x \<in> set xs \<Longrightarrow> y \<in> set xs \<Longrightarrow> x \<noteq> y \<Longrightarrow> \<not> conflicts x y"
  by (induction xs) (auto simp: list_ex_iff conflicts_sym)

definition authored :: "string \<Rightarrow> ustr \<Rightarrow> int \<Rightarrow> store \<Rightarrow> bool" where
  "authored key txt ts s \<longleftrightarrow> (\<forall>r \<in> set (told_rows key txt ts s). mr_sender_key r = Some key)"

lemma told_once:
  assumes ok: "store_ok s" and a: "authored key txt ts s" and t: "told_rows key txt ts s \<noteq> []"
  shows "\<exists>m. told_rows key txt ts s = [m]"
proof -
  let ?xs = "told_rows key txt ts s"
  have u: "unique_rows ?xs" using ok unique_filter by (simp add: db_ok_def)
  have c: "conflicts x y" if "x \<in> set ?xs" "y \<in> set ?xs" for x y
    using that a by (auto simp: authored_def told_as_def conflicts_def ts0_def key0_def)
  obtain m rest where x: "?xs = m # rest" using t by (cases ?xs) auto
  then have "rest = []" using u c [of m] by (cases rest) (auto simp: list_ex_iff)
  then show ?thesis using x by blast
qed

text \<open>A contact we know, neither a room nor a repeater, that the sender's key or key prefix names.\<close>

definition chat_contact :: "string \<Rightarrow> Contact \<Rightarrow> bool" where
  "chat_contact key c \<longleftrightarrow> lower (c_public_key c) = key \<and> c_type c \<noteq> CONTACT_TYPE_ROOM \<and> c_type c \<noteq> CONTACT_TYPE_REPEATER"

definition peer_known :: "string \<Rightarrow> string \<Rightarrow> contact_row list \<Rightarrow> bool" where
  "peer_known key sender rows \<longleftrightarrow> (case get_by_key key rows of None \<Rightarrow> False | Some c \<Rightarrow> chat_contact key c)
     \<and> (case get_by_key_or_prefix (lower sender) rows of Found c \<Rightarrow> chat_contact key c | _ \<Rightarrow> False)"

lemma peer_known_map:
  assumes f: "\<And>r. ro_public_key (f r) = ro_public_key r" "\<And>r. ro_type (f r) = ro_type r"
  shows "peer_known key sender (map f rows) = peer_known key sender rows"
proof -
  have c: "chat_contact key (row_to_contact (f r)) = chat_contact key (row_to_contact r)" for r
    by (simp add: chat_contact_def row_to_contact_plain f)
  have g: "row_by_key k (map f rows) = map_option f (row_by_key k rows)" for k by (simp add: row_by_key_def find_map_id f)
  have p: "prefix_rows k (map f rows) = map f (prefix_rows k rows)" for k by (simp add: prefix_rows_def filter_map comp_def f)
  show ?thesis unfolding peer_known_def get_by_key_or_prefix_def get_by_key_def g p by (auto simp: c split: option.splits list.splits)
qed

definition same_peers :: "contact_row list \<Rightarrow> contact_row list \<Rightarrow> bool" where
  "same_peers rows rows' \<longleftrightarrow> map ro_public_key rows' = map ro_public_key rows \<and> (\<forall>key sender. peer_known key sender rows' = peer_known key sender rows)"

lemma same_peers_refl [simp]: "same_peers rows rows"
  by (simp add: same_peers_def)

lemma same_peers_trans: "same_peers a b \<Longrightarrow> same_peers b c \<Longrightarrow> same_peers a c"
  by (simp add: same_peers_def)

lemma same_peers_update:
  assumes "\<And>r. ro_public_key (f r) = ro_public_key r" "\<And>r. ro_type (f r) = ro_type r"
  shows "same_peers rows (update_where key f rows)"
  unfolding same_peers_def update_where_def by (intro conjI allI peer_known_map) (simp_all add: assms)

lemma contacts_write [simp]: "db_contacts (st_db (write_contacts f s)) = f (db_contacts (st_db s))" "db_messages (st_db (write_contacts f s)) = db_messages (st_db s)"
  "db_raw (st_db (write_contacts f s)) = db_raw (st_db s)" "announcements (write_contacts f s) = announcements s"
  by (simp_all add: write_contacts_def)

lemma touch_contacts: "same_peers (db_contacts (st_db s)) (db_contacts (st_db (touch_contact d ra s)))"
proof -
  have 1: "same_peers rows (update_last_contacted k t rows)" "same_peers rows (touch_last_seen k t rows)" for rows k t
    unfolding update_last_contacted_def touch_last_seen_def by (rule same_peers_update; simp)+
  show ?thesis by (auto simp: touch_contact_def Let_def 1 same_peers_trans [OF 1(1) 1(2)] split: option.splits)
qed

lemma touch_rest [simp]: "db_messages (st_db (touch_contact d ra s)) = db_messages (st_db s)" "db_raw (st_db (touch_contact d ra s)) = db_raw (st_db s)"
  "announcements (touch_contact d ra s) = announcements s"
  by (simp_all add: touch_contact_def Let_def split: option.splits)

section \<open>The state the copies meet\<close>

definition no_claims :: "string \<Rightarrow> msg_db \<Rightarrow> bool" where
  "no_claims key db \<longleftrightarrow> (\<forall>r \<in> set (db_messages db). \<not> claimable key (db_contacts db) r)"

definition links_own :: "string \<Rightarrow> ustr \<Rightarrow> int \<Rightarrow> nat set \<Rightarrow> store \<Rightarrow> bool" where
  "links_own key txt ts pids s \<longleftrightarrow> (\<forall>p \<in> pids. \<forall>i. get_linked_message_id p (st_db s) = Some i \<longrightarrow> (\<exists>m \<in> set (told_rows key txt ts s). mr_id m = i))"

definition dm_ready :: "string \<Rightarrow> string \<Rightarrow> ustr \<Rightarrow> int \<Rightarrow> nat set \<Rightarrow> store \<Rightarrow> bool" where
  "dm_ready key sender txt ts pids s \<longleftrightarrow> store_ok s \<and> authored key txt ts s \<and> peer_known key sender (db_contacts (st_db s))
     \<and> no_claims key (st_db s) \<and> links_own key txt ts pids s"

lemma claimable_cong:
  assumes "map ro_public_key rows' = map ro_public_key rows"
  shows "claimable key rows' r = claimable key rows r"
proof -
  have "length (filter (P \<circ> ro_public_key) rows') = length (filter (P \<circ> ro_public_key) rows)" for P
    using assms by (metis filter_map length_map)
  from this [of "\<lambda>k. length k = 64 \<and> like_prefix (mr_conversation_key r) k"] show ?thesis unfolding claimable_def by (simp add: comp_def)
qed

lemma claim_none:
  assumes "db_ok db" and "no_claims (lower key) db"
  shows "claim_prefix_messages key db = (Inr 0, db)"
proof -
  have m: "map (\<lambda>r. if claimable (lower key) (db_contacts db) r then claimed_row (lower key) r else r) (db_messages db) = db_messages db"
    by (rule map_idI) (use assms(2) in \<open>auto simp: no_claims_def\<close>)
  have f: "filter (claimable (lower key) (db_contacts db)) (db_messages db) = []" using assms(2) by (simp add: no_claims_def filter_empty_conv)
  show ?thesis using assms(1) by (simp add: claim_prefix_messages_def Let_def m f db_ok_def)
qed

lemma prepare_plain:
  assumes "store_ok s" and "no_claims key (st_db s)" and "chat_contact key c"
  shows "prepare_resolved_contact c s = (Inr (key, False), s)"
proof -
  have "lower (c_public_key c) = key" "lower key = key" using assms(3) by (auto simp: chat_contact_def lower_idem)
  then show ?thesis using assms claim_none [of "st_db s" key] by (simp add: prepare_resolved_contact_def Let_def chat_contact_def)
qed

lemma reconcile_db:
  "\<exists>rows. st_db (reconcile_duplicate_message (m, pid) rx s) =
     (case rx_packet_id rx of None \<Rightarrow> (st_db s)\<lparr>db_messages := rows\<rparr> | Some p \<Rightarrow> mark_decrypted p (mr_id m) ((st_db s)\<lparr>db_messages := rows\<rparr>))"
proof -
  have u: "\<exists>rows. update_message i f (db\<lparr>db_messages := r\<rparr>) = db\<lparr>db_messages := rows\<rparr>" for i f db r by (auto simp: update_message_def)
  have v: "\<exists>rows. db = db\<lparr>db_messages := rows\<rparr>" for db :: msg_db by (rule exI [of _ "db_messages db"]) simp
  define db1 where "db1 = snd (case rx_path rx of Some p \<Rightarrow> add_path (mr_id m) p (rx_received_at rx) (rx_path_len rx) (rx_rssi rx) (rx_snr rx) (st_db s)
      | None \<Rightarrow> (paths_list m, st_db s))"
  define db2 where "db2 = (if scoped m rx then set_transport_scope (mr_id m) (rx_transport_code rx) (rx_region rx) db1 else db1)"
  define db3 where "db3 = snd (if mr_outgoing m \<and> mr_type m = MsgChan then message_increment_ack (mr_id m) db2 else (mr_acked m, db2))"
  obtain r1 where 1: "db1 = (st_db s)\<lparr>db_messages := r1\<rparr>"
    using v [of "st_db s"] by (cases "rx_path rx") (auto simp: db1_def add_path_def Let_def update_message_def)
  have "\<exists>r2. db2 = (st_db s)\<lparr>db_messages := r2\<rparr>" unfolding db2_def 1 set_transport_scope_def using u by (cases "scoped m rx") auto
  then obtain r2 where 2: "db2 = (st_db s)\<lparr>db_messages := r2\<rparr>" by blast
  have "\<exists>r3. db3 = (st_db s)\<lparr>db_messages := r3\<rparr>" unfolding db3_def 2 message_increment_ack_def Let_def using u by (cases "mr_outgoing m \<and> mr_type m = MsgChan") auto
  then obtain r3 where 3: "db3 = (st_db s)\<lparr>db_messages := r3\<rparr>" by blast
  have "st_db (reconcile_duplicate_message (m, pid) rx s) = (case rx_packet_id rx of None \<Rightarrow> db3 | Some p \<Rightarrow> mark_decrypted p (mr_id m) db3)"
    unfolding reconcile_duplicate_message_def Let_def case_prod_beta fst_conv snd_conv scoped_def [symmetric] db1_def [symmetric] db2_def [symmetric] db3_def [symmetric]
    by (cases "rx_packet_id rx") simp_all
  then show ?thesis using 3 by (intro exI [of _ r3]) (simp split: option.splits)
qed

lemma reconcile_contacts: "db_contacts (st_db (reconcile_duplicate_message (m, pid) rx s)) = db_contacts (st_db s)"
proof -
  obtain rows where "st_db (reconcile_duplicate_message (m, pid) rx s) =
     (case rx_packet_id rx of None \<Rightarrow> (st_db s)\<lparr>db_messages := rows\<rparr> | Some p \<Rightarrow> mark_decrypted p (mr_id m) ((st_db s)\<lparr>db_messages := rows\<rparr>))"
    using reconcile_db by blast
  then show ?thesis by (simp add: mark_decrypted_def split: option.splits)
qed

lemma linked_mark: "get_linked_message_id q (mark_decrypted p i db) = Some j \<Longrightarrow> j = i \<or> get_linked_message_id q db = Some j"
  unfolding get_linked_message_id_def mark_decrypted_def by (simp add: find_map_id split: option.splits if_splits)

lemma linked_cong: "db_raw db' = db_raw db \<Longrightarrow> get_linked_message_id q db' = get_linked_message_id q db"
  by (simp add: get_linked_message_id_def)

lemma reconcile_links: "get_linked_message_id q (st_db (reconcile_duplicate_message (m, pid) rx s)) = Some j \<Longrightarrow> j = mr_id m \<or> get_linked_message_id q (st_db s) = Some j"
proof -
  assume a: "get_linked_message_id q (st_db (reconcile_duplicate_message (m, pid) rx s)) = Some j"
  obtain rows where r: "st_db (reconcile_duplicate_message (m, pid) rx s) =
     (case rx_packet_id rx of None \<Rightarrow> (st_db s)\<lparr>db_messages := rows\<rparr> | Some p \<Rightarrow> mark_decrypted p (mr_id m) ((st_db s)\<lparr>db_messages := rows\<rparr>))"
    using reconcile_db by blast
  have "get_linked_message_id q ((st_db s)\<lparr>db_messages := rows\<rparr>) = get_linked_message_id q (st_db s)" by (rule linked_cong) simp
  then show ?thesis using a r linked_mark [of q _ "mr_id m" "(st_db s)\<lparr>db_messages := rows\<rparr>" j] by (auto split: option.splits)
qed

lemma reconciled_told [simp]: "told_as key txt ts (reconciled m rx r) = told_as key txt ts r"
  by (simp add: told_as_def)

lemma reconciled_claim [simp]: "claimable key cs (reconciled m rx r) = claimable key cs r"
  by (simp add: claimable_def)

lemma reconcile_silent: "announcements (reconcile_duplicate_message (m, pid) rx s) = announcements s"
  unfolding reconcile_duplicate_message_def prod.case Let_def case_prod_beta by (cases "rx_packet_id rx") simp_all

lemma known_ready:
  fixes pid :: "nat option" and rx :: reception
  assumes r: "dm_ready key sender txt ts pids s" and m: "told_rows key txt ts s = [m]"
  defines "s' \<equiv> reconcile_duplicate_message (m, pid) rx s"
  shows "dm_ready key sender txt ts pids s' \<and> told_paths key txt ts s' = [paths_list m @ heard_paths rx] \<and> announcements s' = announcements s"
proof -
  let ?g = "\<lambda>r. if mr_id r = mr_id m then reconciled m rx r else r"
  have rows: "db_messages (st_db s') = map ?g (db_messages (st_db s))" unfolding s'_def by (rule reconcile_rows)
  have "told_as key txt ts \<circ> ?g = told_as key txt ts" by (rule ext) simp
  then have told: "told_rows key txt ts s' = [reconciled m rx m]" unfolding rows filter_map by (simp add: m)
  have mk: "mr_sender_key m = Some key" using r m by (simp add: dm_ready_def authored_def)
  have "store_ok s'" using r reconciling_ok by (simp add: s'_def dm_ready_def)
  moreover have "authored key txt ts s'" using told mk by (simp add: authored_def)
  moreover have c: "db_contacts (st_db s') = db_contacts (st_db s)" unfolding s'_def by (rule reconcile_contacts)
  moreover have "no_claims key (st_db s')" using r by (auto simp: dm_ready_def no_claims_def rows c)
  moreover have "links_own key txt ts pids s'" using r reconcile_links [of _ m pid rx s, folded s'_def] told m
    by (fastforce simp: dm_ready_def links_own_def)
  ultimately have "dm_ready key sender txt ts pids s'" using r by (simp add: dm_ready_def)
  then show ?thesis using told reconcile_silent by (simp add: told_paths_def s'_def)
qed

lemma fresh_ready:
  assumes r: "dm_ready key sender txt ts pids s" and m: "told_rows key txt ts s = []" and len: "length key = 64"
    and row: "told_as key txt ts row" "mr_sender_key row = Some key" "mr_id row = db_next_message (st_db s)"
    and ok: "store_ok s'" and rows: "db_messages (st_db s') = db_messages (st_db s) @ [row]" and con: "same_peers (db_contacts (st_db s)) (db_contacts (st_db s'))"
    and raw: "\<And>q j. get_linked_message_id q (st_db s') = Some j \<Longrightarrow> j = mr_id row \<or> get_linked_message_id q (st_db s) = Some j"
  shows "dm_ready key sender txt ts pids s' \<and> told_paths key txt ts s' = [paths_list row]"
proof -
  have told: "told_rows key txt ts s' = [row]" using m row rows by simp
  have "claimable key (db_contacts (st_db s')) x = claimable key (db_contacts (st_db s)) x" for x using con by (intro claimable_cong) (simp add: same_peers_def)
  moreover have "\<not> claimable key cs row" for cs using row(1) len by (simp add: claimable_def told_as_def)
  ultimately have "no_claims key (st_db s')" using r by (auto simp: dm_ready_def no_claims_def rows)
  moreover have "links_own key txt ts pids s'" using r raw told m by (fastforce simp: dm_ready_def links_own_def)
  moreover have "authored key txt ts s'" using told row by (simp add: authored_def)
  ultimately show ?thesis using r ok con told by (simp add: dm_ready_def same_peers_def told_paths_def)
qed

lemma told_content:
  "get_by_content MsgPriv key txt (Some ts) (Some False) db = (case filter (told_as key txt ts) (db_messages db) of [] \<Rightarrow> None | m # _ \<Rightarrow> Some (read_row db m))"
proof -
  have "(\<lambda>r. mr_type r = MsgPriv \<and> mr_conversation_key r = key \<and> mr_text r = txt \<and> mr_sender_timestamp r = Some ts \<and> mr_outgoing r = False) = told_as key txt ts"
    by (auto simp: told_as_def)
  then show ?thesis by (simp add: get_by_content_def find_filter split: list.splits)
qed

lemma message_found:
  assumes "store_ok s" and "m \<in> set (db_messages (st_db s))"
  shows "get_by_id (mr_id m) (st_db s) = Some (read_row (st_db s) m)"
proof -
  have "message_by_id (mr_id m) (st_db s) \<noteq> None" unfolding message_by_id_def find_None_iff using assms(2) by blast
  then obtain x where x: "message_by_id (mr_id m) (st_db s) = Some x" by blast
  have "x \<in> set (db_messages (st_db s))" "mr_id x = mr_id m" using find_SomeD [OF x [unfolded message_by_id_def]] by auto
  then have "x = m" using rows_distinct [OF assms(1)] assms(2) by (auto simp: inj_on_def)
  then show ?thesis using x by (simp add: get_by_id_def)
qed

lemma told_create:
  assumes ts: "ts \<noteq> 0" and t: "told_as key txt ts m" and k: "mr_sender_key m = Some key" "lower key = key" "key \<noteq> []" and a: "authored key txt ts s"
  shows "message_create m path path_len rssi snr (st_db s) =
    (if told_rows key txt ts s = []
     then (Some (db_next_message (st_db s)),
           (st_db s)\<lparr>db_messages := db_messages (st_db s) @ [created_row m path path_len rssi snr (db_next_message (st_db s))],
             db_next_message := Suc (db_next_message (st_db s))\<rparr>)
     else (None, st_db s))"
proof -
  let ?row = "created_row m path path_len rssi snr (db_next_message (st_db s))"
  have "told_as key txt ts ?row" "key0 ?row = key" using t k by (simp_all add: told_as_def created_row_def key0_def)
  then have "\<forall>r \<in> set (db_messages (st_db s)). conflicts ?row r \<longleftrightarrow> told_as key txt ts r" using told_conflict [OF ts] a by (auto simp: authored_def)
  then have "list_ex (conflicts ?row) (db_messages (st_db s)) \<longleftrightarrow> told_rows key txt ts s \<noteq> []" by (auto simp: list_ex_iff filter_empty_conv)
  then show ?thesis unfolding message_create_def created_row_def [symmetric] Let_def by (simp add: created_row_def)
qed

lemma linked_opt: "get_linked_message_id q (st_db (opt_write x (\<lambda>p. mark_decrypted p i) s)) = Some j \<Longrightarrow> j = i \<or> get_linked_message_id q (st_db s) = Some j"
  by (cases x) (auto simp: opt_write_def dest: linked_mark)

definition dm_copy_taken :: "string \<Rightarrow> string \<Rightarrow> ustr \<Rightarrow> int \<Rightarrow> nat set \<Rightarrow> reception \<Rightarrow> store \<Rightarrow> store \<Rightarrow> bool" where
  "dm_copy_taken key sender txt ts pids rx s s' \<longleftrightarrow> dm_ready key sender txt ts pids s'
     \<and> told_paths key txt ts s' = [concat (told_paths key txt ts s) @ heard_paths rx]
     \<and> announcements s' = announcements s + (if told_paths key txt ts s = [] then 1 else 0)"

lemma new_direct:
  assumes r: "dm_ready key sender txt ts pids s" and ts: "ts \<noteq> 0" and len: "length key = 64" and nr: "parse_reaction txt = None"
    and f: "df_conversation_key d = key" "df_sender_timestamp d = ts" "df_outgoing d = False" "df_sender_key d = Some key"
    and none: "told_rows key txt ts s = []" and low: "lower key = key"
  shows "dm_copy_taken key sender txt ts pids rx s (snd (store_new_direct_message env d txt c rx s))"
proof -
  let ?n = "db_next_message (st_db s)"
  define m where "m = row_defaults\<lparr>mr_type := MsgPriv, mr_conversation_key := key, mr_text := txt, mr_sender_timestamp := Some ts,
                mr_received_at := rx_received_at rx, mr_txt_type := df_txt_type d, mr_signature := df_signature d, mr_outgoing := False,
                mr_sender_key := Some key, mr_sender_name := df_sender_name d, mr_transport_code := rx_transport_code rx, mr_region := rx_region rx,
                mr_compression := c, mr_is_reaction := (None \<noteq> (None :: ReactionInfo option)), mr_recovered_at := df_recovered_at d\<rparr>"
  have tm: "told_as key txt ts m" "mr_sender_key m = Some key" by (simp_all add: m_def told_as_def)
  have ne: "key \<noteq> []" using len by auto
  have a: "authored key txt ts s" using r by (simp add: dm_ready_def)
  define x where "x = created_row m (rx_path rx) (rx_path_len rx) (rx_rssi rx) (rx_snr rx) ?n"
  define s' where "s' = snd (store_new_direct_message env d txt c rx s)"
  define s1 where "s1 = opt_write (rx_packet_id rx) (\<lambda>p. mark_decrypted p ?n)
      (s\<lparr>st_db := (st_db s)\<lparr>db_messages := db_messages (st_db s) @ [x], db_next_message := Suc ?n\<rparr>\<rparr>)"
  define m' where "m' = m\<lparr>mr_id := ?n, mr_paths := build_message_paths rx\<rparr>"
  have u: "s' = touch_contact d (rx_received_at rx) (broadcast (NoteChunk txt ?n key) (broadcast (EvMessage m' (rx_packet_id rx) (Some (df_realtime d))) s1))"
    unfolding s'_def store_new_direct_message_def nr Let_def f m_def [symmetric] told_create [OF ts tm low ne a] none
    by (simp add: s1_def x_def m'_def)
  have ok: "store_ok s'" unfolding s'_def by (rule store_new_ok [OF _ surjective_pairing]) (use r in \<open>simp add: dm_ready_def\<close>)
  have xs: "told_as key txt ts x" "mr_sender_key x = Some key" "mr_id x = ?n" using tm low ne by (simp_all add: x_def created_row_def told_as_def)
  have raw1: "db_contacts (st_db s1) = db_contacts (st_db s)" by (simp add: s1_def opt_write_def mark_decrypted_def split: option.splits)
  have link: "j = mr_id x \<or> get_linked_message_id q (st_db s) = Some j" if "get_linked_message_id q (st_db s') = Some j" for q j
  proof -
    have "get_linked_message_id q (st_db s') = get_linked_message_id q (st_db s1)" by (rule linked_cong) (simp add: u)
    moreover have "get_linked_message_id q ((st_db s)\<lparr>db_messages := db_messages (st_db s) @ [x], db_next_message := Suc ?n\<rparr>) = get_linked_message_id q (st_db s)"
      by (rule linked_cong) simp
    ultimately show ?thesis using that xs(3) linked_opt [of q "rx_packet_id rx" ?n _ j, folded s1_def] unfolding s1_def by fastforce
  qed
  have con: "same_peers (db_contacts (st_db s)) (db_contacts (st_db s'))"
    using touch_contacts [of "broadcast (NoteChunk txt ?n key) (broadcast (EvMessage m' (rx_packet_id rx) (Some (df_realtime d))) s1)" d "rx_received_at rx"]
    by (simp add: u raw1)
  have rows: "db_messages (st_db s') = db_messages (st_db s) @ [x]" by (simp add: u s1_def)
  have p: "paths_list x = heard_paths rx"
    by (simp add: paths_list_def x_def created_row_def heard_paths_def build_message_paths_def m_def row_defaults_def split: option.splits)
  from fresh_ready [OF r none len xs ok rows con link] show ?thesis
    unfolding dm_copy_taken_def s'_def [symmetric] using none p by (simp add: told_paths_def) (simp add: u s1_def)
qed

lemma known_direct:
  assumes r: "dm_ready key sender txt ts pids s" and m: "told_rows key txt ts s = [m]"
  shows "dm_copy_taken key sender txt ts pids rx s (reconcile_duplicate_message (read_row (st_db s) m) rx s)"
  unfolding dm_copy_taken_def read_row_def using known_ready [OF r m] m by (simp add: told_paths_def)

lemma store_direct_step:
  assumes r: "dm_ready key sender txt ts pids s" and ts: "ts \<noteq> 0" and len: "length key = 64" and nr: "parse_reaction txt = None"
    and b: "decoded_body env wire = Inr (txt, c)" "\<not> is_tunnel_chunk txt"
    and f: "df_conversation_key d = key" "df_sender_timestamp d = ts" "df_outgoing d = False" "df_sender_key d = Some key"
    and pid: "\<And>p. rx_packet_id rx = Some p \<Longrightarrow> p \<in> pids" and low: "lower key = key"
  shows "dm_copy_taken key sender txt ts pids rx s (snd (store_direct_message env d wire rx s))"
proof -
  have ok: "store_ok s" "authored key txt ts s" "links_own key txt ts pids s" using r by (simp_all add: dm_ready_def)
  have ne: "key \<noteq> []" using len by auto
  have g: "is_tunnel_chunk txt = False" using b(2) by simp
  note u = store_direct_message_def [of env d wire rx s, unfolded b(1) sum.case prod.case g if_False]
  show ?thesis
  proof (cases "told_rows key txt ts s = []")
    case True
    have l: "linked_message d rx (st_db s) = None" using ok(3) pid True by (auto simp: linked_message_def links_own_def split: option.splits)
    have t: "twin_message d txt (st_db s) = None" using True by (simp add: twin_message_def f told_content)
    show ?thesis unfolding u l t option.case using new_direct [OF r ts len nr f True low] by (simp add: case_prod_beta)
  next
    case False
    then obtain m where m: "told_rows key txt ts s = [m]" using told_once [OF ok(1,2)] by blast
    have mem: "m \<in> set (db_messages (st_db s))" proof -
      have "m \<in> set (told_rows key txt ts s)" unfolding m by simp
      then show ?thesis by simp
    qed
    have l: "linked_message d rx (st_db s) = None \<or> linked_message d rx (st_db s) = Some (read_row (st_db s) m)"
      using ok(3) pid m message_found [OF ok(1) mem] by (auto simp: linked_message_def links_own_def split: option.splits)
    have t: "twin_message d txt (st_db s) = None \<or> twin_message d txt (st_db s) = Some (read_row (st_db s) m)"
      using m by (simp add: twin_message_def f told_content)
    have n: "snd (store_new_direct_message env d txt c rx s) = reconcile_duplicate_message (read_row (st_db s) m) rx s"
    proof -
      define mm where "mm = row_defaults\<lparr>mr_type := MsgPriv, mr_conversation_key := key, mr_text := txt, mr_sender_timestamp := Some ts,
                mr_received_at := rx_received_at rx, mr_txt_type := df_txt_type d, mr_signature := df_signature d, mr_outgoing := False,
                mr_sender_key := Some key, mr_sender_name := df_sender_name d, mr_transport_code := rx_transport_code rx, mr_region := rx_region rx,
                mr_compression := c, mr_is_reaction := (None \<noteq> (None :: ReactionInfo option)), mr_recovered_at := df_recovered_at d\<rparr>"
      have tm: "told_as key txt ts mm" "mr_sender_key mm = Some key" by (simp_all add: mm_def told_as_def)
      show ?thesis unfolding store_new_direct_message_def nr Let_def f mm_def [symmetric] told_create [OF ts tm low ne ok(2)]
        using m by (simp add: handle_duplicate_message_def told_content)
    qed
    show ?thesis unfolding u using l t n known_direct [OF r m] by (auto simp: case_prod_beta)
  qed
qed

text \<open>A copy of an incoming direct message: from a decrypted packet or from the radio's queue.\<close>

datatype direct_copy = DmPacket DecryptedDirectMessage bool "int option" reception | DmQueue contact_event int

definition queued_direct :: "contact_event \<Rightarrow> int \<Rightarrow> reception" where
  "queued_direct ev now = \<lparr>rx_packet_id = None, rx_path = ce_path ev, rx_received_at = now, rx_path_len = ce_path_len ev, rx_rssi = None,
     rx_snr = None, rx_transport_code = None, rx_region = None\<rparr>"

fun direct_reception :: "direct_copy \<Rightarrow> reception" where
  "direct_reception (DmPacket d realtime recovered_at rx) = rx"
| "direct_reception (DmQueue ev now) = queued_direct ev now"

fun take_direct :: "ingest_env \<Rightarrow> string \<Rightarrow> direct_copy \<Rightarrow> store \<Rightarrow> store" where
  "take_direct env key (DmPacket d realtime recovered_at rx) s = snd (ingest_decrypted_direct_message env d key False realtime recovered_at rx s)"
| "take_direct env key (DmQueue ev now) s = snd (on_contact_message env ev now s)"

fun direct_copy_of :: "string \<Rightarrow> ustr \<Rightarrow> int \<Rightarrow> nat set \<Rightarrow> direct_copy \<Rightarrow> bool" where
  "direct_copy_of sender wire ts pids (DmPacket d realtime recovered_at rx) \<longleftrightarrow> txt_type d \<noteq> 1 \<and> dm_message d = wire \<and> int (dm_timestamp d) = ts
     \<and> (case rx_packet_id rx of None \<Rightarrow> True | Some p \<Rightarrow> p \<in> pids)"
| "direct_copy_of sender wire ts pids (DmQueue ev now) \<longleftrightarrow> ce_txt_type ev \<noteq> 1 \<and> ce_text ev = wire \<and> ce_sender_timestamp ev = Some ts
     \<and> (case non_empty (ce_public_key ev) of Some k \<Rightarrow> k | None \<Rightarrow> ce_pubkey_prefix ev) = sender"

lemma peer_facts:
  assumes "peer_known key sender rows"
  obtains c c' where "get_by_key key rows = Some c" "chat_contact key c" "get_by_key_or_prefix (lower sender) rows = Found c'" "chat_contact key c'" "lower key = key"
proof -
  obtain c where c: "get_by_key key rows = Some c" "chat_contact key c" using assms by (auto simp: peer_known_def split: option.splits)
  obtain c' where c': "get_by_key_or_prefix (lower sender) rows = Found c'" "chat_contact key c'" using assms by (auto simp: peer_known_def split: lookup.splits)
  have "lower key = key" using c(2) by (auto simp: chat_contact_def lower_idem)
  then show thesis using that c c' by blast
qed

lemma packet_direct_step:
  assumes r: "dm_ready key sender txt ts pids s" and ts: "ts \<noteq> 0" and len: "length key = 64" and nr: "parse_reaction txt = None"
    and b: "decoded_body env wire = Inr (txt, c)" "\<not> is_tunnel_chunk txt" and cp: "direct_copy_of sender wire ts pids (DmPacket d rt rc rx)"
  shows "dm_copy_taken key sender txt ts pids rx s (snd (ingest_decrypted_direct_message env d key False rt rc rx s))"
proof -
  have ok: "store_ok s" "no_claims key (st_db s)" using r by (simp_all add: dm_ready_def)
  obtain k where k: "get_by_key key (db_contacts (st_db s)) = Some k" "chat_contact key k" "lower key = key"
    using r peer_facts by (metis dm_ready_def)
  have p: "prepare_resolved_contact k s = (Inr (key, False), s)" by (rule prepare_plain [OF ok k(2)])
  have q: "decrypted_sender d (Some k) False key s = (Inr (c_name k, Some key, None), s)"
    using k(2) by (simp add: decrypted_sender_def chat_contact_def split: option.splits)
  have t: "(\<not> False \<and> txt_type d = 1) = False" and w: "dm_message d = wire" using cp by simp_all
  show ?thesis unfolding ingest_decrypted_direct_message_def Let_def k(3) k(1) option.case p prod.case sum.case q t w if_False
    by (rule store_direct_step [OF r ts len nr b]) (use cp k(3) in \<open>auto split: option.splits\<close>)
qed

lemma queue_direct_step:
  assumes r: "dm_ready key sender txt ts pids s" and ts: "ts \<noteq> 0" and len: "length key = 64" and nr: "parse_reaction txt = None"
    and b: "decoded_body env wire = Inr (txt, c)" "\<not> is_tunnel_chunk txt" and cp: "direct_copy_of sender wire ts pids (DmQueue ev now)"
  shows "dm_copy_taken key sender txt ts pids (queued_direct ev now) s (snd (on_contact_message env ev now s))"
proof -
  have ok: "store_ok s" "no_claims key (st_db s)" using r by (simp_all add: dm_ready_def)
  obtain k where k: "get_by_key_or_prefix (lower sender) (db_contacts (st_db s)) = Found k" "chat_contact key k" "lower key = key"
    using r peer_facts by (metis dm_ready_def)
  have p: "prepare_resolved_contact k s = (Inr (key, False), s)" by (rule prepare_plain [OF ok k(2)])
  have x: "resolve_fallback_direct_message_context sender now s =
     (Inr \<lparr>fc_conversation_key = key, fc_contact = Some k, fc_sender_name = c_name k, fc_sender_key = Some key, fc_skip_storage = False\<rparr>, s)"
    unfolding resolve_fallback_direct_message_context_def Let_def k(1) lookup.case p by simp
  have t: "(ce_txt_type ev = 1) = False" "(case non_empty (ce_public_key ev) of Some k \<Rightarrow> k | None \<Rightarrow> ce_pubkey_prefix ev) = sender"
    "ce_sender_timestamp ev = Some ts" "ce_text ev = wire" using cp by simp_all
  have room: "(c_type k = CONTACT_TYPE_ROOM) = False" using k(2) by (simp add: chat_contact_def)
  show ?thesis unfolding on_contact_message_def Let_def t if_False x prod.case sum.case FallbackDirectMessageContext.simps option.case room simp_thms
    unfolding ingest_fallback_direct_message_def queued_direct_def [symmetric]
    using store_direct_step [OF r ts len nr b, of _ "queued_direct ev now"] k(3) by (simp add: queued_direct_def)
qed

lemma take_direct_step:
  assumes "dm_ready key sender txt ts pids s" and "ts \<noteq> 0" and "length key = 64" and "parse_reaction txt = None"
    and "decoded_body env wire = Inr (txt, c)" "\<not> is_tunnel_chunk txt" and "direct_copy_of sender wire ts pids cp"
  shows "dm_copy_taken key sender txt ts pids (direct_reception cp) s (take_direct env key cp s)"
proof (cases cp)
  case (DmPacket d rt rc rx)
  then show ?thesis using packet_direct_step [OF assms(1-6)] assms(7) by simp
next
  case (DmQueue ev now)
  then show ?thesis using queue_direct_step [OF assms(1-6)] assms(7) by simp
qed

lemma take_directs:
  assumes "dm_ready key sender txt ts pids s" and "ts \<noteq> 0" and "length key = 64" and "parse_reaction txt = None"
    and "decoded_body env wire = Inr (txt, c)" "\<not> is_tunnel_chunk txt" and "list_all (direct_copy_of sender wire ts pids) copies"
  shows "dm_ready key sender txt ts pids (fold (take_direct env key) copies s) \<and>
    told_paths key txt ts (fold (take_direct env key) copies s) =
      (if copies = [] then told_paths key txt ts s else [concat (told_paths key txt ts s) @ concat (map (heard_paths \<circ> direct_reception) copies)]) \<and>
    announcements (fold (take_direct env key) copies s) = announcements s + (if copies \<noteq> [] \<and> told_paths key txt ts s = [] then 1 else 0)"
  using assms(1,7)
proof (induction copies arbitrary: s)
  case (Cons cp copies)
  have 1: "dm_copy_taken key sender txt ts pids (direct_reception cp) s (take_direct env key cp s)"
    by (rule take_direct_step) (use assms Cons.prems in auto)
  then have "dm_ready key sender txt ts pids (take_direct env key cp s)" by (simp add: dm_copy_taken_def)
  from Cons.IH [OF this] Cons.prems(2) 1 show ?case by (auto simp: dm_copy_taken_def)
qed simp

section \<open>Claims that collide\<close>

lemma claim_collides:
  assumes rows: "a \<in> set (db_messages db)" "b \<in> set (db_messages db)" "a \<noteq> b"
    and a: "claimable (lower key) (db_contacts db) a" and b: "\<not> claimable (lower key) (db_contacts db) b"
    and ab: "conflicts (claimed_row (lower key) a) b" and ids: "inj_on mr_id (set (db_messages db))"
  shows "claim_prefix_messages key db = (Inl IntegrityError, db)"
proof -
  let ?f = "\<lambda>r. if claimable (lower key) (db_contacts db) r then claimed_row (lower key) r else r"
  have m: "?f a \<in> set (map ?f (db_messages db))" "?f b \<in> set (map ?f (db_messages db))" using rows by auto
  have "mr_id (?f a) \<noteq> mr_id (?f b)" using rows ids a b by (auto simp: claimed_row_def inj_on_def)
  then have "\<not> unique_rows (map ?f (db_messages db))" using unique_pair [OF _ m] ab a b by auto
  then show ?thesis by (simp add: claim_prefix_messages_def Let_def)
qed

end
