(* ===== verification/IngestProperties.thy ===== *)
theory IngestProperties
  imports DirectIngest
begin

text \<open>
  The properties of the message store and of the routes into it, with examples.
\<close>


lemma plain_body_decodes: "plain_body t \<Longrightarrow> decoded_body env t = Inr (t, None)"
  by (simp add: decoded_body_def decode_and_describe_def try_decode_incoming_def plain_body_def Let_def)

lemma reaction_wire:
  assumes "hash_text h" and "emoji_to_index_hex e = Some x"
  shows "plain_body (encode_reaction h x)" "encode_outbound co (encode_reaction h x) v ts = Some (Inr (encode_reaction h x))" "encode_reaction h x \<noteq> []"
proof -
  obtain rest where r: "encode_reaction h x = 114 # 58 # rest" by (simp add: encode_reaction_def utext_def)
  show "plain_body (encode_reaction h x)" by (simp add: r plain_body_def lstrip_def uspace_def PREFIX_MCT_def PREFIX_V2_def PREFIX_V3_def utext_def starts_with_def)
  show "encode_outbound co (encode_reaction h x) v ts = Some (Inr (encode_reaction h x))" using reaction_inverse(2) [OF assms] by (simp add: encode_outbound_def is_framed_payload_def)
  show "encode_reaction h x \<noteq> []" by (simp add: r)
qed

lemma find_first: "find P (xs @ x # ys) = Some x" if "P x" and "\<And>y. y \<in> set xs \<Longrightarrow> \<not> P y"
  using that by (induction xs) auto

lemma target_is:
  assumes "get_recent_for_reaction_matching MsgChan key REACTION_MATCH_SCAN_LIMIT db = newer @ m # older"
    and "reaction_hash_for_message m False (ie_our_name env) = Some h" and "\<And>n. n \<in> set newer \<Longrightarrow> reaction_hash_for_message n False (ie_our_name env) \<noteq> Some h"
  shows "reaction_target env MsgChan key \<lparr>ri_target_hash = h, ri_emoji = e\<rparr> False db = Some m"
  unfolding reaction_target_def assms(1) using assms(2,3) by (intro find_first) (auto simp: reaction_eligible_def conversation_is_room_def)

text \<open>C10: A reaction reaches its message: the text a peer encodes for a channel message goes over the air as it is under every compression
  setting, and when it arrives the newest of the last 500 messages with that hash gets one more of the emoji, the reaction itself is stored
  hidden and is not announced, and no other message changes.\<close>

theorem reaction_reaches_target:
  assumes "store_ok s" and "ts \<noteq> 0" and "name_splits sender" and "emoji_to_index_hex e = Some x"
    and "reaction_hash_for_message m False (ie_our_name env) = Some h"
    and "get_recent_for_reaction_matching MsgChan (upper_key key) REACTION_MATCH_SCAN_LIMIT (st_db s) = newer @ m # older"
    and "\<forall>n \<in> set newer. reaction_hash_for_message n False (ie_our_name env) \<noteq> Some h"
    and "echo_rows (upper_key key) (with_sender (Some sender) (encode_reaction h x)) ts s = []"
  shows "encode_outbound (ie_codecs env) (encode_reaction h x) version now = Some (Inr (encode_reaction h x))
    \<and> (let s' = snd (create_message_from_decrypted env key (Some sender) (encode_reaction h x) ts realtime recovered_at rx s)
       in \<exists>row. db_messages (st_db s') = with_reaction (mr_id m) e (db_messages (st_db s)) @ [row] \<and> mr_is_reaction row \<and> announcements s' = announcements s)"
proof -
  have h: "hash_text h" using assms(5) computed_hash_text by (auto simp: reaction_hash_for_message_def)
  note w = reaction_wire [OF h assms(4)]
  have d: "decoded_body env (encode_reaction h x) = Inr (encode_reaction h x, None)" by (rule plain_body_decodes [OF w(1)])
  have "sender \<noteq> []" using assms(3) by (simp add: name_splits_def)
  then have t: "extract_reaction_from_stored_text MsgChan (with_sender (Some sender) (encode_reaction h x)) = Some \<lparr>ri_target_hash = h, ri_emoji = e\<rparr>"
    using split_named [OF assms(3) w(3)] reaction_inverse(1) [OF h assms(4)]
    by (simp add: extract_reaction_from_stored_text_def with_sender_def non_empty_def truthy_def)
  have g: "reaction_target env MsgChan (upper_key key) \<lparr>ri_target_hash = h, ri_emoji = e\<rparr> False (st_db s) = Some m"
    by (rule target_is [OF assms(6) assms(5)]) (use assms(7) in blast)
  show ?thesis using w(2) channel_reaction [OF assms(1,2) d t assms(8), of realtime recovered_at rx] unfolding g by (auto simp: Let_def)
qed

text \<open>C7: However often and by whichever routes one channel message comes in (decrypted packets, the radio's queue, our own send, in any
  order), the store holds one row for it: its paths are those of all copies heard, in order; if we sent it first, every copy counts as one
  repeat; it is announced at most once; and no other row changes.\<close>

theorem channel_copies_merge:
  assumes "store_ok s" and "ts \<noteq> 0" and "decoded_body env wire = Inr (body, c)"
    and "extract_reaction_from_stored_text MsgChan (with_sender sender body) = None"
    and "echo_rows (upper_key key) (with_sender sender body) ts s = known_echo e"
  shows "let s' = fold (take_copy env key sender wire body ts) copies s
    in echo_rows (upper_key key) (with_sender sender body) ts s' = known_echo (fold echo_spec copies e)
      \<and> unheard_rows (upper_key key) (with_sender sender body) ts s' = unheard_rows (upper_key key) (with_sender sender body) ts s
      \<and> announcements s' \<le> announcements s + (if e = None then 1 else 0)"
  using take_copies [OF assms] by (simp add: copy_taken_def Let_def)

text \<open>After any history of receptions, sends, reactions, claims, deletions and packet bookkeeping the message table is sound: no two
  rows have the same key in a unique index, ids ascend and are below the next one, and no payload is stored twice.\<close>

theorem message_history_sound:
  "let db = st_db (fold (store_step env sha) ops empty_store)
   in unique_rows (db_messages db) \<and> sorted_wrt (<) (map mr_id (db_messages db)) \<and> list_all (\<lambda>r. mr_id r < db_next_message db) (db_messages db)
     \<and> distinct (map rp_payload_hash (db_raw db)) \<and> distinct (map rp_id (db_raw db))"
  using history_ok [of env sha ops] by (simp add: db_ok_def list_all_iff Let_def)

text \<open>C33: A client that loads a conversation page by page, each page before the last row it has, gets every row its filter shows exactly once,
  newest first, whatever the page size and whatever happened to the store before.\<close>

theorem message_pages:
  assumes "0 < limit" and "length (filter (shown f) (db_messages (st_db (fold (store_step env sha) ops empty_store)))) < n"
  shows "load_pages n f limit (NoCursor 0) (st_db (fold (store_step env sha) ops empty_store))
    = newest_first (filter (shown f) (db_messages (st_db (fold (store_step env sha) ops empty_store))))"
  by (rule load_all [OF history_ok assms])

text \<open>C8: An incoming direct message of a known contact is stored once however often it comes in, from decrypted packets, repeated ones
  included, and from the radio's queue, in any order: one row with the paths of all copies in order, announced once.\<close>

theorem direct_copies_merge:
  assumes "dm_ready key sender txt ts pids s" and "ts \<noteq> 0" and "length key = 64" and "parse_reaction txt = None"
    and "decoded_body env wire = Inr (txt, c)" and "\<not> is_tunnel_chunk txt" and "list_all (direct_copy_of sender wire ts pids) copies" and "copies \<noteq> []"
  shows "let s' = fold (take_direct env key) copies s
    in told_paths key txt ts s' = [concat (told_paths key txt ts s) @ concat (map (heard_paths \<circ> direct_reception) copies)]
      \<and> announcements s' = announcements s + (if told_paths key txt ts s = [] then 1 else 0)"
  using take_directs [OF assms(1-7)] assms(8) by (simp add: Let_def)

text \<open>C40: A direct message stored twice, once under a key prefix and once under the full key, blocks its contact: as soon as the prefix is
  unambiguous the claim breaks the unique index, so every further direct message of the contact raises and is not stored.\<close>

theorem claim_conflict_blocks:
  assumes "store_ok s" and "a \<in> set (db_messages (st_db s))" and "b \<in> set (db_messages (st_db s))" and "claimable key (db_contacts (st_db s)) a"
    and "mr_conversation_key b = key" and "length key = 64" and "conflicts (claimed_row key a) b"
    and "get_by_key key (db_contacts (st_db s)) = Some k" and "lower (c_public_key k) = key"
    and "outgoing \<or> txt_type decrypted \<noteq> 1"
  shows "ingest_decrypted_direct_message env decrypted key outgoing realtime recovered_at rx s = (Inl IntegrityError, s)"
proof -
  have low: "lower key = key" using assms(9) by (auto simp: lower_idem)
  have nb: "\<not> claimable key (db_contacts (st_db s)) b" using assms(5,6) by (simp add: claimable_def)
  have "a \<noteq> b" using nb assms(4) by auto
  then have "claim_prefix_messages key (st_db s) = (Inl IntegrityError, st_db s)"
    using claim_collides [of a "st_db s" b key] assms nb rows_distinct [OF assms(1)] by (simp add: low)
  then have p: "prepare_resolved_contact k s = (Inl IntegrityError, s)" using assms(9) by (simp add: prepare_resolved_contact_def Let_def)
  have t: "(\<not> outgoing \<and> txt_type decrypted = 1) = False" using assms(10) by blast
  show ?thesis unfolding ingest_decrypted_direct_message_def Let_def low assms(8) option.case p prod.case sum.case t by simp
qed

section \<open>Examples\<close>

definition demo_ingest_env :: ingest_env where
  "demo_ingest_env = \<lparr>ie_codecs = demo_codecs, ie_our_name = None\<rparr>"

definition heard_at :: "string \<Rightarrow> int \<Rightarrow> reception" where
  "heard_at p t = \<lparr>rx_packet_id = None, rx_path = Some p, rx_received_at = t, rx_path_len = None, rx_rssi = None, rx_snr = None, rx_transport_code = None, rx_region = None\<rparr>"

theorem channel_copies_merge_witness:
  "echo_rows (upper_key ''ab'') (with_sender None [104, 105]) 5
     (fold (take_copy demo_ingest_env ''ab'' None [104, 105] [104, 105] 5)
       [OurSend 7 None True None None None, FromQueue 0 (heard_at ''01'' 8), FromPacket True None (heard_at ''02'' 9)] empty_store)
   = [([path_entry ''01'' 8 None None None, path_entry ''02'' 9 None None None], 2, True)]"
proof -
  have "decoded_body demo_ingest_env [104, 105] = Inr ([104, 105], None)"
    by (rule plain_body_decodes) (simp add: plain_body_def lstrip_def uspace_def PREFIX_V2_def PREFIX_V3_def PREFIX_MCT_def utext_def starts_with_def)
  moreover have "extract_reaction_from_stored_text MsgChan (with_sender None [104, 105]) = None"
    by (simp add: extract_reaction_from_stored_text_def with_sender_def non_empty_def truthy_def split_channel_sender_text_def parse_reaction_def reaction_payload_def utext_def)
  moreover have "store_ok empty_store" by (simp add: empty_store_def db_ok_def)
  moreover have "echo_rows (upper_key ''ab'') (with_sender None [104, 105]) 5 empty_store = known_echo None" by (simp add: echo_rows_def empty_store_def known_echo_def)
  ultimately show ?thesis
    using channel_copies_merge [of empty_store 5 demo_ingest_env "[104, 105]" "[104, 105]" None None "''ab''" None
        "[OurSend 7 None True None None None, FromQueue 0 (heard_at ''01'' 8), FromPacket True None (heard_at ''02'' 9)]"]
    by (simp add: Let_def known_echo_def heard_paths_def build_message_paths_def heard_at_def queued_copy_def)
qed

definition every_row :: page_filter where
  "every_row = \<lparr>pf_type = None, pf_conversation = None, pf_blocked_keys = [], pf_blocked_names = []\<rparr>"

definition two_sends :: store where
  "two_sends = fold (store_step demo_ingest_env id) [SendDirect ''ab'' [104] 5 7 None None None None, SendDirect ''ab'' [105] 5 6 None None None None] empty_store"

lemma two_sends_rows: "map (\<lambda>r. (mr_id r, mr_received_at r)) (filter (shown every_row) (db_messages (st_db two_sends))) = [(1, 7), (2, 6)]"
  by (simp add: two_sends_def create_outgoing_direct_message_def extract_reaction_from_stored_text_def parse_reaction_def reaction_payload_def
      message_create_def Let_def empty_store_def conflicts_def row_defaults_def broadcast_def shown_def every_row_def blocked_incoming_def)

theorem message_pages_witness:
  "map mr_id (load_pages 3 every_row 1 (NoCursor 0) (st_db two_sends)) = [1, 2]"
proof -
  let ?rows = "filter (shown every_row) (db_messages (st_db two_sends))"
  obtain a b where ab: "?rows = [a, b]" "mr_id a = 1" "mr_received_at a = 7" "mr_id b = 2" "mr_received_at b = 6"
    using two_sends_rows by (auto simp: map_eq_Cons_conv)
  have "load_pages 3 every_row 1 (NoCursor 0) (st_db two_sends) = newest_first ?rows"
    using message_pages [of 1 every_row demo_ingest_env id "[SendDirect ''ab'' [104] 5 7 None None None None, SendDirect ''ab'' [105] 5 6 None None None None]" 3]
    unfolding two_sends_def [symmetric] ab(1) by simp
  also have "newest_first ?rows = [a, b]" using ab by (simp add: newest_first_def age_key_def)
  finally show ?thesis using ab by simp
qed

definition demo_key :: string where "demo_key = replicate 64 (CHR ''a'')"

lemma lower_demo [simp]: "lower demo_key = demo_key" "lower ''aaaa'' = ''aaaa''" "length demo_key = 64" "demo_key \<noteq> []" "starts_with ''aaaa'' demo_key" "starts_with demo_key demo_key"
  "demo_key \<noteq> ''aaaa''" "''aaaa'' \<noteq> demo_key"
  by (simp_all add: demo_key_def lower_def lower_char_def starts_with_def numeral_eq_Suc)

definition demo_peers :: "contact_row list" where
  "demo_peers = [inserted_row (placeholder_write demo_key 0)]"

lemma demo_peer:
  "peer_known demo_key ''aaaa'' demo_peers" "\<exists>k. get_by_key demo_key demo_peers = Some k \<and> c_public_key k = demo_key" "map ro_public_key demo_peers = [demo_key]"
proof -
  have 1: "wr_public_key (placeholder_write demo_key 0) = demo_key" "ro_type (inserted_row (placeholder_write demo_key 0)) = 0"
    by (simp add: placeholder_write_def) (simp add: inserted_row_def placeholder_write_def split: prod.splits)
  show "peer_known demo_key ''aaaa'' demo_peers" "\<exists>k. get_by_key demo_key demo_peers = Some k \<and> c_public_key k = demo_key" "map ro_public_key demo_peers = [demo_key]"
    by (simp_all add: peer_known_def get_by_key_def row_by_key_def get_by_key_or_prefix_def prefix_rows_def demo_peers_def 1 chat_contact_def
        CONTACT_TYPE_ROOM_def CONTACT_TYPE_REPEATER_def)
qed

theorem direct_copies_merge_witness:
  "told_paths demo_key [104, 105] 5
     (fold (take_direct demo_ingest_env demo_key)
       [DmQueue \<lparr>ce_txt_type = 0, ce_public_key = None, ce_pubkey_prefix = ''aaaa'', ce_sender_timestamp = Some 5, ce_path = Some ''01'', ce_path_len = None,
          ce_signature = None, ce_text = [104, 105]\<rparr> 8,
        DmPacket \<lparr>dm_timestamp = 5, dm_flags = 0, dm_message = [104, 105], dm_dest_hash = [], dm_src_hash = [], dm_signed_sender_prefix = None\<rparr> True None (heard_at ''02'' 9)]
       (write_contacts (\<lambda>_. demo_peers) empty_store))
   = [[path_entry ''01'' 8 None None None, path_entry ''02'' 9 None None None]]"
proof -
  let ?s = "write_contacts (\<lambda>_. demo_peers) empty_store"
  have "decoded_body demo_ingest_env [104, 105] = Inr ([104, 105], None)"
    by (rule plain_body_decodes) (simp add: plain_body_def lstrip_def uspace_def PREFIX_V2_def PREFIX_V3_def PREFIX_MCT_def utext_def starts_with_def)
  moreover have "dm_ready demo_key ''aaaa'' [104, 105] 5 {} ?s"
    using demo_peer(1) by (simp add: dm_ready_def authored_def no_claims_def links_own_def) (simp add: empty_store_def db_ok_def)
  moreover have "parse_reaction [104, 105] = None" "\<not> is_tunnel_chunk [104, 105]"
    by (simp_all add: parse_reaction_def reaction_payload_def is_tunnel_chunk_def TUNNEL_PREFIX_def utext_def starts_with_def)
  moreover have "told_paths demo_key [104, 105] 5 ?s = []" by (simp add: told_paths_def) (simp add: empty_store_def)
  ultimately show ?thesis
    using direct_copies_merge [of demo_key "''aaaa''" "[104, 105]" 5 "{}" ?s demo_ingest_env "[104, 105]" None
        "[DmQueue \<lparr>ce_txt_type = 0, ce_public_key = None, ce_pubkey_prefix = ''aaaa'', ce_sender_timestamp = Some 5, ce_path = Some ''01'', ce_path_len = None,
          ce_signature = None, ce_text = [104, 105]\<rparr> 8,
        DmPacket \<lparr>dm_timestamp = 5, dm_flags = 0, dm_message = [104, 105], dm_dest_hash = [], dm_src_hash = [], dm_signed_sender_prefix = None\<rparr> True None (heard_at ''02'' 9)]"]
    by (simp add: Let_def heard_paths_def build_message_paths_def heard_at_def queued_direct_def txt_type_def non_empty_def truthy_def del: fold_simps)
qed

definition told_row :: "nat \<Rightarrow> string \<Rightarrow> message_row" where
  "told_row i key = row_defaults\<lparr>mr_id := i, mr_type := MsgPriv, mr_conversation_key := key, mr_text := [104], mr_sender_timestamp := Some 5, mr_sender_key := Some key\<rparr>"

definition told_twice :: store where
  "told_twice = \<lparr>st_db = \<lparr>db_messages = [told_row 1 ''aaaa'', told_row 2 demo_key], db_next_message = 3, db_raw = [], db_next_raw = 1, db_contacts = demo_peers\<rparr>,
     st_events = []\<rparr>"

theorem claim_conflict_blocks_witness:
  "ingest_decrypted_direct_message demo_ingest_env \<lparr>dm_timestamp = 9, dm_flags = 0, dm_message = [104, 105], dm_dest_hash = [], dm_src_hash = [], dm_signed_sender_prefix = None\<rparr>
     demo_key False True None (heard_at ''02'' 9) told_twice = (Inl IntegrityError, told_twice)"
proof -
  obtain z where z: "demo_peers = [z]" "ro_public_key z = demo_key" using demo_peer(3) by (auto simp: map_eq_Cons_conv)
  have "store_ok told_twice" by (simp add: told_twice_def db_ok_def conflicts_def told_row_def)
  moreover have "claimable demo_key (db_contacts (st_db told_twice)) (told_row 1 ''aaaa'')"
    by (simp add: claimable_def told_twice_def told_row_def like_prefix_def z)
  moreover have "conflicts (claimed_row demo_key (told_row 1 ''aaaa'')) (told_row 2 demo_key)"
    by (simp add: conflicts_def claimed_row_def told_row_def like_prefix_def ts0_def key0_def row_defaults_def)
  moreover obtain k where "get_by_key demo_key (db_contacts (st_db told_twice)) = Some k" "c_public_key k = demo_key"
    using demo_peer(2) by (auto simp: told_twice_def)
  ultimately show ?thesis
    by (intro claim_conflict_blocks [of told_twice "told_row 1 ''aaaa''" "told_row 2 demo_key" demo_key k]) (simp_all add: told_twice_def told_row_def txt_type_def)
qed

definition greeted :: store where
  "greeted = \<lparr>st_db = \<lparr>db_messages = [row_defaults\<lparr>mr_id := 1, mr_conversation_key := ''AB'', mr_text := utext ''Ann: hi'', mr_sender_timestamp := Some 3\<rparr>],
     db_next_message = 2, db_raw = [], db_next_raw = 1, db_contacts = []\<rparr>, st_events = []\<rparr>"

theorem reaction_reaches_target_witness:
  "\<exists>wire row. db_messages (st_db (snd (create_message_from_decrypted demo_ingest_env ''ab'' (Some (utext ''Bob'')) wire 5 True None (heard_at ''02'' 9) greeted)))
     = with_reaction 1 (REACTION_EMOJIS ! 0) (db_messages (st_db greeted)) @ [row] \<and> mr_is_reaction row"
proof -
  let ?m = "row_defaults\<lparr>mr_id := 1, mr_conversation_key := ''AB'', mr_text := utext ''Ann: hi'', mr_sender_timestamp := Some 3\<rparr>"
  obtain h where h: "reaction_hash_for_message ?m False (ie_our_name demo_ingest_env) = Some h"
    by (auto simp: reaction_hash_for_message_def hash_inputs_for_message_def row_defaults_def split: prod.splits)
  have "REACTION_EMOJIS ! 0 \<in> set REACTION_EMOJIS" by (rule nth_mem) (simp add: emoji_count)
  then obtain x where x: "emoji_to_index_hex (REACTION_EMOJIS ! 0) = Some x" using emoji_indexed by blast
  have u: "upper_key ''ab'' = ''AB''" by code_simp
  have "get_recent_for_reaction_matching MsgChan (upper_key ''ab'') REACTION_MATCH_SCAN_LIMIT (st_db greeted) = [] @ ?m # []"
    by (simp add: u get_recent_for_reaction_matching_def greeted_def in_conversation_def like_prefix_def starts_with_def row_defaults_def newest_first_def REACTION_MATCH_SCAN_LIMIT_def)
  moreover have "store_ok greeted" by (simp add: greeted_def db_ok_def)
  moreover have "name_splits (utext ''Bob'')" by (simp add: name_splits_def utext_def utf16_code_units_def utf16_units_def)
  moreover have "echo_rows (upper_key ''ab'') (with_sender (Some (utext ''Bob'')) (encode_reaction h x)) 5 greeted = []"
    by (simp add: echo_rows_def greeted_def heard_as_def)
  ultimately show ?thesis
    using reaction_reaches_target [of greeted 5 "utext ''Bob''" "REACTION_EMOJIS ! 0" x ?m demo_ingest_env h "''ab''" "[]" "[]" 0 0 True None "heard_at ''02'' 9"] h x
    by (auto simp: Let_def row_defaults_def)
qed

end
