(* ===== verification/PacketProperties.thy ===== *)
theory PacketProperties
  imports PacketProcessor IngestProperties
begin

text \<open>
  What a packet from the air does to the tables, whole: a packet nobody vouches for does nothing, copies of a channel text become one
  row, and an accepted advertisement settles its contact.
\<close>


section \<open>Who vouches for a packet\<close>

definition channel_mac :: "crypto \<Rightarrow> bytes \<Rightarrow> bytes \<Rightarrow> bool" where
  "channel_mac cr key payload \<longleftrightarrow> slice 1 3 payload = take 2 (hmac_sha256 cr (key @ replicate 16 0) (drop 3 payload))"

definition peer_mac :: "crypto \<Rightarrow> bytes \<Rightarrow> bytes \<Rightarrow> bool" where
  "peer_mac cr secret payload \<longleftrightarrow> slice 2 4 payload = take 2 (hmac_sha256 cr secret (drop 4 payload))"

definition channel_vouches :: "packet_env \<Rightarrow> bytes \<Rightarrow> packet_state \<Rightarrow> bool" where
  "channel_vouches env payload s \<longleftrightarrow>
     list_ex (\<lambda>c. case fromhex (cn_key c) of None \<Rightarrow> False | Some key \<Rightarrow> channel_mac (pe_crypto env) key payload) (ps_channels s)"

definition peer_vouches :: "packet_env \<Rightarrow> bytes \<Rightarrow> packet_state \<Rightarrow> bool" where
  "peer_vouches env payload s \<longleftrightarrow>
     (case pe_private_key env of
        None \<Rightarrow> False
      | Some private_key \<Rightarrow>
          list_ex (\<lambda>c. case fromhex (ro_public_key c) of None \<Rightarrow> False
            | Some key \<Rightarrow> (case derive_shared_secret (pe_crypto env) private_key key of None \<Rightarrow> False | Some secret \<Rightarrow> peer_mac (pe_crypto env) secret payload))
            (contacts_of s))"

text \<open>An acknowledgement carries its code in the clear; what speaks for it is that a sent message waits for this code, and not too long.\<close>

definition awaited_code :: "real \<Rightarrow> bytes \<Rightarrow> packet_state \<Rightarrow> bool" where
  "awaited_code now payload s \<longleftrightarrow> 4 \<le> length payload
     \<and> list_ex (\<lambda>(code, (m, created_at, timeout_ms)). code = hex_of (take 4 payload) \<and> \<not> now - created_at > (of_int timeout_ms / 1000) * 2) (ps_pending_acks s)"

definition vouched_at :: "real \<Rightarrow> packet_env \<Rightarrow> bytes \<Rightarrow> packet_state \<Rightarrow> bool" where
  "vouched_at now env raw s \<longleftrightarrow>
     (case parse_packet raw of
        None \<Rightarrow> False
      | Some i \<Rightarrow>
          (if pi_payload_type i = GROUP_TEXT \<or> pi_payload_type i = GROUP_DATA then channel_vouches env (pi_payload i) s
           else if pi_payload_type i = TEXT_MESSAGE \<or> pi_payload_type i = PATH then peer_vouches env (pi_payload i) s
           else if pi_payload_type i = ADVERT then verify_advert_signature (pe_crypto env) (pi_payload i)
           else pi_payload_type i = ACK \<and> awaited_code now (pi_payload i) s))"

text \<open>At the time the packet is handled.\<close>

definition vouched :: "packet_env \<Rightarrow> bytes \<Rightarrow> packet_state \<Rightarrow> bool" where
  "vouched env raw s \<longleftrightarrow> vouched_at (pe_clock env (Suc (ps_observations s))) env raw s"

lemma first_channel_Some:
  "first_channel f cs = Some (c, d) \<Longrightarrow> c \<in> set cs \<and> (\<exists>key. fromhex (cn_key c) = Some key \<and> f key = Some d)"
  by (induction cs) (auto split: option.splits)

lemma first_contact_Some:
  "first_contact f cs = Inr (Some (c, d)) \<Longrightarrow> c \<in> set cs \<and> (\<exists>key. fromhex (c_public_key c) = Some key \<and> f key = Inr (Some d))"
  by (induction cs) (auto split: option.splits sum.splits)

lemma channel_vouchesI:
  assumes "parse_packet raw = Some i" and "first_channel f (ps_channels s) = Some (c, d)"
    and "\<And>key. f key = Some d \<Longrightarrow> \<exists>g h. try_decrypt_packet_with_channel_key (pe_crypto env) raw key = Some g \<or> try_decrypt_group_data_packet (pe_crypto env) raw key = Some h"
  shows "channel_vouches env (pi_payload i) s"
proof -
  obtain key where k: "c \<in> set (ps_channels s)" "fromhex (cn_key c) = Some key" "f key = Some d" using first_channel_Some [OF assms(2)] by blast
  obtain g h where "try_decrypt_packet_with_channel_key (pe_crypto env) raw key = Some g \<or> try_decrypt_group_data_packet (pe_crypto env) raw key = Some h"
    using assms(3) [OF k(3)] by blast
  from channel_accepts [OF this] assms(1)
  have "decrypt_group_text (pe_crypto env) (pi_payload i) key = Some g \<or> decrypt_group_data (pe_crypto env) (pi_payload i) key = Some h" by auto
  from channel_payload_authentic [OF this] have "channel_mac (pe_crypto env) key (pi_payload i)" by (simp add: channel_mac_def)
  then show ?thesis using k by (auto simp: channel_vouches_def list_ex_iff intro!: bexI [of _ c])
qed

lemma first_byte_rows: "c \<in> set (get_by_pubkey_first_byte h rows) \<Longrightarrow> \<exists>r \<in> set rows. c_public_key c = ro_public_key r"
  by (auto simp: get_by_pubkey_first_byte_def)

lemma peer_vouchesI:
  assumes "pe_private_key env = Some priv" and "r \<in> set (contacts_of s)" and "fromhex (ro_public_key r) = Some key"
    and "derive_shared_secret (pe_crypto env) priv key = Some secret"
    and "decrypt_direct_message (pe_crypto env) payload secret = Some d \<or> decrypt_path_payload (pe_crypto env) payload secret = Some q"
  shows "peer_vouches env payload s"
  using assms peer_payload_authentic [OF assms(5)] by (auto simp: peer_vouches_def list_ex_iff peer_mac_def intro!: bexI [of _ r])

section \<open>A packet nobody vouches for\<close>

lemma inert_text:
  assumes "parse_packet raw = Some i" and "\<not> channel_vouches env (pi_payload i) s"
  shows "process_group_text env raw rx result s = (Inr result, s)"
proof -
  have "first_channel (try_decrypt_packet_with_channel_key (pe_crypto env) raw) (ps_channels s) = None"
  proof (rule ccontr)
    assume "first_channel (try_decrypt_packet_with_channel_key (pe_crypto env) raw) (ps_channels s) \<noteq> None"
    then obtain c d where f: "first_channel (try_decrypt_packet_with_channel_key (pe_crypto env) raw) (ps_channels s) = Some (c, d)" by auto
    have "channel_vouches env (pi_payload i) s" by (rule channel_vouchesI [OF assms(1) f]) blast
    then show False using assms(2) by blast
  qed
  then show ?thesis by (simp add: process_group_text_def)
qed

lemma inert_data:
  assumes "parse_packet raw = Some i" and "\<not> channel_vouches env (pi_payload i) s"
  shows "process_group_data env raw result s = (result, s)"
proof -
  have "first_channel (try_decrypt_group_data_packet (pe_crypto env) raw) (ps_channels s) = None"
  proof (rule ccontr)
    assume "first_channel (try_decrypt_group_data_packet (pe_crypto env) raw) (ps_channels s) \<noteq> None"
    then obtain c d where f: "first_channel (try_decrypt_group_data_packet (pe_crypto env) raw) (ps_channels s) = Some (c, d)" by auto
    have "channel_vouches env (pi_payload i) s" by (rule channel_vouchesI [OF assms(1) f]) blast
    then show False using assms(2) by blast
  qed
  then show ?thesis by (simp add: process_group_data_def)
qed

lemma inert_direct:
  assumes p: "parse_packet raw = Some i" and v: "\<not> peer_vouches env (pi_payload i) s"
  shows "process_direct_message env raw i rx result s = (Inr result, s) \<or> (\<exists>e. process_direct_message env raw i rx result s = (Inl e, s))"
proof (cases "pe_private_key env")
  case None
  then show ?thesis by (simp add: process_direct_message_def)
next
  case priv: (Some priv)
  have no: "first_contact (\<lambda>key. try_decrypt_dm (pe_crypto env) raw priv key our) (get_by_pubkey_first_byte h (contacts_of s)) \<noteq> Inr (Some (c, d))" for our h c d
  proof
    assume "first_contact (\<lambda>key. try_decrypt_dm (pe_crypto env) raw priv key our) (get_by_pubkey_first_byte h (contacts_of s)) = Inr (Some (c, d))"
    from first_contact_Some [OF this] obtain key where c: "c \<in> set (get_by_pubkey_first_byte h (contacts_of s))" "fromhex (c_public_key c) = Some key"
      "try_decrypt_dm (pe_crypto env) raw priv key our = Inr (Some d)" by blast
    obtain r where r: "r \<in> set (contacts_of s)" "c_public_key c = ro_public_key r" using first_byte_rows [OF c(1)] by blast
    obtain secret where "derive_shared_secret (pe_crypto env) priv key = Some secret" "decrypt_direct_message (pe_crypto env) (pi_payload i) secret = Some d"
      using dm_accepts [OF c(3)] p by auto
    then show False using peer_vouchesI [OF priv r(1), of key] c(2) r(2) v by auto
  qed
  show ?thesis unfolding process_direct_message_def priv using no
    by (auto simp: Let_def split: option.splits sum.splits prod.splits)
qed

lemma inert_paths:
  assumes p: "parse_packet raw = Some i" and v: "\<not> peer_vouches env (pi_payload i) s" and priv: "pe_private_key env = Some priv"
    and cs: "\<forall>c \<in> set cs. \<exists>r \<in> set (contacts_of s). c_public_key c = ro_public_key r"
  shows "\<exists>r. learn_paths env raw priv ours ts cs s = (r, s)"
  using cs
proof (induction cs)
  case (Cons c cs)
  then have IH: "\<exists>r. learn_paths env raw priv ours ts cs s = (r, s)" by simp
  obtain r where r: "r \<in> set (contacts_of s)" "c_public_key c = ro_public_key r" using Cons.prems by auto
  have "try_decrypt_path (pe_crypto env) raw priv key ours \<noteq> Inr (Some d)" if "fromhex (c_public_key c) = Some key" for key d
  proof
    assume a: "try_decrypt_path (pe_crypto env) raw priv key ours = Inr (Some d)"
    obtain secret where "derive_shared_secret (pe_crypto env) priv key = Some secret" "decrypt_path_payload (pe_crypto env) (pi_payload i) secret = Some d"
      using path_accepts [OF a] p by auto
    then show False using peer_vouchesI [OF priv r(1), of key] that r(2) v by auto
  qed
  then show ?case using IH by (auto split: option.splits sum.splits)
qed simp

lemma inert_ack:
  assumes "\<not> awaited_code now payload s" and "4 \<le> length payload"
  shows "\<exists>pending buffered. set pending \<subseteq> set (ps_pending_acks s)
     \<and> apply_ack (hex_of (take 4 payload)) now s = s\<lparr>ps_pending_acks := pending, ps_buffered_acks := buffered\<rparr>"
proof -
  let ?code = "hex_of (take 4 payload)" and ?w = "cleanup_expired_acks now (ack_view s)"
  have p: "pending_acks ?w = filter (\<lambda>(code, (m, created_at, timeout_ms)). \<not> now - created_at > (of_int timeout_ms / 1000) * 2) (ps_pending_acks s)"
    by (simp add: cleanup_expired_acks_def ack_view_def)
  have "?code \<notin> fst ` set (pending_acks ?w)" using assms unfolding p awaited_code_def list_ex_iff by fastforce
  then have n: "map_of (pending_acks ?w) ?code = None" by (simp add: map_of_eq_None_iff)
  then have w: "apply_dm_ack_code ?code now (ack_view s)
      = (None, buffer_unmatched_ack ?code now (?w\<lparr>pending_acks := AList.delete ?code (pending_acks ?w)\<rparr>))"
    by (simp add: apply_dm_ack_code_def pop_pending_ack_def Let_def)
  have "set (AList.delete ?code (pending_acks ?w)) \<subseteq> set (ps_pending_acks s)" unfolding p by (auto simp: AList.delete_eq)
  then show ?thesis unfolding apply_ack_def w prod.case Let_def option.case by (auto simp: buffer_unmatched_ack_def)
qed

lemma inert_dispatch:
  assumes p: "parse_packet raw = Some i" and v: "\<not> vouched_at (pe_clock env (ps_observations s)) env raw s"
  shows "\<exists>r s'. dispatch_packet env raw i rx result s = (r, s') \<and> (\<forall>r'. r = Inr r' \<longrightarrow> r' = result)
     \<and> (s' = s \<or> (\<exists>pending buffered. set pending \<subseteq> set (ps_pending_acks s) \<and> s' = s\<lparr>ps_pending_acks := pending, ps_buffered_acks := buffered\<rparr>))"
proof (cases "pi_payload_type i")
  case TEXT_MESSAGE
  then have "\<not> peer_vouches env (pi_payload i) s" using v p by (simp add: vouched_at_def)
  from inert_direct [OF p this, of rx result] show ?thesis using TEXT_MESSAGE by (auto simp: dispatch_packet_def)
next
  case ADVERT
  then have "\<not> verify_advert_signature (pe_crypto env) (pi_payload i)" using v p by (simp add: vouched_at_def)
  then have "process_advertisement env i (rx_received_at rx) s = (Inr (), s)" by (simp add: process_advertisement_def split: option.splits)
  then show ?thesis using ADVERT by (simp add: dispatch_packet_def)
next
  case GROUP_TEXT
  then have "\<not> channel_vouches env (pi_payload i) s" using v p by (simp add: vouched_at_def)
  from inert_text [OF p this, of rx result] show ?thesis using GROUP_TEXT by (simp add: dispatch_packet_def)
next
  case GROUP_DATA
  then have "\<not> channel_vouches env (pi_payload i) s" using v p by (simp add: vouched_at_def)
  from inert_data [OF p this, of result] show ?thesis using GROUP_DATA by (simp add: dispatch_packet_def)
next
  case PATH
  then have np: "\<not> peer_vouches env (pi_payload i) s" using v p by (simp add: vouched_at_def)
  have cs: "\<forall>c \<in> set (get_by_pubkey_first_byte h (contacts_of s)). \<exists>r \<in> set (contacts_of s). c_public_key c = ro_public_key r" for h
    using first_byte_rows by blast
  have "\<exists>r. process_path_packet env raw i (rx_received_at rx) s = (r, s)"
  proof (cases "pe_private_key env")
    case None
    then show ?thesis by (simp add: process_path_packet_def)
  next
    case (Some priv)
    then show ?thesis unfolding process_path_packet_def Some using inert_paths [OF p np Some cs]
      by (auto split: option.splits sum.splits)
  qed
  then show ?thesis using PATH by (auto simp: dispatch_packet_def split: sum.splits)
next
  case ACK
  then have na: "\<not> awaited_code (pe_clock env (ps_observations s)) (pi_payload i) s" using v p by (simp add: vouched_at_def)
  show ?thesis using inert_ack [OF na] ACK by (cases "4 \<le> length (pi_payload i)") (auto simp: dispatch_packet_def)
qed (auto simp: dispatch_packet_def)

definition inert_event :: "packet_event \<Rightarrow> bool" where
  "inert_event e = (case e of RawPacket p n t b r c g \<Rightarrow> \<not> rs_decrypted r | _ \<Rightarrow> False)"

definition same_tables :: "packet_state \<Rightarrow> packet_state \<Rightarrow> bool" where
  "same_tables s s' \<longleftrightarrow> db_messages (st_db (ps_store s')) = db_messages (st_db (ps_store s)) \<and> st_events (ps_store s') = st_events (ps_store s)
     \<and> contacts_of s' = contacts_of s \<and> ps_names s' = ps_names s \<and> ps_paths s' = ps_paths s \<and> ps_drift s' = ps_drift s \<and> ps_channels s' = ps_channels s
     \<and> set (ps_pending_acks s') \<subseteq> set (ps_pending_acks s)
     \<and> (\<exists>es. ps_events s' = ps_events s @ es \<and> list_all inert_event es)"

lemma raw_create_rest: "raw_packet_create sha d p ts db = (r, db') \<Longrightarrow> db_messages db' = db_messages db \<and> db_contacts db' = db_contacts db"
  by (auto simp: raw_packet_create_def Let_def split: option.splits)


text \<open>The awaited acknowledgement does what the tracker says: what it leaves of the message rows is what \<^const>\<open>apply_dm_ack_code\<close> makes of their counts.\<close>

lemma message_by_id_bumped:
  "message_by_id j (snd (message_increment_ack i db)) = map_option (\<lambda>r. if j = i then r\<lparr>mr_acked := Suc (mr_acked r)\<rparr> else r) (message_by_id j db)"
proof -
  have "find (\<lambda>r. mr_id r = j) (map (\<lambda>r. if mr_id r = i then r\<lparr>mr_acked := Suc (mr_acked r)\<rparr> else r) rows)
      = map_option (\<lambda>r. if j = i then r\<lparr>mr_acked := Suc (mr_acked r)\<rparr> else r) (find (\<lambda>r. mr_id r = j) rows)" for rows :: "message_row list"
    by (induction rows) auto
  then show ?thesis by (simp add: message_increment_ack_def message_by_id_def update_message_def Let_def)
qed

lemma ack_view_bumped:
  assumes "0 \<le> m"
  shows "ack_view (s\<lparr>ps_store := write_db (\<lambda>db. snd (message_increment_ack (nat m) db)) (ps_store s)\<rparr>) = snd (increment_ack_count m (ack_view s))"
proof -
  have "(\<lambda>i. if i < 0 then None else map_option mr_acked (message_by_id (nat i) (snd (message_increment_ack (nat m) db))))
      = (case message_by_id (nat m) db of None \<Rightarrow> (\<lambda>i. if i < 0 then None else map_option mr_acked (message_by_id (nat i) db))
         | Some r \<Rightarrow> (\<lambda>i. if i < 0 then None else map_option mr_acked (message_by_id (nat i) db))(m \<mapsto> mr_acked r + 1))" for db
  proof (rule ext)
    fix i
    show "(if i < 0 then None else map_option mr_acked (message_by_id (nat i) (snd (message_increment_ack (nat m) db))))
      = (case message_by_id (nat m) db of None \<Rightarrow> (\<lambda>i. if i < 0 then None else map_option mr_acked (message_by_id (nat i) db))
         | Some r \<Rightarrow> (\<lambda>i. if i < 0 then None else map_option mr_acked (message_by_id (nat i) db))(m \<mapsto> mr_acked r + 1)) i"
      using assms by (cases "i = m"; cases "message_by_id (nat m) db"; cases "message_by_id (nat i) db") (auto simp: message_by_id_bumped nat_eq_iff2 eq_nat_nat_iff)
  qed
  then show ?thesis using assms by (simp add: ack_view_def increment_ack_count_def write_db_def split: option.splits cong: if_cong)
qed

lemma ack_view_tables:
  "ack_view (s\<lparr>ps_pending_acks := p, ps_buffered_acks := b\<rparr>) = (ack_view s)\<lparr>pending_acks := p, buffered_acks := b\<rparr>"
  by (simp add: ack_view_def cong: if_cong)

lemma ack_view_publish [simp]: "ack_view (publish e s) = ack_view s"
  by (simp add: ack_view_def publish_def cong: if_cong)

lemma apply_ack_refines: "ack_view (apply_ack code now s) = snd (apply_dm_ack_code code now (ack_view s))"
proof -
  let ?w = "cleanup_expired_acks now (ack_view s)"
  show ?thesis
  proof (cases "map_of (pending_acks ?w) code")
    case None
    then show ?thesis
      by (simp add: apply_ack_def apply_dm_ack_code_def pop_pending_ack_def buffer_unmatched_ack_def ack_view_tables Let_def)
         (simp add: cleanup_expired_acks_def)
  next
    case (Some v)
    obtain m c l where v: "v = (m, c, l)" by (cases v)
    define w where "w = clear_pending_acks_for_message m (?w\<lparr>pending_acks := AList.delete code (pending_acks ?w)\<rparr>)"
    define s1 where "s1 = s\<lparr>ps_pending_acks := pending_acks w, ps_buffered_acks := buffered_acks w\<rparr>"
    have w: "ack_view s1 = w" by (simp add: s1_def ack_view_tables w_def clear_pending_acks_for_message_def cleanup_expired_acks_def)
    have t: "pending_acks (snd (increment_ack_count m w)) = pending_acks w" "buffered_acks (snd (increment_ack_count m w)) = buffered_acks w"
      by (simp_all add: increment_ack_count_def split: option.splits)
    have a: "apply_dm_ack_code code now (ack_view s) = (Some (m, fst (increment_ack_count m w)), snd (increment_ack_count m w))"
      using Some v by (simp add: apply_dm_ack_code_def pop_pending_ack_def w_def case_prod_beta Let_def)
    have "ack_view (apply_ack code now s)
        = ack_view (if m < 0 then s1 else s1\<lparr>ps_store := write_db (\<lambda>db. snd (message_increment_ack (nat m) db)) (ps_store s1)\<rparr>)"
      unfolding apply_ack_def a Let_def prod.case option.case t s1_def [symmetric] by simp
    also have "\<dots> = snd (increment_ack_count m (ack_view s1))"
      using ack_view_bumped [of m s1] by (simp add: increment_ack_count_def ack_view_def)
    finally show ?thesis unfolding a w by simp
  qed
qed

section \<open>A channel message on the air\<close>

type_synonym air_copy = "bytes \<times> int \<times> pyfloat option \<times> int option"

definition carries :: "bytes \<Rightarrow> air_copy \<Rightarrow> bool" where
  "carries payload cp = (case cp of (raw, t, snr, rssi) \<Rightarrow>
     (case parse_packet raw of None \<Rightarrow> False | Some i \<Rightarrow> pi_payload_type i = GROUP_TEXT \<and> pi_payload i = payload))"

definition copy_path :: "air_copy \<Rightarrow> MessagePath" where
  "copy_path cp = (case cp of (raw, t, snr, rssi) \<Rightarrow>
     path_entry (hex_of (pi_path (the (parse_packet raw)))) t (Some (int (pi_path_length (the (parse_packet raw))))) rssi snr)"

definition hear_packet :: "packet_env \<Rightarrow> air_copy \<Rightarrow> packet_state \<Rightarrow> packet_state" where
  "hear_packet env cp s = (case cp of (raw, t, snr, rssi) \<Rightarrow> snd (process_raw_packet env raw t snr rssi s))"

fun flood_spec :: "air_copy \<Rightarrow> echo \<Rightarrow> echo" where
  "flood_spec cp None = Some ([copy_path cp], 0, False)"
| "flood_spec cp (Some (paths, acks, ours)) = Some (paths @ [copy_path cp], if ours then acks + 1 else acks, ours)"

lemma first_channel_prefix:
  assumes "\<forall>b \<in> set before. \<forall>k. fromhex (cn_key b) = Some k \<longrightarrow> f k = None" and "fromhex (cn_key c) = Some key" and "f key = Some d"
  shows "first_channel f (before @ c # after) = Some (c, d)"
  using assms by (induction before) (auto split: option.splits)

lemma text_stored:
  assumes p: "parse_packet raw = Some i" "pi_payload_type i = GROUP_TEXT"
    and f: "first_channel (try_decrypt_packet_with_channel_key (pe_crypto env) raw) (ps_channels s) = Some (c, d)"
    and d: "gt_sender d = sender" "gt_message d = wire" "int (gt_timestamp d) = ts"
    and ok: "store_ok (ps_store s)" and ts: "ts \<noteq> 0" and b: "decoded_body (pe_ingest env) wire = Inr (body, cinfo)"
    and nr: "extract_reaction_from_stored_text MsgChan (with_sender sender body) = None"
    and e: "echo_rows (upper_key (cn_key c)) (with_sender sender body) ts (ps_store s) = known_echo e"
  shows "copy_taken (upper_key (cn_key c)) (with_sender sender body) ts (ps_store s) e (flood_spec (raw, t, snr, rssi) e) (ps_store (hear_packet env (raw, t, snr, rssi) s))
    \<and> store_ok (ps_store (hear_packet env (raw, t, snr, rssi) s)) \<and> ps_channels (hear_packet env (raw, t, snr, rssi) s) = ps_channels s"
proof -
  let ?k = "upper_key (cn_key c)" and ?x = "with_sender sender body"
  obtain pid new db1 where cr: "raw_packet_create (sha256 (pe_crypto env)) raw (extract_payload raw) t (st_db (ps_store s)) = ((pid, new), db1)"
    by (metis surj_pair)
  note rest = raw_create_rest [OF cr]
  define s1 where "s1 = s\<lparr>ps_observations := ps_observations s + 1, ps_store := (ps_store s)\<lparr>st_db := db1\<rparr>\<rparr>"
  have st1: "ps_store s1 = (ps_store s)\<lparr>st_db := db1\<rparr>" "ps_channels s1 = ps_channels s" by (simp_all add: s1_def)
  have ok1: "store_ok (ps_store s1)" using raw_create_ok [OF ok cr] by (simp add: st1)
  have e1: "echo_rows ?k ?x ts (ps_store s1) = known_echo e" using e rest by (simp add: st1 echo_rows_def)
  obtain tc reg where sc: "packet_scope env i = (tc, reg)" by fastforce
  define rx where "rx = packet_reception pid t i rssi snr tc reg"
  obtain r st where m: "create_message_from_decrypted (pe_ingest env) (cn_key c) sender wire ts True None rx (ps_store s1) = (r, st)" by fastforce
  have taken: "copy_taken ?k ?x ts (ps_store s1) e (heard_copy rx e) st"
    using packet_copy [OF ok1 ts b nr e1, of rx True None] unfolding m by simp
  have hp: "heard_paths rx = [copy_path (raw, t, snr, rssi)]"
    by (simp add: rx_def heard_paths_def build_message_paths_def packet_reception_def copy_path_def p)
  have spec: "heard_copy rx e = flood_spec (raw, t, snr, rssi) e" by (cases e) (auto simp: hp)
  have g: "process_group_text env raw rx res s1 = (case r of Inl er \<Rightarrow> (Inl er, s1\<lparr>ps_store := st\<rparr>)
      | Inr mi \<Rightarrow> (Inr (res\<lparr>rs_decrypted := True, rs_message_id := mi, rs_channel_key := Some (cn_key c), rs_sender := gt_sender d,
                            rs_sender_timestamp := Some (gt_timestamp d), rs_message := Some (gt_message d)\<rparr>), s1\<lparr>ps_store := st\<rparr>))" for res
    unfolding process_group_text_def st1(2) f option.case prod.case d m by (cases r) simp_all
  have out: "ps_store (hear_packet env (raw, t, snr, rssi) s) = st" "ps_channels (hear_packet env (raw, t, snr, rssi) s) = ps_channels s"
    unfolding hear_packet_def prod.case process_raw_packet_def cr Let_def s1_def [symmetric] p(1) option.case sc rx_def [symmetric] dispatch_packet_def p(2) PayloadType.case g
    by (cases r; simp add: publish_def st1)+
  have "store_ok st" using channel_route_ok [OF ok1 m] .
  moreover have "copy_taken ?k ?x ts (ps_store s) e (heard_copy rx e) st" using taken rest by (simp add: copy_taken_def st1 unheard_rows_def)
  ultimately show ?thesis unfolding out spec by simp
qed

definition sealed_text :: "crypto \<Rightarrow> (bytes \<Rightarrow> bytes \<Rightarrow> bytes) \<Rightarrow> bytes \<Rightarrow> nat \<Rightarrow> byte \<Rightarrow> ustr \<Rightarrow> bytes" where
  "sealed_text cr enc key ts flags msg = sha256 cr key ! 0 # seal cr enc (key @ replicate 16 0) key (to_le 4 ts @ [flags] @ utf8_encode msg)"

lemma flood_stored:
  assumes a: "aes_inverse (pe_crypto env) enc" "length key = 16" "0 < ts" "ts < 2 ^ 32" "list_all scalar_value msg" "0 \<notin> set msg" "split_sender msg = (sender, wire)"
    and c: "fromhex (cn_key c) = Some key" "\<forall>b \<in> set before. \<forall>k. fromhex (cn_key b) = Some k \<longrightarrow> \<not> channel_mac (pe_crypto env) k payload"
    and pl: "payload = sealed_text (pe_crypto env) enc key ts flags msg"
    and b: "decoded_body (pe_ingest env) wire = Inr (body, cinfo)" "extract_reaction_from_stored_text MsgChan (with_sender sender body) = None"
  shows "store_ok (ps_store s) \<Longrightarrow> ps_channels s = before @ c # after \<Longrightarrow> list_all (carries payload) copies \<Longrightarrow>
      echo_rows (upper_key (cn_key c)) (with_sender sender body) (int ts) (ps_store s) = known_echo e \<Longrightarrow>
    copy_taken (upper_key (cn_key c)) (with_sender sender body) (int ts) (ps_store s) e (fold flood_spec copies e) (ps_store (fold (hear_packet env) copies s))"
proof (induction copies arbitrary: s e)
  case Nil
  then show ?case by (simp add: copy_taken_def)
next
  case (Cons cp copies)
  let ?k = "upper_key (cn_key c)" and ?x = "with_sender sender body"
  obtain raw t snr rssi where cp: "cp = (raw, t, snr, rssi)" by (metis surj_pair)
  obtain i where i: "parse_packet raw = Some i" "pi_payload_type i = GROUP_TEXT" "pi_payload i = payload"
    using Cons.prems(3) by (auto simp: cp carries_def split: option.splits)
  define d where "d = \<lparr>gt_timestamp = ts, gt_flags = unat flags, gt_sender = sender, gt_message = wire, gt_channel_hash = hex_byte (sha256 (pe_crypto env) key ! 0)\<rparr>"
  have opened: "try_decrypt_packet_with_channel_key (pe_crypto env) raw key = Some d"
    using group_text_opened [OF a(1,2) i(1,2) i(3) [unfolded pl sealed_text_def] a(4,5,6)] by (simp add: d_def a(7))
  have n: "try_decrypt_packet_with_channel_key (pe_crypto env) raw k = None" if "b \<in> set before" "fromhex (cn_key b) = Some k" for b k
  proof (rule ccontr)
    assume "try_decrypt_packet_with_channel_key (pe_crypto env) raw k \<noteq> None"
    then obtain g where "try_decrypt_packet_with_channel_key (pe_crypto env) raw k = Some g" by auto
    then have "decrypt_group_text (pe_crypto env) payload k = Some g" using i by (auto simp: try_decrypt_packet_with_channel_key_def split: if_splits)
    then have "channel_mac (pe_crypto env) k payload" using channel_payload_authentic [OF disjI1 [OF \<open>decrypt_group_text (pe_crypto env) payload k = Some g\<close>]] by (simp add: channel_mac_def)
    then show False using c(2) that by blast
  qed
  have f: "first_channel (try_decrypt_packet_with_channel_key (pe_crypto env) raw) (ps_channels s) = Some (c, d)"
    unfolding Cons.prems(2) using n c(1) opened by (intro first_channel_prefix) auto
  have ts: "int ts \<noteq> 0" using a(3) by simp
  note step = text_stored [OF i(1,2) f _ _ _ Cons.prems(1) ts b Cons.prems(4), of t snr rssi, folded cp]
  have st: "copy_taken ?k ?x (int ts) (ps_store s) e (flood_spec cp e) (ps_store (hear_packet env cp s))"
    "store_ok (ps_store (hear_packet env cp s))" "ps_channels (hear_packet env cp s) = ps_channels s" using step by (simp_all add: d_def)
  have e2: "echo_rows ?k ?x (int ts) (ps_store (hear_packet env cp s)) = known_echo (flood_spec cp e)" using st(1) by (simp add: copy_taken_def)
  have k: "flood_spec cp e \<noteq> None" by (cases e) auto
  from Cons.IH [OF st(2) _ _ e2] Cons.prems(2,3) st(1,3) k show ?case by (auto simp: copy_taken_def)
qed

section \<open>What an advertisement settles\<close>

definition full_matches :: "string \<Rightarrow> contact_row list \<Rightarrow> nat" where
  "full_matches prefix rows = length (filter (\<lambda>c. length (ro_public_key c) = 64 \<and> like_prefix prefix (ro_public_key c)) rows)"

definition stands_for :: "string \<Rightarrow> contact_row \<Rightarrow> bool" where
  "stands_for key r \<longleftrightarrow> length (ro_public_key r) < 64 \<and> like_prefix (ro_public_key r) key"

lemma matches_map_filter:
  assumes "\<And>r. ro_public_key (f r) = ro_public_key r" and "\<And>r. length (ro_public_key r) = 64 \<Longrightarrow> P r"
  shows "full_matches q (filter P (map f rows)) = full_matches q rows"
proof -
  have "filter (\<lambda>c. length (ro_public_key c) = 64 \<and> like_prefix q (ro_public_key c)) (filter P (map f rows))
      = map f (filter (\<lambda>c. length (ro_public_key c) = 64 \<and> like_prefix q (ro_public_key c)) rows)"
    by (induction rows) (auto simp: assms)
  then show ?thesis by (simp add: full_matches_def)
qed

definition same_identity :: "contact_row \<Rightarrow> contact_row \<Rightarrow> bool" where
  "same_identity r r' \<longleftrightarrow> ro_public_key r' = ro_public_key r \<and> ro_name r' = ro_name r \<and> ro_type r' = ro_type r \<and> ro_last_advert r' = ro_last_advert r"

definition promotes :: "string \<Rightarrow> history_db \<Rightarrow> history_db \<Rightarrow> bool" where
  "promotes key db db' \<longleftrightarrow> (\<forall>q. full_matches q (hd_contacts db') = full_matches q (hd_contacts db))
     \<and> (\<forall>r' \<in> set (hd_contacts db'). \<exists>r \<in> set (hd_contacts db). same_identity r r')
     \<and> (key \<in> ro_public_key ` set (hd_contacts db) \<longrightarrow> key \<in> ro_public_key ` set (hd_contacts db'))"

lemma promotes_identity: "promotes key a b \<Longrightarrow> r' \<in> set (hd_contacts b) \<Longrightarrow> \<exists>r \<in> set (hd_contacts a). same_identity r r'"
  by (simp add: promotes_def)

lemma same_identity_trans: "same_identity a b \<Longrightarrow> same_identity b c \<Longrightarrow> same_identity a c"
  by (simp add: same_identity_def)

lemma promotes_refl: "promotes key db db"
  by (auto simp: promotes_def same_identity_def)

lemma promotes_trans: "promotes key a b \<Longrightarrow> promotes key b c \<Longrightarrow> promotes key a c"
proof -
  assume ab: "promotes key a b" and bc: "promotes key b c"
  have "full_matches q (hd_contacts c) = full_matches q (hd_contacts a)" for q using ab bc by (simp add: promotes_def)
  moreover have "\<exists>r \<in> set (hd_contacts a). same_identity r r'" if in_c: "r' \<in> set (hd_contacts c)" for r'
  proof -
    obtain r1 where r1: "r1 \<in> set (hd_contacts b)" "same_identity r1 r'" using promotes_identity [OF bc in_c] by blast
    then show ?thesis using promotes_identity [OF ab r1(1)] same_identity_trans by blast
  qed
  moreover have "key \<in> ro_public_key ` set (hd_contacts a) \<longrightarrow> key \<in> ro_public_key ` set (hd_contacts c)" using ab bc by (simp add: promotes_def)
  ultimately show ?thesis by (simp add: promotes_def)
qed

lemma promotes_keys:
  assumes "promotes key a b" and "r' \<in> set (hd_contacts b)"
  shows "ro_public_key r' \<in> ro_public_key ` set (hd_contacts a)"
proof -
  obtain r where "r \<in> set (hd_contacts a)" "same_identity r r'" using promotes_identity [OF assms] by blast
  then show ?thesis by (auto simp: same_identity_def)
qed

lemma promote_one_promotes:
  assumes "stands_for key ph" and "length key = 64" and "promote_one key ph (ps, db) = (ps', db')"
  shows "promotes key db db' \<and> (ro_public_key ph \<in> ro_public_key ` set (hd_contacts db') \<longrightarrow> full_matches (ro_public_key ph) (hd_contacts db') \<noteq> 1)"
proof -
  let ?old = "ro_public_key ph"
  have ne: "?old \<noteq> key" "length ?old \<noteq> 64" using assms(1,2) by (auto simp: stands_for_def)
  show ?thesis
  proof (cases "full_matches ?old (hd_contacts db) = 1")
    case False
    then have "db' = db" using assms(3) ne by (simp add: promote_one_def full_matches_def)
    then show ?thesis using False by (simp add: promotes_refl)
  next
    case True
    define f where "f = (\<lambda>r :: contact_row. if ro_public_key r = key
                                 then r\<lparr>ro_last_seen := later (ro_last_seen ph) (ro_last_seen r),
                                        ro_last_contacted := later (ro_last_contacted ph) (ro_last_contacted r),
                                        ro_first_seen := earlier (ro_first_seen ph) (ro_first_seen r)\<rparr>
                                 else r)"
    have fk: "ro_public_key (f r) = ro_public_key r" for r by (simp add: f_def)
    have c: "hd_contacts db' = filter (\<lambda>r. ro_public_key r \<noteq> ?old) (map f (hd_contacts db))"
      using assms(3) ne True by (auto simp: promote_one_def full_matches_def Let_def f_def migrate_child_rows_def)
    have "full_matches q (hd_contacts db') = full_matches q (hd_contacts db)" for q
      unfolding c by (rule matches_map_filter [OF fk]) (use ne in auto)
    moreover have "ro_public_key ` set (hd_contacts db') = ro_public_key ` set (hd_contacts db) - {?old}"
    proof
      show "ro_public_key ` set (hd_contacts db') \<subseteq> ro_public_key ` set (hd_contacts db) - {?old}" by (auto simp: c fk)
      show "ro_public_key ` set (hd_contacts db) - {?old} \<subseteq> ro_public_key ` set (hd_contacts db')"
        by (auto simp: c) (metis (mono_tags, lifting) fk imageI image_eqI mem_Collect_eq)
    qed
    moreover have "\<exists>r \<in> set (hd_contacts db). same_identity r r'" if "r' \<in> set (hd_contacts db')" for r'
      using that by (auto simp: c same_identity_def f_def)
    ultimately show ?thesis using ne by (simp add: promotes_def)
  qed
qed

lemma promote_all:
  assumes "list_all (stands_for key) rows" and "length key = 64" and "fold (promote_one key) rows (ps, db) = (ps', db')"
  shows "promotes key db db' \<and> (\<forall>ph \<in> set rows. ro_public_key ph \<in> ro_public_key ` set (hd_contacts db') \<longrightarrow> full_matches (ro_public_key ph) (hd_contacts db') \<noteq> 1)"
  using assms(1,3)
proof (induction rows arbitrary: ps db)
  case Nil
  then show ?case by (simp add: promotes_refl)
next
  case (Cons ph rows)
  obtain ps1 db1 where 1: "promote_one key ph (ps, db) = (ps1, db1)" by fastforce
  have a: "promotes key db db1" "ro_public_key ph \<in> ro_public_key ` set (hd_contacts db1) \<Longrightarrow> full_matches (ro_public_key ph) (hd_contacts db1) \<noteq> 1"
    using promote_one_promotes [OF _ assms(2) 1] Cons.prems(1) by auto
  have "fold (promote_one key) rows (ps1, db1) = (ps', db')" using Cons.prems(2) 1 by simp
  from Cons.IH [OF _ this] Cons.prems(1) have b: "promotes key db1 db'"
    "\<forall>ph \<in> set rows. ro_public_key ph \<in> ro_public_key ` set (hd_contacts db') \<longrightarrow> full_matches (ro_public_key ph) (hd_contacts db') \<noteq> 1" by auto
  have "full_matches (ro_public_key ph) (hd_contacts db') \<noteq> 1" if "ro_public_key ph \<in> ro_public_key ` set (hd_contacts db')"
  proof -
    have "ro_public_key ph \<in> ro_public_key ` set (hd_contacts db1)" using that promotes_keys [OF b(1)] by force
    then show ?thesis using a(2) b(1) by (simp add: promotes_def)
  qed
  then show ?case using promotes_trans [OF a(1) b(1)] b(2) by simp
qed

lemma placeholders_settled:
  assumes "length key = 64" and "lower key = key" and "promote_prefix_placeholders key db = (ps, db')"
  shows "promotes key db db' \<and> (\<forall>r \<in> set (hd_contacts db'). stands_for key r \<longrightarrow> full_matches (ro_public_key r) (hd_contacts db') \<noteq> 1)"
proof -
  define rows where "rows = sort_key (\<lambda>r. 64 - length (ro_public_key r)) (filter (stands_for key) (hd_contacts db))"
  have f: "fold (promote_one key) rows ([], db) = (ps, db')"
    using assms(3) by (simp add: promote_prefix_placeholders_def Let_def assms(2) rows_def stands_for_def [abs_def])
  have a: "list_all (stands_for key) rows" by (simp add: rows_def list_all_iff)
  note p = promote_all [OF a assms(1) f]
  have "full_matches (ro_public_key r) (hd_contacts db') \<noteq> 1" if r: "r \<in> set (hd_contacts db')" "stands_for key r" for r
  proof -
    obtain r0 where r0: "r0 \<in> set (hd_contacts db)" "ro_public_key r0 = ro_public_key r" using p r(1) promotes_keys [of key db db' r] by auto
    then have "r0 \<in> set rows" using r(2) by (simp add: rows_def stands_for_def)
    then show ?thesis using p r(1) r0(2) by force
  qed
  then show ?thesis using p by blast
qed

section \<open>Claims leave nothing claimable\<close>

lemma claim_settles:
  assumes "claim_prefix_messages key db = (Inr n, db')" and "length key = 64" and "lower key = key"
  shows "no_claims key db' \<and> db_contacts db' = db_contacts db"
proof -
  let ?hit = "claimable key (db_contacts db)"
  have d: "db' = db\<lparr>db_messages := map (\<lambda>r. if ?hit r then claimed_row key r else r) (db_messages db)\<rparr>"
    using assms by (auto simp: claim_prefix_messages_def Let_def split: if_splits)
  have "\<not> claimable key cs (claimed_row key r)" for cs r using assms(2) by (simp add: claimable_def claimed_row_def)
  then show ?thesis by (auto simp: d no_claims_def)
qed

lemma backfill_claims: "no_claims key (snd (backfill_channel_sender_key k n db)) = no_claims key db \<and> db_contacts (snd (backfill_channel_sender_key k n db)) = db_contacts db"
  by (auto simp: backfill_channel_sender_key_def Let_def no_claims_def claimable_def split: if_splits)

lemma reconcile_settles:
  assumes "record_contact_name_and_reconcile pk nm ts s = (Inr u, s')" and "length pk = 64" and "lower pk = pk"
  shows "no_claims pk (st_db (ps_store s')) \<and> contacts_of s' = contacts_of s"
proof -
  define s0 where "s0 = (case non_empty nm of None \<Rightarrow> s | Some name \<Rightarrow> s\<lparr>ps_names := record_name pk name ts (ps_names s)\<rparr>)"
  have c0: "contacts_of s0 = contacts_of s" by (simp add: s0_def contacts_of_def split: option.splits)
  obtain r db1 where c: "claim_prefix_messages pk (st_db (ps_store s0)) = (r, db1)" by fastforce
  have r: "reconcile_contact_messages pk nm s0 = (Inr u, s')" using assms(1) by (simp add: record_contact_name_and_reconcile_def s0_def)
  then obtain n where n: "r = Inr n" using c by (cases r) (auto simp: reconcile_contact_messages_def assms(3))
  note cs = claim_settles [OF c [unfolded n] assms(2,3)]
  have "s' = s0\<lparr>ps_store := (ps_store s0)\<lparr>st_db := (case non_empty nm of None \<Rightarrow> db1 | Some name \<Rightarrow> snd (backfill_channel_sender_key pk name db1))\<rparr>\<rparr>"
    using r c n unfolding reconcile_contact_messages_def assms(3) Let_def by simp
  then show ?thesis using cs backfill_claims [of pk pk _ db1] c0 by (auto simp: contacts_of_def split: option.splits)
qed

section \<open>An accepted advertisement\<close>

lemma lower_hex_of: "lower (hex_of bs) = hex_of bs"
proof -
  have d: "lower_char (hex_digit n) = hex_digit n" if "n < 16" for n
  proof -
    have "n \<in> set [0, 1, 2, 3, 4, 5, 6, 7, 8, 9, 10, 11, 12, 13, 14, 15]" using that by (auto simp: numeral_eq_Suc less_Suc_eq)
    then show ?thesis by (elim set_ConsD [THEN disjE] ; simp add: hex_digit_def lower_char_def)
  qed
  have "unat b div 16 < 16" for b :: byte by (rule less_mult_imp_div_less) (use unat_byte_less [of b] in simp)
  then have "lower (hex_byte b) = hex_byte b" for b by (simp add: lower_def hex_byte_def d)
  then show ?thesis by (induction bs) (auto simp: hex_of_def lower_def)
qed

lemma advert_key:
  assumes "parse_advertisement al payload = Some advert"
  shows "length (pa_public_key advert) = 64" "lower (pa_public_key advert) = pa_public_key advert"
proof -
  have "101 \<le> length payload" "pa_public_key advert = hex_of (slice 0 32 payload)"
    using assms by (auto simp: parse_advertisement_def Let_def split: if_splits)
  then show "length (pa_public_key advert) = 64" "lower (pa_public_key advert) = pa_public_key advert" by (simp_all add: lower_hex_of)
qed

definition advertised :: "ParsedAdvertisement \<Rightarrow> int \<Rightarrow> contact_row \<Rightarrow> bool" where
  "advertised advert timestamp r \<longleftrightarrow> ro_last_advert r = Some timestamp \<and> (pa_name advert \<noteq> None \<longrightarrow> ro_name r = pa_name advert)"

lemma upsert_advertised:
  fixes rows :: "contact_row list" and ct ts :: int
  assumes low: "lower (pa_public_key advert) = pa_public_key advert"
  defines "w \<equiv> advert_write advert ct ts"
  shows "pa_public_key advert \<in> ro_public_key ` set (contact_upsert w rows)"
    and "\<And>r. r \<in> set (contact_upsert w rows) \<Longrightarrow> ro_public_key r = pa_public_key advert \<Longrightarrow> advertised advert ts r"
proof -
  let ?x = "inserted_row w"
  have x: "ro_public_key ?x = pa_public_key advert" "ro_last_advert ?x = Some ts" "ro_name ?x = pa_name advert" "wr_public_key w = pa_public_key advert"
    by (simp_all add: w_def advert_write_def low inserted_row_def split: prod.splits)
  have m: "advertised advert ts (merged_row ?x r)" for r
    using x by (auto simp: merged_row_def advertised_def coalesce_def)
  show "pa_public_key advert \<in> ro_public_key ` set (contact_upsert w rows)"
  proof (cases "list_ex (\<lambda>r. ro_public_key r = ro_public_key ?x) rows")
    case True
    have "map ro_public_key (update_where (wr_public_key w) (merged_row ?x) rows) = map ro_public_key rows" by (simp add: update_where_def)
    then have "ro_public_key ` set (update_where (wr_public_key w) (merged_row ?x) rows) = ro_public_key ` set rows" by (metis set_map)
    moreover have "pa_public_key advert \<in> ro_public_key ` set rows" using True x(1) by (force simp: list_ex_iff)
    ultimately show ?thesis using True by (simp add: contact_upsert_def Let_def)
  qed (use x in \<open>simp add: contact_upsert_def Let_def\<close>)
  show "advertised advert ts r" if "r \<in> set (contact_upsert w rows)" "ro_public_key r = pa_public_key advert" for r
    using that x m by (auto simp: contact_upsert_def Let_def update_where_def low list_ex_iff advertised_def split: if_splits)
qed

definition contact_settled :: "ParsedAdvertisement \<Rightarrow> int \<Rightarrow> packet_state \<Rightarrow> bool" where
  "contact_settled advert ts s \<longleftrightarrow> pa_public_key advert \<in> ro_public_key ` set (contacts_of s)
     \<and> (\<forall>r \<in> set (contacts_of s). ro_public_key r = pa_public_key advert \<longrightarrow> advertised advert ts r)
     \<and> (\<forall>r \<in> set (contacts_of s). stands_for (pa_public_key advert) r \<longrightarrow> full_matches (ro_public_key r) (contacts_of s) \<noteq> 1)
     \<and> no_claims (pa_public_key advert) (st_db (ps_store s))"

lemma publish_settled [simp]: "contact_settled advert ts (publish e s) = contact_settled advert ts s"
  by (simp add: contact_settled_def publish_def contacts_of_def)

lemma publishes_settled [simp]: "contact_settled advert ts (fold (\<lambda>k. publish (f k)) ks s) = contact_settled advert ts s"
  by (induction ks arbitrary: s) auto

lemma sweep_settled [simp]: "contact_settled advert ts (start_historical_dm_decryption env key name s) = contact_settled advert ts s"
  by (auto simp: start_historical_dm_decryption_def split: option.splits)

lemma promoted_contacts:
  assumes "promote_prefix_contacts_for_contact key s = (ps, s')" and "length key = 64" and "lower key = key"
  shows "\<exists>h. promotes key h (h\<lparr>hd_contacts := contacts_of s'\<rparr>) \<and> hd_contacts h = contacts_of s"
    and "\<forall>r \<in> set (contacts_of s'). stands_for key r \<longrightarrow> full_matches (ro_public_key r) (contacts_of s') \<noteq> 1"
proof -
  define h where "h = \<lparr>hd_contacts = contacts_of s, hd_names = ps_names s, hd_paths = ps_paths s, hd_drift = ps_drift s\<rparr>"
  obtain ps1 h1 where p: "promote_prefix_placeholders key h = (ps1, h1)" by fastforce
  have "s' = set_contacts (hd_contacts h1) (s\<lparr>ps_names := hd_names h1, ps_paths := hd_paths h1, ps_drift := hd_drift h1\<rparr>)"
    using assms(1) unfolding promote_prefix_contacts_for_contact_def assms(3) h_def [symmetric] p by simp
  then have c: "contacts_of s' = hd_contacts h1" by (simp add: set_contacts_def write_contacts_def contacts_of_def)
  show "\<exists>h. promotes key h (h\<lparr>hd_contacts := contacts_of s'\<rparr>) \<and> hd_contacts h = contacts_of s"
    using placeholders_settled [OF assms(2,3) p] by (intro exI [of _ h]) (simp add: c promotes_def h_def)
  show "\<forall>r \<in> set (contacts_of s'). stands_for key r \<longrightarrow> full_matches (ro_public_key r) (contacts_of s') \<noteq> 1"
    using placeholders_settled [OF assms(2,3) p] by (simp add: c)
qed

lemma store_advert_settles:
  assumes pa: "parse_advertisement al payload = Some advert" and r: "store_advert env advert ct new info ts s = (Inr u, s')"
  shows "contact_settled advert ts s'"
proof -
  note k = advert_key [OF pa]
  let ?key = "pa_public_key advert"
  define s1 where "s1 = set_contacts (contact_upsert (advert_write advert ct ts) (contacts_of s)) s"
  define s2 where "s2 = s1\<lparr>ps_drift := drift_record ?key (int (pa_timestamp advert)) ts (int (pi_path_length info)) (ps_drift s1)\<rparr>"
  define s3 where "s3 = s2\<lparr>ps_paths := record_observation ?key (hex_of (pi_path info)) ts 10 (Some (int (pi_path_length info))) (ps_paths s2)\<rparr>"
  have c3: "contacts_of s3 = contact_upsert (advert_write advert ct ts) (contacts_of s)"
    by (simp add: s3_def s2_def s1_def contacts_of_def set_contacts_def write_contacts_def)
  obtain ps s4 where p: "promote_prefix_contacts_for_contact ?key s3 = (ps, s4)" by fastforce
  obtain q s5 where q: "record_contact_name_and_reconcile ?key (pa_name advert) ts s4 = (q, s5)" by fastforce
  note u = r [unfolded store_advert_def Let_def k(2), folded s1_def, folded s2_def, folded s3_def, unfolded p prod.case q]
  obtain v where v: "q = Inr v" using u by (cases q) auto
  note e = reconcile_settles [OF q [unfolded v] k]
  have "contact_settled advert ts s5"
  proof -
    obtain h where h: "promotes ?key h (h\<lparr>hd_contacts := contacts_of s4\<rparr>)" "hd_contacts h = contacts_of s3" using promoted_contacts(1) [OF p k] by blast
    have "?key \<in> ro_public_key ` set (contacts_of s4)" using h upsert_advertised(1) [OF k(2), of ct ts "contacts_of s"] by (simp add: promotes_def c3)
    moreover have "advertised advert ts x" if x: "x \<in> set (contacts_of s4)" "ro_public_key x = ?key" for x
    proof -
      obtain y where y: "y \<in> set (contacts_of s3)" "same_identity y x" using promotes_identity [OF h(1), of x] x(1) h(2) by auto
      then have "advertised advert ts y" using upsert_advertised(2) [OF k(2), of y ct ts "contacts_of s"] x(2) by (simp add: c3 same_identity_def)
      then show ?thesis using y(2) by (simp add: advertised_def same_identity_def)
    qed
    ultimately show ?thesis using e promoted_contacts(2) [OF p k] by (simp add: contact_settled_def)
  qed
  moreover have "contact_settled advert ts s' = contact_settled advert ts s5"
    using u unfolding v by (auto split: option.splits if_splits)
  ultimately show ?thesis by simp
qed

text \<open>C25: An advertisement whose signature verifies, from a contact that is known or whose type may be discovered, settles its contact: when the
  packet is taken without an error, the contact is stored under its key with the name it advertised and this reception as its last advert,
  no placeholder is left that stands for it alone, and no message is left that it could claim.\<close>

theorem advert_settles_contact:
  assumes "parse_packet raw = Some i" and "pi_payload_type i = ADVERT" and "parse_advertisement (pe_isalnum env) (pi_payload i) = Some advert"
    and "verify_advert_signature (pe_crypto env) (pi_payload i)"
    and "get_by_key (pa_public_key advert) (contacts_of s) \<noteq> None \<or> int (pa_device_role advert) \<notin> set (pe_discovery_blocked_types env)"
    and "process_raw_packet env raw ts snr rssi s = (Inr r, s')"
  shows "contact_settled advert ts s'"
proof -
  obtain pid new db1 where c: "raw_packet_create (sha256 (pe_crypto env)) raw (extract_payload raw) ts (st_db (ps_store s)) = ((pid, new), db1)"
    by (metis surj_pair)
  define s1 where "s1 = s\<lparr>ps_observations := ps_observations s + 1, ps_store := (ps_store s)\<lparr>st_db := db1\<rparr>\<rparr>"
  have con: "contacts_of s1 = contacts_of s" using raw_create_rest [OF c] by (simp add: s1_def contacts_of_def)
  obtain tc reg where sc: "packet_scope env i = (tc, reg)" by fastforce
  obtain q s2 where q: "process_advertisement env i ts s1 = (q, s2)" by fastforce
  have rx: "rx_received_at (packet_reception p t i a b tr rg) = t" for p t a b tr rg by (simp add: packet_reception_def)
  note u = assms(6) [unfolded process_raw_packet_def c Let_def prod.case, folded s1_def, unfolded assms(1) option.case sc prod.case dispatch_packet_def assms(2) PayloadType.case rx q]
  obtain v where v: "q = Inr v" using u by (cases q) auto
  have s': "contact_settled advert ts s' = contact_settled advert ts s2" using u unfolding v by auto
  have "\<exists>ct b. process_advertisement env i ts s1 = store_advert env advert ct b i ts s1"
    using assms(3,4,5) con advert_key(2) [OF assms(3)] by (auto simp: process_advertisement_def Let_def)
  then show ?thesis using q v store_advert_settles [OF assms(3)] s' by auto
qed

section \<open>A flood of channel text, from the air to the table\<close>

text \<open>C4: Copies of one channel text heard over the air, by whatever paths, are one row: a sender that holds the channel's key encrypts the text,
  and after any number of copies the table has one row for it with the path of every copy in the order they were heard, and a copy of our
  own message counts as one repeat. Earlier channels whose key does not fit the MAC do not matter, and no other row changes.\<close>

theorem channel_flood_stored:
  assumes "aes_inverse (pe_crypto env) enc" and "length key = 16" and "0 < ts" and "ts < 2 ^ 32" and "list_all scalar_value msg" and "0 \<notin> set msg"
    and "split_sender msg = (sender, wire)" and "decoded_body (pe_ingest env) wire = Inr (body, cinfo)"
    and "extract_reaction_from_stored_text MsgChan (with_sender sender body) = None"
    and "store_ok (ps_store s)" and "ps_channels s = before @ c # after" and "fromhex (cn_key c) = Some key"
    and "\<forall>b \<in> set before. \<forall>k. fromhex (cn_key b) = Some k \<longrightarrow> \<not> channel_mac (pe_crypto env) k (sealed_text (pe_crypto env) enc key ts flags msg)"
    and "list_all (carries (sealed_text (pe_crypto env) enc key ts flags msg)) copies"
    and "echo_rows (upper_key (cn_key c)) (with_sender sender body) (int ts) (ps_store s) = known_echo e"
  shows "let st' = ps_store (fold (hear_packet env) copies s)
    in echo_rows (upper_key (cn_key c)) (with_sender sender body) (int ts) st' = known_echo (fold flood_spec copies e)
      \<and> unheard_rows (upper_key (cn_key c)) (with_sender sender body) (int ts) st' = unheard_rows (upper_key (cn_key c)) (with_sender sender body) (int ts) (ps_store s)
      \<and> announcements st' \<le> announcements (ps_store s) + (if e = None then 1 else 0)"
  using flood_stored [OF assms(1-7,12,13) refl assms(8,9,10,11,14,15)] by (simp add: copy_taken_def Let_def)

section \<open>Examples of whole packets\<close>

definition demo_packet_env :: packet_env where
  "demo_packet_env = \<lparr>pe_ingest = demo_ingest_env, pe_crypto = demo_crypto, pe_isalnum = (\<lambda>c. True), pe_private_key = None, pe_public_key = None,
     pe_identity = None, pe_known_regions = [], pe_discovery_blocked_types = [2], pe_auto_decrypt_dm_on_advert = False, pe_clock = real\<rparr>"

definition heard_channel :: Channel where
  "heard_channel = \<lparr>cn_key = hex_of (replicate 16 3), cn_name = utext ''demo'', cn_is_hashtag = False, cn_on_radio = True\<rparr>"

definition idle :: "Channel list \<Rightarrow> packet_state" where
  "idle cs = \<lparr>ps_store = empty_store, ps_names = [], ps_paths = [], ps_drift = [], ps_channels = cs, ps_observations = 0,
     ps_pending_acks = [], ps_buffered_acks = [], ps_events = []\<rparr>"

definition demo_sealed :: bytes where
  "demo_sealed = sealed_text demo_crypto demo_encrypt (replicate 16 3) 77 0 [104, 105]"

definition one_awaited :: packet_state where
  "one_awaited = (idle [])\<lparr>ps_pending_acks := [(hex_of [1, 2, 3, 4], (7, 0, 9000))]\<rparr>"

lemma demo_ack_parsed:
  "\<exists>i. parse_packet [0x0D, 0, 9, 9, 9, 9] = Some i \<and> pi_payload i = [9, 9, 9, 9] \<and> pi_payload_type i = ACK"
  by (simp add: parse_packet_def parse_packet_envelope_def validate_path_byte_def decode_path_byte_def path_wire_len_def
      MAX_PATH_SIZE_def route_type_of_def payload_type_of_def Let_def slice_def)


theorem channel_flood_stored_witness:
  "\<exists>p. echo_rows (upper_key (hex_of (replicate 16 3))) (with_sender None [104, 105]) 77
     (ps_store (fold (hear_packet demo_packet_env) [(0x15 # 0 # demo_sealed, 5, None, None), (0x15 # 0 # demo_sealed, 6, None, None)] (idle [heard_channel])))
   = [([path_entry p 5 (Some 0) None None, path_entry p 6 (Some 0) None None], 0, False)]"
proof -
  let ?c = "heard_channel" and ?raw = "0x15 # 0 # demo_sealed"
  obtain i where i: "parse_packet ?raw = Some i" "pi_payload i = demo_sealed" "pi_payload_type i = GROUP_TEXT" "pi_path_length i = 0"
    by (simp_all add: demo_sealed_def sealed_text_def parse_packet_def parse_packet_envelope_def validate_path_byte_def decode_path_byte_def path_wire_len_def
      MAX_PATH_SIZE_def route_type_of_def payload_type_of_def Let_def slice_def)
  have "decoded_body demo_ingest_env [104, 105] = Inr ([104, 105], None)"
    by (rule plain_body_decodes) (simp add: plain_body_def lstrip_def uspace_def PREFIX_V2_def PREFIX_V3_def PREFIX_MCT_def utext_def starts_with_def)
  moreover have "extract_reaction_from_stored_text MsgChan (with_sender None [104, 105]) = None"
    by (simp add: extract_reaction_from_stored_text_def with_sender_def non_empty_def truthy_def split_channel_sender_text_def parse_reaction_def reaction_payload_def utext_def)
  moreover have "store_ok (ps_store (idle [?c]))" by (simp add: idle_def empty_store_def db_ok_def)
  moreover have "echo_rows (upper_key (cn_key ?c)) (with_sender None [104, 105]) (int 77) (ps_store (idle [?c])) = known_echo None"
    by (simp add: idle_def echo_rows_def empty_store_def known_echo_def)
  moreover have "list_all (carries demo_sealed) [(?raw, 5, None, None), (?raw, 6, None, None)]" by (simp add: carries_def i)
  moreover have "split_sender [104, 105] = (None, [104, 105])" by code_simp
  ultimately show ?thesis
    using channel_flood_stored [of demo_packet_env demo_encrypt "replicate 16 3" 77 "[104, 105]" None "[104, 105]" "[104, 105]" None "idle [?c]" "[]" ?c "[]" 0
        "[(?raw, 5, None, None), (?raw, 6, None, None)]" None] demo_aes
    by (intro exI [of _ "hex_of (pi_path i)"])
       (simp add: Let_def demo_packet_env_def scalar_value_def demo_sealed_def [symmetric] heard_channel_def idle_def copy_path_def i known_echo_def del: fold_simps)
qed

lemma store_advert_taken:
  assumes "db_messages (st_db (ps_store s)) = []"
  shows "\<exists>s'. store_advert env advert ct new info ts s = (Inr (), s')"
proof -
  have u: "unique_rows []" by simp
  have "fst (record_contact_name_and_reconcile pk nm t s4) = Inr ()" if "db_messages (st_db (ps_store s4)) = []" for pk nm t s4
    using that by (simp add: record_contact_name_and_reconcile_def reconcile_contact_messages_def claim_prefix_messages_def Let_def split: option.splits)
  then have r: "\<exists>s5. record_contact_name_and_reconcile pk nm t s4 = (Inr (), s5)" if "db_messages (st_db (ps_store s4)) = []" for pk nm t s4
    using that by (metis prod.collapse)
  have p: "db_messages (st_db (ps_store (snd (promote_prefix_contacts_for_contact pk s3)))) = db_messages (st_db (ps_store s3))" for pk s3
    by (simp add: promote_prefix_contacts_for_contact_def set_contacts_def write_contacts_def split: prod.splits)
  let ?key = "pa_public_key advert"
  define s1 where "s1 = set_contacts (contact_upsert (advert_write advert ct ts) (contacts_of s)) s"
  define s2 where "s2 = s1\<lparr>ps_drift := drift_record ?key (int (pa_timestamp advert)) ts (int (pi_path_length info)) (ps_drift s1)\<rparr>"
  define s3 where "s3 = s2\<lparr>ps_paths := record_observation (lower ?key) (hex_of (pi_path info)) ts 10 (Some (int (pi_path_length info))) (ps_paths s2)\<rparr>"
  obtain ps s4 where q: "promote_prefix_contacts_for_contact ?key s3 = (ps, s4)" by fastforce
  have "db_messages (st_db (ps_store s3)) = []" by (simp add: s3_def s2_def s1_def set_contacts_def write_contacts_def assms)
  then obtain s5 where "record_contact_name_and_reconcile ?key (pa_name advert) ts s4 = (Inr (), s5)" using r [of s4] p [of ?key s3] q by force
  then show ?thesis unfolding store_advert_def Let_def s1_def [symmetric] s2_def [symmetric] s3_def [symmetric] q by simp
qed

lemma demo_advert_parsed:
  "\<exists>a. parse_advertisement (\<lambda>c. True) demo_advert = Some a \<and> pa_public_key a = hex_of (replicate 32 0) \<and> pa_name a = Some (replicate 31 0x41) \<and> pa_device_role a = 1"
proof -
  have l: "length demo_advert = 132" and f: "unat (demo_advert ! 100) = 0x81" and d: "drop 101 demo_advert = replicate 31 0x41" and t: "slice 0 32 demo_advert = replicate 32 0"
    by (simp_all add: demo_advert_def nth_append slice_def)
  have "advert_name (\<lambda>c. True) (replicate 31 0x41) = Some (map unat (replicate 31 (0x41 :: byte)))"
    by (rule advert_name_visible) (simp_all add: visible_def list_all_iff list_ex_iff)
  then show ?thesis unfolding parse_advertisement_def Let_def f using l d t by (simp add: advert_name_offset_def)
qed

theorem advert_settles_contact_witness:
  "\<exists>a. pa_public_key a = hex_of (replicate 32 0) \<and> pa_name a = Some (replicate 31 0x41)
     \<and> (case process_raw_packet demo_packet_env (0x11 # 0 # demo_advert) 5 None None (idle []) of (Inl e, s') \<Rightarrow> False | (Inr r, s') \<Rightarrow> contact_settled a 5 s')"
proof -
  let ?raw = "0x11 # 0 # demo_advert" and ?s = "idle []"
  obtain i where i: "parse_packet ?raw = Some i" "pi_payload i = demo_advert" "pi_payload_type i = ADVERT"
    by (simp_all add: demo_advert_def parse_packet_def parse_packet_envelope_def validate_path_byte_def decode_path_byte_def path_wire_len_def
      MAX_PATH_SIZE_def route_type_of_def payload_type_of_def Let_def slice_def)
  obtain a where n: "parse_advertisement (\<lambda>c. True) demo_advert = Some a" "pa_public_key a = hex_of (replicate 32 0)" "pa_name a = Some (replicate 31 0x41)"
    "pa_device_role a = 1" using demo_advert_parsed by blast
  have a: "parse_advertisement (pe_isalnum demo_packet_env) (pi_payload i) = Some a" using n(1) i(2) by (simp add: demo_packet_env_def)
  have v: "verify_advert_signature (pe_crypto demo_packet_env) (pi_payload i)"
    unfolding i by (simp add: verify_advert_signature_def demo_advert_def demo_packet_env_def demo_crypto_def ADVERT_HEADER_SIZE_def ADVERT_PUB_KEY_SIZE_def
        ADVERT_TIMESTAMP_SIZE_def ADVERT_SIGNATURE_SIZE_def Let_def)
  have "\<exists>r s'. process_raw_packet demo_packet_env ?raw 5 None None ?s = (Inr r, s')"
  proof -
    obtain pid new db1 where c: "raw_packet_create (sha256 (pe_crypto demo_packet_env)) ?raw (extract_payload ?raw) 5 (st_db (ps_store ?s)) = ((pid, new), db1)"
      by (metis surj_pair)
    define s1 where "s1 = ?s\<lparr>ps_observations := ps_observations ?s + 1, ps_store := (ps_store ?s)\<lparr>st_db := db1\<rparr>\<rparr>"
    have "db_messages (st_db (ps_store s1)) = []" using raw_create_rest [OF c] by (simp add: s1_def idle_def empty_store_def)
    from store_advert_taken [OF this] have "\<exists>s2. process_advertisement demo_packet_env i 5 s1 = (Inr (), s2)"
      unfolding process_advertisement_def a using v n(4) by (simp add: demo_packet_env_def Let_def)
    then obtain s2 where s2: "process_advertisement demo_packet_env i 5 s1 = (Inr (), s2)" by blast
    have rx: "rx_received_at (packet_reception p t j x y tr rg) = t" for p t j x y tr rg by (simp add: packet_reception_def)
    show ?thesis
      unfolding process_raw_packet_def c Let_def prod.case s1_def [symmetric] i option.case dispatch_packet_def PayloadType.case rx s2
      by (simp split: prod.splits)
  qed
  then obtain r s' where r: "process_raw_packet demo_packet_env ?raw 5 None None ?s = (Inr r, s')" by blast
  have "contact_settled a 5 s'" using advert_settles_contact [OF i(1,3) a v _ r] n(4) by (simp add: demo_packet_env_def)
  then show ?thesis using n(2,3) by (intro exI [of _ a]) (simp add: r)
qed

end
