(* ===== verification/SweepProperties.thy ===== *)
theory SweepProperties
  imports HistoricalDecrypt PacketProperties
begin

text \<open>
  What a sweep over stored packets does: a locale for scans that page over rows while they change them, the equivalence of a channel sweep
  with trying every key on every packet, and what is linked afterwards.
\<close>


section \<open>Paging over rows that change\<close>

definition other_rows :: "nat \<Rightarrow> msg_db \<Rightarrow> raw_packet list" where
  "other_rows i db = filter (\<lambda>q. rp_id q \<noteq> i) (db_raw db)"

lemma each_row_append:
  "each_row body (xs @ ys) s = (case each_row body xs s of (Inl e, s1) \<Rightarrow> (Inl e, s1) | (Inr _, s1) \<Rightarrow> each_row body ys s1)"
  by (induction xs arbitrary: s) (auto split: prod.splits sum.splits)

text \<open>A scan whose body touches no row but its own.\<close>

locale row_sweep =
  fixes db_of :: "'s \<Rightarrow> msg_db" and body :: "raw_packet \<Rightarrow> 's \<Rightarrow> unit res \<times> 's" and good :: "'s \<Rightarrow> bool"
  assumes good_ids: "good s \<Longrightarrow> distinct (map rp_id (db_raw (db_of s)))"
    and body_keeps: "good s \<Longrightarrow> body p s = (r, s') \<Longrightarrow> good s' \<and> other_rows (rp_id p) (db_of s') = other_rows (rp_id p) (db_of s)"
begin

lemma rows_keep:
  assumes "good s" and "each_row body xs s = (r, s')" and "\<And>q. P q \<Longrightarrow> rp_id q \<notin> rp_id ` set xs"
  shows "good s' \<and> filter P (db_raw (db_of s')) = filter P (db_raw (db_of s))"
  using assms
proof (induction xs arbitrary: s)
  case (Cons x xs)
  obtain r1 s1 where b: "body x s = (r1, s1)" by fastforce
  have g: "good s1" and o1: "other_rows (rp_id x) (db_of s1) = other_rows (rp_id x) (db_of s)" using body_keeps [OF Cons.prems(1) b] by auto
  have "filter P (other_rows (rp_id x) (db_of t)) = filter P (db_raw (db_of t))" for t
    unfolding other_rows_def filter_filter by (rule filter_cong) (use Cons.prems(3) in auto)
  then have f: "filter P (db_raw (db_of s1)) = filter P (db_raw (db_of s))" using o1 by metis
  show ?case
  proof (cases r1)
    case (Inl e)
    then show ?thesis using Cons.prems(2) b g f by simp
  next
    case (Inr u)
    then have "each_row body xs s1 = (r, s')" using Cons.prems(2) b by simp
    from Cons.IH [OF g this] Cons.prems(3) f show ?thesis by auto
  qed
qed simp

lemma next_page:
  assumes "good s" and "take n (undecrypted_after last_id (db_of s)) = rows" and "rows \<noteq> []" and "each_row body rows s = (r, s')"
  shows "good s' \<and> undecrypted_after (int (rp_id (last rows))) (db_of s') = drop n (undecrypted_after last_id (db_of s))"
proof -
  let ?P = "\<lambda>l p. rp_message_id p = None \<and> int (rp_id p) > l"
  define U where "U = undecrypted_after last_id (db_of s)"
  have U: "U = rows @ drop n U" using assms(2) by (metis U_def append_take_drop_id)
  have "sorted (map rp_id U)" by (simp add: U_def undecrypted_after_def)
  moreover have "distinct (map rp_id U)"
    unfolding U_def undecrypted_after_def using good_ids [OF assms(1)] by (simp add: distinct_map inj_on_def)
  ultimately have s: "sorted_wrt (<) (map rp_id U)" by (simp add: strict_sorted_iff)
  have le: "rp_id q \<le> rp_id (last rows)" if "q \<in> set rows" for q
  proof -
    have "sorted (map rp_id rows)" using s U by (metis map_append sorted_append strict_sorted_iff)
    moreover obtain i where "i < length rows" "rows ! i = q" using \<open>q \<in> set rows\<close> by (auto simp: in_set_conv_nth)
    ultimately have "map rp_id rows ! i \<le> map rp_id rows ! (length rows - 1)" by (intro sorted_nth_mono) auto
    then show ?thesis using \<open>i < length rows\<close> \<open>rows ! i = q\<close> assms(3) by (simp add: last_conv_nth)
  qed
  have gt: "rp_id (last rows) < rp_id q" if "q \<in> set (drop n U)" for q
  proof -
    have "sorted_wrt (<) (map rp_id rows @ map rp_id (drop n U))" using s U by (metis map_append)
    then show ?thesis using that assms(3) by (simp add: sorted_wrt_append)
  qed
  have sel: "filter (\<lambda>p. int (rp_id p) > int (rp_id (last rows))) U = drop n U"
  proof -
    have "filter (\<lambda>p. int (rp_id p) > int (rp_id (last rows))) (rows @ drop n U) = drop n U"
      using le gt by (auto simp: filter_empty_conv filter_id_conv not_less)
    then show ?thesis using U by metis
  qed
  have low: "last_id < int (rp_id (last rows))"
  proof -
    have "last rows \<in> set U" using U assms(3) by (metis Un_iff last_in_set set_append)
    then show ?thesis by (simp add: U_def undecrypted_after_def)
  qed
  have keep: "good s'" "filter (?P (int (rp_id (last rows)))) (db_raw (db_of s')) = filter (?P (int (rp_id (last rows)))) (db_raw (db_of s))"
    using rows_keep [OF assms(1,4), of "?P (int (rp_id (last rows)))"] le by fastforce+
  have "drop n U = filter (\<lambda>p. int (rp_id p) > int (rp_id (last rows))) (sort_key rp_id (filter (?P last_id) (db_raw (db_of s))))"
    using sel by (simp add: U_def undecrypted_after_def)
  also have "\<dots> = sort_key rp_id (filter (?P (int (rp_id (last rows)))) (db_raw (db_of s)))"
    unfolding filter_sort filter_filter using low by (intro arg_cong [of _ _ "sort_key rp_id"] filter_cong) auto
  finally show ?thesis using keep by (simp add: undecrypted_after_def U_def)
qed

theorem paged_scan:
  assumes "0 < n"
  shows "good s \<Longrightarrow> length (undecrypted_after last_id (db_of s)) < fuel \<Longrightarrow>
    stream_undecrypted fuel n db_of body last_id s = Some (each_row body (undecrypted_after last_id (db_of s)) s)"
proof (induction fuel arbitrary: last_id s)
  case (Suc fuel)
  define U where "U = undecrypted_after last_id (db_of s)"
  show ?case
  proof (cases "take n U")
    case Nil
    then have "U = []" using assms by simp
    then show ?thesis using Nil by (simp flip: U_def)
  next
    case (Cons x xs)
    have t: "take n (undecrypted_after last_id (db_of s)) = x # xs" using Cons by (simp add: U_def)
    obtain r s1 where e: "each_row body (x # xs) s = (r, s1)" by fastforce
    have p: "good s1" "undecrypted_after (int (rp_id (last (x # xs)))) (db_of s1) = drop n U"
      using next_page [OF Suc.prems(1) t _ e] by (simp_all add: U_def)
    have split: "each_row body U s = (case each_row body (x # xs) s of (Inl er, s1) \<Rightarrow> (Inl er, s1) | (Inr _, s1) \<Rightarrow> each_row body (drop n U) s1)"
      using each_row_append [of body "take n U" "drop n U" s, unfolded append_take_drop_id] unfolding Cons .
    have "length (drop n U) < fuel" using Suc.prems(2) Cons assms by (cases U) (auto simp: U_def)
    then have ih: "stream_undecrypted fuel n db_of body (int (rp_id (last (x # xs)))) s1 = Some (each_row body (drop n U) s1)"
      using Suc.IH [OF p(1)] p(2) by metis
    show ?thesis unfolding stream_undecrypted.simps U_def [symmetric] Cons list.case split e using ih by (cases r) simp_all
  qed
qed simp

end

section \<open>Which packet rows a message touches\<close>

definition touches_only :: "nat option \<Rightarrow> store \<Rightarrow> store \<Rightarrow> bool" where
  "touches_only p s s' \<longleftrightarrow> (case p of None \<Rightarrow> db_raw (st_db s') = db_raw (st_db s) | Some i \<Rightarrow> other_rows i (st_db s') = other_rows i (st_db s))"

lemma touches_refl: "db_raw (st_db s') = db_raw (st_db s) \<Longrightarrow> touches_only p s s'"
  by (simp add: touches_only_def other_rows_def split: option.splits)

lemma touches_trans: "touches_only p a b \<Longrightarrow> touches_only p b c \<Longrightarrow> touches_only p a c"
  by (simp add: touches_only_def split: option.splits)

lemma mark_others: "other_rows i (mark_decrypted i m db) = other_rows i db"
  unfolding other_rows_def mark_decrypted_def by (induction "db_raw db" arbitrary: db) (auto simp: filter_map comp_def intro!: map_idI)

lemma touches_mark: "touches_only p s (opt_write p (\<lambda>q. mark_decrypted q m) s)"
  by (cases p) (simp_all add: touches_only_def opt_write_def mark_others)

lemma create_raw: "message_create m a b c d db = (r, db') \<Longrightarrow> db_raw db' = db_raw db"
  by (auto simp: message_create_def Let_def split: if_splits)

lemma update_message_raw [simp]: "db_raw (update_message i f db) = db_raw db"
  by (simp add: update_message_def)

lemma touches_reconcile: "touches_only (rx_packet_id rx) s (reconcile_duplicate_message ex rx s)"
proof -
  obtain m pid where ex: "ex = (m, pid)" by fastforce
  obtain paths db1 where d1: "(case rx_path rx of Some p \<Rightarrow> add_path (mr_id m) p (rx_received_at rx) (rx_path_len rx) (rx_rssi rx) (rx_snr rx) (st_db s)
            | None \<Rightarrow> (paths_list m, st_db s)) = (paths, db1)" by fastforce
  define db2 where "db2 = (if rx_transport_code rx \<noteq> None \<and> (mr_transport_code m = None \<or> (mr_region m = None \<and> truthy (rx_region rx)))
                   then set_transport_scope (mr_id m) (rx_transport_code rx) (rx_region rx) db1 else db1)"
  obtain n db3 where d3: "(if mr_outgoing m \<and> mr_type m = MsgChan then message_increment_ack (mr_id m) db2 else (mr_acked m, db2)) = (n, db3)" by fastforce
  have "db_raw db1 = db_raw (st_db s)" using d1 by (auto simp: add_path_def Let_def split: option.splits)
  moreover have "db_raw db2 = db_raw db1" by (simp add: db2_def set_transport_scope_def)
  moreover have "db_raw db3 = db_raw db2" using d3 by (auto simp: message_increment_ack_def Let_def split: if_splits)
  ultimately have raw: "db_raw db3 = db_raw (st_db s)" by simp
  define s2 where "s2 = (if mr_outgoing m \<or> rx_path rx \<noteq> None then broadcast (EvAcked (mr_id m) n paths (if pid \<noteq> None then pid else rx_packet_id rx)) (s\<lparr>st_db := db3\<rparr>) else s\<lparr>st_db := db3\<rparr>)"
  have "reconcile_duplicate_message ex rx s = opt_write (rx_packet_id rx) (\<lambda>q. mark_decrypted q (mr_id m)) s2"
    unfolding reconcile_duplicate_message_def ex prod.case Let_def d1 db2_def [symmetric] d3 s2_def opt_write_def by simp
  moreover have "touches_only (rx_packet_id rx) s s2" by (rule touches_refl) (simp add: s2_def raw)
  ultimately show ?thesis using touches_trans touches_mark by metis
qed

lemma touches_duplicate: "touches_only (rx_packet_id rx) s (handle_duplicate_message t k x ts out rx s)"
  by (auto simp: handle_duplicate_message_def touches_reconcile touches_refl split: option.splits)

lemma land_raw: "db_raw (st_db (snd (land_reaction env t k r m p s))) = db_raw (st_db s)"
  by (auto simp: land_reaction_def apply_reaction_def unhide_unmatched_reaction_def Let_def increment_reaction_def set_is_reaction_def
      split: prod.splits option.splits if_splits)

lemma touches_channel:
  assumes "create_message_from_decrypted env k sn x ts rt rc rx s = (r, s')"
  shows "touches_only (rx_packet_id rx) s s'"
proof (cases "decoded_body env x")
  case (Inl e)
  then show ?thesis using assms by (simp add: create_message_from_decrypted_def touches_refl)
next
  case (Inr bc)
  obtain body c where bc: "bc = (body, c)" by fastforce
  define body_text where "body_text = with_sender sn body"
  define m where "m = row_defaults\<lparr>mr_type := MsgChan, mr_conversation_key := upper_key k, mr_text := body_text, mr_sender_timestamp := Some ts,
                    mr_received_at := rx_received_at rx, mr_sender_name := sn, mr_sender_key := sole_key_by_name sn (st_db s),
                    mr_transport_code := rx_transport_code rx, mr_region := rx_region rx, mr_compression := c,
                    mr_is_reaction := (extract_reaction_from_stored_text MsgChan body_text \<noteq> None), mr_recovered_at := rc\<rparr>"
  obtain q db1 where q: "message_create m (rx_path rx) (rx_path_len rx) (rx_rssi rx) (rx_snr rx) (st_db s) = (q, db1)" by fastforce
  note u = assms [unfolded create_message_from_decrypted_def Inr bc sum.case prod.case Let_def, folded body_text_def, folded m_def, unfolded q prod.case]
  show ?thesis
  proof (cases q)
    case None
    then show ?thesis using u touches_duplicate by auto
  next
    case (Some i)
    have "touches_only (rx_packet_id rx) s (opt_write (rx_packet_id rx) (\<lambda>p. mark_decrypted p i) (s\<lparr>st_db := db1\<rparr>))"
      by (rule touches_trans [OF touches_refl touches_mark]) (simp add: create_raw [OF q])
    moreover have "db_raw (st_db s') = db_raw (st_db (opt_write (rx_packet_id rx) (\<lambda>p. mark_decrypted p i) (s\<lparr>st_db := db1\<rparr>)))"
      using u Some by (auto simp: land_raw split: option.splits)
    ultimately show ?thesis using touches_trans touches_refl by blast
  qed
qed

lemma claim_raw: "claim_prefix_messages k db = (r, db') \<Longrightarrow> db_raw db' = db_raw db"
  by (auto simp: claim_prefix_messages_def Let_def split: if_splits)

lemma touch_contact_raw [simp]: "db_raw (st_db (touch_contact d ra s)) = db_raw (st_db s)"
  by (simp add: touch_contact_def Let_def write_contacts_def split: option.splits)

lemma touches_new_direct:
  assumes "store_new_direct_message env d x c rx s = (r, s')"
  shows "touches_only (rx_packet_id rx) s s'"
proof -
  define m where "m = row_defaults\<lparr>mr_type := MsgPriv, mr_conversation_key := df_conversation_key d, mr_text := x, mr_sender_timestamp := Some (df_sender_timestamp d),
                mr_received_at := rx_received_at rx, mr_txt_type := df_txt_type d, mr_signature := df_signature d, mr_outgoing := df_outgoing d,
                mr_sender_key := df_sender_key d, mr_sender_name := df_sender_name d, mr_transport_code := rx_transport_code rx, mr_region := rx_region rx,
                mr_compression := c, mr_is_reaction := (parse_reaction x \<noteq> None), mr_recovered_at := df_recovered_at d\<rparr>"
  obtain q db1 where q: "message_create m (rx_path rx) (rx_path_len rx) (rx_rssi rx) (rx_snr rx) (st_db s) = (q, db1)" by fastforce
  note u = assms [unfolded store_new_direct_message_def Let_def, folded m_def, unfolded q prod.case]
  show ?thesis
  proof (cases q)
    case None
    then show ?thesis using u touches_duplicate by auto
  next
    case (Some i)
    have "touches_only (rx_packet_id rx) s (opt_write (rx_packet_id rx) (\<lambda>p. mark_decrypted p i) (s\<lparr>st_db := db1\<rparr>))"
      by (rule touches_trans [OF touches_refl touches_mark]) (simp add: create_raw [OF q])
    moreover have "db_raw (st_db (snd (land_reaction env t k re ms p s1))) = db_raw (st_db s1)" for t k re ms p s1 by (rule land_raw)
    then have "db_raw (st_db s') = db_raw (st_db (opt_write (rx_packet_id rx) (\<lambda>p. mark_decrypted p i) (s\<lparr>st_db := db1\<rparr>)))"
      using u unfolding Some by (auto split: option.splits if_splits prod.splits) (metis land_raw snd_conv)
    ultimately show ?thesis using touches_trans touches_refl by blast
  qed
qed

lemma touches_direct_store:
  "store_direct_message env d x rx s = (r, s') \<Longrightarrow> touches_only (rx_packet_id rx) s s'"
  by (auto simp: store_direct_message_def touches_refl touches_reconcile touches_new_direct split: sum.splits prod.splits option.splits if_splits)

lemma touches_direct:
  assumes "ingest_decrypted_direct_message env d k out rt rc rx s = (r, s')"
  shows "touches_only (rx_packet_id rx) s s'"
proof (cases "\<not> out \<and> txt_type d = 1")
  case True
  then show ?thesis using assms by (simp add: ingest_decrypted_direct_message_def touches_refl)
next
  case False
  let ?c = "get_by_key (lower k) (db_contacts (st_db s))"
  obtain q s1 where q: "(case ?c of None \<Rightarrow> (Inr (lower k, False), s) | Some c \<Rightarrow> prepare_resolved_contact c s) = (q, s1)" by fastforce
  have r1: "db_raw (st_db s1) = db_raw (st_db s)"
    using q by (auto simp: prepare_resolved_contact_def Let_def dest: claim_raw split: option.splits prod.splits sum.splits)
  obtain t s2 where t: "decrypted_sender d ?c out (lower k) s1 = (t, s2)" by fastforce
  have r2: "db_raw (st_db s2) = db_raw (st_db s1)"
    using t by (auto simp: decrypted_sender_def resolve_direct_message_sender_metadata_def Let_def dest: claim_raw
        split: option.splits prod.splits sum.splits if_splits lookup.splits)
  have f: "(\<not> out \<and> txt_type d = 1) = False" using False by blast
  note u = assms [unfolded ingest_decrypted_direct_message_def Let_def f if_False, unfolded q prod.case t]
  have "touches_only (rx_packet_id rx) s2 s' \<or> s' = s1 \<or> s' = s2"
    using u by (auto split: sum.splits prod.splits if_splits dest: touches_direct_store)
  then show ?thesis using r1 r2 touches_refl touches_trans by metis
qed

section \<open>The bodies of the two scans\<close>

lemma store_of_examined [simp]: "sw_store (examined w) = sw_store w"
  by (simp add: examined_def)

lemma store_of_tick [simp]: "sw_store (sweep_tick now q w) = sw_store w"
  by (simp add: sweep_tick_def emit_progress_def Let_def)

lemma ticked_store: "ticked clock q rw = (r, w') \<Longrightarrow> sw_store w' = sw_store (snd rw)"
  by (auto simp: ticked_def split: prod.splits sum.splits)

lemma recover_keeps:
  assumes "recover_channel_text env ra p info hit w = (r, w')" and "store_ok (sw_store w)"
  shows "store_ok (sw_store w') \<and> other_rows (rp_id p) (st_db (sw_store w')) = other_rows (rp_id p) (st_db (sw_store w))"
proof -
  obtain t g where hit: "hit = (t, g)" by fastforce
  obtain tc reg where sc: "packet_scope env info = (tc, reg)" by fastforce
  let ?rx = "stored_reception p info tc reg"
  obtain q st where q: "create_message_from_decrypted (pe_ingest env) (ct_key_hex t) (gt_sender g) (gt_message g) (int (gt_timestamp g)) False (Some ra) ?rx (sw_store w) = (q, st)"
    by fastforce
  have "sw_store w' = st" using assms(1) unfolding recover_channel_text_def hit prod.case sc q by (auto split: sum.splits)
  moreover have "rx_packet_id ?rx = Some (rp_id p)" by (simp add: stored_reception_def packet_reception_def)
  ultimately show ?thesis using channel_route_ok [OF assms(2) q] touches_channel [OF q] by (simp add: touches_only_def)
qed

lemma channel_row_keeps:
  assumes "store_ok (sw_store w)" and "channel_row env clock q ra idx p w = (r, w')"
  shows "store_ok (sw_store w') \<and> other_rows (rp_id p) (st_db (sw_store w')) = other_rows (rp_id p) (st_db (sw_store w))"
proof -
  obtain r1 w1 where b: "(case parse_packet (rp_data p) of
              None \<Rightarrow> (Inr (), examined w)
            | Some info \<Rightarrow>
                if pi_payload_type info \<noteq> GROUP_TEXT \<or> pi_payload info = [] then (Inr (), examined w)
                else (case first_target (\<lambda>t. decrypt_group_text (pe_crypto env) (pi_payload info) (ct_key_bytes t)) (dict_get (pi_payload info ! 0) [] idx) of
                        None \<Rightarrow> (Inr (), examined w)
                      | Some hit \<Rightarrow> recover_channel_text env ra p info hit (examined w))) = (r1, w1)" by (rule that [OF surjective_pairing])
  have "ticked clock q (r1, w1) = (r, w')" using assms(2) unfolding channel_row_def Let_def b .
  then have "sw_store w' = sw_store w1" by (metis ticked_store snd_conv)
  moreover have "store_ok (sw_store w1) \<and> other_rows (rp_id p) (st_db (sw_store w1)) = other_rows (rp_id p) (st_db (sw_store w))"
  proof -
    have "w1 = examined w \<or> (\<exists>info hit. recover_channel_text env ra p info hit (examined w) = (r1, w1))"
      using b by (cases "parse_packet (rp_data p)") (auto split: option.splits if_splits)
    then show ?thesis using assms(1) recover_keeps [of env ra p _ _ "examined w" r1 w1] by (metis store_of_examined)
  qed
  ultimately show ?thesis by simp
qed

interpretation channel_sweep: row_sweep "\<lambda>w. st_db (sw_store w)" "channel_row env clock queued recovered_at by_hash" "\<lambda>w. store_ok (sw_store w)"
  by unfold_locales (simp add: db_ok_def, rule channel_row_keeps)

lemma contact_row_keeps:
  assumes "store_ok (sw_store w)" and "contact_row_step env clock q ra target ours p w = (r, w')"
  shows "store_ok (sw_store w') \<and> other_rows (rp_id p) (st_db (sw_store w')) = other_rows (rp_id p) (st_db (sw_store w))"
proof -
  define rx where "rx = (case parse_packet (rp_data p) of
                                 Some info \<Rightarrow> stored_reception p info None None
                               | None \<Rightarrow> \<lparr>rx_packet_id = Some (rp_id p), rx_path = None, rx_received_at = rp_timestamp p, rx_path_len = None, rx_rssi = None,
                                          rx_snr = None, rx_transport_code = None, rx_region = None\<rparr>)"
  have pid: "rx_packet_id rx = Some (rp_id p)" by (simp add: rx_def stored_reception_def packet_reception_def split: option.splits)
  have st: "sw_store w' = sw_store w \<or> (\<exists>d out q'. ingest_decrypted_direct_message (pe_ingest env) d (tg_public_key_hex target) out False (Some ra) rx (sw_store w) = (q', sw_store w'))"
  proof (cases "get_packet_payload_type (rp_data p) = Some TEXT_MESSAGE")
    case False
    then show ?thesis using assms(2) by (auto simp: contact_row_step_def Let_def dest: ticked_store)
  next
    case True
    show ?thesis
    proof (cases "try_decrypt_dm (pe_crypto env) (rp_data p) (tg_private_key target) (tg_public_key_bytes target) None")
      case (Inl e)
      then show ?thesis using assms(2) True by (auto simp: contact_row_step_def Let_def dest: ticked_store)
    next
      case (Inr o1)
      show ?thesis
      proof (cases o1)
        case None
        then show ?thesis using assms(2) True Inr by (auto simp: contact_row_step_def Let_def dest: ticked_store)
      next
        case (Some d)
        define out where "out = (dm_src_hash d = hex_byte ours \<and> dm_dest_hash d \<noteq> hex_byte ours)"
        obtain q' st where q': "ingest_decrypted_direct_message (pe_ingest env) d (tg_public_key_hex target) out False (Some ra) rx (sw_store w) = (q', st)" by fastforce
        have "sw_store w' = st" using assms(2) True Inr Some
          unfolding contact_row_step_def Let_def rx_def [symmetric] store_of_examined
          by (auto simp: q' [unfolded out_def] split: sum.splits dest!: ticked_store)
        then show ?thesis using q' by blast
      qed
    qed
  qed
  then show ?thesis
  proof (elim disjE exE)
    fix d out q' assume i: "ingest_decrypted_direct_message (pe_ingest env) d (tg_public_key_hex target) out False (Some ra) rx (sw_store w) = (q', sw_store w')"
    show ?thesis using direct_route_ok [OF assms(1) i] touches_direct [OF i] by (simp add: pid touches_only_def)
  qed (use assms(1) in simp)
qed

interpretation contact_sweep: row_sweep "\<lambda>w. st_db (sw_store w)" "contact_row_step env clock queued recovered_at target our_first_byte" "\<lambda>w. store_ok (sw_store w)"
  by unfold_locales (simp add: db_ok_def, rule contact_row_keeps)

section \<open>The index of keys\<close>

lemma dict_get_update: "dict_get k d (AList.update h v xs) = (if k = h then v else dict_get k d xs)"
  by (simp add: dict_get_def update_conv')

lemma index_groups: "dict_get h [] (index_by_channel_hash cr targets) = filter (\<lambda>t. sha256 cr (ct_key_bytes t) ! 0 = h) targets"
proof (induction targets rule: rev_induct)
  case Nil
  show ?case by (simp add: index_by_channel_hash_def dict_get_def)
next
  case (snoc t ts)
  have "index_by_channel_hash cr (ts @ [t]) = AList.update (sha256 cr (ct_key_bytes t) ! 0)
      (dict_get (sha256 cr (ct_key_bytes t) ! 0) [] (index_by_channel_hash cr ts) @ [t]) (index_by_channel_hash cr ts)"
    by (simp add: index_by_channel_hash_def Let_def)
  then show ?case using snoc by (auto simp: dict_get_update)
qed

lemma first_target_filter: "first_target f (filter P ts) = first_target (\<lambda>t. if P t then f t else None) ts"
  by (induction ts) (auto split: option.splits)

lemma first_target_cong: "(\<And>t. f t = g t) \<Longrightarrow> first_target f ts = first_target g ts"
  by (induction ts) (auto split: option.splits)

lemma first_target_none: "first_target (\<lambda>t. None) ts = None"
  by (induction ts) auto

text \<open>What the live path would try on the packet: every key, in order.\<close>

definition live_row ::
  "packet_env \<Rightarrow> (nat \<Rightarrow> real) \<Rightarrow> nat \<Rightarrow> int \<Rightarrow> ChannelTarget list \<Rightarrow> raw_packet \<Rightarrow> sweep_world \<Rightarrow> unit res \<times> sweep_world" where
  "live_row env clock queued recovered_at targets p w =
     ticked clock queued
       (case first_target (\<lambda>t. try_decrypt_packet_with_channel_key (pe_crypto env) (rp_data p) (ct_key_bytes t)) targets of
          None \<Rightarrow> (Inr (), examined w)
        | Some hit \<Rightarrow> recover_channel_text env recovered_at p (the (parse_packet (rp_data p))) hit (examined w))"

lemma hex_byte_inj: "hex_byte a = hex_byte b \<longleftrightarrow> a = b"
proof
  assume "hex_byte a = hex_byte b"
  then have "hex_of [a] = hex_of [b]" by (simp add: hex_of_def)
  then show "a = b" by (metis fromhex_hex_of list.inject option.inject)
qed simp

lemma indexed_row: "channel_row env clock queued ra (index_by_channel_hash (pe_crypto env) targets) p w = live_row env clock queued ra targets p w"
proof (cases "parse_packet (rp_data p)")
  case None
  then have "try_decrypt_packet_with_channel_key (pe_crypto env) (rp_data p) k = None" for k by (simp add: try_decrypt_packet_with_channel_key_def)
  then show ?thesis using None by (simp add: channel_row_def live_row_def Let_def first_target_none)
next
  case (Some i)
  show ?thesis
  proof (cases "pi_payload_type i \<noteq> GROUP_TEXT \<or> pi_payload i = []")
    case True
    then have "try_decrypt_packet_with_channel_key (pe_crypto env) (rp_data p) k = None" for k
      using Some by (auto simp: try_decrypt_packet_with_channel_key_def)
    then show ?thesis using Some True by (auto simp: channel_row_def live_row_def Let_def first_target_none)
  next
    case False
    then have "(if sha256 (pe_crypto env) (ct_key_bytes t) ! 0 = pi_payload i ! 0 then decrypt_group_text (pe_crypto env) (pi_payload i) (ct_key_bytes t) else None)
        = try_decrypt_packet_with_channel_key (pe_crypto env) (rp_data p) (ct_key_bytes t)" for t
      using Some by (auto simp: try_decrypt_packet_with_channel_key_def hex_byte_inj Suc_le_eq)
    then have "first_target (\<lambda>t. decrypt_group_text (pe_crypto env) (pi_payload i) (ct_key_bytes t)) (dict_get (pi_payload i ! 0) [] (index_by_channel_hash (pe_crypto env) targets))
        = first_target (\<lambda>t. try_decrypt_packet_with_channel_key (pe_crypto env) (rp_data p) (ct_key_bytes t)) targets"
      unfolding index_groups first_target_filter by (rule first_target_cong)
    moreover have "(pi_payload_type i \<noteq> GROUP_TEXT \<or> pi_payload i = []) = False" using False by blast
    ultimately show ?thesis unfolding channel_row_def live_row_def Let_def Some option.case option.sel by simp
  qed
qed

lemma each_row_cong: "(\<And>p w. f p w = g p w) \<Longrightarrow> each_row f rows w = each_row g rows w"
  by (induction rows arbitrary: w) (auto split: prod.splits sum.splits)

lemma channel_sweep_run:
  assumes "store_ok (sw_store w)" and "get_undecrypted_count (st_db (sw_store w)) < fuel"
  shows "scan_for_channels env clock queued recovered_at fuel w
    = Some (each_row (live_row env clock queued recovered_at (sj_channel_targets (sw_job w))) (undecrypted_after (-1) (st_db (sw_store w))) w)"
proof -
  let ?b = "channel_row env clock queued recovered_at (index_by_channel_hash (pe_crypto env) (sj_channel_targets (sw_job w)))"
  have "filter (\<lambda>p. rp_message_id p = None \<and> int (rp_id p) > -1) (db_raw (st_db (sw_store w))) = filter (\<lambda>p. rp_message_id p = None) (db_raw (st_db (sw_store w)))"
    by (rule filter_cong) auto
  then have l: "length (undecrypted_after (-1) (st_db (sw_store w))) < fuel" using assms(2) by (simp add: undecrypted_after_def get_undecrypted_count_def)
  have "scan_for_channels env clock queued recovered_at fuel w = Some (each_row ?b (undecrypted_after (-1) (st_db (sw_store w))) w)"
    unfolding scan_for_channels_def by (rule channel_sweep.paged_scan [OF _ assms(1) l]) (simp add: UNDECRYPTED_PACKET_BATCH_SIZE_def)
  also have "each_row ?b (undecrypted_after (-1) (st_db (sw_store w))) w
      = each_row (live_row env clock queued recovered_at (sj_channel_targets (sw_job w))) (undecrypted_after (-1) (st_db (sw_store w))) w"
    by (rule each_row_cong) (rule indexed_row)
  finally show ?thesis .
qed

text \<open>C27: A channel sweep does what it stands for: paged and with its keys indexed by the channel byte, it ends, and it gives the same store,
  progress and error as trying on every packet without a message, in the order of their ids, each key in turn the way the live path does.\<close>

theorem channel_sweep_exact:
  assumes "store_ok (sw_store w)" and "get_undecrypted_count (st_db (sw_store w)) < fuel"
  shows "scan_for_channels env clock queued recovered_at fuel w
    = Some (each_row (live_row env clock queued recovered_at (sj_channel_targets (sw_job w))) (undecrypted_after (-1) (st_db (sw_store w))) w)"
  by (rule channel_sweep_run [OF assms])

section \<open>What a sweep leaves\<close>

definition linked_row :: "nat \<Rightarrow> msg_db \<Rightarrow> bool" where
  "linked_row i db \<longleftrightarrow> list_all (\<lambda>q. rp_id q = i \<longrightarrow> rp_message_id q \<noteq> None) (db_raw db)"

lemma mark_links: "linked_row i (mark_decrypted i m db)"
proof -
  have "list_all (\<lambda>q. rp_id q = i \<longrightarrow> rp_message_id q \<noteq> None) (map (\<lambda>p. if rp_id p = i then p\<lparr>rp_message_id := Some m\<rparr> else p) xs)" for xs
    by (induction xs) auto
  then show ?thesis by (simp add: linked_row_def mark_decrypted_def)
qed

lemma opt_write_links: "linked_row i (st_db (opt_write (Some i) (\<lambda>p. mark_decrypted p m) s))"
  by (simp add: opt_write_def mark_links)

lemma reconcile_marks:
  assumes "rx_packet_id rx = Some i"
  shows "linked_row i (st_db (reconcile_duplicate_message ex rx s))"
proof -
  obtain m pid where "ex = (m, pid)" by fastforce
  then have "\<exists>db. st_db (reconcile_duplicate_message ex rx s) = mark_decrypted i (mr_id m) db"
    by (auto simp: reconcile_duplicate_message_def assms Let_def split: prod.splits)
  then show ?thesis using mark_links by metis
qed

lemma channel_links:
  assumes "create_message_from_decrypted env k sn x ts rt rc rx s = (Inr q, s')" and "rx_packet_id rx = Some i" and "ts \<noteq> 0"
  shows "linked_row i (st_db s')"
proof -
  obtain body c where b: "decoded_body env x = Inr (body, c)"
    using assms(1) by (cases "decoded_body env x") (auto simp: create_message_from_decrypted_def)
  define body_text where "body_text = with_sender sn body"
  define m where "m = row_defaults\<lparr>mr_type := MsgChan, mr_conversation_key := upper_key k, mr_text := body_text, mr_sender_timestamp := Some ts,
                    mr_received_at := rx_received_at rx, mr_sender_name := sn, mr_sender_key := sole_key_by_name sn (st_db s),
                    mr_transport_code := rx_transport_code rx, mr_region := rx_region rx, mr_compression := c,
                    mr_is_reaction := (extract_reaction_from_stored_text MsgChan body_text \<noteq> None), mr_recovered_at := rc\<rparr>"
  obtain u db1 where mc: "message_create m (rx_path rx) (rx_path_len rx) (rx_rssi rx) (rx_snr rx) (st_db s) = (u, db1)" by fastforce
  note st = assms(1) [unfolded create_message_from_decrypted_def b sum.case prod.case Let_def, folded body_text_def, folded m_def, unfolded mc prod.case assms(2)]
  show ?thesis
  proof (cases u)
    case None
    obtain r where r: "r \<in> set (db_messages (st_db s))" "mr_type r = MsgChan" "mr_conversation_key r = upper_key k" "mr_text r = body_text" "ts0 r = ts"
      using mc None by (auto simp: message_create_def Let_def m_def list_ex_iff conflicts_def ts0_def split: if_splits option.splits)
    have "mr_sender_timestamp r = Some ts" using r(5) assms(3) by (auto simp: ts0_def split: option.splits)
    then have "get_by_content MsgChan (upper_key k) body_text (Some ts) None (st_db s) \<noteq> None"
      using r by (auto simp: get_by_content_def find_None_iff)
    then obtain ex where "get_by_content MsgChan (upper_key k) body_text (Some ts) None (st_db s) = Some ex" by blast
    then have "s' = reconcile_duplicate_message ex rx s" using st None by (simp add: handle_duplicate_message_def)
    then show ?thesis using reconcile_marks [OF assms(2)] by simp
  next
    case (Some j)
    have "db_raw (st_db s') = db_raw (st_db (opt_write (Some i) (\<lambda>p. mark_decrypted p j) (s\<lparr>st_db := db1\<rparr>)))"
      using st Some by (auto simp: land_raw split: option.splits)
    then show ?thesis using opt_write_links by (simp add: linked_row_def)
  qed
qed

text \<open>A packet that one of the keys opens, with a sender's clock that is set.\<close>

definition opens :: "packet_env \<Rightarrow> ChannelTarget list \<Rightarrow> raw_packet \<Rightarrow> bool" where
  "opens env targets p = (case first_target (\<lambda>t. try_decrypt_packet_with_channel_key (pe_crypto env) (rp_data p) (ct_key_bytes t)) targets of
     None \<Rightarrow> False | Some (t, g) \<Rightarrow> gt_timestamp g \<noteq> 0)"

lemma live_row_links:
  assumes "live_row env clock q ra targets p w = (Inr u, w')" and "opens env targets p"
  shows "linked_row (rp_id p) (st_db (sw_store w'))"
proof -
  obtain t g where h: "first_target (\<lambda>t. try_decrypt_packet_with_channel_key (pe_crypto env) (rp_data p) (ct_key_bytes t)) targets = Some (t, g)" "gt_timestamp g \<noteq> 0"
    using assms(2) by (auto simp: opens_def split: option.splits)
  define info where "info = the (parse_packet (rp_data p))"
  obtain tc reg where sc: "packet_scope env info = (tc, reg)" by fastforce
  let ?rx = "stored_reception p info tc reg"
  obtain q1 st where c: "create_message_from_decrypted (pe_ingest env) (ct_key_hex t) (gt_sender g) (gt_message g) (int (gt_timestamp g)) False (Some ra) ?rx (sw_store w) = (q1, st)"
    by fastforce
  note l = assms(1) [unfolded live_row_def h(1) option.case info_def [symmetric] recover_channel_text_def prod.case sc store_of_examined c]
  obtain v where v: "q1 = Inr v" using l by (cases q1) (auto simp: ticked_def)
  have "sw_store w' = st" using l v by (auto dest!: ticked_store)
  moreover have "rx_packet_id ?rx = Some (rp_id p)" by (simp add: stored_reception_def packet_reception_def)
  ultimately show ?thesis using channel_links [OF c [unfolded v]] h(2) by simp
qed

lemma live_row_keeps:
  "store_ok (sw_store w) \<Longrightarrow> live_row env clock q ra targets p w = (r, w')
    \<Longrightarrow> store_ok (sw_store w') \<and> other_rows (rp_id p) (st_db (sw_store w')) = other_rows (rp_id p) (st_db (sw_store w))"
  using channel_row_keeps [of w env clock q ra "index_by_channel_hash (pe_crypto env) targets" p r w'] by (simp add: indexed_row)

lemma others_linked: "other_rows j db' = other_rows j db \<Longrightarrow> i \<noteq> j \<Longrightarrow> linked_row i db' = linked_row i db"
proof -
  assume o: "other_rows j db' = other_rows j db" and n: "i \<noteq> j"
  have "linked_row i d = list_all (\<lambda>q. rp_id q = i \<longrightarrow> rp_message_id q \<noteq> None) (other_rows j d)" for d
    using n by (auto simp: linked_row_def other_rows_def list_all_iff)
  then show "linked_row i db' = linked_row i db" using o by simp
qed

lemma scan_links:
  assumes "store_ok (sw_store w)" and "each_row (live_row env clock q ra targets) rows w = (Inr u, w')"
  shows "store_ok (sw_store w') \<and> (\<forall>i. linked_row i (st_db (sw_store w)) \<and> (\<forall>p \<in> set rows. rp_id p = i \<longrightarrow> opens env targets p) \<longrightarrow> linked_row i (st_db (sw_store w')))
     \<and> (\<forall>p \<in> set rows. opens env targets p \<and> (\<forall>p' \<in> set rows. rp_id p' = rp_id p \<longrightarrow> p' = p) \<longrightarrow> linked_row (rp_id p) (st_db (sw_store w')))"
  using assms
proof (induction rows arbitrary: w)
  case (Cons p rows)
  obtain r1 w1 where b: "live_row env clock q ra targets p w = (r1, w1)" by fastforce
  obtain v where v: "r1 = Inr v" using Cons.prems(2) b by (cases r1) auto
  have rest: "each_row (live_row env clock q ra targets) rows w1 = (Inr u, w')" using Cons.prems(2) b v by simp
  have k: "store_ok (sw_store w1)" "other_rows (rp_id p) (st_db (sw_store w1)) = other_rows (rp_id p) (st_db (sw_store w))" using live_row_keeps [OF Cons.prems(1) b] by auto
  note ih = Cons.IH [OF k(1) rest]
  have one: "linked_row (rp_id p) (st_db (sw_store w1))" if "opens env targets p" using live_row_links [OF b [unfolded v] that] .
  have keep: "linked_row i (st_db (sw_store w1))" if "linked_row i (st_db (sw_store w))" "rp_id p = i \<longrightarrow> opens env targets p" for i
    using that one others_linked [OF k(2), of i] by (cases "i = rp_id p") auto
  have fin: "linked_row (rp_id x) (st_db (sw_store w'))" if x: "x \<in> set (p # rows)" "opens env targets x" "\<forall>p' \<in> set (p # rows). rp_id p' = rp_id x \<longrightarrow> p' = x" for x
  proof (cases "x \<in> set rows")
    case True
    then show ?thesis using ih x by auto
  next
    case False
    then have "x = p" using x(1) by simp
    moreover have "\<forall>p' \<in> set rows. rp_id p' = rp_id p \<longrightarrow> opens env targets p'" using x False \<open>x = p\<close> by auto
    ultimately show ?thesis using ih one x(2) by blast
  qed
  show ?case using ih keep fin by (intro conjI allI ballI impI) auto
qed (auto simp: linked_row_def)

text \<open>C28: A channel sweep that runs to its end leaves nothing behind: every stored packet that one of its keys opens, the sender's clock being
  set, is linked to a message afterwards, and no packet that was linked loses its message.\<close>

theorem channel_sweep_settles:
  assumes "store_ok (sw_store w)" and "get_undecrypted_count (st_db (sw_store w)) < fuel"
    and "scan_for_channels env clock queued recovered_at fuel w = Some (Inr u, w')"
  shows "list_all (\<lambda>p. opens env (sj_channel_targets (sw_job w)) p \<or> rp_message_id p \<noteq> None \<longrightarrow> linked_row (rp_id p) (st_db (sw_store w'))) (db_raw (st_db (sw_store w)))"
proof -
  let ?db = "st_db (sw_store w)" and ?ts = "sj_channel_targets (sw_job w)"
  let ?rows = "undecrypted_after (-1) ?db"
  have e: "each_row (live_row env clock queued recovered_at ?ts) ?rows w = (Inr u, w')"
    using channel_sweep_run [OF assms(1,2)] assms(3) by simp
  note l = scan_links [OF assms(1) e]
  have rows: "p \<in> set ?rows \<longleftrightarrow> p \<in> set (db_raw ?db) \<and> rp_message_id p = None" for p by (auto simp: undecrypted_after_def)
  have inj: "p = p'" if "p \<in> set (db_raw ?db)" "p' \<in> set (db_raw ?db)" "rp_id p = rp_id p'" for p p'
    using that assms(1) by (auto simp: db_ok_def distinct_map inj_on_def)
  have "linked_row (rp_id p) (st_db (sw_store w'))" if p: "p \<in> set (db_raw ?db)" "opens env ?ts p \<or> rp_message_id p \<noteq> None" for p
  proof (cases "rp_message_id p")
    case None
    then have "p \<in> set ?rows" "\<forall>p' \<in> set ?rows. rp_id p' = rp_id p \<longrightarrow> p' = p" using p(1) rows inj by auto
    then show ?thesis using l p(2) None by simp
  next
    case (Some m)
    have "linked_row (rp_id p) ?db" unfolding linked_row_def list_all_iff
    proof (intro ballI impI)
      fix x assume "x \<in> set (db_raw ?db)" "rp_id x = rp_id p"
      then have "x = p" using inj p(1) by blast
      then show "rp_message_id x \<noteq> None" using Some by simp
    qed
    moreover have "rp_id x \<noteq> rp_id p" if "x \<in> set ?rows" for x
    proof
      assume "rp_id x = rp_id p"
      then have "x = p" using that rows inj p(1) by blast
      then show False using that rows Some by simp
    qed
    ultimately show ?thesis using l by auto
  qed
  then show ?thesis by (simp add: list_all_iff)
qed

section \<open>Tunnel chunks\<close>

text \<open>A body of the media tunnel is handed on and never linked to a message, so the next sweep over its packet hands it on again.\<close>

lemma tunnel_chunk_stays:
  assumes "decoded_body env x = Inr (t, c)" and "is_tunnel_chunk t" and "\<not> df_outgoing d"
  shows "\<exists>s' k. store_direct_message env d x rx s = (Inr None, s') \<and> st_db s' = st_db s \<and> st_events s' = st_events s @ [NoteTunnel t k]"
  using assms by (simp add: store_direct_message_def broadcast_def)

section \<open>An example of a sweep\<close>

definition kept_packet :: raw_packet where
  "kept_packet = \<lparr>rp_id = 1, rp_timestamp = 5, rp_data = 0x15 # 0 # demo_sealed, rp_message_id = None, rp_payload_hash = []\<rparr>"

definition demo_target :: ChannelTarget where
  "demo_target = \<lparr>ct_key_bytes = replicate 16 3, ct_key_hex = hex_of (replicate 16 3), ct_name = utext ''demo''\<rparr>"

definition demo_sweep :: sweep_world where
  "demo_sweep = \<lparr>sw_store = \<lparr>st_db = \<lparr>db_messages = [], db_next_message = 1, db_raw = [kept_packet], db_next_raw = 2, db_contacts = []\<rparr>, st_events = []\<rparr>,
     sw_events = [], sw_job = channel_job ''j'' [demo_target] None 1\<rparr>"

lemma demo_sweep_ready: "store_ok (sw_store demo_sweep)" "get_undecrypted_count (st_db (sw_store demo_sweep)) < 2"
  "undecrypted_after (-1) (st_db (sw_store demo_sweep)) = [kept_packet]" "sj_channel_targets (sw_job demo_sweep) = [demo_target]"
  by (simp_all add: demo_sweep_def db_ok_def kept_packet_def get_undecrypted_count_def undecrypted_after_def channel_job_def)

theorem channel_sweep_exact_witness:
  "scan_for_channels demo_packet_env (\<lambda>n. 0) 0 9 2 demo_sweep = Some (each_row (live_row demo_packet_env (\<lambda>n. 0) 0 9 [demo_target]) [kept_packet] demo_sweep)"
  using channel_sweep_exact [OF demo_sweep_ready(1,2), of demo_packet_env "\<lambda>n. 0" 0 9] by (simp add: demo_sweep_ready)

lemma demo_opened:
  obtains g where "try_decrypt_packet_with_channel_key demo_crypto (0x15 # 0 # demo_sealed) (replicate 16 3) = Some g" "gt_timestamp g = 77" "gt_message g = [104, 105]"
proof -
  obtain i where i: "parse_packet (0x15 # 0 # demo_sealed) = Some i" "pi_payload i = demo_sealed" "pi_payload_type i = GROUP_TEXT"
    using demo_packets(1) [of demo_sealed] by (auto simp: demo_sealed_def sealed_text_def)
  have "split_sender [104, 105] = (None, [104, 105])" by code_simp
  then show thesis using that group_text_opened [OF demo_aes _ i(1,3) i(2) [unfolded demo_sealed_def sealed_text_def]] by (simp add: scalar_value_def)
qed

theorem channel_sweep_settles_witness:
  "\<exists>w'. scan_for_channels demo_packet_env (\<lambda>n. 0) 0 9 2 demo_sweep = Some (Inr (), w') \<and> linked_row 1 (st_db (sw_store w'))"
proof -
  let ?f = "\<lambda>t. try_decrypt_packet_with_channel_key (pe_crypto demo_packet_env) (rp_data kept_packet) (ct_key_bytes t)"
  obtain g where g: "?f demo_target = Some g" "gt_timestamp g = 77" "gt_message g = [104, 105]"
    using demo_opened by (auto simp: demo_packet_env_def kept_packet_def demo_target_def)
  have hit: "first_target ?f [demo_target] = Some (demo_target, g)" using g by simp
  have d: "decoded_body demo_ingest_env [104, 105] = Inr ([104, 105], None)"
    by (rule plain_body_decodes) (simp add: plain_body_def lstrip_def uspace_def PREFIX_V2_def PREFIX_V3_def PREFIX_MCT_def utext_def starts_with_def)
  have stored: "\<exists>m st. create_message_from_decrypted demo_ingest_env k sn [104, 105] ts rt rc rx s = (Inr m, st)" for k sn ts rt rc rx s
    unfolding create_message_from_decrypted_def d sum.case prod.case Let_def by (auto split: option.splits prod.splits)
  have "\<exists>w'. recover_channel_text demo_packet_env 9 kept_packet info (demo_target, g) w = (Inr (), w')" for info w
  proof -
    obtain tc reg where sc: "packet_scope demo_packet_env info = (tc, reg)" by fastforce
    obtain m st where "create_message_from_decrypted demo_ingest_env (ct_key_hex demo_target) (gt_sender g) [104, 105] (int (gt_timestamp g)) False (Some 9)
        (stored_reception kept_packet info tc reg) (sw_store w) = (Inr m, st)" using stored by blast
    moreover have "pe_ingest demo_packet_env = demo_ingest_env" by (simp add: demo_packet_env_def)
    ultimately show ?thesis by (simp add: recover_channel_text_def sc g)
  qed
  then have "\<exists>w'. live_row demo_packet_env (\<lambda>n. 0) 0 9 [demo_target] kept_packet demo_sweep = (Inr (), w')"
    unfolding live_row_def hit option.case by (auto simp: ticked_def split: prod.splits sum.splits) (metis Inl_Inr_False prod.inject)
  then obtain w' where "scan_for_channels demo_packet_env (\<lambda>n. 0) 0 9 2 demo_sweep = Some (Inr (), w')"
    using channel_sweep_run [OF demo_sweep_ready(1,2), of demo_packet_env "\<lambda>n. 0" 0 9] by (auto simp: demo_sweep_ready)
  moreover have "linked_row 1 (st_db (sw_store w'))"
  proof -
    have o1: "opens demo_packet_env [demo_target] kept_packet" using g by (simp add: opens_def)
    have raw: "db_raw (st_db (sw_store demo_sweep)) = [kept_packet]" "rp_id kept_packet = 1" by (simp_all add: demo_sweep_def kept_packet_def)
    show ?thesis using channel_sweep_settles [OF demo_sweep_ready(1,2) calculation] o1 unfolding demo_sweep_ready(4) raw by (simp add: raw)
  qed
  ultimately show ?thesis by blast
qed

end
