(* ===== verification/RawMedia.thy ===== *)
theory RawMedia
  imports TextTransport ChannelData ContactHistory
begin

text \<open>
  The transport of image and voice fragments to a contact: as raw packets (\<open>src/app/services/raw_media.py\<close>) or as direct messages of the
  \<open>rmt1:\<close> tunnel (\<open>src/app/services/raw_media_text.py\<close>). Text is a string of characters below U+0100. \<open>RawMediaTextFormatError\<close> is a \<open>ValueError\<close>,
  \<open>RawDataUnsupportedError\<close> a \<open>RuntimeError\<close>. The key of a transfer is the pair of the sender's prefix and the id, which the source joins with a
  colon. The contact's switch, the radio's memory and its answers are inputs; delays between messages are left out.
\<close>

section \<open>The tunnel\<close>

definition RMT_PREFIX :: string where "RMT_PREFIX = ''rmt1:''"
definition RMT_HEADER_CHARS :: nat where "RMT_HEADER_CHARS = length RMT_PREFIX + SESSION_ID_CHARS + INDEX_CHARS + TOTAL_CHARS"
definition MAX_TRANSFER_ID :: nat where "MAX_TRANSFER_ID = 36 ^ SESSION_ID_CHARS - 1"
definition MAX_TRANSFER_CHUNKS :: nat where "MAX_TRANSFER_CHUNKS = 36 ^ TOTAL_CHARS"
definition DEFAULT_MESSAGE_BUDGET :: int where "DEFAULT_MESSAGE_BUDGET = 156"
definition TRANSFER_TTL_SECONDS :: real where "TRANSFER_TTL_SECONDS = 180"
definition MAX_PENDING_TRANSFERS :: nat where "MAX_PENDING_TRANSFERS = 64"

definition rmt_base36 :: "int \<Rightarrow> nat \<Rightarrow> string res" where
  "rmt_base36 value width = (if value < 0 \<or> value \<ge> 36 ^ width then Inl ValueError else Inr (base36_digits (nat value) width))"

definition chunk_capacity :: "int \<Rightarrow> nat res" where
  "chunk_capacity message_budget = (let capacity = message_budget - int RMT_HEADER_CHARS in if capacity < 1 then Inl ValueError else Inr (nat capacity))"

definition encode_transfer :: "bytes \<Rightarrow> int \<Rightarrow> int \<Rightarrow> string list res" where
  "encode_transfer payload tid message_budget =
     (if payload = [] then Inl ValueError
      else if \<not> (0 \<le> tid \<and> tid \<le> int MAX_TRANSFER_ID) then Inl ValueError
      else bind_res (chunk_capacity message_budget) (\<lambda>capacity.
        let slices = chunks capacity (encode_base91 payload)
        in if length slices > MAX_TRANSFER_CHUNKS then Inl ValueError
           else bind_res (rmt_base36 tid SESSION_ID_CHARS) (\<lambda>sid.
             bind_res (rmt_base36 (int (length slices)) TOTAL_CHARS) (\<lambda>tot.
               map_res (\<lambda>(i, piece). bind_res (rmt_base36 (int i) INDEX_CHARS) (\<lambda>idx. Inr (RMT_PREFIX @ sid @ idx @ tot @ piece))) (enumerate 0 slices)))))"

record RawMediaTextChunk =
  rc_transfer_id :: nat
  rc_index :: nat
  rc_total :: nat
  rc_payload :: string

definition parse_rmt_chunk :: "string \<Rightarrow> RawMediaTextChunk option" where
  "parse_rmt_chunk text =
     (case text of
        r # m # t # one # cl # sa # sb # ic # tc # rest \<Rightarrow>
          if [r, m, t, one, cl] \<noteq> RMT_PREFIX \<or> \<not> re_digit sa \<or> \<not> re_digit sb \<or> \<not> re_digit ic \<or> \<not> re_digit tc \<or> rest = [] then None
          else (case (py_int 36 [sa, sb], py_int 36 [ic], py_int 36 [tc]) of
                  (Some sid, Some i, Some tot) \<Rightarrow>
                    if tot < 1 \<or> i \<ge> tot then None
                    else Some \<lparr>rc_transfer_id = nat sid, rc_index = nat i, rc_total = nat tot, rc_payload = rest\<rparr>
                | _ \<Rightarrow> None)
      | _ \<Rightarrow> None)"

text \<open>\<open>payload or None\<close>: an empty payload counts as none.\<close>

definition reassemble_transfer :: "(nat \<times> string) list \<Rightarrow> nat \<Rightarrow> bytes option" where
  "reassemble_transfer parts tot =
     (if length parts \<noteq> tot \<or> \<not> list_all (\<lambda>i. map_of parts i \<noteq> None) [0..<tot] then None
      else case decode_base91 (concat (map (\<lambda>i. the (map_of parts i)) [0..<tot])) of
             Inl _ \<Rightarrow> None
           | Inr payload \<Rightarrow> if payload = [] then None else Some payload)"

type_synonym transfer_id = "string \<times> nat"

record PendingTransfer =
  pt_total :: nat
  pt_chunks :: "(nat \<times> string) list"
  pt_expires_at :: real

definition transfer_key :: "string \<Rightarrow> nat \<Rightarrow> transfer_id" where
  "transfer_key sender_key tid = (lower (take 12 sender_key), tid)"

definition prune_transfers :: "real \<Rightarrow> (transfer_id \<times> PendingTransfer) list \<Rightarrow> (transfer_id \<times> PendingTransfer) list" where
  "prune_transfers now pending = filter (\<lambda>(k, p). \<not> pt_expires_at p \<le> now) pending"

function enforce_capacity :: "(transfer_id \<times> PendingTransfer) list \<Rightarrow> (transfer_id \<times> PendingTransfer) list" where
  "enforce_capacity pending =
     (if length pending > MAX_PENDING_TRANSFERS then
        (case least_by (\<lambda>(k, p). real (length (pt_chunks p)) / real (pt_total p)) pending of
           None \<Rightarrow> pending
         | Some (victim, _) \<Rightarrow> enforce_capacity (AList.delete victim pending))
      else pending)"
  by pat_completeness auto
termination
proof (relation "measure length", goal_cases)
  case (2 pending x victim p)
  then have "(victim, p) \<in> set pending" by (auto dest!: sym [of "Some _"] least_by_mem)
  then show ?case by (auto simp: AList.delete_eq intro!: length_filter_less)
qed simp

declare enforce_capacity.simps [simp del]

definition note_transfer_chunk :: "RawMediaTextChunk \<Rightarrow> string \<Rightarrow> real \<Rightarrow> (transfer_id \<times> PendingTransfer) list \<Rightarrow> bytes option \<times> (transfer_id \<times> PendingTransfer) list" where
  "note_transfer_chunk chunk sender_key now pending0 =
     (let pending = prune_transfers now pending0;
          key = transfer_key sender_key (rc_transfer_id chunk);
          p0 = (case map_of pending key of
                  None \<Rightarrow> \<lparr>pt_total = rc_total chunk, pt_chunks = [], pt_expires_at = 0\<rparr>
                | Some p \<Rightarrow> if pt_total p \<noteq> rc_total chunk then \<lparr>pt_total = rc_total chunk, pt_chunks = [], pt_expires_at = 0\<rparr> else p);
          p = p0\<lparr>pt_chunks := AList.update (rc_index chunk) (rc_payload chunk) (pt_chunks p0), pt_expires_at := now + TRANSFER_TTL_SECONDS\<rparr>;
          pending1 = AList.update key p pending
      in case reassemble_transfer (pt_chunks p) (pt_total p) of
           None \<Rightarrow> (None, enforce_capacity pending1)
         | Some payload \<Rightarrow> (Some payload, AList.delete key pending1))"

text \<open>\<open>note_inbound_text_chunk\<close>: whether the text was a chunk, and the payload that is dispatched.\<close>

definition note_inbound_text_chunk ::
  "string \<Rightarrow> string option \<Rightarrow> real \<Rightarrow> (transfer_id \<times> PendingTransfer) list \<Rightarrow> (bool \<times> bytes option) \<times> (transfer_id \<times> PendingTransfer) list" where
  "note_inbound_text_chunk text sender_key now pending =
     (case parse_rmt_chunk text of
        None \<Rightarrow> ((False, None), pending)
      | Some chunk \<Rightarrow>
          (case sender_key of
             None \<Rightarrow> ((True, None), pending)
           | Some k \<Rightarrow> if k = [] then ((True, None), pending)
                       else (case note_transfer_chunk chunk k now pending of (r, pending1) \<Rightarrow> ((True, r), pending1))))"

section \<open>The choice of a transport\<close>

definition MAX_RAW_MEDIA_PATH_LEN :: int where "MAX_RAW_MEDIA_PATH_LEN = 63"
definition MAX_RAW_MEDIA_PATH_BYTES :: int where "MAX_RAW_MEDIA_PATH_BYTES = 64"

datatype MediaTransport = MediaRaw | MediaText

definition resolve_transport :: "bool \<Rightarrow> bool \<Rightarrow> MediaTransport option \<Rightarrow> MediaTransport" where
  "resolve_transport uses_text raw_data_unsupported requested =
     (if \<not> uses_text then MediaRaw
      else case requested of
             None \<Rightarrow> MediaText
           | Some t \<Rightarrow> if t = MediaRaw \<and> raw_data_unsupported then MediaText else t)"

definition raw_frame_for_contact :: "string \<times> int \<times> int \<Rightarrow> bytes \<Rightarrow> bytes res" where
  "raw_frame_for_contact route payload =
     (case route of (path, path_len, hash_mode) \<Rightarrow>
        if path_len < 0 then Inl ValueError
        else if hash_mode \<notin> {0, 1, 2} then Inl ValueError
        else
          let hop_width = hash_mode + 1; max_hops = min MAX_RAW_MEDIA_PATH_LEN (MAX_RAW_MEDIA_PATH_BYTES div hop_width)
          in if path_len > max_hops then Inl ValueError
             else case fromhex path of
                    None \<Rightarrow> Inl ValueError
                  | Some path_bytes \<Rightarrow>
                      if int (length path_bytes) \<noteq> path_len * hop_width then Inl ValueError
                      else Inr (byte_of (push_bit 6 (nat hash_mode) OR nat path_len) # path_bytes @ payload))"

text \<open>The advert path that comes first in the order of the query.\<close>

definition most_recent_path :: "string \<Rightarrow> advert_path_row list \<Rightarrow> advert_path_row option" where
  "most_recent_path public_key rows =
     (let own = filter (\<lambda>r. ap_public_key r = lower public_key) rows in find (\<lambda>r. \<not> list_ex (\<lambda>x. path_before x r) own) own)"

definition raw_route_for_contact :: "Contact \<Rightarrow> advert_path_row list \<Rightarrow> string \<times> int \<times> int" where
  "raw_route_for_contact contact adverts =
     (let route = effective_route_tuple contact
      in if fst (snd route) \<ge> 0 then route
         else case most_recent_path (c_public_key contact) adverts of
                Some a \<Rightarrow> if ap_path_len a = 0 \<and> ap_path_hex a = [] then ([], 0, 0) else route
              | None \<Rightarrow> route)"

text \<open>What the radio answers to a command; the flag tells \<open>ERR_CODE_UNSUPPORTED_CMD\<close> from other errors.\<close>

datatype radio_answer = RadioOk | RadioSilent | RadioError bool

datatype on_air = RawFrame bytes | TunnelText string

fun send_each :: "string list \<Rightarrow> radio_answer list \<Rightarrow> unit res \<times> on_air list" where
  "send_each [] as = (Inr (), [])"
| "send_each (c # cs) as =
     (case as of
        RadioOk # rest \<Rightarrow> (case send_each cs rest of (r, out) \<Rightarrow> (r, TunnelText c # out))
      | _ \<Rightarrow> (Inl RuntimeError, [TunnelText c]))"

definition send_text_tunnel :: "bytes \<Rightarrow> int \<Rightarrow> radio_answer list \<Rightarrow> unit res \<times> on_air list" where
  "send_text_tunnel payload tid as =
     (case encode_transfer payload tid DEFAULT_MESSAGE_BUDGET of Inl e \<Rightarrow> (Inl e, []) | Inr cs \<Rightarrow> send_each cs as)"

text \<open>The result, what went out, and whether the radio is now known not to send raw data. \<open>raw_answer\<close> answers the raw frame.\<close>

definition send_raw_to_contact ::
  "bool \<Rightarrow> bool \<Rightarrow> Contact \<Rightarrow> advert_path_row list \<Rightarrow> bytes \<Rightarrow> MediaTransport option \<Rightarrow> int \<Rightarrow> radio_answer \<Rightarrow> radio_answer list \<Rightarrow> unit res \<times> on_air list \<times> bool" where
  "send_raw_to_contact uses_text unsupported contact adverts payload requested tid raw_answer as =
     (if resolve_transport uses_text unsupported requested = MediaText
      then (case send_text_tunnel payload tid as of (r, out) \<Rightarrow> (r, out, unsupported))
      else case raw_frame_for_contact (raw_route_for_contact contact adverts) payload of
             Inl e \<Rightarrow> (Inl e, [], unsupported)
           | Inr frame \<Rightarrow>
               (case raw_answer of
                  RadioOk \<Rightarrow> (Inr (), [RawFrame frame], unsupported)
                | RadioError True \<Rightarrow>
                    if uses_text then (case send_text_tunnel payload tid as of (r, out) \<Rightarrow> (r, RawFrame frame # out, True))
                    else (Inl RuntimeError, [RawFrame frame], True)
                | _ \<Rightarrow> (Inl RuntimeError, [RawFrame frame], unsupported)))"

section \<open>Messages of a transfer\<close>

lemma rmt_base36_1: "rmt_base36 (int v) (Suc 0) = Inr s \<longleftrightarrow> v < 36 \<and> s = [BASE36 ! v]"
  by (auto simp: rmt_base36_def)

lemma rmt_base36_2: "rmt_base36 (int v) 2 = Inr s \<longleftrightarrow> v < 1296 \<and> s = [BASE36 ! (v div 36), BASE36 ! (v mod 36)]"
  by (auto simp: rmt_base36_def numeral_2_eq_2)

definition transfer_message :: "nat \<Rightarrow> nat \<Rightarrow> nat \<times> string \<Rightarrow> string" where
  "transfer_message tid tot ip = RMT_PREFIX @ [BASE36 ! (tid div 36), BASE36 ! (tid mod 36), BASE36 ! fst ip, BASE36 ! tot] @ snd ip"

lemma parse_transfer_message:
  assumes "tid < 1296" and "tot < 36" and "i < tot" and "piece \<noteq> []"
  shows "parse_rmt_chunk (transfer_message tid tot (i, piece)) = Some \<lparr>rc_transfer_id = tid, rc_index = i, rc_total = tot, rc_payload = piece\<rparr>"
proof -
  have "tid div 36 < 36" "tid div 36 * 36 + tid mod 36 = tid" using assms(1) by (simp_all add: div_less_iff_less_mult)
  then show ?thesis using assms
    by (simp add: transfer_message_def parse_rmt_chunk_def RMT_PREFIX_def base36_char py_int_base36_1 py_int_base36_2 del: div_mult_mod_eq)
qed

lemma encode_transfer_pieces:
  assumes "encode_transfer payload tid budget = Inr msgs"
  obtains pieces where "payload \<noteq> []" "concat pieces = encode_base91 payload" "pieces \<noteq> []" "length pieces < 36" "0 \<le> tid" "tid < 1296"
    "\<And>p. p \<in> set pieces \<Longrightarrow> p \<noteq> [] \<and> int (length p) \<le> budget - 9"
    "msgs = map (transfer_message (nat tid) (length pieces)) (enumerate 0 pieces)"
proof -
  have h: "RMT_HEADER_CHARS = 9" "MAX_TRANSFER_ID = 1295" by (simp_all add: RMT_HEADER_CHARS_def RMT_PREFIX_def SESSION_ID_CHARS_def INDEX_CHARS_def TOTAL_CHARS_def MAX_TRANSFER_ID_def)
  obtain cap sid tot where c: "payload \<noteq> []" "0 \<le> tid" "tid < 1296" "chunk_capacity budget = Inr cap" "rmt_base36 tid SESSION_ID_CHARS = Inr sid"
    "rmt_base36 (int (length (chunks cap (encode_base91 payload)))) TOTAL_CHARS = Inr tot"
    and m: "map_res (\<lambda>(i, piece). bind_res (rmt_base36 (int i) INDEX_CHARS) (\<lambda>idx. Inr (RMT_PREFIX @ sid @ idx @ tot @ piece))) (enumerate 0 (chunks cap (encode_base91 payload))) = Inr msgs"
    using assms by (auto simp: encode_transfer_def Let_def bind_res_Inr h split: if_splits)
  define pieces where "pieces = chunks cap (encode_base91 payload)"
  have cap: "0 < cap" "int cap = budget - 9" using c(4) by (auto simp: chunk_capacity_def Let_def h split: if_splits)
  have cc: "concat pieces = encode_base91 payload" using cap by (simp add: pieces_def)
  have t: "length pieces < 36" "tot = [BASE36 ! length pieces]" using c(6) unfolding pieces_def [symmetric] TOTAL_CHARS_def One_nat_def rmt_base36_1 by auto
  have s: "sid = [BASE36 ! (nat tid div 36), BASE36 ! (nat tid mod 36)]" using c(2,3,5) rmt_base36_2 [of "nat tid" sid] by (simp add: SESSION_ID_CHARS_def)
  have "msgs = map (transfer_message (nat tid) (length pieces)) (enumerate 0 pieces)"
  proof (rule nth_equalityI)
    show "length msgs = length (map (transfer_message (nat tid) (length pieces)) (enumerate 0 pieces))" using m by (simp add: map_res_nth pieces_def)
    fix i assume "i < length msgs"
    then have i: "i < length pieces" using m by (simp add: map_res_nth pieces_def)
    then have "bind_res (rmt_base36 (int i) INDEX_CHARS) (\<lambda>idx. Inr (RMT_PREFIX @ sid @ idx @ tot @ pieces ! i)) = Inr (msgs ! i)"
      using m by (simp add: map_res_nth nth_enumerate_eq flip: pieces_def)
    then show "msgs ! i = map (transfer_message (nat tid) (length pieces)) (enumerate 0 pieces) ! i"
      using i by (auto simp: bind_res_Inr INDEX_CHARS_def rmt_base36_1 transfer_message_def s t nth_enumerate_eq)
  qed
  moreover have "p \<noteq> [] \<and> int (length p) \<le> budget - 9" if "p \<in> set pieces" for p using chunks_length_le [OF that [unfolded pieces_def]] cap by auto
  moreover have "pieces \<noteq> []" using cc base91_nonempty [OF c(1)] by auto
  ultimately show thesis using that c(1,2,3) cc t(1) by blast
qed

lemma reassembled:
  assumes "concat pieces = encode_base91 payload" and "payload \<noteq> []" and "distinct (map fst parts)"
    and "\<And>j. map_of parts j = (if j \<in> S then Some (pieces ! j) else None)" and "S \<subseteq> {..<length pieces}"
  shows "reassemble_transfer parts (length pieces) = (if S = {..<length pieces} then Some payload else None)"
proof (cases "S = {..<length pieces}")
  case True
  have "fst ` set parts = S"
  proof -
    have "fst ` set parts = dom (map_of parts)" by (simp add: dom_map_of_conv_image_fst)
    also have "\<dots> = S" using assms(4) by (auto simp: dom_def split: if_splits)
    finally show ?thesis .
  qed
  then have "length parts = length pieces" using True assms(3) distinct_card [of "map fst parts"] by simp
  moreover have "map (\<lambda>i. the (map_of parts i)) [0..<length pieces] = pieces" using assms(4) True by (intro nth_equalityI) simp_all
  moreover have "decode_base91 (encode_base91 payload) = Inr payload" using v2.dec_encode [of payload] by (simp add: decode_base91_def b91_decode_v2_def encode_base91_def)
  ultimately show ?thesis using True assms(1,2,4) by (simp add: reassemble_transfer_def list_all_iff)
next
  case False
  then obtain i where "i < length pieces" "i \<notin> S" using assms(5) by auto
  then have "\<not> list_all (\<lambda>i. map_of parts i \<noteq> None) [0..<length pieces]" using assms(4) by (auto simp: list_all_iff)
  then show ?thesis using False by (simp add: reassemble_transfer_def)
qed

section \<open>Reception\<close>

text \<open>What arrives while a transfer is under way: its own messages, by index, and texts of anyone else. The outputs are those of its own messages.\<close>

datatype tunnel_arrival = OwnChunk nat real | OtherText string string real

fun hear_tunnel :: "string \<Rightarrow> string list \<Rightarrow> tunnel_arrival list \<Rightarrow> (transfer_id \<times> PendingTransfer) list \<Rightarrow> bytes option list" where
  "hear_tunnel sender msgs [] pending = []"
| "hear_tunnel sender msgs (OwnChunk i now # rest) pending =
     (case note_inbound_text_chunk (msgs ! i) (Some sender) now pending of ((_, r), pending1) \<Rightarrow> r # hear_tunnel sender msgs rest pending1)"
| "hear_tunnel sender msgs (OtherText who text now # rest) pending =
     hear_tunnel sender msgs rest (snd (note_inbound_text_chunk text (Some who) now pending))"

fun own_indices :: "tunnel_arrival list \<Rightarrow> nat list" where
  "own_indices [] = []"
| "own_indices (OwnChunk i now # rest) = i # own_indices rest"
| "own_indices (OtherText who text now # rest) = own_indices rest"

text \<open>What a receiver hands over: the payload at every arrival that makes the set of messages whole, after which the count starts again.\<close>

fun handed_over :: "bytes \<Rightarrow> nat \<Rightarrow> nat set \<Rightarrow> nat list \<Rightarrow> bytes option list" where
  "handed_over payload n S [] = []"
| "handed_over payload n S (i # is) =
     (if insert i S = {..<n} then Some payload # handed_over payload n {} is else None # handed_over payload n (insert i S) is)"

definition in_window :: "transfer_id \<Rightarrow> nat \<Rightarrow> real \<Rightarrow> tunnel_arrival \<Rightarrow> bool" where
  "in_window key n t0 a \<longleftrightarrow>
     (case a of
        OwnChunk i now \<Rightarrow> i < n \<and> t0 \<le> now \<and> now < t0 + TRANSFER_TTL_SECONDS
      | OtherText who text now \<Rightarrow> now < t0 + TRANSFER_TTL_SECONDS
          \<and> (case parse_rmt_chunk text of None \<Rightarrow> True | Some c \<Rightarrow> transfer_key who (rc_transfer_id c) \<noteq> key))"

definition is_other :: "tunnel_arrival \<Rightarrow> bool" where
  "is_other a = (case a of OtherText _ _ _ \<Rightarrow> True | _ \<Rightarrow> False)"

lemma is_other_simps [simp]: "is_other (OwnChunk i t) = False" "is_other (OtherText who body t) = True"
  by (simp_all add: is_other_def)

text \<open>The state of the receiver, with room for \<open>room\<close> more transfers of others.\<close>

definition under_way :: "transfer_id \<Rightarrow> string list \<Rightarrow> nat set \<Rightarrow> real \<Rightarrow> nat \<Rightarrow> (transfer_id \<times> PendingTransfer) list \<Rightarrow> bool" where
  "under_way key pieces S t0 room pending \<longleftrightarrow> distinct (map fst pending) \<and> length (AList.delete key pending) + room < MAX_PENDING_TRANSFERS
     \<and> (case map_of pending key of
          None \<Rightarrow> S = {}
        | Some p \<Rightarrow> pt_total p = length pieces \<and> distinct (map fst (pt_chunks p)) \<and> t0 + TRANSFER_TTL_SECONDS \<le> pt_expires_at p
            \<and> (\<forall>j. map_of (pt_chunks p) j = (if j \<in> S then Some (pieces ! j) else None)))"

lemma map_of_kept: "distinct (map fst xs) \<Longrightarrow> map_of xs k = Some v \<Longrightarrow> P (k, v) \<Longrightarrow> map_of (filter P xs) k = Some v"
  by (induction xs) (auto simp: image_iff dest: map_of_SomeD split: if_splits)

lemma map_of_filter_None: "map_of xs k = None \<Longrightarrow> map_of (filter P xs) k = None"
  by (auto simp: map_of_eq_None_iff)

lemma under_way_prune:
  assumes "under_way key pieces S t0 room pending" and "now < t0 + TRANSFER_TTL_SECONDS"
  shows "under_way key pieces S t0 room (prune_transfers now pending)"
proof -
  let ?P = "\<lambda>(k, p). \<not> pt_expires_at p \<le> now"
  have d: "distinct (map fst pending)" using assms(1) by (simp add: under_way_def)
  have "AList.delete key (filter ?P pending) = filter ?P (AList.delete key pending)" by (simp add: AList.delete_eq filter_filter conj_commute)
  then have "length (AList.delete key (filter ?P pending)) + room < MAX_PENDING_TRANSFERS"
    using assms(1) length_filter_le [of ?P "AList.delete key pending"] by (simp add: under_way_def del: length_filter_le)
  moreover have "distinct (map fst (filter ?P pending))" using d by (rule distinct_map_filter)
  moreover have "map_of (filter ?P pending) key = map_of pending key"
  proof (cases "map_of pending key")
    case None
    then show ?thesis by (simp add: map_of_filter_None)
  next
    case (Some p)
    then have "t0 + TRANSFER_TTL_SECONDS \<le> pt_expires_at p" using assms(1) by (simp add: under_way_def)
    then show ?thesis using map_of_kept [OF d Some, of ?P] Some assms(2) by simp
  qed
  ultimately show ?thesis using assms(1) by (simp add: under_way_def prune_transfers_def)
qed

lemma length_distinct_delete: "distinct (map fst xs) \<Longrightarrow> length xs \<le> Suc (length (AList.delete k xs))"
proof (induction xs)
  case (Cons x xs)
  then show ?case by (cases "fst x = k") auto
qed simp

lemma hear_one:
  assumes w: "under_way key pieces S t0 room pending" and t: "t0 \<le> now" "now < t0 + TRANSFER_TTL_SECONDS"
    and k: "key = transfer_key sender tid" "sender \<noteq> []" and i: "i < length pieces" "S \<subseteq> {..<length pieces}"
    and p: "parse_rmt_chunk text = Some \<lparr>rc_transfer_id = tid, rc_index = i, rc_total = length pieces, rc_payload = pieces ! i\<rparr>"
    and c: "concat pieces = encode_base91 payload" "payload \<noteq> []"
  shows "\<exists>pending'. note_inbound_text_chunk text (Some sender) now pending = ((True, if insert i S = {..<length pieces} then Some payload else None), pending')
    \<and> under_way key pieces (if insert i S = {..<length pieces} then {} else insert i S) t0 room pending'"
proof -
  define pr where "pr = prune_transfers now pending"
  have w1: "under_way key pieces S t0 room pr" unfolding pr_def by (rule under_way_prune [OF w t(2)])
  define p0 where "p0 = (case map_of pr key of
                  None \<Rightarrow> \<lparr>pt_total = length pieces, pt_chunks = [], pt_expires_at = 0\<rparr>
                | Some p \<Rightarrow> if pt_total p \<noteq> length pieces then \<lparr>pt_total = length pieces, pt_chunks = [], pt_expires_at = 0\<rparr> else p)"
  define p1 where "p1 = p0\<lparr>pt_chunks := AList.update i (pieces ! i) (pt_chunks p0), pt_expires_at := now + TRANSFER_TTL_SECONDS\<rparr>"
  have p0: "pt_total p0 = length pieces" "distinct (map fst (pt_chunks p0))" "\<And>j. map_of (pt_chunks p0) j = (if j \<in> S then Some (pieces ! j) else None)"
    by (cases "map_of pr key"; use w1 in \<open>simp add: under_way_def p0_def\<close>)+
  have p1: "pt_total p1 = length pieces" "distinct (map fst (pt_chunks p1))" "\<And>j. map_of (pt_chunks p1) j = (if j \<in> insert i S then Some (pieces ! j) else None)"
    "t0 + TRANSFER_TTL_SECONDS \<le> pt_expires_at p1"
    using p0 t(1) by (auto simp: p1_def update_conv' distinct_update)
  have r: "reassemble_transfer (pt_chunks p1) (pt_total p1) = (if insert i S = {..<length pieces} then Some payload else None)"
    unfolding p1(1) by (rule reassembled [OF c p1(2,3)]) (use i in auto)
  define pending1 where "pending1 = AList.update key p1 pr"
  have d1: "distinct (map fst pending1)" using w1 by (simp add: pending1_def under_way_def distinct_update)
  have l1: "length (AList.delete key pending1) + room < MAX_PENDING_TRANSFERS" using w1 by (simp add: pending1_def AList.delete_update_same under_way_def)
  have "length pending1 \<le> MAX_PENDING_TRANSFERS" using length_distinct_delete [OF d1, of key] l1 by simp
  then have cap: "enforce_capacity pending1 = pending1" by (simp add: enforce_capacity.simps)
  let ?c = "\<lparr>rc_transfer_id = tid, rc_index = i, rc_total = length pieces, rc_payload = pieces ! i\<rparr>"
  have m: "note_transfer_chunk ?c sender now pending
      = (case reassemble_transfer (pt_chunks p1) (pt_total p1) of None \<Rightarrow> (None, enforce_capacity pending1) | Some x \<Rightarrow> (Some x, AList.delete key pending1))"
    unfolding note_transfer_chunk_def Let_def RawMediaTextChunk.simps k(1) [symmetric] pr_def [symmetric] p0_def [symmetric] p1_def [symmetric] pending1_def [symmetric] by (rule refl)
  have n: "note_inbound_text_chunk text (Some sender) now pending
      = (case reassemble_transfer (pt_chunks p1) (pt_total p1) of None \<Rightarrow> ((True, None), enforce_capacity pending1) | Some x \<Rightarrow> ((True, Some x), AList.delete key pending1))"
    unfolding note_inbound_text_chunk_def p option.case m using k(2) by (simp split: option.splits)
  have "under_way key pieces (insert i S) t0 room pending1" using d1 l1 p1 by (simp add: under_way_def pending1_def update_conv')
  moreover have "under_way key pieces {} t0 room (AList.delete key pending1)"
    using l1 distinct_delete [OF d1, of key] by (simp add: under_way_def AList.delete_idem AList.delete_conv')
  ultimately show ?thesis unfolding n r cap by auto
qed

section \<open>A transfer arrives\<close>

lemma snd_case_option: "snd (case x of None \<Rightarrow> (None, a) | Some y \<Rightarrow> (Some y, b)) \<in> {a, b}"
  by (cases x) simp_all

lemma note_chunk_table:
  "\<exists>x. snd (note_transfer_chunk c who now pending)
     \<in> {enforce_capacity (AList.update (transfer_key who (rc_transfer_id c)) x (prune_transfers now pending)),
        AList.delete (transfer_key who (rc_transfer_id c)) (AList.update (transfer_key who (rc_transfer_id c)) x (prune_transfers now pending))}"
  unfolding note_transfer_chunk_def Let_def by (rule exI) (rule snd_case_option)

lemma hear_other:
  assumes w: "under_way key pieces S t0 (Suc room) pending" and t: "now < t0 + TRANSFER_TTL_SECONDS"
    and o: "\<And>c. parse_rmt_chunk text = Some c \<Longrightarrow> transfer_key who (rc_transfer_id c) \<noteq> key"
  shows "under_way key pieces S t0 room (snd (note_inbound_text_chunk text (Some who) now pending))"
proof -
  have less: "under_way key pieces S t0 room q" if "under_way key pieces S t0 (Suc room) q" for q using that by (simp add: under_way_def)
  show ?thesis
  proof (cases "parse_rmt_chunk text = None \<or> who = []")
    case True
    then show ?thesis using less [OF w] by (auto simp: note_inbound_text_chunk_def split: option.splits)
  next
    case False
    then obtain c where c: "parse_rmt_chunk text = Some c" "who \<noteq> []" by auto
    let ?k = "transfer_key who (rc_transfer_id c)"
    define pr where "pr = prune_transfers now pending"
    have w1: "under_way key pieces S t0 (Suc room) pr" unfolding pr_def by (rule under_way_prune [OF w t])
    have ne: "?k \<noteq> key" using o c(1) by blast
    obtain x where s: "snd (note_inbound_text_chunk text (Some who) now pending) \<in> {enforce_capacity (AList.update ?k x pr), AList.delete ?k (AList.update ?k x pr)}"
      using note_chunk_table [of c who now pending] c that unfolding note_inbound_text_chunk_def pr_def by (auto simp: case_prod_beta)
    define q where "q = AList.update ?k x pr"
    have d: "distinct (map fst q)" using w1 by (simp add: q_def under_way_def distinct_update)
    have "AList.delete key q = AList.update ?k x (AList.delete key pr)" using ne by (simp add: q_def AList.delete_update)
    moreover have "length (AList.update ?k x xs) \<le> Suc (length xs)" for xs by (induction xs) auto
    ultimately have "length (AList.delete key q) \<le> Suc (length (AList.delete key pr))" by simp
    then have l: "length (AList.delete key q) + room < MAX_PENDING_TRANSFERS" using w1 by (simp add: under_way_def)
    have wq: "under_way key pieces S t0 room q" using d l w1 ne by (simp add: under_way_def q_def update_conv')
    have "length (AList.delete key (AList.delete ?k q)) \<le> length (AList.delete key q)"
      by (subst AList.delete_twist) (rule AList.length_delete_le)
    then have wd: "under_way key pieces S t0 room (AList.delete ?k q)"
      using wq ne distinct_delete [OF d, of ?k] by (auto simp: under_way_def AList.delete_conv')
    have "length q \<le> MAX_PENDING_TRANSFERS" using length_distinct_delete [OF d, of key] l by simp
    then have "enforce_capacity q = q" by (simp add: enforce_capacity.simps)
    then show ?thesis using s wq wd by (auto simp flip: q_def)
  qed
qed

lemma hear_many:
  assumes s: "sender \<noteq> []"
    and pieces: "payload \<noteq> []" "concat pieces = encode_base91 payload" "length pieces < 36" "0 \<le> tid" "tid < 1296" "\<And>p. p \<in> set pieces \<Longrightarrow> p \<noteq> []"
      "msgs = map (transfer_message (nat tid) (length pieces)) (enumerate 0 pieces)"
  shows "under_way (transfer_key sender (nat tid)) pieces S t0 room pending \<Longrightarrow> S \<subseteq> {..<length pieces} \<Longrightarrow>
    list_all (in_window (transfer_key sender (nat tid)) (length pieces) t0) arrivals \<Longrightarrow> length (filter is_other arrivals) \<le> room \<Longrightarrow>
    hear_tunnel sender msgs arrivals pending = handed_over payload (length pieces) S (own_indices arrivals)"
proof (induction arrivals arbitrary: S pending room)
  case (Cons a arrivals)
  show ?case
  proof (cases a)
    case (OwnChunk j u)
    have j: "j < length pieces" "t0 \<le> u" "u < t0 + TRANSFER_TTL_SECONDS" using Cons.prems(3) by (auto simp: OwnChunk in_window_def)
    have p: "parse_rmt_chunk (msgs ! j) = Some \<lparr>rc_transfer_id = nat tid, rc_index = j, rc_total = length pieces, rc_payload = pieces ! j\<rparr>"
      using j pieces by (simp add: nth_enumerate_eq parse_transfer_message)
    let ?S = "if insert j S = {..<length pieces} then {} else insert j S"
    obtain pending1 where n: "note_inbound_text_chunk (msgs ! j) (Some sender) u pending = ((True, if insert j S = {..<length pieces} then Some payload else None), pending1)"
      and w: "under_way (transfer_key sender (nat tid)) pieces ?S t0 room pending1"
      using hear_one [OF Cons.prems(1) j(2,3) refl s j(1) Cons.prems(2) p pieces(2,1)] by blast
    have "hear_tunnel sender msgs arrivals pending1 = handed_over payload (length pieces) ?S (own_indices arrivals)"
      by (rule Cons.IH [OF w]) (use Cons.prems(2-4) j(1) in \<open>auto simp: OwnChunk\<close>)
    then show ?thesis by (simp add: OwnChunk n)
  next
    case (OtherText who body u)
    have r: "Suc (length (filter is_other arrivals)) \<le> room" using Cons.prems(4) by (simp add: OtherText)
    then obtain room' where room: "room = Suc room'" by (cases room) auto
    have "under_way (transfer_key sender (nat tid)) pieces S t0 room' (snd (note_inbound_text_chunk body (Some who) u pending))"
      by (rule hear_other) (use Cons.prems(1,3) in \<open>auto simp: room OtherText in_window_def\<close>)
    from Cons.IH [OF this Cons.prems(2)] show ?thesis using Cons.prems(3) r by (simp add: OtherText room)
  qed
qed simp


text \<open>A frame for the raw transport: its path byte is one a receiver accepts, for the route of the contact, and the rest is the payload.\<close>

theorem raw_frame_readable:
  assumes "raw_frame_for_contact (path, path_len, hash_mode) payload = Inr frame"
  shows "\<exists>bs. fromhex path = Some bs \<and> validate_path_byte (unat (frame ! 0)) = Inr (nat path_len, nat hash_mode + 1, length bs)
    \<and> take (length bs) (drop 1 frame) = bs \<and> drop (1 + length bs) frame = payload"
proof -
  obtain bs where bs: "fromhex path = Some bs" "frame = byte_of (push_bit 6 (nat hash_mode) OR nat path_len) # bs @ payload" "int (length bs) = path_len * (hash_mode + 1)"
    "0 \<le> path_len" "hash_mode \<in> {0, 1, 2}" "path_len \<le> 63" "path_len \<le> 64 div (hash_mode + 1)"
    using assms by (auto simp: raw_frame_for_contact_def Let_def MAX_RAW_MEDIA_PATH_LEN_def MAX_RAW_MEDIA_PATH_BYTES_def split: if_splits option.splits)
  define h n where "h = nat hash_mode" and "n = nat path_len"
  have hn: "h \<le> 2" "n < 64" "length bs = n * (h + 1)" "length bs \<le> 64"
    using bs(3-7) by (auto simp: h_def n_def nat_mult_distrib nat_add_distrib)
  have v: "push_bit 6 h OR n = h * 64 + n" using or_push_bit [of n 6 h] hn(2) by (simp add: mult.commute)
  have "h * 64 + n < 256" using hn by simp
  then have "unat (frame ! 0) = h * 64 + n" by (simp add: bs(2) v flip: h_def n_def)
  moreover have "(h * 64 + n) AND 63 = n" "drop_bit 6 (h * 64 + n) AND 3 = h" using hn by (auto simp: drop_bit_eq_div and_63 and_3)
  ultimately have "validate_path_byte (unat (frame ! 0)) = Inr (n, h + 1, length bs)"
    using hn by (simp add: validate_path_byte_def decode_path_byte_def path_wire_len_def MAX_PATH_SIZE_def Let_def)
  then show ?thesis using bs(1,2) by (simp add: h_def n_def)
qed

section \<open>Bounds and repeats\<close>

lemma least_by_exists: "xs \<noteq> [] \<Longrightarrow> \<exists>x. least_by f xs = Some x"
  by (cases xs) (auto split: option.splits)

lemma capacity_enforced: "length (enforce_capacity pending) \<le> MAX_PENDING_TRANSFERS"
proof (induction pending rule: enforce_capacity.induct)
  case (1 pending)
  show ?case
  proof (cases "length pending > MAX_PENDING_TRANSFERS")
    case True
    then have "pending \<noteq> []" by auto
    then obtain e where "least_by (\<lambda>(k, p). real (length (pt_chunks p)) / real (pt_total p)) pending = Some e"
      using least_by_exists by blast
    then obtain v p where x: "least_by (\<lambda>(k, p). real (length (pt_chunks p)) / real (pt_total p)) pending = Some (v, p)"
      by (cases e) simp
    then show ?thesis using 1 [OF True x refl] True by (simp add: enforce_capacity.simps [of pending])
  qed (simp add: enforce_capacity.simps [of pending])
qed

text \<open>The messages' own order, once: the payload comes with the last. A payload of one message is handed over again by every repeat.\<close>

lemma handed_over_in_order: "j < n \<Longrightarrow> handed_over payload n {..<j} [j..<n] = replicate (n - j - 1) None @ [Some payload]"
proof (induction "n - j" arbitrary: j)
  case (Suc d)
  have u: "[j..<n] = j # [Suc j..<n]" using Suc.prems by (rule upt_conv_Cons)
  have i: "insert j {..<j} = {..<Suc j}" by auto
  show ?case
  proof (cases "Suc j = n")
    case True
    then show ?thesis by (simp add: u i)
  next
    case False
    then have "handed_over payload n {..<Suc j} [Suc j..<n] = replicate (n - Suc j - 1) None @ [Some payload]" using Suc by simp
    moreover have "n - j - 1 = Suc (n - Suc j - 1)" using False Suc.prems by simp
    ultimately show ?thesis using False Suc.prems by (simp add: u i)
  qed
qed simp

lemma single_chunk_replayed: "handed_over payload (Suc 0) {} (replicate k 0) = replicate k (Some payload)"
  by (induction k) (auto simp: lessThan_Suc)

section \<open>An example\<close>

lemma demo_transfer_pair: "encode_transfer [1] 5 10 = Inr [''rmt1:0502B'', ''rmt1:0512A'']"
  by (simp add: encode_transfer_def chunk_capacity_def RMT_HEADER_CHARS_def RMT_PREFIX_def SESSION_ID_CHARS_def INDEX_CHARS_def TOTAL_CHARS_def
      MAX_TRANSFER_ID_def MAX_TRANSFER_CHUNKS_def encode_base91_def b91_encode_def b91_char_def BASE91_ALPHABET_def rmt_base36_def BASE36_def base36_digits_2 chunks.simps)

lemma other_texts: "parse_rmt_chunk ''hello'' = None" "parse_rmt_chunk ''rmt1:0503C'' = Some \<lparr>rc_transfer_id = 5, rc_index = 0, rc_total = 3, rc_payload = ''C''\<rparr>"
proof -
  show "parse_rmt_chunk ''hello'' = None" by (simp add: parse_rmt_chunk_def)
  have "''rmt1:0503C'' = transfer_message 5 3 (0, ''C'')" by (simp add: transfer_message_def RMT_PREFIX_def BASE36_def)
  then show "parse_rmt_chunk ''rmt1:0503C'' = Some \<lparr>rc_transfer_id = 5, rc_index = 0, rc_total = 3, rc_payload = ''C''\<rparr>"
    using parse_transfer_message [of 5 3 0 "''C''"] by (simp only:) simp
qed

text \<open>Two messages in the wrong order, the first repeated before and after the payload is complete, between texts of others.\<close>

definition shuffled :: "tunnel_arrival list" where
  "shuffled = [OwnChunk 1 3, OtherText ''cd'' ''rmt1:0503C'' 4, OwnChunk 1 5, OtherText ''ab'' ''hello'' 6, OwnChunk 0 7, OwnChunk 0 8, OwnChunk 1 9]"


end
