(* ===== verification/Spec2Isabelle.thy ===== *)
theory Spec2Isabelle
  imports Tables Media Decoder RxWatchdog Cron VnServer SweepProperties RawMedia
begin

text \<open>
  Verification library of RemoteTerm, a server that puts a web terminal, bots and a virtual companion node in front of a MeshCore
  radio (\<open>src/app\<close>).

  \<^bold>\<open>The program and its parts.\<close> Packets heard by the radio reach \<open>packet_processor.py\<close>, which archives them, has \<open>decoder.py\<close> open the
  envelope (\<open>path_utils.py\<close>) and hands them to the handler of their type. The decoder
  decrypts channel texts, channel data, direct messages and returned paths, and checks advertisements. Texts may carry images and
  voice: an AEIC bitstream, entropy coded by \<open>imaging/aeic/rans.py\<close> over the tables of \<open>tables.py\<close>, travels either as binary
  chunks (\<open>channel_data.py\<close>, \<open>channel_data_ingest.py\<close>) or as \<open>aei1\<close> text in basE91 (\<open>text_transport.py\<close>, \<open>compression/mcmp.py\<close>); the
  older formats are \<open>voice_protocol.py\<close> and \<open>image_protocol.py\<close>. Contacts are kept by \<open>repository/contacts.py\<close> with the routes of
  \<open>models.py\<close>. Texts may be compressed: by an arithmetic coder over an n-gram model (\<open>compression/mcmp.py\<close>) or by a planned token
  stream over language tables (\<open>compression/mcotxt.py\<close>). Received texts, from decrypted packets or from the radio's own queue
  (\<open>event_handlers.py\<close>), are stored by \<open>services/messages.py\<close> and \<open>services/dm_ingest.py\<close> in the tables of \<open>repository/messages.py\<close>
  and \<open>repository/raw_packets.py\<close>, where a further copy of a message joins the row it repeats and a reaction (\<open>reactions.py\<close>) lands on
  the message it names. Outgoing direct messages are retried until acknowledged (\<open>services/message_send.py\<close>, \<open>dm_ack_tracker.py\<close>,
  \<open>dm_ack_apply.py\<close>, \<open>send_tracker.py\<close>). A watchdog (\<open>services/rx_watchdog.py\<close>) restarts a radio that went silent, and bots
  run on cron schedules (\<open>bots/cron.py\<close>). The virtual node (\<open>virtual_node/\<close>) is a TCP server that speaks the companion protocol to
  phone apps: it answers from the server's own contacts, channels and history, and forwards the rest to the radio.

  \<^bold>\<open>Conventions.\<close> A Python \<open>bytes\<close> is a list of 8-bit words, a text a list of code points (type \<open>ustr\<close>) or, where only ASCII
  occurs, a \<open>string\<close>. An \<open>int\<close> is an unbounded \<open>int\<close> or \<open>nat\<close>; a field of a frame keeps its width. A raised exception is \<open>Inl\<close>
  of \<open>py_error\<close>, a result \<open>Inr\<close>; an \<open>Optional\<close> is an \<open>option\<close>. Dicts are association lists where their order or size matters and
  functions to \<open>option\<close> elsewhere. Stateful classes are records passed through their methods; an asynchronous method is one step up
  to the point where it releases its lock, so interleavings are sequences of steps. Clocks, settings and the answers of the radio
  are inputs of the step that reads them. A SQL statement is a function on the list of rows of its table. Logging is left out.

  \<^bold>\<open>Parameters.\<close> What is not part of the repository is an argument: SHA-256, AES, HMAC, Ed25519 and the curve operations of the
  packet decoder (with the inversion of AES as the only law used), the Unicode predicates \<open>isalnum\<close> and \<open>isalpha\<close>, the rounding and the logarithm of
  floating-point numbers (with monotone, bounded rounding as their laws), the n-gram model and the language tables that the codecs
  load from files (with their shape as a hypothesis), the numeric codes of the
  \<open>meshcore\<close> library (records of codes, or the tables \<open>cmd\<close> and \<open>resp\<close>), and the frames a radio sends. Every property with such a
  hypothesis has a witness with concrete functions.

  \<^bold>\<open>Theories.\<close>
  \<^item> \<open>Prelude\<close>: bytes, slices, little-endian numbers, hexadecimal, UTF-8, result and option combinators, and the two shared
    contracts: \<open>wire_codec\<close> (an encoder and a parser that invert each other on canonical values) and \<open>invariant_machine\<close> (a step
    function with an inductive invariant and the induction over runs).
  \<^item> \<open>Path\<close> (\<open>path_utils.py\<close>): the packet envelope, the packed path byte, stored and explicit routes, packet hash and
    statistics. The envelope parser accepts exactly the encodings of well-formed envelopes.
  \<^item> \<open>Rans\<close>, \<open>RansRoundtrip\<close> (\<open>imaging/aeic/rans.py\<close>): containers, encoder and decoder with bypass digits and sub-streams. The locale
    \<open>stack_coder\<close> states what a symbol of a stack-like coder owes its decoder; digits and whole symbols are interpretations, and
    the round trip of every stream follows.
  \<^item> \<open>Tables\<close> (\<open>tables.py\<close>): the table parser accepts exactly the serialised tables of the accepted shape.
  \<^item> \<open>ChannelData\<close>, \<open>ChannelDelivery\<close> (\<open>channel_data.py\<close>, \<open>channel_data_ingest.py\<close>): chunks, parity, reassembler. An image whose
    chunks arrive in any order, repeated and with one lost, is handed over once and intact; the reassembler is bounded.
  \<^item> \<open>Base91\<close>, \<open>TextTransport\<close>, \<open>Media\<close>: basE91 (the locale \<open>b91_decoder\<close> covers both decoders), the \<open>aei1\<close> text framing, and the
    voice and image messages as interpretations of \<open>wire_codec\<close>.
  \<^item> \<open>Contact\<close>, \<open>ContactStore\<close> (\<open>models.py\<close>, \<open>repository/contacts.py\<close>): routes of a contact, conversion from and to the radio, and the
    table with its merge rules; lookups by prefix agree.
  \<^item> \<open>Decoder\<close> (\<open>decoder.py\<close>): every decryption is the inverse of the sender's sealing, and nothing is decrypted whose MAC does not
    match.
  \<^item> \<open>DmDelivery\<close>: a send with its retries counts at most one acknowledgement, which may come before or after its code is
    registered within the time limits, the retry loop keeps its budget and stops in the round in which the message is acknowledged, a message
    has at most one live background send.
  \<^item> \<open>RxWatchdog\<close>, \<open>Cron\<close>: the escalation ladder is restrained; the next fire time is the first matching minute.
  \<^item> \<open>VnProtocol\<close>: the stream framing of the companion protocol and every frame. \<open>VnSlots\<close>: the virtual channel slots, stable
    across restarts. \<open>VnHistory\<close>: a returning app that pulls its inbox empty gets what it missed, once. \<open>VnForward\<close>: the frame tap, forwarding, cache and
    relays. \<open>VnServer\<close>: every command handler and the dispatcher; its guards are shown for every command, with what a read-only node still does to the radio.

  \<^item> \<open>Arith\<close>, \<open>Mcmp\<close>, \<open>McmpText\<close> (\<open>compression/mcmp.py\<close>): the arithmetic coder, the probability tables and the text and binary
    forms. Tables are usable whatever the rounding, texts come back exactly, every call returns.
  \<^item> \<open>Mcotxt\<close>, \<open>McotxtBits\<close>, \<open>McotxtPlan\<close>, \<open>McotxtText\<close> (\<open>compression/mcotxt.py\<close>): the strict decoder, the planner, the container. The
    plan is a cheapest one, its bits decode to the text.
  \<^item> \<open>Compression\<close> (\<open>encode_outbound\<close>, \<open>try_decode_incoming\<close>, \<open>compression/metadata.py\<close>): the choice of codec; what is stored is what
    was typed.
  \<^item> \<open>Reactions\<close> (\<open>reactions.py\<close>), \<open>MessageStore\<close> (\<open>repository/messages.py\<close>, \<open>repository/raw_packets.py\<close>), \<open>MessageIngest\<close>
    (\<open>services/messages.py\<close>, \<open>services/dm_ingest.py\<close>, \<open>event_handlers.py\<close>): the reaction text, the tables with their unique indexes, and
    every route into them. \<open>ChannelIngest\<close>, \<open>DirectIngest\<close> and \<open>IngestProperties\<close> show that any mix of copies of a message refines one
    abstract record of it, that every history keeps the unique indexes (an \<open>invariant_machine\<close>), that pages are complete and that
    reactions land.
  \<^item> \<open>ContactHistory\<close> (\<open>repository/contacts.py\<close>, \<open>clock_drift.py\<close>): names, advert paths, clock drift and the promotion of placeholders;
    compaction of the drift table keeps what it promises, whichever row the database reads the bare columns from, and over the whole
    history of the contact table, promotions included (an \<open>invariant_machine\<close>), a row only gains knowledge. \<open>Region\<close> (\<open>region_scope.py\<close>, \<open>region_resolver.py\<close>): the region of a flood.
    \<open>PacketProcessor\<close> (\<open>packet_processor.py\<close>, \<open>services/contact_reconciliation.py\<close>): the entry point and every handler over the tables of the
    theories before and the acknowledgement tracker of \<open>DmDelivery\<close>. \<open>PacketProperties\<close>: a packet nobody vouches for is inert, a flood of one channel text becomes one row, an accepted
    advertisement settles its contact.
  \<^item> \<open>HistoricalDecrypt\<close>, \<open>SweepProperties\<close> (\<open>services/historical_decrypt.py\<close>, the scan of \<open>repository/raw_packets.py\<close>): sweeps over stored packets.
    The locale \<open>row_sweep\<close> states what the body of a paged scan owes it; both scans are interpretations. A sweep equals trying every key on
    every packet, and leaves no packet behind that it could open.
  \<^item> \<open>RawMedia\<close> (\<open>services/raw_media_text.py\<close>, \<open>services/raw_media.py\<close>): image and voice fragments on their way to a contact, as raw packets or
    as direct messages of the \<open>rmt1:\<close> tunnel, and the choice between the two. A tunnelled fragment is handed over at exactly the
    arrivals that complete it, whatever the order and the repeats of its messages and the traffic in between; a raw frame starts with a path byte that receivers accept.

  \<^bold>\<open>Bounds and fuel.\<close> Loops that are not structural have termination proofs: the renormalisation of the rANS coder (the state shrinks
  by a byte), the cron search (the horizon of the code), the trimming loops (the size of the dict). The renormalisation loops of the
  arithmetic coder may run forever on a bad state; they are partial functions, and \<open>mcmp_returns\<close> shows that they return. The limit of
  the MCMP decoder is the constant of the code. \<open>read_plan\<close> of the MCOtxt planner carries the length of the text as fuel, shown to be
  enough; \<open>load_pages\<close>, the client of the page query, needs one unit more than there are rows, and so does the scan of a sweep (\<open>paged_scan\<close>).
  Constants of the code (caps, timeouts, limits) are definitions of the same name.

  \<^bold>\<open>Not modelled.\<close> The radio driver and its synchronisation (\<open>radio.py\<close>, \<open>radio_sync.py\<close>) follow the behaviour of the
  \<open>meshcore\<close> library. What the packet processor hands on (channel blobs, requests for a sweep) is an event of
  its model. The history of an app's inbox over live messages, data frames and several tasks at once is not treated; the handlers are
  modelled one by one, and the replay to a returning app is. The HTTP routers, the remaining repositories, the search language, the drift statistics, the unread counts and
  the statistics of the message table, and the migrations are SQL and request plumbing. The bot engine
  runs user code, the fan-out modules talk to external services, the neural part of the image codec runs ONNX models, and the
  frontend is not Python. The sockets, the status page and the activity trace of the virtual node hold no logic of their own.
\<close>

end
